(* ===== verification/Gz_Prelude.thy ===== *)
theory Gz_Prelude
  imports Main "HOL-Library.Word" "HOL-Library.Monad_Syntax" "HOL-Library.List_Lexorder"
begin

unbundle bit_operations_syntax

text \<open>
  Shared ground of the development: the machine types of the C sources, bounds-checked
  memory access, the parts of GLib's byte arrays, byte buffers and sequences the sources use,
  and the generic lemmas about them.

  Faults. A function of type \<open>\<dots> \<Rightarrow> 'a option\<close> whose source reads or writes raw
  memory returns \<open>None\<close> exactly where the C code has no defined behaviour (an access outside
  its buffer, a \<open>NULL\<close> dereference, a failed \<open>assert\<close>) or, for the loops defined by
  \<^theory_text>\<open>partial_function\<close>, where it does not return. A \<open>NULL\<close> result of the source is
  a \<open>None\<close> inside that type.
\<close>

section \<open>Machine types\<close>

type_synonym byte = "8 word"
type_synonym guint = "32 word"
type_synonym guint64 = "64 word"

text \<open>A C string, without its terminating NUL byte.\<close>

type_synonym cstring = "byte list"

text \<open>Well-formed C strings hold no NUL byte.\<close>

definition cstring_ok :: "cstring \<Rightarrow> bool" where
  "cstring_ok s \<longleftrightarrow> (0::byte) \<notin> set s"

record timeval =
  tv_sec :: int
  tv_usec :: int

text \<open>The \<open>timercmp\<close> macro for \<open><\<close>: seconds first, then microseconds.\<close>

definition timercmp_lt :: "timeval \<Rightarrow> timeval \<Rightarrow> bool" where
  "timercmp_lt a b = (if tv_sec a = tv_sec b then tv_usec a < tv_usec b else tv_sec a < tv_sec b)"

section \<open>Bounds-checked memory\<close>

definition rd :: "byte list \<Rightarrow> nat \<Rightarrow> byte option" where
  "rd m i = (if i < length m then Some (m ! i) else None)"

definition wr :: "byte list \<Rightarrow> nat \<Rightarrow> byte \<Rightarrow> byte list option" where
  "wr m i b = (if i < length m then Some (m[i := b]) else None)"

text \<open>Read \<open>n\<close> bytes from offset \<open>i\<close>, as \<open>memcpy\<close> and \<open>g_bytes_new\<close> do.\<close>

definition rd_range :: "byte list \<Rightarrow> nat \<Rightarrow> nat \<Rightarrow> byte list option" where
  "rd_range m i n = (if i + n \<le> length m then Some (take n (drop i m)) else None)"

definition memcpy :: "byte list \<Rightarrow> nat \<Rightarrow> byte list \<Rightarrow> byte list option" where
  "memcpy m i bs = (if i + length bs \<le> length m then Some (take i m @ bs @ drop (i + length bs) m) else None)"

section \<open>GLib byte arrays\<close>

definition g_byte_array_append :: "byte list \<Rightarrow> byte list \<Rightarrow> byte list" where
  "g_byte_array_append arr bs = arr @ bs"

definition g_byte_array_prepend :: "byte list \<Rightarrow> byte list \<Rightarrow> byte list" where
  "g_byte_array_prepend arr bs = bs @ arr"

text \<open>
  Growing leaves the new bytes unspecified; the model fills them with zeros, and every caller
  overwrites all of them.
\<close>

definition g_byte_array_set_size :: "byte list \<Rightarrow> nat \<Rightarrow> byte list" where
  "g_byte_array_set_size arr n = take n arr @ replicate (n - length arr) 0"

text \<open>Removing a range that is not inside the array is a critical error of the caller.\<close>

definition g_byte_array_remove_range :: "byte list \<Rightarrow> nat \<Rightarrow> nat \<Rightarrow> byte list option" where
  "g_byte_array_remove_range arr i n =
     (if i + n \<le> length arr then Some (take i arr @ drop (i + n) arr) else None)"

section \<open>Comparison of byte buffers\<close>

text \<open>
  \<open>g_bytes_compare\<close>: \<open>memcmp\<close> on the common length, then the shorter buffer is the smaller.
  Only the sign of the result is specified.
\<close>

fun g_bytes_compare :: "byte list \<Rightarrow> byte list \<Rightarrow> int" where
  "g_bytes_compare [] [] = 0"
| "g_bytes_compare [] (y # ys) = - 1"
| "g_bytes_compare (x # xs) [] = 1"
| "g_bytes_compare (x # xs) (y # ys) =
     (if x < y then - 1 else if y < x then 1 else g_bytes_compare xs ys)"

section \<open>GLib sequences and lists\<close>

text \<open>\<open>g_sequence_insert_sorted\<close>: before the first element that compares greater.\<close>

fun g_sequence_insert_sorted :: "('a \<Rightarrow> 'a \<Rightarrow> int) \<Rightarrow> 'a \<Rightarrow> 'a list \<Rightarrow> 'a list" where
  "g_sequence_insert_sorted cmp x [] = [x]"
| "g_sequence_insert_sorted cmp x (y # ys) =
     (if cmp y x > 0 then x # y # ys else y # g_sequence_insert_sorted cmp x ys)"

text \<open>\<open>g_hash_table_insert\<close> replaces the value of a key that is present.\<close>

definition g_hash_table_insert :: "'k \<Rightarrow> 'v \<Rightarrow> ('k \<times> 'v) list \<Rightarrow> ('k \<times> 'v) list" where
  "g_hash_table_insert k v table =
     (if k \<in> fst ` set table then map (\<lambda>(k', v'). if k' = k then (k', v) else (k', v')) table
      else table @ [(k, v)])"

definition g_hash_table_remove :: "'k \<Rightarrow> ('k \<times> 'v) list \<Rightarrow> ('k \<times> 'v) list" where
  "g_hash_table_remove k table = filter (\<lambda>(k', v). k' \<noteq> k) table"

text \<open>\<open>g_list_find_custom\<close> with a predicate: the first element that satisfies it.\<close>

fun g_list_find_custom :: "('a \<Rightarrow> bool) \<Rightarrow> 'a list \<Rightarrow> 'a option" where
  "g_list_find_custom p [] = None"
| "g_list_find_custom p (x # xs) = (if p x then Some x else g_list_find_custom p xs)"

section \<open>Collections and generic lemmas\<close>

named_theorems io_simps \<open>evaluation of bounds-checked reads and writes\<close>
named_theorems wire_simps \<open>parsing what was just written\<close>

lemma rd_append1 [io_simps]: "i < length xs \<Longrightarrow> rd (xs @ ys) i = rd xs i"
  by (simp add: rd_def nth_append)

lemma rd_append2 [io_simps]: "length xs \<le> i \<Longrightarrow> rd (xs @ ys) i = rd ys (i - length xs)"
  by (auto simp: rd_def nth_append)

lemma rd_Cons_0 [io_simps]: "rd (x # xs) 0 = Some x"
  by (simp add: rd_def)

lemma rd_Cons_Suc [io_simps]: "rd (x # xs) (Suc i) = rd xs i"
  by (simp add: rd_def)

lemma rd_Cons_numeral [io_simps]: "rd (x # xs) (numeral k) = rd xs (pred_numeral k)"
  by (simp add: numeral_eq_Suc rd_Cons_Suc)

lemma rd_Nil [io_simps]: "rd [] i = None"
  by (simp add: rd_def)

lemma rd_Some_iff: "rd m i = Some b \<longleftrightarrow> i < length m \<and> m ! i = b"
  by (simp add: rd_def)

lemma rd_None_iff: "rd m i = None \<longleftrightarrow> length m \<le> i"
  by (auto simp: rd_def)

lemma wr_append2 [io_simps]:
  "length xs \<le> i \<Longrightarrow> wr (xs @ ys) i b = map_option ((@) xs) (wr ys (i - length xs) b)"
  by (auto simp: wr_def list_update_append)

lemma wr_Cons_0 [io_simps]: "wr (x # xs) 0 b = Some (b # xs)"
  by (simp add: wr_def)

lemma wr_Cons_Suc [io_simps]: "wr (x # xs) (Suc i) b = map_option ((#) x) (wr xs i b)"
  by (simp add: wr_def)

lemma wr_Cons_numeral [io_simps]:
  "wr (x # xs) (numeral k) b = map_option ((#) x) (wr xs (pred_numeral k) b)"
  by (simp add: numeral_eq_Suc wr_Cons_Suc)

lemma memcpy_at [wire_simps]:
  "i = length xs \<Longrightarrow> length junk = length bs \<Longrightarrow> memcpy (xs @ junk @ ys) i bs = Some (xs @ bs @ ys)"
  by (simp add: memcpy_def)

lemma wr_at [wire_simps]: "i = length xs \<Longrightarrow> wr (xs @ a # ys) i b = Some (xs @ b # ys)"
  by (simp add: wr_def list_update_append)

lemma rd_range_append2:
  "length xs \<le> i \<Longrightarrow> rd_range (xs @ ys) i n = rd_range ys (i - length xs) n"
  by (auto simp: rd_range_def)

lemma rd_range_prefix [wire_simps]: "n = length xs \<Longrightarrow> rd_range (xs @ ys) 0 n = Some xs"
  by (simp add: rd_range_def)

lemma g_byte_array_set_size_grow:
  "g_byte_array_set_size arr (length arr + k) = arr @ replicate k 0"
  by (simp add: g_byte_array_set_size_def)

lemma g_bytes_compare_lexord:
  "g_bytes_compare a b = (if a < b then - 1 else if b < a then 1 else 0)"
  by (induction a b rule: g_bytes_compare.induct) auto

lemma g_bytes_compare_eq_0 [simp]: "g_bytes_compare a b = 0 \<longleftrightarrow> a = b"
  by (auto simp: g_bytes_compare_lexord)

lemma g_bytes_compare_neg: "g_bytes_compare a b < 0 \<longleftrightarrow> a < b"
  by (auto simp: g_bytes_compare_lexord)

lemma g_bytes_compare_pos: "g_bytes_compare a b > 0 \<longleftrightarrow> b < a"
  by (auto simp: g_bytes_compare_lexord)

lemma set_g_sequence_insert_sorted [simp]:
  "set (g_sequence_insert_sorted cmp x xs) = insert x (set xs)"
  by (induction xs) auto

lemma distinct_g_sequence_insert_sorted [simp]:
  "distinct (g_sequence_insert_sorted cmp x xs) \<longleftrightarrow> x \<notin> set xs \<and> distinct xs"
  by (induction xs) auto

lemma g_list_find_custom_Some:
  "g_list_find_custom p xs = Some x \<Longrightarrow> x \<in> set xs \<and> p x"
  by (induction xs) (auto split: if_splits)

lemma g_list_find_custom_None:
  "g_list_find_custom p xs = None \<longleftrightarrow> (\<forall>x \<in> set xs. \<not> p x)"
  by (induction xs) auto

end
