(* ===== verification/Common_Io.thy ===== *)
theory Common_Io
  imports Gz_Prelude
begin

text \<open>
  \<open>gzochi-common/src/io.c\<close>: big-endian encoding of 16, 32 and 64 bit integers into a byte
  buffer and back. The buffer is a byte list, a position outside it is a fault.
\<close>

definition gzochi_common_io_read_long :: "byte list \<Rightarrow> nat \<Rightarrow> 64 word option" where
  "gzochi_common_io_read_long bytes offset = do {
     b0 \<leftarrow> rd bytes offset;
     b1 \<leftarrow> rd bytes (offset + 1);
     b2 \<leftarrow> rd bytes (offset + 2);
     b3 \<leftarrow> rd bytes (offset + 3);
     b4 \<leftarrow> rd bytes (offset + 4);
     b5 \<leftarrow> rd bytes (offset + 5);
     b6 \<leftarrow> rd bytes (offset + 6);
     b7 \<leftarrow> rd bytes (offset + 7);
     Some (push_bit 56 (ucast b0) + push_bit 48 (ucast b1) + push_bit 40 (ucast b2)
       + push_bit 32 (ucast b3) + push_bit 24 (ucast b4) + push_bit 16 (ucast b5)
       + push_bit 8 (ucast b6) + ucast b7)
   }"

definition gzochi_common_io_read_int :: "byte list \<Rightarrow> nat \<Rightarrow> 32 word option" where
  "gzochi_common_io_read_int bytes offset = do {
     b0 \<leftarrow> rd bytes offset;
     b1 \<leftarrow> rd bytes (offset + 1);
     b2 \<leftarrow> rd bytes (offset + 2);
     b3 \<leftarrow> rd bytes (offset + 3);
     Some (push_bit 24 (ucast b0) + push_bit 16 (ucast b1) + push_bit 8 (ucast b2) + ucast b3)
   }"

text \<open>The sum is computed at \<open>int\<close> width and converted to \<open>short\<close> by the return.\<close>

definition gzochi_common_io_read_short :: "byte list \<Rightarrow> nat \<Rightarrow> 16 word option" where
  "gzochi_common_io_read_short bytes offset = do {
     b0 \<leftarrow> rd bytes offset;
     b1 \<leftarrow> rd bytes (offset + 1);
     Some (ucast (push_bit 8 (ucast b0 :: 32 word) + ucast b1))
   }"

text \<open>The shifts of the source are arithmetic: \<open>val\<close> is signed.\<close>

definition gzochi_common_io_write_long :: "64 word \<Rightarrow> byte list \<Rightarrow> nat \<Rightarrow> byte list option" where
  "gzochi_common_io_write_long val bytes offset = do {
     m \<leftarrow> wr bytes offset (ucast (signed_drop_bit 56 val));
     m \<leftarrow> wr m (offset + 1) (ucast (signed_drop_bit 48 val AND 0xff));
     m \<leftarrow> wr m (offset + 2) (ucast (signed_drop_bit 40 val AND 0xff));
     m \<leftarrow> wr m (offset + 3) (ucast (signed_drop_bit 32 val AND 0xff));
     m \<leftarrow> wr m (offset + 4) (ucast (signed_drop_bit 24 val AND 0xff));
     m \<leftarrow> wr m (offset + 5) (ucast (signed_drop_bit 16 val AND 0xff));
     m \<leftarrow> wr m (offset + 6) (ucast (signed_drop_bit 8 val AND 0xff));
     wr m (offset + 7) (ucast (val AND 0xff))
   }"

definition gzochi_common_io_write_int :: "32 word \<Rightarrow> byte list \<Rightarrow> nat \<Rightarrow> byte list option" where
  "gzochi_common_io_write_int val bytes offset = do {
     m \<leftarrow> wr bytes offset (ucast (signed_drop_bit 24 val));
     m \<leftarrow> wr m (offset + 1) (ucast (signed_drop_bit 16 val AND 0xff));
     m \<leftarrow> wr m (offset + 2) (ucast (signed_drop_bit 8 val AND 0xff));
     wr m (offset + 3) (ucast (val AND 0xff))
   }"

text \<open>The \<open>short\<close> is promoted to \<open>int\<close> (sign extension) before it is shifted.\<close>

definition gzochi_common_io_write_short :: "16 word \<Rightarrow> byte list \<Rightarrow> nat \<Rightarrow> byte list option" where
  "gzochi_common_io_write_short val bytes offset = do {
     m \<leftarrow> wr bytes offset (ucast (signed_drop_bit 8 (scast val :: 32 word) AND 0xff));
     wr m (offset + 1) (ucast ((scast val :: 32 word) AND 0xff))
   }"

text \<open>The bytes that the three writers produce, as reference encodings.\<close>

definition be_short :: "16 word \<Rightarrow> byte list" where
  "be_short v = [ucast (drop_bit 8 v), ucast v]"

definition be_int :: "32 word \<Rightarrow> byte list" where
  "be_int v = [ucast (drop_bit 24 v), ucast (drop_bit 16 v), ucast (drop_bit 8 v), ucast v]"

definition be_long :: "64 word \<Rightarrow> byte list" where
  "be_long v = [ucast (drop_bit 56 v), ucast (drop_bit 48 v), ucast (drop_bit 40 v),
     ucast (drop_bit 32 v), ucast (drop_bit 24 v), ucast (drop_bit 16 v),
     ucast (drop_bit 8 v), ucast v]"

lemma length_be_short [simp]: "length (be_short v) = 2"
  by (simp add: be_short_def)

lemma length_be_int [simp]: "length (be_int v) = 4"
  by (simp add: be_int_def)

lemma length_be_long [simp]: "length (be_long v) = 8"
  by (simp add: be_long_def)

lemma mask8: "(0xff :: 'a::len word) = mask 8"
  by (simp add: mask_eq_exp_minus_1)

lemma ucast_and_ff: "(ucast (w AND 0xff :: 'a::len word) :: byte) = ucast w"
  unfolding mask8 by (rule bit_word_eqI) (auto simp: bit_simps dest: bit_imp_le_length)

lemma low_byte_of_shift:
  fixes v :: "'a::len word"
  assumes "n + 8 \<le> LENGTH('a)"
  shows "(ucast (signed_drop_bit n v) :: byte) = ucast (drop_bit n v)"
  using assms by (intro bit_word_eqI) (auto simp: bit_simps)

lemma join_byte:
  fixes v :: "'a::len word"
  shows "push_bit (k + 8) (drop_bit (k + 8) v) + push_bit k (ucast (ucast (drop_bit k v) :: byte))
    = push_bit k (drop_bit k v)"
proof -
  let ?hi = "push_bit (k + 8) (drop_bit (k + 8) v)"
  let ?lo = "push_bit k (ucast (ucast (drop_bit k v) :: byte)) :: 'a word"
  have "?hi + ?lo = ?hi OR ?lo"
    by (rule disjunctive_add) (auto simp: bit_simps)
  also have "\<dots> = push_bit k (drop_bit k v)"
  proof (rule bit_word_eqI)
    fix n
    assume "n < LENGTH('a)"
    then show "bit (?hi OR ?lo) n \<longleftrightarrow> bit (push_bit k (drop_bit k v)) n"
      by (cases "n < k + 8") (auto simp: bit_simps)
  qed
  finally show ?thesis .
qed

lemma top_byte:
  fixes v :: "'a::len word"
  assumes "LENGTH('a) = k + 8"
  shows "push_bit k (ucast (ucast (drop_bit k v) :: byte)) = push_bit k (drop_bit k v)"
  using assms by (intro bit_word_eqI) (auto simp: bit_simps)

lemma join_int: "push_bit 24 (ucast (ucast (drop_bit 24 v) :: byte))
    + push_bit 16 (ucast (ucast (drop_bit 16 v) :: byte))
    + push_bit 8 (ucast (ucast (drop_bit 8 v) :: byte)) + ucast (ucast v :: byte) = (v::32 word)"
  using join_byte [of 0 v] join_byte [of 8 v] join_byte [of 16 v] 
  by (simp add: top_byte)

lemma join_long:
  "push_bit 56 (ucast (ucast (drop_bit 56 v) :: byte))
    + push_bit 48 (ucast (ucast (drop_bit 48 v) :: byte))
    + push_bit 40 (ucast (ucast (drop_bit 40 v) :: byte))
    + push_bit 32 (ucast (ucast (drop_bit 32 v) :: byte))
    + push_bit 24 (ucast (ucast (drop_bit 24 v) :: byte))
    + push_bit 16 (ucast (ucast (drop_bit 16 v) :: byte))
    + push_bit 8 (ucast (ucast (drop_bit 8 v) :: byte)) + ucast (ucast v :: byte) = (v::64 word)"
  using join_byte [of 0 v] join_byte [of 8 v] join_byte [of 16 v] join_byte [of 24 v]
    join_byte [of 32 v] join_byte [of 40 v] join_byte [of 48 v]
  by (simp add: top_byte)

lemma join_short:
  "ucast (push_bit 8 (ucast (ucast (drop_bit 8 v) :: byte) :: 32 word) + ucast (ucast v :: byte))
    = (v::16 word)"
proof -
  have "push_bit 8 (ucast (ucast (drop_bit 8 v) :: byte) :: 32 word) + ucast (ucast v :: byte)
    = push_bit 8 (ucast (ucast (drop_bit 8 v) :: byte)) OR ucast (ucast v :: byte)"
    by (rule disjunctive_add) (auto simp: bit_simps)
  then show ?thesis
    by (auto intro!: bit_word_eqI simp: bit_simps)
qed

text \<open>Writers produce the reference bytes whatever the array held there; readers recover them.\<close>

lemma write_long_at_end [wire_simps]:
  assumes "length junk = 8"
  shows "gzochi_common_io_write_long v (arr @ junk) (length arr) = Some (arr @ be_long v)"
proof -
  obtain a b c d e f g h where "junk = [a, b, c, d, e, f, g, h]"
    using assms by (auto simp: numeral_eq_Suc length_Suc_conv)
  then show ?thesis
    by (simp add: gzochi_common_io_write_long_def be_long_def io_simps low_byte_of_shift ucast_and_ff)
qed

lemma write_long_at [wire_simps]:
  assumes "i = length arr" and "length junk = 8"
  shows "gzochi_common_io_write_long v (arr @ junk @ ys) i = Some (arr @ be_long v @ ys)"
proof -
  obtain a b c d e f g h where "junk = [a, b, c, d, e, f, g, h]"
    using assms(2) by (auto simp: numeral_eq_Suc length_Suc_conv)
  then show ?thesis
    by (simp add: gzochi_common_io_write_long_def be_long_def io_simps low_byte_of_shift ucast_and_ff assms(1))
qed

lemma write_int_at_end [wire_simps]:
  assumes "length junk = 4"
  shows "gzochi_common_io_write_int v (arr @ junk) (length arr) = Some (arr @ be_int v)"
proof -
  obtain a b c d where "junk = [a, b, c, d]"
    using assms by (auto simp: numeral_eq_Suc length_Suc_conv)
  then show ?thesis
    by (simp add: gzochi_common_io_write_int_def be_int_def io_simps low_byte_of_shift ucast_and_ff)
qed

lemma short_hi: "(ucast (signed_drop_bit 8 (scast (v :: 16 word) :: 32 word)) :: byte) = ucast (drop_bit 8 v)"
  by (rule bit_word_eqI) (auto simp: bit_simps)

lemma short_lo: "(ucast (scast (v :: 16 word) :: 32 word) :: byte) = ucast v"
  by (rule bit_word_eqI) (auto simp: bit_simps)

lemma write_short_at_end [wire_simps]:
  assumes "length junk = 2"
  shows "gzochi_common_io_write_short v (arr @ junk @ ys) (length arr) = Some (arr @ be_short v @ ys)"
proof -
  obtain a b where "junk = [a, b]"
    using assms by (auto simp: numeral_eq_Suc length_Suc_conv)
  then show ?thesis
    by (simp add: gzochi_common_io_write_short_def be_short_def io_simps short_hi short_lo ucast_and_ff)
qed

lemma read_long_be [wire_simps]:
  "gzochi_common_io_read_long (xs @ be_long v @ ys) (length xs) = Some v"
  by (simp add: gzochi_common_io_read_long_def be_long_def io_simps join_long)

lemma read_int_be [wire_simps]:
  "gzochi_common_io_read_int (xs @ be_int v @ ys) (length xs) = Some v"
  by (simp add: gzochi_common_io_read_int_def be_int_def io_simps join_int)

lemma read_short_be [wire_simps]:
  "gzochi_common_io_read_short (xs @ be_short v @ ys) (length xs) = Some v"
  by (simp add: gzochi_common_io_read_short_def be_short_def io_simps join_short)

end
