(* ===== verification/Util_Codec.thy ===== *)
theory Util_Codec
  imports Common_Io
begin

text \<open>
  \<open>gzochi-server/src/util.c\<close>: serialization of the basic types, of lists, sequences and hash
  tables into a growing byte array and back, the comparison functions of the interval tree and of
  the ordered stores, the portable encoding of object ids, and the bounded formatting of byte
  buffers for log messages.

  A \<open>GByteArray\<close> is a byte list. A serializer takes the array and returns the extended one, a
  deserializer consumes a prefix and returns the rest; reading past the end is a fault.
\<close>

section \<open>Serialization\<close>

definition gzochid_util_serialize_boolean :: "bool \<Rightarrow> byte list \<Rightarrow> byte list option" where
  "gzochid_util_serialize_boolean b out = Some (g_byte_array_append out [if b then 0x1 else 0x0])"

definition gzochid_util_serialize_int :: "32 word \<Rightarrow> byte list \<Rightarrow> byte list option" where
  "gzochid_util_serialize_int n out = do {
     n_str \<leftarrow> gzochi_common_io_write_int n (replicate 4 0) 0;
     Some (g_byte_array_append out n_str)
   }"

text \<open>\<open>str\<close> is the caller's memory; \<open>len\<close> bytes of it are appended.\<close>

definition gzochid_util_serialize_bytes ::
    "byte list \<Rightarrow> 32 word \<Rightarrow> byte list \<Rightarrow> byte list option" where
  "gzochid_util_serialize_bytes str len out = do {
     out \<leftarrow> gzochid_util_serialize_int len out;
     bs \<leftarrow> rd_range str 0 (unat len);
     Some (g_byte_array_append out bs)
   }"

definition gzochid_util_serialize_string :: "cstring \<Rightarrow> byte list \<Rightarrow> byte list option" where
  "gzochid_util_serialize_string str out =
     gzochid_util_serialize_bytes (str @ [0]) (word_of_nat (length str + 1)) out"

definition gzochid_util_serialize_uint64 :: "guint64 \<Rightarrow> byte list \<Rightarrow> byte list option" where
  "gzochid_util_serialize_uint64 oid out = do {
     n_str \<leftarrow> gzochi_common_io_write_long oid (replicate 8 0) 0;
     Some (g_byte_array_append out n_str)
   }"

definition gzochid_util_serialize_oid :: "guint64 \<Rightarrow> byte list \<Rightarrow> byte list option" where
  "gzochid_util_serialize_oid oid out = gzochid_util_serialize_uint64 oid out"

text \<open>The loop over the list (or over the sequence's iterator).\<close>

fun serialize_elements ::
    "('a \<Rightarrow> byte list \<Rightarrow> byte list option) \<Rightarrow> 'a list \<Rightarrow> byte list \<Rightarrow> byte list option" where
  "serialize_elements serializer [] out = Some out"
| "serialize_elements serializer (x # xs) out = do {
     out \<leftarrow> serializer x out;
     serialize_elements serializer xs out
   }"

definition gzochid_util_serialize_list ::
    "'a list \<Rightarrow> ('a \<Rightarrow> byte list \<Rightarrow> byte list option) \<Rightarrow> byte list \<Rightarrow> byte list option" where
  "gzochid_util_serialize_list list serializer out = do {
     len_str \<leftarrow> gzochi_common_io_write_int (word_of_nat (length list)) (replicate 4 0) 0;
     serialize_elements serializer list (g_byte_array_append out len_str)
   }"

definition gzochid_util_serialize_sequence ::
    "'a list \<Rightarrow> ('a \<Rightarrow> byte list \<Rightarrow> byte list option) \<Rightarrow> byte list \<Rightarrow> byte list option" where
  "gzochid_util_serialize_sequence sequence serializer out = do {
     len_str \<leftarrow> gzochi_common_io_write_int (word_of_nat (length sequence)) (replicate 4 0) 0;
     serialize_elements serializer sequence (g_byte_array_append out len_str)
   }"

text \<open>The hash table is given by its entries in the order the iterator visits them.\<close>

fun serialize_entries ::
    "('k \<Rightarrow> byte list \<Rightarrow> byte list option) \<Rightarrow> ('v \<Rightarrow> byte list \<Rightarrow> byte list option) \<Rightarrow>
     ('k \<times> 'v) list \<Rightarrow> byte list \<Rightarrow> byte list option" where
  "serialize_entries key_serializer value_serializer [] out = Some out"
| "serialize_entries key_serializer value_serializer ((k, v) # kvs) out = do {
     out \<leftarrow> key_serializer k out;
     out \<leftarrow> value_serializer v out;
     serialize_entries key_serializer value_serializer kvs out
   }"

definition gzochid_util_serialize_hash_table ::
    "('k \<times> 'v) list \<Rightarrow> ('k \<Rightarrow> byte list \<Rightarrow> byte list option) \<Rightarrow>
     ('v \<Rightarrow> byte list \<Rightarrow> byte list option) \<Rightarrow> byte list \<Rightarrow> byte list option" where
  "gzochid_util_serialize_hash_table hashtable key_serializer value_serializer out = do {
     len_str \<leftarrow> gzochi_common_io_write_int (word_of_nat (length hashtable)) (replicate 4 0) 0;
     serialize_entries key_serializer value_serializer hashtable (g_byte_array_append out len_str)
   }"

text \<open>Seconds and microseconds are converted to \<open>int\<close>, so only their low 32 bits are kept.\<close>

definition gzochid_util_serialize_timeval :: "timeval \<Rightarrow> byte list \<Rightarrow> byte list option" where
  "gzochid_util_serialize_timeval tv out = do {
     str \<leftarrow> gzochi_common_io_write_int (word_of_int (tv_sec tv)) (replicate 4 0) 0;
     let out = g_byte_array_append out str;
     str \<leftarrow> gzochi_common_io_write_int (word_of_int (tv_usec tv)) str 0;
     Some (g_byte_array_append out str)
   }"

section \<open>Deserialization\<close>

definition gzochid_util_deserialize_boolean :: "byte list \<Rightarrow> (bool \<times> byte list) option" where
  "gzochid_util_deserialize_boolean inp = do {
     b \<leftarrow> rd inp 0;
     rest \<leftarrow> g_byte_array_remove_range inp 0 1;
     Some (b = 0x1, rest)
   }"

definition gzochid_util_deserialize_int :: "byte list \<Rightarrow> (32 word \<times> byte list) option" where
  "gzochid_util_deserialize_int inp = do {
     n \<leftarrow> gzochi_common_io_read_int inp 0;
     rest \<leftarrow> g_byte_array_remove_range inp 0 4;
     Some (n, rest)
   }"

text \<open>
  The length is converted to \<open>size_t\<close> for \<open>malloc\<close> and \<open>memcpy\<close>: a negative one, or one
  beyond the end of the array, has no defined behaviour.
\<close>

definition gzochid_util_deserialize_bytes :: "byte list \<Rightarrow> (byte list \<times> byte list) option" where
  "gzochid_util_deserialize_bytes inp = do {
     str_len \<leftarrow> gzochi_common_io_read_int inp 0;
     if sint str_len < 0 then None
     else do {
       i_str \<leftarrow> rd_range inp 4 (nat (sint str_len));
       rest \<leftarrow> g_byte_array_remove_range inp 0 (4 + nat (sint str_len));
       Some (i_str, rest)
     }
   }"

text \<open>The result is the copied memory, the string's terminator included.\<close>

definition gzochid_util_deserialize_string :: "byte list \<Rightarrow> (byte list \<times> byte list) option" where
  "gzochid_util_deserialize_string inp = gzochid_util_deserialize_bytes inp"

definition gzochid_util_deserialize_uint64 :: "byte list \<Rightarrow> (guint64 \<times> byte list) option" where
  "gzochid_util_deserialize_uint64 inp = do {
     n \<leftarrow> gzochi_common_io_read_long inp 0;
     rest \<leftarrow> g_byte_array_remove_range inp 0 8;
     Some (n, rest)
   }"

definition gzochid_util_deserialize_oid :: "byte list \<Rightarrow> (guint64 \<times> byte list) option" where
  "gzochid_util_deserialize_oid inp = gzochid_util_deserialize_uint64 inp"

fun deserialize_elements ::
    "(byte list \<Rightarrow> ('a \<times> byte list) option) \<Rightarrow> nat \<Rightarrow> 'a list \<Rightarrow> byte list \<Rightarrow>
     ('a list \<times> byte list) option" where
  "deserialize_elements deserializer 0 ret inp = Some (ret, inp)"
| "deserialize_elements deserializer (Suc len) ret inp = do {
     (x, inp) \<leftarrow> deserializer inp;
     deserialize_elements deserializer len (ret @ [x]) inp
   }"

definition gzochid_util_deserialize_list ::
    "byte list \<Rightarrow> (byte list \<Rightarrow> ('a \<times> byte list) option) \<Rightarrow> ('a list \<times> byte list) option" where
  "gzochid_util_deserialize_list inp deserializer = do {
     len \<leftarrow> gzochi_common_io_read_int inp 0;
     inp \<leftarrow> g_byte_array_remove_range inp 0 4;
     deserialize_elements deserializer (nat (sint len)) [] inp
   }"

definition gzochid_util_deserialize_sequence ::
    "byte list \<Rightarrow> (byte list \<Rightarrow> ('a \<times> byte list) option) \<Rightarrow> ('a list \<times> byte list) option" where
  "gzochid_util_deserialize_sequence inp deserializer = do {
     len \<leftarrow> gzochi_common_io_read_int inp 0;
     inp \<leftarrow> g_byte_array_remove_range inp 0 4;
     deserialize_elements deserializer (nat (sint len)) [] inp
   }"

fun deserialize_entries ::
    "(byte list \<Rightarrow> ('k \<times> byte list) option) \<Rightarrow> (byte list \<Rightarrow> ('v \<times> byte list) option) \<Rightarrow>
     nat \<Rightarrow> ('k \<rightharpoonup> 'v) \<Rightarrow> byte list \<Rightarrow> (('k \<rightharpoonup> 'v) \<times> byte list) option" where
  "deserialize_entries kd vd 0 ret inp = Some (ret, inp)"
| "deserialize_entries kd vd (Suc len) ret inp = do {
     (key, inp) \<leftarrow> kd inp;
     (val, inp) \<leftarrow> vd inp;
     deserialize_entries kd vd len (ret(key \<mapsto> val)) inp
   }"

definition gzochid_util_deserialize_hash_table ::
    "byte list \<Rightarrow> (byte list \<Rightarrow> ('k \<times> byte list) option) \<Rightarrow>
     (byte list \<Rightarrow> ('v \<times> byte list) option) \<Rightarrow> (('k \<rightharpoonup> 'v) \<times> byte list) option" where
  "gzochid_util_deserialize_hash_table inp kd vd = do {
     len \<leftarrow> gzochi_common_io_read_int inp 0;
     inp \<leftarrow> g_byte_array_remove_range inp 0 4;
     deserialize_entries kd vd (nat (sint len)) Map.empty inp
   }"

definition gzochid_util_deserialize_timeval :: "byte list \<Rightarrow> (timeval \<times> byte list) option" where
  "gzochid_util_deserialize_timeval inp = do {
     s \<leftarrow> gzochi_common_io_read_int inp 0;
     inp \<leftarrow> g_byte_array_remove_range inp 0 4;
     u \<leftarrow> gzochi_common_io_read_int inp 0;
     inp \<leftarrow> g_byte_array_remove_range inp 0 4;
     Some (\<lparr>tv_sec = sint s, tv_usec = sint u\<rparr>, inp)
   }"

section \<open>Comparison functions\<close>

text \<open>\<open>g_strcmp0\<close>: \<open>NULL\<close> sorts before every string.\<close>

definition gzochid_util_string_data_compare :: "cstring option \<Rightarrow> cstring option \<Rightarrow> int" where
  "gzochid_util_string_data_compare a b =
     (case (a, b) of (None, None) \<Rightarrow> 0 | (None, Some _) \<Rightarrow> - 1 | (Some _, None) \<Rightarrow> 1
      | (Some s, Some t) \<Rightarrow> g_bytes_compare s t)"

definition gzochid_util_guint64_data_compare :: "guint64 \<Rightarrow> guint64 \<Rightarrow> int" where
  "gzochid_util_guint64_data_compare an bn = (if an < bn then - 1 else if an > bn then 1 else 0)"

definition gzochid_util_bytes_compare_null_first ::
    "byte list option \<Rightarrow> byte list option \<Rightarrow> int" where
  "gzochid_util_bytes_compare_null_first o1 o2 =
     (case o1 of None \<Rightarrow> (if o2 = None then 0 else - 1)
      | Some b1 \<Rightarrow> (case o2 of None \<Rightarrow> 1 | Some b2 \<Rightarrow> g_bytes_compare b1 b2))"

definition gzochid_util_bytes_compare_null_last ::
    "byte list option \<Rightarrow> byte list option \<Rightarrow> int" where
  "gzochid_util_bytes_compare_null_last o1 o2 =
     (case o1 of None \<Rightarrow> (if o2 = None then 0 else 1)
      | Some b1 \<Rightarrow> (case o2 of None \<Rightarrow> - 1 | Some b2 \<Rightarrow> g_bytes_compare b1 b2))"

section \<open>Object ids, copies, formatting\<close>

text \<open>\<open>GUINT64_TO_BE\<close> and \<open>GUINT64_FROM_BE\<close> on a little-endian host: the byte swap.\<close>

definition bswap64 :: "guint64 \<Rightarrow> guint64" where
  "bswap64 v =
     push_bit 56 (ucast (ucast v :: byte)) OR push_bit 48 (ucast (ucast (drop_bit 8 v) :: byte))
     OR push_bit 40 (ucast (ucast (drop_bit 16 v) :: byte))
     OR push_bit 32 (ucast (ucast (drop_bit 24 v) :: byte))
     OR push_bit 24 (ucast (ucast (drop_bit 32 v) :: byte))
     OR push_bit 16 (ucast (ucast (drop_bit 40 v) :: byte))
     OR push_bit 8 (ucast (ucast (drop_bit 48 v) :: byte)) OR ucast (ucast (drop_bit 56 v) :: byte)"

text \<open>\<open>be\<close> says whether the host is big-endian (\<open>G_BYTE_ORDER\<close>).\<close>

definition gzochid_util_encode_oid :: "bool \<Rightarrow> guint64 \<Rightarrow> guint64" where
  "gzochid_util_encode_oid be oid = (if be then oid else bswap64 oid)"

definition gzochid_util_decode_oid :: "bool \<Rightarrow> guint64 \<Rightarrow> guint64" where
  "gzochid_util_decode_oid be oid = (if be then oid else bswap64 oid)"

text \<open>The eight bytes of a \<open>guint64\<close> in the memory of the host.\<close>

definition host_bytes :: "bool \<Rightarrow> guint64 \<Rightarrow> byte list" where
  "host_bytes be v = (if be then be_long v else rev (be_long v))"

fun list_copy_deep_loop :: "('a \<Rightarrow> 'b) \<Rightarrow> 'a list \<Rightarrow> 'b list \<Rightarrow> 'b list" where
  "list_copy_deep_loop func [] new_list = new_list"
| "list_copy_deep_loop func (x # list_ptr) new_list =
     list_copy_deep_loop func list_ptr (func x # new_list)"

definition gzochid_util_list_copy_deep :: "'a list \<Rightarrow> ('a \<Rightarrow> 'b) \<Rightarrow> 'b list" where
  "gzochid_util_list_copy_deep list func = rev (list_copy_deep_loop func list [])"

definition nibble_to_hex_char :: "byte \<Rightarrow> byte" where
  "nibble_to_hex_char n = (if n < 10 then n + 48 else n + 87)"

text \<open>\<open>isgraph\<close> in the C locale.\<close>

definition isgraph :: "byte \<Rightarrow> bool" where
  "isgraph b \<longleftrightarrow> 33 \<le> b \<and> b \<le> 126"

text \<open>The loop; \<open>out\<close> holds what is in the buffer so far, so \<open>buf_offset\<close> is its length.\<close>

fun format_bytes_loop :: "int \<Rightarrow> byte list \<Rightarrow> byte list \<Rightarrow> byte list" where
  "format_bytes_loop max_offset [] out = out"
| "format_bytes_loop max_offset (b # bs) out =
     (if int (length out) < max_offset then
        if isgraph b then
          if bs = [] \<or> int (length out) < max_offset - 1
          then format_bytes_loop max_offset bs (out @ [b])
          else format_bytes_loop max_offset bs (out @ [95])
        else if max_offset - int (length out) \<ge> 4
          then format_bytes_loop max_offset bs
                 (out @ [92, 120, nibble_to_hex_char (b div 16), nibble_to_hex_char (b mod 16)])
        else out @ [95]
      else out)"

definition gzochid_util_format_bytes :: "byte list \<Rightarrow> nat \<Rightarrow> byte list" where
  "gzochid_util_format_bytes bytes buf_len = format_bytes_loop (int buf_len - 1) bytes [] @ [0]"


section \<open>The codec interface\<close>

text \<open>
  What the container serializers rely on: on the values in \<open>valid\<close>, the serializer appends the
  bytes \<open>enc x\<close>, and the deserializer takes exactly those bytes off the front.
\<close>

locale codec =
  fixes ser :: "'a \<Rightarrow> byte list \<Rightarrow> byte list option"
    and deser :: "byte list \<Rightarrow> ('a \<times> byte list) option"
    and enc :: "'a \<Rightarrow> byte list"
    and valid :: "'a \<Rightarrow> bool"
  assumes ser_enc: "valid x \<Longrightarrow> ser x out = Some (out @ enc x)"
    and deser_enc: "valid x \<Longrightarrow> deser (enc x @ rest) = Some (x, rest)"
begin

lemma serialize_elements_enc:
  "list_all valid xs \<Longrightarrow> serialize_elements ser xs out = Some (out @ concat (map enc xs))"
  by (induction xs arbitrary: out) (auto simp: ser_enc)

lemma deserialize_elements_enc:
  "list_all valid xs \<Longrightarrow>
   deserialize_elements deser (length xs) acc (concat (map enc xs) @ rest) = Some (acc @ xs, rest)"
  by (induction xs arbitrary: acc) (auto simp: deser_enc)

end

lemmas util_io_defs = g_byte_array_append_def g_byte_array_remove_range_def Let_def

lemma write_int_fresh [wire_simps]:
  "length junk = 4 \<Longrightarrow> gzochi_common_io_write_int v junk 0 = Some (be_int v)"
  using write_int_at_end [of junk v "[]"] by simp

lemma write_long_fresh [wire_simps]:
  "length junk = 8 \<Longrightarrow> gzochi_common_io_write_long v junk 0 = Some (be_long v)"
  using write_long_at_end [of junk v "[]"] by simp

lemma read_int_front [wire_simps]: "gzochi_common_io_read_int (be_int v @ ys) 0 = Some v"
  using read_int_be [of "[]"] by simp

lemma read_long_front [wire_simps]: "gzochi_common_io_read_long (be_long v @ ys) 0 = Some v"
  using read_long_be [of "[]"] by simp

lemma sint_word32: "- (2 ^ 31) \<le> i \<Longrightarrow> i < 2 ^ 31 \<Longrightarrow> sint (word_of_int i :: 32 word) = i"
  by (simp add: sint_sbintrunc' signed_take_bit_int_eq_self)

lemma sint_of_nat_length:
  assumes "n < 2 ^ 31"
  shows "sint (word_of_nat n :: 32 word) = int n"
  using sint_word32 [of "int n"] assms by simp

lemma map_of_rev_distinct: "distinct (map fst kvs) \<Longrightarrow> map_of (rev kvs) = map_of kvs"
  by (subst map_of_inject_set) (auto simp: rev_map [symmetric])

context codec
begin

text \<open>Lists and sequences of up to \<open>2 ^ 31 - 1\<close> valid elements round-trip.\<close>

lemma list_codec:
  assumes "list_all valid xs" and "length xs < 2 ^ 31"
  shows "gzochid_util_serialize_list xs ser out =
      Some (out @ be_int (word_of_nat (length xs)) @ concat (map enc xs))"
    and "gzochid_util_deserialize_list
      (be_int (word_of_nat (length xs)) @ concat (map enc xs) @ rest) deser = Some (xs, rest)"
  using assms serialize_elements_enc deserialize_elements_enc [of xs "[]"]
  by (simp_all add: gzochid_util_serialize_list_def gzochid_util_deserialize_list_def
      util_io_defs wire_simps sint_of_nat_length)

lemma sequence_codec:
  assumes "list_all valid xs" and "length xs < 2 ^ 31"
  shows "gzochid_util_serialize_sequence xs ser out =
      Some (out @ be_int (word_of_nat (length xs)) @ concat (map enc xs))"
    and "gzochid_util_deserialize_sequence
      (be_int (word_of_nat (length xs)) @ concat (map enc xs) @ rest) deser = Some (xs, rest)"
  using assms serialize_elements_enc deserialize_elements_enc [of xs "[]"]
  by (simp_all add: gzochid_util_serialize_sequence_def gzochid_util_deserialize_sequence_def
      util_io_defs wire_simps sint_of_nat_length)

end

text \<open>A codec for the keys and one for the values give the hash table's.\<close>

locale table_codec = k: codec kser kdeser kenc kvalid + v: codec vser vdeser venc vvalid
  for kser :: "'k \<Rightarrow> byte list \<Rightarrow> byte list option" and kdeser kenc kvalid
    and vser :: "'v \<Rightarrow> byte list \<Rightarrow> byte list option" and vdeser venc vvalid
begin

abbreviation entry_enc :: "'k \<times> 'v \<Rightarrow> byte list" where
  "entry_enc kv \<equiv> kenc (fst kv) @ venc (snd kv)"

abbreviation entry_ok :: "'k \<times> 'v \<Rightarrow> bool" where
  "entry_ok kv \<equiv> kvalid (fst kv) \<and> vvalid (snd kv)"

lemma serialize_entries_enc:
  "list_all entry_ok kvs \<Longrightarrow>
   serialize_entries kser vser kvs out = Some (out @ concat (map entry_enc kvs))"
  by (induction kvs arbitrary: out) (auto simp: k.ser_enc v.ser_enc)

lemma deserialize_entries_enc:
  "list_all entry_ok kvs \<Longrightarrow>
   deserialize_entries kdeser vdeser (length kvs) m (concat (map entry_enc kvs) @ rest) =
     Some (m ++ map_of (rev kvs), rest)"
  by (induction kvs arbitrary: m) (auto simp: k.deser_enc v.deser_enc)

lemma hash_table_codec:
  assumes "list_all entry_ok kvs" and "length kvs < 2 ^ 31" and "distinct (map fst kvs)"
  shows "gzochid_util_serialize_hash_table kvs kser vser out =
      Some (out @ be_int (word_of_nat (length kvs)) @ concat (map entry_enc kvs))"
    and "gzochid_util_deserialize_hash_table
      (be_int (word_of_nat (length kvs)) @ concat (map entry_enc kvs) @ rest) kdeser vdeser =
      Some (map_of kvs, rest)"
  using assms serialize_entries_enc deserialize_entries_enc [of kvs Map.empty]
    map_of_rev_distinct [of kvs]
  by (simp_all add: gzochid_util_serialize_hash_table_def gzochid_util_deserialize_hash_table_def
      util_io_defs wire_simps sint_of_nat_length)

end


section \<open>The codecs of the basic types\<close>

lemma serialize_int_enc: "gzochid_util_serialize_int n out = Some (out @ be_int n)"
  by (simp add: gzochid_util_serialize_int_def util_io_defs wire_simps)

interpretation int_codec: codec gzochid_util_serialize_int gzochid_util_deserialize_int
    be_int "\<lambda>_. True"
  by unfold_locales
    (simp_all add: serialize_int_enc gzochid_util_deserialize_int_def util_io_defs wire_simps)

interpretation uint64_codec: codec gzochid_util_serialize_uint64 gzochid_util_deserialize_uint64
    be_long "\<lambda>_. True"
  by unfold_locales
    (simp_all add: gzochid_util_serialize_uint64_def gzochid_util_deserialize_uint64_def
      util_io_defs wire_simps)

interpretation oid_codec: codec gzochid_util_serialize_oid gzochid_util_deserialize_oid
    be_long "\<lambda>_. True"
  by unfold_locales
    (simp_all add: gzochid_util_serialize_oid_def gzochid_util_deserialize_oid_def
      uint64_codec.ser_enc uint64_codec.deser_enc)

interpretation boolean_codec: codec gzochid_util_serialize_boolean gzochid_util_deserialize_boolean
    "\<lambda>b. [if b then 1 else 0]" "\<lambda>_. True"
  by unfold_locales
    (simp_all add: gzochid_util_serialize_boolean_def gzochid_util_deserialize_boolean_def
      util_io_defs io_simps)

lemma serialize_bytes_enc:
  assumes "length bs < 2 ^ 31"
  shows "gzochid_util_serialize_bytes bs (word_of_nat (length bs)) out =
    Some (out @ be_int (word_of_nat (length bs)) @ bs)"
  using assms
  by (simp add: gzochid_util_serialize_bytes_def serialize_int_enc util_io_defs rd_range_def
      unat_of_nat)

lemma deserialize_bytes_enc:
  assumes "length bs < 2 ^ 31"
  shows "gzochid_util_deserialize_bytes (be_int (word_of_nat (length bs)) @ bs @ rest) =
    Some (bs, rest)"
  using assms
  by (simp add: gzochid_util_deserialize_bytes_def util_io_defs wire_simps sint_of_nat_length
      rd_range_def)

interpretation bytes_codec: codec
    "\<lambda>bs. gzochid_util_serialize_bytes bs (word_of_nat (length bs))" gzochid_util_deserialize_bytes
    "\<lambda>bs. be_int (word_of_nat (length bs)) @ bs" "\<lambda>bs. length bs < 2 ^ 31"
  by unfold_locales (simp_all add: serialize_bytes_enc deserialize_bytes_enc)

text \<open>The string codec writes a string and reads back its memory, terminator included.\<close>

interpretation string_codec: codec
    "\<lambda>m. gzochid_util_serialize_string (butlast m)" gzochid_util_deserialize_string
    "\<lambda>m. be_int (word_of_nat (length m)) @ m"
    "\<lambda>m. m \<noteq> [] \<and> last m = 0 \<and> length m < 2 ^ 31"
proof unfold_locales
  fix m :: "byte list" and out rest
  assume m: "m \<noteq> [] \<and> last m = 0 \<and> length m < 2 ^ 31"
  then have "butlast m @ [0] = m" and "length (butlast m) + 1 = length m"
    by (metis append_butlast_last_id) (use m in simp)
  with m show "gzochid_util_serialize_string (butlast m) out =
      Some (out @ be_int (word_of_nat (length m)) @ m)"
    by (simp only: gzochid_util_serialize_string_def serialize_bytes_enc)
  from m show "gzochid_util_deserialize_string ((be_int (word_of_nat (length m)) @ m) @ rest) =
      Some (m, rest)"
    by (simp add: gzochid_util_deserialize_string_def deserialize_bytes_enc)
qed

definition timeval_fits :: "timeval \<Rightarrow> bool" where
  "timeval_fits tv \<longleftrightarrow> - (2 ^ 31) \<le> tv_sec tv \<and> tv_sec tv < 2 ^ 31
     \<and> - (2 ^ 31) \<le> tv_usec tv \<and> tv_usec tv < 2 ^ 31"

interpretation timeval_codec: codec gzochid_util_serialize_timeval gzochid_util_deserialize_timeval
    "\<lambda>tv. be_int (word_of_int (tv_sec tv)) @ be_int (word_of_int (tv_usec tv))" timeval_fits
  by unfold_locales
    (simp_all add: gzochid_util_serialize_timeval_def gzochid_util_deserialize_timeval_def
      util_io_defs wire_simps timeval_fits_def sint_word32)

interpretation string_oid_table: table_codec
    "\<lambda>m. gzochid_util_serialize_string (butlast m)" gzochid_util_deserialize_string
    "\<lambda>m. be_int (word_of_nat (length m)) @ m"
    "\<lambda>m. m \<noteq> [] \<and> last m = 0 \<and> length m < 2 ^ 31"
    gzochid_util_serialize_oid gzochid_util_deserialize_oid be_long "\<lambda>_. True"
  by unfold_locales


section \<open>Object ids\<close>

lemma be_long_bswap64: "be_long (bswap64 v) = rev (be_long v)"
  by (simp add: be_long_def bswap64_def) (intro conjI bit_word_eqI; auto simp: bit_simps)

lemma be_long_inject: "be_long v = be_long w \<Longrightarrow> v = w"
  by (metis append_Nil2 option.inject read_long_front)

lemma bswap64_bswap64 [simp]: "bswap64 (bswap64 v) = v"
  by (rule be_long_inject) (simp add: be_long_bswap64)

text \<open>
  The portable encoding of an object id: on either host byte order, the bytes in memory of
  the encoded id are its big-endian bytes, and decoding the encoded id gives the id back.
\<close>

theorem oid_encoding_portable:
  "host_bytes be (gzochid_util_encode_oid be oid) = be_long oid
   \<and> gzochid_util_decode_oid be (gzochid_util_encode_oid be oid) = oid"
  by (simp add: host_bytes_def gzochid_util_encode_oid_def gzochid_util_decode_oid_def
      be_long_bswap64)

text \<open>The big-endian encoding as a number, and its order.\<close>

definition be_val :: "byte list \<Rightarrow> nat" where
  "be_val bs = foldl (\<lambda>n b. n * 256 + unat b) 0 bs"

lemma be_val_acc:
  "foldl (\<lambda>n b. n * 256 + unat (b :: byte)) k bs = k * 256 ^ length bs + be_val bs"
proof (induction bs arbitrary: k)
  case Nil
  then show ?case by (simp add: be_val_def)
next
  case (Cons b bs)
  from Cons [of "k * 256 + unat b"] Cons [of "unat b"] show ?case
    by (simp add: be_val_def algebra_simps)
qed

lemma be_val_Cons: "be_val (b # bs) = unat b * 256 ^ length bs + be_val bs"
  using be_val_acc [of "unat b" bs] by (simp add: be_val_def)

lemma be_val_bound: "be_val bs < 256 ^ length bs"
proof (induction bs)
  case Nil
  then show ?case by (simp add: be_val_def)
next
  case (Cons b bs)
  have "unat b < 256"
    using unsigned_less [of b, where ?'a = nat] by simp
  then have "unat b * 256 ^ length bs + 256 ^ length bs \<le> 256 * 256 ^ length bs"
    using mult_le_mono1 [of "unat b + 1" 256 "256 ^ length bs"] by (simp add: algebra_simps)
  with Cons show ?case
    unfolding be_val_Cons length_Cons power_Suc by linarith
qed

lemma be_val_less:
  "length xs = length ys \<Longrightarrow> xs < ys \<longleftrightarrow> be_val xs < be_val ys"
proof (induction xs ys rule: list_induct2)
  case Nil
  then show ?case by simp
next
  case (Cons x xs y ys)
  let ?p = "256 ^ length xs :: nat"
  have step: "unat a * ?p + m < unat b * ?p + n" if "a < b" and "m < ?p" for a b :: byte and m n
  proof -
    from that(1) have "(unat a + 1) * ?p \<le> unat b * ?p"
      by (intro mult_right_mono) (auto simp: word_less_nat_alt)
    with that(2) show ?thesis by (simp add: algebra_simps)
  qed
  show ?case
    using Cons step [of x y "be_val xs" "be_val ys"] step [of y x "be_val ys" "be_val xs"]
      be_val_bound [of xs] be_val_bound [of ys]
    by (cases x y rule: linorder_cases) (auto simp: be_val_Cons)
qed

lemma unat_byte_at: "unat (ucast (drop_bit k (v :: guint64)) :: byte) = unat v div 2 ^ k mod 256"
  by (simp add: unsigned_ucast_eq take_bit_eq_mod unat_drop_bit_eq flip: drop_bit_eq_div)

lemma be_long_value: "be_val (be_long v) = unat v"
proof -
  define n where "n = unat v"
  have n: "n < 2 ^ 64"
    using unsigned_less [of v, where ?'a = nat] by (simp add: n_def)
  have "be_val (be_long v) =
      ((((((n div 2 ^ 56 mod 256 * 256 + n div 2 ^ 48 mod 256) * 256 + n div 2 ^ 40 mod 256) * 256
        + n div 2 ^ 32 mod 256) * 256 + n div 2 ^ 24 mod 256) * 256 + n div 2 ^ 16 mod 256) * 256
        + n div 2 ^ 8 mod 256) * 256 + n mod 256"
    by (simp only: be_long_def be_val_def foldl.simps unat_byte_at n_def)
      (simp add: unat_byte_at [of 0, simplified])
  also have "\<dots> = n"
  proof -
    have step: "n div 2 ^ (k + 8) * 256 + n div 2 ^ k mod 256 = n div 2 ^ k" for k
      by (simp add: power_add div_mult2_eq)
    have "n div 2 ^ 56 mod 256 = n div 2 ^ 56"
      using n by simp
    then show ?thesis
      using step [of 48] step [of 40] step [of 32] step [of 24] step [of 16] step [of 8] step [of 0]
      by (simp del: One_nat_def)
  qed
  finally show ?thesis by (simp add: n_def)
qed

text \<open>
  The encoding keeps the order: comparing two object ids as numbers, as
  \<open>gzochid_util_guint64_data_compare\<close> does, is comparing their encoded bytes as the stores do.
\<close>

theorem oid_encoding_ordered:
  "gzochid_util_guint64_data_compare a b = g_bytes_compare (be_long a) (be_long b)"
  using be_val_less [of "be_long a" "be_long b"] be_val_less [of "be_long b" "be_long a"]
  by (simp add: gzochid_util_guint64_data_compare_def g_bytes_compare_lexord be_long_value
      word_less_nat_alt)

section \<open>Round trips of the containers\<close>

text \<open>
  A list of object ids written by \<open>gzochid_util_serialize_list\<close> to any array is read back
  by \<open>gzochid_util_deserialize_list\<close>, whatever bytes follow it.
\<close>

theorem oid_list_roundtrip:
  assumes "length oids < 2 ^ 31"
  shows "\<exists>bs. gzochid_util_serialize_list oids gzochid_util_serialize_oid out = Some (out @ bs)
    \<and> gzochid_util_deserialize_list (bs @ rest) gzochid_util_deserialize_oid = Some (oids, rest)"
  using oid_codec.list_codec [of oids] assms by (simp add: list.pred_True)

theorem oid_list_roundtrip_witness:
  "\<exists>bs. gzochid_util_serialize_list [7, 2 ^ 63] gzochid_util_serialize_oid [9] = Some ([9] @ bs)
    \<and> gzochid_util_deserialize_list (bs @ [1]) gzochid_util_deserialize_oid = Some ([7, 2 ^ 63], [1])"
  by (rule oid_list_roundtrip) simp

text \<open>
  A hash table from names to object ids is read back as the same mapping, whatever order its
  entries were visited in when it was written. Names are C strings: the memory read back is the
  name and its terminator.
\<close>

theorem name_table_roundtrip:
  assumes "length kvs < 2 ^ 31" and "distinct (map fst kvs)"
    and "list_all (\<lambda>kv. fst kv \<noteq> [] \<and> last (fst kv) = 0 \<and> length (fst kv) < 2 ^ 31) kvs"
  shows "\<exists>bs. gzochid_util_serialize_hash_table kvs
        (\<lambda>m. gzochid_util_serialize_string (butlast m)) gzochid_util_serialize_oid out = Some (out @ bs)
    \<and> gzochid_util_deserialize_hash_table (bs @ rest) gzochid_util_deserialize_string
        gzochid_util_deserialize_oid = Some (map_of kvs, rest)"
  using string_oid_table.hash_table_codec [of kvs] assms by simp

theorem name_table_roundtrip_witness:
  "\<exists>bs. gzochid_util_serialize_hash_table [([97, 0], 5), ([98, 99, 0], 6)]
        (\<lambda>m. gzochid_util_serialize_string (butlast m)) gzochid_util_serialize_oid [] = Some ([] @ bs)
    \<and> gzochid_util_deserialize_hash_table (bs @ [4]) gzochid_util_deserialize_string
        gzochid_util_deserialize_oid = Some (map_of [([97, 0], 5), ([98, 99, 0], 6)], [4])"
  by (rule name_table_roundtrip) simp_all

section \<open>Formatting and copying\<close>

lemma format_bytes_loop_length:
  "int (length out) \<le> max 0 m \<Longrightarrow> int (length (format_bytes_loop m bs out)) \<le> max 0 m"
  by (induction m bs out rule: format_bytes_loop.induct) auto

text \<open>
  Formatting a byte buffer for a log message never writes past the destination: with a
  buffer of \<open>buf_len > 0\<close> bytes, at most \<open>buf_len\<close> bytes are written, the terminator included.
\<close>

theorem format_bytes_bounded:
  "0 < buf_len \<Longrightarrow> length (gzochid_util_format_bytes bytes buf_len) \<le> buf_len"
  using format_bytes_loop_length [of "[]" "int buf_len - 1" bytes]
  by (simp add: gzochid_util_format_bytes_def)

theorem format_bytes_bounded_witness:
  "length (gzochid_util_format_bytes [65, 0, 66, 255, 67] 9) \<le> 9"
  using format_bytes_bounded [of 9 "[65, 0, 66, 255, 67]"] by simp

lemma list_copy_deep_loop_eq: "list_copy_deep_loop f xs acc = rev (map f xs) @ acc"
  by (induction xs arbitrary: acc) auto

lemma list_copy_deep_map: "gzochid_util_list_copy_deep xs f = map f xs"
  by (simp add: gzochid_util_list_copy_deep_def list_copy_deep_loop_eq)

end
