(* ===== verification/Data_Protocol.thy ===== *)
theory Data_Protocol
  imports Util_Codec
begin

text \<open>
  The wire formats of the data service: \<open>protocol-common.c\<close> (NUL-terminated strings and
  length-prefixed buffers inside a received message) and \<open>data-protocol.c\<close> (reservations of
  object ids, responses to value and key requests, changesets), with their structures from
  \<open>data-protocol.h\<close> and \<open>oids.h\<close>.

  A pointer into a message is the message and an offset; readers are told how many bytes follow
  it. The outer \<open>option\<close> of a reader is the fault of an access outside the message, the inner
  one is the \<open>NULL\<close> it returns for a malformed message.
\<close>

section \<open>protocol-common.c\<close>

text \<open>\<open>memchr (bytes, 0, n)\<close>, reading byte by byte up to the first NUL.\<close>

fun memchr_nul :: "byte list \<Rightarrow> nat \<Rightarrow> nat \<Rightarrow> nat option option" where
  "memchr_nul m p 0 = Some None"
| "memchr_nul m p (Suc n) = do {
     b \<leftarrow> rd m p;
     if b = 0 then Some (Some p) else memchr_nul m (Suc p) n
   }"

text \<open>The string and \<open>str_len\<close>, which counts the terminator.\<close>

definition gzochid_protocol_read_str ::
    "byte list \<Rightarrow> nat \<Rightarrow> nat \<Rightarrow> (cstring \<times> nat) option option" where
  "gzochid_protocol_read_str m p bytes_len = do {
     e \<leftarrow> memchr_nul m p bytes_len;
     case e of
       None \<Rightarrow> Some None
     | Some q \<Rightarrow> Some (Some (take (q - p) (drop p m), q - p + 1))
   }"

text \<open>
  The prefix is a \<open>short\<close>; the comparison with \<open>bytes_len - 2\<close> converts it to \<open>size_t\<close>,
  with sign extension.
\<close>

definition gzochid_protocol_read_bytes ::
    "byte list \<Rightarrow> nat \<Rightarrow> nat \<Rightarrow> byte list option option" where
  "gzochid_protocol_read_bytes m p bytes_len =
     (if bytes_len < 2 then Some None
      else do {
        prefix \<leftarrow> gzochi_common_io_read_short m p;
        let n = unat (scast prefix :: 64 word);
        if bytes_len - 2 < n then Some None
        else do {
          bs \<leftarrow> rd_range m (p + 2) n;
          Some (Some bs)
        }
      })"

section \<open>data-protocol.h, oids.h: structures\<close>

record gzochid_data_oids_block =
  block_start :: guint64
  block_size :: "16 word"

record gzochid_data_reserve_oids_response =
  oids_app :: cstring
  oids_block :: gzochid_data_oids_block

text \<open>
  \<open>data\<close> and \<open>timeout\<close> are the members of a union; the first one is meaningful when
  \<open>success\<close> is set, the second one when it is not.
\<close>

record gzochid_data_response =
  resp_app :: cstring
  resp_store :: cstring
  resp_success :: bool
  resp_data :: "byte list option"
  resp_timeout :: timeval

text \<open>\<open>None\<close> is a \<open>NULL\<close> pointer.\<close>

record gzochid_data_change =
  chg_store :: "cstring option"
  chg_delete :: bool
  chg_key :: "byte list option"
  chg_data :: "byte list option"

record gzochid_data_changeset =
  cs_app :: cstring
  cs_changes :: "gzochid_data_change list"

section \<open>data-protocol.c\<close>

definition write_bytes :: "byte list \<Rightarrow> byte list \<Rightarrow> byte list option" where
  "write_bytes data arr = do {
     let arr_len = length arr;
     let arr = g_byte_array_set_size arr (arr_len + 2);
     arr \<leftarrow> gzochi_common_io_write_short (word_of_nat (length data)) arr arr_len;
     Some (g_byte_array_append arr data)
   }"

definition read_timeval :: "byte list \<Rightarrow> nat \<Rightarrow> nat \<Rightarrow> timeval option option" where
  "read_timeval m p bytes_len =
     (if bytes_len < 8 then Some None
      else do {
        s \<leftarrow> gzochi_common_io_read_int m p;
        u \<leftarrow> gzochi_common_io_read_int m (p + 4);
        Some (Some \<lparr>tv_sec = sint s, tv_usec = sint u\<rparr>)
      })"

definition write_timeval :: "timeval \<Rightarrow> byte list \<Rightarrow> byte list option" where
  "write_timeval tv arr = do {
     let len = length arr;
     let arr = g_byte_array_set_size arr (len + 8);
     arr \<leftarrow> gzochi_common_io_write_int (word_of_int (tv_sec tv)) arr len;
     gzochi_common_io_write_int (word_of_int (tv_usec tv)) arr (len + 4)
   }"

definition gzochid_data_reserve_oids_response_new ::
    "cstring \<Rightarrow> gzochid_data_oids_block \<Rightarrow> gzochid_data_reserve_oids_response" where
  "gzochid_data_reserve_oids_response_new app block =
     \<lparr>oids_app = app,
      oids_block = \<lparr>block_start = block_start block, block_size = block_size block\<rparr>\<rparr>"

definition gzochid_data_protocol_reserve_oids_response_write ::
    "gzochid_data_reserve_oids_response \<Rightarrow> byte list \<Rightarrow> byte list option" where
  "gzochid_data_protocol_reserve_oids_response_write response arr = do {
     let arr = g_byte_array_append arr (oids_app response @ [0]);
     let len = length arr;
     let arr = g_byte_array_set_size arr (len + 8);
     arr \<leftarrow> gzochi_common_io_write_long (block_start (oids_block response)) arr len;
     let len = length arr;
     let arr = g_byte_array_set_size arr (len + 2);
     gzochi_common_io_write_short (block_size (oids_block response)) arr len
   }"

text \<open>The oid and the number of bytes read, 0 when there are too few.\<close>

definition read_oid :: "byte list \<Rightarrow> nat \<Rightarrow> 64 word \<Rightarrow> (guint64 \<times> nat) option" where
  "read_oid m p len =
     (if len < 8 then Some (0, 0)
      else do {
        ret \<leftarrow> gzochi_common_io_read_long m p;
        Some (ret, 8)
      })"

text \<open>
  \<open>len\<close> is a \<open>size_t\<close> and the second \<open>len -= str_len\<close> can wrap around, so it is kept as a
  64 bit word.
\<close>

definition gzochid_data_protocol_reserve_oids_response_read ::
    "byte list \<Rightarrow> gzochid_data_reserve_oids_response option option" where
  "gzochid_data_protocol_reserve_oids_response_read m = do {
     r \<leftarrow> gzochid_protocol_read_str m 0 (length m);
     case r of
       None \<Rightarrow> Some None
     | Some (app, str_len) \<Rightarrow>
         if str_len = 0 then Some None
         else do {
           let len = (word_of_nat (length m) :: 64 word) - word_of_nat str_len;
           (oid, oid_len) \<leftarrow> read_oid m str_len len;
           if oid_len = 0 then Some None
           else do {
             let len = len - word_of_nat str_len;
             if str_len > 1 \<and> len \<ge> 2 then do {
               size \<leftarrow> gzochi_common_io_read_short m (str_len + oid_len);
               Some (Some (gzochid_data_reserve_oids_response_new app
                 \<lparr>block_start = oid, block_size = size\<rparr>))
             }
             else Some None
           }
         }
   }"

text \<open>
  A response with \<open>success\<close> unset and no data. The structure comes from \<open>g_slice_alloc\<close>, so
  the part of the union that the \<open>NULL\<close> data pointer does not cover is not initialized: it is
  the argument \<open>uninit\<close>. Data with \<open>success\<close> unset fails the assertion.
\<close>

definition gzochid_data_response_new ::
    "int \<Rightarrow> cstring \<Rightarrow> cstring \<Rightarrow> bool \<Rightarrow> byte list option \<Rightarrow> gzochid_data_response option" where
  "gzochid_data_response_new uninit app store success data =
     (if data \<noteq> None \<and> \<not> success then None
      else Some \<lparr>resp_app = app, resp_store = store, resp_success = success, resp_data = data,
        resp_timeout = \<lparr>tv_sec = 0, tv_usec = uninit\<rparr>\<rparr>)"

text \<open>
  \<open>success\<close> is a \<open>gboolean\<close>, an \<open>int\<close>, of which the first byte in memory is written: its
  low byte on a little-endian host, its high byte on a big-endian one (\<open>be\<close>).
\<close>

definition gboolean_first_byte :: "bool \<Rightarrow> bool \<Rightarrow> byte" where
  "gboolean_first_byte be b = (if be then 0 else if b then 1 else 0)"

definition gzochid_data_protocol_response_write ::
    "bool \<Rightarrow> gzochid_data_response \<Rightarrow> byte list \<Rightarrow> byte list option" where
  "gzochid_data_protocol_response_write be response arr = do {
     let arr = g_byte_array_append arr (resp_app response @ [0]);
     let arr = g_byte_array_append arr (resp_store response @ [0]);
     let arr = g_byte_array_append arr [gboolean_first_byte be (resp_success response)];
     if resp_success response then
       case resp_data response of
         Some data \<Rightarrow> write_bytes data arr
       | None \<Rightarrow> Some (g_byte_array_append arr [0, 0])
     else write_timeval (resp_timeout response) arr
   }"

definition gzochid_data_protocol_response_read ::
    "int \<Rightarrow> byte list \<Rightarrow> gzochid_data_response option option" where
  "gzochid_data_protocol_response_read uninit m = do {
     r \<leftarrow> gzochid_protocol_read_str m 0 (length m);
     case r of
       None \<Rightarrow> Some None
     | Some (app, str_len) \<Rightarrow> do {
         let len = length m - str_len;
         let offset = str_len;
         r \<leftarrow> gzochid_protocol_read_str m offset len;
         case r of
           None \<Rightarrow> Some None
         | Some (store, str_len) \<Rightarrow> do {
             let len = len - str_len;
             let offset = offset + str_len;
             if len = 0 then Some None
             else do {
               let len = len - 1;
               flag \<leftarrow> rd m offset;
               if flag \<noteq> 0 then do {
                 r \<leftarrow> gzochid_protocol_read_bytes m (offset + 1) len;
                 case r of
                   None \<Rightarrow> Some None
                 | Some obj_bytes \<Rightarrow>
                     if length obj_bytes = 0
                     then map_option Some (gzochid_data_response_new uninit app store True None)
                     else map_option Some
                            (gzochid_data_response_new uninit app store True (Some obj_bytes))
               }
               else if len < 8 then Some None
               else do {
                 t \<leftarrow> read_timeval m (offset + 1) len;
                 case t of
                   None \<Rightarrow> Some None
                 | Some timeout \<Rightarrow> do {
                     response \<leftarrow> gzochid_data_response_new uninit app store False None;
                     Some (Some (response\<lparr>resp_timeout := timeout\<rparr>))
                   }
               }
             }
           }
       }
   }"

definition gzochid_data_changeset_new ::
    "cstring \<Rightarrow> gzochid_data_change list \<Rightarrow> gzochid_data_changeset" where
  "gzochid_data_changeset_new app changes = \<lparr>cs_app = app, cs_changes = changes\<rparr>"

text \<open>A record of the zero-filled change array that was not read from the message.\<close>

definition zero_change :: gzochid_data_change where
  "zero_change = \<lparr>chg_store = None, chg_delete = False, chg_key = None, chg_data = None\<rparr>"

text \<open>The change and the number of bytes it took.\<close>

definition change_read ::
    "byte list \<Rightarrow> nat \<Rightarrow> nat \<Rightarrow> (gzochid_data_change \<times> nat) option option" where
  "change_read m p len = do {
     r \<leftarrow> gzochid_protocol_read_str m p len;
     case r of
       None \<Rightarrow> Some None
     | Some (store, str_len) \<Rightarrow>
         if str_len \<le> 1 then Some None
         else do {
           let len = len - str_len;
           let size = str_len;
           r \<leftarrow> gzochid_protocol_read_bytes m (p + size) len;
           case r of
             None \<Rightarrow> Some None
           | Some key \<Rightarrow>
               if length key = 0 then Some None
               else do {
                 let size = size + (length key + 2);
                 let len = len - (length key + 2);
                 r \<leftarrow> gzochid_protocol_read_bytes m (p + size) len;
                 case r of
                   None \<Rightarrow> Some None
                 | Some data \<Rightarrow>
                     Some (Some
                       (zero_change\<lparr>chg_store := Some store, chg_key := Some key,
                          chg_delete := (length data = 0),
                          chg_data := (if length data = 0 then None else Some data)\<rparr>,
                        size + 2 + length data))
               }
         }
   }"

text \<open>Writing a change with a \<open>NULL\<close> store or key, or without the data it needs, is a fault.\<close>

definition change_write :: "gzochid_data_change \<Rightarrow> byte list \<Rightarrow> byte list option" where
  "change_write change arr = do {
     store \<leftarrow> chg_store change;
     let arr = g_byte_array_append arr (store @ [0]);
     key \<leftarrow> chg_key change;
     arr \<leftarrow> write_bytes key arr;
     if chg_delete change then Some (g_byte_array_append arr [0, 0])
     else do {
       data \<leftarrow> chg_data change;
       write_bytes data arr
     }
   }"

fun changes_write_loop :: "gzochid_data_change list \<Rightarrow> byte list \<Rightarrow> byte list option" where
  "changes_write_loop [] arr = Some arr"
| "changes_write_loop (change # changes) arr = do {
     arr \<leftarrow> change_write change arr;
     changes_write_loop changes arr
   }"

definition gzochid_data_protocol_changeset_write ::
    "gzochid_data_changeset \<Rightarrow> byte list \<Rightarrow> byte list option" where
  "gzochid_data_protocol_changeset_write changeset arr = do {
     let arr = g_byte_array_append arr (cs_app changeset @ [0]);
     let len = length arr;
     let arr = g_byte_array_set_size arr (len + 2);
     arr \<leftarrow> gzochi_common_io_write_short (word_of_nat (length (cs_changes changeset))) arr len;
     changes_write_loop (cs_changes changeset) arr
   }"

text \<open>
  The loop reads up to \<open>n\<close> more changes while there are bytes left; the records it does not
  reach stay zero.
\<close>

fun changes_read_loop ::
    "byte list \<Rightarrow> nat \<Rightarrow> nat \<Rightarrow> nat \<Rightarrow> gzochid_data_change list option option" where
  "changes_read_loop m 0 offset len = Some (Some [])"
| "changes_read_loop m (Suc n) offset len =
     (if len > 0 then do {
        r \<leftarrow> change_read m offset len;
        case r of
          None \<Rightarrow> Some None
        | Some (change, sz) \<Rightarrow> do {
            rest \<leftarrow> changes_read_loop m n (offset + sz) (len - sz);
            Some (map_option ((#) change) rest)
          }
      }
      else Some (Some (replicate (Suc n) zero_change)))"

text \<open>\<open>num_changes\<close> is a signed \<open>short\<close>; a negative one gives the empty array.\<close>

definition gzochid_data_protocol_changeset_read ::
    "byte list \<Rightarrow> gzochid_data_changeset option option" where
  "gzochid_data_protocol_changeset_read m = do {
     r \<leftarrow> gzochid_protocol_read_str m 0 (length m);
     case r of
       None \<Rightarrow> Some None
     | Some (app, offset) \<Rightarrow> do {
         let len = length m - offset;
         if len \<le> 2 then Some None
         else do {
           num_changes \<leftarrow> gzochi_common_io_read_short m offset;
           let offset = offset + 2;
           let len = len - 2;
           if sint num_changes > 0 then do {
             r \<leftarrow> changes_read_loop m (nat (sint num_changes)) offset len;
             Some (map_option (gzochid_data_changeset_new app) r)
           }
           else Some (Some (gzochid_data_changeset_new app []))
         }
       }
   }"


section \<open>Reading what was written\<close>

text \<open>
  A reader at offset \<open>p\<close> sees \<open>drop p m\<close>; the lemmas say what it returns when that begins with
  an encoded item.
\<close>

lemma at_offset: "drop p m = xs @ ys \<Longrightarrow> xs \<noteq> [] \<Longrightarrow> m = take p m @ xs @ ys \<and> length (take p m) = p"
  by (metis append_take_drop_id drop_all append_is_Nil_conv length_take min.absorb2 nat_le_linear)

lemma read_short_drop:
  assumes "drop p m = be_short v @ ys"
  shows "gzochi_common_io_read_short m p = Some v"
  using at_offset [OF assms] read_short_be [of "take p m" v ys] by (auto simp: be_short_def)

lemma read_int_drop:
  assumes "drop p m = be_int v @ ys"
  shows "gzochi_common_io_read_int m p = Some v"
  using at_offset [OF assms] read_int_be [of "take p m" v ys] by (auto simp: be_int_def)

lemma read_long_drop:
  assumes "drop p m = be_long v @ ys"
  shows "gzochi_common_io_read_long m p = Some v"
  using at_offset [OF assms] read_long_be [of "take p m" v ys] by (auto simp: be_long_def)

lemma rd_drop: "drop p m = b # ys \<Longrightarrow> rd m p = Some b"
  by (metis drop_all list.distinct(1) not_le rd_Some_iff Cons_nth_drop_Suc list.inject)

lemma drop_Suc_of: "drop p m = b # ys \<Longrightarrow> drop (Suc p) m = ys"
  by (metis drop_Suc list.sel(3) tl_drop)

lemma memchr_nul_drop:
  assumes "drop p m = s @ 0 # ys" and "cstring_ok s" and "length s < n"
  shows "memchr_nul m p n = Some (Some (p + length s))"
  using assms
proof (induction s arbitrary: p n)
  case Nil
  then show ?case by (cases n) (auto simp: rd_drop)
next
  case (Cons b s)
  from Cons.prems obtain k where n: "n = Suc k"
    by (cases n) auto
  have "memchr_nul m (Suc p) k = Some (Some (Suc p + length s))"
    using Cons.prems n by (intro Cons.IH) (auto simp: cstring_ok_def drop_Suc_of)
  then show ?case
    using Cons.prems n by (auto simp: cstring_ok_def rd_drop)
qed

lemma read_str_drop:
  assumes "drop p m = s @ 0 # ys" and "cstring_ok s" and "length s < n"
  shows "gzochid_protocol_read_str m p n = Some (Some (s, length s + 1))"
  using assms by (simp add: gzochid_protocol_read_str_def memchr_nul_drop)

text \<open>A length below \<open>2 ^ 15\<close> survives the conversion to \<open>short\<close> and back to \<open>size_t\<close>.\<close>

lemma sint_word16: "n < 2 ^ 15 \<Longrightarrow> sint (word_of_nat n :: 16 word) = int n"
  using signed_take_bit_int_eq_self [of 15 "int n"] sint_sbintrunc' [of "int n", where ?'a = 16]
  by simp

lemma unat_scast_short: "n < 2 ^ 15 \<Longrightarrow> unat (scast (word_of_nat n :: 16 word) :: 64 word) = n"
  by (simp add: sint_word16 scast_eq unat_of_nat)

lemma read_bytes_drop:
  assumes "drop p m = be_short (word_of_nat (length d)) @ d @ ys"
    and "length d < 2 ^ 15" and "length d + 2 \<le> n"
  shows "gzochid_protocol_read_bytes m p n = Some (Some d)"
proof -
  have m: "m = take p m @ be_short (word_of_nat (length d)) @ d @ ys" and p: "length (take p m) = p"
    using at_offset [OF assms(1)] by (auto simp: be_short_def)
  have "drop (p + 2) m = d @ ys"
    using assms(1) by (metis add.commute append_eq_conv_conj drop_drop length_be_short)
  moreover have "p + 2 + length d \<le> length m"
    using p by (subst m) simp
  ultimately have "rd_range m (p + 2) (length d) = Some d"
    by (simp add: rd_range_def)
  with assms(2,3) read_short_drop [OF assms(1)] show ?thesis
    by (auto simp: gzochid_protocol_read_bytes_def unat_scast_short Let_def)
qed

section \<open>Readers stay inside the message\<close>

lemma memchr_nul_safe: "p + n \<le> length m \<Longrightarrow> memchr_nul m p n \<noteq> None"
  by (induction n arbitrary: p) (auto simp: rd_def)

lemma memchr_nul_range: "memchr_nul m p n = Some (Some q) \<Longrightarrow> p \<le> q \<and> q < p + n"
  by (induction n arbitrary: p) (fastforce split: bind_splits if_splits)+

lemma read_str_safe:
  assumes "p + n \<le> length m"
  obtains "gzochid_protocol_read_str m p n = Some None"
  | s k where "gzochid_protocol_read_str m p n = Some (Some (s, k))" and "0 < k" and "k \<le> n"
proof -
  obtain e where e: "memchr_nul m p n = Some e"
    using memchr_nul_safe [OF assms] by blast
  then show thesis
    using that memchr_nul_range [of m p n]
    by (cases e) (auto simp: gzochid_protocol_read_str_def)
qed

lemma read_short_safe: "p + 2 \<le> length m \<Longrightarrow> \<exists>v. gzochi_common_io_read_short m p = Some v"
  by (simp add: gzochi_common_io_read_short_def rd_def)

lemma read_int_safe: "p + 4 \<le> length m \<Longrightarrow> \<exists>v. gzochi_common_io_read_int m p = Some v"
  by (simp add: gzochi_common_io_read_int_def rd_def)

lemma read_bytes_safe:
  assumes "p + n \<le> length m"
  obtains "gzochid_protocol_read_bytes m p n = Some None"
  | bs where "gzochid_protocol_read_bytes m p n = Some (Some bs)" and "length bs + 2 \<le> n"
proof (cases "n < 2")
  case True
  then show thesis using that by (simp add: gzochid_protocol_read_bytes_def)
next
  case False
  then obtain v where v: "gzochi_common_io_read_short m p = Some v"
    using read_short_safe [of p m] assms by auto
  show thesis
  proof (cases "n - 2 < unat (scast v :: 64 word)")
    case True
    with False v show thesis by (intro that(1)) (simp add: gzochid_protocol_read_bytes_def)
  next
    case le: False
    with False v assms show thesis
      by (intro that(2) [of "take (unat (scast v :: 64 word)) (drop (p + 2) m)"])
        (auto simp: gzochid_protocol_read_bytes_def rd_range_def Let_def)
  qed
qed

section \<open>Writers\<close>

lemma write_short_grown [wire_simps]:
  "gzochi_common_io_write_short v (g_byte_array_set_size arr (length arr + 2)) (length arr) =
    Some (arr @ be_short v)"
  using write_short_at_end [of "[0, 0]" v arr "[]"]
  by (simp add: g_byte_array_set_size_def numeral_eq_Suc)

lemma write_long_grown [wire_simps]:
  "gzochi_common_io_write_long v (g_byte_array_set_size arr (length arr + 8)) (length arr) =
    Some (arr @ be_long v)"
  using write_long_at_end [of "replicate 8 0" v arr] by (simp add: g_byte_array_set_size_def)

lemma write_bytes_eq [wire_simps]:
  "write_bytes d arr = Some (arr @ be_short (word_of_nat (length d)) @ d)"
  by (simp add: write_bytes_def g_byte_array_append_def Let_def
      write_short_grown [unfolded add_2_eq_Suc'])

lemma write_int_in_place:
  assumes "length junk = 4"
  shows "gzochi_common_io_write_int v (arr @ junk @ ys) (length arr) = Some (arr @ be_int v @ ys)"
proof -
  obtain a b c d where "junk = [a, b, c, d]"
    using assms by (auto simp: numeral_eq_Suc length_Suc_conv)
  then show ?thesis
    by (simp add: gzochi_common_io_write_int_def be_int_def io_simps low_byte_of_shift ucast_and_ff)
qed

lemma write_timeval_eq [wire_simps]:
  "write_timeval tv arr =
    Some (arr @ be_int (word_of_int (tv_sec tv)) @ be_int (word_of_int (tv_usec tv)))"
proof -
  have grow: "g_byte_array_set_size arr (length arr + 8) = arr @ replicate 4 0 @ replicate 4 0"
    by (simp add: g_byte_array_set_size_def flip: replicate_add)
  show ?thesis
    using write_int_in_place [of "replicate 4 0" "word_of_int (tv_sec tv)" arr "replicate 4 0"]
      write_int_at_end [of "replicate 4 0" "word_of_int (tv_usec tv)"
        "arr @ be_int (word_of_int (tv_sec tv))"]
    by (simp add: write_timeval_def Let_def grow)
qed

text \<open>The encodings the writers of a message append.\<close>

definition oids_response_bytes :: "gzochid_data_reserve_oids_response \<Rightarrow> byte list" where
  "oids_response_bytes r = oids_app r @ 0 # be_long (block_start (oids_block r))
     @ be_short (block_size (oids_block r))"

definition change_bytes :: "gzochid_data_change \<Rightarrow> byte list" where
  "change_bytes c = the (chg_store c) @ 0 # be_short (word_of_nat (length (the (chg_key c))))
     @ the (chg_key c)
     @ (if chg_delete c then [0, 0]
        else be_short (word_of_nat (length (the (chg_data c)))) @ the (chg_data c))"

definition change_ok :: "gzochid_data_change \<Rightarrow> bool" where
  "change_ok c \<longleftrightarrow>
     (case (chg_store c, chg_key c) of
        (Some s, Some k) \<Rightarrow> s \<noteq> [] \<and> cstring_ok s \<and> k \<noteq> [] \<and> length k < 2 ^ 15
          \<and> (case chg_data c of None \<Rightarrow> chg_delete c
              | Some d \<Rightarrow> \<not> chg_delete c \<and> d \<noteq> [] \<and> length d < 2 ^ 15)
      | _ \<Rightarrow> False)"

lemma oids_response_write_eq:
  "gzochid_data_protocol_reserve_oids_response_write r arr = Some (arr @ oids_response_bytes r)"
  using write_long_grown [of "block_start (oids_block r)" "arr @ oids_app r @ [0]"]
    write_short_grown [of "block_size (oids_block r)"
      "arr @ oids_app r @ 0 # be_long (block_start (oids_block r))"]
  by (simp add: gzochid_data_protocol_reserve_oids_response_write_def g_byte_array_append_def
      oids_response_bytes_def Let_def)

lemma change_write_eq: "change_ok c \<Longrightarrow> change_write c arr = Some (arr @ change_bytes c)"
  by (auto simp: change_ok_def change_write_def change_bytes_def g_byte_array_append_def
      wire_simps Let_def split: option.splits)

lemma changes_write_loop_eq:
  "list_all change_ok cs \<Longrightarrow> changes_write_loop cs arr = Some (arr @ concat (map change_bytes cs))"
  by (induction cs arbitrary: arr) (auto simp: change_write_eq)

lemma changeset_write_eq:
  assumes "list_all change_ok (cs_changes cs)"
  shows "gzochid_data_protocol_changeset_write cs arr =
    Some (arr @ cs_app cs @ 0 # be_short (word_of_nat (length (cs_changes cs)))
      @ concat (map change_bytes (cs_changes cs)))"
  using write_short_grown [of "word_of_nat (length (cs_changes cs))" "arr @ cs_app cs @ [0]"]
  by (simp add: gzochid_data_protocol_changeset_write_def g_byte_array_append_def Let_def
      changes_write_loop_eq [OF assms])

section \<open>Round trips\<close>

lemma drop_add_append: "drop p m = xs @ ys \<Longrightarrow> drop (p + length xs) m = ys"
  by (metis add.commute append_eq_conv_conj drop_drop)

lemma drop_past: "drop p m = xs @ ys \<Longrightarrow> k = p + length xs \<Longrightarrow> drop k m = ys"
  by (simp add: drop_add_append)

lemma be_short_0: "[0, 0] = be_short (word_of_nat 0)"
  by (simp add: be_short_def)

text \<open>The data part of a change, deleted or not, is a length-prefixed buffer.\<close>

definition change_payload :: "gzochid_data_change \<Rightarrow> byte list" where
  "change_payload c = (if chg_delete c then [] else the (chg_data c))"

lemma change_bytes_payload:
  "change_bytes c = the (chg_store c) @ 0 # be_short (word_of_nat (length (the (chg_key c))))
     @ the (chg_key c) @ be_short (word_of_nat (length (change_payload c))) @ change_payload c"
  by (simp add: change_bytes_def change_payload_def be_short_0)

lemma change_read_drop:
  assumes ok: "change_ok c" and d: "drop p m = change_bytes c @ ys"
    and n: "length (change_bytes c) \<le> n"
  shows "change_read m p n = Some (Some (c, length (change_bytes c)))"
proof -
  obtain s k where sk: "chg_store c = Some s" "chg_key c = Some k" "s \<noteq> []" "cstring_ok s"
      "k \<noteq> []" "length k < 2 ^ 15"
    using ok by (auto simp: change_ok_def split: option.splits)
  let ?v = "change_payload c"
  have v: "length ?v < 2 ^ 15" "(length ?v = 0) = chg_delete c"
      "chg_data c = (if length ?v = 0 then None else Some ?v)"
    using ok by (auto simp: change_ok_def change_payload_def split: option.splits)
  have bytes: "change_bytes c = s @ 0 # be_short (word_of_nat (length k)) @ k
      @ be_short (word_of_nat (length ?v)) @ ?v"
    by (simp add: change_bytes_payload sk)
  have str: "gzochid_protocol_read_str m p n = Some (Some (s, length s + 1))"
    using d n sk by (intro read_str_drop) (auto simp: bytes)
  have d1: "drop (p + (length s + 1)) m = be_short (word_of_nat (length k)) @ k
      @ be_short (word_of_nat (length ?v)) @ ?v @ ys"
    using drop_past [of p m "s @ [0]"] d by (simp add: bytes)
  have key: "gzochid_protocol_read_bytes m (p + (length s + 1)) (n - (length s + 1)) = Some (Some k)"
    using n sk by (intro read_bytes_drop [OF d1]) (auto simp: bytes)
  have d2: "drop (p + (length s + 1 + (length k + 2))) m =
      be_short (word_of_nat (length ?v)) @ ?v @ ys"
  proof (rule drop_past)
    show "drop (p + (length s + 1)) m = (be_short (word_of_nat (length k)) @ k)
        @ be_short (word_of_nat (length ?v)) @ ?v @ ys"
      using d1 by simp
  qed simp
  have data: "gzochid_protocol_read_bytes m (p + (length s + 1 + (length k + 2)))
      (n - (length s + 1) - (length k + 2)) = Some (Some ?v)"
    using n v by (intro read_bytes_drop [OF d2]) (auto simp: bytes)
  have "zero_change\<lparr>chg_store := Some s, chg_key := Some k, chg_delete := (length ?v = 0),
      chg_data := (if length ?v = 0 then None else Some ?v)\<rparr> = c"
    using sk v by (intro gzochid_data_change.equality) (auto simp: zero_change_def)
  then show ?thesis
    using sk by (simp only: change_read_def str key data Let_def option.case bind.simps prod.case
        bytes) simp
qed

lemma changes_read_loop_drop:
  assumes "list_all change_ok cs" and "drop p m = concat (map change_bytes cs)"
    and "n = length (concat (map change_bytes cs))"
  shows "changes_read_loop m (length cs) p n = Some (Some cs)"
  using assms
proof (induction cs arbitrary: p n)
  case Nil
  then show ?case by simp
next
  case (Cons c cs)
  have read: "change_read m p n = Some (Some (c, length (change_bytes c)))"
    using Cons.prems by (intro change_read_drop) auto
  have "changes_read_loop m (length cs) (p + length (change_bytes c)) (n - length (change_bytes c))
      = Some (Some cs)"
    using Cons.prems drop_past [of p m "change_bytes c" "concat (map change_bytes cs)"]
    by (intro Cons.IH) auto
  moreover have "0 < n"
    using Cons.prems by (simp add: change_bytes_def)
  ultimately show ?case
    by (simp add: read)
qed

text \<open>What a changeset must satisfy to be transmitted.\<close>

definition changeset_ok :: "gzochid_data_changeset \<Rightarrow> bool" where
  "changeset_ok cs \<longleftrightarrow> cstring_ok (cs_app cs) \<and> cs_changes cs \<noteq> []
     \<and> length (cs_changes cs) < 2 ^ 15 \<and> list_all change_ok (cs_changes cs)"

lemma changeset_read_written:
  assumes "changeset_ok cs"
  shows "\<exists>m. gzochid_data_protocol_changeset_write cs [] = Some m
    \<and> gzochid_data_protocol_changeset_read m = Some (Some cs)"
proof -
  let ?n = "word_of_nat (length (cs_changes cs)) :: 16 word"
  let ?body = "concat (map change_bytes (cs_changes cs))"
  let ?m = "cs_app cs @ 0 # be_short ?n @ ?body"
  have app: "cstring_ok (cs_app cs)" and len: "0 < length (cs_changes cs)"
      "length (cs_changes cs) < 2 ^ 15" and ok: "list_all change_ok (cs_changes cs)"
    using assms by (auto simp: changeset_ok_def)
  have str: "gzochid_protocol_read_str ?m 0 (length ?m) = Some (Some (cs_app cs, length (cs_app cs) + 1))"
    using app by (intro read_str_drop) auto
  have num: "gzochi_common_io_read_short ?m (length (cs_app cs) + 1) = Some ?n"
    by (rule read_short_drop) simp
  have loop: "changes_read_loop ?m (length (cs_changes cs)) (length (cs_app cs) + 1 + 2)
      (length ?m - (length (cs_app cs) + 1) - 2) = Some (Some (cs_changes cs))"
    using ok by (intro changes_read_loop_drop) auto
  have "0 < length ?body"
    using len by (cases "cs_changes cs") (auto simp: change_bytes_def)
  then have "gzochid_data_protocol_changeset_read ?m = Some (Some cs)"
    using len loop str num
    by (simp add: gzochid_data_protocol_changeset_read_def Let_def sint_word16
        gzochid_data_changeset_new_def)
  with changeset_write_eq [OF ok, of "[]"] show ?thesis by simp
qed

text \<open>
  (C34) A changeset of between one and 32767 changes, each with a non-empty store name, a
  non-empty key and either the deletion mark or non-empty data, keys and data of at most 32767
  bytes, is read back exactly as it was written: the same changes in the same order.
\<close>

theorem changeset_roundtrip:
  assumes "changeset_ok cs"
  shows "\<exists>m. gzochid_data_protocol_changeset_write cs [] = Some m
    \<and> gzochid_data_protocol_changeset_read m = Some (Some cs)"
  by (rule changeset_read_written [OF assms])

theorem changeset_roundtrip_witness:
  "\<exists>m. gzochid_data_protocol_changeset_write
      \<lparr>cs_app = [97], cs_changes = [\<lparr>chg_store = Some [111], chg_delete = False, chg_key = Some [1],
         chg_data = Some [2, 3]\<rparr>, \<lparr>chg_store = Some [111], chg_delete = True, chg_key = Some [9],
         chg_data = None\<rparr>]\<rparr> [] = Some m
    \<and> gzochid_data_protocol_changeset_read m = Some (Some
      \<lparr>cs_app = [97], cs_changes = [\<lparr>chg_store = Some [111], chg_delete = False, chg_key = Some [1],
         chg_data = Some [2, 3]\<rparr>, \<lparr>chg_store = Some [111], chg_delete = True, chg_key = Some [9],
         chg_data = None\<rparr>]\<rparr>)"
  by (rule changeset_roundtrip) (simp add: changeset_ok_def change_ok_def cstring_ok_def)

text \<open>
  A changeset with no changes is written but not read back: the reader takes it for a
  malformed message and returns \<open>NULL\<close>.
\<close>

theorem empty_changeset_rejected:
  assumes "cstring_ok app"
  shows "\<exists>m. gzochid_data_protocol_changeset_write (gzochid_data_changeset_new app []) [] = Some m
    \<and> gzochid_data_protocol_changeset_read m = Some None"
proof -
  let ?m = "app @ 0 # be_short 0"
  have "gzochid_protocol_read_str ?m 0 (length ?m) = Some (Some (app, length app + 1))"
    using assms by (intro read_str_drop) auto
  then have "gzochid_data_protocol_changeset_read ?m = Some None"
    by (simp add: gzochid_data_protocol_changeset_read_def)
  then show ?thesis
    by (simp add: changeset_write_eq gzochid_data_changeset_new_def)
qed

theorem empty_changeset_rejected_witness:
  "\<exists>m. gzochid_data_protocol_changeset_write (gzochid_data_changeset_new [97, 98] []) [] = Some m
    \<and> gzochid_data_protocol_changeset_read m = Some None"
  by (rule empty_changeset_rejected) (simp add: cstring_ok_def)


lemma oids_len_check:
  assumes "n < 2 ^ 16"
  shows "(2 :: 64 word) \<le> 10 - word_of_nat (n + 1) \<longleftrightarrow> n \<le> 7 \<or> 10 \<le> n"
proof (cases "n \<le> 9")
  case True
  then have "n \<in> {0, 1, 2, 3, 4, 5, 6, 7, 8, 9}"
    by auto
  then show ?thesis by (auto simp: word_le_nat_alt)
next
  case False
  have "uint (10 - word_of_nat (n + 1) :: 64 word) = (9 - int n) mod 2 ^ 64"
    using uint_word_of_int [of "9 - int n", where ?'a = 64] by simp
  also have "\<dots> = (9 - int n + 2 ^ 64) mod 2 ^ 64"
    by (rule mod_add_self2 [symmetric])
  also have "\<dots> = 9 - int n + 2 ^ 64"
    using False assms by (intro mod_pos_pos_trivial) auto
  finally show ?thesis
    using False assms by (simp add: word_le_def)
qed

text \<open>
  Reservations of object ids. Reading back a written reservation response gives the response
  exactly when the application name is neither empty nor 8 or 9 bytes long; for those names the
  reader, which subtracts the length of the name twice, returns \<open>NULL\<close>.
\<close>

theorem oids_response_roundtrip:
  assumes "cstring_ok (oids_app r)" and "length (oids_app r) < 2 ^ 16"
  shows "\<exists>m. gzochid_data_protocol_reserve_oids_response_write r [] = Some m
    \<and> gzochid_data_protocol_reserve_oids_response_read m =
        Some (if length (oids_app r) \<in> {0, 8, 9} then None else Some r)"
proof -
  define m k where "m = oids_response_bytes r" and "k = length (oids_app r) + 1"
  have str: "gzochid_protocol_read_str m 0 (length m) = Some (Some (oids_app r, k))"
    unfolding k_def using assms by (intro read_str_drop) (auto simp: m_def oids_response_bytes_def)
  have len: "(word_of_nat (length m) :: 64 word) - word_of_nat k = 10"
    by (simp add: m_def k_def oids_response_bytes_def)
  have oid: "read_oid m k 10 = Some (block_start (oids_block r), 8)"
    using read_long_drop [of k m] by (simp add: m_def k_def oids_response_bytes_def read_oid_def)
  have short: "gzochi_common_io_read_short m (k + 8) = Some (block_size (oids_block r))"
    by (rule read_short_drop [where ys = "[]"]) (simp add: m_def k_def oids_response_bytes_def)
  have "gzochid_data_protocol_reserve_oids_response_read m =
      (if 1 < k \<and> (2 :: 64 word) \<le> 10 - word_of_nat k then Some (Some r) else Some None)"
    by (simp add: gzochid_data_protocol_reserve_oids_response_read_def str len oid short Let_def
        gzochid_data_reserve_oids_response_new_def)
  then show ?thesis
    using oids_len_check [OF assms(2)] by (auto simp: oids_response_write_eq m_def k_def)
qed

theorem oids_response_roundtrip_witness:
  "\<exists>m. gzochid_data_protocol_reserve_oids_response_write
        \<lparr>oids_app = [109, 97, 122, 101], oids_block = \<lparr>block_start = 100, block_size = 100\<rparr>\<rparr> [] = Some m
    \<and> gzochid_data_protocol_reserve_oids_response_read m =
        Some (Some \<lparr>oids_app = [109, 97, 122, 101],
          oids_block = \<lparr>block_start = 100, block_size = 100\<rparr>\<rparr>)"
  using oids_response_roundtrip [of "\<lparr>oids_app = [109, 97, 122, 101],
      oids_block = \<lparr>block_start = 100, block_size = 100\<rparr>\<rparr>"]
  by (simp add: cstring_ok_def)

definition response_ok :: "gzochid_data_response \<Rightarrow> bool" where
  "response_ok r \<longleftrightarrow> cstring_ok (resp_app r) \<and> cstring_ok (resp_store r)
     \<and> (if resp_success r
         then (case resp_data r of None \<Rightarrow> True | Some d \<Rightarrow> d \<noteq> [] \<and> length d < 2 ^ 15)
         else resp_data r = None \<and> timeval_fits (resp_timeout r))"

definition response_payload :: "gzochid_data_response \<Rightarrow> byte list" where
  "response_payload r =
     (if resp_success r
      then (case resp_data r of
              None \<Rightarrow> be_short (word_of_nat 0)
            | Some d \<Rightarrow> be_short (word_of_nat (length d)) @ d)
      else be_int (word_of_int (tv_sec (resp_timeout r)))
           @ be_int (word_of_int (tv_usec (resp_timeout r))))"

definition response_bytes :: "gzochid_data_response \<Rightarrow> byte list" where
  "response_bytes r = resp_app r @ 0 # resp_store r @ 0
     # gboolean_first_byte False (resp_success r) # response_payload r"

lemma response_write_eq:
  "gzochid_data_protocol_response_write False r arr = Some (arr @ response_bytes r)"
  by (auto simp: gzochid_data_protocol_response_write_def response_bytes_def response_payload_def
      g_byte_array_append_def Let_def wire_simps be_short_0 [simplified] split: option.split)

text \<open>Equality of the fields of a response that its \<open>success\<close> flag makes meaningful.\<close>

definition same_response :: "gzochid_data_response \<Rightarrow> gzochid_data_response \<Rightarrow> bool" where
  "same_response r r' \<longleftrightarrow> resp_app r = resp_app r' \<and> resp_store r = resp_store r'
     \<and> resp_success r = resp_success r'
     \<and> (if resp_success r then resp_data r = resp_data r' else resp_timeout r = resp_timeout r')"

text \<open>After the two names and the flag, \<open>n\<close> bytes at offset \<open>p + 1\<close> are left.\<close>

lemma response_read_tail:
  assumes m: "m = app @ 0 # store @ 0 # flag # payload"
    and ok: "cstring_ok app" "cstring_ok store"
    and p: "p = length app + length store + 2"
  shows "gzochid_data_protocol_response_read uninit m =
    (if flag \<noteq> 0 then do {
       r \<leftarrow> gzochid_protocol_read_bytes m (p + 1) (length payload);
       case r of
         None \<Rightarrow> Some None
       | Some obj \<Rightarrow>
           if obj = [] then map_option Some (gzochid_data_response_new uninit app store True None)
           else map_option Some (gzochid_data_response_new uninit app store True (Some obj))
     }
     else if length payload < 8 then Some None
     else do {
       t \<leftarrow> read_timeval m (p + 1) (length payload);
       case t of
         None \<Rightarrow> Some None
       | Some timeout \<Rightarrow> do {
           response \<leftarrow> gzochid_data_response_new uninit app store False None;
           Some (Some (response\<lparr>resp_timeout := timeout\<rparr>))
         }
     })"
proof -
  define a b where "a = length app + 1" and "b = length store + 1"
  have "gzochid_protocol_read_str m 0 (length m) = Some (Some (app, a))"
    unfolding a_def using ok m by (intro read_str_drop) auto
  moreover have "gzochid_protocol_read_str m a (length m - a) = Some (Some (store, b))"
    unfolding b_def using ok m by (intro read_str_drop) (auto simp: a_def)
  moreover have "rd m (a + b) = Some flag"
    using m by (intro rd_drop [where ys = payload]) (auto simp: a_def b_def)
  moreover have "length m = a + b + (length payload + 1)" and "p = a + b"
    using m p by (auto simp: a_def b_def)
  ultimately show ?thesis
    by (simp add: gzochid_data_protocol_response_read_def Let_def)
qed

lemma response_read_written:
  assumes "response_ok r"
  shows "\<exists>m r'. gzochid_data_protocol_response_write False r [] = Some m
    \<and> gzochid_data_protocol_response_read uninit m = Some (Some r') \<and> same_response r r'"
proof -
  define m where "m = response_bytes r"
  define p where "p = length (resp_app r) + length (resp_store r) + 2"
  have ok: "cstring_ok (resp_app r)" "cstring_ok (resp_store r)"
    using assms by (auto simp: response_ok_def)
  note read = response_read_tail [OF m_def [unfolded response_bytes_def] ok p_def, of uninit]
  have pay: "drop (p + 1) m = response_payload r"
    using drop_past [of 0 m "resp_app r @ 0 # resp_store r
        @ [0, gboolean_first_byte False (resp_success r)]"]
    by (simp add: p_def m_def response_bytes_def)
  have "\<exists>r'. gzochid_data_protocol_response_read uninit m = Some (Some r') \<and> same_response r r'"
  proof (cases "resp_success r")
    case True
    define d where "d = (case resp_data r of None \<Rightarrow> [] | Some d \<Rightarrow> d)"
    have pd: "response_payload r = be_short (word_of_nat (length d)) @ d"
      using True by (simp add: response_payload_def d_def split: option.split)
    have "gzochid_protocol_read_bytes m (p + 1) (length (response_payload r)) = Some (Some d)"
      using assms True pay
      by (intro read_bytes_drop [where ys = "[]"])
        (auto simp: pd response_ok_def d_def split: option.splits)
    then show ?thesis
      using True assms
      by (auto simp: read d_def gboolean_first_byte_def gzochid_data_response_new_def
          same_response_def response_ok_def split: option.splits)
  next
    case False
    have pt: "response_payload r = be_int (word_of_int (tv_sec (resp_timeout r)))
        @ be_int (word_of_int (tv_usec (resp_timeout r)))"
      using False by (simp add: response_payload_def)
    have "gzochi_common_io_read_int m (p + 1) = Some (word_of_int (tv_sec (resp_timeout r)))"
      using pay pt by (intro read_int_drop) auto
    moreover have "gzochi_common_io_read_int m (p + 1 + 4) =
        Some (word_of_int (tv_usec (resp_timeout r)))"
      using drop_past [OF pay [unfolded pt]] by (intro read_int_drop [where ys = "[]"]) auto
    ultimately have "read_timeval m (p + 1) 8 = Some (Some (resp_timeout r))"
      using assms False by (simp add: read_timeval_def response_ok_def timeval_fits_def sint_word32)
    then show ?thesis
      using False pt
      by (auto simp: read gboolean_first_byte_def gzochid_data_response_new_def same_response_def)
  qed
  then show ?thesis
    by (auto simp: response_write_eq m_def)
qed

text \<open>
  Responses to value and key requests round-trip on a little-endian host: success with data of
  1 to 32767 bytes, success without data, and failure with a timeout that fits 32 bits each.
\<close>

theorem response_roundtrip:
  assumes "response_ok r"
  shows "\<exists>m r'. gzochid_data_protocol_response_write False r [] = Some m
    \<and> gzochid_data_protocol_response_read uninit m = Some (Some r') \<and> same_response r r'"
  by (rule response_read_written [OF assms])

theorem response_roundtrip_witness:
  "\<exists>m r'. gzochid_data_protocol_response_write False
        \<lparr>resp_app = [97], resp_store = [98], resp_success = True, resp_data = Some [1, 2, 3],
         resp_timeout = \<lparr>tv_sec = 0, tv_usec = 0\<rparr>\<rparr> [] = Some m
    \<and> gzochid_data_protocol_response_read 77 m = Some (Some r')
    \<and> same_response \<lparr>resp_app = [97], resp_store = [98], resp_success = True,
        resp_data = Some [1, 2, 3], resp_timeout = \<lparr>tv_sec = 0, tv_usec = 0\<rparr>\<rparr> r'"
  by (rule response_roundtrip) (simp add: response_ok_def cstring_ok_def)

section \<open>Memory safety of the readers\<close>

lemma change_read_safe:
  assumes "p + n \<le> length m"
  shows "change_read m p n = Some None
    \<or> (\<exists>c k. change_read m p n = Some (Some (c, k)) \<and> k \<le> n)"
proof (rule read_str_safe [OF assms])
  assume "gzochid_protocol_read_str m p n = Some None"
  then show ?thesis by (simp add: change_read_def)
next
  fix s k
  assume str: "gzochid_protocol_read_str m p n = Some (Some (s, k))" and k: "0 < k" "k \<le> n"
  from k assms have fit: "p + k + (n - k) \<le> length m" by simp
  show ?thesis
  proof (rule read_bytes_safe [OF fit])
    assume "gzochid_protocol_read_bytes m (p + k) (n - k) = Some None"
    with str show ?thesis by (simp add: change_read_def)
  next
    fix key
    assume key: "gzochid_protocol_read_bytes m (p + k) (n - k) = Some (Some key)"
      and kn: "length key + 2 \<le> n - k"
    have fit: "p + (k + (length key + 2)) + (n - k - (length key + 2)) \<le> length m"
      using kn k assms by simp
    show ?thesis
      by (rule read_bytes_safe [OF fit]; use str key kn k in \<open>auto simp: change_read_def Let_def\<close>)
  qed
qed

lemma changes_read_loop_safe: "p + n \<le> length m \<Longrightarrow> changes_read_loop m c p n \<noteq> None"
proof (induction c arbitrary: p n)
  case 0
  then show ?case by simp
next
  case (Suc c)
  from change_read_safe [OF Suc.prems] show ?case
  proof (elim disjE exE conjE)
    fix ch k
    assume "change_read m p n = Some (Some (ch, k))" and "k \<le> n"
    with Suc.IH [of "p + k" "n - k"] Suc.prems show ?thesis by auto
  qed simp
qed

lemma changeset_read_safe: "gzochid_data_protocol_changeset_read m \<noteq> None"
proof (rule read_str_safe [of 0 "length m" m])
  fix app k
  assume str: "gzochid_protocol_read_str m 0 (length m) = Some (Some (app, k))"
    and k: "k \<le> length m"
  show ?thesis
  proof (cases "length m - k \<le> 2")
    case True
    with str show ?thesis by (simp add: gzochid_data_protocol_changeset_read_def)
  next
    case False
    then obtain v where v: "gzochi_common_io_read_short m k = Some v"
      using read_short_safe [of k m] by fastforce
    have "changes_read_loop m (nat (sint v)) (k + 2) (length m - k - 2) \<noteq> None"
      using k False by (intro changes_read_loop_safe) auto
    with str v False show ?thesis
      by (auto simp: gzochid_data_protocol_changeset_read_def Let_def)
  qed
qed (simp_all add: gzochid_data_protocol_changeset_read_def)

lemma response_tail_safe:
  assumes "p + n \<le> length m"
  shows "gzochid_protocol_read_bytes m p n \<noteq> None" and "read_timeval m p n \<noteq> None"
proof -
  show "gzochid_protocol_read_bytes m p n \<noteq> None"
    by (rule read_bytes_safe [OF assms]) auto
  show "read_timeval m p n \<noteq> None"
    using read_int_safe [of p m] read_int_safe [of "p + 4" m] assms
    by (cases "n < 8") (auto simp: read_timeval_def)
qed

lemma response_read_safe: "gzochid_data_protocol_response_read uninit m \<noteq> None"
proof (rule read_str_safe [of 0 "length m" m])
  fix app a
  assume str: "gzochid_protocol_read_str m 0 (length m) = Some (Some (app, a))"
    and a: "a \<le> length m"
  from a have fit: "a + (length m - a) \<le> length m" by simp
  show ?thesis
  proof (rule read_str_safe [OF fit])
    assume "gzochid_protocol_read_str m a (length m - a) = Some None"
    with str show ?thesis by (simp add: gzochid_data_protocol_response_read_def)
  next
    fix store b
    assume store: "gzochid_protocol_read_str m a (length m - a) = Some (Some (store, b))"
      and b: "b \<le> length m - a"
    show ?thesis
    proof (cases "length m - a \<le> b")
      case True
      with str store show ?thesis by (simp add: gzochid_data_protocol_response_read_def Let_def)
    next
      case False
      then obtain flag where flag: "rd m (a + b) = Some flag"
        by (cases "a + b < length m") (auto simp: rd_def)
      from False have "a + b + 1 + (length m - a - b - 1) \<le> length m" by arith
      then obtain r t where "gzochid_protocol_read_bytes m (a + b + 1) (length m - a - b - 1) = Some r"
          and "read_timeval m (a + b + 1) (length m - a - b - 1) = Some t"
        using response_tail_safe by blast
      with str store flag False show ?thesis
        by (auto simp: gzochid_data_protocol_response_read_def Let_def gzochid_data_response_new_def
            split: option.splits)
    qed
  qed
qed (simp_all add: gzochid_data_protocol_response_read_def)

text \<open>
  (C35) Memory safety: on every message, however malformed, the reader of changesets, the reader of responses and,
  for every part of the message, the readers of strings and of byte runs access only bytes of the message (they return, with a
  result or with \<open>NULL\<close>, and never fault).
\<close>

theorem readers_memory_safe:
  "gzochid_data_protocol_changeset_read m \<noteq> None
   \<and> gzochid_data_protocol_response_read uninit m \<noteq> None
   \<and> (\<forall>p n. p + n \<le> length m \<longrightarrow> gzochid_protocol_read_str m p n \<noteq> None \<and> gzochid_protocol_read_bytes m p n \<noteq> None)"
proof (intro conjI allI impI)
  fix p n
  assume fit: "p + n \<le> length m"
  show "gzochid_protocol_read_str m p n \<noteq> None" by (rule read_str_safe [OF fit]) simp_all
  show "gzochid_protocol_read_bytes m p n \<noteq> None" by (rule read_bytes_safe [OF fit]) simp_all
qed (simp_all add: changeset_read_safe response_read_safe)

theorem readers_memory_safe_witness:
  "gzochid_data_protocol_changeset_read [1, 2, 3] \<noteq> None \<and> gzochid_protocol_read_str [1, 2, 3] 1 2 \<noteq> None
    \<and> gzochid_protocol_read_bytes [1, 2, 3] 1 2 \<noteq> None"
  using readers_memory_safe [of "[1, 2, 3]"] by simp

text \<open>
  The reader of reservations is not memory safe: after an application name of 1 to 5 bytes
  and the first object id it reads the two bytes of the block size even when the message ends
  before them.
\<close>

theorem oids_response_read_overrun:
  assumes "cstring_ok app" and "1 \<le> length app" and "length app \<le> 5"
  shows "gzochid_data_protocol_reserve_oids_response_read (app @ 0 # be_long oid) = None"
proof -
  define m k where "m = app @ 0 # be_long oid" and "k = length app + 1"
  have str: "gzochid_protocol_read_str m 0 (length m) = Some (Some (app, k))"
    unfolding k_def using assms by (intro read_str_drop) (auto simp: m_def)
  have len: "(word_of_nat (length m) :: 64 word) - word_of_nat k = 8"
    by (simp add: m_def k_def)
  have "read_oid m k 8 = Some (oid, 8)"
    using read_long_drop [of k m oid "[]"] by (simp add: m_def k_def read_oid_def)
  moreover have "gzochi_common_io_read_short m (k + 8) = None"
    by (simp add: gzochi_common_io_read_short_def rd_def m_def k_def)
  moreover have "(2 :: 64 word) \<le> 8 - word_of_nat k"
  proof -
    have "k \<in> {2, 3, 4, 5, 6}"
      using assms by (auto simp: k_def)
    then show ?thesis by (auto simp: word_le_nat_alt)
  qed
  moreover have "1 < k"
    using assms(2) by (auto simp: k_def)
  ultimately have "gzochid_data_protocol_reserve_oids_response_read m = None"
    by (simp add: gzochid_data_protocol_reserve_oids_response_read_def str len Let_def)
  then show ?thesis by (simp add: m_def)
qed

theorem oids_response_read_overrun_witness:
  "gzochid_data_protocol_reserve_oids_response_read ([97, 98] @ 0 # be_long 5) = None"
  by (rule oids_response_read_overrun) (simp_all add: cstring_ok_def)

end
