(* ===== verification/Itree.thy ===== *)
theory Itree
  imports Gz_Prelude "HOL-Library.Tree"
begin

text \<open>
  \<open>gzochi-server/src/itree.c\<close>: the interval tree that holds the range locks. Nodes are mutable
  and linked by pointers in both directions, and the code's rotations can leave links that are no
  tree, so the model keeps an explicit store: \<open>nodes\<close> maps an address to the node allocated
  there. A dereference of a \<open>NULL\<close> or freed pointer is a fault; a loop over a cyclic structure
  does not return. Both are \<open>None\<close>.

  Interval bounds are opaque pointers: \<open>=\<close> on the type of bounds is equality of pointers, and
  only the two comparators look at what they point to. The life of what they point to is not
  modelled: after a leaf is removed its ancestors may keep its upper bound as their maximum, and the
  lock table frees the bounds of a range lock it removes.
\<close>

section \<open>State\<close>

record ('k, 'd) itree_node =
  parent :: "nat option"
  left :: "nat option"
  right :: "nat option"
  lower :: 'k
  upper :: 'k
  max_upper :: 'k
  node_data :: 'd
  balance_factor :: int

text \<open>\<open>next_node\<close> is where the next node will be allocated.\<close>

record ('k, 'd) gzochid_itree =
  itree_root :: "nat option"
  lower_comparator :: "'k \<Rightarrow> 'k \<Rightarrow> int"
  upper_comparator :: "'k \<Rightarrow> 'k \<Rightarrow> int"
  nodes :: "nat \<rightharpoonup> ('k, 'd) itree_node"
  next_node :: nat

text \<open>Assignment to fields of the node at an address.\<close>

definition upd_node ::
    "('k, 'd) gzochid_itree \<Rightarrow> nat \<Rightarrow> (('k, 'd) itree_node \<Rightarrow> ('k, 'd) itree_node) \<Rightarrow>
     ('k, 'd) gzochid_itree option" where
  "upd_node t a f = do {
     n \<leftarrow> nodes t a;
     Some (t\<lparr>nodes := (nodes t)(a \<mapsto> f n)\<rparr>)
   }"

section \<open>Operations\<close>

definition itree_node_new :: "'k \<Rightarrow> 'k \<Rightarrow> 'd \<Rightarrow> ('k, 'd) itree_node" where
  "itree_node_new lo up d =
     \<lparr>parent = None, left = None, right = None, lower = lo, upper = up, max_upper = up,
      node_data = d, balance_factor = 0\<rparr>"

definition gzochid_itree_new ::
    "('k \<Rightarrow> 'k \<Rightarrow> int) \<Rightarrow> ('k \<Rightarrow> 'k \<Rightarrow> int) \<Rightarrow> ('k, 'd) gzochid_itree" where
  "gzochid_itree_new lcmp ucmp =
     \<lparr>itree_root = None, lower_comparator = lcmp, upper_comparator = ucmp, nodes = Map.empty,
      next_node = 0\<rparr>"

text \<open>The \<open>while (TRUE)\<close> loop of \<open>itree_location\<close>, at node \<open>a\<close>.\<close>

partial_function (option) itree_location_loop ::
    "('k, 'd) gzochid_itree \<Rightarrow> 'k \<Rightarrow> 'k \<Rightarrow> nat \<Rightarrow> nat option" where
  "itree_location_loop t lo up a =
     Option.bind (nodes t a) (\<lambda>n.
       if lower_comparator t lo (lower n) = 0 \<and> upper_comparator t up (upper n) = 0 then Some a
       else if lower_comparator t lo (lower n) < 0 then
         (case left n of None \<Rightarrow> Some a | Some l \<Rightarrow> itree_location_loop t lo up l)
       else (case right n of None \<Rightarrow> Some a | Some r \<Rightarrow> itree_location_loop t lo up r))"

definition itree_location ::
    "('k, 'd) gzochid_itree \<Rightarrow> 'k \<Rightarrow> 'k \<Rightarrow> nat option option" where
  "itree_location t lo up =
     (case itree_root t of
        None \<Rightarrow> Some None
      | Some a \<Rightarrow> map_option Some (itree_location_loop t lo up a))"

text \<open>The larger of a bound and the \<open>max_upper\<close> of a child, if there is one.\<close>

definition child_max ::
    "('k, 'd) gzochid_itree \<Rightarrow> nat option \<Rightarrow> 'k \<Rightarrow> 'k option" where
  "child_max t child m =
     (case child of
        None \<Rightarrow> Some m
      | Some c \<Rightarrow> do {
          cn \<leftarrow> nodes t c;
          Some (if upper_comparator t (max_upper cn) m > 0 then max_upper cn else m)
        })"

definition update_max_upper ::
    "('k, 'd) gzochid_itree \<Rightarrow> nat \<Rightarrow> (('k, 'd) gzochid_itree \<times> bool) option" where
  "update_max_upper t a = do {
     n \<leftarrow> nodes t a;
     m \<leftarrow> child_max t (left n) (upper n);
     m \<leftarrow> child_max t (right n) m;
     if max_upper n \<noteq> m then do {
       t \<leftarrow> upd_node t a (\<lambda>n. n\<lparr>max_upper := m\<rparr>);
       Some (t, True)
     }
     else Some (t, False)
   }"

text \<open>
  Upward rotation. Where the node has no parent the source assigns its left child in both
  directions.
\<close>

definition itree_rotate ::
    "('k, 'd) gzochid_itree \<Rightarrow> nat \<Rightarrow> bool \<Rightarrow> ('k, 'd) gzochid_itree option" where
  "itree_rotate t node is_left = do {
     n \<leftarrow> nodes t node;
     case parent n of
       None \<Rightarrow> do {
         t \<leftarrow> (if is_left then upd_node t node (\<lambda>n. n\<lparr>left := itree_root t\<rparr>)
              else upd_node t node (\<lambda>n. n\<lparr>left := itree_root t\<rparr>));
         let t = t\<lparr>itree_root := Some node\<rparr>;
         t \<leftarrow> upd_node t node (\<lambda>n. n\<lparr>parent := None\<rparr>);
         (t, changed) \<leftarrow> update_max_upper t node;
         Some t
       }
     | Some p \<Rightarrow> do {
         t \<leftarrow> (if is_left then do {
                t \<leftarrow> upd_node t p (\<lambda>pn. pn\<lparr>right := left n\<rparr>);
                upd_node t node (\<lambda>n. n\<lparr>left := Some p\<rparr>)
              }
              else do {
                t \<leftarrow> upd_node t p (\<lambda>pn. pn\<lparr>left := right n\<rparr>);
                upd_node t node (\<lambda>n. n\<lparr>right := Some p\<rparr>)
              });
         (t, changed) \<leftarrow> update_max_upper t p;
         (t, changed) \<leftarrow> update_max_upper t node;
         pn \<leftarrow> nodes t p;
         t \<leftarrow> (case parent pn of
              None \<Rightarrow> upd_node (t\<lparr>itree_root := Some node\<rparr>) node (\<lambda>n. n\<lparr>parent := None\<rparr>)
            | Some g \<Rightarrow> do {
                gn \<leftarrow> nodes t g;
                t \<leftarrow> (if left gn = Some p then upd_node t g (\<lambda>gn. gn\<lparr>left := Some node\<rparr>)
                     else upd_node t g (\<lambda>gn. gn\<lparr>right := Some node\<rparr>));
                (t, changed) \<leftarrow> update_max_upper t g;
                Some t
              });
         upd_node t p (\<lambda>pn. pn\<lparr>parent := Some node\<rparr>)
       }
   }"

text \<open>The rotation loop of \<open>itree_retrace_insert\<close>; the node it stops at goes with the tree.\<close>

partial_function (option) retrace_insert_loop ::
    "('k, 'd) gzochid_itree \<Rightarrow> nat \<Rightarrow> (('k, 'd) gzochid_itree \<times> nat) option" where
  "retrace_insert_loop t a =
     Option.bind (nodes t a) (\<lambda>n.
       case parent n of
         None \<Rightarrow> Some (t, a)
       | Some p \<Rightarrow> Option.bind (nodes t p) (\<lambda>pn.
           if balance_factor pn = (if left pn = Some a then 1 else - 1) then
             Option.bind (if balance_factor n = (if left pn = Some a then - 1 else 1)
                          then itree_rotate t a (left pn = Some a) else Some t)
               (\<lambda>t. Option.bind (itree_rotate t p (left pn \<noteq> Some a)) (\<lambda>t. Some (t, a)))
           else if balance_factor pn = (if left pn = Some a then - 1 else 1) then
             Option.bind (upd_node t p (\<lambda>pn. pn\<lparr>balance_factor := 0\<rparr>)) (\<lambda>t. Some (t, a))
           else
             Option.bind (upd_node t p
                 (\<lambda>pn'. pn'\<lparr>balance_factor := (if left pn = Some a then 1 else - 1)\<rparr>))
               (\<lambda>t. retrace_insert_loop t p)))"

text \<open>The second loop of both retraces: recompute bounds upwards while they change.\<close>

partial_function (option) update_max_loop ::
    "('k, 'd) gzochid_itree \<Rightarrow> nat \<Rightarrow> ('k, 'd) gzochid_itree option" where
  "update_max_loop t a =
     Option.bind (update_max_upper t a) (\<lambda>(t, changed).
       if \<not> changed then Some t
       else Option.bind (nodes t a) (\<lambda>n.
         case parent n of None \<Rightarrow> Some t | Some p \<Rightarrow> update_max_loop t p))"

definition itree_retrace_insert ::
    "('k, 'd) gzochid_itree \<Rightarrow> nat \<Rightarrow> ('k, 'd) gzochid_itree option" where
  "itree_retrace_insert t a = do {
     n \<leftarrow> nodes t a;
     (t, a) \<leftarrow> (if balance_factor n < - 1 \<or> balance_factor n > 1
                then retrace_insert_loop t a else Some (t, a));
     update_max_loop t a
   }"

text \<open>\<open>calloc\<close>: a node at the next free address.\<close>

definition alloc_node ::
    "('k, 'd) gzochid_itree \<Rightarrow> ('k, 'd) itree_node \<Rightarrow> ('k, 'd) gzochid_itree \<times> nat" where
  "alloc_node t n =
     (t\<lparr>nodes := (nodes t)(next_node t \<mapsto> n), next_node := Suc (next_node t)\<rparr>, next_node t)"

definition gzochid_itree_insert ::
    "('k, 'd) gzochid_itree \<Rightarrow> 'k \<Rightarrow> 'k \<Rightarrow> 'd \<Rightarrow> ('k, 'd) gzochid_itree option" where
  "gzochid_itree_insert t lo up d = do {
     loc \<leftarrow> itree_location t lo up;
     case loc of
       None \<Rightarrow>
         (let (t, new_node) = alloc_node t (itree_node_new lo up d)
          in Some (t\<lparr>itree_root := Some new_node\<rparr>))
     | Some a \<Rightarrow> do {
         n \<leftarrow> nodes t a;
         if lower_comparator t (lower n) lo = 0 \<and> upper_comparator t (upper n) up = 0
         then upd_node t a (\<lambda>n. n\<lparr>node_data := d\<rparr>)
         else do {
           let (t, new_node) = alloc_node t ((itree_node_new lo up d)\<lparr>parent := Some a\<rparr>);
           t \<leftarrow> (if lower_comparator t lo (lower n) < 0
                then upd_node t a
                  (\<lambda>n. n\<lparr>left := Some new_node, balance_factor := balance_factor n + 1\<rparr>)
                else upd_node t a
                  (\<lambda>n. n\<lparr>right := Some new_node, balance_factor := balance_factor n - 1\<rparr>));
           itree_retrace_insert t a
         }
       }
   }"

text \<open>
  The rotation loop of \<open>itree_retrace_remove\<close>. After a rotation with a sibling whose balance
  factor is not 0, control falls through to the test of the parent's balance factor.
\<close>

partial_function (option) retrace_remove_loop ::
    "('k, 'd) gzochid_itree \<Rightarrow> nat \<Rightarrow> (('k, 'd) gzochid_itree \<times> nat) option" where
  "retrace_remove_loop t a =
     Option.bind (nodes t a) (\<lambda>n.
       case parent n of
         None \<Rightarrow> Some (t, a)
       | Some p \<Rightarrow> Option.bind (nodes t p) (\<lambda>pn.
           Option.bind
             (if balance_factor pn = (if right pn = Some a then 1 else - 1) then
                Option.bind (if right pn = Some a then left pn else right pn) (\<lambda>s.
                Option.bind (nodes t s) (\<lambda>sn.
                Option.bind (if balance_factor sn = (if right pn = Some a then - 1 else 1)
                             then itree_rotate t s (right pn = Some a) else Some t) (\<lambda>t.
                Option.bind (itree_rotate t p (right pn \<noteq> Some a)) (\<lambda>t.
                Option.bind (nodes t s) (\<lambda>sn. Some (t, balance_factor sn = 0))))))
              else Some (t, False))
             (\<lambda>(t, stop).
                if stop then Some (t, a)
                else Option.bind (nodes t p) (\<lambda>pn'.
                  if balance_factor pn' = 0 then
                    Option.bind (upd_node t p
                        (\<lambda>x. x\<lparr>balance_factor := (if right pn = Some a then 1 else - 1)\<rparr>))
                      (\<lambda>t. Some (t, a))
                  else
                    Option.bind (upd_node t p (\<lambda>x. x\<lparr>balance_factor := 0\<rparr>)) (\<lambda>t.
                    Option.bind (nodes t a) (\<lambda>n'.
                      case parent n' of
                        None \<Rightarrow> None
                      | Some q \<Rightarrow> retrace_remove_loop t q))))))"

definition itree_retrace_remove ::
    "('k, 'd) gzochid_itree \<Rightarrow> nat \<Rightarrow> ('k, 'd) gzochid_itree option" where
  "itree_retrace_remove t a = do {
     (t, a) \<leftarrow> retrace_remove_loop t a;
     update_max_loop t a
   }"

text \<open>\<open>while (target->right != NULL) target = target->right\<close>\<close>

partial_function (option) rightmost :: "('k, 'd) gzochid_itree \<Rightarrow> nat \<Rightarrow> nat option" where
  "rightmost t a =
     Option.bind (nodes t a) (\<lambda>n. case right n of None \<Rightarrow> Some a | Some r \<Rightarrow> rightmost t r)"

text \<open>Unlink and free \<open>target\<close>, which has at most one child, and retrace from that child.\<close>

definition itree_unlink ::
    "('k, 'd) gzochid_itree \<Rightarrow> nat \<Rightarrow> ('k, 'd) gzochid_itree option" where
  "itree_unlink t target = do {
     tn \<leftarrow> nodes t target;
     let new_child = (if left tn \<noteq> None then left tn else right tn);
     t \<leftarrow> (case new_child of
          None \<Rightarrow> Some t
        | Some c \<Rightarrow> upd_node t c (\<lambda>cn. cn\<lparr>parent := parent tn\<rparr>));
     t \<leftarrow> (case parent tn of
          None \<Rightarrow> Some (t\<lparr>itree_root := new_child\<rparr>)
        | Some p \<Rightarrow> do {
            pn \<leftarrow> nodes t p;
            if left pn = Some target then upd_node t p (\<lambda>pn. pn\<lparr>left := new_child\<rparr>)
            else if right pn = Some target then upd_node t p (\<lambda>pn. pn\<lparr>right := new_child\<rparr>)
            else Some t
          });
     let t = t\<lparr>nodes := (nodes t)(target := None)\<rparr>;
     case new_child of
       None \<Rightarrow> Some t
     | Some c \<Rightarrow> itree_retrace_remove t c
   }"

definition gzochid_itree_remove ::
    "('k, 'd) gzochid_itree \<Rightarrow> 'k \<Rightarrow> 'k \<Rightarrow> ('k, 'd) gzochid_itree option" where
  "gzochid_itree_remove t lo up = do {
     loc \<leftarrow> itree_location t lo up;
     case loc of
       None \<Rightarrow> Some t
     | Some a \<Rightarrow> do {
         n \<leftarrow> nodes t a;
         if lower_comparator t (lower n) lo = 0 \<and> upper_comparator t (upper n) up = 0 then
           (case (left n, right n) of
              (Some l, Some r) \<Rightarrow> do {
                target \<leftarrow> rightmost t l;
                tn \<leftarrow> nodes t target;
                t \<leftarrow> upd_node t a (\<lambda>n. n\<lparr>lower := lower tn, upper := upper tn,
                       node_data := node_data tn\<rparr>);
                itree_unlink t target
              }
            | _ \<Rightarrow> itree_unlink t a)
         else Some t
       }
   }"

text \<open>
  The depth-first loop the two searches share: \<open>hit\<close> is the test of a node's interval,
  \<open>prune\<close> the test of its \<open>max_upper\<close>, \<open>f\<close> the search function, which returns whether to stop
  and the new user data.
\<close>

partial_function (option) itree_search_loop ::
    "('k \<Rightarrow> 'k \<Rightarrow> bool) \<Rightarrow> ('k \<Rightarrow> bool) \<Rightarrow> ('k, 'd) gzochid_itree \<Rightarrow>
     ('k \<Rightarrow> 'k \<Rightarrow> 'd \<Rightarrow> 'u \<Rightarrow> bool \<times> 'u) \<Rightarrow> nat list \<Rightarrow> 'u \<Rightarrow> 'u option" where
  "itree_search_loop hit prune t f stack u =
     (case stack of
        [] \<Rightarrow> Some u
      | a # stack \<Rightarrow> Option.bind (nodes t a) (\<lambda>n.
          case (if hit (lower n) (upper n) then f (lower n) (upper n) (node_data n) u
                else (False, u)) of
            (stop, u) \<Rightarrow>
              if stop then Some u
              else if prune (max_upper n) then itree_search_loop hit prune t f stack u
              else itree_search_loop hit prune t f
                     ((case left n of None \<Rightarrow> [] | Some l \<Rightarrow> [l])
                      @ (case right n of None \<Rightarrow> [] | Some r \<Rightarrow> [r]) @ stack) u))"

definition point_hit :: "('k, 'd) gzochid_itree \<Rightarrow> 'k \<Rightarrow> 'k \<Rightarrow> 'k \<Rightarrow> bool" where
  "point_hit t point lo up \<longleftrightarrow>
     lower_comparator t point lo \<ge> 0 \<and> upper_comparator t point up \<le> 0"

definition gzochid_itree_search ::
    "('k, 'd) gzochid_itree \<Rightarrow> 'k \<Rightarrow> ('k \<Rightarrow> 'k \<Rightarrow> 'd \<Rightarrow> 'u \<Rightarrow> bool \<times> 'u) \<Rightarrow> 'u \<Rightarrow> 'u option" where
  "gzochid_itree_search t point f u =
     (case itree_root t of
        None \<Rightarrow> Some u
      | Some a \<Rightarrow> itree_search_loop (point_hit t point)
          (\<lambda>m. upper_comparator t point m > 0) t f [a] u)"

definition interval_hit :: "('k, 'd) gzochid_itree \<Rightarrow> 'k \<Rightarrow> 'k \<Rightarrow> 'k \<Rightarrow> 'k \<Rightarrow> bool" where
  "interval_hit t from to lo up \<longleftrightarrow>
     (lower_comparator t from lo \<ge> 0 \<and> upper_comparator t from up \<le> 0)
     \<or> (lower_comparator t to lo \<ge> 0 \<and> upper_comparator t to up \<le> 0)
     \<or> (lower_comparator t from lo \<le> 0 \<and> upper_comparator t to up \<ge> 0)"

definition gzochid_itree_search_interval ::
    "('k, 'd) gzochid_itree \<Rightarrow> 'k \<Rightarrow> 'k \<Rightarrow> ('k \<Rightarrow> 'k \<Rightarrow> 'd \<Rightarrow> 'u \<Rightarrow> bool \<times> 'u) \<Rightarrow> 'u \<Rightarrow>
     'u option" where
  "gzochid_itree_search_interval t from to f u =
     (case itree_root t of
        None \<Rightarrow> Some u
      | Some a \<Rightarrow> itree_search_loop (interval_hit t from to)
          (\<lambda>m. upper_comparator t from m > 0 \<and> upper_comparator t to m > 0) t f [a] u)"


text \<open>The loops unfold when a concrete state is evaluated.\<close>

declare itree_location_loop.simps [code] retrace_insert_loop.simps [code] update_max_loop.simps [code]
  retrace_remove_loop.simps [code] rightmost.simps [code] itree_search_loop.simps [code]

section \<open>Abstraction: trees of addresses\<close>

text \<open>The pointer \<open>p\<close>, whose node has the parent \<open>par\<close>, is the root of the tree.\<close>

fun rep :: "(nat \<rightharpoonup> ('k, 'd) itree_node) \<Rightarrow> nat option \<Rightarrow> nat option \<Rightarrow> nat tree \<Rightarrow> bool" where
  "rep h par p Leaf \<longleftrightarrow> p = None"
| "rep h par p (Node l a r) \<longleftrightarrow> p = Some a \<and>
     (case h a of
        None \<Rightarrow> False
      | Some n \<Rightarrow> parent n = par \<and> rep h (Some a) (left n) l \<and> rep h (Some a) (right n) r)"

abbreviation node_at :: "('k, 'd) gzochid_itree \<Rightarrow> nat \<Rightarrow> ('k, 'd) itree_node" where
  "node_at t a \<equiv> the (nodes t a)"

definition entry :: "('k, 'd) itree_node \<Rightarrow> 'k \<times> 'k \<times> 'd" where
  "entry n = (lower n, upper n, node_data n)"

text \<open>What the tree holds: the intervals with their data.\<close>

definition itree_entries :: "('k, 'd) gzochid_itree \<Rightarrow> ('k \<times> 'k \<times> 'd) set" where
  "itree_entries t = entry ` ran (nodes t)"

text \<open>The order kept by insertion: smaller lower bounds to the left, all others to the right.\<close>

fun bst :: "('k, 'd) gzochid_itree \<Rightarrow> nat tree \<Rightarrow> bool" where
  "bst t Leaf \<longleftrightarrow> True"
| "bst t (Node l a r) \<longleftrightarrow> bst t l \<and> bst t r
     \<and> (\<forall>b \<in> set_tree l. lower_comparator t (lower (node_at t b)) (lower (node_at t a)) < 0)
     \<and> (\<forall>b \<in> set_tree r. lower_comparator t (lower (node_at t b)) (lower (node_at t a)) \<ge> 0)"

text \<open>
  \<open>max_upper\<close> bounds the node's own upper bound and the \<open>max_upper\<close> of its children. It may be
  larger than needed: removing a leaf does not recompute it.
\<close>

definition max_ok :: "('k, 'd) gzochid_itree \<Rightarrow> nat \<Rightarrow> bool" where
  "max_ok t a \<longleftrightarrow>
     (let n = node_at t a; le = (\<lambda>x. upper_comparator t x (max_upper n) \<le> 0)
      in le (upper n) \<and> (\<forall>l. left n = Some l \<longrightarrow> le (max_upper (node_at t l)))
         \<and> (\<forall>r. right n = Some r \<longrightarrow> le (max_upper (node_at t r))))"

definition same_bounds ::
    "('k, 'd) gzochid_itree \<Rightarrow> 'k \<Rightarrow> 'k \<Rightarrow> ('k, 'd) itree_node \<Rightarrow> bool" where
  "same_bounds t lo up n \<longleftrightarrow>
     lower_comparator t lo (lower n) = 0 \<and> upper_comparator t up (upper n) = 0"

text \<open>The invariant of the tree, with its shape.\<close>

definition itree_inv :: "('k, 'd) gzochid_itree \<Rightarrow> nat tree \<Rightarrow> bool" where
  "itree_inv t tr \<longleftrightarrow>
     rep (nodes t) None (itree_root t) tr \<and> distinct (inorder tr)
     \<and> dom (nodes t) = set_tree tr \<and> (\<forall>a \<in> set_tree tr. a < next_node t)
     \<and> bst t tr \<and> (\<forall>a \<in> set_tree tr. max_ok t a)
     \<and> (\<forall>a \<in> set_tree tr. \<forall>b \<in> set_tree tr.
          same_bounds t (lower (node_at t a)) (upper (node_at t a)) (node_at t b) \<longrightarrow> a = b)"

lemma rep_cong:
  "(\<And>a. a \<in> set_tree tr \<Longrightarrow> h a = h' a) \<Longrightarrow> rep h par p tr \<longleftrightarrow> rep h' par p tr"
proof (induction tr arbitrary: par p)
  case Leaf
  then show ?case by simp
next
  case (Node l a r)
  then have "h a = h' a" by simp
  moreover have "rep h (Some a) q l = rep h' (Some a) q l"
    and "rep h (Some a) q r = rep h' (Some a) q r" for q
    using Node by auto
  ultimately show ?case by (simp split: option.split)
qed

lemma rep_update [simp]: "a \<notin> set_tree tr \<Longrightarrow> rep (h(a := x)) par p tr \<longleftrightarrow> rep h par p tr"
  by (rule rep_cong) auto

lemma rep_NodeD:
  assumes "rep h par p (Node l a r)"
  obtains n where "p = Some a" and "h a = Some n" and "parent n = par"
    and "rep h (Some a) (left n) l" and "rep h (Some a) (right n) r"
  using assms by (auto split: option.splits)

lemma rep_None [simp]: "rep h par None tr \<longleftrightarrow> tr = Leaf"
  by (cases tr) auto

lemma rep_dom: "rep h par p tr \<Longrightarrow> a \<in> set_tree tr \<Longrightarrow> \<exists>n. h a = Some n"
  by (induction tr arbitrary: par p) (auto split: option.splits)

section \<open>Search\<close>

text \<open>The search function applied to a list of entries until it asks to stop.\<close>

fun visit ::
    "('k \<Rightarrow> 'k \<Rightarrow> 'd \<Rightarrow> 'u \<Rightarrow> bool \<times> 'u) \<Rightarrow> ('k \<times> 'k \<times> 'd) list \<Rightarrow> 'u \<Rightarrow> bool \<times> 'u" where
  "visit f [] u = (False, u)"
| "visit f ((lo, up, d) # es) u =
     (case f lo up d u of (stop, u) \<Rightarrow> if stop then (True, u) else visit f es u)"

lemma visit_append:
  "visit f (xs @ ys) u = (case visit f xs u of (stop, u) \<Rightarrow> if stop then (True, u) else visit f ys u)"
  by (induction f xs u rule: visit.induct) (auto split: prod.split)

definition hits ::
    "('k \<Rightarrow> 'k \<Rightarrow> bool) \<Rightarrow> ('k, 'd) gzochid_itree \<Rightarrow> nat tree \<Rightarrow> ('k \<times> 'k \<times> 'd) list" where
  "hits hit t tr = filter (\<lambda>(lo, up, d). hit lo up) (map (entry \<circ> node_at t) (preorder tr))"

text \<open>Pruning is sound: below a node where it applies nothing is a hit.\<close>

fun prune_ok ::
    "('k \<Rightarrow> 'k \<Rightarrow> bool) \<Rightarrow> ('k \<Rightarrow> bool) \<Rightarrow> ('k, 'd) gzochid_itree \<Rightarrow> nat tree \<Rightarrow> bool" where
  "prune_ok hit prune t Leaf \<longleftrightarrow> True"
| "prune_ok hit prune t (Node l a r) \<longleftrightarrow>
     (prune (max_upper (node_at t a)) \<longrightarrow>
        (\<forall>b \<in> set_tree l \<union> set_tree r. \<not> hit (lower (node_at t b)) (upper (node_at t b))))
     \<and> prune_ok hit prune t l \<and> prune_ok hit prune t r"

lemma hits_Node:
  "hits hit t (Node l a r) =
    (if hit (lower (node_at t a)) (upper (node_at t a)) then [entry (node_at t a)] else [])
    @ hits hit t l @ hits hit t r"
  by (simp add: hits_def entry_def)

lemma hits_none:
  "(\<And>b. b \<in> set_tree tr \<Longrightarrow> \<not> hit (lower (node_at t b)) (upper (node_at t b))) \<Longrightarrow> hits hit t tr = []"
  by (auto simp: hits_def entry_def filter_empty_conv)

abbreviation push :: "nat option \<Rightarrow> nat list \<Rightarrow> nat list" where
  "push p stack \<equiv> (case p of None \<Rightarrow> [] | Some a \<Rightarrow> [a]) @ stack"

lemma search_loop_tree:
  assumes "rep (nodes t) par p tr" and "prune_ok hit prune t tr"
  shows "itree_search_loop hit prune t f (push p stack) u =
    (case visit f (hits hit t tr) u of (stop, u) \<Rightarrow>
       if stop then Some u else itree_search_loop hit prune t f stack u)"
  using assms
proof (induction tr arbitrary: par p stack u)
  case Leaf
  then show ?case by (simp add: hits_def)
next
  case (Node l a r)
  from Node.prems(1) obtain n where n: "p = Some a" "nodes t a = Some n"
      "rep (nodes t) (Some a) (left n) l" "rep (nodes t) (Some a) (right n) r"
    by (rule rep_NodeD)
  from Node.prems(2) have ok: "prune_ok hit prune t l" "prune_ok hit prune t r" by auto
  have pruned: "hits hit t l = []" "hits hit t r = []" if "prune (max_upper n)"
    using that Node.prems(2) n(2) by (auto intro!: hits_none)
  show ?case
    unfolding n(1)
    by (subst itree_search_loop.simps)
      (auto simp: n(2) hits_Node visit_append entry_def pruned Node.IH(1) [OF n(3) ok(1)]
        Node.IH(2) [OF n(4) ok(2)] split: prod.split)
qed


lemma search_loop_Nil: "itree_search_loop hit prune t f [] u = Some u"
  by (simp add: itree_search_loop.simps)

text \<open>What a \<open>GCompareFunc\<close> promises: a total preorder, by the sign of its result.\<close>

locale compare_func =
  fixes cmp :: "'k \<Rightarrow> 'k \<Rightarrow> int"
  assumes cmp_refl: "cmp a a = 0"
    and cmp_swap: "cmp a b < 0 \<longleftrightarrow> cmp b a > 0"
    and cmp_trans: "cmp a b \<le> 0 \<Longrightarrow> cmp b c \<le> 0 \<Longrightarrow> cmp a c \<le> 0"
begin

lemma cmp_sym0: "cmp a b = 0 \<longleftrightarrow> cmp b a = 0"
  using cmp_swap [of a b] cmp_swap [of b a] by linarith

lemma cmp_le_ge: "cmp a b \<le> 0 \<longleftrightarrow> cmp b a \<ge> 0"
  using cmp_swap [of b a] by linarith

lemma cmp_total: "cmp a b \<le> 0 \<or> cmp b a \<le> 0"
  using cmp_swap [of a b] by linarith

lemma cmp_less_trans1: "cmp a b < 0 \<Longrightarrow> cmp b c \<le> 0 \<Longrightarrow> cmp a c < 0"
  using cmp_trans [of b c a] cmp_swap [of a b] cmp_swap [of a c] cmp_le_ge [of c a] by linarith

lemma cmp_less_trans2: "cmp a b \<le> 0 \<Longrightarrow> cmp b c < 0 \<Longrightarrow> cmp a c < 0"
  using cmp_trans [of c a b] cmp_swap [of b c] cmp_swap [of a c] cmp_le_ge [of c a] by linarith

lemma cmp_cong0: "cmp a b = 0 \<Longrightarrow> sgn (cmp a c) = sgn (cmp b c)"
proof -
  assume eq: "cmp a b = 0"
  then have "cmp b a = 0" by (simp add: cmp_sym0)
  with eq have "cmp a c \<le> 0 \<longleftrightarrow> cmp b c \<le> 0" and "cmp c a \<le> 0 \<longleftrightarrow> cmp c b \<le> 0"
    using cmp_trans [of a b c] cmp_trans [of b a c] cmp_trans [of c a b] cmp_trans [of c b a] by auto
  then show ?thesis
    using cmp_le_ge [of c a] cmp_le_ge [of c b] by (auto simp: sgn_if)
qed

end

text \<open>A tree with two such comparators.\<close>

locale ordered_itree = l: compare_func lcmp + u: compare_func ucmp
  for lcmp :: "'k \<Rightarrow> 'k \<Rightarrow> int" and ucmp :: "'k \<Rightarrow> 'k \<Rightarrow> int"
begin

definition owns :: "('k, 'd) gzochid_itree \<Rightarrow> bool" where
  "owns t \<longleftrightarrow> lower_comparator t = lcmp \<and> upper_comparator t = ucmp"

lemma subtree_max:
  assumes "owns t" and "rep (nodes t) par (Some a) tr" and "\<forall>a \<in> set_tree tr. max_ok t a"
    and "b \<in> set_tree tr"
  shows "ucmp (upper (node_at t b)) (max_upper (node_at t a)) \<le> 0"
  using assms(2-4)
proof (induction tr arbitrary: par a)
  case Leaf
  then show ?case by simp
next
  case (Node l a' r)
  from Node.prems(1) obtain n where a': "a' = a" and n: "nodes t a = Some n"
      "rep (nodes t) (Some a) (left n) l" "rep (nodes t) (Some a) (right n) r"
    by (auto split: option.splits)
  have ok: "max_ok t a"
    using Node.prems(2) a' by simp
  have child: "ucmp (max_upper (node_at t c)) (max_upper (node_at t a)) \<le> 0"
    if "left n = Some c \<or> right n = Some c" for c
    using that ok n(1) assms(1) by (auto simp: max_ok_def owns_def Let_def)
  consider "b = a" | "b \<in> set_tree l" | "b \<in> set_tree r"
    using Node.prems(3) a' by auto
  then show ?case
  proof cases
    case 1
    with ok assms(1) show ?thesis by (simp add: max_ok_def owns_def Let_def)
  next
    case 2
    then obtain c where c: "left n = Some c"
      using n(2) by (cases "left n") auto
    then have "ucmp (upper (node_at t b)) (max_upper (node_at t c)) \<le> 0"
      using Node.IH(1) [of "Some a" c] n(2) Node.prems(2) 2 by auto
    with child c show ?thesis by (blast intro: u.cmp_trans)
  next
    case 3
    then obtain c where c: "right n = Some c"
      using n(3) by (cases "right n") auto
    then have "ucmp (upper (node_at t b)) (max_upper (node_at t c)) \<le> 0"
      using Node.IH(2) [of "Some a" c] n(3) Node.prems(2) 3 by auto
    with child c show ?thesis by (blast intro: u.cmp_trans)
  qed
qed

lemma prune_ok_tree:
  assumes t: "owns t"
    and sound: "\<And>m lo up d. (lo, up, d) \<in> itree_entries t \<Longrightarrow> ucmp up m \<le> 0 \<Longrightarrow> prune m \<Longrightarrow> \<not> hit lo up"
    and "rep (nodes t) par p tr" and "\<forall>a \<in> set_tree tr. max_ok t a"
  shows "prune_ok hit prune t tr"
  using assms(3,4)
proof (induction tr arbitrary: par p)
  case Leaf
  then show ?case by simp
next
  case (Node l a r)
  from Node.prems(1) obtain n where n: "nodes t a = Some n"
      "rep (nodes t) (Some a) (left n) l" "rep (nodes t) (Some a) (right n) r" and p: "p = Some a"
    by (rule rep_NodeD)
  have "\<not> hit (lower (node_at t b)) (upper (node_at t b))"
    if pr: "prune (max_upper (node_at t a))" and b: "b \<in> set_tree l \<union> set_tree r" for b
  proof (rule sound [of _ _ "node_data (node_at t b)"])
    obtain bn where "nodes t b = Some bn"
      using rep_dom [OF Node.prems(1), of b] b by auto
    then show "(lower (node_at t b), upper (node_at t b), node_data (node_at t b)) \<in> itree_entries t"
      by (force simp: itree_entries_def entry_def intro: ranI)
    show "ucmp (upper (node_at t b)) (max_upper (node_at t a)) \<le> 0"
      using b Node.prems n p by (intro subtree_max [OF t, of par _ "Node l a r"]) auto
  qed (rule pr)
  with Node.IH(1) [OF n(2)] Node.IH(2) [OF n(3)] Node.prems(2) show ?case by auto
qed

lemma set_hits:
  assumes "dom (nodes t) = set_tree tr"
  shows "set (hits hit t tr) = {(lo, up, d) \<in> itree_entries t. hit lo up}"
proof -
  have "(entry \<circ> node_at t) ` set_tree tr = itree_entries t"
    using assms by (force simp: itree_entries_def ran_def image_iff)
  then show ?thesis
    by (auto simp: hits_def)
qed

text \<open>A search visits exactly the hits, when pruning is sound for the query.\<close>

lemma search_visits:
  assumes "owns t" and inv: "itree_inv t tr"
    and sound: "\<And>m lo up d. (lo, up, d) \<in> itree_entries t \<Longrightarrow> ucmp up m \<le> 0 \<Longrightarrow> prune m \<Longrightarrow> \<not> hit lo up"
  shows "(case itree_root t of None \<Rightarrow> Some u | Some a \<Rightarrow> itree_search_loop hit prune t f [a] u) =
    Some (snd (visit f (hits hit t tr) u))"
proof -
  have rep: "rep (nodes t) None (itree_root t) tr" and ok: "\<forall>a \<in> set_tree tr. max_ok t a"
    using inv by (auto simp: itree_inv_def)
  have pk: "prune_ok hit prune t tr"
    by (rule prune_ok_tree [OF assms(1) _ rep ok]) (rule sound)
  have "itree_search_loop hit prune t f (push (itree_root t) []) u =
      Some (snd (visit f (hits hit t tr) u))"
    using search_loop_tree [OF rep pk, where f = f and stack = "[]" and u = u]
    by (simp add: search_loop_Nil split: prod.splits)
  then show ?thesis
    using rep by (cases "itree_root t") (auto simp: hits_def)
qed

lemma point_search:
  assumes "owns t" and "itree_inv t tr"
  shows "\<exists>es. set es = {(lo, up, d) \<in> itree_entries t. lcmp pt lo \<ge> 0 \<and> ucmp pt up \<le> 0}
    \<and> gzochid_itree_search t pt f u = Some (snd (visit f es u))"
proof (intro exI conjI)
  show "gzochid_itree_search t pt f u = Some (snd (visit f (hits (point_hit t pt) t tr) u))"
    unfolding gzochid_itree_search_def
  proof (rule search_visits [OF assms])
    fix m lo up d
    assume "ucmp up m \<le> 0" and "upper_comparator t pt m > 0"
    then show "\<not> point_hit t pt lo up"
      using assms(1) u.cmp_trans [of pt up m] by (auto simp: owns_def point_hit_def)
  qed
  show "set (hits (point_hit t pt) t tr) =
      {(lo, up, d) \<in> itree_entries t. lcmp pt lo \<ge> 0 \<and> ucmp pt up \<le> 0}"
    using assms set_hits [of t tr] by (auto simp: itree_inv_def owns_def point_hit_def)
qed

text \<open>
  For an interval the same needs the query's lower bound to be ordered alike by both comparators:
  wherever it is below an interval's lower bound it is below its upper bound.
\<close>

lemma interval_search:
  assumes "owns t" and "itree_inv t tr"
    and "\<And>lo up d. (lo, up, d) \<in> itree_entries t \<Longrightarrow> lcmp from lo \<le> 0 \<Longrightarrow> ucmp from up \<le> 0"
  shows "\<exists>es. set es = {(lo, up, d) \<in> itree_entries t. interval_hit t from to lo up}
    \<and> gzochid_itree_search_interval t from to f u = Some (snd (visit f es u))"
proof (intro exI conjI)
  show "gzochid_itree_search_interval t from to f u =
      Some (snd (visit f (hits (interval_hit t from to) t tr) u))"
    unfolding gzochid_itree_search_interval_def
  proof (rule search_visits [OF assms(1,2)])
    fix m lo up d
    assume e: "(lo, up, d) \<in> itree_entries t" and m: "ucmp up m \<le> 0"
      and p: "upper_comparator t from m > 0 \<and> upper_comparator t to m > 0"
    then have "\<not> ucmp from up \<le> 0" and "\<not> ucmp to up \<le> 0"
      using assms(1) u.cmp_trans [of "from" up m] u.cmp_trans [of to up m] by (auto simp: owns_def)
    with assms(1) assms(3) [OF e] show "\<not> interval_hit t from to lo up"
      by (auto simp: interval_hit_def owns_def)
  qed
  show "set (hits (interval_hit t from to) t tr) =
      {(lo, up, d) \<in> itree_entries t. interval_hit t from to lo up}"
    using assms(2) set_hits [of t tr] by (auto simp: itree_inv_def)
qed
end


section \<open>Links of a tree\<close>

fun depth :: "nat tree \<Rightarrow> nat \<Rightarrow> nat" where
  "depth Leaf b = 0"
| "depth (Node l a r) b =
     (if b = a then 0 else if b \<in> set_tree l then Suc (depth l b) else Suc (depth r b))"

lemma rep_child:
  assumes "rep h par p tr" and "distinct (inorder tr)" and "b \<in> set_tree tr" and "h b = Some n"
    and "left n = Some a \<or> right n = Some a"
  shows "a \<in> set_tree tr \<and> a \<noteq> b \<and> (\<exists>na. h a = Some na \<and> parent na = Some b)"
  using assms
proof (induction tr arbitrary: par p)
  case Leaf
  then show ?case by simp
next
  case (Node l c r)
  from Node.prems(1) obtain nc where nc: "h c = Some nc"
      "rep h (Some c) (left nc) l" "rep h (Some c) (right nc) r"
    by (rule rep_NodeD)
  have sub: "x \<in> set_tree s" "\<exists>na. h x = Some na \<and> parent na = Some c"
    if "rep h (Some c) (Some x) s" for x s
    using that by (cases s; auto split: option.splits)+
  consider "b = c" | "b \<in> set_tree l" | "b \<in> set_tree r"
    using Node.prems(3) by auto
  then show ?case
  proof cases
    case 1
    then have "rep h (Some c) (Some a) l \<or> rep h (Some c) (Some a) r"
      using Node.prems(4,5) nc by auto
    with sub [of a l] sub [of a r] Node.prems(2) 1 show ?thesis by auto
  next
    case 2
    with Node.IH(1) [OF nc(2)] Node.prems show ?thesis by auto
  next
    case 3
    with Node.IH(2) [OF nc(3)] Node.prems show ?thesis by auto
  qed
qed

lemma rep_parent:
  assumes "rep h par p tr" and "distinct (inorder tr)" and "a \<in> set_tree tr" and "h a = Some n"
  shows "parent n = par \<and> depth tr a = 0
    \<or> (\<exists>q. parent n = Some q \<and> q \<in> set_tree tr \<and> depth tr q < depth tr a)"
  using assms
proof (induction tr arbitrary: par p)
  case Leaf
  then show ?case by simp
next
  case (Node l c r)
  from Node.prems(1) obtain nc where nc: "h c = Some nc" "parent nc = par"
      "rep h (Some c) (left nc) l" "rep h (Some c) (right nc) r"
    by (rule rep_NodeD)
  consider "a = c" | "a \<in> set_tree l" "a \<noteq> c" | "a \<in> set_tree r" "a \<notin> set_tree l" "a \<noteq> c"
    using Node.prems(2,3) by auto
  then show ?case
  proof cases
    case 1
    with nc Node.prems(4) show ?thesis by simp
  next
    case 2
    with Node.IH(1) [OF nc(3)] Node.prems(2,4) show ?thesis by auto
  next
    case 3
    with Node.IH(2) [OF nc(4)] Node.prems(2,4) show ?thesis by auto
  qed
qed

section \<open>Recomputing the upper bounds\<close>

text \<open>The tree with other \<open>max_upper\<close> fields and nothing else changed.\<close>

definition with_max :: "('k, 'd) gzochid_itree \<Rightarrow> (nat \<Rightarrow> 'k) \<Rightarrow> ('k, 'd) gzochid_itree" where
  "with_max t mx = t\<lparr>nodes := (\<lambda>b. map_option (\<lambda>n. n\<lparr>max_upper := mx b\<rparr>) (nodes t b))\<rparr>"

lemma with_max_simps [simp]:
  "itree_root (with_max t mx) = itree_root t" "next_node (with_max t mx) = next_node t"
  "lower_comparator (with_max t mx) = lower_comparator t"
  "upper_comparator (with_max t mx) = upper_comparator t"
  "dom (nodes (with_max t mx)) = dom (nodes t)"
  "with_max (with_max t mx) mx' = with_max t mx'"
  "nodes (with_max t mx) b = map_option (\<lambda>n. n\<lparr>max_upper := mx b\<rparr>) (nodes t b)"
  by (auto simp: with_max_def dom_def option.map_comp comp_def)

lemma with_max_rep [simp]: "rep (nodes (with_max t mx)) par p tr \<longleftrightarrow> rep (nodes t) par p tr"
  by (induction tr arbitrary: par p) (auto split: option.splits)

lemma max_upper_self [simp]: "n\<lparr>max_upper := max_upper n\<rparr> = n"
  by (cases n) simp

lemma with_max_one:
  assumes "nodes t a = Some n"
  shows "t\<lparr>nodes := (nodes t)(a \<mapsto> n\<lparr>max_upper := m\<rparr>)\<rparr> =
    with_max t ((\<lambda>b. max_upper (node_at t b))(a := m))"
proof -
  have "((nodes t)(a \<mapsto> n\<lparr>max_upper := m\<rparr>)) b =
      nodes (with_max t ((\<lambda>b. max_upper (node_at t b))(a := m))) b" for b
    using assms by (cases "nodes t b") auto
  then have "(nodes t)(a \<mapsto> n\<lparr>max_upper := m\<rparr>) =
      nodes (with_max t ((\<lambda>b. max_upper (node_at t b))(a := m)))"
    by blast
  then show ?thesis by (simp add: with_max_def)
qed

lemma with_max_same: "with_max t (\<lambda>b. max_upper (node_at t b)) = t"
proof -
  have "nodes (with_max t (\<lambda>b. max_upper (node_at t b))) b = nodes t b" for b
    by (cases "nodes t b") auto
  then have "nodes (with_max t (\<lambda>b. max_upper (node_at t b))) = nodes t" by blast
  then show ?thesis by (simp add: with_max_def)
qed

context ordered_itree
begin

lemma owns_with_max [simp]: "owns (with_max t mx) \<longleftrightarrow> owns t"
  by (simp add: owns_def)

lemma child_max_spec:
  assumes "owns t" and "\<And>c. child = Some c \<Longrightarrow> nodes t c \<noteq> None"
  shows "\<exists>m'. child_max t child m = Some m' \<and> ucmp m m' \<le> 0
    \<and> (\<forall>c. child = Some c \<longrightarrow> ucmp (max_upper (node_at t c)) m' \<le> 0)"
proof (cases child)
  case None
  then show ?thesis by (simp add: child_max_def u.cmp_refl)
next
  case (Some c)
  then obtain cn where "nodes t c = Some cn" using assms by blast
  with Some assms(1) show ?thesis
    using u.cmp_le_ge [of m "max_upper cn"]
    by (auto simp: child_max_def owns_def u.cmp_refl)
qed

lemma update_max_upper_spec:
  assumes "owns t" and a: "nodes t a = Some n"
    and kids: "\<And>c. left n = Some c \<or> right n = Some c \<Longrightarrow> nodes t c \<noteq> None \<and> c \<noteq> a"
  shows "\<exists>m. update_max_upper t a =
      Some (with_max t ((\<lambda>b. max_upper (node_at t b))(a := m)), max_upper n \<noteq> m)
    \<and> max_ok (with_max t ((\<lambda>b. max_upper (node_at t b))(a := m))) a"
proof -
  obtain m1 where m1: "child_max t (left n) (upper n) = Some m1" "ucmp (upper n) m1 \<le> 0"
      "\<And>c. left n = Some c \<Longrightarrow> ucmp (max_upper (node_at t c)) m1 \<le> 0"
    using child_max_spec [OF assms(1), of "left n" "upper n"] kids by blast
  obtain m where m: "child_max t (right n) m1 = Some m" "ucmp m1 m \<le> 0"
      "\<And>c. right n = Some c \<Longrightarrow> ucmp (max_upper (node_at t c)) m \<le> 0"
    using child_max_spec [OF assms(1), of "right n" m1] kids by blast
  have upd: "update_max_upper t a =
      Some (with_max t ((\<lambda>b. max_upper (node_at t b))(a := m)), max_upper n \<noteq> m)"
    using a m1(1) m(1) with_max_same [of t] with_max_one [OF a, of m]
    by (auto simp: update_max_upper_def upd_node_def fun_upd_idem)
  have "ucmp (upper n) m \<le> 0" and "\<And>c. left n = Some c \<Longrightarrow> ucmp (max_upper (node_at t c)) m \<le> 0"
    using m1 m(2) by (blast intro: u.cmp_trans)+
  with m(3) kids a assms(1)
  have "max_ok (with_max t ((\<lambda>b. max_upper (node_at t b))(a := m))) a"
    by (fastforce simp: max_ok_def owns_def Let_def option.map_sel)
  with upd show ?thesis by blast
qed

lemma update_max_loop_spec:
  assumes "owns t" and "rep (nodes t) None (itree_root t) tr" and "distinct (inorder tr)"
    and "a \<in> set_tree tr" and "\<forall>b \<in> set_tree tr - {a}. max_ok t b"
  shows "\<exists>mx. update_max_loop t a = Some (with_max t mx) \<and> (\<forall>b \<in> set_tree tr. max_ok (with_max t mx) b)"
  using assms
proof (induction "depth tr a" arbitrary: a t rule: less_induct)
  case less
  note t = less.prems(1) and rep = less.prems(2) and dist = less.prems(3) and ain = less.prems(4)
  obtain n where n: "nodes t a = Some n"
    using rep_dom [OF rep ain] by blast
  have kids: "nodes t c \<noteq> None \<and> c \<noteq> a" if "left n = Some c \<or> right n = Some c" for c
    using rep_child [OF rep dist ain n that] by auto
  obtain m where m: "update_max_upper t a =
        Some (with_max t ((\<lambda>b. max_upper (node_at t b))(a := m)), max_upper n \<noteq> m)"
      "max_ok (with_max t ((\<lambda>b. max_upper (node_at t b))(a := m))) a"
    using update_max_upper_spec [OF t n kids] by blast
  let ?t = "with_max t ((\<lambda>b. max_upper (node_at t b))(a := m))"
  have others: "max_ok ?t b" if b: "b \<in> set_tree tr" "b \<noteq> a" "parent n \<noteq> Some b" for b
  proof -
    obtain nb where nb: "nodes t b = Some nb"
      using rep_dom [OF rep b(1)] by blast
    have kid: "\<exists>nc. nodes t c = Some nc \<and> c \<noteq> a" if "left nb = Some c \<or> right nb = Some c" for c
      using rep_child [OF rep dist b(1) nb that] n b(3) by auto
    have "max_ok t b" using less.prems(5) b by simp
    with nb b(2) show ?thesis
      by (fastforce simp: max_ok_def Let_def dest: kid [OF disjI1] kid [OF disjI2])
  qed
  show ?case
  proof (cases "max_upper n = m")
    case True
    then have "(\<lambda>b. max_upper (node_at t b))(a := m) = (\<lambda>b. max_upper (node_at t b))"
      using n by (auto simp: fun_eq_iff)
    then have "?t = t"
      by (simp only: with_max_same)
    then have "update_max_loop t a = Some t"
      using m(1) True by (subst update_max_loop.simps) simp
    moreover have "\<forall>b \<in> set_tree tr. max_ok t b"
      using less.prems(5) m(2) \<open>?t = t\<close> by auto
    ultimately show ?thesis
      by (intro exI [of _ "\<lambda>b. max_upper (node_at t b)"]) (simp add: with_max_same)
  next
    case False
    from rep_parent [OF rep dist ain n] show ?thesis
    proof (elim disjE exE conjE)
      assume "parent n = None" and "depth tr a = 0"
      then have "update_max_loop t a = Some ?t"
        using m(1) False n by (subst update_max_loop.simps) simp
      moreover have "\<forall>b \<in> set_tree tr. max_ok ?t b"
        using others m(2) \<open>parent n = None\<close> by auto
      ultimately show ?thesis by blast
    next
      fix q
      assume q: "parent n = Some q" "q \<in> set_tree tr" "depth tr q < depth tr a"
      have "\<exists>mx. update_max_loop ?t q = Some (with_max ?t mx)
          \<and> (\<forall>b \<in> set_tree tr. max_ok (with_max ?t mx) b)"
        using less.hyps [OF q(3), of ?t] t rep dist q(2) others m(2) q(1) by auto
      moreover have "update_max_loop t a = update_max_loop ?t q"
        using m(1) False n q(1) by (subst update_max_loop.simps) simp
      ultimately show ?thesis by auto
    qed
  qed
qed
end


section \<open>Locating an interval\<close>

text \<open>The tree after a new leaf \<open>x\<close> with lower bound \<open>lo\<close> was linked where the search for it ends.\<close>

fun tins :: "('k, 'd) gzochid_itree \<Rightarrow> 'k \<Rightarrow> nat \<Rightarrow> nat tree \<Rightarrow> nat tree" where
  "tins t lo x Leaf = Node Leaf x Leaf"
| "tins t lo x (Node l a r) =
     (if lower_comparator t lo (lower (node_at t a)) < 0 then Node (tins t lo x l) a r
      else Node l a (tins t lo x r))"

lemma set_tins [simp]: "set_tree (tins t lo x tr) = insert x (set_tree tr)"
  by (induction tr) auto

lemma distinct_tins [simp]:
  "distinct (inorder (tins t lo x tr)) \<longleftrightarrow> x \<notin> set_tree tr \<and> distinct (inorder tr)"
  by (induction tr) auto

text \<open>The links of \<open>h\<close> are those of the tree with \<open>x\<close> linked under \<open>b\<close>.\<close>

definition grafted ::
    "('k, 'd) gzochid_itree \<Rightarrow> 'k \<Rightarrow> nat \<Rightarrow> nat \<Rightarrow> (nat \<rightharpoonup> ('k, 'd) itree_node) \<Rightarrow> nat tree \<Rightarrow> bool" where
  "grafted t lo b x h tr \<longleftrightarrow>
     x \<notin> set_tree tr \<and> (\<forall>c \<in> set_tree tr - {b}. h c = nodes t c)
     \<and> (\<exists>n n' xn. nodes t b = Some n \<and> h b = Some n' \<and> parent n' = parent n
          \<and> (if lower_comparator t lo (lower n) < 0 then left n' = Some x \<and> right n' = right n
             else left n' = left n \<and> right n' = Some x)
          \<and> h x = Some xn \<and> parent xn = Some b \<and> left xn = None \<and> right xn = None)"

text \<open>Where no node has the bounds, the search ends at a node with a free slot on its side.\<close>

lemma location_miss:
  assumes "rep (nodes t) par (Some a) tr" and "distinct (inorder tr)"
    and "\<forall>b \<in> set_tree tr. \<not> same_bounds t lo up (node_at t b)"
  shows "\<exists>b n. itree_location_loop t lo up a = Some b \<and> b \<in> set_tree tr \<and> nodes t b = Some n
    \<and> (if lower_comparator t lo (lower n) < 0 then left n = None else right n = None)
    \<and> (\<forall>h x. grafted t lo b x h tr \<longrightarrow> rep h par (Some a) (tins t lo x tr))"
  using assms
proof (induction tr arbitrary: par a)
  case Leaf
  then show ?case by simp
next
  case (Node l a' r)
  from Node.prems(1) obtain n where a': "a' = a" and n: "nodes t a = Some n" "parent n = par"
      "rep (nodes t) (Some a) (left n) l" "rep (nodes t) (Some a) (right n) r"
    by (auto split: option.splits)
  have miss: "\<not> (lower_comparator t lo (lower n) = 0 \<and> upper_comparator t up (upper n) = 0)"
    using Node.prems(3) a' n(1) by (simp add: same_bounds_def)
  define s sub where "s = (if lower_comparator t lo (lower n) < 0 then left n else right n)"
    and "sub = (if lower_comparator t lo (lower n) < 0 then l else r)"
  have step: "itree_location_loop t lo up a =
      (case s of None \<Rightarrow> Some a | Some c \<Rightarrow> itree_location_loop t lo up c)"
    using miss n(1) by (subst itree_location_loop.simps) (auto simp: s_def)
  have rs: "rep (nodes t) (Some a) s sub" and dist: "distinct (inorder sub)" "a \<notin> set_tree sub"
    using n(3,4) Node.prems(2) a' by (auto simp: s_def sub_def)
  show ?case
  proof (cases s)
    case None
    then have "sub = Leaf" using rs by simp
    moreover have "rep h par (Some a) (tins t lo x (Node l a' r))"
      if "grafted t lo a x h (Node l a' r)" for h x
      using that None \<open>sub = Leaf\<close> n a' Node.prems(2)
        rep_cong [of l "nodes t" h] rep_cong [of r "nodes t" h]
      by (auto simp: grafted_def s_def sub_def split: if_splits option.splits)
    ultimately show ?thesis
      using step None n a' by (auto simp: s_def split: if_splits)
  next
    case (Some c)
    have "\<exists>b m. itree_location_loop t lo up c = Some b \<and> b \<in> set_tree sub \<and> nodes t b = Some m
      \<and> (if lower_comparator t lo (lower m) < 0 then left m = None else right m = None)
      \<and> (\<forall>h x. grafted t lo b x h sub \<longrightarrow> rep h (Some a) (Some c) (tins t lo x sub))"
      using Node.IH rs dist Node.prems(3) Some
      by (cases "lower_comparator t lo (lower n) < 0") (auto simp: s_def sub_def)
    then obtain b m where b: "itree_location_loop t lo up c = Some b" "b \<in> set_tree sub"
        "nodes t b = Some m"
        "if lower_comparator t lo (lower m) < 0 then left m = None else right m = None"
        "\<And>h x. grafted t lo b x h sub \<Longrightarrow> rep h (Some a) (Some c) (tins t lo x sub)"
      by blast
    have "rep h par (Some a) (tins t lo x (Node l a' r))"
      if g: "grafted t lo b x h (Node l a' r)" for h x
    proof -
      have "grafted t lo b x h sub"
        using g by (auto simp: grafted_def sub_def)
      then have "rep h (Some a) (Some c) (tins t lo x sub)" by (rule b(5))
      moreover have "b \<noteq> a"
        using b(2) dist(2) by auto
      then have "h a = Some n" and "x \<noteq> a"
        using g a' n(1) by (auto simp: grafted_def)
      moreover have "rep h (Some a) q o' = rep (nodes t) (Some a) q o'"
        if "o' = (if lower_comparator t lo (lower n) < 0 then r else l)" for q o'
        using that g b(2) Node.prems(2) a'
        by (intro rep_cong) (auto simp: grafted_def sub_def split: if_splits)
      ultimately show ?thesis
        using n a' Some by (auto simp: sub_def s_def split: if_splits)
    qed
    then show ?thesis
      using step Some b(1-4) by (auto simp: sub_def split: if_splits)
  qed
qed

context ordered_itree
begin

text \<open>Where a node has the bounds, the search finds it.\<close>

lemma location_hit:
  assumes "owns t" and "rep (nodes t) par (Some a) tr" and "bst t tr"
    and "b \<in> set_tree tr" and "same_bounds t lo up (node_at t b)"
  shows "\<exists>c \<in> set_tree tr. itree_location_loop t lo up a = Some c
    \<and> same_bounds t lo up (node_at t c)"
  using assms(2-4)
proof (induction tr arbitrary: par a)
  case Leaf
  then show ?case by simp
next
  case (Node l a' r)
  from Node.prems(1) obtain n where a': "a' = a" and n: "nodes t a = Some n"
      "rep (nodes t) (Some a) (left n) l" "rep (nodes t) (Some a) (right n) r"
    by (auto split: option.splits)
  show ?case
  proof (cases "same_bounds t lo up n")
    case True
    then have "itree_location_loop t lo up a = Some a"
      using n(1) by (subst itree_location_loop.simps) (simp add: same_bounds_def)
    with True n(1) a' show ?thesis by auto
  next
    case False
    then have ba: "b \<noteq> a"
      using assms(5) n(1) by auto
    have eq: "sgn (lcmp lo (lower n)) = sgn (lcmp (lower (node_at t b)) (lower n))"
      using assms(1,5) by (intro l.cmp_cong0) (simp add: same_bounds_def owns_def)
    have side: "if lcmp lo (lower n) < 0 then b \<in> set_tree l else b \<in> set_tree r"
      using Node.prems(2,3) a' ba n(1) eq assms(1)
      by (auto simp: owns_def sgn_if split: if_splits)
    have step: "itree_location_loop t lo up a =
        (if lcmp lo (lower n) < 0
         then (case left n of None \<Rightarrow> Some a | Some c \<Rightarrow> itree_location_loop t lo up c)
         else (case right n of None \<Rightarrow> Some a | Some c \<Rightarrow> itree_location_loop t lo up c))"
      using False n(1) assms(1)
      by (subst itree_location_loop.simps) (auto simp: same_bounds_def owns_def)
    show ?thesis
    proof (cases "lcmp lo (lower n) < 0")
      case True
      with side obtain c where "left n = Some c" using n(2) by (cases "left n") auto
      with True side step Node.IH(1) [of "Some a" c] n(2) Node.prems(2) show ?thesis by auto
    next
      case False
      with side obtain c where "right n = Some c" using n(3) by (cases "right n") auto
      with False side step Node.IH(2) [of "Some a" c] n(3) Node.prems(2) show ?thesis by auto
    qed
  qed
qed
end

section \<open>Insertion\<close>

text \<open>
  The balance factors as insertion alone maintains them: within \<open>[-1, 1]\<close>, and on the side of an
  absent child not towards it.
\<close>

definition balance_ok :: "('k, 'd) gzochid_itree \<Rightarrow> bool" where
  "balance_ok t \<longleftrightarrow> (\<forall>n \<in> ran (nodes t). \<bar>balance_factor n\<bar> \<le> 1
     \<and> (left n = None \<longrightarrow> balance_factor n \<le> 0) \<and> (right n = None \<longrightarrow> 0 \<le> balance_factor n))"

text \<open>What an insertion does to the entries.\<close>

definition put_entry ::
    "('k \<Rightarrow> 'k \<Rightarrow> int) \<Rightarrow> ('k \<Rightarrow> 'k \<Rightarrow> int) \<Rightarrow> 'k \<Rightarrow> 'k \<Rightarrow> 'd \<Rightarrow> ('k \<times> 'k \<times> 'd) set \<Rightarrow>
     ('k \<times> 'k \<times> 'd) set" where
  "put_entry lcmp ucmp lo up d es =
     (if \<exists>l u x. (l, u, x) \<in> es \<and> lcmp lo l = 0 \<and> ucmp up u = 0
      then (\<lambda>(l, u, x). (l, u, if lcmp lo l = 0 \<and> ucmp up u = 0 then d else x)) ` es
      else insert (lo, up, d) es)"

lemma bst_cong:
  assumes "lower_comparator t' = lower_comparator t"
    and "\<And>b. b \<in> set_tree tr \<Longrightarrow> lower (node_at t' b) = lower (node_at t b)"
  shows "bst t' tr \<longleftrightarrow> bst t tr"
  using assms(2) by (induction tr) (auto simp: assms(1))

lemma bst_tins:
  assumes "lower_comparator t' = lower_comparator t" and "x \<notin> set_tree tr"
    and "\<And>b. b \<in> set_tree tr \<Longrightarrow> lower (node_at t' b) = lower (node_at t b)"
    and "lower (node_at t' x) = lo" and "bst t tr"
  shows "bst t' (tins t lo x tr)"
  using assms(2,3,5)
proof (induction tr)
  case Leaf
  then show ?case by simp
next
  case (Node l a r)
  then have "bst t' l" "bst t' r"
    using bst_cong [of t' t] assms(1) by auto
  with Node show ?case
    by (auto simp: assms(1,4))
qed

lemma node_at_with_max [simp]:
  "nodes t b = Some n \<Longrightarrow> node_at (with_max t mx) b = n\<lparr>max_upper := mx b\<rparr>"
  by simp

lemma itree_entries_with_max [simp]: "itree_entries (with_max t mx) = itree_entries t"
  by (force simp: itree_entries_def entry_def ran_def image_iff with_max_def)

lemma balance_ok_with_max [simp]: "balance_ok (with_max t mx) \<longleftrightarrow> balance_ok t"
  by (fastforce simp: balance_ok_def ran_def with_max_def)

lemma ran_upd: "ran (m(a \<mapsto> y)) = insert y (ran (m(a := None)))"
  by (auto simp: ran_def)

lemma itree_update_swap: "t\<lparr>next_node := x, nodes := h\<rparr> = t\<lparr>nodes := h, next_node := x\<rparr>"
  by (cases t) simp

context ordered_itree
begin

text \<open>An interval that is already there: only the data of its node changes.\<close>

lemma set_data_inv:
  assumes "itree_inv t tr" and n: "nodes t a = Some n"
  shows "itree_inv (t\<lparr>nodes := (nodes t)(a \<mapsto> n\<lparr>node_data := d\<rparr>)\<rparr>) tr"
proof -
  let ?t = "t\<lparr>nodes := (nodes t)(a \<mapsto> n\<lparr>node_data := d\<rparr>)\<rparr>"
  have at: "lower (node_at ?t b) = lower (node_at t b)" "upper (node_at ?t b) = upper (node_at t b)"
      "max_upper (node_at ?t b) = max_upper (node_at t b)" "left (node_at ?t b) = left (node_at t b)"
      "right (node_at ?t b) = right (node_at t b)" for b
    using n by auto
  have "rep (nodes ?t) par p s \<longleftrightarrow> rep (nodes t) par p s" for par p s
    using n by (induction s arbitrary: par p) (auto split: option.splits)
  moreover have "max_ok ?t = max_ok t"
    by (rule ext) (simp only: max_ok_def at Let_def, simp)
  moreover have "same_bounds ?t lo up (node_at ?t b) \<longleftrightarrow> same_bounds t lo up (node_at t b)" for lo up b
    by (simp only: same_bounds_def at) simp
  moreover have "bst ?t tr \<longleftrightarrow> bst t tr"
    by (rule bst_cong) (simp, rule at(1))
  moreover have "dom (nodes ?t) = dom (nodes t)"
    using n by auto
  moreover have "itree_root ?t = itree_root t" and "next_node ?t = next_node t"
    by simp_all
  ultimately show ?thesis
    using assms(1) unfolding itree_inv_def by (simp only: at(1,2)) blast
qed

lemma set_data_entries:
  assumes "owns t" and inv: "itree_inv t tr" and n: "nodes t a = Some n"
    and hit: "same_bounds t lo up n"
  shows "itree_entries (t\<lparr>nodes := (nodes t)(a \<mapsto> n\<lparr>node_data := d\<rparr>)\<rparr>) =
    put_entry lcmp ucmp lo up d (itree_entries t)"
proof -
  let ?f = "\<lambda>(l, u, x). (l, u, if lcmp lo l = 0 \<and> ucmp up u = 0 then d else x)"
  have uniq: "b = a" if b: "nodes t b = Some nb" and "same_bounds t lo up nb" for b nb
  proof -
    have "same_bounds t (lower nb) (upper nb) n"
      using that hit assms(1) l.cmp_cong0 [of lo "lower nb" "lower n"]
        u.cmp_cong0 [of up "upper nb" "upper n"]
      by (auto simp: same_bounds_def owns_def sgn_if split: if_splits)
    moreover have "b \<in> set_tree tr" and "a \<in> set_tree tr"
      using inv b n by (auto simp: itree_inv_def)
    ultimately show ?thesis
      using inv b n unfolding itree_inv_def by (metis option.sel)
  qed
  have f: "entry (if b = a then n\<lparr>node_data := d\<rparr> else nb) = ?f (entry nb)"
    if "nodes t b = Some nb" for b nb
    using that uniq [OF that] hit n assms(1) by (auto simp: entry_def same_bounds_def owns_def)
  let ?S = "{(b, nb). nodes t b = Some nb}"
  have "itree_entries (t\<lparr>nodes := (nodes t)(a \<mapsto> n\<lparr>node_data := d\<rparr>)\<rparr>) =
      (\<lambda>(b, nb). entry (if b = a then n\<lparr>node_data := d\<rparr> else nb)) ` ?S"
    using n by (force simp: itree_entries_def ran_def image_iff)
  also have "\<dots> = (\<lambda>(b, nb). ?f (entry nb)) ` ?S"
    by (rule image_cong [OF refl]) (clarify, rule f, blast)
  also have "\<dots> = ?f ` itree_entries t"
    unfolding itree_entries_def image_image by (force simp: ran_def image_iff)
  finally have eq: "itree_entries (t\<lparr>nodes := (nodes t)(a \<mapsto> n\<lparr>node_data := d\<rparr>)\<rparr>) =
      ?f ` itree_entries t" .
  have "entry n \<in> itree_entries t"
    unfolding itree_entries_def using n by (intro imageI ranI)
  then have "\<exists>l u x. (l, u, x) \<in> itree_entries t \<and> lcmp lo l = 0 \<and> ucmp up u = 0"
    using hit assms(1) by (auto simp: entry_def same_bounds_def owns_def)
  with eq show ?thesis by (simp add: put_entry_def)
qed

text \<open>A new leaf: the state after the node was linked, before the bounds are recomputed.\<close>

lemma linked_inv:
  assumes "owns t" and inv: "itree_inv t tr" and root: "itree_root t = Some r"
    and miss: "\<forall>b \<in> set_tree tr. \<not> same_bounds t lo up (node_at t b)"
    and loc: "itree_location_loop t lo up r = Some a" "nodes t a = Some n" "a \<in> set_tree tr"
    and graft: "\<And>h x. grafted t lo a x h tr \<Longrightarrow> rep h None (Some r) (tins t lo x tr)"
    and n': "n' = (if lcmp lo (lower n) < 0 then n\<lparr>left := Some (next_node t), balance_factor := b\<rparr>
                   else n\<lparr>right := Some (next_node t), balance_factor := b\<rparr>)"
    and t': "t' = t\<lparr>nodes := (nodes t)(next_node t \<mapsto> (itree_node_new lo up d)\<lparr>parent := Some a\<rparr>, a \<mapsto> n'),
                  next_node := Suc (next_node t)\<rparr>"
    and free: "if lcmp lo (lower n) < 0 then left n = None else right n = None"
  shows "\<exists>mx. update_max_loop t' a = Some (with_max t' mx)
    \<and> itree_inv (with_max t' mx) (tins t lo (next_node t) tr)"
proof -
  let ?x = "next_node t" and ?tr = "tins t lo (next_node t) tr"
  have x: "?x \<notin> set_tree tr" and dom: "dom (nodes t) = set_tree tr"
    using inv by (auto simp: itree_inv_def)
  have cmp: "lower_comparator t' = lcmp" "upper_comparator t' = ucmp" "lower_comparator t = lcmp"
      "upper_comparator t = ucmp"
    using assms(1) t' by (auto simp: owns_def)
  have "grafted t lo a ?x (nodes t') tr"
    using x loc n' t' by (auto simp: grafted_def itree_node_new_def cmp)
  then have rep: "rep (nodes t') None (itree_root t') ?tr"
    using graft root t' by simp
  have dist: "distinct (inorder ?tr)"
    using x inv by (simp add: itree_inv_def)
  have same: "lower (node_at t' c) = lower (node_at t c) \<and> upper (node_at t' c) = upper (node_at t c)
      \<and> max_upper (node_at t' c) = max_upper (node_at t c)" if "c \<in> set_tree tr" for c
    using that x loc(2) n' t' by auto
  have xn: "lower (node_at t' ?x) = lo \<and> upper (node_at t' ?x) = up"
    using x loc(3) t' by (auto simp: itree_node_new_def)
  have "max_ok t' c" if "c \<in> set_tree ?tr - {a}" for c
  proof (cases "c = ?x")
    case True
    then show ?thesis
      using loc(3) x t' cmp by (auto simp: max_ok_def itree_node_new_def u.cmp_refl)
  next
    case False
    with that have c: "c \<in> set_tree tr" "c \<noteq> a" by auto
    then have eq: "nodes t' c = nodes t c" using t' False by simp
    obtain nc where nc: "nodes t c = Some nc" using c dom by blast
    have "e \<in> set_tree tr" if "left nc = Some e \<or> right nc = Some e" for e
      using inv rep_child [of "nodes t" None "itree_root t" tr c nc e] c nc that
      by (auto simp: itree_inv_def)
    with inv c nc eq same show ?thesis
      by (fastforce simp: itree_inv_def max_ok_def Let_def cmp)
  qed
  then obtain mx where mx: "update_max_loop t' a = Some (with_max t' mx)"
      "\<forall>b \<in> set_tree ?tr. max_ok (with_max t' mx) b"
    using update_max_loop_spec [of t' ?tr a] rep dist loc(3) cmp by (auto simp: owns_def)
  let ?w = "with_max t' mx"
  have dom': "dom (nodes ?w) = set_tree ?tr"
    using dom t' loc(2,3) by auto
  have w: "lower (node_at ?w c) = lower (node_at t' c) \<and> upper (node_at ?w c) = upper (node_at t' c)"
    if "c \<in> set_tree ?tr" for c
    using that dom' by (cases "nodes t' c") auto
  have "bst ?w ?tr"
    using bst_tins [of ?w t ?x tr lo] x w same xn inv cmp by (auto simp: itree_inv_def)
  moreover have "c = e"
    if ce: "c \<in> set_tree ?tr" "e \<in> set_tree ?tr"
      "same_bounds ?w (lower (node_at ?w c)) (upper (node_at ?w c)) (node_at ?w e)" for c e
  proof -
    have sb: "lcmp (lower (node_at t' c)) (lower (node_at t' e)) = 0"
        "ucmp (upper (node_at t' c)) (upper (node_at t' e)) = 0"
      using that w cmp by (auto simp: same_bounds_def)
    consider "c = ?x" "e = ?x" | "c = ?x" "e \<in> set_tree tr" | "c \<in> set_tree tr" "e = ?x"
      | "c \<in> set_tree tr" "e \<in> set_tree tr"
      using ce by auto
    then show ?thesis
    proof cases
      case 4
      then show ?thesis
        using inv sb same by (auto simp: itree_inv_def same_bounds_def cmp)
    qed (use miss sb same xn l.cmp_sym0 u.cmp_sym0 in \<open>auto simp: same_bounds_def cmp\<close>)
  qed
  moreover have "\<forall>c \<in> set_tree ?tr. c < next_node ?w"
    using inv t' by (auto simp: itree_inv_def less_Suc_eq)
  ultimately have "itree_inv ?w ?tr"
    unfolding itree_inv_def using rep dist dom' mx(2) by (simp only: with_max_rep with_max_simps) blast
  with mx(1) show ?thesis by blast
qed

lemma put_entry_miss:
  assumes "owns t" and "itree_inv t tr"
    and "\<forall>b \<in> set_tree tr. \<not> same_bounds t lo up (node_at t b)"
  shows "put_entry lcmp ucmp lo up d (itree_entries t) = insert (lo, up, d) (itree_entries t)"
proof -
  have "\<not> (lcmp lo (lower n) = 0 \<and> ucmp up (upper n) = 0)" if n: "n \<in> ran (nodes t)" for n
  proof -
    obtain b where "nodes t b = Some n" using n by (auto simp: ran_def)
    moreover from this have "b \<in> set_tree tr" using assms(2) by (auto simp: itree_inv_def)
    ultimately show ?thesis
      using assms(1,3) by (auto simp: same_bounds_def owns_def)
  qed
  then show ?thesis
    by (auto simp: put_entry_def itree_entries_def entry_def)
qed

lemma linked_balance:
  assumes "balance_ok t" and n: "nodes t a = Some n" and "nodes t x = None"
    and free: "if lo_left then left n = None else right n = None"
    and "n' = (if lo_left then n\<lparr>left := Some x, balance_factor := balance_factor n + 1\<rparr>
               else n\<lparr>right := Some x, balance_factor := balance_factor n - 1\<rparr>)"
    and "nodes t' = (nodes t)(x \<mapsto> (itree_node_new lo up d)\<lparr>parent := Some a\<rparr>, a \<mapsto> n')"
  shows "balance_ok t'" and "\<bar>balance_factor n'\<bar> \<le> 1"
    and "itree_entries t' = insert (lo, up, d) (itree_entries t)"
proof -
  have xa: "x \<noteq> a" using n assms(3) by auto
  have "n \<in> ran (nodes t)" using n by (rule ranI)
  then have bn: "\<bar>balance_factor n\<bar> \<le> 1" "left n = None \<longrightarrow> balance_factor n \<le> 0"
      "right n = None \<longrightarrow> 0 \<le> balance_factor n"
    using assms(1) by (auto simp: balance_ok_def)
  have other: "m \<in> ran (nodes t)" if "nodes t' b = Some m" "b \<noteq> a" "b \<noteq> x" for b m
    using that assms(6) by (auto intro: ranI)
  have at: "nodes t' a = Some n'" "nodes t' x = Some ((itree_node_new lo up d)\<lparr>parent := Some a\<rparr>)"
    using assms(6) xa by auto
  show b: "\<bar>balance_factor n'\<bar> \<le> 1"
    using bn free assms(5) by (auto split: if_splits)
  have ok: "(left n' = None \<longrightarrow> balance_factor n' \<le> 0) \<and> (right n' = None \<longrightarrow> 0 \<le> balance_factor n')"
    using bn free assms(5) by (auto split: if_splits)
  show "balance_ok t'"
    unfolding balance_ok_def
  proof
    fix m assume "m \<in> ran (nodes t')"
    then obtain c where c: "nodes t' c = Some m" by (auto simp: ran_def)
    consider "c = a" | "c = x" | "c \<noteq> a" "c \<noteq> x" by blast
    then show "\<bar>balance_factor m\<bar> \<le> 1 \<and> (left m = None \<longrightarrow> balance_factor m \<le> 0)
        \<and> (right m = None \<longrightarrow> 0 \<le> balance_factor m)"
    proof cases
      case 1
      then show ?thesis using c at(1) b ok by simp
    next
      case 2
      then show ?thesis using c at(2) by (auto simp: itree_node_new_def)
    next
      case 3
      then show ?thesis using other [OF c] assms(1) by (simp add: balance_ok_def)
    qed
  qed
  have en: "entry n' = entry n" and ex: "entry ((itree_node_new lo up d)\<lparr>parent := Some a\<rparr>) = (lo, up, d)"
    using assms(5) by (auto simp: entry_def itree_node_new_def)
  have "(nodes t)(a := None, x := None) = (nodes t)(a := None)" using assms(3) by auto
  moreover have "nodes t' = (nodes t)(a \<mapsto> n', x \<mapsto> (itree_node_new lo up d)\<lparr>parent := Some a\<rparr>)"
    using xa by (simp add: assms(6) fun_upd_twist)
  moreover have "(nodes t)(a \<mapsto> n', x := None) = (nodes t)(x := None, a \<mapsto> n')"
    using xa by (simp add: fun_upd_twist)
  moreover have "(nodes t)(x := None) = nodes t" using assms(3) by auto
  ultimately have "ran (nodes t') = insert n' (insert ((itree_node_new lo up d)\<lparr>parent := Some a\<rparr>)
      (ran ((nodes t)(a := None))))"
    by (simp add: ran_upd insert_commute)
  moreover have "ran (nodes t) = insert n (ran ((nodes t)(a := None)))"
    using n ran_upd [of "nodes t" a n] by (simp add: fun_upd_idem)
  ultimately show "itree_entries t' = insert (lo, up, d) (itree_entries t)"
    by (auto simp: itree_entries_def en ex)
qed

lemma insert_spec:
  assumes "owns t" and inv: "itree_inv t tr" and bal: "balance_ok t"
  shows "\<exists>t' tr'. gzochid_itree_insert t lo up d = Some t' \<and> owns t' \<and> itree_inv t' tr'
    \<and> balance_ok t' \<and> itree_entries t' = put_entry lcmp ucmp lo up d (itree_entries t)"
proof (cases "itree_root t")
  case None
  then have tr: "tr = Leaf" and em: "nodes t = Map.empty"
    using inv by (auto simp: itree_inv_def)
  let ?t = "t\<lparr>itree_root := Some (next_node t), nodes := [next_node t \<mapsto> itree_node_new lo up d],
    next_node := Suc (next_node t)\<rparr>"
  have "gzochid_itree_insert t lo up d = Some ?t"
    using None em by (simp add: gzochid_itree_insert_def itree_location_def alloc_node_def)
  moreover have "itree_inv ?t (Node Leaf (next_node t) Leaf)"
    using assms(1) by (auto simp: itree_inv_def itree_node_new_def max_ok_def owns_def u.cmp_refl)
  moreover have "balance_ok ?t"
    by (auto simp: balance_ok_def itree_node_new_def ran_def)
  moreover have "itree_entries ?t = put_entry lcmp ucmp lo up d (itree_entries t)"
    using em by (auto simp: put_entry_def itree_entries_def entry_def itree_node_new_def ran_def)
  moreover have "owns ?t" using assms(1) by (simp add: owns_def)
  ultimately show ?thesis by blast
next
  case (Some r)
  then have rep: "rep (nodes t) None (Some r) tr" and dist: "distinct (inorder tr)"
      and dom: "dom (nodes t) = set_tree tr" and bst: "bst t tr"
    using inv by (auto simp: itree_inv_def)
  have cmp: "lower_comparator t = lcmp" "upper_comparator t = ucmp"
    using assms(1) by (auto simp: owns_def)
  show ?thesis
  proof (cases "\<exists>b \<in> set_tree tr. same_bounds t lo up (node_at t b)")
    case True
    then obtain a where a: "a \<in> set_tree tr" "itree_location_loop t lo up r = Some a"
        "same_bounds t lo up (node_at t a)"
      using location_hit [OF assms(1) rep bst] by blast
    then obtain n where n: "nodes t a = Some n" and sb: "same_bounds t lo up n"
      using dom by force
    let ?t = "t\<lparr>nodes := (nodes t)(a \<mapsto> n\<lparr>node_data := d\<rparr>)\<rparr>"
    have "gzochid_itree_insert t lo up d = Some ?t"
      using Some a(2) n sb l.cmp_sym0 u.cmp_sym0
      by (simp add: gzochid_itree_insert_def itree_location_def same_bounds_def upd_node_def cmp)
    moreover have "balance_ok ?t"
      using bal n by (auto simp: balance_ok_def ran_def)
    moreover have "owns ?t" using assms(1) by (simp add: owns_def)
    ultimately show ?thesis
      using set_data_inv [OF inv n, of d] set_data_entries [OF assms(1) inv n sb, of d] by blast
  next
    case False
    then have miss: "\<forall>b \<in> set_tree tr. \<not> same_bounds t lo up (node_at t b)" by blast
    obtain a n where a: "itree_location_loop t lo up r = Some a" "a \<in> set_tree tr" "nodes t a = Some n"
        "if lcmp lo (lower n) < 0 then left n = None else right n = None"
        "\<And>h x. grafted t lo a x h tr \<Longrightarrow> rep h None (Some r) (tins t lo x tr)"
      using location_miss [OF rep dist miss] cmp by auto
    have x: "nodes t (next_node t) = None" "next_node t \<noteq> a"
      using inv a(2) by (auto simp: itree_inv_def dom_def)
    define bf where "bf = (if lcmp lo (lower n) < 0 then balance_factor n + 1 else balance_factor n - 1)"
    define n' where "n' = (if lcmp lo (lower n) < 0
        then n\<lparr>left := Some (next_node t), balance_factor := bf\<rparr>
        else n\<lparr>right := Some (next_node t), balance_factor := bf\<rparr>)"
    define t' where "t' = t\<lparr>nodes := (nodes t)(next_node t \<mapsto>
        (itree_node_new lo up d)\<lparr>parent := Some a\<rparr>, a \<mapsto> n'), next_node := Suc (next_node t)\<rparr>"
    have lb: "balance_ok t'" "\<bar>balance_factor n'\<bar> \<le> 1"
        "itree_entries t' = insert (lo, up, d) (itree_entries t)"
      by (rule linked_balance [OF bal a(3) x(1) a(4), of n' t'], simp add: n'_def bf_def, simp add: t'_def)+
    obtain mx where mx: "update_max_loop t' a = Some (with_max t' mx)"
        "itree_inv (with_max t' mx) (tins t lo (next_node t) tr)"
      using linked_inv [OF assms(1) inv Some miss a(1,3,2,5) n'_def t'_def a(4)] by blast
    have "nodes t' a = Some n'" by (simp add: t'_def)
    then have "itree_retrace_insert t' a = Some (with_max t' mx)"
      using lb(2) mx(1) by (auto simp: itree_retrace_insert_def)
    moreover have "\<not> same_bounds t lo up n" using miss a(2,3) by force
    ultimately have "gzochid_itree_insert t lo up d = Some (with_max t' mx)"
      using Some a(1,3) x l.cmp_sym0 [of lo "lower n"] u.cmp_sym0 [of up "upper n"]
      by (auto simp: gzochid_itree_insert_def itree_location_def alloc_node_def upd_node_def
        same_bounds_def cmp t'_def n'_def bf_def itree_update_swap)
    moreover have "itree_entries (with_max t' mx) = put_entry lcmp ucmp lo up d (itree_entries t)"
      using lb(3) put_entry_miss [OF assms(1) inv miss] by simp
    moreover have "owns (with_max t' mx)" using assms(1) by (simp add: owns_def t'_def)
    ultimately show ?thesis using mx(2) lb(1) balance_ok_with_max by blast
  qed
qed
end

section \<open>Cyclic links\<close>

text \<open>
  A node that is its own left child keeps the search loop busy forever, when the search function
  never asks to stop there and the query is not past the node's maximum.
\<close>

lemma search_loop_cycle:
  assumes "nodes t a = Some n" and "left n = Some a" and "\<not> prune (max_upper n)"
    and "\<And>u. ok u \<Longrightarrow> \<not> fst (f (lower n) (upper n) (node_data n) u)
      \<and> ok (snd (f (lower n) (upper n) (node_data n) u))"
    and "ok u"
  shows "itree_search_loop hit prune t f (a # stack) u = None"
proof (rule ccontr)
  define cyc where "cyc = (\<lambda>prune (t :: ('a, 'b) gzochid_itree) f stack (u :: 'c).
    (\<exists>s. stack = a # s) \<and> nodes t a = Some n \<and> \<not> prune (max_upper n)
    \<and> (\<forall>u. ok u \<longrightarrow> \<not> fst (f (lower n) (upper n) (node_data n) u)
        \<and> ok (snd (f (lower n) (upper n) (node_data n) u))) \<and> ok u)"
  assume "itree_search_loop hit prune t f (a # stack) u \<noteq> None"
  then obtain y where "itree_search_loop hit prune t f (a # stack) u = Some y" by blast
  then have "\<not> cyc prune t f (a # stack) u"
  proof (rule itree_search_loop.raw_induct [where P = "\<lambda>hit prune t f stack u y. \<not> cyc prune t f stack u",
        rotated], goal_cases)
    case (1 search hit prune t f st u y)
    show ?case
    proof
      assume c: "cyc prune t f st u"
      then obtain s where s: "st = a # s" "nodes t a = Some n" "\<not> prune (max_upper n)"
          "\<And>u. ok u \<Longrightarrow> \<not> fst (f (lower n) (upper n) (node_data n) u)
            \<and> ok (snd (f (lower n) (upper n) (node_data n) u))" "ok u"
        by (auto simp: cyc_def)
      define u' where "u' = (if hit (lower n) (upper n) then snd (f (lower n) (upper n) (node_data n) u) else u)"
      have "(if hit (lower n) (upper n) then f (lower n) (upper n) (node_data n) u else (False, u)) = (False, u')"
        using s(4) [OF s(5)] by (auto simp: u'_def prod_eq_iff)
      moreover have "cyc prune t f (push (left n) (push (right n) s)) u'"
        using c s assms(2) by (auto simp: cyc_def u'_def)
      ultimately show False
        using 1 s by auto
    qed
  qed
  with assms show False by (auto simp: cyc_def)
qed

end
