(* ===== verification/Lock_Mem.thy ===== *)
theory Lock_Mem
  imports Util_Codec Itree
begin

text \<open>
  \<open>gzochi-server/src/lock-mem.c\<close> (interface \<open>lock.h\<close>): the lock table of the data server.
  Locks are heap objects that several indexes share: the sequence of lock lists by key, the
  sequence by timestamp, the interval tree of range locks and the lists per node. The model keeps
  the objects in stores (\<open>lock_heap\<close>, \<open>range_heap\<close>) and addresses in the indexes. A lock's
  \<open>timestamp_iter\<close> is the one position of its address in the timestamp sequence. The result of
  \<open>gettimeofday\<close> is the argument \<open>now\<close>. \<open>None\<close> is a fault (a failed \<open>assert\<close>, a
  \<open>NULL\<close> or freed pointer) or a search of the interval tree that does not return.
\<close>

section \<open>State\<close>

text \<open>A \<open>GBytes\<close> object: its address and its immutable content.\<close>

record gbytes =
  bytes_addr :: nat
  bytes_data :: "byte list"

record gzochid_lock =
  lock_node_id :: guint
  lock_key :: gbytes
  for_write :: bool
  lock_timestamp :: timeval

record gzochid_range_lock =
  range_node_id :: guint
  range_from :: "gbytes option"
  range_to :: "gbytes option"
  range_timestamp :: timeval

record gzochid_locks =
  lock_list :: "nat list"
  most_recent_timestamp :: timeval

record gzochid_node_locks =
  point_locks :: "nat list"
  node_range_locks :: "nat list"

record gzochid_lock_table =
  locks :: "gzochid_locks list"
  locks_by_timestamp :: "nat list"
  range_locks :: "(gbytes option, nat) gzochid_itree"
  range_locks_by_timestamp :: "nat list"
  nodes_to_locks :: "guint \<rightharpoonup> gzochid_node_locks"
  lock_heap :: "nat \<rightharpoonup> gzochid_lock"
  range_heap :: "nat \<rightharpoonup> gzochid_range_lock"
  next_lock :: nat

text \<open>What the two locking calls answer: \<open>TRUE\<close>, or \<open>FALSE\<close> with the timestamp of the conflict.\<close>

datatype lock_answer = Lock_Granted | Lock_Failure timeval

section \<open>GLib sequences with comparison functions that may fault\<close>

definition g_sequence_get :: "'a list \<Rightarrow> nat \<Rightarrow> 'a option" where
  "g_sequence_get xs i = (if i < length xs then Some (xs ! i) else None)"

definition g_sequence_remove :: "'a list \<Rightarrow> nat \<Rightarrow> 'a list" where
  "g_sequence_remove xs i = take i xs @ drop (Suc i) xs"

text \<open>The position of an element that compares equal; the sequences are sorted without ties.\<close>

fun g_sequence_lookup :: "('a \<Rightarrow> int option) \<Rightarrow> 'a list \<Rightarrow> nat option option" where
  "g_sequence_lookup cmp [] = Some None"
| "g_sequence_lookup cmp (x # xs) =
     Option.bind (cmp x) (\<lambda>c. if c = 0 then Some (Some 0)
       else map_option (map_option Suc) (g_sequence_lookup cmp xs))"

fun sequence_insert_sorted :: "('a \<Rightarrow> 'a \<Rightarrow> int option) \<Rightarrow> 'a \<Rightarrow> 'a list \<Rightarrow> 'a list option" where
  "sequence_insert_sorted cmp x [] = Some [x]"
| "sequence_insert_sorted cmp x (y # ys) =
     Option.bind (cmp y x) (\<lambda>c. if c > 0 then Some (x # y # ys)
       else map_option ((#) y) (sequence_insert_sorted cmp x ys))"

section \<open>Operations on point locks\<close>

definition bound_null_first :: "gbytes option \<Rightarrow> gbytes option \<Rightarrow> int" where
  "bound_null_first a b =
     gzochid_util_bytes_compare_null_first (map_option bytes_data a) (map_option bytes_data b)"

definition bound_null_last :: "gbytes option \<Rightarrow> gbytes option \<Rightarrow> int" where
  "bound_null_last a b =
     gzochid_util_bytes_compare_null_last (map_option bytes_data a) (map_option bytes_data b)"

definition node_locks_new :: gzochid_node_locks where
  "node_locks_new = \<lparr>point_locks = [], node_range_locks = []\<rparr>"

definition ensure_node_registration ::
    "gzochid_lock_table \<Rightarrow> guint \<Rightarrow> gzochid_lock_table \<times> gzochid_node_locks" where
  "ensure_node_registration t node_id =
     (case nodes_to_locks t node_id of
        Some nl \<Rightarrow> (t, nl)
      | None \<Rightarrow> (t\<lparr>nodes_to_locks := (nodes_to_locks t)(node_id \<mapsto> node_locks_new)\<rparr>, node_locks_new))"

definition lock_failure :: "timeval \<Rightarrow> lock_answer" where
  "lock_failure ts = Lock_Failure ts"

definition compare_locks :: "gzochid_lock_table \<Rightarrow> nat \<Rightarrow> nat \<Rightarrow> int option" where
  "compare_locks t a b = do {
     lock_a \<leftarrow> lock_heap t a;
     lock_b \<leftarrow> lock_heap t b;
     Some (g_bytes_compare (bytes_data (lock_key lock_a)) (bytes_data (lock_key lock_b)))
   }"

definition compare_lock_lists ::
    "gzochid_lock_table \<Rightarrow> gzochid_locks \<Rightarrow> gzochid_locks \<Rightarrow> int option" where
  "compare_lock_lists t locks_a locks_b =
     (case (lock_list locks_a, lock_list locks_b) of
        (a # _, b # _) \<Rightarrow> compare_locks t a b
      | _ \<Rightarrow> None)"

definition lock_new :: "gbytes \<Rightarrow> guint \<Rightarrow> bool \<Rightarrow> timeval \<Rightarrow> gzochid_lock" where
  "lock_new k node_id fw now =
     \<lparr>lock_node_id = node_id, lock_key = k, for_write = fw, lock_timestamp = now\<rparr>"

definition range_lock_new ::
    "gbytes option \<Rightarrow> gbytes option \<Rightarrow> guint \<Rightarrow> timeval \<Rightarrow> gzochid_range_lock" where
  "range_lock_new fr to node_id now =
     \<lparr>range_node_id = node_id, range_from = fr, range_to = to, range_timestamp = now\<rparr>"

definition gzochid_lock_table_new :: gzochid_lock_table where
  "gzochid_lock_table_new =
     \<lparr>locks = [], locks_by_timestamp = [],
      range_locks = gzochid_itree_new bound_null_first bound_null_last,
      range_locks_by_timestamp = [], nodes_to_locks = Map.empty,
      lock_heap = Map.empty, range_heap = Map.empty, next_lock = 0\<rparr>"

text \<open>\<open>g_list_find_custom\<close> over a lock list with \<open>find_lock_with_node_id\<close>.\<close>

fun find_lock_with_node_id :: "gzochid_lock_table \<Rightarrow> guint \<Rightarrow> nat list \<Rightarrow> nat option option" where
  "find_lock_with_node_id t node_id [] = Some None"
| "find_lock_with_node_id t node_id (a # as) =
     Option.bind (lock_heap t a) (\<lambda>l.
       if lock_node_id l = node_id then Some (Some a) else find_lock_with_node_id t node_id as)"

text \<open>The search context's candidate is \<open>Some c\<close>; \<open>None\<close> is a fault, which ends the search.\<close>

definition find_most_recent_covering_range_lock ::
    "gzochid_lock_table \<Rightarrow> guint \<Rightarrow> gbytes option \<Rightarrow> gbytes option \<Rightarrow> nat \<Rightarrow> nat option option \<Rightarrow>
     bool \<times> nat option option" where
  "find_most_recent_covering_range_lock t excluded fr to d ctx =
     (case (ctx, range_heap t d) of
        (Some None, Some rl) \<Rightarrow> (False, if range_node_id rl \<noteq> excluded then Some (Some d) else ctx)
      | (Some (Some c), Some rl) \<Rightarrow>
          (case range_heap t c of
             None \<Rightarrow> (True, None)
           | Some cl \<Rightarrow> (False, if range_node_id rl \<noteq> excluded
                               \<and> timercmp_lt (range_timestamp cl) (range_timestamp rl)
                              then Some (Some d) else ctx))
      | _ \<Rightarrow> (True, None))"

definition most_recent_covering_range_lock ::
    "gzochid_lock_table \<Rightarrow> gbytes \<Rightarrow> guint \<Rightarrow> nat option option" where
  "most_recent_covering_range_lock t k excluded =
     Option.bind (gzochid_itree_search (range_locks t) (Some k)
       (find_most_recent_covering_range_lock t excluded) (Some None)) (\<lambda>ctx. ctx)"

definition compare_timestamp_data :: "gzochid_lock_table \<Rightarrow> nat \<Rightarrow> nat \<Rightarrow> int option" where
  "compare_timestamp_data t a b = do {
     lock_a \<leftarrow> lock_heap t a;
     lock_b \<leftarrow> lock_heap t b;
     Some (if timercmp_lt (lock_timestamp lock_a) (lock_timestamp lock_b) then - 1
           else if timercmp_lt (lock_timestamp lock_b) (lock_timestamp lock_a) then 1 else 0)
   }"

text \<open>
  The lookup compares the key of a fake lock with the first lock of each list. \<open>g_bytes_compare\<close>
  answers 0 when a key is \<open>NULL\<close>: such a lookup stops at the first element GLib happens to
  compare, which \<open>null_pick\<close> chooses.
\<close>

definition find_locks_by_key ::
    "(nat \<Rightarrow> nat) \<Rightarrow> gzochid_lock_table \<Rightarrow> gbytes option \<Rightarrow> nat option option" where
  "find_locks_by_key null_pick t k =
     (case k of
        None \<Rightarrow> Some (if locks t = [] then None
                     else Some (null_pick (length (locks t)) mod length (locks t)))
      | Some k \<Rightarrow> g_sequence_lookup (\<lambda>ls.
          (case lock_list ls of
             [] \<Rightarrow> None
           | a # _ \<Rightarrow> map_option (\<lambda>l. g_bytes_compare (bytes_data (lock_key l)) (bytes_data k))
                        (lock_heap t a))) (locks t))"

text \<open>The lookup of a key that is not \<open>NULL\<close>.\<close>

abbreviation find_point :: "gzochid_lock_table \<Rightarrow> gbytes \<Rightarrow> nat option option" where
  "find_point t k \<equiv> find_locks_by_key (\<lambda>_. 0) t (Some k)"

definition gzochid_lock_check :: "gzochid_lock_table \<Rightarrow> guint \<Rightarrow> gbytes \<Rightarrow> bool \<Rightarrow> bool option" where
  "gzochid_lock_check t node_id k fw = do {
     it \<leftarrow> find_point t k;
     case it of
       None \<Rightarrow> Some False
     | Some i \<Rightarrow> do {
         ls \<leftarrow> g_sequence_get (locks t) i;
         existing \<leftarrow> (if lock_list ls = [] then None
                     else find_lock_with_node_id t node_id (lock_list ls));
         case existing of
           None \<Rightarrow> Some False
         | Some a \<Rightarrow> do {
             l \<leftarrow> lock_heap t a;
             Some (for_write l \<or> \<not> fw)
           }
       }
   }"

text \<open>The loop that finds the first reader other than the caller; \<open>assert (1 == 0)\<close> at its end.\<close>

fun first_other_locker :: "gzochid_lock_table \<Rightarrow> guint \<Rightarrow> nat list \<Rightarrow> gzochid_lock option" where
  "first_other_locker t node_id [] = None"
| "first_other_locker t node_id (a # as) =
     Option.bind (lock_heap t a) (\<lambda>l.
       if lock_node_id l \<noteq> node_id then Some l else first_other_locker t node_id as)"

text \<open>Read lock \<open>a\<close> becomes a write lock, new as far as its timestamp is concerned.\<close>

definition upgrade_lock ::
    "gzochid_lock_table \<Rightarrow> nat \<Rightarrow> gzochid_locks \<Rightarrow> nat \<Rightarrow> timeval \<Rightarrow>
     (gzochid_lock_table \<times> lock_answer) option" where
  "upgrade_lock t i ls a now = do {
     l \<leftarrow> lock_heap t a;
     let t = t\<lparr>lock_heap := (lock_heap t)(a \<mapsto> l\<lparr>for_write := True, lock_timestamp := now\<rparr>),
               locks := (locks t)[i := ls\<lparr>most_recent_timestamp := now\<rparr>]\<rparr>;
     by_ts \<leftarrow> sequence_insert_sorted (compare_timestamp_data t) a
                (remove1 a (locks_by_timestamp t));
     Some (t\<lparr>locks_by_timestamp := by_ts\<rparr>, Lock_Granted)
   }"

text \<open>A further read lock on a key that is locked for read.\<close>

definition share_lock ::
    "gzochid_lock_table \<Rightarrow> nat \<Rightarrow> gzochid_locks \<Rightarrow> guint \<Rightarrow> gbytes \<Rightarrow> bool \<Rightarrow> timeval \<Rightarrow>
     (gzochid_lock_table \<times> lock_answer) option" where
  "share_lock t i ls node_id k fw now = do {
     let (t, node_locks) = ensure_node_registration t node_id;
     let a = next_lock t;
     let t = t\<lparr>lock_heap := (lock_heap t)(a \<mapsto> lock_new k node_id fw now), next_lock := Suc a\<rparr>;
     by_ts \<leftarrow> sequence_insert_sorted (compare_timestamp_data t) a (locks_by_timestamp t);
     Some (t\<lparr>locks_by_timestamp := by_ts,
             locks := (locks t)[i := ls\<lparr>lock_list := a # lock_list ls, most_recent_timestamp := now\<rparr>],
             nodes_to_locks := (nodes_to_locks t)(node_id \<mapsto>
               node_locks\<lparr>point_locks := a # point_locks node_locks\<rparr>)\<rparr>, Lock_Granted)
   }"

text \<open>A lock on a key that nobody has locked.\<close>

definition create_lock ::
    "gzochid_lock_table \<Rightarrow> guint \<Rightarrow> gbytes \<Rightarrow> bool \<Rightarrow> timeval \<Rightarrow>
     (gzochid_lock_table \<times> lock_answer) option" where
  "create_lock t node_id k fw now = do {
     let (t, node_locks) = ensure_node_registration t node_id;
     let a = next_lock t;
     let t = t\<lparr>lock_heap := (lock_heap t)(a \<mapsto> lock_new k node_id fw now), next_lock := Suc a\<rparr>;
     seq \<leftarrow> sequence_insert_sorted (compare_lock_lists t)
              \<lparr>lock_list = [a], most_recent_timestamp = now\<rparr> (locks t);
     by_ts \<leftarrow> sequence_insert_sorted (compare_timestamp_data t) a (locks_by_timestamp t);
     Some (t\<lparr>locks := seq, locks_by_timestamp := by_ts,
             nodes_to_locks := (nodes_to_locks t)(node_id \<mapsto>
               node_locks\<lparr>point_locks := a # point_locks node_locks\<rparr>)\<rparr>, Lock_Granted)
   }"

definition gzochid_lock_check_and_set ::
    "gzochid_lock_table \<Rightarrow> guint \<Rightarrow> gbytes \<Rightarrow> bool \<Rightarrow> timeval \<Rightarrow>
     (gzochid_lock_table \<times> lock_answer) option" where
  "gzochid_lock_check_and_set t node_id k fw now = do {
     it \<leftarrow> find_point t k;
     case it of
       Some i \<Rightarrow> do {
         ls \<leftarrow> g_sequence_get (locks t) i;
         existing \<leftarrow> (if lock_list ls = [] then None
                     else find_lock_with_node_id t node_id (lock_list ls));
         case existing of
           Some a \<Rightarrow> do {
             l \<leftarrow> lock_heap t a;
             if for_write l \<or> \<not> fw then Some (t, Lock_Granted)
             else if length (lock_list ls) > 1 then do {
               other \<leftarrow> first_other_locker t node_id (lock_list ls);
               Some (t, lock_failure (lock_timestamp other))
             }
             else do {
               range_lock \<leftarrow> most_recent_covering_range_lock t k node_id;
               case range_lock of
                 Some r \<Rightarrow> do {
                   rl \<leftarrow> range_heap t r;
                   Some (t, lock_failure (range_timestamp rl))
                 }
               | None \<Rightarrow> upgrade_lock t i ls a now
             }
           }
         | None \<Rightarrow> do {
             l \<leftarrow> lock_heap t (hd (lock_list ls));
             if fw \<or> for_write l then Some (t, lock_failure (lock_timestamp l))
             else share_lock t i ls node_id k fw now
           }
       }
     | None \<Rightarrow>
         if fw then do {
           range_lock \<leftarrow> most_recent_covering_range_lock t k node_id;
           case range_lock of
             Some r \<Rightarrow> do {
               rl \<leftarrow> range_heap t r;
               Some (t, lock_failure (range_timestamp rl))
             }
           | None \<Rightarrow> create_lock t node_id k fw now
         }
         else create_lock t node_id k fw now
   }"

section \<open>Range locks\<close>

definition find_overlapping_range_lock ::
    "gzochid_lock_table \<Rightarrow> guint \<Rightarrow> gbytes option \<Rightarrow> gbytes option \<Rightarrow> nat \<Rightarrow> nat option option \<Rightarrow>
     bool \<times> nat option option" where
  "find_overlapping_range_lock t excluded fr to d ctx =
     (case range_heap t d of
        None \<Rightarrow> (True, None)
      | Some rl \<Rightarrow> if range_node_id rl \<noteq> excluded then (True, Some (Some d)) else (False, ctx))"

text \<open>The scan of the point locks from a position to the end of the sequence.\<close>

fun find_write_lock :: "gzochid_lock_table \<Rightarrow> guint \<Rightarrow> gzochid_locks list \<Rightarrow> gzochid_lock option option" where
  "find_write_lock t node_id [] = Some None"
| "find_write_lock t node_id (ls # seq) =
     (case lock_list ls of
        [] \<Rightarrow> None
      | a # _ \<Rightarrow> Option.bind (lock_heap t a) (\<lambda>l.
          if for_write l \<and> lock_node_id l \<noteq> node_id then Some (Some l)
          else find_write_lock t node_id seq))"

text \<open>
  \<open>compare_timestamp_data\<close> is also called on range locks, which it casts to point locks: the
  timestamps of the two structures are at the same offset.
\<close>

definition compare_range_timestamp_data :: "gzochid_lock_table \<Rightarrow> nat \<Rightarrow> nat \<Rightarrow> int option" where
  "compare_range_timestamp_data t a b = do {
     lock_a \<leftarrow> range_heap t a;
     lock_b \<leftarrow> range_heap t b;
     Some (if timercmp_lt (range_timestamp lock_a) (range_timestamp lock_b) then - 1
           else if timercmp_lt (range_timestamp lock_b) (range_timestamp lock_a) then 1 else 0)
   }"

definition create_range_lock ::
    "gzochid_lock_table \<Rightarrow> guint \<Rightarrow> gbytes option \<Rightarrow> gbytes option \<Rightarrow> timeval \<Rightarrow>
     (gzochid_lock_table \<times> lock_answer) option" where
  "create_range_lock t node_id fr to now = do {
     let (t, node_locks) = ensure_node_registration t node_id;
     let a = next_lock t;
     let t = t\<lparr>range_heap := (range_heap t)(a \<mapsto> range_lock_new fr to node_id now),
               next_lock := Suc a\<rparr>;
     tree \<leftarrow> gzochid_itree_insert (range_locks t) fr to a;
     by_ts \<leftarrow> sequence_insert_sorted (compare_range_timestamp_data t) a
                (range_locks_by_timestamp t);
     Some (t\<lparr>range_locks := tree, range_locks_by_timestamp := by_ts,
             nodes_to_locks := (nodes_to_locks t)(node_id \<mapsto>
               node_locks\<lparr>node_range_locks := a # node_range_locks node_locks\<rparr>)\<rparr>, Lock_Granted)
   }"

definition gzochid_lock_range_check_and_set ::
    "(nat \<Rightarrow> nat) \<Rightarrow> gzochid_lock_table \<Rightarrow> guint \<Rightarrow> gbytes option \<Rightarrow> gbytes option \<Rightarrow> timeval \<Rightarrow>
     (gzochid_lock_table \<times> lock_answer) option" where
  "gzochid_lock_range_check_and_set null_pick t node_id fr to now = do {
     ctx \<leftarrow> gzochid_itree_search_interval (range_locks t) fr to
              (find_overlapping_range_lock t node_id) (Some None);
     range_lock \<leftarrow> ctx;
     case range_lock of
       Some r \<Rightarrow> do {
         rl \<leftarrow> range_heap t r;
         Some (t, lock_failure (range_timestamp rl))
       }
     | None \<Rightarrow> do {
         it \<leftarrow> find_locks_by_key null_pick t fr;
         w \<leftarrow> (case it of None \<Rightarrow> Some None | Some i \<Rightarrow> find_write_lock t node_id (drop i (locks t)));
         case w of
           Some l \<Rightarrow> Some (t, lock_failure (lock_timestamp l))
         | None \<Rightarrow> create_range_lock t node_id fr to now
       }
   }"

section \<open>Release\<close>

text \<open>
  Drop the node's entry when it has no locks left. \<open>f\<close> is the update of its lists.
\<close>

definition update_node_locks ::
    "gzochid_lock_table \<Rightarrow> guint \<Rightarrow> gzochid_node_locks \<Rightarrow> gzochid_lock_table" where
  "update_node_locks t node_id nl =
     t\<lparr>nodes_to_locks := (nodes_to_locks t)(node_id :=
         if point_locks nl = [] \<and> node_range_locks nl = [] then None else Some nl)\<rparr>"

definition remove_lock :: "gzochid_lock_table \<Rightarrow> nat \<Rightarrow> gzochid_lock_table option" where
  "remove_lock t a = do {
     l \<leftarrow> lock_heap t a;
     it \<leftarrow> find_point t (lock_key l);
     case it of
       None \<Rightarrow> Some t
     | Some i \<Rightarrow> do {
         ls \<leftarrow> g_sequence_get (locks t) i;
         let rest = remove1 a (lock_list ls);
         let t = t\<lparr>locks := (if rest = [] then g_sequence_remove (locks t) i
                             else (locks t)[i := ls\<lparr>lock_list := rest\<rparr>]),
                   locks_by_timestamp := remove1 a (locks_by_timestamp t)\<rparr>;
         nl \<leftarrow> nodes_to_locks t (lock_node_id l);
         let t = update_node_locks t (lock_node_id l)
                   (nl\<lparr>point_locks := remove1 a (point_locks nl)\<rparr>);
         Some (t\<lparr>lock_heap := (lock_heap t)(a := None)\<rparr>)
       }
   }"

definition gzochid_lock_release ::
    "gzochid_lock_table \<Rightarrow> guint \<Rightarrow> gbytes \<Rightarrow> gzochid_lock_table option" where
  "gzochid_lock_release t node_id k = do {
     it \<leftarrow> find_point t k;
     case it of
       None \<Rightarrow> Some t
     | Some i \<Rightarrow> do {
         ls \<leftarrow> g_sequence_get (locks t) i;
         lock_ptr \<leftarrow> find_lock_with_node_id t node_id (lock_list ls);
         case lock_ptr of
           None \<Rightarrow> Some t
         | Some a \<Rightarrow> remove_lock t a
       }
   }"

definition find_range_lock_with_owner ::
    "gzochid_lock_table \<Rightarrow> guint \<Rightarrow> gbytes option \<Rightarrow> gbytes option \<Rightarrow>
     gbytes option \<Rightarrow> gbytes option \<Rightarrow> nat \<Rightarrow> nat option option \<Rightarrow> bool \<times> nat option option" where
  "find_range_lock_with_owner t node_id mfrom mto fr to d ctx =
     (if bound_null_first mfrom fr = 0 \<and> bound_null_last mto to = 0 then
        (case range_heap t d of
           None \<Rightarrow> (True, None)
         | Some rl \<Rightarrow> if range_node_id rl = node_id then (True, Some (Some d)) else (False, ctx))
      else (False, ctx))"

definition remove_range_lock :: "gzochid_lock_table \<Rightarrow> nat \<Rightarrow> gzochid_lock_table option" where
  "remove_range_lock t a = do {
     rl \<leftarrow> range_heap t a;
     nl \<leftarrow> nodes_to_locks t (range_node_id rl);
     tree \<leftarrow> gzochid_itree_remove (range_locks t) (range_from rl) (range_to rl);
     let t = t\<lparr>range_locks := tree,
               range_locks_by_timestamp := remove1 a (range_locks_by_timestamp t)\<rparr>;
     let t = update_node_locks t (range_node_id rl)
               (nl\<lparr>node_range_locks := remove1 a (node_range_locks nl)\<rparr>);
     Some (t\<lparr>range_heap := (range_heap t)(a := None)\<rparr>)
   }"

definition gzochid_lock_release_range ::
    "gzochid_lock_table \<Rightarrow> guint \<Rightarrow> gbytes option \<Rightarrow> gbytes option \<Rightarrow> gzochid_lock_table option" where
  "gzochid_lock_release_range t node_id fr to = do {
     ctx \<leftarrow> gzochid_itree_search (range_locks t) fr
              (find_range_lock_with_owner t node_id fr to) (Some None);
     range_lock \<leftarrow> ctx;
     case range_lock of
       Some a \<Rightarrow> remove_range_lock t a
     | None \<Rightarrow> Some t
   }"

text \<open>\<open>g_list_foreach\<close>, which reads the next link before it calls the function.\<close>

fun g_list_foreach :: "('s \<Rightarrow> nat \<Rightarrow> 's option) \<Rightarrow> nat list \<Rightarrow> 's \<Rightarrow> 's option" where
  "g_list_foreach f [] s = Some s"
| "g_list_foreach f (a # as) s = Option.bind (f s a) (g_list_foreach f as)"

definition gzochid_lock_release_all ::
    "gzochid_lock_table \<Rightarrow> guint \<Rightarrow> gzochid_lock_table option" where
  "gzochid_lock_release_all t node_id =
     (case nodes_to_locks t node_id of
        None \<Rightarrow> Some t
      | Some node_locks \<Rightarrow> do {
          t \<leftarrow> g_list_foreach remove_lock (point_locks node_locks) t;
          case nodes_to_locks t node_id of
            None \<Rightarrow> Some t
          | Some node_locks \<Rightarrow> g_list_foreach remove_range_lock (node_range_locks node_locks) t
        })"

end
