(* ===== verification/Lock_Index.thy ===== *)
theory Lock_Index
  imports Lock_Mem
begin

text \<open>
  The indexes of the lock table: GLib's sorted sequences, the comparators of the range tree, the
  invariant of the table and how the updates of each index keep it.
\<close>

section \<open>Sequences\<close>

lemma sequence_insert_sorted_total:
  assumes "\<And>y. y \<in> set ys \<Longrightarrow> cmp y x = Some (c y)"
  shows "sequence_insert_sorted cmp x ys =
    Some (takeWhile (\<lambda>y. c y \<le> 0) ys @ x # dropWhile (\<lambda>y. c y \<le> 0) ys)"
  using assms by (induction ys) (auto simp: not_le)

lemma insert_sorted_wrt:
  fixes c :: "'a \<Rightarrow> int"
  assumes "sorted_wrt P ys" and "transp P"
    and "\<And>y. y \<in> set ys \<Longrightarrow> c y \<le> 0 \<Longrightarrow> P y x" and "\<And>y. y \<in> set ys \<Longrightarrow> 0 < c y \<Longrightarrow> P x y"
  shows "sorted_wrt P (takeWhile (\<lambda>y. c y \<le> 0) ys @ x # dropWhile (\<lambda>y. c y \<le> 0) ys)"
  using assms(1,3,4)
proof (induction ys)
  case Nil
  then show ?case by simp
next
  case (Cons y ys)
  have "\<forall>z \<in> set ys. P x z" if "0 < c y"
    using Cons.prems that transpD [OF assms(2), of x y] by auto
  with Cons show ?case by (auto simp: not_le dest: set_takeWhileD set_dropWhileD)
qed

text \<open>What an insertion into a sequence gives, without where it inserts.\<close>

lemma sequence_insert_sorted_spec:
  assumes "\<And>y. y \<in> set ys \<Longrightarrow> cmp y x = Some (c y)"
    and "sorted_wrt P ys" and "transp P"
    and "\<And>y. y \<in> set ys \<Longrightarrow> c y \<le> 0 \<Longrightarrow> P y x" and "\<And>y. y \<in> set ys \<Longrightarrow> 0 < c y \<Longrightarrow> P x y"
  obtains zs where "sequence_insert_sorted cmp x ys = Some zs" and "set zs = insert x (set ys)"
    and "sorted_wrt P zs" and "distinct zs \<longleftrightarrow> x \<notin> set ys \<and> distinct ys"
proof
  let ?zs = "takeWhile (\<lambda>y. c y \<le> 0) ys @ x # dropWhile (\<lambda>y. c y \<le> 0) ys"
  show "sequence_insert_sorted cmp x ys = Some ?zs"
    by (rule sequence_insert_sorted_total) (rule assms(1))
  have un: "set (takeWhile (\<lambda>y. c y \<le> 0) ys) \<union> set (dropWhile (\<lambda>y. c y \<le> 0) ys) = set ys"
    by (metis set_append takeWhile_dropWhile_id)
  have dis: "distinct (takeWhile (\<lambda>y. c y \<le> 0) ys @ dropWhile (\<lambda>y. c y \<le> 0) ys) \<longleftrightarrow> distinct ys"
    by simp
  show "set ?zs = insert x (set ys)"
    using un by auto
  show "sorted_wrt P ?zs"
    by (rule insert_sorted_wrt [OF assms(2-5)])
  show "distinct ?zs \<longleftrightarrow> x \<notin> set ys \<and> distinct ys"
    using un dis unfolding distinct_append by auto
qed

text \<open>Looking up a value by a key on which the sequence is strictly sorted.\<close>

lemma g_sequence_lookup_found:
  assumes "\<And>x. x \<in> set xs \<Longrightarrow> cmp x \<noteq> None" and "i < length xs" and "cmp (xs ! i) = Some 0"
    and "\<And>j. j < i \<Longrightarrow> cmp (xs ! j) \<noteq> Some 0"
  shows "g_sequence_lookup cmp xs = Some (Some i)"
  using assms
proof (induction xs arbitrary: i)
  case Nil
  then show ?case by simp
next
  case (Cons x xs)
  show ?case
  proof (cases i)
    case 0
    then show ?thesis using Cons.prems by simp
  next
    case (Suc j)
    obtain c where "cmp x = Some c" and "c \<noteq> 0"
      using Cons.prems(1) [of x] Cons.prems(4) [of 0] Suc by auto
    moreover have "g_sequence_lookup cmp xs = Some (Some j)"
    proof (rule Cons.IH)
      show "cmp (xs ! m) \<noteq> Some 0" if "m < j" for m
        using Cons.prems(4) [of "Suc m"] Suc that by simp
    qed (use Cons.prems Suc in auto)
    ultimately show ?thesis using Suc by simp
  qed
qed

lemma g_sequence_lookup_absent:
  assumes "\<And>x. x \<in> set xs \<Longrightarrow> \<exists>c. cmp x = Some c \<and> c \<noteq> 0"
  shows "g_sequence_lookup cmp xs = Some None"
  using assms by (induction xs) fastforce+

lemma set_g_sequence_remove:
  assumes "distinct xs" and "i < length xs"
  shows "set (g_sequence_remove xs i) = set xs - {xs ! i}"
proof -
  have split: "xs = take i xs @ xs ! i # drop (Suc i) xs"
    using assms(2) by (rule id_take_nth_drop)
  with assms(1) have "distinct (take i xs @ xs ! i # drop (Suc i) xs)" by simp
  moreover have "set xs = set (take i xs @ xs ! i # drop (Suc i) xs)"
    using split by simp
  ultimately show ?thesis
    unfolding g_sequence_remove_def by auto
qed

lemma sorted_wrt_remove: "sorted_wrt P xs \<Longrightarrow> sorted_wrt P (g_sequence_remove xs i)"
proof (cases "i < length xs")
  case True
  assume "sorted_wrt P xs"
  then have "sorted_wrt P (take i xs @ xs ! i # drop (Suc i) xs)"
    using id_take_nth_drop [OF True] by simp
  then show ?thesis
    by (simp add: g_sequence_remove_def sorted_wrt_append)
qed (simp add: g_sequence_remove_def)

lemma sorted_wrt_remove1: "sorted_wrt P xs \<Longrightarrow> sorted_wrt P (remove1 a xs)"
  by (induction xs) (auto dest: in_set_remove1 [THEN iffD1] notin_set_remove1 set_remove1_subset [THEN subsetD])

section \<open>Comparators\<close>

interpretation first_cmp: compare_func bound_null_first
proof
  fix a b c :: "gbytes option"
  show "bound_null_first a a = 0"
    by (cases a) (simp_all add: bound_null_first_def gzochid_util_bytes_compare_null_first_def)
  show "bound_null_first a b < 0 \<longleftrightarrow> bound_null_first b a > 0"
    by (auto simp: bound_null_first_def gzochid_util_bytes_compare_null_first_def
      g_bytes_compare_lexord split: option.splits)
  show "bound_null_first a b \<le> 0 \<Longrightarrow> bound_null_first b c \<le> 0 \<Longrightarrow> bound_null_first a c \<le> 0"
    by (auto simp: bound_null_first_def gzochid_util_bytes_compare_null_first_def
      g_bytes_compare_lexord split: option.splits if_splits)
qed

interpretation last_cmp: compare_func bound_null_last
proof
  fix a b c :: "gbytes option"
  show "bound_null_last a a = 0"
    by (cases a) (simp_all add: bound_null_last_def gzochid_util_bytes_compare_null_last_def)
  show "bound_null_last a b < 0 \<longleftrightarrow> bound_null_last b a > 0"
    by (auto simp: bound_null_last_def gzochid_util_bytes_compare_null_last_def
      g_bytes_compare_lexord split: option.splits)
  show "bound_null_last a b \<le> 0 \<Longrightarrow> bound_null_last b c \<le> 0 \<Longrightarrow> bound_null_last a c \<le> 0"
    by (auto simp: bound_null_last_def gzochid_util_bytes_compare_null_last_def
      g_bytes_compare_lexord split: option.splits if_splits)
qed

text \<open>The tree of range locks is an interval tree with the comparators it was created with.\<close>

interpretation range_tree: ordered_itree bound_null_first bound_null_last ..

section \<open>Invariants of the point locks\<close>

abbreviation key_of :: "gzochid_lock \<Rightarrow> byte list" where
  "key_of l \<equiv> bytes_data (lock_key l)"

abbreviation lock_at :: "gzochid_lock_table \<Rightarrow> nat \<Rightarrow> gzochid_lock" where
  "lock_at t a \<equiv> the (lock_heap t a)"

text \<open>
  The sequence by key, in terms of the keys of the addresses: one non-empty list per locked key,
  with all the locks on it, in ascending order of the keys.
\<close>

definition key_lists :: "(nat \<rightharpoonup> byte list) \<Rightarrow> nat list list \<Rightarrow> bool" where
  "key_lists km lls \<longleftrightarrow>
     (\<forall>as \<in> set lls. \<exists>k. as \<noteq> [] \<and> distinct as \<and> km (hd as) = Some k \<and> set as = {a. km a = Some k})
     \<and> sorted_wrt (\<lambda>x y. the (km (hd x)) < the (km (hd y))) lls
     \<and> dom km \<subseteq> \<Union> (set ` set lls)"

abbreviation key_map :: "(nat \<rightharpoonup> gzochid_lock) \<Rightarrow> nat \<rightharpoonup> byte list" where
  "key_map h \<equiv> \<lambda>a. map_option key_of (h a)"

definition key_index :: "(nat \<rightharpoonup> gzochid_lock) \<Rightarrow> gzochid_locks list \<Rightarrow> bool" where
  "key_index h seq \<longleftrightarrow> key_lists (key_map h) (map lock_list seq)"

text \<open>The sequence by timestamp: every lock once, oldest first.\<close>

definition time_index :: "(nat \<rightharpoonup> 'a) \<Rightarrow> ('a \<Rightarrow> timeval) \<Rightarrow> nat list \<Rightarrow> bool" where
  "time_index h ts seq \<longleftrightarrow> distinct seq \<and> set seq = dom h
     \<and> sorted_wrt (\<lambda>a b. \<not> timercmp_lt (ts (the (h b))) (ts (the (h a)))) seq"

text \<open>A node's list: each of its locks once.\<close>

definition node_index :: "(nat \<rightharpoonup> 'a) \<Rightarrow> ('a \<Rightarrow> guint) \<Rightarrow> (guint \<Rightarrow> nat list) \<Rightarrow> bool" where
  "node_index h nid lst \<longleftrightarrow>
     (\<forall>n. distinct (lst n) \<and> set (lst n) = {a. \<exists>l. h a = Some l \<and> nid l = n})"

definition points_of :: "gzochid_lock_table \<Rightarrow> guint \<Rightarrow> nat list" where
  "points_of t n = (case nodes_to_locks t n of None \<Rightarrow> [] | Some nl \<Rightarrow> point_locks nl)"

definition ranges_of :: "gzochid_lock_table \<Rightarrow> guint \<Rightarrow> nat list" where
  "ranges_of t n = (case nodes_to_locks t n of None \<Rightarrow> [] | Some nl \<Rightarrow> node_range_locks nl)"

text \<open>Two locks on one key belong to different nodes and are both for reading.\<close>

definition exclusive :: "(nat \<rightharpoonup> gzochid_lock) \<Rightarrow> bool" where
  "exclusive h \<longleftrightarrow> (\<forall>a b la lb. h a = Some la \<longrightarrow> h b = Some lb \<longrightarrow> key_of la = key_of lb \<longrightarrow> a \<noteq> b \<longrightarrow>
     lock_node_id la \<noteq> lock_node_id lb \<and> \<not> for_write la)"

definition lock_inv :: "gzochid_lock_table \<Rightarrow> bool" where
  "lock_inv t \<longleftrightarrow>
     key_index (lock_heap t) (locks t) \<and> time_index (lock_heap t) lock_timestamp (locks_by_timestamp t)
     \<and> node_index (lock_heap t) lock_node_id (points_of t) \<and> exclusive (lock_heap t)
     \<and> time_index (range_heap t) range_timestamp (range_locks_by_timestamp t)
     \<and> node_index (range_heap t) range_node_id (ranges_of t)
     \<and> (\<forall>n nl. nodes_to_locks t n = Some nl \<longrightarrow> point_locks nl \<noteq> [] \<or> node_range_locks nl \<noteq> [])
     \<and> (\<forall>a \<in> dom (lock_heap t) \<union> dom (range_heap t). a < next_lock t)"

text \<open>The abstract content of the table: who holds which key, and whether for writing.\<close>

definition held :: "gzochid_lock_table \<Rightarrow> (guint \<times> byte list \<times> bool) set" where
  "held t = (\<lambda>l. (lock_node_id l, key_of l, for_write l)) ` ran (lock_heap t)"

lemma held_iff: "(n, k, w) \<in> held t \<longleftrightarrow>
    (\<exists>a l. lock_heap t a = Some l \<and> lock_node_id l = n \<and> key_of l = k \<and> for_write l = w)"
  by (force simp: held_def ran_def image_iff)

lemma exclusiveD:
  "exclusive h \<Longrightarrow> h a = Some la \<Longrightarrow> h b = Some lb \<Longrightarrow> key_of la = key_of lb \<Longrightarrow> a \<noteq> b \<Longrightarrow>
     lock_node_id la \<noteq> lock_node_id lb \<and> \<not> for_write la"
  unfolding exclusive_def by blast

section \<open>Lookups\<close>

text \<open>The lookup of a key finds the list of the locks on it, and nothing where there are none.\<close>

lemma key_listsD:
  assumes "key_lists km lls" and "i < length lls"
  shows "\<exists>k. lls ! i \<noteq> [] \<and> distinct (lls ! i) \<and> km (hd (lls ! i)) = Some k
    \<and> set (lls ! i) = {a. km a = Some k}"
  using assms nth_mem [OF assms(2)] unfolding key_lists_def by blast

lemma key_lists_cover:
  assumes "key_lists km lls" and "b \<in> dom km"
  shows "\<exists>j < length lls. b \<in> set (lls ! j)"
proof -
  obtain as where "as \<in> set lls" and "b \<in> set as"
    using assms unfolding key_lists_def by blast
  then show ?thesis by (metis in_set_conv_nth)
qed

lemma key_lists_inj:
  assumes "key_lists km lls" and "i < length lls" and "j < length lls" and "i \<noteq> j"
  shows "km (hd (lls ! i)) \<noteq> km (hd (lls ! j))"
  using assms unfolding key_lists_def sorted_wrt_iff_nth_less
  by (metis linorder_neqE_nat less_irrefl)

lemma find_point_spec:
  assumes "key_index (lock_heap t) (locks t)"
  shows "(\<exists>i < length (locks t). find_point t k = Some (Some i)
        \<and> lock_list (locks t ! i) \<noteq> []
        \<and> set (lock_list (locks t ! i)) = {a. \<exists>l. lock_heap t a = Some l \<and> key_of l = bytes_data k}
        \<and> distinct (lock_list (locks t ! i)))
    \<or> find_point t k = Some None \<and> (\<forall>l \<in> ran (lock_heap t). key_of l \<noteq> bytes_data k)"
proof -
  let ?km = "key_map (lock_heap t)" and ?lls = "map lock_list (locks t)"
  let ?cmp = "\<lambda>ls. case lock_list ls of [] \<Rightarrow> None
    | a # _ \<Rightarrow> map_option (\<lambda>l. g_bytes_compare (key_of l) (bytes_data k)) (lock_heap t a)"
  have kl: "key_lists ?km ?lls" using assms by (simp add: key_index_def)
  have fp: "find_point t k = g_sequence_lookup ?cmp (locks t)"
    by (simp add: find_locks_by_key_def)
  have cmp: "?cmp (locks t ! i) = map_option (\<lambda>x. g_bytes_compare x (bytes_data k)) (?km (hd (?lls ! i)))
      \<and> ?km (hd (?lls ! i)) \<noteq> None" if i: "i < length (locks t)" for i
  proof -
    have "i < length ?lls" using i by simp
    then obtain x where "?lls ! i \<noteq> []" and "?km (hd (?lls ! i)) = Some x"
      using key_listsD [OF kl] by blast
    then show ?thesis
      using i by (cases "lock_list (locks t ! i)") (auto simp: option.map_comp comp_def)
  qed
  show ?thesis
  proof (cases "\<exists>i < length (locks t). ?km (hd (?lls ! i)) = Some (bytes_data k)")
    case True
    then obtain i where i: "i < length (locks t)" "?km (hd (?lls ! i)) = Some (bytes_data k)"
      by blast
    have less: "the (?km (hd (?lls ! j))) < bytes_data k" if "j < i" for j
      using kl that i unfolding key_lists_def sorted_wrt_iff_nth_less by (metis length_map option.sel)
    have "?cmp (locks t ! j) \<noteq> Some 0" if "j < i" for j
      using less [OF that] cmp [of j] that i(1) by auto
    moreover have "?cmp x \<noteq> None" if "x \<in> set (locks t)" for x
      using that cmp by (fastforce simp: in_set_conv_nth)
    ultimately have "g_sequence_lookup ?cmp (locks t) = Some (Some i)"
      using i cmp [of i] by (intro g_sequence_lookup_found) auto
    moreover have "?lls ! i \<noteq> [] \<and> distinct (?lls ! i) \<and> set (?lls ! i) = {a. ?km a = Some (bytes_data k)}"
    proof -
      have "i < length ?lls" using i(1) by simp
      from key_listsD [OF kl this] show ?thesis
        unfolding i(2) by blast
    qed
    ultimately show ?thesis
      using i(1) fp by (intro disjI1 exI [of _ i]) (simp only: nth_map, simp)
  next
    case False
    have "\<exists>c. ?cmp x = Some c \<and> c \<noteq> 0" if x: "x \<in> set (locks t)" for x
    proof -
      obtain i where "i < length (locks t)" and "x = locks t ! i"
        using x by (auto simp: in_set_conv_nth)
      with False cmp [of i] show ?thesis by fastforce
    qed
    then have "g_sequence_lookup ?cmp (locks t) = Some None"
      by (rule g_sequence_lookup_absent)
    moreover have "key_of l \<noteq> bytes_data k" if l: "l \<in> ran (lock_heap t)" for l
    proof
      assume k: "key_of l = bytes_data k"
      obtain a where "lock_heap t a = Some l" using l by (auto simp: ran_def)
      then have "?km a = Some (bytes_data k)" using k by simp
      moreover from this obtain as where "as \<in> set ?lls" and "a \<in> set as"
        using kl unfolding key_lists_def by blast
      moreover from this obtain i where i: "i < length ?lls" "as = ?lls ! i"
        by (metis in_set_conv_nth)
      ultimately have "?km (hd (?lls ! i)) = Some (bytes_data k)"
        using key_listsD [OF kl i(1)] i(2) by force
      moreover have "i < length (locks t)" using i(1) by simp
      ultimately show False using False by blast
    qed
    ultimately show ?thesis using fp by simp
  qed
qed

lemma find_lock_with_node_id_spec:
  assumes "\<And>a. a \<in> set as \<Longrightarrow> lock_heap t a \<noteq> None"
  shows "(\<exists>a \<in> set as. find_lock_with_node_id t n as = Some (Some a) \<and> lock_node_id (lock_at t a) = n)
    \<or> find_lock_with_node_id t n as = Some None \<and> (\<forall>a \<in> set as. lock_node_id (lock_at t a) \<noteq> n)"
  using assms
proof (induction as)
  case Nil
  then show ?case by simp
next
  case (Cons a as)
  then obtain l where "lock_heap t a = Some l" by fastforce
  then show ?case using Cons by (cases "lock_node_id l = n") auto
qed

text \<open>A node's lock on a key, by lookup: the shape all operations on point locks start with.\<close>

lemma point_lookup:
  assumes "lock_inv t"
  obtains (Absent) "find_point t k = Some None" and "\<forall>l \<in> ran (lock_heap t). key_of l \<noteq> bytes_data k"
  | (Mine) i a l where "find_point t k = Some (Some i)" and "i < length (locks t)"
      and "lock_list (locks t ! i) \<noteq> []" and "distinct (lock_list (locks t ! i))"
      and "set (lock_list (locks t ! i)) = {a. \<exists>l. lock_heap t a = Some l \<and> key_of l = bytes_data k}"
      and "find_lock_with_node_id t n (lock_list (locks t ! i)) = Some (Some a)"
      and "lock_heap t a = Some l" and "lock_node_id l = n" and "key_of l = bytes_data k"
  | (Others) i where "find_point t k = Some (Some i)" and "i < length (locks t)"
      and "lock_list (locks t ! i) \<noteq> []" and "distinct (lock_list (locks t ! i))"
      and "set (lock_list (locks t ! i)) = {a. \<exists>l. lock_heap t a = Some l \<and> key_of l = bytes_data k}"
      and "find_lock_with_node_id t n (lock_list (locks t ! i)) = Some None"
      and "\<forall>l \<in> ran (lock_heap t). key_of l = bytes_data k \<longrightarrow> lock_node_id l \<noteq> n"
proof -
  have ki: "key_index (lock_heap t) (locks t)" using assms by (simp add: lock_inv_def)
  show ?thesis
  proof (cases "find_point t k = Some None")
    case True
    then show ?thesis using find_point_spec [OF ki, of k] Absent by auto
  next
    case False
    then obtain i where i: "i < length (locks t)" "find_point t k = Some (Some i)"
        "lock_list (locks t ! i) \<noteq> []" "distinct (lock_list (locks t ! i))"
        "set (lock_list (locks t ! i)) = {a. \<exists>l. lock_heap t a = Some l \<and> key_of l = bytes_data k}"
      using find_point_spec [OF ki, of k] by blast
    from find_lock_with_node_id_spec [of "lock_list (locks t ! i)" t n] i(5)
    consider a where "a \<in> set (lock_list (locks t ! i))"
        "find_lock_with_node_id t n (lock_list (locks t ! i)) = Some (Some a)"
        "lock_node_id (lock_at t a) = n"
      | "find_lock_with_node_id t n (lock_list (locks t ! i)) = Some None"
        "\<forall>a \<in> set (lock_list (locks t ! i)). lock_node_id (lock_at t a) \<noteq> n"
      by auto
    then show ?thesis
    proof cases
      case (1 a)
      then obtain l where "lock_heap t a = Some l" "key_of l = bytes_data k" using i(5) by auto
      with 1 i show ?thesis by (intro Mine [of i a l]) auto
    next
      case 2
      with i show ?thesis by (intro Others [of i]) (auto simp: ran_def)
    qed
  qed
qed

lemma lock_check_spec:
  assumes "lock_inv t"
  shows "gzochid_lock_check t n k fw = Some (\<exists>w. (n, bytes_data k, w) \<in> held t \<and> (w \<or> \<not> fw))"
  using assms
proof (cases rule: point_lookup [where k = k and n = n])
  case Absent
  then show ?thesis
    by (auto simp: gzochid_lock_check_def held_iff ran_def)
next
  case (Mine i a l)
  have "b = a" if "lock_heap t b = Some lb" "lock_node_id lb = n" "key_of lb = bytes_data k" for b lb
    using exclusiveD [of "lock_heap t" a l b lb] assms Mine that by (auto simp: lock_inv_def)
  then have "(\<exists>w. (n, bytes_data k, w) \<in> held t \<and> (w \<or> \<not> fw)) \<longleftrightarrow> for_write l \<or> \<not> fw"
    unfolding held_iff using Mine(7-9) by (metis option.inject)
  with Mine show ?thesis
    by (simp add: gzochid_lock_check_def g_sequence_get_def)
next
  case (Others i)
  then show ?thesis
    by (auto simp: gzochid_lock_check_def g_sequence_get_def held_iff ran_def)
qed

section \<open>Updates of the indexes\<close>

subsection \<open>By timestamp\<close>

definition stamp_cmp :: "(nat \<rightharpoonup> 'a) \<Rightarrow> ('a \<Rightarrow> timeval) \<Rightarrow> nat \<Rightarrow> nat \<Rightarrow> int option" where
  "stamp_cmp h ts a b = do {
     x \<leftarrow> h a;
     y \<leftarrow> h b;
     Some (if timercmp_lt (ts x) (ts y) then - 1 else if timercmp_lt (ts y) (ts x) then 1 else 0)
   }"

lemma compare_timestamp_data_eq: "compare_timestamp_data t = stamp_cmp (lock_heap t) lock_timestamp"
  by (intro ext) (simp add: compare_timestamp_data_def stamp_cmp_def)

lemma compare_range_timestamp_data_eq:
  "compare_range_timestamp_data t = stamp_cmp (range_heap t) range_timestamp"
  by (intro ext) (simp add: compare_range_timestamp_data_def stamp_cmp_def)

lemma timercmp_lt_trans_not:
  "\<not> timercmp_lt b a \<Longrightarrow> \<not> timercmp_lt c b \<Longrightarrow> \<not> timercmp_lt c a"
  by (auto simp: timercmp_lt_def split: if_splits)

lemma timercmp_lt_asym: "timercmp_lt a b \<Longrightarrow> \<not> timercmp_lt b a"
  by (auto simp: timercmp_lt_def split: if_splits)

lemma time_index_insert:
  assumes "distinct seq" and "set seq = dom h - {a}" and "a \<in> dom h"
    and "sorted_wrt (\<lambda>a b. \<not> timercmp_lt (ts (the (h b))) (ts (the (h a)))) seq"
  shows "\<exists>seq'. sequence_insert_sorted (stamp_cmp h ts) a seq = Some seq' \<and> time_index h ts seq'"
proof -
  let ?P = "\<lambda>a b. \<not> timercmp_lt (ts (the (h b))) (ts (the (h a)))"
  let ?c = "\<lambda>y. if timercmp_lt (ts (the (h y))) (ts (the (h a))) then - 1 else
    if timercmp_lt (ts (the (h a))) (ts (the (h y))) then 1 else (0 :: int)"
  obtain zs where "sequence_insert_sorted (stamp_cmp h ts) a seq = Some zs"
      "set zs = insert a (set seq)" "sorted_wrt ?P zs" "distinct zs \<longleftrightarrow> a \<notin> set seq \<and> distinct seq"
  proof (rule sequence_insert_sorted_spec [of seq "stamp_cmp h ts" a ?c ?P])
    show "stamp_cmp h ts y a = Some (?c y)" if y: "y \<in> set seq" for y
    proof -
      obtain x l where "h y = Some x" and "h a = Some l"
        using y assms(2,3) by blast
      then show ?thesis by (simp add: stamp_cmp_def)
    qed
    show "transp ?P"
      by (intro transpI) (blast dest: timercmp_lt_trans_not)
    show "?P y a" if "?c y \<le> 0" for y
      using that by (auto split: if_splits dest: timercmp_lt_asym)
    show "?P a y" if "0 < ?c y" for y
      using that by (auto split: if_splits dest: timercmp_lt_asym)
  qed (use assms in auto)
  with assms(1-3) show ?thesis
    by (auto simp: time_index_def)
qed

lemma sorted_stamps_cong:
  assumes "\<And>a. a \<in> set seq \<Longrightarrow> h' a = h a"
  shows "sorted_wrt (\<lambda>a b. \<not> timercmp_lt (ts (the (h' b))) (ts (the (h' a)))) seq =
    sorted_wrt (\<lambda>a b. \<not> timercmp_lt (ts (the (h b))) (ts (the (h a)))) seq"
  using assms by (induction seq) auto

lemma time_index_add:
  assumes "time_index h ts seq" and "h a = None"
  shows "\<exists>seq'. sequence_insert_sorted (stamp_cmp (h(a \<mapsto> l)) ts) a seq = Some seq'
    \<and> time_index (h(a \<mapsto> l)) ts seq'"
proof (rule time_index_insert)
  have "a \<notin> set seq" using assms by (auto simp: time_index_def)
  then show "sorted_wrt (\<lambda>b c. \<not> timercmp_lt (ts (the ((h(a \<mapsto> l)) c))) (ts (the ((h(a \<mapsto> l)) b)))) seq"
    using assms sorted_stamps_cong [of seq "h(a \<mapsto> l)" h ts]
    unfolding time_index_def by (metis fun_upd_other)
qed (use assms in \<open>auto simp: time_index_def\<close>)

lemma time_index_restamp:
  assumes "time_index h ts seq" and "a \<in> dom h"
  shows "\<exists>seq'. sequence_insert_sorted (stamp_cmp (h(a \<mapsto> l)) ts) a (remove1 a seq) = Some seq'
    \<and> time_index (h(a \<mapsto> l)) ts seq'"
proof (rule time_index_insert)
  have "a \<notin> set (remove1 a seq)" using assms by (simp add: time_index_def)
  then show "sorted_wrt (\<lambda>b c. \<not> timercmp_lt (ts (the ((h(a \<mapsto> l)) c))) (ts (the ((h(a \<mapsto> l)) b))))
      (remove1 a seq)"
    using assms sorted_stamps_cong [of "remove1 a seq" "h(a \<mapsto> l)" h ts] sorted_wrt_remove1
    unfolding time_index_def by (metis fun_upd_other)
qed (use assms in \<open>auto simp: time_index_def\<close>)

lemma time_index_remove:
  assumes "time_index h ts seq"
  shows "time_index (h(a := None)) ts (remove1 a seq)"
proof -
  have "a \<notin> set (remove1 a seq)" using assms by (simp add: time_index_def)
  then have "sorted_wrt (\<lambda>b c. \<not> timercmp_lt (ts (the ((h(a := None)) c))) (ts (the ((h(a := None)) b))))
      (remove1 a seq)"
    using assms sorted_stamps_cong [of "remove1 a seq" "h(a := None)" h ts] sorted_wrt_remove1
    unfolding time_index_def by (metis fun_upd_other)
  with assms show ?thesis
    by (auto simp: time_index_def)
qed

subsection \<open>By node\<close>

lemma node_index_add:
  assumes "node_index h nid lst" and "h a = None"
  shows "node_index (h(a \<mapsto> l)) nid (lst(nid l := a # lst (nid l)))"
  using assms by (auto simp: node_index_def)

lemma node_index_same:
  assumes "node_index h nid lst" and "h a = Some l" and "nid l' = nid l"
  shows "node_index (h(a \<mapsto> l')) nid lst"
  using assms by (auto simp: node_index_def)

lemma node_index_remove:
  assumes "node_index h nid lst" and "h a = Some l"
  shows "node_index (h(a := None)) nid (lst(nid l := remove1 a (lst (nid l))))"
  using assms by (auto simp: node_index_def)

subsection \<open>By key\<close>

lemma sorted_keys_cong:
  assumes "length lls' = length lls" and "\<And>i. i < length lls \<Longrightarrow> km' (hd (lls' ! i)) = km (hd (lls ! i))"
  shows "sorted_wrt (\<lambda>x y. the (km' (hd x)) < the (km' (hd y))) lls' =
    sorted_wrt (\<lambda>x y. (the (km (hd x)) :: byte list) < the (km (hd y))) lls"
  using assms by (auto simp: sorted_wrt_iff_nth_less)

text \<open>The three updates: a list for a new key, a lock added to a list, a lock removed.\<close>

lemma key_listsI:
  assumes "\<And>i. i < length lls \<Longrightarrow> \<exists>k. lls ! i \<noteq> [] \<and> distinct (lls ! i) \<and> km (hd (lls ! i)) = Some k
      \<and> set (lls ! i) = {a. km a = Some k}"
    and "sorted_wrt (\<lambda>x y. the (km (hd x)) < the (km (hd y))) lls"
    and "\<And>b. b \<in> dom km \<Longrightarrow> \<exists>j < length lls. b \<in> set (lls ! j)"
  shows "key_lists km lls"
  unfolding key_lists_def
proof (intro conjI ballI subsetI)
  show "\<exists>k. as \<noteq> [] \<and> distinct as \<and> km (hd as) = Some k \<and> set as = {a. km a = Some k}"
    if as: "as \<in> set lls" for as
  proof -
    obtain i where i: "i < length lls" "as = lls ! i" using as by (metis in_set_conv_nth)
    show ?thesis unfolding i(2) by (rule assms(1) [OF i(1)])
  qed
  show "b \<in> \<Union> (set ` set lls)" if b: "b \<in> dom km" for b
  proof -
    obtain j where "j < length lls" "b \<in> set (lls ! j)" using assms(3) [OF b] by blast
    then show ?thesis using nth_mem by blast
  qed
qed (rule assms(2))

lemma key_lists_new:
  assumes "key_lists km lls" and "km a = None" and "k \<notin> ran km"
    and "set lls' = insert [a] (set lls)"
    and "sorted_wrt (\<lambda>x y. the ((km(a \<mapsto> k)) (hd x)) < the ((km(a \<mapsto> k)) (hd y))) lls'"
  shows "key_lists (km(a \<mapsto> k)) lls'"
proof -
  let ?km = "km(a \<mapsto> k)"
  have "\<exists>x. as \<noteq> [] \<and> distinct as \<and> ?km (hd as) = Some x \<and> set as = {b. ?km b = Some x}"
    if as: "as \<in> set lls" for as
  proof -
    obtain x where x: "as \<noteq> []" "distinct as" "km (hd as) = Some x" "set as = {b. km b = Some x}"
      using as assms(1) unfolding key_lists_def by blast
    then have "x \<noteq> k" using assms(3) by (auto simp: ran_def)
    then have "{b. ?km b = Some x} = {b. km b = Some x}" and "?km (hd as) = Some x"
      using assms(2) x(3) by auto
    with x show ?thesis by blast
  qed
  moreover have "set [a] = {b. ?km b = Some k}"
    using assms(3) by (auto simp: ran_def)
  moreover have "dom ?km \<subseteq> \<Union> (set ` set lls')"
    using assms(1,4) unfolding key_lists_def by fastforce
  ultimately show ?thesis
    unfolding key_lists_def using assms(4,5) by auto
qed

lemma key_lists_add:
  assumes "key_lists km lls" and "km a = None" and "i < length lls" and "km (hd (lls ! i)) = Some k"
  shows "key_lists (km(a \<mapsto> k)) (lls[i := a # lls ! i])"
proof -
  let ?km = "km(a \<mapsto> k)" and ?lls = "lls[i := a # lls ! i]"
  have at: "\<exists>x. ?lls ! j \<noteq> [] \<and> distinct (?lls ! j) \<and> km (hd (lls ! j)) = Some x
      \<and> ?km (hd (?lls ! j)) = Some x \<and> set (?lls ! j) = {b. ?km b = Some x}" if j: "j < length lls" for j
  proof -
    obtain x where x: "lls ! j \<noteq> []" "distinct (lls ! j)" "km (hd (lls ! j)) = Some x"
        "set (lls ! j) = {b. km b = Some x}"
      using key_listsD [OF assms(1) j] by blast
    show ?thesis
    proof (cases "j = i")
      case True
      then have "x = k" and "?lls ! j = a # lls ! j" using assms(4) x(3) j by auto
      moreover have "{b. ?km b = Some k} = insert a {b. km b = Some k}" by auto
      ultimately show ?thesis using x assms(2) by auto
    next
      case False
      then have "x \<noteq> k" using key_lists_inj [OF assms(1) j assms(3)] x(3) assms(4) by auto
      then have "{b. ?km b = Some x} = {b. km b = Some x}" and "?km (hd (lls ! j)) = Some x"
        using assms(2) x(3) by auto
      with x False show ?thesis by simp
    qed
  qed
  show ?thesis
  proof (rule key_listsI)
    show "sorted_wrt (\<lambda>x y. the (?km (hd x)) < the (?km (hd y))) ?lls"
      using assms(1) at sorted_keys_cong [of ?lls lls ?km km] unfolding key_lists_def
      by (metis length_list_update)
    show "\<exists>j < length ?lls. b \<in> set (?lls ! j)" if b: "b \<in> dom ?km" for b
    proof (cases "b = a")
      case True
      then show ?thesis using assms(3) by (intro exI [of _ i]) simp
    next
      case False
      then obtain j where "j < length lls" "b \<in> set (lls ! j)"
        using key_lists_cover [OF assms(1), of b] b by auto
      then show ?thesis by (intro exI [of _ j]) (cases "j = i"; simp)
    qed
    show "\<exists>x. ?lls ! j \<noteq> [] \<and> distinct (?lls ! j) \<and> ?km (hd (?lls ! j)) = Some x
        \<and> set (?lls ! j) = {b. ?km b = Some x}" if "j < length ?lls" for j
      using at [of j] that by (simp only: length_list_update) blast
  qed
qed

lemma key_lists_remove:
  assumes "key_lists km lls" and "i < length lls" and "a \<in> set (lls ! i)"
  shows "key_lists (km(a := None)) (if remove1 a (lls ! i) = [] then g_sequence_remove lls i
    else lls[i := remove1 a (lls ! i)])"
proof -
  let ?km = "km(a := None)"
  obtain y where y: "distinct (lls ! i)" "set (lls ! i) = {b. km b = Some y}"
      "km (hd (lls ! i)) = Some y"
    using key_listsD [OF assms(1,2)] by blast
  have kma: "km a = Some y" using y(2) assms(3) by auto
  have at: "\<exists>x. lls ! j \<noteq> [] \<and> distinct (lls ! j) \<and> km (hd (lls ! j)) = Some x
      \<and> ?km (hd (lls ! j)) = Some x \<and> set (lls ! j) = {b. ?km b = Some x}"
    if j: "j < length lls" "j \<noteq> i" for j
  proof -
    obtain x where x: "lls ! j \<noteq> []" "distinct (lls ! j)" "km (hd (lls ! j)) = Some x"
        "set (lls ! j) = {b. km b = Some x}"
      using key_listsD [OF assms(1) j(1)] by blast
    have "x \<noteq> y"
      using key_lists_inj [OF assms(1) j(1) assms(2) j(2)] x(3) y(3) by auto
    then have "{b. ?km b = Some x} = {b. km b = Some x}" and "?km (hd (lls ! j)) = Some x"
      using kma x(3) by auto
    with x show ?thesis by simp
  qed
  show ?thesis
  proof (cases "remove1 a (lls ! i) = []")
    case True
    then have one: "set (lls ! i) = {a}"
      using y(1) assms(3) by (metis insert_Diff list.set(1) set_remove1_eq)
    have "distinct lls"
      using key_lists_inj [OF assms(1)] by (metis distinct_conv_nth)
    then have sub: "set (g_sequence_remove lls i) = set lls - {lls ! i}"
      by (rule set_g_sequence_remove [OF _ assms(2)])
    have at': "\<exists>x. as \<noteq> [] \<and> distinct as \<and> km (hd as) = Some x \<and> ?km (hd as) = Some x
        \<and> set as = {b. ?km b = Some x}" if as: "as \<in> set (g_sequence_remove lls i)" for as
    proof -
      obtain j where j: "j < length lls" "as = lls ! j" "j \<noteq> i"
        using as sub by (auto simp: in_set_conv_nth)
      show ?thesis unfolding j(2) by (rule at [OF j(1,3)])
    qed
    have "sorted_wrt (\<lambda>x y. the (km (hd x)) < the (km (hd y))) (g_sequence_remove lls i)"
      using assms(1) sorted_wrt_remove unfolding key_lists_def by blast
    then have "sorted_wrt (\<lambda>x y. the (?km (hd x)) < the (?km (hd y))) (g_sequence_remove lls i)"
      by (rule sorted_wrt_mono_rel [rotated]) (metis at')
    moreover have "dom ?km \<subseteq> \<Union> (set ` set (g_sequence_remove lls i))"
      using assms(1) sub one unfolding key_lists_def by fastforce
    ultimately show ?thesis
      unfolding if_P [OF True] key_lists_def using at' by blast
  next
    case False
    let ?lls = "lls[i := remove1 a (lls ! i)]"
    have "hd (remove1 a (lls ! i)) \<in> set (lls ! i) - {a}"
      using y(1) hd_in_set [OF False] by simp
    then have hd: "?km (hd (remove1 a (lls ! i))) = Some y"
      using y(2) by auto
    have at': "\<exists>x. ?lls ! j \<noteq> [] \<and> distinct (?lls ! j) \<and> km (hd (lls ! j)) = Some x
        \<and> ?km (hd (?lls ! j)) = Some x \<and> set (?lls ! j) = {b. ?km b = Some x}" if j: "j < length lls" for j
    proof (cases "j = i")
      case True
      have "set (remove1 a (lls ! i)) = {b. ?km b = Some y}"
        using y by auto
      moreover have "?lls ! j = remove1 a (lls ! i)" using True j by simp
      moreover have "distinct (remove1 a (lls ! i))" using y(1) by simp
      ultimately show ?thesis using True False hd y(3) by (simp only:) blast
    next
      case F: False
      have "?lls ! j = lls ! j" using F by simp
      then show ?thesis using at [OF j F] by (simp only:)
    qed
    show ?thesis
      unfolding if_not_P [OF False]
    proof (rule key_listsI)
      show "sorted_wrt (\<lambda>x y. the (?km (hd x)) < the (?km (hd y))) ?lls"
        using assms(1) at' sorted_keys_cong [of ?lls lls ?km km] unfolding key_lists_def
        by (metis length_list_update)
      show "\<exists>j < length ?lls. b \<in> set (?lls ! j)" if b: "b \<in> dom ?km" for b
      proof -
        obtain j where j: "j < length lls" "b \<in> set (lls ! j)" "b \<noteq> a"
          using key_lists_cover [OF assms(1), of b] b by (auto split: if_splits)
        then show ?thesis using y(1) by (intro exI [of _ j]) (cases "j = i"; simp)
      qed
      show "\<exists>x. ?lls ! j \<noteq> [] \<and> distinct (?lls ! j) \<and> ?km (hd (?lls ! j)) = Some x
          \<and> set (?lls ! j) = {b. ?km b = Some x}" if "j < length ?lls" for j
        using at' [of j] that by (simp only: length_list_update) blast
    qed
  qed
qed

end
