(* ===== verification/Lock_Points.thy ===== *)
theory Lock_Points
  imports Lock_Index
begin

text \<open>
  Point locks: what a request answers on every branch, and what a release takes away. The range
  locks matter here only where they cover a requested key.
\<close>

section \<open>Acquiring a point lock\<close>

lemma ensure_node_registration_spec:
  obtains nl where "ensure_node_registration t n =
      (t\<lparr>nodes_to_locks := (nodes_to_locks t)(n \<mapsto> nl)\<rparr>, nl)"
    and "point_locks nl = points_of t n" and "node_range_locks nl = ranges_of t n"
proof (cases "nodes_to_locks t n")
  case None
  then show ?thesis
    by (intro that [of node_locks_new])
      (auto simp: ensure_node_registration_def points_of_def ranges_of_def node_locks_new_def)
next
  case (Some nl)
  then have "t\<lparr>nodes_to_locks := (nodes_to_locks t)(n \<mapsto> nl)\<rparr> = t"
    by (simp add: fun_upd_idem)
  with Some show ?thesis
    by (intro that [of nl]) (auto simp: ensure_node_registration_def points_of_def ranges_of_def)
qed

lemma lists_of_upd:
  assumes "nodes_to_locks t' = (nodes_to_locks t)(n \<mapsto> nl)"
  shows "points_of t' = (points_of t)(n := point_locks nl)"
    and "ranges_of t' = (ranges_of t)(n := node_range_locks nl)"
  using assms by (auto simp: points_of_def ranges_of_def fun_eq_iff)

lemma node_entries_upd:
  assumes "\<forall>n nl. nodes_to_locks t n = Some nl \<longrightarrow> point_locks nl \<noteq> [] \<or> node_range_locks nl \<noteq> []"
    and "nodes_to_locks t' = (nodes_to_locks t)(n \<mapsto> nl)" and "point_locks nl \<noteq> [] \<or> node_range_locks nl \<noteq> []"
  shows "\<forall>n nl. nodes_to_locks t' n = Some nl \<longrightarrow> point_locks nl \<noteq> [] \<or> node_range_locks nl \<noteq> []"
  using assms by auto

lemma exclusive_add:
  assumes "exclusive h" and "\<And>b lb. h b = Some lb \<Longrightarrow> key_of lb = key_of l \<Longrightarrow>
      lock_node_id lb \<noteq> lock_node_id l \<and> \<not> for_write lb \<and> \<not> for_write l"
  shows "exclusive (h(a \<mapsto> l))"
  unfolding exclusive_def
proof (intro allI impI)
  fix c d lc ld
  assume c: "(h(a \<mapsto> l)) c = Some lc" and d: "(h(a \<mapsto> l)) d = Some ld"
    and key: "key_of lc = key_of ld" and ne: "c \<noteq> d"
  have "c = a \<and> lc = l \<or> c \<noteq> a \<and> h c = Some lc" and "d = a \<and> ld = l \<or> d \<noteq> a \<and> h d = Some ld"
    using c d by (simp_all split: if_splits)
  with ne consider "c = a" "lc = l" "h d = Some ld" | "d = a" "ld = l" "h c = Some lc"
    | "h c = Some lc" "h d = Some ld"
    by blast
  then show "lock_node_id lc \<noteq> lock_node_id ld \<and> \<not> for_write lc"
  proof cases
    case 1
    then show ?thesis using assms(2) [of d ld] key by metis
  next
    case 2
    then show ?thesis using assms(2) [of c lc] key by metis
  next
    case 3
    then show ?thesis using exclusiveD [OF assms(1)] key ne by blast
  qed
qed

text \<open>
  A new lock of a node at the next free address: everything but the index by key is the same for
  a new key and for a shared one.
\<close>

lemma new_lock_inv:
  assumes inv: "lock_inv t" and nid: "lock_node_id l = n"
    and heap: "lock_heap t' = (lock_heap t)(next_lock t \<mapsto> l)"
    and keys: "key_index (lock_heap t') (locks t')"
    and ts: "time_index (lock_heap t') lock_timestamp (locks_by_timestamp t')"
    and nodes: "nodes_to_locks t' = (nodes_to_locks t)(n \<mapsto> nl\<lparr>point_locks := next_lock t # point_locks nl\<rparr>)"
    and nl: "point_locks nl = points_of t n" "node_range_locks nl = ranges_of t n"
    and compat: "\<And>b lb. lock_heap t b = Some lb \<Longrightarrow> key_of lb = key_of l \<Longrightarrow>
      lock_node_id lb \<noteq> n \<and> \<not> for_write lb \<and> \<not> for_write l"
    and same: "range_heap t' = range_heap t" "range_locks_by_timestamp t' = range_locks_by_timestamp t"
      "next_lock t' = Suc (next_lock t)"
  shows "lock_inv t'"
proof -
  have free: "lock_heap t (next_lock t) = None"
    using inv by (auto simp: lock_inv_def domI)
  have "node_index (lock_heap t') lock_node_id (points_of t')"
    using node_index_add [of "lock_heap t" lock_node_id "points_of t" "next_lock t" l] free inv nl nid
    by (simp add: lock_inv_def heap lists_of_upd(1) [OF nodes])
  moreover have "ranges_of t' = ranges_of t"
    using nl by (simp add: lists_of_upd(2) [OF nodes])
  moreover have "exclusive (lock_heap t')"
    unfolding heap using inv nid compat by (intro exclusive_add) (auto simp: lock_inv_def)
  moreover have "\<forall>m ml. nodes_to_locks t' m = Some ml \<longrightarrow> point_locks ml \<noteq> [] \<or> node_range_locks ml \<noteq> []"
    by (rule node_entries_upd [OF _ nodes]) (use inv in \<open>auto simp: lock_inv_def\<close>)
  moreover have "\<forall>a \<in> dom (lock_heap t') \<union> dom (range_heap t'). a < next_lock t'"
    using inv by (auto simp: lock_inv_def heap same less_Suc_eq)
  ultimately show ?thesis
    using inv keys ts same unfolding lock_inv_def by simp
qed

lemma create_lock_spec:
  assumes inv: "lock_inv t" and new: "\<forall>l \<in> ran (lock_heap t). key_of l \<noteq> bytes_data k"
  obtains t' where "create_lock t n k fw now = Some (t', Lock_Granted)" and "lock_inv t'"
    and "lock_heap t' = (lock_heap t)(next_lock t \<mapsto> lock_new k n fw now)"
    and "range_heap t' = range_heap t" and "range_locks t' = range_locks t"
proof -
  let ?a = "next_lock t" and ?l = "lock_new k n fw now"
  let ?h = "(lock_heap t)(?a \<mapsto> ?l)"
  have free: "lock_heap t ?a = None" using inv by (auto simp: lock_inv_def domI)
  obtain nl where nl: "ensure_node_registration t n =
      (t\<lparr>nodes_to_locks := (nodes_to_locks t)(n \<mapsto> nl)\<rparr>, nl)"
      "point_locks nl = points_of t n" "node_range_locks nl = ranges_of t n"
    by (rule ensure_node_registration_spec)
  define t1 where "t1 = t\<lparr>nodes_to_locks := (nodes_to_locks t)(n \<mapsto> nl), lock_heap := ?h, next_lock := Suc ?a\<rparr>"
  have kl: "key_lists (key_map (lock_heap t)) (map lock_list (locks t))"
    using inv by (simp add: lock_inv_def key_index_def)
  let ?new = "\<lparr>lock_list = [?a], most_recent_timestamp = now\<rparr>"
  let ?P = "\<lambda>x y. the (key_map ?h (hd (lock_list x))) < the (key_map ?h (hd (lock_list y)))"
  let ?c = "\<lambda>ls. g_bytes_compare (the (key_map ?h (hd (lock_list ls)))) (bytes_data k)"
  have old: "lock_list ls \<noteq> [] \<and> hd (lock_list ls) \<noteq> ?a \<and> (\<exists>l. lock_heap t (hd (lock_list ls)) = Some l
      \<and> key_of l \<noteq> bytes_data k)" if ls: "ls \<in> set (locks t)" for ls
  proof -
    obtain x where "lock_list ls \<noteq> []" "key_map (lock_heap t) (hd (lock_list ls)) = Some x"
      using kl ls unfolding key_lists_def by auto
    then show ?thesis using free new by (auto simp: ran_def)
  qed
  obtain seq where seq: "sequence_insert_sorted (compare_lock_lists t1) ?new (locks t) = Some seq"
      "set seq = insert ?new (set (locks t))" "sorted_wrt ?P seq"
  proof (rule sequence_insert_sorted_spec [of "locks t" "compare_lock_lists t1" ?new ?c ?P])
    show "compare_lock_lists t1 y ?new = Some (?c y)" if y: "y \<in> set (locks t)" for y
      using old [OF y] by (cases "lock_list y")
        (auto simp: compare_lock_lists_def compare_locks_def t1_def lock_new_def)
    show "sorted_wrt ?P (locks t)"
      using kl old unfolding key_lists_def sorted_wrt_map
      by (auto elim!: sorted_wrt_mono_rel [rotated])
    show "transp ?P" by (rule transpI) (rule less_trans)
    show "?P y ?new" if "y \<in> set (locks t)" "?c y \<le> 0" for y
      using that(2) old [OF that(1)] by (auto simp: lock_new_def g_bytes_compare_lexord split: if_splits)
    show "?P ?new y" if "y \<in> set (locks t)" "0 < ?c y" for y
      using that(2) by (auto simp: lock_new_def g_bytes_compare_pos)
  qed (use that in blast)
  have km: "key_map ?h = (key_map (lock_heap t))(?a \<mapsto> bytes_data k)"
    by (auto simp: fun_eq_iff lock_new_def)
  have ki: "key_index ?h seq"
    unfolding key_index_def km
  proof (rule key_lists_new [OF kl])
    show "key_map (lock_heap t) ?a = None" using free by simp
    show "bytes_data k \<notin> ran (key_map (lock_heap t))" using new by (auto simp: ran_def)
    show "set (map lock_list seq) = insert [?a] (set (map lock_list (locks t)))" using seq(2) by simp
    show "sorted_wrt (\<lambda>x y. the (((key_map (lock_heap t))(?a \<mapsto> bytes_data k)) (hd x))
        < the (((key_map (lock_heap t))(?a \<mapsto> bytes_data k)) (hd y))) (map lock_list seq)"
      unfolding km [symmetric] sorted_wrt_map by (rule seq(3))
  qed
  obtain by_ts where by_ts: "sequence_insert_sorted (compare_timestamp_data t1) ?a (locks_by_timestamp t) = Some by_ts"
      "time_index ?h lock_timestamp by_ts"
    using time_index_add [of "lock_heap t" lock_timestamp "locks_by_timestamp t" ?a ?l] free inv
    by (auto simp: lock_inv_def compare_timestamp_data_eq t1_def)
  define t' where "t' = t1\<lparr>locks := seq, locks_by_timestamp := by_ts,
    nodes_to_locks := (nodes_to_locks t1)(n \<mapsto> nl\<lparr>point_locks := ?a # point_locks nl\<rparr>)\<rparr>"
  have "lock_inv t'"
    by (rule new_lock_inv [OF inv, of ?l n t' nl])
      (use new ki by_ts(2) nl in \<open>auto simp: t'_def t1_def lock_new_def ran_def\<close>)
  moreover have "create_lock t n k fw now = Some (t', Lock_Granted)"
    using seq(1) by_ts(1) nl(1) by (simp add: create_lock_def t'_def t1_def Let_def)
  ultimately show ?thesis
    by (intro that [of t']) (simp_all add: t'_def t1_def)
qed

lemma share_lock_spec:
  assumes inv: "lock_inv t" and i: "i < length (locks t)"
    and keys: "set (lock_list (locks t ! i)) = {a. \<exists>l. lock_heap t a = Some l \<and> key_of l = bytes_data k}"
    and ne: "lock_list (locks t ! i) \<noteq> []"
    and others: "\<forall>l \<in> ran (lock_heap t). key_of l = bytes_data k \<longrightarrow> lock_node_id l \<noteq> n \<and> \<not> for_write l"
  obtains t' where "share_lock t i (locks t ! i) n k False now = Some (t', Lock_Granted)" and "lock_inv t'"
    and "lock_heap t' = (lock_heap t)(next_lock t \<mapsto> lock_new k n False now)"
    and "range_heap t' = range_heap t" and "range_locks t' = range_locks t"
proof -
  let ?a = "next_lock t" and ?l = "lock_new k n False now"
  let ?h = "(lock_heap t)(?a \<mapsto> ?l)"
  have free: "lock_heap t ?a = None" using inv by (auto simp: lock_inv_def domI)
  obtain nl where nl: "ensure_node_registration t n =
      (t\<lparr>nodes_to_locks := (nodes_to_locks t)(n \<mapsto> nl)\<rparr>, nl)"
      "point_locks nl = points_of t n" "node_range_locks nl = ranges_of t n"
    by (rule ensure_node_registration_spec)
  define t1 where "t1 = t\<lparr>nodes_to_locks := (nodes_to_locks t)(n \<mapsto> nl), lock_heap := ?h, next_lock := Suc ?a\<rparr>"
  have kl: "key_lists (key_map (lock_heap t)) (map lock_list (locks t))"
    using inv by (simp add: lock_inv_def key_index_def)
  let ?ls = "(locks t ! i)\<lparr>lock_list := ?a # lock_list (locks t ! i), most_recent_timestamp := now\<rparr>"
  have km: "key_map ?h = (key_map (lock_heap t))(?a \<mapsto> bytes_data k)"
    by (auto simp: fun_eq_iff lock_new_def)
  have "hd (lock_list (locks t ! i)) \<in> {a. \<exists>l. lock_heap t a = Some l \<and> key_of l = bytes_data k}"
    using hd_in_set [OF ne] keys by simp
  then have hd: "key_map (lock_heap t) (hd (map lock_list (locks t) ! i)) = Some (bytes_data k)"
    using i by auto
  have "key_lists ((key_map (lock_heap t))(?a \<mapsto> bytes_data k))
      ((map lock_list (locks t))[i := ?a # map lock_list (locks t) ! i])"
    by (rule key_lists_add [OF kl _ _ hd]) (use free i in auto)
  then have ki: "key_index ?h ((locks t)[i := ?ls])"
    unfolding key_index_def km using i by (simp add: map_update)
  obtain by_ts where by_ts: "sequence_insert_sorted (compare_timestamp_data t1) ?a (locks_by_timestamp t) = Some by_ts"
      "time_index ?h lock_timestamp by_ts"
    using time_index_add [of "lock_heap t" lock_timestamp "locks_by_timestamp t" ?a ?l] free inv
    by (auto simp: lock_inv_def compare_timestamp_data_eq t1_def)
  define t' where "t' = t1\<lparr>locks_by_timestamp := by_ts, locks := (locks t)[i := ?ls],
    nodes_to_locks := (nodes_to_locks t1)(n \<mapsto> nl\<lparr>point_locks := ?a # point_locks nl\<rparr>)\<rparr>"
  have "lock_inv t'"
    by (rule new_lock_inv [OF inv, of ?l n t' nl])
      (use others ki by_ts(2) nl in \<open>auto simp: t'_def t1_def lock_new_def ran_def\<close>)
  moreover have "share_lock t i (locks t ! i) n k False now = Some (t', Lock_Granted)"
    using by_ts(1) nl(1) by (simp add: share_lock_def t'_def t1_def Let_def)
  ultimately show ?thesis
    by (intro that [of t']) (simp_all add: t'_def t1_def)
qed

lemma upgrade_lock_spec:
  assumes inv: "lock_inv t" and i: "i < length (locks t)" and a: "lock_heap t a = Some l"
    and alone: "\<And>b lb. lock_heap t b = Some lb \<Longrightarrow> key_of lb = key_of l \<Longrightarrow> b = a"
  obtains t' where "upgrade_lock t i (locks t ! i) a now = Some (t', Lock_Granted)" and "lock_inv t'"
    and "lock_heap t' = (lock_heap t)(a \<mapsto> l\<lparr>for_write := True, lock_timestamp := now\<rparr>)"
    and "range_heap t' = range_heap t" and "range_locks t' = range_locks t"
proof -
  let ?l = "l\<lparr>for_write := True, lock_timestamp := now\<rparr>"
  let ?h = "(lock_heap t)(a \<mapsto> ?l)"
  define t1 where "t1 = t\<lparr>lock_heap := ?h, locks := (locks t)[i := (locks t ! i)\<lparr>most_recent_timestamp := now\<rparr>]\<rparr>"
  obtain by_ts where by_ts: "sequence_insert_sorted (compare_timestamp_data t1) a
        (remove1 a (locks_by_timestamp t)) = Some by_ts"
      "time_index ?h lock_timestamp by_ts"
    using time_index_restamp [of "lock_heap t" lock_timestamp "locks_by_timestamp t" a ?l] inv a
    by (auto simp: lock_inv_def compare_timestamp_data_eq t1_def)
  define t' where "t' = t1\<lparr>locks_by_timestamp := by_ts\<rparr>"
  have km: "key_map ?h = key_map (lock_heap t)"
    using a by (auto simp: fun_eq_iff)
  have "map lock_list ((locks t)[i := (locks t ! i)\<lparr>most_recent_timestamp := now\<rparr>]) = map lock_list (locks t)"
    by (metis list_update_id map_update gzochid_locks.select_convs(1) gzochid_locks.surjective gzochid_locks.update_convs(2))
  then have "key_index ?h ((locks t)[i := (locks t ! i)\<lparr>most_recent_timestamp := now\<rparr>])"
    using inv unfolding lock_inv_def key_index_def km by simp
  moreover have "exclusive ?h"
    unfolding exclusive_def
  proof (intro allI impI)
    fix c d lc ld
    assume c: "?h c = Some lc" and d: "?h d = Some ld" and key: "key_of lc = key_of ld" and ne: "c \<noteq> d"
    have "c \<noteq> a"
    proof
      assume "c = a"
      then have "lock_heap t d = Some ld" and "key_of ld = key_of l"
        using c d key ne by auto
      then show False using alone ne \<open>c = a\<close> by blast
    qed
    moreover have "d \<noteq> a"
    proof
      assume "d = a"
      then have "lock_heap t c = Some lc" and "key_of lc = key_of l"
        using c d key ne by auto
      then show False using alone ne \<open>d = a\<close> by blast
    qed
    ultimately show "lock_node_id lc \<noteq> lock_node_id ld \<and> \<not> for_write lc"
      using exclusiveD [of "lock_heap t" c lc d ld] inv c d key ne by (simp add: lock_inv_def)
  qed
  moreover have "node_index ?h lock_node_id (points_of t)"
    using node_index_same [of "lock_heap t" lock_node_id "points_of t" a l ?l] a inv by (simp add: lock_inv_def)
  moreover have "dom ?h = dom (lock_heap t)" using a by auto
  moreover have "points_of t' = points_of t" "ranges_of t' = ranges_of t"
    by (auto simp: points_of_def ranges_of_def t'_def t1_def fun_eq_iff)
  ultimately have "lock_inv t'"
    using inv by_ts(2) unfolding lock_inv_def by (simp add: t'_def t1_def)
  moreover have "upgrade_lock t i (locks t ! i) a now = Some (t', Lock_Granted)"
    using by_ts(1) a by (simp add: upgrade_lock_def t'_def t1_def Let_def)
  ultimately show ?thesis
    by (intro that [of t']) (simp_all add: t'_def t1_def)
qed

section \<open>Range locks that cover a key\<close>

text \<open>The interval tree is in order, and every entry points to a live range lock.\<close>

definition range_ok :: "gzochid_lock_table \<Rightarrow> bool" where
  "range_ok t \<longleftrightarrow> range_tree.owns (range_locks t) \<and> (\<exists>tr. itree_inv (range_locks t) tr)
     \<and> (\<forall>(lo, up, d) \<in> itree_entries (range_locks t). range_heap t d \<noteq> None)"

text \<open>A range lock of another node that covers the key.\<close>

definition covering :: "gzochid_lock_table \<Rightarrow> guint \<Rightarrow> gbytes \<Rightarrow> gzochid_range_lock set" where
  "covering t n k = {rl. \<exists>lo up d. (lo, up, d) \<in> itree_entries (range_locks t)
     \<and> range_heap t d = Some rl \<and> range_node_id rl \<noteq> n
     \<and> bound_null_first (Some k) lo \<ge> 0 \<and> bound_null_last (Some k) up \<le> 0}"

lemma visit_most_recent:
  assumes "\<forall>(lo, up, d) \<in> set es. range_heap t d \<noteq> None"
    and "case c of None \<Rightarrow> True | Some d \<Rightarrow> range_heap t d \<noteq> None"
  shows "\<exists>c'. visit (find_most_recent_covering_range_lock t n) es (Some c) = (False, Some c')
    \<and> (case c' of
         None \<Rightarrow> c = None \<and> (\<forall>(lo, up, d) \<in> set es. range_node_id (the (range_heap t d)) = n)
       | Some d' \<Rightarrow> range_heap t d' \<noteq> None
           \<and> (c = Some d' \<or> (\<exists>lo up. (lo, up, d') \<in> set es) \<and> range_node_id (the (range_heap t d')) \<noteq> n)
           \<and> (\<forall>x. c = Some x \<or> (\<exists>lo up. (lo, up, x) \<in> set es) \<and> range_node_id (the (range_heap t x)) \<noteq> n \<longrightarrow>
                \<not> timercmp_lt (range_timestamp (the (range_heap t d'))) (range_timestamp (the (range_heap t x)))))"
  using assms
proof (induction es arbitrary: c)
  case Nil
  then show ?case
    by (cases c) (auto dest: timercmp_lt_asym)
next
  case (Cons e es)
  obtain lo up d where e: "e = (lo, up, d)" by (cases e)
  obtain rl where rl: "range_heap t d = Some rl" using Cons.prems(1) e by auto
  define c1 where "c1 = (if range_node_id rl \<noteq> n
      \<and> (case c of None \<Rightarrow> True | Some x \<Rightarrow>
          timercmp_lt (range_timestamp (the (range_heap t x))) (range_timestamp rl))
    then Some d else c)"
  have step: "find_most_recent_covering_range_lock t n lo up d (Some c) = (False, Some c1)"
    using rl Cons.prems(2)
    by (auto simp: find_most_recent_covering_range_lock_def c1_def split: option.splits)
  have "case c1 of None \<Rightarrow> True | Some x \<Rightarrow> range_heap t x \<noteq> None"
    using rl Cons.prems(2) by (auto simp: c1_def split: option.splits)
  with Cons.IH [of c1] Cons.prems(1)
  obtain c' where c': "visit (find_most_recent_covering_range_lock t n) es (Some c1) = (False, Some c')"
    and r: "case c' of
         None \<Rightarrow> c1 = None \<and> (\<forall>(lo, up, d) \<in> set es. range_node_id (the (range_heap t d)) = n)
       | Some d' \<Rightarrow> range_heap t d' \<noteq> None
           \<and> (c1 = Some d' \<or> (\<exists>lo up. (lo, up, d') \<in> set es) \<and> range_node_id (the (range_heap t d')) \<noteq> n)
           \<and> (\<forall>x. c1 = Some x \<or> (\<exists>lo up. (lo, up, x) \<in> set es) \<and> range_node_id (the (range_heap t x)) \<noteq> n \<longrightarrow>
                \<not> timercmp_lt (range_timestamp (the (range_heap t d'))) (range_timestamp (the (range_heap t x))))"
    by auto
  have "visit (find_most_recent_covering_range_lock t n) (e # es) (Some c) = (False, Some c')"
    using step c' e by simp
  moreover have "case c' of
         None \<Rightarrow> c = None \<and> (\<forall>(lo, up, d) \<in> set (e # es). range_node_id (the (range_heap t d)) = n)
       | Some d' \<Rightarrow> range_heap t d' \<noteq> None
           \<and> (c = Some d' \<or> (\<exists>lo up. (lo, up, d') \<in> set (e # es)) \<and> range_node_id (the (range_heap t d')) \<noteq> n)
           \<and> (\<forall>x. c = Some x \<or> (\<exists>lo up. (lo, up, x) \<in> set (e # es)) \<and> range_node_id (the (range_heap t x)) \<noteq> n \<longrightarrow>
                \<not> timercmp_lt (range_timestamp (the (range_heap t d'))) (range_timestamp (the (range_heap t x))))"
  proof (cases c')
    case None
    with r have "c1 = None" "\<forall>(lo, up, d) \<in> set es. range_node_id (the (range_heap t d)) = n" by auto
    with None rl e show ?thesis
      by (auto simp: c1_def split: if_splits option.splits)
  next
    case (Some d')
    let ?ts = "\<lambda>x. range_timestamp (the (range_heap t x))"
    have d': "range_heap t d' \<noteq> None"
        "c1 = Some d' \<or> (\<exists>lo up. (lo, up, d') \<in> set es) \<and> range_node_id (the (range_heap t d')) \<noteq> n"
        "\<And>x. c1 = Some x \<or> (\<exists>lo up. (lo, up, x) \<in> set es) \<and> range_node_id (the (range_heap t x)) \<noteq> n \<Longrightarrow>
          \<not> timercmp_lt (?ts d') (?ts x)"
      using r Some by auto
    have c1: "c1 = Some d \<and> range_node_id rl \<noteq> n \<or> c1 = c"
      by (simp add: c1_def)
    have old: "\<not> timercmp_lt (?ts d') (?ts x)" if "c = Some x" for x
    proof (cases "c1 = c")
      case True
      then show ?thesis using d'(3) that by simp
    next
      case False
      then have "c1 = Some d" "timercmp_lt (?ts x) (?ts d)"
        using that rl by (auto simp: c1_def split: if_splits)
      then show ?thesis
        using d'(3) [of d] timercmp_lt_trans_not [of "?ts d" "?ts x" "?ts d'"]
          timercmp_lt_trans_not [of "?ts x" "?ts d'" "?ts d"] timercmp_lt_asym
        by (metis timercmp_lt_trans_not)
    qed
    moreover have "\<not> timercmp_lt (?ts d') (?ts d)" if foreign: "range_node_id rl \<noteq> n"
    proof (cases "c1 = Some d")
      case True
      then show ?thesis using d'(3) by simp
    next
      case False
      then obtain x where x: "c = Some x" "\<not> timercmp_lt (?ts x) (?ts d)"
        using foreign rl by (auto simp: c1_def split: if_splits option.splits)
      then show ?thesis
        using old [of x] timercmp_lt_trans_not [of "?ts d" "?ts x" "?ts d'"]
        by (metis timercmp_lt_trans_not)
    qed
    ultimately show ?thesis
      using d' c1 rl e unfolding Some by (auto split: option.splits)
  qed
  ultimately show ?case by blast
qed

lemma most_recent_covering_spec:
  assumes "range_ok t"
  shows "most_recent_covering_range_lock t k n = Some None \<and> covering t n k = {}
    \<or> (\<exists>d rl. most_recent_covering_range_lock t k n = Some (Some d) \<and> range_heap t d = Some rl
        \<and> rl \<in> covering t n k
        \<and> (\<forall>r \<in> covering t n k. \<not> timercmp_lt (range_timestamp rl) (range_timestamp r)))"
proof -
  obtain tr where tr: "range_tree.owns (range_locks t)" "itree_inv (range_locks t) tr"
      and live: "\<forall>(lo, up, d) \<in> itree_entries (range_locks t). range_heap t d \<noteq> None"
    using assms by (auto simp: range_ok_def)
  obtain es where es: "set es = {(lo, up, d) \<in> itree_entries (range_locks t).
        0 \<le> bound_null_first (Some k) lo \<and> bound_null_last (Some k) up \<le> 0}"
      "gzochid_itree_search (range_locks t) (Some k) (find_most_recent_covering_range_lock t n) (Some None) =
        Some (snd (visit (find_most_recent_covering_range_lock t n) es (Some None)))"
    using range_tree.point_search [OF tr, of "Some k" "find_most_recent_covering_range_lock t n" "Some None"]
    by blast
  have cov: "covering t n k = {rl. \<exists>lo up d. (lo, up, d) \<in> set es \<and> range_heap t d = Some rl \<and> range_node_id rl \<noteq> n}"
    by (auto simp: covering_def es(1))
  have heap: "\<forall>(lo, up, d) \<in> set es. range_heap t d \<noteq> None"
    using live es(1) by auto
  obtain c' where c': "visit (find_most_recent_covering_range_lock t n) es (Some None) = (False, Some c')"
    and r: "case c' of
         None \<Rightarrow> (\<forall>(lo, up, d) \<in> set es. range_node_id (the (range_heap t d)) = n)
       | Some d' \<Rightarrow> range_heap t d' \<noteq> None
           \<and> (\<exists>lo up. (lo, up, d') \<in> set es) \<and> range_node_id (the (range_heap t d')) \<noteq> n
           \<and> (\<forall>x. (\<exists>lo up. (lo, up, x) \<in> set es) \<and> range_node_id (the (range_heap t x)) \<noteq> n \<longrightarrow>
                \<not> timercmp_lt (range_timestamp (the (range_heap t d'))) (range_timestamp (the (range_heap t x))))"
    using visit_most_recent [OF heap, of None n] by (auto cong: option.case_cong)
  have res: "most_recent_covering_range_lock t k n = Some c'"
    using es(2) c' by (simp add: most_recent_covering_range_lock_def)
  show ?thesis
  proof (cases c')
    case None
    then show ?thesis using res r unfolding cov by auto
  next
    case (Some d)
    then obtain rl where "range_heap t d = Some rl" using r by auto
    with Some res r show ?thesis unfolding cov
      by (intro disjI2 exI [of _ d] exI [of _ rl]) (auto, metis option.sel)
  qed
qed

section \<open>The answer of a point lock request\<close>

text \<open>Another node holds the key, and one of the two wants to write.\<close>

definition point_conflict ::
    "(guint \<times> byte list \<times> bool) set \<Rightarrow> guint \<Rightarrow> byte list \<Rightarrow> bool \<Rightarrow> bool" where
  "point_conflict H n k fw \<longleftrightarrow> (\<exists>m w. m \<noteq> n \<and> (m, k, w) \<in> H \<and> (fw \<or> w))"

text \<open>What a granted request adds.\<close>

definition grant ::
    "guint \<Rightarrow> byte list \<Rightarrow> bool \<Rightarrow> (guint \<times> byte list \<times> bool) set \<Rightarrow> (guint \<times> byte list \<times> bool) set" where
  "grant n k fw H =
     (if fw then insert (n, k, True) (H - {(n, k, False)})
      else if (n, k, True) \<in> H then H else insert (n, k, False) H)"

lemma held_upd:
  "held t' = insert (lock_node_id l, key_of l, for_write l)
     ((\<lambda>l. (lock_node_id l, key_of l, for_write l)) ` ran ((lock_heap t)(a := None)))"
  if "lock_heap t' = (lock_heap t)(a \<mapsto> l)"
  using that by (simp add: held_def ran_upd)

lemma held_new:
  assumes "lock_heap t' = (lock_heap t)(a \<mapsto> l)" and "lock_heap t a = None"
  shows "held t' = insert (lock_node_id l, key_of l, for_write l) (held t)"
proof -
  have "(lock_heap t)(a := None) = lock_heap t" using assms(2) by auto
  with held_upd [OF assms(1)] show ?thesis by (simp add: held_def)
qed

lemma held_cong: "lock_heap t' = lock_heap t \<Longrightarrow> held t' = held t"
  by (simp add: held_def)

text \<open>Under the invariant a node's lock on a key is unique.\<close>

lemma held_remove:
  assumes "exclusive (lock_heap t)" and a: "lock_heap t a = Some l"
  shows "(\<lambda>l. (lock_node_id l, key_of l, for_write l)) ` ran ((lock_heap t)(a := None)) =
    held t - {(lock_node_id l, key_of l, for_write l)}"
proof -
  have "(n, k, w) \<in> (\<lambda>l. (lock_node_id l, key_of l, for_write l)) ` ran ((lock_heap t)(a := None)) \<longleftrightarrow>
      (\<exists>b lb. b \<noteq> a \<and> lock_heap t b = Some lb \<and> lock_node_id lb = n \<and> key_of lb = k \<and> for_write lb = w)" for n k w
    by (force simp: ran_def image_iff)
  also have "\<dots> n k w \<longleftrightarrow> (n, k, w) \<in> held t - {(lock_node_id l, key_of l, for_write l)}" for n k w
    unfolding Diff_iff held_iff using exclusiveD [OF assms(1) a] a by (auto; metis option.inject)
  finally show ?thesis by (auto simp: set_eq_iff)
qed

lemma held_unique:
  assumes "exclusive (lock_heap t)" and "(n, k, w) \<in> held t" and "(n, k, w') \<in> held t"
  shows "w = w'"
  using assms exclusiveD [OF assms(1)] unfolding held_iff by (metis option.inject)

lemma first_other_locker_spec:
  assumes "\<And>a. a \<in> set as \<Longrightarrow> lock_heap t a \<noteq> None" and "\<exists>a \<in> set as. lock_node_id (lock_at t a) \<noteq> n"
  shows "\<exists>a \<in> set as. \<exists>l. first_other_locker t n as = Some l \<and> lock_heap t a = Some l \<and> lock_node_id l \<noteq> n"
  using assms
proof (induction as)
  case Nil
  then show ?case by simp
next
  case (Cons a as)
  then obtain l where "lock_heap t a = Some l" by fastforce
  then show ?case using Cons by (cases "lock_node_id l = n") auto
qed

definition conflict_stamp :: "gzochid_lock_table \<Rightarrow> guint \<Rightarrow> gbytes \<Rightarrow> timeval \<Rightarrow> bool" where
  "conflict_stamp t n k ts \<longleftrightarrow>
     (\<exists>l \<in> ran (lock_heap t). key_of l = bytes_data k \<and> lock_node_id l \<noteq> n \<and> ts = lock_timestamp l)
     \<or> (\<exists>rl \<in> covering t n k. ts = range_timestamp rl
          \<and> (\<forall>r \<in> covering t n k. \<not> timercmp_lt (range_timestamp rl) (range_timestamp r)))"

text \<open>When a request is refused.\<close>

definition refused :: "gzochid_lock_table \<Rightarrow> guint \<Rightarrow> gbytes \<Rightarrow> bool \<Rightarrow> bool" where
  "refused t n k fw \<longleftrightarrow> point_conflict (held t) n (bytes_data k) fw
     \<or> fw \<and> (n, bytes_data k, True) \<notin> held t \<and> covering t n k \<noteq> {}"

text \<open>The outcome of a request, on every branch.\<close>

definition request_outcome ::
    "gzochid_lock_table \<Rightarrow> guint \<Rightarrow> gbytes \<Rightarrow> bool \<Rightarrow> gzochid_lock_table \<Rightarrow> lock_answer \<Rightarrow> bool" where
  "request_outcome t n k fw t' ans \<longleftrightarrow>
     lock_inv t' \<and> range_heap t' = range_heap t \<and> range_locks t' = range_locks t
     \<and> (if refused t n k fw then t' = t \<and> (\<exists>ts. ans = Lock_Failure ts \<and> conflict_stamp t n k ts)
        else ans = Lock_Granted \<and> held t' = grant n (bytes_data k) fw (held t))"

lemma distinct_other:
  assumes "distinct xs" and "1 < length xs"
  shows "\<exists>b \<in> set xs. b \<noteq> a"
proof (rule ccontr)
  assume "\<not> ?thesis"
  then have "set xs \<subseteq> {a}" by auto
  then have "card (set xs) \<le> card {a}" by (intro card_mono) auto
  with assms show False by (simp add: distinct_card)
qed

lemma covering_refusal:
  assumes "lock_inv t" and "range_ok t" and "fw" and "(n, bytes_data k, True) \<notin> held t"
    and "covering t n k = {} \<Longrightarrow> \<exists>t' ans. grant_it = Some (t', ans) \<and> request_outcome t n k fw t' ans"
  shows "\<exists>t' ans. Option.bind (most_recent_covering_range_lock t k n) (\<lambda>r. case r of
       Some r \<Rightarrow> Option.bind (range_heap t r) (\<lambda>rl. Some (t, lock_failure (range_timestamp rl)))
     | None \<Rightarrow> grant_it) = Some (t', ans) \<and> request_outcome t n k fw t' ans"
  using most_recent_covering_spec [OF assms(2), of k n]
proof (elim disjE exE conjE)
  assume "most_recent_covering_range_lock t k n = Some None" and "covering t n k = {}"
  with assms(5) show ?thesis by simp
next
  fix d rl
  assume "most_recent_covering_range_lock t k n = Some (Some d)" and "range_heap t d = Some rl"
    and c: "rl \<in> covering t n k"
    and "\<forall>r \<in> covering t n k. \<not> timercmp_lt (range_timestamp rl) (range_timestamp r)"
  moreover from this have "conflict_stamp t n k (range_timestamp rl)"
    unfolding conflict_stamp_def by blast
  moreover have "refused t n k fw"
    using assms(3,4) c by (auto simp: refused_def)
  ultimately show ?thesis
    using assms(1) by (simp add: lock_failure_def request_outcome_def)
qed

lemma point_failure:
  assumes "lock_inv t" and "l \<in> ran (lock_heap t)" and "key_of l = bytes_data k" and "lock_node_id l \<noteq> n"
    and "fw \<or> for_write l"
  shows "request_outcome t n k fw t (lock_failure (lock_timestamp l))"
proof -
  have "(lock_node_id l, bytes_data k, for_write l) \<in> held t"
    using assms(2,3) by (auto simp: held_def)
  then have "refused t n k fw"
    using assms(4,5) by (auto simp: refused_def point_conflict_def)
  moreover have "conflict_stamp t n k (lock_timestamp l)"
    using assms by (auto simp: conflict_stamp_def)
  ultimately show ?thesis
    using assms(1) by (simp add: request_outcome_def lock_failure_def)
qed

lemma create_outcome:
  assumes inv: "lock_inv t" and new: "\<forall>l \<in> ran (lock_heap t). key_of l \<noteq> bytes_data k"
    and cov: "fw \<longrightarrow> covering t n k = {}"
  shows "\<exists>t' ans. create_lock t n k fw now = Some (t', ans) \<and> request_outcome t n k fw t' ans"
proof -
  obtain t' where t': "create_lock t n k fw now = Some (t', Lock_Granted)" "lock_inv t'"
      "lock_heap t' = (lock_heap t)(next_lock t \<mapsto> lock_new k n fw now)"
      "range_heap t' = range_heap t" "range_locks t' = range_locks t"
    by (rule create_lock_spec [OF inv new])
  have free: "lock_heap t (next_lock t) = None" using inv by (auto simp: lock_inv_def domI)
  have none: "(m, bytes_data k, w) \<notin> held t" for m w
    using new by (auto simp: held_def)
  then have "\<not> refused t n k fw"
    using cov by (auto simp: refused_def point_conflict_def)
  moreover have "held t' = grant n (bytes_data k) fw (held t)"
    using held_new [OF t'(3) free] none by (auto simp: grant_def lock_new_def)
  ultimately show ?thesis
    using t' by (simp add: request_outcome_def)
qed

lemma mine_outcome:
  assumes inv: "lock_inv t" and a: "lock_heap t a = Some l" "lock_node_id l = n" "key_of l = bytes_data k"
    and fw: "for_write l \<or> \<not> fw"
  shows "request_outcome t n k fw t Lock_Granted"
proof -
  have ex: "exclusive (lock_heap t)" using inv by (simp add: lock_inv_def)
  have mine: "(n, bytes_data k, for_write l) \<in> held t"
    using a by (auto simp: held_iff)
  have "\<not> point_conflict (held t) n (bytes_data k) fw"
  proof
    assume "point_conflict (held t) n (bytes_data k) fw"
    then obtain b lb where b: "lock_heap t b = Some lb" "key_of lb = bytes_data k" "lock_node_id lb \<noteq> n"
        "fw \<or> for_write lb"
      unfolding point_conflict_def held_iff by blast
    then have "b \<noteq> a" using a by auto
    then show False
      using exclusiveD [OF ex a(1) b(1)] exclusiveD [OF ex b(1) a(1)] a(3) b fw by auto
  qed
  then have "\<not> refused t n k fw"
    using mine fw by (auto simp: refused_def)
  moreover have "held t = grant n (bytes_data k) fw (held t)"
    using mine fw held_unique [OF ex, of n "bytes_data k"] by (cases "for_write l") (auto simp: grant_def)
  ultimately show ?thesis
    using inv by (simp add: request_outcome_def)
qed

lemma upgrade_outcome:
  assumes inv: "lock_inv t" and i: "i < length (locks t)"
    and a: "lock_heap t a = Some l" "lock_node_id l = n" "key_of l = bytes_data k" "\<not> for_write l"
    and alone: "\<And>b lb. lock_heap t b = Some lb \<Longrightarrow> key_of lb = bytes_data k \<Longrightarrow> b = a"
    and cov: "covering t n k = {}"
  shows "\<exists>t' ans. upgrade_lock t i (locks t ! i) a now = Some (t', ans) \<and> request_outcome t n k True t' ans"
proof -
  have ex: "exclusive (lock_heap t)" using inv by (simp add: lock_inv_def)
  obtain t' where t': "upgrade_lock t i (locks t ! i) a now = Some (t', Lock_Granted)" "lock_inv t'"
      "lock_heap t' = (lock_heap t)(a \<mapsto> l\<lparr>for_write := True, lock_timestamp := now\<rparr>)"
      "range_heap t' = range_heap t" "range_locks t' = range_locks t"
    by (rule upgrade_lock_spec [OF inv i a(1)]) (use alone a(3) in auto)
  have "\<not> point_conflict (held t) n (bytes_data k) True"
    using alone a by (auto simp: point_conflict_def held_iff)
  then have "\<not> refused t n k True"
    using cov by (simp add: refused_def)
  moreover have "held t' = grant n (bytes_data k) True (held t)"
    using held_upd [OF t'(3)] held_remove [OF ex a(1)] a by (simp add: grant_def)
  ultimately show ?thesis
    using t' by (simp add: request_outcome_def)
qed

lemma share_outcome:
  assumes inv: "lock_inv t" and i: "i < length (locks t)" "lock_list (locks t ! i) \<noteq> []"
      "set (lock_list (locks t ! i)) = {a. \<exists>l. lock_heap t a = Some l \<and> key_of l = bytes_data k}"
    and others: "\<forall>l \<in> ran (lock_heap t). key_of l = bytes_data k \<longrightarrow> lock_node_id l \<noteq> n \<and> \<not> for_write l"
  shows "\<exists>t' ans. share_lock t i (locks t ! i) n k False now = Some (t', ans) \<and> request_outcome t n k False t' ans"
proof -
  obtain t' where t': "share_lock t i (locks t ! i) n k False now = Some (t', Lock_Granted)" "lock_inv t'"
      "lock_heap t' = (lock_heap t)(next_lock t \<mapsto> lock_new k n False now)"
      "range_heap t' = range_heap t" "range_locks t' = range_locks t"
    by (rule share_lock_spec [OF inv i(1,3,2) others])
  have free: "lock_heap t (next_lock t) = None" using inv by (auto simp: lock_inv_def domI)
  have "(m, bytes_data k, True) \<notin> held t" "(n, bytes_data k, w) \<notin> held t" for m w
    using others by (auto simp: held_def)
  then have "\<not> refused t n k False" and "held t' = grant n (bytes_data k) False (held t)"
    using held_new [OF t'(3) free] by (auto simp: refused_def point_conflict_def grant_def lock_new_def)
  then show ?thesis
    using t' by (simp add: request_outcome_def)
qed

lemma check_and_set_outcome:
  assumes inv: "lock_inv t" and ok: "range_ok t"
  shows "\<exists>t' ans. gzochid_lock_check_and_set t n k fw now = Some (t', ans) \<and> request_outcome t n k fw t' ans"
  using inv
proof (cases rule: point_lookup [where k = k and n = n])
  case Absent
  have "(n, bytes_data k, True) \<notin> held t" using Absent(2) by (auto simp: held_def)
  then show ?thesis
    using Absent create_outcome [OF inv Absent(2), of fw n now]
      covering_refusal [OF inv ok, of fw n k "create_lock t n k fw now"]
    by (cases fw) (simp_all add: gzochid_lock_check_and_set_def)
next
  case (Mine i a l)
  have ex: "exclusive (lock_heap t)" using inv by (simp add: lock_inv_def)
  show ?thesis
  proof (cases "for_write l \<or> \<not> fw")
    case True
    then show ?thesis
      using Mine mine_outcome [OF inv Mine(7-9) True]
      by (simp add: gzochid_lock_check_and_set_def g_sequence_get_def)
  next
    case False
    have heap: "b \<in> set (lock_list (locks t ! i)) \<Longrightarrow> lock_heap t b \<noteq> None" for b
      using Mine(5) by auto
    have ain: "a \<in> set (lock_list (locks t ! i))" using Mine by auto
    show ?thesis
    proof (cases "length (lock_list (locks t ! i)) > 1")
      case True
      then obtain b where b: "b \<in> set (lock_list (locks t ! i))" "b \<noteq> a"
        using distinct_other [OF Mine(4)] by blast
      then obtain lb where lb: "lock_heap t b = Some lb" "key_of lb = bytes_data k" using Mine(5) by auto
      have "lock_node_id lb \<noteq> n"
        using exclusiveD [OF ex lb(1) Mine(7)] lb(2) Mine(8,9) b(2) by auto
      then obtain c lc where c: "c \<in> set (lock_list (locks t ! i))" "first_other_locker t n (lock_list (locks t ! i)) = Some lc"
          "lock_heap t c = Some lc" "lock_node_id lc \<noteq> n"
        using first_other_locker_spec [of "lock_list (locks t ! i)" t n] heap b(1) lb(1) by (metis option.sel)
      have "request_outcome t n k fw t (lock_failure (lock_timestamp lc))"
        by (rule point_failure [OF inv _ _ c(4)]) (use c Mine(5) False in \<open>auto intro: ranI\<close>)
      then show ?thesis
        using Mine False True c(2) by (simp add: gzochid_lock_check_and_set_def g_sequence_get_def)
    next
      case short: False
      then have one: "set (lock_list (locks t ! i)) = {a}"
        using ain by (cases "lock_list (locks t ! i)") auto
      have alone: "b = a" if "lock_heap t b = Some lb" "key_of lb = bytes_data k" for b lb
        using that one Mine(5) by auto
      have up: "\<exists>t' ans. upgrade_lock t i (locks t ! i) a now = Some (t', ans) \<and> request_outcome t n k fw t' ans"
        if "covering t n k = {}"
        using upgrade_outcome [OF inv Mine(2,7-9) _ alone that] False by simp
      have "(n, bytes_data k, True) \<notin> held t"
        using alone Mine(7) False by (auto simp: held_iff)
      then show ?thesis
        using Mine False short covering_refusal [OF inv ok, of fw n k "upgrade_lock t i (locks t ! i) a now"] up
        by (simp add: gzochid_lock_check_and_set_def g_sequence_get_def)
    qed
  qed
next
  case (Others i)
  have "hd (lock_list (locks t ! i)) \<in> set (lock_list (locks t ! i))" using Others(3) by simp
  then obtain l where l: "lock_heap t (hd (lock_list (locks t ! i))) = Some l" "key_of l = bytes_data k"
    using Others(5) by auto
  have nid: "lock_node_id l \<noteq> n" using Others(7) l by (auto intro: ranI)
  show ?thesis
  proof (cases "fw \<or> for_write l")
    case True
    then show ?thesis
      using Others l point_failure [OF inv _ l(2) nid True] ranI [of "lock_heap t", OF l(1)]
      by (simp add: gzochid_lock_check_and_set_def g_sequence_get_def)
  next
    case False
    have "\<not> for_write lb" if "lock_heap t b = Some lb" "key_of lb = bytes_data k" for b lb
      using exclusiveD [of "lock_heap t" b lb "hd (lock_list (locks t ! i))" l] that l False inv
      by (cases "b = hd (lock_list (locks t ! i))") (auto simp: lock_inv_def)
    then have "\<forall>l \<in> ran (lock_heap t). key_of l = bytes_data k \<longrightarrow> lock_node_id l \<noteq> n \<and> \<not> for_write l"
      using Others(7) by (auto simp: ran_def)
    from share_outcome [OF inv Others(2,3,5) this, of now] show ?thesis
      using Others l False by (simp add: gzochid_lock_check_and_set_def g_sequence_get_def)
  qed
qed

section \<open>Release\<close>

lemma update_node_locks_lists:
  "points_of (update_node_locks t n nl) = (points_of t)(n := point_locks nl)"
  "ranges_of (update_node_locks t n nl) = (ranges_of t)(n := node_range_locks nl)"
  by (auto simp: update_node_locks_def points_of_def ranges_of_def fun_eq_iff)

lemma update_node_locks_entries:
  assumes "\<forall>n nl. nodes_to_locks t n = Some nl \<longrightarrow> point_locks nl \<noteq> [] \<or> node_range_locks nl \<noteq> []"
  shows "\<forall>m ml. nodes_to_locks (update_node_locks t n nl) m = Some ml \<longrightarrow>
    point_locks ml \<noteq> [] \<or> node_range_locks ml \<noteq> []"
  using assms by (auto simp: update_node_locks_def)

lemma update_node_locks_simps [simp]:
  "locks (update_node_locks t n nl) = locks t"
  "locks_by_timestamp (update_node_locks t n nl) = locks_by_timestamp t"
  "range_locks (update_node_locks t n nl) = range_locks t"
  "range_locks_by_timestamp (update_node_locks t n nl) = range_locks_by_timestamp t"
  "lock_heap (update_node_locks t n nl) = lock_heap t"
  "range_heap (update_node_locks t n nl) = range_heap t"
  "next_lock (update_node_locks t n nl) = next_lock t"
  by (simp_all add: update_node_locks_def)

lemma exclusive_remove: "exclusive h \<Longrightarrow> exclusive (h(a := None))"
  unfolding exclusive_def by (metis fun_upd_other fun_upd_same option.distinct(1))

lemma registered:
  assumes "lock_inv t" and "lock_heap t a = Some l"
  obtains nl where "nodes_to_locks t (lock_node_id l) = Some nl"
    and "point_locks nl = points_of t (lock_node_id l)" and "node_range_locks nl = ranges_of t (lock_node_id l)"
proof (cases "nodes_to_locks t (lock_node_id l)")
  case None
  then have "points_of t (lock_node_id l) = []" by (simp add: points_of_def)
  moreover have "a \<in> set (points_of t (lock_node_id l))"
    using assms by (auto simp: lock_inv_def node_index_def)
  ultimately show ?thesis by simp
next
  case (Some nl)
  then show ?thesis by (intro that) (auto simp: points_of_def ranges_of_def)
qed

lemma remove_lock_spec:
  assumes inv: "lock_inv t" and a: "lock_heap t a = Some l"
  obtains t' where "remove_lock t a = Some t'" and "lock_inv t'"
    and "lock_heap t' = (lock_heap t)(a := None)" and "range_heap t' = range_heap t"
    and "range_locks t' = range_locks t"
    and "points_of t' = (points_of t)(lock_node_id l := remove1 a (points_of t (lock_node_id l)))"
    and "ranges_of t' = ranges_of t"
proof -
  let ?n = "lock_node_id l" and ?h = "(lock_heap t)(a := None)"
  have ki: "key_index (lock_heap t) (locks t)" using inv by (simp add: lock_inv_def)
  have "\<not> (\<forall>m \<in> ran (lock_heap t). key_of m \<noteq> key_of l)"
    using a by (auto simp: ran_def)
  with find_point_spec [OF ki, of "lock_key l"]
  obtain i where i: "i < length (locks t)" "find_point t (lock_key l) = Some (Some i)"
      "set (lock_list (locks t ! i)) = {b. \<exists>m. lock_heap t b = Some m \<and> key_of m = key_of l}"
    by blast
  obtain nl where nl: "nodes_to_locks t ?n = Some nl" "point_locks nl = points_of t ?n"
      "node_range_locks nl = ranges_of t ?n"
    by (rule registered [OF inv a])
  let ?rest = "remove1 a (lock_list (locks t ! i))"
  let ?seq = "if ?rest = [] then g_sequence_remove (locks t) i
    else (locks t)[i := (locks t ! i)\<lparr>lock_list := ?rest\<rparr>]"
  define t1 where "t1 = t\<lparr>locks := ?seq, locks_by_timestamp := remove1 a (locks_by_timestamp t)\<rparr>"
  define t' where "t' = (update_node_locks t1 ?n (nl\<lparr>point_locks := remove1 a (point_locks nl)\<rparr>))
    \<lparr>lock_heap := ?h\<rparr>"
  have res: "remove_lock t a = Some t'"
    using a i(1,2) nl(1) by (simp add: remove_lock_def g_sequence_get_def Let_def t'_def t1_def)
  have same: "points_of t1 = points_of t" "ranges_of t1 = ranges_of t"
    by (auto simp: points_of_def ranges_of_def t1_def fun_eq_iff)
  have frame: "points_of (t\<lparr>lock_heap := x\<rparr>) = points_of t" "ranges_of (t\<lparr>lock_heap := x\<rparr>) = ranges_of t" for t x
    by (auto simp: points_of_def ranges_of_def fun_eq_iff)
  have pts: "points_of t' = (points_of t)(?n := remove1 a (points_of t ?n))"
    using nl(2) by (simp add: t'_def frame update_node_locks_lists same)
  have rgs: "ranges_of t' = ranges_of t"
    using nl(3) by (simp add: t'_def frame update_node_locks_lists same)
  have km: "key_map ?h = (key_map (lock_heap t))(a := None)"
    by (auto simp: fun_eq_iff)
  have lls: "map lock_list ?seq = (if remove1 a (map lock_list (locks t) ! i) = []
      then g_sequence_remove (map lock_list (locks t)) i
      else (map lock_list (locks t))[i := remove1 a (map lock_list (locks t) ! i)])"
    using i(1) by (simp add: g_sequence_remove_def take_map drop_map map_update)
  have "key_index ?h ?seq"
    unfolding key_index_def km lls
    by (rule key_lists_remove) (use ki i a in \<open>auto simp: key_index_def\<close>)
  moreover have "time_index ?h lock_timestamp (remove1 a (locks_by_timestamp t))"
    using inv by (intro time_index_remove) (simp add: lock_inv_def)
  moreover have "node_index ?h lock_node_id (points_of t')"
    unfolding pts using inv a by (intro node_index_remove) (auto simp: lock_inv_def)
  moreover have "exclusive ?h"
    using inv by (intro exclusive_remove) (simp add: lock_inv_def)
  moreover have "\<forall>m ml. nodes_to_locks t' m = Some ml \<longrightarrow> point_locks ml \<noteq> [] \<or> node_range_locks ml \<noteq> []"
    using update_node_locks_entries [of t1 ?n "nl\<lparr>point_locks := remove1 a (point_locks nl)\<rparr>"] inv
    by (simp add: t'_def t1_def lock_inv_def)
  ultimately have "lock_inv t'"
    using inv unfolding lock_inv_def rgs by (auto simp: t'_def t1_def)
  then show ?thesis
    using res pts rgs by (intro that [of t']) (simp_all add: t'_def t1_def)
qed

lemma release_spec:
  assumes inv: "lock_inv t"
  shows "\<exists>t'. gzochid_lock_release t n k = Some t' \<and> lock_inv t'
    \<and> held t' = held t - {(n, bytes_data k, True), (n, bytes_data k, False)}
    \<and> range_heap t' = range_heap t \<and> range_locks t' = range_locks t"
  using inv
proof (cases rule: point_lookup [where k = k and n = n])
  case Absent
  then have "held t - {(n, bytes_data k, True), (n, bytes_data k, False)} = held t"
    by (auto simp: held_def)
  with Absent inv show ?thesis by (simp add: gzochid_lock_release_def)
next
  case (Mine i a l)
  have ex: "exclusive (lock_heap t)" using inv by (simp add: lock_inv_def)
  obtain t' where t': "remove_lock t a = Some t'" "lock_inv t'" "lock_heap t' = (lock_heap t)(a := None)"
      "range_heap t' = range_heap t" "range_locks t' = range_locks t"
    by (rule remove_lock_spec [OF inv Mine(7)])
  have "held t' = held t - {(n, bytes_data k, for_write l)}"
    using held_remove [OF ex Mine(7)] Mine(8,9) by (simp add: held_def t'(3))
  moreover have "(n, bytes_data k, \<not> for_write l) \<notin> held t"
    using held_unique [OF ex, of n "bytes_data k" "for_write l" "\<not> for_write l"] Mine(7-9)
    by (auto simp: held_iff)
  ultimately have "held t' = held t - {(n, bytes_data k, True), (n, bytes_data k, False)}"
    by (cases "for_write l") auto
  with t' Mine show ?thesis
    by (simp add: gzochid_lock_release_def g_sequence_get_def)
next
  case (Others i)
  then have "held t - {(n, bytes_data k, True), (n, bytes_data k, False)} = held t"
    by (auto simp: held_def)
  with Others inv show ?thesis
    by (simp add: gzochid_lock_release_def g_sequence_get_def)
qed

text \<open>Releasing a list of a node's point locks.\<close>

lemma release_points:
  assumes "lock_inv t" and "distinct as" and "set as \<subseteq> set (points_of t n)"
  shows "\<exists>t'. g_list_foreach remove_lock as t = Some t' \<and> lock_inv t'
    \<and> lock_heap t' = (\<lambda>b. if b \<in> set as then None else lock_heap t b)
    \<and> range_heap t' = range_heap t \<and> range_locks t' = range_locks t \<and> ranges_of t' = ranges_of t"
  using assms
proof (induction as arbitrary: t)
  case Nil
  then show ?case by simp
next
  case (Cons a as)
  obtain l where l: "lock_heap t a = Some l" "lock_node_id l = n"
    using Cons.prems(1,3) by (auto simp: lock_inv_def node_index_def)
  obtain t1 where t1: "remove_lock t a = Some t1" "lock_inv t1" "lock_heap t1 = (lock_heap t)(a := None)"
      "range_heap t1 = range_heap t" "range_locks t1 = range_locks t"
      "points_of t1 = (points_of t)(n := remove1 a (points_of t n))" "ranges_of t1 = ranges_of t"
    using remove_lock_spec [OF Cons.prems(1) l(1)] l(2) by metis
  have "distinct (points_of t n)" using Cons.prems(1) by (simp add: lock_inv_def node_index_def)
  then have "set as \<subseteq> set (points_of t1 n)"
    using Cons.prems(2,3) t1(6) by auto
  with Cons.IH [OF t1(2)] Cons.prems(2) t1 show ?case
    by (fastforce simp: fun_eq_iff)
qed

lemma range_registered:
  assumes "lock_inv t" and "range_heap t a = Some rl"
  obtains nl where "nodes_to_locks t (range_node_id rl) = Some nl"
    and "point_locks nl = points_of t (range_node_id rl)" and "node_range_locks nl = ranges_of t (range_node_id rl)"
proof (cases "nodes_to_locks t (range_node_id rl)")
  case None
  then have "ranges_of t (range_node_id rl) = []" by (simp add: ranges_of_def)
  moreover have "a \<in> set (ranges_of t (range_node_id rl))"
    using assms by (auto simp: lock_inv_def node_index_def)
  ultimately show ?thesis by simp
next
  case (Some nl)
  then show ?thesis by (intro that) (auto simp: points_of_def ranges_of_def)
qed

text \<open>Whatever the interval tree does when it removes an interval, the other indexes agree.\<close>

lemma remove_range_lock_spec:
  assumes inv: "lock_inv t" and res: "remove_range_lock t a = Some t'"
  obtains rl where "range_heap t a = Some rl" and "lock_inv t'"
    and "range_heap t' = (range_heap t)(a := None)" and "lock_heap t' = lock_heap t"
    and "ranges_of t' = (ranges_of t)(range_node_id rl := remove1 a (ranges_of t (range_node_id rl)))"
    and "points_of t' = points_of t"
proof -
  obtain rl tree nl where rl: "range_heap t a = Some rl" and nl0: "nodes_to_locks t (range_node_id rl) = Some nl"
      and tree: "gzochid_itree_remove (range_locks t) (range_from rl) (range_to rl) = Some tree"
    using res by (auto simp: remove_range_lock_def Let_def bind_eq_Some_conv)
  let ?n = "range_node_id rl" and ?h = "(range_heap t)(a := None)"
  have nl: "point_locks nl = points_of t ?n" "node_range_locks nl = ranges_of t ?n"
    using nl0 by (auto simp: points_of_def ranges_of_def)
  define t1 where "t1 = t\<lparr>range_locks := tree, range_locks_by_timestamp := remove1 a (range_locks_by_timestamp t)\<rparr>"
  have t': "t' = (update_node_locks t1 ?n (nl\<lparr>node_range_locks := remove1 a (node_range_locks nl)\<rparr>))
      \<lparr>range_heap := ?h\<rparr>"
    using res rl nl0 tree by (simp add: remove_range_lock_def Let_def t1_def)
  have same: "points_of t1 = points_of t" "ranges_of t1 = ranges_of t"
    by (auto simp: points_of_def ranges_of_def t1_def fun_eq_iff)
  have frame: "points_of (t\<lparr>range_heap := x\<rparr>) = points_of t" "ranges_of (t\<lparr>range_heap := x\<rparr>) = ranges_of t" for t x
    by (auto simp: points_of_def ranges_of_def fun_eq_iff)
  have rgs: "ranges_of t' = (ranges_of t)(?n := remove1 a (ranges_of t ?n))"
    using nl(2) by (simp add: t' frame update_node_locks_lists same)
  have pts: "points_of t' = points_of t"
    using nl(1) by (simp add: t' frame update_node_locks_lists same)
  have "time_index ?h range_timestamp (remove1 a (range_locks_by_timestamp t))"
    using inv by (intro time_index_remove) (simp add: lock_inv_def)
  moreover have "node_index ?h range_node_id (ranges_of t')"
    unfolding rgs using inv rl by (intro node_index_remove) (auto simp: lock_inv_def)
  moreover have "\<forall>m ml. nodes_to_locks t' m = Some ml \<longrightarrow> point_locks ml \<noteq> [] \<or> node_range_locks ml \<noteq> []"
    using update_node_locks_entries [of t1 ?n "nl\<lparr>node_range_locks := remove1 a (node_range_locks nl)\<rparr>"] inv
    by (simp add: t' t1_def lock_inv_def)
  ultimately have "lock_inv t'"
    using inv unfolding lock_inv_def pts by (auto simp: t' t1_def)
  then show ?thesis
    using rl pts rgs by (intro that [of rl]) (simp_all add: t' t1_def)
qed

lemma release_ranges:
  assumes "lock_inv t" and "g_list_foreach remove_range_lock as t = Some t'"
  shows "lock_inv t' \<and> lock_heap t' = lock_heap t \<and> points_of t' = points_of t
    \<and> range_heap t' = (\<lambda>b. if b \<in> set as then None else range_heap t b)"
  using assms
proof (induction as arbitrary: t)
  case Nil
  then show ?case by simp
next
  case (Cons a as)
  from Cons.prems(2) obtain t1 where t1: "remove_range_lock t a = Some t1"
      "g_list_foreach remove_range_lock as t1 = Some t'"
    by (auto simp: bind_eq_Some_conv)
  obtain rl where "lock_inv t1" "range_heap t1 = (range_heap t)(a := None)" "lock_heap t1 = lock_heap t"
      "points_of t1 = points_of t"
    by (rule remove_range_lock_spec [OF Cons.prems(1) t1(1)])
  with Cons.IH [OF _ t1(2)] show ?case
    by (auto simp: fun_eq_iff)
qed

lemma node_entry_gone:
  assumes "lock_inv t" and "points_of t n = []" and "ranges_of t n = []"
  shows "nodes_to_locks t n = None"
  using assms by (cases "nodes_to_locks t n") (auto simp: lock_inv_def points_of_def ranges_of_def)

lemma held_minus_node:
  assumes "node_index (lock_heap t) lock_node_id (points_of t)"
    and "lock_heap t' = (\<lambda>b. if b \<in> set (points_of t n) then None else lock_heap t b)"
  shows "held t' = {(m, k, w) \<in> held t. m \<noteq> n}"
proof -
  have "(m, k, w) \<in> held t' \<longleftrightarrow> (m, k, w) \<in> held t \<and> m \<noteq> n" for m k w
  proof -
    have "lock_heap t' b = Some l \<longleftrightarrow> lock_heap t b = Some l \<and> lock_node_id l \<noteq> n" for b l
      using assms by (auto simp: node_index_def)
    then show ?thesis unfolding held_iff by blast
  qed
  then show ?thesis by auto
qed

lemma release_all_spec:
  assumes inv: "lock_inv t"
  shows "ranges_of t n = [] \<Longrightarrow> \<exists>t'. gzochid_lock_release_all t n = Some t'"
    and "gzochid_lock_release_all t n = Some t' \<Longrightarrow>
      lock_inv t' \<and> held t' = {(m, k, w) \<in> held t. m \<noteq> n} \<and> nodes_to_locks t' n = None
      \<and> range_heap t' = (\<lambda>b. if b \<in> set (ranges_of t n) then None else range_heap t b)"
proof -
  have ni: "node_index (lock_heap t) lock_node_id (points_of t)" and dis: "distinct (points_of t n)"
    using inv by (auto simp: lock_inv_def node_index_def)
  obtain t1 where t1: "g_list_foreach remove_lock (points_of t n) t = Some t1" "lock_inv t1"
      "lock_heap t1 = (\<lambda>b. if b \<in> set (points_of t n) then None else lock_heap t b)"
      "range_heap t1 = range_heap t" "ranges_of t1 = ranges_of t"
    using release_points [OF inv dis subset_refl] by blast
  have "set (points_of t1 n) = {a. \<exists>l. lock_heap t1 a = Some l \<and> lock_node_id l = n}"
    using t1(2) by (simp add: lock_inv_def node_index_def)
  also have "\<dots> = {}"
    using ni by (auto simp: t1(3) node_index_def)
  finally have p1: "points_of t1 n = []" by simp
  have none: "points_of t n = []" "ranges_of t n = []" if "nodes_to_locks t n = None"
    using that by (auto simp: points_of_def ranges_of_def)
  have eq: "gzochid_lock_release_all t n = (case nodes_to_locks t1 n of None \<Rightarrow> Some t1
      | Some nl \<Rightarrow> g_list_foreach remove_range_lock (ranges_of t n) t1)"
  proof (cases "nodes_to_locks t n")
    case None
    with t1(1) none have "t1 = t" by simp
    with None show ?thesis by (simp add: gzochid_lock_release_all_def)
  next
    case (Some nl)
    then have "points_of t n = point_locks nl" by (simp add: points_of_def)
    moreover have "node_range_locks ml = ranges_of t n" if "nodes_to_locks t1 n = Some ml" for ml
      using that t1(5) by (metis option.simps(5) ranges_of_def)
    ultimately show ?thesis
      using Some t1(1) by (simp add: gzochid_lock_release_all_def split: option.split)
  qed
  show "\<exists>t'. gzochid_lock_release_all t n = Some t'" if "ranges_of t n = []"
    using that eq by (simp split: option.split)
  assume res: "gzochid_lock_release_all t n = Some t'"
  have "lock_inv t' \<and> lock_heap t' = lock_heap t1 \<and> points_of t' = points_of t1
      \<and> range_heap t' = (\<lambda>b. if b \<in> set (ranges_of t n) then None else range_heap t1 b)"
  proof (cases "nodes_to_locks t1 n")
    case None
    then have "ranges_of t n = []" using t1(5) by (metis option.simps(4) ranges_of_def)
    with None res eq t1 show ?thesis by simp
  next
    case (Some nl)
    then have "g_list_foreach remove_range_lock (ranges_of t n) t1 = Some t'" using res eq by simp
    from release_ranges [OF t1(2) this] show ?thesis .
  qed
  then have t': "lock_inv t'" "lock_heap t' = lock_heap t1" "points_of t' = points_of t1"
      "range_heap t' = (\<lambda>b. if b \<in> set (ranges_of t n) then None else range_heap t b)"
    using t1(4) by auto
  have "set (ranges_of t' n) = {a. \<exists>l. range_heap t' a = Some l \<and> range_node_id l = n}"
    using t'(1) by (simp add: lock_inv_def node_index_def)
  also have "\<dots> = {}"
    using inv by (auto simp: t'(4) lock_inv_def node_index_def)
  finally have "ranges_of t' n = []" by simp
  moreover have "held t' = {(m, k, w) \<in> held t. m \<noteq> n}"
    using held_minus_node [OF ni, of t' n] t'(2) t1(3) by simp
  ultimately show "lock_inv t' \<and> held t' = {(m, k, w) \<in> held t. m \<noteq> n} \<and> nodes_to_locks t' n = None
      \<and> range_heap t' = (\<lambda>b. if b \<in> set (ranges_of t n) then None else range_heap t b)"
    using t' p1 node_entry_gone by simp
qed

end
