(* ===== verification/Lock_Ranges.thy ===== *)
theory Lock_Ranges
  imports Lock_Points
begin

text \<open>
  Range locks: overlap of closed intervals, the search for overlapping locks of other nodes, the
  scan of the point locks and the outcome of a range request.
\<close>

section \<open>Acquiring a range lock\<close>

text \<open>The bounds as positions in the key space: \<open>NULL\<close> is before all keys below and after all above.\<close>

definition bounds_le :: "gbytes option \<Rightarrow> gbytes option \<Rightarrow> bool" where
  "bounds_le lo up \<longleftrightarrow> (case (lo, up) of (Some l, Some u) \<Rightarrow> bytes_data l \<le> bytes_data u | _ \<Rightarrow> True)"

definition overlap ::
    "gbytes option \<Rightarrow> gbytes option \<Rightarrow> gbytes option \<Rightarrow> gbytes option \<Rightarrow> bool" where
  "overlap fr to lo up \<longleftrightarrow> bounds_le fr up \<and> bounds_le lo to"

text \<open>
  The tree holds proper intervals of live range locks, and intervals of different nodes do not
  overlap.
\<close>

definition ranges_inv :: "gzochid_lock_table \<Rightarrow> bool" where
  "ranges_inv t \<longleftrightarrow> range_ok t \<and> balance_ok (range_locks t)
     \<and> (\<forall>(lo, up, d) \<in> itree_entries (range_locks t). bounds_le lo up)
     \<and> (\<forall>(lo, up, d) \<in> itree_entries (range_locks t). \<forall>(lo', up', d') \<in> itree_entries (range_locks t).
          overlap lo up lo' up' \<longrightarrow>
          range_node_id (the (range_heap t d)) = range_node_id (the (range_heap t d')))"

lemma bound_first_simps [simp]:
  "bound_null_first None None = 0" "bound_null_first None (Some b) = - 1"
  "bound_null_first (Some a) None = 1"
  "bound_null_first (Some a) (Some b) = g_bytes_compare (bytes_data a) (bytes_data b)"
  by (simp_all add: bound_null_first_def gzochid_util_bytes_compare_null_first_def)

lemma bound_last_simps [simp]:
  "bound_null_last None None = 0" "bound_null_last None (Some b) = 1"
  "bound_null_last (Some a) None = - 1"
  "bound_null_last (Some a) (Some b) = g_bytes_compare (bytes_data a) (bytes_data b)"
  by (simp_all add: bound_null_last_def gzochid_util_bytes_compare_null_last_def)

lemma g_bytes_compare_le: "g_bytes_compare a b \<le> 0 \<longleftrightarrow> a \<le> b" "0 \<le> g_bytes_compare a b \<longleftrightarrow> b \<le> a"
  by (auto simp: g_bytes_compare_lexord)

lemma closed_overlap:
  fixes f :: "'a :: linorder"
  assumes "f \<le> t" and "l \<le> u"
  shows "(l \<le> f \<and> f \<le> u) \<or> (l \<le> t \<and> t \<le> u) \<or> (f \<le> l \<and> u \<le> t) \<longleftrightarrow> f \<le> u \<and> l \<le> t"
  using assms by (metis linear order_trans)

lemma interval_hit_overlap:
  assumes "range_tree.owns tree" and "bounds_le (Some f) to" and "bounds_le lo up"
  shows "interval_hit tree (Some f) to lo up \<longleftrightarrow> overlap (Some f) to lo up"
proof -
  have "interval_hit tree (Some f) to lo up \<longleftrightarrow>
      (bound_null_first (Some f) lo \<ge> 0 \<and> bound_null_last (Some f) up \<le> 0)
      \<or> (bound_null_first to lo \<ge> 0 \<and> bound_null_last to up \<le> 0)
      \<or> (bound_null_first (Some f) lo \<le> 0 \<and> bound_null_last to up \<ge> 0)"
    using assms(1) by (simp add: interval_hit_def range_tree.owns_def)
  also have "\<dots> \<longleftrightarrow> overlap (Some f) to lo up"
    using assms(2,3)
    by (cases lo; cases up; cases to)
      (simp_all add: overlap_def bounds_le_def g_bytes_compare_le closed_overlap linear, auto)
  finally show ?thesis .
qed

lemma visit_overlapping:
  assumes "\<forall>(lo, up, d) \<in> set es. range_heap t d \<noteq> None"
  shows "\<exists>c. snd (visit (find_overlapping_range_lock t n) es (Some None)) = Some c
    \<and> (case c of
         None \<Rightarrow> \<forall>(lo, up, d) \<in> set es. range_node_id (the (range_heap t d)) = n
       | Some d \<Rightarrow> (\<exists>lo up. (lo, up, d) \<in> set es) \<and> range_node_id (the (range_heap t d)) \<noteq> n)"
  using assms
proof (induction es)
  case Nil
  then show ?case by simp
next
  case (Cons e es)
  obtain lo up d where e: "e = (lo, up, d)" by (cases e)
  then obtain rl where rl: "range_heap t d = Some rl" using Cons.prems by auto
  show ?case
  proof (cases "range_node_id rl = n")
    case True
    then have "visit (find_overlapping_range_lock t n) (e # es) (Some None) =
        visit (find_overlapping_range_lock t n) es (Some None)"
      using e rl by (simp add: find_overlapping_range_lock_def)
    moreover from Cons obtain c where
        "snd (visit (find_overlapping_range_lock t n) es (Some None)) = Some c"
        "case c of None \<Rightarrow> \<forall>(lo, up, d) \<in> set es. range_node_id (the (range_heap t d)) = n
         | Some d \<Rightarrow> (\<exists>lo up. (lo, up, d) \<in> set es) \<and> range_node_id (the (range_heap t d)) \<noteq> n"
      by auto
    ultimately show ?thesis
      using True e rl by (intro exI [of _ c]) (auto split: option.splits)
  next
    case False
    then show ?thesis using e rl by (auto simp: find_overlapping_range_lock_def)
  qed
qed

text \<open>Range locks of other nodes that overlap a requested range.\<close>

definition overlapping ::
    "gzochid_lock_table \<Rightarrow> guint \<Rightarrow> gbytes option \<Rightarrow> gbytes option \<Rightarrow> gzochid_range_lock set" where
  "overlapping t n fr to = {rl. \<exists>lo up d. (lo, up, d) \<in> itree_entries (range_locks t)
     \<and> range_heap t d = Some rl \<and> range_node_id rl \<noteq> n \<and> overlap fr to lo up}"

lemma range_search:
  assumes "ranges_inv t" and "bounds_le (Some f) to"
  obtains c where "gzochid_itree_search_interval (range_locks t) (Some f) to
      (find_overlapping_range_lock t n) (Some None) = Some (Some c)"
    and "c = None \<longleftrightarrow> overlapping t n (Some f) to = {}"
    and "\<And>d. c = Some d \<Longrightarrow> \<exists>rl \<in> overlapping t n (Some f) to. range_heap t d = Some rl"
proof -
  obtain tr where tr: "range_tree.owns (range_locks t)" "itree_inv (range_locks t) tr"
    using assms(1) by (auto simp: ranges_inv_def range_ok_def)
  have proper: "bounds_le lo up" if "(lo, up, d) \<in> itree_entries (range_locks t)" for lo up d
    using assms(1) that by (auto simp: ranges_inv_def)
  have sound: "bound_null_last (Some f) up \<le> 0"
    if "(lo, up, d) \<in> itree_entries (range_locks t)" "bound_null_first (Some f) lo \<le> 0" for lo up d
    using proper [OF that(1)] that(2)
    by (cases lo; cases up) (auto simp: bounds_le_def g_bytes_compare_lexord split: if_splits)
  obtain es where es: "set es = {(lo, up, d) \<in> itree_entries (range_locks t).
        interval_hit (range_locks t) (Some f) to lo up}"
      "gzochid_itree_search_interval (range_locks t) (Some f) to (find_overlapping_range_lock t n) (Some None) =
        Some (snd (visit (find_overlapping_range_lock t n) es (Some None)))"
  proof -
    have "\<exists>es. set es = {(lo, up, d) \<in> itree_entries (range_locks t).
          interval_hit (range_locks t) (Some f) to lo up}
        \<and> gzochid_itree_search_interval (range_locks t) (Some f) to (find_overlapping_range_lock t n) (Some None) =
          Some (snd (visit (find_overlapping_range_lock t n) es (Some None)))"
      by (rule range_tree.interval_search [OF tr]) (rule sound)
    then show ?thesis using that by blast
  qed
  have ov: "overlapping t n (Some f) to = {rl. \<exists>lo up d. (lo, up, d) \<in> set es \<and> range_heap t d = Some rl
      \<and> range_node_id rl \<noteq> n}"
    unfolding overlapping_def es(1) using interval_hit_overlap [OF tr(1) assms(2) proper] by fastforce
  have heap: "\<forall>(lo, up, d) \<in> set es. range_heap t d \<noteq> None"
    using assms(1) es(1) by (auto simp: ranges_inv_def range_ok_def)
  obtain c where c: "snd (visit (find_overlapping_range_lock t n) es (Some None)) = Some c"
      "case c of None \<Rightarrow> \<forall>(lo, up, d) \<in> set es. range_node_id (the (range_heap t d)) = n
       | Some d \<Rightarrow> (\<exists>lo up. (lo, up, d) \<in> set es) \<and> range_node_id (the (range_heap t d)) \<noteq> n"
    using visit_overlapping [OF heap] by blast
  have d: "\<exists>rl \<in> overlapping t n (Some f) to. range_heap t d = Some rl" if d: "c = Some d" for d
  proof -
    obtain lo up where "(lo, up, d) \<in> set es" "range_node_id (the (range_heap t d)) \<noteq> n" using c(2) d by auto
    then show ?thesis unfolding ov using heap by fastforce
  qed
  show ?thesis
  proof (rule that)
    show "c = None \<longleftrightarrow> overlapping t n (Some f) to = {}"
    proof
      assume "c = None"
      then show "overlapping t n (Some f) to = {}" unfolding ov using c(2) by auto
    next
      assume "overlapping t n (Some f) to = {}"
      then show "c = None" using d by (cases c) auto
    qed
  qed (use es(2) c(1) d in auto)
qed

text \<open>
  What the scan of the point locks reports: it starts at the lock on the lower bound, if that key
  is locked at all, and runs to the end of the key space.
\<close>

definition scan_blocks :: "gzochid_lock_table \<Rightarrow> guint \<Rightarrow> gbytes \<Rightarrow> gzochid_lock set" where
  "scan_blocks t n f =
     (if \<exists>l \<in> ran (lock_heap t). key_of l = bytes_data f
      then {l \<in> ran (lock_heap t). bytes_data f \<le> key_of l \<and> for_write l \<and> lock_node_id l \<noteq> n} else {})"

lemma find_write_lock_spec:
  assumes "\<forall>ls \<in> set seq. lock_list ls \<noteq> [] \<and> lock_heap t (hd (lock_list ls)) \<noteq> None"
  shows "\<exists>w. find_write_lock t n seq = Some w
    \<and> (case w of
         None \<Rightarrow> \<forall>ls \<in> set seq. \<not> (for_write (lock_at t (hd (lock_list ls))) \<and> lock_node_id (lock_at t (hd (lock_list ls))) \<noteq> n)
       | Some l \<Rightarrow> \<exists>ls \<in> set seq. lock_heap t (hd (lock_list ls)) = Some l \<and> for_write l \<and> lock_node_id l \<noteq> n)"
  using assms
proof (induction seq)
  case Nil
  then show ?case by simp
next
  case (Cons ls seq)
  then obtain a as l where a: "lock_list ls = a # as" "lock_heap t a = Some l"
    by (cases "lock_list ls") auto
  show ?case
  proof (cases "for_write l \<and> lock_node_id l \<noteq> n")
    case True
    then show ?thesis using a by auto
  next
    case False
    then have "find_write_lock t n (ls # seq) = find_write_lock t n seq" using a by auto
    with Cons False a show ?thesis by (auto split: option.splits)
  qed
qed

text \<open>The lists from the position of a key on are those of the keys from it on.\<close>

lemma lists_from:
  assumes "key_index (lock_heap t) (locks t)" and "i < length (locks t)"
    and "lock_heap t (hd (lock_list (locks t ! i))) = Some l" and "b \<in> dom (lock_heap t)"
  shows "key_of l \<le> key_of (lock_at t b) \<longleftrightarrow> (\<exists>ls \<in> set (drop i (locks t)). b \<in> set (lock_list ls))"
proof -
  let ?km = "key_map (lock_heap t)" and ?lls = "map lock_list (locks t)"
  have kl: "key_lists ?km ?lls" using assms(1) by (simp add: key_index_def)
  have "b \<in> dom ?km" using assms(4) by auto
  then obtain j where j: "j < length ?lls" "b \<in> set (?lls ! j)"
    using key_lists_cover [OF kl] by blast
  have all: "?km b = ?km (hd (?lls ! m))" if "m < length ?lls" "b \<in> set (?lls ! m)" for m
    using key_listsD [OF kl that(1)] that(2) by force
  have bj: "key_of (lock_at t b) = the (?km (hd (?lls ! j)))"
    using all [OF j] assms(4) by (metis domD option.map(2) option.sel)
  have li: "key_of l = the (?km (hd (?lls ! i)))"
    using assms(2,3) by simp
  have mono: "the (?km (hd (?lls ! m))) < the (?km (hd (?lls ! m')))" if "m < m'" "m' < length ?lls" for m m'
    using kl that unfolding key_lists_def sorted_wrt_iff_nth_less by blast
  have "key_of l \<le> key_of (lock_at t b) \<longleftrightarrow> i \<le> j"
  proof -
    consider "i < j" | "i = j" | "j < i" by linarith
    then show ?thesis
    proof cases
      case 1
      then show ?thesis unfolding bj li using mono [of i j] j(1) by simp
    next
      case 2
      then show ?thesis unfolding bj li by simp
    next
      case 3
      then show ?thesis unfolding bj li using mono [of j i] assms(2) by (simp add: not_le)
    qed
  qed
  also have "\<dots> \<longleftrightarrow> (\<exists>ls \<in> set (drop i (locks t)). b \<in> set (lock_list ls))"
  proof
    assume "i \<le> j"
    then have "drop i (locks t) ! (j - i) = locks t ! j" and "j - i < length (drop i (locks t))"
      using j(1) by simp_all
    then have "locks t ! j \<in> set (drop i (locks t))"
      by (metis nth_mem)
    then show "\<exists>ls \<in> set (drop i (locks t)). b \<in> set (lock_list ls)"
      using j by auto
  next
    assume ex: "\<exists>ls \<in> set (drop i (locks t)). b \<in> set (lock_list ls)"
    obtain m where m: "i + m < length (locks t)" "b \<in> set (lock_list (locks t ! (i + m)))"
    proof -
      obtain ls where "ls \<in> set (drop i (locks t))" "b \<in> set (lock_list ls)" using ex by blast
      moreover from this obtain m where "m < length (drop i (locks t))" "ls = drop i (locks t) ! m"
        by (metis in_set_conv_nth)
      ultimately show ?thesis using that [of m] assms(2) by simp
    qed
    then have "?km (hd (?lls ! (i + m))) = ?km (hd (?lls ! j))"
      using all [of "i + m"] all [OF j] by simp
    then have "j = i + m"
      using key_lists_inj [OF kl, of j "i + m"] j(1) m(1) by auto
    then show "i \<le> j" by simp
  qed
  finally show ?thesis .
qed

lemma scan_spec:
  assumes inv: "lock_inv t"
  obtains w where "Option.bind (find_point t f) (\<lambda>it. case it of None \<Rightarrow> Some None
      | Some i \<Rightarrow> find_write_lock t n (drop i (locks t))) = Some w"
    and "w = None \<longleftrightarrow> scan_blocks t n f = {}" and "\<And>l. w = Some l \<Longrightarrow> l \<in> scan_blocks t n f"
proof -
  have ki: "key_index (lock_heap t) (locks t)" and ex: "exclusive (lock_heap t)"
    using inv by (auto simp: lock_inv_def)
  from find_point_spec [OF ki, of f] show ?thesis
  proof (elim disjE exE conjE)
    assume "find_point t f = Some None" "\<forall>l \<in> ran (lock_heap t). key_of l \<noteq> bytes_data f"
    then show ?thesis by (intro that [of None]) (auto simp: scan_blocks_def)
  next
    fix i
    assume i: "i < length (locks t)" "find_point t f = Some (Some i)" "lock_list (locks t ! i) \<noteq> []"
      and keys: "set (lock_list (locks t ! i)) = {a. \<exists>l. lock_heap t a = Some l \<and> key_of l = bytes_data f}"
    have heads: "\<forall>ls \<in> set (locks t). lock_list ls \<noteq> [] \<and> lock_heap t (hd (lock_list ls)) \<noteq> None"
      using ki unfolding key_index_def key_lists_def by auto
    then have "\<forall>ls \<in> set (drop i (locks t)). lock_list ls \<noteq> [] \<and> lock_heap t (hd (lock_list ls)) \<noteq> None"
      by (blast dest: in_set_dropD)
    from find_write_lock_spec [OF this, of n] obtain w where w: "find_write_lock t n (drop i (locks t)) = Some w"
        "case w of
         None \<Rightarrow> \<forall>ls \<in> set (drop i (locks t)). \<not> (for_write (lock_at t (hd (lock_list ls))) \<and> lock_node_id (lock_at t (hd (lock_list ls))) \<noteq> n)
       | Some l \<Rightarrow> \<exists>ls \<in> set (drop i (locks t)). lock_heap t (hd (lock_list ls)) = Some l \<and> for_write l \<and> lock_node_id l \<noteq> n"
      by blast
    obtain lf where lf: "lock_heap t (hd (lock_list (locks t ! i))) = Some lf" "key_of lf = bytes_data f"
      using hd_in_set [OF i(3)] keys by auto
    have sb: "scan_blocks t n f = {l \<in> ran (lock_heap t). bytes_data f \<le> key_of l \<and> for_write l \<and> lock_node_id l \<noteq> n}"
      using lf by (auto simp: scan_blocks_def intro: ranI)
    have hit: "l \<in> scan_blocks t n f" if l: "w = Some l" for l
    proof -
      obtain ls where ls: "ls \<in> set (drop i (locks t))" "lock_heap t (hd (lock_list ls)) = Some l"
          "for_write l" "lock_node_id l \<noteq> n"
        using w(2) l by auto
      moreover have "lock_list ls \<noteq> []" using heads in_set_dropD [OF ls(1)] by blast
      ultimately have "bytes_data f \<le> key_of l"
        using lists_from [OF ki i(1) lf(1), of "hd (lock_list ls)"] lf(2) by (auto intro: hd_in_set)
      with ls show ?thesis unfolding sb by (auto intro: ranI)
    qed
    moreover have "scan_blocks t n f = {}" if none: "w = None"
    proof (rule ccontr)
      assume "scan_blocks t n f \<noteq> {}"
      then obtain b l where b: "lock_heap t b = Some l" "bytes_data f \<le> key_of l" "for_write l" "lock_node_id l \<noteq> n"
        unfolding sb by (auto simp: ran_def)
      then obtain ls where ls: "ls \<in> set (drop i (locks t))" "b \<in> set (lock_list ls)"
        using lists_from [OF ki i(1) lf(1), of b] lf(2) by auto
      have "hd (lock_list ls) = b"
      proof (rule ccontr)
        assume ne: "hd (lock_list ls) \<noteq> b"
        obtain j where j: "j < length (locks t)" "ls = locks t ! j"
          using in_set_dropD [OF ls(1)] by (metis in_set_conv_nth)
        then obtain x where x: "map lock_list (locks t) ! j \<noteq> []"
            "set (map lock_list (locks t) ! j) = {a. key_map (lock_heap t) a = Some x}"
          using key_listsD [of "key_map (lock_heap t)" "map lock_list (locks t)" j] ki
          unfolding key_index_def by (metis length_map)
        then have "hd (lock_list ls) \<in> {a. key_map (lock_heap t) a = Some x}" and "b \<in> {a. key_map (lock_heap t) a = Some x}"
          using ls(2) j hd_in_set [of "lock_list ls"] by auto
        then obtain lh where "lock_heap t (hd (lock_list ls)) = Some lh" "key_of lh = key_of l"
          using b(1) by auto
        then show False using exclusiveD [OF ex b(1)] b(3) ne by metis
      qed
      with w(2) none ls(1) b show False by auto
    qed
    ultimately show ?thesis
      using w(1) i(2) by (intro that [of w]) (auto, cases w, auto)
  qed
qed


text \<open>The range lock object is created, entered in the tree and in the indexes.\<close>

lemma overlap_cong:
  assumes "bound_null_first (Some f) l = 0" and "bound_null_last to u = 0"
  shows "overlap l u lo up \<longleftrightarrow> overlap (Some f) to lo up" and "overlap lo up l u \<longleftrightarrow> overlap lo up (Some f) to"
    and "bounds_le l u \<longleftrightarrow> bounds_le (Some f) to"
  using assms by (cases l; cases u; cases to; auto simp: overlap_def bounds_le_def split: option.split)+

lemma put_entry_cases:
  assumes "(l, u, x) \<in> put_entry bound_null_first bound_null_last lo up d es"
  shows "(l, u, x) \<in> es \<or> bound_null_first lo l = 0 \<and> bound_null_last up u = 0 \<and> x = d"
  using assms first_cmp.cmp_refl last_cmp.cmp_refl by (auto simp: put_entry_def split: if_splits)

text \<open>Whatever tree the insertion returns, the other indexes agree.\<close>

lemma create_range_lock_inv:
  assumes inv: "lock_inv t" and res: "create_range_lock t n fr to now = Some (t', ans)"
  shows "lock_inv t'"
proof -
  let ?a = "next_lock t" and ?l = "range_lock_new fr to n now"
  let ?h = "(range_heap t)(?a \<mapsto> ?l)"
  have free: "range_heap t ?a = None" using inv by (auto simp: lock_inv_def domI)
  obtain nl where nl: "ensure_node_registration t n =
      (t\<lparr>nodes_to_locks := (nodes_to_locks t)(n \<mapsto> nl)\<rparr>, nl)"
      "point_locks nl = points_of t n" "node_range_locks nl = ranges_of t n"
    by (rule ensure_node_registration_spec)
  define t1 where "t1 = t\<lparr>nodes_to_locks := (nodes_to_locks t)(n \<mapsto> nl), range_heap := ?h, next_lock := Suc ?a\<rparr>"
  obtain by_ts where by_ts: "sequence_insert_sorted (compare_range_timestamp_data t1) ?a (range_locks_by_timestamp t) = Some by_ts"
      "time_index ?h range_timestamp by_ts"
    using time_index_add [of "range_heap t" range_timestamp "range_locks_by_timestamp t" ?a ?l] free inv
    by (auto simp: lock_inv_def compare_range_timestamp_data_eq t1_def)
  obtain tree where t': "t' = t1\<lparr>range_locks := tree, range_locks_by_timestamp := by_ts,
      nodes_to_locks := (nodes_to_locks t1)(n \<mapsto> nl\<lparr>node_range_locks := ?a # node_range_locks nl\<rparr>)\<rparr>"
    using res by_ts(1) nl(1) by (auto simp: create_range_lock_def t1_def Let_def bind_eq_Some_conv)
  have nodes: "nodes_to_locks t' = (nodes_to_locks t)(n \<mapsto> nl\<lparr>node_range_locks := ?a # node_range_locks nl\<rparr>)"
    by (simp add: t' t1_def)
  have "node_index ?h range_node_id (ranges_of t')"
    using node_index_add [of "range_heap t" range_node_id "ranges_of t" ?a ?l] free inv nl
    by (simp add: lock_inv_def lists_of_upd(2) [OF nodes] range_lock_new_def)
  moreover have "points_of t' = points_of t"
    using nl by (simp add: lists_of_upd(1) [OF nodes])
  moreover have "\<forall>m ml. nodes_to_locks t' m = Some ml \<longrightarrow> point_locks ml \<noteq> [] \<or> node_range_locks ml \<noteq> []"
    by (rule node_entries_upd [OF _ nodes]) (use inv in \<open>auto simp: lock_inv_def\<close>)
  ultimately show ?thesis
    using inv by_ts(2) unfolding lock_inv_def by (auto simp: t' t1_def less_Suc_eq)
qed

lemma create_range_lock_spec:
  assumes inv: "lock_inv t" and rinv: "ranges_inv t" and pr: "bounds_le (Some f) to"
    and clear: "overlapping t n (Some f) to = {}"
  shows "\<exists>t'. create_range_lock t n (Some f) to now = Some (t', Lock_Granted) \<and> lock_inv t' \<and> ranges_inv t'
    \<and> lock_heap t' = lock_heap t
    \<and> range_heap t' = (range_heap t)(next_lock t \<mapsto> range_lock_new (Some f) to n now)
    \<and> itree_entries (range_locks t') =
        put_entry bound_null_first bound_null_last (Some f) to (next_lock t) (itree_entries (range_locks t))"
proof -
  let ?a = "next_lock t" and ?l = "range_lock_new (Some f) to n now"
  let ?h = "(range_heap t)(?a \<mapsto> ?l)"
  have free: "range_heap t ?a = None" using inv by (auto simp: lock_inv_def domI)
  obtain nl where nl: "ensure_node_registration t n =
      (t\<lparr>nodes_to_locks := (nodes_to_locks t)(n \<mapsto> nl)\<rparr>, nl)"
      "point_locks nl = points_of t n" "node_range_locks nl = ranges_of t n"
    by (rule ensure_node_registration_spec)
  define t1 where "t1 = t\<lparr>nodes_to_locks := (nodes_to_locks t)(n \<mapsto> nl), range_heap := ?h, next_lock := Suc ?a\<rparr>"
  obtain tr where tr: "range_tree.owns (range_locks t)" "itree_inv (range_locks t) tr" "balance_ok (range_locks t)"
    using rinv by (auto simp: ranges_inv_def range_ok_def)
  obtain tree tr' where tree: "gzochid_itree_insert (range_locks t) (Some f) to ?a = Some tree"
      "range_tree.owns tree" "itree_inv tree tr'" "balance_ok tree"
      "itree_entries tree = put_entry bound_null_first bound_null_last (Some f) to ?a (itree_entries (range_locks t))"
    using range_tree.insert_spec [OF tr] by blast
  obtain by_ts where by_ts: "sequence_insert_sorted (compare_range_timestamp_data t1) ?a (range_locks_by_timestamp t) = Some by_ts"
      "time_index ?h range_timestamp by_ts"
    using time_index_add [of "range_heap t" range_timestamp "range_locks_by_timestamp t" ?a ?l] free inv
    by (auto simp: lock_inv_def compare_range_timestamp_data_eq t1_def)
  define t' where "t' = t1\<lparr>range_locks := tree, range_locks_by_timestamp := by_ts,
    nodes_to_locks := (nodes_to_locks t1)(n \<mapsto> nl\<lparr>node_range_locks := ?a # node_range_locks nl\<rparr>)\<rparr>"
  have res: "create_range_lock t n (Some f) to now = Some (t', Lock_Granted)"
    using tree(1) by_ts(1) nl(1) by (simp add: create_range_lock_def t'_def t1_def Let_def)
  have "lock_inv t'" by (rule create_range_lock_inv [OF inv res])
  moreover have "ranges_inv t'"
  proof -
    let ?E = "itree_entries (range_locks t)" and ?N = "\<lambda>d. range_node_id (the (range_heap t' d))"
    have E': "itree_entries (range_locks t') = put_entry bound_null_first bound_null_last (Some f) to ?a ?E"
      using tree(5) by (simp add: t'_def)
    have h': "range_heap t' = ?h" by (simp add: t'_def t1_def)
    have live: "\<exists>rl. range_heap t d = Some rl" and d: "d \<noteq> ?a" if "(lo, up, d) \<in> ?E" for lo up d
      using rinv that free by (auto simp: ranges_inv_def range_ok_def)
    have Na: "?N ?a = n" by (simp add: h' range_lock_new_def)
    have Nd: "?N d = range_node_id (the (range_heap t d))" if "(lo, up, d) \<in> ?E" for lo up d
      using d [OF that] by (simp add: h')
    have new: "?N d = n" if e: "(lo, up, d) \<in> ?E" "overlap (Some f) to lo up" for lo up d
    proof -
      obtain rl where "range_heap t d = Some rl" using live [OF e(1)] by blast
      moreover from this have "range_node_id rl = n"
        using clear e unfolding overlapping_def by blast
      ultimately show ?thesis using Nd [OF e(1)] by simp
    qed
    have sym: "overlap a b c e \<longleftrightarrow> overlap c e a b" for a b c e
      by (auto simp: overlap_def)
    have excl: "?N d = ?N d'" if e: "(lo, up, d) \<in> itree_entries (range_locks t')"
      "(lo', up', d') \<in> itree_entries (range_locks t')" "overlap lo up lo' up'" for lo up d lo' up' d'
    proof -
      consider "(lo, up, d) \<in> ?E" "(lo', up', d') \<in> ?E"
        | "(lo, up, d) \<in> ?E" "overlap (Some f) to lo up" "d' = ?a"
        | "d = ?a" "(lo', up', d') \<in> ?E" "overlap (Some f) to lo' up'"
        | "d = ?a" "d' = ?a"
        using put_entry_cases [OF e(1) [unfolded E']] put_entry_cases [OF e(2) [unfolded E']] e(3)
          overlap_cong(1) [of f lo to up lo' up'] overlap_cong(2) [of f lo' to up' lo up] sym by blast
      then show ?thesis
      proof cases
        case 1
        then show ?thesis using rinv e(3) Nd by (auto simp: ranges_inv_def)
      qed (use new Na in auto)
    qed
    have "bounds_le lo up" if "(lo, up, d) \<in> itree_entries (range_locks t')" for lo up d
      using put_entry_cases [OF that [unfolded E']] rinv pr overlap_cong(3) [of f lo to up]
      by (auto simp: ranges_inv_def)
    moreover have "range_heap t' d \<noteq> None" if "(lo, up, d) \<in> itree_entries (range_locks t')" for lo up d
      using put_entry_cases [OF that [unfolded E']] live by (auto simp: h')
    ultimately show ?thesis
      unfolding ranges_inv_def range_ok_def using tree(2-4) excl by (auto simp: t'_def)
  qed
  ultimately show ?thesis
    using res tree(5) by (intro exI [of _ t']) (simp add: t'_def t1_def)
qed

lemma range_check_and_set_outcome:
  assumes inv: "lock_inv t" and rinv: "ranges_inv t" and pr: "bounds_le (Some f) to"
  shows "\<exists>t' ans. gzochid_lock_range_check_and_set null_pick t n (Some f) to now = Some (t', ans)
    \<and> lock_inv t' \<and> ranges_inv t' \<and> lock_heap t' = lock_heap t
    \<and> (if overlapping t n (Some f) to \<noteq> {} then
         t' = t \<and> (\<exists>rl \<in> overlapping t n (Some f) to. ans = Lock_Failure (range_timestamp rl))
       else if scan_blocks t n f \<noteq> {} then
         t' = t \<and> (\<exists>l \<in> scan_blocks t n f. ans = Lock_Failure (lock_timestamp l))
       else ans = Lock_Granted
         \<and> range_heap t' = (range_heap t)(next_lock t \<mapsto> range_lock_new (Some f) to n now)
         \<and> itree_entries (range_locks t') = put_entry bound_null_first bound_null_last
             (Some f) to (next_lock t) (itree_entries (range_locks t)))"
proof -
  obtain c where c: "gzochid_itree_search_interval (range_locks t) (Some f) to
      (find_overlapping_range_lock t n) (Some None) = Some (Some c)"
      "c = None \<longleftrightarrow> overlapping t n (Some f) to = {}"
      "\<And>d. c = Some d \<Longrightarrow> \<exists>rl \<in> overlapping t n (Some f) to. range_heap t d = Some rl"
    using range_search [OF rinv pr, of n] by blast
  show ?thesis
  proof (cases c)
    case (Some d)
    then obtain rl where "rl \<in> overlapping t n (Some f) to" "range_heap t d = Some rl" using c(3) by blast
    with c(1) Some inv rinv show ?thesis
      by (auto simp: gzochid_lock_range_check_and_set_def lock_failure_def)
  next
    case None
    obtain w where w: "Option.bind (find_point t f) (\<lambda>it. case it of None \<Rightarrow> Some None
        | Some i \<Rightarrow> find_write_lock t n (drop i (locks t))) = Some w"
        "w = None \<longleftrightarrow> scan_blocks t n f = {}" "\<And>l. w = Some l \<Longrightarrow> l \<in> scan_blocks t n f"
      using scan_spec [OF inv, of f n] by blast
    have "find_locks_by_key null_pick t (Some f) = find_point t f"
      by (simp add: find_locks_by_key_def)
    then have eq: "gzochid_lock_range_check_and_set null_pick t n (Some f) to now =
        (case w of Some l \<Rightarrow> Some (t, lock_failure (lock_timestamp l))
         | None \<Rightarrow> create_range_lock t n (Some f) to now)"
      using c(1) None w(1)
      by (cases "find_point t f") (auto simp: gzochid_lock_range_check_and_set_def)
    show ?thesis
    proof (cases w)
      case (Some l)
      with w(2,3) None c(2) inv rinv eq show ?thesis
        by (auto simp: lock_failure_def)
    next
      case N: None
      with w(2) None c(2) eq create_range_lock_spec [OF inv rinv pr, of n now] show ?thesis
        by auto
    qed
  qed
qed

end
