(* ===== verification/Lock_Table.thy ===== *)
theory Lock_Table
  imports Lock_Ranges
begin

text \<open>
  Sequences of requests to a lock table, the invariants of the tables they lead to, and the
  properties of the lock table, with the cases where it does not do what its interface says.
\<close>

section \<open>Sequences of requests\<close>

text \<open>The requests the data server makes of a lock table.\<close>

datatype lock_op =
    Acquire guint gbytes bool timeval
  | Acquire_Range guint "gbytes option" "gbytes option" timeval
  | Release guint gbytes
  | Release_Range guint "gbytes option" "gbytes option"
  | Release_All guint

fun lock_step :: "(nat \<Rightarrow> nat) \<Rightarrow> lock_op \<Rightarrow> gzochid_lock_table \<Rightarrow> gzochid_lock_table option" where
  "lock_step np (Acquire n k fw now) t = map_option fst (gzochid_lock_check_and_set t n k fw now)"
| "lock_step np (Acquire_Range n fr to now) t =
     map_option fst (gzochid_lock_range_check_and_set np t n fr to now)"
| "lock_step np (Release n k) t = gzochid_lock_release t n k"
| "lock_step np (Release_Range n fr to) t = gzochid_lock_release_range t n fr to"
| "lock_step np (Release_All n) t = gzochid_lock_release_all t n"

text \<open>The tables that a sequence of requests leads to, as long as each of them returns.\<close>

inductive lock_reachable :: "(nat \<Rightarrow> nat) \<Rightarrow> gzochid_lock_table \<Rightarrow> bool" for np where
  lock_start: "lock_reachable np gzochid_lock_table_new"
| lock_next: "lock_reachable np t \<Longrightarrow> lock_step np op t = Some t' \<Longrightarrow> lock_reachable np t'"

fun lock_run :: "(nat \<Rightarrow> nat) \<Rightarrow> lock_op list \<Rightarrow> gzochid_lock_table \<Rightarrow> gzochid_lock_table option" where
  "lock_run np [] t = Some t"
| "lock_run np (op # ops) t = Option.bind (lock_step np op t) (lock_run np ops)"

lemma lock_run_reachable: "lock_reachable np t \<Longrightarrow> lock_run np ops t = Some t' \<Longrightarrow> lock_reachable np t'"
  by (induction ops arbitrary: t) (auto simp: bind_eq_Some_conv intro: lock_next)

lemma lock_table_new_inv: "lock_inv gzochid_lock_table_new" and lock_table_new_ranges: "ranges_inv gzochid_lock_table_new"
proof -
  show "lock_inv gzochid_lock_table_new"
    by (simp add: lock_inv_def gzochid_lock_table_new_def key_index_def key_lists_def time_index_def
      node_index_def points_of_def ranges_of_def exclusive_def dom_def)
  have "itree_inv (gzochid_itree_new bound_null_first bound_null_last) Leaf"
    by (simp add: itree_inv_def gzochid_itree_new_def)
  then show "ranges_inv gzochid_lock_table_new"
    by (auto simp: ranges_inv_def range_ok_def gzochid_lock_table_new_def range_tree.owns_def
      gzochid_itree_new_def balance_ok_def itree_entries_def intro: exI [of _ Leaf])
qed

text \<open>The point locks stay consistent whatever the interval tree answers.\<close>

lemma check_and_set_inv:
  assumes inv: "lock_inv t" and res: "gzochid_lock_check_and_set t n k fw now = Some (t', ans)"
  shows "lock_inv t'"
  using inv
proof (cases rule: point_lookup [where k = k and n = n])
  case Absent
  obtain t1 where "create_lock t n k fw now = Some (t1, Lock_Granted)" "lock_inv t1"
    by (rule create_lock_spec [OF inv Absent(2)])
  with Absent(1) res inv show ?thesis
    by (auto simp: gzochid_lock_check_and_set_def bind_eq_Some_conv split: if_splits option.splits)
next
  case (Mine i a l)
  have "lock_inv t'" if up: "upgrade_lock t i (locks t ! i) a now = Some (t', ans)"
    "\<not> 1 < length (lock_list (locks t ! i))"
  proof -
    have "a \<in> set (lock_list (locks t ! i))" using Mine(5,7,9) by auto
    then have "set (lock_list (locks t ! i)) = {a}"
      using up(2) by (cases "lock_list (locks t ! i)") auto
    then have "b = a" if "lock_heap t b = Some lb" "key_of lb = key_of l" for b lb
      using that Mine(5,9) by auto
    then obtain t1 where "upgrade_lock t i (locks t ! i) a now = Some (t1, Lock_Granted)" "lock_inv t1"
      using upgrade_lock_spec [OF inv Mine(2,7)] by metis
    with up show ?thesis by simp
  qed
  with Mine res inv show ?thesis
    by (auto simp: gzochid_lock_check_and_set_def g_sequence_get_def bind_eq_Some_conv
      split: if_splits option.splits)
next
  case (Others i)
  have "lock_inv t'" if sh: "share_lock t i (locks t ! i) n k False now = Some (t', ans)"
    "lock_heap t (hd (lock_list (locks t ! i))) = Some l" "\<not> for_write l" for l
  proof -
    have "key_of l = bytes_data k"
      using hd_in_set [OF Others(3)] Others(5) sh(2) by auto
    then have "\<not> for_write lb" if "lock_heap t b = Some lb" "key_of lb = bytes_data k" for b lb
      using exclusiveD [of "lock_heap t" b lb "hd (lock_list (locks t ! i))" l] that sh inv
      by (cases "b = hd (lock_list (locks t ! i))") (auto simp: lock_inv_def)
    then have "\<forall>l \<in> ran (lock_heap t). key_of l = bytes_data k \<longrightarrow> lock_node_id l \<noteq> n \<and> \<not> for_write l"
      using Others(7) by (auto simp: ran_def)
    then obtain t1 where "share_lock t i (locks t ! i) n k False now = Some (t1, Lock_Granted)" "lock_inv t1"
      using share_lock_spec [OF inv Others(2,5,3)] by metis
    with sh show ?thesis by simp
  qed
  with Others res inv show ?thesis
    by (auto simp: gzochid_lock_check_and_set_def g_sequence_get_def bind_eq_Some_conv
      split: if_splits option.splits)
qed

lemma lock_step_inv:
  assumes inv: "lock_inv t" and "lock_step np op t = Some t'"
  shows "lock_inv t'"
proof (cases op)
  case (Acquire n k fw now)
  then show ?thesis using assms check_and_set_inv by fastforce
next
  case (Acquire_Range n fr to now)
  then show ?thesis using assms create_range_lock_inv [OF inv, of n fr to now]
    by (auto simp: gzochid_lock_range_check_and_set_def bind_eq_Some_conv split: option.splits)
next
  case (Release n k)
  then show ?thesis using assms release_spec [OF inv, of n k] by auto
next
  case (Release_Range n fr to)
  then show ?thesis using assms remove_range_lock_spec [OF inv]
    by (auto simp: gzochid_lock_release_range_def bind_eq_Some_conv split: option.splits)
next
  case (Release_All n)
  then show ?thesis using assms release_all_spec(2) [OF inv, of n] by auto
qed

lemma lock_reachable_inv: "lock_reachable np t \<Longrightarrow> lock_inv t"
  by (induction rule: lock_reachable.induct) (auto intro: lock_table_new_inv lock_step_inv)

section \<open>Properties\<close>

text \<open>Sample keys and times for the concrete cases below.\<close>

definition key_a :: gbytes where "key_a = \<lparr>bytes_addr = 0, bytes_data = [97]\<rparr>"

definition key_b :: gbytes where "key_b = \<lparr>bytes_addr = 1, bytes_data = [98]\<rparr>"

definition key_c :: gbytes where "key_c = \<lparr>bytes_addr = 2, bytes_data = [99]\<rparr>"

definition key_d :: gbytes where "key_d = \<lparr>bytes_addr = 3, bytes_data = [100]\<rparr>"

abbreviation sec :: "nat \<Rightarrow> timeval" where "sec n \<equiv> \<lparr>tv_sec = int n, tv_usec = 0\<rparr>"

definition one_writer :: gzochid_lock_table where
  "one_writer = the (lock_run (\<lambda>_. 0) [Acquire 1 key_b True (sec 1)] gzochid_lock_table_new)"

lemma one_writer_run: "lock_run (\<lambda>_. 0) [Acquire 1 key_b True (sec 1)] gzochid_lock_table_new = Some one_writer"
proof -
  have "\<not> Option.is_none (lock_run (\<lambda>_. 0) [Acquire 1 key_b True (sec 1)] gzochid_lock_table_new)"
    by code_simp
  then show ?thesis by (auto simp: one_writer_def Option.is_none_def)
qed

lemma one_writer_reachable: "lock_reachable (\<lambda>_. 0) one_writer"
  by (rule lock_run_reachable [OF lock_start one_writer_run])

lemma one_writer_held: "(1, [98], True) \<in> held one_writer"
proof -
  have "lock_heap one_writer 0 = Some (lock_new key_b 1 True (sec 1))"
    unfolding one_writer_def by code_simp
  then show ?thesis
    unfolding held_iff by (intro exI conjI, assumption) (simp_all add: lock_new_def key_b_def)
qed

text \<open>
  (C3) Consistency of the lock table. After any sequence of requests that return, whatever nodes,
  keys, bounds and times they carry, the indexes of the table agree: the lists by key are sorted
  and complete, the sequences by timestamp hold every live lock once and in order, each node's
  lists hold exactly its live locks, no node entry is empty, and two locks on one key belong to
  different nodes and are both for reading. The interval tree of the range locks is not part of
  this: rotations can corrupt it, as is shown at the end.
\<close>

theorem lock_table_consistent: "lock_reachable np t \<Longrightarrow> lock_inv t"
  by (rule lock_reachable_inv)

theorem lock_table_consistent_witness: "lock_inv one_writer"
  by (rule lock_table_consistent [OF one_writer_reachable])

text \<open>
  (C7) Mutual exclusion. In every table that requests can lead to, a node that holds a key for
  writing is the only node that holds the key.
\<close>

theorem write_lock_exclusive:
  assumes "lock_reachable np t" and "(n, k, True) \<in> held t" and "(m, k, w) \<in> held t"
  shows "m = n"
proof -
  have "exclusive (lock_heap t)"
    using lock_reachable_inv [OF assms(1)] by (simp add: lock_inv_def)
  with assms(2,3) show ?thesis
    unfolding held_iff by (metis exclusiveD option.inject)
qed

theorem write_lock_exclusive_witness:
  "lock_reachable (\<lambda>_. 0) one_writer \<and> (1, [98], True) \<in> held one_writer \<and> (2, [98], False) \<notin> held one_writer"
  using write_lock_exclusive [OF one_writer_reachable one_writer_held, of 2 False]
    one_writer_reachable one_writer_held by auto

text \<open>
  (C19) Point lock requests. On a consistent table whose interval tree is in order, a request always
  returns. It is refused exactly when another node holds the key and one of the two wants to write,
  or the request is for writing, the node does not hold the key for writing yet and another node
  has a range lock that covers it. A refusal changes nothing and reports the timestamp of a
  conflicting point lock, or of the most recent covering range lock. A grant adds just the
  requested access, upgrading the node's own read lock.
\<close>

theorem lock_request_correct:
  assumes "lock_inv t" and "range_ok t"
  shows "\<exists>t' ans. gzochid_lock_check_and_set t n k fw now = Some (t', ans) \<and> lock_inv t'
    \<and> (if refused t n k fw then t' = t \<and> (\<exists>ts. ans = Lock_Failure ts \<and> conflict_stamp t n k ts)
       else ans = Lock_Granted \<and> held t' = grant n (bytes_data k) fw (held t))"
  using check_and_set_outcome [OF assms, of n k fw now] unfolding request_outcome_def by blast

lemma ranges_new_ok: "range_ok gzochid_lock_table_new"
  using lock_table_new_ranges by (simp add: ranges_inv_def)

lemma one_writer_ok: "lock_inv one_writer" "range_ok one_writer"
proof -
  obtain t' ans where t': "gzochid_lock_check_and_set gzochid_lock_table_new 1 key_b True (sec 1) = Some (t', ans)"
      "request_outcome gzochid_lock_table_new 1 key_b True t' ans"
    using check_and_set_outcome [OF lock_table_new_inv ranges_new_ok] by blast
  moreover have "one_writer = t'" using one_writer_run t'(1) by simp
  ultimately show "lock_inv one_writer" and "range_ok one_writer"
    using ranges_new_ok by (auto simp: request_outcome_def range_ok_def)
qed

theorem lock_request_correct_witness:
  "gzochid_lock_check_and_set one_writer 2 key_b False (sec 2) = Some (one_writer, Lock_Failure (sec 1))"
proof -
  have "refused one_writer 2 key_b False"
    unfolding refused_def point_conflict_def
    by (intro disjI1 exI [of _ 1] exI [of _ True]) (simp add: one_writer_held key_b_def)
  then obtain ts where "gzochid_lock_check_and_set one_writer 2 key_b False (sec 2) = Some (one_writer, Lock_Failure ts)"
    using lock_request_correct [OF one_writer_ok, of 2 key_b False "sec 2"] by auto
  moreover have "map_option snd (gzochid_lock_check_and_set one_writer 2 key_b False (sec 2)) = Some (Lock_Failure (sec 1))"
    unfolding one_writer_def by code_simp
  ultimately show ?thesis by simp
qed

text \<open>
  Checking a lock changes nothing and reports whether the node already has at least the access
  it asks about.
\<close>

theorem lock_check_correct:
  assumes "lock_reachable np t"
  shows "gzochid_lock_check t n k fw = Some (\<exists>w. (n, bytes_data k, w) \<in> held t \<and> (w \<or> \<not> fw))"
  by (rule lock_check_spec [OF lock_reachable_inv [OF assms]])

theorem lock_check_correct_witness: "gzochid_lock_check one_writer 1 key_b False = Some True"
  unfolding lock_check_correct [OF one_writer_reachable]
  using one_writer_held by (auto simp: key_b_def)

text \<open>
  Releasing a key always returns, takes away just the node's access to that key, of either
  kind, and leaves the range locks alone.
\<close>

theorem lock_release_correct:
  assumes "lock_reachable np t"
  shows "\<exists>t'. gzochid_lock_release t n k = Some t'
    \<and> held t' = held t - {(n, bytes_data k, True), (n, bytes_data k, False)}
    \<and> range_heap t' = range_heap t \<and> range_locks t' = range_locks t"
  using release_spec [OF lock_reachable_inv [OF assms], of n k] by blast

theorem lock_release_correct_witness:
  "\<exists>t'. gzochid_lock_release one_writer 1 key_b = Some t' \<and> (1, [98], True) \<notin> held t'"
  using lock_release_correct [OF one_writer_reachable, of 1 key_b] by (auto simp: key_b_def)

text \<open>
  Releasing all locks of a node. When the call returns, and it does for a node without range
  locks, the node has no locks and no entry left, and the locks of the other nodes are untouched.
\<close>

theorem lock_release_all_correct:
  assumes "lock_reachable np t"
  shows "(ranges_of t n = [] \<longrightarrow> (\<exists>t'. gzochid_lock_release_all t n = Some t'))
    \<and> (\<forall>t'. gzochid_lock_release_all t n = Some t' \<longrightarrow>
         held t' = {(m, k, w) \<in> held t. m \<noteq> n} \<and> nodes_to_locks t' n = None
         \<and> range_heap t' = (\<lambda>b. if b \<in> set (ranges_of t n) then None else range_heap t b))"
  using release_all_spec [OF lock_reachable_inv [OF assms], of n] by blast

theorem lock_release_all_correct_witness:
  "\<exists>t'. gzochid_lock_release_all one_writer 1 = Some t' \<and> nodes_to_locks t' 1 = None \<and> (1, [98], True) \<notin> held t'"
proof -
  have "ranges_of one_writer 1 = []"
    unfolding one_writer_def by code_simp
  then show ?thesis
    using lock_release_all_correct [OF one_writer_reachable, of 1] by blast
qed


text \<open>
  (C32) Range lock requests with a lower bound. On a consistent table whose tree is in order and
  holds no overlapping ranges of different nodes, a request for a proper range always returns and
  keeps both invariants. It is refused, with the timestamp of
  the conflict and without a change, when another node has an overlapping range lock, or when the
  lower bound is itself a locked key and another node holds a write lock on a key from there to the
  end of the key space (these are the conflicts the code looks for; the interface documents a
  conflict with write locks inside the range instead). Otherwise the range lock is created and
  entered in the tree.
\<close>

theorem range_request_correct:
  assumes "lock_inv t" and "ranges_inv t" and "bounds_le (Some f) to"
  shows "\<exists>t' ans. gzochid_lock_range_check_and_set null_pick t n (Some f) to now = Some (t', ans)
    \<and> lock_inv t' \<and> ranges_inv t' \<and> held t' = held t
    \<and> (if overlapping t n (Some f) to \<noteq> {} then
         t' = t \<and> (\<exists>rl \<in> overlapping t n (Some f) to. ans = Lock_Failure (range_timestamp rl))
       else if scan_blocks t n f \<noteq> {} then
         t' = t \<and> (\<exists>l \<in> scan_blocks t n f. ans = Lock_Failure (lock_timestamp l))
       else ans = Lock_Granted
         \<and> itree_entries (range_locks t') = put_entry bound_null_first bound_null_last
             (Some f) to (next_lock t) (itree_entries (range_locks t)))"
proof -
  obtain t' ans where r: "gzochid_lock_range_check_and_set null_pick t n (Some f) to now = Some (t', ans)"
      "lock_inv t'" "ranges_inv t'" "lock_heap t' = lock_heap t"
      "if overlapping t n (Some f) to \<noteq> {} then
         t' = t \<and> (\<exists>rl \<in> overlapping t n (Some f) to. ans = Lock_Failure (range_timestamp rl))
       else if scan_blocks t n f \<noteq> {} then
         t' = t \<and> (\<exists>l \<in> scan_blocks t n f. ans = Lock_Failure (lock_timestamp l))
       else ans = Lock_Granted
         \<and> range_heap t' = (range_heap t)(next_lock t \<mapsto> range_lock_new (Some f) to n now)
         \<and> itree_entries (range_locks t') = put_entry bound_null_first bound_null_last
             (Some f) to (next_lock t) (itree_entries (range_locks t))"
    using range_check_and_set_outcome [OF assms, of null_pick n now] by blast
  have "held t' = held t" by (rule held_cong [OF r(4)])
  with r show ?thesis
    by (intro exI [of _ t'] exI [of _ ans] conjI; (assumption | (simp only: split: if_splits; blast)))
qed

theorem range_request_correct_witness:
  "\<exists>t'. gzochid_lock_range_check_and_set (\<lambda>_. 0) gzochid_lock_table_new 1 (Some key_a) (Some key_c) (sec 1)
     = Some (t', Lock_Granted) \<and> itree_entries (range_locks t') = {(Some key_a, Some key_c, 0)}"
proof -
  have "bounds_le (Some key_a) (Some key_c)"
    by (simp add: bounds_le_def key_a_def key_c_def)
  moreover have "overlapping gzochid_lock_table_new 1 (Some key_a) (Some key_c) = {}"
    and "scan_blocks gzochid_lock_table_new 1 key_a = {}"
    and "itree_entries (range_locks gzochid_lock_table_new) = {}"
    and "next_lock gzochid_lock_table_new = 0"
    by (simp_all add: overlapping_def scan_blocks_def gzochid_lock_table_new_def gzochid_itree_new_def
      itree_entries_def)
  ultimately show ?thesis
    using range_request_correct [OF lock_table_new_inv lock_table_new_ranges,
        of key_a "Some key_c" "\<lambda>_. 0" 1 "sec 1"]
    by (auto simp: put_entry_def)
qed

text \<open>The requests that keep the interval tree in order: a lower bound is given, nothing is removed.\<close>

fun range_sound :: "lock_op \<Rightarrow> bool" where
  "range_sound (Acquire n k fw now) \<longleftrightarrow> True"
| "range_sound (Acquire_Range n fr to now) \<longleftrightarrow> fr \<noteq> None \<and> bounds_le fr to"
| "range_sound (Release n k) \<longleftrightarrow> True"
| "range_sound (Release_Range n fr to) \<longleftrightarrow> False"
| "range_sound (Release_All n) \<longleftrightarrow> False"

lemma ranges_inv_cong:
  "range_heap t' = range_heap t \<Longrightarrow> range_locks t' = range_locks t \<Longrightarrow> ranges_inv t' = ranges_inv t"
  by (simp add: ranges_inv_def range_ok_def)

lemma sound_step:
  assumes "lock_inv t" and "ranges_inv t" and "range_sound op"
  shows "\<exists>t'. lock_step np op t = Some t' \<and> lock_inv t' \<and> ranges_inv t'"
proof (cases op)
  case (Acquire n k fw now)
  have "range_ok t" using assms(2) by (simp add: ranges_inv_def)
  then obtain t' ans where "gzochid_lock_check_and_set t n k fw now = Some (t', ans)" "lock_inv t'"
      "range_heap t' = range_heap t" "range_locks t' = range_locks t"
    using check_and_set_outcome [OF assms(1)] unfolding request_outcome_def by blast
  with Acquire assms(2) ranges_inv_cong [of t' t] show ?thesis by simp
next
  case (Acquire_Range n fr to now)
  then obtain f where "fr = Some f" "bounds_le (Some f) to" using assms(3) by auto
  moreover from this obtain t' ans where "gzochid_lock_range_check_and_set np t n (Some f) to now = Some (t', ans)"
      "lock_inv t'" "ranges_inv t'"
    using range_check_and_set_outcome [OF assms(1,2)] by blast
  ultimately show ?thesis using Acquire_Range by simp
next
  case (Release n k)
  obtain t' where "gzochid_lock_release t n k = Some t'" "lock_inv t'"
      "range_heap t' = range_heap t" "range_locks t' = range_locks t"
    using release_spec [OF assms(1)] by blast
  with Release assms(2) ranges_inv_cong [of t' t] show ?thesis by simp
qed (use assms(3) in auto)

lemma sound_run:
  assumes "lock_inv t" and "ranges_inv t" and "\<forall>op \<in> set ops. range_sound op"
  shows "\<exists>t'. lock_run np ops t = Some t' \<and> lock_inv t' \<and> ranges_inv t'"
  using assms
proof (induction ops arbitrary: t)
  case Nil
  then show ?case by simp
next
  case (Cons op ops)
  then obtain t1 where "lock_step np op t = Some t1" "lock_inv t1" "ranges_inv t1"
    using sound_step [of t op np] by auto
  with Cons show ?case by auto
qed

text \<open>
  (C33) Range locks exclude each other, as long as none is released. Every sequence of point
  requests, releases of points and requests for proper ranges with a lower bound returns, and in the
  table it leads to two range locks whose intervals overlap belong to the same node.
\<close>

theorem range_locks_disjoint:
  assumes "\<forall>op \<in> set ops. range_sound op"
  shows "\<exists>t. lock_run np ops gzochid_lock_table_new = Some t
    \<and> (\<forall>(lo, up, d) \<in> itree_entries (range_locks t). \<forall>(lo', up', d') \<in> itree_entries (range_locks t).
         overlap lo up lo' up' \<longrightarrow>
         range_node_id (the (range_heap t d)) = range_node_id (the (range_heap t d')))"
  using sound_run [OF lock_table_new_inv lock_table_new_ranges assms, of np]
  unfolding ranges_inv_def by blast

theorem range_locks_disjoint_witness:
  "\<exists>t. lock_run (\<lambda>_. 0) [Acquire_Range 1 (Some key_a) (Some key_c) (sec 1),
      Acquire_Range 2 (Some key_b) (Some key_d) (sec 2), Acquire_Range 2 (Some key_d) None (sec 3)]
      gzochid_lock_table_new = Some t
    \<and> (\<forall>(lo, up, d) \<in> itree_entries (range_locks t). \<forall>(lo', up', d') \<in> itree_entries (range_locks t).
         overlap lo up lo' up' \<longrightarrow>
         range_node_id (the (range_heap t d)) = range_node_id (the (range_heap t d')))"
  by (rule range_locks_disjoint) (simp add: bounds_le_def key_a_def key_b_def key_c_def key_d_def)

text \<open>
  A range lock is granted over another node's write lock. The scan starts at the lock on the
  lower bound: node 1 holds key \<open>b\<close> for writing, node 2 gets the range from \<open>a\<close> to \<open>c\<close>.
\<close>

theorem range_lock_over_write_lock:
  "(1, bytes_data key_b, True) \<in> held one_writer
   \<and> map_option snd (gzochid_lock_range_check_and_set null_pick one_writer 2 (Some key_a) (Some key_c) (sec 2))
     = Some Lock_Granted"
proof
  show "(1, bytes_data key_b, True) \<in> held one_writer"
    using one_writer_held by (simp add: key_b_def)
  show "map_option snd (gzochid_lock_range_check_and_set null_pick one_writer 2 (Some key_a) (Some key_c) (sec 2))
      = Some Lock_Granted"
    unfolding one_writer_def by code_simp
qed

text \<open>
  A range lock without a lower bound is granted over another node's range lock: the interval
  tree prunes with a \<open>NULL\<close> lower bound as if it were past every upper bound. Node 2 has the range
  from \<open>c\<close> to \<open>c\<close>, node 1 the one from \<open>a\<close> to \<open>b\<close>, and node 2 gets everything up to \<open>d\<close>.
\<close>

theorem range_lock_open_lower_bound:
  "map_option (\<lambda>t. (map_option range_node_id (range_heap t 1),
       map_option snd (gzochid_lock_range_check_and_set (\<lambda>_. 0) t 2 None (Some key_d) (sec 3))))
     (lock_run (\<lambda>_. 0) [Acquire_Range 2 (Some key_c) (Some key_c) (sec 1),
        Acquire_Range 1 (Some key_a) (Some key_b) (sec 2)] gzochid_lock_table_new)
   = Some (Some 1, Some Lock_Granted)"
  by code_simp

text \<open>
  Three ranges of one node in descending order, the smallest released and requested again: the
  balance factor of its parent becomes 2, and the rotation of the root makes it its own child.
\<close>

definition cyclic_table :: gzochid_lock_table where
  "cyclic_table = the (lock_run (\<lambda>_. 0)
     [Acquire_Range 1 (Some key_c) (Some key_c) (sec 1), Acquire_Range 1 (Some key_b) (Some key_b) (sec 2),
      Acquire_Range 1 (Some key_a) (Some key_a) (sec 3), Release_Range 1 (Some key_a) (Some key_a),
      Acquire_Range 1 (Some key_a) (Some key_a) (sec 4)] gzochid_lock_table_new)"

lemma cyclic_table_run: "lock_run (\<lambda>_. 0)
    [Acquire_Range 1 (Some key_c) (Some key_c) (sec 1), Acquire_Range 1 (Some key_b) (Some key_b) (sec 2),
     Acquire_Range 1 (Some key_a) (Some key_a) (sec 3), Release_Range 1 (Some key_a) (Some key_a),
     Acquire_Range 1 (Some key_a) (Some key_a) (sec 4)] gzochid_lock_table_new = Some cyclic_table"
    (is "?run = _")
proof -
  have "\<not> Option.is_none ?run" by code_simp
  then show ?thesis by (auto simp: cyclic_table_def Option.is_none_def)
qed

lemma cyclic_table_root:
  "itree_root (range_locks cyclic_table) = Some 0"
  "nodes (range_locks cyclic_table) 0 = Some \<lparr>parent = None, left = Some 0, right = None,
     lower = Some key_c, upper = Some key_c, max_upper = Some key_c, node_data = 0, balance_factor = 1\<rparr>"
  "range_heap cyclic_table 0 = Some (range_lock_new (Some key_c) (Some key_c) 1 (sec 1))"
  "upper_comparator (range_locks cyclic_table) (Some key_c) (Some key_c) = 0"
  "find_point cyclic_table key_c = Some None"
  unfolding cyclic_table_def by code_simp+

text \<open>
  (C36) Balancing breaks the interval tree. Five requests of one node lead to a table whose tree is a
  node that is its own child, and another node's write request for the key \<open>c\<close> never returns.
\<close>

theorem lock_table_hangs:
  "lock_reachable (\<lambda>_. 0) cyclic_table
   \<and> itree_root (range_locks cyclic_table) = Some 0
   \<and> map_option left (nodes (range_locks cyclic_table) 0) = Some (Some 0)
   \<and> gzochid_lock_check_and_set cyclic_table 2 key_c True now = None"
proof (intro conjI)
  show "lock_reachable (\<lambda>_. 0) cyclic_table"
    by (rule lock_run_reachable [OF lock_start cyclic_table_run])
  have "gzochid_itree_search (range_locks cyclic_table) (Some key_c)
      (find_most_recent_covering_range_lock cyclic_table 2) (Some None) = None"
    unfolding gzochid_itree_search_def cyclic_table_root option.simps
    by (rule search_loop_cycle [where ok = "\<lambda>ctx. ctx \<in> {Some None, Some (Some 0)}", OF cyclic_table_root(2)])
      (auto simp: cyclic_table_root find_most_recent_covering_range_lock_def range_lock_new_def timercmp_lt_def)
  then show "gzochid_lock_check_and_set cyclic_table 2 key_c True now = None"
    by (simp add: gzochid_lock_check_and_set_def cyclic_table_root most_recent_covering_range_lock_def)
qed (simp_all add: cyclic_table_root)

end
