(* ===== verification/Dataserver.thy ===== *)
theory Dataserver
  imports Data_Protocol Lock_Table
begin

text \<open>
  The data server of the meta server: \<open>gzochi-server/src/dataserver.c\<close> with the oid allocation
  of \<open>oids.c\<close> and \<open>oids-storage.c\<close>, over the storage engine interface of
  \<open>gzochid-storage.h\<close>. Engines are modules loaded at run time, so the interface is an argument
  of the definitions: a record of functions on the state \<open>'e\<close> of a storage context, on
  transactions \<open>'x\<close> and on store handles \<open>'s\<close>.

  Logging is left out, and with it that the messages about refused changes print the bytes of keys
  as terminated strings. \<open>None\<close> is a fault (a \<open>NULL\<close> transaction or store name, a failed
  \<open>assert\<close>) or a lock table search that does not return.
\<close>

section \<open>The storage engine interface\<close>

record ('e, 'x, 's) gzochid_storage_engine_interface =
  initialize :: "cstring \<Rightarrow> 'e"
  open_store :: "'e \<Rightarrow> cstring \<Rightarrow> 'e \<times> 's"
  transaction_begin :: "'e \<Rightarrow> 'e \<times> 'x option"
  transaction_commit :: "'e \<Rightarrow> 'x \<Rightarrow> 'e"
  transaction_rollback :: "'e \<Rightarrow> 'x \<Rightarrow> 'e"
  transaction_prepare :: "'e \<Rightarrow> 'x \<Rightarrow> 'e \<times> 'x"
  transaction_get :: "'e \<Rightarrow> 'x \<Rightarrow> 's \<Rightarrow> byte list \<Rightarrow> 'e \<times> 'x \<times> byte list option"
  transaction_get_for_update :: "'e \<Rightarrow> 'x \<Rightarrow> 's \<Rightarrow> byte list \<Rightarrow> 'e \<times> 'x \<times> byte list option"
  transaction_put :: "'e \<Rightarrow> 'x \<Rightarrow> 's \<Rightarrow> byte list \<Rightarrow> byte list \<Rightarrow> 'e \<times> 'x"
  transaction_delete :: "'e \<Rightarrow> 'x \<Rightarrow> 's \<Rightarrow> byte list \<Rightarrow> 'e \<times> 'x"
  transaction_first_key :: "'e \<Rightarrow> 'x \<Rightarrow> 's \<Rightarrow> 'e \<times> 'x \<times> byte list option"
  transaction_next_key :: "'e \<Rightarrow> 'x \<Rightarrow> 's \<Rightarrow> byte list \<Rightarrow> 'e \<times> 'x \<times> byte list option"
  must_rollback :: "'x \<Rightarrow> bool"

section \<open>oids.c, oids-storage.c\<close>

definition allocation_block_size :: guint64 where "allocation_block_size = 100"

definition next_oid_key :: "byte list" where "next_oid_key = [0]"

text \<open>The bytes of a stored oid as a \<open>guint64\<close> of the host (\<open>memcpy\<close>).\<close>

definition host_guint64 :: "bool \<Rightarrow> byte list \<Rightarrow> guint64 option" where
  "host_guint64 be bs = gzochi_common_io_read_long (if be then bs else rev bs) 0"

datatype oids_error = Oids_Error_Transaction | Oids_Error_Failed

definition allocate ::
    "('e, 'x, 's) gzochid_storage_engine_interface \<Rightarrow> bool \<Rightarrow> 'e \<Rightarrow> 's \<Rightarrow>
     ('e \<times> (oids_error + gzochid_data_oids_block)) option" where
  "allocate iface be e meta =
     (let (e, tx) = transaction_begin iface e
      in case tx of
        None \<Rightarrow> Some (e, Inl Oids_Error_Transaction)
      | Some x \<Rightarrow>
          (let (e, x, next_oid_value) = transaction_get_for_update iface e x meta next_oid_key
           in if must_rollback iface x
              then Some (transaction_rollback iface e x, Inl Oids_Error_Transaction)
              else do {
                start \<leftarrow> (case next_oid_value of
                    None \<Rightarrow> Some 0
                  | Some v \<Rightarrow>
                      if length v = 8
                      then map_option (gzochid_util_decode_oid be) (host_guint64 be v)
                      else None);
                let encoded_oid = gzochid_util_encode_oid be (start + allocation_block_size);
                let (e, x) = transaction_put iface e x meta next_oid_key (host_bytes be encoded_oid);
                let (e, x) = (if \<not> must_rollback iface x then transaction_prepare iface e x else (e, x));
                if must_rollback iface x
                then Some (transaction_rollback iface e x, Inl Oids_Error_Transaction)
                else Some (transaction_commit iface e x,
                  Inr \<lparr>block_start = start, block_size = ucast allocation_block_size\<rparr>)
              }))"

section \<open>dataserver.c: state\<close>

record 's lockable_store =
  store_handle :: 's
  store_locks :: gzochid_lock_table

record ('e, 's) application_store =
  app_storage_context :: 'e
  app_oids :: "'s lockable_store"
  app_names :: "'s lockable_store"
  app_meta :: 's

text \<open>
  The application stores by name, in the order they were opened, and the address the next
  \<open>GBytes\<close> object gets.
\<close>

record ('e, 's) dataserver =
  application_stores :: "(cstring \<times> ('e, 's) application_store) list"
  next_bytes :: nat

datatype dataserver_error = Error_Store_Name cstring | Error_Lock_Conflict | Error_Failed

datatype store_id = Oids_Store | Names_Store

definition oids_name :: cstring where "oids_name = [111, 105, 100, 115]"

definition names_name :: cstring where "names_name = [110, 97, 109, 101, 115]"

definition meta_name :: cstring where "meta_name = [109, 101, 116, 97]"

fun lockable :: "('e, 's) application_store \<Rightarrow> store_id \<Rightarrow> 's lockable_store" where
  "lockable st Oids_Store = app_oids st"
| "lockable st Names_Store = app_names st"

fun set_locks ::
    "store_id \<Rightarrow> gzochid_lock_table \<Rightarrow> ('e, 's) application_store \<Rightarrow> ('e, 's) application_store" where
  "set_locks Oids_Store t st = st\<lparr>app_oids := (app_oids st)\<lparr>store_locks := t\<rparr>\<rparr>"
| "set_locks Names_Store t st = st\<lparr>app_names := (app_names st)\<lparr>store_locks := t\<rparr>\<rparr>"

definition put_store ::
    "('e, 's) dataserver \<Rightarrow> cstring \<Rightarrow> ('e, 's) application_store \<Rightarrow> ('e, 's) dataserver" where
  "put_store srv app st = srv\<lparr>application_stores :=
     map (\<lambda>(n, s). if n = app then (n, st) else (n, s)) (application_stores srv)\<rparr>"

definition gbytes_new :: "('e, 's) dataserver \<Rightarrow> byte list \<Rightarrow> ('e, 's) dataserver \<times> gbytes" where
  "gbytes_new srv bs =
     (srv\<lparr>next_bytes := Suc (next_bytes srv)\<rparr>, \<lparr>bytes_addr = next_bytes srv, bytes_data = bs\<rparr>)"

section \<open>dataserver.c: operations\<close>

definition get_lockable_store :: "cstring \<Rightarrow> dataserver_error + store_id" where
  "get_lockable_store name =
     (if name = oids_name then Inr Oids_Store
      else if name = names_name then Inr Names_Store
      else Inl (Error_Store_Name name))"

definition ensure_open_application_store ::
    "('e, 'x, 's) gzochid_storage_engine_interface \<Rightarrow> ('e, 's) dataserver \<Rightarrow> cstring \<Rightarrow>
     ('e, 's) dataserver \<times> ('e, 's) application_store" where
  "ensure_open_application_store iface srv app =
     (case map_of (application_stores srv) app of
        Some st \<Rightarrow> (srv, st)
      | None \<Rightarrow>
          (let e = initialize iface app;
               (e, oids) = open_store iface e oids_name;
               (e, names) = open_store iface e names_name;
               (e, meta) = open_store iface e meta_name;
               st = \<lparr>app_storage_context = e,
                     app_oids = \<lparr>store_handle = oids, store_locks = gzochid_lock_table_new\<rparr>,
                     app_names = \<lparr>store_handle = names, store_locks = gzochid_lock_table_new\<rparr>,
                     app_meta = meta\<rparr>
           in (srv\<lparr>application_stores := application_stores srv @ [(app, st)]\<rparr>, st)))"

definition gzochi_metad_dataserver_reserve_oids ::
    "('e, 'x, 's) gzochid_storage_engine_interface \<Rightarrow> bool \<Rightarrow> ('e, 's) dataserver \<Rightarrow> guint \<Rightarrow> cstring \<Rightarrow>
     (('e, 's) dataserver \<times> gzochid_data_reserve_oids_response) option" where
  "gzochi_metad_dataserver_reserve_oids iface be srv node_id app = do {
     let (srv, st) = ensure_open_application_store iface srv app;
     (e, r) \<leftarrow> allocate iface be (app_storage_context st) (app_meta st);
     case r of
       Inl _ \<Rightarrow> None
     | Inr block \<Rightarrow> Some (put_store srv app (st\<lparr>app_storage_context := e\<rparr>),
         gzochid_data_reserve_oids_response_new app block)
   }"

definition gzochi_metad_dataserver_request_value ::
    "('e, 'x, 's) gzochid_storage_engine_interface \<Rightarrow> int \<Rightarrow> ('e, 's) dataserver \<Rightarrow> guint \<Rightarrow> cstring \<Rightarrow>
     cstring \<Rightarrow> gbytes \<Rightarrow> bool \<Rightarrow> timeval \<Rightarrow>
     (('e, 's) dataserver \<times> (dataserver_error + gzochid_data_response)) option" where
  "gzochi_metad_dataserver_request_value iface uninit srv node_id app store_name k fw now =
     (let (srv, st) = ensure_open_application_store iface srv app
      in case get_lockable_store store_name of
        Inl err \<Rightarrow> Some (srv, Inl err)
      | Inr sid \<Rightarrow> do {
          (locks', ans) \<leftarrow> gzochid_lock_check_and_set (store_locks (lockable st sid)) node_id k fw now;
          let st = set_locks sid locks' st;
          case ans of
            Lock_Granted \<Rightarrow> do {
              let (e, tx) = transaction_begin iface (app_storage_context st);
              x \<leftarrow> tx;
              let (e, x, data) = transaction_get iface e x (store_handle (lockable st sid)) (bytes_data k);
              response \<leftarrow> gzochid_data_response_new uninit app store_name True data;
              let e = transaction_rollback iface e x;
              Some (put_store srv app (st\<lparr>app_storage_context := e\<rparr>), Inr response)
            }
          | Lock_Failure ts \<Rightarrow> do {
              response \<leftarrow> gzochid_data_response_new uninit app store_name False None;
              Some (put_store srv app st, Inr response)
            }
        })"

definition gzochi_metad_dataserver_request_next_key ::
    "('e, 'x, 's) gzochid_storage_engine_interface \<Rightarrow> (nat \<Rightarrow> nat) \<Rightarrow> int \<Rightarrow> ('e, 's) dataserver \<Rightarrow> guint \<Rightarrow>
     cstring \<Rightarrow> cstring \<Rightarrow> gbytes option \<Rightarrow> timeval \<Rightarrow>
     (('e, 's) dataserver \<times> (dataserver_error + gzochid_data_response)) option" where
  "gzochi_metad_dataserver_request_next_key iface null_pick uninit srv node_id app store_name k now =
     (let (srv, st) = ensure_open_application_store iface srv app
      in case get_lockable_store store_name of
        Inl err \<Rightarrow> Some (srv, Inl err)
      | Inr sid \<Rightarrow> do {
          let (e, tx) = transaction_begin iface (app_storage_context st);
          x \<leftarrow> tx;
          let (e, x, data) = (case k of
              None \<Rightarrow> transaction_first_key iface e x (store_handle (lockable st sid))
            | Some key \<Rightarrow>
                transaction_next_key iface e x (store_handle (lockable st sid)) (bytes_data key));
          if must_rollback iface x then None
          else do {
            let (srv, to_key) = (case data of
                None \<Rightarrow> (srv, None)
              | Some bs \<Rightarrow> (case gbytes_new srv bs of (srv, g) \<Rightarrow> (srv, Some g)));
            let st = st\<lparr>app_storage_context := transaction_rollback iface e x\<rparr>;
            (locks', ans) \<leftarrow> gzochid_lock_range_check_and_set null_pick
                (store_locks (lockable st sid)) node_id k to_key now;
            let srv = put_store srv app (set_locks sid locks' st);
            case ans of
              Lock_Failure ts \<Rightarrow> do {
                response \<leftarrow> gzochid_data_response_new uninit app store_name False None;
                Some (srv, Inr response)
              }
            | Lock_Granted \<Rightarrow> do {
                response \<leftarrow> gzochid_data_response_new uninit app store_name True
                  (map_option bytes_data to_key);
                Some (srv, Inr response)
              }
          }
        })"

text \<open>
  The loop over the changes: the storage context and the transaction after it, and the error that
  ended it, if one did. A change whose store, key or data pointer is \<open>NULL\<close> is a fault.
\<close>

fun apply_changes ::
    "('e, 'x, 's) gzochid_storage_engine_interface \<Rightarrow> ('e, 's) application_store \<Rightarrow> guint \<Rightarrow>
     gzochid_data_change list \<Rightarrow> 'e \<Rightarrow> 'x \<Rightarrow> ('e \<times> 'x \<times> dataserver_error option) option" where
  "apply_changes iface st node_id [] e x = Some (e, x, None)"
| "apply_changes iface st node_id (change # changes) e x =
     Option.bind (chg_store change) (\<lambda>name.
       case get_lockable_store name of
         Inl err \<Rightarrow> Some (e, x, Some err)
       | Inr sid \<Rightarrow>
           Option.bind (chg_key change) (\<lambda>k.
           Option.bind (gzochid_lock_check (store_locks (lockable st sid)) node_id
               \<lparr>bytes_addr = 0, bytes_data = k\<rparr> True) (\<lambda>locked.
             if \<not> locked then Some (e, x, Some Error_Lock_Conflict)
             else
               Option.bind
                 (if chg_delete change
                  then Some (transaction_delete iface e x (store_handle (lockable st sid)) k)
                  else map_option
                    (transaction_put iface e x (store_handle (lockable st sid)) k) (chg_data change))
                 (\<lambda>(e, x).
                    if must_rollback iface x then Some (e, x, Some Error_Lock_Conflict)
                    else apply_changes iface st node_id changes e x))))"

definition gzochi_metad_dataserver_process_changeset ::
    "('e, 'x, 's) gzochid_storage_engine_interface \<Rightarrow> ('e, 's) dataserver \<Rightarrow> guint \<Rightarrow>
     gzochid_data_changeset \<Rightarrow> (('e, 's) dataserver \<times> dataserver_error option) option" where
  "gzochi_metad_dataserver_process_changeset iface srv node_id changeset = do {
     let (srv, st) = ensure_open_application_store iface srv (cs_app changeset);
     let (e, tx) = transaction_begin iface (app_storage_context st);
     x \<leftarrow> tx;
     (e, x, err) \<leftarrow> apply_changes iface st node_id (cs_changes changeset) e x;
     let (e, err) = (case err of
         Some er \<Rightarrow> (transaction_rollback iface e x, Some er)
       | None \<Rightarrow>
           (let (e, x) = transaction_prepare iface e x
            in if must_rollback iface x then (transaction_rollback iface e x, Some Error_Failed)
               else (transaction_commit iface e x, None)));
     Some (put_store srv (cs_app changeset) (st\<lparr>app_storage_context := e\<rparr>), err)
   }"

definition gzochi_metad_dataserver_release_key ::
    "('e, 'x, 's) gzochid_storage_engine_interface \<Rightarrow> ('e, 's) dataserver \<Rightarrow> guint \<Rightarrow> cstring \<Rightarrow> cstring \<Rightarrow>
     gbytes \<Rightarrow> ('e, 's) dataserver option" where
  "gzochi_metad_dataserver_release_key iface srv node_id app store_name k =
     (let (srv, st) = ensure_open_application_store iface srv app
      in case get_lockable_store store_name of
        Inl err \<Rightarrow> Some srv
      | Inr sid \<Rightarrow> do {
          locks' \<leftarrow> gzochid_lock_release (store_locks (lockable st sid)) node_id k;
          Some (put_store srv app (set_locks sid locks' st))
        })"

definition gzochi_metad_dataserver_release_range ::
    "('e, 'x, 's) gzochid_storage_engine_interface \<Rightarrow> ('e, 's) dataserver \<Rightarrow> guint \<Rightarrow> cstring \<Rightarrow> cstring \<Rightarrow>
     gbytes option \<Rightarrow> gbytes option \<Rightarrow> ('e, 's) dataserver option" where
  "gzochi_metad_dataserver_release_range iface srv node_id app store_name first_key last_key =
     (let (srv, st) = ensure_open_application_store iface srv app
      in case get_lockable_store store_name of
        Inl err \<Rightarrow> Some srv
      | Inr sid \<Rightarrow> do {
          locks' \<leftarrow> gzochid_lock_release_range (store_locks (lockable st sid)) node_id first_key last_key;
          Some (put_store srv app (set_locks sid locks' st))
        })"

fun release_all_stores ::
    "guint \<Rightarrow> (cstring \<times> ('e, 's) application_store) list \<Rightarrow>
     (cstring \<times> ('e, 's) application_store) list option" where
  "release_all_stores node_id [] = Some []"
| "release_all_stores node_id ((app, st) # stores) = do {
     t1 \<leftarrow> gzochid_lock_release_all (store_locks (app_oids st)) node_id;
     t2 \<leftarrow> gzochid_lock_release_all (store_locks (app_names st)) node_id;
     rest \<leftarrow> release_all_stores node_id stores;
     Some ((app, set_locks Names_Store t2 (set_locks Oids_Store t1 st)) # rest)
   }"

definition gzochi_metad_dataserver_release_all ::
    "('e, 's) dataserver \<Rightarrow> guint \<Rightarrow> ('e, 's) dataserver option" where
  "gzochi_metad_dataserver_release_all srv node_id = do {
     stores \<leftarrow> release_all_stores node_id (application_stores srv);
     Some (srv\<lparr>application_stores := stores\<rparr>)
   }"

end
