(* ===== verification/Dataserver_Props.thy ===== *)
theory Dataserver_Props
  imports Dataserver
begin

text \<open>
  What the data server guarantees over any storage engine that keeps its contract: the allocation of
  oids, requests for values, the processing of changesets, and the invariant of the server (every
  application has one entry, and all its lock tables are consistent) under all operations.
\<close>

section \<open>What a storage engine promises\<close>

text \<open>
  \<open>view\<close> is the committed content of a context and \<open>seen\<close> what a transaction sees of it. A
  transaction starts on the committed content, writes only to its own copy, may fail at every step
  (then its rollback flag is set), and reaches the committed content only by a commit.
\<close>

definition engine_contract ::
    "('e, 'x, 's, 'z) gzochid_storage_engine_interface_scheme \<Rightarrow> ('e \<Rightarrow> 's \<Rightarrow> byte list \<rightharpoonup> byte list) \<Rightarrow>
     ('e \<Rightarrow> 'x \<Rightarrow> 's \<Rightarrow> byte list \<rightharpoonup> byte list) \<Rightarrow> bool" where
  "engine_contract iface view seen \<longleftrightarrow>
     (\<forall>e e' tx. transaction_begin iface e = (e', tx) \<longrightarrow> view e' = view e
        \<and> (\<forall>x. tx = Some x \<longrightarrow> seen e' x = view e))
     \<and> (\<forall>e x e' x' s k v. transaction_put iface e x s k v = (e', x') \<longrightarrow> view e' = view e
        \<and> (must_rollback iface x' \<or> seen e' x' = (seen e x)(s := (seen e x s)(k \<mapsto> v))))
     \<and> (\<forall>e x e' x' s k. transaction_delete iface e x s k = (e', x') \<longrightarrow> view e' = view e
        \<and> (must_rollback iface x' \<or> seen e' x' = (seen e x)(s := (seen e x s)(k := None))))
     \<and> (\<forall>e x e' x' s k r. transaction_get iface e x s k = (e', x', r) \<longrightarrow> view e' = view e
        \<and> (must_rollback iface x' \<or> seen e' x' = seen e x \<and> r = seen e x s k))
     \<and> (\<forall>e x e' x' s k r. transaction_get_for_update iface e x s k = (e', x', r) \<longrightarrow> view e' = view e
        \<and> (must_rollback iface x' \<or> seen e' x' = seen e x \<and> r = seen e x s k))
     \<and> (\<forall>e x e' x'. transaction_prepare iface e x = (e', x') \<longrightarrow> view e' = view e
        \<and> (must_rollback iface x' \<or> seen e' x' = seen e x))
     \<and> (\<forall>e x. \<not> must_rollback iface x \<longrightarrow> view (transaction_commit iface e x) = seen e x)
     \<and> (\<forall>e x. view (transaction_rollback iface e x) = view e)"

lemma contract_begin:
  "engine_contract iface view seen \<Longrightarrow> transaction_begin iface e = (e', tx) \<Longrightarrow>
    view e' = view e \<and> (\<forall>x. tx = Some x \<longrightarrow> seen e' x = view e)"
  unfolding engine_contract_def by (elim conjE) metis

lemma contract_put:
  "engine_contract iface view seen \<Longrightarrow> transaction_put iface e x s k v = (e', x') \<Longrightarrow>
    view e' = view e \<and> (must_rollback iface x' \<or> seen e' x' = (seen e x)(s := (seen e x s)(k \<mapsto> v)))"
  unfolding engine_contract_def by (elim conjE) metis

lemma contract_delete:
  "engine_contract iface view seen \<Longrightarrow> transaction_delete iface e x s k = (e', x') \<Longrightarrow>
    view e' = view e \<and> (must_rollback iface x' \<or> seen e' x' = (seen e x)(s := (seen e x s)(k := None)))"
  unfolding engine_contract_def by (elim conjE) metis

lemma contract_get:
  "engine_contract iface view seen \<Longrightarrow> transaction_get iface e x s k = (e', x', r) \<Longrightarrow>
    view e' = view e \<and> (must_rollback iface x' \<or> seen e' x' = seen e x \<and> r = seen e x s k)"
  unfolding engine_contract_def by (elim conjE) metis

lemma contract_get_for_update:
  "engine_contract iface view seen \<Longrightarrow> transaction_get_for_update iface e x s k = (e', x', r) \<Longrightarrow>
    view e' = view e \<and> (must_rollback iface x' \<or> seen e' x' = seen e x \<and> r = seen e x s k)"
  unfolding engine_contract_def by (elim conjE) metis

lemma contract_prepare:
  "engine_contract iface view seen \<Longrightarrow> transaction_prepare iface e x = (e', x') \<Longrightarrow>
    view e' = view e \<and> (must_rollback iface x' \<or> seen e' x' = seen e x)"
  unfolding engine_contract_def by (elim conjE) metis

lemma contract_commit:
  "engine_contract iface view seen \<Longrightarrow> \<not> must_rollback iface x \<Longrightarrow>
    view (transaction_commit iface e x) = seen e x"
  unfolding engine_contract_def by (elim conjE) metis

lemma contract_rollback:
  "engine_contract iface view seen \<Longrightarrow> view (transaction_rollback iface e x) = view e"
  unfolding engine_contract_def by (elim conjE) metis

section \<open>Allocation of object ids\<close>

text \<open>The oid the next block starts at, from the content of the metadata store.\<close>

definition next_oid :: "bool \<Rightarrow> (byte list \<rightharpoonup> byte list) \<Rightarrow> guint64 option" where
  "next_oid be m = (case m next_oid_key of
      None \<Rightarrow> Some 0
    | Some v \<Rightarrow> if length v = 8 then map_option (gzochid_util_decode_oid be) (host_guint64 be v) else None)"

lemma stored_oid_roundtrip:
  "map_option (gzochid_util_decode_oid be) (host_guint64 be (host_bytes be (gzochid_util_encode_oid be v))) = Some v"
proof -
  have "host_guint64 be (host_bytes be w) = Some w" for w
    using read_long_be [of "[]" w "[]"] by (simp add: host_guint64_def host_bytes_def)
  moreover have "gzochid_util_decode_oid be (gzochid_util_encode_oid be v) = v"
    by (simp add: gzochid_util_encode_oid_def gzochid_util_decode_oid_def)
  ultimately show ?thesis by simp
qed


text \<open>One allocation: a failure leaves the stored counter alone, a success moves it on by a block.\<close>

lemma allocate_spec:
  assumes c: "engine_contract iface view seen" and res: "allocate iface be e meta = Some (e', r)"
  shows "case r of
      Inl err \<Rightarrow> view e' = view e
    | Inr block \<Rightarrow> next_oid be (view e meta) = Some (block_start block) \<and> block_size block = 100
        \<and> view e' = (view e)(meta := (view e meta)(next_oid_key \<mapsto>
            host_bytes be (gzochid_util_encode_oid be (block_start block + 100))))"
proof -
  obtain e1 tx where b: "transaction_begin iface e = (e1, tx)" by fastforce
  note b' = contract_begin [OF c b]
  show ?thesis
  proof (cases tx)
    case None
    then show ?thesis using res b b' by (auto simp: allocate_def)
  next
    case (Some x)
    obtain e2 x2 v where g: "transaction_get_for_update iface e1 x meta next_oid_key = (e2, x2, v)"
      using prod_cases3 by blast
    note g' = contract_get_for_update [OF c g]
    show ?thesis
    proof (cases "must_rollback iface x2")
      case True
      then show ?thesis
        using res b b' Some g g' contract_rollback [OF c] by (auto simp: allocate_def)
    next
      case False
      then have v: "v = view e meta next_oid_key" and seen2: "seen e2 x2 = view e"
        using g' b' Some by auto
      have "next_oid be (view e meta) \<noteq> None"
        using res b Some g False v
        by (auto simp: allocate_def next_oid_def bind_eq_Some_conv split: option.splits if_splits)
      then obtain start where start: "next_oid be (view e meta) = Some start" by blast
      let ?enc = "host_bytes be (gzochid_util_encode_oid be (start + 100))"
      obtain e3 x3 where p: "transaction_put iface e2 x2 meta next_oid_key ?enc = (e3, x3)" by fastforce
      note p' = contract_put [OF c p]
      obtain e4 x4 where q: "(if \<not> must_rollback iface x3 then transaction_prepare iface e3 x3 else (e3, x3)) = (e4, x4)"
        by fastforce
      have q': "view e4 = view e3 \<and> (must_rollback iface x4 \<or> \<not> must_rollback iface x3 \<and> seen e4 x4 = seen e3 x3)"
        using q contract_prepare [OF c, of e3 x3] by (auto split: if_splits)
      have eq: "allocate iface be e meta = (if must_rollback iface x4
          then Some (transaction_rollback iface e4 x4, Inl Oids_Error_Transaction)
          else Some (transaction_commit iface e4 x4, Inr \<lparr>block_start = start, block_size = 100\<rparr>))"
        using b Some g False v start p q
        by (auto simp: allocate_def next_oid_def allocation_block_size_def split: option.splits if_splits)
      show ?thesis
      proof (cases "must_rollback iface x4")
        case True
        then show ?thesis
          using res eq contract_rollback [OF c] q' p' g' b' by auto
      next
        case F: False
        have "view (transaction_commit iface e4 x4) = seen e4 x4" by (rule contract_commit [OF c F])
        then show ?thesis
          using res eq F q' p' seen2 start by auto
      qed
    qed
  qed
qed

lemma allocate_returns:
  assumes c: "engine_contract iface view seen" and "next_oid be (view e meta) \<noteq> None"
  shows "allocate iface be e meta \<noteq> None"
proof -
  obtain e1 tx where b: "transaction_begin iface e = (e1, tx)" by fastforce
  show ?thesis
  proof (cases tx)
    case None
    then show ?thesis using b by (simp add: allocate_def)
  next
    case (Some x)
    obtain e2 x2 v where g: "transaction_get_for_update iface e1 x meta next_oid_key = (e2, x2, v)"
      using prod_cases3 by blast
    have v: "must_rollback iface x2 \<or> v = view e meta next_oid_key"
      using contract_get_for_update [OF c g] contract_begin [OF c b] Some by auto
    show ?thesis
      using b Some g v assms(2)
      by (auto simp: allocate_def next_oid_def bind_eq_None_conv Let_def split: option.splits if_splits prod.splits)
  qed
qed

lemma next_oid_stored: "next_oid be (m(next_oid_key \<mapsto> host_bytes be (gzochid_util_encode_oid be v))) = Some v"
  using stored_oid_roundtrip [of be v] by (simp add: next_oid_def host_bytes_def)

text \<open>Several allocations in a row; those that fail give no block.\<close>

fun allocate_many ::
    "('e, 'x, 's) gzochid_storage_engine_interface \<Rightarrow> bool \<Rightarrow> nat \<Rightarrow> 'e \<Rightarrow> 's \<Rightarrow>
     gzochid_data_oids_block list option" where
  "allocate_many iface be 0 e meta = Some []"
| "allocate_many iface be (Suc n) e meta =
     Option.bind (allocate iface be e meta) (\<lambda>(e, r).
       map_option (\<lambda>bs. case r of Inl _ \<Rightarrow> bs | Inr b \<Rightarrow> b # bs) (allocate_many iface be n e meta))"

lemma allocate_many_blocks:
  assumes c: "engine_contract iface view seen"
  shows "next_oid be (view e meta) = Some s \<Longrightarrow> \<exists>bs. allocate_many iface be n e meta = Some bs
    \<and> (\<forall>i < length bs. block_start (bs ! i) = s + 100 * of_nat i \<and> block_size (bs ! i) = 100)"
proof (induction n arbitrary: e s)
  case 0
  then show ?case by simp
next
  case (Suc n)
  then obtain e1 r where r: "allocate iface be e meta = Some (e1, r)"
    using allocate_returns [OF c, of be e meta] by fastforce
  note spec = allocate_spec [OF c r]
  show ?case
  proof (cases r)
    case (Inl err)
    then show ?thesis using spec r Suc.IH [of e1 s] Suc.prems by auto
  next
    case (Inr b)
    then have b: "block_start b = s" "block_size b = 100"
        "next_oid be (view e1 meta) = Some (s + 100)"
      using spec Suc.prems next_oid_stored by auto
    obtain bs1 where bs1: "allocate_many iface be n e1 meta = Some bs1"
      and IH: "\<forall>i < length bs1. block_start (bs1 ! i) = s + 100 + 100 * of_nat i \<and> block_size (bs1 ! i) = 100"
      using Suc.IH [OF b(3)] by blast
    have "block_start ((b # bs1) ! i) = s + 100 * of_nat i \<and> block_size ((b # bs1) ! i) = 100"
      if "i < length (b # bs1)" for i
      using that b IH by (cases i) (auto simp: algebra_simps)
    with r bs1 Inr show ?thesis by auto
  qed
qed

text \<open>
  (C27) Object id blocks. However many allocations are made from a metadata store, with failures in
  between, they return, and the blocks they give start at the stored counter and follow each other,
  100 ids each: no id is handed out twice before the 64 bit counter wraps around.
\<close>

theorem oid_blocks_consecutive:
  assumes "engine_contract iface view seen" and "next_oid be (view e meta) = Some s"
  shows "\<exists>bs. allocate_many iface be n e meta = Some bs
    \<and> (\<forall>i < length bs. block_start (bs ! i) = s + 100 * of_nat i \<and> block_size (bs ! i) = 100)"
  by (rule allocate_many_blocks [OF assms])

text \<open>
  A plain engine for the concrete cases: content by store name and key, a transaction is a copy,
  nothing ever fails.
\<close>

type_synonym content = "cstring \<Rightarrow> byte list \<rightharpoonup> byte list"

definition map_engine :: "(content, content, cstring) gzochid_storage_engine_interface" where
  "map_engine = \<lparr>initialize = (\<lambda>_ _. Map.empty), open_store = (\<lambda>e name. (e, name)),
     transaction_begin = (\<lambda>e. (e, Some e)), transaction_commit = (\<lambda>e x. x),
     transaction_rollback = (\<lambda>e x. e), transaction_prepare = (\<lambda>e x. (e, x)),
     transaction_get = (\<lambda>e x s k. (e, x, x s k)), transaction_get_for_update = (\<lambda>e x s k. (e, x, x s k)),
     transaction_put = (\<lambda>e x s k v. (e, x(s := (x s)(k \<mapsto> v)))),
     transaction_delete = (\<lambda>e x s k. (e, x(s := (x s)(k := None)))),
     transaction_first_key = (\<lambda>e x s. (e, x, None)), transaction_next_key = (\<lambda>e x s k. (e, x, None)),
     must_rollback = (\<lambda>x. False)\<rparr>"

lemma map_engine_contract: "engine_contract map_engine (\<lambda>e. e) (\<lambda>e x. x)"
  by (auto simp: engine_contract_def map_engine_def)

theorem oid_blocks_consecutive_witness:
  "map_option (map block_start) (allocate_many map_engine False 3 (\<lambda>_. Map.empty) meta_name) = Some [0, 100, 200]"
proof -
  obtain bs where bs: "allocate_many map_engine False 3 (\<lambda>_. Map.empty) meta_name = Some bs"
      "\<forall>i < length bs. block_start (bs ! i) = 0 + 100 * of_nat i \<and> block_size (bs ! i) = 100"
    using oid_blocks_consecutive [OF map_engine_contract, of False "\<lambda>_. Map.empty" meta_name 0 3]
    by (auto simp: next_oid_def)
  have "map_option length (allocate_many map_engine False 3 (\<lambda>_. Map.empty) meta_name) = Some 3"
    by code_simp
  then obtain b0 b1 b2 where "bs = [b0, b1, b2]"
    using bs(1) by (auto simp: length_Suc_conv numeral_3_eq_3)
  with bs(2) [rule_format, of 0] bs(2) [rule_format, of 1] bs(2) [rule_format, of 2] bs(1) show ?thesis by simp
qed

section \<open>The application stores\<close>

text \<open>Both lock tables of every open application are consistent, and no name is open twice.\<close>

definition server_inv :: "('e, 's) dataserver \<Rightarrow> bool" where
  "server_inv srv \<longleftrightarrow> distinct (map fst (application_stores srv))
     \<and> (\<forall>(app, st) \<in> set (application_stores srv). \<forall>sid. lock_inv (store_locks (lockable st sid)))"

lemma ensure_open_spec:
  assumes "ensure_open_application_store iface srv app = (srv', st)"
  shows "map_of (application_stores srv') app = Some st" and "next_bytes srv' = next_bytes srv"
    and "a \<noteq> app \<Longrightarrow> map_of (application_stores srv') a = map_of (application_stores srv) a"
    and "map_of (application_stores srv) app = Some st0 \<Longrightarrow> srv' = srv \<and> st = st0"
    and "server_inv srv \<Longrightarrow> server_inv srv'"
proof -
  consider (old) "map_of (application_stores srv) app = Some st" "srv' = srv"
    | (new) "map_of (application_stores srv) app = None"
      "srv' = srv\<lparr>application_stores := application_stores srv @ [(app, st)]\<rparr>"
      "\<forall>sid. store_locks (lockable st sid) = gzochid_lock_table_new"
  proof (cases "map_of (application_stores srv) app")
    case None
    then have "srv' = srv\<lparr>application_stores := application_stores srv @ [(app, st)]\<rparr>"
      and "store_locks (app_oids st) = gzochid_lock_table_new" "store_locks (app_names st) = gzochid_lock_table_new"
      using assms by (auto simp: ensure_open_application_store_def Let_def split: prod.splits)
    moreover have "store_locks (lockable st sid) = gzochid_lock_table_new" for sid
      using calculation(2,3) by (cases sid) simp_all
    ultimately show ?thesis using None new by blast
  next
    case (Some s)
    then have "srv' = srv" and "st = s" using assms by (simp_all add: ensure_open_application_store_def)
    with Some show ?thesis by (intro old) simp_all
  qed
  then have r: "map_of (application_stores srv') app = Some st \<and> next_bytes srv' = next_bytes srv
      \<and> (\<forall>a. a \<noteq> app \<longrightarrow> map_of (application_stores srv') a = map_of (application_stores srv) a)
      \<and> (\<forall>st0. map_of (application_stores srv) app = Some st0 \<longrightarrow> srv' = srv \<and> st = st0)
      \<and> (server_inv srv \<longrightarrow> server_inv srv')"
  proof cases
    case old
    then show ?thesis by simp
  next
    case new
    moreover have "server_inv srv'" if "server_inv srv"
      using that new lock_table_new_inv by (auto simp: server_inv_def map_of_eq_None_iff)
    ultimately show ?thesis
      by (simp add: map_add_def split: option.split)
  qed
  show "map_of (application_stores srv') app = Some st" "next_bytes srv' = next_bytes srv"
    using r by blast+
  show "a \<noteq> app \<Longrightarrow> map_of (application_stores srv') a = map_of (application_stores srv) a"
    using r by blast
  show "map_of (application_stores srv) app = Some st0 \<Longrightarrow> srv' = srv \<and> st = st0"
    using r by blast
  show "server_inv srv \<Longrightarrow> server_inv srv'"
    using r by blast
qed

lemma map_of_upd_entry:
  "map_of (map (\<lambda>(n, s). if n = app then (n, st) else (n, s)) xs) a =
    (if a = app then map_option (\<lambda>_. st) (map_of xs app) else map_of xs a)"
  by (induction xs) auto

lemma put_store_stores:
  "map_of (application_stores (put_store srv app st)) a =
    (if a = app then map_option (\<lambda>_. st) (map_of (application_stores srv) app)
     else map_of (application_stores srv) a)"
  "next_bytes (put_store srv app st) = next_bytes srv"
proof -
  show "map_of (application_stores (put_store srv app st)) a =
    (if a = app then map_option (\<lambda>_. st) (map_of (application_stores srv) app)
     else map_of (application_stores srv) a)"
    using map_of_upd_entry [of app st "application_stores srv" a] by (simp add: put_store_def)
qed (simp add: put_store_def)


lemma server_inv_store:
  "server_inv srv \<Longrightarrow> map_of (application_stores srv) app = Some st \<Longrightarrow> lock_inv (store_locks (lockable st sid))"
  by (auto simp: server_inv_def dest: map_of_SomeD)

lemma server_inv_put:
  assumes "server_inv srv" and "\<And>sid. lock_inv (store_locks (lockable st sid))"
  shows "server_inv (put_store srv app st)"
proof -
  have "map fst (application_stores (put_store srv app st)) = map fst (application_stores srv)"
    by (auto simp: put_store_def)
  moreover have "\<forall>(a, s) \<in> set (application_stores (put_store srv app st)). \<forall>sid. lock_inv (store_locks (lockable s sid))"
    using assms by (auto simp: server_inv_def put_store_def split: if_splits)
  ultimately show ?thesis
    using assms(1) by (simp add: server_inv_def)
qed

lemma lockable_set_locks [simp]:
  "store_locks (lockable (set_locks sid t st) sid') = (if sid' = sid then t else store_locks (lockable st sid'))"
  "store_handle (lockable (set_locks sid t st) sid') = store_handle (lockable st sid')"
  "app_storage_context (set_locks sid t st) = app_storage_context st"
  "app_meta (set_locks sid t st) = app_meta st"
  by (cases sid; cases sid'; simp)+

lemma lockable_context [simp]: "lockable (st\<lparr>app_storage_context := e\<rparr>) sid = lockable st sid"
  by (cases sid) simp_all

section \<open>Changesets\<close>

text \<open>The effect of a change on the content of the stores.\<close>

definition change_effect ::
    "('e, 's) application_store \<Rightarrow> gzochid_data_change \<Rightarrow> ('s \<Rightarrow> byte list \<rightharpoonup> byte list) \<Rightarrow> 's \<Rightarrow> byte list \<rightharpoonup> byte list" where
  "change_effect st c m = (case get_lockable_store (the (chg_store c)) of
      Inl _ \<Rightarrow> m
    | Inr sid \<Rightarrow> (let s = store_handle (lockable st sid)
        in m(s := (m s)(the (chg_key c) := if chg_delete c then None else chg_data c))))"

text \<open>The change names a store, and the node holds its key for writing there.\<close>

definition change_allowed :: "('e, 's) application_store \<Rightarrow> guint \<Rightarrow> gzochid_data_change \<Rightarrow> bool" where
  "change_allowed st n c \<longleftrightarrow> (case get_lockable_store (the (chg_store c)) of
      Inl _ \<Rightarrow> False
    | Inr sid \<Rightarrow> (n, the (chg_key c), True) \<in> held (store_locks (lockable st sid)))"

text \<open>No pointer the loop reads is \<open>NULL\<close>.\<close>

definition change_complete :: "gzochid_data_change \<Rightarrow> bool" where
  "change_complete c \<longleftrightarrow> chg_store c \<noteq> None \<and> chg_key c \<noteq> None \<and> (chg_delete c \<or> chg_data c \<noteq> None)"

lemma check_write:
  "lock_inv t \<Longrightarrow> gzochid_lock_check t n \<lparr>bytes_addr = 0, bytes_data = k\<rparr> True = Some ((n, k, True) \<in> held t)"
  by (subst lock_check_spec) auto

lemma apply_changes_spec:
  assumes c: "engine_contract iface view seen" and inv: "\<And>sid. lock_inv (store_locks (lockable st sid))"
    and "\<forall>ch \<in> set changes. change_complete ch"
  shows "\<exists>e' x' err. apply_changes iface st n changes e x = Some (e', x', err) \<and> view e' = view e
    \<and> (err = None \<longrightarrow> (\<forall>ch \<in> set changes. change_allowed st n ch)
         \<and> seen e' x' = foldl (\<lambda>m ch. change_effect st ch m) (seen e x) changes)
    \<and> ((\<forall>x. \<not> must_rollback iface x) \<and> (\<forall>ch \<in> set changes. change_allowed st n ch) \<longrightarrow> err = None)"
  using assms(3)
proof (induction changes arbitrary: e x)
  case Nil
  then show ?case by simp
next
  case (Cons ch changes)
  then obtain name k where ch: "chg_store ch = Some name" "chg_key ch = Some k" "chg_delete ch \<or> chg_data ch \<noteq> None"
    by (auto simp: change_complete_def)
  show ?case
  proof (cases "get_lockable_store name")
    case (Inl err)
    then show ?thesis using ch by (simp add: change_allowed_def)
  next
    case (Inr sid)
    let ?s = "store_handle (lockable st sid)" and ?t = "store_locks (lockable st sid)"
    have chk: "gzochid_lock_check ?t n \<lparr>bytes_addr = 0, bytes_data = k\<rparr> True = Some ((n, k, True) \<in> held ?t)"
      by (rule check_write [OF inv])
    show ?thesis
    proof (cases "(n, k, True) \<in> held ?t")
      case False
      then show ?thesis using ch Inr chk by (simp add: change_allowed_def)
    next
      case True
      obtain e1 x1 where op: "(if chg_delete ch then Some (transaction_delete iface e x ?s k)
          else map_option (transaction_put iface e x ?s k) (chg_data ch)) = Some (e1, x1)"
        using ch(3) by (cases "chg_delete ch"; cases "chg_data ch"; fastforce)
      have op': "view e1 = view e \<and> (must_rollback iface x1 \<or> seen e1 x1 = change_effect st ch (seen e x))"
      proof (cases "chg_delete ch")
        case del: True
        then show ?thesis
          using op contract_delete [OF c, of e x ?s k e1 x1] ch Inr by (auto simp: change_effect_def Let_def)
      next
        case put: False
        then obtain v where "chg_data ch = Some v" using ch(3) by auto
        with put show ?thesis
          using op contract_put [OF c, of e x ?s k v e1 x1] ch Inr by (auto simp: change_effect_def Let_def)
      qed
      have step: "apply_changes iface st n (ch # changes) e x =
          (if must_rollback iface x1 then Some (e1, x1, Some Error_Lock_Conflict)
           else apply_changes iface st n changes e1 x1)"
        using ch(1,2) Inr chk True op by simp
      show ?thesis
      proof (cases "must_rollback iface x1")
        case True
        then have "\<not> (\<forall>x. \<not> must_rollback iface x)" by blast
        with True step op' show ?thesis by simp
      next
        case False
        obtain (rest) e' x' err where r: "apply_changes iface st n changes e1 x1 = Some (e', x', err)" "view e' = view e1"
            "err = None \<longrightarrow> (\<forall>ch \<in> set changes. change_allowed st n ch)
              \<and> seen e' x' = foldl (\<lambda>m ch. change_effect st ch m) (seen e1 x1) changes"
            "(\<forall>x. \<not> must_rollback iface x) \<and> (\<forall>ch \<in> set changes. change_allowed st n ch) \<longrightarrow> err = None"
        proof -
          have "\<forall>ch \<in> set changes. change_complete ch" using Cons.prems by simp
          then show thesis using Cons.IH [of e1 x1] rest by blast
        qed
        have "change_allowed st n ch"
          using True ch Inr by (simp add: change_allowed_def)
        with r step False op' show ?thesis by auto
      qed
    qed
  qed
qed

text \<open>
  (C6) Changesets are atomic and need write locks. With consistent lock tables, an engine that keeps
  its contract and a transaction to work in, processing a changeset always returns. When it reports
  an error the committed content of the application is what it was; when it does not, the submitting
  node held every changed key for writing and the committed content is that of all the changes, in
  their order. On an engine that never asks for a rollback there is no error when the node holds
  every changed key for writing. The lock tables do not change.
\<close>

theorem changeset_atomic:
  assumes "engine_contract iface view seen" and "server_inv srv"
    and "\<forall>ch \<in> set (cs_changes cs). change_complete ch"
    and "ensure_open_application_store iface srv (cs_app cs) = (srv1, st)"
    and "snd (transaction_begin iface (app_storage_context st)) \<noteq> None"
  shows "\<exists>srv' err e. gzochi_metad_dataserver_process_changeset iface srv n cs = Some (srv', err)
    \<and> server_inv srv' \<and> map_of (application_stores srv') (cs_app cs) = Some (st\<lparr>app_storage_context := e\<rparr>)
    \<and> (if err \<noteq> None then view e = view (app_storage_context st)
       else (\<forall>ch \<in> set (cs_changes cs). change_allowed st n ch)
         \<and> view e = foldl (\<lambda>m ch. change_effect st ch m) (view (app_storage_context st)) (cs_changes cs))
    \<and> ((\<forall>x. \<not> must_rollback iface x) \<and> (\<forall>ch \<in> set (cs_changes cs). change_allowed st n ch) \<longrightarrow> err = None)"
proof -
  note c = assms(1) and open' = ensure_open_spec [OF assms(4)]
  have inv: "lock_inv (store_locks (lockable st sid))" for sid
    using server_inv_store [OF open'(5) [OF assms(2)] open'(1)] .
  obtain e0 x0 where b: "transaction_begin iface (app_storage_context st) = (e0, Some x0)"
    using assms(5) by (cases "transaction_begin iface (app_storage_context st)") auto
  note b' = contract_begin [OF c b]
  obtain e1 x1 err where a: "apply_changes iface st n (cs_changes cs) e0 x0 = Some (e1, x1, err)" "view e1 = view e0"
      "err = None \<longrightarrow> (\<forall>ch \<in> set (cs_changes cs). change_allowed st n ch)
         \<and> seen e1 x1 = foldl (\<lambda>m ch. change_effect st ch m) (seen e0 x0) (cs_changes cs)"
      "(\<forall>x. \<not> must_rollback iface x) \<and> (\<forall>ch \<in> set (cs_changes cs). change_allowed st n ch) \<longrightarrow> err = None"
    using apply_changes_spec [OF c inv assms(3), of n e0 x0] by blast
  obtain e2 x2 where p: "transaction_prepare iface e1 x1 = (e2, x2)" by fastforce
  note p' = contract_prepare [OF c p]
  define r where "r = (case err of Some er \<Rightarrow> (transaction_rollback iface e1 x1, Some er)
    | None \<Rightarrow> if must_rollback iface x2 then (transaction_rollback iface e2 x2, Some Error_Failed)
        else (transaction_commit iface e2 x2, None))"
  have res: "gzochi_metad_dataserver_process_changeset iface srv n cs =
      Some (put_store srv1 (cs_app cs) (st\<lparr>app_storage_context := fst r\<rparr>), snd r)"
    using assms(4) b a(1) p
    by (auto simp: gzochi_metad_dataserver_process_changeset_def r_def split: option.splits)
  have "server_inv (put_store srv1 (cs_app cs) (st\<lparr>app_storage_context := fst r\<rparr>))"
    using server_inv_put [OF open'(5) [OF assms(2)]] inv by simp
  moreover have "map_of (application_stores (put_store srv1 (cs_app cs) (st\<lparr>app_storage_context := fst r\<rparr>))) (cs_app cs)
      = Some (st\<lparr>app_storage_context := fst r\<rparr>)"
    using open'(1) by (simp add: put_store_stores)
  moreover have "if snd r \<noteq> None then view (fst r) = view (app_storage_context st)
       else (\<forall>ch \<in> set (cs_changes cs). change_allowed st n ch)
         \<and> view (fst r) = foldl (\<lambda>m ch. change_effect st ch m) (view (app_storage_context st)) (cs_changes cs)"
    using a(2,3) b' p' contract_rollback [OF c] contract_commit [OF c, of x2 e2]
    by (auto simp: r_def split: option.splits)
  moreover have "(\<forall>x. \<not> must_rollback iface x) \<and> (\<forall>ch \<in> set (cs_changes cs). change_allowed st n ch) \<longrightarrow> snd r = None"
    using a(4) by (auto simp: r_def)
  ultimately show ?thesis
    using res by blast
qed

section \<open>Requests for values\<close>

lemma request_value_outcome:
  assumes "engine_contract iface view seen" and "server_inv srv"
    and "ensure_open_application_store iface srv app = (srv1, st)"
    and "get_lockable_store name = Inr sid" and "range_ok (store_locks (lockable st sid))"
    and "\<And>e. snd (transaction_begin iface e) \<noteq> None"
    and "\<And>e x s k. \<not> must_rollback iface (fst (snd (transaction_get iface e x s k)))"
  shows "\<exists>srv' st' r. gzochi_metad_dataserver_request_value iface uninit srv n app name k fw now = Some (srv', Inr r)
    \<and> server_inv srv' \<and> map_of (application_stores srv') app = Some st'
    \<and> view (app_storage_context st') = view (app_storage_context st)
    \<and> (if refused (store_locks (lockable st sid)) n k fw
       then \<not> resp_success r \<and> store_locks (lockable st' sid) = store_locks (lockable st sid)
       else resp_success r
         \<and> held (store_locks (lockable st' sid)) = grant n (bytes_data k) fw (held (store_locks (lockable st sid)))
         \<and> resp_data r = view (app_storage_context st) (store_handle (lockable st sid)) (bytes_data k))"
proof -
  note c = assms(1) and open' = ensure_open_spec [OF assms(3)]
  let ?t = "store_locks (lockable st sid)"
  have inv1: "server_inv srv1" by (rule open'(5) [OF assms(2)])
  have inv: "lock_inv (store_locks (lockable st sid'))" for sid'
    using server_inv_store [OF inv1 open'(1)] .
  obtain t' ans where t': "gzochid_lock_check_and_set ?t n k fw now = Some (t', ans)" "request_outcome ?t n k fw t' ans"
    using check_and_set_outcome [OF inv assms(5)] by blast
  let ?st = "set_locks sid t' st"
  have inv': "lock_inv (store_locks (lockable ?st sid'))" for sid'
    using inv t'(2) by (simp add: request_outcome_def)
  show ?thesis
  proof (cases "refused ?t n k fw")
    case True
    then obtain ts where ans: "t' = ?t" "ans = Lock_Failure ts"
      using t'(2) by (auto simp: request_outcome_def)
    let ?r = "\<lparr>resp_app = app, resp_store = name, resp_success = False, resp_data = None,
      resp_timeout = \<lparr>tv_sec = 0, tv_usec = uninit\<rparr>\<rparr>"
    have "gzochi_metad_dataserver_request_value iface uninit srv n app name k fw now =
        Some (put_store srv1 app ?st, Inr ?r)"
      using assms(3,4) t'(1) ans
      by (simp add: gzochi_metad_dataserver_request_value_def gzochid_data_response_new_def)
    then show ?thesis
      using True ans server_inv_put [OF inv1 inv'] open'(1)
      by (intro exI [of _ "put_store srv1 app ?st"] exI [of _ ?st] exI [of _ ?r]) (simp add: put_store_stores)
  next
    case False
    then have ans: "ans = Lock_Granted" "held t' = grant n (bytes_data k) fw (held ?t)"
      using t'(2) by (auto simp: request_outcome_def)
    obtain e0 x0 where b: "transaction_begin iface (app_storage_context st) = (e0, Some x0)"
      using assms(6) [of "app_storage_context st"] by (cases "transaction_begin iface (app_storage_context st)") auto
    obtain e1 x1 d where g: "transaction_get iface e0 x0 (store_handle (lockable st sid)) (bytes_data k) = (e1, x1, d)"
      using prod_cases3 by blast
    have ok: "\<not> must_rollback iface x1"
      using assms(7) [of e0 x0 "store_handle (lockable st sid)" "bytes_data k"] g by simp
    have d: "d = view (app_storage_context st) (store_handle (lockable st sid)) (bytes_data k)"
      and v: "view e1 = view (app_storage_context st)"
      using contract_get [OF c g] ok contract_begin [OF c b] by auto
    let ?r = "\<lparr>resp_app = app, resp_store = name, resp_success = True, resp_data = d,
      resp_timeout = \<lparr>tv_sec = 0, tv_usec = uninit\<rparr>\<rparr>"
    let ?st' = "?st\<lparr>app_storage_context := transaction_rollback iface e1 x1\<rparr>"
    have "gzochi_metad_dataserver_request_value iface uninit srv n app name k fw now =
        Some (put_store srv1 app ?st', Inr ?r)"
      using assms(3,4) t'(1) ans(1) b g
      by (simp add: gzochi_metad_dataserver_request_value_def gzochid_data_response_new_def)
    moreover have "server_inv (put_store srv1 app ?st')"
      using server_inv_put [OF inv1, of ?st' app] inv' by simp
    ultimately show ?thesis
      using False ans(2) open'(1) d v contract_rollback [OF c, of e1 x1]
      by (intro exI [of _ "put_store srv1 app ?st'"] exI [of _ ?st'] exI [of _ ?r]) (simp add: put_store_stores)
  qed
qed

text \<open>
  (C26) Requests for a value. With consistent lock tables, a range tree in order and an engine whose
  transactions start and read without failure, a request always returns. It is answered with
  failure, and without a change of the locks, exactly when the lock is refused; otherwise the
  node holds the key afterwards and the answer carries the committed value of the key, if there is
  one. Neither case changes the committed content.
\<close>

theorem request_value_correct:
  assumes "engine_contract iface view seen" and "server_inv srv"
    and "ensure_open_application_store iface srv app = (srv1, st)"
    and "get_lockable_store name = Inr sid" and "range_ok (store_locks (lockable st sid))"
    and "\<And>e. snd (transaction_begin iface e) \<noteq> None"
    and "\<And>e x s k. \<not> must_rollback iface (fst (snd (transaction_get iface e x s k)))"
  shows "\<exists>srv' st' r. gzochi_metad_dataserver_request_value iface uninit srv n app name k fw now = Some (srv', Inr r)
    \<and> server_inv srv' \<and> map_of (application_stores srv') app = Some st'
    \<and> view (app_storage_context st') = view (app_storage_context st)
    \<and> (if refused (store_locks (lockable st sid)) n k fw
       then \<not> resp_success r \<and> store_locks (lockable st' sid) = store_locks (lockable st sid)
       else resp_success r
         \<and> held (store_locks (lockable st' sid)) = grant n (bytes_data k) fw (held (store_locks (lockable st sid)))
         \<and> resp_data r = view (app_storage_context st) (store_handle (lockable st sid)) (bytes_data k))"
  by (rule request_value_outcome [OF assms])

text \<open>A server on the plain engine, and one where node 1 holds the name \<open>b\<close> for writing.\<close>

definition empty_server :: "(content, cstring) dataserver" where
  "empty_server = \<lparr>application_stores = [], next_bytes = 0\<rparr>"

definition app_a :: cstring where "app_a = [97]"

definition writer_server :: "(content, cstring) dataserver" where
  "writer_server = fst (the (gzochi_metad_dataserver_request_value map_engine 0 empty_server 1 app_a
     names_name key_b True (sec 1)))"

lemma empty_server_inv: "server_inv empty_server"
  by (simp add: server_inv_def empty_server_def)

lemma map_engine_total:
  "snd (transaction_begin map_engine e) \<noteq> None" "\<not> must_rollback map_engine x"
  by (simp_all add: map_engine_def)

lemma empty_server_opened:
  obtains srv1 st where "ensure_open_application_store map_engine empty_server app_a = (srv1, st)"
    and "store_locks (lockable st sid) = gzochid_lock_table_new" and "store_handle (lockable st Names_Store) = names_name"
    and "app_storage_context st = (\<lambda>_. Map.empty)"
proof -
  show ?thesis
    by (rule that [OF prod.collapse [symmetric]]; cases sid)
      (simp_all add: ensure_open_application_store_def empty_server_def map_engine_def Let_def)
qed

theorem request_value_correct_witness:
  "\<exists>srv' st' r. gzochi_metad_dataserver_request_value map_engine 0 empty_server 1 app_a names_name key_b True (sec 1)
      = Some (srv', Inr r) \<and> map_of (application_stores srv') app_a = Some st' \<and> resp_success r \<and> resp_data r = None
    \<and> (1, [98], True) \<in> held (store_locks (app_names st'))"
proof -
  obtain srv1 st where o: "ensure_open_application_store map_engine empty_server app_a = (srv1, st)"
      "store_locks (lockable st Names_Store) = gzochid_lock_table_new"
      "store_handle (lockable st Names_Store) = names_name" "app_storage_context st = (\<lambda>_. Map.empty)"
    by (rule empty_server_opened)
  have name: "get_lockable_store names_name = Inr Names_Store"
    by (simp add: get_lockable_store_def names_name_def oids_name_def)
  have "\<not> refused gzochid_lock_table_new 1 key_b True"
    by (simp add: refused_def point_conflict_def covering_def held_def gzochid_lock_table_new_def
      gzochid_itree_new_def itree_entries_def)
  moreover have "(1, [98], True) \<in> grant 1 (bytes_data key_b) True (held gzochid_lock_table_new)"
    by (simp add: grant_def key_b_def)
  ultimately show ?thesis
    using request_value_correct [OF map_engine_contract empty_server_inv o(1) name _ map_engine_total, of 0 1 key_b True "sec 1"]
      ranges_new_ok o by auto
qed


lemma writer_server_spec:
  obtains st where "map_of (application_stores writer_server) app_a = Some st" and "server_inv writer_server"
    and "(1, [98], True) \<in> held (store_locks (app_names st))"
proof -
  obtain srv1 st where o: "ensure_open_application_store map_engine empty_server app_a = (srv1, st)"
      "store_locks (lockable st Names_Store) = gzochid_lock_table_new"
    by (rule empty_server_opened)
  have name: "get_lockable_store names_name = Inr Names_Store"
    by (simp add: get_lockable_store_def names_name_def oids_name_def)
  have "\<not> refused gzochid_lock_table_new 1 key_b True"
    by (simp add: refused_def point_conflict_def covering_def held_def gzochid_lock_table_new_def
      gzochid_itree_new_def itree_entries_def)
  moreover have "(1, [98], True) \<in> grant 1 (bytes_data key_b) True (held gzochid_lock_table_new)"
    by (simp add: grant_def key_b_def)
  ultimately show ?thesis
    using request_value_outcome [OF map_engine_contract empty_server_inv o(1) name _ map_engine_total, of 0 1 key_b True "sec 1"]
      ranges_new_ok o(2) that by (auto simp: writer_server_def)
qed

definition put_b :: gzochid_data_changeset where
  "put_b = \<lparr>cs_app = app_a, cs_changes = [\<lparr>chg_store = Some names_name, chg_delete = False,
     chg_key = Some [98], chg_data = Some [1, 2]\<rparr>]\<rparr>"

theorem changeset_atomic_witness:
  "\<exists>srv' st'. gzochi_metad_dataserver_process_changeset map_engine writer_server 1 put_b = Some (srv', None)
    \<and> map_of (application_stores srv') app_a = Some st' \<and> app_storage_context st' names_name [98] = Some [1, 2]"
proof -
  obtain st where st: "map_of (application_stores writer_server) app_a = Some st" "server_inv writer_server"
      "(1, [98], True) \<in> held (store_locks (app_names st))"
    by (rule writer_server_spec)
  have o: "ensure_open_application_store map_engine writer_server (cs_app put_b) = (writer_server, st)"
    using st(1) by (simp add: ensure_open_application_store_def put_b_def)
  have h: "map_option (\<lambda>s. store_handle (app_names s)) (map_of (application_stores writer_server) app_a) = Some names_name"
    unfolding writer_server_def by code_simp
  have cc: "\<forall>ch \<in> set (cs_changes put_b). change_complete ch"
    by (simp add: put_b_def change_complete_def)
  have al: "\<forall>ch \<in> set (cs_changes put_b). change_allowed st 1 ch"
    using st(3) by (simp add: put_b_def change_allowed_def get_lockable_store_def names_name_def oids_name_def)
  obtain srv' err e where r: "gzochi_metad_dataserver_process_changeset map_engine writer_server 1 put_b = Some (srv', err)"
      "map_of (application_stores srv') (cs_app put_b) = Some (st\<lparr>app_storage_context := e\<rparr>)"
      "if err \<noteq> None then e = app_storage_context st else (\<forall>ch \<in> set (cs_changes put_b). change_allowed st 1 ch)
         \<and> e = foldl (\<lambda>m ch. change_effect st ch m) (app_storage_context st) (cs_changes put_b)"
      "(\<forall>x. \<not> must_rollback map_engine x) \<and> (\<forall>ch \<in> set (cs_changes put_b). change_allowed st 1 ch) \<longrightarrow> err = None"
    using changeset_atomic [OF map_engine_contract st(2) cc o map_engine_total(1), of 1] by blast
  have "err = None" using r(4) al map_engine_total(2) by blast
  with r h st(1) show ?thesis
    by (intro exI [of _ srv'] exI [of _ "st\<lparr>app_storage_context := e\<rparr>"])
      (simp add: put_b_def change_effect_def get_lockable_store_def names_name_def oids_name_def Let_def)
qed


section \<open>The server's invariant under its operations\<close>

text \<open>The nodes of a lock table after a call of one node, and of the server after its requests.\<close>

fun op_node :: "lock_op \<Rightarrow> guint" where
  "op_node (Acquire n k fw now) = n"
| "op_node (Acquire_Range n fr to now) = n"
| "op_node (Release n k) = n"
| "op_node (Release_Range n fr to) = n"
| "op_node (Release_All n) = n"

definition lock_nodes :: "gzochid_lock_table \<Rightarrow> guint set" where
  "lock_nodes t = dom (nodes_to_locks t)"

lemma lock_nodes_registration: "lock_nodes (fst (ensure_node_registration t n)) = insert n (lock_nodes t)"
  by (auto simp: ensure_node_registration_def lock_nodes_def split: option.splits)

lemma acquire_nodes:
  "create_lock t n k fw now = Some (t', r) \<Longrightarrow> lock_nodes t' \<subseteq> insert n (lock_nodes t)"
  "share_lock t i ls n k fw now = Some (t', r) \<Longrightarrow> lock_nodes t' \<subseteq> insert n (lock_nodes t)"
  "upgrade_lock t i ls a now = Some (t', r) \<Longrightarrow> lock_nodes t' \<subseteq> insert n (lock_nodes t)"
  "create_range_lock t n fr to now = Some (t', r) \<Longrightarrow> lock_nodes t' \<subseteq> insert n (lock_nodes t)"
  by (auto simp: create_lock_def share_lock_def upgrade_lock_def create_range_lock_def ensure_node_registration_def
    lock_nodes_def bind_eq_Some_conv Let_def split: option.splits if_splits)

lemma remove_nodes:
  "remove_lock t a = Some t' \<Longrightarrow> lock_nodes t' \<subseteq> lock_nodes t"
  "remove_range_lock t a = Some t' \<Longrightarrow> lock_nodes t' \<subseteq> lock_nodes t"
  by (auto simp: remove_lock_def remove_range_lock_def update_node_locks_def lock_nodes_def bind_eq_Some_conv Let_def
    split: option.splits if_splits)

lemma foreach_nodes:
  assumes "\<And>t a t'. f t a = Some t' \<Longrightarrow> lock_nodes t' \<subseteq> lock_nodes t"
  shows "g_list_foreach f as t = Some t' \<Longrightarrow> lock_nodes t' \<subseteq> lock_nodes t"
proof (induction as arbitrary: t)
  case (Cons a as)
  then obtain t1 where "f t a = Some t1" "g_list_foreach f as t1 = Some t'" by (auto simp: bind_eq_Some_conv)
  with Cons.IH assms show ?case by blast
qed simp

lemma lock_step_nodes:
  assumes "lock_step np op t = Some t'"
  shows "lock_nodes t' \<subseteq> insert (op_node op) (lock_nodes t)"
proof (cases op)
  case (Acquire n k fw now)
  then obtain r where "gzochid_lock_check_and_set t n k fw now = Some (t', r)" using assms by auto
  then consider "t' = t" | i ls where "share_lock t i ls n k fw now = Some (t', r)"
    | i ls a where "upgrade_lock t i ls a now = Some (t', r)" | "create_lock t n k fw now = Some (t', r)"
    by (auto simp: gzochid_lock_check_and_set_def bind_eq_Some_conv split: option.splits if_splits)
  then show ?thesis using acquire_nodes(1-3) Acquire by cases auto
next
  case (Acquire_Range n fr to now)
  then obtain r where "gzochid_lock_range_check_and_set np t n fr to now = Some (t', r)" using assms by auto
  then have "t' = t \<or> create_range_lock t n fr to now = Some (t', r)"
    by (auto simp: gzochid_lock_range_check_and_set_def bind_eq_Some_conv split: option.splits)
  then show ?thesis using acquire_nodes(4) [of t n fr to now t' r] Acquire_Range by auto
next
  case (Release n k)
  then have "t' = t \<or> (\<exists>a. remove_lock t a = Some t')"
    using assms by (auto simp: gzochid_lock_release_def bind_eq_Some_conv split: option.splits)
  then show ?thesis using remove_nodes(1) by blast
next
  case (Release_Range n fr to)
  then have "t' = t \<or> (\<exists>a. remove_range_lock t a = Some t')"
    using assms by (auto simp: gzochid_lock_release_range_def bind_eq_Some_conv split: option.splits)
  then show ?thesis using remove_nodes(2) by blast
next
  case (Release_All n)
  then have "lock_nodes t' \<subseteq> lock_nodes t"
    using assms foreach_nodes [of remove_lock, OF remove_nodes(1)]
      foreach_nodes [of remove_range_lock, OF remove_nodes(2)]
    by (fastforce simp: gzochid_lock_release_all_def bind_eq_Some_conv split: option.splits)
  then show ?thesis by blast
qed

text \<open>The invariant of the server, when only the nodes in \<open>N\<close> have locks.\<close>

definition server_ok :: "guint set \<Rightarrow> ('e, 's) dataserver \<Rightarrow> bool" where
  "server_ok N srv \<longleftrightarrow> server_inv srv
     \<and> (\<forall>(app, st) \<in> set (application_stores srv). \<forall>sid. lock_nodes (store_locks (lockable st sid)) \<subseteq> N)"

lemma server_inv_ok: "server_inv srv = server_ok UNIV srv"
  by (simp add: server_ok_def)

lemma server_ok_mono: "server_ok N srv \<Longrightarrow> N \<subseteq> M \<Longrightarrow> server_ok M srv"
  unfolding server_ok_def by fastforce

lemma ensure_open_ok:
  assumes "ensure_open_application_store iface srv app = (srv1, st)" and "server_ok N srv"
  shows "server_ok N srv1" and "lock_nodes (store_locks (lockable st sid)) \<subseteq> N"
    and "lock_inv (store_locks (lockable st sid))"
proof -
  note open' = ensure_open_spec [OF assms(1)]
  have inv: "server_inv srv1" using open'(5) assms(2) by (simp add: server_ok_def)
  have "\<forall>(a, s) \<in> set (application_stores srv1). \<forall>sid. lock_nodes (store_locks (lockable s sid)) \<subseteq> N"
  proof (cases "map_of (application_stores srv) app")
    case None
    then have "srv1 = srv\<lparr>application_stores := application_stores srv @ [(app, st)]\<rparr>"
      and "store_locks (app_oids st) = gzochid_lock_table_new" "store_locks (app_names st) = gzochid_lock_table_new"
      using assms(1) by (auto simp: ensure_open_application_store_def Let_def split: prod.splits)
    moreover have "lock_nodes (store_locks (lockable st sid)) = {}" for sid
      using calculation(2,3) by (cases sid) (simp_all add: lock_nodes_def gzochid_lock_table_new_def)
    ultimately show ?thesis using assms(2) by (auto simp: server_ok_def)
  next
    case (Some s)
    then have "srv1 = srv" using open'(4) by blast
    then show ?thesis using assms(2) by (simp add: server_ok_def)
  qed
  with inv show "server_ok N srv1" by (simp add: server_ok_def)
  then show "lock_nodes (store_locks (lockable st sid)) \<subseteq> N"
    using map_of_SomeD [OF open'(1)] by (fastforce simp: server_ok_def)
  show "lock_inv (store_locks (lockable st sid))" by (rule server_inv_store [OF inv open'(1)])
qed

lemma server_ok_put:
  assumes "server_ok N srv" and "\<And>sid. lock_inv (store_locks (lockable st sid))"
    and "\<And>sid. lock_nodes (store_locks (lockable st sid)) \<subseteq> N"
  shows "server_ok N (put_store srv app st)"
  using server_inv_put [of srv st app] assms
  by (fastforce simp: server_ok_def put_store_def split: if_splits)

lemma server_ok_step:
  assumes "server_ok N srv" and "ensure_open_application_store iface srv app = (srv1, st)"
    and "lock_step np op (store_locks (lockable st sid)) = Some t'" and "op_node op \<in> N"
    and "application_stores srv2 = application_stores srv1"
  shows "server_ok N (put_store srv2 app ((set_locks sid t' st)\<lparr>app_storage_context := e\<rparr>))"
proof (rule server_ok_put)
  note ok = ensure_open_ok [OF assms(2,1)]
  show "server_ok N srv2"
    using ok(1) assms(5) by (simp add: server_ok_def server_inv_def)
  show "lock_inv (store_locks (lockable ((set_locks sid t' st)\<lparr>app_storage_context := e\<rparr>) sid'))" for sid'
    using ok(3) lock_step_inv [OF ok(3) assms(3)] by simp
  show "lock_nodes (store_locks (lockable ((set_locks sid t' st)\<lparr>app_storage_context := e\<rparr>) sid')) \<subseteq> N" for sid'
    using ok(2) [of sid'] ok(2) [of sid] lock_step_nodes [OF assms(3)] assms(4) by auto
qed

lemma set_locks_context [simp]:
  "(set_locks sid t st)\<lparr>app_storage_context := app_storage_context st\<rparr> = set_locks sid t st"
  by (cases sid) simp_all

lemma request_value_ok:
  assumes "server_ok N srv" and "n \<in> N"
    and "gzochi_metad_dataserver_request_value iface uninit srv n app name k fw now = Some (srv', r)"
  shows "server_ok N srv'"
proof -
  obtain srv1 st where o: "ensure_open_application_store iface srv app = (srv1, st)" by fastforce
  show ?thesis
  proof (cases "get_lockable_store name")
    case (Inl err)
    then show ?thesis
      using assms o ensure_open_ok(1) [OF o] by (auto simp: gzochi_metad_dataserver_request_value_def)
  next
    case (Inr sid)
    obtain t' ans where t': "gzochid_lock_check_and_set (store_locks (lockable st sid)) n k fw now = Some (t', ans)"
      using assms(3) o Inr
      by (auto simp: gzochi_metad_dataserver_request_value_def bind_eq_Some_conv)
    have "\<exists>e. srv' = put_store srv1 app ((set_locks sid t' st)\<lparr>app_storage_context := e\<rparr>)"
    proof (cases ans)
      case Lock_Granted
      let ?st = "set_locks sid t' st"
      obtain e tx where b: "transaction_begin iface (app_storage_context ?st) = (e, tx)" by fastforce
      obtain x where x: "tx = Some x"
        using assms(3) o Inr t' Lock_Granted b
        by (cases tx) (auto simp: gzochi_metad_dataserver_request_value_def)
      obtain e1 x1 d where g: "transaction_get iface e x (store_handle (lockable ?st sid)) (bytes_data k) = (e1, x1, d)"
        using prod_cases3 by blast
      have "srv' = put_store srv1 app (?st\<lparr>app_storage_context := transaction_rollback iface e1 x1\<rparr>)"
        using assms(3) o Inr t' Lock_Granted b x g
        by (simp add: gzochi_metad_dataserver_request_value_def gzochid_data_response_new_def)
      then show ?thesis by blast
    next
      case (Lock_Failure ts)
      then have "srv' = put_store srv1 app (set_locks sid t' st)" using assms(3) o Inr t'
        by (auto simp: gzochi_metad_dataserver_request_value_def bind_eq_Some_conv)
      then show ?thesis by (intro exI [of _ "app_storage_context st"]) simp
    qed
    then show ?thesis
      using t' server_ok_step [OF assms(1) o, of "\<lambda>_. 0" "Acquire n k fw now" sid t' srv1] assms(2) by auto
  qed
qed

lemma request_next_key_ok:
  assumes "server_ok N srv" and "n \<in> N"
    and "gzochi_metad_dataserver_request_next_key iface np uninit srv n app name k now = Some (srv', r)"
  shows "server_ok N srv'"
proof -
  obtain srv1 st where o: "ensure_open_application_store iface srv app = (srv1, st)" by fastforce
  show ?thesis
  proof (cases "get_lockable_store name")
    case (Inl err)
    then show ?thesis
      using assms o ensure_open_ok(1) [OF o] by (auto simp: gzochi_metad_dataserver_request_next_key_def)
  next
    case (Inr sid)
    obtain e tx where b: "transaction_begin iface (app_storage_context st) = (e, tx)" by fastforce
    obtain x where x: "tx = Some x"
      using assms(3) o Inr b by (auto simp: gzochi_metad_dataserver_request_next_key_def bind_eq_Some_conv)
    obtain e1 x1 d where d: "(case k of None \<Rightarrow> transaction_first_key iface e x (store_handle (lockable st sid))
        | Some key \<Rightarrow> transaction_next_key iface e x (store_handle (lockable st sid)) (bytes_data key)) = (e1, x1, d)"
      using prod_cases3 by blast
    define srv2 where "srv2 = (case d of None \<Rightarrow> srv1 | Some bs \<Rightarrow> fst (gbytes_new srv1 bs))"
    define to_key where "to_key = (case d of None \<Rightarrow> None | Some bs \<Rightarrow> Some (snd (gbytes_new srv1 bs)))"
    have sk: "(case d of None \<Rightarrow> (srv1, None) | Some bs \<Rightarrow> (case gbytes_new srv1 bs of (srv, g) \<Rightarrow> (srv, Some g)))
        = (srv2, to_key)"
      by (auto simp: srv2_def to_key_def split: option.splits prod.splits)
    have same: "application_stores srv2 = application_stores srv1"
      by (simp add: srv2_def gbytes_new_def split: option.split)
    let ?st = "st\<lparr>app_storage_context := transaction_rollback iface e1 x1\<rparr>"
    obtain t' ans where t: "gzochid_lock_range_check_and_set np (store_locks (lockable st sid)) n k to_key now = Some (t', ans)"
      using assms(3) o Inr b x d sk
      by (auto simp: gzochi_metad_dataserver_request_next_key_def bind_eq_Some_conv Let_def split: if_splits)
    then have t': "srv' = put_store srv2 app (set_locks sid t' ?st)"
      using assms(3) o Inr b x d sk
      by (cases ans) (auto simp: gzochi_metad_dataserver_request_next_key_def bind_eq_Some_conv Let_def
          split: if_splits)
    have "set_locks sid t' ?st = (set_locks sid t' st)\<lparr>app_storage_context := transaction_rollback iface e1 x1\<rparr>"
      by (cases sid) simp_all
    then show ?thesis
      using server_ok_step [OF assms(1) o, of np "Acquire_Range n k to_key now" sid t' srv2] t t' same assms(2) by simp
  qed
qed

lemma process_changeset_ok:
  assumes "server_ok N srv" and "n \<in> N" and "gzochi_metad_dataserver_process_changeset iface srv n cs = Some (srv', err)"
  shows "server_ok N srv'"
proof -
  obtain srv1 st where o: "ensure_open_application_store iface srv (cs_app cs) = (srv1, st)" by fastforce
  then obtain e where "srv' = put_store srv1 (cs_app cs) (st\<lparr>app_storage_context := e\<rparr>)"
    using assms(3) by (auto simp: gzochi_metad_dataserver_process_changeset_def bind_eq_Some_conv
      split: prod.splits option.splits if_splits)
  then show ?thesis
    using server_ok_put [OF ensure_open_ok(1) [OF o assms(1)]] ensure_open_ok(2,3) [OF o assms(1)] by simp
qed

lemma reserve_oids_ok:
  assumes "server_ok N srv" and "n \<in> N" and "gzochi_metad_dataserver_reserve_oids iface be srv n app = Some (srv', r)"
  shows "server_ok N srv'"
proof -
  obtain srv1 st where o: "ensure_open_application_store iface srv app = (srv1, st)" by fastforce
  then obtain e q where "allocate iface be (app_storage_context st) (app_meta st) = Some (e, q)"
    using assms(3) by (auto simp: gzochi_metad_dataserver_reserve_oids_def bind_eq_Some_conv)
  with o assms(3) have "srv' = put_store srv1 app (st\<lparr>app_storage_context := e\<rparr>)"
    by (cases q) (auto simp: gzochi_metad_dataserver_reserve_oids_def)
  then show ?thesis
    using server_ok_put [OF ensure_open_ok(1) [OF o assms(1)]] ensure_open_ok(2,3) [OF o assms(1)] by simp
qed

lemma release_key_ok:
  assumes "server_ok N srv" and "n \<in> N" and "gzochi_metad_dataserver_release_key iface srv n app name k = Some srv'"
  shows "server_ok N srv'"
proof -
  obtain srv1 st where o: "ensure_open_application_store iface srv app = (srv1, st)" by fastforce
  show ?thesis
  proof (cases "get_lockable_store name")
    case (Inl err)
    then show ?thesis
      using assms o ensure_open_ok(1) [OF o] by (auto simp: gzochi_metad_dataserver_release_key_def)
  next
    case (Inr sid)
    then obtain t' where "gzochid_lock_release (store_locks (lockable st sid)) n k = Some t'"
        "srv' = put_store srv1 app (set_locks sid t' st)"
      using assms(3) o by (auto simp: gzochi_metad_dataserver_release_key_def bind_eq_Some_conv)
    then show ?thesis
      using server_ok_step [OF assms(1) o, of "\<lambda>_. 0" "Release n k" sid t' srv1 "app_storage_context (set_locks sid t' st)"]
      assms(2) by simp
  qed
qed

lemma release_range_ok:
  assumes "server_ok N srv" and "n \<in> N" and "gzochi_metad_dataserver_release_range iface srv n app name fr to = Some srv'"
  shows "server_ok N srv'"
proof -
  obtain srv1 st where o: "ensure_open_application_store iface srv app = (srv1, st)" by fastforce
  show ?thesis
  proof (cases "get_lockable_store name")
    case (Inl err)
    then show ?thesis
      using assms o ensure_open_ok(1) [OF o] by (auto simp: gzochi_metad_dataserver_release_range_def)
  next
    case (Inr sid)
    then obtain t' where "gzochid_lock_release_range (store_locks (lockable st sid)) n fr to = Some t'"
        "srv' = put_store srv1 app (set_locks sid t' st)"
      using assms(3) o by (auto simp: gzochi_metad_dataserver_release_range_def bind_eq_Some_conv)
    then show ?thesis
      using server_ok_step [OF assms(1) o, of "\<lambda>_. 0" "Release_Range n fr to" sid t' srv1 "app_storage_context (set_locks sid t' st)"]
      assms(2) by simp
  qed
qed


lemma release_all_stores_inv:
  assumes "release_all_stores n stores = Some stores'"
    and "\<forall>(app, st) \<in> set stores. \<forall>sid. lock_inv (store_locks (lockable st sid))"
  shows "map fst stores' = map fst stores
    \<and> (\<forall>(app, st) \<in> set stores'. \<forall>sid. lock_inv (store_locks (lockable st sid))
         \<and> nodes_to_locks (store_locks (lockable st sid)) n = None)"
  using assms
proof (induction n stores arbitrary: stores' rule: release_all_stores.induct)
  case (2 n app st stores)
  obtain t1 t2 rest where r: "gzochid_lock_release_all (store_locks (app_oids st)) n = Some t1"
      "gzochid_lock_release_all (store_locks (app_names st)) n = Some t2"
      "release_all_stores n stores = Some rest"
      "stores' = (app, set_locks Names_Store t2 (set_locks Oids_Store t1 st)) # rest"
    using "2.prems"(1) by (auto simp: bind_eq_Some_conv)
  have "lock_inv (store_locks (lockable st sid))" for sid using "2.prems"(2) by simp
  from this [of Oids_Store] this [of Names_Store]
  have inv: "lock_inv (store_locks (app_oids st))" "lock_inv (store_locks (app_names st))" by simp_all
  have "lock_inv t1 \<and> nodes_to_locks t1 n = None" "lock_inv t2 \<and> nodes_to_locks t2 n = None"
    using release_all_spec(2) [OF inv(1) r(1)] release_all_spec(2) [OF inv(2) r(2)] by auto
  then have "lock_inv (store_locks (lockable (set_locks Names_Store t2 (set_locks Oids_Store t1 st)) sid))
      \<and> nodes_to_locks (store_locks (lockable (set_locks Names_Store t2 (set_locks Oids_Store t1 st)) sid)) n = None" for sid
    by (cases sid) simp_all
  with "2.IH" [OF r(1,2,3)] "2.prems"(2) r(4) show ?case by auto
qed simp

lemma release_all_inv:
  assumes "server_inv srv" and "gzochi_metad_dataserver_release_all srv n = Some srv'"
  shows "server_inv srv' \<and> (\<forall>(app, st) \<in> set (application_stores srv'). \<forall>sid.
    nodes_to_locks (store_locks (lockable st sid)) n = None)"
proof -
  obtain stores where s: "release_all_stores n (application_stores srv) = Some stores"
      "srv' = srv\<lparr>application_stores := stores\<rparr>"
    using assms(2) by (auto simp: gzochi_metad_dataserver_release_all_def bind_eq_Some_conv)
  have "map fst stores = map fst (application_stores srv)
      \<and> (\<forall>(app, st) \<in> set stores. \<forall>sid. lock_inv (store_locks (lockable st sid))
         \<and> nodes_to_locks (store_locks (lockable st sid)) n = None)"
    using release_all_stores_inv [OF s(1)] assms(1) by (auto simp: server_inv_def)
  with assms(1) s(2) show ?thesis
    by (auto simp: server_inv_def)
qed

end
