(* ===== verification/Framing.thy ===== *)
theory Framing
  imports Data_Protocol
begin

text \<open>
  The framing shared by the protocols between the meta server and its application servers. A
  message on the wire is a two byte big-endian length, an opcode byte and as many payload bytes as
  the length says. Every protocol file has its own copy of the loop over a received buffer
  (\<open>client_dispatch\<close>) and of the test for a complete message (\<open>can_dispatch\<close>); the copies
  differ only in the \<open>dispatch_message\<close> they call, which is a parameter here.

  A handler gets the buffer, the offset of the opcode and the number of bytes of opcode and payload
  as an \<open>unsigned short\<close>. \<open>None\<close> is a fault inside the handler.
\<close>

section \<open>What holds when a call returns\<close>

definition on_return :: "('a \<Rightarrow> bool) \<Rightarrow> 'a option \<Rightarrow> bool" where
  "on_return P q \<longleftrightarrow> (\<forall>x. q = Some x \<longrightarrow> P x)"

named_theorems on_return_intros

lemma on_return_None [on_return_intros]: "on_return P None"
  by (simp add: on_return_def)

lemma on_return_Some [on_return_intros]: "P x \<Longrightarrow> on_return P (Some x)"
  by (simp add: on_return_def)

lemma on_return_bind [on_return_intros]:
  "(\<And>x. q = Some x \<Longrightarrow> on_return P (f x)) \<Longrightarrow> on_return P (Option.bind q f)"
  by (auto simp: on_return_def bind_eq_Some_conv)

lemma on_return_if [on_return_intros]:
  "(b \<Longrightarrow> on_return P x) \<Longrightarrow> (\<not> b \<Longrightarrow> on_return P y) \<Longrightarrow> on_return P (if b then x else y)"
  by simp

lemma on_return_option [on_return_intros]:
  "(x = None \<Longrightarrow> on_return P f) \<Longrightarrow> (\<And>y. x = Some y \<Longrightarrow> on_return P (g y)) \<Longrightarrow>
    on_return P (case x of None \<Rightarrow> f | Some y \<Rightarrow> g y)"
  by (cases x) simp_all

lemma on_return_sum [on_return_intros]:
  "(\<And>y. x = Inl y \<Longrightarrow> on_return P (f y)) \<Longrightarrow> (\<And>y. x = Inr y \<Longrightarrow> on_return P (g y)) \<Longrightarrow>
    on_return P (case x of Inl y \<Rightarrow> f y | Inr y \<Rightarrow> g y)"
  by (cases x) simp_all

lemma on_return_prod [on_return_intros]:
  "(\<And>a b. x = (a, b) \<Longrightarrow> on_return P (f a b)) \<Longrightarrow> on_return P (case x of (a, b) \<Rightarrow> f a b)"
  by (cases x) simp

lemma on_return_let [on_return_intros]: "on_return P (f x) \<Longrightarrow> on_return P (let y = x in f y)"
  by (simp add: Let_def)

section \<open>The dispatch loop\<close>

definition can_dispatch :: "byte list \<Rightarrow> bool option" where
  "can_dispatch buffer =
     (if 3 \<le> length buffer
      then do {
        payload_len \<leftarrow> gzochi_common_io_read_short buffer 0;
        Some (unat payload_len + 3 \<le> length buffer)
      }
      else Some False)"

function dispatch_loop ::
    "(byte list \<Rightarrow> nat \<Rightarrow> 16 word \<Rightarrow> 'st \<Rightarrow> 'st option) \<Rightarrow> byte list \<Rightarrow> nat \<Rightarrow> int \<Rightarrow> nat \<Rightarrow> 'st \<Rightarrow>
     ('st \<times> nat) option" where
  "dispatch_loop dispatch_message buffer offset remaining tot st =
     (if 3 \<le> remaining
      then Option.bind (gzochi_common_io_read_short buffer offset) (\<lambda>prefix.
        let len = prefix + 1
        in if remaining - 2 < int (unat len) then Some (st, tot)
           else Option.bind (dispatch_message buffer (offset + 2) len st) (\<lambda>st.
             dispatch_loop dispatch_message buffer (offset + 2 + unat len)
               (remaining - (int (unat len) + 2)) (tot + (unat len + 2)) st))
      else Some (st, tot))"
  by pat_completeness auto
termination
  by (relation "measure (\<lambda>(_, _, _, remaining, _, _). nat remaining)") (auto intro: le_less_trans [of _ 0])

declare dispatch_loop.simps [simp del]

definition client_dispatch ::
    "(byte list \<Rightarrow> nat \<Rightarrow> 16 word \<Rightarrow> 'st \<Rightarrow> 'st option) \<Rightarrow> byte list \<Rightarrow> 'st \<Rightarrow> ('st \<times> nat) option" where
  "client_dispatch dispatch_message buffer st =
     dispatch_loop dispatch_message buffer 0 (int (length buffer)) 0 st"

text \<open>What every message keeps, the loop keeps, whatever the lengths are.\<close>

lemma dispatch_loop_keeps:
  assumes keeps: "\<And>m p len st. P st \<Longrightarrow> on_return P (dispatch_message m p len st)"
  shows "P st \<Longrightarrow> on_return (\<lambda>(st, n). P st) (dispatch_loop dispatch_message buf offset remaining tot st)"
proof (induction "nat remaining" arbitrary: offset remaining tot st rule: less_induct)
  case less
  show ?case
  proof (subst dispatch_loop.simps, intro on_return_intros)
    fix v st'
    assume "3 \<le> remaining" and "dispatch_message buf (offset + 2) (v + 1) st = Some st'"
    then show "on_return (\<lambda>(st, n). P st) (dispatch_loop dispatch_message buf (offset + 2 + unat (v + 1))
        (remaining - (int (unat (v + 1)) + 2)) (tot + (unat (v + 1) + 2)) st')"
      using keeps [OF less.prems, of buf "offset + 2" "v + 1"]
      by (intro less.hyps) (auto simp: on_return_def intro: le_less_trans [of _ 0])
  qed (use less.prems in auto)
qed

lemma client_dispatch_keeps:
  assumes "\<And>m p len st. P st \<Longrightarrow> on_return P (dispatch_message m p len st)" and "P st"
  shows "on_return (\<lambda>(st, n). P st) (client_dispatch dispatch_message buf st)"
  unfolding client_dispatch_def by (rule dispatch_loop_keeps [OF assms])

section \<open>Frames\<close>

text \<open>The length of the first frame of a buffer, without the prefix.\<close>

definition frame_len :: "byte list \<Rightarrow> nat" where
  "frame_len buf = (case gzochi_common_io_read_short buf 0 of None \<Rightarrow> 0 | Some v \<Rightarrow> unat v + 1)"

function frames :: "byte list \<Rightarrow> byte list list" where
  "frames buf =
     (if length buf < 3 \<or> length buf < frame_len buf + 2 then []
      else take (frame_len buf) (drop 2 buf) # frames (drop (frame_len buf + 2) buf))"
  by pat_completeness auto
termination
  by (relation "measure length") auto

declare frames.simps [simp del]

definition consumed :: "byte list \<Rightarrow> nat" where
  "consumed buf = sum_list (map (\<lambda>msg. length msg + 2) (frames buf))"

text \<open>No frame of the buffer announces 65535 bytes of payload.\<close>

function no_max_frame :: "byte list \<Rightarrow> bool" where
  "no_max_frame buf =
     (if length buf < 3 then True
      else frame_len buf \<noteq> 2 ^ 16
        \<and> (if length buf < frame_len buf + 2 then True else no_max_frame (drop (frame_len buf + 2) buf)))"
  by pat_completeness auto
termination
  by (relation "measure length") auto

declare no_max_frame.simps [simp del]

text \<open>A message as the senders put it on the wire.\<close>

definition frame_bytes :: "byte list \<Rightarrow> byte list" where
  "frame_bytes msg = be_short (word_of_nat (length msg - 1)) @ msg"

text \<open>Handling messages one after the other.\<close>

fun run_frames :: "(byte list \<Rightarrow> 'st \<Rightarrow> 'st option) \<Rightarrow> byte list list \<Rightarrow> 'st \<Rightarrow> 'st option" where
  "run_frames handle [] st = Some st"
| "run_frames handle (msg # msgs) st = Option.bind (handle msg st) (run_frames handle msgs)"

lemma run_frames_append:
  "run_frames handle (xs @ ys) st = Option.bind (run_frames handle xs st) (run_frames handle ys)"
  by (induction xs arbitrary: st) (auto intro!: Option.bind_cong)

lemma frames_complete_iff: "frames buf \<noteq> [] \<longleftrightarrow> 3 \<le> length buf \<and> frame_len buf + 2 \<le> length buf"
  by (subst frames.simps) auto

lemma read_short_frame_len:
  assumes "3 \<le> length buf"
  obtains v where "gzochi_common_io_read_short buf 0 = Some v" and "frame_len buf = unat v + 1"
proof -
  obtain v where v: "gzochi_common_io_read_short buf 0 = Some v"
    using read_short_safe [of 0 buf] assms by auto
  show ?thesis by (rule that [OF v]) (simp add: frame_len_def v)
qed

lemma frame_len_bounds: "3 \<le> length buf \<Longrightarrow> 1 \<le> frame_len buf \<and> frame_len buf \<le> 2 ^ 16"
proof -
  assume "3 \<le> length buf"
  then obtain v :: "16 word" where "frame_len buf = unat v + 1" by (rule read_short_frame_len)
  with unsigned_less [of v, where ?'a = nat] show ?thesis by simp
qed

lemma rd_offset: "rd m (p + i) = rd (drop p m) i"
  by (simp add: rd_def) (metis add.commute less_diff_conv)

lemma read_short_offset: "gzochi_common_io_read_short m p = gzochi_common_io_read_short (drop p m) 0"
  using rd_offset [of m p 0] rd_offset [of m p 1] by (simp add: gzochi_common_io_read_short_def)

section \<open>What a protocol relies on\<close>

text \<open>
  A handler that looks at nothing but the message it is given, and what it does with a message.
\<close>

locale message_handler =
  fixes dispatch_message :: "byte list \<Rightarrow> nat \<Rightarrow> 16 word \<Rightarrow> 'st \<Rightarrow> 'st option"
    and handle :: "byte list \<Rightarrow> 'st \<Rightarrow> 'st option"
  assumes local: "0 < unat len \<Longrightarrow> p + unat len \<le> length m \<Longrightarrow>
      dispatch_message m p len st = handle (take (unat len) (drop p m)) st"
begin

lemma loop_frames:
  assumes "offset \<le> length buf" and "no_max_frame (drop offset buf)"
  shows "dispatch_loop dispatch_message buf offset (int (length buf - offset)) tot st =
    map_option (\<lambda>st. (st, tot + consumed (drop offset buf))) (run_frames handle (frames (drop offset buf)) st)"
  using assms
proof (induction "length buf - offset" arbitrary: offset tot st rule: less_induct)
  case less
  let ?b = "drop offset buf"
  show ?case
  proof (cases "3 \<le> length ?b")
    case False
    then have "frames ?b = []" by (subst frames.simps) simp
    with False show ?thesis by (subst dispatch_loop.simps) (auto simp: consumed_def)
  next
    case True
    then obtain v where v: "gzochi_common_io_read_short ?b 0 = Some v" "frame_len ?b = unat v + 1"
      by (rule read_short_frame_len)
    have rd: "gzochi_common_io_read_short buf offset = Some v"
      using v(1) by (simp add: read_short_offset [of buf offset])
    have "frame_len ?b \<noteq> 2 ^ 16"
      using less.prems(2) True by (subst (asm) no_max_frame.simps) auto
    then have len: "unat (v + 1) = frame_len ?b"
      using v(2) unsigned_less [of v, where ?'a = nat] by (simp add: unat_word_ariths)
    have len': "uint (v + 1) = int (frame_len ?b)"
      by (simp flip: len)
    show ?thesis
    proof (cases "length ?b < frame_len ?b + 2")
      case short: True
      then have "frames ?b = []" by (subst frames.simps) simp
      with True short rd len len' show ?thesis
        by (subst dispatch_loop.simps) (auto simp: consumed_def Let_def)
    next
      case False
      let ?msg = "take (frame_len ?b) (drop 2 ?b)" and ?off = "offset + 2 + frame_len ?b"
      have rest: "drop (frame_len ?b + 2) ?b = drop ?off buf"
        by (simp add: add.commute add.left_commute)
      have fr: "frames ?b = ?msg # frames (drop ?off buf)"
        using True False rest by (subst frames.simps) simp
      have msg: "length ?msg = frame_len ?b" using False by simp
      have "no_max_frame (drop ?off buf)"
        using less.prems(2) True False rest by (subst (asm) no_max_frame.simps) simp
      note IH = less.hyps [of ?off, OF _ _ this]
      have bound: "?off \<le> length buf" using False True by simp
      have small: "length buf - ?off < length buf - offset" using True by simp
      have h: "dispatch_message buf (offset + 2) (v + 1) st' = handle ?msg st'" for st'
        using local [of "v + 1" "offset + 2" buf st'] len v(2) bound
        by (simp add: add.commute)
      have sub: "int (length buf - offset) - (int (frame_len ?b) + 2) = int (length buf - ?off)"
        using bound by simp
      have c: "consumed ?b = frame_len ?b + 2 + consumed (drop ?off buf)"
        using fr msg by (simp add: consumed_def)
      have ge: "3 \<le> int (length buf) - int offset" using True by simp
      have "dispatch_loop dispatch_message buf offset (int (length buf - offset)) tot st =
          Option.bind (handle ?msg st) (dispatch_loop dispatch_message buf ?off (int (length buf - ?off))
            (tot + (frame_len ?b + 2)))"
        using True False rd len len' h sub ge by (subst dispatch_loop.simps) (simp add: Let_def)
      also have "\<dots> = Option.bind (handle ?msg st) (\<lambda>st. map_option (\<lambda>st. (st, tot + consumed ?b))
          (run_frames handle (frames (drop ?off buf)) st))"
        by (intro Option.bind_cong refl) (subst IH [OF small bound], simp only: c add.assoc)
      also have "\<dots> = map_option (\<lambda>st. (st, tot + consumed ?b)) (run_frames handle (frames ?b) st)"
        using fr by (simp add: map_option_bind comp_def)
      finally show ?thesis .
    qed
  qed
qed

lemma dispatch_frames:
  "no_max_frame buf \<Longrightarrow> client_dispatch dispatch_message buf st =
    map_option (\<lambda>st. (st, consumed buf)) (run_frames handle (frames buf) st)"
  using loop_frames [of 0 buf 0 st] by (simp add: client_dispatch_def)

end

section \<open>Frames and chunks\<close>

lemma can_dispatch_frames: "can_dispatch buf = Some (frames buf \<noteq> [])"
proof (cases "3 \<le> length buf")
  case True
  then obtain v where "gzochi_common_io_read_short buf 0 = Some v" "frame_len buf = unat v + 1"
    by (rule read_short_frame_len)
  then show ?thesis
    using True by (simp add: can_dispatch_def frames_complete_iff numeral_3_eq_3)
next
  case False
  then show ?thesis by (simp add: can_dispatch_def frames_complete_iff)
qed

lemma frame_len_append: "2 \<le> length a \<Longrightarrow> frame_len (a @ b) = frame_len a"
  proof -
  assume "2 \<le> length a"
  then have "rd (a @ b) 0 = rd a 0" "rd (a @ b) (0 + 1) = rd a (0 + 1)"
    by (intro rd_append1; linarith)+
  then show ?thesis by (simp only: frame_len_def gzochi_common_io_read_short_def)
qed

lemma frames_step:
  "3 \<le> length buf \<Longrightarrow> frame_len buf + 2 \<le> length buf \<Longrightarrow>
    frames buf = take (frame_len buf) (drop 2 buf) # frames (drop (frame_len buf + 2) buf)"
  by (subst frames.simps) simp

lemma consumed_step:
  "3 \<le> length buf \<Longrightarrow> frame_len buf + 2 \<le> length buf \<Longrightarrow>
    consumed buf = frame_len buf + 2 + consumed (drop (frame_len buf + 2) buf)"
  by (simp add: consumed_def frames_step)

lemma consumed_le: "consumed buf \<le> length buf"
proof (induction buf rule: frames.induct)
  case (1 buf)
  show ?case
  proof (cases "length buf < 3 \<or> length buf < frame_len buf + 2")
    case True
    then have "frames buf = []" by (subst frames.simps) simp
    then show ?thesis by (simp add: consumed_def)
  next
    case False
    then have "3 \<le> length buf" "frame_len buf + 2 \<le> length buf" by auto
    then show ?thesis using 1 [OF False] consumed_step [of buf] by simp
  qed
qed

lemma frames_append: "frames (a @ b) = frames a @ frames (drop (consumed a) a @ b)"
proof (induction a rule: frames.induct)
  case (1 a)
  show ?case
  proof (cases "length a < 3 \<or> length a < frame_len a + 2")
    case True
    then have "frames a = []" by (subst frames.simps) simp
    then show ?thesis by (simp add: consumed_def)
  next
    case False
    let ?n = "frame_len a + 2"
    have n: "3 \<le> length a" "?n \<le> length a" "frame_len (a @ b) = frame_len a"
      using False by (simp_all add: frame_len_append)
    have "frames (a @ b) = take (frame_len a) (drop 2 a) # frames (drop ?n a @ b)"
      using n by (subst frames_step) simp_all
    moreover have "drop (consumed a) a = drop (consumed (drop ?n a)) (drop ?n a)"
      using n by (simp add: consumed_step add.commute)
    ultimately show ?thesis
      using 1 [OF False] n by (simp add: frames_step)
  qed
qed

lemma no_max_frame_append:
  "no_max_frame (a @ b) \<Longrightarrow> no_max_frame a \<and> no_max_frame (drop (consumed a) a @ b)"
proof (induction a rule: frames.induct)
  case (1 a)
  show ?case
  proof (cases "length a < 3 \<or> length a < frame_len a + 2")
    case True
    then have "frames a = []" by (subst frames.simps) simp
    moreover have "no_max_frame a"
      using True 1(2) frame_len_append [of a b]
      by (subst no_max_frame.simps) (subst (asm) no_max_frame.simps, auto)
    ultimately show ?thesis using 1(2) by (simp add: consumed_def)
  next
    case False
    let ?n = "frame_len a + 2"
    have n: "3 \<le> length a" "?n \<le> length a" "frame_len (a @ b) = frame_len a"
      using False by (simp_all add: frame_len_append)
    have r: "frame_len a \<noteq> 2 ^ 16" "no_max_frame (drop ?n a @ b)"
      using 1(2) n by (subst (asm) no_max_frame.simps, simp)+
    have "drop (consumed a) a = drop (consumed (drop ?n a)) (drop ?n a)"
      using n by (simp add: consumed_step add.commute)
    moreover have "no_max_frame a = no_max_frame (drop ?n a)"
      using n r by (subst no_max_frame.simps) simp
    ultimately show ?thesis using 1(1) [OF False r(2)] by simp
  qed
qed

definition message_ok :: "byte list \<Rightarrow> bool" where
  "message_ok msg \<longleftrightarrow> msg \<noteq> [] \<and> length msg < 2 ^ 16"

lemma frame_len_frame_bytes: "message_ok msg \<Longrightarrow> frame_len (frame_bytes msg @ rest) = length msg"
  using read_short_be [of "[]" "word_of_nat (length msg - 1)" "msg @ rest"]
  by (cases msg) (auto simp: frame_len_def frame_bytes_def message_ok_def unat_of_nat take_bit_nat_eq_self)

lemma frames_frame_bytes:
  assumes "message_ok msg"
  shows "frames (frame_bytes msg @ rest) = msg # frames rest"
    and "no_max_frame (frame_bytes msg @ rest) = no_max_frame rest"
proof -
  have l: "length (frame_bytes msg) = length msg + 2" by (simp add: frame_bytes_def)
  have f: "frame_len (frame_bytes msg @ rest) = length msg" by (rule frame_len_frame_bytes [OF assms])
  have n: "3 \<le> length (frame_bytes msg @ rest)" using assms l by (cases msg) (auto simp: message_ok_def)
  have d: "drop 2 (frame_bytes msg @ rest) = msg @ rest" by (simp add: frame_bytes_def)
  show "frames (frame_bytes msg @ rest) = msg # frames rest"
    using n l f d by (subst frames_step) simp_all
  show "no_max_frame (frame_bytes msg @ rest) = no_max_frame rest"
    using n l f assms by (subst no_max_frame.simps) (simp add: message_ok_def)
qed

lemma frames_sent:
  "\<forall>msg \<in> set msgs. message_ok msg \<Longrightarrow>
    frames (concat (map frame_bytes msgs) @ rest) = msgs @ frames rest
    \<and> no_max_frame (concat (map frame_bytes msgs) @ rest) = no_max_frame rest"
  by (induction msgs) (simp_all add: frames_frame_bytes)

lemma frames_Nil [simp]: "frames [] = []" "no_max_frame []"
  by (subst frames.simps no_max_frame.simps; simp)+

context message_handler
begin

lemma dispatch_sent:
  assumes "\<forall>msg \<in> set msgs. message_ok msg"
  shows "client_dispatch dispatch_message (concat (map frame_bytes msgs)) st =
    map_option (\<lambda>st. (st, length (concat (map frame_bytes msgs)))) (run_frames handle msgs st)"
proof -
  have f: "frames (concat (map frame_bytes msgs)) = msgs" "no_max_frame (concat (map frame_bytes msgs))"
    using frames_sent [OF assms, of "[]"] by simp_all
  then have "consumed (concat (map frame_bytes msgs)) = length (concat (map frame_bytes msgs))"
    by (simp add: consumed_def frame_bytes_def length_concat comp_def add.commute)
  with f show ?thesis by (simp add: dispatch_frames)
qed

text \<open>
  A buffer that arrives in two pieces, with the consumed part of the first removed before the
  second is appended, is handled like one that arrives in one piece.
\<close>

lemma dispatch_chunks:
  assumes "no_max_frame (a @ b)"
  shows "map_option fst (client_dispatch dispatch_message (a @ b) st) =
    Option.bind (client_dispatch dispatch_message a st) (\<lambda>(st, n).
      map_option fst (client_dispatch dispatch_message (drop n a @ b) st))"
  using no_max_frame_append [OF assms] assms
  by (simp add: dispatch_frames frames_append [of a b] run_frames_append option.map_comp comp_def
    Option.bind_map_option option.map_ident)

end

section \<open>Readers on a slice of a message\<close>

text \<open>
  What the readers of \<open>protocol-common.c\<close> find at the start of a slice, and what follows it.
\<close>

fun str_at :: "byte list \<Rightarrow> (cstring \<times> byte list) option" where
  "str_at [] = None"
| "str_at (b # bs) = (if b = 0 then Some ([], bs) else map_option (\<lambda>(s, r). (b # s, r)) (str_at bs))"

definition bytes_at :: "byte list \<Rightarrow> (byte list \<times> byte list) option" where
  "bytes_at x = Option.bind (gzochi_common_io_read_short x 0) (\<lambda>prefix.
     let n = unat (scast prefix :: 64 word)
     in if length x - 2 < n then None else Some (take n (drop 2 x), drop (n + 2) x))"

definition long_at :: "byte list \<Rightarrow> (guint64 \<times> byte list) option" where
  "long_at x = map_option (\<lambda>v. (v, drop 8 x)) (gzochi_common_io_read_long x 0)"

lemma str_at_Some: "str_at x = Some (s, r) \<longleftrightarrow> x = s @ 0 # r \<and> 0 \<notin> set s"
proof (induction x arbitrary: s)
  case (Cons b bs)
  show ?case
  proof (cases "b = 0")
    case True
    then show ?thesis by (cases s) auto
  next
    case False
    then show ?thesis using Cons.IH by (cases s; cases "str_at bs") auto
  qed
qed simp

lemma str_at_string: "0 \<notin> set s \<Longrightarrow> str_at (s @ 0 # r) = Some (s, r)"
  by (simp add: str_at_Some)

lemma memchr_nul_at:
  "p + n \<le> length m \<Longrightarrow> memchr_nul m p n = Some (map_option (\<lambda>(s, r). p + length s) (str_at (take n (drop p m))))"
proof (induction m p n rule: memchr_nul.induct)
  case (2 m p n)
  have "take (Suc n) (drop p m) = m ! p # take n (drop (Suc p) m)"
    using "2.prems" by (simp add: Cons_nth_drop_Suc [symmetric])
  moreover have "rd m p = Some (m ! p)" using "2.prems" by (simp add: rd_def)
  moreover have "memchr_nul m (Suc p) n =
      Some (map_option (\<lambda>(s, r). Suc p + length s) (str_at (take n (drop (Suc p) m))))" if "m ! p \<noteq> 0"
    using "2.IH" [of "m ! p"] calculation(2) that "2.prems" by simp
  ultimately show ?case
    by (cases "m ! p = 0"; cases "str_at (take n (drop (Suc p) m))") (auto split: prod.splits)
qed simp

lemma read_str_at:
  assumes "p + n \<le> length m"
  shows "gzochid_protocol_read_str m p n =
    Some (map_option (\<lambda>(s, r). (s, length s + 1)) (str_at (take n (drop p m))))"
proof (cases "str_at (take n (drop p m))")
  case None
  then show ?thesis using assms by (simp add: gzochid_protocol_read_str_def memchr_nul_at)
next
  case (Some sr)
  then obtain s r where sr: "sr = (s, r)" "take n (drop p m) = s @ 0 # r"
    by (cases sr) (auto simp: str_at_Some)
  then have "take (length s) (drop p m) = s"
    by (metis append_eq_conv_conj append_take_drop_id append.assoc)
  with Some sr show ?thesis
    using assms by (simp add: gzochid_protocol_read_str_def memchr_nul_at)
qed

lemma str_at_rest:
  assumes "str_at (take n (drop p m)) = Some (s, r)" and "p + n \<le> length m"
  shows "length s + 1 \<le> n" and "r = take (n - (length s + 1)) (drop (p + (length s + 1)) m)"
proof -
  have e: "take n (drop p m) = s @ 0 # r" using assms(1) by (simp add: str_at_Some)
  then have "length (take n (drop p m)) = length s + 1 + length r" by simp
  then show "length s + 1 \<le> n" by simp
  have "r = drop (length s + 1) (take n (drop p m))" using e by simp
  then show "r = take (n - (length s + 1)) (drop (p + (length s + 1)) m)"
    by (simp add: drop_take add.commute)
qed

lemma read_short_slice:
  assumes "2 \<le> n" and "p + n \<le> length m"
  shows "gzochi_common_io_read_short m p = gzochi_common_io_read_short (take n (drop p m)) 0"
proof -
  have "rd (take n (drop p m)) i = rd m (p + i)" if "i < n" for i
    using that assms(2) by (simp add: rd_def)
  from this [of 0] this [of 1] assms(1) show ?thesis
    by (simp add: gzochi_common_io_read_short_def)
qed

lemma read_long_slice:
  assumes "8 \<le> n" and "p + n \<le> length m"
  shows "gzochi_common_io_read_long m p = gzochi_common_io_read_long (take n (drop p m)) 0"
proof -
  have r: "rd (take n (drop p m)) i = rd m (p + i)" if "i < n" for i
    using that assms(2) by (simp add: rd_def)
  have "rd (take n (drop p m)) 0 = rd m p" using r [of 0] assms(1) by simp
  with r [of 1] r [of 2] r [of 3] r [of 4] r [of 5] r [of 6] r [of 7] assms(1) show ?thesis
    by (simp add: gzochi_common_io_read_long_def numeral_2_eq_2)
qed

lemma read_bytes_at:
  assumes "p + n \<le> length m"
  shows "gzochid_protocol_read_bytes m p n = Some (map_option fst (bytes_at (take n (drop p m))))"
proof (cases "n < 2")
  case True
  then have "gzochi_common_io_read_short (take n (drop p m)) 0 = None"
    by (auto simp: gzochi_common_io_read_short_def rd_def bind_eq_None_conv)
  with True show ?thesis by (simp add: gzochid_protocol_read_bytes_def bytes_at_def)
next
  case False
  then obtain v where v: "gzochi_common_io_read_short m p = Some v"
    using read_short_safe [of p m] assms by auto
  then have "gzochi_common_io_read_short (take n (drop p m)) 0 = Some v"
    using read_short_slice [of n p m] False assms by simp
  with False v assms show ?thesis
    by (auto simp: gzochid_protocol_read_bytes_def bytes_at_def Let_def rd_range_def drop_take min_def add.commute)
qed

lemma bytes_at_Some:
  assumes "bytes_at x = Some (bs, r)"
  shows "length bs + 2 \<le> length x" and "r = drop (length bs + 2) x"
proof -
  obtain v where v: "gzochi_common_io_read_short x 0 = Some v"
    using assms by (auto simp: bytes_at_def bind_eq_Some_conv)
  then have "2 \<le> length x"
    by (auto simp: gzochi_common_io_read_short_def bind_eq_Some_conv rd_def split: if_splits)
  then show "length bs + 2 \<le> length x" "r = drop (length bs + 2) x"
    using assms v by (auto simp: bytes_at_def Let_def split: if_splits)
qed

lemma bytes_at_rest:
  assumes "bytes_at (take n (drop p m)) = Some (bs, r)" and "p + n \<le> length m"
  shows "length bs + 2 \<le> n" and "r = take (n - (length bs + 2)) (drop (p + (length bs + 2)) m)"
  using bytes_at_Some [OF assms(1)] assms(2) by (auto simp: drop_take add.commute)

text \<open>A buffer as \<open>write_bytes\<close> writes it.\<close>

lemma bytes_at_written:
  assumes "length bs < 2 ^ 15"
  shows "bytes_at (be_short (word_of_nat (length bs)) @ bs @ r) = Some (bs, r)"
  using read_short_be [of "[]" "word_of_nat (length bs)" "bs @ r"] unat_scast_short [OF assms]
  by (simp add: bytes_at_def Let_def)

lemma unat_sub_nat: "k \<le> unat (len :: 16 word) \<Longrightarrow> unat (len - word_of_nat k) = unat len - k"
  using unsigned_less [of len, where ?'a = nat] by (simp add: unat_sub_if_size unat_of_nat)

lemma write_short_front:
  "gzochi_common_io_write_short v (a # b # xs) 0 = Some (be_short v @ xs)"
  by (simp add: gzochi_common_io_write_short_def be_short_def io_simps ucast_and_ff short_hi short_lo)

lemma frame_bytes_Cons: "frame_bytes (opcode # payload) = be_short (word_of_nat (length payload)) @ opcode # payload"
  by (simp add: frame_bytes_def)

text \<open>A string that is not empty.\<close>

definition name_at :: "byte list \<Rightarrow> (cstring \<times> byte list) option" where
  "name_at x = Option.bind (str_at x) (\<lambda>(s, r). if s = [] then None else Some (s, r))"

lemma name_cases:
  fixes len :: "16 word"
  assumes "p + unat len \<le> length m"
  obtains (bad) r where "gzochid_protocol_read_str m p (unat len) = Some r"
      and "case r of None \<Rightarrow> True | Some (s, k) \<Rightarrow> k \<le> 1" and "name_at (take (unat len) (drop p m)) = None"
  | (ok) s k where "gzochid_protocol_read_str m p (unat len) = Some (Some (s, k))" and "1 < k"
      and "name_at (take (unat len) (drop p m)) =
        Some (s, take (unat (len - word_of_nat k)) (drop (p + k) m))"
      and "p + k + unat (len - word_of_nat k) \<le> length m"
proof (cases "str_at (take (unat len) (drop p m))")
  case None
  then show ?thesis
    using bad read_str_at [OF assms] by (simp add: name_at_def)
next
  case (Some sr)
  then obtain s r where sr: "str_at (take (unat len) (drop p m)) = Some (s, r)" by (cases sr) auto
  note rest = str_at_rest [OF sr assms]
  have u: "unat (len - word_of_nat (length s + 1)) = unat len - (length s + 1)"
    by (rule unat_sub_nat [OF rest(1)])
  show ?thesis
  proof (cases "s = []")
    case True
    then show ?thesis
      using bad read_str_at [OF assms] sr by (simp add: name_at_def)
  next
    case False
    then show ?thesis
      using ok [of s "length s + 1"] read_str_at [OF assms] sr rest u assms
      by (simp add: name_at_def)
  qed
qed

text \<open>A name followed by an object id, as the relay messages of sessions and channels have it.\<close>

definition named_oid_at :: "byte list \<Rightarrow> (cstring \<times> guint64 \<times> byte list) option" where
  "named_oid_at x = do { (app, x) \<leftarrow> name_at x; (oid, x) \<leftarrow> long_at x; Some (app, oid, x) }"

lemma long_at_slice:
  assumes "p + n \<le> length m"
  shows "long_at (take n (drop p m)) =
    (if n < 8 then None else map_option (\<lambda>v. (v, take (n - 8) (drop (p + 8) m))) (gzochi_common_io_read_long m p))"
proof (cases "n < 8")
  case True
  then have "rd (take n (drop p m)) 7 = None" by (simp add: rd_None_iff)
  then have "gzochi_common_io_read_long (take n (drop p m)) 0 = None"
    by (auto simp: gzochi_common_io_read_long_def bind_eq_None_conv)
  with True show ?thesis by (simp add: long_at_def)
next
  case False
  then show ?thesis
    using read_long_slice [of n p m] assms by (simp add: long_at_def drop_take add.commute)
qed

lemma read_long_defined: "p + 8 \<le> length m \<Longrightarrow> \<exists>v. gzochi_common_io_read_long m p = Some v"
  using rd_Some_iff [of m p "m ! p"] by (auto simp: gzochi_common_io_read_long_def rd_def)

lemma named_oid_cases:
  fixes len :: "16 word"
  assumes "p + unat len \<le> length m"
  obtains (bad) r where "gzochid_protocol_read_str m p (unat len) = Some r"
      and "case r of None \<Rightarrow> True | Some (s, k) \<Rightarrow> k \<le> 1 \<or> unat len < k + 8"
      and "named_oid_at (take (unat len) (drop p m)) = None"
  | (ok) s k v where "gzochid_protocol_read_str m p (unat len) = Some (Some (s, k))" and "1 < k" and "k + 8 \<le> unat len"
      and "gzochi_common_io_read_long m (p + k) = Some v"
      and "named_oid_at (take (unat len) (drop p m)) =
        Some (s, v, take (unat len - (k + 8)) (drop (p + (k + 8)) m))"
proof (cases "str_at (take (unat len) (drop p m))")
  case None
  then show ?thesis using bad read_str_at [OF assms] by (simp add: named_oid_at_def name_at_def)
next
  case (Some sr)
  then obtain s r where sr: "str_at (take (unat len) (drop p m)) = Some (s, r)" by (cases sr) auto
  note rest = str_at_rest [OF sr assms]
  have long: "long_at r = (if unat len - (length s + 1) < 8 then None
      else map_option (\<lambda>v. (v, take (unat len - (length s + 1) - 8) (drop (p + (length s + 1) + 8) m)))
        (gzochi_common_io_read_long m (p + (length s + 1))))"
    unfolding rest(2) by (rule long_at_slice) (use assms rest(1) in simp)
  show ?thesis
  proof (cases "s = [] \<or> unat len < length s + 1 + 8")
    case True
    then have "s = [] \<or> long_at r = None" using long by auto
    then have "named_oid_at (take (unat len) (drop p m)) = None"
      using sr by (auto simp: named_oid_at_def name_at_def)
    then show ?thesis
      using bad [of "Some (s, length s + 1)"] read_str_at [OF assms] sr True by auto
  next
    case False
    then obtain v where v: "gzochi_common_io_read_long m (p + (length s + 1)) = Some v"
      using read_long_defined [of "p + (length s + 1)" m] assms by auto
    have "long_at r = Some (v, take (unat len - (length s + 1 + 8)) (drop (p + (length s + 1 + 8)) m))"
      unfolding long v using False by (auto simp: add.left_commute [of p])
    then have "named_oid_at (take (unat len) (drop p m)) =
        Some (s, v, take (unat len - (length s + 1 + 8)) (drop (p + (length s + 1 + 8)) m))"
      using sr False by (simp add: named_oid_at_def name_at_def)
    then show ?thesis
      using ok [of s "length s + 1" v] read_str_at [OF assms] sr False v by simp
  qed
qed

text \<open>What the writers of such messages put there.\<close>

lemma long_at_written: "long_at (be_long v @ r) = Some (v, r)"
  using read_long_be [of "[]" v r] by (simp add: long_at_def)

lemma named_oid_at_written:
  "0 \<notin> set s \<Longrightarrow> s \<noteq> [] \<Longrightarrow> named_oid_at (s @ 0 # be_long v @ r) = Some (s, v, r)"
  by (simp add: named_oid_at_def name_at_def str_at_string long_at_written)

lemma message_head:
  fixes len :: "16 word"
  assumes "0 < unat len" and "p + unat len \<le> length m"
  shows "take (unat len) (drop p m) = m ! p # take (unat (len - 1)) (drop (p + 1) m)"
    and "p + 1 + unat (len - 1) \<le> length m" and "rd m p = Some (m ! p)"
proof -
  have u: "unat (len - 1) = unat len - 1" using unat_sub_nat [of 1 len] assms(1) by simp
  show "take (unat len) (drop p m) = m ! p # take (unat (len - 1)) (drop (p + 1) m)"
    using assms u by (cases "unat len") (simp_all add: Cons_nth_drop_Suc [symmetric])
  show "p + 1 + unat (len - 1) \<le> length m" using assms u by simp
  show "rd m p = Some (m ! p)" using assms by (simp add: rd_def)
qed

text \<open>
  The start of most messages: prefix, opcode and application name, written into a fresh buffer of
  the length of the whole message.
\<close>

definition message_header :: "16 word \<Rightarrow> byte \<Rightarrow> cstring \<Rightarrow> byte list" where
  "message_header v opcode app = be_short v @ opcode # app @ [0]"

lemma length_message_header [simp]: "length (message_header v opcode app) = length app + 4"
  by (simp add: message_header_def)

lemma build_header:
  assumes "n = length app + 4 + k"
  shows "Option.bind (gzochi_common_io_write_short v (replicate n 0) 0) (\<lambda>buf.
      Option.bind (wr buf 2 opcode) (\<lambda>buf. Option.bind (memcpy buf 3 (app @ [0])) f)) =
    f (message_header v opcode app @ replicate k 0)"
proof -
  have "n = Suc (Suc (Suc (length app + 1 + k)))" using assms by simp
  then have "replicate n (0::byte) = 0 # 0 # 0 # replicate (length app + 1) 0 @ replicate k 0"
    by (simp only: replicate_Suc replicate_add append_assoc)
  then have "gzochi_common_io_write_short v (replicate n 0) 0 =
      Some (be_short v @ 0 # replicate (length app + 1) 0 @ replicate k 0)"
    by (simp only: write_short_front)
  moreover have "wr (be_short v @ 0 # replicate (length app + 1) 0 @ replicate k 0) 2 opcode =
      Some ((be_short v @ [opcode]) @ replicate (length app + 1) 0 @ replicate k 0)"
    by (subst wr_at) simp_all
  moreover have "memcpy ((be_short v @ [opcode]) @ replicate (length app + 1) 0 @ replicate k 0) 3 (app @ [0]) =
      Some ((be_short v @ [opcode]) @ (app @ [0]) @ replicate k 0)"
    by (rule memcpy_at) simp_all
  ultimately show ?thesis by (simp add: message_header_def)
qed

text \<open>A message with a name, object ids and a rest that was built behind such a header.\<close>

lemma header_frame:
  "n = length app + 1 + length rest \<Longrightarrow>
    message_header (word_of_nat n) opcode app @ rest = frame_bytes (opcode # app @ 0 # rest)"
  by (simp add: message_header_def frame_bytes_Cons)

lemma build_oid:
  assumes "n = length app + 12 + k"
  shows "Option.bind (gzochi_common_io_write_short v (replicate n 0) 0) (\<lambda>buf.
      Option.bind (wr buf 2 opcode) (\<lambda>buf. Option.bind (memcpy buf 3 (app @ [0])) (\<lambda>buf.
        Option.bind (gzochi_common_io_write_long x buf (length app + 4)) f))) =
    f (message_header v opcode app @ be_long x @ replicate k 0)"
proof -
  have "gzochi_common_io_write_long x (message_header v opcode app @ replicate (8 + k) 0) (length app + 4) =
      Some (message_header v opcode app @ be_long x @ replicate k 0)"
    unfolding replicate_add by (rule write_long_at) simp_all
  then show ?thesis using assms by (subst build_header [where k = "8 + k"]) simp_all
qed

lemma build_oids:
  assumes "n = length app + 20"
  shows "Option.bind (gzochi_common_io_write_short v (replicate n 0) 0) (\<lambda>buf.
      Option.bind (wr buf 2 opcode) (\<lambda>buf. Option.bind (memcpy buf 3 (app @ [0])) (\<lambda>buf.
        Option.bind (gzochi_common_io_write_long x buf (length app + 4)) (\<lambda>buf.
          Option.bind (gzochi_common_io_write_long y buf (length app + 12)) f)))) =
    f (message_header v opcode app @ be_long x @ be_long y)"
proof -
  have "gzochi_common_io_write_long y ((message_header v opcode app @ be_long x) @ replicate 8 0 @ []) (length app + 12) =
      Some ((message_header v opcode app @ be_long x) @ be_long y @ [])"
    by (rule write_long_at) simp_all
  then show ?thesis using assms by (subst build_oid [where k = 8]) simp_all
qed

lemma build_bytes:
  assumes "n = length app + length msg + 14"
  shows "Option.bind (gzochi_common_io_write_short v (replicate n 0) 0) (\<lambda>buf.
      Option.bind (wr buf 2 opcode) (\<lambda>buf. Option.bind (memcpy buf 3 (app @ [0])) (\<lambda>buf.
        Option.bind (gzochi_common_io_write_long x buf (length app + 4)) (\<lambda>buf.
          Option.bind (gzochi_common_io_write_short w buf (length app + 12)) (\<lambda>buf.
            Option.bind (memcpy buf (length app + 14) msg) f))))) =
    f (message_header v opcode app @ be_long x @ be_short w @ msg)"
proof -
  let ?h = "message_header v opcode app @ be_long x"
  have s: "gzochi_common_io_write_short w (message_header v opcode app @ be_long x @ replicate (2 + length msg) 0) (length app + 12) =
      Some ((?h @ be_short w) @ replicate (length msg) 0 @ [])"
    using write_short_at_end [of "replicate 2 0" w ?h "replicate (length msg) 0"]
    unfolding replicate_add by (simp add: add.commute)
  have m: "memcpy ((?h @ be_short w) @ replicate (length msg) 0 @ []) (length app + 14) msg =
      Some ((?h @ be_short w) @ msg @ [])"
    by (rule memcpy_at) simp_all
  have n: "n = length app + 12 + (2 + length msg)" using assms by simp
  show ?thesis unfolding build_oid [OF n] s bind.bind_lunit m by simp
qed

end
