(* ===== verification/Socket.thy ===== *)
theory Socket
  imports Framing
begin

text \<open>
  \<open>gzochi-server/src/socket.c\<close>: the buffers of a client socket between the non-blocking channel
  and the protocol, and the reconnectable socket of the application servers. What the channel does
  in a callback is an argument: the results of the successive reads or writes. The protocol
  (\<open>gzochid_client_protocol\<close>) is a message handler as in \<open>Framing\<close> and an error callback;
  \<open>'st\<close> is its data. Main loop sources, reference counts and mutexes are not modelled.
\<close>

section \<open>Reading\<close>

datatype gio_status = Io_Normal | Io_Again | Io_Eof | Io_Error

record io_read =
  read_bytes :: "byte list"
  read_status :: gio_status
  read_failed :: bool

datatype fill_result = Fill_More | Fill_Eof | Fill_Failed

text \<open>A channel with nothing more to report has nothing to read now.\<close>

fun fill_recv_buffer :: "io_read list \<Rightarrow> byte list \<Rightarrow> byte list \<times> fill_result" where
  "fill_recv_buffer [] recv_buffer = (recv_buffer, Fill_More)"
| "fill_recv_buffer (r # reads) recv_buffer =
     (let recv_buffer = g_byte_array_append recv_buffer (read_bytes r)
      in if read_failed r then (recv_buffer, Fill_Failed)
         else if read_status r = Io_Normal then fill_recv_buffer reads recv_buffer
         else if read_status r = Io_Eof then (recv_buffer, Fill_Eof)
         else (recv_buffer, Fill_More))"

function dispatch_recv_buffer ::
    "(byte list \<Rightarrow> nat \<Rightarrow> 16 word \<Rightarrow> 'st \<Rightarrow> 'st option) \<Rightarrow> byte list \<Rightarrow> 'st \<Rightarrow> (byte list \<times> 'st) option" where
  "dispatch_recv_buffer dispatch_message recv_buffer st =
     (if 0 < length recv_buffer
      then Option.bind (can_dispatch recv_buffer) (\<lambda>ready.
        if ready
        then Option.bind (client_dispatch dispatch_message recv_buffer st) (\<lambda>(st, num).
          if 0 < num
          then Option.bind (g_byte_array_remove_range recv_buffer 0 num) (\<lambda>recv_buffer.
            dispatch_recv_buffer dispatch_message recv_buffer st)
          else Some (recv_buffer, st))
        else Some (recv_buffer, st))
      else Some (recv_buffer, st))"
  by pat_completeness auto
termination
  by (relation "measure (\<lambda>(_, b, _). length b)") (auto simp: g_byte_array_remove_range_def split: if_splits)

declare dispatch_recv_buffer.simps [simp del]

definition dispatch_client_error :: "('st \<Rightarrow> 'st option) \<Rightarrow> byte list \<Rightarrow> 'st \<Rightarrow> (byte list \<times> 'st \<times> bool) option" where
  "dispatch_client_error error recv_buffer st = map_option (\<lambda>st. (recv_buffer, st, False)) (error st)"

definition dispatch_client_read ::
    "(byte list \<Rightarrow> nat \<Rightarrow> 16 word \<Rightarrow> 'st \<Rightarrow> 'st option) \<Rightarrow> ('st \<Rightarrow> 'st option) \<Rightarrow> io_read list \<Rightarrow>
     byte list \<Rightarrow> 'st \<Rightarrow> (byte list \<times> 'st \<times> bool) option" where
  "dispatch_client_read dispatch_message error reads recv_buffer st =
     (case fill_recv_buffer reads recv_buffer of
        (recv_buffer, Fill_More) \<Rightarrow>
          map_option (\<lambda>(recv_buffer, st). (recv_buffer, st, True))
            (dispatch_recv_buffer dispatch_message recv_buffer st)
      | (recv_buffer, Fill_Eof) \<Rightarrow> dispatch_client_error error recv_buffer st
      | (recv_buffer, Fill_Failed) \<Rightarrow> Some (recv_buffer, st, False))"

text \<open>The flags of \<open>GIOCondition\<close>; the switch looks for single flags only.\<close>

definition G_IO_IN :: guint where "G_IO_IN = 1"
definition G_IO_PRI :: guint where "G_IO_PRI = 2"
definition G_IO_ERR :: guint where "G_IO_ERR = 8"
definition G_IO_HUP :: guint where "G_IO_HUP = 16"

definition dispatch_client ::
    "(byte list \<Rightarrow> nat \<Rightarrow> 16 word \<Rightarrow> 'st \<Rightarrow> 'st option) \<Rightarrow> ('st \<Rightarrow> 'st option) \<Rightarrow> guint \<Rightarrow> io_read list \<Rightarrow>
     byte list \<Rightarrow> 'st \<Rightarrow> (byte list \<times> 'st \<times> bool) option" where
  "dispatch_client dispatch_message error condition reads recv_buffer st =
     (if condition = G_IO_IN \<or> condition = G_IO_PRI
      then dispatch_client_read dispatch_message error reads recv_buffer st
      else if condition = G_IO_ERR \<or> condition = G_IO_HUP then dispatch_client_error error recv_buffer st
      else Some (recv_buffer, st, False))"

section \<open>Writing\<close>

record gzochid_client_socket =
  send_buffer :: "byte list"
  write_source :: bool

record io_write =
  written :: nat
  write_status :: gio_status
  write_failed :: bool

definition gzochid_client_socket_write :: "gzochid_client_socket \<Rightarrow> byte list \<Rightarrow> gzochid_client_socket" where
  "gzochid_client_socket_write sock data =
     sock\<lparr>send_buffer := g_byte_array_append (send_buffer sock) data, write_source := True\<rparr>"

text \<open>
  The loop hands the buffer to the channel until the channel blocks; the result has the bytes the
  channel took. A channel that reports more bytes than it was given is a fault.
\<close>

fun dispatch_client_write ::
    "io_write list \<Rightarrow> gzochid_client_socket \<Rightarrow> (gzochid_client_socket \<times> byte list \<times> bool) option" where
  "dispatch_client_write [] sock = Some (sock, [], True)"
| "dispatch_client_write (w # ws) sock =
     Option.bind (g_byte_array_remove_range (send_buffer sock) 0 (written w)) (\<lambda>buffer.
       let out = take (written w) (send_buffer sock);
           sock = sock\<lparr>send_buffer := buffer\<rparr>
       in if write_failed w then Some (sock, out, False)
          else if write_status w = Io_Normal \<and> 0 < length buffer
          then map_option (\<lambda>(sock, out', alive). (sock, out @ out', alive)) (dispatch_client_write ws sock)
          else if length buffer = 0 then Some (sock\<lparr>write_source := False\<rparr>, out, True)
          else Some (sock, out, True))"

section \<open>The sockets of a server\<close>

text \<open>
  Sockets are shared by address: the components of the meta server hold the same
  \<open>gzochid_client_socket\<close>. A socket without an entry was freed; writing to it is a fault.
\<close>

type_synonym sock = nat

type_synonym sockets = "sock \<rightharpoonup> gzochid_client_socket"

definition socket_write :: "sock \<Rightarrow> byte list \<Rightarrow> sockets \<Rightarrow> sockets option" where
  "socket_write sock data socks = do {
     s \<leftarrow> socks sock;
     Some (socks(sock \<mapsto> gzochid_client_socket_write s data))
   }"

text \<open>What a socket was told to send and has not sent yet.\<close>

definition pending :: "sockets \<Rightarrow> sock \<Rightarrow> byte list" where
  "pending socks sock = (case socks sock of None \<Rightarrow> [] | Some s \<Rightarrow> send_buffer s)"

lemma socket_write_live:
  "socks sock = Some s \<Longrightarrow> socket_write sock data socks = Some (socks(sock \<mapsto> gzochid_client_socket_write s data))"
  by (simp add: socket_write_def)

lemma socket_write_dom: "socket_write sock data socks = Some socks' \<Longrightarrow> dom socks' = dom socks"
  by (auto simp: socket_write_def bind_eq_Some_conv split: if_splits)

lemma socket_write_pending:
  "socket_write sock data socks = Some socks' \<Longrightarrow>
    pending socks' s = (if s = sock then pending socks sock @ data else pending socks s)"
  by (auto simp: socket_write_def bind_eq_Some_conv pending_def gzochid_client_socket_write_def g_byte_array_append_def)

section \<open>The reconnectable socket\<close>

record gzochid_reconnectable_socket =
  rs_socket :: "gzochid_client_socket option"
  outbound_messages :: "byte list"

definition gzochid_reconnectable_socket_new :: gzochid_reconnectable_socket where
  "gzochid_reconnectable_socket_new = \<lparr>rs_socket = None, outbound_messages = []\<rparr>"

definition gzochid_reconnectable_socket_write ::
    "gzochid_reconnectable_socket \<Rightarrow> byte list \<Rightarrow> gzochid_reconnectable_socket" where
  "gzochid_reconnectable_socket_write sock buf =
     (case rs_socket sock of
        Some s \<Rightarrow> sock\<lparr>rs_socket := Some (gzochid_client_socket_write s buf)\<rparr>
      | None \<Rightarrow> sock\<lparr>outbound_messages := g_byte_array_append (outbound_messages sock) buf\<rparr>)"

text \<open>Listeners are functions of the client that registered them; they may write to the socket.\<close>

fun notify_listeners ::
    "(gzochid_reconnectable_socket \<Rightarrow> gzochid_reconnectable_socket) list \<Rightarrow>
     gzochid_reconnectable_socket \<Rightarrow> gzochid_reconnectable_socket" where
  "notify_listeners [] sock = sock"
| "notify_listeners (l # ls) sock = notify_listeners ls (l sock)"

definition gzochid_reconnectable_socket_connect ::
    "(gzochid_reconnectable_socket \<Rightarrow> gzochid_reconnectable_socket) list \<Rightarrow> gzochid_reconnectable_socket \<Rightarrow>
     gzochid_client_socket \<Rightarrow> gzochid_reconnectable_socket option" where
  "gzochid_reconnectable_socket_connect connected sock client_socket =
     (if rs_socket sock \<noteq> None then None
      else do {
        let sock = notify_listeners connected (sock\<lparr>rs_socket := Some client_socket\<rparr>);
        s \<leftarrow> rs_socket sock;
        if 0 < length (outbound_messages sock)
        then Some (sock\<lparr>rs_socket := Some (gzochid_client_socket_write s (outbound_messages sock)),
               outbound_messages := []\<rparr>)
        else Some sock
      })"

definition gzochid_reconnectable_socket_disconnect ::
    "(gzochid_reconnectable_socket \<Rightarrow> gzochid_reconnectable_socket) list \<Rightarrow> gzochid_reconnectable_socket \<Rightarrow>
     gzochid_reconnectable_socket option" where
  "gzochid_reconnectable_socket_disconnect disconnected sock =
     (if rs_socket sock = None then None
      else Some (notify_listeners disconnected (sock\<lparr>rs_socket := None\<rparr>)))"

section \<open>Streams\<close>

lemma frames_rest: "frames (drop (consumed buf) buf) = []"
  using frames_append [of buf "[]"] by simp

lemma consumed_append: "consumed (a @ b) = consumed a + consumed (drop (consumed a) a @ b)"
  by (simp add: consumed_def frames_append [of a b])

lemma drop_consumed_append:
  "drop (consumed (a @ b)) (a @ b) =
    drop (consumed (drop (consumed a) a @ b)) (drop (consumed a) a @ b)"
proof -
  have "drop (consumed a) a @ b = drop (consumed a) (a @ b)" using consumed_le [of a] by simp
  then show ?thesis by (simp only: consumed_append [of a b] drop_drop) (simp only: add.commute)
qed

lemma consumed_pos: "frames buf \<noteq> [] \<Longrightarrow> 0 < consumed buf"
  by (cases "frames buf") (simp_all add: consumed_def)

text \<open>The reads of one callback on a channel that stays open: all but the last give more bytes.\<close>

fun open_reads :: "io_read list \<Rightarrow> bool" where
  "open_reads [] = True"
| "open_reads (r # reads) \<longleftrightarrow> \<not> read_failed r
     \<and> (if read_status r = Io_Normal then open_reads reads else read_status r \<noteq> Io_Eof \<and> reads = [])"

definition bytes_of :: "io_read list \<Rightarrow> byte list" where
  "bytes_of reads = concat (map read_bytes reads)"

lemma fill_open: "open_reads reads \<Longrightarrow> fill_recv_buffer reads buf = (buf @ bytes_of reads, Fill_More)"
  by (induction reads arbitrary: buf) (auto simp: g_byte_array_append_def bytes_of_def Let_def split: if_splits)

text \<open>The callbacks for the readable channel, one after the other.\<close>

fun dispatch_reads ::
    "(byte list \<Rightarrow> nat \<Rightarrow> 16 word \<Rightarrow> 'st \<Rightarrow> 'st option) \<Rightarrow> ('st \<Rightarrow> 'st option) \<Rightarrow> io_read list list \<Rightarrow>
     byte list \<Rightarrow> 'st \<Rightarrow> (byte list \<times> 'st) option" where
  "dispatch_reads dispatch_message error [] buf st = Some (buf, st)"
| "dispatch_reads dispatch_message error (reads # batches) buf st =
     Option.bind (dispatch_client_read dispatch_message error reads buf st) (\<lambda>(buf, st, _).
       dispatch_reads dispatch_message error batches buf st)"

context message_handler
begin

lemma recv_buffer_frames:
  assumes "no_max_frame buf"
  shows "dispatch_recv_buffer dispatch_message buf st =
    map_option (\<lambda>st. (drop (consumed buf) buf, st)) (run_frames handle (frames buf) st)"
proof (cases "frames buf = []")
  case True
  then show ?thesis
    by (subst dispatch_recv_buffer.simps) (simp add: can_dispatch_frames consumed_def)
next
  case False
  then have buf: "buf \<noteq> []" "0 < consumed buf" by (auto intro: consumed_pos)
  have rest: "dispatch_recv_buffer dispatch_message (drop (consumed buf) buf) st' = Some (drop (consumed buf) buf, st')" for st'
    by (subst dispatch_recv_buffer.simps) (simp add: can_dispatch_frames frames_rest)
  show ?thesis
    using False buf consumed_le [of buf] assms
    by (subst dispatch_recv_buffer.simps)
      (simp add: can_dispatch_frames dispatch_frames g_byte_array_remove_range_def rest Option.bind_map_option
        comp_def map_conv_bind_option)
qed

lemma reads_frames:
  assumes "\<forall>reads \<in> set batches. open_reads reads" and "no_max_frame (buf @ concat (map bytes_of batches))"
    and "frames buf = []"
  shows "dispatch_reads dispatch_message error batches buf st =
    map_option (\<lambda>st. (drop (consumed (buf @ concat (map bytes_of batches))) (buf @ concat (map bytes_of batches)), st))
      (run_frames handle (frames (buf @ concat (map bytes_of batches))) st)"
  using assms
proof (induction batches arbitrary: buf st)
  case Nil
  then show ?case by (simp add: consumed_def)
next
  case (Cons reads batches)
  let ?b = "buf @ bytes_of reads" and ?rest = "concat (map bytes_of batches)"
  let ?b' = "drop (consumed ?b) ?b"
  have all: "buf @ concat (map bytes_of (reads # batches)) = ?b @ ?rest" by simp
  have nm: "no_max_frame ?b" "no_max_frame (?b' @ ?rest)"
    using no_max_frame_append [of ?b ?rest] Cons.prems(2) all by simp_all
  have IH: "dispatch_reads dispatch_message error batches ?b' st' =
      map_option (\<lambda>st. (drop (consumed (?b' @ ?rest)) (?b' @ ?rest), st)) (run_frames handle (frames (?b' @ ?rest)) st')" for st'
    by (rule Cons.IH [OF _ nm(2) frames_rest]) (use Cons.prems(1) in simp)
  have "dispatch_client_read dispatch_message error reads buf st =
      map_option (\<lambda>st. (?b', st, True)) (run_frames handle (frames ?b) st)"
    using Cons.prems(1) recv_buffer_frames [OF nm(1)]
    by (simp add: dispatch_client_read_def fill_open option.map_comp comp_def)
  then have "dispatch_reads dispatch_message error (reads # batches) buf st =
      Option.bind (run_frames handle (frames ?b) st) (\<lambda>st'. dispatch_reads dispatch_message error batches ?b' st')"
    by (simp add: Option.bind_map_option comp_def)
  then show ?case
    unfolding all IH drop_consumed_append [of ?b ?rest] frames_append [of ?b ?rest] run_frames_append
    by (simp only: map_option_bind comp_def)
qed

end

section \<open>Properties\<close>

text \<open>
  End of file. Bytes that arrive in the same callback as the end of the stream are never given
  to the protocol: its error callback runs on the state as it was, and complete messages stay in the
  receive buffer.
\<close>

theorem eof_discards_received:
  "dispatch_client_read dispatch_message error
     [\<lparr>read_bytes = bs, read_status = Io_Normal, read_failed = False\<rparr>,
      \<lparr>read_bytes = [], read_status = Io_Eof, read_failed = False\<rparr>] buf st =
    map_option (\<lambda>st. (buf @ bs, st, False)) (error st)"
  by (simp add: dispatch_client_read_def dispatch_client_error_def g_byte_array_append_def Let_def)

text \<open>
  A peer that closes the connection after its last bytes: when the channel is reported readable
  and hung up at once, the watch is removed without a read and without the error callback of the
  protocol, so that nothing learns of the disconnection.
\<close>

theorem hangup_with_data_unnoticed:
  "dispatch_client dispatch_message error (G_IO_IN OR G_IO_HUP) reads buf st = Some (buf, st, False)"
  by (simp add: dispatch_client_def G_IO_IN_def G_IO_PRI_def G_IO_ERR_def G_IO_HUP_def)

lemma foldl_write_disconnected:
  "rs_socket sock = None \<Longrightarrow> foldl gzochid_reconnectable_socket_write sock ws =
    sock\<lparr>outbound_messages := outbound_messages sock @ concat ws\<rparr>"
  by (induction ws arbitrary: sock)
    (simp_all add: gzochid_reconnectable_socket_write_def g_byte_array_append_def)

lemma notify_writers:
  "rs_socket sock = Some s \<Longrightarrow>
    notify_listeners (map (\<lambda>l sock. gzochid_reconnectable_socket_write sock l) ls) sock =
      sock\<lparr>rs_socket := Some (if ls = [] then s else gzochid_client_socket_write s (concat ls))\<rparr>"
  by (induction ls arbitrary: sock s)
    (auto simp: gzochid_reconnectable_socket_write_def gzochid_client_socket_write_def g_byte_array_append_def)

text \<open>
  Reconnecting. What is written to a reconnectable socket without a connection is kept, and
  when a connection comes up the listeners' messages (the login) go out first, then everything kept,
  once and in the order it was written; nothing is left behind.
\<close>

theorem reconnect_keeps_order:
  assumes "rs_socket sock = None"
  shows "\<exists>sock' s'. gzochid_reconnectable_socket_connect
      (map (\<lambda>l sock. gzochid_reconnectable_socket_write sock l) logins)
      (foldl gzochid_reconnectable_socket_write sock ws) s = Some sock'
    \<and> rs_socket sock' = Some s' \<and> outbound_messages sock' = []
    \<and> send_buffer s' = send_buffer s @ concat logins @ outbound_messages sock @ concat ws"
  using assms
  by (auto simp: gzochid_reconnectable_socket_connect_def foldl_write_disconnected notify_writers
    gzochid_client_socket_write_def g_byte_array_append_def Let_def)

theorem reconnect_keeps_order_witness:
  "\<exists>sock' s'. gzochid_reconnectable_socket_connect [\<lambda>sock. gzochid_reconnectable_socket_write sock [1, 2]]
      (gzochid_reconnectable_socket_write (gzochid_reconnectable_socket_write gzochid_reconnectable_socket_new [3]) [4])
      \<lparr>send_buffer = [], write_source = False\<rparr> = Some sock'
    \<and> rs_socket sock' = Some s' \<and> send_buffer s' = [1, 2, 3, 4]"
  using reconnect_keeps_order [of gzochid_reconnectable_socket_new "[[1, 2]]" "[[3], [4]]" "\<lparr>send_buffer = [], write_source = False\<rparr>"]
  by (simp add: gzochid_reconnectable_socket_new_def) blast

text \<open>
  Sending. Unless the channel reports more bytes than the buffer had, the callback for the
  writable channel returns; the bytes the channel took followed by what is left in the buffer
  are what the buffer held, and a socket that stops watching the channel has nothing left to send.
\<close>

theorem client_write_in_order:
  "case dispatch_client_write ws sock of
     None \<Rightarrow> length (send_buffer sock) < sum_list (map written ws)
   | Some (sock', out, alive) \<Rightarrow> send_buffer sock = out @ send_buffer sock'
       \<and> (write_source sock \<and> \<not> write_source sock' \<longrightarrow> send_buffer sock' = [])"
proof (induction ws arbitrary: sock)
  case (Cons w ws)
  show ?case
  proof (cases "written w \<le> length (send_buffer sock)")
    case False
    then show ?thesis by (simp add: g_byte_array_remove_range_def)
  next
    case True
    let ?sock = "sock\<lparr>send_buffer := drop (written w) (send_buffer sock)\<rparr>"
    show ?thesis
      using Cons.IH [of ?sock] True
      by (auto simp: g_byte_array_remove_range_def Let_def split: option.splits prod.splits)
        (metis append_take_drop_id)+
  qed
qed simp

theorem client_write_in_order_witness:
  "\<exists>sock'. dispatch_client_write [\<lparr>written = 2, write_status = Io_Normal, write_failed = False\<rparr>,
       \<lparr>written = 1, write_status = Io_Normal, write_failed = False\<rparr>] \<lparr>send_buffer = [7, 8, 9], write_source = True\<rparr>
     = Some (sock', [7, 8, 9], True) \<and> \<not> write_source sock' \<and> send_buffer sock' = []"
  using client_write_in_order [where ws = "[\<lparr>written = 2, write_status = Io_Normal, write_failed = False\<rparr>,
       \<lparr>written = 1, write_status = Io_Normal, write_failed = False\<rparr>]" and sock = "\<lparr>send_buffer = [7, 8, 9], write_source = True\<rparr>"]
  by (simp add: g_byte_array_remove_range_def)

end
