(* ===== verification/Dataserver_Protocol.thy ===== *)
theory Dataserver_Protocol
  imports Framing Dataserver
begin

text \<open>
  The server side of the data protocol, \<open>gzochi-server/src/dataserver-protocol.c\<close>: decoding the
  messages an application server sends, calling the data server of \<open>Dataserver\<close> and writing the
  encoded answers to the client socket.

  The environment holds what the code takes from outside: the storage engine, the byte order of
  the host, the choice that a lookup with a \<open>NULL\<close> key makes, the content of uninitialized
  memory, and the readings of the clock. The state is the data server, the bytes written to the
  client's socket so far and the number of clock readings used.
\<close>

record ('e, 'x, 's) dataserver_env =
  env_iface :: "('e, 'x, 's) gzochid_storage_engine_interface"
  env_big_endian :: bool
  env_null_pick :: "nat \<Rightarrow> nat"
  env_uninit :: int
  env_clock :: "nat \<Rightarrow> timeval"

record ('e, 's) dataserver_client =
  client_server :: "('e, 's) dataserver"
  client_sent :: "byte list"
  client_time :: nat

text \<open>The opcodes, from \<open>meta-protocol.h\<close>.\<close>

definition REQUEST_OIDS :: byte where "REQUEST_OIDS = 0x20"
definition REQUEST_VALUE :: byte where "REQUEST_VALUE = 0x21"
definition REQUEST_NEXT_KEY :: byte where "REQUEST_NEXT_KEY = 0x22"
definition SUBMIT_CHANGESET :: byte where "SUBMIT_CHANGESET = 0x30"
definition RELEASE_KEY :: byte where "RELEASE_KEY = 0x40"
definition RELEASE_KEY_RANGE :: byte where "RELEASE_KEY_RANGE = 0x42"
definition OIDS_RESPONSE :: byte where "OIDS_RESPONSE = 0x50"
definition VALUE_RESPONSE :: byte where "VALUE_RESPONSE = 0x51"
definition NEXT_KEY_RESPONSE :: byte where "NEXT_KEY_RESPONSE = 0x52"

lemmas data_opcodes = REQUEST_OIDS_def REQUEST_VALUE_def REQUEST_NEXT_KEY_def SUBMIT_CHANGESET_def
  RELEASE_KEY_def RELEASE_KEY_RANGE_def OIDS_RESPONSE_def VALUE_RESPONSE_def NEXT_KEY_RESPONSE_def

text \<open>The end of every handler that answers: length and opcode in front of the encoded answer.\<close>

definition write_response :: "byte \<Rightarrow> byte list \<Rightarrow> ('e, 's) dataserver_client \<Rightarrow> ('e, 's) dataserver_client option" where
  "write_response opcode bytes client = do {
     let bytes = g_byte_array_prepend bytes [0, 0, opcode];
     bytes \<leftarrow> gzochi_common_io_write_short (word_of_nat (length bytes - 3)) bytes 0;
     Some (client\<lparr>client_sent := client_sent client @ bytes\<rparr>)
   }"

definition dispatch_request_oids ::
    "('e, 'x, 's) dataserver_env \<Rightarrow> guint \<Rightarrow> byte list \<Rightarrow> nat \<Rightarrow> 16 word \<Rightarrow> ('e, 's) dataserver_client \<Rightarrow>
     (('e, 's) dataserver_client \<times> bool) option" where
  "dispatch_request_oids env node_id m data len client = do {
     r \<leftarrow> gzochid_protocol_read_str m data (unat len);
     case r of
       None \<Rightarrow> Some (client, False)
     | Some (app, str_len) \<Rightarrow>
         if str_len \<le> 1 then Some (client, False)
         else do {
           (srv, response) \<leftarrow> gzochi_metad_dataserver_reserve_oids (env_iface env) (env_big_endian env)
             (client_server client) node_id app;
           bytes \<leftarrow> gzochid_data_protocol_reserve_oids_response_write response [];
           client \<leftarrow> write_response OIDS_RESPONSE bytes (client\<lparr>client_server := srv\<rparr>);
           Some (client, True)
         }
   }"

definition dispatch_request_value ::
    "('e, 'x, 's) dataserver_env \<Rightarrow> guint \<Rightarrow> byte list \<Rightarrow> nat \<Rightarrow> 16 word \<Rightarrow> ('e, 's) dataserver_client \<Rightarrow>
     (('e, 's) dataserver_client \<times> bool) option" where
  "dispatch_request_value env node_id m data len client = do {
     r \<leftarrow> gzochid_protocol_read_str m data (unat len);
     case r of
       None \<Rightarrow> Some (client, False)
     | Some (app, str_len) \<Rightarrow>
         if str_len \<le> 1 then Some (client, False)
         else do {
           let len = len - word_of_nat str_len;
           let offset = str_len;
           r \<leftarrow> gzochid_protocol_read_str m (data + offset) (unat len);
           case r of
             None \<Rightarrow> Some (client, False)
           | Some (store, str_len) \<Rightarrow>
               if str_len \<le> 1 then Some (client, False)
               else do {
                 let len = len - word_of_nat str_len;
                 let offset = offset + str_len;
                 if len = 0 then Some (client, False)
                 else do {
                   flag \<leftarrow> rd m (data + offset);
                   let for_write = (flag = 1);
                   let len = len - 1;
                   let offset = offset + 1;
                   r \<leftarrow> gzochid_protocol_read_bytes m (data + offset) (unat len);
                   case r of
                     None \<Rightarrow> Some (client, False)
                   | Some key_bytes \<Rightarrow> do {
                       let (srv, key) = gbytes_new (client_server client) key_bytes;
                       (srv, response) \<leftarrow> gzochi_metad_dataserver_request_value (env_iface env)
                         (env_uninit env) srv node_id app store key for_write
                         (env_clock env (client_time client));
                       let client = client\<lparr>client_server := srv, client_time := Suc (client_time client)\<rparr>;
                       case response of
                         Inl err \<Rightarrow> Some (client, False)
                       | Inr response \<Rightarrow> do {
                           bytes \<leftarrow> gzochid_data_protocol_response_write (env_big_endian env) response [];
                           client \<leftarrow> write_response VALUE_RESPONSE bytes client;
                           Some (client, True)
                         }
                     }
                 }
               }
         }
   }"

definition dispatch_request_next_key ::
    "('e, 'x, 's) dataserver_env \<Rightarrow> guint \<Rightarrow> byte list \<Rightarrow> nat \<Rightarrow> 16 word \<Rightarrow> ('e, 's) dataserver_client \<Rightarrow>
     (('e, 's) dataserver_client \<times> bool) option" where
  "dispatch_request_next_key env node_id m data len client = do {
     r \<leftarrow> gzochid_protocol_read_str m data (unat len);
     case r of
       None \<Rightarrow> Some (client, False)
     | Some (app, str_len) \<Rightarrow>
         if str_len \<le> 1 then Some (client, False)
         else do {
           let len = len - word_of_nat str_len;
           let offset = str_len;
           r \<leftarrow> gzochid_protocol_read_str m (data + offset) (unat len);
           case r of
             None \<Rightarrow> Some (client, False)
           | Some (store, str_len) \<Rightarrow>
               if str_len \<le> 1 then Some (client, False)
               else do {
                 let len = len - word_of_nat str_len;
                 let offset = offset + str_len;
                 r \<leftarrow> gzochid_protocol_read_bytes m (data + offset) (unat len);
                 case r of
                   None \<Rightarrow> Some (client, False)
                 | Some key_bytes \<Rightarrow> do {
                     let (srv, key) = gbytes_new (client_server client) key_bytes;
                     (srv, response) \<leftarrow> gzochi_metad_dataserver_request_next_key (env_iface env)
                       (env_null_pick env) (env_uninit env) srv node_id app store
                       (if length key_bytes = 0 then None else Some key)
                       (env_clock env (client_time client));
                     let client = client\<lparr>client_server := srv, client_time := Suc (client_time client)\<rparr>;
                     case response of
                       Inl err \<Rightarrow> Some (client, False)
                     | Inr response \<Rightarrow> do {
                         bytes \<leftarrow> gzochid_data_protocol_response_write (env_big_endian env) response [];
                         client \<leftarrow> write_response NEXT_KEY_RESPONSE bytes client;
                         Some (client, True)
                       }
                   }
               }
         }
   }"

definition dispatch_submit_changeset ::
    "('e, 'x, 's) dataserver_env \<Rightarrow> guint \<Rightarrow> byte list \<Rightarrow> nat \<Rightarrow> 16 word \<Rightarrow> ('e, 's) dataserver_client \<Rightarrow>
     (('e, 's) dataserver_client \<times> bool) option" where
  "dispatch_submit_changeset env node_id m data len client = do {
     bytes \<leftarrow> rd_range m data (unat len);
     r \<leftarrow> gzochid_data_protocol_changeset_read bytes;
     case r of
       None \<Rightarrow> Some (client, False)
     | Some changeset \<Rightarrow> do {
         (srv, local_err) \<leftarrow> gzochi_metad_dataserver_process_changeset (env_iface env)
           (client_server client) node_id changeset;
         Some (client\<lparr>client_server := srv\<rparr>, local_err = None)
       }
   }"

definition dispatch_release_key ::
    "('e, 'x, 's) dataserver_env \<Rightarrow> guint \<Rightarrow> byte list \<Rightarrow> nat \<Rightarrow> 16 word \<Rightarrow> ('e, 's) dataserver_client \<Rightarrow>
     (('e, 's) dataserver_client \<times> bool) option" where
  "dispatch_release_key env node_id m data len client = do {
     r \<leftarrow> gzochid_protocol_read_str m data (unat len);
     case r of
       None \<Rightarrow> Some (client, False)
     | Some (app, str_len) \<Rightarrow>
         if str_len \<le> 1 then Some (client, False)
         else do {
           let len = len - word_of_nat str_len;
           let offset = str_len;
           r \<leftarrow> gzochid_protocol_read_str m (data + offset) (unat len);
           case r of
             None \<Rightarrow> Some (client, False)
           | Some (store, str_len) \<Rightarrow>
               if str_len \<le> 1 then Some (client, False)
               else do {
                 let len = len - word_of_nat str_len;
                 let offset = offset + str_len;
                 r \<leftarrow> gzochid_protocol_read_bytes m (data + offset) (unat len);
                 case r of
                   None \<Rightarrow> Some (client, False)
                 | Some key_bytes \<Rightarrow> do {
                     let (srv, key) = gbytes_new (client_server client) key_bytes;
                     srv \<leftarrow> gzochi_metad_dataserver_release_key (env_iface env) srv node_id app store key;
                     Some (client\<lparr>client_server := srv\<rparr>, True)
                   }
               }
         }
   }"

definition dispatch_release_key_range ::
    "('e, 'x, 's) dataserver_env \<Rightarrow> guint \<Rightarrow> byte list \<Rightarrow> nat \<Rightarrow> 16 word \<Rightarrow> ('e, 's) dataserver_client \<Rightarrow>
     (('e, 's) dataserver_client \<times> bool) option" where
  "dispatch_release_key_range env node_id m data len client = do {
     r \<leftarrow> gzochid_protocol_read_str m data (unat len);
     case r of
       None \<Rightarrow> Some (client, False)
     | Some (app, str_len) \<Rightarrow>
         if str_len \<le> 1 then Some (client, False)
         else do {
           let len = len - word_of_nat str_len;
           let offset = str_len;
           r \<leftarrow> gzochid_protocol_read_str m (data + offset) (unat len);
           case r of
             None \<Rightarrow> Some (client, False)
           | Some (store, str_len) \<Rightarrow>
               if str_len \<le> 1 then Some (client, False)
               else do {
                 let len = len - word_of_nat str_len;
                 let offset = offset + str_len;
                 r \<leftarrow> gzochid_protocol_read_bytes m (data + offset) (unat len);
                 case r of
                   None \<Rightarrow> Some (client, False)
                 | Some from_bytes \<Rightarrow> do {
                     let len = len - word_of_nat (2 + length from_bytes);
                     let offset = offset + (2 + length from_bytes);
                     let (srv, from_key) = gbytes_new (client_server client) from_bytes;
                     r \<leftarrow> gzochid_protocol_read_bytes m (data + offset) (unat len);
                     case r of
                       None \<Rightarrow> Some (client, False)
                     | Some to_bytes \<Rightarrow> do {
                         let (srv, to_key) = gbytes_new srv to_bytes;
                         srv \<leftarrow> gzochi_metad_dataserver_release_range (env_iface env) srv node_id app store
                           (if length from_bytes = 0 then None else Some from_key)
                           (if length to_bytes = 0 then None else Some to_key);
                         Some (client\<lparr>client_server := srv\<rparr>, True)
                       }
                   }
               }
         }
   }"

definition dataserver_dispatch_message ::
    "('e, 'x, 's) dataserver_env \<Rightarrow> guint \<Rightarrow> byte list \<Rightarrow> nat \<Rightarrow> 16 word \<Rightarrow> ('e, 's) dataserver_client \<Rightarrow>
     ('e, 's) dataserver_client option" where
  "dataserver_dispatch_message env node_id m message len client = do {
     opcode \<leftarrow> rd m message;
     let payload = message + 1;
     let len = len - 1;
     if opcode = REQUEST_OIDS then
       map_option fst (dispatch_request_oids env node_id m payload len client)
     else if opcode = REQUEST_VALUE then
       map_option fst (dispatch_request_value env node_id m payload len client)
     else if opcode = REQUEST_NEXT_KEY then
       map_option fst (dispatch_request_next_key env node_id m payload len client)
     else if opcode = SUBMIT_CHANGESET then
       map_option fst (dispatch_submit_changeset env node_id m payload len client)
     else if opcode = RELEASE_KEY then
       map_option fst (dispatch_release_key env node_id m payload len client)
     else if opcode = RELEASE_KEY_RANGE then
       map_option fst (dispatch_release_key_range env node_id m payload len client)
     else Some client
   }"

definition dataserver_client_dispatch ::
    "('e, 'x, 's) dataserver_env \<Rightarrow> guint \<Rightarrow> byte list \<Rightarrow> ('e, 's) dataserver_client \<Rightarrow>
     (('e, 's) dataserver_client \<times> nat) option" where
  "dataserver_client_dispatch env node_id = client_dispatch (dataserver_dispatch_message env node_id)"

definition dataserver_client_error ::
    "guint \<Rightarrow> ('e, 's) dataserver_client \<Rightarrow> ('e, 's) dataserver_client option" where
  "dataserver_client_error node_id client = do {
     srv \<leftarrow> gzochi_metad_dataserver_release_all (client_server client) node_id;
     Some (client\<lparr>client_server := srv\<rparr>)
   }"

end
