(* ===== verification/Dataserver_Requests.thy ===== *)
theory Dataserver_Requests
  imports Dataserver_Protocol Socket Dataserver_Props
begin

text \<open>
  What \<open>dataserver-protocol.c\<close> implements: a service of requests. \<open>decode_request\<close> says which
  request a message is, \<open>serve\<close> what the server does for it; the handlers of the protocol, with
  their offsets and 16 bit lengths, are shown to do exactly that, on any bytes.
\<close>

section \<open>Requests\<close>

datatype data_request =
    Reserve_Oids cstring
  | Get_Value cstring cstring bool "byte list"
  | Get_Next_Key cstring cstring "byte list"
  | Submit gzochid_data_changeset
  | Drop_Key cstring cstring "byte list"
  | Drop_Range cstring cstring "byte list" "byte list"

definition names_at :: "byte list \<Rightarrow> (cstring \<times> cstring \<times> byte list) option" where
  "names_at x = do { (app, x) \<leftarrow> name_at x; (store, x) \<leftarrow> name_at x; Some (app, store, x) }"

fun decode_request :: "byte list \<Rightarrow> data_request option" where
  "decode_request [] = None"
| "decode_request (opcode # x) =
     (if opcode = REQUEST_OIDS then do { (app, _) \<leftarrow> name_at x; Some (Reserve_Oids app) }
      else if opcode = REQUEST_VALUE then do {
        (app, store, x) \<leftarrow> names_at x;
        case x of
          [] \<Rightarrow> None
        | flag # x \<Rightarrow> do { (k, _) \<leftarrow> bytes_at x; Some (Get_Value app store (flag = 1) k) }
      }
      else if opcode = REQUEST_NEXT_KEY then do {
        (app, store, x) \<leftarrow> names_at x;
        (k, _) \<leftarrow> bytes_at x;
        Some (Get_Next_Key app store k)
      }
      else if opcode = SUBMIT_CHANGESET then
        map_option Submit (Option.bind (gzochid_data_protocol_changeset_read x) (\<lambda>r. r))
      else if opcode = RELEASE_KEY then do {
        (app, store, x) \<leftarrow> names_at x;
        (k, _) \<leftarrow> bytes_at x;
        Some (Drop_Key app store k)
      }
      else if opcode = RELEASE_KEY_RANGE then do {
        (app, store, x) \<leftarrow> names_at x;
        (fr, x) \<leftarrow> bytes_at x;
        (to, _) \<leftarrow> bytes_at x;
        Some (Drop_Range app store fr to)
      }
      else None)"

text \<open>An empty key stands for the end of the key space.\<close>

definition bound_key :: "gbytes \<Rightarrow> gbytes option" where
  "bound_key k = (if bytes_data k = [] then None else Some k)"

definition answer :: "byte \<Rightarrow> byte list \<Rightarrow> ('e, 's) dataserver_client \<Rightarrow> ('e, 's) dataserver_client" where
  "answer opcode bytes client = client\<lparr>client_sent := client_sent client @ frame_bytes (opcode # bytes)\<rparr>"

definition answer_response ::
    "('e, 'x, 's) dataserver_env \<Rightarrow> byte \<Rightarrow> ('e, 's) dataserver_client \<Rightarrow>
     ('e, 's) dataserver \<times> (dataserver_error + gzochid_data_response) \<Rightarrow> ('e, 's) dataserver_client option" where
  "answer_response env opcode client = (\<lambda>(srv, response).
     let client = client\<lparr>client_server := srv, client_time := Suc (client_time client)\<rparr>
     in case response of
       Inl err \<Rightarrow> Some client
     | Inr response \<Rightarrow> map_option (\<lambda>bytes. answer opcode bytes client)
         (gzochid_data_protocol_response_write (env_big_endian env) response []))"

fun serve ::
    "('e, 'x, 's) dataserver_env \<Rightarrow> guint \<Rightarrow> data_request \<Rightarrow> ('e, 's) dataserver_client \<Rightarrow>
     ('e, 's) dataserver_client option" where
  "serve env n (Reserve_Oids app) c = do {
     (srv, response) \<leftarrow> gzochi_metad_dataserver_reserve_oids (env_iface env) (env_big_endian env)
       (client_server c) n app;
     bytes \<leftarrow> gzochid_data_protocol_reserve_oids_response_write response [];
     Some (answer OIDS_RESPONSE bytes (c\<lparr>client_server := srv\<rparr>))
   }"
| "serve env n (Get_Value app store fw k) c = (case gbytes_new (client_server c) k of (srv, key) \<Rightarrow>
     Option.bind (gzochi_metad_dataserver_request_value (env_iface env) (env_uninit env) srv n app store key fw
         (env_clock env (client_time c)))
       (answer_response env VALUE_RESPONSE c))"
| "serve env n (Get_Next_Key app store k) c = (case gbytes_new (client_server c) k of (srv, key) \<Rightarrow>
     Option.bind (gzochi_metad_dataserver_request_next_key (env_iface env) (env_null_pick env) (env_uninit env)
         srv n app store (bound_key key) (env_clock env (client_time c)))
       (answer_response env NEXT_KEY_RESPONSE c))"
| "serve env n (Submit cs) c = map_option (\<lambda>(srv, err). c\<lparr>client_server := srv\<rparr>)
     (gzochi_metad_dataserver_process_changeset (env_iface env) (client_server c) n cs)"
| "serve env n (Drop_Key app store k) c = (case gbytes_new (client_server c) k of (srv, key) \<Rightarrow>
     map_option (\<lambda>srv. c\<lparr>client_server := srv\<rparr>)
       (gzochi_metad_dataserver_release_key (env_iface env) srv n app store key))"
| "serve env n (Drop_Range app store fr to) c =
     (case gbytes_new (client_server c) fr of (srv, from_key) \<Rightarrow>
      case gbytes_new srv to of (srv, to_key) \<Rightarrow>
        map_option (\<lambda>srv. c\<lparr>client_server := srv\<rparr>)
          (gzochi_metad_dataserver_release_range (env_iface env) srv n app store (bound_key from_key) (bound_key to_key)))"

definition handle_request ::
    "('e, 'x, 's) dataserver_env \<Rightarrow> guint \<Rightarrow> byte list \<Rightarrow> ('e, 's) dataserver_client \<Rightarrow>
     ('e, 's) dataserver_client option" where
  "handle_request env n msg c = (case decode_request msg of None \<Rightarrow> Some c | Some req \<Rightarrow> serve env n req c)"

section \<open>The handlers implement the requests\<close>

lemma write_response_eq: "write_response opcode bytes c = Some (answer opcode bytes c)"
  by (simp add: write_response_def answer_def frame_bytes_Cons g_byte_array_prepend_def write_short_front)

text \<open>The two names at the start of most requests, read by the code and by \<open>names_at\<close>.\<close>

lemma names_cases:
  fixes len :: "16 word"
  assumes "p + unat len \<le> length m"
  obtains (bad_app) r where "gzochid_protocol_read_str m p (unat len) = Some r"
      and "case r of None \<Rightarrow> True | Some (s, k) \<Rightarrow> k \<le> 1" and "names_at (take (unat len) (drop p m)) = None"
  | (bad_store) app k r where "gzochid_protocol_read_str m p (unat len) = Some (Some (app, k))" and "1 < k"
      and "gzochid_protocol_read_str m (p + k) (unat (len - word_of_nat k)) = Some r"
      and "case r of None \<Rightarrow> True | Some (s, k) \<Rightarrow> k \<le> 1" and "names_at (take (unat len) (drop p m)) = None"
  | (ok) app k store k2 where "gzochid_protocol_read_str m p (unat len) = Some (Some (app, k))" and "1 < k"
      and "gzochid_protocol_read_str m (p + k) (unat (len - word_of_nat k)) = Some (Some (store, k2))" and "1 < k2"
      and "names_at (take (unat len) (drop p m)) =
        Some (app, store, take (unat (len - word_of_nat k - word_of_nat k2)) (drop (p + (k + k2)) m))"
      and "p + (k + k2) + unat (len - word_of_nat k - word_of_nat k2) \<le> length m"
proof (cases rule: name_cases [OF assms])
  case (1 r)
  then show ?thesis using bad_app by (simp add: names_at_def)
next
  case (2 app k)
  then show ?thesis
  proof (cases rule: name_cases [OF 2(4)])
    case (1 r)
    then show ?thesis using bad_store [OF 2(1,2)] 2(3) by (simp add: names_at_def)
  next
    case (2 store k2)
    then show ?thesis
      using ok [of app k store k2] \<open>1 < k\<close> \<open>gzochid_protocol_read_str m p (unat len) = _\<close>
        \<open>name_at (take (unat len) (drop p m)) = _\<close>
      by (simp add: names_at_def add.assoc)
  qed
qed

lemma request_oids_implements:
  assumes "p + unat len \<le> length m"
  shows "map_option fst (dispatch_request_oids env n m p len c) =
    handle_request env n (REQUEST_OIDS # take (unat len) (drop p m)) c"
proof (cases rule: name_cases [OF assms])
  case (1 r)
  then show ?thesis
    by (auto simp: dispatch_request_oids_def handle_request_def split: option.splits)
next
  case (2 app k)
  then show ?thesis
    by (auto simp: dispatch_request_oids_def handle_request_def write_response_eq map_option_bind
      comp_def split_def intro!: Option.bind_cong)
qed

lemma answer_response_eq:
  "map_option fst (Option.bind q (\<lambda>(srv, response).
     let client = c\<lparr>client_server := srv, client_time := Suc (client_time c)\<rparr>
     in case response of
       Inl err \<Rightarrow> Some (client, False)
     | Inr response \<Rightarrow> Option.bind (gzochid_data_protocol_response_write (env_big_endian env) response []) (\<lambda>bytes.
         Option.bind (write_response opcode bytes client) (\<lambda>client. Some (client, True)))))
   = Option.bind q (answer_response env opcode c)"
proof (cases q)
  case (Some r)
  then show ?thesis
    by (cases r; cases "snd r")
      (auto simp: answer_response_def write_response_eq map_option_bind comp_def Let_def map_conv_bind_option
        intro!: Option.bind_cong)
qed simp

lemma request_value_implements:
  assumes "p + unat len \<le> length m"
  shows "map_option fst (dispatch_request_value env n m p len c) =
    handle_request env n (REQUEST_VALUE # take (unat len) (drop p m)) c"
proof (cases rule: names_cases [OF assms])
  case (1 r)
  then show ?thesis
    by (auto simp: dispatch_request_value_def handle_request_def data_opcodes split: option.splits)
next
  case (2 app k r)
  then show ?thesis
    by (auto simp: dispatch_request_value_def handle_request_def data_opcodes split: option.splits)
next
  case (3 app k store k2)
  define len' where "len' = len - word_of_nat k - word_of_nat k2"
  define q where "q = p + (k + k2)"
  show ?thesis
  proof (cases "len' = 0")
    case True
    with 3 show ?thesis
      by (simp add: dispatch_request_value_def handle_request_def data_opcodes len'_def)
  next
    case False
    then have pos: "0 < unat len'" by (simp add: unat_gt_0)
    have bound: "q + unat len' \<le> length m" using 3(6) by (simp add: q_def len'_def)
    have u: "unat (len' - 1) = unat len' - 1"
      using unat_sub_nat [of 1 len'] pos by simp
    have head: "take (unat len') (drop q m) = m ! q # take (unat (len' - 1)) (drop (q + 1) m)"
      using pos bound u by (cases "unat len'") (simp_all add: Cons_nth_drop_Suc [symmetric])
    have flag: "rd m q = Some (m ! q)" using pos bound by (simp add: rd_def)
    have bytes: "gzochid_protocol_read_bytes m (q + 1) (unat (len' - 1)) =
        Some (map_option fst (bytes_at (take (unat (len' - 1)) (drop (q + 1) m))))"
      using read_bytes_at [of "q + 1" "unat (len' - 1)" m] pos bound u by simp
    have lhs: "dispatch_request_value env n m p len c =
        (case bytes_at (take (unat (len' - 1)) (drop (q + 1) m)) of
          None \<Rightarrow> Some (c, False)
        | Some (k, _) \<Rightarrow> (case gbytes_new (client_server c) k of (srv, key) \<Rightarrow>
            Option.bind (gzochi_metad_dataserver_request_value (env_iface env) (env_uninit env) srv n app store key
                (m ! q = 1) (env_clock env (client_time c)))
             (\<lambda>(srv, response).
               let client = c\<lparr>client_server := srv, client_time := Suc (client_time c)\<rparr>
               in case response of
                 Inl err \<Rightarrow> Some (client, False)
               | Inr response \<Rightarrow> Option.bind (gzochid_data_protocol_response_write (env_big_endian env) response []) (\<lambda>bytes.
                   Option.bind (write_response VALUE_RESPONSE bytes client) (\<lambda>client. Some (client, True))))))"
      using 3(1-4) False flag bytes
      by (simp add: dispatch_request_value_def len'_def [symmetric] q_def [symmetric] add.assoc split: option.split)
    have rhs: "decode_request (REQUEST_VALUE # take (unat len) (drop p m)) =
        map_option (\<lambda>(k, _). Get_Value app store (m ! q = 1) k) (bytes_at (take (unat (len' - 1)) (drop (q + 1) m)))"
      using 3(5) head by (simp add: data_opcodes len'_def [symmetric] q_def [symmetric] map_conv_bind_option split_def comp_def)
    show ?thesis
      unfolding lhs handle_request_def rhs
      by (auto simp: answer_response_eq split: option.split prod.splits)
  qed
qed

lemma request_next_key_implements:
  assumes "p + unat len \<le> length m"
  shows "map_option fst (dispatch_request_next_key env n m p len c) =
    handle_request env n (REQUEST_NEXT_KEY # take (unat len) (drop p m)) c"
proof (cases rule: names_cases [OF assms])
  case (1 r)
  then show ?thesis
    by (auto simp: dispatch_request_next_key_def handle_request_def data_opcodes split: option.splits)
next
  case (2 app k r)
  then show ?thesis
    by (auto simp: dispatch_request_next_key_def handle_request_def data_opcodes split: option.splits)
next
  case (3 app k store k2)
  define x where "x = take (unat (len - word_of_nat k - word_of_nat k2)) (drop (p + (k + k2)) m)"
  note bytes = read_bytes_at [OF 3(6), folded x_def]
  have lhs: "dispatch_request_next_key env n m p len c =
      (case bytes_at x of
        None \<Rightarrow> Some (c, False)
      | Some (k, _) \<Rightarrow> (case gbytes_new (client_server c) k of (srv, key) \<Rightarrow>
          Option.bind (gzochi_metad_dataserver_request_next_key (env_iface env) (env_null_pick env) (env_uninit env)
              srv n app store (if length k = 0 then None else Some key) (env_clock env (client_time c)))
           (\<lambda>(srv, response).
             let client = c\<lparr>client_server := srv, client_time := Suc (client_time c)\<rparr>
             in case response of
               Inl err \<Rightarrow> Some (client, False)
             | Inr response \<Rightarrow> Option.bind (gzochid_data_protocol_response_write (env_big_endian env) response []) (\<lambda>bytes.
                 Option.bind (write_response NEXT_KEY_RESPONSE bytes client) (\<lambda>client. Some (client, True))))))"
    using 3(1-4) bytes
    by (simp add: dispatch_request_next_key_def add.assoc split: option.split)
  have rhs: "decode_request (REQUEST_NEXT_KEY # take (unat len) (drop p m)) =
      map_option (\<lambda>(k, _). Get_Next_Key app store k) (bytes_at x)"
    using 3(5) by (simp add: data_opcodes x_def map_conv_bind_option split_def comp_def)
  show ?thesis
    unfolding lhs handle_request_def rhs
    by (auto simp: answer_response_eq gbytes_new_def bound_key_def split: option.split prod.splits)
qed

lemma release_key_implements:
  assumes "p + unat len \<le> length m"
  shows "map_option fst (dispatch_release_key env n m p len c) =
    handle_request env n (RELEASE_KEY # take (unat len) (drop p m)) c"
proof (cases rule: names_cases [OF assms])
  case (1 r)
  then show ?thesis
    by (auto simp: dispatch_release_key_def handle_request_def data_opcodes split: option.splits)
next
  case (2 app k r)
  then show ?thesis
    by (auto simp: dispatch_release_key_def handle_request_def data_opcodes split: option.splits)
next
  case (3 app k store k2)
  define x where "x = take (unat (len - word_of_nat k - word_of_nat k2)) (drop (p + (k + k2)) m)"
  note bytes = read_bytes_at [OF 3(6), folded x_def]
  have lhs: "dispatch_release_key env n m p len c =
      (case bytes_at x of
        None \<Rightarrow> Some (c, False)
      | Some (k, _) \<Rightarrow> (case gbytes_new (client_server c) k of (srv, key) \<Rightarrow>
          Option.bind (gzochi_metad_dataserver_release_key (env_iface env) srv n app store key)
           (\<lambda>srv. Some (c\<lparr>client_server := srv\<rparr>, True))))"
    using 3(1-4) bytes
    by (simp add: dispatch_release_key_def add.assoc split: option.split)
  have rhs: "decode_request (RELEASE_KEY # take (unat len) (drop p m)) =
      map_option (\<lambda>(k, _). Drop_Key app store k) (bytes_at x)"
    using 3(5) by (simp add: data_opcodes x_def map_conv_bind_option split_def comp_def)
  show ?thesis
    unfolding lhs handle_request_def rhs
    by (auto simp: map_option_bind map_conv_bind_option comp_def split: option.split prod.splits)
qed

lemma release_range_implements:
  assumes "p + unat len \<le> length m"
  shows "map_option fst (dispatch_release_key_range env n m p len c) =
    handle_request env n (RELEASE_KEY_RANGE # take (unat len) (drop p m)) c"
proof (cases rule: names_cases [OF assms])
  case (1 r)
  then show ?thesis
    by (auto simp: dispatch_release_key_range_def handle_request_def data_opcodes split: option.splits)
next
  case (2 app k r)
  then show ?thesis
    by (auto simp: dispatch_release_key_range_def handle_request_def data_opcodes split: option.splits)
next
  case (3 app k store k2)
  define len' where "len' = len - word_of_nat k - word_of_nat k2"
  define q where "q = p + (k + k2)"
  note bytes = read_bytes_at [OF 3(6), folded len'_def q_def]
  have bound: "q + unat len' \<le> length m" using 3(6) by (simp add: q_def len'_def)
  have nm: "names_at (take (unat len) (drop p m)) = Some (app, store, take (unat len') (drop q m))"
    using 3(5) by (simp add: q_def len'_def)
  show ?thesis
  proof (cases "bytes_at (take (unat len') (drop q m))")
    case None
    with 3(1-4) bytes nm show ?thesis
      by (simp add: dispatch_release_key_range_def handle_request_def data_opcodes len'_def [symmetric]
        q_def [symmetric] add.assoc)
  next
    case (Some br)
    then obtain fr r where fr: "bytes_at (take (unat len') (drop q m)) = Some (fr, r)" by (cases br) auto
    note rest = bytes_at_rest [OF fr bound]
    have u: "unat (len' - word_of_nat (2 + length fr)) = unat len' - (length fr + 2)"
      using unat_sub_nat [of "2 + length fr" len'] rest(1) by (simp add: add.commute)
    have r: "r = take (unat (len' - word_of_nat (2 + length fr))) (drop (q + (2 + length fr)) m)"
      using rest(2) u by (simp add: add.commute)
    have "q + (2 + length fr) + unat (len' - word_of_nat (2 + length fr)) \<le> length m"
      using u rest(1) bound by simp
    note bytes2 = read_bytes_at [OF this, folded r]
    have bytes2': "gzochid_protocol_read_bytes m (p + (k + (k2 + (2 + length fr))))
        (unat (len' - word_of_nat (2 + length fr))) = Some (map_option fst (bytes_at r))"
      using bytes2 by (simp add: q_def add.assoc)
    have lhs: "dispatch_release_key_range env n m p len c =
        (case bytes_at r of
          None \<Rightarrow> Some (c, False)
        | Some (to, _) \<Rightarrow> (case gbytes_new (client_server c) fr of (srv, from_key) \<Rightarrow>
            case gbytes_new srv to of (srv, to_key) \<Rightarrow>
            Option.bind (gzochi_metad_dataserver_release_range (env_iface env) srv n app store
                (if length fr = 0 then None else Some from_key) (if length to = 0 then None else Some to_key))
             (\<lambda>srv. Some (c\<lparr>client_server := srv\<rparr>, True))))"
      using 3(1-4) bytes bytes2' fr
      by (simp add: dispatch_release_key_range_def len'_def [symmetric] q_def [symmetric] add.assoc gbytes_new_def
        split: option.split split del: if_split cong: if_cong)
    have rhs: "decode_request (RELEASE_KEY_RANGE # take (unat len) (drop p m)) =
        map_option (\<lambda>(to, _). Drop_Range app store fr to) (bytes_at r)"
      using nm fr by (simp add: data_opcodes map_conv_bind_option split_def comp_def)
    show ?thesis
      unfolding lhs handle_request_def rhs
      by (auto simp: map_option_bind map_conv_bind_option comp_def gbytes_new_def bound_key_def
        split: option.split prod.splits)
  qed
qed

lemma submit_changeset_implements:
  assumes "p + unat len \<le> length m"
  shows "map_option fst (dispatch_submit_changeset env n m p len c) =
    handle_request env n (SUBMIT_CHANGESET # take (unat len) (drop p m)) c"
proof -
  have "rd_range m p (unat len) = Some (take (unat len) (drop p m))"
    using assms by (simp add: rd_range_def)
  moreover obtain r where r: "gzochid_data_protocol_changeset_read (take (unat len) (drop p m)) = Some r"
    using changeset_read_safe by blast
  ultimately show ?thesis
    by (cases r) (auto simp: dispatch_submit_changeset_def handle_request_def data_opcodes map_option_bind
      map_conv_bind_option comp_def split_def intro!: Option.bind_cong)
qed

lemma dispatch_message_implements:
  assumes "0 < unat len" and "p + unat len \<le> length m"
  shows "dataserver_dispatch_message env n m p len c = handle_request env n (take (unat len) (drop p m)) c"
proof -
  note msg = message_head(1) [OF assms] and b = message_head(2) [OF assms]
  from message_head(3) [OF assms] have code: "dataserver_dispatch_message env n m p len c =
      (if m ! p = REQUEST_OIDS then map_option fst (dispatch_request_oids env n m (p + 1) (len - 1) c)
       else if m ! p = REQUEST_VALUE then map_option fst (dispatch_request_value env n m (p + 1) (len - 1) c)
       else if m ! p = REQUEST_NEXT_KEY then map_option fst (dispatch_request_next_key env n m (p + 1) (len - 1) c)
       else if m ! p = SUBMIT_CHANGESET then map_option fst (dispatch_submit_changeset env n m (p + 1) (len - 1) c)
       else if m ! p = RELEASE_KEY then map_option fst (dispatch_release_key env n m (p + 1) (len - 1) c)
       else if m ! p = RELEASE_KEY_RANGE then map_option fst (dispatch_release_key_range env n m (p + 1) (len - 1) c)
       else Some c)"
    by (simp add: dataserver_dispatch_message_def Let_def)
  have other: "handle_request env n (m ! p # x) c = Some c"
    if "m ! p \<notin> {REQUEST_OIDS, REQUEST_VALUE, REQUEST_NEXT_KEY, SUBMIT_CHANGESET, RELEASE_KEY, RELEASE_KEY_RANGE}" for x
    using that by (simp add: handle_request_def)
  show ?thesis
    unfolding msg code request_oids_implements [OF b] request_value_implements [OF b]
      request_next_key_implements [OF b] submit_changeset_implements [OF b] release_key_implements [OF b]
      release_range_implements [OF b]
    using other by (simp del: decode_request.simps)
qed

interpretation data_messages: message_handler "dataserver_dispatch_message env n" "handle_request env n"
  by unfold_locales (rule dispatch_message_implements)

section \<open>Properties\<close>

text \<open>
  (C18) The data server as a service of requests. However the bytes a node sends are cut into reads
  and callbacks, as long as the channel stays open and no frame announces the maximal length of
  65535, the server decodes the frames of the whole stream and serves the requests they are, in
  order, ignoring frames that are no request; the receive buffer keeps the incomplete rest. In
  particular no byte outside a message is read.
\<close>

theorem data_stream_served:
  assumes "\<forall>reads \<in> set batches. open_reads reads" and "no_max_frame (concat (map bytes_of batches))"
  shows "dispatch_reads (dataserver_dispatch_message env n) (dataserver_client_error n) batches [] c =
    map_option (\<lambda>c. (drop (consumed (concat (map bytes_of batches))) (concat (map bytes_of batches)), c))
      (run_frames (handle_request env n) (frames (concat (map bytes_of batches))) c)"
  using data_messages.reads_frames [OF assms(1), of "[]"] assms(2) by simp

lemma server_ok_next_bytes [simp]: "server_ok N (srv\<lparr>next_bytes := a\<rparr>) = server_ok N srv"
  by (simp add: server_ok_def server_inv_def)

lemma serve_ok:
  assumes "server_ok N (client_server c)" and "n \<in> N" and "serve env n req c = Some c'"
  shows "server_ok N (client_server c')"
proof -
  have ans: "answer_response env op c (srv, r) = Some c' \<Longrightarrow> server_ok N srv \<Longrightarrow> server_ok N (client_server c')" for srv r op
    by (cases r) (auto simp: answer_response_def answer_def)
  show ?thesis
    using assms
    by (cases req)
      (auto simp: bind_eq_Some_conv answer_def gbytes_new_def intro: reserve_oids_ok process_changeset_ok
        elim!: ans dest!: request_value_ok [rotated 2] request_next_key_ok [rotated 2] release_key_ok [rotated 2]
          release_range_ok [rotated 2])
qed

text \<open>The invariant also holds after handlers that were given a wrong length.\<close>

lemma write_response_server: "write_response op bytes c = Some c' \<Longrightarrow> client_server c' = client_server c"
  by (auto simp: write_response_eq answer_def)

lemma handlers_ok:
  assumes "server_ok N (client_server c)" and "n \<in> N"
  defines "ok \<equiv> \<lambda>(c', r). server_ok N (client_server c')"
  shows "on_return ok (dispatch_request_oids env n m p len c)"
    and "on_return ok (dispatch_request_value env n m p len c)"
    and "on_return ok (dispatch_request_next_key env n m p len c)"
    and "on_return ok (dispatch_submit_changeset env n m p len c)"
    and "on_return ok (dispatch_release_key env n m p len c)"
    and "on_return ok (dispatch_release_key_range env n m p len c)"
  unfolding dispatch_request_oids_def dispatch_request_value_def dispatch_request_next_key_def
    dispatch_submit_changeset_def dispatch_release_key_def dispatch_release_key_range_def
  subgoal
    using assms(1,2)
    by (intro on_return_intros; auto simp: ok_def dest!: reserve_oids_ok [rotated 2] write_response_server)
  subgoal
    using assms(1,2)
    by (intro on_return_intros; auto simp: ok_def gbytes_new_def dest!: request_value_ok [rotated 2] write_response_server)
  subgoal
    using assms(1,2)
    by (intro on_return_intros; auto simp: ok_def gbytes_new_def dest!: request_next_key_ok [rotated 2] write_response_server)
  subgoal
    using assms(1,2)
    by (intro on_return_intros; auto simp: ok_def dest!: process_changeset_ok [rotated 2])
  subgoal
    using assms(1,2)
    by (intro on_return_intros; auto simp: ok_def gbytes_new_def dest!: release_key_ok [rotated 2])
  subgoal
    using assms(1,2)
    by (intro on_return_intros; auto simp: ok_def gbytes_new_def dest!: release_range_ok [rotated 2])
  done

lemma dispatch_message_ok:
  assumes "server_ok N (client_server c)" and "n \<in> N"
  shows "on_return (\<lambda>c'. server_ok N (client_server c')) (dataserver_dispatch_message env n m p len c)"
proof -
  have map_fst: "on_return P (map_option fst q)" if "on_return (\<lambda>(c, r). P c) q" for P and q :: "('x \<times> 'y) option"
    using that by (cases q) (auto simp: on_return_def)
  show ?thesis
    unfolding dataserver_dispatch_message_def
    by (intro on_return_intros map_fst handlers_ok assms)
qed

section \<open>Concrete streams\<close>

definition sample_env :: "(content, content, cstring) dataserver_env" where
  "sample_env = \<lparr>env_iface = map_engine, env_big_endian = False, env_null_pick = (\<lambda>_. 0), env_uninit = 0,
     env_clock = (\<lambda>i. sec i)\<rparr>"

definition fresh_client :: "(content, cstring) dataserver_client" where
  "fresh_client = \<lparr>client_server = empty_server, client_sent = [], client_time = 0\<rparr>"

text \<open>A request for the value of the name \<open>b\<close>, for writing, of application \<open>a\<close>.\<close>

definition ask_b :: "byte list" where
  "ask_b = REQUEST_VALUE # app_a @ [0] @ names_name @ [0] @ [1] @ [0, 1, 98]"

text \<open>A changeset that announces two changes and has one.\<close>

definition truncated_changeset :: "byte list" where
  "truncated_changeset = SUBMIT_CHANGESET # app_a @ [0] @ [0, 2] @ names_name @ [0] @ [0, 1, 98] @ [0, 1, 7]"

theorem data_stream_served_witness:
  "\<exists>c'. dispatch_reads (dataserver_dispatch_message sample_env 1) (dataserver_client_error 1)
      [[\<lparr>read_bytes = take 5 (frame_bytes ask_b), read_status = Io_Again, read_failed = False\<rparr>],
       [\<lparr>read_bytes = drop 5 (frame_bytes ask_b), read_status = Io_Normal, read_failed = False\<rparr>,
        \<lparr>read_bytes = [], read_status = Io_Again, read_failed = False\<rparr>]] [] fresh_client = Some ([], c')
    \<and> run_frames (handle_request sample_env 1) [ask_b] fresh_client = Some c'"
proof -
  let ?batches = "[[\<lparr>read_bytes = take 5 (frame_bytes ask_b), read_status = Io_Again, read_failed = False\<rparr>],
       [\<lparr>read_bytes = drop 5 (frame_bytes ask_b), read_status = Io_Normal, read_failed = False\<rparr>,
        \<lparr>read_bytes = [], read_status = Io_Again, read_failed = False\<rparr>]]"
  have all: "concat (map bytes_of ?batches) = frame_bytes ask_b" by (simp add: bytes_of_def)
  have ok: "message_ok ask_b" by (simp add: message_ok_def ask_b_def app_a_def names_name_def)
  have fr: "frames (frame_bytes ask_b) = [ask_b]" "no_max_frame (frame_bytes ask_b)"
    using frames_frame_bytes [OF ok, of "[]"] by simp_all
  then have "consumed (frame_bytes ask_b) = length (frame_bytes ask_b)"
    by (simp add: consumed_def frame_bytes_def)
  moreover have "run_frames (handle_request sample_env 1) [ask_b] fresh_client \<noteq> None"
    by code_simp
  ultimately show ?thesis
    using data_stream_served [of ?batches sample_env 1 fresh_client] fr unfolding all by auto
qed

text \<open>
  The maximal length. A frame that announces 65535 bytes of payload makes the 16 bit length of
  the loop wrap around to 0: although its payload has not arrived it is dispatched, and the handler
  looks for the application name past the end of the buffer.
\<close>

theorem max_frame_overrun: "dataserver_client_dispatch env n [0xFF, 0xFF, REQUEST_OIDS] c = None"
proof -
  have r: "gzochi_common_io_read_short [0xFF, 0xFF, REQUEST_OIDS] 0 = Some (- 1)"
    by code_simp
  have "rd [0xFF, 0xFF, REQUEST_OIDS] 3 = None" "rd [0xFF, 0xFF, REQUEST_OIDS] 2 = Some REQUEST_OIDS"
    by (simp_all add: rd_def)
  moreover have "unat (- 1 :: 16 word) = Suc 65534"
    by (simp add: unsigned_minus_1_eq_mask mask_eq_exp_minus_1)
  then have "memchr_nul [0xFF, 0xFF, REQUEST_OIDS] 3 (unat (- 1 :: 16 word)) = None"
    using calculation(1) by (simp only: memchr_nul.simps) simp
  ultimately have "dataserver_dispatch_message env n [0xFF, 0xFF, REQUEST_OIDS] 2 0 c = None"
    by (simp add: dataserver_dispatch_message_def dispatch_request_oids_def gzochid_protocol_read_str_def Let_def)
  then show ?thesis
    using r by (simp add: dataserver_client_dispatch_def client_dispatch_def dispatch_loop.simps numeral_2_eq_2)
qed

text \<open>
  Truncated changesets. A node that holds a key for writing and submits a changeset with fewer
  changes than it announces makes the server dereference the \<open>NULL\<close> store name of a change that
  was never read.
\<close>

theorem truncated_changeset_faults:
  "dataserver_client_dispatch sample_env 1 (frame_bytes ask_b @ frame_bytes truncated_changeset) fresh_client = None
    \<and> dataserver_client_dispatch sample_env 1 (frame_bytes ask_b) fresh_client \<noteq> None"
  unfolding dataserver_client_dispatch_def by (intro conjI) code_simp+

end
