(* ===== verification/Dataclient.thy ===== *)
theory Dataclient
  imports Dataserver_Protocol Socket
begin

text \<open>
  The data client of the application servers, \<open>gzochi-server/src/dataclient.c\<close>: it encodes
  requests, writes them to the reconnectable socket and keeps, per application, a queue of the
  callbacks that wait for the answers; \<open>dataclient-protocol.c\<close> decodes the answers and runs the
  callback at the head of the queue.

  Callbacks with their closure data are opaque values \<open>'cb\<close>; running one, or starting a timer
  that will run it, is recorded in the list of calls of the client.
\<close>

section \<open>State\<close>

record 'cb dataclient_callback_registration =
  expected_opcode :: byte
  success_callback :: 'cb
  failure_callback :: 'cb
  reg_timeout :: int
  release_callback :: 'cb

record 'cb dataclient_callback_queue =
  oids_callback :: "'cb option"
  callback_registrations :: "'cb dataclient_callback_registration list"

datatype 'cb dataclient_call =
    Oids_Call 'cb gzochid_data_oids_block
  | Success_Call 'cb "byte list option"
  | Failure_Call 'cb timeval
  | Release_Timer 'cb guint

record 'cb data_client =
  lock_release_ms :: guint
  range_lock_release_ms :: guint
  application_callback_queues :: "cstring \<rightharpoonup> 'cb dataclient_callback_queue"
  dc_socket :: gzochid_reconnectable_socket
  dc_calls :: "'cb dataclient_call list"

definition G_MAXINT64 :: int where "G_MAXINT64 = 2 ^ 63 - 1"

definition MAX_MESSAGE_LENGTH :: nat where "MAX_MESSAGE_LENGTH = 0xffff - 3"

section \<open>Queues and messages\<close>

definition create_callback :: "byte \<Rightarrow> 'cb \<Rightarrow> 'cb \<Rightarrow> 'cb \<Rightarrow> 'cb dataclient_callback_registration" where
  "create_callback opcode success failure release =
     \<lparr>expected_opcode = opcode, success_callback = success, failure_callback = failure,
      reg_timeout = G_MAXINT64, release_callback = release\<rparr>"

definition acquire_callback_queue ::
    "'cb data_client \<Rightarrow> cstring \<Rightarrow> 'cb data_client \<times> 'cb dataclient_callback_queue" where
  "acquire_callback_queue client app =
     (case application_callback_queues client app of
        Some queue \<Rightarrow> (client, queue)
      | None \<Rightarrow>
          (let queue = \<lparr>oids_callback = None, callback_registrations = []\<rparr>
           in (client\<lparr>application_callback_queues := (application_callback_queues client)(app \<mapsto> queue)\<rparr>, queue)))"

text \<open>The queue is updated in place.\<close>

definition set_queue :: "cstring \<Rightarrow> 'cb dataclient_callback_queue \<Rightarrow> 'cb data_client \<Rightarrow> 'cb data_client" where
  "set_queue app queue client =
     client\<lparr>application_callback_queues := (application_callback_queues client)(app \<mapsto> queue)\<rparr>"

definition format_message :: "byte \<Rightarrow> byte list \<Rightarrow> byte list option" where
  "format_message opcode payload = do {
     let buf = replicate (length payload + 3) 0;
     buf \<leftarrow> gzochi_common_io_write_short (word_of_nat (length payload)) buf 0;
     buf \<leftarrow> wr buf 2 opcode;
     Some (take 3 buf @ payload)
   }"

definition write_message :: "byte \<Rightarrow> byte list \<Rightarrow> 'cb data_client \<Rightarrow> 'cb data_client option" where
  "write_message opcode payload client = do {
     buf \<leftarrow> format_message opcode payload;
     Some (client\<lparr>dc_socket := gzochid_reconnectable_socket_write (dc_socket client) buf\<rparr>)
   }"

definition call :: "'cb dataclient_call \<Rightarrow> 'cb data_client \<Rightarrow> 'cb data_client" where
  "call c client = client\<lparr>dc_calls := dc_calls client @ [c]\<rparr>"

section \<open>Object ids\<close>

definition gzochid_dataclient_received_oids ::
    "'cb data_client \<Rightarrow> gzochid_data_reserve_oids_response \<Rightarrow> 'cb data_client" where
  "gzochid_dataclient_received_oids client response =
     (let (client, queue) = acquire_callback_queue client (oids_app response)
      in case oids_callback queue of
        Some cb \<Rightarrow> set_queue (oids_app response) (queue\<lparr>oids_callback := None\<rparr>)
          (call (Oids_Call cb (oids_block response)) client)
      | None \<Rightarrow> client)"

text \<open>The message goes out before the assertion that no other reservation is pending.\<close>

definition gzochid_dataclient_reserve_oids :: "'cb data_client \<Rightarrow> cstring \<Rightarrow> 'cb \<Rightarrow> 'cb data_client option" where
  "gzochid_dataclient_reserve_oids client app callback = do {
     let (client, queue) = acquire_callback_queue client app;
     client \<leftarrow> write_message REQUEST_OIDS (app @ [0]) client;
     if oids_callback queue \<noteq> None then None
     else Some (set_queue app (queue\<lparr>oids_callback := Some callback\<rparr>) client)
   }"

section \<open>Values and keys\<close>

text \<open>\<open>None\<close> for an empty queue (the caller checks) and a failed assertion.\<close>

definition process_queued_callback ::
    "'cb data_client \<Rightarrow> cstring \<Rightarrow> 'cb dataclient_callback_queue \<Rightarrow> byte \<Rightarrow> gzochid_data_response \<Rightarrow>
     'cb data_client option" where
  "process_queued_callback client app queue opcode response =
     (case callback_registrations queue of
        [] \<Rightarrow> None
      | callbacks # rest \<Rightarrow>
          (let client = set_queue app (queue\<lparr>callback_registrations := rest\<rparr>) client
           in if opcode \<noteq> expected_opcode callbacks then Some client
              else if resp_success response
              then
                (let client = call (Success_Call (success_callback callbacks) (resp_data response)) client
                 in if reg_timeout callbacks \<noteq> G_MAXINT64 then None
                    else if opcode = VALUE_RESPONSE
                    then Some (call (Release_Timer (release_callback callbacks) (lock_release_ms client)) client)
                    else if opcode = NEXT_KEY_RESPONSE
                    then Some (call (Release_Timer (release_callback callbacks) (range_lock_release_ms client)) client)
                    else Some client)
              else Some (call (Failure_Call (failure_callback callbacks) (resp_timeout response)) client)))"

definition gzochid_dataclient_received_value ::
    "'cb data_client \<Rightarrow> gzochid_data_response \<Rightarrow> 'cb data_client option" where
  "gzochid_dataclient_received_value client response =
     (let (client, queue) = acquire_callback_queue client (resp_app response)
      in if callback_registrations queue = [] then Some client
         else process_queued_callback client (resp_app response) queue VALUE_RESPONSE response)"

definition gzochid_dataclient_request_value ::
    "'cb data_client \<Rightarrow> cstring \<Rightarrow> cstring \<Rightarrow> byte list \<Rightarrow> bool \<Rightarrow> 'cb \<Rightarrow> 'cb \<Rightarrow> 'cb \<Rightarrow> 'cb data_client option" where
  "gzochid_dataclient_request_value client app store key fw success failure release = do {
     let (client, queue) = acquire_callback_queue client app;
     let payload = g_byte_array_append [] (app @ [0]);
     let payload = g_byte_array_append payload (store @ [0]);
     let payload = g_byte_array_append payload [if fw then 1 else 0];
     let payload_len = length payload;
     let payload = g_byte_array_set_size payload (payload_len + 2);
     payload \<leftarrow> gzochi_common_io_write_short (word_of_nat (length key)) payload payload_len;
     let payload = g_byte_array_append payload key;
     client \<leftarrow> write_message REQUEST_VALUE payload client;
     Some (set_queue app (queue\<lparr>callback_registrations := callback_registrations queue @
       [create_callback VALUE_RESPONSE success failure release]\<rparr>) client)
   }"

definition gzochid_dataclient_received_next_key ::
    "'cb data_client \<Rightarrow> gzochid_data_response \<Rightarrow> 'cb data_client option" where
  "gzochid_dataclient_received_next_key client response =
     (let (client, queue) = acquire_callback_queue client (resp_app response)
      in if callback_registrations queue = [] then Some client
         else process_queued_callback client (resp_app response) queue NEXT_KEY_RESPONSE response)"

definition write_nullable_bytes :: "byte list \<Rightarrow> byte list option \<Rightarrow> byte list option" where
  "write_nullable_bytes payload key =
     (case key of
        Some k \<Rightarrow> do {
          let payload_len = length payload;
          let payload = g_byte_array_set_size payload (payload_len + 2);
          payload \<leftarrow> gzochi_common_io_write_short (word_of_nat (length k)) payload payload_len;
          Some (g_byte_array_append payload k)
        }
      | None \<Rightarrow> Some (g_byte_array_append payload [0, 0]))"

definition gzochid_dataclient_request_next_key ::
    "'cb data_client \<Rightarrow> cstring \<Rightarrow> cstring \<Rightarrow> byte list option \<Rightarrow> 'cb \<Rightarrow> 'cb \<Rightarrow> 'cb \<Rightarrow> 'cb data_client option" where
  "gzochid_dataclient_request_next_key client app store key success failure release = do {
     let (client, queue) = acquire_callback_queue client app;
     let payload = g_byte_array_append [] (app @ [0]);
     let payload = g_byte_array_append payload (store @ [0]);
     payload \<leftarrow> write_nullable_bytes payload key;
     client \<leftarrow> write_message REQUEST_NEXT_KEY payload client;
     Some (set_queue app (queue\<lparr>callback_registrations := callback_registrations queue @
       [create_callback NEXT_KEY_RESPONSE success failure release]\<rparr>) client)
   }"

section \<open>Changesets and releases\<close>

definition gzochid_dataclient_submit_changeset ::
    "'cb data_client \<Rightarrow> cstring \<Rightarrow> gzochid_data_change list \<Rightarrow> 'cb data_client option" where
  "gzochid_dataclient_submit_changeset client app changes = do {
     let changeset = gzochid_data_changeset_new app changes;
     payload \<leftarrow> gzochid_data_protocol_changeset_write changeset [];
     if length payload \<le> MAX_MESSAGE_LENGTH then write_message SUBMIT_CHANGESET payload client
     else Some client
   }"

definition gzochid_dataclient_release_key ::
    "'cb data_client \<Rightarrow> cstring \<Rightarrow> cstring \<Rightarrow> byte list \<Rightarrow> 'cb data_client option" where
  "gzochid_dataclient_release_key client app store key = do {
     let payload = g_byte_array_append [] (app @ [0]);
     let payload = g_byte_array_append payload (store @ [0]);
     let payload_len = length payload;
     let payload = g_byte_array_set_size payload (payload_len + 2);
     payload \<leftarrow> gzochi_common_io_write_short (word_of_nat (length key)) payload payload_len;
     let payload = g_byte_array_append payload key;
     buf \<leftarrow> format_message RELEASE_KEY payload;
     Some (client\<lparr>dc_socket := gzochid_reconnectable_socket_write (dc_socket client) buf\<rparr>)
   }"

definition gzochid_dataclient_release_key_range ::
    "'cb data_client \<Rightarrow> cstring \<Rightarrow> cstring \<Rightarrow> byte list option \<Rightarrow> byte list option \<Rightarrow> 'cb data_client option" where
  "gzochid_dataclient_release_key_range client app store fr to = do {
     let payload = g_byte_array_append [] (app @ [0]);
     let payload = g_byte_array_append payload (store @ [0]);
     payload \<leftarrow> write_nullable_bytes payload fr;
     payload \<leftarrow> write_nullable_bytes payload to;
     buf \<leftarrow> format_message RELEASE_KEY_RANGE payload;
     Some (client\<lparr>dc_socket := gzochid_reconnectable_socket_write (dc_socket client) buf\<rparr>)
   }"

section \<open>dataclient-protocol.c\<close>

text \<open>\<open>uninit\<close> is the uninitialized half of the timeout in a response that is read.\<close>

definition dispatch_oids_response :: "byte list \<Rightarrow> nat \<Rightarrow> 16 word \<Rightarrow> 'cb data_client \<Rightarrow> ('cb data_client \<times> bool) option" where
  "dispatch_oids_response m data len client = do {
     response_bytes \<leftarrow> rd_range m data (unat len);
     r \<leftarrow> gzochid_data_protocol_reserve_oids_response_read response_bytes;
     case r of
       None \<Rightarrow> Some (client, False)
     | Some response \<Rightarrow> Some (gzochid_dataclient_received_oids client response, True)
   }"

definition dispatch_value_response :: "int \<Rightarrow> byte list \<Rightarrow> nat \<Rightarrow> 16 word \<Rightarrow> 'cb data_client \<Rightarrow> ('cb data_client \<times> bool) option" where
  "dispatch_value_response uninit m data len client = do {
     response_bytes \<leftarrow> rd_range m data (unat len);
     r \<leftarrow> gzochid_data_protocol_response_read uninit response_bytes;
     case r of
       None \<Rightarrow> Some (client, False)
     | Some response \<Rightarrow> map_option (\<lambda>client. (client, True)) (gzochid_dataclient_received_value client response)
   }"

definition dispatch_next_key_response :: "int \<Rightarrow> byte list \<Rightarrow> nat \<Rightarrow> 16 word \<Rightarrow> 'cb data_client \<Rightarrow> ('cb data_client \<times> bool) option" where
  "dispatch_next_key_response uninit m data len client = do {
     response_bytes \<leftarrow> rd_range m data (unat len);
     r \<leftarrow> gzochid_data_protocol_response_read uninit response_bytes;
     case r of
       None \<Rightarrow> Some (client, False)
     | Some response \<Rightarrow> map_option (\<lambda>client. (client, True)) (gzochid_dataclient_received_next_key client response)
   }"

definition dataclient_dispatch_message ::
    "int \<Rightarrow> byte list \<Rightarrow> nat \<Rightarrow> 16 word \<Rightarrow> 'cb data_client \<Rightarrow> 'cb data_client option" where
  "dataclient_dispatch_message uninit m message len client = do {
     opcode \<leftarrow> rd m message;
     let payload = message + 1;
     let len = len - 1;
     if opcode = OIDS_RESPONSE then map_option fst (dispatch_oids_response m payload len client)
     else if opcode = VALUE_RESPONSE then map_option fst (dispatch_value_response uninit m payload len client)
     else if opcode = NEXT_KEY_RESPONSE then map_option fst (dispatch_next_key_response uninit m payload len client)
     else Some client
   }"

definition dataclient_client_dispatch ::
    "int \<Rightarrow> byte list \<Rightarrow> 'cb data_client \<Rightarrow> ('cb data_client \<times> nat) option" where
  "dataclient_client_dispatch uninit = client_dispatch (dataclient_dispatch_message uninit)"

end
