(* ===== verification/Data_Exchange.thy ===== *)
theory Data_Exchange
  imports Dataclient Dataserver_Requests
begin

text \<open>
  The data client and the data server together: every call of the client that fits the wire format
  arrives at the server as the request it stands for, and the answers of the server run the
  callbacks of the client in the order of the calls.
\<close>

section \<open>Calls of the client\<close>

datatype 'cb client_call =
    Call_Reserve cstring 'cb
  | Call_Value cstring cstring "byte list" bool 'cb 'cb 'cb
  | Call_Next_Key cstring cstring "byte list option" 'cb 'cb 'cb
  | Call_Submit cstring "gzochid_data_change list"
  | Call_Release cstring cstring "byte list"
  | Call_Release_Range cstring cstring "byte list option" "byte list option"

fun run_call :: "'cb client_call \<Rightarrow> 'cb data_client \<Rightarrow> 'cb data_client option" where
  "run_call (Call_Reserve app cb) client = gzochid_dataclient_reserve_oids client app cb"
| "run_call (Call_Value app store k fw s f r) client = gzochid_dataclient_request_value client app store k fw s f r"
| "run_call (Call_Next_Key app store k s f r) client = gzochid_dataclient_request_next_key client app store k s f r"
| "run_call (Call_Submit app changes) client = gzochid_dataclient_submit_changeset client app changes"
| "run_call (Call_Release app store k) client = gzochid_dataclient_release_key client app store k"
| "run_call (Call_Release_Range app store fr to) client = gzochid_dataclient_release_key_range client app store fr to"

fun run_calls :: "'cb client_call list \<Rightarrow> 'cb data_client \<Rightarrow> 'cb data_client option" where
  "run_calls [] client = Some client"
| "run_calls (c # cs) client = Option.bind (run_call c client) (run_calls cs)"

definition key_or_empty :: "byte list option \<Rightarrow> byte list" where
  "key_or_empty k = (case k of None \<Rightarrow> [] | Some bs \<Rightarrow> bs)"

fun request_of :: "'cb client_call \<Rightarrow> data_request" where
  "request_of (Call_Reserve app cb) = Reserve_Oids app"
| "request_of (Call_Value app store k fw s f r) = Get_Value app store fw k"
| "request_of (Call_Next_Key app store k s f r) = Get_Next_Key app store (key_or_empty k)"
| "request_of (Call_Submit app changes) = Submit \<lparr>cs_app = app, cs_changes = changes\<rparr>"
| "request_of (Call_Release app store k) = Drop_Key app store k"
| "request_of (Call_Release_Range app store fr to) = Drop_Range app store (key_or_empty fr) (key_or_empty to)"

text \<open>The message of a call: its opcode and payload.\<close>

definition prefixed :: "byte list \<Rightarrow> byte list" where
  "prefixed bs = be_short (word_of_nat (length bs)) @ bs"

definition changeset_bytes :: "cstring \<Rightarrow> gzochid_data_change list \<Rightarrow> byte list" where
  "changeset_bytes app changes = app @ 0 # be_short (word_of_nat (length changes)) @ concat (map change_bytes changes)"

fun call_message :: "'cb client_call \<Rightarrow> byte list" where
  "call_message (Call_Reserve app cb) = REQUEST_OIDS # app @ [0]"
| "call_message (Call_Value app store k fw s f r) =
     REQUEST_VALUE # app @ 0 # store @ 0 # (if fw then 1 else 0) # prefixed k"
| "call_message (Call_Next_Key app store k s f r) = REQUEST_NEXT_KEY # app @ 0 # store @ 0 # prefixed (key_or_empty k)"
| "call_message (Call_Submit app changes) = SUBMIT_CHANGESET # changeset_bytes app changes"
| "call_message (Call_Release app store k) = RELEASE_KEY # app @ 0 # store @ 0 # prefixed k"
| "call_message (Call_Release_Range app store fr to) =
     RELEASE_KEY_RANGE # app @ 0 # store @ 0 # prefixed (key_or_empty fr) @ prefixed (key_or_empty to)"

text \<open>What the wire format asks of a call.\<close>

definition name_ok :: "cstring \<Rightarrow> bool" where
  "name_ok s \<longleftrightarrow> s \<noteq> [] \<and> 0 \<notin> set s"

fun call_fits :: "'cb client_call \<Rightarrow> bool" where
  "call_fits (Call_Reserve app cb) \<longleftrightarrow> name_ok app"
| "call_fits (Call_Value app store k fw s f r) \<longleftrightarrow> name_ok app \<and> name_ok store \<and> length k < 2 ^ 15"
| "call_fits (Call_Next_Key app store k s f r) \<longleftrightarrow> name_ok app \<and> name_ok store \<and> length (key_or_empty k) < 2 ^ 15"
| "call_fits (Call_Submit app changes) \<longleftrightarrow> changeset_ok \<lparr>cs_app = app, cs_changes = changes\<rparr>
     \<and> length (changeset_bytes app changes) \<le> MAX_MESSAGE_LENGTH"
| "call_fits (Call_Release app store k) \<longleftrightarrow> name_ok app \<and> name_ok store \<and> length k < 2 ^ 15"
| "call_fits (Call_Release_Range app store fr to) \<longleftrightarrow> name_ok app \<and> name_ok store
     \<and> length (key_or_empty fr) < 2 ^ 15 \<and> length (key_or_empty to) < 2 ^ 15"

section \<open>From the client to the server\<close>

lemma format_message_eq: "format_message opcode payload = Some (frame_bytes (opcode # payload))"
  by (simp add: format_message_def frame_bytes_Cons numeral_3_eq_3 write_short_front be_short_def io_simps
    wr_Cons_0 Let_def)

lemma write_message_eq:
  "write_message opcode payload client =
    Some (client\<lparr>dc_socket := gzochid_reconnectable_socket_write (dc_socket client) (frame_bytes (opcode # payload))\<rparr>)"
  by (simp add: write_message_def format_message_eq)

lemma write_nullable_bytes_eq: "write_nullable_bytes payload key = Some (payload @ prefixed (key_or_empty key))"
  using write_short_grown [of "word_of_nat (length (key_or_empty key))" payload]
  by (auto simp: write_nullable_bytes_def prefixed_def key_or_empty_def g_byte_array_append_def be_short_def Let_def
    split: option.split)

lemma decode_call: "call_fits c \<Longrightarrow> decode_request (call_message c) = Some (request_of c)"
proof -
  assume fits: "call_fits c"
  have nm: "name_ok app \<Longrightarrow> name_at (app @ 0 # r) = Some (app, r)" for app r
    by (simp add: name_at_def name_ok_def str_at_string)
  have bts: "length k < 2 ^ 15 \<Longrightarrow> bytes_at (prefixed k @ r) = Some (k, r)" for k r
    using bytes_at_written [of k r] by (simp add: prefixed_def)
  show ?thesis
  proof (cases c)
    case (Call_Submit app changes)
    then obtain m where m: "gzochid_data_protocol_changeset_write \<lparr>cs_app = app, cs_changes = changes\<rparr> [] = Some m"
        "gzochid_data_protocol_changeset_read m = Some (Some \<lparr>cs_app = app, cs_changes = changes\<rparr>)"
      using fits changeset_read_written [of "\<lparr>cs_app = app, cs_changes = changes\<rparr>"] by auto
    have "m = changeset_bytes app changes"
      using m(1) fits Call_Submit changeset_write_eq [of "\<lparr>cs_app = app, cs_changes = changes\<rparr>" "[]"]
      by (simp add: changeset_ok_def changeset_bytes_def)
    with m(2) Call_Submit show ?thesis by (simp add: data_opcodes)
  qed (use fits nm bts bts [where r = "[]"] in \<open>simp_all add: data_opcodes names_at_def\<close>)
qed

lemma write_short_append:
  "gzochi_common_io_write_short v (g_byte_array_set_size xs (length xs + 2)) (length xs) = Some (xs @ be_short v)"
  using write_short_grown [of v xs] by simp

text \<open>The queue of an application; a missing one is empty.\<close>

definition queue_of :: "'cb data_client \<Rightarrow> cstring \<Rightarrow> 'cb dataclient_callback_queue" where
  "queue_of client app = (case application_callback_queues client app of
     None \<Rightarrow> \<lparr>oids_callback = None, callback_registrations = []\<rparr> | Some q \<Rightarrow> q)"

lemma acquire_callback_queue_eq:
  "acquire_callback_queue client app = (set_queue app (queue_of client app) client, queue_of client app)"
  by (auto simp: acquire_callback_queue_def set_queue_def queue_of_def Let_def fun_upd_idem split: option.split)

lemma set_queue_simps [simp]:
  "queue_of (set_queue app q client) app' = (if app' = app then q else queue_of client app')"
  "dc_socket (set_queue app q client) = dc_socket client"
  "dc_calls (set_queue app q client) = dc_calls client"
  "lock_release_ms (set_queue app q client) = lock_release_ms client"
  "range_lock_release_ms (set_queue app q client) = range_lock_release_ms client"
  "queue_of (client\<lparr>dc_socket := s\<rparr>) app' = queue_of client app'"
  "queue_of (client\<lparr>dc_calls := cs\<rparr>) app' = queue_of client app'"
  by (simp_all add: set_queue_def queue_of_def)

text \<open>A call writes its message; only a second reservation for an application fails.\<close>

fun reserves :: "'cb client_call \<Rightarrow> cstring set" where
  "reserves (Call_Reserve app cb) = {app}"
| "reserves _ = {}"

lemma run_call_writes:
  assumes "call_fits c" and "\<forall>app \<in> reserves c. oids_callback (queue_of client app) = None"
  shows "\<exists>client'. run_call c client = Some client'
    \<and> dc_socket client' = gzochid_reconnectable_socket_write (dc_socket client) (frame_bytes (call_message c))
    \<and> (\<forall>app. app \<notin> reserves c \<longrightarrow> oids_callback (queue_of client' app) = oids_callback (queue_of client app))"
proof (cases c)
  case (Call_Submit app changes)
  then have "gzochid_data_protocol_changeset_write \<lparr>cs_app = app, cs_changes = changes\<rparr> [] =
      Some (changeset_bytes app changes)"
    using assms(1) changeset_write_eq [of "\<lparr>cs_app = app, cs_changes = changes\<rparr>" "[]"]
    by (simp add: changeset_ok_def changeset_bytes_def)
  with Call_Submit assms(1) show ?thesis
    by (simp add: gzochid_dataclient_submit_changeset_def gzochid_data_changeset_new_def write_message_eq)
next
  case (Call_Reserve app cb)
  with assms(2) show ?thesis
    by (simp add: gzochid_dataclient_reserve_oids_def acquire_callback_queue_eq write_message_eq)
next
  case (Call_Value app store k fw s f r)
  then show ?thesis
    using write_short_append [of "word_of_nat (length k)" "app @ 0 # store @ [0, if fw then 1 else 0]"]
    by (simp add: gzochid_dataclient_request_value_def acquire_callback_queue_eq write_message_eq
      g_byte_array_append_def prefixed_def Let_def)
next
  case (Call_Next_Key app store k s f r)
  then show ?thesis
    by (simp add: gzochid_dataclient_request_next_key_def acquire_callback_queue_eq write_message_eq
      g_byte_array_append_def write_nullable_bytes_eq Let_def)
next
  case (Call_Release app store k)
  then show ?thesis
    using write_short_append [of "word_of_nat (length k)" "app @ 0 # store @ [0]"]
    by (simp add: gzochid_dataclient_release_key_def format_message_eq g_byte_array_append_def
      prefixed_def Let_def)
next
  case (Call_Release_Range app store fr to)
  then show ?thesis
    by (simp add: gzochid_dataclient_release_key_range_def format_message_eq
      g_byte_array_append_def write_nullable_bytes_eq Let_def)
qed

fun serve_all ::
    "('e, 'x, 's) dataserver_env \<Rightarrow> guint \<Rightarrow> data_request list \<Rightarrow> ('e, 's) dataserver_client \<Rightarrow>
     ('e, 's) dataserver_client option" where
  "serve_all env n [] c = Some c"
| "serve_all env n (req # reqs) c = Option.bind (serve env n req c) (serve_all env n reqs)"

fun reserved :: "'cb client_call list \<Rightarrow> cstring list" where
  "reserved [] = []"
| "reserved (Call_Reserve app cb # cs) = app # reserved cs"
| "reserved (_ # cs) = reserved cs"

lemma reserved_Cons: "set (reserved (c # cs)) = reserves c \<union> set (reserved cs)"
  "distinct (reserved (c # cs)) \<longleftrightarrow> distinct (reserved cs) \<and> reserves c \<inter> set (reserved cs) = {}"
  by (cases c; auto)+

lemma run_calls_writes:
  assumes "\<forall>c \<in> set calls. call_fits c" and "distinct (reserved calls)"
    and "\<forall>app \<in> set (reserved calls). oids_callback (queue_of client app) = None"
  shows "\<exists>client'. run_calls calls client = Some client'
    \<and> dc_socket client' =
      foldl gzochid_reconnectable_socket_write (dc_socket client) (map (\<lambda>c. frame_bytes (call_message c)) calls)"
  using assms
proof (induction calls arbitrary: client)
  case (Cons c calls)
  then obtain client1 where c1: "run_call c client = Some client1"
      "dc_socket client1 = gzochid_reconnectable_socket_write (dc_socket client) (frame_bytes (call_message c))"
      "\<forall>app. app \<notin> reserves c \<longrightarrow> oids_callback (queue_of client1 app) = oids_callback (queue_of client app)"
    using run_call_writes [of c client] by (auto simp: reserved_Cons)
  have "\<forall>app \<in> set (reserved calls). oids_callback (queue_of client1 app) = None"
    using c1(3) Cons.prems(2,3) by (auto simp: reserved_Cons)
  then show ?case
    using Cons.IH [of client1] Cons.prems(1,2) c1 by (auto simp: reserved_Cons)
qed simp

lemma foldl_write_connected:
  "rs_socket sock = Some s \<Longrightarrow> \<exists>s'. rs_socket (foldl gzochid_reconnectable_socket_write sock ws) = Some s'
    \<and> send_buffer s' = send_buffer s @ concat ws"
proof (induction ws arbitrary: sock s)
  case (Cons w ws)
  then have "rs_socket (gzochid_reconnectable_socket_write sock w) = Some (gzochid_client_socket_write s w)"
    by (simp add: gzochid_reconnectable_socket_write_def)
  from Cons.IH [OF this] show ?case
    by (simp add: gzochid_client_socket_write_def g_byte_array_append_def)
qed simp

lemma run_frames_calls:
  "\<forall>c \<in> set calls. call_fits c \<Longrightarrow>
    run_frames (handle_request env n) (map call_message calls) srv = serve_all env n (map request_of calls) srv"
proof (induction calls arbitrary: srv)
  case (Cons c calls)
  then show ?case
    by (auto simp: handle_request_def decode_call intro!: Option.bind_cong)
qed simp

text \<open>
  (C11) From the data client to the data server. Any sequence of calls of the data client whose names,
  keys and changesets fit the wire format, with at most one pending reservation of object ids per
  application, succeeds; and when the server dispatches the bytes that have accumulated in the
  client's connected socket, it consumes them all and serves exactly the requests the calls stand
  for, in the order of the calls.
\<close>

theorem data_calls_reach_server:
  assumes "\<forall>c \<in> set calls. call_fits c \<and> message_ok (call_message c)" and "distinct (reserved calls)"
    and "\<forall>app \<in> set (reserved calls). oids_callback (queue_of client app) = None"
    and "rs_socket (dc_socket client) = Some s" and "send_buffer s = []"
  shows "\<exists>client' s'. run_calls calls client = Some client' \<and> rs_socket (dc_socket client') = Some s'
    \<and> dataserver_client_dispatch env n (send_buffer s') srv =
        map_option (\<lambda>srv. (srv, length (send_buffer s'))) (serve_all env n (map request_of calls) srv)"
proof -
  have fits: "\<forall>c \<in> set calls. call_fits c" and ok: "\<forall>msg \<in> set (map call_message calls). message_ok msg"
    using assms(1) by auto
  obtain client' where c: "run_calls calls client = Some client'"
      "dc_socket client' = foldl gzochid_reconnectable_socket_write (dc_socket client)
        (map (\<lambda>c. frame_bytes (call_message c)) calls)"
    using run_calls_writes [OF fits assms(2,3)] by blast
  obtain s' where s': "rs_socket (dc_socket client') = Some s'"
      "send_buffer s' = concat (map frame_bytes (map call_message calls))"
    using foldl_write_connected [OF assms(4)] assms(5) c(2) by (auto simp: comp_def)
  then show ?thesis
    using data_messages.dispatch_sent [OF ok, of env n srv] c(1) run_frames_calls [OF fits, of env n srv]
    by (simp add: dataserver_client_dispatch_def)
qed

definition new_data_client :: "nat data_client" where
  "new_data_client = \<lparr>lock_release_ms = 1000, range_lock_release_ms = 500,
     application_callback_queues = Map.empty,
     dc_socket = \<lparr>rs_socket = Some \<lparr>send_buffer = [], write_source = False\<rparr>, outbound_messages = []\<rparr>,
     dc_calls = []\<rparr>"

theorem data_calls_reach_server_witness:
  "\<exists>client' s'. run_calls [Call_Reserve app_a 0, Call_Value app_a names_name [98] True 1 2 3] new_data_client = Some client'
    \<and> rs_socket (dc_socket client') = Some s'
    \<and> dataserver_client_dispatch sample_env 1 (send_buffer s') fresh_client =
        map_option (\<lambda>srv. (srv, length (send_buffer s')))
          (serve_all sample_env 1 [Reserve_Oids app_a, Get_Value app_a names_name True [98]] fresh_client)"
  using data_calls_reach_server [of "[Call_Reserve app_a 0, Call_Value app_a names_name [98] True 1 2 3]" new_data_client
      "\<lparr>send_buffer = [], write_source = False\<rparr>" sample_env 1 fresh_client]
  by (simp add: new_data_client_def queue_of_def name_ok_def app_a_def names_name_def message_ok_def prefixed_def)

section \<open>From the server to the client\<close>

fun handle_answer :: "int \<Rightarrow> byte list \<Rightarrow> 'cb data_client \<Rightarrow> 'cb data_client option" where
  "handle_answer uninit [] client = Some client"
| "handle_answer uninit (opcode # x) client =
     (if opcode = OIDS_RESPONSE then do {
        r \<leftarrow> gzochid_data_protocol_reserve_oids_response_read x;
        case r of None \<Rightarrow> Some client | Some response \<Rightarrow> Some (gzochid_dataclient_received_oids client response)
      }
      else if opcode = VALUE_RESPONSE then do {
        r \<leftarrow> gzochid_data_protocol_response_read uninit x;
        case r of None \<Rightarrow> Some client | Some response \<Rightarrow> gzochid_dataclient_received_value client response
      }
      else if opcode = NEXT_KEY_RESPONSE then do {
        r \<leftarrow> gzochid_data_protocol_response_read uninit x;
        case r of None \<Rightarrow> Some client | Some response \<Rightarrow> gzochid_dataclient_received_next_key client response
      }
      else Some client)"

lemma map_fst_case:
  "map_option fst (case x of None \<Rightarrow> Some (c, False) | Some r \<Rightarrow> map_option (\<lambda>c. (c, True)) (f r)) =
    (case x of None \<Rightarrow> Some c | Some r \<Rightarrow> f r)"
  "map_option fst (case x of None \<Rightarrow> Some (c, False) | Some r \<Rightarrow> Some (g r, True)) =
    (case x of None \<Rightarrow> Some c | Some r \<Rightarrow> Some (g r))"
  by (cases x; simp add: option.map_comp comp_def option.map_ident)+

lemma answer_implements:
  assumes "0 < unat len" and "p + unat len \<le> length m"
  shows "dataclient_dispatch_message uninit m p len client = handle_answer uninit (take (unat len) (drop p m)) client"
proof -
  have u: "unat (len - 1) = unat len - 1" using unat_sub_nat [of 1 len] assms(1) by simp
  have msg: "take (unat len) (drop p m) = m ! p # take (unat (len - 1)) (drop (p + 1) m)"
    using assms u by (cases "unat len") (simp_all add: Cons_nth_drop_Suc [symmetric])
  have "rd m p = Some (m ! p)" using assms by (simp add: rd_def)
  moreover have "rd_range m (p + 1) (unat (len - 1)) = Some (take (unat (len - 1)) (drop (p + 1) m))"
    using assms u by (simp add: rd_range_def)
  ultimately show ?thesis
    unfolding msg
    by (simp add: dataclient_dispatch_message_def dispatch_oids_response_def dispatch_value_response_def
      dispatch_next_key_response_def map_option_bind comp_def Let_def map_fst_case)
qed

interpretation data_answers: message_handler "dataclient_dispatch_message uninit" "handle_answer uninit"
  by unfold_locales (rule answer_implements)

text \<open>The callbacks a registration runs for an answer.\<close>

definition calls_for ::
    "'cb data_client \<Rightarrow> 'cb dataclient_callback_registration \<Rightarrow> gzochid_data_response \<Rightarrow> 'cb dataclient_call list" where
  "calls_for client g r =
     (if resp_success r
      then [Success_Call (success_callback g) (resp_data r), Release_Timer (release_callback g)
        (if expected_opcode g = VALUE_RESPONSE then lock_release_ms client else range_lock_release_ms client)]
      else [Failure_Call (failure_callback g) (resp_timeout r)])"

definition awaits :: "cstring \<Rightarrow> 'cb dataclient_callback_registration \<Rightarrow> gzochid_data_response \<Rightarrow> bool" where
  "awaits app g r \<longleftrightarrow> expected_opcode g \<in> {VALUE_RESPONSE, NEXT_KEY_RESPONSE} \<and> reg_timeout g = G_MAXINT64
     \<and> response_ok r \<and> resp_app r = app \<and> message_ok (expected_opcode g # response_bytes r)"

lemma answer_runs_callback:
  assumes "callback_registrations (queue_of client app) = g # rest" and "awaits app g r"
  shows "\<exists>client'. handle_answer uninit (expected_opcode g # response_bytes r) client = Some client'
    \<and> callback_registrations (queue_of client' app) = rest
    \<and> lock_release_ms client' = lock_release_ms client \<and> range_lock_release_ms client' = range_lock_release_ms client
    \<and> dc_calls client' = dc_calls client @ calls_for client g r"
proof -
  obtain r' where r': "gzochid_data_protocol_response_read uninit (response_bytes r) = Some (Some r')" "same_response r r'"
    using response_read_written [of r uninit] assms(2) by (auto simp: awaits_def response_write_eq)
  have ne: "NEXT_KEY_RESPONSE \<noteq> VALUE_RESPONSE" "OIDS_RESPONSE \<noteq> VALUE_RESPONSE" "OIDS_RESPONSE \<noteq> NEXT_KEY_RESPONSE"
    by (simp_all add: data_opcodes)
  have app: "resp_app r' = app" using r'(2) assms(2) by (simp add: same_response_def awaits_def)
  define q where "q = process_queued_callback (set_queue app (queue_of client app) client) app (queue_of client app)
    (expected_opcode g) r'"
  have "handle_answer uninit (expected_opcode g # response_bytes r) client = q"
    using assms r'(1) ne app
    by (auto simp: awaits_def q_def gzochid_dataclient_received_value_def gzochid_dataclient_received_next_key_def
      acquire_callback_queue_eq)
  moreover have "\<exists>client'. q = Some client' \<and> callback_registrations (queue_of client' app) = rest
      \<and> lock_release_ms client' = lock_release_ms client \<and> range_lock_release_ms client' = range_lock_release_ms client
      \<and> dc_calls client' = dc_calls client @ calls_for client g r"
    using assms r'(2) ne
    by (auto simp: q_def process_queued_callback_def awaits_def calls_for_def call_def same_response_def Let_def)
  ultimately show ?thesis by simp
qed

lemma answers_run_callbacks:
  assumes "callback_registrations (queue_of client app) = map fst exchange @ rest"
    and "\<forall>(g, r) \<in> set exchange. awaits app g r"
  shows "\<exists>client'. run_frames (handle_answer uninit) (map (\<lambda>(g, r). expected_opcode g # response_bytes r) exchange) client = Some client'
    \<and> callback_registrations (queue_of client' app) = rest
    \<and> dc_calls client' = dc_calls client @ concat (map (\<lambda>(g, r). calls_for client g r) exchange)"
  using assms
proof (induction exchange arbitrary: client)
  case (Cons gr exchange)
  obtain g r where gr: "gr = (g, r)" by fastforce
  then obtain client1 where c1: "handle_answer uninit (expected_opcode g # response_bytes r) client = Some client1"
      "callback_registrations (queue_of client1 app) = map fst exchange @ rest"
      "lock_release_ms client1 = lock_release_ms client" "range_lock_release_ms client1 = range_lock_release_ms client"
      "dc_calls client1 = dc_calls client @ calls_for client g r"
    using answer_runs_callback [of client app g "map fst exchange @ rest" r uninit] Cons.prems by auto
  have same: "calls_for client1 = calls_for client"
    using c1(3,4) by (intro ext) (simp add: calls_for_def)
  show ?case
    using Cons.IH [OF c1(2)] Cons.prems(2) c1(1,5) gr unfolding same
    by (auto simp del: handle_answer.simps)
qed simp

text \<open>
  From the data server back to the client. When the registrations at the head of an
  application's queue are answered in order, each with the opcode it waits for, the client consumes
  all bytes of the answers and runs exactly the right callbacks in the order of the requests: for a
  success the success callback with the value, and a timer with the delay of that kind of lock for
  the release, for a failure the failure callback with the server's timeout. The answered
  registrations leave the queue, the others stay.
\<close>

theorem responses_in_order:
  assumes "callback_registrations (queue_of client app) = map fst exchange @ rest"
    and "\<forall>(g, r) \<in> set exchange. awaits app g r"
  defines "bytes \<equiv> concat (map (\<lambda>(g, r). frame_bytes (expected_opcode g # response_bytes r)) exchange)"
  shows "\<exists>client'. dataclient_client_dispatch uninit bytes client = Some (client', length bytes)
    \<and> callback_registrations (queue_of client' app) = rest
    \<and> dc_calls client' = dc_calls client @ concat (map (\<lambda>(g, r). calls_for client g r) exchange)"
proof -
  let ?msgs = "map (\<lambda>(g, r). expected_opcode g # response_bytes r) exchange"
  have "\<forall>msg \<in> set ?msgs. message_ok msg" using assms(2) by (auto simp: awaits_def)
  moreover have "bytes = concat (map frame_bytes ?msgs)"
    by (simp add: bytes_def comp_def split_def)
  ultimately show ?thesis
    using answers_run_callbacks [OF assms(1,2), of uninit] data_answers.dispatch_sent [of ?msgs uninit client]
    by (auto simp: dataclient_client_dispatch_def)
qed

definition waiting_client :: "nat data_client" where
  "waiting_client = set_queue app_a \<lparr>oids_callback = None, callback_registrations =
     [create_callback VALUE_RESPONSE 1 2 3, create_callback NEXT_KEY_RESPONSE 4 5 6]\<rparr> new_data_client"

definition response_a :: "bool \<Rightarrow> gzochid_data_response" where
  "response_a ok = \<lparr>resp_app = app_a, resp_store = names_name, resp_success = ok,
     resp_data = (if ok then Some [7] else None), resp_timeout = \<lparr>tv_sec = 9, tv_usec = 0\<rparr>\<rparr>"

theorem responses_in_order_witness:
  "\<exists>client'. dataclient_client_dispatch 0 (frame_bytes (VALUE_RESPONSE # response_bytes (response_a True))
       @ frame_bytes (NEXT_KEY_RESPONSE # response_bytes (response_a False))) waiting_client = Some (client', 35)
    \<and> dc_calls client' = [Success_Call 1 (Some [7]), Release_Timer 3 1000, Failure_Call 5 \<lparr>tv_sec = 9, tv_usec = 0\<rparr>]"
  using responses_in_order [of waiting_client app_a
      "[(create_callback VALUE_RESPONSE 1 2 3, response_a True), (create_callback NEXT_KEY_RESPONSE 4 5 6, response_a False)]" "[]" 0]
  by (simp add: waiting_client_def awaits_def create_callback_def response_a_def response_ok_def cstring_ok_def
    app_a_def names_name_def timeval_fits_def message_ok_def response_bytes_def response_payload_def
    gboolean_first_byte_def calls_for_def new_data_client_def frame_bytes_def data_opcodes) blast

text \<open>
  Answers out of order. An answer with another opcode than the one the first registration waits
  for removes that registration without running any of its callbacks: the request is never answered.
\<close>

theorem mismatched_response_drops_request:
  assumes "callback_registrations (queue_of client (resp_app r)) = g # rest"
    and "expected_opcode g = NEXT_KEY_RESPONSE"
  shows "\<exists>client'. gzochid_dataclient_received_value client r = Some client'
    \<and> callback_registrations (queue_of client' (resp_app r)) = rest \<and> dc_calls client' = dc_calls client"
  using assms
  by (simp add: gzochid_dataclient_received_value_def acquire_callback_queue_eq process_queued_callback_def data_opcodes)

theorem mismatched_response_drops_request_witness:
  "\<exists>client'. gzochid_dataclient_received_value
      (set_queue app_a \<lparr>oids_callback = None, callback_registrations = [create_callback NEXT_KEY_RESPONSE 4 5 6]\<rparr> new_data_client)
      (response_a True) = Some client' \<and> callback_registrations (queue_of client' app_a) = [] \<and> dc_calls client' = []"
  using mismatched_response_drops_request [of "set_queue app_a \<lparr>oids_callback = None, callback_registrations =
      [create_callback NEXT_KEY_RESPONSE 4 5 6]\<rparr> new_data_client" "response_a True"]
  by (simp add: response_a_def create_callback_def new_data_client_def)

end
