(* ===== verification/Nodemap.thy ===== *)
theory Nodemap
  imports Framing "HOL-Library.Product_Lexorder"
begin

text \<open>
  The map from client sessions to application server nodes: the interface of \<open>nodemap.h\<close>, a record
  of functions as in the code, and its implementation in memory, \<open>nodemap-mem.c\<close>.

  \<open>GSequence\<close> is a binary search tree whose shape depends on the addresses of its nodes. Which
  element a search looks at next is therefore an argument, \<open>pick\<close>: with a comparison function that
  is not an order, the result depends on it.
\<close>

section \<open>Sequences with an arbitrary search tree\<close>

function sequence_search :: "(nat \<Rightarrow> nat \<Rightarrow> nat) \<Rightarrow> ('a \<Rightarrow> int) \<Rightarrow> 'a list \<Rightarrow> nat \<Rightarrow> nat \<Rightarrow> nat option" where
  "sequence_search pick cmp xs lo hi =
     (if lo < hi
      then
        (let i = lo + pick lo hi mod (hi - lo)
         in if cmp (xs ! i) = 0 then Some i
            else if 0 < cmp (xs ! i) then sequence_search pick cmp xs lo i
            else sequence_search pick cmp xs (Suc i) hi)
      else None)"
  by pat_completeness auto
termination
proof (relation "measure (\<lambda>(_, _, _, lo, hi). hi - lo)")
  fix pick :: "nat \<Rightarrow> nat \<Rightarrow> nat" and cmp :: "'a \<Rightarrow> int" and xs :: "'a list" and lo hi i :: nat
  assume "lo < hi" and "i = lo + pick lo hi mod (hi - lo)"
  moreover have "pick lo hi mod (hi - lo) < hi - lo" using \<open>lo < hi\<close> by simp
  ultimately show "((pick, cmp, xs, lo, i), pick, cmp, xs, lo, hi) \<in> measure (\<lambda>(_, _, _, lo, hi). hi - lo)"
    and "((pick, cmp, xs, Suc i, hi), pick, cmp, xs, lo, hi) \<in> measure (\<lambda>(_, _, _, lo, hi). hi - lo)"
    by auto
qed simp

function sequence_place :: "(nat \<Rightarrow> nat \<Rightarrow> nat) \<Rightarrow> ('a \<Rightarrow> int) \<Rightarrow> 'a list \<Rightarrow> nat \<Rightarrow> nat \<Rightarrow> nat" where
  "sequence_place pick cmp xs lo hi =
     (if lo < hi
      then
        (let i = lo + pick lo hi mod (hi - lo)
         in if 0 < cmp (xs ! i) then sequence_place pick cmp xs lo i
            else sequence_place pick cmp xs (Suc i) hi)
      else lo)"
  by pat_completeness auto
termination
proof (relation "measure (\<lambda>(_, _, _, lo, hi). hi - lo)")
  fix pick :: "nat \<Rightarrow> nat \<Rightarrow> nat" and cmp :: "'a \<Rightarrow> int" and xs :: "'a list" and lo hi i :: nat
  assume "lo < hi" and "i = lo + pick lo hi mod (hi - lo)"
  moreover have "pick lo hi mod (hi - lo) < hi - lo" using \<open>lo < hi\<close> by simp
  ultimately show "((pick, cmp, xs, lo, i), pick, cmp, xs, lo, hi) \<in> measure (\<lambda>(_, _, _, lo, hi). hi - lo)"
    and "((pick, cmp, xs, Suc i, hi), pick, cmp, xs, lo, hi) \<in> measure (\<lambda>(_, _, _, lo, hi). hi - lo)"
    by auto
qed simp

declare sequence_search.simps [simp del] sequence_place.simps [simp del]

definition sequence_insert :: "(nat \<Rightarrow> nat \<Rightarrow> nat) \<Rightarrow> ('a \<Rightarrow> 'a \<Rightarrow> int) \<Rightarrow> 'a \<Rightarrow> 'a list \<Rightarrow> 'a list" where
  "sequence_insert pick cmp x xs =
     (let p = sequence_place pick (\<lambda>y. cmp y x) xs 0 (length xs) in take p xs @ x # drop p xs)"

section \<open>nodemap.h\<close>

type_synonym qualified_key = "cstring \<times> guint64"

datatype nodemap_error = Already_Mapped | Not_Mapped | Nodemap_Failed

record 'm gzochi_metad_nodemap_iface =
  iface_map_session :: "'m \<Rightarrow> cstring \<Rightarrow> guint64 \<Rightarrow> guint \<Rightarrow> ('m \<times> nodemap_error option) option"
  iface_unmap_session :: "'m \<Rightarrow> cstring \<Rightarrow> guint64 \<Rightarrow> ('m \<times> nodemap_error option) option"
  iface_lookup_session :: "'m \<Rightarrow> cstring \<Rightarrow> guint64 \<Rightarrow> nodemap_error + guint"
  iface_unmap_all :: "'m \<Rightarrow> guint \<Rightarrow> 'm"

section \<open>nodemap-mem.c\<close>

record gzochi_metad_nodemap_mem =
  session_to_node :: "qualified_key \<rightharpoonup> guint"
  node_to_sessions :: "guint \<rightharpoonup> qualified_key list"

definition gzochi_metad_nodemap_mem_new :: gzochi_metad_nodemap_mem where
  "gzochi_metad_nodemap_mem_new = \<lparr>session_to_node = Map.empty, node_to_sessions = Map.empty\<rparr>"

text \<open>The difference of the session ids is converted to a \<open>gint\<close>.\<close>

definition nodemap_qualified_key_compare_data_func :: "qualified_key \<Rightarrow> qualified_key \<Rightarrow> int" where
  "nodemap_qualified_key_compare_data_func a b =
     (let app_compare = g_bytes_compare (fst a) (fst b)
      in if app_compare = 0 then sint (ucast (snd a - snd b) :: 32 word) else app_compare)"

definition map_session ::
    "(nat \<Rightarrow> nat \<Rightarrow> nat) \<Rightarrow> gzochi_metad_nodemap_mem \<Rightarrow> cstring \<Rightarrow> guint64 \<Rightarrow> guint \<Rightarrow>
     (gzochi_metad_nodemap_mem \<times> nodemap_error option) option" where
  "map_session pick m app session_id node_id =
     (if session_to_node m (app, session_id) \<noteq> None then Some (m, Some Already_Mapped)
      else
        (let sessions = (case node_to_sessions m node_id of Some ks \<Rightarrow> ks | None \<Rightarrow> []);
             sessions = sequence_insert pick nodemap_qualified_key_compare_data_func (app, session_id) sessions
         in Some (m\<lparr>node_to_sessions := (node_to_sessions m)(node_id \<mapsto> sessions),
                    session_to_node := (session_to_node m)((app, session_id) \<mapsto> node_id)\<rparr>, None)))"

text \<open>
  Removing the iterator of a failed lookup is a critical warning and changes nothing. A node without
  a sequence is a fault.
\<close>

definition unmap_session ::
    "(nat \<Rightarrow> nat \<Rightarrow> nat) \<Rightarrow> gzochi_metad_nodemap_mem \<Rightarrow> cstring \<Rightarrow> guint64 \<Rightarrow>
     (gzochi_metad_nodemap_mem \<times> nodemap_error option) option" where
  "unmap_session pick m app session_id =
     (case session_to_node m (app, session_id) of
        None \<Rightarrow> Some (m, Some Not_Mapped)
      | Some node_id \<Rightarrow> do {
          sessions \<leftarrow> node_to_sessions m node_id;
          let sessions =
            (case sequence_search pick (\<lambda>y. nodemap_qualified_key_compare_data_func y (app, session_id))
                sessions 0 (length sessions) of
               Some i \<Rightarrow> take i sessions @ drop (Suc i) sessions
             | None \<Rightarrow> sessions);
          Some (m\<lparr>node_to_sessions := (node_to_sessions m)(node_id := (if sessions = [] then None else Some sessions)),
                  session_to_node := (session_to_node m)((app, session_id) := None)\<rparr>, None)
        })"

definition lookup_session :: "gzochi_metad_nodemap_mem \<Rightarrow> cstring \<Rightarrow> guint64 \<Rightarrow> nodemap_error + guint" where
  "lookup_session m app session_id =
     (case session_to_node m (app, session_id) of Some node_id \<Rightarrow> Inr node_id | None \<Rightarrow> Inl Not_Mapped)"

definition unmap_session_func :: "(qualified_key \<rightharpoonup> guint) \<Rightarrow> qualified_key \<Rightarrow> qualified_key \<rightharpoonup> guint" where
  "unmap_session_func s2n k = s2n(k := None)"

definition unmap_all :: "gzochi_metad_nodemap_mem \<Rightarrow> guint \<Rightarrow> gzochi_metad_nodemap_mem" where
  "unmap_all m node_id =
     (case node_to_sessions m node_id of
        Some sessions \<Rightarrow>
          m\<lparr>session_to_node := foldl unmap_session_func (session_to_node m) sessions,
            node_to_sessions := (node_to_sessions m)(node_id := None)\<rparr>
      | None \<Rightarrow> m)"

definition mem_iface :: "(nat \<Rightarrow> nat \<Rightarrow> nat) \<Rightarrow> gzochi_metad_nodemap_mem gzochi_metad_nodemap_iface" where
  "mem_iface pick = \<lparr>iface_map_session = map_session pick, iface_unmap_session = unmap_session pick,
     iface_lookup_session = lookup_session, iface_unmap_all = unmap_all\<rparr>"

section \<open>What a node map promises\<close>

text \<open>
  The sessions whose ids are \<open>good\<close> are mapped and unmapped as in the finite map \<open>mapping\<close>.
\<close>

locale nodemap =
  fixes iface :: "'m gzochi_metad_nodemap_iface"
    and good :: "guint64 \<Rightarrow> bool"
    and inv :: "'m \<Rightarrow> bool"
    and mapping :: "'m \<Rightarrow> qualified_key \<rightharpoonup> guint"
  assumes lookup: "inv m \<Longrightarrow> iface_lookup_session iface m app s =
      (case mapping m (app, s) of Some n \<Rightarrow> Inr n | None \<Rightarrow> Inl Not_Mapped)"
    and map_new: "inv m \<Longrightarrow> good s \<Longrightarrow> mapping m (app, s) = None \<Longrightarrow>
      \<exists>m'. iface_map_session iface m app s n = Some (m', None) \<and> inv m' \<and> mapping m' = (mapping m)((app, s) \<mapsto> n)"
    and map_again: "inv m \<Longrightarrow> mapping m (app, s) \<noteq> None \<Longrightarrow> iface_map_session iface m app s n = Some (m, Some Already_Mapped)"
    and unmap_mapped: "inv m \<Longrightarrow> mapping m (app, s) \<noteq> None \<Longrightarrow>
      \<exists>m'. iface_unmap_session iface m app s = Some (m', None) \<and> inv m' \<and> mapping m' = (mapping m)((app, s) := None)"
    and unmap_missing: "inv m \<Longrightarrow> mapping m (app, s) = None \<Longrightarrow> iface_unmap_session iface m app s = Some (m, Some Not_Mapped)"
    and unmap_node: "inv m \<Longrightarrow> inv (iface_unmap_all iface m n)
      \<and> mapping (iface_unmap_all iface m n) = (\<lambda>k. if mapping m k = Some n then None else mapping m k)"

section \<open>The map in memory keeps the promise for small ids\<close>

text \<open>
  For ids below \<open>2\<^sup>31\<close> the conversion of the difference is exact and the comparison is the order of
  the qualified keys.
\<close>

definition small_id :: "guint64 \<Rightarrow> bool" where
  "small_id s \<longleftrightarrow> s < 2 ^ 31"

lemma small_difference:
  assumes "small_id a" and "small_id b"
  shows "sint (ucast (a - b) :: 32 word) = uint a - uint b"
proof -
  have u: "uint a < 2 ^ 31" "uint b < 2 ^ 31"
    using assms by (simp_all add: small_id_def word_less_def)
  have "(uint a - uint b) mod 18446744073709551616 = take_bit 64 (uint a - uint b)"
    by (simp add: take_bit_eq_mod)
  then have "sint (ucast (a - b) :: 32 word) = signed_take_bit 31 (uint a - uint b)"
    by (simp add: sint_uint unsigned_ucast_eq uint_word_ariths signed_take_bit_take_bit)
  also have "\<dots> = uint a - uint b"
    using u uint_ge_0 [of a] uint_ge_0 [of b] by (intro signed_take_bit_int_eq_self; simp; linarith)
  finally show ?thesis by simp
qed

lemma compare_small:
  assumes "small_id (snd a)" and "small_id (snd b)"
  shows "nodemap_qualified_key_compare_data_func a b < 0 \<longleftrightarrow> a < b"
    and "nodemap_qualified_key_compare_data_func a b = 0 \<longleftrightarrow> a = b"
    and "0 < nodemap_qualified_key_compare_data_func a b \<longleftrightarrow> b < a"
proof -
  have d: "fst a = fst b \<Longrightarrow> nodemap_qualified_key_compare_data_func a b = uint (snd a) - uint (snd b)"
    using small_difference [OF assms] by (simp add: nodemap_qualified_key_compare_data_func_def)
  have e: "fst a \<noteq> fst b \<Longrightarrow> nodemap_qualified_key_compare_data_func a b = g_bytes_compare (fst a) (fst b)"
    by (simp add: nodemap_qualified_key_compare_data_func_def)
  show "nodemap_qualified_key_compare_data_func a b < 0 \<longleftrightarrow> a < b"
    using d e g_bytes_compare_neg [of "fst a" "fst b"]
    by (cases "fst a = fst b") (auto simp: less_prod_def' word_less_def)
  show "nodemap_qualified_key_compare_data_func a b = 0 \<longleftrightarrow> a = b"
    using d e by (cases "fst a = fst b") (auto simp: prod_eq_iff word_uint_eq_iff)
  show "0 < nodemap_qualified_key_compare_data_func a b \<longleftrightarrow> b < a"
    using d e g_bytes_compare_pos [of "fst a" "fst b"]
    by (cases "fst a = fst b") (auto simp: less_prod_def' word_less_def)
qed

text \<open>Searches of a sorted sequence, whatever the shape of the tree.\<close>

lemma sequence_search_sorted:
  fixes k :: "'a::linorder"
  assumes "sorted_wrt (<) xs" and "\<And>x. x \<in> set xs \<Longrightarrow> (cmp x = 0 \<longleftrightarrow> x = k) \<and> (0 < cmp x \<longleftrightarrow> k < x)"
    and "hi \<le> length xs" and "k \<in> set xs \<longrightarrow> (\<exists>j. lo \<le> j \<and> j < hi \<and> xs ! j = k)"
  shows "case sequence_search pick cmp xs lo hi of None \<Rightarrow> k \<notin> set xs | Some i \<Rightarrow> i < length xs \<and> xs ! i = k"
  using assms
proof (induction pick cmp xs lo hi rule: sequence_search.induct)
  case (1 pick cmp xs lo hi)
  show ?case
  proof (cases "lo < hi")
    case False
    then show ?thesis using "1.prems"(4) by (subst sequence_search.simps) auto
  next
    case True
    define i where "i = lo + pick lo hi mod (hi - lo)"
    have "pick lo hi mod (hi - lo) < hi - lo" using True by simp
    then have i: "lo \<le> i" "i < hi" "i < length xs"
      using "1.prems"(3) unfolding i_def by linarith+
    have c: "cmp (xs ! i) = 0 \<longleftrightarrow> xs ! i = k" "0 < cmp (xs ! i) \<longleftrightarrow> k < xs ! i"
      using "1.prems"(2) [of "xs ! i"] i(3) by auto
    have mono: "\<And>j. j < length xs \<Longrightarrow> (xs ! j < xs ! i \<longleftrightarrow> j < i) \<and> (xs ! i < xs ! j \<longleftrightarrow> i < j)"
      using "1.prems"(1) i(3) by (metis linorder_neqE_nat order_less_asym sorted_wrt_iff_nth_less)
    have step: "sequence_search pick cmp xs lo hi =
        (if cmp (xs ! i) = 0 then Some i else if 0 < cmp (xs ! i) then sequence_search pick cmp xs lo i
         else sequence_search pick cmp xs (Suc i) hi)"
      using True by (subst sequence_search.simps) (simp add: i_def Let_def)
    consider "xs ! i = k" | "k < xs ! i" | "xs ! i < k" by (rule linorder_cases) auto
    then show ?thesis
    proof cases
      case 1
      then show ?thesis using step c i by simp
    next
      case 2
      have "k \<in> set xs \<longrightarrow> (\<exists>j. lo \<le> j \<and> j < i \<and> xs ! j = k)"
        using "1.prems"(3,4) 2 mono by (metis order_less_le_trans)
      then show ?thesis
        using "1.IH"(1) [OF True i_def _ _ "1.prems"(1,2)] c 2 i step by auto
    next
      case 3
      have "k \<in> set xs \<longrightarrow> (\<exists>j. Suc i \<le> j \<and> j < hi \<and> xs ! j = k)"
        using "1.prems"(3,4) 3 mono by (metis Suc_leI order_less_le_trans)
      then show ?thesis
        using "1.IH"(2) [OF True i_def _ _ "1.prems"(1,2,3)] c 3 i step by auto
    qed
  qed
qed

lemma sequence_place_sorted:
  fixes k :: "'a::linorder"
  assumes "sorted_wrt (<) xs" and "\<And>x. x \<in> set xs \<Longrightarrow> (0 < cmp x \<longleftrightarrow> k < x)"
    and "lo \<le> hi" and "hi \<le> length xs" and "\<forall>j < lo. xs ! j \<le> k" and "\<forall>j. hi \<le> j \<and> j < length xs \<longrightarrow> k < xs ! j"
  shows "sequence_place pick cmp xs lo hi \<le> length xs \<and> (\<forall>j < sequence_place pick cmp xs lo hi. xs ! j \<le> k)
    \<and> (\<forall>j. sequence_place pick cmp xs lo hi \<le> j \<and> j < length xs \<longrightarrow> k < xs ! j)"
  using assms
proof (induction pick cmp xs lo hi rule: sequence_place.induct)
  case (1 pick cmp xs lo hi)
  show ?case
  proof (cases "lo < hi")
    case False
    then have "sequence_place pick cmp xs lo hi = lo" by (subst sequence_place.simps) simp
    then show ?thesis using "1.prems"(3-6) False by simp
  next
    case True
    define i where "i = lo + pick lo hi mod (hi - lo)"
    have "pick lo hi mod (hi - lo) < hi - lo" using True by simp
    then have i: "lo \<le> i" "i < hi" "i < length xs"
      using "1.prems"(4) unfolding i_def by linarith+
    have c: "0 < cmp (xs ! i) \<longleftrightarrow> k < xs ! i"
      using "1.prems"(2) [of "xs ! i"] i(3) by auto
    have mono: "\<And>j l. j < l \<Longrightarrow> l < length xs \<Longrightarrow> xs ! j < xs ! l"
      using "1.prems"(1) by (simp add: sorted_wrt_iff_nth_less)
    have step: "sequence_place pick cmp xs lo hi =
        (if 0 < cmp (xs ! i) then sequence_place pick cmp xs lo i else sequence_place pick cmp xs (Suc i) hi)"
      using True by (subst sequence_place.simps) (simp add: i_def Let_def)
    show ?thesis
    proof (cases "k < xs ! i")
      case less: True
      have "\<forall>j. i \<le> j \<and> j < length xs \<longrightarrow> k < xs ! j"
        using less mono by (metis le_neq_implies_less order.strict_trans)
      then show ?thesis
        using "1.IH"(1) [OF True i_def _ "1.prems"(1,2) i(1) _ "1.prems"(5)] c less i step by auto
    next
      case ge: False
      have "\<forall>j < Suc i. xs ! j \<le> k"
        using ge mono i(3) by (metis less_Suc_eq linorder_not_less order.strict_trans2 order_less_imp_le)
      then show ?thesis
        using "1.IH"(2) [OF True i_def _ "1.prems"(1,2) _ "1.prems"(4) _ "1.prems"(6)] c ge i step by auto
    qed
  qed
qed

lemma sequence_insert_sorted:
  fixes k :: "'a::linorder"
  assumes "sorted_wrt (<) xs" and "k \<notin> set xs" and "\<And>x. x \<in> set xs \<Longrightarrow> (0 < cmp x k \<longleftrightarrow> k < x)"
  shows "sorted_wrt (<) (sequence_insert pick cmp k xs) \<and> set (sequence_insert pick cmp k xs) = insert k (set xs)"
proof -
  define p where "p = sequence_place pick (\<lambda>y. cmp y k) xs 0 (length xs)"
  have "\<forall>j. length xs \<le> j \<and> j < length xs \<longrightarrow> k < xs ! j" by auto
  from sequence_place_sorted [OF assms(1) assms(3) _ order.refl _ this, of 0 pick]
  have p: "p \<le> length xs" "\<forall>j < p. xs ! j \<le> k" "\<forall>j. p \<le> j \<and> j < length xs \<longrightarrow> k < xs ! j"
    unfolding p_def by simp_all
  have eq: "sequence_insert pick cmp k xs = take p xs @ k # drop p xs"
    by (simp add: sequence_insert_def p_def Let_def)
  have "\<forall>x \<in> set (take p xs). x < k"
    using p(1,2) assms(2) by (auto simp: in_set_conv_nth nth_mem order_le_less)
  moreover have gt: "\<forall>x \<in> set (drop p xs). k < x"
    using p(3) by (auto simp: in_set_conv_nth)
  moreover have "sorted_wrt (<) (take p xs @ drop p xs)" using assms(1) by simp
  ultimately have "sorted_wrt (<) (sequence_insert pick cmp k xs)"
    unfolding eq sorted_wrt_append by auto
  moreover have "set (take p xs) \<union> set (drop p xs) = set xs" by (metis append_take_drop_id set_append)
  then have "set (sequence_insert pick cmp k xs) = insert k (set xs)" unfolding eq by auto
  ultimately show ?thesis by blast
qed

definition nodemap_mem_inv :: "gzochi_metad_nodemap_mem \<Rightarrow> bool" where
  "nodemap_mem_inv m \<longleftrightarrow> (\<forall>(app, s) \<in> dom (session_to_node m). small_id s)
     \<and> (\<forall>n. case node_to_sessions m n of
          None \<Rightarrow> (\<forall>k. session_to_node m k \<noteq> Some n)
        | Some ks \<Rightarrow> ks \<noteq> [] \<and> sorted_wrt (<) ks \<and> set ks = {k. session_to_node m k = Some n})"

lemma remove_nth_sorted:
  fixes xs :: "'a::linorder list"
  assumes "sorted_wrt (<) xs" and "i < length xs"
  shows "sorted_wrt (<) (take i xs @ drop (Suc i) xs) \<and> set (take i xs @ drop (Suc i) xs) = set xs - {xs ! i}"
proof -
  have "sorted_wrt (<) (take i xs @ xs ! i # drop (Suc i) xs)"
    and s: "set xs = set (take i xs @ xs ! i # drop (Suc i) xs)"
    using assms by (simp_all add: id_take_nth_drop [symmetric])
  then show ?thesis
    unfolding sorted_wrt_append s by auto
qed

lemma nodemap_mem_inv_new: "nodemap_mem_inv gzochi_metad_nodemap_mem_new"
  by (simp add: nodemap_mem_inv_def gzochi_metad_nodemap_mem_new_def)

lemma small_mapped: "nodemap_mem_inv m \<Longrightarrow> session_to_node m k = Some n \<Longrightarrow> small_id (snd k)"
  unfolding nodemap_mem_inv_def by (cases k) fastforce

lemma sessions_of_node:
  "nodemap_mem_inv m \<Longrightarrow> node_to_sessions m n = Some ks \<Longrightarrow>
    ks \<noteq> [] \<and> sorted_wrt (<) ks \<and> set ks = {k. session_to_node m k = Some n}"
  unfolding nodemap_mem_inv_def by (auto split: option.splits)

lemma no_sessions_of_node:
  "nodemap_mem_inv m \<Longrightarrow> node_to_sessions m n = None \<Longrightarrow> session_to_node m k \<noteq> Some n"
proof
  assume "nodemap_mem_inv m" "node_to_sessions m n = None" "session_to_node m k = Some n"
  then show False unfolding nodemap_mem_inv_def by (metis (mono_tags, lifting) option.case(1))
qed

lemma map_session_new:
  assumes "nodemap_mem_inv m" and "small_id s" and "session_to_node m (app, s) = None"
  shows "\<exists>m'. map_session pick m app s n = Some (m', None) \<and> nodemap_mem_inv m'
    \<and> session_to_node m' = (session_to_node m)((app, s) \<mapsto> n)"
proof -
  define old where "old = (case node_to_sessions m n of Some ks \<Rightarrow> ks | None \<Rightarrow> [])"
  define ks where "ks = sequence_insert pick nodemap_qualified_key_compare_data_func (app, s) old"
  define m' where "m' = m\<lparr>node_to_sessions := (node_to_sessions m)(n \<mapsto> ks),
      session_to_node := (session_to_node m)((app, s) \<mapsto> n)\<rparr>"
  have old: "sorted_wrt (<) old \<and> set old = {k. session_to_node m k = Some n}"
    using sessions_of_node [OF assms(1), of n] no_sessions_of_node [OF assms(1), of n]
    by (auto simp: old_def split: option.splits)
  then have "sorted_wrt (<) ks \<and> set ks = insert (app, s) (set old)"
    unfolding ks_def using assms small_mapped [OF assms(1)]
    by (intro sequence_insert_sorted) (auto simp: compare_small)
  with old have ks: "ks \<noteq> []" "sorted_wrt (<) ks" "set ks = {k. session_to_node m' k = Some n}"
    by (auto simp: m'_def)
  have other: "{k. session_to_node m' k = Some n'} = {k. session_to_node m k = Some n'}" if "n' \<noteq> n" for n'
    using that assms(3) by (auto simp: m'_def)
  have sub: "case node_to_sessions m' n' of None \<Rightarrow> (\<forall>k. session_to_node m' k \<noteq> Some n')
      | Some ks \<Rightarrow> ks \<noteq> [] \<and> sorted_wrt (<) ks \<and> set ks = {k. session_to_node m' k = Some n'}" for n'
  proof (cases "n' = n")
    case True
    then show ?thesis using ks by (simp add: m'_def)
  next
    case False
    then have "node_to_sessions m' n' = node_to_sessions m n'" by (simp add: m'_def)
    then show ?thesis
      using sessions_of_node [OF assms(1), of n'] no_sessions_of_node [OF assms(1), of n'] other [OF False]
      by (auto split: option.splits)
  qed
  have "nodemap_mem_inv m'"
    unfolding nodemap_mem_inv_def using sub assms(1,2) by (auto simp: m'_def nodemap_mem_inv_def)
  then show ?thesis
    using assms(3) by (simp add: map_session_def m'_def ks_def old_def Let_def)
qed

lemma unmap_session_mapped:
  assumes "nodemap_mem_inv m" and "session_to_node m (app, s) = Some n"
  shows "\<exists>m'. unmap_session pick m app s = Some (m', None) \<and> nodemap_mem_inv m'
    \<and> session_to_node m' = (session_to_node m)((app, s) := None)"
proof -
  obtain old where old: "node_to_sessions m n = Some old"
    using no_sessions_of_node [OF assms(1), of n] assms(2) by (cases "node_to_sessions m n") auto
  have o: "sorted_wrt (<) old" "set old = {k. session_to_node m k = Some n}"
    using sessions_of_node [OF assms(1) old] by auto
  let ?cmp = "\<lambda>y. nodemap_qualified_key_compare_data_func y (app, s)"
  have k: "(app, s) \<in> set old" and "small_id s" using o(2) assms(2) small_mapped [OF assms] by auto
  have "\<exists>j. 0 \<le> j \<and> j < length old \<and> old ! j = (app, s)" using k by (auto simp: in_set_conv_nth)
  moreover have "(?cmp x = 0 \<longleftrightarrow> x = (app, s)) \<and> (0 < ?cmp x \<longleftrightarrow> (app, s) < x)" if "x \<in> set old" for x
    using that o(2) \<open>small_id s\<close> small_mapped [OF assms(1)] by (auto simp: compare_small)
  ultimately have "case sequence_search pick ?cmp old 0 (length old) of
      None \<Rightarrow> (app, s) \<notin> set old | Some i \<Rightarrow> i < length old \<and> old ! i = (app, s)"
    by (intro sequence_search_sorted [OF o(1)]) auto
  then obtain i where i: "sequence_search pick ?cmp old 0 (length old) = Some i" "i < length old" "old ! i = (app, s)"
    using k by (auto split: option.splits)
  define ks where "ks = take i old @ drop (Suc i) old"
  define m' where "m' = m\<lparr>node_to_sessions := (node_to_sessions m)(n := (if ks = [] then None else Some ks)),
      session_to_node := (session_to_node m)((app, s) := None)\<rparr>"
  have ks: "sorted_wrt (<) ks" "set ks = {k. session_to_node m' k = Some n}"
    using remove_nth_sorted [OF o(1) i(2)] i(3) o(2) unfolding ks_def m'_def by auto
  have other: "{k. session_to_node m' k = Some n'} = {k. session_to_node m k = Some n'}" if "n' \<noteq> n" for n'
    using that assms(2) by (auto simp: m'_def)
  have sub: "case node_to_sessions m' n' of None \<Rightarrow> (\<forall>k. session_to_node m' k \<noteq> Some n')
      | Some ks \<Rightarrow> ks \<noteq> [] \<and> sorted_wrt (<) ks \<and> set ks = {k. session_to_node m' k = Some n'}" for n'
  proof (cases "n' = n")
    case True
    have "ks = [] \<Longrightarrow> session_to_node m' k \<noteq> Some n" for k using ks(2) by (cases k) auto
    then show ?thesis using True ks by (auto simp: m'_def)
  next
    case False
    then have "node_to_sessions m' n' = node_to_sessions m n'" by (simp add: m'_def)
    then show ?thesis
      using sessions_of_node [OF assms(1), of n'] no_sessions_of_node [OF assms(1), of n'] other [OF False]
      by (auto split: option.splits)
  qed
  have "nodemap_mem_inv m'"
    unfolding nodemap_mem_inv_def using sub assms(1) by (auto simp: m'_def nodemap_mem_inv_def split: if_splits)
  moreover have "unmap_session pick m app s = Some (m', None)"
    using assms(2) old i(1) unfolding m'_def ks_def by (simp add: unmap_session_def Let_def)
  ultimately show ?thesis by (simp add: m'_def)
qed

lemma foldl_unmap_session_func: "foldl unmap_session_func s2n ks = (\<lambda>k. if k \<in> set ks then None else s2n k)"
  by (induction ks arbitrary: s2n) (auto simp: unmap_session_func_def fun_eq_iff)

lemma unmap_all_mapped:
  assumes "nodemap_mem_inv m"
  shows "nodemap_mem_inv (unmap_all m n)
    \<and> session_to_node (unmap_all m n) = (\<lambda>k. if session_to_node m k = Some n then None else session_to_node m k)"
proof (cases "node_to_sessions m n")
  case None
  then show ?thesis
    using assms no_sessions_of_node [OF assms None] by (auto simp: unmap_all_def fun_eq_iff)
next
  case (Some ks)
  have s: "session_to_node (unmap_all m n) = (\<lambda>k. if session_to_node m k = Some n then None else session_to_node m k)"
    using sessions_of_node [OF assms Some] Some by (simp add: unmap_all_def foldl_unmap_session_func)
  have n: "node_to_sessions (unmap_all m n) = (node_to_sessions m)(n := None)"
    using Some by (simp add: unmap_all_def)
  have "case node_to_sessions (unmap_all m n) n' of None \<Rightarrow> (\<forall>k. session_to_node (unmap_all m n) k \<noteq> Some n')
      | Some ks \<Rightarrow> ks \<noteq> [] \<and> sorted_wrt (<) ks \<and> set ks = {k. session_to_node (unmap_all m n) k = Some n'}" for n'
    using sessions_of_node [OF assms, of n'] no_sessions_of_node [OF assms, of n']
    by (auto simp: n s split: option.splits)
  moreover have "\<forall>(app, id) \<in> dom (session_to_node (unmap_all m n)). small_id id"
    using small_mapped [OF assms] by (fastforce simp: s split: if_splits)
  ultimately show ?thesis using s by (simp add: nodemap_mem_inv_def)
qed

interpretation mem_map: nodemap "mem_iface pick" small_id nodemap_mem_inv session_to_node
proof
  fix m app s n
  assume inv: "nodemap_mem_inv m"
  show "iface_lookup_session (mem_iface pick) m app s =
      (case session_to_node m (app, s) of None \<Rightarrow> Inl Not_Mapped | Some n \<Rightarrow> Inr n)"
    by (simp add: mem_iface_def lookup_session_def)
  show "session_to_node m (app, s) \<noteq> None \<Longrightarrow> iface_map_session (mem_iface pick) m app s n = Some (m, Some Already_Mapped)"
    by (simp add: mem_iface_def map_session_def)
  show "session_to_node m (app, s) = None \<Longrightarrow> iface_unmap_session (mem_iface pick) m app s = Some (m, Some Not_Mapped)"
    by (simp add: mem_iface_def unmap_session_def)
  show "small_id s \<Longrightarrow> session_to_node m (app, s) = None \<Longrightarrow>
      \<exists>m'. iface_map_session (mem_iface pick) m app s n = Some (m', None) \<and> nodemap_mem_inv m'
        \<and> session_to_node m' = (session_to_node m)((app, s) \<mapsto> n)"
    using map_session_new [OF inv] by (simp add: mem_iface_def)
  show "session_to_node m (app, s) \<noteq> None \<Longrightarrow>
      \<exists>m'. iface_unmap_session (mem_iface pick) m app s = Some (m', None) \<and> nodemap_mem_inv m'
        \<and> session_to_node m' = (session_to_node m)((app, s) := None)"
    using unmap_session_mapped [OF inv, of app s] by (auto simp: mem_iface_def)
  show "nodemap_mem_inv (iface_unmap_all (mem_iface pick) m n)
      \<and> session_to_node (iface_unmap_all (mem_iface pick) m n) =
        (\<lambda>k. if session_to_node m k = Some n then None else session_to_node m k)"
    using unmap_all_mapped [OF inv] by (simp add: mem_iface_def)
qed

section \<open>Clients of a node map\<close>

datatype nodemap_call =
    Map_Session cstring guint64 guint
  | Unmap_Session cstring guint64
  | Unmap_All guint

fun nodemap_step :: "'m gzochi_metad_nodemap_iface \<Rightarrow> nodemap_call \<Rightarrow> 'm \<Rightarrow> ('m \<times> nodemap_error option) option" where
  "nodemap_step iface (Map_Session app s n) m = iface_map_session iface m app s n"
| "nodemap_step iface (Unmap_Session app s) m = iface_unmap_session iface m app s"
| "nodemap_step iface (Unmap_All n) m = Some (iface_unmap_all iface m n, None)"

fun nodemap_run :: "'m gzochi_metad_nodemap_iface \<Rightarrow> nodemap_call list \<Rightarrow> 'm \<Rightarrow> ('m \<times> nodemap_error option list) option" where
  "nodemap_run iface [] m = Some (m, [])"
| "nodemap_run iface (c # cs) m = do {
     (m, e) \<leftarrow> nodemap_step iface c m;
     (m, es) \<leftarrow> nodemap_run iface cs m;
     Some (m, e # es)
   }"

text \<open>The same calls on a plain map.\<close>

fun map_step :: "nodemap_call \<Rightarrow> (qualified_key \<rightharpoonup> guint) \<Rightarrow> (qualified_key \<rightharpoonup> guint) \<times> nodemap_error option" where
  "map_step (Map_Session app s n) f =
     (if f (app, s) = None then (f((app, s) \<mapsto> n), None) else (f, Some Already_Mapped))"
| "map_step (Unmap_Session app s) f =
     (if f (app, s) = None then (f, Some Not_Mapped) else (f((app, s) := None), None))"
| "map_step (Unmap_All n) f = (\<lambda>k. if f k = Some n then None else f k, None)"

fun map_run :: "nodemap_call list \<Rightarrow> (qualified_key \<rightharpoonup> guint) \<Rightarrow> (qualified_key \<rightharpoonup> guint) \<times> nodemap_error option list" where
  "map_run [] f = (f, [])"
| "map_run (c # cs) f = (case map_step c f of (f, e) \<Rightarrow> case map_run cs f of (f, es) \<Rightarrow> (f, e # es))"

fun call_good :: "(guint64 \<Rightarrow> bool) \<Rightarrow> nodemap_call \<Rightarrow> bool" where
  "call_good good (Map_Session app s n) = good s"
| "call_good good (Unmap_Session app s) = True"
| "call_good good (Unmap_All n) = True"

context nodemap
begin

lemma step_refines:
  assumes "inv m" and "call_good good c"
  shows "\<exists>m'. nodemap_step iface c m = Some (m', snd (map_step c (mapping m))) \<and> inv m'
    \<and> mapping m' = fst (map_step c (mapping m))"
proof (cases c)
  case (Map_Session app s n)
  then show ?thesis
    using assms map_new [of m s app n] map_again [of m app s n] by (cases "mapping m (app, s)") auto
next
  case (Unmap_Session app s)
  then show ?thesis
    using assms unmap_mapped [of m app s] unmap_missing [of m app s] by (cases "mapping m (app, s)") auto
next
  case (Unmap_All n)
  then show ?thesis using assms unmap_node by simp
qed

lemma run_refines:
  assumes "inv m" and "\<forall>c \<in> set cs. call_good good c"
  shows "\<exists>m'. nodemap_run iface cs m = Some (m', snd (map_run cs (mapping m))) \<and> inv m'
    \<and> mapping m' = fst (map_run cs (mapping m))"
  using assms
proof (induction cs arbitrary: m)
  case (Cons c cs)
  obtain m1 where m1: "nodemap_step iface c m = Some (m1, snd (map_step c (mapping m)))" "inv m1"
      "mapping m1 = fst (map_step c (mapping m))"
    using step_refines [of m c] Cons.prems by auto
  then show ?case using Cons.IH [OF m1(2)] Cons.prems(2) by (auto simp: case_prod_unfold)
qed simp

end

section \<open>Properties\<close>

text \<open>
  (C31) The node map in memory. For session ids below \<open>2\<^sup>31\<close>, any sequence of calls on a new node
  map returns, reports the errors that the same calls on a plain finite map report, and lookups
  then find exactly the sessions of that map, whatever the shape of the search trees is.
\<close>

theorem nodemap_mem_correct:
  assumes "\<forall>c \<in> set cs. call_good small_id c"
  shows "\<exists>m. nodemap_run (mem_iface pick) cs gzochi_metad_nodemap_mem_new = Some (m, snd (map_run cs Map.empty))
    \<and> (\<forall>app s. lookup_session m app s =
        (case fst (map_run cs Map.empty) (app, s) of Some n \<Rightarrow> Inr n | None \<Rightarrow> Inl Not_Mapped))"
proof -
  have new: "session_to_node gzochi_metad_nodemap_mem_new = Map.empty"
    by (simp add: gzochi_metad_nodemap_mem_new_def)
  from mem_map.run_refines [OF nodemap_mem_inv_new assms, of pick] show ?thesis
    unfolding new by (auto simp: lookup_session_def)
qed

theorem nodemap_mem_correct_witness:
  "\<exists>m. nodemap_run (mem_iface (\<lambda>lo hi. 0)) [Map_Session [97] 5 1, Map_Session [97] 3 1, Map_Session [97] 5 2, Unmap_All 1]
      gzochi_metad_nodemap_mem_new = Some (m, [None, None, Some Already_Mapped, None])
    \<and> lookup_session m [97] 5 = Inl Not_Mapped"
  using nodemap_mem_correct [of "[Map_Session [97] 5 1, Map_Session [97] 3 1, Map_Session [97] 5 2, Unmap_All 1]" "\<lambda>lo hi. 0"]
  by (auto simp: small_id_def)

text \<open>
  Session ids that differ by \<open>2\<^sup>32\<close> are equal to the comparison function of the sequences,
  which converts their difference to 32 bits. Whatever the search tree is, one of two such sessions
  exists whose removal takes the entry of the other one out of the list of the node, so that the
  other session is still mapped to the node after all sessions of the node were removed.
\<close>

theorem nodemap_stale_mapping:
  "\<exists>gone stays m. nodemap_run (mem_iface pick)
      [Map_Session app 0 n, Map_Session app (2 ^ 32) n, Unmap_Session app gone, Unmap_All n] gzochi_metad_nodemap_mem_new =
      Some (m, [None, None, None, None])
    \<and> gone \<noteq> stays \<and> lookup_session m app stays = Inr n"
proof -
  have place: "sequence_place pick cmp xs l l = l" for cmp :: "qualified_key \<Rightarrow> int" and xs l
    by (subst sequence_place.simps) simp
  have place': "sequence_place pick cmp [x] 0 (Suc 0) = (if 0 < cmp x then 0 else 1)" for cmp :: "qualified_key \<Rightarrow> int" and x
    by (subst sequence_place.simps) (simp add: place)
  have search: "sequence_search pick cmp [x, y] 0 (Suc (Suc 0)) = Some (pick 0 2 mod 2)" if "cmp x = 0" "cmp y = 0"
    for cmp :: "qualified_key \<Rightarrow> int" and x y
    using that by (subst sequence_search.simps) (cases "pick 0 2 mod 2 = 0", auto simp: Let_def numeral_2_eq_2)
  have eq: "nodemap_qualified_key_compare_data_func (app, a) (app, b) = 0" if "a \<in> {0, 2 ^ 32}" "b \<in> {0, 2 ^ 32}" for a b
    using that by (auto simp: nodemap_qualified_key_compare_data_func_def)
  show ?thesis
    apply (rule exI [of _ "if pick 0 2 mod 2 = 0 then 2 ^ 32 else 0"], rule exI [of _ "if pick 0 2 mod 2 = 0 then 0 else 2 ^ 32"])
    using eq
    apply (cases "pick 0 2 mod 2 = 0")
    apply (simp_all add: mem_iface_def map_session_def unmap_session_def unmap_all_def lookup_session_def
        gzochi_metad_nodemap_mem_new_def sequence_insert_def place place' search unmap_session_func_def Let_def)
    done
qed

end
