(* ===== verification/Sessionserver.thy ===== *)
theory Sessionserver
  imports Nodemap Socket
begin

text \<open>
  The session server of the meta server, \<open>gzochi-server/src/sessionserver.c\<close>, over any node map,
  and the server side of the session protocol, \<open>sessionserver-protocol.c\<close>. Sessions live on the
  application server that accepted them; the session server remembers on which one, and relays
  messages and disconnections for a session to that node.

  A node is an \<open>int\<close> in this file of the source and a \<open>guint\<close> in its callers; both are the
  same 32 bits here.
\<close>

section \<open>sessionserver.c\<close>

datatype sessionserver_error = Ss_Already_Connected | Ss_Not_Connected | Ss_Failed

datatype session_event = Session_Connected guint cstring | Session_Disconnected guint cstring

record 'm sessionserver =
  ss_nodemap :: 'm
  ss_connected_servers :: "guint \<rightharpoonup> sock"
  ss_events :: "session_event list"

definition RELAY_DISCONNECT_TO :: byte where "RELAY_DISCONNECT_TO = 0x63"
definition RELAY_MESSAGE_TO :: byte where "RELAY_MESSAGE_TO = 0x65"

definition gzochi_metad_session_server_init :: "gzochi_metad_nodemap_mem sessionserver" where
  "gzochi_metad_session_server_init =
     \<lparr>ss_nodemap = gzochi_metad_nodemap_mem_new, ss_connected_servers = Map.empty, ss_events = []\<rparr>"

definition sessionserver_server_connected ::
    "'m sessionserver \<Rightarrow> guint \<Rightarrow> sock \<Rightarrow> 'm sessionserver \<times> sessionserver_error option" where
  "sessionserver_server_connected ss node_id sock =
     (if ss_connected_servers ss node_id \<noteq> None then (ss, Some Ss_Already_Connected)
      else (ss\<lparr>ss_connected_servers := (ss_connected_servers ss)(node_id \<mapsto> sock)\<rparr>, None))"

definition sessionserver_server_disconnected ::
    "'m gzochi_metad_nodemap_iface \<Rightarrow> 'm sessionserver \<Rightarrow> guint \<Rightarrow> 'm sessionserver \<times> sessionserver_error option" where
  "sessionserver_server_disconnected iface ss node_id =
     (if ss_connected_servers ss node_id \<noteq> None
      then (ss\<lparr>ss_nodemap := iface_unmap_all iface (ss_nodemap ss) node_id,
               ss_connected_servers := (ss_connected_servers ss)(node_id := None)\<rparr>, None)
      else (ss, Some Ss_Not_Connected))"

fun propagate_nodemap_error :: "nodemap_error \<Rightarrow> sessionserver_error" where
  "propagate_nodemap_error Already_Mapped = Ss_Already_Connected"
| "propagate_nodemap_error Not_Mapped = Ss_Not_Connected"
| "propagate_nodemap_error Nodemap_Failed = Ss_Failed"

definition sessionserver_session_connected ::
    "'m gzochi_metad_nodemap_iface \<Rightarrow> 'm sessionserver \<Rightarrow> guint \<Rightarrow> cstring \<Rightarrow> guint64 \<Rightarrow>
     ('m sessionserver \<times> sessionserver_error option) option" where
  "sessionserver_session_connected iface ss node_id app session_id =
     (if ss_connected_servers ss node_id \<noteq> None
      then do {
        (nodemap, err) \<leftarrow> iface_map_session iface (ss_nodemap ss) app session_id node_id;
        let ss = ss\<lparr>ss_nodemap := nodemap\<rparr>;
        case err of
          Some e \<Rightarrow> Some (ss, Some (propagate_nodemap_error e))
        | None \<Rightarrow> Some (ss\<lparr>ss_events := ss_events ss @ [Session_Connected node_id app]\<rparr>, None)
      }
      else Some (ss, Some Ss_Not_Connected))"

definition sessionserver_session_disconnected ::
    "'m gzochi_metad_nodemap_iface \<Rightarrow> 'm sessionserver \<Rightarrow> cstring \<Rightarrow> guint64 \<Rightarrow>
     ('m sessionserver \<times> sessionserver_error option) option" where
  "sessionserver_session_disconnected iface ss app session_id =
     (case iface_lookup_session iface (ss_nodemap ss) app session_id of
        Inl e \<Rightarrow> Some (ss, Some (propagate_nodemap_error e))
      | Inr node_id \<Rightarrow> do {
          (nodemap, err) \<leftarrow> iface_unmap_session iface (ss_nodemap ss) app session_id;
          let ss = ss\<lparr>ss_nodemap := nodemap\<rparr>;
          case err of
            Some e \<Rightarrow> Some (ss, Some (propagate_nodemap_error e))
          | None \<Rightarrow> Some (ss\<lparr>ss_events := ss_events ss @ [Session_Disconnected node_id app]\<rparr>, None)
        })"

text \<open>The messages are written into a buffer of the computed length; its content is unspecified before.\<close>

definition session_disconnect_message :: "cstring \<Rightarrow> guint64 \<Rightarrow> byte list option" where
  "session_disconnect_message app session_id = do {
     let app_len = length app;
     let total_len = app_len + 12;
     let buf = replicate total_len 0;
     buf \<leftarrow> gzochi_common_io_write_short (word_of_nat (total_len - 3)) buf 0;
     buf \<leftarrow> wr buf 2 RELAY_DISCONNECT_TO;
     buf \<leftarrow> memcpy buf 3 (app @ [0]);
     buf \<leftarrow> gzochi_common_io_write_long session_id buf (app_len + 4);
     Some buf
   }"

definition sessionserver_relay_disconnect ::
    "'m gzochi_metad_nodemap_iface \<Rightarrow> 'm sessionserver \<Rightarrow> cstring \<Rightarrow> guint64 \<Rightarrow> sockets \<Rightarrow>
     (sockets \<times> sessionserver_error option) option" where
  "sessionserver_relay_disconnect iface ss app session_id socks =
     (case iface_lookup_session iface (ss_nodemap ss) app session_id of
        Inl e \<Rightarrow> Some (socks, Some (propagate_nodemap_error e))
      | Inr node_id \<Rightarrow>
          (case ss_connected_servers ss node_id of
             None \<Rightarrow> Some (socks, Some Ss_Not_Connected)
           | Some sock \<Rightarrow> do {
               buf \<leftarrow> session_disconnect_message app session_id;
               socks \<leftarrow> socket_write sock buf socks;
               Some (socks, None)
             }))"

definition session_relay_message :: "cstring \<Rightarrow> guint64 \<Rightarrow> byte list \<Rightarrow> byte list option" where
  "session_relay_message app session_id msg = do {
     let app_len = length app;
     let msg_len = length msg;
     let total_len = app_len + msg_len + 14;
     let buf = replicate total_len 0;
     buf \<leftarrow> gzochi_common_io_write_short (word_of_nat (total_len - 3)) buf 0;
     buf \<leftarrow> wr buf 2 RELAY_MESSAGE_TO;
     buf \<leftarrow> memcpy buf 3 (app @ [0]);
     buf \<leftarrow> gzochi_common_io_write_long session_id buf (app_len + 4);
     buf \<leftarrow> gzochi_common_io_write_short (word_of_nat msg_len) buf (app_len + 12);
     buf \<leftarrow> memcpy buf (app_len + 14) msg;
     Some buf
   }"

definition sessionserver_relay_message ::
    "'m gzochi_metad_nodemap_iface \<Rightarrow> 'm sessionserver \<Rightarrow> cstring \<Rightarrow> guint64 \<Rightarrow> byte list \<Rightarrow> sockets \<Rightarrow>
     (sockets \<times> sessionserver_error option) option" where
  "sessionserver_relay_message iface ss app session_id msg socks =
     (case iface_lookup_session iface (ss_nodemap ss) app session_id of
        Inl e \<Rightarrow> Some (socks, Some (propagate_nodemap_error e))
      | Inr node_id \<Rightarrow>
          (case ss_connected_servers ss node_id of
             None \<Rightarrow> Some (socks, Some Ss_Not_Connected)
           | Some sock \<Rightarrow> do {
               buf \<leftarrow> session_relay_message app session_id msg;
               socks \<leftarrow> socket_write sock buf socks;
               Some (socks, None)
             }))"

section \<open>sessionserver-protocol.c\<close>

definition SESSION_CONNECTED :: byte where "SESSION_CONNECTED = 0x60"
definition SESSION_DISCONNECTED :: byte where "SESSION_DISCONNECTED = 0x61"
definition RELAY_DISCONNECT_FROM :: byte where "RELAY_DISCONNECT_FROM = 0x62"
definition RELAY_MESSAGE_FROM :: byte where "RELAY_MESSAGE_FROM = 0x64"

lemmas session_opcodes = SESSION_CONNECTED_def SESSION_DISCONNECTED_def RELAY_DISCONNECT_FROM_def
  RELAY_MESSAGE_FROM_def RELAY_DISCONNECT_TO_def RELAY_MESSAGE_TO_def

text \<open>
  The state a message works on: the session server and the sockets of all nodes. Errors of the
  session server are logged and dropped.
\<close>

type_synonym 'm session_state = "'m sessionserver \<times> sockets"

definition dispatch_session_connected ::
    "'m gzochi_metad_nodemap_iface \<Rightarrow> guint \<Rightarrow> byte list \<Rightarrow> nat \<Rightarrow> 16 word \<Rightarrow> 'm session_state \<Rightarrow> 'm session_state option" where
  "dispatch_session_connected iface node_id m message len = (\<lambda>(ss, socks). do {
     r \<leftarrow> gzochid_protocol_read_str m message (unat len);
     case r of
       None \<Rightarrow> Some (ss, socks)
     | Some (app, str_len) \<Rightarrow>
         if str_len \<le> 1 \<or> unat len < str_len + 8 then Some (ss, socks)
         else do {
           session_id \<leftarrow> gzochi_common_io_read_long m (message + str_len);
           (ss, err) \<leftarrow> sessionserver_session_connected iface ss node_id app session_id;
           Some (ss, socks)
         }
   })"

definition dispatch_session_disconnected ::
    "'m gzochi_metad_nodemap_iface \<Rightarrow> byte list \<Rightarrow> nat \<Rightarrow> 16 word \<Rightarrow> 'm session_state \<Rightarrow> 'm session_state option" where
  "dispatch_session_disconnected iface m message len = (\<lambda>(ss, socks). do {
     r \<leftarrow> gzochid_protocol_read_str m message (unat len);
     case r of
       None \<Rightarrow> Some (ss, socks)
     | Some (app, str_len) \<Rightarrow>
         if str_len \<le> 1 \<or> unat len < str_len + 8 then Some (ss, socks)
         else do {
           session_id \<leftarrow> gzochi_common_io_read_long m (message + str_len);
           (ss, err) \<leftarrow> sessionserver_session_disconnected iface ss app session_id;
           Some (ss, socks)
         }
   })"

definition dispatch_relay_disconnect ::
    "'m gzochi_metad_nodemap_iface \<Rightarrow> byte list \<Rightarrow> nat \<Rightarrow> 16 word \<Rightarrow> 'm session_state \<Rightarrow> 'm session_state option" where
  "dispatch_relay_disconnect iface m message len = (\<lambda>(ss, socks). do {
     r \<leftarrow> gzochid_protocol_read_str m message (unat len);
     case r of
       None \<Rightarrow> Some (ss, socks)
     | Some (app, str_len) \<Rightarrow>
         if str_len \<le> 1 \<or> unat len < str_len + 8 then Some (ss, socks)
         else do {
           session_id \<leftarrow> gzochi_common_io_read_long m (message + str_len);
           (socks, err) \<leftarrow> sessionserver_relay_disconnect iface ss app session_id socks;
           Some (ss, socks)
         }
   })"

definition session_dispatch_relay_message ::
    "'m gzochi_metad_nodemap_iface \<Rightarrow> byte list \<Rightarrow> nat \<Rightarrow> 16 word \<Rightarrow> 'm session_state \<Rightarrow> 'm session_state option" where
  "session_dispatch_relay_message iface m message len = (\<lambda>(ss, socks). do {
     r \<leftarrow> gzochid_protocol_read_str m message (unat len);
     case r of
       None \<Rightarrow> Some (ss, socks)
     | Some (app, str_len) \<Rightarrow>
         if str_len \<le> 1 \<or> unat len < str_len + 8 then Some (ss, socks)
         else do {
           session_id \<leftarrow> gzochi_common_io_read_long m (message + str_len);
           r \<leftarrow> gzochid_protocol_read_bytes m (message + str_len + 8) (unat len - str_len - 8);
           case r of
             None \<Rightarrow> Some (ss, socks)
           | Some msg \<Rightarrow> do {
               (socks, err) \<leftarrow> sessionserver_relay_message iface ss app session_id msg socks;
               Some (ss, socks)
             }
         }
   })"

definition sessionserver_dispatch_message ::
    "'m gzochi_metad_nodemap_iface \<Rightarrow> guint \<Rightarrow> byte list \<Rightarrow> nat \<Rightarrow> 16 word \<Rightarrow> 'm session_state \<Rightarrow> 'm session_state option" where
  "sessionserver_dispatch_message iface node_id m message len st = do {
     opcode \<leftarrow> rd m message;
     let payload = message + 1;
     let len = len - 1;
     if opcode = SESSION_CONNECTED then dispatch_session_connected iface node_id m payload len st
     else if opcode = SESSION_DISCONNECTED then dispatch_session_disconnected iface m payload len st
     else if opcode = RELAY_DISCONNECT_FROM then dispatch_relay_disconnect iface m payload len st
     else if opcode = RELAY_MESSAGE_FROM then session_dispatch_relay_message iface m payload len st
     else Some st
   }"

definition sessionserver_client_dispatch ::
    "'m gzochi_metad_nodemap_iface \<Rightarrow> guint \<Rightarrow> byte list \<Rightarrow> 'm session_state \<Rightarrow> ('m session_state \<times> nat) option" where
  "sessionserver_client_dispatch iface node_id = client_dispatch (sessionserver_dispatch_message iface node_id)"

definition sessionserver_client_error ::
    "'m gzochi_metad_nodemap_iface \<Rightarrow> guint \<Rightarrow> 'm session_state \<Rightarrow> 'm session_state" where
  "sessionserver_client_error iface node_id = (\<lambda>(ss, socks).
     (fst (sessionserver_server_disconnected iface ss node_id), socks))"

section \<open>The requests of the session protocol\<close>

datatype session_request =
    Connect_Session cstring guint64
  | Disconnect_Session cstring guint64
  | Relay_Disconnect cstring guint64
  | Relay_Message cstring guint64 "byte list"

fun decode_session_request :: "byte list \<Rightarrow> session_request option" where
  "decode_session_request [] = None"
| "decode_session_request (opcode # x) =
     Option.bind (named_oid_at x) (\<lambda>(app, session_id, x).
       if opcode = SESSION_CONNECTED then Some (Connect_Session app session_id)
       else if opcode = SESSION_DISCONNECTED then Some (Disconnect_Session app session_id)
       else if opcode = RELAY_DISCONNECT_FROM then Some (Relay_Disconnect app session_id)
       else if opcode = RELAY_MESSAGE_FROM then map_option (\<lambda>(msg, _). Relay_Message app session_id msg) (bytes_at x)
       else None)"

fun serve_session :: "'m gzochi_metad_nodemap_iface \<Rightarrow> guint \<Rightarrow> session_request \<Rightarrow> 'm session_state \<Rightarrow> 'm session_state option" where
  "serve_session iface n (Connect_Session app s) (ss, socks) =
     map_option (\<lambda>(ss, err). (ss, socks)) (sessionserver_session_connected iface ss n app s)"
| "serve_session iface n (Disconnect_Session app s) (ss, socks) =
     map_option (\<lambda>(ss, err). (ss, socks)) (sessionserver_session_disconnected iface ss app s)"
| "serve_session iface n (Relay_Disconnect app s) (ss, socks) =
     map_option (\<lambda>(socks, err). (ss, socks)) (sessionserver_relay_disconnect iface ss app s socks)"
| "serve_session iface n (Relay_Message app s msg) (ss, socks) =
     map_option (\<lambda>(socks, err). (ss, socks)) (sessionserver_relay_message iface ss app s msg socks)"

definition handle_session_request ::
    "'m gzochi_metad_nodemap_iface \<Rightarrow> guint \<Rightarrow> byte list \<Rightarrow> 'm session_state \<Rightarrow> 'm session_state option" where
  "handle_session_request iface n msg st =
     (case decode_session_request msg of None \<Rightarrow> Some st | Some req \<Rightarrow> serve_session iface n req st)"

lemma bind_fst_eq: "Option.bind q (\<lambda>(a, b). Some (f a)) = map_option (\<lambda>(a, b). f a) q"
  by (cases q) auto

lemma session_request_implements:
  assumes "p + unat len \<le> length m"
  shows "dispatch_session_connected iface n m p len st =
      handle_session_request iface n (SESSION_CONNECTED # take (unat len) (drop p m)) st"
    and "dispatch_session_disconnected iface m p len st =
      handle_session_request iface n (SESSION_DISCONNECTED # take (unat len) (drop p m)) st"
    and "dispatch_relay_disconnect iface m p len st =
      handle_session_request iface n (RELAY_DISCONNECT_FROM # take (unat len) (drop p m)) st"
    and "session_dispatch_relay_message iface m p len st =
      handle_session_request iface n (RELAY_MESSAGE_FROM # take (unat len) (drop p m)) st"
proof -
  obtain ss socks where st: "st = (ss, socks)" by (cases st)
  show "dispatch_session_connected iface n m p len st =
      handle_session_request iface n (SESSION_CONNECTED # take (unat len) (drop p m)) st"
    by (cases rule: named_oid_cases [OF assms])
      (auto simp: st dispatch_session_connected_def handle_session_request_def bind_fst_eq split: option.splits)
  show "dispatch_session_disconnected iface m p len st =
      handle_session_request iface n (SESSION_DISCONNECTED # take (unat len) (drop p m)) st"
    by (cases rule: named_oid_cases [OF assms])
      (auto simp: st dispatch_session_disconnected_def handle_session_request_def bind_fst_eq session_opcodes
        split: option.splits)
  show "dispatch_relay_disconnect iface m p len st =
      handle_session_request iface n (RELAY_DISCONNECT_FROM # take (unat len) (drop p m)) st"
    by (cases rule: named_oid_cases [OF assms])
      (auto simp: st dispatch_relay_disconnect_def handle_session_request_def bind_fst_eq session_opcodes
        split: option.splits)
  show "session_dispatch_relay_message iface m p len st =
      handle_session_request iface n (RELAY_MESSAGE_FROM # take (unat len) (drop p m)) st"
  proof (cases rule: named_oid_cases [OF assms])
    case (1 r)
    then show ?thesis
      by (auto simp: st session_dispatch_relay_message_def handle_session_request_def session_opcodes split: option.splits)
  next
    case (2 s k v)
    have "p + (k + 8) + (unat len - (k + 8)) \<le> length m" using assms 2(3) by simp
    from read_bytes_at [OF this] 2 show ?thesis
      by (auto simp: st session_dispatch_relay_message_def handle_session_request_def bind_fst_eq session_opcodes
        add.assoc split: option.splits)
  qed
qed

interpretation session_messages: message_handler "sessionserver_dispatch_message iface n" "handle_session_request iface n"
proof
  fix len :: "16 word" and p and m :: "byte list" and st :: "'a session_state"
  assume len: "0 < unat len" "p + unat len \<le> length m"
  note impl = session_request_implements [OF message_head(2) [OF len]]
  have "handle_session_request iface n (m ! p # x) st = Some st"
    if "m ! p \<notin> {SESSION_CONNECTED, SESSION_DISCONNECTED, RELAY_DISCONNECT_FROM, RELAY_MESSAGE_FROM}" for x
    using that by (auto simp: handle_session_request_def split: option.splits bind_splits)
  then show "sessionserver_dispatch_message iface n m p len st = handle_session_request iface n (take (unat len) (drop p m)) st"
    unfolding sessionserver_dispatch_message_def message_head(1,3) [OF len] Let_def bind.bind_lunit
      impl(1) impl(2-4) [where n = n] by auto
qed

section \<open>Relayed messages\<close>

definition disconnect_frame :: "cstring \<Rightarrow> guint64 \<Rightarrow> byte list" where
  "disconnect_frame app s = frame_bytes (RELAY_DISCONNECT_TO # app @ 0 # be_long s)"

definition message_frame :: "cstring \<Rightarrow> guint64 \<Rightarrow> byte list \<Rightarrow> byte list" where
  "message_frame app s msg = frame_bytes (RELAY_MESSAGE_TO # app @ 0 # be_long s @ be_short (word_of_nat (length msg)) @ msg)"

lemma session_disconnect_message_eq: "session_disconnect_message app s = Some (disconnect_frame app s)"
  using header_frame [of "length app + 12 - 3" app "be_long s" RELAY_DISCONNECT_TO]
  unfolding session_disconnect_message_def Let_def
  by (subst build_oid [where k = 0]) (simp_all add: disconnect_frame_def)

lemma session_relay_message_eq: "session_relay_message app s msg = Some (message_frame app s msg)"
  using header_frame [of "length app + length msg + 14 - 3" app "be_long s @ be_short (word_of_nat (length msg)) @ msg"
    RELAY_MESSAGE_TO]
  unfolding session_relay_message_def Let_def
  by (subst build_bytes) (simp_all add: message_frame_def)

section \<open>What the session server promises\<close>

text \<open>
  The nodes that are connected, the node every session is on, and what is sent where.
\<close>

record session_spec =
  spec_nodes :: "guint \<rightharpoonup> sock"
  spec_owner :: "qualified_key \<rightharpoonup> guint"

datatype session_input =
    Node_Connects guint sock
  | Node_Disconnects guint
  | Node_Requests guint session_request

fun session_step :: "'m gzochi_metad_nodemap_iface \<Rightarrow> session_input \<Rightarrow> 'm session_state \<Rightarrow> 'm session_state option" where
  "session_step iface (Node_Connects n sock) (ss, socks) = Some (fst (sessionserver_server_connected ss n sock), socks)"
| "session_step iface (Node_Disconnects n) st = Some (sessionserver_client_error iface n st)"
| "session_step iface (Node_Requests n req) st = serve_session iface n req st"

fun session_run :: "'m gzochi_metad_nodemap_iface \<Rightarrow> session_input list \<Rightarrow> 'm session_state \<Rightarrow> 'm session_state option" where
  "session_run iface [] st = Some st"
| "session_run iface (x # xs) st = Option.bind (session_step iface x st) (session_run iface xs)"

definition to_owner :: "session_spec \<Rightarrow> qualified_key \<Rightarrow> byte list \<Rightarrow> (sock \<times> byte list) list" where
  "to_owner a k frame = (case Option.bind (spec_owner a k) (spec_nodes a) of None \<Rightarrow> [] | Some sock \<Rightarrow> [(sock, frame)])"

fun spec_step :: "session_input \<Rightarrow> session_spec \<Rightarrow> session_spec \<times> (sock \<times> byte list) list" where
  "spec_step (Node_Connects n sock) a =
     (if spec_nodes a n = None then a\<lparr>spec_nodes := (spec_nodes a)(n \<mapsto> sock)\<rparr> else a, [])"
| "spec_step (Node_Disconnects n) a =
     (a\<lparr>spec_nodes := (spec_nodes a)(n := None),
        spec_owner := (\<lambda>k. if spec_owner a k = Some n then None else spec_owner a k)\<rparr>, [])"
| "spec_step (Node_Requests n (Connect_Session app s)) a =
     (if spec_nodes a n \<noteq> None \<and> spec_owner a (app, s) = None
      then a\<lparr>spec_owner := (spec_owner a)((app, s) \<mapsto> n)\<rparr> else a, [])"
| "spec_step (Node_Requests n (Disconnect_Session app s)) a =
     (a\<lparr>spec_owner := (spec_owner a)((app, s) := None)\<rparr>, [])"
| "spec_step (Node_Requests n (Relay_Disconnect app s)) a = (a, to_owner a (app, s) (disconnect_frame app s))"
| "spec_step (Node_Requests n (Relay_Message app s msg)) a = (a, to_owner a (app, s) (message_frame app s msg))"

fun spec_run :: "session_input list \<Rightarrow> session_spec \<Rightarrow> session_spec \<times> (sock \<times> byte list) list" where
  "spec_run [] a = (a, [])"
| "spec_run (x # xs) a = (case spec_step x a of (a, out) \<Rightarrow> case spec_run xs a of (a, out') \<Rightarrow> (a, out @ out'))"

fun sent_to :: "sock \<Rightarrow> (sock \<times> byte list) list \<Rightarrow> byte list" where
  "sent_to s [] = []"
| "sent_to s ((s', bs) # out) = (if s' = s then bs @ sent_to s out else sent_to s out)"

fun step_good :: "(guint64 \<Rightarrow> bool) \<Rightarrow> sockets \<Rightarrow> session_input \<Rightarrow> bool" where
  "step_good good socks (Node_Connects n sock) \<longleftrightarrow> socks sock \<noteq> None"
| "step_good good socks (Node_Disconnects n) \<longleftrightarrow> True"
| "step_good good socks (Node_Requests n (Connect_Session app s)) \<longleftrightarrow> good s"
| "step_good good socks (Node_Requests n req) \<longleftrightarrow> True"

lemma sent_to_append: "sent_to s (xs @ ys) = sent_to s xs @ sent_to s ys"
  by (induction s xs rule: sent_to.induct) auto

definition abs_session :: "('m \<Rightarrow> qualified_key \<rightharpoonup> guint) \<Rightarrow> 'm sessionserver \<Rightarrow> session_spec" where
  "abs_session mapping ss = \<lparr>spec_nodes = ss_connected_servers ss, spec_owner = mapping (ss_nodemap ss)\<rparr>"

context nodemap
begin

definition session_inv :: "'m session_state \<Rightarrow> bool" where
  "session_inv = (\<lambda>(ss, socks). inv (ss_nodemap ss)
     \<and> (\<forall>k n. mapping (ss_nodemap ss) k = Some n \<longrightarrow> ss_connected_servers ss n \<noteq> None)
     \<and> (\<forall>n sock. ss_connected_servers ss n = Some sock \<longrightarrow> socks sock \<noteq> None))"

definition refines :: "session_input \<Rightarrow> 'm session_state \<Rightarrow> bool" where
  "refines x st \<longleftrightarrow> (\<exists>ss' socks'. session_step iface x st = Some (ss', socks') \<and> session_inv (ss', socks')
     \<and> dom socks' = dom (snd st)
     \<and> abs_session mapping ss' = fst (spec_step x (abs_session mapping (fst st)))
     \<and> (\<forall>s. pending socks' s = pending (snd st) s @ sent_to s (snd (spec_step x (abs_session mapping (fst st))))))"

lemma connect_refines:
  assumes "session_inv (ss, socks)" and "good s"
  shows "refines (Node_Requests n (Connect_Session app s)) (ss, socks)"
proof (cases "ss_connected_servers ss n = None")
  case True
  then show ?thesis
    using assms(1) by (simp add: refines_def sessionserver_session_connected_def abs_session_def)
next
  case conn: False
  have inv: "inv (ss_nodemap ss)" using assms(1) by (simp add: session_inv_def)
  show ?thesis
  proof (cases "mapping (ss_nodemap ss) (app, s)")
    case None
    then show ?thesis
      using assms conn map_new [OF inv assms(2) None, of n]
      by (auto simp: refines_def sessionserver_session_connected_def abs_session_def session_inv_def)
  next
    case (Some n')
    then show ?thesis
      using assms conn map_again [OF inv, of app s n]
      by (auto simp: refines_def sessionserver_session_connected_def abs_session_def session_inv_def)
  qed
qed

lemma disconnect_refines:
  assumes "session_inv (ss, socks)"
  shows "refines (Node_Requests n (Disconnect_Session app s)) (ss, socks)"
proof -
  have inv: "inv (ss_nodemap ss)" using assms by (simp add: session_inv_def)
  show ?thesis
  proof (cases "mapping (ss_nodemap ss) (app, s)")
    case None
    then have "(mapping (ss_nodemap ss))((app, s) := None) = mapping (ss_nodemap ss)" by (simp add: fun_upd_idem)
    with None show ?thesis
      using assms lookup [OF inv, of app s]
      by (simp add: refines_def sessionserver_session_disconnected_def abs_session_def)
  next
    case (Some n')
    then show ?thesis
      using assms lookup [OF inv, of app s] unmap_mapped [OF inv, of app s]
      by (auto simp: refines_def sessionserver_session_disconnected_def abs_session_def session_inv_def split: if_splits)
  qed
qed

lemma relay_refines:
  assumes "session_inv (ss, socks)"
  shows "refines (Node_Requests n (Relay_Disconnect app s)) (ss, socks)"
    and "refines (Node_Requests n (Relay_Message app s msg)) (ss, socks)"
proof -
  have inv: "inv (ss_nodemap ss)" using assms by (simp add: session_inv_def)
  note l = lookup [OF inv, of app s]
  have "refines (Node_Requests n (Relay_Disconnect app s)) (ss, socks)
      \<and> refines (Node_Requests n (Relay_Message app s msg)) (ss, socks)"
  proof (cases "mapping (ss_nodemap ss) (app, s)")
    case None
    then show ?thesis
      using assms l by (simp add: refines_def sessionserver_relay_disconnect_def sessionserver_relay_message_def
        abs_session_def to_owner_def)
  next
    case (Some n')
    then obtain sock k where sock: "ss_connected_servers ss n' = Some sock" "socks sock = Some k"
      using assms unfolding session_inv_def by fastforce
    have w: "\<exists>socks'. socket_write sock bs socks = Some socks' \<and> dom socks' = dom socks \<and> session_inv (ss, socks')
        \<and> (\<forall>s. pending socks' s = pending socks s @ sent_to s [(sock, bs)])" for bs
    proof -
      obtain socks' where e: "socket_write sock bs socks = Some socks'"
        using sock(2) by (simp add: socket_write_live)
      note d = socket_write_dom [OF e]
      have "session_inv (ss, socks')" using assms d by (auto simp: session_inv_def dom_def set_eq_iff)
      with e d socket_write_pending [OF e] show ?thesis by auto
    qed
    show ?thesis
      using w [of "disconnect_frame app s"] w [of "message_frame app s msg"] l Some sock(1)
      by (auto simp: refines_def sessionserver_relay_disconnect_def sessionserver_relay_message_def abs_session_def
        to_owner_def session_disconnect_message_eq session_relay_message_eq)
  qed
  then show "refines (Node_Requests n (Relay_Disconnect app s)) (ss, socks)"
    and "refines (Node_Requests n (Relay_Message app s msg)) (ss, socks)" by blast+
qed

lemma nodes_refine:
  assumes "session_inv (ss, socks)"
  shows "socks sock \<noteq> None \<Longrightarrow> refines (Node_Connects n sock) (ss, socks)"
    and "refines (Node_Disconnects n) (ss, socks)"
proof -
  have inv: "inv (ss_nodemap ss)" using assms by (simp add: session_inv_def)
  show "socks sock \<noteq> None \<Longrightarrow> refines (Node_Connects n sock) (ss, socks)"
    using assms by (auto simp: refines_def sessionserver_server_connected_def abs_session_def session_inv_def)
  show "refines (Node_Disconnects n) (ss, socks)"
  proof (cases "ss_connected_servers ss n")
    case None
    then have "mapping (ss_nodemap ss) k \<noteq> Some n" for k
      using assms by (cases k) (fastforce simp: session_inv_def)
    with None show ?thesis
      using assms by (auto simp: refines_def sessionserver_client_error_def sessionserver_server_disconnected_def
        abs_session_def fun_upd_idem)
  next
    case (Some sock)
    then show ?thesis
      using assms unmap_node [OF inv, of n]
      by (auto simp: refines_def sessionserver_client_error_def sessionserver_server_disconnected_def abs_session_def
        session_inv_def)
  qed
qed

lemma session_step_refines:
  assumes "session_inv st" and "step_good good (snd st) x"
  shows "refines x st"
proof -
  obtain ss socks where st: "st = (ss, socks)" by (cases st)
  note i = assms(1) [unfolded st]
  show ?thesis
  proof (cases x)
    case (Node_Requests n req)
    then show ?thesis
      using connect_refines [OF i] disconnect_refines [OF i] relay_refines [OF i] assms(2)
      by (cases req) (auto simp: st)
  qed (use nodes_refine [OF i] assms(2) in \<open>auto simp: st\<close>)
qed

lemma step_good_dom: "dom socks = dom socks' \<Longrightarrow> step_good good socks x = step_good good socks' x"
  by (cases "(good, socks, x)" rule: step_good.cases) (auto simp: dom_def set_eq_iff)

lemma session_run_refines:
  assumes "session_inv st" and "\<forall>x \<in> set xs. step_good good (snd st) x"
  shows "\<exists>ss' socks'. session_run iface xs st = Some (ss', socks') \<and> session_inv (ss', socks')
     \<and> abs_session mapping ss' = fst (spec_run xs (abs_session mapping (fst st)))
     \<and> (\<forall>s. pending socks' s = pending (snd st) s @ sent_to s (snd (spec_run xs (abs_session mapping (fst st)))))"
  using assms
proof (induction xs arbitrary: st)
  case Nil
  then show ?case by (cases st) simp
next
  case (Cons x xs)
  obtain ss1 socks1 where 1: "session_step iface x st = Some (ss1, socks1)" "session_inv (ss1, socks1)"
      "dom socks1 = dom (snd st)" "abs_session mapping ss1 = fst (spec_step x (abs_session mapping (fst st)))"
      "\<forall>s. pending socks1 s = pending (snd st) s @ sent_to s (snd (spec_step x (abs_session mapping (fst st))))"
    using session_step_refines [OF Cons.prems(1), of x] Cons.prems(2) unfolding refines_def by auto
  have "\<forall>x \<in> set xs. step_good good (snd (ss1, socks1)) x"
    using Cons.prems(2) step_good_dom [OF 1(3)] by simp
  from Cons.IH [OF 1(2) this] 1(1,4,5) show ?case
    by (auto simp: case_prod_unfold sent_to_append)
qed

end

section \<open>Properties\<close>

text \<open>
  (C8) The session server. Any sequence of connections of nodes with live sockets, disconnections of
  nodes and requests of the nodes, whose sessions have ids below \<open>2\<^sup>31\<close>, is served without a fault and has the effect
  of the specification: a session is on the node that connected it first, until it or the node
  disconnects; what is relayed to a session is written, whole and in order, to the socket of
  the node it is on, and nothing else is written to any socket.
\<close>

theorem session_server_refines:
  assumes "\<forall>x \<in> set xs. step_good small_id socks x"
  shows "\<exists>ss' socks'. session_run (mem_iface pick) xs (gzochi_metad_session_server_init, socks) = Some (ss', socks')
    \<and> abs_session session_to_node ss' = fst (spec_run xs \<lparr>spec_nodes = Map.empty, spec_owner = Map.empty\<rparr>)
    \<and> (\<forall>s. pending socks' s =
        pending socks s @ sent_to s (snd (spec_run xs \<lparr>spec_nodes = Map.empty, spec_owner = Map.empty\<rparr>)))"
proof -
  have new: "abs_session session_to_node gzochi_metad_session_server_init = \<lparr>spec_nodes = Map.empty, spec_owner = Map.empty\<rparr>"
    by (simp add: abs_session_def gzochi_metad_session_server_init_def gzochi_metad_nodemap_mem_new_def)
  have "mem_map.session_inv (gzochi_metad_session_server_init, socks)"
    using nodemap_mem_inv_new
    by (simp add: mem_map.session_inv_def gzochi_metad_session_server_init_def gzochi_metad_nodemap_mem_new_def)
  from mem_map.session_run_refines [OF this, of xs pick] assms show ?thesis by (auto simp: new)
qed

definition idle_socket :: gzochid_client_socket where
  "idle_socket = \<lparr>send_buffer = [], write_source = False\<rparr>"

theorem session_server_refines_witness:
  "\<exists>ss' socks'. session_run (mem_iface (\<lambda>lo hi. 0))
      [Node_Connects 1 10, Node_Connects 2 20, Node_Requests 1 (Connect_Session [97] 5),
       Node_Requests 2 (Relay_Disconnect [97] 5), Node_Disconnects 1, Node_Requests 2 (Relay_Disconnect [97] 5)]
      (gzochi_metad_session_server_init, [10 \<mapsto> idle_socket, 20 \<mapsto> idle_socket]) = Some (ss', socks')
    \<and> pending socks' 10 = [0, 10, 0x63, 97, 0, 0, 0, 0, 0, 0, 0, 0, 5] \<and> pending socks' 20 = []"
  using session_server_refines [where pick = "\<lambda>lo hi. 0" and socks = "[10 \<mapsto> idle_socket, 20 \<mapsto> idle_socket]"
    and xs = "[Node_Connects 1 10, Node_Connects 2 20, Node_Requests 1 (Connect_Session [97] 5),
       Node_Requests 2 (Relay_Disconnect [97] 5), Node_Disconnects 1, Node_Requests 2 (Relay_Disconnect [97] 5)]"]
  by (force simp: small_id_def to_owner_def disconnect_frame_def frame_bytes_def be_short_def be_long_def
    RELAY_DISCONNECT_TO_def pending_def idle_socket_def)

end
