(* ===== verification/Channelserver.thy ===== *)
theory Channelserver
  imports Socket Util_Codec
begin

text \<open>
  The channel server of the meta server, \<open>gzochi-server/src/channelserver.c\<close>, and the server side
  of the channel protocol, \<open>channelserver-protocol.c\<close>: what one node does to a channel is told to
  all the other nodes.

  The table of connected nodes is a list in the order in which the hash table is traversed. The
  order has no effect as long as every node has its own socket.
\<close>

section \<open>channelserver.c\<close>

datatype channelserver_error = Cs_Already_Connected | Cs_Not_Connected

type_synonym channelserver = "(guint \<times> sock) list"

definition RELAY_JOIN_TO :: byte where "RELAY_JOIN_TO = 0x71"
definition RELAY_LEAVE_TO :: byte where "RELAY_LEAVE_TO = 0x73"
definition CHANNEL_RELAY_MESSAGE_TO :: byte where "CHANNEL_RELAY_MESSAGE_TO = 0x75"
definition RELAY_CLOSE_TO :: byte where "RELAY_CLOSE_TO = 0x77"

definition channelserver_server_connected ::
    "channelserver \<Rightarrow> guint \<Rightarrow> sock \<Rightarrow> channelserver \<times> channelserver_error option" where
  "channelserver_server_connected cs node_id sock =
     (if map_of cs node_id \<noteq> None then (cs, Some Cs_Already_Connected) else (cs @ [(node_id, sock)], None))"

definition channelserver_server_disconnected ::
    "channelserver \<Rightarrow> guint \<Rightarrow> channelserver \<times> channelserver_error option" where
  "channelserver_server_disconnected cs node_id =
     (if map_of cs node_id \<noteq> None then (filter (\<lambda>(n, s). n \<noteq> node_id) cs, None) else (cs, Some Cs_Not_Connected))"

definition relay_message :: "guint \<Rightarrow> byte list \<Rightarrow> guint \<times> sock \<Rightarrow> sockets \<Rightarrow> sockets option" where
  "relay_message from_node_id data = (\<lambda>(to_node_id, sock) socks.
     if to_node_id \<noteq> from_node_id then socket_write sock data socks else Some socks)"

fun relay_to_all :: "guint \<Rightarrow> byte list \<Rightarrow> channelserver \<Rightarrow> sockets \<Rightarrow> sockets option" where
  "relay_to_all from_node_id data [] socks = Some socks"
| "relay_to_all from_node_id data (x # cs) socks =
     Option.bind (relay_message from_node_id data x socks) (relay_to_all from_node_id data cs)"

definition channelserver_relay_join ::
    "bool \<Rightarrow> channelserver \<Rightarrow> guint \<Rightarrow> cstring \<Rightarrow> guint64 \<Rightarrow> guint64 \<Rightarrow> sockets \<Rightarrow> sockets option" where
  "channelserver_relay_join be cs from_node_id app channel_oid session_oid socks = do {
     let msg = g_byte_array_append [] [0, 0];
     let msg = g_byte_array_append msg [RELAY_JOIN_TO];
     let msg = g_byte_array_append msg (app @ [0]);
     let msg = g_byte_array_append msg (host_bytes be (gzochid_util_encode_oid be channel_oid));
     let msg = g_byte_array_append msg (host_bytes be (gzochid_util_encode_oid be session_oid));
     msg \<leftarrow> gzochi_common_io_write_short (word_of_nat (length msg - 3)) msg 0;
     relay_to_all from_node_id msg cs socks
   }"

definition channelserver_relay_leave ::
    "bool \<Rightarrow> channelserver \<Rightarrow> guint \<Rightarrow> cstring \<Rightarrow> guint64 \<Rightarrow> guint64 \<Rightarrow> sockets \<Rightarrow> sockets option" where
  "channelserver_relay_leave be cs from_node_id app channel_oid session_oid socks = do {
     let msg = g_byte_array_append [] [0, 0];
     let msg = g_byte_array_append msg [RELAY_LEAVE_TO];
     let msg = g_byte_array_append msg (app @ [0]);
     let msg = g_byte_array_append msg (host_bytes be (gzochid_util_encode_oid be channel_oid));
     let msg = g_byte_array_append msg (host_bytes be (gzochid_util_encode_oid be session_oid));
     msg \<leftarrow> gzochi_common_io_write_short (word_of_nat (length msg - 3)) msg 0;
     relay_to_all from_node_id msg cs socks
   }"

definition channelserver_relay_close ::
    "bool \<Rightarrow> channelserver \<Rightarrow> guint \<Rightarrow> cstring \<Rightarrow> guint64 \<Rightarrow> sockets \<Rightarrow> sockets option" where
  "channelserver_relay_close be cs from_node_id app channel_oid socks = do {
     let msg = g_byte_array_append [] [0, 0];
     let msg = g_byte_array_append msg [RELAY_CLOSE_TO];
     let msg = g_byte_array_append msg (app @ [0]);
     let msg = g_byte_array_append msg (host_bytes be (gzochid_util_encode_oid be channel_oid));
     msg \<leftarrow> gzochi_common_io_write_short (word_of_nat (length msg - 3)) msg 0;
     relay_to_all from_node_id msg cs socks
   }"

definition channelserver_relay_message ::
    "bool \<Rightarrow> channelserver \<Rightarrow> guint \<Rightarrow> cstring \<Rightarrow> guint64 \<Rightarrow> byte list \<Rightarrow> sockets \<Rightarrow> sockets option" where
  "channelserver_relay_message be cs from_node_id app channel_oid payload socks = do {
     let msg = g_byte_array_append [] [0, 0];
     let msg = g_byte_array_append msg [CHANNEL_RELAY_MESSAGE_TO];
     let msg = g_byte_array_append msg (app @ [0]);
     let msg = g_byte_array_append msg (host_bytes be (gzochid_util_encode_oid be channel_oid));
     let msg = g_byte_array_append msg [0, 0];
     msg \<leftarrow> gzochi_common_io_write_short (word_of_nat (length payload)) msg (length msg - 2);
     let msg = g_byte_array_append msg payload;
     msg \<leftarrow> gzochi_common_io_write_short (word_of_nat (length msg - 3)) msg 0;
     relay_to_all from_node_id msg cs socks
   }"

section \<open>channelserver-protocol.c\<close>

definition RELAY_JOIN_FROM :: byte where "RELAY_JOIN_FROM = 0x70"
definition RELAY_LEAVE_FROM :: byte where "RELAY_LEAVE_FROM = 0x72"
definition CHANNEL_RELAY_MESSAGE_FROM :: byte where "CHANNEL_RELAY_MESSAGE_FROM = 0x74"
definition RELAY_CLOSE_FROM :: byte where "RELAY_CLOSE_FROM = 0x76"

lemmas channel_opcodes = RELAY_JOIN_FROM_def RELAY_LEAVE_FROM_def CHANNEL_RELAY_MESSAGE_FROM_def RELAY_CLOSE_FROM_def
  RELAY_JOIN_TO_def RELAY_LEAVE_TO_def CHANNEL_RELAY_MESSAGE_TO_def RELAY_CLOSE_TO_def

type_synonym channel_state = "channelserver \<times> sockets"

definition dispatch_relay_join ::
    "bool \<Rightarrow> guint \<Rightarrow> byte list \<Rightarrow> nat \<Rightarrow> 16 word \<Rightarrow> channel_state \<Rightarrow> channel_state option" where
  "dispatch_relay_join be node_id m message len = (\<lambda>(cs, socks). do {
     r \<leftarrow> gzochid_protocol_read_str m message (unat len);
     case r of
       None \<Rightarrow> Some (cs, socks)
     | Some (app, str_len) \<Rightarrow>
         if str_len \<le> 1 \<or> unat len < str_len + 16 then Some (cs, socks)
         else do {
           channel_oid \<leftarrow> gzochi_common_io_read_long m (message + str_len);
           session_oid \<leftarrow> gzochi_common_io_read_long m (message + str_len + 8);
           socks \<leftarrow> channelserver_relay_join be cs node_id app channel_oid session_oid socks;
           Some (cs, socks)
         }
   })"

definition dispatch_relay_leave ::
    "bool \<Rightarrow> guint \<Rightarrow> byte list \<Rightarrow> nat \<Rightarrow> 16 word \<Rightarrow> channel_state \<Rightarrow> channel_state option" where
  "dispatch_relay_leave be node_id m message len = (\<lambda>(cs, socks). do {
     r \<leftarrow> gzochid_protocol_read_str m message (unat len);
     case r of
       None \<Rightarrow> Some (cs, socks)
     | Some (app, str_len) \<Rightarrow>
         if str_len \<le> 1 \<or> unat len < str_len + 16 then Some (cs, socks)
         else do {
           channel_oid \<leftarrow> gzochi_common_io_read_long m (message + str_len);
           session_oid \<leftarrow> gzochi_common_io_read_long m (message + str_len + 8);
           socks \<leftarrow> channelserver_relay_leave be cs node_id app channel_oid session_oid socks;
           Some (cs, socks)
         }
   })"

definition dispatch_relay_close ::
    "bool \<Rightarrow> guint \<Rightarrow> byte list \<Rightarrow> nat \<Rightarrow> 16 word \<Rightarrow> channel_state \<Rightarrow> channel_state option" where
  "dispatch_relay_close be node_id m message len = (\<lambda>(cs, socks). do {
     r \<leftarrow> gzochid_protocol_read_str m message (unat len);
     case r of
       None \<Rightarrow> Some (cs, socks)
     | Some (app, str_len) \<Rightarrow>
         if str_len \<le> 1 \<or> unat len < str_len + 8 then Some (cs, socks)
         else do {
           channel_oid \<leftarrow> gzochi_common_io_read_long m (message + str_len);
           socks \<leftarrow> channelserver_relay_close be cs node_id app channel_oid socks;
           Some (cs, socks)
         }
   })"

definition channel_dispatch_relay_message ::
    "bool \<Rightarrow> guint \<Rightarrow> byte list \<Rightarrow> nat \<Rightarrow> 16 word \<Rightarrow> channel_state \<Rightarrow> channel_state option" where
  "channel_dispatch_relay_message be node_id m message len = (\<lambda>(cs, socks). do {
     r \<leftarrow> gzochid_protocol_read_str m message (unat len);
     case r of
       None \<Rightarrow> Some (cs, socks)
     | Some (app, str_len) \<Rightarrow>
         if str_len \<le> 1 \<or> unat len < str_len + 8 then Some (cs, socks)
         else do {
           channel_oid \<leftarrow> gzochi_common_io_read_long m (message + str_len);
           r \<leftarrow> gzochid_protocol_read_bytes m (message + str_len + 8) (unat len - str_len - 8);
           case r of
             None \<Rightarrow> Some (cs, socks)
           | Some msg \<Rightarrow> do {
               socks \<leftarrow> channelserver_relay_message be cs node_id app channel_oid msg socks;
               Some (cs, socks)
             }
         }
   })"

definition channelserver_dispatch_message ::
    "bool \<Rightarrow> guint \<Rightarrow> byte list \<Rightarrow> nat \<Rightarrow> 16 word \<Rightarrow> channel_state \<Rightarrow> channel_state option" where
  "channelserver_dispatch_message be node_id m message len st = do {
     opcode \<leftarrow> rd m message;
     let payload = message + 1;
     let len = len - 1;
     if opcode = RELAY_JOIN_FROM then dispatch_relay_join be node_id m payload len st
     else if opcode = RELAY_LEAVE_FROM then dispatch_relay_leave be node_id m payload len st
     else if opcode = RELAY_CLOSE_FROM then dispatch_relay_close be node_id m payload len st
     else if opcode = CHANNEL_RELAY_MESSAGE_FROM then channel_dispatch_relay_message be node_id m payload len st
     else Some st
   }"

definition channelserver_client_dispatch ::
    "bool \<Rightarrow> guint \<Rightarrow> byte list \<Rightarrow> channel_state \<Rightarrow> (channel_state \<times> nat) option" where
  "channelserver_client_dispatch be node_id = client_dispatch (channelserver_dispatch_message be node_id)"

definition channelserver_client_error :: "guint \<Rightarrow> channel_state \<Rightarrow> channel_state" where
  "channelserver_client_error node_id = (\<lambda>(cs, socks). (fst (channelserver_server_disconnected cs node_id), socks))"

section \<open>The requests of the channel protocol\<close>

datatype channel_request =
    Join_Channel cstring guint64 guint64
  | Leave_Channel cstring guint64 guint64
  | Close_Channel cstring guint64
  | Message_Channel cstring guint64 "byte list"

fun decode_channel_request :: "byte list \<Rightarrow> channel_request option" where
  "decode_channel_request [] = None"
| "decode_channel_request (opcode # x) =
     Option.bind (named_oid_at x) (\<lambda>(app, channel_oid, x).
       if opcode = RELAY_JOIN_FROM then map_option (\<lambda>(s, _). Join_Channel app channel_oid s) (long_at x)
       else if opcode = RELAY_LEAVE_FROM then map_option (\<lambda>(s, _). Leave_Channel app channel_oid s) (long_at x)
       else if opcode = RELAY_CLOSE_FROM then Some (Close_Channel app channel_oid)
       else if opcode = CHANNEL_RELAY_MESSAGE_FROM then map_option (\<lambda>(msg, _). Message_Channel app channel_oid msg) (bytes_at x)
       else None)"

fun relay_frame :: "channel_request \<Rightarrow> byte list" where
  "relay_frame (Join_Channel app c s) = frame_bytes (RELAY_JOIN_TO # app @ 0 # be_long c @ be_long s)"
| "relay_frame (Leave_Channel app c s) = frame_bytes (RELAY_LEAVE_TO # app @ 0 # be_long c @ be_long s)"
| "relay_frame (Close_Channel app c) = frame_bytes (RELAY_CLOSE_TO # app @ 0 # be_long c)"
| "relay_frame (Message_Channel app c msg) =
     frame_bytes (CHANNEL_RELAY_MESSAGE_TO # app @ 0 # be_long c @ be_short (word_of_nat (length msg)) @ msg)"

definition serve_channel :: "guint \<Rightarrow> channel_request \<Rightarrow> channel_state \<Rightarrow> channel_state option" where
  "serve_channel n req = (\<lambda>(cs, socks). map_option (Pair cs) (relay_to_all n (relay_frame req) cs socks))"

definition handle_channel_request :: "guint \<Rightarrow> byte list \<Rightarrow> channel_state \<Rightarrow> channel_state option" where
  "handle_channel_request n msg st =
     (case decode_channel_request msg of None \<Rightarrow> Some st | Some req \<Rightarrow> serve_channel n req st)"

lemma host_bytes_encode_oid: "host_bytes be (gzochid_util_encode_oid be oid) = be_long oid"
  by (simp add: host_bytes_def gzochid_util_encode_oid_def be_long_bswap64)

lemma relays_eq:
  shows "channelserver_relay_join be cs n app c s socks = relay_to_all n (relay_frame (Join_Channel app c s)) cs socks"
    and "channelserver_relay_leave be cs n app c s socks = relay_to_all n (relay_frame (Leave_Channel app c s)) cs socks"
    and "channelserver_relay_close be cs n app c socks = relay_to_all n (relay_frame (Close_Channel app c)) cs socks"
  by (simp_all add: channelserver_relay_join_def channelserver_relay_leave_def channelserver_relay_close_def
    host_bytes_encode_oid g_byte_array_append_def write_short_front frame_bytes_Cons ac_simps)

lemma relay_message_eq:
  "channelserver_relay_message be cs n app c msg socks = relay_to_all n (relay_frame (Message_Channel app c msg)) cs socks"
proof -
  let ?h = "[0, 0, CHANNEL_RELAY_MESSAGE_TO] @ app @ 0 # be_long c"
  have "gzochi_common_io_write_short (word_of_nat (length msg)) (?h @ [0, 0] @ []) (length ?h) =
      Some (?h @ be_short (word_of_nat (length msg)) @ [])"
    by (rule write_short_at_end) simp
  then show ?thesis
    by (simp add: channelserver_relay_message_def host_bytes_encode_oid g_byte_array_append_def write_short_front
      frame_bytes_Cons ac_simps)
qed

lemma two_oids_cases:
  fixes len :: "16 word"
  assumes "p + unat len \<le> length m"
  obtains (bad) r where "gzochid_protocol_read_str m p (unat len) = Some r"
      and "case r of None \<Rightarrow> True | Some (s, k) \<Rightarrow> k \<le> 1 \<or> unat len < k + 16"
      and "Option.bind (named_oid_at (take (unat len) (drop p m))) (\<lambda>(app, v, x).
        map_option (\<lambda>(w, _). (app, v, w)) (long_at x)) = None"
  | (ok) s k v w where "gzochid_protocol_read_str m p (unat len) = Some (Some (s, k))" and "1 < k" and "k + 16 \<le> unat len"
      and "gzochi_common_io_read_long m (p + k) = Some v" and "gzochi_common_io_read_long m (p + k + 8) = Some w"
      and "Option.bind (named_oid_at (take (unat len) (drop p m))) (\<lambda>(app, v, x).
        map_option (\<lambda>(w, _). (app, v, w)) (long_at x)) = Some (s, v, w)"
proof (cases rule: named_oid_cases [OF assms])
  case (1 r)
  then show ?thesis by (intro bad) (auto split: option.splits)
next
  case (2 s k v)
  have l: "long_at (take (unat len - (k + 8)) (drop (p + (k + 8)) m)) =
      (if unat len - (k + 8) < 8 then None
       else map_option (\<lambda>v. (v, take (unat len - (k + 8) - 8) (drop (p + (k + 8) + 8) m)))
         (gzochi_common_io_read_long m (p + (k + 8))))"
    by (rule long_at_slice) (use assms 2(3) in simp)
  show ?thesis
  proof (cases "unat len < k + 16")
    case True
    then have "long_at (take (unat len - (k + 8)) (drop (p + (k + 8)) m)) = None" using l by auto
    then show ?thesis using 2 True bad by simp
  next
    case False
    then obtain w where w: "gzochi_common_io_read_long m (p + (k + 8)) = Some w"
      using read_long_defined [of "p + (k + 8)" m] assms by auto
    have "\<not> unat len - (k + 8) < 8" using False by auto
    then show ?thesis using ok [of s k v w] 2 False w l by (simp add: add.assoc)
  qed
qed

lemma bind_Pair_eq: "Option.bind q (\<lambda>b. Some (a, b)) = map_option (Pair a) q"
  by (cases q) auto

lemma membership_implements:
  assumes "p + unat len \<le> length m"
  shows "dispatch_relay_join be n m p len st = handle_channel_request n (RELAY_JOIN_FROM # take (unat len) (drop p m)) st"
    and "dispatch_relay_leave be n m p len st = handle_channel_request n (RELAY_LEAVE_FROM # take (unat len) (drop p m)) st"
proof -
  obtain cs socks where st: "st = (cs, socks)" by (cases st)
  let ?x = "take (unat len) (drop p m)"
  let ?oids = "Option.bind (named_oid_at ?x) (\<lambda>(app, v, x). map_option (\<lambda>(w, _). (app, v, w)) (long_at x))"
  have j: "decode_channel_request (RELAY_JOIN_FROM # ?x) = map_option (\<lambda>(app, v, w). Join_Channel app v w) ?oids"
    and l: "decode_channel_request (RELAY_LEAVE_FROM # ?x) = map_option (\<lambda>(app, v, w). Leave_Channel app v w) ?oids"
    by (cases "named_oid_at ?x"; auto simp: channel_opcodes option.map_comp comp_def split_def)+
  have "dispatch_relay_join be n m p len st = handle_channel_request n (RELAY_JOIN_FROM # ?x) st
      \<and> dispatch_relay_leave be n m p len st = handle_channel_request n (RELAY_LEAVE_FROM # ?x) st"
  proof (cases rule: two_oids_cases [OF assms])
    case (1 r)
    then show ?thesis
      unfolding handle_channel_request_def j l
      by (auto simp: st dispatch_relay_join_def dispatch_relay_leave_def split: option.splits)
  next
    case (2 s k v w)
    then show ?thesis
      unfolding handle_channel_request_def j l
      by (simp add: st dispatch_relay_join_def dispatch_relay_leave_def relays_eq serve_channel_def bind_Pair_eq)
  qed
  then show "dispatch_relay_join be n m p len st = handle_channel_request n (RELAY_JOIN_FROM # ?x) st"
    and "dispatch_relay_leave be n m p len st = handle_channel_request n (RELAY_LEAVE_FROM # ?x) st" by blast+
qed

lemma close_message_implements:
  assumes "p + unat len \<le> length m"
  shows "dispatch_relay_close be n m p len st = handle_channel_request n (RELAY_CLOSE_FROM # take (unat len) (drop p m)) st"
    and "channel_dispatch_relay_message be n m p len st =
      handle_channel_request n (CHANNEL_RELAY_MESSAGE_FROM # take (unat len) (drop p m)) st"
proof -
  obtain cs socks where st: "st = (cs, socks)" by (cases st)
  show "dispatch_relay_close be n m p len st = handle_channel_request n (RELAY_CLOSE_FROM # take (unat len) (drop p m)) st"
    by (cases rule: named_oid_cases [OF assms])
      (auto simp: st dispatch_relay_close_def handle_channel_request_def relays_eq serve_channel_def bind_Pair_eq
        channel_opcodes split: option.splits)
  show "channel_dispatch_relay_message be n m p len st =
      handle_channel_request n (CHANNEL_RELAY_MESSAGE_FROM # take (unat len) (drop p m)) st"
  proof (cases rule: named_oid_cases [OF assms])
    case (1 r)
    then show ?thesis
      by (auto simp: st channel_dispatch_relay_message_def handle_channel_request_def channel_opcodes split: option.splits)
  next
    case (2 s k v)
    have "p + (k + 8) + (unat len - (k + 8)) \<le> length m" using assms 2(3) by simp
    from read_bytes_at [OF this] 2 show ?thesis
      by (auto simp: st channel_dispatch_relay_message_def handle_channel_request_def relay_message_eq serve_channel_def
        bind_Pair_eq channel_opcodes add.assoc split: option.splits)
  qed
qed

interpretation channel_messages: message_handler "channelserver_dispatch_message be n" "handle_channel_request n"
proof
  fix len :: "16 word" and p and m :: "byte list" and st
  assume len: "0 < unat len" "p + unat len \<le> length m"
  note impl = membership_implements [OF message_head(2) [OF len]] close_message_implements [OF message_head(2) [OF len]]
  have "handle_channel_request n (m ! p # x) st = Some st"
    if "m ! p \<notin> {RELAY_JOIN_FROM, RELAY_LEAVE_FROM, RELAY_CLOSE_FROM, CHANNEL_RELAY_MESSAGE_FROM}" for x
    using that by (auto simp: handle_channel_request_def split: option.splits bind_splits)
  then show "channelserver_dispatch_message be n m p len st = handle_channel_request n (take (unat len) (drop p m)) st"
    unfolding channelserver_dispatch_message_def message_head(1,3) [OF len] Let_def bind.bind_lunit impl by auto
qed

section \<open>What the channel server promises\<close>

datatype channel_input =
    Channel_Node_Connects guint sock
  | Channel_Node_Disconnects guint
  | Channel_Node_Requests guint channel_request

text \<open>The functions of the channel server that the requests are calls of.\<close>

fun relay_request :: "bool \<Rightarrow> guint \<Rightarrow> channel_request \<Rightarrow> channelserver \<Rightarrow> sockets \<Rightarrow> sockets option" where
  "relay_request be n (Join_Channel app c s) cs socks = channelserver_relay_join be cs n app c s socks"
| "relay_request be n (Leave_Channel app c s) cs socks = channelserver_relay_leave be cs n app c s socks"
| "relay_request be n (Close_Channel app c) cs socks = channelserver_relay_close be cs n app c socks"
| "relay_request be n (Message_Channel app c msg) cs socks = channelserver_relay_message be cs n app c msg socks"

lemma relay_request_eq: "relay_request be n req cs socks = relay_to_all n (relay_frame req) cs socks"
  by (cases req) (simp_all add: relays_eq relay_message_eq del: relay_frame.simps)

fun channel_step :: "bool \<Rightarrow> channel_input \<Rightarrow> channel_state \<Rightarrow> channel_state option" where
  "channel_step be (Channel_Node_Connects n sock) (cs, socks) = Some (fst (channelserver_server_connected cs n sock), socks)"
| "channel_step be (Channel_Node_Disconnects n) st = Some (channelserver_client_error n st)"
| "channel_step be (Channel_Node_Requests n req) (cs, socks) = map_option (Pair cs) (relay_request be n req cs socks)"

fun channel_run :: "bool \<Rightarrow> channel_input list \<Rightarrow> channel_state \<Rightarrow> channel_state option" where
  "channel_run be [] st = Some st"
| "channel_run be (x # xs) st = Option.bind (channel_step be x st) (channel_run be xs)"

text \<open>The nodes that are connected after a step, and what node \<open>n\<close>, whose socket is \<open>s\<close>, hears of a history.\<close>

fun nodes_after :: "channel_input \<Rightarrow> (guint \<rightharpoonup> sock) \<Rightarrow> guint \<rightharpoonup> sock" where
  "nodes_after (Channel_Node_Connects n s) nodes = (if nodes n = None then nodes(n \<mapsto> s) else nodes)"
| "nodes_after (Channel_Node_Disconnects n) nodes = nodes(n := None)"
| "nodes_after (Channel_Node_Requests n req) nodes = nodes"

fun heard :: "guint \<Rightarrow> sock \<Rightarrow> channel_input list \<Rightarrow> (guint \<rightharpoonup> sock) \<Rightarrow> byte list" where
  "heard n s [] nodes = []"
| "heard n s (x # xs) nodes =
     (case x of
        Channel_Node_Requests n' req \<Rightarrow> if nodes n = Some s \<and> n' \<noteq> n then relay_frame req else []
      | _ \<Rightarrow> []) @ heard n s xs (nodes_after x nodes)"

text \<open>Every socket belongs to one node.\<close>

fun channel_good :: "(sock \<Rightarrow> guint) \<Rightarrow> sockets \<Rightarrow> channel_input \<Rightarrow> bool" where
  "channel_good node_of socks (Channel_Node_Connects n s) \<longleftrightarrow> node_of s = n \<and> socks s \<noteq> None"
| "channel_good node_of socks x \<longleftrightarrow> True"

definition channel_inv :: "(sock \<Rightarrow> guint) \<Rightarrow> channel_state \<Rightarrow> bool" where
  "channel_inv node_of = (\<lambda>(cs, socks). distinct (map fst cs) \<and> (\<forall>(n, s) \<in> set cs. node_of s = n \<and> socks s \<noteq> None))"

lemma relay_to_all_live:
  assumes "distinct (map fst cs)" and "\<forall>(n, s) \<in> set cs. node_of s = n \<and> socks s \<noteq> None"
  shows "\<exists>socks'. relay_to_all n data cs socks = Some socks' \<and> dom socks' = dom socks
    \<and> (\<forall>s. pending socks' s = pending socks s @ (if map_of cs (node_of s) = Some s \<and> node_of s \<noteq> n then data else []))"
  using assms
proof (induction cs arbitrary: socks)
  case (Cons x cs)
  obtain n' s' where x: "x = (n', s')" by (cases x)
  have s': "node_of s' = n'" "socks s' \<noteq> None" using Cons.prems(2) x by auto
  then obtain socks1 where 1: "relay_message n data x socks = Some socks1" "dom socks1 = dom socks"
      "\<forall>s. pending socks1 s = pending socks s @ (if s = s' \<and> n' \<noteq> n then data else [])"
    using socket_write_live [of socks s' _ data] socket_write_dom [of s' data socks] socket_write_pending [of s' data socks]
    by (cases "n' = n") (auto simp: relay_message_def x)
  have "\<forall>(n, s) \<in> set cs. node_of s = n \<and> socks1 s \<noteq> None"
    using Cons.prems(2) 1(2) by (auto simp: dom_def set_eq_iff)
  then obtain socks2 where 2: "relay_to_all n data cs socks1 = Some socks2" "dom socks2 = dom socks1"
      "\<forall>s. pending socks2 s = pending socks1 s @ (if map_of cs (node_of s) = Some s \<and> node_of s \<noteq> n then data else [])"
    using Cons.IH [of socks1] Cons.prems(1) by auto
  have "map_of cs n' = None" using Cons.prems(1) by (simp add: x map_of_eq_None_iff)
  then have "pending socks2 s = pending socks s @
      (if map_of (x # cs) (node_of s) = Some s \<and> node_of s \<noteq> n then data else [])" for s
    using 1(3) 2(3) s'(1) by (auto simp: x)
  then show ?case using 1(1,2) 2(1,2) by auto
qed simp

lemma map_of_filter_other: "map_of (filter (\<lambda>(n, s). n \<noteq> k) cs) = (map_of cs)(k := None)"
  by (induction cs) (auto simp: fun_eq_iff)

lemma channel_step_refines:
  assumes "channel_inv node_of st" and "channel_good node_of (snd st) x"
  shows "\<exists>cs' socks'. channel_step be x st = Some (cs', socks') \<and> channel_inv node_of (cs', socks')
    \<and> dom socks' = dom (snd st) \<and> map_of cs' = nodes_after x (map_of (fst st))
    \<and> (\<forall>s. pending socks' s = pending (snd st) s @ heard (node_of s) s [x] (map_of (fst st)))"
proof -
  obtain cs socks where st: "st = (cs, socks)" by (cases st)
  have inv: "distinct (map fst cs)" "\<forall>(n, s) \<in> set cs. node_of s = n \<and> socks s \<noteq> None"
    using assms(1) by (auto simp: channel_inv_def st)
  show ?thesis
  proof (cases x)
    case (Channel_Node_Connects n s)
    have "map_of cs n = None \<Longrightarrow> map_of (cs @ [(n, s)]) = (map_of cs)(n \<mapsto> s)"
      by (auto simp: map_add_def fun_eq_iff split: option.splits)
    then show ?thesis
      using inv assms(2) Channel_Node_Connects
      by (cases "map_of cs n") (auto simp: st channel_inv_def channelserver_server_connected_def map_of_eq_None_iff)
  next
    case (Channel_Node_Disconnects n)
    have "distinct (map fst (filter (\<lambda>(n', s). n' \<noteq> n) cs))" using inv(1) by (rule distinct_map_filter)
    moreover have "map_of cs n = None \<Longrightarrow> map_of cs = (map_of cs)(n := None)" by (simp add: fun_upd_idem)
    ultimately show ?thesis
      using Channel_Node_Disconnects inv
      by (cases "map_of cs n") (auto simp: st channel_inv_def channelserver_client_error_def
        channelserver_server_disconnected_def map_of_filter_other simp del: map_of_eq_None_iff)
  next
    case (Channel_Node_Requests n req)
    obtain socks' where "relay_to_all n (relay_frame req) cs socks = Some socks'" "dom socks' = dom socks"
        "\<forall>s. pending socks' s = pending socks s @
          (if map_of cs (node_of s) = Some s \<and> node_of s \<noteq> n then relay_frame req else [])"
      using relay_to_all_live [OF inv, of n "relay_frame req"] by blast
    moreover have "\<forall>(n, s) \<in> set cs. node_of s = n \<and> socks' s \<noteq> None"
      using inv(2) calculation(2) by (auto simp: dom_def set_eq_iff)
    ultimately show ?thesis
      using Channel_Node_Requests inv(1) by (auto simp: st channel_inv_def relay_request_eq)
  qed
qed

lemma channel_good_dom: "dom socks = dom socks' \<Longrightarrow> channel_good node_of socks x = channel_good node_of socks' x"
  by (cases x) (auto simp: dom_def set_eq_iff)

lemma channel_run_refines:
  assumes "channel_inv node_of st" and "\<forall>x \<in> set xs. channel_good node_of (snd st) x"
  shows "\<exists>cs' socks'. channel_run be xs st = Some (cs', socks')
    \<and> (\<forall>s. pending socks' s = pending (snd st) s @ heard (node_of s) s xs (map_of (fst st)))"
  using assms
proof (induction xs arbitrary: st)
  case Nil
  then show ?case by (cases st) simp
next
  case (Cons x xs)
  obtain cs1 socks1 where 1: "channel_step be x st = Some (cs1, socks1)" "channel_inv node_of (cs1, socks1)"
      "dom socks1 = dom (snd st)" "map_of cs1 = nodes_after x (map_of (fst st))"
      "\<forall>s. pending socks1 s = pending (snd st) s @ heard (node_of s) s [x] (map_of (fst st))"
    using channel_step_refines [OF Cons.prems(1), where be = be and x = x] Cons.prems(2) by auto
  have "\<forall>x \<in> set xs. channel_good node_of (snd (cs1, socks1)) x"
    using Cons.prems(2) channel_good_dom [OF 1(3)] by simp
  from Cons.IH [OF 1(2) this] 1 show ?case by auto
qed

section \<open>Properties\<close>

text \<open>
  (C23) The channel server. Any sequence of connections and disconnections of nodes and of calls of the functions that
  relay the requests of the nodes returns without a fault, if every node has an open socket of its own; to the
  socket of every connected node is written, in the order of the requests, exactly the message for each request (the
  opcode, the application and the object ids in this order, as the channel protocol has them) that another node made
  while it was connected.
\<close>

theorem channel_relays_correct:
  assumes "\<forall>x \<in> set xs. channel_good node_of socks x"
  shows "\<exists>cs' socks'. channel_run be xs ([], socks) = Some (cs', socks')
    \<and> (\<forall>s. pending socks' s = pending socks s @ heard (node_of s) s xs Map.empty)"
proof -
  have "channel_inv node_of ([], socks)" by (simp add: channel_inv_def)
  from channel_run_refines [OF this] assms show ?thesis by auto
qed

theorem channel_relays_correct_witness:
  "\<exists>cs' socks'. channel_run False [Channel_Node_Connects 1 10, Channel_Node_Connects 2 20,
        Channel_Node_Requests 1 (Close_Channel [97] 5), Channel_Node_Disconnects 2, Channel_Node_Requests 1 (Close_Channel [97] 6)]
      ([], \<lambda>s. Some \<lparr>send_buffer = [], write_source = False\<rparr>) = Some (cs', socks')
    \<and> pending socks' 10 = [] \<and> pending socks' 20 = [0, 10, 0x77, 97, 0, 0, 0, 0, 0, 0, 0, 0, 5]"
  using channel_relays_correct [where be = False and node_of = "\<lambda>s. if s = 10 then 1 else 2"
    and socks = "\<lambda>s. Some \<lparr>send_buffer = [], write_source = False\<rparr>"
    and xs = "[Channel_Node_Connects 1 10, Channel_Node_Connects 2 20, Channel_Node_Requests 1 (Close_Channel [97] 5),
      Channel_Node_Disconnects 2, Channel_Node_Requests 1 (Close_Channel [97] 6)]"]
  by (force simp: frame_bytes_def be_short_def be_long_def RELAY_CLOSE_TO_def pending_def)

end
