(* ===== verification/Metaserver.thy ===== *)
theory Metaserver
  imports Dataserver_Requests Sessionserver Channelserver
begin

text \<open>
  The meta server as a whole: \<open>gzochi-server/src/metaserver-protocol.c\<close> accepts application
  servers, gives them node ids, logs them in and hands their messages to the data, session and
  channel servers, which share the sockets of the nodes. Together with the callbacks of \<open>Socket\<close>
  this is a state machine whose inputs are the bytes that arrive from any number of nodes.
\<close>

section \<open>State\<close>

record metaserver_client =
  mc_node_id :: guint
  mc_sock :: sock
  mc_desc :: cstring

datatype client_event =
    Client_Connected guint cstring "cstring option"
  | Client_Disconnected guint

record ('e, 's, 'm) metaserver =
  ms_data :: "('e, 's) dataserver"
  ms_time :: nat
  ms_sessions :: "'m sessionserver"
  ms_channels :: channelserver
  ms_socks :: sockets
  ms_recv :: "sock \<Rightarrow> byte list"
  ms_clients :: "sock \<rightharpoonup> metaserver_client"
  ms_next_node_id :: guint
  ms_events :: "client_event list"

record ('e, 'x, 's, 'm) metaserver_env =
  me_data :: "('e, 'x, 's) dataserver_env"
  me_nodemap :: "'m gzochi_metad_nodemap_iface"
  me_admin_server_base_url :: cstring

section \<open>metaserver-protocol.c\<close>

definition LOGIN :: byte where "LOGIN = 0x10"
definition LOGIN_RESPONSE :: byte where "LOGIN_RESPONSE = 0x11"
definition METASERVER_PROTOCOL_VERSION :: byte where "METASERVER_PROTOCOL_VERSION = 0x02"

text \<open>The address of the new socket is an argument; it is not the address of a live one.\<close>

definition server_accept :: "sock \<Rightarrow> cstring \<Rightarrow> ('e, 's, 'm) metaserver \<Rightarrow> ('e, 's, 'm) metaserver" where
  "server_accept sock desc st =
     (let node_id = ms_next_node_id st
      in st\<lparr>ms_next_node_id := node_id + 1,
            ms_socks := (ms_socks st)(sock \<mapsto> \<lparr>send_buffer = [], write_source = False\<rparr>),
            ms_recv := (ms_recv st)(sock := []),
            ms_clients := (ms_clients st)(sock \<mapsto> \<lparr>mc_node_id = node_id, mc_sock = sock, mc_desc = desc\<rparr>)\<rparr>)"

text \<open>
  The version byte is read without a look at the length, and one less than the length, computed as
  an \<open>int\<close>, is converted to \<open>size_t\<close>.
\<close>

definition dispatch_login ::
    "('e, 'x, 's, 'm) metaserver_env \<Rightarrow> metaserver_client \<Rightarrow> byte list \<Rightarrow> nat \<Rightarrow> 16 word \<Rightarrow> ('e, 's, 'm) metaserver \<Rightarrow>
     (('e, 's, 'm) metaserver \<times> bool) option" where
  "dispatch_login env client m data len st = do {
     version \<leftarrow> rd m data;
     if version \<noteq> METASERVER_PROTOCOL_VERSION then Some (st, False)
     else do {
       r \<leftarrow> gzochid_protocol_read_str m (data + 1) (unat (ucast len - 1 :: 64 word));
       case r of
         None \<Rightarrow> Some (st, False)
       | Some (url, str_len) \<Rightarrow> do {
           let st = st\<lparr>ms_channels := fst (channelserver_server_connected (ms_channels st) (mc_node_id client) (mc_sock client))\<rparr>;
           let st = st\<lparr>ms_sessions := fst (sessionserver_server_connected (ms_sessions st) (mc_node_id client) (mc_sock client))\<rparr>;
           let st = st\<lparr>ms_events := ms_events st @
             [Client_Connected (mc_node_id client) (mc_desc client) (if str_len > 1 then Some url else None)]\<rparr>;
           let msg = g_byte_array_append [] [0, 0, LOGIN_RESPONSE, METASERVER_PROTOCOL_VERSION];
           let msg = g_byte_array_append msg (me_admin_server_base_url env @ [0]);
           msg \<leftarrow> gzochi_common_io_write_short (word_of_nat (length msg - 3)) msg 0;
           socks \<leftarrow> socket_write (mc_sock client) msg (ms_socks st);
           Some (st\<lparr>ms_socks := socks\<rparr>, True)
         }
     }
   }"

text \<open>
  The delegates get a copy of the message with its prefix. The data server writes its answers to
  the socket of the client.
\<close>

definition delegate_channel ::
    "('e, 'x, 's, 'm) metaserver_env \<Rightarrow> metaserver_client \<Rightarrow> byte list \<Rightarrow> ('e, 's, 'm) metaserver \<Rightarrow>
     ('e, 's, 'm) metaserver option" where
  "delegate_channel env client buf st = do {
     ((cs, socks), n) \<leftarrow> channelserver_client_dispatch (env_big_endian (me_data env)) (mc_node_id client) buf
       (ms_channels st, ms_socks st);
     Some (st\<lparr>ms_channels := cs, ms_socks := socks\<rparr>)
   }"

definition delegate_data ::
    "('e, 'x, 's, 'm) metaserver_env \<Rightarrow> metaserver_client \<Rightarrow> byte list \<Rightarrow> ('e, 's, 'm) metaserver \<Rightarrow>
     ('e, 's, 'm) metaserver option" where
  "delegate_data env client buf st = do {
     (c, n) \<leftarrow> dataserver_client_dispatch (me_data env) (mc_node_id client) buf
       \<lparr>client_server = ms_data st, client_sent = [], client_time = ms_time st\<rparr>;
     socks \<leftarrow> (if client_sent c = [] then Some (ms_socks st) else socket_write (mc_sock client) (client_sent c) (ms_socks st));
     Some (st\<lparr>ms_data := client_server c, ms_time := client_time c, ms_socks := socks\<rparr>)
   }"

definition delegate_session ::
    "('e, 'x, 's, 'm) metaserver_env \<Rightarrow> metaserver_client \<Rightarrow> byte list \<Rightarrow> ('e, 's, 'm) metaserver \<Rightarrow>
     ('e, 's, 'm) metaserver option" where
  "delegate_session env client buf st = do {
     ((ss, socks), n) \<leftarrow> sessionserver_client_dispatch (me_nodemap env) (mc_node_id client) buf
       (ms_sessions st, ms_socks st);
     Some (st\<lparr>ms_sessions := ss, ms_socks := socks\<rparr>)
   }"

definition metaserver_dispatch_message ::
    "('e, 'x, 's, 'm) metaserver_env \<Rightarrow> metaserver_client \<Rightarrow> byte list \<Rightarrow> nat \<Rightarrow> 16 word \<Rightarrow> ('e, 's, 'm) metaserver \<Rightarrow>
     ('e, 's, 'm) metaserver option" where
  "metaserver_dispatch_message env client m offset len st = do {
     opcode \<leftarrow> rd m offset;
     if opcode = LOGIN then map_option fst (dispatch_login env client m (offset + 1) (len - 1) st)
     else if opcode \<in> {RELAY_JOIN_FROM, RELAY_LEAVE_FROM, RELAY_CLOSE_FROM, CHANNEL_RELAY_MESSAGE_FROM} then do {
       delegate_buffer \<leftarrow> rd_range m (offset - 2) (unat len + 2);
       delegate_channel env client delegate_buffer st
     }
     else if opcode \<in> {REQUEST_OIDS, REQUEST_VALUE, REQUEST_NEXT_KEY, SUBMIT_CHANGESET, RELEASE_KEY, RELEASE_KEY_RANGE} then do {
       delegate_buffer \<leftarrow> rd_range m (offset - 2) (unat len + 2);
       delegate_data env client delegate_buffer st
     }
     else if opcode \<in> {SESSION_CONNECTED, SESSION_DISCONNECTED, RELAY_DISCONNECT_FROM, RELAY_MESSAGE_FROM} then do {
       delegate_buffer \<leftarrow> rd_range m (offset - 2) (unat len + 2);
       delegate_session env client delegate_buffer st
     }
     else Some st
   }"

definition metaserver_client_dispatch ::
    "('e, 'x, 's, 'm) metaserver_env \<Rightarrow> metaserver_client \<Rightarrow> byte list \<Rightarrow> ('e, 's, 'm) metaserver \<Rightarrow>
     (('e, 's, 'm) metaserver \<times> nat) option" where
  "metaserver_client_dispatch env client = client_dispatch (metaserver_dispatch_message env client)"

definition metaserver_client_error ::
    "('e, 'x, 's, 'm) metaserver_env \<Rightarrow> metaserver_client \<Rightarrow> ('e, 's, 'm) metaserver \<Rightarrow> ('e, 's, 'm) metaserver option" where
  "metaserver_client_error env client st = do {
     let st = st\<lparr>ms_events := ms_events st @ [Client_Disconnected (mc_node_id client)]\<rparr>;
     let (cs, socks) = channelserver_client_error (mc_node_id client) (ms_channels st, ms_socks st);
     let st = st\<lparr>ms_channels := cs\<rparr>;
     c \<leftarrow> dataserver_client_error (mc_node_id client)
       \<lparr>client_server = ms_data st, client_sent = [], client_time = ms_time st\<rparr>;
     let st = st\<lparr>ms_data := client_server c\<rparr>;
     let (ss, socks) = sessionserver_client_error (me_nodemap env) (mc_node_id client) (ms_sessions st, ms_socks st);
     Some (st\<lparr>ms_sessions := ss\<rparr>)
   }"

text \<open>When the last reference to a socket goes, the socket and the client of the protocol are freed.\<close>

definition socket_unref :: "sock \<Rightarrow> ('e, 's, 'm) metaserver \<Rightarrow> ('e, 's, 'm) metaserver" where
  "socket_unref sock st = st\<lparr>ms_socks := (ms_socks st)(sock := None), ms_clients := (ms_clients st)(sock := None)\<rparr>"

text \<open>
  One callback for the readable socket of a client. A callback that returns false ends the watch of
  the socket, and with it the last reference.
\<close>

definition socket_callback ::
    "('e, 'x, 's, 'm) metaserver_env \<Rightarrow> sock \<Rightarrow> guint \<Rightarrow> io_read list \<Rightarrow> ('e, 's, 'm) metaserver \<Rightarrow>
     ('e, 's, 'm) metaserver option" where
  "socket_callback env sock condition reads st = do {
     client \<leftarrow> ms_clients st sock;
     (recv, st, alive) \<leftarrow> dispatch_client (metaserver_dispatch_message env client) (metaserver_client_error env client)
       condition reads (ms_recv st sock) st;
     if alive then Some (st\<lparr>ms_recv := (ms_recv st)(sock := recv)\<rparr>) else Some (socket_unref sock st)
   }"

definition socket_flush :: "sock \<Rightarrow> io_write list \<Rightarrow> ('e, 's, 'm) metaserver \<Rightarrow> ('e, 's, 'm) metaserver option" where
  "socket_flush sock ws st = do {
     k \<leftarrow> ms_socks st sock;
     (k, out, alive) \<leftarrow> dispatch_client_write ws k;
     Some (st\<lparr>ms_socks := (ms_socks st)(sock \<mapsto> k)\<rparr>)
   }"

section \<open>Reachable states\<close>

text \<open>
  A callback with a single condition whose reads do not fail: when it ends the watch, the error
  callback of the protocol has run.
\<close>

definition clean_callback :: "guint \<Rightarrow> io_read list \<Rightarrow> bool" where
  "clean_callback condition reads \<longleftrightarrow>
     condition \<in> {G_IO_IN, G_IO_PRI, G_IO_ERR, G_IO_HUP} \<and> (\<forall>r \<in> set reads. \<not> read_failed r)"

inductive meta_reachable ::
    "('e, 'x, 's, 'm) metaserver_env \<Rightarrow> ('e, 's, 'm) metaserver \<Rightarrow> ('e, 's, 'm) metaserver \<Rightarrow> bool"
  for env :: "('e, 'x, 's, 'm) metaserver_env" and st0 :: "('e, 's, 'm) metaserver" where
  start: "meta_reachable env st0 st0"
| accept: "meta_reachable env st0 st \<Longrightarrow> ms_socks st sock = None \<Longrightarrow> meta_reachable env st0 (server_accept sock desc st)"
| callback: "meta_reachable env st0 st \<Longrightarrow> clean_callback condition reads \<Longrightarrow>
    socket_callback env sock condition reads st = Some st' \<Longrightarrow> meta_reachable env st0 st'"
| flush: "meta_reachable env st0 st \<Longrightarrow> socket_flush sock ws st = Some st' \<Longrightarrow> meta_reachable env st0 st'"

text \<open>
  Every node in the tables of the session and channel servers has a live socket whose client has
  that node id, the lock tables of the data server are consistent, and all locks are held by nodes
  whose sockets are live.
\<close>

definition client_nodes :: "('e, 's, 'm) metaserver \<Rightarrow> guint set" where
  "client_nodes st = mc_node_id ` ran (ms_clients st)"

definition registered :: "(sock \<rightharpoonup> metaserver_client) \<Rightarrow> guint \<Rightarrow> sock \<Rightarrow> bool" where
  "registered clients n sock \<longleftrightarrow> (\<exists>c. clients sock = Some c \<and> mc_node_id c = n)"

definition meta_inv :: "('e, 's, 'm) metaserver \<Rightarrow> bool" where
  "meta_inv st \<longleftrightarrow> dom (ms_clients st) = dom (ms_socks st)
     \<and> (\<forall>sock c. ms_clients st sock = Some c \<longrightarrow> mc_sock c = sock)
     \<and> (\<forall>n sock. ss_connected_servers (ms_sessions st) n = Some sock \<longrightarrow> registered (ms_clients st) n sock)
     \<and> (\<forall>(n, sock) \<in> set (ms_channels st). registered (ms_clients st) n sock)
     \<and> distinct (map fst (ms_channels st))
     \<and> server_ok (client_nodes st) (ms_data st)"

section \<open>What callbacks keep\<close>

lemma dispatch_recv_buffer_keeps:
  assumes keeps: "\<And>m p len st. P st \<Longrightarrow> on_return P (dispatch_message m p len st)"
  shows "P st \<Longrightarrow> on_return (\<lambda>(buf, st). P st) (dispatch_recv_buffer dispatch_message buf st)"
proof (induction "length buf" arbitrary: buf st rule: less_induct)
  case less
  have once: "P st'" if "client_dispatch dispatch_message buf st = Some (st', num)" for st' num
    using client_dispatch_keeps [of P dispatch_message st buf, OF keeps less.prems] that by (simp add: on_return_def)
  have "on_return (\<lambda>(buf, st). P st) (dispatch_recv_buffer dispatch_message buf' st')"
    if "P st'" and "0 < num" and "g_byte_array_remove_range buf 0 num = Some buf'" for st' num buf'
  proof (rule less.hyps [OF _ that(1)])
    show "length buf' < length buf" using that(2,3) by (auto simp: g_byte_array_remove_range_def split: if_splits)
  qed
  with once less.prems show ?case
    by (subst dispatch_recv_buffer.simps) (auto intro!: on_return_intros)
qed

lemma fill_clean: "\<forall>r \<in> set reads. \<not> read_failed r \<Longrightarrow> snd (fill_recv_buffer reads buf) \<noteq> Fill_Failed"
  by (induction reads arbitrary: buf) (auto simp: Let_def)

lemma dispatch_client_keeps:
  assumes keeps: "\<And>m p len st. P st \<Longrightarrow> on_return P (dispatch_message m p len st)"
    and error: "\<And>st. P st \<Longrightarrow> on_return Q (error st)"
    and "clean_callback condition reads" and "P st"
  shows "on_return (\<lambda>(buf, st, alive). if alive then P st else Q st)
    (dispatch_client dispatch_message error condition reads buf st)"
proof -
  have e: "on_return (\<lambda>(buf, st, alive). if alive then P st else Q st) (dispatch_client_error error buf' st)" for buf'
    using error [OF assms(4)] by (cases "error st") (auto simp: dispatch_client_error_def on_return_def)
  have r: "on_return (\<lambda>(buf, st, alive). if alive then P st else Q st)
      (map_option (\<lambda>(buf, st). (buf, st, True)) (dispatch_recv_buffer dispatch_message buf' st))" for buf'
    using dispatch_recv_buffer_keeps [of P dispatch_message st buf', OF keeps assms(4)]
    by (cases "dispatch_recv_buffer dispatch_message buf' st") (auto simp: on_return_def)
  obtain buf' res where f: "fill_recv_buffer reads buf = (buf', res)" by fastforce
  have "res \<noteq> Fill_Failed" using fill_clean [of reads buf] assms(3) f by (simp add: clean_callback_def)
  then have "on_return (\<lambda>(buf, st, alive). if alive then P st else Q st)
      (dispatch_client_read dispatch_message error reads buf st)"
    using e r f by (cases res) (simp_all add: dispatch_client_read_def)
  then show ?thesis
    using e assms(3) by (auto simp: dispatch_client_def clean_callback_def)
qed

section \<open>The invariant\<close>

definition open_socks :: "sockets \<Rightarrow> sock set" where
  "open_socks socks = dom socks"

lemma socket_write_open: "socket_write sock data socks = Some socks' \<Longrightarrow> open_socks socks' = open_socks socks"
  by (simp add: open_socks_def socket_write_dom)

lemma relay_to_all_dom: "relay_to_all n data cs socks = Some socks' \<Longrightarrow> open_socks socks' = open_socks socks"
proof (induction cs arbitrary: socks)
  case (Cons x cs)
  obtain socks1 where 1: "relay_message n data x socks = Some socks1" "relay_to_all n data cs socks1 = Some socks'"
    using Cons.prems by (auto simp: bind_eq_Some_conv)
  have "open_socks socks1 = open_socks socks"
    using 1(1) by (cases x) (auto simp: relay_message_def dest!: socket_write_open split: if_splits)
  with Cons.IH [OF 1(2)] show ?case by simp
qed simp

lemma channel_dispatch_dom:
  assumes "channelserver_client_dispatch be n buf (cs, socks) = Some ((cs', socks'), k)"
  shows "cs' = cs" and "open_socks socks' = open_socks socks"
proof -
  let ?P = "\<lambda>(c, s). c = cs \<and> open_socks s = open_socks socks"
  have "on_return ?P (channelserver_dispatch_message be n m p len st)" if "?P st" for m p len st
    using that unfolding channelserver_dispatch_message_def dispatch_relay_join_def dispatch_relay_leave_def
      dispatch_relay_close_def channel_dispatch_relay_message_def relays_eq relay_message_eq
    by (cases st) (intro on_return_intros; auto intro!: on_return_intros dest!: relay_to_all_dom)
  then have "on_return (\<lambda>(st, k). ?P st) (channelserver_client_dispatch be n buf (cs, socks))"
    unfolding channelserver_client_dispatch_def by (rule client_dispatch_keeps) simp_all
  then show "cs' = cs" and "open_socks socks' = open_socks socks"
    using assms by (simp_all add: on_return_def)
qed

lemma session_dispatch_dom:
  assumes "sessionserver_client_dispatch iface n buf (ss, socks) = Some ((ss', socks'), k)"
  shows "ss_connected_servers ss' = ss_connected_servers ss" and "open_socks socks' = open_socks socks"
proof -
  let ?P = "\<lambda>(s, k). ss_connected_servers s = ss_connected_servers ss \<and> open_socks k = open_socks socks"
  have relay: "sessionserver_relay_disconnect iface s app i k = Some (k', e) \<Longrightarrow> open_socks k' = open_socks k"
    "sessionserver_relay_message iface s app i msg k = Some (k', e) \<Longrightarrow> open_socks k' = open_socks k" for s app i msg k k' e
    by (auto simp: sessionserver_relay_disconnect_def sessionserver_relay_message_def bind_eq_Some_conv
      dest!: socket_write_open split: sum.splits option.splits)
  have conn: "sessionserver_session_connected iface s n app i = Some (s', e) \<Longrightarrow> ss_connected_servers s' = ss_connected_servers s"
    "sessionserver_session_disconnected iface s app i = Some (s', e) \<Longrightarrow> ss_connected_servers s' = ss_connected_servers s"
    for s s' n app i e
    by (auto simp: sessionserver_session_connected_def sessionserver_session_disconnected_def bind_eq_Some_conv Let_def
      split: if_splits sum.splits option.splits)
  have "on_return ?P (sessionserver_dispatch_message iface n m p len st)" if "?P st" for m p len st
    using that unfolding sessionserver_dispatch_message_def dispatch_session_connected_def
      dispatch_session_disconnected_def dispatch_relay_disconnect_def session_dispatch_relay_message_def
    by (cases st) (intro on_return_intros; auto intro!: on_return_intros dest!: relay conn)
  then have "on_return (\<lambda>(st, k). ?P st) (sessionserver_client_dispatch iface n buf (ss, socks))"
    unfolding sessionserver_client_dispatch_def by (rule client_dispatch_keeps) simp_all
  then show "ss_connected_servers ss' = ss_connected_servers ss" and "open_socks socks' = open_socks socks"
    using assms by (simp_all add: on_return_def)
qed

lemma data_dispatch_ok:
  assumes "server_ok N (client_server c)" and "n \<in> N" and "dataserver_client_dispatch env n buf c = Some (c', k)"
  shows "server_ok N (client_server c')"
proof -
  have "on_return (\<lambda>(c, k). server_ok N (client_server c)) (dataserver_client_dispatch env n buf c)"
    unfolding dataserver_client_dispatch_def
    by (rule client_dispatch_keeps [where P = "\<lambda>c. server_ok N (client_server c)"])
      (use dispatch_message_ok assms in auto)
  then show ?thesis using assms(3) by (simp add: on_return_def)
qed

text \<open>A client of the table: dispatching its messages leaves the table and the set of open sockets alone.\<close>

definition serves :: "(sock \<rightharpoonup> metaserver_client) \<Rightarrow> ('e, 's, 'm) metaserver \<Rightarrow> bool" where
  "serves clients st \<longleftrightarrow> meta_inv st \<and> ms_clients st = clients"

lemma serves_iff:
  "serves clients st \<longleftrightarrow> ms_clients st = clients \<and> dom clients = open_socks (ms_socks st)
     \<and> (\<forall>sock c. clients sock = Some c \<longrightarrow> mc_sock c = sock)
     \<and> (\<forall>n sock. ss_connected_servers (ms_sessions st) n = Some sock \<longrightarrow> registered clients n sock)
     \<and> (\<forall>(n, sock) \<in> set (ms_channels st). registered clients n sock)
     \<and> distinct (map fst (ms_channels st))
     \<and> server_ok (mc_node_id ` ran clients) (ms_data st)"
  by (cases "ms_clients st = clients") (simp_all add: serves_def meta_inv_def client_nodes_def open_socks_def)

lemma delegates_serve:
  assumes "serves clients st" and "clients (mc_sock c) = Some c"
  shows "on_return (serves clients) (delegate_channel env c buf st)"
    and "on_return (serves clients) (delegate_data env c buf st)"
    and "on_return (serves clients) (delegate_session env c buf st)"
proof -
  have d: "dom (ms_clients st) = open_socks (ms_socks st)"
    using assms(1) by (simp add: serves_iff)
  have n: "mc_node_id c \<in> mc_node_id ` ran clients"
    using assms(2) by (auto simp: ran_def)
  have "serves clients (st\<lparr>ms_channels := cs, ms_socks := socks\<rparr>)"
    if "channelserver_client_dispatch (env_big_endian (me_data env)) (mc_node_id c) buf (ms_channels st, ms_socks st) =
      Some ((cs, socks), k)" for cs socks k
    using channel_dispatch_dom [OF that] d assms(1) by (simp add: serves_iff)
  then show "on_return (serves clients) (delegate_channel env c buf st)"
    by (auto simp: delegate_channel_def on_return_def bind_eq_Some_conv)
  have "serves clients (st\<lparr>ms_sessions := ss, ms_socks := socks\<rparr>)"
    if "sessionserver_client_dispatch (me_nodemap env) (mc_node_id c) buf (ms_sessions st, ms_socks st) =
      Some ((ss, socks), k)" for ss socks k
    using session_dispatch_dom [OF that] d assms(1) by (simp add: serves_iff)
  then show "on_return (serves clients) (delegate_session env c buf st)"
    by (auto simp: delegate_session_def on_return_def bind_eq_Some_conv)
  show "on_return (serves clients) (delegate_data env c buf st)"
    unfolding delegate_data_def
  proof (rule on_return_bind, rule on_return_prod)
    fix x c' k
    assume x: "dataserver_client_dispatch (me_data env) (mc_node_id c) buf
        \<lparr>client_server = ms_data st, client_sent = [], client_time = ms_time st\<rparr> = Some x" "x = (c', k)"
    have "server_ok (mc_node_id ` ran clients) (client_server c')"
      by (rule data_dispatch_ok [OF _ n x(1) [unfolded x(2)]]) (use assms(1) in \<open>simp add: serves_iff\<close>)
    moreover have "open_socks socks = open_socks (ms_socks st)"
      if "(if client_sent c' = [] then Some (ms_socks st) else socket_write (mc_sock c) (client_sent c') (ms_socks st)) = Some socks"
      for socks using that by (auto split: if_splits dest: socket_write_open)
    ultimately show "on_return (serves clients) (Option.bind
        (if client_sent c' = [] then Some (ms_socks st) else socket_write (mc_sock c) (client_sent c') (ms_socks st))
        (\<lambda>socks. Some (st\<lparr>ms_data := client_server c', ms_time := client_time c', ms_socks := socks\<rparr>)))"
      using assms(1) d
      by (intro on_return_bind on_return_Some) (simp add: serves_iff)
  qed
qed

lemma serves_socks:
  "serves clients st \<Longrightarrow> open_socks socks = open_socks (ms_socks st) \<Longrightarrow> serves clients (st\<lparr>ms_socks := socks\<rparr>)"
  by (simp add: serves_iff)

lemma serves_connected:
  assumes "serves clients st" and "clients (mc_sock c) = Some c"
  shows "serves clients (st\<lparr>ms_channels := fst (channelserver_server_connected (ms_channels st) (mc_node_id c) (mc_sock c)),
    ms_sessions := fst (sessionserver_server_connected (ms_sessions st) (mc_node_id c) (mc_sock c)), ms_events := ev\<rparr>)"
proof -
  have r: "registered clients (mc_node_id c) (mc_sock c)" using assms(2) by (simp add: registered_def)
  have "distinct (map fst (fst (channelserver_server_connected (ms_channels st) (mc_node_id c) (mc_sock c))))"
    using assms(1) by (auto simp: serves_iff channelserver_server_connected_def map_of_eq_None_iff)
  moreover have "\<forall>(n, sock) \<in> set (fst (channelserver_server_connected (ms_channels st) (mc_node_id c) (mc_sock c))).
      registered clients n sock"
    using assms(1) r by (auto simp: serves_iff channelserver_server_connected_def)
  moreover have "\<forall>n sock. ss_connected_servers (fst (sessionserver_server_connected (ms_sessions st) (mc_node_id c) (mc_sock c))) n
      = Some sock \<longrightarrow> registered clients n sock"
    using assms(1) r by (auto simp: serves_iff sessionserver_server_connected_def)
  ultimately show ?thesis
    using assms(1) by (simp add: serves_iff)
qed

lemma login_serves:
  assumes "serves clients st" and "clients (mc_sock c) = Some c"
  shows "on_return (\<lambda>(st, r). serves clients st) (dispatch_login env c m data len st)"
  unfolding dispatch_login_def
  by (intro on_return_intros; simp add: assms(1))
    (intro conjI impI serves_socks [OF serves_connected [OF assms]]; simp add: socket_write_open)

lemma dispatch_message_serves:
  assumes "serves clients st" and "clients (mc_sock c) = Some c"
  shows "on_return (serves clients) (metaserver_dispatch_message env c m p len st)"
proof -
  have "on_return (serves clients) (map_option fst (dispatch_login env c m (p + 1) (len - 1) st))"
    using login_serves [OF assms, of env m "p + 1" "len - 1"]
    by (cases "dispatch_login env c m (p + 1) (len - 1) st") (auto simp: on_return_def)
  then show ?thesis
    unfolding metaserver_dispatch_message_def
    using assms(1) by (intro on_return_intros delegates_serve [OF assms])
qed

lemma release_all_stores_nodes:
  assumes "release_all_stores n stores = Some stores'"
    and "\<forall>(app, st) \<in> set stores. \<forall>sid. lock_nodes (store_locks (lockable st sid)) \<subseteq> N"
  shows "\<forall>(app, st) \<in> set stores'. \<forall>sid. lock_nodes (store_locks (lockable st sid)) \<subseteq> insert n N"
  using assms
proof (induction n stores arbitrary: stores' rule: release_all_stores.induct)
  case (2 n app st stores)
  obtain t1 t2 rest where r: "gzochid_lock_release_all (store_locks (app_oids st)) n = Some t1"
      "gzochid_lock_release_all (store_locks (app_names st)) n = Some t2"
      "release_all_stores n stores = Some rest"
      "stores' = (app, set_locks Names_Store t2 (set_locks Oids_Store t1 st)) # rest"
    using "2.prems"(1) by (auto simp: bind_eq_Some_conv)
  have "lock_nodes (store_locks (lockable st sid)) \<subseteq> N" for sid using "2.prems"(2) by simp
  from this [of Oids_Store] this [of Names_Store]
  have "lock_nodes t1 \<subseteq> insert n N" "lock_nodes t2 \<subseteq> insert n N"
    using lock_step_nodes [of "\<lambda>_. 0" "Release_All n" "store_locks (app_oids st)" t1]
      lock_step_nodes [of "\<lambda>_. 0" "Release_All n" "store_locks (app_names st)" t2] r(1,2) by auto
  then have "lock_nodes (store_locks (lockable (set_locks Names_Store t2 (set_locks Oids_Store t1 st)) sid)) \<subseteq> insert n N" for sid
    by (cases sid) simp_all
  with "2.IH" [OF r(1,2,3)] "2.prems"(2) r(4) show ?case by auto
qed simp

lemma release_all_ok:
  assumes "server_ok N srv" and "gzochi_metad_dataserver_release_all srv n = Some srv'"
  shows "server_ok (N - {n}) srv'"
proof -
  obtain stores where s: "release_all_stores n (application_stores srv) = Some stores"
      "srv' = srv\<lparr>application_stores := stores\<rparr>"
    using assms(2) by (auto simp: gzochi_metad_dataserver_release_all_def bind_eq_Some_conv)
  have "\<forall>(app, st) \<in> set stores. \<forall>sid. lock_nodes (store_locks (lockable st sid)) \<subseteq> insert n N"
    using release_all_stores_nodes [OF s(1)] assms(1) by (simp add: server_ok_def)
  moreover have "\<forall>(app, st) \<in> set stores. \<forall>sid. n \<notin> lock_nodes (store_locks (lockable st sid))"
    using release_all_inv [OF _ assms(2)] assms(1) s(2) by (fastforce simp: server_ok_def lock_nodes_def)
  ultimately have "\<forall>(app, st) \<in> set stores. \<forall>sid. lock_nodes (store_locks (lockable st sid)) \<subseteq> N - {n}" by fastforce
  then show ?thesis
    using release_all_inv [OF _ assms(2)] assms(1) s(2) by (simp add: server_ok_def)
qed

text \<open>A node that has left: it is in no table and holds no lock.\<close>

definition gone :: "guint \<Rightarrow> ('e, 's, 'm) metaserver \<Rightarrow> bool" where
  "gone n st \<longleftrightarrow> ss_connected_servers (ms_sessions st) n = None \<and> map_of (ms_channels st) n = None
     \<and> server_ok (client_nodes st - {n}) (ms_data st)"

lemma error_serves:
  assumes "serves clients st"
  shows "on_return (\<lambda>st. serves clients st \<and> gone (mc_node_id c) st) (metaserver_client_error env c st)"
proof -
  let ?n = "mc_node_id c"
  define cs where "cs = fst (channelserver_server_disconnected (ms_channels st) ?n)"
  define ss where "ss = fst (sessionserver_server_disconnected (me_nodemap env) (ms_sessions st) ?n)"
  have cs: "set cs \<subseteq> set (ms_channels st)" "distinct (map fst cs)" "map_of cs ?n = None"
    using assms distinct_map_filter [of fst "ms_channels st" "\<lambda>(n, s). n \<noteq> ?n"]
    by (auto simp: cs_def channelserver_server_disconnected_def serves_iff map_of_filter_other map_of_eq_None_iff)
  have ss: "ss_connected_servers ss = (ss_connected_servers (ms_sessions st))(?n := None)"
    by (auto simp: ss_def sessionserver_server_disconnected_def)
  have "serves clients st' \<and> gone ?n st'" if e: "metaserver_client_error env c st = Some st'" for st'
  proof -
    obtain srv where r: "gzochi_metad_dataserver_release_all (ms_data st) ?n = Some srv"
      and st': "st' = st\<lparr>ms_events := ms_events st @ [Client_Disconnected ?n], ms_channels := cs, ms_data := srv, ms_sessions := ss\<rparr>"
      using e by (auto simp: metaserver_client_error_def channelserver_client_error_def dataserver_client_error_def
        sessionserver_client_error_def cs_def ss_def bind_eq_Some_conv Let_def)
    have ok: "server_ok (mc_node_id ` ran clients - {?n}) srv"
      by (rule release_all_ok [OF _ r]) (use assms in \<open>simp add: serves_iff\<close>)
    have "server_ok (mc_node_id ` ran clients) srv" by (rule server_ok_mono [OF ok]) blast
    then show ?thesis
      using assms cs ss ok by (auto simp: serves_iff gone_def client_nodes_def st')
  qed
  then show ?thesis by (simp add: on_return_def)
qed

lemma unref_inv:
  assumes "serves clients st" and "gone (mc_node_id c) st" and "clients sock = Some c"
  shows "meta_inv (socket_unref sock st)"
proof -
  let ?K = "clients(sock := None)" and ?n = "mc_node_id c"
  have keep: "registered ?K n s" if "registered clients n s" and "n \<noteq> ?n" for n s
    using that assms(3) by (auto simp: registered_def)
  have "mc_node_id ` ran clients - {?n} \<subseteq> mc_node_id ` ran ?K"
  proof
    fix x
    assume "x \<in> mc_node_id ` ran clients - {?n}"
    then obtain s c' where "clients s = Some c'" "x = mc_node_id c'" "x \<noteq> ?n" by (auto simp: ran_def)
    moreover have "s \<noteq> sock" using calculation assms(3) by auto
    ultimately have "c' \<in> ran ?K" by (intro ranI [of _ s]) simp
    with \<open>x = mc_node_id c'\<close> show "x \<in> mc_node_id ` ran ?K" by blast
  qed
  then have "server_ok (mc_node_id ` ran ?K) (ms_data st)"
    using assms(1,2) server_ok_mono unfolding gone_def client_nodes_def serves_iff by blast
  moreover have "registered ?K n s" if "ss_connected_servers (ms_sessions st) n = Some s" for n s
  proof (rule keep)
    show "registered clients n s" using assms(1) that by (simp add: serves_iff)
    show "n \<noteq> ?n" using assms(2) that by (auto simp: gone_def)
  qed
  moreover have "registered ?K n s" if "(n, s) \<in> set (ms_channels st)" for n s
  proof (rule keep)
    show "registered clients n s" using assms(1) that by (auto simp: serves_iff)
    show "n \<noteq> ?n" using assms(2) that by (force simp: gone_def map_of_eq_None_iff)
  qed
  ultimately have "serves ?K (socket_unref sock st)"
    using assms(1) by (auto simp: serves_iff socket_unref_def open_socks_def)
  then show ?thesis by (simp add: serves_def)
qed

lemma callback_inv:
  assumes "meta_inv st" and "clean_callback condition reads" and "socket_callback env sock condition reads st = Some st'"
  shows "meta_inv st' \<and> ms_clients st' \<in> {ms_clients st, (ms_clients st)(sock := None)}"
proof -
  obtain c recv st1 alive where c: "ms_clients st sock = Some c"
    and d: "dispatch_client (metaserver_dispatch_message env c) (metaserver_client_error env c) condition reads
        (ms_recv st sock) st = Some (recv, st1, alive)"
    and st': "st' = (if alive then st1\<lparr>ms_recv := (ms_recv st1)(sock := recv)\<rparr> else socket_unref sock st1)"
    using assms(3) by (auto simp: socket_callback_def bind_eq_Some_conv split: if_splits)
  let ?K = "ms_clients st"
  have s: "serves ?K st" and k: "?K (mc_sock c) = Some c"
    using assms(1) c by (auto simp: serves_def meta_inv_def)
  have "on_return (\<lambda>(buf, st, alive). if alive then serves ?K st else serves ?K st \<and> gone (mc_node_id c) st)
      (dispatch_client (metaserver_dispatch_message env c) (metaserver_client_error env c) condition reads (ms_recv st sock) st)"
    by (rule dispatch_client_keeps [where P = "serves ?K", OF _ _ assms(2) s])
      (rule dispatch_message_serves [where clients = ?K and c = c, OF _ k], assumption, rule error_serves)
  then have "if alive then serves ?K st1 else serves ?K st1 \<and> gone (mc_node_id c) st1"
    using d by (simp add: on_return_def)
  moreover have "serves ?K (st1\<lparr>ms_recv := (ms_recv st1)(sock := recv)\<rparr>)" if "serves ?K st1"
    using that by (simp add: serves_iff)
  ultimately show ?thesis
    using unref_inv [of ?K st1 c sock] c st' by (cases alive) (auto simp: serves_def socket_unref_def)
qed

lemma accept_inv:
  assumes "meta_inv st" and "ms_socks st sock = None"
  shows "meta_inv (server_accept sock desc st)"
proof -
  let ?K = "ms_clients st"
  let ?c = "\<lparr>mc_node_id = ms_next_node_id st, mc_sock = sock, mc_desc = desc\<rparr>"
  have s: "serves ?K st" using assms(1) by (simp add: serves_def)
  then have none: "?K sock = None" using assms(2) by (auto simp: serves_iff open_socks_def)
  then have keep: "registered (?K(sock \<mapsto> ?c)) n s" if "registered ?K n s" for n s
    using that by (auto simp: registered_def)
  have "mc_node_id ` ran ?K \<subseteq> mc_node_id ` ran (?K(sock \<mapsto> ?c))" using none by auto
  then have "server_ok (mc_node_id ` ran (?K(sock \<mapsto> ?c))) (ms_data st)"
    using s server_ok_mono unfolding serves_iff by blast
  then have "serves (?K(sock \<mapsto> ?c)) (server_accept sock desc st)"
    using s keep by (auto simp: serves_iff server_accept_def open_socks_def Let_def)
  then show ?thesis by (simp add: serves_def)
qed

lemma flush_inv:
  assumes "meta_inv st" and "socket_flush sock ws st = Some st'"
  shows "meta_inv st'"
proof -
  obtain k k' where "ms_socks st sock = Some k" and "st' = st\<lparr>ms_socks := (ms_socks st)(sock \<mapsto> k')\<rparr>"
    using assms(2) by (auto simp: socket_flush_def bind_eq_Some_conv)
  then show ?thesis
    using assms(1) serves_socks [of "ms_clients st" st "(ms_socks st)(sock \<mapsto> k')"]
    by (auto simp: serves_def open_socks_def)
qed

lemma meta_reachable_inv:
  assumes "meta_reachable env st0 st" and "meta_inv st0"
  shows "meta_inv st"
  using assms by induction (auto intro: accept_inv flush_inv dest: callback_inv)

section \<open>Routing\<close>

lemma client_dispatch_single:
  assumes "message_ok msg"
  shows "client_dispatch dm (frame_bytes msg) st =
    map_option (\<lambda>st. (st, length msg + 2)) (dm (frame_bytes msg) 2 (word_of_nat (length msg)) st)"
proof -
  have len: "length (frame_bytes msg) = length msg + 2" "3 \<le> length (frame_bytes msg)"
    using assms by (auto simp: frame_bytes_def message_ok_def Suc_le_eq)
  have u: "unat (word_of_nat (length msg) :: 16 word) = length msg"
    using assms by (simp add: message_ok_def unat_of_nat take_bit_nat_eq_self)
  have ui: "uint (word_of_nat (length msg) :: 16 word) = int (length msg)" using arg_cong [OF u, of int] by simp
  have "1 \<le> length msg" using assms by (cases msg) (auto simp: message_ok_def)
  then have w: "word_of_nat (length msg - 1) + 1 = (word_of_nat (length msg) :: 16 word)"
    by (metis of_nat_1 of_nat_add le_add_diff_inverse2)
  have rd: "gzochi_common_io_read_short (frame_bytes msg) 0 = Some (word_of_nat (length msg - 1))"
    using read_short_be [of "[]" "word_of_nat (length msg - 1)" msg] by (simp add: frame_bytes_def)
  have stop: "dispatch_loop dm (frame_bytes msg) k 0 n st' = Some (st', n)" for k n st'
    by (subst dispatch_loop.simps) simp
  have "int (length (frame_bytes msg)) - (int (length msg) + 2) = 0" using len by simp
  then show ?thesis
    unfolding client_dispatch_def
    using len rd w u ui stop
    by (subst dispatch_loop.simps) (auto simp: Let_def map_conv_bind_option add.commute numeral_2_eq_2 cong: Option.bind_cong)
qed

lemma run_frames_single: "run_frames handle [msg] st = handle msg st"
  by (cases "handle msg st") simp_all

lemma delegate_single:
  assumes "message_ok msg"
  shows "channelserver_client_dispatch be n (frame_bytes msg) cst =
      map_option (\<lambda>st. (st, length (frame_bytes msg))) (handle_channel_request n msg cst)"
    and "sessionserver_client_dispatch iface n (frame_bytes msg) sst =
      map_option (\<lambda>st. (st, length (frame_bytes msg))) (handle_session_request iface n msg sst)"
    and "dataserver_client_dispatch denv n (frame_bytes msg) dst =
      map_option (\<lambda>st. (st, length (frame_bytes msg))) (handle_request denv n msg dst)"
proof -
  have m: "\<forall>x \<in> set [msg]. message_ok x" using assms by simp
  show "channelserver_client_dispatch be n (frame_bytes msg) cst =
      map_option (\<lambda>st. (st, length (frame_bytes msg))) (handle_channel_request n msg cst)"
    using channel_messages.dispatch_sent [OF m, of be n cst] by (simp add: channelserver_client_dispatch_def run_frames_single del: run_frames.simps)
  show "sessionserver_client_dispatch iface n (frame_bytes msg) sst =
      map_option (\<lambda>st. (st, length (frame_bytes msg))) (handle_session_request iface n msg sst)"
    using session_messages.dispatch_sent [OF m, of iface n sst] by (simp add: sessionserver_client_dispatch_def run_frames_single del: run_frames.simps)
  show "dataserver_client_dispatch denv n (frame_bytes msg) dst =
      map_option (\<lambda>st. (st, length (frame_bytes msg))) (handle_request denv n msg dst)"
    using data_messages.dispatch_sent [OF m, of denv n dst] by (simp add: dataserver_client_dispatch_def run_frames_single del: run_frames.simps)
qed

lemma dispatch_message_single:
  assumes "message_ok (opcode # x)"
  shows "metaserver_dispatch_message env c (frame_bytes (opcode # x)) 2 (word_of_nat (length (opcode # x))) st =
    (if opcode = LOGIN then map_option fst (dispatch_login env c (frame_bytes (opcode # x)) 3 (word_of_nat (length x)) st)
     else if opcode \<in> {RELAY_JOIN_FROM, RELAY_LEAVE_FROM, RELAY_CLOSE_FROM, CHANNEL_RELAY_MESSAGE_FROM}
     then delegate_channel env c (frame_bytes (opcode # x)) st
     else if opcode \<in> {REQUEST_OIDS, REQUEST_VALUE, REQUEST_NEXT_KEY, SUBMIT_CHANGESET, RELEASE_KEY, RELEASE_KEY_RANGE}
     then delegate_data env c (frame_bytes (opcode # x)) st
     else if opcode \<in> {SESSION_CONNECTED, SESSION_DISCONNECTED, RELAY_DISCONNECT_FROM, RELAY_MESSAGE_FROM}
     then delegate_session env c (frame_bytes (opcode # x)) st
     else Some st)"
proof -
  have u: "unat (word_of_nat (length (opcode # x)) :: 16 word) = length (opcode # x)"
    using assms by (simp add: message_ok_def unat_of_nat take_bit_nat_eq_self del: of_nat_Suc)
  have l: "length (frame_bytes (opcode # x)) = length (opcode # x) + 2" by (simp add: frame_bytes_def)
  have r: "rd_range (frame_bytes (opcode # x)) (2 - 2) (unat (word_of_nat (length (opcode # x)) :: 16 word) + 2) =
      Some (frame_bytes (opcode # x))"
    unfolding u rd_range_def using l by simp
  have o: "rd (frame_bytes (opcode # x)) 2 = Some opcode"
    by (simp add: frame_bytes_def be_short_def io_simps)
  have w: "word_of_nat (length (opcode # x)) - 1 = (word_of_nat (length x) :: 16 word)" by simp
  show ?thesis unfolding metaserver_dispatch_message_def o r w bind.bind_lunit by simp
qed

section \<open>Properties\<close>

text \<open>The state of a meta server that has just been started, with the node map \<open>m\<close>.\<close>

definition metaserver_start :: "'m \<Rightarrow> ('e, 's, 'm) metaserver" where
  "metaserver_start m = \<lparr>ms_data = \<lparr>application_stores = [], next_bytes = 0\<rparr>, ms_time = 0,
     ms_sessions = \<lparr>ss_nodemap = m, ss_connected_servers = Map.empty, ss_events = []\<rparr>, ms_channels = [],
     ms_socks = Map.empty, ms_recv = (\<lambda>_. []), ms_clients = Map.empty, ms_next_node_id = 0, ms_events = []\<rparr>"

lemma start_inv: "meta_inv (metaserver_start m)"
  by (simp add: meta_inv_def metaserver_start_def server_ok_def server_inv_def)

definition store_of :: "('e, 's, 'm) metaserver \<Rightarrow> cstring \<Rightarrow> store_id \<Rightarrow> gzochid_lock_table \<Rightarrow> bool" where
  "store_of st app sid t \<longleftrightarrow> (\<exists>s. (app, s) \<in> set (application_stores (ms_data st)) \<and> t = store_locks (lockable s sid))"

lemma held_nodes:
  assumes "lock_inv t" and "(n, k, w) \<in> held t"
  shows "n \<in> lock_nodes t"
proof -
  obtain a l where "lock_heap t a = Some l" "lock_node_id l = n" using assms(2) by (auto simp: held_iff)
  moreover have "node_index (lock_heap t) lock_node_id (points_of t)" using assms(1) by (simp add: lock_inv_def)
  ultimately have "a \<in> set (points_of t n)" by (auto simp: node_index_def)
  then show ?thesis by (cases "nodes_to_locks t n") (auto simp: points_of_def lock_nodes_def)
qed

text \<open>A concrete server.\<close>

definition sample_meta :: "(content, content, cstring, gzochi_metad_nodemap_mem) metaserver_env" where
  "sample_meta = \<lparr>me_data = sample_env, me_nodemap = mem_iface (\<lambda>lo hi. 0), me_admin_server_base_url = []\<rparr>"

definition accepted :: "(content, cstring, gzochi_metad_nodemap_mem) metaserver" where
  "accepted = server_accept 10 [] (metaserver_start gzochi_metad_nodemap_mem_new)"

text \<open>A login in the first read, then the value of a name for writing.\<close>

definition login_and_ask :: "io_read list" where
  "login_and_ask = [\<lparr>read_bytes = frame_bytes [LOGIN, METASERVER_PROTOCOL_VERSION, 0], read_status = Io_Normal, read_failed = False\<rparr>,
     \<lparr>read_bytes = frame_bytes ask_b, read_status = Io_Again, read_failed = False\<rparr>]"

definition logged_in :: "(content, cstring, gzochi_metad_nodemap_mem) metaserver" where
  "logged_in = the (socket_callback sample_meta 10 G_IO_IN login_and_ask accepted)"

lemma logged_in_facts:
  "socket_callback sample_meta 10 G_IO_IN login_and_ask accepted \<noteq> None"
  "ss_connected_servers (ms_sessions logged_in) 0 = Some 10"
  "ms_channels logged_in = [(0, 10)]"
  by code_simp+

lemma logged_in_client: "ms_clients logged_in 10 = Some \<lparr>mc_node_id = 0, mc_sock = 10, mc_desc = []\<rparr>"
  by code_simp

lemma logged_in_reachable: "meta_reachable sample_meta (metaserver_start gzochi_metad_nodemap_mem_new) logged_in"
proof (rule meta_reachable.callback)
  show "meta_reachable sample_meta (metaserver_start gzochi_metad_nodemap_mem_new) accepted"
    unfolding accepted_def by (rule meta_reachable.accept [OF meta_reachable.start]) (simp add: metaserver_start_def)
  show "clean_callback G_IO_IN login_and_ask" by (simp add: clean_callback_def login_and_ask_def)
  show "socket_callback sample_meta 10 G_IO_IN login_and_ask accepted = Some logged_in"
    using logged_in_facts(1) by (auto simp: logged_in_def)
qed


text \<open>
  (C1) The meta server under any traffic. Whatever bytes any number of nodes send in whatever pieces,
  as long as a lost connection is reported through the error callback, in every state the
  server can get into: the sockets that the session and channel servers hold are live and belong to
  the node they are listed for; a key that is locked for writing in some store of some application
  is locked by one node only; and every lock is held by a node that is still connected.
\<close>

theorem metaserver_safe:
  assumes "meta_reachable env (metaserver_start m) st"
  shows "(\<forall>n sock. ss_connected_servers (ms_sessions st) n = Some sock \<or> (n, sock) \<in> set (ms_channels st) \<longrightarrow>
      ms_socks st sock \<noteq> None \<and> (\<exists>c. ms_clients st sock = Some c \<and> mc_node_id c = n))
    \<and> (\<forall>app sid t n k w. store_of st app sid t \<and> (n, k, w) \<in> held t \<longrightarrow>
      n \<in> client_nodes st \<and> (\<forall>n' w'. (n', k, w') \<in> held t \<and> (w \<or> w') \<longrightarrow> n' = n))"
proof -
  have inv: "meta_inv st" by (rule meta_reachable_inv [OF assms start_inv])
  have "lock_inv t \<and> lock_nodes t \<subseteq> client_nodes st" if "store_of st app sid t" for app sid t
    using inv that by (fastforce simp: meta_inv_def store_of_def server_ok_def server_inv_def)
  moreover have "n' = n" if "lock_inv t" "(n, k, w) \<in> held t" "(n', k, w') \<in> held t" "w \<or> w'" for t n k w n' w'
  proof -
    have "exclusive (lock_heap t)" using that(1) by (simp add: lock_inv_def)
    with that(2-4) show ?thesis unfolding held_iff by (metis exclusiveD option.inject)
  qed
  ultimately have "\<forall>app sid t n k w. store_of st app sid t \<and> (n, k, w) \<in> held t \<longrightarrow>
      n \<in> client_nodes st \<and> (\<forall>n' w'. (n', k, w') \<in> held t \<and> (w \<or> w') \<longrightarrow> n' = n)"
    using held_nodes by blast
  moreover have "ms_socks st sock \<noteq> None \<and> (\<exists>c. ms_clients st sock = Some c \<and> mc_node_id c = n)"
    if "ss_connected_servers (ms_sessions st) n = Some sock \<or> (n, sock) \<in> set (ms_channels st)" for n sock
  proof -
    have "registered (ms_clients st) n sock" using inv that by (auto simp: meta_inv_def)
    moreover have "dom (ms_clients st) = dom (ms_socks st)" using inv by (simp add: meta_inv_def)
    ultimately show ?thesis unfolding registered_def by blast
  qed
  ultimately show ?thesis by blast
qed

theorem metaserver_safe_witness:
  "\<exists>c. ms_clients logged_in 10 = Some c \<and> mc_node_id c = 0 \<and> ms_socks logged_in 10 \<noteq> None"
  using metaserver_safe [OF logged_in_reachable] logged_in_facts(2) by blast



lemma relay_to_freed:
  assumes "(n, s) \<in> set cs" and "n \<noteq> from_node" and "socks s = None"
  shows "relay_to_all from_node data cs socks = None"
  using assms
proof (induction cs arbitrary: socks)
  case (Cons x cs)
  have "relay_to_all from_node data cs socks' = None" if "relay_message from_node data x socks = Some socks'" and "x \<noteq> (n, s)" for socks'
  proof (rule Cons.IH)
    have "open_socks socks' = open_socks socks"
      using that(1) by (cases x) (auto simp: relay_message_def dest: socket_write_open split: if_splits)
    then show "socks' s = None" using Cons.prems(3) by (metis domIff open_socks_def)
  qed (use Cons.prems that in auto)
  moreover have "relay_message from_node data (n, s) socks = None"
    using Cons.prems by (simp add: relay_message_def socket_write_def)
  ultimately show ?case by (cases "x = (n, s)"; cases "relay_message from_node data x socks") auto
qed simp

text \<open>
  (C38) Hanging up with data. When a node closes its connection and its last bytes are still unread,
  the callback frees the socket of the node without the error handling, so the channel server
  keeps the address of the freed socket; the next thing any other node tells a channel writes
  to it.
\<close>

theorem hangup_with_data_dangles:
  assumes "ms_clients st sock = Some c" and "(mc_node_id c, sock) \<in> set (ms_channels st)" and "other \<noteq> mc_node_id c"
  shows "\<exists>st'. socket_callback env sock (G_IO_IN OR G_IO_HUP) reads st = Some st'
    \<and> (mc_node_id c, sock) \<in> set (ms_channels st') \<and> ms_socks st' sock = None
    \<and> relay_request be other req (ms_channels st') (ms_socks st') = None"
proof -
  have "socket_callback env sock (G_IO_IN OR G_IO_HUP) reads st = Some (socket_unref sock st)"
    using assms(1) by (simp add: socket_callback_def dispatch_client_def G_IO_IN_def G_IO_PRI_def G_IO_ERR_def G_IO_HUP_def)
  then show ?thesis
    using assms(2) relay_to_freed [OF assms(2) assms(3) [symmetric], of "(ms_socks st)(sock := None)" "relay_frame req"]
    by (simp add: socket_unref_def relay_request_eq)
qed

theorem hangup_with_data_dangles_witness:
  "\<exists>st'. socket_callback sample_meta 10 (G_IO_IN OR G_IO_HUP) [] logged_in = Some st'
    \<and> relay_request False 1 (Close_Channel [97] 5) (ms_channels st') (ms_socks st') = None"
  using hangup_with_data_dangles [where st = logged_in and sock = 10 and other = 1 and env = sample_meta and reads = "[]" and be = False
    and req = "Close_Channel [97] 5", OF logged_in_client] logged_in_facts(3) by auto

text \<open>
  An empty login. A login message without a payload makes the server read the version from
  behind the message, past the end of the buffer when it is the last one.
\<close>

theorem empty_login_overread: "metaserver_client_dispatch env c [0, 0, LOGIN] st = None"
proof -
  have "[0, 0, LOGIN] = frame_bytes [LOGIN]" by (simp add: frame_bytes_def be_short_def)
  moreover have "rd (frame_bytes [LOGIN]) 3 = None" by (simp add: frame_bytes_def be_short_def io_simps)
  moreover have "message_ok [LOGIN]" by (simp add: message_ok_def)
  ultimately show ?thesis
    unfolding metaserver_client_dispatch_def
    by (simp add: client_dispatch_single dispatch_message_single [of LOGIN "[]", simplified] dispatch_login_def)
qed


end
