(* ===== verification/Tx.thy ===== *)
theory Tx
  imports Gz_Prelude
begin

text \<open>
  Transactions of the application server, \<open>gzochi-server/src/tx.c\<close>: the participants that join the
  transaction of a thread, and the two phases in which the transaction ends.

  Participants are static structures of function pointers. A participant is an element of a type \<open>'p\<close>
  here, and \<open>tx_env\<close> says what its structure holds; the callbacks work on the state of the thread,
  whose part that does not belong to \<open>tx.c\<close> is the world \<open>'w\<close>. The data pointer a participant joins
  with is an address or \<open>NULL\<close>. The order in which GLib walks through a hash table is unknown, so
  it is a function of the keys. \<open>th_calls\<close> records the callbacks that were made.
\<close>

section \<open>State\<close>

type_synonym gpointer = "nat option"

datatype gzochid_transaction_state = Active | Preparing | Committing | Rolling_Back | Committed | Rolled_Back

datatype gzochid_transaction_result = Tx_Success | Tx_Failure | Tx_Should_Retry

record gzochid_transaction_timing =
  start_time :: timeval
  timeout :: "timeval option"

record 'p gzochid_transaction_participant_registration =
  reg_participant :: 'p
  reg_data :: gpointer
  reg_rollback :: bool
  reg_retryable :: bool

record 'p gzochid_transaction =
  tx_id :: guint64
  tx_participants :: "(cstring \<times> 'p gzochid_transaction_participant_registration) list"
  tx_state :: gzochid_transaction_state
  tx_timing :: "gzochid_transaction_timing option"

datatype tx_call = Prepare_Call cstring bool | Commit_Call cstring | Rollback_Call cstring

record ('p, 'w) tx_thread =
  th_transaction :: "'p gzochid_transaction option"
  th_timing :: "gzochid_transaction_timing option"
  th_counter :: guint64
  th_time :: nat
  th_calls :: "tx_call list"
  th_world :: 'w

record ('p, 'w) gzochid_transaction_participant =
  pt_name :: cstring
  pt_prepare :: "gpointer \<Rightarrow> ('p, 'w) tx_thread \<Rightarrow> (('p, 'w) tx_thread \<times> bool) option"
  pt_commit :: "gpointer \<Rightarrow> ('p, 'w) tx_thread \<Rightarrow> ('p, 'w) tx_thread option"
  pt_rollback :: "(gpointer \<Rightarrow> ('p, 'w) tx_thread \<Rightarrow> ('p, 'w) tx_thread option) option"

record ('p, 'w) tx_env =
  tx_participant :: "'p \<Rightarrow> ('p, 'w) gzochid_transaction_participant"
  hash_order :: "cstring list \<Rightarrow> cstring list"
  tx_clock :: "nat \<Rightarrow> timeval"

abbreviation participant_name :: "('p, 'w) tx_env \<Rightarrow> 'p \<Rightarrow> cstring" where
  "participant_name env p \<equiv> pt_name (tx_participant env p)"

section \<open>Operations\<close>

definition gettimeofday :: "('p, 'w) tx_env \<Rightarrow> ('p, 'w) tx_thread \<Rightarrow> ('p, 'w) tx_thread \<times> timeval" where
  "gettimeofday env st = (st\<lparr>th_time := Suc (th_time st)\<rparr>, tx_clock env (th_time st))"

text \<open>The \<open>timersub\<close> macro, and \<open>timercmp\<close> for \<open>>\<close>.\<close>

definition timersub :: "timeval \<Rightarrow> timeval \<Rightarrow> timeval" where
  "timersub a b =
     (let s = tv_sec a - tv_sec b; u = tv_usec a - tv_usec b
      in if u < 0 then \<lparr>tv_sec = s - 1, tv_usec = u + 1000000\<rparr> else \<lparr>tv_sec = s, tv_usec = u\<rparr>)"

definition timercmp_gt :: "timeval \<Rightarrow> timeval \<Rightarrow> bool" where
  "timercmp_gt a b = (if tv_sec a = tv_sec b then tv_usec a > tv_usec b else tv_sec a > tv_sec b)"

definition timerzero :: timeval where "timerzero = \<lparr>tv_sec = 0, tv_usec = 0\<rparr>"

definition transaction_new :: "('p, 'w) tx_thread \<Rightarrow> ('p, 'w) tx_thread \<times> 'p gzochid_transaction" where
  "transaction_new st =
     (st\<lparr>th_counter := th_counter st + 1\<rparr>,
      \<lparr>tx_id = th_counter st, tx_participants = [], tx_state = Active, tx_timing = None\<rparr>)"

text \<open>The rollback function is not stored.\<close>

definition gzochid_transaction_participant_new ::
    "cstring \<Rightarrow> (gpointer \<Rightarrow> ('p, 'w) tx_thread \<Rightarrow> (('p, 'w) tx_thread \<times> bool) option) \<Rightarrow>
     (gpointer \<Rightarrow> ('p, 'w) tx_thread \<Rightarrow> ('p, 'w) tx_thread option) \<Rightarrow>
     (gpointer \<Rightarrow> ('p, 'w) tx_thread \<Rightarrow> ('p, 'w) tx_thread option) \<Rightarrow> ('p, 'w) gzochid_transaction_participant" where
  "gzochid_transaction_participant_new name prep comm roll =
     \<lparr>pt_name = name, pt_prepare = prep, pt_commit = comm, pt_rollback = None\<rparr>"

definition gzochid_transaction_join ::
    "('p, 'w) tx_env \<Rightarrow> 'p \<Rightarrow> gpointer \<Rightarrow> ('p, 'w) tx_thread \<Rightarrow> ('p, 'w) tx_thread option" where
  "gzochid_transaction_join env participant user_data st = do {
     (st, transaction) \<leftarrow> (case th_transaction st of
         None \<Rightarrow>
           (let (st, transaction) = transaction_new st;
                transaction = transaction\<lparr>tx_timing := th_timing st\<rparr>
            in Some (st\<lparr>th_transaction := Some transaction\<rparr>, transaction))
       | Some transaction \<Rightarrow> if tx_state transaction = Active then Some (st, transaction) else None);
     let name = participant_name env participant;
     case map_of (tx_participants transaction) name of
       Some _ \<Rightarrow> Some st
     | None \<Rightarrow>
         Some (st\<lparr>th_transaction := Some (transaction\<lparr>tx_participants := tx_participants transaction @
           [(name, \<lparr>reg_participant = participant, reg_data = user_data, reg_rollback = False, reg_retryable = False\<rparr>)]\<rparr>)\<rparr>)
   }"

definition gzochid_transaction_context ::
    "('p, 'w) tx_env \<Rightarrow> 'p \<Rightarrow> ('p, 'w) tx_thread \<Rightarrow> gpointer option" where
  "gzochid_transaction_context env participant st = do {
     transaction \<leftarrow> th_transaction st;
     Some (case map_of (tx_participants transaction) (participant_name env participant) of
             None \<Rightarrow> None
           | Some registration \<Rightarrow> reg_data registration)
   }"

text \<open>
  The values of the table are pointers to registrations, of which the loops below only read the
  participant and the data pointer; these never change.
\<close>

definition g_hash_table_get_values :: "('k list \<Rightarrow> 'k list) \<Rightarrow> ('k \<times> 'v) list \<Rightarrow> 'v list" where
  "g_hash_table_get_values order table = List.map_filter (map_of table) (order (map fst table))"

definition set_state :: "gzochid_transaction_state \<Rightarrow> ('p, 'w) tx_thread \<Rightarrow> ('p, 'w) tx_thread" where
  "set_state s st = st\<lparr>th_transaction := map_option (tx_state_update (\<lambda>_. s)) (th_transaction st)\<rparr>"

definition record_call :: "tx_call \<Rightarrow> ('p, 'w) tx_thread \<Rightarrow> ('p, 'w) tx_thread" where
  "record_call c st = st\<lparr>th_calls := th_calls st @ [c]\<rparr>"

fun prepare_loop ::
    "('p, 'w) tx_env \<Rightarrow> 'p gzochid_transaction_participant_registration list \<Rightarrow> ('p, 'w) tx_thread \<Rightarrow>
     (('p, 'w) tx_thread \<times> bool) option" where
  "prepare_loop env [] st = Some (st, True)"
| "prepare_loop env (p # ps) st = do {
     (st, ok) \<leftarrow> pt_prepare (tx_participant env (reg_participant p)) (reg_data p) st;
     let st = record_call (Prepare_Call (participant_name env (reg_participant p)) ok) st;
     if \<not> ok then Some (st, False) else prepare_loop env ps st
   }"

definition prepare :: "('p, 'w) tx_env \<Rightarrow> ('p, 'w) tx_thread \<Rightarrow> (('p, 'w) tx_thread \<times> bool) option" where
  "prepare env st = do {
     transaction \<leftarrow> th_transaction st;
     prepare_loop env (g_hash_table_get_values (hash_order env) (tx_participants transaction)) (set_state Preparing st)
   }"

fun commit_loop ::
    "('p, 'w) tx_env \<Rightarrow> 'p gzochid_transaction_participant_registration list \<Rightarrow> ('p, 'w) tx_thread \<Rightarrow>
     ('p, 'w) tx_thread option" where
  "commit_loop env [] st = Some st"
| "commit_loop env (p # ps) st = do {
     st \<leftarrow> pt_commit (tx_participant env (reg_participant p)) (reg_data p) st;
     commit_loop env ps (record_call (Commit_Call (participant_name env (reg_participant p))) st)
   }"

definition commit :: "('p, 'w) tx_env \<Rightarrow> ('p, 'w) tx_thread \<Rightarrow> ('p, 'w) tx_thread option" where
  "commit env st = do {
     transaction \<leftarrow> th_transaction st;
     st \<leftarrow> commit_loop env (g_hash_table_get_values (hash_order env) (tx_participants transaction))
       (set_state Committing st);
     Some (set_state Committed st)
   }"

definition rollback_only :: "'p gzochid_transaction \<Rightarrow> bool" where
  "rollback_only transaction = list_ex (\<lambda>(k, p). reg_rollback p) (tx_participants transaction)"

definition retryable :: "'p gzochid_transaction \<Rightarrow> bool" where
  "retryable transaction =
     (\<not> list_ex (\<lambda>(k, p). reg_rollback p \<and> \<not> reg_retryable p) (tx_participants transaction))"

text \<open>A participant without a rollback function is called through a null pointer.\<close>

fun rollback_loop ::
    "('p, 'w) tx_env \<Rightarrow> 'p gzochid_transaction_participant_registration list \<Rightarrow> ('p, 'w) tx_thread \<Rightarrow>
     ('p, 'w) tx_thread option" where
  "rollback_loop env [] st = Some st"
| "rollback_loop env (p # ps) st = do {
     f \<leftarrow> pt_rollback (tx_participant env (reg_participant p));
     st \<leftarrow> f (reg_data p) st;
     rollback_loop env ps (record_call (Rollback_Call (participant_name env (reg_participant p))) st)
   }"

definition rollback :: "('p, 'w) tx_env \<Rightarrow> ('p, 'w) tx_thread \<Rightarrow> ('p, 'w) tx_thread option" where
  "rollback env st = do {
     transaction \<leftarrow> th_transaction st;
     st \<leftarrow> rollback_loop env (g_hash_table_get_values (hash_order env) (tx_participants transaction))
       (set_state Rolling_Back st);
     Some (set_state Rolled_Back st)
   }"

definition gzochid_transaction_mark_for_rollback ::
    "('p, 'w) tx_env \<Rightarrow> 'p \<Rightarrow> bool \<Rightarrow> ('p, 'w) tx_thread \<Rightarrow> ('p, 'w) tx_thread option" where
  "gzochid_transaction_mark_for_rollback env participant retry st = do {
     transaction \<leftarrow> th_transaction st;
     registration \<leftarrow> map_of (tx_participants transaction) (participant_name env participant);
     Some (st\<lparr>th_transaction := Some (transaction\<lparr>tx_participants :=
       map (\<lambda>(k, r). if k = participant_name env participant
                     then (k, r\<lparr>reg_rollback := True, reg_retryable := retry\<rparr>) else (k, r))
         (tx_participants transaction)\<rparr>)\<rparr>)
   }"

definition time_remaining ::
    "('p, 'w) tx_env \<Rightarrow> gzochid_transaction_timing \<Rightarrow> ('p, 'w) tx_thread \<Rightarrow> ('p, 'w) tx_thread \<times> timeval" where
  "time_remaining env timing st =
     (case timeout timing of
        None \<Rightarrow> (st, timerzero)
      | Some limit \<Rightarrow>
          (let (st, now) = gettimeofday env st;
               ret = timersub now (start_time timing)
           in (st, if timercmp_gt ret limit then timerzero else timersub limit ret)))"

definition gzochid_transaction_time_remaining ::
    "('p, 'w) tx_env \<Rightarrow> ('p, 'w) tx_thread \<Rightarrow> (('p, 'w) tx_thread \<times> timeval) option" where
  "gzochid_transaction_time_remaining env st = do {
     timing \<leftarrow> th_timing st;
     Some (time_remaining env timing st)
   }"

definition gzochid_transaction_begin ::
    "('p, 'w) tx_env \<Rightarrow> timeval option \<Rightarrow> ('p, 'w) tx_thread \<Rightarrow> ('p, 'w) tx_thread" where
  "gzochid_transaction_begin env limit st =
     (let (st, now) = gettimeofday env st
      in st\<lparr>th_timing := Some \<lparr>start_time = now, timeout = limit\<rparr>\<rparr>)"

definition out_of_time :: "gzochid_transaction_timing \<Rightarrow> timeval \<Rightarrow> bool" where
  "out_of_time timing remaining \<longleftrightarrow> timeout timing \<noteq> None \<and> tv_sec remaining \<le> 0 \<and> tv_usec remaining \<le> 0"

text \<open>The second reading of the clock is for a message of the log.\<close>

definition gzochid_transaction_end ::
    "('p, 'w) tx_env \<Rightarrow> ('p, 'w) tx_thread \<Rightarrow> (('p, 'w) tx_thread \<times> gzochid_transaction_result) option" where
  "gzochid_transaction_end env st =
     (let timing_ptr = th_timing st; st = st\<lparr>th_timing := None\<rparr>
      in case th_transaction st of
        None \<Rightarrow> Some (st, Tx_Success)
      | Some transaction \<Rightarrow> do {
          (st, prepared) \<leftarrow> (if rollback_only transaction then Some (st, False) else prepare env st);
          (st, success, should_retry) \<leftarrow>
            (if \<not> prepared then do {
               st \<leftarrow> rollback env st;
               Some (st, False, False)
             } else do {
               timing \<leftarrow> timing_ptr;
               let (st, remaining) = time_remaining env timing st;
               (st, success, should_retry) \<leftarrow>
                 (if out_of_time timing remaining then do { st \<leftarrow> rollback env st; Some (st, False, True) }
                  else do { st \<leftarrow> commit env st; Some (st, True, False) });
               let (st, tx_finish) = gettimeofday env st;
               Some (st, success, should_retry)
             });
          transaction \<leftarrow> th_transaction st;
          let should_retry = (should_retry \<or> \<not> success \<and> retryable transaction);
          Some (st\<lparr>th_transaction := None\<rparr>,
            if success then Tx_Success else if should_retry then Tx_Should_Retry else Tx_Failure)
        })"

definition gzochid_transaction_execute ::
    "('p, 'w) tx_env \<Rightarrow> (('p, 'w) tx_thread \<Rightarrow> ('p, 'w) tx_thread option) \<Rightarrow> ('p, 'w) tx_thread \<Rightarrow>
     (('p, 'w) tx_thread \<times> gzochid_transaction_result) option" where
  "gzochid_transaction_execute env func st = do {
     st \<leftarrow> func (gzochid_transaction_begin env None st);
     gzochid_transaction_end env st
   }"

definition gzochid_transaction_execute_timed ::
    "('p, 'w) tx_env \<Rightarrow> (('p, 'w) tx_thread \<Rightarrow> ('p, 'w) tx_thread option) \<Rightarrow> timeval \<Rightarrow> ('p, 'w) tx_thread \<Rightarrow>
     (('p, 'w) tx_thread \<times> gzochid_transaction_result) option" where
  "gzochid_transaction_execute_timed env func limit st = do {
     st \<leftarrow> func (gzochid_transaction_begin env (Some limit) st);
     gzochid_transaction_end env st
   }"

definition gzochid_transaction_active :: "('p, 'w) tx_thread \<Rightarrow> bool" where
  "gzochid_transaction_active st =
     (case th_transaction st of None \<Rightarrow> False | Some transaction \<Rightarrow> tx_state transaction = Active)"

definition gzochid_transaction_rollback_only :: "('p, 'w) tx_thread \<Rightarrow> bool option" where
  "gzochid_transaction_rollback_only st = map_option rollback_only (th_transaction st)"

definition gzochid_transaction_timed_out ::
    "('p, 'w) tx_env \<Rightarrow> ('p, 'w) tx_thread \<Rightarrow> (('p, 'w) tx_thread \<times> bool) option" where
  "gzochid_transaction_timed_out env st = do {
     transaction \<leftarrow> th_transaction st;
     timing \<leftarrow> tx_timing transaction;
     if timeout timing \<noteq> None
     then do {
       (st, remaining) \<leftarrow> gzochid_transaction_time_remaining env st;
       Some (st, tv_sec remaining \<le> 0 \<and> tv_usec remaining \<le> 0)
     }
     else Some (st, False)
   }"

definition gzochid_transaction_timed :: "('p, 'w) tx_thread \<Rightarrow> bool option" where
  "gzochid_transaction_timed st = map_option (\<lambda>timing. timeout timing \<noteq> None) (th_timing st)"

section \<open>Total correctness of partial results\<close>

text \<open>\<open>returns q P\<close>: the computation has a result, and it satisfies \<open>P\<close>.\<close>

definition returns :: "'a option \<Rightarrow> ('a \<Rightarrow> bool) \<Rightarrow> bool" where
  "returns q P \<longleftrightarrow> (\<exists>x. q = Some x \<and> P x)"

lemma returns_simps [simp]:
  "\<not> returns None P"
  "returns (Some x) P \<longleftrightarrow> P x"
  "returns (Option.bind q f) P \<longleftrightarrow> returns q (\<lambda>x. returns (f x) P)"
  "returns (map_option g q) P \<longleftrightarrow> returns q (\<lambda>x. P (g x))"
  by (cases q; auto simp: returns_def)+

lemma returns_mono: "returns q P \<Longrightarrow> (\<And>x. P x \<Longrightarrow> Q x) \<Longrightarrow> returns q Q"
  by (auto simp: returns_def)

lemma returns_elim: "returns q P \<Longrightarrow> (\<And>x. q = Some x \<Longrightarrow> P x \<Longrightarrow> R) \<Longrightarrow> R"
  by (auto simp: returns_def)

section \<open>Times\<close>

definition timer_ok :: "timeval \<Rightarrow> bool" where
  "timer_ok tv \<longleftrightarrow> 0 \<le> tv_usec tv \<and> tv_usec tv < 1000000"

definition usecs :: "timeval \<Rightarrow> int" where
  "usecs tv = tv_sec tv * 1000000 + tv_usec tv"

lemma timersub_usecs: "timer_ok a \<Longrightarrow> timer_ok b \<Longrightarrow> timer_ok (timersub a b) \<and> usecs (timersub a b) = usecs a - usecs b"
  by (auto simp: timer_ok_def usecs_def timersub_def Let_def algebra_simps)

lemma timercmp_gt_usecs: "timer_ok a \<Longrightarrow> timer_ok b \<Longrightarrow> timercmp_gt a b \<longleftrightarrow> usecs b < usecs a"
  by (auto simp: timer_ok_def usecs_def timercmp_gt_def)

lemma timer_pos:
  assumes "timer_ok a" and "0 \<le> usecs a"
  shows "(tv_sec a > 0 \<or> tv_usec a > 0) \<longleftrightarrow> usecs a > 0"
proof -
  have "0 \<le> tv_sec a" using assms by (simp add: timer_ok_def usecs_def)
  then show ?thesis using assms by (cases "tv_sec a = 0") (auto simp: timer_ok_def usecs_def)
qed

text \<open>There is time left exactly while less than the limit has passed.\<close>

lemma time_left:
  assumes "timeout timing = Some limit" and "timer_ok limit" and "timer_ok (start_time timing)" and "timer_ok (tx_clock env (th_time st))"
  shows "snd (time_remaining env timing st) = r \<Longrightarrow>
    (tv_sec r > 0 \<or> tv_usec r > 0) \<longleftrightarrow> usecs (tx_clock env (th_time st)) - usecs (start_time timing) < usecs limit"
proof -
  let ?now = "tx_clock env (th_time st)"
  let ?e = "timersub ?now (start_time timing)"
  have e: "timer_ok ?e" "usecs ?e = usecs ?now - usecs (start_time timing)"
    using timersub_usecs [OF assms(4,3)] by simp_all
  have r: "timer_ok (timersub limit ?e)" "usecs (timersub limit ?e) = usecs limit - usecs ?e"
    using timersub_usecs [OF assms(2) e(1)] by simp_all
  assume "snd (time_remaining env timing st) = r"
  then have "r = (if usecs limit < usecs ?e then timerzero else timersub limit ?e)"
    using assms(1) timercmp_gt_usecs [OF e(1) assms(2)] by (simp add: time_remaining_def gettimeofday_def Let_def)
  then show ?thesis
    using timer_pos [OF r(1)] r(2) e(2) by (auto simp: timerzero_def)
qed

section \<open>The transaction of a thread\<close>

text \<open>What the operations keep: a table without duplicates, keyed by the names of the participants.\<close>

definition tx_wf :: "('p, 'w) tx_env \<Rightarrow> 'p gzochid_transaction \<Rightarrow> bool" where
  "tx_wf env t \<longleftrightarrow> distinct (map fst (tx_participants t))
     \<and> (\<forall>(k, r) \<in> set (tx_participants t). k = participant_name env (reg_participant r))"

definition thread_wf :: "('p, 'w) tx_env \<Rightarrow> ('p, 'w) tx_thread \<Rightarrow> bool" where
  "thread_wf env st \<longleftrightarrow> (\<forall>t. th_transaction st = Some t \<longrightarrow> tx_wf env t \<and> tx_state t = Active)"

lemma join_wf:
  assumes "thread_wf env st"
  shows "returns (gzochid_transaction_join env p d st) (\<lambda>st'. thread_wf env st' \<and> gzochid_transaction_active st'
    \<and> th_world st' = th_world st \<and> th_timing st' = th_timing st \<and> th_calls st' = th_calls st)"
  using assms
  by (cases "th_transaction st")
    (auto simp: gzochid_transaction_join_def transaction_new_def thread_wf_def tx_wf_def gzochid_transaction_active_def
      map_of_eq_None_iff Let_def split: option.splits)

lemma mark_wf:
  assumes "thread_wf env st" and "gzochid_transaction_mark_for_rollback env p retry st = Some st'"
  shows "thread_wf env st'"
  using assms
  by (auto simp: gzochid_transaction_mark_for_rollback_def thread_wf_def tx_wf_def bind_eq_Some_conv o_def
      split_beta if_distrib cong: if_cong)

text \<open>The registrations in the order of the hash table.\<close>

abbreviation registrations :: "('p, 'w) tx_env \<Rightarrow> 'p gzochid_transaction \<Rightarrow> 'p gzochid_transaction_participant_registration list" where
  "registrations env t \<equiv> g_hash_table_get_values (hash_order env) (tx_participants t)"

text \<open>What a callback leaves alone: the registrations but for their flags, the state and the calls.\<close>

definition reg_pair :: "'p gzochid_transaction_participant_registration \<Rightarrow> 'p \<times> gpointer" where
  "reg_pair r = (reg_participant r, reg_data r)"

definition reg_frame :: "'p gzochid_transaction \<Rightarrow> (cstring \<times> 'p \<times> gpointer) list" where
  "reg_frame t = map (\<lambda>(k, r). (k, reg_pair r)) (tx_participants t)"

lemma get_values_map:
  "map f (g_hash_table_get_values order table) = g_hash_table_get_values order (map (\<lambda>(k, r). (k, f r)) table)"
proof -
  have "map fst (map (\<lambda>(k, r). (k, f r)) table) = map fst table" by auto
  then show ?thesis
    by (simp add: g_hash_table_get_values_def map_of_map map_filter_def comp_def option.map_sel filter_map
        cong: map_cong)
qed

lemma frame_registrations: "map reg_pair (registrations env t) = g_hash_table_get_values (hash_order env) (reg_frame t)"
  by (simp add: get_values_map reg_frame_def)

lemma tx_wf_frame:
  "tx_wf env t \<longleftrightarrow> distinct (map fst (reg_frame t)) \<and> (\<forall>(k, p, d) \<in> set (reg_frame t). k = participant_name env p)"
  by (auto simp: tx_wf_def reg_frame_def reg_pair_def o_def split_beta)

definition kept :: "('p, 'w) tx_thread \<Rightarrow> ('p, 'w) tx_thread \<Rightarrow> bool" where
  "kept st st' \<longleftrightarrow> map_option reg_frame (th_transaction st') = map_option reg_frame (th_transaction st)
     \<and> th_timing st' = th_timing st"

lemma kept_trans: "kept st st' \<Longrightarrow> kept st' st'' \<Longrightarrow> kept st st''"
  by (simp add: kept_def)

lemma kept_refl [simp]: "kept st st"
  by (simp add: kept_def)

lemma reg_frame_state [simp]: "reg_frame (t\<lparr>tx_state := s\<rparr>) = reg_frame t"
  by (simp add: reg_frame_def)

lemma kept_updates [simp]:
  "kept st (record_call c st') \<longleftrightarrow> kept st st'" "kept (record_call c st) st' \<longleftrightarrow> kept st st'"
  "kept st (set_state s st') \<longleftrightarrow> kept st st'" "kept (set_state s st) st' \<longleftrightarrow> kept st st'"
  "kept st (st'\<lparr>th_time := n\<rparr>) \<longleftrightarrow> kept st st'"
  by (simp_all add: kept_def record_call_def set_state_def option.map_comp o_def)

lemma world_updates [simp]:
  "th_world (record_call c st) = th_world st" "th_world (set_state s st) = th_world st"
  "th_calls (record_call c st) = th_calls st @ [c]" "th_calls (set_state s st) = th_calls st"
  by (simp_all add: record_call_def set_state_def)

lemma apart:
  assumes "distinct (map f (qs @ r # rs))"
  shows "(\<forall>x \<in> set qs. f x \<noteq> f r) \<and> (\<forall>x \<in> set rs. f x \<noteq> f r)"
proof -
  have "f r \<notin> f ` set qs" "f r \<notin> f ` set rs" using assms by auto
  then show ?thesis by (metis imageI)
qed

section \<open>What participants promise, and the two phases\<close>

text \<open>
  The contract of the participants of a transaction. A registration \<open>(p, d)\<close> is \<open>joined\<close> when it can be
  rolled back and \<open>ready\<close> when it can be prepared; a successful preparation makes it \<open>prepared\<close>, which is
  what a commit needs. \<open>durable w p\<close> is the state of the participant outside of transactions, \<open>intent p d w\<close>
  what it will be after a commit. A participant neither looks at nor touches what belongs to another.
\<close>

locale participant_contract =
  fixes env :: "('p, 'w) tx_env"
    and joined ready prepared :: "'p \<Rightarrow> gpointer \<Rightarrow> 'w \<Rightarrow> bool"
    and intent :: "'p \<Rightarrow> gpointer \<Rightarrow> 'w \<Rightarrow> 'a"
    and durable :: "'w \<Rightarrow> 'p \<Rightarrow> 'a"
    and others :: "'p \<Rightarrow> 'w \<Rightarrow> 'w \<Rightarrow> bool"
  assumes names: "participant_name env p = participant_name env q \<Longrightarrow> p = q"
    and order: "distinct ks \<Longrightarrow> distinct (hash_order env ks) \<and> set (hash_order env ks) = set ks"
    and ready_joined: "ready p d w \<Longrightarrow> joined p d w"
    and prepared_joined: "prepared p d w \<Longrightarrow> joined p d w"
    and others: "others p w w' \<Longrightarrow> q \<noteq> p \<Longrightarrow>
      (joined q e w \<longrightarrow> joined q e w') \<and> (ready q e w \<longrightarrow> ready q e w') \<and> (prepared q e w \<longrightarrow> prepared q e w')
      \<and> intent q e w' = intent q e w"
    and prepare_ok: "ready p d (th_world st) \<Longrightarrow> th_transaction st \<noteq> None \<Longrightarrow>
      returns (pt_prepare (tx_participant env p) d st) (\<lambda>(st', ok). kept st st' \<and> th_calls st' = th_calls st
        \<and> others p (th_world st) (th_world st') \<and> durable (th_world st') = durable (th_world st)
        \<and> joined p d (th_world st')
        \<and> (ok \<longrightarrow> prepared p d (th_world st') \<and> intent p d (th_world st') = intent p d (th_world st)))"
    and commit_ok: "prepared p d (th_world st) \<Longrightarrow>
      returns (pt_commit (tx_participant env p) d st) (\<lambda>st'. kept st st' \<and> th_calls st' = th_calls st
        \<and> others p (th_world st) (th_world st')
        \<and> durable (th_world st') = (durable (th_world st))(p := intent p d (th_world st)))"
    and rollback_ok: "joined p d (th_world st) \<Longrightarrow>
      returns (pt_rollback (tx_participant env p)) (\<lambda>f. returns (f d st) (\<lambda>st'. kept st st'
        \<and> th_calls st' = th_calls st \<and> others p (th_world st) (th_world st')
        \<and> durable (th_world st') = durable (th_world st)))"
begin

definition all_regs :: "('p \<Rightarrow> gpointer \<Rightarrow> 'w \<Rightarrow> bool) \<Rightarrow> 'p gzochid_transaction_participant_registration list \<Rightarrow> 'w \<Rightarrow> bool" where
  "all_regs P rs w \<longleftrightarrow> (\<forall>r \<in> set rs. P (reg_participant r) (reg_data r) w)"

definition same_intents :: "'p gzochid_transaction_participant_registration list \<Rightarrow> 'w \<Rightarrow> 'w \<Rightarrow> bool" where
  "same_intents rs w w' \<longleftrightarrow>
     (\<forall>r \<in> set rs. intent (reg_participant r) (reg_data r) w' = intent (reg_participant r) (reg_data r) w)"

lemma others_regs:
  assumes "others p w w'" and "\<forall>r \<in> set rs. reg_participant r \<noteq> p"
  shows "all_regs joined rs w \<Longrightarrow> all_regs joined rs w'" and "all_regs ready rs w \<Longrightarrow> all_regs ready rs w'"
    and "all_regs prepared rs w \<Longrightarrow> all_regs prepared rs w'" and "same_intents rs w w'"
  using others [OF assms(1)] assms(2) unfolding all_regs_def same_intents_def by blast+

lemma prepare_loop_ok:
  assumes "distinct (map reg_participant (qs @ rs))" and "all_regs prepared qs (th_world st)"
    and "all_regs ready rs (th_world st)" and "th_transaction st \<noteq> None"
  shows "returns (prepare_loop env rs st) (\<lambda>(st', ok). kept st st' \<and> durable (th_world st') = durable (th_world st)
    \<and> all_regs joined (qs @ rs) (th_world st')
    \<and> (\<exists>cs. th_calls st' = th_calls st @ cs \<and> (\<forall>c \<in> set cs. \<exists>n b. c = Prepare_Call n b)
        \<and> (ok \<longrightarrow> all_regs prepared (qs @ rs) (th_world st') \<and> same_intents (qs @ rs) (th_world st) (th_world st')
            \<and> cs = map (\<lambda>r. Prepare_Call (participant_name env (reg_participant r)) True) rs)))"
  using assms
proof (induction rs arbitrary: qs st)
  case Nil
  then show ?case by (auto simp: all_regs_def same_intents_def intro: prepared_joined)
next
  case (Cons r rs)
  let ?p = "reg_participant r" and ?d = "reg_data r" and ?w = "th_world st"
  have rd: "ready ?p ?d ?w" using Cons.prems(3) by (simp add: all_regs_def)
  obtain st1 ok where st1: "pt_prepare (tx_participant env ?p) ?d st = Some (st1, ok)"
    and k: "kept st st1" "th_calls st1 = th_calls st" and o: "others ?p ?w (th_world st1)"
    and du: "durable (th_world st1) = durable ?w" and j: "joined ?p ?d (th_world st1)"
    and p: "ok \<Longrightarrow> prepared ?p ?d (th_world st1) \<and> intent ?p ?d (th_world st1) = intent ?p ?d ?w"
    using prepare_ok [OF rd Cons.prems(4)] by (auto simp: returns_def)
  have ne: "\<forall>x \<in> set qs. reg_participant x \<noteq> ?p" "\<forall>x \<in> set rs. reg_participant x \<noteq> ?p"
    using apart [OF Cons.prems(1)] by simp_all
  have rs: "all_regs ready rs (th_world st1)" "same_intents rs ?w (th_world st1)"
    and qs: "all_regs prepared qs (th_world st1)" "same_intents qs ?w (th_world st1)"
    using others_regs [OF o ne(2)] others_regs [OF o ne(1)] Cons.prems(2,3) by (simp_all add: all_regs_def)
  let ?st = "record_call (Prepare_Call (participant_name env ?p) ok) st1"
  show ?case
  proof (cases ok)
    case False
    then show ?thesis using st1 k du j rs(1) qs(1)
      by (auto simp: all_regs_def intro: ready_joined prepared_joined)
  next
    case True
    have "returns (prepare_loop env rs ?st) (\<lambda>(st', ok). kept ?st st' \<and> durable (th_world st') = durable (th_world ?st)
      \<and> all_regs joined ((qs @ [r]) @ rs) (th_world st')
      \<and> (\<exists>cs. th_calls st' = th_calls ?st @ cs \<and> (\<forall>c \<in> set cs. \<exists>n b. c = Prepare_Call n b)
        \<and> (ok \<longrightarrow> all_regs prepared ((qs @ [r]) @ rs) (th_world st')
            \<and> same_intents ((qs @ [r]) @ rs) (th_world ?st) (th_world st')
            \<and> cs = map (\<lambda>r. Prepare_Call (participant_name env (reg_participant r)) True) rs)))"
      by (rule Cons.IH) (use Cons.prems(1,4) qs(1) rs(1) p k(1) True in \<open>auto simp: all_regs_def kept_def record_call_def\<close>)
    then obtain st2 ok2 cs where "prepare_loop env rs ?st = Some (st2, ok2)" "kept st1 st2"
      "durable (th_world st2) = durable (th_world st1)" "all_regs joined (qs @ r # rs) (th_world st2)"
      "th_calls st2 = th_calls ?st @ cs" "\<forall>c \<in> set cs. \<exists>n b. c = Prepare_Call n b"
      "ok2 \<Longrightarrow> all_regs prepared (qs @ r # rs) (th_world st2) \<and> same_intents (qs @ r # rs) (th_world st1) (th_world st2)
        \<and> cs = map (\<lambda>r. Prepare_Call (participant_name env (reg_participant r)) True) rs"
      by (auto simp: returns_def)
    then show ?thesis
      using True st1 k du p rs(2) qs(2) kept_trans [OF k(1)] by (auto simp: same_intents_def)
  qed
qed

lemma commit_loop_ok:
  assumes "distinct (map reg_participant rs)" and "all_regs prepared rs (th_world st)"
  shows "returns (commit_loop env rs st) (\<lambda>st'. kept st st'
    \<and> th_calls st' = th_calls st @ map (\<lambda>r. Commit_Call (participant_name env (reg_participant r))) rs
    \<and> (\<forall>r \<in> set rs. durable (th_world st') (reg_participant r) = intent (reg_participant r) (reg_data r) (th_world st))
    \<and> (\<forall>p. p \<notin> reg_participant ` set rs \<longrightarrow> durable (th_world st') p = durable (th_world st) p))"
  using assms
proof (induction rs arbitrary: st)
  case Nil
  then show ?case by simp
next
  case (Cons r rs)
  let ?p = "reg_participant r" and ?d = "reg_data r" and ?w = "th_world st"
  have pr: "prepared ?p ?d ?w" using Cons.prems(2) by (simp add: all_regs_def)
  obtain st1 where st1: "pt_commit (tx_participant env ?p) ?d st = Some st1"
    and k: "kept st st1" "th_calls st1 = th_calls st" and o: "others ?p ?w (th_world st1)"
    and du: "durable (th_world st1) = (durable ?w)(?p := intent ?p ?d ?w)"
    using returns_elim [OF commit_ok [OF pr]] by metis
  have ne: "\<forall>x \<in> set rs. reg_participant x \<noteq> ?p"
    using apart [of reg_participant "[]", simplified append_Nil, OF Cons.prems(1)] by simp
  have rs: "all_regs prepared rs (th_world st1)" "same_intents rs ?w (th_world st1)"
    using others_regs [OF o ne] Cons.prems(2) by (simp_all add: all_regs_def)
  let ?st = "record_call (Commit_Call (participant_name env ?p)) st1"
  have "returns (commit_loop env rs ?st) (\<lambda>st'. kept ?st st'
    \<and> th_calls st' = th_calls ?st @ map (\<lambda>r. Commit_Call (participant_name env (reg_participant r))) rs
    \<and> (\<forall>r \<in> set rs. durable (th_world st') (reg_participant r) = intent (reg_participant r) (reg_data r) (th_world ?st))
    \<and> (\<forall>p. p \<notin> reg_participant ` set rs \<longrightarrow> durable (th_world st') p = durable (th_world ?st) p))"
    by (rule Cons.IH) (use Cons.prems(1) rs(1) in auto)
  moreover have "?p \<notin> reg_participant ` set rs" using Cons.prems(1) by simp
  ultimately show ?case
    using st1 k du rs(2) by (auto simp: returns_def same_intents_def intro: kept_trans)
qed

lemma rollback_loop_ok:
  assumes "distinct (map reg_participant rs)" and "all_regs joined rs (th_world st)"
  shows "returns (rollback_loop env rs st) (\<lambda>st'. kept st st'
    \<and> th_calls st' = th_calls st @ map (\<lambda>r. Rollback_Call (participant_name env (reg_participant r))) rs
    \<and> durable (th_world st') = durable (th_world st))"
  using assms
proof (induction rs arbitrary: st)
  case Nil
  then show ?case by simp
next
  case (Cons r rs)
  let ?p = "reg_participant r" and ?d = "reg_data r" and ?w = "th_world st"
  have j: "joined ?p ?d ?w" using Cons.prems(2) by (simp add: all_regs_def)
  obtain f st1 where st1: "pt_rollback (tx_participant env ?p) = Some f" "f ?d st = Some st1"
    and k: "kept st st1" "th_calls st1 = th_calls st" and o: "others ?p ?w (th_world st1)"
    and du: "durable (th_world st1) = durable ?w"
    using rollback_ok [OF j] unfolding returns_def by metis
  have ne: "\<forall>x \<in> set rs. reg_participant x \<noteq> ?p"
    using apart [of reg_participant "[]", simplified append_Nil, OF Cons.prems(1)] by simp
  have rs: "all_regs joined rs (th_world st1)"
    using others_regs(1) [OF o ne] Cons.prems(2) by (simp add: all_regs_def)
  show ?case
    using Cons.IH [of "record_call (Rollback_Call (participant_name env ?p)) st1"] Cons.prems(1) rs st1 k du
    by (auto simp: returns_def intro: kept_trans)
qed

lemma regs_distinct:
  assumes "tx_wf env t"
  shows "distinct (map reg_participant (registrations env t))"
    and "set (registrations env t) = snd ` set (tx_participants t)"
proof -
  let ?tab = "tx_participants t" and ?f = "\<lambda>k. the (map_of (tx_participants t) k)"
  have d: "distinct (map fst ?tab)" and n: "\<And>k r. (k, r) \<in> set ?tab \<Longrightarrow> k = participant_name env (reg_participant r)"
    using assms by (auto simp: tx_wf_def)
  let ?ks = "hash_order env (map fst ?tab)"
  have ks: "distinct ?ks" "set ?ks = fst ` set ?tab" using order [OF d] by auto
  have m: "map_of ?tab k = Some (?f k)" if "k \<in> set ?ks" for k
    using that ks(2) by (metis map_of_eq_None_iff option.collapse)
  have n': "participant_name env (reg_participant (?f k)) = k" if "k \<in> set ?ks" for k
    using n [OF map_of_SomeD [OF m [OF that]]] by simp
  have r: "registrations env t = map ?f ?ks"
  proof -
    have "filter (\<lambda>k. map_of ?tab k \<noteq> None) ?ks = ?ks" using m by (force simp: filter_id_conv)
    then show ?thesis by (simp add: g_hash_table_get_values_def map_filter_def comp_def)
  qed
  have "inj_on (\<lambda>k. reg_participant (?f k)) (set ?ks)"
    by (rule inj_onI) (metis n')
  then show "distinct (map reg_participant (registrations env t))"
    using ks(1) by (simp add: r distinct_map o_def)
  show "set (registrations env t) = snd ` set ?tab"
  proof
    show "set (registrations env t) \<subseteq> snd ` set ?tab"
      using map_of_SomeD [OF m] by (force simp: r)
    show "snd ` set ?tab \<subseteq> set (registrations env t)"
    proof
      fix v
      assume "v \<in> snd ` set ?tab"
      then obtain k where "(k, v) \<in> set ?tab" by auto
      then have "v = ?f k" "k \<in> set ?ks" using d ks(2) by (auto intro: rev_image_eqI)
      then show "v \<in> set (registrations env t)" by (auto simp: r)
    qed
  qed
qed

lemma kept_registrations:
  assumes "kept st st'" and "th_transaction st = Some t"
  obtains t' where "th_transaction st' = Some t'" and "tx_wf env t' = tx_wf env t"
    and "map reg_pair (registrations env t') = map reg_pair (registrations env t)"
proof -
  obtain t' where t': "th_transaction st' = Some t'" "reg_frame t' = reg_frame t"
    using assms by (auto simp: kept_def)
  have "tx_wf env t' = tx_wf env t"
    using t'(2) by (simp add: tx_wf_frame)
  moreover have "map reg_pair (registrations env t') = map reg_pair (registrations env t)"
    using t'(2) by (simp add: frame_registrations)
  ultimately show thesis using that t'(1) by blast
qed

definition reg_names :: "'p gzochid_transaction \<Rightarrow> cstring list" where
  "reg_names t = map (\<lambda>(p, d). participant_name env p) (map reg_pair (registrations env t))"

lemma reg_calls: "map (\<lambda>r. g (participant_name env (reg_participant r))) (registrations env t) = map g (reg_names t)"
  by (simp add: reg_names_def reg_pair_def)

definition tx_regs :: "('p \<Rightarrow> gpointer \<Rightarrow> 'w \<Rightarrow> bool) \<Rightarrow> 'p gzochid_transaction \<Rightarrow> 'w \<Rightarrow> bool" where
  "tx_regs P t w \<longleftrightarrow> (\<forall>(p, d) \<in> set (map reg_pair (registrations env t)). P p d w)"

lemma tx_regs_all: "tx_regs P t w \<longleftrightarrow> all_regs P (registrations env t) w"
  by (auto simp: tx_regs_def all_regs_def reg_pair_def)

text \<open>The durable state after a commit: the intents of the participants, and nothing else changes.\<close>

definition all_durable :: "'p gzochid_transaction \<Rightarrow> 'w \<Rightarrow> 'w \<Rightarrow> bool" where
  "all_durable t w w' \<longleftrightarrow> (\<forall>(p, d) \<in> set (map reg_pair (registrations env t)). durable w' p = intent p d w)
     \<and> (\<forall>p. p \<notin> fst ` set (map reg_pair (registrations env t)) \<longrightarrow> durable w' p = durable w p)"

lemma prepare_returns:
  assumes "th_transaction st = Some t" and "tx_wf env t" and "tx_regs ready t (th_world st)"
  shows "returns (prepare env st) (\<lambda>(st', ok). kept st st' \<and> durable (th_world st') = durable (th_world st)
    \<and> tx_regs joined t (th_world st')
    \<and> (\<exists>cs. th_calls st' = th_calls st @ cs \<and> (\<forall>c \<in> set cs. \<exists>n b. c = Prepare_Call n b)
      \<and> (ok \<longrightarrow> tx_regs prepared t (th_world st')
          \<and> (\<forall>w. all_durable t (th_world st') w \<longleftrightarrow> all_durable t (th_world st) w)
          \<and> cs = map (\<lambda>n. Prepare_Call n True) (reg_names t))))"
proof -
  have "distinct (map reg_participant ([] @ registrations env t))"
    using regs_distinct(1) [OF assms(2)] by simp
  from prepare_loop_ok [OF this, of "set_state Preparing st"] assms
  have "returns (prepare env st) (\<lambda>(st', ok). kept st st' \<and> durable (th_world st') = durable (th_world st)
    \<and> all_regs joined (registrations env t) (th_world st')
    \<and> (\<exists>cs. th_calls st' = th_calls st @ cs \<and> (\<forall>c \<in> set cs. \<exists>n b. c = Prepare_Call n b)
      \<and> (ok \<longrightarrow> all_regs prepared (registrations env t) (th_world st')
          \<and> same_intents (registrations env t) (th_world st) (th_world st')
          \<and> cs = map (\<lambda>n. Prepare_Call n True) (reg_names t))))"
    by (simp add: prepare_def tx_regs_all reg_calls [of "\<lambda>n. Prepare_Call n True"]) (simp add: all_regs_def set_state_def)
  then show ?thesis
    by (rule returns_mono) (auto simp: tx_regs_all same_intents_def all_durable_def reg_pair_def)
qed

lemma commit_returns:
  assumes "th_transaction st = Some t" and "tx_wf env t" and "tx_regs prepared t (th_world st)"
  shows "returns (commit env st) (\<lambda>st'. kept st st' \<and> th_calls st' = th_calls st @ map Commit_Call (reg_names t)
    \<and> all_durable t (th_world st) (th_world st'))"
proof -
  from commit_loop_ok [OF regs_distinct(1) [OF assms(2)], of "set_state Committing st"] assms
  have "returns (commit env st) (\<lambda>st'. kept st st' \<and> th_calls st' = th_calls st @ map Commit_Call (reg_names t)
    \<and> (\<forall>r \<in> set (registrations env t). durable (th_world st') (reg_participant r)
        = intent (reg_participant r) (reg_data r) (th_world st))
    \<and> (\<forall>p. p \<notin> reg_participant ` set (registrations env t) \<longrightarrow> durable (th_world st') p = durable (th_world st) p))"
    by (simp add: commit_def tx_regs_all reg_calls)
  then show ?thesis
    by (rule returns_mono) (auto simp: all_durable_def reg_pair_def image_image)
qed

lemma rollback_returns:
  assumes "th_transaction st = Some t" and "tx_wf env t" and "tx_regs joined t (th_world st)"
  shows "returns (rollback env st) (\<lambda>st'. kept st st' \<and> th_calls st' = th_calls st @ map Rollback_Call (reg_names t)
    \<and> durable (th_world st') = durable (th_world st))"
  using rollback_loop_ok [OF regs_distinct(1) [OF assms(2)], of "set_state Rolling_Back st"] assms
  by (simp add: rollback_def tx_regs_all reg_calls)

text \<open>
  The end of a transaction: it returns, and either all participants have gone from their durable
  state to their intent or none has.
\<close>

lemma end_returns:
  assumes "th_transaction st = Some t" and "tx_wf env t" and "th_timing st \<noteq> None"
    and "tx_regs joined t (th_world st)" and "\<not> rollback_only t \<Longrightarrow> tx_regs ready t (th_world st)"
  shows "returns (gzochid_transaction_end env st) (\<lambda>(st', res). th_transaction st' = None \<and> th_timing st' = None
    \<and> (if res = Tx_Success
       then \<not> rollback_only t \<and> all_durable t (th_world st) (th_world st')
         \<and> th_calls st' = th_calls st @ map (\<lambda>n. Prepare_Call n True) (reg_names t) @ map Commit_Call (reg_names t)
       else durable (th_world st') = durable (th_world st)
         \<and> (\<exists>cs. th_calls st' = th_calls st @ cs @ map Rollback_Call (reg_names t)
             \<and> (\<forall>c \<in> set cs. \<exists>n b. c = Prepare_Call n b))))"
proof -
  let ?st = "st\<lparr>th_timing := None\<rparr>"
  have t: "th_transaction ?st = Some t" using assms(1) by simp
  have after: "(\<exists>t'. th_transaction s = Some t') \<and> th_timing s = None" if "kept ?st s" for s
    using that t by (auto simp: kept_def)
  have roll: "returns (rollback env s) (\<lambda>s'. ((\<exists>t'. th_transaction s' = Some t') \<and> th_timing s' = None) \<and> th_calls s' = th_calls s @ map Rollback_Call (reg_names t)
      \<and> durable (th_world s') = durable (th_world s))"
    if k: "kept ?st s" and j: "tx_regs joined t (th_world s)" for s
  proof -
    obtain t' where t': "th_transaction s = Some t'" "tx_wf env t'"
        "map reg_pair (registrations env t') = map reg_pair (registrations env t)"
      using kept_registrations [OF k t] assms(2) by blast
    then have "reg_names t' = reg_names t" "tx_regs joined t' (th_world s)"
      using j unfolding reg_names_def tx_regs_def by simp_all
    with t'(1,2) show ?thesis
      using rollback_returns [of s t'] after [OF kept_trans [OF k]] by (auto elim!: returns_mono)
  qed
  have comm: "returns (commit env s) (\<lambda>s'. ((\<exists>t'. th_transaction s' = Some t') \<and> th_timing s' = None) \<and> th_calls s' = th_calls s @ map Commit_Call (reg_names t)
      \<and> all_durable t (th_world s) (th_world s'))"
    if k: "kept ?st s" and j: "tx_regs prepared t (th_world s)" for s
  proof -
    obtain t' where t': "th_transaction s = Some t'" "tx_wf env t'"
        "map reg_pair (registrations env t') = map reg_pair (registrations env t)"
      using kept_registrations [OF k t] assms(2) by blast
    then have "reg_names t' = reg_names t" "tx_regs prepared t' (th_world s)"
        "all_durable t' (th_world s) w' = all_durable t (th_world s) w'" for w'
      using j unfolding reg_names_def tx_regs_def all_durable_def by simp_all
    with t'(1,2) show ?thesis
      using commit_returns [of s t'] after [OF kept_trans [OF k]] by (auto elim!: returns_mono)
  qed
  obtain timing where timing: "th_timing st = Some timing" using assms(3) by blast
  show ?thesis
  proof (cases "rollback_only t")
    case True
    obtain s t' where "rollback env ?st = Some s" "th_transaction s = Some t'" "th_timing s = None"
      "th_calls s = th_calls st @ map Rollback_Call (reg_names t)" "durable (th_world s) = durable (th_world st)"
      using roll [of ?st] assms(4) by (auto simp: returns_def)
    then show ?thesis
      using True assms(1) by (simp add: gzochid_transaction_end_def)
  next
    case False
    obtain s ok cs where s: "prepare env ?st = Some (s, ok)" "kept ?st s" "durable (th_world s) = durable (th_world st)"
      "tx_regs joined t (th_world s)" "th_calls s = th_calls st @ cs" "\<forall>c \<in> set cs. \<exists>n b. c = Prepare_Call n b"
      and ok: "ok \<Longrightarrow> tx_regs prepared t (th_world s) \<and> (\<forall>w. all_durable t (th_world s) w \<longleftrightarrow> all_durable t (th_world st) w)
        \<and> cs = map (\<lambda>n. Prepare_Call n True) (reg_names t)"
      using prepare_returns [OF t assms(2)] assms(5) [OF False] by (auto simp: returns_def)
    obtain s1 rem where s1: "time_remaining env timing s = (s1, rem)" by fastforce
    then have k1: "kept ?st s1" "th_world s1 = th_world s" "th_calls s1 = th_calls s"
      using s(2) by (auto simp: time_remaining_def gettimeofday_def Let_def split: option.splits)
    show ?thesis
    proof (cases "ok \<and> \<not> out_of_time timing rem")
      case True
      obtain s2 t' where "commit env s1 = Some s2" "th_transaction s2 = Some t'" "th_timing s2 = None"
        "th_calls s2 = th_calls s @ map Commit_Call (reg_names t)" "all_durable t (th_world s) (th_world s2)"
        using comm [OF k1(1)] True ok k1 by (auto simp: returns_def)
      then show ?thesis
        using s ok s1 timing assms(1) True False by (simp add: gzochid_transaction_end_def gettimeofday_def)
    next
      case nc: False
      obtain s2 t' where "rollback env (if ok then s1 else s) = Some s2" "th_transaction s2 = Some t'" "th_timing s2 = None"
        "th_calls s2 = th_calls s @ map Rollback_Call (reg_names t)" "durable (th_world s2) = durable (th_world st)"
        using roll [OF s(2,4)] roll [OF k1(1)] s(3,4) k1 by (cases ok) (auto simp: returns_def)
      then show ?thesis
        using s s1 timing assms(1) False nc
        by (cases ok) (simp_all add: gzochid_transaction_end_def gettimeofday_def)
    qed
  qed
qed

end

end
