(* ===== verification/Participants.thy ===== *)
theory Participants
  imports Tx Dataserver
begin

text \<open>
  The part of an application server that takes part in transactions: the application context of
  \<open>app.h\<close>, and the callbacks of the participants of \<open>gzochi-server/src/data.c\<close> and
  \<open>gzochi-server/src/txlog.c\<close>.

  Structures that are allocated and freed (transaction contexts, managed references) live in stores
  that map addresses to them; an address is never used twice, and a freed one is mapped to nothing, so
  that an access through it is a fault. The objects of the game live in a memory \<open>'m\<close>, which only
  the serialization functions read and write; these are arguments of the model.
\<close>

section \<open>State\<close>

text \<open>
  The functions of a storage engine that only the application server uses. The result of
  \<open>transaction_delete\<close> is a function of its own.
\<close>

datatype storage_status = Storage_Ok | Storage_Failure | Storage_Not_Found | Storage_Tx_Failure

record ('e, 'x, 's) app_engine = "('e, 'x, 's) gzochid_storage_engine_interface" +
  transaction_begin_timed :: "'e \<Rightarrow> timeval \<Rightarrow> 'e \<times> 'x option"
  transaction_delete_status :: "'e \<Rightarrow> 'x \<Rightarrow> 's \<Rightarrow> byte list \<Rightarrow> storage_status"
  should_retry :: "'x \<Rightarrow> bool"

record 'm gzochid_io_serialization =
  serializer :: "nat \<Rightarrow> 'm \<Rightarrow> byte list option"
  deserializer :: "byte list \<Rightarrow> 'm \<Rightarrow> 'm \<times> gpointer \<times> bool"
  finalizer :: "nat \<Rightarrow> 'm \<Rightarrow> 'm"

datatype reference_state =
    Ref_New | Ref_Empty | Ref_Not_Modified | Ref_Maybe_Modified | Ref_Modified | Ref_Flushed
  | Ref_Removed_Empty | Ref_Removed_Fetched

text \<open>Of the application context a reference points to only matters whether it is \<open>NULL\<close>.\<close>

record gzochid_data_managed_reference =
  ref_context :: bool
  ref_state :: reference_state
  ref_serialization :: nat
  ref_oid :: guint64
  ref_obj :: gpointer

record gzochid_data_oid_block_state =
  oids_first :: guint64
  oids_next :: guint64
  oids_last :: guint64

record 'x gzochid_data_transaction_context =
  ctx_free_oids :: "gzochid_data_oid_block_state option"
  ctx_used_oid_blocks :: "gzochid_data_oid_block_state list"
  ctx_transaction :: "'x option"
  ctx_oids_to_references :: "(guint64 \<times> nat) list"
  ctx_ptrs_to_references :: "(gpointer \<times> nat) list"

datatype data_event = Bytes_Read nat | Bytes_Written nat

record ('e, 'x, 'm) app_world =
  w_storage :: 'e
  w_free_oid_blocks :: "gzochid_data_oid_block_state list"
  w_events :: "data_event list"
  w_memory :: 'm
  w_next :: nat
  w_contexts :: "nat \<rightharpoonup> 'x gzochid_data_transaction_context"
  w_references :: "nat \<rightharpoonup> gzochid_data_managed_reference"
  w_log_contexts :: "nat \<rightharpoonup> (int \<times> cstring) list"
  w_log :: "(int \<times> cstring) list"

record ('e, 'x, 's, 'm) app_env =
  app_engine :: "('e, 'x, 's) app_engine"
  app_big_endian :: bool
  app_oids_store :: 's
  app_names_store :: 's
  app_oid_strategy :: "'e \<Rightarrow> ('e \<times> (oids_error + gzochid_data_oids_block)) option"
  app_serialization :: "nat \<Rightarrow> 'm gzochid_io_serialization"
  app_hash_order :: "cstring list \<Rightarrow> cstring list"
  app_oid_order :: "guint64 list \<Rightarrow> guint64 list"
  app_clock :: "nat \<Rightarrow> timeval"

datatype participant = Data_Participant | Log_Participant

type_synonym ('e, 'x, 'm) app_thread = "(participant, ('e, 'x, 'm) app_world) tx_thread"

definition in_world ::
    "(('e, 'x, 'm) app_world \<Rightarrow> ('e, 'x, 'm) app_world) \<Rightarrow> ('e, 'x, 'm) app_thread \<Rightarrow> ('e, 'x, 'm) app_thread" where
  "in_world f st = st\<lparr>th_world := f (th_world st)\<rparr>"

text \<open>The key of an object: the encoded oid as it lies in memory.\<close>

definition oid_key :: "bool \<Rightarrow> guint64 \<Rightarrow> byte list" where
  "oid_key be oid = host_bytes be (gzochid_util_encode_oid be oid)"

text \<open>A call of the engine with the transaction of a context.\<close>

definition ctx_call ::
    "nat \<Rightarrow> ('e \<Rightarrow> 'x \<Rightarrow> 'e \<times> 'x \<times> 'r) \<Rightarrow> ('e, 'x, 'm) app_thread \<Rightarrow> (('e, 'x, 'm) app_thread \<times> 'x \<times> 'r) option" where
  "ctx_call a f st = do {
     c \<leftarrow> w_contexts (th_world st) a;
     x \<leftarrow> ctx_transaction c;
     let (e, x, r) = f (w_storage (th_world st)) x;
     Some (in_world (\<lambda>w. w\<lparr>w_storage := e, w_contexts := (w_contexts w)(a \<mapsto> c\<lparr>ctx_transaction := Some x\<rparr>)\<rparr>) st, x, r)
   }"

section \<open>data.c: the participant\<close>

definition flush_reference ::
    "('e, 'x, 's, 'm) app_env \<Rightarrow> nat \<Rightarrow> nat \<Rightarrow> ('e, 'x, 'm) app_thread \<Rightarrow> (('e, 'x, 'm) app_thread \<times> bool) option" where
  "flush_reference env reference a st = do {
     ref \<leftarrow> w_references (th_world st) reference;
     case ref_state ref of
       Ref_Empty \<Rightarrow> Some (st, True)
     | Ref_Removed_Empty \<Rightarrow> Some (st, True)
     | Ref_Removed_Fetched \<Rightarrow> Some (st, True)
     | Ref_Not_Modified \<Rightarrow> Some (st, True)
     | Ref_Maybe_Modified \<Rightarrow> None
     | Ref_Flushed \<Rightarrow> None
     | _ \<Rightarrow> do {
         obj \<leftarrow> ref_obj ref;
         case serializer (app_serialization env (ref_serialization ref)) obj (w_memory (th_world st)) of
           None \<Rightarrow> Some (st, False)
         | Some out \<Rightarrow> do {
             marked \<leftarrow> gzochid_transaction_rollback_only st;
             if marked then Some (st, False)
             else do {
               (st, x, _) \<leftarrow> ctx_call a (\<lambda>e x. case transaction_put (app_engine env) e x (app_oids_store env)
                 (oid_key (app_big_endian env) (ref_oid ref)) out of (e, x) \<Rightarrow> (e, x, ())) st;
               let st = in_world (\<lambda>w. w\<lparr>w_events := w_events w @ [Bytes_Written (length out)]\<rparr>) st;
               Some (st, \<not> must_rollback (app_engine env) x)
             }
           }
       }
   }"

fun flush_references ::
    "('e, 'x, 's, 'm) app_env \<Rightarrow> nat list \<Rightarrow> nat \<Rightarrow> ('e, 'x, 'm) app_thread \<Rightarrow> (('e, 'x, 'm) app_thread \<times> bool) option" where
  "flush_references env [] a st = Some (st, True)"
| "flush_references env (r # rs) a st = do {
     (st, ok) \<leftarrow> flush_reference env r a st;
     if ok then flush_references env rs a st else Some (st, False)
   }"

definition data_prepare ::
    "('e, 'x, 's, 'm) app_env \<Rightarrow> gpointer \<Rightarrow> ('e, 'x, 'm) app_thread \<Rightarrow> (('e, 'x, 'm) app_thread \<times> bool) option" where
  "data_prepare env data st = do {
     a \<leftarrow> data;
     c \<leftarrow> w_contexts (th_world st) a;
     (st, flushed) \<leftarrow> flush_references env (g_hash_table_get_values (app_oid_order env) (ctx_oids_to_references c)) a st;
     if \<not> flushed then Some (st, False)
     else do {
       (st, x, _) \<leftarrow> ctx_call a (\<lambda>e x. case transaction_prepare (app_engine env) e x of (e, x) \<Rightarrow> (e, x, ())) st;
       Some (st, \<not> must_rollback (app_engine env) x)
     }
   }"

fun finalize_loop ::
    "('e, 'x, 's, 'm) app_env \<Rightarrow> nat list \<Rightarrow> ('e, 'x, 'm) app_world \<Rightarrow> ('e, 'x, 'm) app_world option" where
  "finalize_loop env [] w = Some w"
| "finalize_loop env (r # rs) w = do {
     ref \<leftarrow> w_references w r;
     let w = (case ref_obj ref of
         None \<Rightarrow> w
       | Some obj \<Rightarrow> w\<lparr>w_memory := finalizer (app_serialization env (ref_serialization ref)) obj (w_memory w),
           w_references := (w_references w)(r \<mapsto> ref\<lparr>ref_obj := None\<rparr>)\<rparr>);
     finalize_loop env rs w
   }"

text \<open>After the finalizers have run, the references are freed.\<close>

definition finalize_references ::
    "('e, 'x, 's, 'm) app_env \<Rightarrow> nat \<Rightarrow> ('e, 'x, 'm) app_world \<Rightarrow> ('e, 'x, 'm) app_world option" where
  "finalize_references env a w = do {
     c \<leftarrow> w_contexts w a;
     let references = g_hash_table_get_values (app_oid_order env) (ctx_oids_to_references c);
     w \<leftarrow> finalize_loop env references w;
     Some (w\<lparr>w_references := w_references w |` (- set references)\<rparr>)
   }"

definition transaction_context_free :: "nat \<Rightarrow> ('e, 'x, 'm) app_world \<Rightarrow> ('e, 'x, 'm) app_world" where
  "transaction_context_free a w = w\<lparr>w_contexts := (w_contexts w)(a := None)\<rparr>"

definition data_commit ::
    "('e, 'x, 's, 'm) app_env \<Rightarrow> gpointer \<Rightarrow> ('e, 'x, 'm) app_thread \<Rightarrow> ('e, 'x, 'm) app_thread option" where
  "data_commit env data st = do {
     a \<leftarrow> data;
     c \<leftarrow> w_contexts (th_world st) a;
     x \<leftarrow> ctx_transaction c;
     let w = (th_world st)\<lparr>w_storage := transaction_commit (app_engine env) (w_storage (th_world st)) x\<rparr>;
     w \<leftarrow> finalize_references env a w;
     Some (st\<lparr>th_world := transaction_context_free a w\<rparr>)
   }"

definition data_rollback ::
    "('e, 'x, 's, 'm) app_env \<Rightarrow> gpointer \<Rightarrow> ('e, 'x, 'm) app_thread \<Rightarrow> ('e, 'x, 'm) app_thread option" where
  "data_rollback env data st =
     (case data of
        None \<Rightarrow> Some st
      | Some a \<Rightarrow> do {
          c \<leftarrow> w_contexts (th_world st) a;
          x \<leftarrow> ctx_transaction c;
          let w = (th_world st)\<lparr>w_storage := transaction_rollback (app_engine env) (w_storage (th_world st)) x\<rparr>;
          w \<leftarrow> finalize_references env a w;
          Some (st\<lparr>th_world := transaction_context_free a w\<rparr>)
        })"

definition data_participant ::
    "('e, 'x, 's, 'm) app_env \<Rightarrow> (participant, ('e, 'x, 'm) app_world) gzochid_transaction_participant" where
  "data_participant env = \<lparr>pt_name = [100, 97, 116, 97], pt_prepare = data_prepare env,
     pt_commit = data_commit env, pt_rollback = Some (data_rollback env)\<rparr>"

section \<open>txlog.c: the participant\<close>

definition log_prepare :: "gpointer \<Rightarrow> ('e, 'x, 'm) app_thread \<Rightarrow> (('e, 'x, 'm) app_thread \<times> bool) option" where
  "log_prepare data st = Some (st, True)"

definition cleanup_transaction :: "nat \<Rightarrow> ('e, 'x, 'm) app_world \<Rightarrow> ('e, 'x, 'm) app_world" where
  "cleanup_transaction a w = w\<lparr>w_log_contexts := (w_log_contexts w)(a := None)\<rparr>"

text \<open>\<open>g_log\<close> appends to the log of the process.\<close>

definition commit_message :: "int \<times> cstring \<Rightarrow> ('e, 'x, 'm) app_world \<Rightarrow> ('e, 'x, 'm) app_world" where
  "commit_message message w = w\<lparr>w_log := w_log w @ [message]\<rparr>"

definition log_commit :: "gpointer \<Rightarrow> ('e, 'x, 'm) app_thread \<Rightarrow> ('e, 'x, 'm) app_thread option" where
  "log_commit data st = do {
     a \<leftarrow> data;
     messages \<leftarrow> w_log_contexts (th_world st) a;
     Some (in_world (\<lambda>w. cleanup_transaction a (fold commit_message messages w)) st)
   }"

definition log_rollback :: "gpointer \<Rightarrow> ('e, 'x, 'm) app_thread \<Rightarrow> ('e, 'x, 'm) app_thread option" where
  "log_rollback data st = do {
     a \<leftarrow> data;
     messages \<leftarrow> w_log_contexts (th_world st) a;
     Some (in_world (cleanup_transaction a) st)
   }"

definition log_participant :: "(participant, ('e, 'x, 'm) app_world) gzochid_transaction_participant" where
  "log_participant = \<lparr>pt_name = [108, 111, 103], pt_prepare = log_prepare, pt_commit = log_commit,
     pt_rollback = Some log_rollback\<rparr>"

fun app_participant ::
    "('e, 'x, 's, 'm) app_env \<Rightarrow> participant \<Rightarrow> (participant, ('e, 'x, 'm) app_world) gzochid_transaction_participant" where
  "app_participant env Data_Participant = data_participant env"
| "app_participant env Log_Participant = log_participant"

definition app_tx :: "('e, 'x, 's, 'm) app_env \<Rightarrow> (participant, ('e, 'x, 'm) app_world) tx_env" where
  "app_tx env = \<lparr>tx_participant = app_participant env, hash_order = app_hash_order env, tx_clock = app_clock env\<rparr>"

end
