(* ===== verification/Managed_Data.thy ===== *)
theory Managed_Data
  imports Participants
begin

text \<open>
  The data service of the application server, \<open>gzochi-server/src/data.c\<close> (with \<open>oids.c\<close>): object ids,
  bindings of names, managed references and the objects behind them, all within the transaction
  of the calling thread. An operation with a \<open>GError\<close> argument returns the error it sets.
\<close>

datatype data_error = Data_Error_Not_Found | Data_Error_Transaction | Data_Error_Failed | Io_Error_Serialization

section \<open>Transaction contexts and object ids\<close>

definition create_transaction_context ::
    "('e, 'x, 's, 'm) app_env \<Rightarrow> bool \<Rightarrow> timeval option \<Rightarrow> ('e, 'x, 'm) app_thread \<Rightarrow> (('e, 'x, 'm) app_thread \<times> nat) option" where
  "create_transaction_context env app_context limit st =
     (if \<not> app_context then None
      else let w = th_world st;
               (e, tx) = (case limit of
                   Some t \<Rightarrow> transaction_begin_timed (app_engine env) (w_storage w) t
                 | None \<Rightarrow> transaction_begin (app_engine env) (w_storage w));
               a = w_next w;
               c = \<lparr>ctx_free_oids = None, ctx_used_oid_blocks = [], ctx_transaction = tx,
                    ctx_oids_to_references = [], ctx_ptrs_to_references = []\<rparr>
           in Some (st\<lparr>th_world := w\<lparr>w_storage := e, w_next := Suc a, w_contexts := (w_contexts w)(a \<mapsto> c)\<rparr>\<rparr>, a))"

definition create_oid_block_state :: "gzochid_data_oids_block \<Rightarrow> gzochid_data_oid_block_state" where
  "create_oid_block_state block =
     \<lparr>oids_first = block_start block, oids_next = block_start block,
      oids_last = block_start block + ucast (block_size block) - 1\<rparr>"

definition mark_data :: "('e, 'x, 's, 'm) app_env \<Rightarrow> bool \<Rightarrow> ('e, 'x, 'm) app_thread \<Rightarrow> ('e, 'x, 'm) app_thread option" where
  "mark_data env retry st = gzochid_transaction_mark_for_rollback (app_tx env) Data_Participant retry st"

definition reserve_oids ::
    "('e, 'x, 's, 'm) app_env \<Rightarrow> ('e, 'x, 'm) app_thread \<Rightarrow>
     (('e, 'x, 'm) app_thread \<times> gzochid_data_oid_block_state option) option" where
  "reserve_oids env st =
     (case w_free_oid_blocks (th_world st) of
        block_state # blocks \<Rightarrow> Some (in_world (\<lambda>w. w\<lparr>w_free_oid_blocks := blocks\<rparr>) st, Some block_state)
      | [] \<Rightarrow> do {
          (e, r) \<leftarrow> app_oid_strategy env (w_storage (th_world st));
          let st = in_world (\<lambda>w. w\<lparr>w_storage := e\<rparr>) st;
          case r of
            Inr new_block \<Rightarrow> Some (st, Some (create_oid_block_state new_block))
          | Inl err \<Rightarrow> do {
              st \<leftarrow> mark_data env (err = Oids_Error_Transaction) st;
              Some (st, None)
            }
        })"

definition update_context ::
    "nat \<Rightarrow> ('x gzochid_data_transaction_context \<Rightarrow> 'x gzochid_data_transaction_context) \<Rightarrow>
     ('e, 'x, 'm) app_thread \<Rightarrow> ('e, 'x, 'm) app_thread option" where
  "update_context a f st = do {
     c \<leftarrow> w_contexts (th_world st) a;
     Some (in_world (\<lambda>w. w\<lparr>w_contexts := (w_contexts w)(a \<mapsto> f c)\<rparr>) st)
   }"

definition next_object_id ::
    "('e, 'x, 's, 'm) app_env \<Rightarrow> nat \<Rightarrow> ('e, 'x, 'm) app_thread \<Rightarrow>
     (('e, 'x, 'm) app_thread \<times> data_error option \<times> guint64) option" where
  "next_object_id env a st = do {
     c \<leftarrow> w_contexts (th_world st) a;
     (st, free_oids) \<leftarrow> (case ctx_free_oids c of
         Some b \<Rightarrow> Some (st, Some b)
       | None \<Rightarrow> do {
           (st, b) \<leftarrow> reserve_oids env st;
           st \<leftarrow> update_context a (ctx_free_oids_update (\<lambda>_. b)) st;
           Some (st, b)
         });
     case free_oids of
       None \<Rightarrow> Some (st, Some Data_Error_Transaction, 0)
     | Some b \<Rightarrow> do {
         let oid = oids_next b;
         let b = b\<lparr>oids_next := oids_next b + 1\<rparr>;
         st \<leftarrow> update_context a (ctx_free_oids_update (\<lambda>_. Some b)) st;
         if oids_next b > oids_last b then do {
           st \<leftarrow> update_context a (\<lambda>c. c\<lparr>ctx_used_oid_blocks := ctx_used_oid_blocks c @ [b]\<rparr>) st;
           (st, b') \<leftarrow> reserve_oids env st;
           st \<leftarrow> update_context a (ctx_free_oids_update (\<lambda>_. b')) st;
           if b' = None then Some (st, Some Data_Error_Transaction, oid) else Some (st, None, oid)
         }
         else Some (st, None, oid)
       }
   }"

definition join_transaction ::
    "('e, 'x, 's, 'm) app_env \<Rightarrow> bool \<Rightarrow> ('e, 'x, 'm) app_thread \<Rightarrow>
     (('e, 'x, 'm) app_thread \<times> data_error option \<times> gpointer) option" where
  "join_transaction env app_context st = do {
     tx_context \<leftarrow> (if gzochid_transaction_active st
       then gzochid_transaction_context (app_tx env) Data_Participant st else Some None);
     case tx_context of
       Some a \<Rightarrow> Some (st, None, Some a)
     | None \<Rightarrow> do {
         timed \<leftarrow> gzochid_transaction_timed st;
         (st, tx_context) \<leftarrow>
           (if timed then do {
              (st, remaining) \<leftarrow> gzochid_transaction_time_remaining (app_tx env) st;
              if tv_sec remaining > 0 \<or> tv_usec remaining > 0
              then map_option (map_prod id Some) (create_transaction_context env app_context (Some remaining) st)
              else Some (st, None)
            }
            else map_option (map_prod id Some) (create_transaction_context env app_context None st));
         st \<leftarrow> gzochid_transaction_join (app_tx env) Data_Participant tx_context st;
         if tx_context = None then do {
           st \<leftarrow> mark_data env True st;
           Some (st, Some Data_Error_Transaction, None)
         }
         else Some (st, None, tx_context)
       }
   }"

section \<open>Bindings\<close>

definition get_binding ::
    "('e, 'x, 's, 'm) app_env \<Rightarrow> nat \<Rightarrow> cstring \<Rightarrow> ('e, 'x, 'm) app_thread \<Rightarrow>
     (('e, 'x, 'm) app_thread \<times> data_error option \<times> guint64) option" where
  "get_binding env a name st = do {
     (st, x, oid_bytes) \<leftarrow> ctx_call a (\<lambda>e x. transaction_get (app_engine env) e x (app_names_store env) (name @ [0])) st;
     if \<not> (oid_bytes = None \<or> map_option length oid_bytes = Some 8) then None
     else if must_rollback (app_engine env) x then do {
       st \<leftarrow> mark_data env (should_retry (app_engine env) x) st;
       Some (st, Some Data_Error_Transaction, 0)
     }
     else case oid_bytes of
       Some bytes \<Rightarrow> do {
         oid \<leftarrow> host_guint64 (app_big_endian env) bytes;
         Some (st, None, gzochid_util_decode_oid (app_big_endian env) oid)
       }
     | None \<Rightarrow> Some (st, Some Data_Error_Not_Found, 0)
   }"

definition set_binding ::
    "('e, 'x, 's, 'm) app_env \<Rightarrow> nat \<Rightarrow> cstring \<Rightarrow> guint64 \<Rightarrow> ('e, 'x, 'm) app_thread \<Rightarrow>
     (('e, 'x, 'm) app_thread \<times> data_error option) option" where
  "set_binding env a name oid st = do {
     (st, x, _) \<leftarrow> ctx_call a (\<lambda>e x. case transaction_put (app_engine env) e x (app_names_store env) (name @ [0])
       (oid_key (app_big_endian env) oid) of (e, x) \<Rightarrow> (e, x, ())) st;
     if must_rollback (app_engine env) x then do {
       st \<leftarrow> mark_data env (should_retry (app_engine env) x) st;
       Some (st, Some Data_Error_Transaction)
     }
     else Some (st, None)
   }"

section \<open>References\<close>

definition malloc_reference ::
    "gzochid_data_managed_reference \<Rightarrow> ('e, 'x, 'm) app_thread \<Rightarrow> ('e, 'x, 'm) app_thread \<times> nat" where
  "malloc_reference ref st =
     (in_world (\<lambda>w. w\<lparr>w_next := Suc (w_next w), w_references := (w_references w)(w_next w \<mapsto> ref)\<rparr>) st,
      w_next (th_world st))"

definition create_empty_reference ::
    "bool \<Rightarrow> guint64 \<Rightarrow> nat \<Rightarrow> ('e, 'x, 'm) app_thread \<Rightarrow> ('e, 'x, 'm) app_thread \<times> nat" where
  "create_empty_reference app_context oid serialization st =
     malloc_reference \<lparr>ref_context = app_context, ref_state = Ref_Empty, ref_serialization = serialization,
       ref_oid = oid, ref_obj = None\<rparr> st"

definition data_context :: "('e, 'x, 's, 'm) app_env \<Rightarrow> ('e, 'x, 'm) app_thread \<Rightarrow> nat option" where
  "data_context env st = Option.bind (gzochid_transaction_context (app_tx env) Data_Participant st) (\<lambda>a. a)"

text \<open>
  The new reference is allocated before the write lock is taken and freed when that fails; the
  context of the reference stays \<open>NULL\<close>.
\<close>

definition create_new_reference ::
    "('e, 'x, 's, 'm) app_env \<Rightarrow> gpointer \<Rightarrow> nat \<Rightarrow> ('e, 'x, 'm) app_thread \<Rightarrow>
     (('e, 'x, 'm) app_thread \<times> data_error option \<times> gpointer) option" where
  "create_new_reference env ptr serialization st = do {
     a \<leftarrow> data_context env st;
     (st, err, oid) \<leftarrow> next_object_id env a st;
     if err \<noteq> None then Some (st, err, None)
     else do {
       c \<leftarrow> w_contexts (th_world st) a;
       x \<leftarrow> ctx_transaction c;
       if \<not> must_rollback (app_engine env) x then do {
         let (st, r) = malloc_reference \<lparr>ref_context = False, ref_state = Ref_New, ref_serialization = serialization,
           ref_oid = oid, ref_obj = ptr\<rparr> st;
         (st, x, _) \<leftarrow> ctx_call a (\<lambda>e x. transaction_get_for_update (app_engine env) e x (app_oids_store env)
           (oid_key (app_big_endian env) oid)) st;
         if must_rollback (app_engine env) x then do {
           st \<leftarrow> mark_data env (should_retry (app_engine env) x) st;
           Some (in_world (\<lambda>w. w\<lparr>w_references := (w_references w)(r := None)\<rparr>) st, Some Data_Error_Transaction, None)
         }
         else Some (st, None, Some r)
       }
       else Some (st, Some Data_Error_Transaction, None)
     }
   }"

definition get_reference_by_oid ::
    "('e, 'x, 's, 'm) app_env \<Rightarrow> bool \<Rightarrow> guint64 \<Rightarrow> nat \<Rightarrow> ('e, 'x, 'm) app_thread \<Rightarrow>
     (('e, 'x, 'm) app_thread \<times> nat) option" where
  "get_reference_by_oid env app_context oid serialization st = do {
     a \<leftarrow> data_context env st;
     c \<leftarrow> w_contexts (th_world st) a;
     case map_of (ctx_oids_to_references c) oid of
       Some r \<Rightarrow> Some (st, r)
     | None \<Rightarrow> do {
         let (st, r) = create_empty_reference app_context oid serialization st;
         st \<leftarrow> update_context a (\<lambda>c. c\<lparr>ctx_oids_to_references := g_hash_table_insert oid r (ctx_oids_to_references c)\<rparr>) st;
         Some (st, r)
       }
   }"

definition get_reference_by_ptr ::
    "('e, 'x, 's, 'm) app_env \<Rightarrow> gpointer \<Rightarrow> nat \<Rightarrow> ('e, 'x, 'm) app_thread \<Rightarrow>
     (('e, 'x, 'm) app_thread \<times> data_error option \<times> gpointer) option" where
  "get_reference_by_ptr env ptr serialization st = do {
     a \<leftarrow> data_context env st;
     c \<leftarrow> w_contexts (th_world st) a;
     case map_of (ctx_ptrs_to_references c) ptr of
       Some r \<Rightarrow> Some (st, None, Some r)
     | None \<Rightarrow> do {
         (st, err, reference) \<leftarrow> create_new_reference env ptr serialization st;
         case reference of
           None \<Rightarrow> Some (st, err, None)
         | Some r \<Rightarrow> do {
             ref \<leftarrow> w_references (th_world st) r;
             st \<leftarrow> update_context a (\<lambda>c. c\<lparr>
               ctx_oids_to_references := g_hash_table_insert (ref_oid ref) r (ctx_oids_to_references c),
               ctx_ptrs_to_references := g_hash_table_insert ptr r (ctx_ptrs_to_references c)\<rparr>) st;
             Some (st, None, Some r)
           }
       }
   }"

definition update_reference ::
    "nat \<Rightarrow> (gzochid_data_managed_reference \<Rightarrow> gzochid_data_managed_reference) \<Rightarrow>
     ('e, 'x, 'm) app_thread \<Rightarrow> ('e, 'x, 'm) app_thread option" where
  "update_reference r f st = do {
     ref \<leftarrow> w_references (th_world st) r;
     Some (in_world (\<lambda>w. w\<lparr>w_references := (w_references w)(r \<mapsto> f ref)\<rparr>) st)
   }"

definition gzochid_data_mark ::
    "('e, 'x, 's, 'm) app_env \<Rightarrow> bool \<Rightarrow> nat \<Rightarrow> gpointer \<Rightarrow> ('e, 'x, 'm) app_thread \<Rightarrow>
     (('e, 'x, 'm) app_thread \<times> data_error option) option" where
  "gzochid_data_mark env app_context serialization ptr st = do {
     (st, err, tx_context) \<leftarrow> join_transaction env app_context st;
     if err \<noteq> None then Some (st, err)
     else do {
       (st, err, reference) \<leftarrow> get_reference_by_ptr env ptr serialization st;
       case reference of
         None \<Rightarrow> Some (st, err)
       | Some r \<Rightarrow> do {
           ref \<leftarrow> w_references (th_world st) r;
           if ref_state ref \<noteq> Ref_New \<and> ref_state ref \<noteq> Ref_Modified then do {
             st \<leftarrow> update_reference r (ref_state_update (\<lambda>_. Ref_Modified)) st;
             a \<leftarrow> tx_context;
             (st, x, _) \<leftarrow> ctx_call a (\<lambda>e x. transaction_get_for_update (app_engine env) e x (app_oids_store env)
               (oid_key (app_big_endian env) (ref_oid ref))) st;
             if must_rollback (app_engine env) x then do {
               st \<leftarrow> mark_data env (should_retry (app_engine env) x) st;
               Some (st, Some Data_Error_Transaction)
             }
             else Some (st, err)
           }
           else Some (st, err)
         }
     }
   }"

definition dereference ::
    "('e, 'x, 's, 'm) app_env \<Rightarrow> nat \<Rightarrow> nat \<Rightarrow> bool \<Rightarrow> ('e, 'x, 'm) app_thread \<Rightarrow>
     (('e, 'x, 'm) app_thread \<times> data_error option) option" where
  "dereference env a r for_update st = do {
     ref \<leftarrow> w_references (th_world st) r;
     if ref_obj ref \<noteq> None \<or> ref_state ref = Ref_Removed_Empty then
       (if for_update \<and> ref_state ref = Ref_Not_Modified
        then gzochid_data_mark env True (ref_serialization ref) (ref_obj ref) st
        else Some (st, None))
     else do {
       let key = oid_key (app_big_endian env) (ref_oid ref);
       (st, x, data) \<leftarrow> ctx_call a (\<lambda>e x.
         if for_update then transaction_get_for_update (app_engine env) e x (app_oids_store env) key
         else transaction_get (app_engine env) e x (app_oids_store env) key) st;
       if must_rollback (app_engine env) x then do {
         st \<leftarrow> mark_data env (should_retry (app_engine env) x) st;
         Some (st, Some Data_Error_Transaction)
       }
       else case data of
         None \<Rightarrow> Some (st, Some Data_Error_Not_Found)
       | Some bytes \<Rightarrow> do {
           let st = in_world (\<lambda>w. w\<lparr>w_events := w_events w @ [Bytes_Read (length bytes)]\<rparr>) st;
           let (mem, obj, failed) = deserializer (app_serialization env (ref_serialization ref)) bytes (w_memory (th_world st));
           let st = in_world (\<lambda>w. w\<lparr>w_memory := mem\<rparr>) st;
           st \<leftarrow> update_reference r (\<lambda>ref. ref\<lparr>ref_obj := obj, ref_state :=
             if failed then ref_state ref else if for_update then Ref_Modified else Ref_Not_Modified\<rparr>) st;
           st \<leftarrow> update_context a (\<lambda>c. c\<lparr>
             ctx_oids_to_references := g_hash_table_insert (ref_oid ref) r (ctx_oids_to_references c),
             ctx_ptrs_to_references := g_hash_table_insert obj r (ctx_ptrs_to_references c)\<rparr>) st;
           Some (st, if failed then Some Io_Error_Serialization else None)
         }
     }
   }"

definition remove_object ::
    "('e, 'x, 's, 'm) app_env \<Rightarrow> nat \<Rightarrow> guint64 \<Rightarrow> ('e, 'x, 'm) app_thread \<Rightarrow>
     (('e, 'x, 'm) app_thread \<times> data_error option) option" where
  "remove_object env a oid st = do {
     tx_context \<leftarrow> gzochid_transaction_context (app_tx env) Data_Participant st;
     let key = oid_key (app_big_endian env) oid;
     (st, x, ret) \<leftarrow> ctx_call a (\<lambda>e x.
       case transaction_delete (app_engine env) e x (app_oids_store env) key of
         (e', x') \<Rightarrow> (e', x', transaction_delete_status (app_engine env) e x (app_oids_store env) key)) st;
     if ret = Storage_Not_Found then Some (st, Some Data_Error_Not_Found)
     else if ret = Storage_Tx_Failure then do {
       a' \<leftarrow> tx_context;
       c' \<leftarrow> w_contexts (th_world st) a';
       x' \<leftarrow> ctx_transaction c';
       st \<leftarrow> mark_data env (should_retry (app_engine env) x') st;
       Some (st, Some Data_Error_Transaction)
     }
     else Some (st, None)
   }"

definition remove_reference ::
    "('e, 'x, 's, 'm) app_env \<Rightarrow> nat \<Rightarrow> nat \<Rightarrow> ('e, 'x, 'm) app_thread \<Rightarrow>
     (('e, 'x, 'm) app_thread \<times> data_error option) option" where
  "remove_reference env a r st = do {
     ref \<leftarrow> w_references (th_world st) r;
     case ref_state ref of
       Ref_Empty \<Rightarrow> do {
         (st, err) \<leftarrow> remove_object env a (ref_oid ref) st;
         st \<leftarrow> update_reference r (ref_state_update (\<lambda>_. Ref_Removed_Empty)) st;
         Some (st, err)
       }
     | Ref_New \<Rightarrow> do {
         st \<leftarrow> update_reference r (ref_state_update (\<lambda>_. Ref_Removed_Fetched)) st;
         Some (st, None)
       }
     | Ref_Maybe_Modified \<Rightarrow> Some (st, None)
     | Ref_Flushed \<Rightarrow> Some (st, None)
     | Ref_Removed_Empty \<Rightarrow> Some (st, None)
     | Ref_Removed_Fetched \<Rightarrow> Some (st, None)
     | _ \<Rightarrow> do {
         (st, err) \<leftarrow> remove_object env a (ref_oid ref) st;
         st \<leftarrow> update_reference r (ref_state_update (\<lambda>_. Ref_Removed_Fetched)) st;
         Some (st, err)
       }
   }"

section \<open>The operations of data.h\<close>

definition gzochid_data_get_binding ::
    "('e, 'x, 's, 'm) app_env \<Rightarrow> cstring \<Rightarrow> nat \<Rightarrow> ('e, 'x, 'm) app_thread \<Rightarrow>
     (('e, 'x, 'm) app_thread \<times> data_error option \<times> gpointer) option" where
  "gzochid_data_get_binding env name serialization st = do {
     (st, err, tx_context) \<leftarrow> join_transaction env True st;
     if err \<noteq> None then Some (st, err, None)
     else do {
       a \<leftarrow> tx_context;
       (st, err, oid) \<leftarrow> get_binding env a name st;
       if err \<noteq> None then Some (st, err, None)
       else do {
         (st, r) \<leftarrow> get_reference_by_oid env True oid serialization st;
         (st, err) \<leftarrow> dereference env a r False st;
         ref \<leftarrow> w_references (th_world st) r;
         Some (st, err, ref_obj ref)
       }
     }
   }"

definition gzochid_data_set_binding_to_oid ::
    "('e, 'x, 's, 'm) app_env \<Rightarrow> cstring \<Rightarrow> guint64 \<Rightarrow> ('e, 'x, 'm) app_thread \<Rightarrow>
     (('e, 'x, 'm) app_thread \<times> data_error option) option" where
  "gzochid_data_set_binding_to_oid env name oid st = do {
     (st, err, tx_context) \<leftarrow> join_transaction env True st;
     if err \<noteq> None then Some (st, err)
     else do {
       a \<leftarrow> tx_context;
       set_binding env a name oid st
     }
   }"

text \<open>A key without its terminating NUL byte would be read past its end.\<close>

definition key_string :: "byte list \<Rightarrow> cstring option" where
  "key_string bytes = (if 0 \<in> set bytes then Some (takeWhile (\<lambda>b. b \<noteq> 0) bytes) else None)"

definition gzochid_data_next_binding_oid ::
    "('e, 'x, 's, 'm) app_env \<Rightarrow> cstring \<Rightarrow> ('e, 'x, 'm) app_thread \<Rightarrow>
     (('e, 'x, 'm) app_thread \<times> data_error option \<times> (cstring \<times> guint64) option) option" where
  "gzochid_data_next_binding_oid env key st = do {
     (st, err, tx_context) \<leftarrow> join_transaction env True st;
     if err \<noteq> None then Some (st, err, None)
     else do {
       a \<leftarrow> tx_context;
       (st, x, next_key) \<leftarrow> ctx_call a (\<lambda>e x. transaction_next_key (app_engine env) e x (app_names_store env) (key @ [0])) st;
       st \<leftarrow> (if must_rollback (app_engine env) x then mark_data env (should_retry (app_engine env) x) st else Some st);
       case next_key of
         None \<Rightarrow> Some (st, None, None)
       | Some bytes \<Rightarrow> do {
           name \<leftarrow> key_string bytes;
           (st, err, oid) \<leftarrow> get_binding env a name st;
           if err \<noteq> None then Some (st, err, None) else Some (st, None, Some (name, oid))
         }
     }
   }"

definition gzochid_data_set_binding ::
    "('e, 'x, 's, 'm) app_env \<Rightarrow> cstring \<Rightarrow> nat \<Rightarrow> gpointer \<Rightarrow> ('e, 'x, 'm) app_thread \<Rightarrow>
     (('e, 'x, 'm) app_thread \<times> data_error option) option" where
  "gzochid_data_set_binding env name serialization data st = do {
     (st, err, tx_context) \<leftarrow> join_transaction env True st;
     if err \<noteq> None then Some (st, err)
     else do {
       (st, err, reference) \<leftarrow> get_reference_by_ptr env data serialization st;
       if err \<noteq> None then Some (st, err)
       else do {
         a \<leftarrow> tx_context;
         r \<leftarrow> reference;
         ref \<leftarrow> w_references (th_world st) r;
         set_binding env a name (ref_oid ref) st
       }
     }
   }"

definition gzochid_data_remove_binding ::
    "('e, 'x, 's, 'm) app_env \<Rightarrow> cstring \<Rightarrow> ('e, 'x, 'm) app_thread \<Rightarrow>
     (('e, 'x, 'm) app_thread \<times> data_error option) option" where
  "gzochid_data_remove_binding env name st = do {
     (st, err, tx_context) \<leftarrow> join_transaction env True st;
     if err \<noteq> None then Some (st, err)
     else do {
       a \<leftarrow> tx_context;
       (st, x, ret) \<leftarrow> ctx_call a (\<lambda>e x.
         case transaction_delete (app_engine env) e x (app_names_store env) (name @ [0]) of
           (e', x') \<Rightarrow> (e', x', transaction_delete_status (app_engine env) e x (app_names_store env) (name @ [0]))) st;
       if ret = Storage_Not_Found then Some (st, Some Data_Error_Not_Found)
       else if ret = Storage_Tx_Failure then do {
         st \<leftarrow> mark_data env (should_retry (app_engine env) x) st;
         Some (st, Some Data_Error_Transaction)
       }
       else Some (st, None)
     }
   }"

definition gzochid_data_binding_exists ::
    "('e, 'x, 's, 'm) app_env \<Rightarrow> cstring \<Rightarrow> ('e, 'x, 'm) app_thread \<Rightarrow>
     (('e, 'x, 'm) app_thread \<times> data_error option \<times> bool) option" where
  "gzochid_data_binding_exists env name st = do {
     (st, err, tx_context) \<leftarrow> join_transaction env True st;
     if err \<noteq> None then Some (st, err, False)
     else do {
       a \<leftarrow> tx_context;
       (st, err, oid) \<leftarrow> get_binding env a name st;
       Some (case err of
           None \<Rightarrow> (st, None, True)
         | Some e \<Rightarrow> (st, if e \<noteq> Data_Error_Not_Found then Some e else None, False))
     }
   }"

definition gzochid_data_create_reference ::
    "('e, 'x, 's, 'm) app_env \<Rightarrow> nat \<Rightarrow> gpointer \<Rightarrow> ('e, 'x, 'm) app_thread \<Rightarrow>
     (('e, 'x, 'm) app_thread \<times> data_error option \<times> gpointer) option" where
  "gzochid_data_create_reference env serialization ptr st = do {
     (st, err, tx_context) \<leftarrow> join_transaction env True st;
     if err \<noteq> None then Some (st, err, None) else get_reference_by_ptr env ptr serialization st
   }"

definition gzochid_data_create_reference_to_oid ::
    "('e, 'x, 's, 'm) app_env \<Rightarrow> nat \<Rightarrow> guint64 \<Rightarrow> ('e, 'x, 'm) app_thread \<Rightarrow>
     (('e, 'x, 'm) app_thread \<times> nat) option" where
  "gzochid_data_create_reference_to_oid env serialization oid st = do {
     (st, err, tx_context) \<leftarrow> join_transaction env True st;
     if err \<noteq> None then Some (create_empty_reference True oid serialization st)
     else get_reference_by_oid env True oid serialization st
   }"

definition dereference_joined ::
    "('e, 'x, 's, 'm) app_env \<Rightarrow> nat \<Rightarrow> bool \<Rightarrow> ('e, 'x, 'm) app_thread \<Rightarrow>
     (('e, 'x, 'm) app_thread \<times> data_error option \<times> gpointer) option" where
  "dereference_joined env r for_update st = do {
     ref \<leftarrow> w_references (th_world st) r;
     (st, err, tx_context) \<leftarrow> join_transaction env (ref_context ref) st;
     (st, err) \<leftarrow> (if err \<noteq> None then Some (st, err)
       else do { a \<leftarrow> tx_context; dereference env a r for_update st });
     ref \<leftarrow> w_references (th_world st) r;
     Some (st, err, ref_obj ref)
   }"

definition gzochid_data_dereference ::
    "('e, 'x, 's, 'm) app_env \<Rightarrow> nat \<Rightarrow> ('e, 'x, 'm) app_thread \<Rightarrow>
     (('e, 'x, 'm) app_thread \<times> data_error option \<times> gpointer) option" where
  "gzochid_data_dereference env r st = dereference_joined env r False st"

definition gzochid_data_dereference_for_update ::
    "('e, 'x, 's, 'm) app_env \<Rightarrow> nat \<Rightarrow> ('e, 'x, 'm) app_thread \<Rightarrow>
     (('e, 'x, 'm) app_thread \<times> data_error option \<times> gpointer) option" where
  "gzochid_data_dereference_for_update env r st = dereference_joined env r True st"

definition gzochid_data_remove_object ::
    "('e, 'x, 's, 'm) app_env \<Rightarrow> nat \<Rightarrow> ('e, 'x, 'm) app_thread \<Rightarrow>
     (('e, 'x, 'm) app_thread \<times> data_error option) option" where
  "gzochid_data_remove_object env r st = do {
     ref \<leftarrow> w_references (th_world st) r;
     (st, err, tx_context) \<leftarrow> join_transaction env (ref_context ref) st;
     if err \<noteq> None then Some (st, err)
     else do { a \<leftarrow> tx_context; remove_reference env a r st }
   }"

section \<open>txlog.c: operations\<close>

definition log_join_transaction ::
    "('e, 'x, 's, 'm) app_env \<Rightarrow> ('e, 'x, 'm) app_thread \<Rightarrow> (('e, 'x, 'm) app_thread \<times> gpointer) option" where
  "log_join_transaction env st = do {
     tx_context \<leftarrow> (if gzochid_transaction_active st
       then gzochid_transaction_context (app_tx env) Log_Participant st else Some None);
     st \<leftarrow> (if tx_context = None then
         gzochid_transaction_join (app_tx env) Log_Participant (Some (w_next (th_world st)))
           (in_world (\<lambda>w. w\<lparr>w_next := Suc (w_next w), w_log_contexts := (w_log_contexts w)(w_next w \<mapsto> [])\<rparr>) st)
       else Some st);
     tx_context \<leftarrow> gzochid_transaction_context (app_tx env) Log_Participant st;
     Some (st, tx_context)
   }"

text \<open>The formatted message is the argument.\<close>

definition gzochid_tx_log ::
    "('e, 'x, 's, 'm) app_env \<Rightarrow> int \<Rightarrow> cstring \<Rightarrow> ('e, 'x, 'm) app_thread \<Rightarrow> ('e, 'x, 'm) app_thread option" where
  "gzochid_tx_log env priority msg st = do {
     (st, tx_context) \<leftarrow> log_join_transaction env st;
     a \<leftarrow> tx_context;
     messages \<leftarrow> w_log_contexts (th_world st) a;
     Some (in_world (\<lambda>w. w\<lparr>w_log_contexts := (w_log_contexts w)(a \<mapsto> messages @ [(priority, msg)])\<rparr>) st)
   }"

end
