(* ===== verification/Data_Manager.thy ===== *)
theory Data_Manager
  imports Managed_Data Dataserver_Props
begin

text \<open>
  The participants of \<open>data.c\<close> and \<open>txlog.c\<close> keep the contract of \<open>Tx\<close>, over any storage engine and
  oid allocation strategy that keep theirs.
\<close>

section \<open>What the data manager relies on\<close>

text \<open>
  Beyond the contract of the data server: transactions can always be started, a transaction that has
  to be rolled back stays so, a failed read returns nothing, a deletion reports what it did, a
  key that is found is in the store, the allocation of oids leaves both stores alone, an object that
  was deserialized without an error exists, and the clock does not run backwards.
\<close>

definition stays_failed :: "('e, 'x, 's) app_engine \<Rightarrow> bool" where
  "stays_failed eng \<longleftrightarrow>
     (\<forall>e x s k v. must_rollback eng x \<longrightarrow> must_rollback eng (snd (transaction_put eng e x s k v)))
     \<and> (\<forall>e x s k. must_rollback eng x \<longrightarrow> must_rollback eng (snd (transaction_delete eng e x s k)))
     \<and> (\<forall>e x s k. must_rollback eng x \<longrightarrow> must_rollback eng (fst (snd (transaction_get eng e x s k))))
     \<and> (\<forall>e x s k. must_rollback eng x \<longrightarrow> must_rollback eng (fst (snd (transaction_get_for_update eng e x s k))))
     \<and> (\<forall>e x s k. must_rollback eng x \<longrightarrow> must_rollback eng (fst (snd (transaction_next_key eng e x s k))))
     \<and> (\<forall>e x. must_rollback eng x \<longrightarrow> must_rollback eng (snd (transaction_prepare eng e x)))"

definition app_contract ::
    "('e, 'x, 's, 'm) app_env \<Rightarrow> ('e \<Rightarrow> 's \<Rightarrow> byte list \<rightharpoonup> byte list) \<Rightarrow>
     ('e \<Rightarrow> 'x \<Rightarrow> 's \<Rightarrow> byte list \<rightharpoonup> byte list) \<Rightarrow> bool" where
  "app_contract env view seen \<longleftrightarrow>
     engine_contract (app_engine env) view seen
     \<and> stays_failed (app_engine env)
     \<and> (\<forall>e. snd (transaction_begin (app_engine env) e) \<noteq> None)
     \<and> (\<forall>e t e' tx. transaction_begin_timed (app_engine env) e t = (e', tx) \<longrightarrow>
         view e' = view e \<and> (\<exists>x. tx = Some x \<and> seen e' x = view e))
     \<and> (\<forall>e x e' x' s k r. transaction_get (app_engine env) e x s k = (e', x', r) \<longrightarrow>
         must_rollback (app_engine env) x' \<longrightarrow> r = None)
     \<and> (\<forall>e x e' x' s k r. transaction_next_key (app_engine env) e x s k = (e', x', r) \<longrightarrow> view e' = view e
         \<and> (if must_rollback (app_engine env) x' then r = None
            else seen e' x' = seen e x \<and> (\<forall>k'. r = Some k' \<longrightarrow> seen e x s k' \<noteq> None)))
     \<and> (\<forall>e x e' x' s k. transaction_delete (app_engine env) e x s k = (e', x') \<longrightarrow>
         transaction_delete_status (app_engine env) e x s k =
           (if must_rollback (app_engine env) x' then Storage_Tx_Failure
            else if seen e x s k = None then Storage_Not_Found else Storage_Ok))
     \<and> (\<forall>e. \<exists>e' r. app_oid_strategy env e = Some (e', r)
         \<and> (\<forall>s \<in> {app_oids_store env, app_names_store env}. view e' s = view e s \<and> (\<forall>x. seen e' x s = seen e x s)))
     \<and> app_oids_store env \<noteq> app_names_store env
     \<and> (\<forall>ks. distinct ks \<longrightarrow> distinct (app_hash_order env ks) \<and> set (app_hash_order env ks) = set ks)
     \<and> (\<forall>ks. distinct ks \<longrightarrow> distinct (app_oid_order env ks) \<and> set (app_oid_order env ks) = set ks)
     \<and> (\<forall>z bytes m m' obj failed. deserializer (app_serialization env z) bytes m = (m', obj, failed) \<longrightarrow>
         \<not> failed \<longrightarrow> obj \<noteq> None)
     \<and> (\<forall>n. timer_ok (app_clock env n) \<and> usecs (app_clock env n) \<le> usecs (app_clock env (Suc n)))"

section \<open>The invariant of a transaction context\<close>

definition ref_ok :: "gzochid_data_managed_reference \<Rightarrow> bool" where
  "ref_ok ref \<longleftrightarrow> ref_state ref \<noteq> Ref_Maybe_Modified \<and> ref_state ref \<noteq> Ref_Flushed
     \<and> (ref_state ref \<in> {Ref_New, Ref_Modified, Ref_Not_Modified} \<longrightarrow> ref_obj ref \<noteq> None)"

definition names_ok :: "(byte list \<rightharpoonup> byte list) \<Rightarrow> bool" where
  "names_ok m \<longleftrightarrow> (\<forall>k v. m k = Some v \<longrightarrow> length v = 8 \<and> 0 \<in> set k)"

definition tables_ok :: "('e, 'x, 'm) app_world \<Rightarrow> 'x gzochid_data_transaction_context \<Rightarrow> bool" where
  "tables_ok w c \<longleftrightarrow> distinct (map fst (ctx_oids_to_references c))
     \<and> (\<forall>(oid, r) \<in> set (ctx_oids_to_references c). \<exists>ref. w_references w r = Some ref \<and> ref_oid ref = oid)
     \<and> (\<forall>(p, r) \<in> set (ctx_ptrs_to_references c). \<exists>ref. w_references w r = Some ref
         \<and> (\<forall>q. p = Some q \<longrightarrow> ref_obj ref = Some q))
     \<and> (\<forall>r ref. w_references w r = Some ref \<longrightarrow> ref_ok ref)"

definition ctx_ok ::
    "('e, 'x, 's, 'm) app_env \<Rightarrow> ('e \<Rightarrow> 'x \<Rightarrow> 's \<Rightarrow> byte list \<rightharpoonup> byte list) \<Rightarrow> ('e, 'x, 'm) app_world \<Rightarrow> nat \<Rightarrow> bool" where
  "ctx_ok env seen w a \<longleftrightarrow> (\<exists>c x. w_contexts w a = Some c \<and> ctx_transaction c = Some x \<and> tables_ok w c
     \<and> (must_rollback (app_engine env) x \<or> names_ok (seen (w_storage w) x (app_names_store env))))"

section \<open>What a transaction is about to write\<close>

definition flushed_bytes :: "('e, 'x, 's, 'm) app_env \<Rightarrow> 'm \<Rightarrow> gzochid_data_managed_reference \<Rightarrow> byte list option" where
  "flushed_bytes env mem ref =
     (if ref_state ref \<in> {Ref_New, Ref_Modified}
      then Option.bind (ref_obj ref) (\<lambda>obj. serializer (app_serialization env (ref_serialization ref)) obj mem)
      else None)"

definition flush_entry ::
    "('e, 'x, 's, 'm) app_env \<Rightarrow> ('e, 'x, 'm) app_world \<Rightarrow> nat \<Rightarrow> (byte list \<times> byte list) option" where
  "flush_entry env w r = do {
     ref \<leftarrow> w_references w r;
     out \<leftarrow> flushed_bytes env (w_memory w) ref;
     Some (oid_key (app_big_endian env) (ref_oid ref), out)
   }"

definition flush_list ::
    "('e, 'x, 's, 'm) app_env \<Rightarrow> ('e, 'x, 'm) app_world \<Rightarrow> nat list \<Rightarrow> (byte list \<times> byte list) list" where
  "flush_list env w rs = List.map_filter (flush_entry env w) rs"

text \<open>The content of the object store when everything new or modified has been written to it.\<close>

definition objects_after ::
    "('e, 'x, 's, 'm) app_env \<Rightarrow> ('e \<Rightarrow> 'x \<Rightarrow> 's \<Rightarrow> byte list \<rightharpoonup> byte list) \<Rightarrow> ('e, 'x, 'm) app_world \<Rightarrow>
     'x gzochid_data_transaction_context \<Rightarrow> 'x \<Rightarrow> byte list \<rightharpoonup> byte list" where
  "objects_after env seen w c x =
     seen (w_storage w) x (app_oids_store env) ++ map_of (flush_list env w (map snd (ctx_oids_to_references c)))"

lemma oid_key_eq: "oid_key be oid = be_long oid"
  by (simp add: oid_key_def host_bytes_def gzochid_util_encode_oid_def be_long_bswap64)

lemma oid_key_inject [simp]: "oid_key be a = oid_key be b \<longleftrightarrow> a = b"
  by (auto simp: oid_key_eq be_long_inject)

lemma length_oid_key [simp]: "length (oid_key be a) = 8"
  by (simp add: oid_key_eq)

section \<open>Calls of the engine\<close>

text \<open>What a call of the engine changes: the storage, the transaction of the context, and the events.\<close>

definition moved ::
    "nat \<Rightarrow> 'x gzochid_data_transaction_context \<Rightarrow> 'e \<Rightarrow> 'x \<Rightarrow> ('e, 'x, 'm) app_thread \<Rightarrow> ('e, 'x, 'm) app_thread \<Rightarrow> bool" where
  "moved a c e x st st' \<longleftrightarrow> (\<exists>ev. st' = st\<lparr>th_world := (th_world st)\<lparr>w_storage := e, w_events := ev,
     w_contexts := (w_contexts (th_world st))(a \<mapsto> c\<lparr>ctx_transaction := Some x\<rparr>)\<rparr>\<rparr>)"

lemma ctx_call_eq:
  assumes "w_contexts (th_world st) a = Some c" and "ctx_transaction c = Some x"
    and "f (w_storage (th_world st)) x = (e', x', r)"
  shows "\<exists>st'. ctx_call a f st = Some (st', x', r) \<and> moved a c e' x' st st' \<and> w_events (th_world st') = w_events (th_world st)"
  using assms by (cases "th_world st") (auto simp: ctx_call_def moved_def in_world_def)

lemma moved_id: "w_contexts (th_world st) a = Some c \<Longrightarrow> ctx_transaction c = Some x \<Longrightarrow>
    moved a c (w_storage (th_world st)) x st st"
  by (auto simp: moved_def fun_upd_idem intro!: exI [of _ "w_events (th_world st)"])

lemma moved_trans:
  "moved a c e x st st' \<Longrightarrow> moved a (c\<lparr>ctx_transaction := Some x\<rparr>) e' x' st' st'' \<Longrightarrow> moved a c e' x' st st''"
  by (auto simp: moved_def)

lemma moved_event:
  "moved a c e x st st' \<Longrightarrow> moved a c e x st (in_world (\<lambda>w. w\<lparr>w_events := ev w\<rparr>) st')"
  by (cases "th_world st") (auto simp: moved_def in_world_def)

lemma movedD:
  assumes "moved a c e x st st'"
  shows "w_contexts (th_world st') a = Some (c\<lparr>ctx_transaction := Some x\<rparr>)" "w_storage (th_world st') = e"
    "w_references (th_world st') = w_references (th_world st)" "w_memory (th_world st') = w_memory (th_world st)"
    "th_transaction st' = th_transaction st" "th_timing st' = th_timing st" "th_calls st' = th_calls st"
    "w_log (th_world st') = w_log (th_world st)" "w_log_contexts (th_world st') = w_log_contexts (th_world st)"
    "w_next (th_world st') = w_next (th_world st)" "b \<noteq> a \<Longrightarrow> w_contexts (th_world st') b = w_contexts (th_world st) b"
  using assms by (auto simp: moved_def)

section \<open>Flushing\<close>

lemma flush_list_Cons:
  "flush_list env w (r # rs) = (case flush_entry env w r of None \<Rightarrow> flush_list env w rs | Some p \<Rightarrow> p # flush_list env w rs)"
  by (simp add: flush_list_def map_filter_simps split: option.split)

lemma flush_list_cong:
  "w_references w' = w_references w \<Longrightarrow> w_memory w' = w_memory w \<Longrightarrow> flush_list env w' rs = flush_list env w rs"
  by (simp add: flush_list_def flush_entry_def [abs_def])

lemma contract_engine: "app_contract env view seen \<Longrightarrow> engine_contract (app_engine env) view seen"
  by (simp add: app_contract_def)

lemma contract_oid_order:
  "app_contract env view seen \<Longrightarrow> distinct ks \<Longrightarrow> distinct (app_oid_order env ks) \<and> set (app_oid_order env ks) = set ks"
  by (simp add: app_contract_def)

lemma contract_stays:
  assumes "app_contract env view seen" and "must_rollback (app_engine env) x"
  shows "transaction_put (app_engine env) e x s k v = (e', x') \<Longrightarrow> must_rollback (app_engine env) x'"
    and "transaction_delete (app_engine env) e x s k = (e', x') \<Longrightarrow> must_rollback (app_engine env) x'"
    and "transaction_get (app_engine env) e x s k = (e', x', r) \<Longrightarrow> must_rollback (app_engine env) x'"
    and "transaction_get_for_update (app_engine env) e x s k = (e', x', r) \<Longrightarrow> must_rollback (app_engine env) x'"
    and "transaction_next_key (app_engine env) e x s k = (e', x', r) \<Longrightarrow> must_rollback (app_engine env) x'"
    and "transaction_prepare (app_engine env) e x = (e', x') \<Longrightarrow> must_rollback (app_engine env) x'"
proof -
  have "stays_failed (app_engine env)" using assms(1) by (simp add: app_contract_def)
  note s = this [unfolded stays_failed_def]
  show "transaction_put (app_engine env) e x s k v = (e', x') \<Longrightarrow> must_rollback (app_engine env) x'"
    using s assms(2) by (metis snd_conv)
  show "transaction_delete (app_engine env) e x s k = (e', x') \<Longrightarrow> must_rollback (app_engine env) x'"
    using s assms(2) by (metis snd_conv)
  show "transaction_get (app_engine env) e x s k = (e', x', r) \<Longrightarrow> must_rollback (app_engine env) x'"
    using s assms(2) by (metis fst_conv snd_conv)
  show "transaction_get_for_update (app_engine env) e x s k = (e', x', r) \<Longrightarrow> must_rollback (app_engine env) x'"
    using s assms(2) by (metis fst_conv snd_conv)
  show "transaction_next_key (app_engine env) e x s k = (e', x', r) \<Longrightarrow> must_rollback (app_engine env) x'"
    using s assms(2) by (metis fst_conv snd_conv)
  show "transaction_prepare (app_engine env) e x = (e', x') \<Longrightarrow> must_rollback (app_engine env) x'"
    using s assms(2) by (metis snd_conv)
qed

text \<open>
  The outcome of a run of the flush loop: the committed content is untouched, and unless the
  transaction has failed it sees exactly what was flushed on top of what it saw.
\<close>

definition flushed ::
    "('e, 'x, 's, 'm) app_env \<Rightarrow> ('e \<Rightarrow> 's \<Rightarrow> byte list \<rightharpoonup> byte list) \<Rightarrow> ('e \<Rightarrow> 'x \<Rightarrow> 's \<Rightarrow> byte list \<rightharpoonup> byte list) \<Rightarrow>
     (byte list \<times> byte list) list \<Rightarrow> bool \<Rightarrow> 'e \<Rightarrow> 'x \<Rightarrow> 'e \<Rightarrow> 'x \<Rightarrow> bool" where
  "flushed env view seen es ok e x e' x' \<longleftrightarrow> view e' = view e
     \<and> (must_rollback (app_engine env) x \<longrightarrow> must_rollback (app_engine env) x')
     \<and> (must_rollback (app_engine env) x'
        \<or> (\<exists>m. seen e' x' = (seen e x)(app_oids_store env := m)
            \<and> (ok \<longrightarrow> m = seen e x (app_oids_store env) ++ map_of (rev es))))"

lemma flushed_id: "ok \<longrightarrow> es = [] \<Longrightarrow> flushed env view seen es ok e x e x"
  by (auto simp: flushed_def intro!: exI [of _ "seen e x (app_oids_store env)"])

lemma flush_reference_ok:
  assumes con: "app_contract env view seen" and c: "w_contexts (th_world st) a = Some c" "ctx_transaction c = Some x"
    and ref: "w_references (th_world st) r = Some ref" "ref_ok ref" and t: "th_transaction st \<noteq> None"
  shows "returns (flush_reference env r a st) (\<lambda>(st', ok). \<exists>e' x'. moved a c e' x' st st'
    \<and> flushed env view seen (flush_list env (th_world st) [r]) ok (w_storage (th_world st)) x e' x')"
proof (cases "ref_state ref \<in> {Ref_New, Ref_Modified}")
  case False
  have fl: "flush_list env (th_world st) [r] = []"
    using False ref by (auto simp: flush_list_def flush_entry_def flushed_bytes_def map_filter_simps)
  have "flush_reference env r a st = Some (st, True)"
    using False ref by (cases "ref_state ref") (auto simp: flush_reference_def ref_ok_def)
  then show ?thesis
    by (simp add: fl) (rule exI [of _ "w_storage (th_world st)"], rule exI [of _ x], simp add: moved_id [OF c] flushed_id)
next
  case True
  then obtain obj where obj: "ref_obj ref = Some obj" using ref(2) by (auto simp: ref_ok_def)
  let ?out = "serializer (app_serialization env (ref_serialization ref)) obj (w_memory (th_world st))"
  have id: "\<exists>e' x'. moved a c e' x' st st \<and> flushed env view seen es False (w_storage (th_world st)) x e' x'" for es
    by (rule exI [of _ "w_storage (th_world st)"], rule exI [of _ x]) (simp add: moved_id [OF c] flushed_id)
  obtain marked where marked: "gzochid_transaction_rollback_only st = Some marked"
    using t by (auto simp: gzochid_transaction_rollback_only_def)
  show ?thesis
  proof (cases "?out = None \<or> marked")
    case nf: True
    then have "flush_reference env r a st = Some (st, False)"
      using True ref(1) obj marked by (cases "ref_state ref") (auto simp: flush_reference_def split: option.splits)
    then show ?thesis using id by simp
  next
    case nf: False
    then obtain out where out: "?out = Some out" and m: "\<not> marked" by auto
    obtain e' x' where p: "transaction_put (app_engine env) (w_storage (th_world st)) x (app_oids_store env)
        (oid_key (app_big_endian env) (ref_oid ref)) out = (e', x')" by fastforce
    obtain st' where st': "ctx_call a (\<lambda>e x. case transaction_put (app_engine env) e x (app_oids_store env)
        (oid_key (app_big_endian env) (ref_oid ref)) out of (e, x) \<Rightarrow> (e, x, ())) st = Some (st', x', ())"
      "moved a c e' x' st st'"
      using ctx_call_eq [OF c, of "\<lambda>e x. case transaction_put (app_engine env) e x (app_oids_store env)
        (oid_key (app_big_endian env) (ref_oid ref)) out of (e, x) \<Rightarrow> (e, x, ())" e' x' "()"] p by auto
    have fl: "flush_list env (th_world st) [r] = [(oid_key (app_big_endian env) (ref_oid ref), out)]"
      using True ref obj out by (simp add: flush_list_def flush_entry_def flushed_bytes_def map_filter_simps)
    have "flushed env view seen (flush_list env (th_world st) [r]) ok (w_storage (th_world st)) x e' x'" for ok
      using contract_put [OF contract_engine [OF con] p] contract_stays(1) [OF con _ p]
      by (auto simp: flushed_def fl)
    moreover have "flush_reference env r a st =
        Some (in_world (\<lambda>w. w\<lparr>w_events := w_events w @ [Bytes_Written (length out)]\<rparr>) st', \<not> must_rollback (app_engine env) x')"
      using True ref(1) obj marked m out st'(1) by (cases "ref_state ref") (auto simp: flush_reference_def)
    ultimately show ?thesis by (auto intro!: exI [of _ e'] exI [of _ x'] moved_event [OF st'(2)])
  qed
qed

lemma flushed_trans:
  assumes "flushed env view seen es True e x e' x'" and "flushed env view seen fs ok e' x' e'' x''"
  shows "flushed env view seen (es @ fs) ok e x e'' x''"
  using assms by (auto simp: flushed_def map_add_assoc)

lemma flushed_failed: "flushed env view seen es False e x e' x' \<Longrightarrow> flushed env view seen fs False e x e' x'"
  by (simp add: flushed_def)

lemma flush_list_append: "flush_list env w (rs @ ss) = flush_list env w rs @ flush_list env w ss"
  by (simp add: flush_list_def map_filter_def)

lemma flush_references_ok:
  assumes "app_contract env view seen" and "w_contexts (th_world st) a = Some c" "ctx_transaction c = Some x"
    and "\<forall>r \<in> set rs. \<exists>ref. w_references (th_world st) r = Some ref \<and> ref_ok ref" and "th_transaction st \<noteq> None"
  shows "returns (flush_references env rs a st) (\<lambda>(st', ok). \<exists>e' x'. moved a c e' x' st st'
    \<and> flushed env view seen (flush_list env (th_world st) rs) ok (w_storage (th_world st)) x e' x')"
  using assms(2-)
proof (induction rs arbitrary: st c x)
  case Nil
  then show ?case
    by (simp add: flush_list_def map_filter_simps)
      (rule exI [of _ "w_storage (th_world st)"], rule exI [of _ x], simp add: moved_id flushed_id)
next
  case (Cons r rs)
  obtain ref where ref: "w_references (th_world st) r = Some ref" "ref_ok ref" using Cons.prems(3) by auto
  obtain st1 ok e1 x1 where st1: "flush_reference env r a st = Some (st1, ok)" "moved a c e1 x1 st st1"
    and f1: "flushed env view seen (flush_list env (th_world st) [r]) ok (w_storage (th_world st)) x e1 x1"
    using flush_reference_ok [OF assms(1) Cons.prems(1,2) ref Cons.prems(4)] by (auto simp: returns_def)
  note m = movedD [OF st1(2)]
  show ?case
  proof (cases ok)
    case False
    then show ?thesis using st1 f1 flushed_failed by fastforce
  next
    case True
    have "returns (flush_references env rs a st1) (\<lambda>(st', ok). \<exists>e' x'. moved a (c\<lparr>ctx_transaction := Some x1\<rparr>) e' x' st1 st'
      \<and> flushed env view seen (flush_list env (th_world st1) rs) ok (w_storage (th_world st1)) x1 e' x')"
      by (rule Cons.IH) (use m Cons.prems in auto)
    then obtain st2 ok2 e2 x2 where st2: "flush_references env rs a st1 = Some (st2, ok2)"
      "moved a (c\<lparr>ctx_transaction := Some x1\<rparr>) e2 x2 st1 st2"
      "flushed env view seen (flush_list env (th_world st1) rs) ok2 (w_storage (th_world st1)) x1 e2 x2"
      by (auto simp: returns_def)
    moreover have "flush_list env (th_world st) (r # rs) = flush_list env (th_world st) [r] @ flush_list env (th_world st) rs"
      using flush_list_append [of env "th_world st" "[r]" rs] by simp
    moreover have "flush_list env (th_world st1) rs = flush_list env (th_world st) rs"
      by (rule flush_list_cong) (simp_all add: m)
    ultimately have "flushed env view seen (flush_list env (th_world st) (r # rs)) ok2 (w_storage (th_world st)) x e2 x2"
      using flushed_trans [of env view seen "flush_list env (th_world st) [r]"] f1 True m(2) by simp
    then show ?thesis
      using st1(1) st2(1) True moved_trans [OF st1(2) st2(2)] by auto
  qed
qed

text \<open>In which order the references are flushed does not matter.\<close>

lemma flush_keys_distinct:
  assumes "distinct (map fst tab)" and "\<forall>(oid, r) \<in> set tab. \<exists>ref. w_references w r = Some ref \<and> ref_oid ref = oid"
    and "distinct rs" and "set rs \<subseteq> snd ` set tab"
  shows "distinct (map fst (flush_list env w rs))"
  using assms(3,4)
proof (induction rs)
  case Nil
  then show ?case by (simp add: flush_list_def map_filter_simps)
next
  case (Cons r rs)
  have "fst ` set (flush_list env w rs) \<subseteq> {oid_key (app_big_endian env) (ref_oid ref) | ref r'. r' \<in> set rs \<and> w_references w r' = Some ref}"
    by (force simp: flush_list_def flush_entry_def map_filter_def bind_eq_Some_conv)
  moreover have "ref_oid ref \<noteq> ref_oid ref'" if rr: "w_references w r = Some ref" "r' \<in> set rs" "w_references w r' = Some ref'" for ref ref' r'
  proof
    assume eq: "ref_oid ref = ref_oid ref'"
    obtain o1 o2 where "(o1, r) \<in> set tab" "(o2, r') \<in> set tab" using Cons.prems(2) rr(2) by force
    moreover from this have "o1 = ref_oid ref" "o2 = ref_oid ref'" using assms(2) rr by auto
    ultimately have "r = r'" using eq assms(1) by (metis eq_key_imp_eq_value)
    then show False using rr(2) Cons.prems(1) by simp
  qed
  ultimately show ?case
    using Cons by (auto simp: flush_list_Cons flush_entry_def bind_eq_Some_conv split: option.splits)
qed

lemma flush_order:
  assumes "distinct (map fst tab)" and "\<forall>(oid, r) \<in> set tab. \<exists>ref. w_references w r = Some ref \<and> ref_oid ref = oid"
    and "distinct rs" and "set rs = snd ` set tab"
  shows "map_of (rev (flush_list env w rs)) = map_of (flush_list env w (map snd tab))"
proof -
  have inj: "distinct (map snd tab)"
  proof -
    have "inj_on snd (set tab)"
    proof (rule inj_onI)
      fix p q
      assume pq: "p \<in> set tab" "q \<in> set tab" "snd p = snd q"
      moreover have "\<exists>ref. w_references w (snd t) = Some ref \<and> ref_oid ref = fst t" if "t \<in> set tab" for t
        using assms(2) that by auto
      ultimately have "fst p = fst q" by (metis option.inject)
      with pq(3) show "p = q" by (simp add: prod_eq_iff)
    qed
    then show ?thesis using assms(1) by (simp add: distinct_map)
  qed
  have "distinct (map fst (flush_list env w rs))" "distinct (map fst (flush_list env w (map snd tab)))"
    using flush_keys_distinct [OF assms(1,2), of rs] flush_keys_distinct [OF assms(1,2), of "map snd tab"] assms(3,4) inj by auto
  moreover have "set (flush_list env w rs) = set (flush_list env w (map snd tab))"
    using assms(4) by (auto simp: flush_list_def map_filter_def)
  ultimately show ?thesis
    by (subst map_of_inject_set) (simp_all add: rev_map [symmetric])
qed

lemma get_values_eq:
  assumes "distinct (map fst tab)" and "distinct (order (map fst tab)) \<and> set (order (map fst tab)) = set (map fst tab)"
  shows "set (g_hash_table_get_values order tab) = snd ` set tab"
    and "inj_on snd (set tab) \<Longrightarrow> distinct (g_hash_table_get_values order tab)"
proof -
  have m: "map_of tab k = Some (the (map_of tab k))" if "k \<in> set (order (map fst tab))" for k
    using that assms(2) by (metis map_of_eq_None_iff option.collapse set_map)
  have r: "g_hash_table_get_values order tab = map (\<lambda>k. the (map_of tab k)) (order (map fst tab))"
  proof -
    have "filter (\<lambda>k. map_of tab k \<noteq> None) (order (map fst tab)) = order (map fst tab)" using m by (force simp: filter_id_conv)
    then show ?thesis by (simp add: g_hash_table_get_values_def map_filter_def comp_def)
  qed
  show "set (g_hash_table_get_values order tab) = snd ` set tab"
    using assms by (force simp: r)
  assume i: "inj_on snd (set tab)"
  have "inj_on (\<lambda>k. the (map_of tab k)) (set (order (map fst tab)))"
  proof (rule inj_onI)
    fix k k'
    assume k: "k \<in> set (order (map fst tab))" "k' \<in> set (order (map fst tab))" and eq: "the (map_of tab k) = the (map_of tab k')"
    have "(k, the (map_of tab k)) = (k', the (map_of tab k'))"
      by (rule inj_onD [OF i]) (use eq map_of_SomeD [OF m [OF k(1)]] map_of_SomeD [OF m [OF k(2)]] in simp_all)
    then show "k = k'" by simp
  qed
  then show "distinct (g_hash_table_get_values order tab)"
    using assms(2) by (simp add: r distinct_map)
qed

section \<open>The callbacks of the data manager\<close>

lemma tables_moved: "moved a c e x st st' \<Longrightarrow> tables_ok (th_world st) d \<Longrightarrow> tables_ok (th_world st') (d\<lparr>ctx_transaction := t\<rparr>)"
  by (simp add: tables_ok_def movedD)

lemma table_values:
  assumes "app_contract env view seen" and "tables_ok w c"
  defines "rs \<equiv> g_hash_table_get_values (app_oid_order env) (ctx_oids_to_references c)"
  shows "\<forall>r \<in> set rs. \<exists>ref. w_references w r = Some ref \<and> ref_ok ref"
    and "map_of (rev (flush_list env w rs)) = map_of (flush_list env w (map snd (ctx_oids_to_references c)))"
proof -
  let ?tab = "ctx_oids_to_references c"
  have d: "distinct (map fst ?tab)" and t: "\<forall>(oid, r) \<in> set ?tab. \<exists>ref. w_references w r = Some ref \<and> ref_oid ref = oid"
    using assms(2) by (auto simp: tables_ok_def)
  have o: "distinct (app_oid_order env (map fst ?tab)) \<and> set (app_oid_order env (map fst ?tab)) = set (map fst ?tab)"
    using contract_oid_order [OF assms(1) d] by simp
  have inj: "inj_on snd (set ?tab)"
  proof (rule inj_onI)
    fix p q
    assume pq: "p \<in> set ?tab" "q \<in> set ?tab" "snd p = snd q"
    moreover have "\<exists>ref. w_references w (snd u) = Some ref \<and> ref_oid ref = fst u" if "u \<in> set ?tab" for u
      using t that by auto
    ultimately have "fst p = fst q" by (metis option.inject)
    with pq(3) show "p = q" by (simp add: prod_eq_iff)
  qed
  have v: "set rs = snd ` set ?tab" "distinct rs"
    using get_values_eq [of ?tab "app_oid_order env"] d o inj by (simp_all add: rs_def)
  show "\<forall>r \<in> set rs. \<exists>ref. w_references w r = Some ref \<and> ref_ok ref"
    using assms(2) v(1) by (fastforce simp: tables_ok_def)
  show "map_of (rev (flush_list env w rs)) = map_of (flush_list env w (map snd ?tab))"
    by (rule flush_order [OF d t v(2,1)])
qed

lemma data_prepare_ok:
  assumes con: "app_contract env view seen" and c: "w_contexts (th_world st) a = Some c" "ctx_transaction c = Some x"
    and tab: "tables_ok (th_world st) c" and t: "th_transaction st \<noteq> None"
    and n: "must_rollback (app_engine env) x \<or> names_ok (seen (w_storage (th_world st)) x (app_names_store env))"
  shows "returns (data_prepare env (Some a) st) (\<lambda>(st', ok). \<exists>e' x'. moved a c e' x' st st'
    \<and> view e' = view (w_storage (th_world st))
    \<and> (must_rollback (app_engine env) x' \<or> names_ok (seen e' x' (app_names_store env)))
    \<and> (ok \<longrightarrow> \<not> must_rollback (app_engine env) x'
        \<and> seen e' x' (app_oids_store env) = objects_after env seen (th_world st) c x
        \<and> seen e' x' (app_names_store env) = seen (w_storage (th_world st)) x (app_names_store env)))"
proof -
  let ?e = "w_storage (th_world st)" and ?rs = "g_hash_table_get_values (app_oid_order env) (ctx_oids_to_references c)"
  have ne: "app_names_store env \<noteq> app_oids_store env" using con by (auto simp: app_contract_def)
  obtain st1 ok e1 x1 where st1: "flush_references env ?rs a st = Some (st1, ok)" "moved a c e1 x1 st st1"
    and f1: "flushed env view seen (flush_list env (th_world st) ?rs) ok ?e x e1 x1"
    using flush_references_ok [OF con c table_values(1) [OF con tab] t] by (auto simp: returns_def)
  have n1: "must_rollback (app_engine env) x1 \<or> names_ok (seen e1 x1 (app_names_store env))"
    using f1 n ne by (auto simp: flushed_def)
  show ?thesis
  proof (cases ok)
    case False
    then show ?thesis using c st1 f1 n1 by (auto simp: data_prepare_def flushed_def)
  next
    case True
    obtain e2 x2 where p: "transaction_prepare (app_engine env) e1 x1 = (e2, x2)" by fastforce
    note m = movedD [OF st1(2)]
    obtain st2 where st2: "ctx_call a (\<lambda>e x. case transaction_prepare (app_engine env) e x of (e, x) \<Rightarrow> (e, x, ())) st1
        = Some (st2, x2, ())" "moved a (c\<lparr>ctx_transaction := Some x1\<rparr>) e2 x2 st1 st2"
      using ctx_call_eq [OF m(1), of x1 "\<lambda>e x. case transaction_prepare (app_engine env) e x of (e, x) \<Rightarrow> (e, x, ())" e2 x2 "()"]
        p m(2) by auto
    have v: "view e2 = view ?e"
      using contract_prepare [OF contract_engine [OF con] p] f1 by (simp add: flushed_def)
    have s: "seen e2 x2 = seen e1 x1" "\<not> must_rollback (app_engine env) x1" if "\<not> must_rollback (app_engine env) x2"
      using contract_prepare [OF contract_engine [OF con] p] contract_stays(6) [OF con _ p] that by auto
    have "seen e1 x1 (app_oids_store env) = objects_after env seen (th_world st) c x"
        "seen e1 x1 (app_names_store env) = seen ?e x (app_names_store env)" if "\<not> must_rollback (app_engine env) x1"
      using f1 True that ne table_values(2) [OF con tab] by (auto simp: flushed_def objects_after_def)
    then show ?thesis
      using c st1(1) st2(1) True moved_trans [OF st1(2) st2(2)] v s n1
      by (cases "must_rollback (app_engine env) x2") (auto simp: data_prepare_def intro!: exI [of _ e2] exI [of _ x2])
  qed
qed

lemma finalize_loop_ok:
  assumes "\<forall>r \<in> set rs. w_references w r \<noteq> None"
  shows "returns (finalize_loop env rs w) (\<lambda>w'. \<exists>m f. w' = w\<lparr>w_memory := m, w_references := f\<rparr>
    \<and> (\<forall>r. r \<notin> set rs \<longrightarrow> f r = w_references w r) \<and> dom f = dom (w_references w))"
  using assms
proof (induction rs arbitrary: w)
  case Nil
  then show ?case by (auto intro!: exI [of _ "w_memory w"] exI [of _ "w_references w"])
next
  case (Cons r rs)
  obtain ref where ref: "w_references w r = Some ref" using Cons.prems by auto
  show ?case
  proof (cases "ref_obj ref")
    case None
    then show ?thesis using Cons ref by (simp add: returns_def) metis
  next
    case (Some obj)
    let ?w = "w\<lparr>w_memory := finalizer (app_serialization env (ref_serialization ref)) obj (w_memory w),
           w_references := (w_references w)(r \<mapsto> ref\<lparr>ref_obj := None\<rparr>)\<rparr>"
    have "dom (w_references ?w) = dom (w_references w)" using ref by auto
    moreover have "returns (finalize_loop env rs ?w) (\<lambda>w'. \<exists>m f. w' = ?w\<lparr>w_memory := m, w_references := f\<rparr>
        \<and> (\<forall>r. r \<notin> set rs \<longrightarrow> f r = w_references ?w r) \<and> dom f = dom (w_references ?w))"
      by (rule Cons.IH) (use Cons.prems in auto)
    ultimately obtain m f where "finalize_loop env rs ?w = Some (w\<lparr>w_memory := m, w_references := f\<rparr>)"
        "\<forall>r. r \<notin> set rs \<longrightarrow> f r = w_references ?w r" "dom f = dom (w_references w)"
      by (auto simp: returns_def)
    then show ?thesis using ref Some by (auto intro!: exI [of _ m] exI [of _ f])
  qed
qed

text \<open>The end of a data transaction, whichever way it goes: the references and the context are gone.\<close>

lemma finalize_references_ok:
  assumes "w_contexts w a = Some c" and "tables_ok w c" and "app_contract env view seen"
  shows "returns (finalize_references env a w) (\<lambda>w'. \<exists>m f. w' = w\<lparr>w_memory := m, w_references := f\<rparr>
    \<and> (\<forall>r. f r \<noteq> None \<longrightarrow> f r = w_references w r \<and> r \<notin> snd ` set (ctx_oids_to_references c)))"
proof -
  let ?rs = "g_hash_table_get_values (app_oid_order env) (ctx_oids_to_references c)"
  have rs: "\<forall>r \<in> set ?rs. w_references w r \<noteq> None"
    using table_values(1) [OF assms(3,2)] by force
  have d: "distinct (map fst (ctx_oids_to_references c))" using assms(2) by (simp add: tables_ok_def)
  have s: "set ?rs = snd ` set (ctx_oids_to_references c)"
    by (rule get_values_eq(1) [OF d]) (use contract_oid_order [OF assms(3) d] in simp)
  obtain m f where f: "finalize_loop env ?rs w = Some (w\<lparr>w_memory := m, w_references := f\<rparr>)"
      "\<forall>r. r \<notin> set ?rs \<longrightarrow> f r = w_references w r"
    using finalize_loop_ok [OF rs, of env] by (auto simp: returns_def)
  have "finalize_references env a w = Some (w\<lparr>w_memory := m, w_references := f |` (- set ?rs)\<rparr>)"
    using assms(1) f(1) by (simp add: finalize_references_def)
  moreover have "(f |` (- set ?rs)) r = w_references w r \<and> r \<notin> snd ` set (ctx_oids_to_references c)"
    if "(f |` (- set ?rs)) r \<noteq> None" for r
    using that f(2) s by (cases "r \<in> set ?rs") (simp_all add: restrict_map_def)
  ultimately show ?thesis by (simp add: returns_def) blast
qed

section \<open>The contract of the participants\<close>

datatype durable_state = Stores "byte list \<rightharpoonup> byte list" "byte list \<rightharpoonup> byte list" | Logged "(int \<times> cstring) list"

fun app_durable ::
    "('e, 'x, 's, 'm) app_env \<Rightarrow> ('e \<Rightarrow> 's \<Rightarrow> byte list \<rightharpoonup> byte list) \<Rightarrow> ('e, 'x, 'm) app_world \<Rightarrow> participant \<Rightarrow> durable_state" where
  "app_durable env view w Data_Participant =
     Stores (view (w_storage w) (app_oids_store env)) (view (w_storage w) (app_names_store env))"
| "app_durable env view w Log_Participant = Logged (w_log w)"

definition log_joined :: "gpointer \<Rightarrow> ('e, 'x, 'm) app_world \<Rightarrow> bool" where
  "log_joined d w \<longleftrightarrow> Option.bind d (w_log_contexts w) \<noteq> None"

fun app_ready ::
    "('e, 'x, 's, 'm) app_env \<Rightarrow> ('e \<Rightarrow> 'x \<Rightarrow> 's \<Rightarrow> byte list \<rightharpoonup> byte list) \<Rightarrow> participant \<Rightarrow> gpointer \<Rightarrow>
     ('e, 'x, 'm) app_world \<Rightarrow> bool" where
  "app_ready env seen Data_Participant d w \<longleftrightarrow> (\<exists>a. d = Some a \<and> ctx_ok env seen w a)"
| "app_ready env seen Log_Participant d w \<longleftrightarrow> log_joined d w"

fun app_joined ::
    "('e, 'x, 's, 'm) app_env \<Rightarrow> ('e \<Rightarrow> 'x \<Rightarrow> 's \<Rightarrow> byte list \<rightharpoonup> byte list) \<Rightarrow> participant \<Rightarrow> gpointer \<Rightarrow>
     ('e, 'x, 'm) app_world \<Rightarrow> bool" where
  "app_joined env seen Data_Participant d w \<longleftrightarrow> d = None \<or> app_ready env seen Data_Participant d w"
| "app_joined env seen Log_Participant d w \<longleftrightarrow> log_joined d w"

fun app_intent ::
    "('e, 'x, 's, 'm) app_env \<Rightarrow> ('e \<Rightarrow> 'x \<Rightarrow> 's \<Rightarrow> byte list \<rightharpoonup> byte list) \<Rightarrow> participant \<Rightarrow> gpointer \<Rightarrow>
     ('e, 'x, 'm) app_world \<Rightarrow> durable_state" where
  "app_intent env seen Data_Participant d w =
     (case Option.bind d (w_contexts w) of
        None \<Rightarrow> Stores Map.empty Map.empty
      | Some c \<Rightarrow> (case ctx_transaction c of
            None \<Rightarrow> Stores Map.empty Map.empty
          | Some x \<Rightarrow> Stores (objects_after env seen w c x) (seen (w_storage w) x (app_names_store env))))"
| "app_intent env seen Log_Participant d w =
     Logged (w_log w @ (case Option.bind d (w_log_contexts w) of None \<Rightarrow> [] | Some messages \<Rightarrow> messages))"

definition data_prepared ::
    "('e, 'x, 's, 'm) app_env \<Rightarrow> ('e \<Rightarrow> 'x \<Rightarrow> 's \<Rightarrow> byte list \<rightharpoonup> byte list) \<Rightarrow> nat \<Rightarrow> ('e, 'x, 'm) app_world \<Rightarrow> bool" where
  "data_prepared env seen a w \<longleftrightarrow> (\<exists>c x. w_contexts w a = Some c \<and> ctx_transaction c = Some x \<and> tables_ok w c
     \<and> \<not> must_rollback (app_engine env) x \<and> names_ok (seen (w_storage w) x (app_names_store env))
     \<and> seen (w_storage w) x (app_oids_store env) = objects_after env seen w c x)"

fun app_prepared ::
    "('e, 'x, 's, 'm) app_env \<Rightarrow> ('e \<Rightarrow> 'x \<Rightarrow> 's \<Rightarrow> byte list \<rightharpoonup> byte list) \<Rightarrow> participant \<Rightarrow> gpointer \<Rightarrow>
     ('e, 'x, 'm) app_world \<Rightarrow> bool" where
  "app_prepared env seen Data_Participant d w \<longleftrightarrow> (\<exists>a. d = Some a \<and> data_prepared env seen a w)"
| "app_prepared env seen Log_Participant d w \<longleftrightarrow> log_joined d w"

fun app_others :: "participant \<Rightarrow> ('e, 'x, 'm) app_world \<Rightarrow> ('e, 'x, 'm) app_world \<Rightarrow> bool" where
  "app_others Data_Participant w w' \<longleftrightarrow> w_log w' = w_log w \<and> w_log_contexts w' = w_log_contexts w"
| "app_others Log_Participant w w' \<longleftrightarrow> w_storage w' = w_storage w \<and> w_contexts w' = w_contexts w
     \<and> w_references w' = w_references w \<and> w_memory w' = w_memory w"

lemma data_part_cong:
  assumes "app_others Log_Participant w w'"
  shows "tables_ok w' c = tables_ok w c" "objects_after env seen w' c x = objects_after env seen w c x"
    "ctx_ok env seen w' a = ctx_ok env seen w a" "data_prepared env seen a w' = data_prepared env seen a w"
  using assms
  by (simp_all add: tables_ok_def objects_after_def ctx_ok_def data_prepared_def cong: flush_list_cong)

lemma app_others_keep:
  assumes "app_others p w w'" and "q \<noteq> p"
  shows "app_joined env seen q d w' = app_joined env seen q d w \<and> app_ready env seen q d w' = app_ready env seen q d w
    \<and> app_prepared env seen q d w' = app_prepared env seen q d w \<and> app_intent env seen q d w' = app_intent env seen q d w"
proof (cases p)
  case Data_Participant
  then have "q = Log_Participant" using assms(2) by (cases q) auto
  then show ?thesis using assms(1) Data_Participant by (simp add: log_joined_def)
next
  case Log_Participant
  then have q: "q = Data_Participant" using assms(2) by (cases q) auto
  have o: "app_others Log_Participant w w'" using assms(1) Log_Participant by simp
  then have "w_contexts w' = w_contexts w" "w_storage w' = w_storage w" by simp_all
  then show ?thesis
    by (simp add: q data_part_cong [OF o] split: option.split)
qed

lemma map_add_twice: "m ++ f ++ f = m ++ f"
  by (auto simp: map_add_def split: option.splits)

lemma data_prepare_contract:
  assumes con: "app_contract env view seen" and r: "app_ready env seen Data_Participant d (th_world st)"
    and t: "th_transaction st \<noteq> None"
  shows "returns (data_prepare env d st) (\<lambda>(st', ok). kept st st' \<and> th_calls st' = th_calls st
    \<and> app_others Data_Participant (th_world st) (th_world st')
    \<and> app_durable env view (th_world st') = app_durable env view (th_world st)
    \<and> app_joined env seen Data_Participant d (th_world st')
    \<and> (ok \<longrightarrow> app_prepared env seen Data_Participant d (th_world st')
        \<and> app_intent env seen Data_Participant d (th_world st') = app_intent env seen Data_Participant d (th_world st)))"
proof -
  obtain a c x where a: "d = Some a" and c: "w_contexts (th_world st) a = Some c" "ctx_transaction c = Some x"
    and tab: "tables_ok (th_world st) c"
    and n: "must_rollback (app_engine env) x \<or> names_ok (seen (w_storage (th_world st)) x (app_names_store env))"
    using r by (auto simp: ctx_ok_def)
  obtain st' ok e' x' where st': "data_prepare env (Some a) st = Some (st', ok)" and m: "moved a c e' x' st st'"
    and v: "view e' = view (w_storage (th_world st))"
    and n': "must_rollback (app_engine env) x' \<or> names_ok (seen e' x' (app_names_store env))"
    and ok: "ok \<Longrightarrow> \<not> must_rollback (app_engine env) x'
        \<and> seen e' x' (app_oids_store env) = objects_after env seen (th_world st) c x
        \<and> seen e' x' (app_names_store env) = seen (w_storage (th_world st)) x (app_names_store env)"
    using data_prepare_ok [OF con c tab t n] by (auto simp: returns_def)
  note mv = movedD [OF m]
  have tab': "tables_ok (th_world st') (c\<lparr>ctx_transaction := Some x'\<rparr>)" by (rule tables_moved [OF m tab])
  have fl: "flush_list env (th_world st') rs = flush_list env (th_world st) rs" for rs
    by (rule flush_list_cong) (simp_all add: mv)
  have after: "objects_after env seen (th_world st') (c\<lparr>ctx_transaction := Some x'\<rparr>) x' = seen e' x' (app_oids_store env)" if ok
    using ok [OF that] by (simp add: objects_after_def mv(2) fl map_add_twice)
  have "app_durable env view (th_world st') p = app_durable env view (th_world st) p" for p
    by (cases p) (simp_all add: mv v)
  moreover have "ctx_ok env seen (th_world st') a"
    using mv(1,2) tab' n' by (simp add: ctx_ok_def)
  moreover have "data_prepared env seen a (th_world st')" if ok
    using mv(1,2) tab' n' ok [OF that] after [OF that] by (simp add: data_prepared_def)
  moreover have "app_intent env seen Data_Participant d (th_world st') = app_intent env seen Data_Participant d (th_world st)" if ok
    using ok [OF that] after [OF that] by (simp add: a mv(1,2) c)
  ultimately show ?thesis
    using st' a mv by (auto simp: kept_def)
qed

lemma data_finish:
  assumes con: "app_contract env view seen" and c: "w_contexts (th_world st) a = Some c" "tables_ok (th_world st) c"
  shows "returns (finalize_references env a ((th_world st)\<lparr>w_storage := e\<rparr>)) (\<lambda>w.
    kept st (st\<lparr>th_world := transaction_context_free a w\<rparr>) \<and> w_storage (transaction_context_free a w) = e
    \<and> app_others Data_Participant (th_world st) (transaction_context_free a w))"
proof -
  let ?w = "(th_world st)\<lparr>w_storage := e\<rparr>"
  have "w_contexts ?w a = Some c" "tables_ok ?w c" using c by (simp_all add: tables_ok_def)
  from finalize_references_ok [OF this con] show ?thesis
    by (auto simp: returns_def kept_def transaction_context_free_def)
qed

lemma data_commit_contract:
  assumes con: "app_contract env view seen" and p: "app_prepared env seen Data_Participant d (th_world st)"
  shows "returns (data_commit env d st) (\<lambda>st'. kept st st' \<and> th_calls st' = th_calls st
    \<and> app_others Data_Participant (th_world st) (th_world st')
    \<and> app_durable env view (th_world st') =
        (app_durable env view (th_world st))(Data_Participant := app_intent env seen Data_Participant d (th_world st)))"
proof -
  obtain a c x where a: "d = Some a" and c: "w_contexts (th_world st) a = Some c" "ctx_transaction c = Some x"
    and tab: "tables_ok (th_world st) c" and ok: "\<not> must_rollback (app_engine env) x"
    and o: "seen (w_storage (th_world st)) x (app_oids_store env) = objects_after env seen (th_world st) c x"
    using p by (auto simp: data_prepared_def)
  let ?e = "transaction_commit (app_engine env) (w_storage (th_world st)) x"
  have v: "view ?e = seen (w_storage (th_world st)) x"
    using contract_commit [OF contract_engine [OF con] ok] .
  obtain w where w: "finalize_references env a ((th_world st)\<lparr>w_storage := ?e\<rparr>) = Some w"
    "kept st (st\<lparr>th_world := transaction_context_free a w\<rparr>)" "w_storage (transaction_context_free a w) = ?e"
    "app_others Data_Participant (th_world st) (transaction_context_free a w)"
    using data_finish [OF con c(1) tab, of ?e] by (auto simp: returns_def)
  have "app_durable env view (transaction_context_free a w) q =
      ((app_durable env view (th_world st))(Data_Participant := app_intent env seen Data_Participant d (th_world st))) q" for q
    using w(3,4) a c o v by (cases q) simp_all
  then show ?thesis
    using a c w by (auto simp: data_commit_def)
qed

lemma data_rollback_contract:
  assumes con: "app_contract env view seen" and p: "app_joined env seen Data_Participant d (th_world st)"
  shows "returns (data_rollback env d st) (\<lambda>st'. kept st st' \<and> th_calls st' = th_calls st
    \<and> app_others Data_Participant (th_world st) (th_world st')
    \<and> app_durable env view (th_world st') = app_durable env view (th_world st))"
proof (cases d)
  case None
  then show ?thesis by (simp add: data_rollback_def)
next
  case (Some a)
  then obtain c x where c: "w_contexts (th_world st) a = Some c" "ctx_transaction c = Some x" and tab: "tables_ok (th_world st) c"
    using p by (auto simp: ctx_ok_def)
  let ?e = "transaction_rollback (app_engine env) (w_storage (th_world st)) x"
  obtain w where w: "finalize_references env a ((th_world st)\<lparr>w_storage := ?e\<rparr>) = Some w"
    "kept st (st\<lparr>th_world := transaction_context_free a w\<rparr>)" "w_storage (transaction_context_free a w) = ?e"
    "app_others Data_Participant (th_world st) (transaction_context_free a w)"
    using data_finish [OF con c(1) tab, of ?e] by (auto simp: returns_def)
  have "app_durable env view (transaction_context_free a w) q = app_durable env view (th_world st) q" for q
    using w(3,4) contract_rollback [OF contract_engine [OF con]] by (cases q) simp_all
  then show ?thesis
    using Some c w by (auto simp: data_rollback_def)
qed

text \<open>The messages of a transaction are logged when it commits, in their order.\<close>

lemma fold_commit_message: "fold commit_message ms w = w\<lparr>w_log := w_log w @ ms\<rparr>"
  by (induction ms arbitrary: w) (simp_all add: commit_message_def)

lemma log_contracts:
  assumes "log_joined d (th_world st)"
  shows "returns (log_commit d st) (\<lambda>st'. kept st st' \<and> th_calls st' = th_calls st
      \<and> app_others Log_Participant (th_world st) (th_world st')
      \<and> app_durable env view (th_world st') =
        (app_durable env view (th_world st))(Log_Participant := app_intent env seen Log_Participant d (th_world st)))"
    and "returns (log_rollback d st) (\<lambda>st'. kept st st' \<and> th_calls st' = th_calls st
      \<and> app_others Log_Participant (th_world st) (th_world st')
      \<and> app_durable env view (th_world st') = app_durable env view (th_world st))"
proof -
  obtain a ms where a: "d = Some a" "w_log_contexts (th_world st) a = Some ms"
    using assms by (auto simp: log_joined_def bind_eq_Some_conv)
  have c: "app_durable env view (cleanup_transaction a ((th_world st)\<lparr>w_log := w_log (th_world st) @ ms\<rparr>)) q =
      ((app_durable env view (th_world st))(Log_Participant := app_intent env seen Log_Participant d (th_world st))) q" for q
    using a by (cases q) (simp_all add: cleanup_transaction_def)
  then show "returns (log_commit d st) (\<lambda>st'. kept st st' \<and> th_calls st' = th_calls st
      \<and> app_others Log_Participant (th_world st) (th_world st')
      \<and> app_durable env view (th_world st') =
        (app_durable env view (th_world st))(Log_Participant := app_intent env seen Log_Participant d (th_world st)))"
    using a by (auto simp: log_commit_def in_world_def fold_commit_message kept_def cleanup_transaction_def)
  have r: "app_durable env view (cleanup_transaction a (th_world st)) q = app_durable env view (th_world st) q" for q
    by (cases q) (simp_all add: cleanup_transaction_def)
  then show "returns (log_rollback d st) (\<lambda>st'. kept st st' \<and> th_calls st' = th_calls st
      \<and> app_others Log_Participant (th_world st) (th_world st')
      \<and> app_durable env view (th_world st') = app_durable env view (th_world st))"
    using a by (auto simp: log_rollback_def in_world_def kept_def cleanup_transaction_def)
qed

text \<open>An application server over an engine that keeps its contract.\<close>

locale app_server =
  fixes env :: "('e, 'x, 's, 'm) app_env"
    and view :: "'e \<Rightarrow> 's \<Rightarrow> byte list \<rightharpoonup> byte list"
    and seen :: "'e \<Rightarrow> 'x \<Rightarrow> 's \<Rightarrow> byte list \<rightharpoonup> byte list"
  assumes contract: "app_contract env view seen"

sublocale app_server \<subseteq> tx: participant_contract "app_tx env" "app_joined env seen" "app_ready env seen" "app_prepared env seen"
  "app_intent env seen" "app_durable env view" app_others
proof
  show "p = q" if "participant_name (app_tx env) p = participant_name (app_tx env) q" for p q
    using that by (cases p; cases q) (simp_all add: app_tx_def data_participant_def log_participant_def)
  show "distinct (hash_order (app_tx env) ks) \<and> set (hash_order (app_tx env) ks) = set ks" if "distinct ks" for ks
    using that contract by (simp add: app_tx_def app_contract_def)
  show "app_joined env seen p d w" if "app_ready env seen p d w" for p d w
    using that by (cases p) simp_all
  show "app_joined env seen p d w" if "app_prepared env seen p d w" for p d w
    using that by (cases p) (auto simp: data_prepared_def ctx_ok_def)
  show "(app_joined env seen q e w \<longrightarrow> app_joined env seen q e w') \<and> (app_ready env seen q e w \<longrightarrow> app_ready env seen q e w')
      \<and> (app_prepared env seen q e w \<longrightarrow> app_prepared env seen q e w') \<and> app_intent env seen q e w' = app_intent env seen q e w"
    if "app_others p w w'" "q \<noteq> p" for p q e w w'
    using app_others_keep [OF that] by blast
  show "returns (pt_prepare (tx_participant (app_tx env) p) d st) (\<lambda>(st', ok). kept st st' \<and> th_calls st' = th_calls st
      \<and> app_others p (th_world st) (th_world st') \<and> app_durable env view (th_world st') = app_durable env view (th_world st)
      \<and> app_joined env seen p d (th_world st')
      \<and> (ok \<longrightarrow> app_prepared env seen p d (th_world st') \<and> app_intent env seen p d (th_world st') = app_intent env seen p d (th_world st)))"
    if "app_ready env seen p d (th_world st)" "th_transaction st \<noteq> None" for p d st
  proof (cases p)
    case Data_Participant
    show ?thesis
      using data_prepare_contract [OF contract _ that(2)] that(1) unfolding Data_Participant
      by (simp add: app_tx_def data_participant_def)
  next
    case Log_Participant
    then show ?thesis using that by (simp add: app_tx_def log_participant_def log_prepare_def)
  qed
  show "returns (pt_commit (tx_participant (app_tx env) p) d st) (\<lambda>st'. kept st st' \<and> th_calls st' = th_calls st
      \<and> app_others p (th_world st) (th_world st')
      \<and> app_durable env view (th_world st') = (app_durable env view (th_world st))(p := app_intent env seen p d (th_world st)))"
    if "app_prepared env seen p d (th_world st)" for p d st
  proof (cases p)
    case Data_Participant
    show ?thesis
      using data_commit_contract [OF contract] that unfolding Data_Participant by (simp add: app_tx_def data_participant_def)
  next
    case Log_Participant
    show ?thesis
      using log_contracts(1) that unfolding Log_Participant by (simp add: app_tx_def log_participant_def)
  qed
  show "returns (pt_rollback (tx_participant (app_tx env) p)) (\<lambda>f. returns (f d st) (\<lambda>st'. kept st st'
      \<and> th_calls st' = th_calls st \<and> app_others p (th_world st) (th_world st')
      \<and> app_durable env view (th_world st') = app_durable env view (th_world st)))"
    if "app_joined env seen p d (th_world st)" for p d st
  proof (cases p)
    case Data_Participant
    show ?thesis
      using data_rollback_contract [OF contract] that unfolding Data_Participant by (simp add: app_tx_def data_participant_def)
  next
    case Log_Participant
    show ?thesis
      using log_contracts(2) that unfolding Log_Participant by (simp add: app_tx_def log_participant_def)
  qed
qed

end
