(* ===== verification/Managed_Data_Inv.thy ===== *)
theory Managed_Data_Inv
  imports Data_Manager
begin

text \<open>
  The invariant of a thread of an application server, and that the steps the operations of \<open>data.c\<close>
  are made of, joining the transaction above all, return and keep it.
\<close>

section \<open>The invariant of a thread\<close>

definition regs_inv ::
    "('e, 'x, 's, 'm) app_env \<Rightarrow> ('e \<Rightarrow> 'x \<Rightarrow> 's \<Rightarrow> byte list \<rightharpoonup> byte list) \<Rightarrow> ('e, 'x, 'm) app_thread \<Rightarrow> bool" where
  "regs_inv env seen st \<longleftrightarrow> (\<forall>t. th_transaction st = Some t \<longrightarrow> (\<forall>(k, r) \<in> set (tx_participants t).
     app_joined env seen (reg_participant r) (reg_data r) (th_world st)))"

text \<open>A transaction that the data manager has joined without a context is to be rolled back.\<close>

definition null_marked :: "('e, 'x, 'm) app_thread \<Rightarrow> bool" where
  "null_marked st \<longleftrightarrow> (\<forall>t. th_transaction st = Some t \<longrightarrow> (\<forall>(k, r) \<in> set (tx_participants t).
     reg_participant r = Data_Participant \<and> reg_data r = None \<longrightarrow> reg_rollback r))"

text \<open>
  A registration of the data manager without a context was made after the time of the transaction
  was over.
\<close>

definition time_ok :: "('e, 'x, 's, 'm) app_env \<Rightarrow> ('e, 'x, 'm) app_thread \<Rightarrow> bool" where
  "time_ok env st \<longleftrightarrow> (\<exists>timing. th_timing st = Some timing \<and> timer_ok (start_time timing)
     \<and> (\<forall>limit. timeout timing = Some limit \<longrightarrow> timer_ok limit)
     \<and> (\<forall>t k r. th_transaction st = Some t \<and> (k, r) \<in> set (tx_participants t) \<and> reg_participant r = Data_Participant
          \<and> reg_data r = None \<longrightarrow>
        (\<exists>limit. timeout timing = Some limit
          \<and> usecs limit \<le> usecs (app_clock env (th_time st)) - usecs (start_time timing))))"

definition fresh_ok :: "('e, 'x, 'm) app_world \<Rightarrow> bool" where
  "fresh_ok w \<longleftrightarrow> (\<forall>i \<ge> w_next w. w_contexts w i = None \<and> w_references w i = None \<and> w_log_contexts w i = None)"

definition refs_ok :: "('e, 'x, 'm) app_world \<Rightarrow> bool" where
  "refs_ok w \<longleftrightarrow> (\<forall>r ref. w_references w r = Some ref \<longrightarrow> ref_ok ref)"

definition base_inv ::
    "('e, 'x, 's, 'm) app_env \<Rightarrow> ('e \<Rightarrow> 's \<Rightarrow> byte list \<rightharpoonup> byte list) \<Rightarrow> ('e \<Rightarrow> 'x \<Rightarrow> 's \<Rightarrow> byte list \<rightharpoonup> byte list) \<Rightarrow>
     ('e, 'x, 'm) app_thread \<Rightarrow> bool" where
  "base_inv env view seen st \<longleftrightarrow> thread_wf (app_tx env) st \<and> time_ok env st \<and> regs_inv env seen st
     \<and> refs_ok (th_world st) \<and> fresh_ok (th_world st) \<and> names_ok (view (w_storage (th_world st)) (app_names_store env))"

definition app_inv ::
    "('e, 'x, 's, 'm) app_env \<Rightarrow> ('e \<Rightarrow> 's \<Rightarrow> byte list \<rightharpoonup> byte list) \<Rightarrow> ('e \<Rightarrow> 'x \<Rightarrow> 's \<Rightarrow> byte list \<rightharpoonup> byte list) \<Rightarrow>
     ('e, 'x, 'm) app_thread \<Rightarrow> bool" where
  "app_inv env view seen st \<longleftrightarrow> base_inv env view seen st \<and> null_marked st"

lemmas inv_defs = app_inv_def base_inv_def

lemma time_ok_world [simp]: "time_ok env (st\<lparr>th_world := w\<rparr>) = time_ok env st"
  by (simp add: time_ok_def)

lemma null_marked_world [simp]: "null_marked (st\<lparr>th_world := w\<rparr>) = null_marked st"
  by (simp add: null_marked_def)

text \<open>What the operations before the end of a transaction leave alone.\<close>

definition quiet ::
    "('e, 'x, 's, 'm) app_env \<Rightarrow> ('e \<Rightarrow> 's \<Rightarrow> byte list \<rightharpoonup> byte list) \<Rightarrow> ('e, 'x, 'm) app_thread \<Rightarrow> ('e, 'x, 'm) app_thread \<Rightarrow> bool" where
  "quiet env view st st' \<longleftrightarrow> app_durable env view (th_world st') = app_durable env view (th_world st)"

lemma quiet_refl [simp]: "quiet env view st st"
  by (simp add: quiet_def)

lemma quiet_trans: "quiet env view st st' \<Longrightarrow> quiet env view st' st'' \<Longrightarrow> quiet env view st st''"
  by (simp add: quiet_def)

lemma fun_eq_participant: "f = g \<longleftrightarrow> f Data_Participant = g Data_Participant \<and> f Log_Participant = g Log_Participant"
  by (metis (full_types) ext participant.exhaust)

lemma durable_eq:
  "app_durable env view w' = app_durable env view w \<longleftrightarrow>
     view (w_storage w') (app_oids_store env) = view (w_storage w) (app_oids_store env)
     \<and> view (w_storage w') (app_names_store env) = view (w_storage w) (app_names_store env) \<and> w_log w' = w_log w"
  by (auto simp: fun_eq_participant)

text \<open>The thread has joined the data manager with the context at address \<open>a\<close>.\<close>

definition joined_at ::
    "('e, 'x, 's, 'm) app_env \<Rightarrow> ('e \<Rightarrow> 's \<Rightarrow> byte list \<rightharpoonup> byte list) \<Rightarrow> ('e \<Rightarrow> 'x \<Rightarrow> 's \<Rightarrow> byte list \<rightharpoonup> byte list) \<Rightarrow>
     nat \<Rightarrow> ('e, 'x, 'm) app_thread \<Rightarrow> bool" where
  "joined_at env view seen a st \<longleftrightarrow> app_inv env view seen st \<and> data_context env st = Some a"

lemma data_contextD:
  assumes "thread_wf (app_tx env) st" and "data_context env st = Some a"
  obtains t r where "th_transaction st = Some t" and "map_of (tx_participants t) (participant_name (app_tx env) Data_Participant) = Some r"
    and "reg_participant r = Data_Participant" and "reg_data r = Some a"
proof -
  obtain t r where t: "th_transaction st = Some t"
    and r: "map_of (tx_participants t) (participant_name (app_tx env) Data_Participant) = Some r" "reg_data r = Some a"
    using assms(2) by (auto simp: data_context_def gzochid_transaction_context_def bind_eq_Some_conv split: option.splits)
  have "participant_name (app_tx env) Data_Participant = participant_name (app_tx env) (reg_participant r)"
    using assms(1) t map_of_SomeD [OF r(1)] by (auto simp: thread_wf_def tx_wf_def)
  then have "reg_participant r = Data_Participant"
    by (cases "reg_participant r") (simp_all add: app_tx_def data_participant_def log_participant_def)
  then show thesis using that t r by blast
qed

lemma data_reg_unique:
  assumes "thread_wf (app_tx env) st" and "data_context env st = Some a" and "th_transaction st = Some t"
    and "(k, r) \<in> set (tx_participants t)" and "reg_participant r = Data_Participant"
  shows "reg_data r = Some a"
proof -
  have "k = participant_name (app_tx env) Data_Participant" using assms by (auto simp: thread_wf_def tx_wf_def)
  then have "map_of (tx_participants t) (participant_name (app_tx env) Data_Participant) = Some r"
    using assms by (auto simp: thread_wf_def tx_wf_def)
  then show ?thesis
    using assms(2,3) by (simp add: data_context_def gzochid_transaction_context_def)
qed

lemma joined_ctx:
  assumes "joined_at env view seen a st"
  shows "ctx_ok env seen (th_world st) a"
proof -
  have wf: "thread_wf (app_tx env) st" "data_context env st = Some a" and r: "regs_inv env seen st"
    using assms by (simp_all add: joined_at_def inv_defs)
  obtain t q where "th_transaction st = Some t" "map_of (tx_participants t) (participant_name (app_tx env) Data_Participant) = Some q"
      "reg_participant q = Data_Participant" "reg_data q = Some a"
    using data_contextD [OF wf] by blast
  with r show ?thesis
    by (auto simp: regs_inv_def dest!: map_of_SomeD)
qed

lemma data_context_world [simp]: "data_context env (st\<lparr>th_world := w\<rparr>) = data_context env st"
  by (simp add: data_context_def gzochid_transaction_context_def)

text \<open>Changes of the world that keep the invariant.\<close>

lemma joined_world:
  assumes j: "joined_at env view seen a st" and c: "ctx_ok env seen w a" and l: "w_log_contexts w = w_log_contexts (th_world st)"
    and r: "refs_ok w" and f: "fresh_ok w" and v: "app_durable env view w = app_durable env view (th_world st)"
  shows "joined_at env view seen a (st\<lparr>th_world := w\<rparr>)"
proof -
  have i: "app_inv env view seen st" "data_context env st = Some a" using j by (simp_all add: joined_at_def)
  have wf: "thread_wf (app_tx env) st" using i(1) by (simp add: inv_defs)
  have "app_joined env seen (reg_participant q) (reg_data q) w"
    if t: "th_transaction st = Some t" "(k, q) \<in> set (tx_participants t)" for t k q
  proof (cases "reg_participant q")
    case Data_Participant
    then show ?thesis using data_reg_unique [OF wf i(2) t] c by simp
  next
    case Log_Participant
    then show ?thesis using i(1) t l by (auto simp: inv_defs regs_inv_def log_joined_def)
  qed
  then have "regs_inv env seen (st\<lparr>th_world := w\<rparr>)" by (auto simp: regs_inv_def)
  moreover have "names_ok (view (w_storage w) (app_names_store env))"
    using v i(1) by (simp add: durable_eq inv_defs)
  ultimately show ?thesis
    using i r f by (simp add: joined_at_def inv_defs thread_wf_def)
qed

lemma tables_cong:
  assumes "tables_ok w c" and "\<And>q. q \<in> snd ` set (ctx_oids_to_references c) \<union> snd ` set (ctx_ptrs_to_references c) \<Longrightarrow>
      w_references w' q = w_references w q" and "\<And>r ref. w_references w' r = Some ref \<Longrightarrow> ref_ok ref"
  shows "tables_ok w' c"
  unfolding tables_ok_def
proof (intro conjI)
  show "distinct (map fst (ctx_oids_to_references c))" using assms(1) by (simp add: tables_ok_def)
  show "\<forall>(oid, q) \<in> set (ctx_oids_to_references c). \<exists>ref. w_references w' q = Some ref \<and> ref_oid ref = oid"
  proof clarify
    fix oid q
    assume q: "(oid, q) \<in> set (ctx_oids_to_references c)"
    then have "w_references w' q = w_references w q" by (intro assms(2)) force
    then show "\<exists>ref. w_references w' q = Some ref \<and> ref_oid ref = oid" using assms(1) q by (auto simp: tables_ok_def)
  qed
  show "\<forall>(p, q) \<in> set (ctx_ptrs_to_references c). \<exists>ref. w_references w' q = Some ref \<and> (\<forall>z. p = Some z \<longrightarrow> ref_obj ref = Some z)"
  proof clarify
    fix p q
    assume q: "(p, q) \<in> set (ctx_ptrs_to_references c)"
    then have "w_references w' q = w_references w q" by (intro assms(2)) force
    then show "\<exists>ref. w_references w' q = Some ref \<and> (\<forall>z. p = Some z \<longrightarrow> ref_obj ref = Some z)"
      using assms(1) q by (auto simp: tables_ok_def)
  qed
qed (use assms(3) in simp)

lemma tables_update:
  assumes "tables_ok w c" and "w_references w r = Some ref" and "ref_ok ref'" and "ref_oid ref' = ref_oid ref"
    and "\<And>q. ref_obj ref = Some q \<Longrightarrow> ref_obj ref' = Some q" and "w_references w' = (w_references w)(r \<mapsto> ref')"
  shows "tables_ok w' c"
  unfolding tables_ok_def
proof (intro conjI)
  show "distinct (map fst (ctx_oids_to_references c))" using assms(1) by (simp add: tables_ok_def)
  show "\<forall>(oid, q) \<in> set (ctx_oids_to_references c). \<exists>ref. w_references w' q = Some ref \<and> ref_oid ref = oid"
    using assms(1,2,4,6) by (fastforce simp: tables_ok_def)
  show "\<forall>(p, q) \<in> set (ctx_ptrs_to_references c). \<exists>ref. w_references w' q = Some ref \<and> (\<forall>z. p = Some z \<longrightarrow> ref_obj ref = Some z)"
    using assms(1,2,5,6) by (fastforce simp: tables_ok_def)
  show "\<forall>q ref. w_references w' q = Some ref \<longrightarrow> ref_ok ref"
    using assms(1,3,6) by (simp add: tables_ok_def)
qed

lemma host_guint64_returns: "length bs = 8 \<Longrightarrow> \<exists>v. host_guint64 be bs = Some v"
  by (simp add: host_guint64_def gzochi_common_io_read_long_def rd_def) auto

lemma hash_insert_set: "(k', v') \<in> set (g_hash_table_insert k v tab) \<Longrightarrow> k' = k \<and> v' = v \<or> (k', v') \<in> set tab"
  by (auto simp: g_hash_table_insert_def split: if_splits)

lemma hash_insert_distinct: "distinct (map fst tab) \<Longrightarrow> distinct (map fst (g_hash_table_insert k v tab))"
proof -
  have "map fst (map (\<lambda>(k', v'). if k' = k then (k', v) else (k', v')) tab) = map fst tab" by (induction tab) auto
  then show "distinct (map fst tab) \<Longrightarrow> distinct (map fst (g_hash_table_insert k v tab))"
    by (simp add: g_hash_table_insert_def del: map_map)
qed

lemma insert_oid:
  assumes "tables_ok w c" and "w_references w r = Some ref"
  shows "tables_ok w (c\<lparr>ctx_oids_to_references := g_hash_table_insert (ref_oid ref) r (ctx_oids_to_references c)\<rparr>)"
  using assms by (auto simp: tables_ok_def hash_insert_distinct dest!: hash_insert_set)

lemma insert_ptr:
  assumes "tables_ok w c" and "w_references w r = Some ref" and "\<And>q. p = Some q \<Longrightarrow> ref_obj ref = Some q"
  shows "tables_ok w (c\<lparr>ctx_ptrs_to_references := g_hash_table_insert p r (ctx_ptrs_to_references c)\<rparr>)"
  using assms by (auto simp: tables_ok_def dest!: hash_insert_set)

section \<open>The steps of the operations\<close>

context app_server
begin

abbreviation at :: "nat \<Rightarrow> ('e, 'x, 'm) app_thread \<Rightarrow> bool" where
  "at \<equiv> joined_at env view seen"

text \<open>An operation on the context at \<open>a\<close> keeps the invariant and the durable state.\<close>

definition step :: "nat \<Rightarrow> ('e, 'x, 'm) app_thread \<Rightarrow> ('e, 'x, 'm) app_thread \<Rightarrow> bool" where
  "step a st st' \<longleftrightarrow> at a st' \<and> quiet env view st st'
     \<and> (\<forall>r. w_references (th_world st) r \<noteq> None \<longrightarrow> w_references (th_world st') r \<noteq> None)"

lemma step_trans: "step a st st' \<Longrightarrow> step a st' st'' \<Longrightarrow> step a st st''"
  by (auto simp: step_def intro: quiet_trans)

lemma step_refl: "at a st \<Longrightarrow> step a st st"
  by (simp add: step_def)

lemma at_ctx:
  assumes "at a st"
  obtains c x where "w_contexts (th_world st) a = Some c" and "ctx_transaction c = Some x" and "tables_ok (th_world st) c"
    and "must_rollback (app_engine env) x \<or> names_ok (seen (w_storage (th_world st)) x (app_names_store env))"
  using joined_ctx [OF assms] by (auto simp: ctx_ok_def)

lemma mark_inv:
  assumes i: "base_inv env view seen st" and d: "gzochid_transaction_context (app_tx env) Data_Participant st = Some d"
    and t: "th_transaction st = Some t" and r: "map_of (tx_participants t) (participant_name (app_tx env) Data_Participant) = Some r"
  shows "returns (mark_data env retry st) (\<lambda>st'. app_inv env view seen st' \<and> th_world st' = th_world st
    \<and> gzochid_transaction_context (app_tx env) Data_Participant st' = Some d)"
proof -
  let ?n = "participant_name (app_tx env) Data_Participant"
  let ?f = "\<lambda>(k, r). if k = ?n then (k, r\<lparr>reg_rollback := True, reg_retryable := retry\<rparr>) else (k, r)"
  let ?st = "st\<lparr>th_transaction := Some (t\<lparr>tx_participants := map ?f (tx_participants t)\<rparr>)\<rparr>"
  have m: "mark_data env retry st = Some ?st"
    using t r by (simp add: mark_data_def gzochid_transaction_mark_for_rollback_def)
  have wf: "thread_wf (app_tx env) st" using i by (simp add: base_inv_def)
  have wf': "thread_wf (app_tx env) ?st"
    using mark_wf [OF wf m [unfolded mark_data_def]] .
  have "regs_inv env seen ?st"
    using i t by (auto simp: regs_inv_def base_inv_def split: if_splits)
  moreover have "time_ok env ?st"
  proof -
    obtain timing where tm: "th_timing st = Some timing" "timer_ok (start_time timing)"
      "\<forall>limit. timeout timing = Some limit \<longrightarrow> timer_ok limit"
      and ex: "\<And>k r. (k, r) \<in> set (tx_participants t) \<Longrightarrow> reg_participant r = Data_Participant \<Longrightarrow> reg_data r = None \<Longrightarrow>
        \<exists>limit. timeout timing = Some limit \<and> usecs limit \<le> usecs (app_clock env (th_time st)) - usecs (start_time timing)"
      using i t unfolding base_inv_def time_ok_def by blast
    show ?thesis
      unfolding time_ok_def using tm ex by (intro exI [of _ timing]) (auto split: if_splits)
  qed
  moreover have "null_marked ?st"
    using i t by (auto simp: null_marked_def base_inv_def thread_wf_def tx_wf_def split: if_splits)
  moreover have "gzochid_transaction_context (app_tx env) Data_Participant ?st = Some d"
  proof -
    have "map_of (map ?f xs) ?n = map_option (\<lambda>r. r\<lparr>reg_rollback := True, reg_retryable := retry\<rparr>) (map_of xs ?n)" for xs
      by (induction xs) auto
    from this [of "tx_participants t"] show ?thesis using d t by (simp add: gzochid_transaction_context_def r)
  qed
  ultimately show ?thesis
    using i wf' by (simp add: m inv_defs)
qed

lemma mark_ok:
  assumes "at a st"
  shows "returns (mark_data env retry st) (\<lambda>st'. step a st st' \<and> th_world st' = th_world st)"
proof -
  have i: "base_inv env view seen st" and wf: "thread_wf (app_tx env) st" and d: "data_context env st = Some a"
    using assms by (simp_all add: joined_at_def inv_defs)
  obtain t r where t: "th_transaction st = Some t"
    and r: "map_of (tx_participants t) (participant_name (app_tx env) Data_Participant) = Some r"
    using data_contextD [OF wf d] by blast
  have "gzochid_transaction_context (app_tx env) Data_Participant st = Some (Some a)"
    using d by (auto simp: data_context_def bind_eq_Some_conv)
  from mark_inv [OF i this t r] show ?thesis
    by (rule returns_mono) (auto simp: step_def quiet_def joined_at_def data_context_def)
qed

text \<open>Calls of the engine, with what they return.\<close>

definition call_ok :: "('e \<Rightarrow> 'x \<Rightarrow> 'e \<times> 'x \<times> 'r) \<Rightarrow> ('x \<Rightarrow> 'r \<Rightarrow> bool) \<Rightarrow> bool" where
  "call_ok f R \<longleftrightarrow> (\<forall>e x e' x' r. f e x = (e', x', r) \<longrightarrow>
     must_rollback (app_engine env) x \<or> names_ok (seen e x (app_names_store env)) \<longrightarrow>
     view e' = view e \<and> (must_rollback (app_engine env) x' \<or> names_ok (seen e' x' (app_names_store env))) \<and> R x' r)"

lemma ctx_call_ok:
  assumes a: "at a st" and f: "call_ok f R"
  shows "returns (ctx_call a f st) (\<lambda>(st', x', r). step a st st' \<and> R x' r
    \<and> w_references (th_world st') = w_references (th_world st)
    \<and> (\<exists>c. w_contexts (th_world st) a = Some c
        \<and> w_contexts (th_world st') a = Some (c\<lparr>ctx_transaction := Some x'\<rparr>)))"
proof -
  obtain c x where c: "w_contexts (th_world st) a = Some c" "ctx_transaction c = Some x" and tab: "tables_ok (th_world st) c"
    and n: "must_rollback (app_engine env) x \<or> names_ok (seen (w_storage (th_world st)) x (app_names_store env))"
    by (rule at_ctx [OF a])
  obtain e' x' r where fx: "f (w_storage (th_world st)) x = (e', x', r)" by (metis prod_cases3)
  obtain st' where st': "ctx_call a f st = Some (st', x', r)" and m: "moved a c e' x' st st'"
    using ctx_call_eq [of st a c x f, OF c fx] by blast
  have p: "view e' = view (w_storage (th_world st))"
      "must_rollback (app_engine env) x' \<or> names_ok (seen e' x' (app_names_store env))" "R x' r"
    using f [unfolded call_ok_def, rule_format, OF fx n] by simp_all
  note mv = movedD [OF m]
  have i: "app_inv env view seen st" using a by (simp add: joined_at_def)
  have "joined_at env view seen a (st\<lparr>th_world := th_world st'\<rparr>)"
  proof (rule joined_world [OF a])
    show "ctx_ok env seen (th_world st') a"
      using mv(1,2) tables_moved [OF m tab, of "Some x'"] p(2) by (simp add: ctx_ok_def)
    show "refs_ok (th_world st')" using i by (simp add: inv_defs refs_ok_def mv)
    have "w_contexts (th_world st') j = None" if "j \<ge> w_next (th_world st)" for j
      using that i c(1) mv(11) [of j] by (cases "j = a") (auto simp: inv_defs fresh_ok_def)
    then show "fresh_ok (th_world st')" using i by (simp add: inv_defs fresh_ok_def mv)
    show "app_durable env view (th_world st') = app_durable env view (th_world st)"
      by (simp add: durable_eq mv p(1))
  qed (simp add: mv)
  moreover have "st\<lparr>th_world := th_world st'\<rparr> = st'" using m by (auto simp: moved_def)
  ultimately show ?thesis
    using st' p(1,3) mv c(1) by (simp add: step_def quiet_def durable_eq)
qed

lemma engine_calls:
  shows "call_ok (\<lambda>e x. transaction_get (app_engine env) e x s k) (\<lambda>x r. (must_rollback (app_engine env) x \<longrightarrow> r = None)
      \<and> (s = app_names_store env \<longrightarrow> r = None \<or> map_option length r = Some 8))" (is ?get)
    and "call_ok (\<lambda>e x. transaction_get_for_update (app_engine env) e x s k) (\<lambda>_ _. True)" (is ?update)
    and "call_ok (\<lambda>e x. if b then transaction_get_for_update (app_engine env) e x s k
      else transaction_get (app_engine env) e x s k) (\<lambda>_ _. True)" (is ?either)
    and "call_ok (\<lambda>e x. transaction_next_key (app_engine env) e x s k)
      (\<lambda>x r. s = app_names_store env \<longrightarrow> (\<forall>k'. r = Some k' \<longrightarrow> 0 \<in> set k'))" (is ?next)
    and "length v = 8 \<Longrightarrow> 0 \<in> set k \<Longrightarrow>
      call_ok (\<lambda>e x. case transaction_put (app_engine env) e x (app_names_store env) k v of (e, x) \<Rightarrow> (e, x, ())) (\<lambda>_ _. True)"
    and "call_ok (\<lambda>e x. case transaction_delete (app_engine env) e x s k of
        (e', x') \<Rightarrow> (e', x', transaction_delete_status (app_engine env) e x s k)) (\<lambda>_ _. True)" (is ?delete)
proof -
  note ec = contract_engine [OF contract]
  show get: ?get
    unfolding call_ok_def
  proof (intro allI impI)
    fix e x e' x' r
    assume g: "transaction_get (app_engine env) e x s k = (e', x', r)"
      and n: "must_rollback (app_engine env) x \<or> names_ok (seen e x (app_names_store env))"
    have "must_rollback (app_engine env) x' \<Longrightarrow> r = None" using contract g by (simp add: app_contract_def)
    then show "view e' = view e \<and> (must_rollback (app_engine env) x' \<or> names_ok (seen e' x' (app_names_store env)))
      \<and> (must_rollback (app_engine env) x' \<longrightarrow> r = None) \<and> (s = app_names_store env \<longrightarrow> r = None \<or> map_option length r = Some 8)"
      using contract_get [OF ec g] contract_stays(3) [OF contract _ g] n by (cases r) (auto simp: names_ok_def)
  qed
  show update: ?update
    unfolding call_ok_def using contract_get_for_update [OF ec] contract_stays(4) [OF contract] by metis
  show ?either
    using get update by (cases b) (simp_all add: call_ok_def)
  show ?next
    unfolding call_ok_def
  proof (intro allI impI)
    fix e x e' x' r
    assume g: "transaction_next_key (app_engine env) e x s k = (e', x', r)"
      and n: "must_rollback (app_engine env) x \<or> names_ok (seen e x (app_names_store env))"
    have "view e' = view e \<and> (if must_rollback (app_engine env) x' then r = None
            else seen e' x' = seen e x \<and> (\<forall>k'. r = Some k' \<longrightarrow> seen e x s k' \<noteq> None))"
      using contract g by (simp add: app_contract_def)
    then show "view e' = view e \<and> (must_rollback (app_engine env) x' \<or> names_ok (seen e' x' (app_names_store env)))
      \<and> (s = app_names_store env \<longrightarrow> (\<forall>k'. r = Some k' \<longrightarrow> 0 \<in> set k'))"
      using contract_stays(5) [OF contract _ g] n by (fastforce simp: names_ok_def split: if_splits)
  qed
  show "call_ok (\<lambda>e x. case transaction_put (app_engine env) e x (app_names_store env) k v of (e, x) \<Rightarrow> (e, x, ())) (\<lambda>_ _. True)"
    if "length v = 8" "0 \<in> set k"
    unfolding call_ok_def
  proof (intro allI impI)
    fix e x e' x' r
    assume g: "(case transaction_put (app_engine env) e x (app_names_store env) k v of (e, x) \<Rightarrow> (e, x, ())) = (e', x', r)"
      and n: "must_rollback (app_engine env) x \<or> names_ok (seen e x (app_names_store env))"
    then have p: "transaction_put (app_engine env) e x (app_names_store env) k v = (e', x')" by (auto split: prod.splits)
    show "view e' = view e \<and> (must_rollback (app_engine env) x' \<or> names_ok (seen e' x' (app_names_store env))) \<and> True"
      using contract_put [OF ec p] contract_stays(1) [OF contract _ p] n that by (auto simp: names_ok_def split: if_splits)
  qed
  show ?delete
    unfolding call_ok_def
  proof (intro allI impI)
    fix e x e' x' r
    assume g: "(case transaction_delete (app_engine env) e x s k of
        (e', x') \<Rightarrow> (e', x', transaction_delete_status (app_engine env) e x s k)) = (e', x', r)"
      and n: "must_rollback (app_engine env) x \<or> names_ok (seen e x (app_names_store env))"
    then have p: "transaction_delete (app_engine env) e x s k = (e', x')" by (auto split: prod.splits)
    show "view e' = view e \<and> (must_rollback (app_engine env) x' \<or> names_ok (seen e' x' (app_names_store env))) \<and> True"
      using contract_delete [OF ec p] contract_stays(2) [OF contract _ p] n by (auto simp: names_ok_def split: if_splits)
  qed
qed

text \<open>Updates of the context and of references.\<close>

lemma context_ok:
  assumes a: "at a st"
    and f: "\<And>c. w_contexts (th_world st) a = Some c \<Longrightarrow> tables_ok (th_world st) c \<Longrightarrow>
      tables_ok (th_world st) (f c) \<and> ctx_transaction (f c) = ctx_transaction c"
  shows "returns (update_context a f st) (\<lambda>st'. step a st st' \<and> w_references (th_world st') = w_references (th_world st))"
proof -
  obtain c x where c: "w_contexts (th_world st) a = Some c" "ctx_transaction c = Some x" and tab: "tables_ok (th_world st) c"
    and n: "must_rollback (app_engine env) x \<or> names_ok (seen (w_storage (th_world st)) x (app_names_store env))"
    by (rule at_ctx [OF a])
  let ?w = "(th_world st)\<lparr>w_contexts := (w_contexts (th_world st))(a \<mapsto> f c)\<rparr>"
  have i: "app_inv env view seen st" using a by (simp add: joined_at_def)
  have tab': "tables_ok ?w (f c)" "ctx_transaction (f c) = Some x" using f [OF c(1) tab] c(2) by (simp_all add: tables_ok_def)
  have "at a (st\<lparr>th_world := ?w\<rparr>)"
    by (rule joined_world [OF a])
      (use tab' n i c(1) in \<open>auto simp: ctx_ok_def inv_defs refs_ok_def fresh_ok_def durable_eq\<close>)
  then show ?thesis
    using c(1) by (simp add: update_context_def in_world_def step_def quiet_def durable_eq)
qed

lemma malloc_ok:
  assumes a: "at a st" and r: "ref_ok ref" and m: "malloc_reference ref st = (st', r)"
  shows "step a st st'" and "w_references (th_world st') = (w_references (th_world st))(r \<mapsto> ref)"
    and "w_references (th_world st) r = None"
proof -
  obtain c x where c: "w_contexts (th_world st) a = Some c" "ctx_transaction c = Some x" and tab: "tables_ok (th_world st) c"
    and n: "must_rollback (app_engine env) x \<or> names_ok (seen (w_storage (th_world st)) x (app_names_store env))"
    by (rule at_ctx [OF a])
  let ?w = "(th_world st)\<lparr>w_next := Suc (w_next (th_world st)),
    w_references := (w_references (th_world st))(w_next (th_world st) \<mapsto> ref)\<rparr>"
  have i: "app_inv env view seen st" using a by (simp add: joined_at_def)
  then have none: "w_references (th_world st) (w_next (th_world st)) = None" by (simp add: inv_defs fresh_ok_def)
  have used: "q \<noteq> w_next (th_world st)" if "q \<in> snd ` set (ctx_oids_to_references c) \<union> snd ` set (ctx_ptrs_to_references c)" for q
    using that tab none by (auto simp: tables_ok_def)
  have "tables_ok ?w c"
    by (rule tables_cong [of "th_world st"]) (use tab r i used in \<open>auto simp: inv_defs refs_ok_def split: if_splits\<close>)
  then have "at a (st\<lparr>th_world := ?w\<rparr>)"
    by (intro joined_world [OF a])
      (use c n i r in \<open>auto simp: ctx_ok_def inv_defs refs_ok_def fresh_ok_def durable_eq\<close>)
  then show "step a st st'" "w_references (th_world st') = (w_references (th_world st))(r \<mapsto> ref)"
      "w_references (th_world st) r = None"
    using m none by (auto simp: malloc_reference_def in_world_def step_def quiet_def durable_eq)
qed

lemma reference_ok:
  assumes a: "at a st" and r: "w_references (th_world st) r = Some ref"
    and f: "ref_ok (f ref)" "ref_oid (f ref) = ref_oid ref" "ref_obj ref \<noteq> None \<Longrightarrow> ref_obj (f ref) = ref_obj ref"
  shows "returns (update_reference r f st) (\<lambda>st'. step a st st'
    \<and> w_references (th_world st') = (w_references (th_world st))(r \<mapsto> f ref))"
proof -
  obtain c x where c: "w_contexts (th_world st) a = Some c" "ctx_transaction c = Some x" and tab: "tables_ok (th_world st) c"
    and n: "must_rollback (app_engine env) x \<or> names_ok (seen (w_storage (th_world st)) x (app_names_store env))"
    by (rule at_ctx [OF a])
  let ?w = "(th_world st)\<lparr>w_references := (w_references (th_world st))(r \<mapsto> f ref)\<rparr>"
  have i: "app_inv env view seen st" using a by (simp add: joined_at_def)
  have "r < w_next (th_world st)"
    using i r by (metis inv_defs fresh_ok_def not_less option.distinct(1))
  have "tables_ok ?w c" by (rule tables_update [OF tab r f(1,2)]) (use f(3) in auto)
  then have "at a (st\<lparr>th_world := ?w\<rparr>)"
    by (intro joined_world [OF a])
      (use c n i r f(1) \<open>r < w_next (th_world st)\<close> in \<open>auto simp: ctx_ok_def inv_defs refs_ok_def fresh_ok_def durable_eq\<close>)
  then show ?thesis
    using r by (simp add: update_reference_def in_world_def step_def quiet_def durable_eq)
qed

text \<open>Changes that concern neither the context nor the references.\<close>

lemma frame_step:
  assumes a: "at a st" and w: "w_contexts w = w_contexts (th_world st)" "w_references w = w_references (th_world st)"
      "w_log_contexts w = w_log_contexts (th_world st)" "w_next w = w_next (th_world st)" "w_log w = w_log (th_world st)"
    and e: "\<forall>s \<in> {app_oids_store env, app_names_store env}. view (w_storage w) s = view (w_storage (th_world st)) s
      \<and> (\<forall>x. seen (w_storage w) x s = seen (w_storage (th_world st)) x s)"
  shows "step a st (st\<lparr>th_world := w\<rparr>)"
proof -
  obtain c x where c: "w_contexts (th_world st) a = Some c" "ctx_transaction c = Some x" and tab: "tables_ok (th_world st) c"
    and n: "must_rollback (app_engine env) x \<or> names_ok (seen (w_storage (th_world st)) x (app_names_store env))"
    by (rule at_ctx [OF a])
  have i: "app_inv env view seen st" using a by (simp add: joined_at_def)
  have "at a (st\<lparr>th_world := w\<rparr>)"
    by (rule joined_world [OF a])
      (use c tab n i e w in \<open>auto simp: tables_ok_def ctx_ok_def inv_defs refs_ok_def fresh_ok_def durable_eq\<close>)
  then show ?thesis using e w by (simp add: step_def quiet_def durable_eq)
qed

lemma memory_ok:
  assumes "at a st"
  shows "step a st (in_world (\<lambda>w. w\<lparr>w_memory := m\<rparr>) st)" and "step a st (in_world (\<lambda>w. w\<lparr>w_events := ev w\<rparr>) st)"
    and "step a st (in_world (\<lambda>w. w\<lparr>w_free_oid_blocks := bs\<rparr>) st)"
  unfolding in_world_def by (rule frame_step [OF assms]; simp)+

text \<open>Freeing a reference no table mentions.\<close>

lemma free_ok:
  assumes a: "at a st" and c: "w_contexts (th_world st) a = Some c"
    and r: "r \<notin> snd ` set (ctx_oids_to_references c)" "r \<notin> snd ` set (ctx_ptrs_to_references c)"
  shows "at a (in_world (\<lambda>w. w\<lparr>w_references := (w_references w)(r := None)\<rparr>) st)"
    and "quiet env view st (in_world (\<lambda>w. w\<lparr>w_references := (w_references w)(r := None)\<rparr>) st)"
proof -
  obtain c' x where c': "w_contexts (th_world st) a = Some c'" "ctx_transaction c' = Some x" and tab: "tables_ok (th_world st) c'"
    and n: "must_rollback (app_engine env) x \<or> names_ok (seen (w_storage (th_world st)) x (app_names_store env))"
    by (rule at_ctx [OF a])
  have [simp]: "c' = c" using c c'(1) by simp
  let ?w = "(th_world st)\<lparr>w_references := (w_references (th_world st))(r := None)\<rparr>"
  have i: "app_inv env view seen st" using a by (simp add: joined_at_def)
  have "tables_ok ?w c"
    by (rule tables_cong [of "th_world st"]) (use tab r i in \<open>auto simp: inv_defs refs_ok_def split: if_splits\<close>)
  then have "at a (st\<lparr>th_world := ?w\<rparr>)"
    by (intro joined_world [OF a])
      (use c' n i in \<open>auto simp: ctx_ok_def inv_defs refs_ok_def fresh_ok_def durable_eq\<close>)
  then show "at a (in_world (\<lambda>w. w\<lparr>w_references := (w_references w)(r := None)\<rparr>) st)"
    "quiet env view st (in_world (\<lambda>w. w\<lparr>w_references := (w_references w)(r := None)\<rparr>) st)"
    by (simp_all add: in_world_def quiet_def durable_eq)
qed

lemma reserve_ok:
  assumes a: "at a st"
  shows "returns (reserve_oids env st) (\<lambda>(st', b). step a st st' \<and> w_references (th_world st') = w_references (th_world st))"
proof (cases "w_free_oid_blocks (th_world st)")
  case (Cons b bs)
  then show ?thesis using memory_ok(3) [OF a] by (simp add: reserve_oids_def in_world_def)
next
  case Nil
  obtain e r where r: "app_oid_strategy env (w_storage (th_world st)) = Some (e, r)"
    and e: "\<forall>s \<in> {app_oids_store env, app_names_store env}. view e s = view (w_storage (th_world st)) s
      \<and> (\<forall>x. seen e x s = seen (w_storage (th_world st)) x s)"
    using contract unfolding app_contract_def by (elim conjE) metis
  let ?st = "in_world (\<lambda>w. w\<lparr>w_storage := e\<rparr>) st"
  have s: "step a st ?st" unfolding in_world_def by (rule frame_step [OF a]) (use e in simp_all)
  then have "at a ?st" by (simp add: step_def)
  have w: "w_references (th_world ?st) = w_references (th_world st)" by (simp add: in_world_def)
  show ?thesis
  proof (cases r)
    case (Inl err)
    then show ?thesis
      using Nil r returns_mono [OF mark_ok [OF \<open>at a ?st\<close>], where Q = "\<lambda>s. step a st s \<and> w_references (th_world s) = w_references (th_world st)"]
        step_trans [OF s] w by (simp add: reserve_oids_def)
  next
    case (Inr b)
    then show ?thesis using Nil r s w by (simp add: reserve_oids_def)
  qed
qed

lemma free_oids_ok:
  assumes "at a st"
  shows "returns (update_context a (ctx_free_oids_update g) st) (\<lambda>st'. step a st st' \<and> w_references (th_world st') = w_references (th_world st))"
    and "returns (update_context a (\<lambda>c. c\<lparr>ctx_used_oid_blocks := h c\<rparr>) st)
      (\<lambda>st'. step a st st' \<and> w_references (th_world st') = w_references (th_world st))"
  by (rule context_ok [OF assms]; simp add: tables_ok_def)+

lemma next_oid_ok:
  assumes a: "at a st"
  shows "returns (next_object_id env a st) (\<lambda>(st', err, oid). step a st st' \<and> w_references (th_world st') = w_references (th_world st))"
proof -
  obtain c where c: "w_contexts (th_world st) a = Some c" using at_ctx [OF a] by blast
  define same where "same s s' \<longleftrightarrow> step a s s' \<and> w_references (th_world s') = w_references (th_world s)" for s s'
  have tr: "same s1 s2 \<Longrightarrow> same s2 s3 \<Longrightarrow> same s1 s3" for s1 s2 s3
    using step_trans by (auto simp: same_def)
  have at: "same s s' \<Longrightarrow> at a s'" for s s' by (simp add: same_def step_def)
  have res: "at a s \<Longrightarrow> returns (reserve_oids env s) (\<lambda>(s', b). same s s')" for s
    unfolding same_def by (rule reserve_ok)
  have upd: "at a s \<Longrightarrow> returns (update_context a (ctx_free_oids_update g) s) (same s)"
      "at a s \<Longrightarrow> returns (update_context a (\<lambda>c. c\<lparr>ctx_used_oid_blocks := h c\<rparr>) s) (same s)" for s g h
    using free_oids_ok [of a s] by (simp_all add: same_def [abs_def])
  have refl: "same st st" using step_refl [OF a] by (simp add: same_def)
  have first: "returns (case ctx_free_oids c of Some b \<Rightarrow> Some (st, Some b)
      | None \<Rightarrow> do { (st, b) \<leftarrow> reserve_oids env st; st \<leftarrow> update_context a (ctx_free_oids_update (\<lambda>_. b)) st; Some (st, b) })
      (\<lambda>(s, b). same st s)"
    using refl by (auto split: option.split intro!: returns_mono [OF res [OF a]] returns_mono [OF upd(1)] dest: at tr)
  have second: "returns (do {
           st \<leftarrow> update_context a (\<lambda>c. c\<lparr>ctx_used_oid_blocks := ctx_used_oid_blocks c @ [b]\<rparr>) s;
           (st, b') \<leftarrow> reserve_oids env st;
           st \<leftarrow> update_context a (ctx_free_oids_update (\<lambda>_. b')) st;
           if b' = None then Some (st, Some Data_Error_Transaction, oid) else Some (st, None, oid)
         }) (\<lambda>(s', err, oid). same st s')" if s: "same st s" for s b oid
    by (simp, rule returns_mono [OF upd(2) [OF at [OF s]]], rule returns_mono [OF res], erule at,
        clarsimp, rule returns_mono [OF upd(1)], erule at, auto intro: tr [OF s] tr)
  have third: "returns (do {
         let oid = oids_next b;
         let b = b\<lparr>oids_next := oids_next b + 1\<rparr>;
         st \<leftarrow> update_context a (ctx_free_oids_update (\<lambda>_. Some b)) s;
         if oids_next b > oids_last b then do {
           st \<leftarrow> update_context a (\<lambda>c. c\<lparr>ctx_used_oid_blocks := ctx_used_oid_blocks c @ [b]\<rparr>) st;
           (st, b') \<leftarrow> reserve_oids env st;
           st \<leftarrow> update_context a (ctx_free_oids_update (\<lambda>_. b')) st;
           if b' = None then Some (st, Some Data_Error_Transaction, oid) else Some (st, None, oid)
         }
         else Some (st, None, oid)
       }) (\<lambda>(s', err, oid). same st s')" if s: "same st s" for s b
    unfolding Let_def
    by (subst returns_simps, rule returns_mono [OF upd(1) [OF at [OF s]]], split if_split, intro conjI impI, rule second,
        erule tr [OF s], simp add: tr [OF s])
  obtain s b where s: "(case ctx_free_oids c of Some b \<Rightarrow> Some (st, Some b)
      | None \<Rightarrow> do { (st, b) \<leftarrow> reserve_oids env st; st \<leftarrow> update_context a (ctx_free_oids_update (\<lambda>_. b)) st; Some (st, b) })
      = Some (s, b)" and ss: "same st s"
    using first by (auto simp: returns_def)
  show ?thesis
    unfolding next_object_id_def same_def [symmetric] c bind.bind_lunit s prod.case
    using third [OF ss] ss by (cases b) simp_all
qed

text \<open>A failed call marks the transaction for rollback.\<close>

lemma mark_step:
  assumes "at a st" and "step a st0 st"
  shows "returns (mark_data env b st) (\<lambda>st'. step a st0 st' \<and> th_world st' = th_world st)"
  by (rule returns_mono [OF mark_ok [OF assms(1)]]) (auto intro: step_trans [OF assms(2)])

lemma stepD: "step a st st' \<Longrightarrow> at a st'"
  by (simp add: step_def)

lemma get_binding_ok:
  assumes a: "at a st"
  shows "returns (get_binding env a name st) (\<lambda>(st', err, oid). step a st st')"
proof -
  obtain st1 x r where c: "ctx_call a (\<lambda>e x. transaction_get (app_engine env) e x (app_names_store env) (name @ [0])) st = Some (st1, x, r)"
    and s: "step a st st1" and r: "r = None \<or> map_option length r = Some 8"
    using ctx_call_ok [OF a engine_calls(1) [of "app_names_store env" "name @ [0]"]] by (auto simp: returns_def)
  show ?thesis
  proof (cases r)
    case None
    then show ?thesis
      using c s mark_step [OF stepD [OF s] s, of "should_retry (app_engine env) x"]
      by (auto simp: get_binding_def elim!: returns_mono)
  next
    case (Some bytes)
    then obtain v where "host_guint64 (app_big_endian env) bytes = Some v" using r host_guint64_returns by auto
    then show ?thesis
      using c s r Some mark_step [OF stepD [OF s] s, of "should_retry (app_engine env) x"]
      by (auto simp: get_binding_def elim!: returns_mono)
  qed
qed

lemma set_binding_ok:
  assumes a: "at a st"
  shows "returns (set_binding env a name oid st) (\<lambda>(st', err). step a st st')"
proof -
  let ?f = "\<lambda>e x. case transaction_put (app_engine env) e x (app_names_store env) (name @ [0])
    (oid_key (app_big_endian env) oid) of (e, x) \<Rightarrow> (e, x, ())"
  have "call_ok ?f (\<lambda>_ _. True)" by (rule engine_calls(5)) simp_all
  from ctx_call_ok [OF a this] obtain st1 x where c: "ctx_call a ?f st = Some (st1, x, ())" and s: "step a st st1"
    by (auto simp: returns_def)
  then show ?thesis
    using mark_step [OF stepD [OF s] s, of "should_retry (app_engine env) x"]
    by (auto simp: set_binding_def elim!: returns_mono)
qed

text \<open>Entering a reference into the tables.\<close>

lemma enter_oid_ok:
  assumes "at a st" and "w_references (th_world st) r = Some ref" and "ref_oid ref = oid"
  shows "returns (update_context a (\<lambda>c. c\<lparr>ctx_oids_to_references := g_hash_table_insert oid r (ctx_oids_to_references c)\<rparr>) st)
    (\<lambda>st'. step a st st' \<and> w_references (th_world st') = w_references (th_world st))"
  by (rule context_ok [OF assms(1)]) (use insert_oid [OF _ assms(2)] assms(3) in auto)

lemma enter_both_ok:
  assumes "at a st" and "w_references (th_world st) r = Some ref" and "ref_oid ref = oid" and "\<And>q. p = Some q \<Longrightarrow> ref_obj ref = Some q"
  shows "returns (update_context a (\<lambda>c. c\<lparr>
      ctx_oids_to_references := g_hash_table_insert oid r (ctx_oids_to_references c),
      ctx_ptrs_to_references := g_hash_table_insert p r (ctx_ptrs_to_references c)\<rparr>) st)
    (\<lambda>st'. step a st st' \<and> w_references (th_world st') = w_references (th_world st))"
  by (rule context_ok [OF assms(1)]) (use insert_ptr [OF insert_oid [OF _ assms(2)] assms(2,4)] assms(3) in auto)

lemma reference_by_oid_ok:
  assumes a: "at a st"
  shows "returns (get_reference_by_oid env ctx oid z st) (\<lambda>(st', r). step a st st' \<and> w_references (th_world st') r \<noteq> None)"
proof -
  obtain c where c: "w_contexts (th_world st) a = Some c" "tables_ok (th_world st) c" using at_ctx [OF a] by blast
  have d: "data_context env st = Some a" using a by (simp add: joined_at_def)
  show ?thesis
  proof (cases "map_of (ctx_oids_to_references c) oid")
    case (Some r)
    then have "w_references (th_world st) r \<noteq> None" using c(2) by (auto simp: tables_ok_def dest!: map_of_SomeD)
    then show ?thesis using Some c(1) d step_refl [OF a] by (simp add: get_reference_by_oid_def)
  next
    case None
    let ?ref = "\<lparr>ref_context = ctx, ref_state = Ref_Empty, ref_serialization = z, ref_oid = oid, ref_obj = None\<rparr>"
    obtain st1 r where m: "malloc_reference ?ref st = (st1, r)" by fastforce
    note m1 = malloc_ok [OF a _ m]
    have ok: "ref_ok ?ref" by (simp add: ref_ok_def)
    have s: "step a st st1" and r: "w_references (th_world st1) r = Some ?ref" using m1 ok by simp_all
    obtain st2 where "update_context a (\<lambda>c. c\<lparr>ctx_oids_to_references := g_hash_table_insert oid r (ctx_oids_to_references c)\<rparr>) st1 = Some st2"
        "step a st1 st2" "w_references (th_world st2) = w_references (th_world st1)"
      using enter_oid_ok [OF stepD [OF s] r] by (auto simp: returns_def)
    then show ?thesis
      using None c(1) d m r step_trans [OF s] by (simp add: get_reference_by_oid_def create_empty_reference_def)
  qed
qed

lemma create_new_ok:
  assumes a: "at a st"
  shows "returns (create_new_reference env (Some p) z st) (\<lambda>(st', err, reference). step a st st' \<and> (err = None \<longleftrightarrow> reference \<noteq> None)
    \<and> (\<forall>r. reference = Some r \<longrightarrow> (\<exists>ref. w_references (th_world st') r = Some ref \<and> ref_obj ref = Some p)))"
proof -
  have d: "data_context env st = Some a" using a by (simp add: joined_at_def)
  obtain st1 err oid where n: "next_object_id env a st = Some (st1, err, oid)" and s1: "step a st st1"
    using next_oid_ok [OF a] by (auto simp: returns_def)
  obtain c x where c: "w_contexts (th_world st1) a = Some c" "ctx_transaction c = Some x" and tab: "tables_ok (th_world st1) c"
    using at_ctx [OF stepD [OF s1]] by metis
  show ?thesis
  proof (cases "err \<noteq> None \<or> must_rollback (app_engine env) x")
    case True
    then show ?thesis using d n s1 c by (auto simp: create_new_reference_def)
  next
    case False
    let ?ref = "\<lparr>ref_context = False, ref_state = Ref_New, ref_serialization = z, ref_oid = oid, ref_obj = Some p\<rparr>"
    let ?f = "\<lambda>e x. transaction_get_for_update (app_engine env) e x (app_oids_store env) (oid_key (app_big_endian env) oid)"
    obtain st2 r where m: "malloc_reference ?ref st1 = (st2, r)" by fastforce
    have s2: "step a st1 st2" and w2: "w_references (th_world st2) = (w_references (th_world st1))(r \<mapsto> ?ref)"
      and r: "w_references (th_world st1) r = None"
      using malloc_ok [OF stepD [OF s1] _ m] by (simp_all add: ref_ok_def)
    have c2: "w_contexts (th_world st2) a = Some c" using m c(1) by (auto simp: malloc_reference_def in_world_def)
    obtain st3 x3 v where c3: "ctx_call a ?f st2 = Some (st3, x3, v)" and s3: "step a st2 st3"
      and w3: "w_references (th_world st3) = w_references (th_world st2)"
      and k3: "w_contexts (th_world st3) a = Some (c\<lparr>ctx_transaction := Some x3\<rparr>)"
      using ctx_call_ok [OF stepD [OF s2] engine_calls(2) [of "app_oids_store env" "oid_key (app_big_endian env) oid"]] c2
      by (auto simp: returns_def)
    have s13: "step a st st3" using s1 s2 s3 step_trans by blast
    show ?thesis
    proof (cases "must_rollback (app_engine env) x3")
      case fail: True
      obtain st4 where m4: "mark_data env (should_retry (app_engine env) x3) st3 = Some st4" "step a st st4" "th_world st4 = th_world st3"
        using mark_step [OF stepD [OF s3] s13, of "should_retry (app_engine env) x3"] by (auto simp: returns_def)
      let ?st = "in_world (\<lambda>w. w\<lparr>w_references := (w_references w)(r := None)\<rparr>) st4"
      have nt: "r \<notin> snd ` set (ctx_oids_to_references c)" "r \<notin> snd ` set (ctx_ptrs_to_references c)"
        using tab r by (auto simp: tables_ok_def)
      have f: "at a ?st" "quiet env view st4 ?st"
        using free_ok [OF stepD [OF m4(2)], of "c\<lparr>ctx_transaction := Some x3\<rparr>" r] k3 m4(3) nt by simp_all
      have "step a st ?st"
        using f m4(2) r w3 w2 m4(3) s1 by (auto simp: step_def in_world_def intro: quiet_trans)
      then show ?thesis
        using False fail d n c m c3 m4(1) by (simp add: create_new_reference_def)
    next
      case ok: False
      then show ?thesis
        using False d n c m c3 s13 w3 w2 by (simp add: create_new_reference_def)
    qed
  qed
qed

lemma reference_by_ptr_ok:
  assumes a: "at a st"
  shows "returns (get_reference_by_ptr env (Some p) z st) (\<lambda>(st', err, reference). step a st st' \<and> (err = None \<longleftrightarrow> reference \<noteq> None)
    \<and> (\<forall>r. reference = Some r \<longrightarrow> (\<exists>ref. w_references (th_world st') r = Some ref \<and> ref_obj ref = Some p)))"
proof -
  obtain c where c: "w_contexts (th_world st) a = Some c" "tables_ok (th_world st) c" using at_ctx [OF a] by blast
  have d: "data_context env st = Some a" using a by (simp add: joined_at_def)
  show ?thesis
  proof (cases "map_of (ctx_ptrs_to_references c) (Some p)")
    case (Some r)
    then have "\<exists>ref. w_references (th_world st) r = Some ref \<and> ref_obj ref = Some p"
      using c(2) by (auto simp: tables_ok_def dest!: map_of_SomeD)
    then show ?thesis using Some c(1) d step_refl [OF a] by (simp add: get_reference_by_ptr_def)
  next
    case None
    obtain st1 err reference where n: "create_new_reference env (Some p) z st = Some (st1, err, reference)" and s1: "step a st st1"
      and e: "err = None \<longleftrightarrow> reference \<noteq> None"
      and r: "\<And>r. reference = Some r \<Longrightarrow> \<exists>ref. w_references (th_world st1) r = Some ref \<and> ref_obj ref = Some p"
      using create_new_ok [OF a, of p z] by (auto simp: returns_def)
    show ?thesis
    proof (cases reference)
      case None': None
      then show ?thesis using None c(1) d n s1 e by (simp add: get_reference_by_ptr_def)
    next
      case (Some q)
      then obtain ref where ref: "w_references (th_world st1) q = Some ref" "ref_obj ref = Some p" using r by blast
      show ?thesis
        using None c(1) d n s1 Some ref enter_both_ok [OF stepD [OF s1] ref(1) refl, of "Some p"] step_trans [OF s1]
        by (auto simp: get_reference_by_ptr_def elim!: returns_mono)
    qed
  qed
qed

section \<open>Joining the transaction\<close>

text \<open>The data manager has not joined the transaction of the thread.\<close>

definition not_joined :: "('e, 'x, 'm) app_thread \<Rightarrow> bool" where
  "not_joined st \<longleftrightarrow> (\<forall>t. th_transaction st = Some t \<longrightarrow>
     map_of (tx_participants t) (participant_name (app_tx env) Data_Participant) = None)"

lemma not_joined_reg:
  assumes "not_joined st" and "thread_wf (app_tx env) st" and "th_transaction st = Some t" and "(k, r) \<in> set (tx_participants t)"
  shows "reg_participant r = Log_Participant"
proof (cases "reg_participant r")
  case Data_Participant
  then have "k = participant_name (app_tx env) Data_Participant" using assms(2,3,4) by (auto simp: thread_wf_def tx_wf_def)
  then show ?thesis using assms(1,3,4) by (auto simp: not_joined_def map_of_eq_None_iff image_iff)
qed simp

lemma tick_ok:
  assumes "base_inv env view seen st"
  shows "base_inv env view seen (st\<lparr>th_time := Suc (th_time st)\<rparr>)"
proof -
  have c: "usecs (app_clock env (th_time st)) \<le> usecs (app_clock env (Suc (th_time st)))"
    using contract by (simp add: app_contract_def)
  obtain timing where tm: "th_timing st = Some timing" "timer_ok (start_time timing)"
      "\<forall>limit. timeout timing = Some limit \<longrightarrow> timer_ok limit"
    and ex: "\<And>t k r. th_transaction st = Some t \<Longrightarrow> (k, r) \<in> set (tx_participants t) \<Longrightarrow> reg_participant r = Data_Participant \<Longrightarrow>
        reg_data r = None \<Longrightarrow> \<exists>limit. timeout timing = Some limit
          \<and> usecs limit \<le> usecs (app_clock env (th_time st)) - usecs (start_time timing)"
    using assms unfolding base_inv_def time_ok_def by blast
  have "time_ok env (st\<lparr>th_time := Suc (th_time st)\<rparr>)"
    unfolding time_ok_def using tm
  proof (intro exI [of _ timing] conjI allI impI)
    fix t k r
    assume "th_transaction (st\<lparr>th_time := Suc (th_time st)\<rparr>) = Some t \<and> (k, r) \<in> set (tx_participants t)
      \<and> reg_participant r = Data_Participant \<and> reg_data r = None"
    then obtain limit where "timeout timing = Some limit"
        "usecs limit \<le> usecs (app_clock env (th_time st)) - usecs (start_time timing)"
      using ex [of t k r] by auto
    then show "\<exists>limit. timeout timing = Some limit \<and> usecs limit \<le>
        usecs (app_clock env (th_time (st\<lparr>th_time := Suc (th_time st)\<rparr>))) - usecs (start_time timing)"
      using c by auto
  qed simp_all
  then show ?thesis
    using assms by (simp add: base_inv_def thread_wf_def regs_inv_def)
qed

lemma create_ok:
  assumes i: "base_inv env view seen st" and n: "not_joined st"
  shows "returns (create_transaction_context env True limit st) (\<lambda>(st', a). base_inv env view seen st' \<and> ctx_ok env seen (th_world st') a
    \<and> quiet env view st st' \<and> w_references (th_world st') = w_references (th_world st)
    \<and> st' = st\<lparr>th_world := th_world st'\<rparr>)"
proof -
  let ?w = "th_world st"
  obtain e x where b: "(case limit of Some t \<Rightarrow> transaction_begin_timed (app_engine env) (w_storage ?w) t
      | None \<Rightarrow> transaction_begin (app_engine env) (w_storage ?w)) = (e, Some x)"
    and v: "view e = view (w_storage ?w)" and s: "seen e x = view (w_storage ?w)"
  proof (cases limit)
    case None
    obtain e tx where tx: "transaction_begin (app_engine env) (w_storage ?w) = (e, tx)" by fastforce
    moreover obtain x where "tx = Some x" using contract tx unfolding app_contract_def by (metis option.exhaust snd_conv)
    ultimately show thesis using that None contract_begin [OF contract_engine [OF contract] tx] by simp
  next
    case (Some t)
    obtain e tx where tx: "transaction_begin_timed (app_engine env) (w_storage ?w) t = (e, tx)" by fastforce
    moreover have "view e = view (w_storage ?w) \<and> (\<exists>x. tx = Some x \<and> seen e x = view (w_storage ?w))"
      using contract tx by (simp add: app_contract_def)
    ultimately show thesis using that Some by auto
  qed
  let ?a = "w_next ?w"
  let ?c = "\<lparr>ctx_free_oids = None, ctx_used_oid_blocks = [], ctx_transaction = Some x,
    ctx_oids_to_references = [], ctx_ptrs_to_references = []\<rparr>"
  let ?w' = "?w\<lparr>w_storage := e, w_next := Suc ?a, w_contexts := (w_contexts ?w)(?a \<mapsto> ?c)\<rparr>"
  have r: "create_transaction_context env True limit st = Some (st\<lparr>th_world := ?w'\<rparr>, ?a)"
    by (simp only: create_transaction_context_def Let_def b) simp
  have "tables_ok ?w' ?c" using i by (simp add: tables_ok_def base_inv_def refs_ok_def)
  then have c: "ctx_ok env seen ?w' ?a" using i s by (simp add: ctx_ok_def base_inv_def)
  have wf: "thread_wf (app_tx env) st" using i by (simp add: base_inv_def)
  have "regs_inv env seen (st\<lparr>th_world := ?w'\<rparr>)"
    using i not_joined_reg [OF n wf] by (fastforce simp: regs_inv_def base_inv_def log_joined_def)
  then have "base_inv env view seen (st\<lparr>th_world := ?w'\<rparr>)"
    using i v by (simp add: base_inv_def thread_wf_def refs_ok_def fresh_ok_def)
  moreover have "quiet env view st (st\<lparr>th_world := ?w'\<rparr>)" using v by (simp add: quiet_def durable_eq)
  ultimately show ?thesis using r c by simp
qed

lemma join_ok:
  assumes i: "base_inv env view seen st" and n: "not_joined st" and d: "\<And>a. d = Some a \<Longrightarrow> ctx_ok env seen (th_world st) a"
    and ex: "d = None \<Longrightarrow> \<exists>timing limit. th_timing st = Some timing \<and> timeout timing = Some limit
      \<and> usecs limit \<le> usecs (app_clock env (th_time st)) - usecs (start_time timing)"
  shows "returns (gzochid_transaction_join (app_tx env) Data_Participant d st) (\<lambda>st'. base_inv env view seen st'
    \<and> th_world st' = th_world st \<and> gzochid_transaction_context (app_tx env) Data_Participant st' = Some d
    \<and> (\<exists>t r. th_transaction st' = Some t \<and> map_of (tx_participants t) (participant_name (app_tx env) Data_Participant) = Some r)
    \<and> (d \<noteq> None \<longrightarrow> null_marked st'))"
proof -
  let ?n = "participant_name (app_tx env) Data_Participant"
  let ?r = "\<lparr>reg_participant = Data_Participant, reg_data = d, reg_rollback = False, reg_retryable = False\<rparr>"
  have wf: "thread_wf (app_tx env) st" using i by (simp add: base_inv_def)
  obtain st1 t where st': "gzochid_transaction_join (app_tx env) Data_Participant d st =
      Some (st1\<lparr>th_transaction := Some (t\<lparr>tx_participants := tx_participants t @ [(?n, ?r)]\<rparr>)\<rparr>)"
    and t: "th_transaction st = Some t \<or> th_transaction st = None \<and> tx_participants t = []"
    and st1: "th_world st1 = th_world st" "th_timing st1 = th_timing st" "th_time st1 = th_time st"
  proof (cases "th_transaction st")
    case None
    then show thesis
      using that [of "\<lparr>tx_id = th_counter st, tx_participants = [], tx_state = Active, tx_timing = th_timing st\<rparr>"
        "st\<lparr>th_counter := th_counter st + 1, th_transaction := Some \<lparr>tx_id = th_counter st, tx_participants = [],
        tx_state = Active, tx_timing = th_timing st\<rparr>\<rparr>"]
      by (simp add: gzochid_transaction_join_def transaction_new_def Let_def)
  next
    case (Some t)
    then show thesis
      using that [of t st] n wf by (simp add: gzochid_transaction_join_def not_joined_def thread_wf_def Let_def)
  qed
  let ?st = "st1\<lparr>th_transaction := Some (t\<lparr>tx_participants := tx_participants t @ [(?n, ?r)]\<rparr>)\<rparr>"
  have old: "reg_participant r = Log_Participant \<and> app_joined env seen (reg_participant r) (reg_data r) (th_world st)"
    if "(k, r) \<in> set (tx_participants t)" for k r
    using t that not_joined_reg [OF n wf] i by (auto simp: base_inv_def regs_inv_def)
  have none: "map_of (tx_participants t) ?n = None"
    using t n by (auto simp: not_joined_def)
  have wf': "thread_wf (app_tx env) ?st"
    using join_wf [OF wf, of Data_Participant d] st' by (simp add: returns_def)
  have "regs_inv env seen ?st"
    using old d st1(1) by (cases d) (auto simp: regs_inv_def)
  moreover have "time_ok env ?st"
  proof -
    obtain timing where tm: "th_timing st = Some timing" "timer_ok (start_time timing)"
      "\<forall>limit. timeout timing = Some limit \<longrightarrow> timer_ok limit"
      using i unfolding base_inv_def time_ok_def by blast
    then show ?thesis
      unfolding time_ok_def using st1(2,3) old ex by (intro exI [of _ timing]) fastforce
  qed
  moreover have "null_marked ?st" if "d \<noteq> None"
    using that old by (auto simp: null_marked_def)
  ultimately show ?thesis
    using st' wf' i st1(1) none
    by (simp add: base_inv_def gzochid_transaction_context_def map_add_def)
qed

definition join_post :: "('e, 'x, 'm) app_thread \<Rightarrow> ('e, 'x, 'm) app_thread \<times> data_error option \<times> gpointer \<Rightarrow> bool" where
  "join_post st = (\<lambda>(st', err, tx_context). app_inv env view seen st' \<and> quiet env view st st'
     \<and> w_references (th_world st') = w_references (th_world st)
     \<and> (case tx_context of
          Some a \<Rightarrow> err = None \<and> data_context env st' = Some a
        | None \<Rightarrow> err = Some Data_Error_Transaction))"

text \<open>The second half of joining: the registration, and the mark when there is no context.\<close>

lemma join_context_ok:
  assumes i: "base_inv env view seen st" and n: "not_joined st" and c: "ctx_ok env seen (th_world st) a"
    and q: "quiet env view st0 st" "w_references (th_world st) = w_references (th_world st0)"
  shows "returns (do {
      st \<leftarrow> gzochid_transaction_join (app_tx env) Data_Participant (Some a) st;
      if Some a = None then do { st \<leftarrow> mark_data env True st; Some (st, Some Data_Error_Transaction, None) }
      else Some (st, None, Some a) }) (join_post st0)"
  using join_ok [OF i n, of "Some a"] c q
  by (auto simp: join_post_def inv_defs quiet_def data_context_def elim!: returns_mono)

lemma join_null_ok:
  assumes i: "base_inv env view seen st"
    and d: "not_joined st \<or> (\<exists>t r. th_transaction st = Some t \<and>
      map_of (tx_participants t) (participant_name (app_tx env) Data_Participant) = Some r \<and> reg_data r = None)"
    and ex: "\<exists>timing limit. th_timing st = Some timing \<and> timeout timing = Some limit
      \<and> usecs limit \<le> usecs (app_clock env (th_time st)) - usecs (start_time timing)"
    and q: "quiet env view st0 st" "w_references (th_world st) = w_references (th_world st0)"
  shows "returns (do {
      st \<leftarrow> gzochid_transaction_join (app_tx env) Data_Participant None st;
      if (None :: gpointer) = None then do { st \<leftarrow> mark_data env True st; Some (st, Some Data_Error_Transaction, None) }
      else Some (st, None, None) }) (join_post st0)"
proof -
  have "returns (gzochid_transaction_join (app_tx env) Data_Participant None st) (\<lambda>st'. base_inv env view seen st'
    \<and> th_world st' = th_world st \<and> gzochid_transaction_context (app_tx env) Data_Participant st' = Some None
    \<and> (\<exists>t r. th_transaction st' = Some t \<and> map_of (tx_participants t) (participant_name (app_tx env) Data_Participant) = Some r))"
    using d
  proof
    assume "not_joined st"
    from join_ok [OF i this, of None] ex show ?thesis by (auto elim!: returns_mono)
  next
    assume "\<exists>t r. th_transaction st = Some t \<and>
      map_of (tx_participants t) (participant_name (app_tx env) Data_Participant) = Some r \<and> reg_data r = None"
    then obtain t r where t: "th_transaction st = Some t" and r: "reg_data r = None"
      "map_of (tx_participants t) (participant_name (app_tx env) Data_Participant) = Some r" by blast
    moreover have "tx_state t = Active" using i t by (simp add: base_inv_def thread_wf_def)
    ultimately show ?thesis using i by (simp add: gzochid_transaction_join_def gzochid_transaction_context_def Let_def)
  qed
  then show ?thesis
    using q
    by (auto simp: join_post_def quiet_def dest!: mark_inv [where retry = True] elim!: returns_mono)
qed

lemma join_transaction_ok:
  assumes i: "app_inv env view seen st" and ctx: "ctx \<or> data_context env st \<noteq> None"
  shows "returns (join_transaction env ctx st) (join_post st)"
proof (cases "data_context env st")
  case (Some a)
  then have c: "gzochid_transaction_context (app_tx env) Data_Participant st = Some (Some a)"
    by (auto simp: data_context_def bind_eq_Some_conv)
  then have "gzochid_transaction_active st"
    using i by (auto simp: gzochid_transaction_context_def gzochid_transaction_active_def inv_defs thread_wf_def bind_eq_Some_conv)
  then show ?thesis
    using c i Some by (simp add: join_transaction_def join_post_def)
next
  case None
  have b: "base_inv env view seen st" and wf: "thread_wf (app_tx env) st" using i by (simp_all add: inv_defs)
  have ctx: ctx using ctx None by simp
  let ?tc = "if gzochid_transaction_active st then gzochid_transaction_context (app_tx env) Data_Participant st else Some None"
  have tc: "?tc = Some None" and
    d: "not_joined st \<or> (\<exists>t r. th_transaction st = Some t \<and>
      map_of (tx_participants t) (participant_name (app_tx env) Data_Participant) = Some r \<and> reg_data r = None)"
    using None wf by (auto simp: data_context_def gzochid_transaction_context_def gzochid_transaction_active_def not_joined_def
        split: option.splits)
  obtain timing where tm: "th_timing st = Some timing" "timer_ok (start_time timing)"
      "\<forall>limit. timeout timing = Some limit \<longrightarrow> timer_ok limit"
    and late: "\<not> not_joined st \<Longrightarrow> \<exists>limit. timeout timing = Some limit
      \<and> usecs limit \<le> usecs (app_clock env (th_time st)) - usecs (start_time timing)"
  proof -
    obtain timing where tm: "th_timing st = Some timing" "timer_ok (start_time timing)"
      "\<forall>limit. timeout timing = Some limit \<longrightarrow> timer_ok limit"
      and ex: "\<And>t k r. th_transaction st = Some t \<Longrightarrow> (k, r) \<in> set (tx_participants t) \<Longrightarrow> reg_participant r = Data_Participant \<Longrightarrow>
        reg_data r = None \<Longrightarrow> \<exists>limit. timeout timing = Some limit
          \<and> usecs limit \<le> usecs (app_clock env (th_time st)) - usecs (start_time timing)"
      using b unfolding base_inv_def time_ok_def by blast
    have "\<exists>limit. timeout timing = Some limit \<and> usecs limit \<le> usecs (app_clock env (th_time st)) - usecs (start_time timing)"
      if nj: "\<not> not_joined st"
    proof -
      obtain t r where t: "th_transaction st = Some t"
        and r: "map_of (tx_participants t) (participant_name (app_tx env) Data_Participant) = Some r" "reg_data r = None"
        using d nj by blast
      have "reg_participant r = Data_Participant"
        using wf t map_of_SomeD [OF r(1)] by (cases "reg_participant r") (auto simp: thread_wf_def tx_wf_def app_tx_def data_participant_def log_participant_def)
      then show ?thesis using ex [OF t map_of_SomeD [OF r(1)] _ r(2)] by blast
    qed
    then show thesis using that tm by blast
  qed
  have clock: "timer_ok (tx_clock (app_tx env) (th_time st))" "tx_clock (app_tx env) = app_clock env"
    using contract by (simp_all add: app_contract_def app_tx_def)
  show ?thesis
  proof (cases "timeout timing")
    case no_limit: None
    then have nj: "not_joined st" using late by auto
    obtain st1 a where c: "create_transaction_context env True None st = Some (st1, a)" "base_inv env view seen st1"
      "ctx_ok env seen (th_world st1) a" "quiet env view st st1" "w_references (th_world st1) = w_references (th_world st)"
      "st1 = st\<lparr>th_world := th_world st1\<rparr>"
      using create_ok [OF b nj, of None] by (auto simp: returns_def)
    have "not_joined st1" using nj by (subst c(6)) (simp add: not_joined_def)
    from join_context_ok [OF c(2) this c(3,4,5)] show ?thesis
      using tc tm(1) no_limit c(1) ctx by (simp add: join_transaction_def gzochid_transaction_timed_def)
  next
    case (Some limit)
    obtain st1 rem where rm: "time_remaining (app_tx env) timing st = (st1, rem)" by fastforce
    have st1: "st1 = st\<lparr>th_time := Suc (th_time st)\<rparr>"
      using rm Some by (auto simp: time_remaining_def gettimeofday_def Let_def)
    have left: "(tv_sec rem > 0 \<or> tv_usec rem > 0) \<longleftrightarrow> usecs (app_clock env (th_time st)) - usecs (start_time timing) < usecs limit"
      using time_left [OF Some _ tm(2) clock(1), of rem] tm(3) Some rm clock(2) by simp
    have b1: "base_inv env view seen st1" unfolding st1 by (rule tick_ok [OF b])
    have q1: "quiet env view st st1" "w_references (th_world st1) = w_references (th_world st)" by (simp_all add: st1 quiet_def)
    have nj1: "not_joined st1 = not_joined st" by (simp add: st1 not_joined_def)
    show ?thesis
    proof (cases "tv_sec rem > 0 \<or> tv_usec rem > 0")
      case True
      then have nj: "not_joined st" using late left Some by auto
      obtain st2 a where c: "create_transaction_context env True (Some rem) st1 = Some (st2, a)" "base_inv env view seen st2"
        "ctx_ok env seen (th_world st2) a" "quiet env view st1 st2" "w_references (th_world st2) = w_references (th_world st1)"
        "st2 = st1\<lparr>th_world := th_world st2\<rparr>"
        using create_ok [OF b1, of "Some rem"] nj nj1 by (auto simp: returns_def)
      have "not_joined st2" using nj nj1 by (subst c(6)) (simp add: not_joined_def)
      from join_context_ok [OF c(2) this c(3) quiet_trans [OF q1(1) c(4)]] show ?thesis
        using tc tm(1) Some c(1,5) q1(2) ctx True rm
        by (simp add: join_transaction_def gzochid_transaction_timed_def gzochid_transaction_time_remaining_def)
    next
      case False
      have mono: "usecs (app_clock env (th_time st)) \<le> usecs (app_clock env (Suc (th_time st)))"
        using contract by (simp add: app_contract_def)
      have "\<exists>timing limit. th_timing st1 = Some timing \<and> timeout timing = Some limit
          \<and> usecs limit \<le> usecs (app_clock env (th_time st1)) - usecs (start_time timing)"
        using tm(1) Some left False mono by (auto simp: st1)
      moreover have "not_joined st1 \<or> (\<exists>t r. th_transaction st1 = Some t \<and>
          map_of (tx_participants t) (participant_name (app_tx env) Data_Participant) = Some r \<and> reg_data r = None)"
        using d by (simp add: st1 not_joined_def)
      ultimately show ?thesis
        using join_null_ok [OF b1 _ _ q1] tc tm(1) Some False rm
        by (simp add: join_transaction_def gzochid_transaction_timed_def gzochid_transaction_time_remaining_def)
    qed
  qed
qed

end

end
