(* ===== verification/Managed_Data_Ops.thy ===== *)
theory Managed_Data_Ops
  imports Managed_Data_Inv
begin

text \<open>
  The operations of the data service and of the transactional log neither fault nor fail an assertion,
  and keep the invariant of the transaction of the thread.
\<close>

context app_server
begin

section \<open>The operations\<close>

lemma remove_object_ok:
  assumes a: "at a st"
  shows "returns (remove_object env a oid st) (\<lambda>(st', err). step a st st')"
proof -
  let ?f = "\<lambda>e x. case transaction_delete (app_engine env) e x (app_oids_store env) (oid_key (app_big_endian env) oid) of
         (e', x') \<Rightarrow> (e', x', transaction_delete_status (app_engine env) e x (app_oids_store env) (oid_key (app_big_endian env) oid))"
  have d: "gzochid_transaction_context (app_tx env) Data_Participant st = Some (Some a)"
    using a by (auto simp: joined_at_def data_context_def bind_eq_Some_conv)
  obtain st1 x ret c where c: "ctx_call a ?f st = Some (st1, x, ret)" and s: "step a st st1"
    and k: "w_contexts (th_world st1) a = Some (c\<lparr>ctx_transaction := Some x\<rparr>)"
    using ctx_call_ok [OF a engine_calls(6) [of "app_oids_store env" "oid_key (app_big_endian env) oid"]] by (auto simp: returns_def)
  show ?thesis
    using d c s k mark_step [OF stepD [OF s] s, of "should_retry (app_engine env) x"]
    by (auto simp: remove_object_def Let_def elim!: returns_mono)
qed

lemma set_state_ok:
  assumes a: "at a st" and r: "w_references (th_world st) r = Some ref"
    and s: "s \<noteq> Ref_Maybe_Modified" "s \<noteq> Ref_Flushed" "s \<in> {Ref_New, Ref_Modified, Ref_Not_Modified} \<Longrightarrow> ref_obj ref \<noteq> None"
  shows "returns (update_reference r (ref_state_update (\<lambda>_. s)) st) (\<lambda>st'. step a st st'
    \<and> w_references (th_world st') = (w_references (th_world st))(r \<mapsto> ref\<lparr>ref_state := s\<rparr>))"
  by (rule reference_ok [OF a r]) (use s in \<open>auto simp: ref_ok_def\<close>)

lemma kept_reference: "step a st st' \<Longrightarrow> w_references (th_world st) r \<noteq> None \<Longrightarrow> \<exists>ref. w_references (th_world st') r = Some ref"
  by (auto simp: step_def)

lemma removed_ok:
  assumes a: "at a st" and r: "w_references (th_world st) r = Some ref" and s: "s = Ref_Removed_Empty \<or> s = Ref_Removed_Fetched"
  shows "returns (do { (st, err) \<leftarrow> remove_object env a oid st;
      st \<leftarrow> update_reference r (ref_state_update (\<lambda>_. s)) st; Some (st, err) }) (\<lambda>(st', err). step a st st')"
proof -
  obtain st1 err where o: "remove_object env a oid st = Some (st1, err)" and s1: "step a st st1"
    using remove_object_ok [OF a, of oid] by (auto simp: returns_def)
  obtain ref1 where "w_references (th_world st1) r = Some ref1" using kept_reference [OF s1] r by auto
  from set_state_ok [OF stepD [OF s1] this, of s] show ?thesis
    using o s step_trans [OF s1] by (auto elim!: returns_mono)
qed

lemma remove_reference_ok:
  assumes a: "at a st" and r: "w_references (th_world st) r \<noteq> None"
  shows "returns (remove_reference env a r st) (\<lambda>(st', err). step a st st')"
proof -
  obtain ref where ref: "w_references (th_world st) r = Some ref" using r by auto
  show ?thesis
    using removed_ok [OF a ref] set_state_ok [OF a ref, of Ref_Removed_Fetched] ref step_refl [OF a]
    by (cases "ref_state ref") (auto simp: remove_reference_def elim!: returns_mono)
qed

text \<open>What every operation of the data service guarantees.\<close>

definition op_post :: "('e, 'x, 'm) app_thread \<Rightarrow> ('e, 'x, 'm) app_thread \<Rightarrow> bool" where
  "op_post st st' \<longleftrightarrow> app_inv env view seen st' \<and> quiet env view st st'
     \<and> (\<forall>r. w_references (th_world st) r \<noteq> None \<longrightarrow> w_references (th_world st') r \<noteq> None)"

lemma step_post: "step a st st' \<Longrightarrow> op_post st st'"
  by (simp add: step_def op_post_def joined_at_def)

lemma post_trans: "op_post st st' \<Longrightarrow> op_post st' st'' \<Longrightarrow> op_post st st''"
  by (auto simp: op_post_def intro: quiet_trans)

text \<open>An operation joins the transaction and continues when that gives a context.\<close>

lemma joined_op:
  assumes i: "app_inv env view seen st" and ctx: "ctx \<or> data_context env st \<noteq> None"
    and fail: "\<And>st' err. op_post st st' \<Longrightarrow> err \<noteq> None \<Longrightarrow> returns (f (st', err, None)) P"
    and cont: "\<And>st' a. op_post st st' \<Longrightarrow> at a st' \<Longrightarrow> returns (f (st', None, Some a)) P"
  shows "returns (Option.bind (join_transaction env ctx st) f) P"
proof -
  obtain st' err tc where j: "join_transaction env ctx st = Some (st', err, tc)" and p: "join_post st (st', err, tc)"
    using join_transaction_ok [OF i ctx] by (auto simp: returns_def)
  then have o: "op_post st st'" by (simp add: join_post_def op_post_def)
  show ?thesis
  proof (cases tc)
    case None
    then show ?thesis using j p fail [OF o] by (simp add: join_post_def)
  next
    case (Some a)
    then have "at a st'" "err = None" using p by (simp_all add: join_post_def joined_at_def)
    then show ?thesis using j cont [OF o] Some by simp
  qed
qed

lemma op_refl: "app_inv env view seen st \<Longrightarrow> op_post st st"
  by (simp add: op_post_def)

lemma at_inv: "at a st \<Longrightarrow> app_inv env view seen st"
  by (simp add: joined_at_def)

lemma step_op: "op_post st st' \<Longrightarrow> step a st' st'' \<Longrightarrow> op_post st st''"
  by (rule post_trans [OF _ step_post])

lemma mark_reference_ok:
  assumes a: "at a st" and r: "w_references (th_world st) r = Some ref" and p: "ref_obj ref = Some p"
  shows "returns (do {
      st \<leftarrow> update_reference r (ref_state_update (\<lambda>_. Ref_Modified)) st;
      a \<leftarrow> Some a;
      (st, x, _) \<leftarrow> ctx_call a (\<lambda>e x. transaction_get_for_update (app_engine env) e x (app_oids_store env)
        (oid_key (app_big_endian env) (ref_oid ref))) st;
      if must_rollback (app_engine env) x then do {
        st \<leftarrow> mark_data env (should_retry (app_engine env) x) st;
        Some (st, Some Data_Error_Transaction)
      }
      else Some (st, err) }) (\<lambda>(st', err). step a st st')"
proof -
  obtain st1 where u: "update_reference r (ref_state_update (\<lambda>_. Ref_Modified)) st = Some st1" and s1: "step a st st1"
    using set_state_ok [OF a r, of Ref_Modified] p by (auto simp: returns_def)
  obtain st2 x v where c: "ctx_call a (\<lambda>e x. transaction_get_for_update (app_engine env) e x (app_oids_store env)
        (oid_key (app_big_endian env) (ref_oid ref))) st1 = Some (st2, x, v)" and s2: "step a st1 st2"
    using ctx_call_ok [OF stepD [OF s1] engine_calls(2) [of "app_oids_store env" "oid_key (app_big_endian env) (ref_oid ref)"]]
    by (auto simp: returns_def)
  note s = step_trans [OF s1 s2]
  show ?thesis
    using u c s mark_step [OF stepD [OF s] s, of "should_retry (app_engine env) x"] by (auto elim!: returns_mono)
qed

lemma data_mark_ok:
  assumes i: "app_inv env view seen st" and ctx: "ctx \<or> data_context env st \<noteq> None"
  shows "returns (gzochid_data_mark env ctx z (Some p) st) (\<lambda>(st', err). op_post st st')"
  unfolding gzochid_data_mark_def
proof (rule joined_op [OF i ctx], goal_cases)
  case (1 st' err)
  then show ?case by simp
next
  case (2 st1 a)
  obtain st2 err reference where g: "get_reference_by_ptr env (Some p) z st1 = Some (st2, err, reference)" and s: "step a st1 st2"
    and r: "\<And>r. reference = Some r \<Longrightarrow> \<exists>ref. w_references (th_world st2) r = Some ref \<and> ref_obj ref = Some p"
    using reference_by_ptr_ok [OF 2(2), of p z] by (auto simp: returns_def)
  note o = step_op [OF 2(1) s]
  show ?case
  proof (cases reference)
    case None
    then show ?thesis using g o by simp
  next
    case (Some q)
    then obtain ref where ref: "w_references (th_world st2) q = Some ref" "ref_obj ref = Some p" using r by blast
    then show ?thesis
      using g Some o returns_mono [OF mark_reference_ok [OF stepD [OF s] ref, of err], of "\<lambda>(st', err). op_post st st'"]
        step_op [OF o] by auto
  qed
qed

lemma fetch_ok:
  assumes a: "at a st" and r: "w_references (th_world st) r = Some ref" and o: "ref_obj ref = None"
    and des: "deserializer (app_serialization env z) bytes (w_memory (th_world st)) = (mem, obj, failed)"
  shows "returns (do {
      let st = in_world (\<lambda>w. w\<lparr>w_memory := mem\<rparr>) st;
      st \<leftarrow> update_reference r (\<lambda>ref. ref\<lparr>ref_obj := obj, ref_state :=
        if failed then ref_state ref else if for_update then Ref_Modified else Ref_Not_Modified\<rparr>) st;
      st \<leftarrow> update_context a (\<lambda>c. c\<lparr>
        ctx_oids_to_references := g_hash_table_insert (ref_oid ref) r (ctx_oids_to_references c),
        ctx_ptrs_to_references := g_hash_table_insert obj r (ctx_ptrs_to_references c)\<rparr>) st;
      Some (st, if failed then Some Io_Error_Serialization else None) }) (\<lambda>(st', err). step a st st')"
proof -
  let ?st = "in_world (\<lambda>w. w\<lparr>w_memory := mem\<rparr>) st"
  let ?f = "\<lambda>ref. ref\<lparr>ref_obj := obj, ref_state :=
        if failed then ref_state ref else if for_update then Ref_Modified else Ref_Not_Modified\<rparr>"
  have s1: "step a st ?st" by (rule memory_ok(1) [OF a])
  have r1: "w_references (th_world ?st) r = Some ref" using r by (simp add: in_world_def)
  have ok: "ref_ok ref" using a r by (auto simp: joined_at_def inv_defs refs_ok_def)
  have "\<not> failed \<Longrightarrow> obj \<noteq> None" using contract des by (simp add: app_contract_def)
  then have "ref_ok (?f ref)" using ok o by (auto simp: ref_ok_def)
  from reference_ok [OF stepD [OF s1] r1, of ?f] this o
  obtain st2 where u: "update_reference r ?f ?st = Some st2" and s2: "step a ?st st2"
      and w2: "w_references (th_world st2) = (w_references (th_world ?st))(r \<mapsto> ?f ref)"
    by (auto simp: returns_def)
  have r2: "w_references (th_world st2) r = Some (?f ref)" by (simp add: w2)
  show ?thesis
    using u step_trans [OF step_trans [OF s1 s2]] enter_both_ok [OF stepD [OF s2] r2, of "ref_oid ref" obj]
    by (auto simp: Let_def elim!: returns_mono)
qed

lemma dereference_ok:
  assumes a: "at a st" and r: "w_references (th_world st) r \<noteq> None"
  shows "returns (dereference env a r fu st) (\<lambda>(st', err). op_post st st')"
proof -
  obtain ref where ref: "w_references (th_world st) r = Some ref" using r by auto
  show ?thesis
  proof (cases "ref_obj ref \<noteq> None \<or> ref_state ref = Ref_Removed_Empty")
    case True
    have ok: "ref_ok ref" using a ref by (auto simp: joined_at_def inv_defs refs_ok_def)
    show ?thesis
    proof (cases "fu \<and> ref_state ref = Ref_Not_Modified")
      case mk: True
      then obtain p where "ref_obj ref = Some p" using ok by (auto simp: ref_ok_def)
      then show ?thesis using True mk ref data_mark_ok [OF at_inv [OF a], of True] by (simp add: dereference_def)
    next
      case False
      then show ?thesis using True ref op_refl [OF at_inv [OF a]] by (auto simp: dereference_def)
    qed
  next
    case False
    let ?k = "oid_key (app_big_endian env) (ref_oid ref)"
    let ?f = "\<lambda>e x. if fu then transaction_get_for_update (app_engine env) e x (app_oids_store env) ?k
         else transaction_get (app_engine env) e x (app_oids_store env) ?k"
    obtain st1 x v where c: "ctx_call a ?f st = Some (st1, x, v)" and s1: "step a st st1"
      and w1: "w_references (th_world st1) = w_references (th_world st)"
      using ctx_call_ok [OF a engine_calls(3) [of fu "app_oids_store env" ?k]] by (auto simp: returns_def)
    show ?thesis
    proof (cases "must_rollback (app_engine env) x \<or> v = None")
      case True
      have "returns (mark_data env (should_retry (app_engine env) x) st1) (op_post st)"
        by (rule returns_mono [OF mark_step [OF stepD [OF s1] s1]]) (auto intro: step_post)
      then show ?thesis
        using False True ref c step_post [OF s1]
        by (cases "must_rollback (app_engine env) x") (simp_all add: dereference_def Let_def)
    next
      case ok: False
      then obtain bytes where v: "v = Some bytes" by auto
      let ?st = "in_world (\<lambda>w. w\<lparr>w_events := w_events w @ [Bytes_Read (length bytes)]\<rparr>) st1"
      obtain mem obj failed where des: "deserializer (app_serialization env (ref_serialization ref)) bytes (w_memory (th_world ?st))
          = (mem, obj, failed)" by (rule prod_cases3)
      have s2: "step a st1 ?st" by (rule memory_ok(2) [OF stepD [OF s1]])
      have "w_references (th_world ?st) r = Some ref" using ref w1 by (simp add: in_world_def)
      note f = fetch_ok [OF stepD [OF s2] this _ des, of fu]
      show ?thesis
        using False ref c ok v des returns_mono [OF f, of "\<lambda>(st', err). op_post st st'"]
          step_post [OF step_trans [OF step_trans [OF s1 s2]]]
        by (simp add: dereference_def Let_def split_beta)
    qed
  qed
qed

text \<open>The operations of \<open>data.h\<close> return, and keep the invariant and the durable state.\<close>

lemma get_binding_op:
  assumes i: "app_inv env view seen st"
  shows "returns (gzochid_data_get_binding env name z st) (\<lambda>(st', err, obj). op_post st st')"
  unfolding gzochid_data_get_binding_def
proof (rule joined_op [OF i], simp, goal_cases)
  case (1 st' err)
  then show ?case by simp
next
  case (2 st1 a)
  obtain st2 err oid where g: "get_binding env a name st1 = Some (st2, err, oid)" and s2: "step a st1 st2"
    using get_binding_ok [OF 2(2), of name] by (auto simp: returns_def)
  note o2 = step_op [OF 2(1) s2]
  obtain st3 r where b: "get_reference_by_oid env True oid z st2 = Some (st3, r)" and s3: "step a st2 st3"
    and r3: "w_references (th_world st3) r \<noteq> None"
    using reference_by_oid_ok [OF stepD [OF s2], of True oid z] by (auto simp: returns_def)
  obtain st4 err4 where d: "dereference env a r False st3 = Some (st4, err4)" and o4: "op_post st3 st4"
    using dereference_ok [OF stepD [OF s3] r3, of False] by (auto simp: returns_def)
  obtain ref where "w_references (th_world st4) r = Some ref" using o4 r3 by (auto simp: op_post_def)
  then show ?case
    using g o2 b d post_trans [OF step_op [OF o2 s3] o4] by simp
qed

lemma set_binding_to_oid_op:
  assumes i: "app_inv env view seen st"
  shows "returns (gzochid_data_set_binding_to_oid env name oid st) (\<lambda>(st', err). op_post st st')"
  unfolding gzochid_data_set_binding_to_oid_def
  by (rule joined_op [OF i], simp, simp) (auto intro!: returns_mono [OF set_binding_ok] intro: step_op)

lemma next_binding_op:
  assumes i: "app_inv env view seen st"
  shows "returns (gzochid_data_next_binding_oid env key st) (\<lambda>(st', err, found). op_post st st')"
  unfolding gzochid_data_next_binding_oid_def
proof (rule joined_op [OF i], simp, goal_cases)
  case (1 st' err)
  then show ?case by simp
next
  case (2 st1 a)
  let ?f = "\<lambda>e x. transaction_next_key (app_engine env) e x (app_names_store env) (key @ [0])"
  obtain st2 x v where c: "ctx_call a ?f st1 = Some (st2, x, v)" and s2: "step a st1 st2" and v: "\<And>k. v = Some k \<Longrightarrow> 0 \<in> set k"
    using ctx_call_ok [OF 2(2) engine_calls(4) [of "app_names_store env" "key @ [0]"]] by (auto simp: returns_def)
  have m: "returns (if must_rollback (app_engine env) x then mark_data env (should_retry (app_engine env) x) st2 else Some st2) (step a st1)"
    using s2 returns_mono [OF mark_step [OF stepD [OF s2] s2, of "should_retry (app_engine env) x"], of "step a st1"] by simp
  then obtain st3 where m3: "(if must_rollback (app_engine env) x then mark_data env (should_retry (app_engine env) x) st2 else Some st2) = Some st3"
    and s3: "step a st1 st3" by (auto simp: returns_def)
  note o3 = step_op [OF 2(1) s3]
  show ?case
  proof (cases v)
    case None
    then show ?thesis using c m3 o3 by simp
  next
    case (Some k)
    then obtain n where n: "key_string k = Some n" using v by (auto simp: key_string_def)
    obtain st4 err oid where g: "get_binding env a n st3 = Some (st4, err, oid)" and s4: "step a st3 st4"
      using get_binding_ok [OF stepD [OF s3], of n] by (auto simp: returns_def)
    then show ?thesis using c m3 Some n step_op [OF o3 s4] by simp
  qed
qed

lemma set_binding_op:
  assumes i: "app_inv env view seen st"
  shows "returns (gzochid_data_set_binding env name z (Some p) st) (\<lambda>(st', err). op_post st st')"
  unfolding gzochid_data_set_binding_def
proof (rule joined_op [OF i], simp, goal_cases)
  case (1 st' err)
  then show ?case by simp
next
  case (2 st1 a)
  obtain st2 err reference where g: "get_reference_by_ptr env (Some p) z st1 = Some (st2, err, reference)" and s: "step a st1 st2"
    and e: "err = None \<longleftrightarrow> reference \<noteq> None"
    and r: "\<And>r. reference = Some r \<Longrightarrow> \<exists>ref. w_references (th_world st2) r = Some ref \<and> ref_obj ref = Some p"
    using reference_by_ptr_ok [OF 2(2), of p z] by (auto simp: returns_def)
  note o = step_op [OF 2(1) s]
  show ?case
  proof (cases reference)
    case None
    then show ?thesis using g o e by simp
  next
    case (Some q)
    then obtain ref where ref: "w_references (th_world st2) q = Some ref" using r by blast
    then show ?thesis
      using g Some e returns_mono [OF set_binding_ok [OF stepD [OF s], of name "ref_oid ref"], of "\<lambda>(st', err). op_post st st'"]
        step_op [OF o] by auto
  qed
qed

lemma remove_binding_op:
  assumes i: "app_inv env view seen st"
  shows "returns (gzochid_data_remove_binding env name st) (\<lambda>(st', err). op_post st st')"
  unfolding gzochid_data_remove_binding_def
proof (rule joined_op [OF i], simp, goal_cases)
  case (1 st' err)
  then show ?case by simp
next
  case (2 st1 a)
  let ?f = "\<lambda>e x. case transaction_delete (app_engine env) e x (app_names_store env) (name @ [0]) of
           (e', x') \<Rightarrow> (e', x', transaction_delete_status (app_engine env) e x (app_names_store env) (name @ [0]))"
  obtain st2 x v where c: "ctx_call a ?f st1 = Some (st2, x, v)" and s2: "step a st1 st2"
    using ctx_call_ok [OF 2(2) engine_calls(6) [of "app_names_store env" "name @ [0]"]] by (auto simp: returns_def)
  have "returns (mark_data env (should_retry (app_engine env) x) st2) (op_post st)"
    by (rule returns_mono [OF mark_step [OF stepD [OF s2] s2]]) (auto intro: step_op [OF 2(1)])
  then show ?case using c step_op [OF 2(1) s2] by auto
qed

lemma binding_exists_op:
  assumes i: "app_inv env view seen st"
  shows "returns (gzochid_data_binding_exists env name st) (\<lambda>(st', err, found). op_post st st')"
  unfolding gzochid_data_binding_exists_def
proof (rule joined_op [OF i], simp, goal_cases)
  case (1 st' err)
  then show ?case by simp
next
  case (2 st1 a)
  obtain st2 err oid where g: "get_binding env a name st1 = Some (st2, err, oid)" and s2: "step a st1 st2"
    using get_binding_ok [OF 2(2), of name] by (auto simp: returns_def)
  then show ?case using step_op [OF 2(1) s2] by (cases err) simp_all
qed

lemma create_reference_op:
  assumes i: "app_inv env view seen st"
  shows "returns (gzochid_data_create_reference env z (Some p) st) (\<lambda>(st', err, reference). op_post st st')"
  unfolding gzochid_data_create_reference_def
  by (rule joined_op [OF i], simp, simp) (auto intro!: returns_mono [OF reference_by_ptr_ok] intro: step_op)

text \<open>Changes of the world while the data manager has no context.\<close>

lemma unjoined_world:
  assumes i: "app_inv env view seen st" and d: "data_context env st = None" and l: "w_log_contexts w = w_log_contexts (th_world st)"
    and r: "refs_ok w" and f: "fresh_ok w" and v: "app_durable env view w = app_durable env view (th_world st)"
  shows "app_inv env view seen (st\<lparr>th_world := w\<rparr>)"
proof -
  have wf: "thread_wf (app_tx env) st" using i by (simp add: inv_defs)
  have "app_joined env seen (reg_participant q) (reg_data q) w"
    if t: "th_transaction st = Some t" "(k, q) \<in> set (tx_participants t)" for t k q
  proof (cases "reg_participant q")
    case Data_Participant
    then have "map_of (tx_participants t) (participant_name (app_tx env) Data_Participant) = Some q"
      using wf t by (auto simp: thread_wf_def tx_wf_def)
    then have "reg_data q = None" using d t(1) by (simp add: data_context_def gzochid_transaction_context_def)
    then show ?thesis using Data_Participant by simp
  next
    case Log_Participant
    then show ?thesis using i t l by (auto simp: inv_defs regs_inv_def log_joined_def)
  qed
  then have "regs_inv env seen (st\<lparr>th_world := w\<rparr>)" by (auto simp: regs_inv_def)
  moreover have "names_ok (view (w_storage w) (app_names_store env))"
    using v i by (simp add: durable_eq inv_defs)
  ultimately show ?thesis
    using i r f by (simp add: inv_defs thread_wf_def)
qed

lemma malloc_op:
  assumes i: "app_inv env view seen st" and r: "ref_ok ref" and m: "malloc_reference ref st = (st', q)"
  shows "op_post st st'"
proof (cases "data_context env st")
  case (Some a)
  then have "at a st" using i by (simp add: joined_at_def)
  from step_post [OF malloc_ok(1) [OF this r m]] show ?thesis .
next
  case None
  let ?w = "(th_world st)\<lparr>w_next := Suc (w_next (th_world st)),
    w_references := (w_references (th_world st))(w_next (th_world st) \<mapsto> ref)\<rparr>"
  have "app_inv env view seen (st\<lparr>th_world := ?w\<rparr>)"
    by (rule unjoined_world [OF i None])
      (use i r in \<open>auto simp: inv_defs refs_ok_def fresh_ok_def durable_eq\<close>)
  then show ?thesis
    using m by (auto simp: malloc_reference_def in_world_def op_post_def quiet_def durable_eq)
qed

lemma memory_op:
  assumes i: "app_inv env view seen st"
  shows "op_post st (in_world (\<lambda>w. w\<lparr>w_memory := m\<rparr>) st)"
proof (cases "data_context env st")
  case (Some a)
  then have "at a st" using i by (simp add: joined_at_def)
  from step_post [OF memory_ok(1) [OF this]] show ?thesis .
next
  case None
  have "app_inv env view seen (st\<lparr>th_world := (th_world st)\<lparr>w_memory := m\<rparr>\<rparr>)"
    by (rule unjoined_world [OF i None])
      (use i in \<open>auto simp: inv_defs refs_ok_def fresh_ok_def durable_eq\<close>)
  then show ?thesis by (simp add: in_world_def op_post_def quiet_def durable_eq)
qed

lemma create_reference_to_oid_op:
  assumes i: "app_inv env view seen st"
  shows "returns (gzochid_data_create_reference_to_oid env z oid st) (\<lambda>(st', r). op_post st st')"
  unfolding gzochid_data_create_reference_to_oid_def
proof (rule joined_op [OF i], simp, goal_cases)
  case (1 st' err)
  obtain st2 r where m: "create_empty_reference True oid z st' = (st2, r)" by fastforce
  have "op_post st' st2"
    using malloc_op [OF _ _ m [unfolded create_empty_reference_def]] 1(1) by (simp add: op_post_def ref_ok_def)
  then show ?case using 1 m post_trans by simp
next
  case (2 st1 a)
  then show ?case by (auto intro!: returns_mono [OF reference_by_oid_ok] intro: step_op)
qed

lemma join_partial:
  assumes i: "app_inv env view seen st" and j: "join_transaction env ctx st = Some y"
  shows "join_post st y"
proof -
  have "join_transaction env True st = Some y"
  proof (cases ctx)
    case False
    have c: "create_transaction_context env False l s = None" for l s by (simp add: create_transaction_context_def)
    obtain tc where tc: "(if gzochid_transaction_active st then gzochid_transaction_context (app_tx env) Data_Participant st
        else Some None) = Some tc"
      using j by (auto simp: join_transaction_def bind_eq_Some_conv)
    show ?thesis
    proof (cases tc)
      case None
      then show ?thesis
        using j False unfolding join_transaction_def tc
        by (cases "gzochid_transaction_timed st"; cases "gzochid_transaction_time_remaining (app_tx env) st")
          (auto simp: c split: if_splits)
    next
      case (Some a)
      then show ?thesis using j unfolding join_transaction_def tc by simp
    qed
  qed (use j in simp)
  then show ?thesis
    using join_transaction_ok [OF i, of True] by (simp add: returns_def)
qed

lemma joined_cases:
  assumes i: "app_inv env view seen st" and j: "join_transaction env ctx st = Some (st', err, tc)"
  obtains "op_post st st'" and "err \<noteq> None" and "tc = None"
  | a where "op_post st st'" and "err = None" and "tc = Some a" and "at a st'"
proof -
  have p: "join_post st (st', err, tc)" by (rule join_partial [OF i j])
  then have "op_post st st'" by (simp add: join_post_def op_post_def)
  then show thesis
    using p that by (cases tc) (auto simp: join_post_def joined_at_def)
qed

lemma dereference_op:
  assumes i: "app_inv env view seen st" and d: "dereference_joined env r fu st = Some (st', err, obj)"
  shows "op_post st st'"
proof -
  obtain ref st1 e1 tc where r: "w_references (th_world st) r = Some ref"
    and j: "join_transaction env (ref_context ref) st = Some (st1, e1, tc)"
    and rest: "(if e1 \<noteq> None then Some (st1, e1) else do { a \<leftarrow> tc; dereference env a r fu st1 }) = Some (st', err)"
    using d by (auto simp: dereference_joined_def bind_eq_Some_conv)
  show ?thesis
  proof (cases rule: joined_cases [OF i j])
    case 1
    then show ?thesis using rest by auto
  next
    case (2 a)
    then have "w_references (th_world st1) r \<noteq> None" using r by (auto simp: op_post_def)
    from dereference_ok [OF 2(4) this, of fu] rest 2(2,3) have "op_post st1 st'" by (auto simp: returns_def)
    then show ?thesis by (rule post_trans [OF 2(1)])
  qed
qed

lemma remove_object_op:
  assumes i: "app_inv env view seen st" and d: "gzochid_data_remove_object env r st = Some (st', err)"
  shows "op_post st st'"
proof -
  obtain ref st1 e1 tc where r: "w_references (th_world st) r = Some ref"
    and j: "join_transaction env (ref_context ref) st = Some (st1, e1, tc)"
    and rest: "(if e1 \<noteq> None then Some (st1, e1) else do { a \<leftarrow> tc; remove_reference env a r st1 }) = Some (st', err)"
    using d by (auto simp: gzochid_data_remove_object_def bind_eq_Some_conv)
  show ?thesis
  proof (cases rule: joined_cases [OF i j])
    case 1
    then show ?thesis using rest by auto
  next
    case (2 a)
    then have "w_references (th_world st1) r \<noteq> None" using r by (auto simp: op_post_def)
    from remove_reference_ok [OF 2(4) this] rest 2(2,3) have "step a st1 st'" by (auto simp: returns_def)
    then show ?thesis by (rule step_op [OF 2(1)])
  qed
qed

lemma reference_op_returns:
  assumes i: "app_inv env view seen st" and r: "w_references (th_world st) r = Some ref"
    and ctx: "ref_context ref \<or> data_context env st \<noteq> None"
  shows "dereference_joined env r fu st \<noteq> None" and "gzochid_data_remove_object env r st \<noteq> None"
proof -
  obtain st1 e1 tc where j: "join_transaction env (ref_context ref) st = Some (st1, e1, tc)"
    using joined_op [OF i ctx, where f = Some and P = "\<lambda>_. True"] by (auto simp: returns_def)
  have "returns (if e1 \<noteq> None then Some (st1, e1) else do { a \<leftarrow> tc; dereference env a r fu st1 })
      (\<lambda>(st', err). w_references (th_world st') r \<noteq> None)
    \<and> (e1 \<noteq> None \<or> Option.bind tc (\<lambda>a. remove_reference env a r st1) \<noteq> None)"
  proof (cases rule: joined_cases [OF i j])
    case 1
    then show ?thesis using r by (auto simp: op_post_def)
  next
    case (2 a)
    then have n: "w_references (th_world st1) r \<noteq> None" using r by (auto simp: op_post_def)
    show ?thesis
      using dereference_ok [OF 2(4) n, of fu] remove_reference_ok [OF 2(4) n] 2(2,3) n
      by (auto simp: returns_def op_post_def)
  qed
  then show "dereference_joined env r fu st \<noteq> None" and "gzochid_data_remove_object env r st \<noteq> None"
    using r j by (cases tc; auto simp: dereference_joined_def gzochid_data_remove_object_def returns_def)+
qed

text \<open>The transactional log touches nothing of the data manager.\<close>

lemma log_world:
  assumes i: "app_inv env view seen st" and d: "app_others Log_Participant (th_world st) w" and v: "w_log w = w_log (th_world st)"
    and l: "\<And>b. w_log_contexts (th_world st) b \<noteq> None \<Longrightarrow> w_log_contexts w b \<noteq> None" and f: "fresh_ok w"
  shows "op_post st (st\<lparr>th_world := w\<rparr>)"
proof -
  have "app_joined env seen (reg_participant q) (reg_data q) w"
    if "app_joined env seen (reg_participant q) (reg_data q) (th_world st)" for q :: "participant gzochid_transaction_participant_registration"
    using that l data_part_cong(3) [OF d, of env seen]
    by (cases "reg_participant q") (auto simp: log_joined_def bind_eq_Some_conv)
  then have "regs_inv env seen (st\<lparr>th_world := w\<rparr>)" using i by (fastforce simp: inv_defs regs_inv_def)
  then show ?thesis
    using i d f v by (simp add: inv_defs op_post_def thread_wf_def refs_ok_def quiet_def durable_eq)
qed

lemma log_join_inv:
  assumes i: "app_inv env view seen st" and l: "w_log_contexts (th_world st) b \<noteq> None"
  shows "returns (gzochid_transaction_join (app_tx env) Log_Participant (Some b) st) (op_post st)"
proof -
  let ?n = "participant_name (app_tx env) Log_Participant"
  let ?r = "\<lparr>reg_participant = Log_Participant, reg_data = Some b, reg_rollback = False, reg_retryable = False\<rparr>"
  have wf: "thread_wf (app_tx env) st" using i by (simp add: inv_defs)
  obtain st' where j: "gzochid_transaction_join (app_tx env) Log_Participant (Some b) st = Some st'"
    and wf': "thread_wf (app_tx env) st'" and w: "th_world st' = th_world st" "th_timing st' = th_timing st"
    using join_wf [OF wf, of Log_Participant "Some b"] by (auto simp: returns_def)
  have t: "th_time st' = th_time st"
    using j by (auto simp: gzochid_transaction_join_def transaction_new_def Let_def bind_eq_Some_conv split: option.splits if_splits)
  have regs: "(\<exists>t0. th_transaction st = Some t0 \<and> (k, r) \<in> set (tx_participants t0)) \<or> r = ?r"
    if "th_transaction st' = Some t" "(k, r) \<in> set (tx_participants t)" for t k r
    using j that
    by (auto simp: gzochid_transaction_join_def transaction_new_def Let_def bind_eq_Some_conv split: option.splits if_splits)
  have "regs_inv env seen st'"
    using i l regs w(1) by (fastforce simp: inv_defs regs_inv_def log_joined_def)
  moreover have "null_marked st'"
    using i regs by (fastforce simp: inv_defs null_marked_def)
  moreover have "time_ok env st'"
  proof -
    obtain timing where tm: "th_timing st = Some timing" "timer_ok (start_time timing)"
      "\<forall>limit. timeout timing = Some limit \<longrightarrow> timer_ok limit"
      and ex: "\<And>t k r. th_transaction st = Some t \<Longrightarrow> (k, r) \<in> set (tx_participants t) \<Longrightarrow> reg_participant r = Data_Participant \<Longrightarrow>
        reg_data r = None \<Longrightarrow> \<exists>limit. timeout timing = Some limit
          \<and> usecs limit \<le> usecs (app_clock env (th_time st)) - usecs (start_time timing)"
      using i unfolding inv_defs time_ok_def by blast
    have "\<exists>limit. timeout timing = Some limit \<and> usecs limit \<le> usecs (app_clock env (th_time st')) - usecs (start_time timing)"
      if p: "th_transaction st' = Some t" "(k, r) \<in> set (tx_participants t)" "reg_participant r = Data_Participant" "reg_data r = None" for t k r
      using regs [OF p(1,2)] p(3,4) ex t by auto
    then show ?thesis
      unfolding time_ok_def using tm w(2) by (intro exI [of _ timing]) auto
  qed
  ultimately show ?thesis
    using i j wf' w by (simp add: inv_defs op_post_def quiet_def)
qed

lemma log_registered:
  assumes i: "app_inv env view seen st" and c: "gzochid_transaction_context (app_tx env) Log_Participant st = Some (Some b)"
  shows "w_log_contexts (th_world st) b \<noteq> None"
proof -
  obtain t r where t: "th_transaction st = Some t" and r: "map_of (tx_participants t) (participant_name (app_tx env) Log_Participant) = Some r"
      "reg_data r = Some b"
    using c by (auto simp: gzochid_transaction_context_def bind_eq_Some_conv split: option.splits)
  have "participant_name (app_tx env) Log_Participant = participant_name (app_tx env) (reg_participant r)"
    using i t map_of_SomeD [OF r(1)] by (auto simp: inv_defs thread_wf_def tx_wf_def)
  then have "reg_participant r = Log_Participant"
    by (cases "reg_participant r") (simp_all add: app_tx_def data_participant_def log_participant_def)
  then show ?thesis
    using i t r map_of_SomeD [OF r(1)] by (auto simp: inv_defs regs_inv_def log_joined_def)
qed

lemma tx_log_op:
  assumes i: "app_inv env view seen st"
  shows "returns (gzochid_tx_log env pr msg st) (op_post st)"
proof -
  let ?n = "w_next (th_world st)"
  let ?ctx = "gzochid_transaction_context (app_tx env) Log_Participant"
  have wf: "thread_wf (app_tx env) st" using i by (simp add: inv_defs)
  have join: "returns (log_join_transaction env st) (\<lambda>(st', c). op_post st st' \<and> (\<exists>b. c = Some b \<and> w_log_contexts (th_world st') b \<noteq> None))"
  proof (cases "\<exists>b. gzochid_transaction_active st \<and> ?ctx st = Some (Some b)")
    case True
    then obtain b where b: "gzochid_transaction_active st" "?ctx st = Some (Some b)" by blast
    then show ?thesis
      using log_registered [OF i b(2)] op_refl [OF i] by (simp add: log_join_transaction_def)
  next
    case False
    have tc: "(if gzochid_transaction_active st then ?ctx st else Some None) = Some None"
      using False wf by (auto simp: gzochid_transaction_active_def gzochid_transaction_context_def split: option.splits)
    let ?st = "in_world (\<lambda>w. w\<lparr>w_next := Suc (w_next w), w_log_contexts := (w_log_contexts w)(w_next w \<mapsto> [])\<rparr>) st"
    have o1: "op_post st ?st"
      unfolding in_world_def by (rule log_world [OF i]) (use i in \<open>auto simp: inv_defs fresh_ok_def\<close>)
    have "w_log_contexts (th_world ?st) ?n \<noteq> None" by (simp add: in_world_def)
    then obtain st2 where j: "gzochid_transaction_join (app_tx env) Log_Participant (Some ?n) ?st = Some st2" and o2: "op_post ?st st2"
      using log_join_inv [of ?st ?n] o1 by (auto simp: op_post_def returns_def)
    have c2: "?ctx st2 = Some (Some ?n)"
    proof (cases "th_transaction st")
      case None
      then show ?thesis using j
        by (auto simp: gzochid_transaction_join_def transaction_new_def in_world_def Let_def gzochid_transaction_context_def)
    next
      case (Some t)
      have "map_of (tx_participants t) (participant_name (app_tx env) Log_Participant) = None"
      proof (rule ccontr)
        assume "map_of (tx_participants t) (participant_name (app_tx env) Log_Participant) \<noteq> None"
        then obtain r where r: "map_of (tx_participants t) (participant_name (app_tx env) Log_Participant) = Some r" by auto
        have "participant_name (app_tx env) Log_Participant = participant_name (app_tx env) (reg_participant r)"
          using wf Some map_of_SomeD [OF r(1)] by (auto simp: thread_wf_def tx_wf_def)
        then have "reg_participant r = Log_Participant"
          by (cases "reg_participant r") (simp_all add: app_tx_def data_participant_def log_participant_def)
        then obtain b where "reg_data r = Some b"
          using i Some map_of_SomeD [OF r] by (fastforce simp: inv_defs regs_inv_def log_joined_def bind_eq_Some_conv)
        then show False
          using False Some r wf by (auto simp: gzochid_transaction_active_def gzochid_transaction_context_def thread_wf_def)
      qed
      moreover have "tx_state t = Active" using wf Some by (simp add: thread_wf_def)
      ultimately show ?thesis using j Some
        by (auto simp: gzochid_transaction_join_def in_world_def Let_def gzochid_transaction_context_def map_add_def)
    qed
    have "app_inv env view seen st2" using o2 by (simp add: op_post_def)
    then show ?thesis
      using tc j c2 post_trans [OF o1 o2] log_registered [OF _ c2]
      by (simp add: log_join_transaction_def in_world_def)
  qed
  then obtain st1 b ms where j: "log_join_transaction env st = Some (st1, Some b)" and o1: "op_post st st1"
    and ms: "w_log_contexts (th_world st1) b = Some ms"
    by (auto simp: returns_def)
  have i1: "app_inv env view seen st1" using o1 by (simp add: op_post_def)
  have "op_post st1 (in_world (\<lambda>w. w\<lparr>w_log_contexts := (w_log_contexts w)(b \<mapsto> ms @ [(pr, msg)])\<rparr>) st1)"
    unfolding in_world_def by (rule log_world [OF i1]) (use i1 ms in \<open>auto simp: inv_defs fresh_ok_def\<close>)
  from post_trans [OF o1 this] show ?thesis using j ms by (simp add: gzochid_tx_log_def)
qed

end

end
