(* ===== verification/Transaction_Atomicity.thy ===== *)
theory Transaction_Atomicity
  imports Managed_Data_Ops
begin

text \<open>
  The transactions of a game: whatever it calls between the beginning and the end of a transaction, no
  operation faults, and the transaction takes effect as a whole or not at all.
\<close>

section \<open>Transactions of a game\<close>

text \<open>
  What a game does between the beginning and the end of a transaction: calls of the data service and
  of the transactional log with any arguments (objects exist), and work on its own objects.
\<close>

inductive app_step :: "('e, 'x, 's, 'm) app_env \<Rightarrow> ('e, 'x, 'm) app_thread \<Rightarrow> ('e, 'x, 'm) app_thread \<Rightarrow> bool" for env where
  Get_Binding: "gzochid_data_get_binding env name z st = Some (st', err, obj) \<Longrightarrow> app_step env st st'"
| Set_Binding_To_Oid: "gzochid_data_set_binding_to_oid env name oid st = Some (st', err) \<Longrightarrow> app_step env st st'"
| Next_Binding: "gzochid_data_next_binding_oid env name st = Some (st', err, found) \<Longrightarrow> app_step env st st'"
| Set_Binding: "gzochid_data_set_binding env name z (Some p) st = Some (st', err) \<Longrightarrow> app_step env st st'"
| Remove_Binding: "gzochid_data_remove_binding env name st = Some (st', err) \<Longrightarrow> app_step env st st'"
| Binding_Exists: "gzochid_data_binding_exists env name st = Some (st', err, b) \<Longrightarrow> app_step env st st'"
| Create_Reference: "gzochid_data_create_reference env z (Some p) st = Some (st', err, reference) \<Longrightarrow> app_step env st st'"
| Create_Reference_To_Oid: "gzochid_data_create_reference_to_oid env z oid st = Some (st', r) \<Longrightarrow> app_step env st st'"
| Dereference: "gzochid_data_dereference env r st = Some (st', err, obj) \<Longrightarrow> app_step env st st'"
| Dereference_For_Update: "gzochid_data_dereference_for_update env r st = Some (st', err, obj) \<Longrightarrow> app_step env st st'"
| Remove_Object: "gzochid_data_remove_object env r st = Some (st', err) \<Longrightarrow> app_step env st st'"
| Mark: "gzochid_data_mark env True z (Some p) st = Some (st', err) \<Longrightarrow> app_step env st st'"
| Log: "gzochid_tx_log env priority msg st = Some st' \<Longrightarrow> app_step env st st'"
| Game: "app_step env st (in_world (\<lambda>w. w\<lparr>w_memory := mem\<rparr>) st)"

context app_server
begin

lemma returned: "returns q P \<Longrightarrow> q = Some x \<Longrightarrow> P x"
  by (simp add: returns_def)

lemma app_step_post:
  assumes "app_step env st st'" and "app_inv env view seen st"
  shows "op_post st st'"
  using assms
  by (induction rule: app_step.induct)
    (auto simp: gzochid_data_dereference_def gzochid_data_dereference_for_update_def intro: dereference_op remove_object_op memory_op
      dest: returned [OF get_binding_op] returned [OF set_binding_to_oid_op] returned [OF next_binding_op]
        returned [OF set_binding_op] returned [OF remove_binding_op] returned [OF binding_exists_op]
        returned [OF create_reference_op] returned [OF create_reference_to_oid_op] returned [OF data_mark_ok] returned [OF tx_log_op])

lemma app_run_post:
  assumes "(app_step env)\<^sup>*\<^sup>* st st'" and "app_inv env view seen st"
  shows "op_post st st'"
  using assms
proof (induction rule: rtranclp_induct)
  case base
  then show ?case by (rule op_refl)
next
  case (step st1 st2)
  then show ?case using app_step_post post_trans by (metis op_post_def)
qed

lemma begin_inv:
  assumes "th_transaction st = None" and "refs_ok (th_world st)" and "fresh_ok (th_world st)"
    and "names_ok (view (w_storage (th_world st)) (app_names_store env))" and "\<forall>l. limit = Some l \<longrightarrow> timer_ok l"
  shows "op_post st (gzochid_transaction_begin (app_tx env) limit st)"
  using assms contract
  by (simp add: op_post_def inv_defs gzochid_transaction_begin_def gettimeofday_def thread_wf_def time_ok_def regs_inv_def
      null_marked_def quiet_def app_contract_def app_tx_def)

lemma run_post:
  assumes "th_transaction st0 = None" and "refs_ok (th_world st0)" and "fresh_ok (th_world st0)"
    and "names_ok (view (w_storage (th_world st0)) (app_names_store env))" and "\<forall>l. limit = Some l \<longrightarrow> timer_ok l"
    and "(app_step env)\<^sup>*\<^sup>* (gzochid_transaction_begin (app_tx env) limit st0) st"
  shows "op_post st0 st"
proof -
  have b: "op_post st0 (gzochid_transaction_begin (app_tx env) limit st0)"
    by (rule begin_inv [OF assms(1-5)])
  then have "op_post (gzochid_transaction_begin (app_tx env) limit st0) st"
    by (intro app_run_post [OF assms(6)]) (simp add: op_post_def)
  with b show ?thesis by (rule post_trans)
qed

lemmas run_inv = run_post [unfolded op_post_def, THEN conjunct1]

lemma context_reg:
  assumes wf: "thread_wf (app_tx env) st" and t: "th_transaction st = Some t"
  shows "Option.bind (gzochid_transaction_context (app_tx env) p st) id = Some a \<Longrightarrow>
      (p, Some a) \<in> set (map reg_pair (registrations (app_tx env) t))"
    and "Option.bind (gzochid_transaction_context (app_tx env) p st) id = None \<Longrightarrow> (p, d) \<in> set (map reg_pair (registrations (app_tx env) t)) \<Longrightarrow>
      d = None"
proof -
  have twf: "tx_wf (app_tx env) t" using wf t by (simp add: thread_wf_def)
  have regs: "set (map reg_pair (registrations (app_tx env) t)) = reg_pair ` snd ` set (tx_participants t)"
    using tx.regs_distinct(2) [OF twf] by simp
  have c: "Option.bind (gzochid_transaction_context (app_tx env) p st) id =
      (case map_of (tx_participants t) (participant_name (app_tx env) p) of None \<Rightarrow> None | Some r \<Rightarrow> reg_data r)"
    using t by (simp add: gzochid_transaction_context_def)
  have part: "reg_participant r = p" if "(participant_name (app_tx env) p, r) \<in> set (tx_participants t)" for r
    using twf that tx.names [of "reg_participant r" p] by (auto simp: tx_wf_def)
  show "(p, Some a) \<in> set (map reg_pair (registrations (app_tx env) t))"
    if b: "Option.bind (gzochid_transaction_context (app_tx env) p st) id = Some a"
  proof -
    obtain r where r: "map_of (tx_participants t) (participant_name (app_tx env) p) = Some r" "reg_data r = Some a"
      using b unfolding c by (cases "map_of (tx_participants t) (participant_name (app_tx env) p)") simp_all
    have "(participant_name (app_tx env) p, r) \<in> set (tx_participants t)" by (rule map_of_SomeD [OF r(1)])
    then show ?thesis using part r(2) unfolding regs by (force simp: reg_pair_def image_iff)
  qed
  show "d = None" if n: "Option.bind (gzochid_transaction_context (app_tx env) p st) id = None"
    and d: "(p, d) \<in> set (map reg_pair (registrations (app_tx env) t))"
  proof -
    obtain k r where r: "(k, r) \<in> set (tx_participants t)" "reg_participant r = p" "reg_data r = d"
      using d unfolding regs by (auto simp: reg_pair_def)
    then have "map_of (tx_participants t) (participant_name (app_tx env) p) = Some r"
      using twf by (auto simp: tx_wf_def)
    then show ?thesis using c n r(3) by simp
  qed
qed

lemma atomic_end:
  assumes i: "app_inv env view seen st"
  shows "\<exists>st' res. gzochid_transaction_end (app_tx env) st = Some (st', res) \<and> th_transaction st' = None
    \<and> (if res = Tx_Success
       then \<forall>p. app_durable env view (th_world st') p =
         (case Option.bind (gzochid_transaction_context (app_tx env) p st) id of
            None \<Rightarrow> app_durable env view (th_world st) p
          | Some a \<Rightarrow> app_intent env seen p (Some a) (th_world st))
       else app_durable env view (th_world st') = app_durable env view (th_world st))"
proof (cases "th_transaction st")
  case None
  then show ?thesis by (simp add: gzochid_transaction_end_def gzochid_transaction_context_def)
next
  case (Some t)
  have wf: "thread_wf (app_tx env) st" and twf: "tx_wf (app_tx env) t" using i Some by (simp_all add: inv_defs thread_wf_def)
  have tm: "th_timing st \<noteq> None" using i by (auto simp: inv_defs time_ok_def)
  have regs: "set (map reg_pair (registrations (app_tx env) t)) = reg_pair ` snd ` set (tx_participants t)"
    using tx.regs_distinct(2) [OF twf] by simp
  have j: "tx.tx_regs (app_joined env seen) t (th_world st)"
    using i Some unfolding tx.tx_regs_def regs by (fastforce simp: reg_pair_def inv_defs regs_inv_def)
  have null: "\<not> rollback_only t \<Longrightarrow> (k, r) \<in> set (tx_participants t) \<Longrightarrow> reg_participant r = Data_Participant \<Longrightarrow> reg_data r \<noteq> None" for k r
    using i Some by (fastforce simp: inv_defs null_marked_def rollback_only_def list_ex_iff)
  have rd: "tx.tx_regs (app_ready env seen) t (th_world st)" if "\<not> rollback_only t"
    unfolding tx.tx_regs_def regs
  proof (clarsimp simp: reg_pair_def)
    fix k r
    assume kr: "(k, r) \<in> set (tx_participants t)"
    then have "app_joined env seen (reg_participant r) (reg_data r) (th_world st)"
      using i Some by (fastforce simp: inv_defs regs_inv_def)
    then show "app_ready env seen (reg_participant r) (reg_data r) (th_world st)"
      using null [OF that kr] by (cases "reg_participant r") auto
  qed
  obtain st' res where e: "gzochid_transaction_end (app_tx env) st = Some (st', res)" "th_transaction st' = None"
    and o: "if res = Tx_Success then \<not> rollback_only t \<and> tx.all_durable t (th_world st) (th_world st')
      else app_durable env view (th_world st') = app_durable env view (th_world st)"
    using tx.end_returns [OF Some twf tm j rd] by (auto simp: returns_def split: if_splits)
  have "app_durable env view (th_world st') p = (case Option.bind (gzochid_transaction_context (app_tx env) p st) id of
      None \<Rightarrow> app_durable env view (th_world st) p | Some a \<Rightarrow> app_intent env seen p (Some a) (th_world st))" if res: "res = Tx_Success" for p
  proof (cases "Option.bind (gzochid_transaction_context (app_tx env) p st) id")
    case None
    have "p \<notin> fst ` set (map reg_pair (registrations (app_tx env) t))"
    proof
      assume "p \<in> fst ` set (map reg_pair (registrations (app_tx env) t))"
      then obtain d where d: "(p, d) \<in> set (map reg_pair (registrations (app_tx env) t))"
        by (elim imageE) (metis prod.collapse)
      then have "d = None" by (rule context_reg(2) [OF wf Some None])
      then obtain k r where "(k, r) \<in> set (tx_participants t)" "reg_participant r = p" "reg_data r = None"
        using d unfolding regs by (auto simp: reg_pair_def)
      moreover from this have "app_joined env seen p None (th_world st)" using i Some by (fastforce simp: inv_defs regs_inv_def)
      ultimately show False using null o res by (cases p) (auto simp: log_joined_def)
    qed
    then show ?thesis using None o res by (simp add: tx.all_durable_def)
  next
    case (Some a)
    then have "(p, Some a) \<in> set (map reg_pair (registrations (app_tx env) t))"
      by (rule context_reg(1) [OF wf \<open>th_transaction st = Some t\<close>])
    then show ?thesis using Some o res by (auto simp: tx.all_durable_def)
  qed
  then show ?thesis using e o by auto
qed

end

text \<open>
  (C2) Transactions are atomic. Take an application server over a storage engine, an oid allocator and
  serializers that keep their contracts, and a thread outside of a transaction. Whatever
  operations of the data service and the transactional log are called in whatever order between the
  begin and the end of a transaction, the end returns, and either the transaction has succeeded,
  and then the stores hold exactly what the transaction saw with every new or modified object
  written to it, and its messages have been logged in their order, or it has failed, and then stores and log are as
  they were before it began.
\<close>

theorem transaction_atomic:
  assumes "app_contract env view seen" and "th_transaction st0 = None" and "refs_ok (th_world st0)" and "fresh_ok (th_world st0)"
    and "names_ok (view (w_storage (th_world st0)) (app_names_store env))" and "\<forall>l. limit = Some l \<longrightarrow> timer_ok l"
    and "(app_step env)\<^sup>*\<^sup>* (gzochid_transaction_begin (app_tx env) limit st0) st"
  shows "\<exists>st' res. gzochid_transaction_end (app_tx env) st = Some (st', res) \<and> th_transaction st' = None
    \<and> (if res = Tx_Success
       then \<forall>p. app_durable env view (th_world st') p =
         (case Option.bind (gzochid_transaction_context (app_tx env) p st) id of
            None \<Rightarrow> app_durable env view (th_world st0) p
          | Some a \<Rightarrow> app_intent env seen p (Some a) (th_world st))
       else app_durable env view (th_world st') = app_durable env view (th_world st0))"
proof -
  note s = app_server.intro [OF assms(1)]
  have p: "app_server.op_post env view seen st0 st" by (rule app_server.run_post [OF s assms(2-7)])
  then have i: "app_inv env view seen st"
    and d: "app_durable env view (th_world st) = app_durable env view (th_world st0)"
    by (simp_all add: app_server.op_post_def [OF s] quiet_def)
  show ?thesis using app_server.atomic_end [OF s i] unfolding d .
qed

text \<open>
  (C15) The data service does not crash. In every state that a transaction can reach, every operation of
  the data service and of the transactional log returns: no assertion fails, nothing is read through
  a null pointer or a freed structure. The operations on a reference need it to be live, and to have been
  created in the current transaction or with an application context.
\<close>

theorem data_service_total:
  assumes "app_contract env view seen" and "th_transaction st0 = None" and "refs_ok (th_world st0)" and "fresh_ok (th_world st0)"
    and "names_ok (view (w_storage (th_world st0)) (app_names_store env))" and "\<forall>l. limit = Some l \<longrightarrow> timer_ok l"
    and "(app_step env)\<^sup>*\<^sup>* (gzochid_transaction_begin (app_tx env) limit st0) st"
  shows "gzochid_data_get_binding env name z st \<noteq> None \<and> gzochid_data_set_binding_to_oid env name oid st \<noteq> None
    \<and> gzochid_data_next_binding_oid env name st \<noteq> None \<and> gzochid_data_set_binding env name z (Some p) st \<noteq> None
    \<and> gzochid_data_remove_binding env name st \<noteq> None \<and> gzochid_data_binding_exists env name st \<noteq> None
    \<and> gzochid_data_create_reference env z (Some p) st \<noteq> None \<and> gzochid_data_create_reference_to_oid env z oid st \<noteq> None
    \<and> gzochid_data_mark env True z (Some p) st \<noteq> None \<and> gzochid_tx_log env priority msg st \<noteq> None
    \<and> (\<forall>ref. w_references (th_world st) r = Some ref \<longrightarrow> ref_context ref \<or> data_context env st \<noteq> None \<longrightarrow>
        gzochid_data_dereference env r st \<noteq> None \<and> gzochid_data_dereference_for_update env r st \<noteq> None
        \<and> gzochid_data_remove_object env r st \<noteq> None)"
proof -
  note s = app_server.intro [OF assms(1)]
  have i: "app_inv env view seen st" by (rule app_server.run_inv [OF s assms(2-7)])
  have some: "q \<noteq> None" if "returns q P" for q :: "'q option" and P using that by (auto simp: returns_def)
  show ?thesis
    unfolding gzochid_data_dereference_def gzochid_data_dereference_for_update_def
    by (intro conjI allI impI app_server.reference_op_returns [OF s i]
        some [OF app_server.get_binding_op [OF s i]] some [OF app_server.set_binding_to_oid_op [OF s i]]
        some [OF app_server.next_binding_op [OF s i]] some [OF app_server.set_binding_op [OF s i]]
        some [OF app_server.remove_binding_op [OF s i]] some [OF app_server.binding_exists_op [OF s i]]
        some [OF app_server.create_reference_op [OF s i]] some [OF app_server.create_reference_to_oid_op [OF s i]]
        some [OF app_server.data_mark_ok [OF s i]] some [OF app_server.tx_log_op [OF s i]]) simp_all
qed

section \<open>A game\<close>

text \<open>
  The contract is met: by the plain engine of the data server, objects that are byte strings in a
  growing memory, and a clock that ticks every second.
\<close>

definition game_serialization :: "byte list list gzochid_io_serialization" where
  "game_serialization = \<lparr>serializer = (\<lambda>p m. if p < length m then Some (m ! p) else None),
     deserializer = (\<lambda>bytes m. (m @ [bytes], Some (length m), False)), finalizer = (\<lambda>p m. m)\<rparr>"

definition game_env :: "(content, content, cstring, byte list list) app_env" where
  "game_env = \<lparr>app_engine = gzochid_storage_engine_interface.extend map_engine
       (app_engine.fields (\<lambda>e t. (e, Some e)) (\<lambda>e x s k. if x s k = None then Storage_Not_Found else Storage_Ok) (\<lambda>x. False)),
     app_big_endian = False, app_oids_store = [111], app_names_store = [110],
     app_oid_strategy = (\<lambda>e. Some (e, Inr \<lparr>block_start = 0, block_size = 100\<rparr>)),
     app_serialization = (\<lambda>z. game_serialization), app_hash_order = (\<lambda>ks. ks), app_oid_order = (\<lambda>ks. ks),
     app_clock = (\<lambda>n. \<lparr>tv_sec = int n, tv_usec = 0\<rparr>)\<rparr>"

lemma game_contract: "app_contract game_env (\<lambda>e. e) (\<lambda>e x. x)"
  by (auto simp: app_contract_def game_env_def engine_contract_def stays_failed_def map_engine_def
      gzochid_storage_engine_interface.defs app_engine.defs game_serialization_def timer_ok_def usecs_def)

interpretation game: app_server game_env "\<lambda>e. e" "\<lambda>e x. x"
  by unfold_locales (rule game_contract)

definition game_start :: "(content, content, byte list list) app_thread" where
  "game_start = \<lparr>th_transaction = None, th_timing = None, th_counter = 0, th_time = 0, th_calls = [],
     th_world = \<lparr>w_storage = (\<lambda>_. Map.empty), w_free_oid_blocks = [], w_events = [], w_memory = [[1, 2, 3]], w_next = 0,
       w_contexts = Map.empty, w_references = Map.empty, w_log_contexts = Map.empty, w_log = []\<rparr>\<rparr>"

definition game_run :: "(content, content, byte list list) app_thread option" where
  "game_run = do {
     (st, err) \<leftarrow> gzochid_data_set_binding game_env [97] 0 (Some 0)
       (gzochid_transaction_begin (app_tx game_env) None game_start);
     gzochid_tx_log game_env 32 [104, 105] st
   }"

lemmas game_simps = game_env_def game_serialization_def game_start_def map_engine_def
  gzochid_storage_engine_interface.defs app_engine.defs app_tx_def data_participant_def log_participant_def

lemmas tx_op_simps = gzochid_transaction_begin_def gettimeofday_def gzochid_transaction_active_def
  gzochid_transaction_timed_def gzochid_transaction_join_def transaction_new_def gzochid_transaction_context_def
  gzochid_transaction_rollback_only_def rollback_only_def retryable_def g_hash_table_get_values_def map_filter_simps
  set_state_def record_call_def time_remaining_def out_of_time_def

lemmas data_op_simps = gzochid_data_set_binding_def join_transaction_def create_transaction_context_def get_reference_by_ptr_def
  data_context_def create_new_reference_def next_object_id_def reserve_oids_def update_context_def in_world_def
  create_oid_block_state_def malloc_reference_def ctx_call_def set_binding_def g_hash_table_insert_def
  gzochid_tx_log_def log_join_transaction_def

lemmas end_simps = gzochid_transaction_end_def prepare_def commit_def data_prepare_def flush_reference_def
  log_prepare_def data_commit_def log_commit_def finalize_references_def transaction_context_free_def
  cleanup_transaction_def commit_message_def

text \<open>The game binds a name to a new object and writes a line to the log.\<close>

lemma game_run_returns:
  "\<exists>st st'. game_run = Some st \<and> gzochid_transaction_end (app_tx game_env) st = Some (st', Tx_Success)
    \<and> Option.bind (gzochid_transaction_context (app_tx game_env) Data_Participant st) id = Some 0
    \<and> app_intent game_env (\<lambda>e x. x) Data_Participant (Some 0) (th_world st) =
        Stores [oid_key False 0 \<mapsto> [1, 2, 3]] [[97, 0] \<mapsto> oid_key False 0]
    \<and> data_context game_env st = Some 0 \<and> (\<exists>ref. w_references (th_world st) 1 = Some ref)"
  unfolding game_run_def
  by (simp add: game_simps tx_op_simps data_op_simps end_simps Let_def objects_after_def flush_list_def flush_entry_def
    flushed_bytes_def)

lemma game_run_steps:
  assumes "game_run = Some st"
  shows "(app_step game_env)\<^sup>*\<^sup>* (gzochid_transaction_begin (app_tx game_env) None game_start) st"
proof -
  obtain st1 err where b: "gzochid_data_set_binding game_env [97] 0 (Some 0)
      (gzochid_transaction_begin (app_tx game_env) None game_start) = Some (st1, err)"
    and l: "gzochid_tx_log game_env 32 [104, 105] st1 = Some st"
    using assms by (auto simp: game_run_def bind_eq_Some_conv)
  show ?thesis using app_step.Set_Binding [OF b] app_step.Log [OF l] by (meson converse_rtranclp_into_rtranclp r_into_rtranclp)
qed

lemma game_start_ok:
  "th_transaction game_start = None" "refs_ok (th_world game_start)" "fresh_ok (th_world game_start)"
  "names_ok (w_storage (th_world game_start) (app_names_store game_env))"
  by (simp_all add: game_start_def refs_ok_def fresh_ok_def names_ok_def)

theorem transaction_atomic_witness:
  "\<exists>st st'. game_run = Some st \<and> gzochid_transaction_end (app_tx game_env) st = Some (st', Tx_Success)
    \<and> app_durable game_env (\<lambda>e. e) (th_world st') Data_Participant =
        Stores [oid_key False 0 \<mapsto> [1, 2, 3]] [[97, 0] \<mapsto> oid_key False 0]"
proof -
  obtain st st' where st: "game_run = Some st" "gzochid_transaction_end (app_tx game_env) st = Some (st', Tx_Success)"
    and c: "Option.bind (gzochid_transaction_context (app_tx game_env) Data_Participant st) id = Some 0"
    and n: "app_intent game_env (\<lambda>e x. x) Data_Participant (Some 0) (th_world st) =
        Stores [oid_key False 0 \<mapsto> [1, 2, 3]] [[97, 0] \<mapsto> oid_key False 0]"
    using game_run_returns by auto
  have "\<forall>p. app_durable game_env (\<lambda>e. e) (th_world st') p =
      (case Option.bind (gzochid_transaction_context (app_tx game_env) p st) id of
         None \<Rightarrow> app_durable game_env (\<lambda>e. e) (th_world game_start) p
       | Some a \<Rightarrow> app_intent game_env (\<lambda>e x. x) p (Some a) (th_world st))"
    using transaction_atomic [OF game_contract game_start_ok _ game_run_steps [OF st(1)]] st(2) by auto
  then have "app_durable game_env (\<lambda>e. e) (th_world st') Data_Participant =
      app_intent game_env (\<lambda>e x. x) Data_Participant (Some 0) (th_world st)"
    using c by (simp del: app_durable.simps app_intent.simps)
  then show ?thesis using st unfolding n by blast
qed

theorem data_service_total_witness:
  "\<exists>st. game_run = Some st \<and> gzochid_data_get_binding game_env [97] 0 st \<noteq> None
    \<and> gzochid_data_dereference game_env 1 st \<noteq> None"
proof -
  obtain st ref where st: "game_run = Some st" and c: "data_context game_env st = Some 0"
    and r: "w_references (th_world st) 1 = Some ref"
    using game_run_returns by auto
  show ?thesis
    using data_service_total [OF game_contract game_start_ok _ game_run_steps [OF st], of "[97]" 0 0 0 0 "[]" 1] st c r by auto
qed

end
