(* ===== verification/Lru_Cache.thy ===== *)
theory Lru_Cache
  imports Lock_Index
begin

text \<open>
  The cache of \<open>gzochi-server/src/lrucache.c\<close>, which evicts the least recently used value. The hash
  table and the index ordered by access counters share the value structures, so these live in a store
  of addresses. The value generator is an argument; it may have effects on a world \<open>'w\<close> and may
  return a copy of the key. What the eviction functions are called with is recorded.
\<close>

section \<open>State and operations\<close>

record ('k, 'v) gzochid_lru_cache_value =
  lru_key :: 'k
  lru_value :: 'v
  access_counter :: guint64

record ('k, 'v) gzochid_lru_cache =
  lru_cache :: "('k \<times> nat) list"
  lru_index :: "nat list"
  max_size :: guint
  next_access_counter :: guint64
  has_value_evict :: bool
  lru_store :: "nat \<rightharpoonup> ('k, 'v) gzochid_lru_cache_value"
  lru_next :: nat
  evicted :: "'v list"

type_synonym ('k, 'v, 'w) lru_cache_new_func = "'k \<Rightarrow> 'w \<Rightarrow> 'w \<times> 'v \<times> 'k option"

definition gzochid_lru_cache_new_full :: "guint \<Rightarrow> bool \<Rightarrow> ('k, 'v) gzochid_lru_cache" where
  "gzochid_lru_cache_new_full limit evict =
     \<lparr>lru_cache = [], lru_index = [], max_size = limit, next_access_counter = 0, has_value_evict = evict,
      lru_store = Map.empty, lru_next = 0, evicted = []\<rparr>"

definition lru_cache_value_compare ::
    "(nat \<rightharpoonup> ('k, 'v) gzochid_lru_cache_value) \<Rightarrow> nat \<Rightarrow> nat \<Rightarrow> int option" where
  "lru_cache_value_compare store a b = do {
     value_a \<leftarrow> store a;
     value_b \<leftarrow> store b;
     Some (if access_counter value_a < access_counter value_b then -1
           else if access_counter value_a > access_counter value_b then 1 else 0)
   }"

text \<open>\<open>g_sequence_sort_changed\<close> takes the element out and inserts it at its new place.\<close>

definition g_sequence_sort_changed :: "('a \<Rightarrow> 'a \<Rightarrow> int option) \<Rightarrow> 'a list \<Rightarrow> nat \<Rightarrow> 'a list option" where
  "g_sequence_sort_changed cmp xs i = do {
     x \<leftarrow> g_sequence_get xs i;
     sequence_insert_sorted cmp x (g_sequence_remove xs i)
   }"

definition lru_hit :: "nat \<Rightarrow> ('k, 'v) gzochid_lru_cache \<Rightarrow> (('k, 'v) gzochid_lru_cache \<times> 'v) option" where
  "lru_hit a c = do {
     value \<leftarrow> lru_store c a;
     iter \<leftarrow> g_sequence_lookup (\<lambda>b. lru_cache_value_compare (lru_store c) b a) (lru_index c);
     i \<leftarrow> iter;
     let store = (lru_store c)(a \<mapsto> value\<lparr>access_counter := next_access_counter c\<rparr>);
     index \<leftarrow> g_sequence_sort_changed (lru_cache_value_compare store) (lru_index c) i;
     Some (c\<lparr>lru_store := store, lru_index := index, next_access_counter := next_access_counter c + 1\<rparr>, lru_value value)
   }"

text \<open>The hash table frees the key and the sequence frees the structure.\<close>

definition lru_evict :: "('k, 'v) gzochid_lru_cache \<Rightarrow> ('k, 'v) gzochid_lru_cache option" where
  "lru_evict c = do {
     first \<leftarrow> g_sequence_get (lru_index c) 0;
     old_value \<leftarrow> lru_store c first;
     Some (c\<lparr>evicted := (if has_value_evict c then evicted c @ [lru_value old_value] else evicted c),
       lru_cache := g_hash_table_remove (lru_key old_value) (lru_cache c),
       lru_index := g_sequence_remove (lru_index c) 0, lru_store := (lru_store c)(first := None)\<rparr>)
   }"

definition gzochid_lru_cache_lookup ::
    "('k, 'v, 'w) lru_cache_new_func \<Rightarrow> 'k \<Rightarrow> ('k, 'v) gzochid_lru_cache \<Rightarrow> 'w \<Rightarrow>
     (('k, 'v) gzochid_lru_cache \<times> 'w \<times> 'v) option" where
  "gzochid_lru_cache_lookup new_func key c w =
     (case map_of (lru_cache c) key of
        Some a \<Rightarrow> map_option (\<lambda>(c, v). (c, w, v)) (lru_hit a c)
      | None \<Rightarrow> do {
          let (w, v, key_copy) = new_func key w;
          let value = \<lparr>lru_key = (case key_copy of Some k \<Rightarrow> k | None \<Rightarrow> key), lru_value = v,
            access_counter = next_access_counter c\<rparr>;
          let a = lru_next c;
          let store = (lru_store c)(a \<mapsto> value);
          index \<leftarrow> sequence_insert_sorted (lru_cache_value_compare store) a (lru_index c);
          let c = c\<lparr>next_access_counter := next_access_counter c + 1, lru_next := Suc a, lru_store := store,
            lru_index := index, lru_cache := g_hash_table_insert (lru_key value) a (lru_cache c)\<rparr>;
          c \<leftarrow> (if length (lru_cache c) > unat (max_size c) then lru_evict c else Some c);
          Some (c, w, v)
        })"

definition gzochid_lru_cache_destroy :: "('k, 'v) gzochid_lru_cache \<Rightarrow> 'v list option" where
  "gzochid_lru_cache_destroy c =
     (if has_value_evict c
      then map_option (\<lambda>values. evicted c @ map lru_value values) (those (map (lru_store c) (lru_index c)))
      else Some (evicted c))"

fun lru_lookups ::
    "('k, 'v, 'w) lru_cache_new_func \<Rightarrow> 'k list \<Rightarrow> ('k, 'v) gzochid_lru_cache \<Rightarrow> 'w \<Rightarrow>
     (('k, 'v) gzochid_lru_cache \<times> 'w \<times> 'v list) option" where
  "lru_lookups new_func [] c w = Some (c, w, [])"
| "lru_lookups new_func (k # ks) c w = do {
     (c, w, v) \<leftarrow> gzochid_lru_cache_lookup new_func k c w;
     (c, w, vs) \<leftarrow> lru_lookups new_func ks c w;
     Some (c, w, v # vs)
   }"

section \<open>Specification\<close>

text \<open>The entries from the least to the most recently used one, and what has been evicted.\<close>

definition lru_spec ::
    "('k, 'v, 'w) lru_cache_new_func \<Rightarrow> nat \<Rightarrow> 'k \<Rightarrow> ('k \<times> 'v) list \<times> 'v list \<Rightarrow> 'w \<Rightarrow>
     (('k \<times> 'v) list \<times> 'v list) \<times> 'w \<times> 'v" where
  "lru_spec new_func limit key s w =
     (case s of (entries, gone) \<Rightarrow>
       case map_of entries key of
         Some v \<Rightarrow> ((filter (\<lambda>(k, v). k \<noteq> key) entries @ [(key, v)], gone), w, v)
       | None \<Rightarrow>
           (case new_func key w of (w, v, _) \<Rightarrow>
              let entries = entries @ [(key, v)]
              in ((if length entries > limit then (tl entries, gone @ [snd (hd entries)]) else (entries, gone)), w, v)))"

fun lru_spec_run ::
    "('k, 'v, 'w) lru_cache_new_func \<Rightarrow> nat \<Rightarrow> 'k list \<Rightarrow> ('k \<times> 'v) list \<times> 'v list \<Rightarrow> 'w \<Rightarrow>
     (('k \<times> 'v) list \<times> 'v list) \<times> 'w \<times> 'v list" where
  "lru_spec_run new_func limit [] s w = (s, w, [])"
| "lru_spec_run new_func limit (k # ks) s w =
     (case lru_spec new_func limit k s w of (s, w, v) \<Rightarrow>
      case lru_spec_run new_func limit ks s w of (s, w, vs) \<Rightarrow> (s, w, v # vs))"

section \<open>Invariant and abstraction\<close>

definition lru_entry :: "('k, 'v) gzochid_lru_cache \<Rightarrow> nat \<Rightarrow> 'k \<times> 'v" where
  "lru_entry c a = (case lru_store c a of Some x \<Rightarrow> (lru_key x, lru_value x))"

definition lru_entries :: "('k, 'v) gzochid_lru_cache \<Rightarrow> ('k \<times> 'v) list" where
  "lru_entries c = map (lru_entry c) (lru_index c)"

definition counter_at :: "(nat \<rightharpoonup> ('k, 'v) gzochid_lru_cache_value) \<Rightarrow> nat \<Rightarrow> guint64" where
  "counter_at store a = (case store a of Some x \<Rightarrow> access_counter x | None \<Rightarrow> 0)"

definition lru_inv :: "('k, 'v) gzochid_lru_cache \<Rightarrow> bool" where
  "lru_inv c \<longleftrightarrow> sorted_wrt (\<lambda>a b. counter_at (lru_store c) a < counter_at (lru_store c) b) (lru_index c)
     \<and> (\<forall>a \<in> set (lru_index c). \<exists>x. lru_store c a = Some x \<and> access_counter x < next_access_counter c \<and> a < lru_next c)
     \<and> distinct (map (fst \<circ> lru_entry c) (lru_index c))
     \<and> distinct (map fst (lru_cache c))
     \<and> set (lru_cache c) = (\<lambda>a. (fst (lru_entry c a), a)) ` set (lru_index c)"

lemma compare_eq:
  assumes "store a \<noteq> None" and "store b \<noteq> None"
  shows "lru_cache_value_compare store a b =
    Some (if counter_at store a < counter_at store b then -1 else if counter_at store a > counter_at store b then 1 else 0)"
  using assms by (auto simp: lru_cache_value_compare_def counter_at_def)

text \<open>An element with a counter above all others goes to the end.\<close>

lemma insert_last:
  assumes "\<And>b. b \<in> set xs \<Longrightarrow> store b \<noteq> None \<and> counter_at store b < counter_at store a" and "store a \<noteq> None"
  shows "sequence_insert_sorted (lru_cache_value_compare store) a xs = Some (xs @ [a])"
  using assms(1) by (induction xs) (auto simp: compare_eq assms(2))

lemma lru_index_distinct: "lru_inv c \<Longrightarrow> distinct (lru_index c)"
  unfolding lru_inv_def by (metis distinct_map)

lemma lru_inv_new: "lru_inv (gzochid_lru_cache_new_full limit evict)"
  by (simp add: lru_inv_def gzochid_lru_cache_new_full_def)

lemma lru_cache_of:
  assumes i: "lru_inv c"
  shows "map_of (lru_cache c) key = Some a \<longleftrightarrow> a \<in> set (lru_index c) \<and> fst (lru_entry c a) = key"
  using i by (auto simp: lru_inv_def)

lemma map_of_entries:
  assumes i: "lru_inv c"
  shows "map_of (lru_entries c) key = map_option (\<lambda>a. snd (lru_entry c a)) (map_of (lru_cache c) key)"
proof -
  have d: "distinct (map fst (lru_entries c))" using i by (simp add: lru_inv_def lru_entries_def)
  show ?thesis
  proof (cases "map_of (lru_cache c) key")
    case None
    then have "key \<notin> fst ` set (lru_entries c)"
      using i by (auto simp: lru_inv_def lru_entries_def map_of_eq_None_iff image_iff)
    then have "map_of (lru_entries c) key = None" by (simp add: map_of_eq_None_iff)
    then show ?thesis using None by simp
  next
    case (Some a)
    then have "a \<in> set (lru_index c)" "fst (lru_entry c a) = key" using lru_cache_of [OF i] by auto
    then have "(key, snd (lru_entry c a)) \<in> set (lru_entries c)" by (force simp: lru_entries_def)
    then show ?thesis using Some d by simp
  qed
qed

lemma length_lru_cache: "lru_inv c \<Longrightarrow> length (lru_cache c) = length (lru_index c)"
proof -
  assume i: "lru_inv c"
  have "length (lru_cache c) = card (set (lru_cache c))"
    using i unfolding lru_inv_def by (metis distinct_card distinct_map)
  also have "\<dots> = card (set (lru_index c))"
    using i by (simp add: lru_inv_def card_image inj_on_def)
  also have "\<dots> = length (lru_index c)" by (rule distinct_card [OF lru_index_distinct [OF i]])
  finally show ?thesis .
qed

section \<open>Refinement\<close>

text \<open>
  A step that changes the store only at \<open>a\<close>, where it puts a value with the newest counter, and moves
  \<open>a\<close> to the end of the index.
\<close>

lemma lru_append_inv:
  assumes i: "lru_inv c" and n: "next_access_counter c < next_access_counter c + 1"
    and sub: "set xs = set (lru_index c) - {a}"
    and sorted: "sorted_wrt (\<lambda>b d. counter_at (lru_store c) b < counter_at (lru_store c) d) xs"
    and k: "k \<notin> (fst \<circ> lru_entry c) ` set xs" and a: "a < m" "lru_next c \<le> m"
    and t: "distinct (map fst t)" "set t = (\<lambda>b. (fst (lru_entry c b), b)) ` set xs \<union> {(k, a)}"
    and c': "c' = c\<lparr>lru_cache := t, lru_index := xs @ [a], next_access_counter := next_access_counter c + 1, lru_next := m,
      lru_store := (lru_store c)(a \<mapsto> \<lparr>lru_key = k, lru_value = v, access_counter = next_access_counter c\<rparr>)\<rparr>"
  shows "lru_inv c'" and "lru_entries c' = map (lru_entry c) xs @ [(k, v)]"
proof -
  have na: "a \<notin> set xs" using sub by simp
  have e: "lru_entry c' b = lru_entry c b" "counter_at (lru_store c') b = counter_at (lru_store c) b" if "b \<in> set xs" for b
    using na that by (auto simp: c' lru_entry_def counter_at_def)
  have ea: "lru_entry c' a = (k, v)" "counter_at (lru_store c') a = next_access_counter c"
    by (simp_all add: c' lru_entry_def counter_at_def)
  have me: "map (lru_entry c') xs = map (lru_entry c) xs" using e by simp
  have lt: "\<exists>x. lru_store c b = Some x \<and> access_counter x < next_access_counter c \<and> b < lru_next c" if "b \<in> set xs" for b
    using i sub that by (simp add: lru_inv_def)
  have s: "sorted_wrt (\<lambda>b d. counter_at (lru_store c') b < counter_at (lru_store c') d) (xs @ [a])"
    using sorted lt e(2) ea(2) sorted_wrt_mono_rel [OF _ sorted] by (fastforce simp: sorted_wrt_append counter_at_def)
  have "\<exists>x. lru_store c' b = Some x \<and> access_counter x < next_access_counter c' \<and> b < lru_next c'" if "b \<in> set (xs @ [a])" for b
    using lt [of b] n a that na by (force simp: c')
  moreover have "inj_on (fst \<circ> lru_entry c) (set (lru_index c))"
    using i by (simp add: lru_inv_def distinct_map)
  then have inj: "inj_on (fst \<circ> lru_entry c) (set xs)" by (rule inj_on_subset) (simp add: sub)
  have d: "distinct xs"
    using sorted by (induction xs) auto
  have "distinct (map (fst \<circ> lru_entry c') (xs @ [a]))"
    using k d inj e(1) ea(1) by (auto simp: distinct_map inj_on_def)
  moreover have "set t = (\<lambda>b. (fst (lru_entry c' b), b)) ` set (xs @ [a])"
    using t(2) e(1) ea(1) by auto
  ultimately show "lru_inv c'"
    using s t(1) by (simp add: lru_inv_def c')
  show "lru_entries c' = map (lru_entry c) xs @ [(k, v)]"
    using me ea by (simp add: lru_entries_def c')
qed

lemma lru_hit_ok:
  assumes i: "lru_inv c" and n: "next_access_counter c < next_access_counter c + 1" and a: "map_of (lru_cache c) key = Some a"
  shows "\<exists>c' v. lru_hit a c = Some (c', v) \<and> lru_inv c' \<and> map_of (lru_entries c) key = Some v
    \<and> lru_entries c' = filter (\<lambda>(k, v). k \<noteq> key) (lru_entries c) @ [(key, v)]
    \<and> evicted c' = evicted c \<and> max_size c' = max_size c \<and> has_value_evict c' = has_value_evict c
    \<and> next_access_counter c' = next_access_counter c + 1"
proof -
  let ?xs = "lru_index c"
  have ax: "a \<in> set ?xs" "fst (lru_entry c a) = key" using lru_cache_of [OF i] a by auto
  obtain val where v: "lru_store c a = Some val" "lru_key val = key"
    using i ax by (force simp: lru_inv_def lru_entry_def)
  have live: "b \<in> set ?xs \<Longrightarrow> lru_store c b \<noteq> None \<and> counter_at (lru_store c) b < next_access_counter c" for b
    using i by (fastforce simp: lru_inv_def counter_at_def)
  have d: "distinct ?xs" by (rule lru_index_distinct [OF i])
  obtain us vs where split: "?xs = us @ a # vs" using ax(1) by (meson split_list)
  have r: "g_sequence_remove ?xs (length us) = us @ vs" by (simp add: split g_sequence_remove_def)
  have rest: "set (us @ vs) = set ?xs - {a}" using d unfolding split by auto
  have sorted: "sorted_wrt (\<lambda>b d. counter_at (lru_store c) b < counter_at (lru_store c) d) (us @ a # vs)"
    using i unfolding lru_inv_def split by simp
  have "g_sequence_lookup (\<lambda>b. lru_cache_value_compare (lru_store c) b a) ?xs = Some (Some (length us))"
  proof (rule g_sequence_lookup_found)
    show "lru_cache_value_compare (lru_store c) x a \<noteq> None" if "x \<in> set ?xs" for x
      using live [OF that] live [OF ax(1)] by (simp add: compare_eq)
    show "length us < length ?xs" and "lru_cache_value_compare (lru_store c) (?xs ! length us) a = Some 0"
      using live [OF ax(1)] by (simp_all add: split compare_eq)
    show "lru_cache_value_compare (lru_store c) (?xs ! j) a \<noteq> Some 0" if "j < length us" for j
    proof -
      have m: "us ! j \<in> set us" using that by simp
      then have "counter_at (lru_store c) (us ! j) < counter_at (lru_store c) a"
        using sorted by (auto simp: sorted_wrt_append)
      then show ?thesis using live [of "us ! j"] live [OF ax(1)] m that by (simp add: split nth_append compare_eq)
    qed
  qed
  moreover define store where "store = (lru_store c)(a \<mapsto> val\<lparr>access_counter := next_access_counter c\<rparr>)"
  have "sequence_insert_sorted (lru_cache_value_compare store) a (us @ vs) = Some ((us @ vs) @ [a])"
  proof (rule insert_last)
    show "store b \<noteq> None \<and> counter_at store b < counter_at store a" if "b \<in> set (us @ vs)" for b
      using live [of b] that unfolding rest by (auto simp: store_def counter_at_def)
  qed (simp add: store_def)
  ultimately have h: "lru_hit a c = Some (c\<lparr>lru_store := store, lru_index := us @ vs @ [a],
      next_access_counter := next_access_counter c + 1\<rparr>, lru_value val)"
    using v r by (simp add: lru_hit_def store_def [symmetric] g_sequence_sort_changed_def g_sequence_get_def split)
  let ?c' = "c\<lparr>lru_store := store, lru_index := us @ vs @ [a], next_access_counter := next_access_counter c + 1\<rparr>"
  have c': "?c' = c\<lparr>lru_cache := lru_cache c, lru_index := (us @ vs) @ [a], next_access_counter := next_access_counter c + 1,
      lru_next := lru_next c, lru_store := (lru_store c)(a \<mapsto> \<lparr>lru_key = key, lru_value = lru_value val,
        access_counter = next_access_counter c\<rparr>)\<rparr>"
    using v(2) by (cases c; cases val) (simp add: store_def)
  have k: "key \<notin> (fst \<circ> lru_entry c) ` set (us @ vs)"
    using i ax unfolding rest by (auto simp: lru_inv_def distinct_map inj_on_def)
  have t: "set (lru_cache c) = (\<lambda>b. (fst (lru_entry c b), b)) ` set (us @ vs) \<union> {(key, a)}"
    using i ax unfolding rest by (auto simp: lru_inv_def)
  have s: "sorted_wrt (\<lambda>b d. counter_at (lru_store c) b < counter_at (lru_store c) d) (us @ vs)"
    using sorted by (auto simp: sorted_wrt_append)
  have nx: "a < lru_next c" and dt: "distinct (map fst (lru_cache c))" using i ax by (auto simp: lru_inv_def)
  note inv = lru_append_inv [OF i n rest s k nx order_refl dt t c']
  have keep: "filter (\<lambda>(k, v). k \<noteq> key) (map (lru_entry c) ys) = map (lru_entry c) ys"
    if "key \<notin> (fst \<circ> lru_entry c) ` set ys" for ys
    using that by (induction ys) auto
  have "filter (\<lambda>(k, v). k \<noteq> key) (lru_entries c) = map (lru_entry c) (us @ vs)"
  proof -
    have u: "key \<notin> (fst \<circ> lru_entry c) ` set us" and v: "key \<notin> (fst \<circ> lru_entry c) ` set vs"
      using k by (auto simp: image_Un)
    show ?thesis using keep [OF u] keep [OF v] ax(2) by (simp add: lru_entries_def split case_prod_unfold)
  qed
  then show ?thesis
    using h inv map_of_entries [OF i, of key] a v(1) by (simp add: lru_entry_def)
qed

lemma lru_evict_ok:
  assumes i: "lru_inv c" and ne: "lru_index c \<noteq> []"
  shows "\<exists>c'. lru_evict c = Some c' \<and> lru_inv c' \<and> lru_entries c' = tl (lru_entries c)
    \<and> evicted c' = (if has_value_evict c then evicted c @ [snd (hd (lru_entries c))] else evicted c)
    \<and> max_size c' = max_size c \<and> has_value_evict c' = has_value_evict c \<and> next_access_counter c' = next_access_counter c"
proof -
  obtain a xs where x: "lru_index c = a # xs" using ne by (cases "lru_index c") auto
  obtain old where old: "lru_store c a = Some old" using i x by (auto simp: lru_inv_def)
  have na: "a \<notin> set xs" using lru_index_distinct [OF i] x by simp
  define c' where "c' = c\<lparr>evicted := (if has_value_evict c then evicted c @ [lru_value old] else evicted c),
    lru_cache := g_hash_table_remove (lru_key old) (lru_cache c), lru_index := xs, lru_store := (lru_store c)(a := None)\<rparr>"
  have e: "lru_evict c = Some c'"
    using old by (simp add: lru_evict_def c'_def x g_sequence_get_def g_sequence_remove_def)
  have same: "lru_entry c' b = lru_entry c b" "counter_at (lru_store c') b = counter_at (lru_store c) b" if "b \<in> set xs" for b
    using na that by (auto simp: c'_def lru_entry_def counter_at_def)
  have me: "map (lru_entry c') xs = map (lru_entry c) xs" using same by simp
  have ka: "fst (lru_entry c a) = lru_key old" "snd (lru_entry c a) = lru_value old" using old by (simp_all add: lru_entry_def)
  have "sorted_wrt (\<lambda>b d. counter_at (lru_store c) b < counter_at (lru_store c) d) xs"
    using i by (simp add: lru_inv_def x)
  then have s: "sorted_wrt (\<lambda>b d. counter_at (lru_store c') b < counter_at (lru_store c') d) xs"
    by (rule sorted_wrt_mono_rel [rotated]) (simp add: same)
  have "distinct (map fst (map (lru_entry c) xs))" "lru_key old \<notin> fst ` lru_entry c ` set xs"
    using i ka(1) by (auto simp: lru_inv_def x image_comp)
  then have d: "distinct (map (fst \<circ> lru_entry c') xs)" and k: "lru_key old \<notin> fst ` lru_entry c ` set xs"
    by (simp_all only: map_map [symmetric] me not_False_eq_True)
  have t: "set (g_hash_table_remove (lru_key old) (lru_cache c)) = (\<lambda>b. (fst (lru_entry c' b), b)) ` set xs"
    using i k ka(1) same(1) by (auto simp: lru_inv_def x g_hash_table_remove_def image_iff)
  have dt: "distinct (map fst (g_hash_table_remove (lru_key old) (lru_cache c)))"
    using i by (simp add: lru_inv_def g_hash_table_remove_def distinct_map_filter)
  have l: "\<forall>b \<in> set xs. \<exists>y. lru_store c' b = Some y \<and> access_counter y < next_access_counter c' \<and> b < lru_next c'"
    using i na by (auto simp: lru_inv_def x c'_def)
  have "lru_inv c'"
    using s d t dt l by (simp add: lru_inv_def c'_def)
  then show ?thesis using e me ka x by (simp add: lru_entries_def c'_def)
qed

lemma lru_step:
  assumes i: "lru_inv c" and n: "next_access_counter c < next_access_counter c + 1" and ev: "has_value_evict c"
    and copy: "\<And>k w w' v k'. new_func k w = (w', v, Some k') \<Longrightarrow> k' = k"
  shows "\<exists>c' w' v. gzochid_lru_cache_lookup new_func key c w = Some (c', w', v) \<and> lru_inv c'
    \<and> lru_spec new_func (unat (max_size c)) key (lru_entries c, evicted c) w = ((lru_entries c', evicted c'), w', v)
    \<and> max_size c' = max_size c \<and> has_value_evict c' \<and> next_access_counter c' = next_access_counter c + 1"
proof (cases "map_of (lru_cache c) key")
  case (Some a)
  then show ?thesis
    using lru_hit_ok [OF i n Some] ev by (auto simp: gzochid_lru_cache_lookup_def lru_spec_def)
next
  case None
  obtain w' v kc where g: "new_func key w = (w', v, kc)" by (rule prod_cases3)
  have kk: "(case kc of Some k \<Rightarrow> k | None \<Rightarrow> key) = key" using copy g by (auto split: option.split)
  let ?a = "lru_next c"
  let ?store = "(lru_store c)(?a \<mapsto> \<lparr>lru_key = key, lru_value = v, access_counter = next_access_counter c\<rparr>)"
  have live: "b \<in> set (lru_index c) \<Longrightarrow> lru_store c b \<noteq> None \<and> counter_at (lru_store c) b < next_access_counter c \<and> b < ?a" for b
    using i by (fastforce simp: lru_inv_def counter_at_def)
  have ins: "sequence_insert_sorted (lru_cache_value_compare ?store) ?a (lru_index c) = Some (lru_index c @ [?a])"
  proof (rule insert_last)
    show "?store b \<noteq> None \<and> counter_at ?store b < counter_at ?store ?a" if "b \<in> set (lru_index c)" for b
      using live [OF that] by (auto simp: counter_at_def)
  qed simp
  have nk: "key \<notin> fst ` set (lru_cache c)" using None by (simp add: map_of_eq_None_iff)
  have rest: "set (lru_index c) = set (lru_index c) - {?a}" using live by auto
  have t: "set (lru_cache c @ [(key, ?a)]) = (\<lambda>b. (fst (lru_entry c b), b)) ` set (lru_index c) \<union> {(key, ?a)}"
    and s: "sorted_wrt (\<lambda>b d. counter_at (lru_store c) b < counter_at (lru_store c) d) (lru_index c)"
    and dt: "distinct (map fst (lru_cache c @ [(key, ?a)]))"
    using i nk by (auto simp: lru_inv_def)
  have k: "key \<notin> (fst \<circ> lru_entry c) ` set (lru_index c)"
    using nk i by (auto simp: lru_inv_def image_iff)
  define c1 where "c1 = c\<lparr>lru_cache := lru_cache c @ [(key, ?a)], lru_index := lru_index c @ [?a],
    next_access_counter := next_access_counter c + 1, lru_next := Suc ?a, lru_store := ?store\<rparr>"
  have inv: "lru_inv c1" and en: "lru_entries c1 = lru_entries c @ [(key, v)]"
    using lru_append_inv [OF i n rest s k _ _ dt t c1_def] by (simp_all add: lru_entries_def)
  have f: "max_size c1 = max_size c" "evicted c1 = evicted c" "has_value_evict c1" "lru_index c1 \<noteq> []"
    "next_access_counter c1 = next_access_counter c + 1"
    using ev by (simp_all add: c1_def)
  have c1: "c1 = c\<lparr>next_access_counter := next_access_counter c + 1, lru_next := Suc ?a, lru_store := ?store,
      lru_index := lru_index c @ [?a], lru_cache := lru_cache c @ [(key, ?a)]\<rparr>"
    unfolding c1_def by (cases c) simp
  have look: "gzochid_lru_cache_lookup new_func key c w =
      map_option (\<lambda>c. (c, w', v)) (if length (lru_cache c1) > unat (max_size c) then lru_evict c1 else Some c1)"
    using None g kk ins nk by (simp add: gzochid_lru_cache_lookup_def Let_def g_hash_table_insert_def c1 map_conv_bind_option o_def)
  have len: "length (lru_cache c1) = length (lru_entries c @ [(key, v)])"
    using length_lru_cache [OF inv] by (simp add: lru_entries_def c1_def)
  have none: "map_of (lru_entries c) key = None" using map_of_entries [OF i] None by simp
  show ?thesis
    using look len none en inv f g lru_evict_ok [OF inv f(4)]
    by (auto simp: lru_spec_def Let_def)
qed

lemma lru_run:
  assumes "lru_inv c" and "has_value_evict c" and "unat (next_access_counter c) + length ks < 2 ^ 64"
    and copy: "\<And>k w w' v k'. new_func k w = (w', v, Some k') \<Longrightarrow> k' = k"
  shows "\<exists>c' w' vs. lru_lookups new_func ks c w = Some (c', w', vs) \<and> lru_inv c'
    \<and> lru_spec_run new_func (unat (max_size c)) ks (lru_entries c, evicted c) w = ((lru_entries c', evicted c'), w', vs)
    \<and> has_value_evict c'"
  using assms(1-3)
proof (induction ks arbitrary: c w)
  case Nil
  then show ?case by simp
next
  case (Cons k ks)
  have "unat (next_access_counter c) + 1 < 2 ^ 64" using Cons.prems(3) by simp
  then have u: "unat (next_access_counter c + 1) = unat (next_access_counter c) + 1"
    by (simp add: unat_word_ariths)
  then have n: "next_access_counter c < next_access_counter c + 1" by (simp add: word_less_nat_alt)
  obtain c1 w1 v where s: "gzochid_lru_cache_lookup new_func k c w = Some (c1, w1, v)" "lru_inv c1" "has_value_evict c1"
    "lru_spec new_func (unat (max_size c)) k (lru_entries c, evicted c) w = ((lru_entries c1, evicted c1), w1, v)"
    "max_size c1 = max_size c" "next_access_counter c1 = next_access_counter c + 1"
    using lru_step [OF Cons.prems(1) n Cons.prems(2), of new_func k w] copy by blast
  have "unat (next_access_counter c1) + length ks < 2 ^ 64" using s(6) u Cons.prems(3) by simp
  from Cons.IH [OF s(2,3) this, of w1] show ?case using s by auto
qed

text \<open>
  (C30) The cache is a least-recently-used cache. Over any sequence of lookups on a new cache (fewer than
  the 64 bit counter can count) every lookup returns; the values returned, the calls of the value
  generator, the entries in the cache in the order of their last use, and the values given to the
  eviction function are those of the reference cache, which drops the least recently used entry when a
  generated value exceeds the maximum size. A copy of a key the generator returns is equal to the key.
  When the cache is destroyed, exactly the entries left are evicted.
\<close>

theorem lru_cache_correct:
  fixes new_func :: "('k, 'v, 'w) lru_cache_new_func"
  assumes "length ks < 2 ^ 64" and "\<And>k w w' v k'. new_func k w = (w', v, Some k') \<Longrightarrow> k' = k"
  shows "\<exists>c w' vs. lru_lookups new_func ks (gzochid_lru_cache_new_full limit True) w = Some (c, w', vs)
    \<and> lru_spec_run new_func (unat limit) ks ([], []) w = ((lru_entries c, evicted c), w', vs)
    \<and> gzochid_lru_cache_destroy c = Some (evicted c @ map snd (lru_entries c))"
proof -
  let ?c = "gzochid_lru_cache_new_full limit True :: ('k, 'v) gzochid_lru_cache"
  have new: "lru_entries ?c = []" "evicted ?c = []" "max_size ?c = limit" "has_value_evict ?c" "next_access_counter ?c = 0"
    by (simp_all add: gzochid_lru_cache_new_full_def lru_entries_def)
  obtain c w' vs where c: "lru_lookups new_func ks ?c w = Some (c, w', vs)" "lru_inv c" "has_value_evict c"
    "lru_spec_run new_func (unat limit) ks ([], []) w = ((lru_entries c, evicted c), w', vs)"
    using lru_run [OF lru_inv_new, of limit True ks new_func w] new assms by auto
  have "\<exists>values. those (map (lru_store c) xs) = Some values \<and> map lru_value values = map snd (map (lru_entry c) xs)"
    if "\<forall>a \<in> set xs. lru_store c a \<noteq> None" for xs
    using that by (induction xs) (auto simp: lru_entry_def)
  moreover have "\<forall>a \<in> set (lru_index c). lru_store c a \<noteq> None" using c(2) by (auto simp: lru_inv_def)
  ultimately show ?thesis using c unfolding gzochid_lru_cache_destroy_def lru_entries_def by fastforce
qed

text \<open>With room for two, the third name evicts the second one, because the first has been used since.\<close>

theorem lru_cache_correct_witness:
  "\<exists>c w. lru_lookups (\<lambda>k w. (w + 1, w, None)) ''abac'' (gzochid_lru_cache_new_full 2 True) (0 :: nat) = Some (c, w, [0, 1, 0, 2])
    \<and> lru_entries c = [(CHR ''a'', 0), (CHR ''c'', 2)] \<and> evicted c = [1]"
proof -
  have "lru_spec_run (\<lambda>k w. (w + 1, w, None)) (unat (2 :: guint)) ''abac'' ([], []) (0 :: nat) =
      (([(CHR ''a'', 0), (CHR ''c'', 2)], [1]), 3, [0, 1, 0, 2])"
    by (simp add: lru_spec_def)
  then show ?thesis
    using lru_cache_correct [of "''abac''" "\<lambda>k w. (w + 1, w, None)" 2 "0 :: nat"]
    by (fastforce simp del: lru_lookups.simps lru_spec_run.simps)
qed

end
