(* ===== verification/Schedule.thy ===== *)
theory Schedule
  imports Tx
begin

text \<open>
  The task queue of \<open>gzochi-server/src/schedule.c\<close> (with \<open>task.c\<close>): tasks are submitted with a time, a
  consumer thread feeds those that are due to a pool of threads, and these execute them. Each section
  of the code that holds the mutex of the queue is one step, so that the steps of the threads interleave.

  A worker with its data is a value of a type \<open>'f\<close>; what is executed is recorded. Pending tasks live in
  a store; freed ones are mapped to nothing. \<open>queue_start\<close> and \<open>queue_stop\<close> are not called concurrently with each
  other, as the state machines that call them see to. The clock of the day and the monotonic clock are read at the same
  moment in a step and differ by a constant (\<open>boot\<close>): that the clock of the day is set is not modelled.
\<close>

section \<open>State\<close>

datatype 'f gzochid_task = Task (task_worker: "'f worker") (target_execution_time: timeval)
  and 'f worker = Worker 'f | Task_Chain_Worker "'f gzochid_task list"

datatype gzochid_pending_task_state = Task_Pending | Task_Completed

record 'f gzochid_pending_task =
  base_task :: "'f gzochid_task"
  pending_state :: gzochid_pending_task_state
  destroy_on_execute :: bool

text \<open>Where the consumer thread is when it does not hold the mutex: before the loop condition, or waiting.\<close>

datatype consumer_state = At_Loop | Cond_Wait | Cond_Wait_Until int

record 'f gzochid_task_queue =
  consumer_thread :: "consumer_state option"
  tq_running :: bool
  tq_queue :: "nat list"
  tq_pool :: "nat list"
  tq_pending :: "nat \<rightharpoonup> 'f gzochid_pending_task"
  tq_submitted :: "'f gzochid_task list"
  tq_waiting :: "nat list"
  tq_executed :: "(nat \<times> int) list"
  tq_calls :: "('f \<times> int) list"
  tq_now :: int

text \<open>The time of day is counted in microseconds; the monotonic clock differs by a constant.\<close>

definition time_of_day :: "int \<Rightarrow> timeval" where
  "time_of_day n = \<lparr>tv_sec = n div 1000000, tv_usec = n mod 1000000\<rparr>"

definition monotonic_time :: "int \<Rightarrow> int \<Rightarrow> int" where
  "monotonic_time boot n = n - boot"

section \<open>Operations\<close>

definition gzochid_schedule_task_queue_new :: "int \<Rightarrow> 'f gzochid_task_queue" where
  "gzochid_schedule_task_queue_new n = \<lparr>consumer_thread = None, tq_running = False, tq_queue = [], tq_pool = [],
     tq_pending = Map.empty, tq_submitted = [], tq_waiting = [], tq_executed = [], tq_calls = [], tq_now = n\<rparr>"

definition pending_task_compare :: "'f gzochid_task \<Rightarrow> 'f gzochid_task \<Rightarrow> int" where
  "pending_task_compare task_a task_b =
     (let a = target_execution_time task_a; b = target_execution_time task_b
      in if tv_sec a < tv_sec b then -1 else if tv_sec a > tv_sec b then 1 else tv_usec a - tv_usec b)"

text \<open>\<open>g_queue_insert_sorted\<close>: before the first element that does not compare less.\<close>

fun g_queue_insert_sorted :: "('a \<Rightarrow> 'a \<Rightarrow> int option) \<Rightarrow> 'a \<Rightarrow> 'a list \<Rightarrow> 'a list option" where
  "g_queue_insert_sorted cmp x [] = Some [x]"
| "g_queue_insert_sorted cmp x (y # ys) = do {
     c \<leftarrow> cmp y x;
     if c < 0 then map_option ((#) y) (g_queue_insert_sorted cmp x ys) else Some (x # y # ys)
   }"

definition gzochid_pending_task_new :: "'f gzochid_task \<Rightarrow> bool \<Rightarrow> 'f gzochid_pending_task" where
  "gzochid_pending_task_new task destroy = \<lparr>base_task = task, pending_state = Task_Pending, destroy_on_execute = destroy\<rparr>"

text \<open>\<open>g_cond_signal\<close> wakes the consumer when it waits.\<close>

definition signal_consumer :: "'f gzochid_task_queue \<Rightarrow> 'f gzochid_task_queue" where
  "signal_consumer q = q\<lparr>consumer_thread := map_option (\<lambda>_. At_Loop) (consumer_thread q)\<rparr>"

definition compare_pending :: "(nat \<rightharpoonup> 'f gzochid_pending_task) \<Rightarrow> nat \<Rightarrow> nat \<Rightarrow> int option" where
  "compare_pending store a b = do {
     pa \<leftarrow> store a;
     pb \<leftarrow> store b;
     Some (pending_task_compare (base_task pa) (base_task pb))
   }"

definition submit_task :: "'f gzochid_task \<Rightarrow> bool \<Rightarrow> 'f gzochid_task_queue \<Rightarrow> ('f gzochid_task_queue \<times> nat) option" where
  "submit_task task destroy q = do {
     let a = length (tq_submitted q);
     let pending = (tq_pending q)(a \<mapsto> gzochid_pending_task_new task destroy);
     queue \<leftarrow> g_queue_insert_sorted (compare_pending pending) a (tq_queue q);
     Some (signal_consumer (q\<lparr>tq_pending := pending, tq_submitted := tq_submitted q @ [task], tq_queue := queue\<rparr>), a)
   }"

definition gzochid_schedule_submit_task :: "'f gzochid_task \<Rightarrow> 'f gzochid_task_queue \<Rightarrow> 'f gzochid_task_queue option" where
  "gzochid_schedule_submit_task task q = map_option fst (submit_task task True q)"

definition gzochid_schedule_submit_task_chain ::
    "'f gzochid_task list \<Rightarrow> 'f gzochid_task_queue \<Rightarrow> 'f gzochid_task_queue option" where
  "gzochid_schedule_submit_task_chain tasks q =
     (case tasks of
        [] \<Rightarrow> None
      | t # _ \<Rightarrow> gzochid_schedule_submit_task (Task (Task_Chain_Worker tasks) (target_execution_time t)) q)"

text \<open>
  The synchronous variant submits, waits until the task has been completed, and then frees it; these
  are two steps.
\<close>

definition run_task_submit :: "'f gzochid_task \<Rightarrow> 'f gzochid_task_queue \<Rightarrow> 'f gzochid_task_queue option" where
  "run_task_submit task q = do {
     (q, a) \<leftarrow> submit_task task False q;
     Some (q\<lparr>tq_waiting := a # tq_waiting q\<rparr>)
   }"

definition run_task_resume :: "nat \<Rightarrow> 'f gzochid_task_queue \<Rightarrow> 'f gzochid_task_queue option" where
  "run_task_resume a q = do {
     p \<leftarrow> tq_pending q a;
     if pending_state p = Task_Pending then Some q
     else Some (q\<lparr>tq_waiting := remove1 a (tq_waiting q), tq_pending := (tq_pending q)(a := None)\<rparr>)
   }"

fun gzochid_schedule_execute_task :: "'f gzochid_task \<Rightarrow> 'f list" where
  "gzochid_schedule_execute_task (Task (Worker f) t) = [f]"
| "gzochid_schedule_execute_task (Task (Task_Chain_Worker ts) t) = concat (map gzochid_schedule_execute_task ts)"

definition pending_task_executor :: "nat \<Rightarrow> 'f gzochid_task_queue \<Rightarrow> 'f gzochid_task_queue option" where
  "pending_task_executor a q = do {
     p \<leftarrow> tq_pending q a;
     let q = q\<lparr>tq_calls := tq_calls q @ map (\<lambda>f. (f, tq_now q)) (gzochid_schedule_execute_task (base_task p)),
       tq_executed := tq_executed q @ [(a, tq_now q)]\<rparr>;
     Some (q\<lparr>tq_pending := (tq_pending q)(a := (if destroy_on_execute p then None else Some (p\<lparr>pending_state := Task_Completed\<rparr>)))\<rparr>)
   }"

text \<open>One turn of the loop of the consumer thread, from the loop condition to the next wait or turn.\<close>

definition gzochid_schedule_task_executor :: "int \<Rightarrow> 'f gzochid_task_queue \<Rightarrow> 'f gzochid_task_queue option" where
  "gzochid_schedule_task_executor boot q =
     (if \<not> tq_running q then Some (q\<lparr>consumer_thread := None\<rparr>)
      else case tq_queue q of
        [] \<Rightarrow> Some (q\<lparr>consumer_thread := Some Cond_Wait\<rparr>)
      | a # queue \<Rightarrow> do {
          p \<leftarrow> tq_pending q a;
          let current_time = time_of_day (tq_now q);
          let target = target_execution_time (base_task p);
          Some (if timercmp_gt current_time target
                then q\<lparr>tq_queue := queue, tq_pool := tq_pool q @ [a], consumer_thread := Some At_Loop\<rparr>
                else let interval = timersub target current_time;
                         until = monotonic_time boot (tq_now q) + (tv_sec interval * 1000000 + tv_usec interval)
                     in q\<lparr>consumer_thread := Some (Cond_Wait_Until until)\<rparr>)
        })"

definition gzochid_schedule_task_queue_start :: "'f gzochid_task_queue \<Rightarrow> 'f gzochid_task_queue" where
  "gzochid_schedule_task_queue_start q =
     (if consumer_thread q = None then q\<lparr>consumer_thread := Some At_Loop, tq_running := True\<rparr> else q)"

definition gzochid_schedule_task_queue_stop :: "'f gzochid_task_queue \<Rightarrow> 'f gzochid_task_queue" where
  "gzochid_schedule_task_queue_stop q =
     (if consumer_thread q \<noteq> None then q\<lparr>consumer_thread := None, tq_running := False\<rparr> else q)"

definition wakes_up :: "int \<Rightarrow> 'f gzochid_task_queue \<Rightarrow> bool" where
  "wakes_up boot q \<longleftrightarrow> (case consumer_thread q of
     Some At_Loop \<Rightarrow> True
   | Some (Cond_Wait_Until u) \<Rightarrow> u \<le> monotonic_time boot (tq_now q)
   | _ \<Rightarrow> False)"

text \<open>The steps of all threads, and time. A wait may also end for no reason.\<close>

inductive schedule_step :: "int \<Rightarrow> 'f gzochid_task_queue \<Rightarrow> 'f gzochid_task_queue \<Rightarrow> bool" for boot where
  Submit: "timer_ok (target_execution_time t) \<Longrightarrow> gzochid_schedule_submit_task t q = Some q' \<Longrightarrow> schedule_step boot q q'"
| Submit_Chain: "\<forall>t \<in> set ts. timer_ok (target_execution_time t) \<Longrightarrow>
    gzochid_schedule_submit_task_chain ts q = Some q' \<Longrightarrow> schedule_step boot q q'"
| Run_Task: "timer_ok (target_execution_time t) \<Longrightarrow> run_task_submit t q = Some q' \<Longrightarrow> schedule_step boot q q'"
| Run_Task_Resume: "a \<in> set (tq_waiting q) \<Longrightarrow> run_task_resume a q = Some q' \<Longrightarrow> schedule_step boot q q'"
| Start: "schedule_step boot q (gzochid_schedule_task_queue_start q)"
| Stop: "schedule_step boot q (gzochid_schedule_task_queue_stop q)"
| Consume: "wakes_up boot q \<Longrightarrow> gzochid_schedule_task_executor boot q = Some q' \<Longrightarrow> schedule_step boot q q'"
| Spurious: "consumer_thread q \<noteq> None \<Longrightarrow> schedule_step boot q (q\<lparr>consumer_thread := Some At_Loop\<rparr>)"
| Execute: "a \<in> set (tq_pool q) \<Longrightarrow> pending_task_executor a (q\<lparr>tq_pool := remove1 a (tq_pool q)\<rparr>) = Some q' \<Longrightarrow> schedule_step boot q q'"
| Tick: "0 < d \<Longrightarrow> schedule_step boot q (q\<lparr>tq_now := tq_now q + d\<rparr>)"

section \<open>Times\<close>

abbreviation due :: "'f gzochid_task \<Rightarrow> int" where
  "due t \<equiv> usecs (target_execution_time t)"

lemma time_of_day [simp]: "timer_ok (time_of_day n)" "usecs (time_of_day n) = n"
  by (simp_all add: time_of_day_def timer_ok_def usecs_def)

lemma pending_task_compare_due:
  assumes "timer_ok (target_execution_time s)" and "timer_ok (target_execution_time t)"
  shows "pending_task_compare s t < 0 \<longleftrightarrow> due s < due t"
  using assms by (auto simp: pending_task_compare_def Let_def timer_ok_def usecs_def)

lemma executor_due:
  assumes "tq_running q" and "tq_queue q = a # queue" and "tq_pending q a = Some p"
    and t: "timer_ok (target_execution_time (base_task p))"
  shows "gzochid_schedule_task_executor boot q = Some
    (if due (base_task p) < tq_now q
     then q\<lparr>tq_queue := queue, tq_pool := tq_pool q @ [a], consumer_thread := Some At_Loop\<rparr>
     else q\<lparr>consumer_thread := Some (Cond_Wait_Until (monotonic_time boot (due (base_task p))))\<rparr>)"
proof -
  note sub = timersub_usecs [OF t time_of_day(1) [of "tq_now q"]]
  have "monotonic_time boot (tq_now q) + (tv_sec (timersub (target_execution_time (base_task p)) (time_of_day (tq_now q))) * 1000000 +
      tv_usec (timersub (target_execution_time (base_task p)) (time_of_day (tq_now q)))) = monotonic_time boot (due (base_task p))"
    using sub by (simp add: usecs_def [symmetric] monotonic_time_def)
  then show ?thesis
    using assms by (simp add: gzochid_schedule_task_executor_def timercmp_gt_usecs Let_def)
qed

section \<open>The invariant\<close>

definition schedule_inv :: "int \<Rightarrow> 'f gzochid_task_queue \<Rightarrow> bool" where
  "schedule_inv boot q \<longleftrightarrow>
     distinct (tq_queue q @ tq_pool q @ map fst (tq_executed q))
     \<and> set (tq_queue q @ tq_pool q @ map fst (tq_executed q)) = {..<length (tq_submitted q)}
     \<and> (\<forall>t \<in> set (tq_submitted q). timer_ok (target_execution_time t))
     \<and> (\<forall>a \<in> set (tq_queue q) \<union> set (tq_pool q). \<exists>p. tq_pending q a = Some p \<and> base_task p = tq_submitted q ! a
          \<and> pending_state p = Task_Pending \<and> (destroy_on_execute p \<longleftrightarrow> a \<notin> set (tq_waiting q)))
     \<and> (\<forall>a \<in> set (tq_waiting q). a < length (tq_submitted q) \<and> tq_pending q a \<noteq> None) \<and> distinct (tq_waiting q)
     \<and> sorted_wrt (\<lambda>a b. due (tq_submitted q ! a) \<le> due (tq_submitted q ! b)) (tq_queue q)
     \<and> (\<forall>a \<in> set (tq_pool q). due (tq_submitted q ! a) < tq_now q)
     \<and> (\<forall>(a, n) \<in> set (tq_executed q). due (tq_submitted q ! a) < n \<and> n \<le> tq_now q)
     \<and> tq_calls q = concat (map (\<lambda>(a, n). map (\<lambda>f. (f, n)) (gzochid_schedule_execute_task (tq_submitted q ! a))) (tq_executed q))
     \<and> (consumer_thread q = Some Cond_Wait \<longrightarrow> tq_queue q = [])
     \<and> (\<forall>u a. consumer_thread q = Some (Cond_Wait_Until u) \<longrightarrow> a \<in> set (tq_queue q) \<longrightarrow>
          u \<le> monotonic_time boot (due (tq_submitted q ! a)))
     \<and> (tq_running q \<longleftrightarrow> consumer_thread q \<noteq> None)"

lemma schedule_invD:
  assumes "schedule_inv boot q"
  shows "distinct (tq_queue q @ tq_pool q @ map fst (tq_executed q))"
    and "set (tq_queue q @ tq_pool q @ map fst (tq_executed q)) = {..<length (tq_submitted q)}"
    and "\<forall>t \<in> set (tq_submitted q). timer_ok (target_execution_time t)"
    and "\<forall>a \<in> set (tq_queue q) \<union> set (tq_pool q). \<exists>p. tq_pending q a = Some p \<and> base_task p = tq_submitted q ! a
      \<and> pending_state p = Task_Pending \<and> (destroy_on_execute p \<longleftrightarrow> a \<notin> set (tq_waiting q))"
    and "\<forall>a \<in> set (tq_waiting q). a < length (tq_submitted q) \<and> tq_pending q a \<noteq> None"
    and "distinct (tq_waiting q)"
    and "sorted_wrt (\<lambda>a b. due (tq_submitted q ! a) \<le> due (tq_submitted q ! b)) (tq_queue q)"
    and "\<forall>a \<in> set (tq_pool q). due (tq_submitted q ! a) < tq_now q"
    and "\<forall>(a, n) \<in> set (tq_executed q). due (tq_submitted q ! a) < n \<and> n \<le> tq_now q"
    and "tq_calls q = concat (map (\<lambda>(a, n). map (\<lambda>f. (f, n)) (gzochid_schedule_execute_task (tq_submitted q ! a))) (tq_executed q))"
    and "consumer_thread q = Some Cond_Wait \<longrightarrow> tq_queue q = []"
    and "\<forall>u a. consumer_thread q = Some (Cond_Wait_Until u) \<longrightarrow> a \<in> set (tq_queue q) \<longrightarrow>
      u \<le> monotonic_time boot (due (tq_submitted q ! a))"
    and "tq_running q \<longleftrightarrow> consumer_thread q \<noteq> None"
  using assms unfolding schedule_inv_def apply -
  apply (elim conjE, assumption)+
  done

lemma schedule_invI:
  assumes "distinct (tq_queue q @ tq_pool q @ map fst (tq_executed q))"
    and "set (tq_queue q @ tq_pool q @ map fst (tq_executed q)) = {..<length (tq_submitted q)}"
    and "\<forall>t \<in> set (tq_submitted q). timer_ok (target_execution_time t)"
    and "\<forall>a \<in> set (tq_queue q) \<union> set (tq_pool q). \<exists>p. tq_pending q a = Some p \<and> base_task p = tq_submitted q ! a
      \<and> pending_state p = Task_Pending \<and> (destroy_on_execute p \<longleftrightarrow> a \<notin> set (tq_waiting q))"
    and "\<forall>a \<in> set (tq_waiting q). a < length (tq_submitted q) \<and> tq_pending q a \<noteq> None"
    and "distinct (tq_waiting q)"
    and "sorted_wrt (\<lambda>a b. due (tq_submitted q ! a) \<le> due (tq_submitted q ! b)) (tq_queue q)"
    and "\<forall>a \<in> set (tq_pool q). due (tq_submitted q ! a) < tq_now q"
    and "\<forall>(a, n) \<in> set (tq_executed q). due (tq_submitted q ! a) < n \<and> n \<le> tq_now q"
    and "tq_calls q = concat (map (\<lambda>(a, n). map (\<lambda>f. (f, n)) (gzochid_schedule_execute_task (tq_submitted q ! a))) (tq_executed q))"
    and "consumer_thread q = Some Cond_Wait \<longrightarrow> tq_queue q = []"
    and "\<forall>u a. consumer_thread q = Some (Cond_Wait_Until u) \<longrightarrow> a \<in> set (tq_queue q) \<longrightarrow>
      u \<le> monotonic_time boot (due (tq_submitted q ! a))"
    and "tq_running q \<longleftrightarrow> consumer_thread q \<noteq> None"
  shows "schedule_inv boot q"
  unfolding schedule_inv_def by (intro conjI assms)

lemma inv_new: "schedule_inv boot (gzochid_schedule_task_queue_new n)"
  by (simp add: schedule_inv_def gzochid_schedule_task_queue_new_def)

lemma insert_sorted_due:
  assumes "\<And>y. y \<in> set ys \<Longrightarrow> cmp y x = Some (c y)" and "\<And>y. y \<in> set ys \<Longrightarrow> c y < 0 \<longleftrightarrow> (f y :: int) < f x"
    and "sorted_wrt (\<lambda>a b. f a \<le> f b) ys"
  shows "\<exists>zs. g_queue_insert_sorted cmp x ys = Some zs \<and> set zs = insert x (set ys)
    \<and> (distinct zs \<longleftrightarrow> x \<notin> set ys \<and> distinct ys) \<and> sorted_wrt (\<lambda>a b. f a \<le> f b) zs"
  using assms
proof (induction ys)
  case Nil
  then show ?case by simp
next
  case (Cons y ys)
  show ?case
  proof (cases "c y < 0")
    case True
    obtain zs where "g_queue_insert_sorted cmp x ys = Some zs" "set zs = insert x (set ys)"
      "distinct zs \<longleftrightarrow> x \<notin> set ys \<and> distinct ys" "sorted_wrt (\<lambda>a b. f a \<le> f b) zs"
      using Cons by auto
    moreover have "f y < f x" "y \<noteq> x" using Cons.prems(2) [of y] True by auto
    ultimately show ?thesis using Cons.prems True by auto
  next
    case False
    then have "f x \<le> f y" using Cons.prems(2) [of y] by auto
    then show ?thesis using False Cons.prems by (auto intro: order_trans)
  qed
qed

lemma submit_inv:
  assumes i: "schedule_inv boot q" and t: "timer_ok (target_execution_time t)"
  shows "\<exists>q'. submit_task t d q = Some (q', length (tq_submitted q)) \<and> tq_submitted q' = tq_submitted q @ [t]
    \<and> set (tq_queue q') = insert (length (tq_submitted q)) (set (tq_queue q))
    \<and> schedule_inv boot (if d then q' else q'\<lparr>tq_waiting := length (tq_submitted q) # tq_waiting q'\<rparr>)"
proof -
  let ?n = "length (tq_submitted q)" let ?sub = "tq_submitted q @ [t]"
  let ?pending = "(tq_pending q)(?n \<mapsto> gzochid_pending_task_new t d)"
  note D = schedule_invD [OF i]
  have inset: "set (tq_queue q @ tq_pool q @ map fst (tq_executed q)) = {..<?n}" by (rule D(2))
  then have lt: "a \<in> set (tq_queue q) \<Longrightarrow> a < ?n" "a \<in> set (tq_pool q) \<Longrightarrow> a < ?n"
    "a \<in> fst ` set (tq_executed q) \<Longrightarrow> a < ?n" for a by auto
  have lw: "a \<in> set (tq_waiting q) \<Longrightarrow> a < ?n" for a using D(5) by simp
  have nth: "a < ?n \<Longrightarrow> ?sub ! a = tq_submitted q ! a" for a by (simp add: nth_append)
  have live: "a \<in> set (tq_queue q) \<Longrightarrow> \<exists>p. tq_pending q a = Some p \<and> base_task p = tq_submitted q ! a" for a
    using D(4) by blast
  have ok: "\<forall>t \<in> set ?sub. timer_ok (target_execution_time t)" using D(3) t by simp
  have c1: "compare_pending ?pending a ?n = Some (pending_task_compare (tq_submitted q ! a) t)" if "a \<in> set (tq_queue q)" for a
    using live [OF that] lt(1) [OF that] by (auto simp: compare_pending_def gzochid_pending_task_new_def)
  have c2: "pending_task_compare (tq_submitted q ! a) t < 0 \<longleftrightarrow> due (?sub ! a) < due (?sub ! ?n)" if "a \<in> set (tq_queue q)" for a
    using ok lt(1) [OF that] by (simp add: pending_task_compare_due nth t)
  have c3: "sorted_wrt (\<lambda>a b. due (?sub ! a) \<le> due (?sub ! b)) (tq_queue q)"
    by (rule sorted_wrt_mono_rel [OF _ D(7)]) (simp add: nth lt(1))
  obtain queue where z: "g_queue_insert_sorted (compare_pending ?pending) ?n (tq_queue q) = Some queue"
    "set queue = insert ?n (set (tq_queue q))" "distinct queue \<longleftrightarrow> ?n \<notin> set (tq_queue q) \<and> distinct (tq_queue q)"
    "sorted_wrt (\<lambda>a b. due (?sub ! a) \<le> due (?sub ! b)) queue"
    using insert_sorted_due [where cmp = "compare_pending ?pending" and x = ?n and f = "\<lambda>a. due (?sub ! a)" and c = "\<lambda>a. pending_task_compare (tq_submitted q ! a) t",
      OF c1 c2 c3] by blast
  let ?q' = "signal_consumer (q\<lparr>tq_pending := ?pending, tq_submitted := ?sub, tq_queue := queue\<rparr>)"
  have s: "submit_task t d q = Some (?q', ?n)" using z(1) by (simp add: submit_task_def Let_def)
  have calls: "concat (map (\<lambda>(a, n). map (\<lambda>f. (f, n)) (gzochid_schedule_execute_task (?sub ! a))) es) =
      concat (map (\<lambda>(a, n). map (\<lambda>f. (f, n)) (gzochid_schedule_execute_task (tq_submitted q ! a))) es)"
    if "set es \<subseteq> set (tq_executed q)" for es
    using that
  proof (induction es)
    case (Cons e es)
    then have "fst e < ?n" using lt(3) by auto
    then show ?case using Cons by (simp add: nth case_prod_unfold)
  qed simp
  have set': "set (queue @ tq_pool q @ map fst (tq_executed q)) = {..<length ?sub}"
    using inset z(2) by (auto simp: lessThan_Suc)
  have dist': "distinct (queue @ tq_pool q @ map fst (tq_executed q))"
  proof -
    have "?n \<notin> set (tq_queue q)" "?n \<notin> set (tq_pool q)" "?n \<notin> fst ` set (tq_executed q)" using lt by blast+
    then show ?thesis using D(1) z(2,3) by simp
  qed
  have pend: "\<exists>p. ?pending a = Some p \<and> base_task p = ?sub ! a \<and> pending_state p = Task_Pending
      \<and> (destroy_on_execute p \<longleftrightarrow> a \<notin> set (if d then tq_waiting q else ?n # tq_waiting q))" if "a \<in> set queue \<union> set (tq_pool q)" for a
  proof (cases "a = ?n")
    case True
    then show ?thesis using lw by (auto simp: gzochid_pending_task_new_def)
  next
    case False
    then have "a \<in> set (tq_queue q) \<union> set (tq_pool q)" using that z(2) by auto
    then show ?thesis using D(4) lt False nth [of a] by fastforce
  qed
  have now1: "\<forall>a \<in> set (tq_pool q). due (?sub ! a) < tq_now q" using D(8) lt(2) nth by simp
  have "case e of (a, n) \<Rightarrow> due (?sub ! a) < n \<and> n \<le> tq_now q" if "e \<in> set (tq_executed q)" for e
  proof -
    have "fst e < ?n" using lt(3) that by auto
    then show ?thesis using D(9) that by (cases e) (auto simp: nth)
  qed
  then have now2: "\<forall>(a, n) \<in> set (tq_executed q). due (?sub ! a) < n \<and> n \<le> tq_now q" by blast
  have wait: "\<forall>a \<in> set (tq_waiting q). a < length ?sub \<and> ?pending a \<noteq> None" "?n \<notin> set (tq_waiting q)"
    using D(5) lw by (simp add: less_Suc_eq) (use lw in blast)
  have awake: "map_option (\<lambda>_. At_Loop) c \<noteq> Some Cond_Wait" "map_option (\<lambda>_. At_Loop) c \<noteq> Some (Cond_Wait_Until u)" for c u
    by (cases c; simp)+
  have "schedule_inv boot (if d then ?q' else ?q'\<lparr>tq_waiting := ?n # tq_waiting ?q'\<rparr>)"
  proof (cases d)
    case True
    show ?thesis unfolding if_P [OF True]
      by (rule schedule_invI)
        (use D(6,10,13) ok dist' set' pend [unfolded if_P [OF True]] now1 now2 calls wait z(4) awake True
          in \<open>simp_all add: signal_consumer_def\<close>)
  next
    case False
    show ?thesis unfolding if_not_P [OF False]
      by (rule schedule_invI)
        (use D(6,10,13) ok dist' set' pend [unfolded if_not_P [OF False]] now1 now2 calls wait z(4) awake False
          in \<open>simp_all add: signal_consumer_def\<close>)
  qed
  then show ?thesis using s z(2) by (auto simp: signal_consumer_def)
qed

lemma resume_inv:
  assumes i: "schedule_inv boot q" and a: "a \<in> set (tq_waiting q)" and r: "run_task_resume a q = Some q'"
  shows "schedule_inv boot q'"
proof -
  note D = schedule_invD [OF i]
  obtain p where p: "tq_pending q a = Some p" using r by (auto simp: run_task_resume_def bind_eq_Some_conv)
  show ?thesis
  proof (cases "pending_state p = Task_Pending")
    case True
    then show ?thesis using r p i by (simp add: run_task_resume_def)
  next
    case False
    have q': "q' = q\<lparr>tq_waiting := remove1 a (tq_waiting q), tq_pending := (tq_pending q)(a := None)\<rparr>"
      using r p False by (simp add: run_task_resume_def)
    have "a \<notin> set (tq_queue q) \<union> set (tq_pool q)" using D(4) p False by force
    then have w: "\<forall>b \<in> set (tq_queue q) \<union> set (tq_pool q). b \<noteq> a \<and> (b \<in> set (remove1 a (tq_waiting q)) \<longleftrightarrow> b \<in> set (tq_waiting q))"
      using D(6) by (auto simp: set_remove1_eq)
    have "\<exists>p. tq_pending q' b = Some p \<and> base_task p = tq_submitted q' ! b \<and> pending_state p = Task_Pending
        \<and> (destroy_on_execute p \<longleftrightarrow> b \<notin> set (tq_waiting q'))" if "b \<in> set (tq_queue q') \<union> set (tq_pool q')" for b
      using D(4) w that unfolding q' by simp
    then show ?thesis
      by (intro schedule_invI) (use D(1-3,5-) in \<open>simp_all add: q' set_remove1_eq\<close>)
  qed
qed

lemma consume_inv:
  assumes i: "schedule_inv boot q" and r: "gzochid_schedule_task_executor boot q = Some q'"
  shows "schedule_inv boot q'"
proof -
  note D = schedule_invD [OF i]
  show ?thesis
  proof (cases "tq_running q")
    case False
    then have "q' = q\<lparr>consumer_thread := None\<rparr>" using r by (simp add: gzochid_schedule_task_executor_def)
    then show ?thesis by (intro schedule_invI) (use D False in simp_all)
  next
    case run: True
    show ?thesis
    proof (cases "tq_queue q")
      case Nil
      then have "q' = q\<lparr>consumer_thread := Some Cond_Wait\<rparr>" using r run by (simp add: gzochid_schedule_task_executor_def)
      then show ?thesis by (intro schedule_invI) (use D Nil run in simp_all)
    next
      case (Cons a queue)
      obtain p where p: "tq_pending q a = Some p" "base_task p = tq_submitted q ! a" using D(4) Cons by auto
      have "a < length (tq_submitted q)" using D(2) Cons by auto
      then have "timer_ok (target_execution_time (base_task p))" using D(3) p(2) by simp
      note q' = r [unfolded executor_due [OF run Cons p(1) this]]
      show ?thesis
      proof (cases "due (base_task p) < tq_now q")
        case True
        then have q': "q' = q\<lparr>tq_queue := queue, tq_pool := tq_pool q @ [a], consumer_thread := Some At_Loop\<rparr>" using q' by simp
        have "set (queue @ (tq_pool q @ [a]) @ map fst (tq_executed q)) = set (tq_queue q @ tq_pool q @ map fst (tq_executed q))"
          using Cons by auto
        then have "set (queue @ (tq_pool q @ [a]) @ map fst (tq_executed q)) = {..<length (tq_submitted q)}" using D(2) by simp
        moreover have "distinct (queue @ (tq_pool q @ [a]) @ map fst (tq_executed q))" using D(1) Cons by auto
        moreover have "set queue \<union> set (tq_pool q @ [a]) = set (tq_queue q) \<union> set (tq_pool q)" using Cons by auto
        ultimately show ?thesis
          by (intro schedule_invI) (use D(3-10,13) run True p(2) Cons in \<open>simp_all add: q'\<close>)
      next
        case False
        then have q': "q' = q\<lparr>consumer_thread := Some (Cond_Wait_Until (monotonic_time boot (due (base_task p))))\<rparr>" using q' by simp
        have "due (base_task p) \<le> due (tq_submitted q ! b)" if "b \<in> set (tq_queue q)" for b
          using D(7) that p(2) Cons by auto
        then show ?thesis
          by (intro schedule_invI) (use D(1-10) run in \<open>simp_all add: q' monotonic_time_def\<close>)
      qed
    qed
  qed
qed

lemma execute_inv:
  assumes i: "schedule_inv boot q" and a: "a \<in> set (tq_pool q)"
  shows "\<exists>q'. pending_task_executor a (q\<lparr>tq_pool := remove1 a (tq_pool q)\<rparr>) = Some q' \<and> schedule_inv boot q'"
proof -
  note D = schedule_invD [OF i]
  obtain p where p: "tq_pending q a = Some p" "base_task p = tq_submitted q ! a"
    "destroy_on_execute p \<longleftrightarrow> a \<notin> set (tq_waiting q)" using D(4) a by auto
  define q' where "q' = q\<lparr>tq_pool := remove1 a (tq_pool q),
    tq_calls := tq_calls q @ map (\<lambda>f. (f, tq_now q)) (gzochid_schedule_execute_task (base_task p)),
    tq_executed := tq_executed q @ [(a, tq_now q)],
    tq_pending := (tq_pending q)(a := (if destroy_on_execute p then None else Some (p\<lparr>pending_state := Task_Completed\<rparr>)))\<rparr>"
  have e: "pending_task_executor a (q\<lparr>tq_pool := remove1 a (tq_pool q)\<rparr>) = Some q'"
    using p(1) by (simp add: pending_task_executor_def q'_def Let_def)
  have d: "distinct (tq_pool q)" "a \<notin> set (tq_queue q)" "a \<notin> fst ` set (tq_executed q)" using D(1) a by (auto simp: disjoint_iff)
  then have rm: "set (remove1 a (tq_pool q)) = set (tq_pool q) - {a}" by (simp add: set_remove1_eq)
  have "set (tq_queue q @ remove1 a (tq_pool q) @ map fst (tq_executed q @ [(a, tq_now q)])) =
      set (tq_queue q @ tq_pool q @ map fst (tq_executed q))"
    using a rm by auto
  then have "set (tq_queue q @ remove1 a (tq_pool q) @ map fst (tq_executed q @ [(a, tq_now q)])) = {..<length (tq_submitted q)}"
    using D(2) by simp
  moreover have "distinct (tq_queue q @ remove1 a (tq_pool q) @ map fst (tq_executed q @ [(a, tq_now q)]))"
    using D(1) d rm by (simp add: disjoint_iff)
  moreover have "due (tq_submitted q ! a) < tq_now q" using D(8) a by simp
  moreover have "\<exists>p. tq_pending q' b = Some p \<and> base_task p = tq_submitted q' ! b
      \<and> pending_state p = Task_Pending \<and> (destroy_on_execute p \<longleftrightarrow> b \<notin> set (tq_waiting q'))"
    if b: "b \<in> set (tq_queue q') \<union> set (tq_pool q')" for b
  proof -
    have "b \<noteq> a" "b \<in> set (tq_queue q) \<union> set (tq_pool q)" using b d rm by (auto simp: q'_def)
    then show ?thesis using D(4) by (simp add: q'_def)
  qed
  moreover have "\<forall>b \<in> set (tq_waiting q'). b < length (tq_submitted q') \<and> tq_pending q' b \<noteq> None"
    using D(5) p(3) unfolding q'_def by auto
  ultimately have "schedule_inv boot q'"
    by (intro schedule_invI) (use D(3,6-) p(2) rm in \<open>force simp: q'_def\<close>)+
  with e show ?thesis by blast
qed

lemma tick_inv:
  assumes i: "schedule_inv boot q" and d: "0 < d"
  shows "schedule_inv boot (q\<lparr>tq_now := tq_now q + d\<rparr>)"
proof -
  note D = schedule_invD [OF i]
  show ?thesis by (intro schedule_invI) (use D d in \<open>fastforce+\<close>)
qed

lemma step_inv:
  assumes "schedule_step boot q q'" and i: "schedule_inv boot q"
  shows "schedule_inv boot q'"
  using assms(1)
proof cases
  case (Submit t)
  then show ?thesis using submit_inv [OF i, of t True] by (auto simp: gzochid_schedule_submit_task_def)
next
  case (Submit_Chain ts)
  then show ?thesis using submit_inv [OF i, of "Task (Task_Chain_Worker ts) (target_execution_time (hd ts))" True]
    by (cases ts) (auto simp: gzochid_schedule_submit_task_chain_def gzochid_schedule_submit_task_def)
next
  case (Run_Task t)
  then show ?thesis using submit_inv [OF i, of t False] by (auto simp: run_task_submit_def)
next
  case (Run_Task_Resume a)
  then show ?thesis using resume_inv [OF i] by blast
next
  case Start
  then show ?thesis using i by (simp add: gzochid_schedule_task_queue_start_def schedule_inv_def)
next
  case Stop
  then show ?thesis using i by (simp add: gzochid_schedule_task_queue_stop_def schedule_inv_def)
next
  case Consume
  then show ?thesis using consume_inv [OF i] by blast
next
  case Spurious
  then show ?thesis using i by (simp add: schedule_inv_def)
next
  case (Execute a)
  then show ?thesis using execute_inv [OF i] by force
next
  case (Tick d)
  then show ?thesis using tick_inv [OF i] by simp
qed

lemma reachable_inv:
  assumes "(schedule_step boot)\<^sup>*\<^sup>* (gzochid_schedule_task_queue_new n) q"
  shows "schedule_inv boot q"
  using assms by (induction rule: rtranclp_induct) (auto intro: inv_new step_inv)

section \<open>Every task runs once, and not too early\<close>

text \<open>
  (C12) However the steps of the submitting threads, the consumer and the pool interleave: every task that was
  submitted is either queued, or in the pool, or has been executed, and only once; it was executed after its
  time; the queue holds the tasks in the order of their times; the calls made are those of the executed
  tasks in their order; and no step faults on a freed task. A chain is submitted as one task whose time is that of its first
  member; its members are called one after the other when it is executed, whatever their own times are.
\<close>

theorem tasks_run_once:
  assumes "(schedule_step boot)\<^sup>*\<^sup>* (gzochid_schedule_task_queue_new n) q"
  shows "distinct (tq_queue q @ tq_pool q @ map fst (tq_executed q))
    \<and> set (tq_queue q @ tq_pool q @ map fst (tq_executed q)) = {..<length (tq_submitted q)}
    \<and> (\<forall>(a, t) \<in> set (tq_executed q). due (tq_submitted q ! a) < t)
    \<and> sorted (map (\<lambda>a. due (tq_submitted q ! a)) (tq_queue q))
    \<and> tq_calls q = concat (map (\<lambda>(a, t). map (\<lambda>f. (f, t)) (gzochid_schedule_execute_task (tq_submitted q ! a))) (tq_executed q))
    \<and> (\<forall>a \<in> set (tq_pool q). pending_task_executor a (q\<lparr>tq_pool := remove1 a (tq_pool q)\<rparr>) \<noteq> None)
    \<and> (\<forall>a \<in> set (tq_waiting q). run_task_resume a q \<noteq> None)
    \<and> gzochid_schedule_task_executor boot q \<noteq> None"
proof -
  have i: "schedule_inv boot q" by (rule reachable_inv [OF assms])
  note D = schedule_invD [OF i]
  have "\<forall>(a, t) \<in> set (tq_executed q). due (tq_submitted q ! a) < t" using D(9) by auto
  moreover have "sorted (map (\<lambda>a. due (tq_submitted q ! a)) (tq_queue q))" using D(7) by (simp add: sorted_wrt_map)
  moreover have "pending_task_executor a (q\<lparr>tq_pool := remove1 a (tq_pool q)\<rparr>) \<noteq> None" if "a \<in> set (tq_pool q)" for a
    using execute_inv [OF i that] by auto
  moreover have "run_task_resume a q \<noteq> None" if "a \<in> set (tq_waiting q)" for a
    using D(5) that by (auto simp: run_task_resume_def)
  moreover have "gzochid_schedule_task_executor boot q \<noteq> None"
    using D(4) by (auto simp: gzochid_schedule_task_executor_def Let_def split: list.split)
  ultimately show ?thesis using D(1,2,10) by blast
qed

section \<open>No due task is left waiting\<close>

text \<open>A turn of the consumer thread, unless it has to go on waiting.\<close>

definition consumer_turn :: "int \<Rightarrow> 'f gzochid_task_queue \<Rightarrow> 'f gzochid_task_queue" where
  "consumer_turn boot q = (if wakes_up boot q then the (gzochid_schedule_task_executor boot q) else q)"

lemma awake_when_due:
  assumes i: "schedule_inv boot q" and c: "consumer_thread q \<noteq> None" and a: "a \<in> set (tq_queue q)" "due (tq_submitted q ! a) < tq_now q"
  shows "wakes_up boot q"
proof -
  obtain x where x: "consumer_thread q = Some x" using c by auto
  show ?thesis
  proof (cases x)
    case (Cond_Wait_Until u)
    then have "u \<le> monotonic_time boot (due (tq_submitted q ! a))" using schedule_invD(12) [OF i] x a(1) by blast
    then show ?thesis using x Cond_Wait_Until a(2) by (simp add: wakes_up_def monotonic_time_def)
  qed (use x a(1) schedule_invD(11) [OF i] in \<open>auto simp: wakes_up_def\<close>)
qed

lemma consumer_turn_cases:
  assumes i: "schedule_inv boot q" and c: "consumer_thread q \<noteq> None"
  defines "q' \<equiv> consumer_turn boot q"
  shows "schedule_inv boot q' \<and> consumer_thread q' \<noteq> None \<and> tq_submitted q' = tq_submitted q \<and> tq_now q' = tq_now q
    \<and> (case tq_queue q of
         a # queue \<Rightarrow> if due (tq_submitted q ! a) < tq_now q then tq_queue q' = queue \<and> tq_pool q' = tq_pool q @ [a]
           else tq_queue q' = tq_queue q \<and> tq_pool q' = tq_pool q
       | [] \<Rightarrow> tq_queue q' = [] \<and> tq_pool q' = tq_pool q)"
proof -
  note D = schedule_invD [OF i]
  have run: "tq_running q" using D(13) c by simp
  show ?thesis
  proof (cases "tq_queue q")
    case Nil
    then have e: "gzochid_schedule_task_executor boot q = Some (q\<lparr>consumer_thread := Some Cond_Wait\<rparr>)"
      using run by (simp add: gzochid_schedule_task_executor_def)
    then show ?thesis using consume_inv [OF i e] i c Nil by (simp add: q'_def consumer_turn_def)
  next
    case (Cons a queue)
    obtain p where p: "tq_pending q a = Some p" "base_task p = tq_submitted q ! a" using D(4) Cons by auto
    have "a < length (tq_submitted q)" using D(2) Cons by auto
    then have "timer_ok (target_execution_time (base_task p))" using D(3) p(2) by simp
    note e = executor_due [OF run Cons p(1) this, of boot]
    have "wakes_up boot q" if "due (tq_submitted q ! a) < tq_now q"
      using awake_when_due [OF i c _ that] Cons by simp
    then show ?thesis
      using consume_inv [OF i e] e i c Cons p(2) by (simp add: q'_def consumer_turn_def)
  qed
qed

lemma consumer_turns:
  assumes "schedule_inv boot q" and "consumer_thread q \<noteq> None"
    and "length (filter (\<lambda>a. due (tq_submitted q ! a) < tq_now q) (tq_queue q)) \<le> n"
  shows "tq_pool ((consumer_turn boot ^^ n) q) = tq_pool q @ filter (\<lambda>a. due (tq_submitted q ! a) < tq_now q) (tq_queue q)
    \<and> tq_queue ((consumer_turn boot ^^ n) q) = filter (\<lambda>a. tq_now q \<le> due (tq_submitted q ! a)) (tq_queue q)"
  using assms
proof (induction n arbitrary: q)
  case 0
  then have "filter (\<lambda>a. tq_now q \<le> due (tq_submitted q ! a)) (tq_queue q) = tq_queue q"
    by (simp add: filter_empty_conv filter_id_conv not_less)
  with 0 show ?case by simp
next
  case (Suc n)
  let ?q = "consumer_turn boot q"
  note t = consumer_turn_cases [OF Suc.prems(1,2)]
  then have t1: "schedule_inv boot ?q" "consumer_thread ?q \<noteq> None" "tq_submitted ?q = tq_submitted q" "tq_now ?q = tq_now q" by blast+
  have turn: "(consumer_turn boot ^^ Suc n) q = (consumer_turn boot ^^ n) ?q"
    by (simp only: funpow_Suc_right o_apply)
  show ?case
  proof (cases "\<exists>a queue. tq_queue q = a # queue \<and> due (tq_submitted q ! a) < tq_now q")
    case True
    then obtain a queue where a: "tq_queue q = a # queue" "due (tq_submitted q ! a) < tq_now q" by blast
    then have "tq_queue ?q = queue" "tq_pool ?q = tq_pool q @ [a]" using t by auto
    then show ?thesis using Suc.IH [OF t1(1,2)] t1(3,4) a Suc.prems(3) unfolding turn by simp
  next
    case False
    then have same: "tq_queue ?q = tq_queue q" "tq_pool ?q = tq_pool q" using t by (auto split: list.splits)
    have "filter (\<lambda>a. due (tq_submitted q ! a) < tq_now q) (tq_queue q) = []"
      using False schedule_invD(7) [OF Suc.prems(1)] by (cases "tq_queue q") (auto simp: filter_empty_conv)
    then show ?thesis using Suc.IH [OF t1(1,2)] t1(3,4) same unfolding turn by simp
  qed
qed

text \<open>
  (C21) No wake-up is lost. In every reachable state of a queue that has been started, as many turns of the
  consumer thread as there are due tasks suffice, without any further submission or passing of time, to move
  exactly the due tasks to the pool, in the order of their times; all others stay queued. In
  particular the consumer never sleeps while a task is due.
\<close>

theorem due_tasks_are_fed:
  assumes "(schedule_step boot)\<^sup>*\<^sup>* (gzochid_schedule_task_queue_new n) q" and "consumer_thread q \<noteq> None"
  defines "ready \<equiv> filter (\<lambda>a. due (tq_submitted q ! a) < tq_now q) (tq_queue q)"
  shows "tq_pool ((consumer_turn boot ^^ length ready) q) = tq_pool q @ ready
    \<and> tq_queue ((consumer_turn boot ^^ length ready) q) = filter (\<lambda>a. tq_now q \<le> due (tq_submitted q ! a)) (tq_queue q)
    \<and> (ready \<noteq> [] \<longrightarrow> wakes_up boot q)"
proof -
  have i: "schedule_inv boot q" by (rule reachable_inv [OF assms(1)])
  have "wakes_up boot q" if "ready \<noteq> []"
    using that awake_when_due [OF i assms(2)] by (auto simp: ready_def filter_empty_conv)
  then show ?thesis using consumer_turns [OF i assms(2) order_refl] unfolding ready_def by blast
qed

section \<open>Chains of tasks\<close>

text \<open>A queue that is started, given tasks, and whose clock then runs on.\<close>

definition task_at :: "'f \<Rightarrow> int \<Rightarrow> 'f gzochid_task" where
  "task_at f s = Task (Worker f) \<lparr>tv_sec = s, tv_usec = 0\<rparr>"

definition chain_ready :: "char gzochid_task_queue option" where
  "chain_ready = map_option (\<lambda>q. q\<lparr>tq_now := tq_now q + 2000000\<rparr>)
     (gzochid_schedule_submit_task_chain [task_at CHR ''a'' 1, task_at CHR ''b'' 100]
       (gzochid_schedule_task_queue_start (gzochid_schedule_task_queue_new 0)))"

definition chain_run :: "char gzochid_task_queue option" where
  "chain_run = do {
     q \<leftarrow> chain_ready;
     q \<leftarrow> gzochid_schedule_task_executor 0 q;
     pending_task_executor 0 (q\<lparr>tq_pool := remove1 0 (tq_pool q)\<rparr>)
   }"

lemmas chain_simps = gzochid_schedule_submit_task_chain_def gzochid_schedule_submit_task_def submit_task_def signal_consumer_def
  gzochid_schedule_task_queue_start_def gzochid_schedule_task_queue_new_def task_at_def gzochid_schedule_task_executor_def
  gzochid_pending_task_new_def time_of_day_def timercmp_gt_def pending_task_executor_def Let_def usecs_def

lemma chain_ready_state:
  "\<exists>q. chain_ready = Some q \<and> consumer_thread q = Some At_Loop \<and> tq_queue q = [0] \<and> tq_pool q = [] \<and> tq_now q = 2000000
    \<and> due (tq_submitted q ! 0) = 1000000"
  unfolding chain_ready_def by (simp add: chain_simps)

lemma chain_run_state:
  "\<exists>q. chain_run = Some q \<and> tq_executed q = [(0, 2000000)] \<and> tq_calls q = [(CHR ''a'', 2000000), (CHR ''b'', 2000000)]
    \<and> map task_worker (tq_submitted q) = [Task_Chain_Worker [task_at CHR ''a'' 1, task_at CHR ''b'' 100]]"
  unfolding chain_run_def chain_ready_def by (simp add: chain_simps)

lemma chain_ready_reachable:
  assumes "chain_ready = Some q"
  shows "(schedule_step 0)\<^sup>*\<^sup>* (gzochid_schedule_task_queue_new 0) q"
proof -
  let ?q0 = "gzochid_schedule_task_queue_start (gzochid_schedule_task_queue_new 0)"
  obtain q1 where q1: "gzochid_schedule_submit_task_chain [task_at CHR ''a'' 1, task_at CHR ''b'' 100] ?q0 = Some q1"
    "q = q1\<lparr>tq_now := tq_now q1 + 2000000\<rparr>"
    using assms by (auto simp: chain_ready_def)
  have ok: "\<forall>t \<in> set [task_at CHR ''a'' 1, task_at CHR ''b'' 100]. timer_ok (target_execution_time t)"
    by (simp add: task_at_def timer_ok_def)
  have "schedule_step 0 q1 q" using schedule_step.Tick [of 2000000 0 q1] q1(2) by simp
  then show ?thesis
    using schedule_step.Start [of 0 "gzochid_schedule_task_queue_new 0"] schedule_step.Submit_Chain [OF ok q1(1), of 0]
    by (meson converse_rtranclp_into_rtranclp rtranclp.rtrancl_refl)
qed

lemma chain_run_reachable:
  assumes "chain_run = Some q"
  shows "(schedule_step 0)\<^sup>*\<^sup>* (gzochid_schedule_task_queue_new 0) q"
proof -
  obtain q1 q2 where q: "chain_ready = Some q1" "gzochid_schedule_task_executor 0 q1 = Some q2"
    "pending_task_executor 0 (q2\<lparr>tq_pool := remove1 0 (tq_pool q2)\<rparr>) = Some q"
    using assms unfolding chain_run_def bind_eq_Some_conv by blast
  have w: "wakes_up 0 q1" using chain_ready_state unfolding q(1) by (auto simp: wakes_up_def)
  have "0 \<in> set (tq_pool q2)" using q(1,2) unfolding chain_ready_def by (auto simp: chain_simps)
  from schedule_step.Execute [OF this q(3), of 0] show ?thesis
    by (meson chain_ready_reachable q(1) rtranclp.rtrancl_into_rtrancl schedule_step.Consume [OF w q(2)])
qed

theorem tasks_run_once_witness:
  "\<exists>q. chain_run = Some q \<and> tq_executed q = [(0, 2000000)] \<and> due (tq_submitted q ! 0) < 2000000"
  using chain_run_state tasks_run_once [OF chain_run_reachable] by fastforce

theorem due_tasks_are_fed_witness:
  "\<exists>q. chain_ready = Some q \<and> tq_pool q = [] \<and> tq_pool (consumer_turn 0 q) = [0] \<and> tq_queue (consumer_turn 0 q) = []"
proof -
  obtain q where q: "chain_ready = Some q" "consumer_thread q = Some At_Loop" "tq_queue q = [0]" "tq_pool q = []"
    "tq_now q = 2000000" "due (tq_submitted q ! 0) = 1000000"
    using chain_ready_state by blast
  have "filter (\<lambda>a. due (tq_submitted q ! a) < tq_now q) (tq_queue q) = [0]"
    "filter (\<lambda>a. tq_now q \<le> due (tq_submitted q ! a)) (tq_queue q) = []" using q by simp_all
  then have "tq_pool (consumer_turn 0 q) = [0]" "tq_queue (consumer_turn 0 q) = []"
    using due_tasks_are_fed [OF chain_ready_reachable [OF q(1)]] q(2,4) by simp_all
  then show ?thesis using q by blast
qed

text \<open>
  The tasks of a chain are executed one after the other as soon as the first one is due: a task
  can be executed long before its own time.
\<close>

theorem chain_runs_early:
  "\<exists>q. (schedule_step 0)\<^sup>*\<^sup>* (gzochid_schedule_task_queue_new 0) q
    \<and> map task_worker (tq_submitted q) = [Task_Chain_Worker [task_at CHR ''a'' 1, task_at CHR ''b'' 100]]
    \<and> (CHR ''b'', 2000000) \<in> set (tq_calls q) \<and> due (task_at CHR ''b'' 100) = 100000000"
  using chain_run_state chain_run_reachable by (fastforce simp: task_at_def usecs_def)

end
