(* ===== verification/Fsm.thy ===== *)
theory Fsm
  imports Tx
begin

text \<open>
  The finite state machines of \<open>gzochi-server/src/fsm.c\<close> that the components of the server are started
  and stopped with. Functions registered for entering and leaving a state are called with the
  machine locked by a recursive mutex; what they do to the machine in turn (request another state,
  register a function) is part of what the handler of the model returns, besides its effect on
  a world \<open>'w\<close>. A failed assertion ends the program; a machine whose handlers request new states
  forever does not return. Both are \<open>None\<close>.

  The requests and the states entered are recorded in the order in which they happen.
\<close>

section \<open>State\<close>

record 'f gzochid_fsm_state =
  enter_functions :: "'f list"
  exit_functions :: "'f list"

record 'f gzochid_fsm =
  fsm_states :: "int \<rightharpoonup> 'f gzochid_fsm_state"
  fsm_transitions :: "int \<Rightarrow> int list"
  pending_states :: "int list"
  current_state :: int
  fsm_started :: bool
  fsm_requests :: "int list"
  fsm_entered :: "int list"

datatype 'f fsm_call = To_State int | On_Enter int 'f | On_Exit int 'f

type_synonym ('f, 'w) fsm_handler = "'f \<Rightarrow> int \<Rightarrow> int \<Rightarrow> 'w \<Rightarrow> 'w \<times> 'f fsm_call list"

section \<open>Operations\<close>

definition gzochid_fsm_state_new :: "'f gzochid_fsm_state" where
  "gzochid_fsm_state_new = \<lparr>enter_functions = [], exit_functions = []\<rparr>"

definition gzochid_fsm_new :: "int \<Rightarrow> 'f gzochid_fsm" where
  "gzochid_fsm_new state = \<lparr>fsm_states = [state \<mapsto> gzochid_fsm_state_new], fsm_transitions = (\<lambda>_. []), pending_states = [],
     current_state = state, fsm_started = False, fsm_requests = [], fsm_entered = []\<rparr>"

text \<open>
  The table of states keeps the key it has when a state is added again, and this key lies inside of the
  structure of the old state, which is freed.
\<close>

definition gzochid_fsm_add_state :: "int \<Rightarrow> 'f gzochid_fsm \<Rightarrow> 'f gzochid_fsm option" where
  "gzochid_fsm_add_state state fsm =
     (if fsm_started fsm \<or> fsm_states fsm state \<noteq> None then None
      else Some (fsm\<lparr>fsm_states := (fsm_states fsm)(state \<mapsto> gzochid_fsm_state_new)\<rparr>))"

definition gzochid_fsm_add_transition :: "int \<Rightarrow> int \<Rightarrow> 'f gzochid_fsm \<Rightarrow> 'f gzochid_fsm option" where
  "gzochid_fsm_add_transition from_state to_state fsm =
     (if fsm_started fsm \<or> fsm_states fsm from_state = None \<or> fsm_states fsm to_state = None then None
      else Some (fsm\<lparr>fsm_transitions := (fsm_transitions fsm)(from_state := fsm_transitions fsm from_state @ [to_state])\<rparr>))"

definition gzochid_fsm_on_enter :: "int \<Rightarrow> 'f \<Rightarrow> 'f gzochid_fsm \<Rightarrow> 'f gzochid_fsm option" where
  "gzochid_fsm_on_enter state f fsm = do {
     s \<leftarrow> fsm_states fsm state;
     Some (fsm\<lparr>fsm_states := (fsm_states fsm)(state \<mapsto> s\<lparr>enter_functions := enter_functions s @ [f]\<rparr>)\<rparr>)
   }"

definition gzochid_fsm_on_exit :: "int \<Rightarrow> 'f \<Rightarrow> 'f gzochid_fsm \<Rightarrow> 'f gzochid_fsm option" where
  "gzochid_fsm_on_exit state f fsm = do {
     s \<leftarrow> fsm_states fsm state;
     Some (fsm\<lparr>fsm_states := (fsm_states fsm)(state \<mapsto> s\<lparr>exit_functions := exit_functions s @ [f]\<rparr>)\<rparr>)
   }"

text \<open>A request of a state while another request is being served only joins the queue.\<close>

definition request_state :: "int \<Rightarrow> 'f gzochid_fsm \<Rightarrow> 'f gzochid_fsm option" where
  "request_state state fsm =
     (if fsm_started fsm
      then Some (fsm\<lparr>pending_states := pending_states fsm @ [state], fsm_requests := fsm_requests fsm @ [state]\<rparr>) else None)"

fun handler_call :: "'f fsm_call \<Rightarrow> 'f gzochid_fsm \<Rightarrow> 'f gzochid_fsm option" where
  "handler_call (To_State s) fsm = request_state s fsm"
| "handler_call (On_Enter s f) fsm = gzochid_fsm_on_enter s f fsm"
| "handler_call (On_Exit s f) fsm = gzochid_fsm_on_exit s f fsm"

fun handler_calls :: "'f fsm_call list \<Rightarrow> 'f gzochid_fsm \<Rightarrow> 'f gzochid_fsm option" where
  "handler_calls [] fsm = Some fsm"
| "handler_calls (c # cs) fsm = Option.bind (handler_call c fsm) (handler_calls cs)"

fun call_functions ::
    "('f, 'w) fsm_handler \<Rightarrow> 'f list \<Rightarrow> int \<Rightarrow> int \<Rightarrow> 'f gzochid_fsm \<times> 'w \<Rightarrow> ('f gzochid_fsm \<times> 'w) option" where
  "call_functions h [] a b (fsm, w) = Some (fsm, w)"
| "call_functions h (f # fs) a b (fsm, w) = do {
     let (w, cs) = h f a b w;
     fsm \<leftarrow> handler_calls cs fsm;
     call_functions h fs a b (fsm, w)
   }"

text \<open>The functions for leaving are copied before they are called, those for entering after that.\<close>

definition to_state :: "('f, 'w) fsm_handler \<Rightarrow> int \<Rightarrow> 'f gzochid_fsm \<times> 'w \<Rightarrow> ('f gzochid_fsm \<times> 'w) option" where
  "to_state h state = (\<lambda>(fsm, w).
     let old = current_state fsm
     in if old = state then None
        else do {
          old_state \<leftarrow> fsm_states fsm old;
          _ \<leftarrow> fsm_states fsm state;
          if state \<notin> set (fsm_transitions fsm old) then None
          else do {
            (fsm, w) \<leftarrow> call_functions h (exit_functions old_state) old state (fsm, w);
            new_state \<leftarrow> fsm_states fsm state;
            (fsm, w) \<leftarrow> call_functions h (enter_functions new_state) old state (fsm, w);
            Some (fsm\<lparr>current_state := state, fsm_entered := fsm_entered fsm @ [state]\<rparr>, w)
          }
        })"

partial_function (option) serve_pending ::
    "('f, 'w) fsm_handler \<Rightarrow> 'f gzochid_fsm \<times> 'w \<Rightarrow> ('f gzochid_fsm \<times> 'w) option" where
  "serve_pending h s =
     (case pending_states (fst s) of
        [] \<Rightarrow> Some s
      | state # _ \<Rightarrow> do {
          (fsm, w) \<leftarrow> (if state \<noteq> current_state (fst s) then to_state h state s else Some s);
          serve_pending h (fsm\<lparr>pending_states := tl (pending_states fsm)\<rparr>, w)
        })"

definition gzochid_fsm_to_state :: "('f, 'w) fsm_handler \<Rightarrow> int \<Rightarrow> 'f gzochid_fsm \<times> 'w \<Rightarrow> ('f gzochid_fsm \<times> 'w) option" where
  "gzochid_fsm_to_state h state = (\<lambda>(fsm, w). do {
     let reentering = (pending_states fsm \<noteq> []);
     fsm \<leftarrow> request_state state fsm;
     if reentering then Some (fsm, w) else serve_pending h (fsm, w)
   })"

text \<open>
  While the initial state is entered the queue holds a placeholder (bytes of a pointer), which is
  removed afterwards without a look at it.
\<close>

definition gzochid_fsm_start :: "('f, 'w) fsm_handler \<Rightarrow> int \<Rightarrow> 'f gzochid_fsm \<times> 'w \<Rightarrow> ('f gzochid_fsm \<times> 'w) option" where
  "gzochid_fsm_start h placeholder = (\<lambda>(fsm, w). do {
     state \<leftarrow> fsm_states fsm (current_state fsm);
     if fsm_started fsm then None
     else do {
       let fsm = fsm\<lparr>fsm_started := True, pending_states := pending_states fsm @ [placeholder]\<rparr>;
       (fsm, w) \<leftarrow> call_functions h (enter_functions state) (current_state fsm) (current_state fsm) (fsm, w);
       serve_pending h (fsm\<lparr>pending_states := tl (pending_states fsm)\<rparr>, w)
     }
   })"

section \<open>What handlers leave alone\<close>

definition handled :: "'f gzochid_fsm \<Rightarrow> 'f gzochid_fsm \<Rightarrow> bool" where
  "handled fsm fsm' \<longleftrightarrow> (\<exists>rs. pending_states fsm' = pending_states fsm @ rs \<and> fsm_requests fsm' = fsm_requests fsm @ rs)
     \<and> current_state fsm' = current_state fsm \<and> fsm_started fsm' = fsm_started fsm \<and> fsm_entered fsm' = fsm_entered fsm
     \<and> fsm_transitions fsm' = fsm_transitions fsm \<and> dom (fsm_states fsm') = dom (fsm_states fsm)"

lemma handled_refl: "handled fsm fsm"
  by (simp add: handled_def)

lemma handled_trans: "handled a b \<Longrightarrow> handled b c \<Longrightarrow> handled a c"
  by (auto simp: handled_def)

lemma handler_call_handled: "handler_call c fsm = Some fsm' \<Longrightarrow> handled fsm fsm'"
  by (cases c)
    (auto simp: request_state_def gzochid_fsm_on_enter_def gzochid_fsm_on_exit_def handled_def bind_eq_Some_conv split: if_splits)

lemma handler_calls_handled: "handler_calls cs fsm = Some fsm' \<Longrightarrow> handled fsm fsm'"
  by (induction cs arbitrary: fsm) (auto simp: bind_eq_Some_conv handled_refl intro: handled_trans handler_call_handled)

lemma call_functions_handled:
  "call_functions h fs a b (fsm, w) = Some (fsm', w') \<Longrightarrow> handled fsm fsm'"
  by (induction fs arbitrary: fsm w)
    (auto simp: bind_eq_Some_conv handled_refl Let_def split: prod.splits intro: handled_trans handler_calls_handled)

lemma to_state_spec:
  assumes "to_state h s (fsm, w) = Some (fsm', w')"
  shows "s \<in> set (fsm_transitions fsm (current_state fsm)) \<and> s \<noteq> current_state fsm \<and> s \<in> dom (fsm_states fsm)
    \<and> current_state fsm' = s \<and> fsm_entered fsm' = fsm_entered fsm @ [s] \<and> fsm_transitions fsm' = fsm_transitions fsm
    \<and> fsm_started fsm' = fsm_started fsm \<and> dom (fsm_states fsm') = dom (fsm_states fsm)
    \<and> (\<exists>rs. pending_states fsm' = pending_states fsm @ rs \<and> fsm_requests fsm' = fsm_requests fsm @ rs)"
proof -
  have ne: "current_state fsm \<noteq> s" "s \<in> dom (fsm_states fsm)" "s \<in> set (fsm_transitions fsm (current_state fsm))"
    using assms by (auto simp: to_state_def Let_def bind_eq_Some_conv split: if_splits)
  then obtain es ns f1 w1 f2 where c: "call_functions h es (current_state fsm) s (fsm, w) = Some (f1, w1)"
      "call_functions h ns (current_state fsm) s (f1, w1) = Some (f2, w')"
    and f: "f2\<lparr>current_state := s, fsm_entered := fsm_entered f2 @ [s]\<rparr> = fsm'"
    using assms by (simp add: to_state_def Let_def bind_eq_Some_conv) blast
  have "handled fsm f2"
    using call_functions_handled [OF c(1)] call_functions_handled [OF c(2)] by (rule handled_trans)
  then show ?thesis using ne unfolding f [symmetric] handled_def by simp
qed

section \<open>Requests are served in order\<close>

text \<open>The states a machine goes through when it is asked for a sequence of states.\<close>

fun settle :: "int \<Rightarrow> int list \<Rightarrow> int list" where
  "settle s [] = []"
| "settle s (r # rs) = (if r = s then settle s rs else r # settle r rs)"

fun path :: "(int \<Rightarrow> int list) \<Rightarrow> int \<Rightarrow> int list \<Rightarrow> bool" where
  "path tr s [] \<longleftrightarrow> True"
| "path tr s (r # rs) \<longleftrightarrow> r \<in> set (tr s) \<and> path tr r rs"

lemma settle_append: "settle s (rs @ qs) = settle s rs @ settle (last (s # settle s rs)) qs"
  by (induction rs arbitrary: s) auto

lemma path_append: "path tr s (rs @ qs) \<longleftrightarrow> path tr s rs \<and> path tr (last (s # rs)) qs"
  by (induction rs arbitrary: s) auto

text \<open>
  Up to the pending ones, the requests made since the machine was in state \<open>s\<close> have been served, in
  order and along transitions.
\<close>

definition fsm_inv :: "int \<Rightarrow> 'f gzochid_fsm \<Rightarrow> bool" where
  "fsm_inv s fsm \<longleftrightarrow> (\<exists>served. fsm_requests fsm = served @ pending_states fsm \<and> fsm_entered fsm = settle s served)
     \<and> path (fsm_transitions fsm) s (fsm_entered fsm) \<and> current_state fsm = last (s # fsm_entered fsm)
     \<and> current_state fsm \<in> dom (fsm_states fsm)"

lemma served:
  assumes i: "fsm_inv s fsm" and p: "pending_states fsm = r # rs"
    and t: "(if r \<noteq> current_state fsm then to_state h r (fsm, w) else Some (fsm, w)) = Some (fsm1, w1)"
  shows "fsm_inv s (fsm1\<lparr>pending_states := tl (pending_states fsm1)\<rparr>) \<and> fsm_transitions fsm1 = fsm_transitions fsm
    \<and> fsm_started fsm1 = fsm_started fsm \<and> (\<exists>qs. fsm_requests fsm1 = fsm_requests fsm @ qs)"
proof -
  obtain ds where d: "fsm_requests fsm = ds @ r # rs" "fsm_entered fsm = settle s ds"
    using i p by (auto simp: fsm_inv_def)
  have cur: "current_state fsm = last (s # settle s ds)" using i d by (simp add: fsm_inv_def)
  show ?thesis
  proof (cases "r = current_state fsm")
    case True
    then have "settle s (ds @ [r]) = settle s ds" using cur by (simp add: settle_append)
    then show ?thesis
      using True t i p d by (auto simp: fsm_inv_def intro!: exI [of _ "ds @ [r]"])
  next
    case False
    note ts = to_state_spec [of h r fsm w fsm1 w1]
    have st: "settle s (ds @ [r]) = settle s ds @ [r]" using False cur by (simp add: settle_append)
    obtain qs where q: "pending_states fsm1 = r # rs @ qs" "fsm_requests fsm1 = (ds @ [r]) @ rs @ qs"
      using ts t False p d(1) by auto
    have "fsm_inv s (fsm1\<lparr>pending_states := tl (pending_states fsm1)\<rparr>)"
      using ts t False i d(2) st q unfolding fsm_inv_def by (auto simp: path_append intro!: exI [of _ "ds @ [r]"])
    then show ?thesis using ts t False by auto
  qed
qed

lemma serve_pending_inv:
  assumes "serve_pending h x = Some y" and "fsm_inv s (fst x)"
  shows "fsm_inv s (fst y) \<and> pending_states (fst y) = [] \<and> fsm_transitions (fst y) = fsm_transitions (fst x)
    \<and> fsm_started (fst y) = fsm_started (fst x) \<and> (\<exists>rs. fsm_requests (fst y) = fsm_requests (fst x) @ rs)"
  using assms
proof (induction rule: serve_pending.raw_induct [rotated, consumes 1, case_names serve])
  case (serve serve h x y)
  show ?case
  proof (cases "pending_states (fst x)")
    case Nil
    then show ?thesis using serve by auto
  next
    case (Cons r rs)
    obtain fsm w where x: "x = (fsm, w)" by fastforce
    obtain fsm1 w1 where t: "(if r \<noteq> current_state fsm then to_state h r (fsm, w) else Some (fsm, w)) = Some (fsm1, w1)"
      and c: "serve h (fsm1\<lparr>pending_states := tl (pending_states fsm1)\<rparr>, w1) = Some y"
      using serve(2) Cons x by (auto simp: bind_eq_Some_conv)
    have i: "fsm_inv s fsm" using serve(3) x by simp
    note s = served [OF i _ t]
    then show ?thesis using serve(1) [OF c] Cons x by fastforce
  qed
qed

lemma fsm_inv_request:
  "fsm_inv s fsm \<Longrightarrow> request_state r fsm = Some fsm' \<Longrightarrow>
    fsm_inv s fsm' \<and> fsm_transitions fsm' = fsm_transitions fsm \<and> fsm_requests fsm' = fsm_requests fsm @ [r]"
  by (auto simp: fsm_inv_def request_state_def split: if_splits)

lemma fsm_inv_handled: "fsm_inv s fsm \<Longrightarrow> handled fsm fsm' \<Longrightarrow> fsm_inv s fsm'"
  by (auto simp: fsm_inv_def handled_def)

section \<open>Runs of a machine\<close>

text \<open>A machine is set up, started, and then asked for states, from outside of its handlers.\<close>

inductive fsm_run :: "('f, 'w) fsm_handler \<Rightarrow> 'f gzochid_fsm \<times> 'w \<Rightarrow> 'f gzochid_fsm \<times> 'w \<Rightarrow> bool" for h where
  Started: "gzochid_fsm_start h placeholder x = Some y \<Longrightarrow> fsm_run h x y"
| Moved: "fsm_run h x y \<Longrightarrow> gzochid_fsm_to_state h state y = Some z \<Longrightarrow> fsm_run h x z"
| Registered_Enter: "fsm_run h x (fsm, w) \<Longrightarrow> gzochid_fsm_on_enter s f fsm = Some fsm' \<Longrightarrow> fsm_run h x (fsm', w)"
| Registered_Exit: "fsm_run h x (fsm, w) \<Longrightarrow> gzochid_fsm_on_exit s f fsm = Some fsm' \<Longrightarrow> fsm_run h x (fsm', w)"

lemma fsm_start_inv:
  assumes s: "gzochid_fsm_start h placeholder (fsm, w) = Some y"
    and new: "pending_states fsm = []" "fsm_requests fsm = []" "fsm_entered fsm = []"
  shows "fsm_inv (current_state fsm) (fst y) \<and> pending_states (fst y) = [] \<and> fsm_transitions (fst y) = fsm_transitions fsm
    \<and> fsm_started (fst y)"
proof -
  let ?f0 = "fsm\<lparr>fsm_started := True, pending_states := [placeholder]\<rparr>"
  obtain fs f1 w1 where st: "current_state fsm \<in> dom (fsm_states fsm)"
    and c: "call_functions h fs (current_state fsm) (current_state fsm) (?f0, w) = Some (f1, w1)"
    and r: "serve_pending h (f1\<lparr>pending_states := tl (pending_states f1)\<rparr>, w1) = Some y"
    using s new(1) by (auto simp: gzochid_fsm_start_def bind_eq_Some_conv Let_def split: if_splits)
  have ha: "handled ?f0 f1" by (rule call_functions_handled [OF c])
  then have "fsm_inv (current_state fsm) (f1\<lparr>pending_states := tl (pending_states f1)\<rparr>)"
    using new st by (auto simp: handled_def fsm_inv_def)
  from serve_pending_inv [OF r, of "current_state fsm"] this show ?thesis using ha by (auto simp: handled_def)
qed

lemma run_inv:
  assumes "fsm_run h x y" and "pending_states (fst x) = []" "fsm_requests (fst x) = []" "fsm_entered (fst x) = []"
  shows "fsm_inv (current_state (fst x)) (fst y) \<and> pending_states (fst y) = [] \<and> fsm_transitions (fst y) = fsm_transitions (fst x)"
  using assms
proof (induction rule: fsm_run.induct)
  case (Started placeholder x y)
  then show ?case using fsm_start_inv [of h placeholder "fst x" "snd x" y] by simp
next
  case (Moved x y state z)
  obtain fsm w where y: "y = (fsm, w)" by fastforce
  obtain fsm1 where q: "request_state state fsm = Some fsm1" and r: "serve_pending h (fsm1, w) = Some z"
    using Moved y by (auto simp: gzochid_fsm_to_state_def bind_eq_Some_conv Let_def)
  have i: "fsm_inv (current_state (fst x)) fsm" using Moved y by simp
  show ?case using fsm_inv_request [OF i q] serve_pending_inv [OF r, of "current_state (fst x)"] Moved y by simp
next
  case (Registered_Enter x fsm w s f fsm')
  then have "handled fsm fsm'" "pending_states fsm' = pending_states fsm"
    using handler_call_handled [of "On_Enter s f"] by (auto simp: gzochid_fsm_on_enter_def bind_eq_Some_conv)
  then show ?case using Registered_Enter fsm_inv_handled [of _ fsm fsm'] by (simp add: handled_def)
next
  case (Registered_Exit x fsm w s f fsm')
  then have "handled fsm fsm'" "pending_states fsm' = pending_states fsm"
    using handler_call_handled [of "On_Exit s f"] by (auto simp: gzochid_fsm_on_exit_def bind_eq_Some_conv)
  then show ?case using Registered_Exit fsm_inv_handled [of _ fsm fsm'] by (simp add: handled_def)
qed

text \<open>
  State machines serve requests in order. Whenever a call to start a machine or to change its state
  returns, to whatever extent its handlers have requested further states meanwhile, no request is
  pending; the states entered since the start are those requested, in the order of the requests, without the
  requests for the state the machine was in by then; every one was entered by a declared transition;
  and the machine is in the last of them.
\<close>

theorem fsm_serves_in_order:
  assumes "fsm_run h (fsm0, w0) (fsm, w)" and "pending_states fsm0 = []" and "fsm_requests fsm0 = []" and "fsm_entered fsm0 = []"
  shows "pending_states fsm = [] \<and> fsm_entered fsm = settle (current_state fsm0) (fsm_requests fsm)
    \<and> path (fsm_transitions fsm0) (current_state fsm0) (fsm_entered fsm)
    \<and> current_state fsm = last (current_state fsm0 # fsm_entered fsm)"
  using run_inv [OF assms(1)] assms(2-) by (auto simp: fsm_inv_def)

lemma call_functions_plain:
  assumes "\<And>f a b w. snd (h f a b w) = []"
  shows "\<exists>w'. call_functions h fs a b (fsm, w) = Some (fsm, w')"
  using assms by (induction fs arbitrary: w) (auto simp: Let_def case_prod_unfold)

text \<open>
  A change of state returns when it may. If the handlers make no calls of their own on the machine, then
  asking an idle machine for a state returns exactly when it is in that state already or the
  state is declared and there is a transition to it; otherwise an assertion fails.
\<close>

theorem fsm_change_returns:
  assumes plain: "\<And>f a b w. snd (h f a b w) = []" and "fsm_started fsm" and "pending_states fsm = []"
    and cur: "current_state fsm \<in> dom (fsm_states fsm)"
  shows "gzochid_fsm_to_state h s (fsm, w) \<noteq> None \<longleftrightarrow>
    s = current_state fsm \<or> s \<in> dom (fsm_states fsm) \<and> s \<in> set (fsm_transitions fsm (current_state fsm))"
proof -
  let ?f = "fsm\<lparr>pending_states := [s], fsm_requests := fsm_requests fsm @ [s]\<rparr>"
  obtain o1 where o1: "fsm_states fsm (current_state fsm) = Some o1" using cur by auto
  have to: "to_state h s (?f, w) = None" if "s \<noteq> current_state fsm" "\<not> (s \<in> dom (fsm_states fsm) \<and> s \<in> set (fsm_transitions fsm (current_state fsm)))"
    using that by (auto simp: to_state_def Let_def bind_eq_None_conv domIff)
  have ok: "\<exists>w'. to_state h s (?f, w) = Some (?f\<lparr>current_state := s, fsm_entered := fsm_entered fsm @ [s]\<rparr>, w')"
    if a: "s \<noteq> current_state fsm" "s \<in> dom (fsm_states fsm)" "s \<in> set (fsm_transitions fsm (current_state fsm))"
  proof -
    obtain n1 where n1: "fsm_states fsm s = Some n1" using a(2) by auto
    obtain w1 where w1: "call_functions h (exit_functions o1) (current_state fsm) s (?f, w) = Some (?f, w1)"
      using call_functions_plain [of h, OF plain] by blast
    obtain w2 where "call_functions h (enter_functions n1) (current_state fsm) s (?f, w1) = Some (?f, w2)"
      using call_functions_plain [of h, OF plain] by blast
    then show ?thesis using a o1 n1 w1 by (simp add: to_state_def Let_def)
  qed
  have done1: "serve_pending h (f, v) = Some (f, v)" if "pending_states f = []" for f v
    using that by (simp add: serve_pending.simps)
  have "gzochid_fsm_to_state h s (fsm, w) = serve_pending h (?f, w)"
    using assms(2,3) by (simp add: gzochid_fsm_to_state_def request_state_def)
  also have "\<dots> = Option.bind (if s \<noteq> current_state fsm then to_state h s (?f, w) else Some (?f, w))
      (\<lambda>(f, v). serve_pending h (f\<lparr>pending_states := tl (pending_states f)\<rparr>, v))"
    by (subst serve_pending.simps) simp
  finally have e: "gzochid_fsm_to_state h s (fsm, w) = \<dots>" .
  show ?thesis
  proof (cases "s = current_state fsm")
    case True
    then show ?thesis using done1 unfolding e by simp
  next
    case ne: False
    show ?thesis
    proof (cases "s \<in> dom (fsm_states fsm) \<and> s \<in> set (fsm_transitions fsm (current_state fsm))")
      case True
      then obtain w' where "to_state h s (?f, w) = Some (?f\<lparr>current_state := s, fsm_entered := fsm_entered fsm @ [s]\<rparr>, w')"
        using ok ne by blast
      then show ?thesis using done1 ne True by (simp add: e)
    next
      case False
      then show ?thesis using to [OF ne False] ne by (simp add: e)
    qed
  qed
qed

text \<open>
  An administration server as in \<open>admin.c\<close>: it moves on to the running state (1) while it enters the initial
  one (0), and is then stopped (2).
\<close>

definition admin_fsm :: "bool gzochid_fsm" where
  "admin_fsm = the (do {
     fsm \<leftarrow> gzochid_fsm_add_state 1 (gzochid_fsm_new 0);
     fsm \<leftarrow> gzochid_fsm_add_state 2 fsm;
     fsm \<leftarrow> gzochid_fsm_add_transition 0 1 fsm;
     fsm \<leftarrow> gzochid_fsm_add_transition 1 2 fsm;
     gzochid_fsm_on_enter 0 True fsm
   })"

definition admin_handler :: "(bool, unit) fsm_handler" where
  "admin_handler f a b w = (w, if f then [To_State 1] else [])"

lemmas fsm_simps = gzochid_fsm_add_state_def gzochid_fsm_new_def gzochid_fsm_add_transition_def gzochid_fsm_on_enter_def
  gzochid_fsm_state_new_def gzochid_fsm_start_def gzochid_fsm_to_state_def to_state_def request_state_def serve_pending.simps Let_def

lemma admin_started: "\<exists>fsm. gzochid_fsm_start admin_handler 77 (admin_fsm, ()) = Some (fsm, ()) \<and> current_state fsm = 1 \<and>
   fsm_entered fsm = [1]"
  by (simp add: admin_fsm_def admin_handler_def fsm_simps)

theorem fsm_serves_in_order_witness:
  "\<exists>fsm fsm'. gzochid_fsm_start admin_handler 77 (admin_fsm, ()) = Some (fsm, ())
    \<and> gzochid_fsm_to_state admin_handler 2 (fsm, ()) = Some (fsm', ())
    \<and> fsm_requests fsm' = [1, 2] \<and> fsm_entered fsm' = settle 0 [1, 2]"
proof -
  obtain fsm fsm' where f: "gzochid_fsm_start admin_handler 77 (admin_fsm, ()) = Some (fsm, ())"
    "gzochid_fsm_to_state admin_handler 2 (fsm, ()) = Some (fsm', ())" "fsm_requests fsm' = [1, 2]"
    by (simp add: admin_fsm_def admin_handler_def fsm_simps)
  have n: "current_state admin_fsm = 0" "pending_states admin_fsm = []" "fsm_requests admin_fsm = []" "fsm_entered admin_fsm = []"
    by (simp_all add: admin_fsm_def fsm_simps)
  have "fsm_run admin_handler (admin_fsm, ()) (fsm', ())" by (rule fsm_run.Moved [OF fsm_run.Started [OF f(1)] f(2)])
  from fsm_serves_in_order [OF this n(2-4)] show ?thesis using f n(1) by auto
qed

theorem fsm_change_returns_witness:
  "gzochid_fsm_to_state (\<lambda>f a b w. (w, [])) 1 (admin_fsm\<lparr>fsm_started := True\<rparr>, ()) \<noteq> None
    \<and> \<not> gzochid_fsm_to_state (\<lambda>f a b w. (w, [])) 2 (admin_fsm\<lparr>fsm_started := True\<rparr>, ()) \<noteq> None"
  using fsm_change_returns [of "\<lambda>f a b w. (w, [])" "admin_fsm\<lparr>fsm_started := True\<rparr>" 1 "()"]
    fsm_change_returns [of "\<lambda>f a b w. (w, [])" "admin_fsm\<lparr>fsm_started := True\<rparr>" 2 "()"]
  by (simp add: admin_fsm_def gzochid_fsm_add_state_def gzochid_fsm_new_def gzochid_fsm_add_transition_def
      gzochid_fsm_on_enter_def del: not_None_eq)

end
