(* ===== verification/App_Node.thy ===== *)
theory App_Node
  imports Socket Util_Codec
begin

text \<open>
  The state of an application server that its channels, its sessions and its game protocol share:
  the tables of an application context (\<open>app.h\<close>), the game clients with the messages of
  \<open>game-protocol.c\<close> to them, and the connection to the meta server.

  Game clients, their sockets and the session lists of channels are shared by address and live in
  stores; what was freed is mapped to nothing, and using it is a fault.
\<close>

section \<open>State\<close>

record gzochid_game_client =
  gc_app :: "cstring option"
  gc_identity :: "cstring option"
  gc_disconnected :: bool
  gc_sock :: sock

record app_context =
  oids_to_clients :: "guint64 \<rightharpoonup> nat"
  clients_to_oids :: "nat \<rightharpoonup> guint64"
  channel_sessions :: "guint64 \<rightharpoonup> nat"

record game_node =
  node_apps :: "cstring \<rightharpoonup> app_context"
  node_clients :: "nat \<rightharpoonup> gzochid_game_client"
  node_sequences :: "nat \<rightharpoonup> guint64 list"
  node_next :: nat
  node_sockets :: sockets
  node_meta :: "gzochid_reconnectable_socket option"

definition update_app :: "cstring \<Rightarrow> (app_context \<Rightarrow> app_context) \<Rightarrow> game_node \<Rightarrow> game_node" where
  "update_app app f node = node\<lparr>node_apps := (node_apps node)(app := map_option f (node_apps node app))\<rparr>"

section \<open>game-protocol.c: messages to a client\<close>

definition GAME_LOGIN_SUCCESS :: byte where "GAME_LOGIN_SUCCESS = 0x11"
definition GAME_LOGIN_FAILURE :: byte where "GAME_LOGIN_FAILURE = 0x12"
definition GAME_SESSION_DISCONNECTED :: byte where "GAME_SESSION_DISCONNECTED = 0x30"
definition GAME_SESSION_MESSAGE :: byte where "GAME_SESSION_MESSAGE = 0x31"

definition game_client_write :: "nat \<Rightarrow> byte list \<Rightarrow> game_node \<Rightarrow> game_node option" where
  "game_client_write client buf node = do {
     c \<leftarrow> node_clients node client;
     socks \<leftarrow> socket_write (gc_sock c) buf (node_sockets node);
     Some (node\<lparr>node_sockets := socks\<rparr>)
   }"

definition gzochid_game_client_disconnect :: "nat \<Rightarrow> game_node \<Rightarrow> game_node option" where
  "gzochid_game_client_disconnect client node = game_client_write client [0, 0, GAME_SESSION_DISCONNECTED] node"

definition gzochid_game_client_login_success :: "nat \<Rightarrow> game_node \<Rightarrow> game_node option" where
  "gzochid_game_client_login_success client node = game_client_write client [0, 0, GAME_LOGIN_SUCCESS] node"

definition gzochid_game_client_login_failure :: "nat \<Rightarrow> game_node \<Rightarrow> game_node option" where
  "gzochid_game_client_login_failure client node = game_client_write client [0, 0, GAME_LOGIN_FAILURE] node"

text \<open>The length of the message is converted to an \<open>unsigned short\<close> by the call.\<close>

definition gzochid_game_client_send :: "nat \<Rightarrow> byte list \<Rightarrow> game_node \<Rightarrow> game_node option" where
  "gzochid_game_client_send client msg node = do {
     let len = (word_of_nat (length msg) :: 16 word);
     let buf = replicate (unat len + 3) 0;
     buf \<leftarrow> gzochi_common_io_write_short len buf 0;
     buf \<leftarrow> wr buf 2 GAME_SESSION_MESSAGE;
     buf \<leftarrow> memcpy buf 3 (take (unat len) msg);
     game_client_write client buf node
   }"

section \<open>The connection to the meta server\<close>

definition meta_write :: "byte list \<Rightarrow> game_node \<Rightarrow> game_node" where
  "meta_write buf node = node\<lparr>node_meta := map_option (\<lambda>rs. gzochid_reconnectable_socket_write rs buf) (node_meta node)\<rparr>"

text \<open>What a node has written to the meta server and not yet sent.\<close>

definition meta_output :: "game_node \<Rightarrow> byte list" where
  "meta_output node =
     (case node_meta node of
        None \<Rightarrow> []
      | Some rs \<Rightarrow> (case rs_socket rs of None \<Rightarrow> outbound_messages rs | Some s \<Rightarrow> send_buffer s))"

lemma meta_write_output: "node_meta node \<noteq> None \<Longrightarrow> meta_output (meta_write buf node) = meta_output node @ buf"
  by (auto simp: meta_write_def meta_output_def gzochid_reconnectable_socket_write_def gzochid_client_socket_write_def
    g_byte_array_append_def split: option.splits)

lemma meta_write_sel [simp]:
  "node_apps (meta_write buf node) = node_apps node" "node_clients (meta_write buf node) = node_clients node"
  "node_sequences (meta_write buf node) = node_sequences node" "node_next (meta_write buf node) = node_next node"
  "node_sockets (meta_write buf node) = node_sockets node"
  "node_meta (meta_write buf node) = map_option (\<lambda>rs. gzochid_reconnectable_socket_write rs buf) (node_meta node)"
  by (simp_all add: meta_write_def)

section \<open>Sessions and what their clients are sent\<close>

definition session_client :: "game_node \<Rightarrow> cstring \<Rightarrow> guint64 \<Rightarrow> nat option" where
  "session_client node app s = Option.bind (node_apps node app) (\<lambda>ctx. oids_to_clients ctx s)"

definition client_session :: "game_node \<Rightarrow> cstring \<Rightarrow> nat \<Rightarrow> guint64 option" where
  "client_session node app client = Option.bind (node_apps node app) (\<lambda>ctx. clients_to_oids ctx client)"

definition session_socket :: "game_node \<Rightarrow> cstring \<Rightarrow> guint64 \<Rightarrow> sock option" where
  "session_socket node app s = map_option gc_sock (Option.bind (session_client node app s) (node_clients node))"

text \<open>A mapped session has a client with an open socket.\<close>

definition clients_live :: "game_node \<Rightarrow> bool" where
  "clients_live node \<longleftrightarrow>
     (\<forall>app s. session_client node app s \<noteq> None \<longrightarrow>
       (\<exists>k. session_socket node app s = Some k \<and> node_sockets node k \<noteq> None))"

text \<open>No two sessions share a socket.\<close>

definition sockets_owned :: "game_node \<Rightarrow> bool" where
  "sockets_owned node \<longleftrightarrow>
     (\<forall>app s app' s' k. session_socket node app s = Some k \<longrightarrow> session_socket node app' s' = Some k \<longrightarrow>
        app = app' \<and> s = s')"

definition client_frame :: "byte list \<Rightarrow> byte list" where
  "client_frame msg =
     (let len = (word_of_nat (length msg) :: 16 word) in be_short len @ GAME_SESSION_MESSAGE # take (unat len) msg)"

lemma game_client_send_eq: "gzochid_game_client_send client msg node = game_client_write client (client_frame msg) node"
proof -
  let ?len = "word_of_nat (length msg) :: 16 word" and ?bs = "take (unat (word_of_nat (length msg) :: 16 word)) msg"
  have l: "length ?bs = unat ?len"
    by (simp add: unat_of_nat take_bit_nat_eq_self_iff min_def not_le)
  have "replicate (unat ?len + 3) (0::byte) = 0 # 0 # 0 # replicate (length ?bs) 0 @ []"
    unfolding l by (simp add: numeral_3_eq_3 del: length_take)
  then have "gzochi_common_io_write_short ?len (replicate (unat ?len + 3) 0) 0 = Some (be_short ?len @ 0 # replicate (length ?bs) 0 @ [])"
    by (simp only: write_short_front)
  moreover have "wr (be_short ?len @ 0 # replicate (length ?bs) 0 @ []) 2 GAME_SESSION_MESSAGE =
      Some ((be_short ?len @ [GAME_SESSION_MESSAGE]) @ replicate (length ?bs) 0 @ [])"
    by (subst wr_at) (simp_all del: length_take)
  moreover have "memcpy ((be_short ?len @ [GAME_SESSION_MESSAGE]) @ replicate (length ?bs) 0 @ []) 3 ?bs =
      Some ((be_short ?len @ [GAME_SESSION_MESSAGE]) @ ?bs @ [])"
    by (rule memcpy_at) (simp_all del: length_take)
  ultimately show ?thesis
    by (simp add: gzochid_game_client_send_def client_frame_def Let_def del: length_take replicate_Suc append_Nil2) simp
qed

lemma game_client_write_live:
  assumes "clients_live node" and "session_client node app s = Some cl"
  obtains k socks where "game_client_write cl buf node = Some (node\<lparr>node_sockets := socks\<rparr>)"
    and "session_socket node app s = Some k" and "dom socks = dom (node_sockets node)"
    and "\<forall>j. pending socks j = pending (node_sockets node) j @ (if j = k then buf else [])"
proof -
  obtain k where k: "session_socket node app s = Some k" "node_sockets node k \<noteq> None"
    using assms unfolding clients_live_def by blast
  then obtain c where c: "node_clients node cl = Some c" "gc_sock c = k"
    using assms(2) by (auto simp: session_socket_def bind_eq_Some_conv)
  from k(2) obtain socks where socks: "socket_write k buf (node_sockets node) = Some socks"
    by (auto simp: socket_write_def)
  show ?thesis
    by (rule that [of socks k])
      (use c k(1) socks in \<open>simp_all add: game_client_write_def socket_write_dom socket_write_pending\<close>)
qed

text \<open>What changes nothing but the sockets keeps the sessions.\<close>

lemma session_client_sockets [simp]:
  "session_client (node\<lparr>node_sockets := socks\<rparr>) = session_client node"
  "session_socket (node\<lparr>node_sockets := socks\<rparr>) = session_socket node"
  by (simp_all add: fun_eq_iff session_client_def session_socket_def)

lemma clients_live_sockets: "dom socks = dom (node_sockets node) \<Longrightarrow>
    clients_live (node\<lparr>node_sockets := socks\<rparr>) = clients_live node"
  by (auto simp: clients_live_def dom_def set_eq_iff)

end
