(* ===== verification/App_Channels.thy ===== *)
theory App_Channels
  imports App_Node Lock_Index Channelserver
begin

text \<open>
  The channels of an application server, \<open>gzochi-server/src/channel.c\<close>: the operations on the members of a
  channel that are connected to this node. The sequence of the sessions of a channel belongs to the
  table of channels and is freed with its entry. That a message was sent is also told to the
  statistics, which are not part of the state.
\<close>

section \<open>channel.c: members on this node\<close>

datatype channel_error = Channel_Already_Member | Channel_Not_Mapped | Channel_Not_Member | Channel_Failed

abbreviation find_session :: "guint64 \<Rightarrow> guint64 list \<Rightarrow> nat option option" where
  "find_session s sessions \<equiv> g_sequence_lookup (\<lambda>x. Some (gzochid_util_guint64_data_compare x s)) sessions"

definition gzochid_channel_join_direct ::
    "cstring \<Rightarrow> guint64 \<Rightarrow> guint64 \<Rightarrow> game_node \<Rightarrow> (game_node \<times> channel_error option) option" where
  "gzochid_channel_join_direct app channel_oid session_oid node = do {
     ctx \<leftarrow> node_apps node app;
     if oids_to_clients ctx session_oid = None then Some (node, Some Channel_Not_Mapped)
     else case channel_sessions ctx channel_oid of
       None \<Rightarrow>
         (let a = node_next node
          in Some (update_app app (\<lambda>ctx. ctx\<lparr>channel_sessions := (channel_sessions ctx)(channel_oid \<mapsto> a)\<rparr>)
               (node\<lparr>node_next := Suc a, node_sequences := (node_sequences node)(a \<mapsto> [session_oid])\<rparr>), None))
     | Some a \<Rightarrow> do {
         sessions \<leftarrow> node_sequences node a;
         iter \<leftarrow> find_session session_oid sessions;
         if iter = None
         then do {
           sessions \<leftarrow> sequence_insert_sorted (\<lambda>x y. Some (gzochid_util_guint64_data_compare x y)) session_oid sessions;
           Some (node\<lparr>node_sequences := (node_sequences node)(a \<mapsto> sessions)\<rparr>, None)
         }
         else Some (node, Some Channel_Already_Member)
       }
   }"

text \<open>An entry that is removed from the table of channels takes its sequence with it.\<close>

definition remove_channel :: "cstring \<Rightarrow> guint64 \<Rightarrow> game_node \<Rightarrow> game_node" where
  "remove_channel app channel_oid node =
     (case Option.bind (node_apps node app) (\<lambda>ctx. channel_sessions ctx channel_oid) of
        None \<Rightarrow> node
      | Some a \<Rightarrow> update_app app (\<lambda>ctx. ctx\<lparr>channel_sessions := (channel_sessions ctx)(channel_oid := None)\<rparr>)
          (node\<lparr>node_sequences := (node_sequences node)(a := None)\<rparr>))"

definition remove_session :: "cstring \<Rightarrow> guint64 \<Rightarrow> nat \<Rightarrow> nat \<Rightarrow> game_node \<Rightarrow> game_node option" where
  "remove_session app channel_oid a iter node = do {
     sessions \<leftarrow> node_sequences node a;
     let sessions = g_sequence_remove sessions iter;
     let node = node\<lparr>node_sequences := (node_sequences node)(a \<mapsto> sessions)\<rparr>;
     Some (if sessions = [] then remove_channel app channel_oid node else node)
   }"

definition gzochid_channel_leave_direct ::
    "cstring \<Rightarrow> guint64 \<Rightarrow> guint64 \<Rightarrow> game_node \<Rightarrow> (game_node \<times> channel_error option) option" where
  "gzochid_channel_leave_direct app channel_oid session_oid node = do {
     ctx \<leftarrow> node_apps node app;
     if oids_to_clients ctx session_oid = None then Some (node, Some Channel_Not_Mapped)
     else case channel_sessions ctx channel_oid of
       None \<Rightarrow> Some (node, Some Channel_Not_Member)
     | Some a \<Rightarrow> do {
         sessions \<leftarrow> node_sequences node a;
         iter \<leftarrow> find_session session_oid sessions;
         case iter of
           None \<Rightarrow> Some (node, Some Channel_Not_Member)
         | Some i \<Rightarrow> map_option (\<lambda>node. (node, None)) (remove_session app channel_oid a i node)
       }
   }"

definition gzochid_channel_close_direct :: "cstring \<Rightarrow> guint64 \<Rightarrow> game_node \<Rightarrow> game_node" where
  "gzochid_channel_close_direct app channel_oid node = remove_channel app channel_oid node"

text \<open>
  The loop over the recipients. The sequence of the channel is looked up once, before it; a lookup in
  no sequence at all finds nothing (and logs a warning).
\<close>

fun send_loop :: "cstring \<Rightarrow> guint64 \<Rightarrow> nat option \<Rightarrow> byte list \<Rightarrow> guint64 list \<Rightarrow> game_node \<Rightarrow> game_node option" where
  "send_loop app channel_oid sessions msg [] node = Some node"
| "send_loop app channel_oid sessions msg (s # ss) node = do {
     ctx \<leftarrow> node_apps node app;
     node \<leftarrow> (case oids_to_clients ctx s of
         Some client \<Rightarrow> gzochid_game_client_send client msg node
       | None \<Rightarrow>
           (case sessions of
              None \<Rightarrow> Some node
            | Some a \<Rightarrow> do {
                members \<leftarrow> node_sequences node a;
                iter \<leftarrow> find_session s members;
                case iter of None \<Rightarrow> Some node | Some i \<Rightarrow> remove_session app channel_oid a i node
              }));
     send_loop app channel_oid sessions msg ss node
   }"

definition send_channel_message_direct ::
    "cstring \<Rightarrow> guint64 \<Rightarrow> guint64 list \<Rightarrow> byte list \<Rightarrow> game_node \<Rightarrow> game_node option" where
  "send_channel_message_direct app channel_oid session_oids msg node = do {
     ctx \<leftarrow> node_apps node app;
     send_loop app channel_oid (channel_sessions ctx channel_oid) msg session_oids node
   }"

definition gzochid_channel_message_direct :: "cstring \<Rightarrow> guint64 \<Rightarrow> byte list \<Rightarrow> game_node \<Rightarrow> game_node option" where
  "gzochid_channel_message_direct app channel_oid msg node = do {
     ctx \<leftarrow> node_apps node app;
     case channel_sessions ctx channel_oid of
       None \<Rightarrow> Some node
     | Some a \<Rightarrow> do {
         sessions \<leftarrow> node_sequences node a;
         if sessions \<noteq> [] then send_channel_message_direct app channel_oid sessions msg node else Some node
       }
   }"


section \<open>channelclient.c: requests relayed by the meta server\<close>

datatype channelclient_error = Channelclient_Not_Mapped

definition gzochid_channelclient_relay_join_to ::
    "cstring \<Rightarrow> guint64 \<Rightarrow> guint64 \<Rightarrow> game_node \<Rightarrow> (game_node \<times> channelclient_error option) option" where
  "gzochid_channelclient_relay_join_to app channel_oid session_oid node =
     (if node_apps node app \<noteq> None
      then map_option (\<lambda>(node, local_err). (node, None)) (gzochid_channel_join_direct app channel_oid session_oid node)
      else Some (node, Some Channelclient_Not_Mapped))"

definition gzochid_channelclient_relay_leave_to ::
    "cstring \<Rightarrow> guint64 \<Rightarrow> guint64 \<Rightarrow> game_node \<Rightarrow> (game_node \<times> channelclient_error option) option" where
  "gzochid_channelclient_relay_leave_to app channel_oid session_oid node =
     (if node_apps node app \<noteq> None
      then map_option (\<lambda>(node, local_err). (node, None)) (gzochid_channel_leave_direct app channel_oid session_oid node)
      else Some (node, Some Channelclient_Not_Mapped))"

definition gzochid_channelclient_relay_close_to ::
    "cstring \<Rightarrow> guint64 \<Rightarrow> game_node \<Rightarrow> (game_node \<times> channelclient_error option) option" where
  "gzochid_channelclient_relay_close_to app channel_oid node =
     (if node_apps node app \<noteq> None then Some (gzochid_channel_close_direct app channel_oid node, None)
      else Some (node, Some Channelclient_Not_Mapped))"

definition gzochid_channelclient_relay_message_to ::
    "cstring \<Rightarrow> guint64 \<Rightarrow> byte list \<Rightarrow> game_node \<Rightarrow> (game_node \<times> channelclient_error option) option" where
  "gzochid_channelclient_relay_message_to app channel_oid msg node =
     (if node_apps node app \<noteq> None
      then map_option (\<lambda>node. (node, None)) (gzochid_channel_message_direct app channel_oid msg node)
      else Some (node, Some Channelclient_Not_Mapped))"

text \<open>A request as the calls of this section serve it, and a sequence of requests.\<close>

fun serve_relayed :: "channel_request \<Rightarrow> game_node \<Rightarrow> game_node option" where
  "serve_relayed (Join_Channel app c s) node = map_option fst (gzochid_channelclient_relay_join_to app c s node)"
| "serve_relayed (Leave_Channel app c s) node = map_option fst (gzochid_channelclient_relay_leave_to app c s node)"
| "serve_relayed (Close_Channel app c) node = map_option fst (gzochid_channelclient_relay_close_to app c node)"
| "serve_relayed (Message_Channel app c msg) node = map_option fst (gzochid_channelclient_relay_message_to app c msg node)"

fun serve_all_relayed :: "channel_request list \<Rightarrow> game_node \<Rightarrow> game_node option" where
  "serve_all_relayed [] node = Some node"
| "serve_all_relayed (req # reqs) node = Option.bind (serve_relayed req node) (serve_all_relayed reqs)"

section \<open>The members of a channel\<close>

definition channel_list :: "game_node \<Rightarrow> cstring \<Rightarrow> guint64 \<Rightarrow> nat option" where
  "channel_list node app c = Option.bind (node_apps node app) (\<lambda>ctx. channel_sessions ctx c)"

definition members :: "game_node \<Rightarrow> cstring \<Rightarrow> guint64 \<Rightarrow> guint64 list" where
  "members node app c = (case Option.bind (channel_list node app c) (node_sequences node) of None \<Rightarrow> [] | Some xs \<Rightarrow> xs)"

text \<open>Every entry of a table of channels has a sequence of its own, which is sorted and not empty.\<close>

definition channels_inv :: "game_node \<Rightarrow> bool" where
  "channels_inv node \<longleftrightarrow>
     (\<forall>app c a. channel_list node app c = Some a \<longrightarrow> a < node_next node
        \<and> (\<exists>xs. node_sequences node a = Some xs \<and> xs \<noteq> [] \<and> sorted_wrt (<) xs))
     \<and> (\<forall>app c app' c' a. channel_list node app c = Some a \<longrightarrow> channel_list node app' c' = Some a \<longrightarrow> app = app' \<and> c = c')"

lemma channels_invD:
  assumes "channels_inv node" and "channel_list node app c = Some a"
  shows "a < node_next node" and "node_sequences node a = Some (members node app c)"
    and "members node app c \<noteq> []" and "sorted_wrt (<) (members node app c)"
proof -
  obtain xs where xs: "a < node_next node" "node_sequences node a = Some xs" "xs \<noteq> []" "sorted_wrt (<) xs"
    using assms unfolding channels_inv_def by blast
  then have "members node app c = xs" by (simp add: members_def assms(2))
  with xs show "a < node_next node" and "node_sequences node a = Some (members node app c)"
    and "members node app c \<noteq> []" and "sorted_wrt (<) (members node app c)" by simp_all
qed

lemma channels_inv_owner:
  "channels_inv node \<Longrightarrow> channel_list node app c = Some a \<Longrightarrow> channel_list node app' c' = Some a \<Longrightarrow> app = app' \<and> c = c'"
  by (simp add: channels_inv_def)

lemma find_session_sorted:
  assumes "sorted_wrt (<) xs"
  shows "s \<notin> set xs \<Longrightarrow> find_session s xs = Some None"
    and "s \<in> set xs \<Longrightarrow> \<exists>i < length xs. find_session s xs = Some (Some i) \<and> xs ! i = s"
proof -
  show "find_session s xs = Some None" if "s \<notin> set xs"
    using that by (intro g_sequence_lookup_absent) (auto simp: gzochid_util_guint64_data_compare_def)
  assume "s \<in> set xs"
  then obtain i where i: "i < length xs" "xs ! i = s" by (auto simp: in_set_conv_nth)
  have "xs ! j \<noteq> s" if "j < i" for j
    using sorted_wrt_nth_less [OF assms that i(1)] i(2) by auto
  then have "find_session s xs = Some (Some i)"
    using i by (intro g_sequence_lookup_found) (auto simp: gzochid_util_guint64_data_compare_def)
  with i show "\<exists>i < length xs. find_session s xs = Some (Some i) \<and> xs ! i = s" by blast
qed

lemma insert_session_sorted:
  fixes s :: guint64
  assumes "sorted_wrt (<) xs" and "s \<notin> set xs"
  obtains zs where "sequence_insert_sorted (\<lambda>x y. Some (gzochid_util_guint64_data_compare x y)) s xs = Some zs"
    and "set zs = insert s (set xs)" and "sorted_wrt (<) zs"
  by (rule sequence_insert_sorted_spec [of xs "\<lambda>x y. Some (gzochid_util_guint64_data_compare x y)" s
      "\<lambda>y. gzochid_util_guint64_data_compare y s" "(<)"])
    (use assms in \<open>auto simp: gzochid_util_guint64_data_compare_def transp_def split: if_splits\<close>)

lemma sorted_distinct_word: "sorted_wrt (<) (xs :: guint64 list) \<Longrightarrow> distinct xs"
  by (induction xs) auto

section \<open>How the tables change\<close>

text \<open>What an operation on channels leaves alone.\<close>

definition same_sessions :: "game_node \<Rightarrow> game_node \<Rightarrow> bool" where
  "same_sessions node node' \<longleftrightarrow> session_client node' = session_client node \<and> session_socket node' = session_socket node
     \<and> client_session node' = client_session node \<and> node_clients node' = node_clients node
     \<and> dom (node_sockets node') = dom (node_sockets node) \<and> node_meta node' = node_meta node
     \<and> (\<forall>app. node_apps node' app = None \<longleftrightarrow> node_apps node app = None)"

lemma same_sessions_refl [simp]: "same_sessions node node"
  by (simp add: same_sessions_def)

lemma same_sessions_trans: "same_sessions a b \<Longrightarrow> same_sessions b c \<Longrightarrow> same_sessions a c"
  by (simp add: same_sessions_def)

lemma same_sessions_live: "same_sessions a b \<Longrightarrow> clients_live b = clients_live a"
  by (auto simp: same_sessions_def clients_live_def dom_def set_eq_iff)

text \<open>Writing the sequence of a channel, and removing a channel.\<close>

lemma write_sequence:
  assumes inv: "channels_inv node" and a: "channel_list node app c = Some a"
    and xs: "xs \<noteq> []" "sorted_wrt (<) xs"
  defines "node' \<equiv> node\<lparr>node_sequences := (node_sequences node)(a \<mapsto> xs)\<rparr>"
  shows "channels_inv node'" and "members node' = (members node)(app := (members node app)(c := xs))" and "same_sessions node node'"
proof -
  have cl: "channel_list node' = channel_list node" by (simp add: fun_eq_iff channel_list_def node'_def)
  show "channels_inv node'"
    using inv xs unfolding channels_inv_def cl by (auto simp: node'_def)
  have "members node' app' c' = (if app' = app \<and> c' = c then xs else members node app' c')" for app' c'
    using channels_inv_owner [OF inv a, of app' c'] a
    by (cases "channel_list node app' c'") (auto simp: members_def cl, auto simp: node'_def)
  then show "members node' = (members node)(app := (members node app)(c := xs))" by (auto simp: fun_eq_iff)
  show "same_sessions node node'"
    by (simp add: same_sessions_def node'_def session_client_def session_socket_def client_session_def fun_eq_iff)
qed

lemma apps_update_app: "node_apps (update_app app f node) = (node_apps node)(app := map_option f (node_apps node app))"
  by (simp add: update_app_def)

lemma update_app_sel [simp]:
  "node_clients (update_app app f node) = node_clients node" "node_sequences (update_app app f node) = node_sequences node"
  "node_next (update_app app f node) = node_next node" "node_sockets (update_app app f node) = node_sockets node"
  "node_meta (update_app app f node) = node_meta node"
  by (simp_all add: update_app_def)

lemma remove_channel_spec:
  fixes app :: cstring and c :: guint64
  assumes inv: "channels_inv node"
  defines "node' \<equiv> remove_channel app c node"
  shows "channels_inv node'" and "members node' = (members node)(app := (members node app)(c := []))" and "same_sessions node node'"
    and "node_sockets node' = node_sockets node"
proof -
  have "channels_inv node' \<and> members node' = (members node)(app := (members node app)(c := []))
    \<and> same_sessions node node' \<and> node_sockets node' = node_sockets node"
  proof (cases "channel_list node app c")
    case None
    moreover from this have "members node app c = []" by (simp add: members_def)
    ultimately show ?thesis
      using inv by (auto simp: node'_def remove_channel_def channel_list_def fun_eq_iff)
  next
    case (Some a)
    have node': "node' = update_app app (\<lambda>ctx. ctx\<lparr>channel_sessions := (channel_sessions ctx)(c := None)\<rparr>)
        (node\<lparr>node_sequences := (node_sequences node)(a := None)\<rparr>)"
      using Some by (simp add: node'_def remove_channel_def channel_list_def)
    have cl: "channel_list node' app' c' = (if app' = app \<and> c' = c then None else channel_list node app' c')" for app' c'
      by (auto simp: node' channel_list_def apps_update_app split: option.splits bind_splits)
    have other: "channel_list node app' c' = Some b \<Longrightarrow> \<not> (app' = app \<and> c' = c) \<Longrightarrow> b \<noteq> a" for app' c' b
      using channels_inv_owner [OF inv Some] by blast
    have "channels_inv node'"
      using inv other unfolding channels_inv_def cl by (auto simp: node' split: if_splits)
    moreover have "members node' app' c' = (if app' = app \<and> c' = c then [] else members node app' c')" for app' c'
      using other [of app' c'] by (cases "channel_list node app' c'") (auto simp: members_def cl, auto simp: node')
    moreover have "session_client node' = session_client node" "session_socket node' = session_socket node"
        "client_session node' = client_session node"
      by (auto simp: node' session_client_def session_socket_def client_session_def apps_update_app fun_eq_iff
        split: option.splits bind_splits)
    ultimately show ?thesis
      by (auto simp: fun_eq_iff same_sessions_def, auto simp: node' apps_update_app split: if_splits)
  qed
  then show "channels_inv node'" and "members node' = (members node)(app := (members node app)(c := []))"
    and "same_sessions node node'" and "node_sockets node' = node_sockets node" by blast+
qed

section \<open>Messages to the members\<close>

lemma remove_session_spec:
  assumes inv: "channels_inv node" and a: "channel_list node app c = Some a" and s: "s \<in> set (members node app c)"
  obtains i node' where "find_session s (members node app c) = Some (Some i)"
    and "remove_session app c a i node = Some node'" and "channels_inv node'" and "same_sessions node node'"
    and "\<forall>app' c'. set (members node' app' c') = set (members node app' c') - (if app' = app \<and> c' = c then {s} else {})"
    and "node_sockets node' = node_sockets node" and "members node' app c \<noteq> [] \<longrightarrow> channel_list node' app c = Some a"
proof -
  note d = channels_invD [OF inv a]
  obtain i where i: "i < length (members node app c)" "find_session s (members node app c) = Some (Some i)"
      "members node app c ! i = s"
    using find_session_sorted(2) [OF d(4) s] by blast
  let ?xs = "g_sequence_remove (members node app c) i"
  let ?n = "node\<lparr>node_sequences := (node_sequences node)(a \<mapsto> ?xs)\<rparr>"
  have set: "set ?xs = set (members node app c) - {s}"
    using set_g_sequence_remove [OF sorted_distinct_word [OF d(4)] i(1)] i(3) by simp
  have sorted: "sorted_wrt (<) ?xs" by (rule sorted_wrt_remove [OF d(4)])
  have r: "remove_session app c a i node = Some (if ?xs = [] then remove_channel app c ?n else ?n)"
    by (simp add: remove_session_def d(2))
  show ?thesis
  proof (cases "?xs = []")
    case False
    note w = write_sequence [OF inv a False sorted]
    have "channel_list ?n app c = Some a" using a by (simp add: channel_list_def)
    then show ?thesis
      using False set w(2) by (intro that [OF i(2) r]) (simp_all add: w)
  next
    case True
    have "remove_channel app c ?n = remove_channel app c node"
      using a by (simp add: remove_channel_def channel_list_def update_app_def)
    then show ?thesis
      using True set remove_channel_spec(2) [OF inv, of app c]
      by (intro that [OF i(2) r]) (simp_all add: remove_channel_spec [OF inv])
  qed
qed

lemma send_loop_members:
  assumes "channels_inv node" and "clients_live node" and "sockets_owned node" and "node_apps node app \<noteq> None"
    and "distinct ss" and "set ss \<subseteq> set (members node app c)" and "ss \<noteq> [] \<longrightarrow> channel_list node app c = Some a"
  shows "\<exists>node'. send_loop app c (Some a) msg ss node = Some node' \<and> channels_inv node' \<and> same_sessions node node'
    \<and> (\<forall>app' c'. set (members node' app' c') =
        set (members node app' c') - (if app' = app \<and> c' = c then {s \<in> set ss. session_client node app s = None} else {}))
    \<and> (\<forall>k. pending (node_sockets node') k = pending (node_sockets node) k @
        (if \<exists>s \<in> set ss. session_socket node app s = Some k then client_frame msg else []))"
  using assms
proof (induction ss arbitrary: node)
  case Nil
  then show ?case by simp
next
  case (Cons s ss)
  obtain ctx where ctx: "node_apps node app = Some ctx" using Cons.prems(4) by blast
  have oc: "oids_to_clients ctx s = session_client node app s" by (simp add: session_client_def ctx)
  have s: "s \<in> set (members node app c)" "s \<notin> set ss" "channel_list node app c = Some a"
    using Cons.prems(5-7) by auto
  show ?case
  proof (cases "session_client node app s")
    case None
    obtain i n1 where n1: "find_session s (members node app c) = Some (Some i)"
        "remove_session app c a i node = Some n1" "channels_inv n1" "same_sessions node n1"
        "\<forall>app' c'. set (members n1 app' c') = set (members node app' c') - (if app' = app \<and> c' = c then {s} else {})"
        "node_sockets n1 = node_sockets node" "members n1 app c \<noteq> [] \<longrightarrow> channel_list n1 app c = Some a"
      by (rule remove_session_spec [OF Cons.prems(1) s(3) s(1)])
    have same: "session_client n1 = session_client node" "session_socket n1 = session_socket node" "node_apps n1 app \<noteq> None"
      using n1(4) Cons.prems(4) by (auto simp: same_sessions_def)
    have sub: "set ss \<subseteq> set (members n1 app c)" using Cons.prems(5,6) n1(5) by auto
    have "clients_live n1" "sockets_owned n1"
      using same_sessions_live [OF n1(4)] Cons.prems(2,3) same by (simp_all add: sockets_owned_def)
    from Cons.IH [OF n1(3) this same(3) _ sub] Cons.prems(5) sub n1(7) obtain n2 where
        n2: "send_loop app c (Some a) msg ss n1 = Some n2" "channels_inv n2" "same_sessions n1 n2"
        "\<forall>app' c'. set (members n2 app' c') = set (members n1 app' c') -
          (if app' = app \<and> c' = c then {s \<in> set ss. session_client n1 app s = None} else {})"
        "\<forall>k. pending (node_sockets n2) k = pending (node_sockets n1) k @
          (if \<exists>s \<in> set ss. session_socket n1 app s = Some k then client_frame msg else [])"
      by fastforce
    have "session_socket node app s = None" using None by (simp add: session_socket_def)
    then have p: "\<forall>k. pending (node_sockets n2) k = pending (node_sockets node) k @
        (if \<exists>s \<in> set (s # ss). session_socket node app s = Some k then client_frame msg else [])"
      using n2(5) n1(6) same by simp
    have m: "\<forall>app' c'. set (members n2 app' c') = set (members node app' c') -
        (if app' = app \<and> c' = c then {s' \<in> set (s # ss). session_client node app s' = None} else {})"
      using n2(4) n1(5) same None by auto
    have "send_loop app c (Some a) msg (s # ss) node = Some n2"
      using None n1(1,2) n2(1) channels_invD(2) [OF Cons.prems(1) s(3)] by (simp add: ctx oc)
    then show ?thesis using n2(2) same_sessions_trans [OF n1(4) n2(3)] m p by blast
  next
    case (Some cl)
    obtain k socks where w: "game_client_write cl (client_frame msg) node = Some (node\<lparr>node_sockets := socks\<rparr>)"
        "session_socket node app s = Some k" "dom socks = dom (node_sockets node)"
        "\<forall>j. pending socks j = pending (node_sockets node) j @ (if j = k then client_frame msg else [])"
      by (rule game_client_write_live [OF Cons.prems(2) Some])
    let ?n1 = "node\<lparr>node_sockets := socks\<rparr>"
    have cl: "channel_list ?n1 = channel_list node" "members ?n1 = members node" "channels_inv ?n1"
      using Cons.prems(1) by (auto simp: channel_list_def members_def channels_inv_def fun_eq_iff)
    have "clients_live ?n1" "sockets_owned ?n1" "node_apps ?n1 app \<noteq> None"
      using Cons.prems(2-4) clients_live_sockets [OF w(3)] by (simp_all add: sockets_owned_def)
    from Cons.IH [OF cl(3) this] Cons.prems(5-7) obtain n2 where
        n2: "send_loop app c (Some a) msg ss ?n1 = Some n2" "channels_inv n2" "same_sessions ?n1 n2"
        "\<forall>app' c'. set (members n2 app' c') = set (members node app' c') -
          (if app' = app \<and> c' = c then {s \<in> set ss. session_client node app s = None} else {})"
        "\<forall>j. pending (node_sockets n2) j = pending socks j @
          (if \<exists>s \<in> set ss. session_socket node app s = Some j then client_frame msg else [])"
      unfolding cl by fastforce
    have "\<not> (\<exists>s' \<in> set ss. session_socket node app s' = Some k)"
      using Cons.prems(3) w(2) s(2) unfolding sockets_owned_def by blast
    then have p: "\<forall>j. pending (node_sockets n2) j = pending (node_sockets node) j @
        (if \<exists>s \<in> set (s # ss). session_socket node app s = Some j then client_frame msg else [])"
      using n2(5) w(2,4) by auto
    have m: "\<forall>app' c'. set (members n2 app' c') = set (members node app' c') -
        (if app' = app \<and> c' = c then {s' \<in> set (s # ss). session_client node app s' = None} else {})"
      using n2(4) Some by auto
    have "same_sessions node n2"
      using n2(3) w(3) by (simp add: same_sessions_def client_session_def [abs_def])
    moreover have "send_loop app c (Some a) msg (s # ss) node = Some n2"
      using Some w(1) n2(1) by (simp add: ctx oc game_client_send_eq)
    ultimately show ?thesis using n2(2) m p by blast
  qed
qed

section \<open>What the channels of a node promise\<close>

type_synonym membership = "cstring \<Rightarrow> guint64 \<Rightarrow> guint64 set"

abbreviation set_members :: "cstring \<Rightarrow> guint64 \<Rightarrow> guint64 set \<Rightarrow> membership \<Rightarrow> membership" where
  "set_members app c S M \<equiv> M(app := (M app)(c := S))"

text \<open>
  The membership of the sessions of a node after a request, where \<open>mapped\<close> says which sessions have a
  client on this node; and what a session is sent for a request.
\<close>

fun members_after :: "(cstring \<Rightarrow> guint64 \<Rightarrow> bool) \<Rightarrow> channel_request \<Rightarrow> membership \<Rightarrow> membership" where
  "members_after mapped (Join_Channel app c s) M = (if mapped app s then set_members app c (insert s (M app c)) M else M)"
| "members_after mapped (Leave_Channel app c s) M = (if mapped app s then set_members app c (M app c - {s}) M else M)"
| "members_after mapped (Close_Channel app c) M = set_members app c {} M"
| "members_after mapped (Message_Channel app c msg) M = set_members app c {s \<in> M app c. mapped app s} M"

fun channel_sent :: "cstring \<Rightarrow> guint64 \<Rightarrow> channel_request \<Rightarrow> membership \<Rightarrow> byte list" where
  "channel_sent app s (Message_Channel app' c msg) M = (if app' = app \<and> s \<in> M app c then client_frame msg else [])"
| "channel_sent app s _ M = []"

fun all_members_after :: "(cstring \<Rightarrow> guint64 \<Rightarrow> bool) \<Rightarrow> channel_request list \<Rightarrow> membership \<Rightarrow> membership" where
  "all_members_after mapped [] M = M"
| "all_members_after mapped (req # reqs) M = all_members_after mapped reqs (members_after mapped req M)"

fun all_channel_sent ::
    "(cstring \<Rightarrow> guint64 \<Rightarrow> bool) \<Rightarrow> cstring \<Rightarrow> guint64 \<Rightarrow> channel_request list \<Rightarrow> membership \<Rightarrow> byte list" where
  "all_channel_sent mapped app s [] M = []"
| "all_channel_sent mapped app s (req # reqs) M = channel_sent app s req M @ all_channel_sent mapped app s reqs (members_after mapped req M)"

definition membership :: "game_node \<Rightarrow> membership" where
  "membership node = (\<lambda>app c. set (members node app c))"

definition mapped :: "game_node \<Rightarrow> cstring \<Rightarrow> guint64 \<Rightarrow> bool" where
  "mapped node app s \<longleftrightarrow> session_client node app s \<noteq> None"

definition node_ok :: "game_node \<Rightarrow> bool" where
  "node_ok node \<longleftrightarrow> channels_inv node \<and> clients_live node \<and> sockets_owned node"

text \<open>One request, as the step of a simulation.\<close>

definition implements :: "game_node \<Rightarrow> channel_request \<Rightarrow> game_node \<Rightarrow> bool" where
  "implements node req node' \<longleftrightarrow> node_ok node' \<and> same_sessions node node'
     \<and> membership node' = members_after (mapped node) req (membership node)
     \<and> (\<forall>app s k. session_socket node app s = Some k \<longrightarrow>
         pending (node_sockets node') k = pending (node_sockets node) k @ channel_sent app s req (membership node))"

lemma same_sessions_ok:
  "same_sessions node node' \<Longrightarrow> node_ok node \<Longrightarrow> channels_inv node' \<Longrightarrow> node_ok node'"
  using same_sessions_live [of node node'] by (auto simp: node_ok_def sockets_owned_def same_sessions_def)

lemma implementsI:
  assumes "node_ok node" and "same_sessions node node'" and "channels_inv node'"
    and "\<And>app c. set (members node' app c) = members_after (mapped node) req (membership node) app c"
    and "\<And>app s k. session_socket node app s = Some k \<Longrightarrow>
      pending (node_sockets node') k = pending (node_sockets node) k @ channel_sent app s req (membership node)"
  shows "implements node req node'"
  using assms same_sessions_ok [of node node'] by (simp add: implements_def membership_def fun_eq_iff)

lemma unmapped_app: "node_apps node app = None \<Longrightarrow> \<not> mapped node app s \<and> members node app c = []"
  by (simp add: mapped_def session_client_def members_def channel_list_def)

lemma implements_idle:
  "node_ok node \<Longrightarrow> members_after (mapped node) req (membership node) = membership node \<Longrightarrow>
    (\<And>app s. channel_sent app s req (membership node) = []) \<Longrightarrow> implements node req node"
  by (simp add: implements_def)

lemma serve_join: 
  assumes "node_ok node"
  shows "\<exists>node'. serve_relayed (Join_Channel app c s) node = Some node' \<and> implements node (Join_Channel app c s) node'"
proof (cases "mapped node app s")
  case False
  then have "implements node (Join_Channel app c s) node" by (intro implements_idle assms) simp_all
  moreover have "serve_relayed (Join_Channel app c s) node = Some node"
    using False by (auto simp: gzochid_channelclient_relay_join_to_def gzochid_channel_join_direct_def mapped_def
      session_client_def)
  ultimately show ?thesis by blast
next
  case True
  then obtain ctx where ctx: "node_apps node app = Some ctx" and cl: "oids_to_clients ctx s \<noteq> None"
    by (auto simp: mapped_def session_client_def bind_eq_None_conv)
  have inv: "channels_inv node" using assms by (simp add: node_ok_def)
  have cs: "channel_sessions ctx c = channel_list node app c" by (simp add: channel_list_def ctx)
  show ?thesis
  proof (cases "channel_list node app c")
    case None
    let ?a = "node_next node"
    let ?n = "update_app app (\<lambda>ctx. ctx\<lparr>channel_sessions := (channel_sessions ctx)(c \<mapsto> ?a)\<rparr>)
      (node\<lparr>node_next := Suc ?a, node_sequences := (node_sequences node)(?a \<mapsto> [s])\<rparr>)"
    have list: "channel_list ?n app' c' = (if app' = app \<and> c' = c then Some ?a else channel_list node app' c')" for app' c'
      by (auto simp: channel_list_def apps_update_app ctx)
    have old: "channel_list node app' c' = Some b \<Longrightarrow> b \<noteq> ?a" for app' c' b
      using channels_invD(1) [OF inv] by blast
    have "channels_inv ?n"
      using inv old unfolding channels_inv_def list by (auto simp: less_Suc_eq)
    moreover have "members ?n app' c' = (if app' = app \<and> c' = c then [s] else members node app' c')" for app' c'
      using old [of app' c'] by (cases "channel_list node app' c'") (auto simp: members_def list)
    moreover have "members node app c = []" using None by (simp add: members_def)
    moreover have "same_sessions node ?n"
      by (auto simp: same_sessions_def session_client_def session_socket_def client_session_def apps_update_app ctx fun_eq_iff)
    ultimately have "implements node (Join_Channel app c s) ?n"
      using True by (intro implementsI assms) (auto simp: membership_def)
    then show ?thesis
      using cl None by (auto simp: gzochid_channelclient_relay_join_to_def gzochid_channel_join_direct_def ctx cs Let_def)
  next
    case (Some a)
    note d = channels_invD [OF inv Some]
    show ?thesis
    proof (cases "s \<in> set (members node app c)")
      case mem: True
      then have "implements node (Join_Channel app c s) node"
        using True by (intro implements_idle assms) (auto simp: membership_def fun_eq_iff)
      moreover obtain i where "find_session s (members node app c) = Some (Some i)"
        using find_session_sorted(2) [OF d(4) mem] by blast
      ultimately show ?thesis
        using cl Some d(2) by (simp add: gzochid_channelclient_relay_join_to_def gzochid_channel_join_direct_def ctx cs)
    next
      case False
      obtain zs where zs: "sequence_insert_sorted (\<lambda>x y. Some (gzochid_util_guint64_data_compare x y)) s (members node app c) = Some zs"
          "set zs = insert s (set (members node app c))" "sorted_wrt (<) zs"
        by (rule insert_session_sorted [OF d(4) False])
      have "zs \<noteq> []" using zs(2) by auto
      note w = write_sequence [OF inv Some this zs(3)]
      have "implements node (Join_Channel app c s) (node\<lparr>node_sequences := (node_sequences node)(a \<mapsto> zs)\<rparr>)"
        using True w zs(2) by (intro implementsI assms) (auto simp: membership_def)
      then show ?thesis
        using cl Some d(2) find_session_sorted(1) [OF d(4) False] zs(1)
        by (auto simp: gzochid_channelclient_relay_join_to_def gzochid_channel_join_direct_def ctx cs)
    qed
  qed
qed

lemma serve_leave:
  assumes "node_ok node"
  shows "\<exists>node'. serve_relayed (Leave_Channel app c s) node = Some node' \<and> implements node (Leave_Channel app c s) node'"
proof (cases "mapped node app s \<and> s \<in> set (members node app c)")
  case False
  then have "implements node (Leave_Channel app c s) node"
    by (intro implements_idle assms) (auto simp: membership_def fun_eq_iff)
  moreover have "serve_relayed (Leave_Channel app c s) node = Some node"
  proof (cases "mapped node app s")
    case True
    then have s: "s \<notin> set (members node app c)" using False by simp
    obtain ctx where ctx: "node_apps node app = Some ctx" and cl: "oids_to_clients ctx s \<noteq> None"
      using True by (auto simp: mapped_def session_client_def bind_eq_None_conv)
    have cs: "channel_sessions ctx c = channel_list node app c" by (simp add: channel_list_def ctx)
    show ?thesis
      using assms cl find_session_sorted(1) [OF _ s] channels_invD [of node app c]
      by (cases "channel_list node app c")
        (auto simp: node_ok_def gzochid_channelclient_relay_leave_to_def gzochid_channel_leave_direct_def ctx cs)
  qed (auto simp: gzochid_channelclient_relay_leave_to_def gzochid_channel_leave_direct_def mapped_def session_client_def)
  ultimately show ?thesis by blast
next
  case True
  then obtain ctx where ctx: "node_apps node app = Some ctx" and cl: "oids_to_clients ctx s \<noteq> None"
    by (auto simp: mapped_def session_client_def bind_eq_None_conv)
  have inv: "channels_inv node" using assms by (simp add: node_ok_def)
  obtain a where a: "channel_list node app c = Some a"
    using True by (cases "channel_list node app c") (auto simp: members_def)
  have cs: "channel_sessions ctx c = Some a" using a by (simp add: channel_list_def ctx)
  have s: "s \<in> set (members node app c)" using True by simp
  obtain i n1 where n1: "find_session s (members node app c) = Some (Some i)"
      "remove_session app c a i node = Some n1" "channels_inv n1" "same_sessions node n1"
      "\<forall>app' c'. set (members n1 app' c') = set (members node app' c') - (if app' = app \<and> c' = c then {s} else {})"
      "node_sockets n1 = node_sockets node"
    by (rule remove_session_spec [OF inv a s])
  have "implements node (Leave_Channel app c s) n1"
    using True n1(5,6) by (intro implementsI assms n1) (auto simp: membership_def)
  then show ?thesis
    using cl n1(1,2) channels_invD(2) [OF inv a]
    by (auto simp: gzochid_channelclient_relay_leave_to_def gzochid_channel_leave_direct_def ctx cs)
qed

lemma serve_close:
  assumes "node_ok node"
  shows "\<exists>node'. serve_relayed (Close_Channel app c) node = Some node' \<and> implements node (Close_Channel app c) node'"
proof -
  have inv: "channels_inv node" using assms by (simp add: node_ok_def)
  have r: "implements node (Close_Channel app c) (remove_channel app c node)"
    using remove_channel_spec(2,4) [OF inv, of app c]
    by (intro implementsI assms remove_channel_spec [OF inv]) (auto simp: membership_def)
  have "remove_channel app c node = node" if "node_apps node app = None"
    using that by (simp add: remove_channel_def)
  with r show ?thesis
    by (auto simp: gzochid_channelclient_relay_close_to_def gzochid_channel_close_direct_def)
qed

lemma serve_message:
  assumes "node_ok node"
  shows "\<exists>node'. serve_relayed (Message_Channel app c msg) node = Some node' \<and> implements node (Message_Channel app c msg) node'"
proof (cases "channel_list node app c")
  case None
  then have m: "members node app c = []" by (simp add: members_def)
  have "implements node (Message_Channel app c msg) node"
    by (intro implements_idle assms) (auto simp: membership_def m fun_eq_iff)
  moreover have "serve_relayed (Message_Channel app c msg) node = Some node"
    using None by (auto simp: gzochid_channelclient_relay_message_to_def gzochid_channel_message_direct_def channel_list_def)
  ultimately show ?thesis by blast
next
  case (Some a)
  then obtain ctx where ctx: "node_apps node app = Some ctx" "channel_sessions ctx c = Some a"
    by (auto simp: channel_list_def bind_eq_Some_conv)
  have inv: "channels_inv node" "clients_live node" "sockets_owned node" using assms by (simp_all add: node_ok_def)
  note d = channels_invD [OF inv(1) Some]
  obtain n1 where n1: "send_loop app c (Some a) msg (members node app c) node = Some n1" "channels_inv n1" "same_sessions node n1"
      "\<forall>app' c'. set (members n1 app' c') = set (members node app' c') -
        (if app' = app \<and> c' = c then {s \<in> set (members node app c). session_client node app s = None} else {})"
      "\<forall>k. pending (node_sockets n1) k = pending (node_sockets node) k @
        (if \<exists>s \<in> set (members node app c). session_socket node app s = Some k then client_frame msg else [])"
    using send_loop_members [OF inv _ sorted_distinct_word [OF d(4)] subset_refl, of a msg] Some ctx(1) by auto
  have "(\<exists>s' \<in> set (members node app c). session_socket node app s' = Some k) \<longleftrightarrow> app' = app \<and> s \<in> set (members node app c)"
    if "session_socket node app' s = Some k" for app' s k
    using inv(3) that unfolding sockets_owned_def by blast
  then have "implements node (Message_Channel app c msg) n1"
    using n1(4,5) by (intro implementsI assms n1) (auto simp: membership_def mapped_def)
  then show ?thesis
    using n1(1) d(2,3) by (simp add: gzochid_channelclient_relay_message_to_def gzochid_channel_message_direct_def
      send_channel_message_direct_def ctx)
qed

lemma serve_relayed_implements:
  "node_ok node \<Longrightarrow> \<exists>node'. serve_relayed req node = Some node' \<and> implements node req node'"
  by (cases req) (simp_all only: serve_join serve_leave serve_close serve_message)

lemma serve_all_implements:
  assumes "node_ok node"
  shows "\<exists>node'. serve_all_relayed reqs node = Some node' \<and> node_ok node' \<and> same_sessions node node'
    \<and> membership node' = all_members_after (mapped node) reqs (membership node)
    \<and> (\<forall>app s k. session_socket node app s = Some k \<longrightarrow>
        pending (node_sockets node') k = pending (node_sockets node) k @ all_channel_sent (mapped node) app s reqs (membership node))"
  using assms
proof (induction reqs arbitrary: node)
  case Nil
  then show ?case by simp
next
  case (Cons req reqs)
  obtain n1 where n1: "serve_relayed req node = Some n1" "implements node req n1"
    using serve_relayed_implements [OF Cons.prems] by blast
  then have i: "node_ok n1" "same_sessions node n1" "membership n1 = members_after (mapped node) req (membership node)"
      "\<forall>app s k. session_socket node app s = Some k \<longrightarrow>
         pending (node_sockets n1) k = pending (node_sockets node) k @ channel_sent app s req (membership node)"
    by (simp_all add: implements_def)
  have "mapped n1 = mapped node" "session_socket n1 = session_socket node"
    using i(2) by (simp_all add: same_sessions_def mapped_def fun_eq_iff)
  then show ?case
    using Cons.IH [OF i(1)] n1(1) i same_sessions_trans [OF i(2)] by (auto; metis)
qed

section \<open>Properties\<close>

text \<open>
  (C24) The channels of an application server. On a server whose sessions have live clients with
  sockets of their own, any sequence of requests that the meta server relays is served without a
  fault. Afterwards the members of every channel are those that the requests put there: sessions of
  this server that joined and did not leave, less those found without a client when a message was
  sent. The client of every session was sent each message of a channel once while the session was a
  member, in the order of the requests, and nothing else.
\<close>

theorem channel_requests_served:
  assumes "node_ok node"
  shows "\<exists>node'. serve_all_relayed reqs node = Some node' \<and> node_ok node'
    \<and> membership node' = all_members_after (mapped node) reqs (membership node)
    \<and> (\<forall>app s k. session_socket node app s = Some k \<longrightarrow>
        pending (node_sockets node') k = pending (node_sockets node) k @ all_channel_sent (mapped node) app s reqs (membership node))"
  using serve_all_implements [OF assms] by blast

text \<open>A server with an application, two sessions and a channel that a session without a client is still in.\<close>

definition chat_node :: game_node where
  "chat_node =
     \<lparr>node_apps = [[99] \<mapsto> \<lparr>oids_to_clients = [1 \<mapsto> 0, 2 \<mapsto> 1], clients_to_oids = [0 \<mapsto> 1, 1 \<mapsto> 2], channel_sessions = [7 \<mapsto> 5]\<rparr>],
      node_clients = [0 \<mapsto> \<lparr>gc_app = Some [99], gc_identity = Some [65], gc_disconnected = False, gc_sock = 10\<rparr>,
                      1 \<mapsto> \<lparr>gc_app = Some [99], gc_identity = Some [66], gc_disconnected = False, gc_sock = 11\<rparr>],
      node_sequences = [5 \<mapsto> [1, 3]], node_next = 6,
      node_sockets = (\<lambda>s. Some \<lparr>send_buffer = [], write_source = False\<rparr>), node_meta = None\<rparr>"

lemma chat_node_tables:
  "session_client chat_node app s = (if app = [99] then if s = 2 then Some 1 else if s = 1 then Some 0 else None else None)"
  "session_socket chat_node app s = (if app = [99] then if s = 2 then Some 11 else if s = 1 then Some 10 else None else None)"
  "channel_list chat_node app c = (if app = [99] \<and> c = 7 then Some 5 else None)"
  "membership chat_node app c = (if app = [99] \<and> c = 7 then {1, 3} else {})"
  by (auto simp: chat_node_def session_client_def session_socket_def channel_list_def membership_def members_def)

lemma chat_node_ok: "node_ok chat_node"
proof -
  have "channels_inv chat_node"
    unfolding channels_inv_def chat_node_tables by (simp add: chat_node_def)
  moreover have "clients_live chat_node"
    unfolding clients_live_def chat_node_tables by (simp add: chat_node_def)
  moreover have "sockets_owned chat_node"
    unfolding sockets_owned_def chat_node_tables by auto
  ultimately show ?thesis by (simp add: node_ok_def)
qed

theorem channel_requests_served_witness:
  "\<exists>node'. serve_all_relayed [Join_Channel [99] 7 2, Message_Channel [99] 7 [65], Leave_Channel [99] 7 1, Message_Channel [99] 7 [66]]
      chat_node = Some node'
    \<and> membership node' [99] 7 = {2} \<and> pending (node_sockets node') 10 = [0, 1, 0x31, 65]
    \<and> pending (node_sockets node') 11 = [0, 1, 0x31, 65, 0, 1, 0x31, 66]"
proof -
  let ?reqs = "[Join_Channel [99] 7 2, Message_Channel [99] 7 [65], Leave_Channel [99] 7 1, Message_Channel [99] 7 [66]]"
  obtain n where n: "serve_all_relayed ?reqs chat_node = Some n"
      "membership n = all_members_after (mapped chat_node) ?reqs (membership chat_node)"
      "\<forall>app s k. session_socket chat_node app s = Some k \<longrightarrow> pending (node_sockets n) k =
        pending (node_sockets chat_node) k @ all_channel_sent (mapped chat_node) app s ?reqs (membership chat_node)"
    using channel_requests_served [OF chat_node_ok, of ?reqs] by blast
  have p: "pending (node_sockets chat_node) k = []" for k by (simp add: chat_node_def pending_def)
  have m: "mapped chat_node [99] s \<longleftrightarrow> s = 1 \<or> s = 2" for s by (simp add: mapped_def chat_node_tables)
  have "membership n [99] 7 = {2}" unfolding n(2) by (auto simp: m chat_node_tables)
  moreover have "pending (node_sockets n) 10 = [0, 1, 0x31, 65]"
    using n(3) [rule_format, of "[99]" 1 10]
    by (simp add: p m chat_node_tables client_frame_def GAME_SESSION_MESSAGE_def be_short_def)
  moreover have "pending (node_sockets n) 11 = [0, 1, 0x31, 65, 0, 1, 0x31, 66]"
    using n(3) [rule_format, of "[99]" 2 11]
    by (simp add: p m chat_node_tables client_frame_def GAME_SESSION_MESSAGE_def be_short_def)
  ultimately show ?thesis using n(1) by blast
qed

end
