(* ===== verification/Channelclient.thy ===== *)
theory Channelclient
  imports App_Channels
begin

text \<open>
  The channel client of an application server, \<open>gzochi-server/src/channelclient.c\<close> and
  \<open>channelclient-protocol.c\<close>: the requests it sends to the meta server and the handlers of the requests
  that the meta server relays; and the side effects of transactions of \<open>channel.c\<close>, which call it.
  The last part composes the channel clients of two application servers with the channel server.
\<close>

section \<open>channelclient.c: messages to the meta server\<close>

definition membership_message :: "byte \<Rightarrow> cstring \<Rightarrow> guint64 \<Rightarrow> guint64 \<Rightarrow> byte list option" where
  "membership_message opcode app channel_oid session_oid = do {
     let app_len = length app;
     let total_len = app_len + 20;
     let buf = replicate total_len 0;
     buf \<leftarrow> gzochi_common_io_write_short (word_of_nat (total_len - 3)) buf 0;
     buf \<leftarrow> wr buf 2 opcode;
     buf \<leftarrow> memcpy buf 3 (app @ [0]);
     buf \<leftarrow> gzochi_common_io_write_long channel_oid buf (app_len + 4);
     buf \<leftarrow> gzochi_common_io_write_long session_oid buf (app_len + 12);
     Some buf
   }"

definition gzochid_channelclient_relay_join_from :: "cstring \<Rightarrow> guint64 \<Rightarrow> guint64 \<Rightarrow> game_node \<Rightarrow> game_node option" where
  "gzochid_channelclient_relay_join_from app channel_oid session_oid node =
     map_option (\<lambda>buf. meta_write buf node) (membership_message RELAY_JOIN_FROM app channel_oid session_oid)"

definition gzochid_channelclient_relay_leave_from :: "cstring \<Rightarrow> guint64 \<Rightarrow> guint64 \<Rightarrow> game_node \<Rightarrow> game_node option" where
  "gzochid_channelclient_relay_leave_from app channel_oid session_oid node =
     map_option (\<lambda>buf. meta_write buf node) (membership_message RELAY_LEAVE_FROM app channel_oid session_oid)"

definition gzochid_channelclient_relay_close_from :: "cstring \<Rightarrow> guint64 \<Rightarrow> game_node \<Rightarrow> game_node option" where
  "gzochid_channelclient_relay_close_from app channel_oid node = do {
     let app_len = length app;
     let total_len = app_len + 12;
     let buf = replicate total_len 0;
     buf \<leftarrow> gzochi_common_io_write_short (word_of_nat (total_len - 3)) buf 0;
     buf \<leftarrow> wr buf 2 RELAY_CLOSE_FROM;
     buf \<leftarrow> memcpy buf 3 (app @ [0]);
     buf \<leftarrow> gzochi_common_io_write_long channel_oid buf (app_len + 4);
     Some (meta_write buf node)
   }"

definition gzochid_channelclient_relay_message_from :: "cstring \<Rightarrow> guint64 \<Rightarrow> byte list \<Rightarrow> game_node \<Rightarrow> game_node option" where
  "gzochid_channelclient_relay_message_from app channel_oid msg node = do {
     let app_len = length app;
     let msg_len = length msg;
     let total_len = app_len + msg_len + 14;
     let buf = replicate total_len 0;
     buf \<leftarrow> gzochi_common_io_write_short (word_of_nat (total_len - 3)) buf 0;
     buf \<leftarrow> wr buf 2 CHANNEL_RELAY_MESSAGE_FROM;
     buf \<leftarrow> memcpy buf 3 (app @ [0]);
     buf \<leftarrow> gzochi_common_io_write_long channel_oid buf (app_len + 4);
     buf \<leftarrow> gzochi_common_io_write_short (word_of_nat msg_len) buf (app_len + 12);
     buf \<leftarrow> memcpy buf (app_len + 14) msg;
     Some (meta_write buf node)
   }"

section \<open>channel.c: side effects\<close>

datatype membership_operation = Channel_Op_Join | Channel_Op_Leave

datatype gzochid_channel_side_effect =
    Close_Effect guint64
  | Membership_Effect membership_operation guint64 guint64
  | Message_Effect guint64 "guint64 list" "byte list"

text \<open>
  What a worker binds to its transaction: nothing when it has nothing to do. The channel has to be known
  on this node, except that a message is sent on when there is a meta server.
\<close>

definition close_channel :: "cstring \<Rightarrow> guint64 \<Rightarrow> game_node \<Rightarrow> gzochid_channel_side_effect option option" where
  "close_channel app channel_oid node = do {
     ctx \<leftarrow> node_apps node app;
     Some (if channel_sessions ctx channel_oid \<noteq> None then Some (Close_Effect channel_oid) else None)
   }"

definition send_channel_message :: "cstring \<Rightarrow> guint64 \<Rightarrow> byte list \<Rightarrow> game_node \<Rightarrow> gzochid_channel_side_effect option option" where
  "send_channel_message app channel_oid msg node = do {
     ctx \<leftarrow> node_apps node app;
     if channel_sessions ctx channel_oid \<noteq> None \<or> node_meta node \<noteq> None
     then case channel_sessions ctx channel_oid of
       None \<Rightarrow> Some (Some (Message_Effect channel_oid [] msg))
     | Some a \<Rightarrow> do {
         sessions \<leftarrow> node_sequences node a;
         Some (Some (Message_Effect channel_oid sessions msg))
       }
     else Some None
   }"

definition join_channel :: "cstring \<Rightarrow> guint64 \<Rightarrow> guint64 \<Rightarrow> game_node \<Rightarrow> gzochid_channel_side_effect option option" where
  "join_channel app channel_oid session_oid node = do {
     ctx \<leftarrow> node_apps node app;
     do_join \<leftarrow> (case channel_sessions ctx channel_oid of
         None \<Rightarrow> Some True
       | Some a \<Rightarrow> do {
           sessions \<leftarrow> node_sequences node a;
           iter \<leftarrow> find_session session_oid sessions;
           Some (iter = None)
         });
     Some (if do_join then Some (Membership_Effect Channel_Op_Join channel_oid session_oid) else None)
   }"

definition leave_channel :: "cstring \<Rightarrow> guint64 \<Rightarrow> guint64 \<Rightarrow> game_node \<Rightarrow> gzochid_channel_side_effect option option" where
  "leave_channel app channel_oid session_oid node = do {
     ctx \<leftarrow> node_apps node app;
     do_leave \<leftarrow> (case channel_sessions ctx channel_oid of
         None \<Rightarrow> Some False
       | Some a \<Rightarrow> do {
           sessions \<leftarrow> node_sequences node a;
           iter \<leftarrow> find_session session_oid sessions;
           Some (iter \<noteq> None)
         });
     Some (if do_leave then Some (Membership_Effect Channel_Op_Leave channel_oid session_oid) else None)
   }"

text \<open>
  The branch for membership declares a channel client of its own, which hides the one obtained before
  and stays \<open>NULL\<close>; and the result of leaving is not asked for, so that there is never an error to look at.
\<close>

definition channel_side_effect_commit :: "cstring \<Rightarrow> gzochid_channel_side_effect option \<Rightarrow> game_node \<Rightarrow> game_node option" where
  "channel_side_effect_commit app side_effect node =
     (let channelclient = (node_meta node \<noteq> None)
      in case side_effect of
        None \<Rightarrow> Some node
      | Some (Message_Effect channel_oid session_oids msg) \<Rightarrow> do {
          node \<leftarrow> send_channel_message_direct app channel_oid session_oids msg node;
          if channelclient then gzochid_channelclient_relay_message_from app channel_oid msg node else Some node
        }
      | Some (Close_Effect channel_oid) \<Rightarrow>
          (let node = gzochid_channel_close_direct app channel_oid node
           in if channelclient then gzochid_channelclient_relay_close_from app channel_oid node else Some node)
      | Some (Membership_Effect op channel_oid session_oid) \<Rightarrow>
          (let channelclient = False
           in case op of
             Channel_Op_Join \<Rightarrow> do {
               (node, err) \<leftarrow> gzochid_channel_join_direct app channel_oid session_oid node;
               if err \<noteq> None \<and> err \<noteq> Some Channel_Not_Mapped \<and> channelclient
               then gzochid_channelclient_relay_join_from app channel_oid session_oid node else Some node
             }
           | Channel_Op_Leave \<Rightarrow> do {
               (node, _) \<leftarrow> gzochid_channel_leave_direct app channel_oid session_oid node;
               let err = None;
               if err \<noteq> None \<and> err \<noteq> Some Channel_Not_Mapped \<and> channelclient
               then gzochid_channelclient_relay_leave_from app channel_oid session_oid node else Some node
             }))"


section \<open>channelclient-protocol.c\<close>

definition dispatch_relay_join_to :: "byte list \<Rightarrow> nat \<Rightarrow> 16 word \<Rightarrow> game_node \<Rightarrow> game_node option" where
  "dispatch_relay_join_to m message len node = do {
     r \<leftarrow> gzochid_protocol_read_str m message (unat len);
     case r of
       None \<Rightarrow> Some node
     | Some (app, str_len) \<Rightarrow>
         if str_len \<le> 1 \<or> unat len < str_len + 16 then Some node
         else do {
           channel_oid \<leftarrow> gzochi_common_io_read_long m (message + str_len);
           session_oid \<leftarrow> gzochi_common_io_read_long m (message + str_len + 8);
           map_option fst (gzochid_channelclient_relay_join_to app channel_oid session_oid node)
         }
   }"

definition dispatch_relay_leave_to :: "byte list \<Rightarrow> nat \<Rightarrow> 16 word \<Rightarrow> game_node \<Rightarrow> game_node option" where
  "dispatch_relay_leave_to m message len node = do {
     r \<leftarrow> gzochid_protocol_read_str m message (unat len);
     case r of
       None \<Rightarrow> Some node
     | Some (app, str_len) \<Rightarrow>
         if str_len \<le> 1 \<or> unat len < str_len + 16 then Some node
         else do {
           channel_oid \<leftarrow> gzochi_common_io_read_long m (message + str_len);
           session_oid \<leftarrow> gzochi_common_io_read_long m (message + str_len + 8);
           map_option fst (gzochid_channelclient_relay_leave_to app channel_oid session_oid node)
         }
   }"

definition dispatch_relay_close_to :: "byte list \<Rightarrow> nat \<Rightarrow> 16 word \<Rightarrow> game_node \<Rightarrow> game_node option" where
  "dispatch_relay_close_to m message len node = do {
     r \<leftarrow> gzochid_protocol_read_str m message (unat len);
     case r of
       None \<Rightarrow> Some node
     | Some (app, str_len) \<Rightarrow>
         if str_len \<le> 1 \<or> unat len < str_len + 8 then Some node
         else do {
           channel_oid \<leftarrow> gzochi_common_io_read_long m (message + str_len);
           map_option fst (gzochid_channelclient_relay_close_to app channel_oid node)
         }
   }"

definition channel_dispatch_relay_message_to :: "byte list \<Rightarrow> nat \<Rightarrow> 16 word \<Rightarrow> game_node \<Rightarrow> game_node option" where
  "channel_dispatch_relay_message_to m message len node = do {
     r \<leftarrow> gzochid_protocol_read_str m message (unat len);
     case r of
       None \<Rightarrow> Some node
     | Some (app, str_len) \<Rightarrow>
         if str_len \<le> 1 \<or> unat len < str_len + 8 then Some node
         else do {
           channel_oid \<leftarrow> gzochi_common_io_read_long m (message + str_len);
           msg \<leftarrow> gzochid_protocol_read_bytes m (message + str_len + 8) (unat len - str_len - 8);
           case msg of
             None \<Rightarrow> Some node
           | Some msg \<Rightarrow> map_option fst (gzochid_channelclient_relay_message_to app channel_oid msg node)
         }
   }"

definition channelclient_dispatch_message :: "byte list \<Rightarrow> nat \<Rightarrow> 16 word \<Rightarrow> game_node \<Rightarrow> game_node option" where
  "channelclient_dispatch_message m message len node = do {
     opcode \<leftarrow> rd m message;
     let payload = message + 1;
     let len = len - 1;
     if opcode = RELAY_JOIN_TO then dispatch_relay_join_to m payload len node
     else if opcode = RELAY_LEAVE_TO then dispatch_relay_leave_to m payload len node
     else if opcode = RELAY_CLOSE_TO then dispatch_relay_close_to m payload len node
     else if opcode = CHANNEL_RELAY_MESSAGE_TO then channel_dispatch_relay_message_to m payload len node
     else Some node
   }"

definition channelclient_client_dispatch :: "byte list \<Rightarrow> game_node \<Rightarrow> (game_node \<times> nat) option" where
  "channelclient_client_dispatch = client_dispatch channelclient_dispatch_message"

section \<open>What the client makes of a message\<close>

fun decode_relayed :: "byte list \<Rightarrow> channel_request option" where
  "decode_relayed [] = None"
| "decode_relayed (opcode # x) =
     Option.bind (named_oid_at x) (\<lambda>(app, channel_oid, x).
       if opcode = RELAY_JOIN_TO then map_option (\<lambda>(s, _). Join_Channel app channel_oid s) (long_at x)
       else if opcode = RELAY_LEAVE_TO then map_option (\<lambda>(s, _). Leave_Channel app channel_oid s) (long_at x)
       else if opcode = RELAY_CLOSE_TO then Some (Close_Channel app channel_oid)
       else if opcode = CHANNEL_RELAY_MESSAGE_TO then map_option (\<lambda>(msg, _). Message_Channel app channel_oid msg) (bytes_at x)
       else None)"

definition handle_relayed :: "byte list \<Rightarrow> game_node \<Rightarrow> game_node option" where
  "handle_relayed msg node = (case decode_relayed msg of None \<Rightarrow> Some node | Some req \<Rightarrow> serve_relayed req node)"

lemma membership_to_implements:
  assumes "p + unat len \<le> length m"
  shows "dispatch_relay_join_to m p len node = handle_relayed (RELAY_JOIN_TO # take (unat len) (drop p m)) node"
    and "dispatch_relay_leave_to m p len node = handle_relayed (RELAY_LEAVE_TO # take (unat len) (drop p m)) node"
proof -
  let ?x = "take (unat len) (drop p m)"
  let ?oids = "Option.bind (named_oid_at ?x) (\<lambda>(app, v, x). map_option (\<lambda>(w, _). (app, v, w)) (long_at x))"
  have j: "decode_relayed (RELAY_JOIN_TO # ?x) = map_option (\<lambda>(app, v, w). Join_Channel app v w) ?oids"
    and l: "decode_relayed (RELAY_LEAVE_TO # ?x) = map_option (\<lambda>(app, v, w). Leave_Channel app v w) ?oids"
    by (cases "named_oid_at ?x"; auto simp: channel_opcodes option.map_comp comp_def split_def)+
  have "dispatch_relay_join_to m p len node = handle_relayed (RELAY_JOIN_TO # ?x) node
      \<and> dispatch_relay_leave_to m p len node = handle_relayed (RELAY_LEAVE_TO # ?x) node"
    by (cases rule: two_oids_cases [OF assms])
      (auto simp: handle_relayed_def j l dispatch_relay_join_to_def dispatch_relay_leave_to_def simp del: decode_relayed.simps
        split: option.splits)
  then show "dispatch_relay_join_to m p len node = handle_relayed (RELAY_JOIN_TO # ?x) node"
    and "dispatch_relay_leave_to m p len node = handle_relayed (RELAY_LEAVE_TO # ?x) node" by blast+
qed

lemma close_message_to_implements:
  assumes "p + unat len \<le> length m"
  shows "dispatch_relay_close_to m p len node = handle_relayed (RELAY_CLOSE_TO # take (unat len) (drop p m)) node"
    and "channel_dispatch_relay_message_to m p len node =
      handle_relayed (CHANNEL_RELAY_MESSAGE_TO # take (unat len) (drop p m)) node"
proof -
  show "dispatch_relay_close_to m p len node = handle_relayed (RELAY_CLOSE_TO # take (unat len) (drop p m)) node"
    by (cases rule: named_oid_cases [OF assms])
      (auto simp: dispatch_relay_close_to_def handle_relayed_def channel_opcodes split: option.splits)
  show "channel_dispatch_relay_message_to m p len node =
      handle_relayed (CHANNEL_RELAY_MESSAGE_TO # take (unat len) (drop p m)) node"
  proof (cases rule: named_oid_cases [OF assms])
    case (1 r)
    then show ?thesis
      by (auto simp: channel_dispatch_relay_message_to_def handle_relayed_def channel_opcodes split: option.splits)
  next
    case (2 s k v)
    have "p + (k + 8) + (unat len - (k + 8)) \<le> length m" using assms 2(3) by simp
    from read_bytes_at [OF this] 2 show ?thesis
      by (auto simp: channel_dispatch_relay_message_to_def handle_relayed_def channel_opcodes add.assoc split: option.splits)
  qed
qed

interpretation relayed_messages: message_handler channelclient_dispatch_message handle_relayed
proof
  fix len :: "16 word" and p and m :: "byte list" and node
  assume len: "0 < unat len" "p + unat len \<le> length m"
  note impl = membership_to_implements [OF message_head(2) [OF len]] close_message_to_implements [OF message_head(2) [OF len]]
  have "handle_relayed (m ! p # x) node = Some node"
    if "m ! p \<notin> {RELAY_JOIN_TO, RELAY_LEAVE_TO, RELAY_CLOSE_TO, CHANNEL_RELAY_MESSAGE_TO}" for x
    using that by (auto simp: handle_relayed_def split: option.splits bind_splits)
  then show "channelclient_dispatch_message m p len node = handle_relayed (take (unat len) (drop p m)) node"
    unfolding channelclient_dispatch_message_def message_head(1,3) [OF len] Let_def bind.bind_lunit impl by auto
qed

section \<open>From one application server to another\<close>

text \<open>What a request looks like on the wire, and the calls that send it.\<close>

fun request_body :: "channel_request \<Rightarrow> byte list" where
  "request_body (Join_Channel app c s) = app @ 0 # be_long c @ be_long s"
| "request_body (Leave_Channel app c s) = app @ 0 # be_long c @ be_long s"
| "request_body (Close_Channel app c) = app @ 0 # be_long c"
| "request_body (Message_Channel app c msg) = app @ 0 # be_long c @ be_short (word_of_nat (length msg)) @ msg"

fun request_message :: "channel_request \<Rightarrow> byte list" where
  "request_message (Join_Channel app c s) = RELAY_JOIN_FROM # request_body (Join_Channel app c s)"
| "request_message (Leave_Channel app c s) = RELAY_LEAVE_FROM # request_body (Leave_Channel app c s)"
| "request_message (Close_Channel app c) = RELAY_CLOSE_FROM # request_body (Close_Channel app c)"
| "request_message (Message_Channel app c msg) = CHANNEL_RELAY_MESSAGE_FROM # request_body (Message_Channel app c msg)"

fun relayed_message :: "channel_request \<Rightarrow> byte list" where
  "relayed_message (Join_Channel app c s) = RELAY_JOIN_TO # request_body (Join_Channel app c s)"
| "relayed_message (Leave_Channel app c s) = RELAY_LEAVE_TO # request_body (Leave_Channel app c s)"
| "relayed_message (Close_Channel app c) = RELAY_CLOSE_TO # request_body (Close_Channel app c)"
| "relayed_message (Message_Channel app c msg) = CHANNEL_RELAY_MESSAGE_TO # request_body (Message_Channel app c msg)"

fun relay_from :: "channel_request \<Rightarrow> game_node \<Rightarrow> game_node option" where
  "relay_from (Join_Channel app c s) node = gzochid_channelclient_relay_join_from app c s node"
| "relay_from (Leave_Channel app c s) node = gzochid_channelclient_relay_leave_from app c s node"
| "relay_from (Close_Channel app c) node = gzochid_channelclient_relay_close_from app c node"
| "relay_from (Message_Channel app c msg) node = gzochid_channelclient_relay_message_from app c msg node"

fun relay_all_from :: "channel_request list \<Rightarrow> game_node \<Rightarrow> game_node option" where
  "relay_all_from [] node = Some node"
| "relay_all_from (req # reqs) node = Option.bind (relay_from req node) (relay_all_from reqs)"

text \<open>The name of the application is a proper string, and the message fits into a frame and a \<open>short\<close>.\<close>

fun request_app :: "channel_request \<Rightarrow> cstring" where
  "request_app (Join_Channel app c s) = app"
| "request_app (Leave_Channel app c s) = app"
| "request_app (Close_Channel app c) = app"
| "request_app (Message_Channel app c msg) = app"

definition channel_request_ok :: "channel_request \<Rightarrow> bool" where
  "channel_request_ok req \<longleftrightarrow> request_app req \<noteq> [] \<and> 0 \<notin> set (request_app req) \<and> length (request_body req) + 1 < 2 ^ 16
     \<and> (case req of Message_Channel app c msg \<Rightarrow> length msg < 2 ^ 15 | _ \<Rightarrow> True)"

lemma membership_message_eq: "membership_message opcode app c s = Some (frame_bytes (opcode # app @ 0 # be_long c @ be_long s))"
  using header_frame [of "length app + 20 - 3" app "be_long c @ be_long s" opcode]
  unfolding membership_message_def Let_def by (subst build_oids) simp_all

lemma relay_from_eq: "relay_from req node = Some (meta_write (frame_bytes (request_message req)) node)"
proof (cases req)
  case (Close_Channel app c)
  then show ?thesis
    using header_frame [of "length app + 12 - 3" app "be_long c" RELAY_CLOSE_FROM]
    by (simp add: gzochid_channelclient_relay_close_from_def Let_def) (subst build_oid [where k = 0], simp_all)
next
  case (Message_Channel app c msg)
  then show ?thesis
    using header_frame [of "length app + length msg + 14 - 3" app "be_long c @ be_short (word_of_nat (length msg)) @ msg"
        CHANNEL_RELAY_MESSAGE_FROM]
    by (simp add: gzochid_channelclient_relay_message_from_def Let_def) (subst build_bytes, simp_all)
next
  case (Join_Channel app c s)
  then show ?thesis by (simp add: gzochid_channelclient_relay_join_from_def membership_message_eq)
next
  case (Leave_Channel app c s)
  then show ?thesis by (simp add: gzochid_channelclient_relay_leave_from_def membership_message_eq)
qed

lemma relay_all_from_output:
  assumes "node_meta node \<noteq> None"
  shows "\<exists>node'. relay_all_from reqs node = Some node'
    \<and> meta_output node' = meta_output node @ concat (map frame_bytes (map request_message reqs))"
  using assms
proof (induction reqs arbitrary: node)
  case (Cons req reqs)
  let ?n = "meta_write (frame_bytes (request_message req)) node"
  from Cons.IH [of ?n] Cons.prems meta_write_output [OF Cons.prems] show ?case by (auto simp: relay_from_eq)
qed simp

lemmas written_parts = named_oid_at_written named_oid_at_written [where r = "[]", unfolded append_Nil2]
  long_at_written long_at_written [where r = "[]", unfolded append_Nil2]
  bytes_at_written bytes_at_written [where r = "[]", unfolded append_Nil2]

lemma requests_decoded:
  assumes "channel_request_ok req"
  shows "decode_channel_request (request_message req) = Some req" and "decode_relayed (relayed_message req) = Some req"
proof -
  have "decode_channel_request (request_message req) = Some req \<and> decode_relayed (relayed_message req) = Some req"
    using assms by (cases req) (simp_all add: channel_request_ok_def written_parts channel_opcodes)
  then show "decode_channel_request (request_message req) = Some req" and "decode_relayed (relayed_message req) = Some req"
    by simp_all
qed

lemma requests_framed:
  assumes "channel_request_ok req"
  shows "message_ok (request_message req)" and "message_ok (relayed_message req)"
    and "relay_frame req = frame_bytes (relayed_message req)"
  using assms by (cases req; simp add: channel_request_ok_def message_ok_def)+

lemma heard_requests:
  "heard n s (map (Channel_Node_Requests a) reqs) ns =
    (if ns n = Some s \<and> a \<noteq> n then concat (map relay_frame reqs) else [])"
  by (induction reqs) auto

lemma server_relays:
  assumes "\<forall>req \<in> set reqs. channel_request_ok req" and "channel_inv node_of (cs, socks)"
  shows "\<exists>st'. client_dispatch (channelserver_dispatch_message be n) (concat (map frame_bytes (map request_message reqs))) (cs, socks)
      = Some (st', length (concat (map frame_bytes (map request_message reqs))))
    \<and> (\<forall>s. pending (snd st') s = pending socks s @ (if map_of cs (node_of s) = Some s \<and> node_of s \<noteq> n
        then concat (map frame_bytes (map relayed_message reqs)) else []))"
proof -
  have run: "run_frames (handle_channel_request n) (map request_message reqs) st =
      channel_run be (map (Channel_Node_Requests n) reqs) st" for st
    using assms(1) by (induction reqs arbitrary: st)
      (auto simp: handle_channel_request_def requests_decoded serve_channel_def relay_request_eq split: prod.splits intro!: Option.bind_cong)
  have "\<forall>x \<in> set (map (Channel_Node_Requests n) reqs). channel_good node_of (snd (cs, socks)) x" by auto
  from channel_run_refines [OF assms(2) this, of be] obtain st' where
    st': "channel_run be (map (Channel_Node_Requests n) reqs) (cs, socks) = Some st'"
      "\<forall>s. pending (snd st') s = pending socks s @ heard (node_of s) s (map (Channel_Node_Requests n) reqs) (map_of cs)"
    by fastforce
  have "concat (map relay_frame reqs) = concat (map frame_bytes (map relayed_message reqs))"
    using assms(1) by (induction reqs) (simp_all add: requests_framed)
  then show ?thesis
    using channel_messages.dispatch_sent [of "map request_message reqs" be n "(cs, socks)"] assms(1) st'
    by (auto simp: requests_framed run heard_requests)
qed

lemma client_serves:
  assumes "\<forall>req \<in> set reqs. channel_request_ok req"
  shows "channelclient_client_dispatch (concat (map frame_bytes (map relayed_message reqs))) node =
    map_option (\<lambda>node. (node, length (concat (map frame_bytes (map relayed_message reqs))))) (serve_all_relayed reqs node)"
proof -
  have "run_frames handle_relayed (map relayed_message reqs) node = serve_all_relayed reqs node" for node
    using assms by (induction reqs arbitrary: node) (auto simp: handle_relayed_def requests_decoded intro!: Option.bind_cong)
  then show ?thesis
    using relayed_messages.dispatch_sent [of "map relayed_message reqs" node] assms
    by (simp add: channelclient_client_dispatch_def requests_framed)
qed

section \<open>Properties\<close>

text \<open>
  (C9) Channels across the cluster. When one application server makes requests on channels of proper
  applications, what it writes to its meta server makes the channel server write to the socket of
  every other application server bytes that this server handles as exactly these requests, in their
  order: its members of every channel are those that the requests put there, and the client of each
  of its sessions is sent each message of a channel once while the session is a member.
\<close>

theorem channel_requests_reach_nodes:
  assumes "\<forall>req \<in> set reqs. channel_request_ok req"
    and "node_meta a \<noteq> None" and "meta_output a = []"
    and "channel_inv node_of (cs, socks)" and "map_of cs (node_of k) = Some k" and "node_of k \<noteq> n" and "pending socks k = []"
    and "node_ok b"
  shows "\<exists>a' st' b'. relay_all_from reqs a = Some a'
    \<and> channelserver_client_dispatch be n (meta_output a') (cs, socks) = Some (st', length (meta_output a'))
    \<and> channelclient_client_dispatch (pending (snd st') k) b = Some (b', length (pending (snd st') k))
    \<and> node_ok b' \<and> membership b' = all_members_after (mapped b) reqs (membership b)
    \<and> (\<forall>app s j. session_socket b app s = Some j \<longrightarrow>
        pending (node_sockets b') j = pending (node_sockets b) j @ all_channel_sent (mapped b) app s reqs (membership b))"
proof -
  obtain a' where a': "relay_all_from reqs a = Some a'"
      "meta_output a' = concat (map frame_bytes (map request_message reqs))"
    using relay_all_from_output [OF assms(2), of reqs] assms(3) by auto
  obtain st' where st': "channelserver_client_dispatch be n (meta_output a') (cs, socks) = Some (st', length (meta_output a'))"
      "pending (snd st') k = concat (map frame_bytes (map relayed_message reqs))"
    using server_relays [OF assms(1,4), of be n] assms(5-7) a'(2) unfolding channelserver_client_dispatch_def by auto
  obtain b' where b': "serve_all_relayed reqs b = Some b'" "node_ok b'"
      "membership b' = all_members_after (mapped b) reqs (membership b)"
      "\<forall>app s j. session_socket b app s = Some j \<longrightarrow>
        pending (node_sockets b') j = pending (node_sockets b) j @ all_channel_sent (mapped b) app s reqs (membership b)"
    using serve_all_implements [OF assms(8), of reqs] by blast
  have "channelclient_client_dispatch (pending (snd st') k) b = Some (b', length (pending (snd st') k))"
    unfolding st'(2) client_serves [OF assms(1)] by (simp add: b'(1))
  with a'(1) st'(1) b'(2-4) show ?thesis by blast
qed

theorem channel_requests_reach_nodes_witness:
  "\<exists>a' st' b'. relay_all_from [Join_Channel [99] 7 2, Message_Channel [99] 7 [65]]
        (chat_node\<lparr>node_meta := Some gzochid_reconnectable_socket_new\<rparr>) = Some a'
    \<and> channelserver_client_dispatch False 1 (meta_output a') ([(1, 10), (2, 20)], \<lambda>s. Some \<lparr>send_buffer = [], write_source = False\<rparr>)
        = Some (st', length (meta_output a'))
    \<and> channelclient_client_dispatch (pending (snd st') 20) chat_node = Some (b', length (pending (snd st') 20))
    \<and> membership b' [99] 7 = {1, 2} \<and> pending (node_sockets b') 11 = [0, 1, 0x31, 65]"
proof -
  let ?reqs = "[Join_Channel [99] 7 2, Message_Channel [99] 7 [65]]"
  let ?a = "chat_node\<lparr>node_meta := Some gzochid_reconnectable_socket_new\<rparr>"
  let ?node_of = "\<lambda>s :: sock. if s = 10 then 1 else 2 :: guint"
  let ?socks = "\<lambda>s :: sock. Some \<lparr>send_buffer = [], write_source = False\<rparr>"
  have "\<forall>req \<in> set ?reqs. channel_request_ok req" by (simp add: channel_request_ok_def)
  moreover have "node_meta ?a \<noteq> None" "meta_output ?a = []"
    by (simp_all add: meta_output_def gzochid_reconnectable_socket_new_def)
  moreover have "channel_inv ?node_of ([(1, 10), (2, 20)], ?socks)" by (simp add: channel_inv_def)
  moreover have "map_of [(1, 10), (2, 20)] (?node_of 20) = Some 20" "?node_of 20 \<noteq> 1" "pending ?socks 20 = []"
    by (simp_all add: pending_def)
  ultimately obtain a' st' b' where r: "relay_all_from ?reqs ?a = Some a'"
      "channelserver_client_dispatch False 1 (meta_output a') ([(1, 10), (2, 20)], ?socks) = Some (st', length (meta_output a'))"
      "channelclient_client_dispatch (pending (snd st') 20) chat_node = Some (b', length (pending (snd st') 20))"
      "membership b' = all_members_after (mapped chat_node) ?reqs (membership chat_node)"
      "\<forall>app s j. session_socket chat_node app s = Some j \<longrightarrow> pending (node_sockets b') j =
        pending (node_sockets chat_node) j @ all_channel_sent (mapped chat_node) app s ?reqs (membership chat_node)"
    using channel_requests_reach_nodes [OF _ _ _ _ _ _ _ chat_node_ok, of ?reqs ?a ?node_of "[(1, 10), (2, 20)]" ?socks 20 1 False]
    by blast
  have m: "mapped chat_node [99] s \<longleftrightarrow> s = 1 \<or> s = 2" for s by (simp add: mapped_def chat_node_tables)
  have "membership b' [99] 7 = {1, 2}" unfolding r(4) by (auto simp: m chat_node_tables)
  moreover have "pending (node_sockets b') 11 = [0, 1, 0x31, 65]"
    using r(5) [rule_format, of "[99]" 2 11]
    by (simp add: m chat_node_tables client_frame_def GAME_SESSION_MESSAGE_def be_short_def)
      (simp add: chat_node_def pending_def)
  ultimately show ?thesis using r(1-3) by blast
qed

text \<open>
  (C39) A session of another server never joins. When a transaction lets a session join or leave a
  channel and the session has no client on this server, the commit changes nothing and sends nothing
  to the meta server, although \<open>channel.c\<close> says that the request is forwarded to the server to
  which the session is connected.
\<close>

theorem remote_membership_lost:
  assumes "node_apps node app \<noteq> None" and "session_client node app s = None"
  shows "channel_side_effect_commit app (Some (Membership_Effect op c s)) node = Some node"
  using assms by (cases op) (auto simp: channel_side_effect_commit_def gzochid_channel_join_direct_def
    gzochid_channel_leave_direct_def session_client_def)

theorem remote_membership_lost_witness:
  "channel_side_effect_commit [99] (Some (Membership_Effect Channel_Op_Join 7 8))
      (chat_node\<lparr>node_meta := Some gzochid_reconnectable_socket_new\<rparr>) =
    Some (chat_node\<lparr>node_meta := Some gzochid_reconnectable_socket_new\<rparr>)"
  using remote_membership_lost [of "chat_node\<lparr>node_meta := Some gzochid_reconnectable_socket_new\<rparr>" "[99]" 8 Channel_Op_Join 7]
  by (simp add: session_client_def chat_node_def)

text \<open>
  A message with an outdated list of members. A transaction notes the members of a channel when
  its task runs; when both members have lost their clients before the commit and one has been purged,
  the commit frees the list of the channel with its last member and then searches it for the next.
\<close>

theorem stale_members_fault:
  "send_channel_message [99] 7 [65] (chat_node\<lparr>node_sequences := [5 \<mapsto> [3, 4]]\<rparr>) = Some (Some (Message_Effect 7 [3, 4] [65]))
   \<and> channel_side_effect_commit [99] (Some (Message_Effect 7 [3, 4] [65])) (chat_node\<lparr>node_sequences := [5 \<mapsto> [3]]\<rparr>) = None"
  by (simp add: chat_node_def send_channel_message_def channel_side_effect_commit_def send_channel_message_direct_def
    remove_session_def remove_channel_def g_sequence_remove_def update_app_def gzochid_util_guint64_data_compare_def)

end
