(* ===== verification/Sessionclient.thy ===== *)
theory Sessionclient
  imports App_Channels Sessionserver Participants
begin

text \<open>
  The sessions of an application server that transactions send to: the session client,
  \<open>gzochi-server/src/sessionclient.c\<close> and \<open>sessionclient-protocol.c\<close>, with the messages it sends to the
  meta server and the handlers of the messages that the meta server relays; and the transactional
  operations of \<open>session.c\<close>, which are carried out when the transaction commits; the source keeps a pointer to the
  bytes of a message until then, and callers must not change them, so that the model keeps the bytes. The last part composes
  the session clients of two application servers with the session server.
\<close>

section \<open>sessionclient.c: messages to the meta server\<close>

definition session_message :: "byte \<Rightarrow> cstring \<Rightarrow> guint64 \<Rightarrow> byte list option" where
  "session_message opcode app session_id = do {
     let app_len = length app;
     let total_len = app_len + 12;
     let buf = replicate total_len 0;
     buf \<leftarrow> gzochi_common_io_write_short (word_of_nat (total_len - 3)) buf 0;
     buf \<leftarrow> wr buf 2 opcode;
     buf \<leftarrow> memcpy buf 3 (app @ [0]);
     buf \<leftarrow> gzochi_common_io_write_long session_id buf (app_len + 4);
     Some buf
   }"

definition gzochid_sessionclient_session_connected :: "cstring \<Rightarrow> guint64 \<Rightarrow> game_node \<Rightarrow> game_node option" where
  "gzochid_sessionclient_session_connected app session_id node =
     map_option (\<lambda>buf. meta_write buf node) (session_message SESSION_CONNECTED app session_id)"

definition gzochid_sessionclient_session_disconnected :: "cstring \<Rightarrow> guint64 \<Rightarrow> game_node \<Rightarrow> game_node option" where
  "gzochid_sessionclient_session_disconnected app session_id node =
     map_option (\<lambda>buf. meta_write buf node) (session_message SESSION_DISCONNECTED app session_id)"

definition gzochid_sessionclient_relay_disconnect_from :: "cstring \<Rightarrow> guint64 \<Rightarrow> game_node \<Rightarrow> game_node option" where
  "gzochid_sessionclient_relay_disconnect_from app session_id node =
     map_option (\<lambda>buf. meta_write buf node) (session_message RELAY_DISCONNECT_FROM app session_id)"

definition gzochid_sessionclient_relay_message_from :: "cstring \<Rightarrow> guint64 \<Rightarrow> byte list \<Rightarrow> game_node \<Rightarrow> game_node option" where
  "gzochid_sessionclient_relay_message_from app session_id msg node = do {
     let app_len = length app;
     let msg_len = length msg;
     let total_len = app_len + msg_len + 14;
     let buf = replicate total_len 0;
     buf \<leftarrow> gzochi_common_io_write_short (word_of_nat (total_len - 3)) buf 0;
     buf \<leftarrow> wr buf 2 RELAY_MESSAGE_FROM;
     buf \<leftarrow> memcpy buf 3 (app @ [0]);
     buf \<leftarrow> gzochi_common_io_write_long session_id buf (app_len + 4);
     buf \<leftarrow> gzochi_common_io_write_short (word_of_nat msg_len) buf (app_len + 12);
     buf \<leftarrow> memcpy buf (app_len + 14) msg;
     Some (meta_write buf node)
   }"

section \<open>sessionclient.c: messages relayed by the meta server\<close>

datatype sessionclient_error = Sessionclient_Not_Mapped

definition gzochid_sessionclient_relay_disconnect_to ::
    "cstring \<Rightarrow> guint64 \<Rightarrow> game_node \<Rightarrow> (game_node \<times> sessionclient_error option) option" where
  "gzochid_sessionclient_relay_disconnect_to app session_id node =
     (case node_apps node app of
        None \<Rightarrow> Some (node, Some Sessionclient_Not_Mapped)
      | Some ctx \<Rightarrow>
          (case oids_to_clients ctx session_id of
             None \<Rightarrow> Some (node, Some Sessionclient_Not_Mapped)
           | Some client \<Rightarrow> map_option (\<lambda>node. (node, None)) (gzochid_game_client_disconnect client node)))"

definition gzochid_sessionclient_relay_message_to ::
    "cstring \<Rightarrow> guint64 \<Rightarrow> byte list \<Rightarrow> game_node \<Rightarrow> (game_node \<times> sessionclient_error option) option" where
  "gzochid_sessionclient_relay_message_to app session_id msg node =
     (case node_apps node app of
        None \<Rightarrow> Some (node, Some Sessionclient_Not_Mapped)
      | Some ctx \<Rightarrow>
          (case oids_to_clients ctx session_id of
             None \<Rightarrow> Some (node, Some Sessionclient_Not_Mapped)
           | Some client \<Rightarrow> map_option (\<lambda>node. (node, None)) (gzochid_game_client_send client msg node)))"

section \<open>sessionclient-protocol.c\<close>

definition dispatch_relay_disconnect_to :: "byte list \<Rightarrow> nat \<Rightarrow> 16 word \<Rightarrow> game_node \<Rightarrow> game_node option" where
  "dispatch_relay_disconnect_to m message len node = do {
     r \<leftarrow> gzochid_protocol_read_str m message (unat len);
     case r of
       None \<Rightarrow> Some node
     | Some (app, str_len) \<Rightarrow>
         if str_len \<le> 1 \<or> unat len < str_len + 8 then Some node
         else do {
           session_id \<leftarrow> gzochi_common_io_read_long m (message + str_len);
           map_option fst (gzochid_sessionclient_relay_disconnect_to app session_id node)
         }
   }"

definition session_dispatch_relay_message_to :: "byte list \<Rightarrow> nat \<Rightarrow> 16 word \<Rightarrow> game_node \<Rightarrow> game_node option" where
  "session_dispatch_relay_message_to m message len node = do {
     r \<leftarrow> gzochid_protocol_read_str m message (unat len);
     case r of
       None \<Rightarrow> Some node
     | Some (app, str_len) \<Rightarrow>
         if str_len \<le> 1 \<or> unat len < str_len + 8 then Some node
         else do {
           session_id \<leftarrow> gzochi_common_io_read_long m (message + str_len);
           msg \<leftarrow> gzochid_protocol_read_bytes m (message + str_len + 8) (unat len - str_len - 8);
           case msg of
             None \<Rightarrow> Some node
           | Some msg \<Rightarrow> map_option fst (gzochid_sessionclient_relay_message_to app session_id msg node)
         }
   }"

definition sessionclient_dispatch_message :: "byte list \<Rightarrow> nat \<Rightarrow> 16 word \<Rightarrow> game_node \<Rightarrow> game_node option" where
  "sessionclient_dispatch_message m message len node = do {
     opcode \<leftarrow> rd m message;
     let payload = message + 1;
     let len = len - 1;
     if opcode = RELAY_DISCONNECT_TO then dispatch_relay_disconnect_to m payload len node
     else if opcode = RELAY_MESSAGE_TO then session_dispatch_relay_message_to m payload len node
     else Some node
   }"

definition sessionclient_client_dispatch :: "byte list \<Rightarrow> game_node \<Rightarrow> (game_node \<times> nat) option" where
  "sessionclient_client_dispatch = client_dispatch sessionclient_dispatch_message"

section \<open>session.c: operations of a transaction\<close>

datatype client_session_pending_operation =
    Op_Disconnect (op_target: guint64)
  | Op_Login_Success (op_target: guint64)
  | Op_Login_Failure (op_target: guint64)
  | Op_Message (op_target: guint64) "byte list"

record client_session_tx =
  login_failed :: bool
  login_operation :: "client_session_pending_operation option"
  session_operations :: "client_session_pending_operation list"

definition create_session_tx :: client_session_tx where
  "create_session_tx = \<lparr>login_failed = False, login_operation = None, session_operations = []\<rparr>"

text \<open>
  The calls of a transaction get the reference to the session from the data service; there is one and
  it is not new, or the assertion stops the server. The session was removed before a disconnect, with
  \<open>removed\<close> saying whether this succeeded.
\<close>

definition session_reference :: "(guint64 \<times> reference_state) option \<Rightarrow> guint64 option" where
  "session_reference ref = (case ref of None \<Rightarrow> None | Some (oid, state) \<Rightarrow> if state = Ref_New then None else Some oid)"

definition gzochid_client_session_disconnect ::
    "(guint64 \<times> reference_state) option \<Rightarrow> bool \<Rightarrow> client_session_tx \<Rightarrow> client_session_tx option" where
  "gzochid_client_session_disconnect ref removed tx_context = do {
     oid \<leftarrow> session_reference ref;
     Some (if removed then tx_context\<lparr>session_operations := session_operations tx_context @ [Op_Disconnect oid]\<rparr> else tx_context)
   }"

definition gzochid_client_session_send_login_success ::
    "(guint64 \<times> reference_state) option \<Rightarrow> client_session_tx \<Rightarrow> client_session_tx option" where
  "gzochid_client_session_send_login_success ref tx_context = do {
     oid \<leftarrow> session_reference ref;
     if login_operation tx_context \<noteq> None then None
     else Some (tx_context\<lparr>login_operation := Some (Op_Login_Success oid)\<rparr>)
   }"

definition gzochid_client_session_send_login_failure ::
    "(guint64 \<times> reference_state) option \<Rightarrow> client_session_tx \<Rightarrow> client_session_tx option" where
  "gzochid_client_session_send_login_failure ref tx_context = do {
     oid \<leftarrow> session_reference ref;
     if login_operation tx_context \<noteq> None then None
     else Some (tx_context\<lparr>login_operation := Some (Op_Login_Failure oid), login_failed := True\<rparr>)
   }"

definition gzochid_client_session_send_message ::
    "(guint64 \<times> reference_state) option \<Rightarrow> byte list \<Rightarrow> client_session_tx \<Rightarrow> client_session_tx option" where
  "gzochid_client_session_send_message ref msg tx_context = do {
     oid \<leftarrow> session_reference ref;
     Some (tx_context\<lparr>session_operations := session_operations tx_context @ [Op_Message oid msg]\<rparr>)
   }"

text \<open>
  The length of a message is a \<open>short\<close>. A negative one becomes the size of an allocation that cannot
  succeed.
\<close>

definition forward_disconnect :: "cstring \<Rightarrow> guint64 \<Rightarrow> game_node \<Rightarrow> game_node option" where
  "forward_disconnect app target_session_oid node = gzochid_sessionclient_relay_disconnect_from app target_session_oid node"

definition forward_message :: "cstring \<Rightarrow> guint64 \<Rightarrow> byte list \<Rightarrow> game_node \<Rightarrow> game_node option" where
  "forward_message app target_session_oid msg node =
     (let len = sint (word_of_nat (length msg) :: 16 word)
      in if len < 0 then None
         else gzochid_sessionclient_relay_message_from app target_session_oid (take (nat len) msg) node)"

definition session_commit_operation ::
    "cstring \<Rightarrow> client_session_tx \<Rightarrow> client_session_pending_operation \<Rightarrow> game_node \<Rightarrow> game_node option" where
  "session_commit_operation app tx_context op node = do {
     ctx \<leftarrow> node_apps node app;
     let client = oids_to_clients ctx (op_target op);
     if client = None \<and> node_meta node = None then Some node
     else case op of
       Op_Disconnect s \<Rightarrow>
         (case client of
            Some client \<Rightarrow> gzochid_game_client_disconnect client node
          | None \<Rightarrow> forward_disconnect app s node)
     | Op_Login_Success s \<Rightarrow> Option.bind client (\<lambda>client. gzochid_game_client_login_success client node)
     | Op_Login_Failure s \<Rightarrow> Option.bind client (\<lambda>client. gzochid_game_client_login_failure client node)
     | Op_Message s msg \<Rightarrow> do {
         to_login \<leftarrow> (if login_failed tx_context then map_option op_target (login_operation tx_context) else Some s);
         if \<not> login_failed tx_context \<or> s \<noteq> to_login
         then case client of
             Some client \<Rightarrow> gzochid_game_client_send client msg node
           | None \<Rightarrow> forward_message app s msg node
         else Some node
       }
   }"

fun session_commit_operations ::
    "cstring \<Rightarrow> client_session_tx \<Rightarrow> client_session_pending_operation list \<Rightarrow> game_node \<Rightarrow> game_node option" where
  "session_commit_operations app tx_context [] node = Some node"
| "session_commit_operations app tx_context (op # ops) node =
     Option.bind (session_commit_operation app tx_context op node) (session_commit_operations app tx_context ops)"

definition session_commit :: "cstring \<Rightarrow> client_session_tx \<Rightarrow> game_node \<Rightarrow> game_node option" where
  "session_commit app tx_context node = do {
     node \<leftarrow> (case login_operation tx_context of
         None \<Rightarrow> Some node
       | Some op \<Rightarrow> session_commit_operation app tx_context op node);
     session_commit_operations app tx_context (session_operations tx_context) node
   }"

section \<open>What the commit of a transaction sends\<close>

fun client_bytes :: "client_session_pending_operation \<Rightarrow> byte list" where
  "client_bytes (Op_Disconnect s) = [0, 0, GAME_SESSION_DISCONNECTED]"
| "client_bytes (Op_Login_Success s) = [0, 0, GAME_LOGIN_SUCCESS]"
| "client_bytes (Op_Login_Failure s) = [0, 0, GAME_LOGIN_FAILURE]"
| "client_bytes (Op_Message s msg) = client_frame msg"

fun forwarded_message :: "cstring \<Rightarrow> client_session_pending_operation \<Rightarrow> byte list" where
  "forwarded_message app (Op_Disconnect s) = RELAY_DISCONNECT_FROM # app @ 0 # be_long s"
| "forwarded_message app (Op_Message s msg) =
     RELAY_MESSAGE_FROM # app @ 0 # be_long s @ be_short (word_of_nat (length msg)) @ msg"
| "forwarded_message app op = []"

text \<open>Messages to the session whose login failed are not sent.\<close>

fun suppressed :: "client_session_tx \<Rightarrow> client_session_pending_operation \<Rightarrow> bool" where
  "suppressed tx (Op_Message s msg) \<longleftrightarrow> login_failed tx \<and> map_option op_target (login_operation tx) = Some s"
| "suppressed tx op \<longleftrightarrow> False"

text \<open>
  What the commit relies on: the result of a login goes to a client of this server unless the server
  is alone, and a message that is forwarded has less than 32768 bytes.
\<close>

fun forwardable :: "client_session_pending_operation \<Rightarrow> bool" where
  "forwardable (Op_Disconnect s) \<longleftrightarrow> True"
| "forwardable (Op_Message s msg) \<longleftrightarrow> length msg < 2 ^ 15"
| "forwardable op \<longleftrightarrow> False"

definition operation_ok :: "cstring \<Rightarrow> game_node \<Rightarrow> client_session_pending_operation \<Rightarrow> bool" where
  "operation_ok app node op \<longleftrightarrow>
     session_client node app (op_target op) = None \<longrightarrow> node_meta node \<noteq> None \<longrightarrow> forwardable op"

lemma session_message_eq: "session_message opcode app s = Some (frame_bytes (opcode # app @ 0 # be_long s))"
  using header_frame [of "length app + 12 - 3" app "be_long s" opcode]
  unfolding session_message_def Let_def by (subst build_oid [where k = 0]) simp_all

lemma sessionclient_relay_message_eq:
  "gzochid_sessionclient_relay_message_from app s msg node =
    Some (meta_write (frame_bytes (forwarded_message app (Op_Message s msg))) node)"
  using header_frame [of "length app + length msg + 14 - 3" app "be_long s @ be_short (word_of_nat (length msg)) @ msg"
    RELAY_MESSAGE_FROM]
  unfolding gzochid_sessionclient_relay_message_from_def Let_def by (subst build_bytes) simp_all

lemma forward_message_eq:
  assumes "length msg < 2 ^ 15"
  shows "forward_message app s msg node = Some (meta_write (frame_bytes (forwarded_message app (Op_Message s msg))) node)"
proof -
  have "sint (word_of_nat (length msg) :: 16 word) = int (length msg)"
    using assms by (simp add: signed_of_nat signed_take_bit_int_eq_self)
  then show ?thesis by (simp only: forward_message_def Let_def) (simp add: sessionclient_relay_message_eq)
qed

text \<open>What an operation changes: the sockets of clients and what is written to the meta server.\<close>

definition session_kept :: "game_node \<Rightarrow> game_node \<Rightarrow> bool" where
  "session_kept node node' \<longleftrightarrow> node_apps node' = node_apps node \<and> node_clients node' = node_clients node
     \<and> node_sequences node' = node_sequences node \<and> node_next node' = node_next node
     \<and> dom (node_sockets node') = dom (node_sockets node) \<and> (node_meta node' = None \<longleftrightarrow> node_meta node = None)"

lemma session_keptD:
  assumes "session_kept node node'"
  shows "session_client node' = session_client node" and "session_socket node' = session_socket node"
    and "clients_live node' = clients_live node" and "operation_ok app node' = operation_ok app node"
proof -
  show c: "session_client node' = session_client node"
    using assms by (simp add: session_kept_def session_client_def fun_eq_iff)
  show s: "session_socket node' = session_socket node"
    using assms c by (simp add: session_kept_def session_socket_def [abs_def])
  show "clients_live node' = clients_live node"
    using assms unfolding clients_live_def c s by (auto simp: session_kept_def dom_def set_eq_iff)
  show "operation_ok app node' = operation_ok app node"
    using assms unfolding operation_ok_def [abs_def] c by (simp add: session_kept_def)
qed

lemma session_kept_trans: "session_kept a b \<Longrightarrow> session_kept b c \<Longrightarrow> session_kept a c"
  by (simp add: session_kept_def)

definition op_forwarded :: "cstring \<Rightarrow> client_session_tx \<Rightarrow> game_node \<Rightarrow> client_session_pending_operation \<Rightarrow> byte list" where
  "op_forwarded app tx node op =
     (if session_client node app (op_target op) = None \<and> node_meta node \<noteq> None \<and> \<not> suppressed tx op
      then frame_bytes (forwarded_message app op) else [])"

definition op_sent :: "cstring \<Rightarrow> client_session_tx \<Rightarrow> game_node \<Rightarrow> sock \<Rightarrow> client_session_pending_operation \<Rightarrow> byte list" where
  "op_sent app tx node k op =
     (if session_socket node app (op_target op) = Some k \<and> \<not> suppressed tx op then client_bytes op else [])"

lemma commit_operation_sends:
  assumes live: "clients_live node" and app: "node_apps node app \<noteq> None" and ok: "operation_ok app node op"
    and wf: "login_failed tx \<longrightarrow> login_operation tx \<noteq> None"
  shows "\<exists>node'. session_commit_operation app tx op node = Some node' \<and> session_kept node node'
    \<and> (\<forall>k. pending (node_sockets node') k = pending (node_sockets node) k @ op_sent app tx node k op)
    \<and> meta_output node' = meta_output node @ op_forwarded app tx node op"
proof -
  obtain ctx where ctx: "node_apps node app = Some ctx" using app by blast
  have cl: "oids_to_clients ctx (op_target op) = session_client node app (op_target op)"
    by (simp add: session_client_def ctx)
  show ?thesis
  proof (cases "suppressed tx op")
    case True
    then have "session_commit_operation app tx op node = Some node"
      using cl by (cases op) (auto simp: session_commit_operation_def ctx Let_def)
    with True show ?thesis by (simp add: session_kept_def op_sent_def op_forwarded_def)
  next
    case run: False
    show ?thesis
    proof (cases "session_client node app (op_target op)")
      case None
      then have no: "session_socket node app (op_target op) = None" by (simp add: session_socket_def)
      show ?thesis
      proof (cases "node_meta node")
        case nometa: None
        then have "session_commit_operation app tx op node = Some node"
          using None cl by (simp add: session_commit_operation_def ctx)
        with no nometa None show ?thesis by (simp add: session_kept_def op_sent_def op_forwarded_def)
      next
        case (Some rs)
        let ?n = "meta_write (frame_bytes (forwarded_message app op)) node"
        have f: "forwardable op" using ok None Some by (simp add: operation_ok_def)
        have "session_commit_operation app tx op node = Some ?n"
          using f run None cl Some wf
          by (cases op) (auto simp: session_commit_operation_def ctx Let_def forward_disconnect_def forward_message_eq
              gzochid_sessionclient_relay_disconnect_from_def session_message_eq simp del: forwarded_message.simps(2))
        moreover have "meta_output ?n = meta_output node @ frame_bytes (forwarded_message app op)"
          by (rule meta_write_output) (simp add: Some)
        ultimately show ?thesis
          using no None Some run by (simp add: session_kept_def op_sent_def op_forwarded_def)
      qed
    next
      case (Some client)
      have e: "session_commit_operation app tx op node = game_client_write client (client_bytes op) node"
        using run Some cl wf
        by (cases op) (auto simp: session_commit_operation_def ctx Let_def gzochid_game_client_disconnect_def
            gzochid_game_client_login_success_def gzochid_game_client_login_failure_def game_client_send_eq)
      obtain k socks where w: "game_client_write client (client_bytes op) node = Some (node\<lparr>node_sockets := socks\<rparr>)"
          "session_socket node app (op_target op) = Some k" "dom socks = dom (node_sockets node)"
          "\<forall>j. pending socks j = pending (node_sockets node) j @ (if j = k then client_bytes op else [])"
        by (rule game_client_write_live [OF live Some])
      have "meta_output (node\<lparr>node_sockets := socks\<rparr>) = meta_output node" by (simp add: meta_output_def)
      then show ?thesis
        using e w run Some by (auto simp: session_kept_def op_sent_def op_forwarded_def)
    qed
  qed
qed

lemma commit_operations_send:
  assumes "clients_live node" and "node_apps node app \<noteq> None" and "\<forall>op \<in> set ops. operation_ok app node op"
    and "login_failed tx \<longrightarrow> login_operation tx \<noteq> None"
  shows "\<exists>node'. session_commit_operations app tx ops node = Some node' \<and> session_kept node node'
    \<and> (\<forall>k. pending (node_sockets node') k = pending (node_sockets node) k @ concat (map (op_sent app tx node k) ops))
    \<and> meta_output node' = meta_output node @ concat (map (op_forwarded app tx node) ops)"
  using assms(1-3)
proof (induction ops arbitrary: node)
  case Nil
  then show ?case by (simp add: session_kept_def)
next
  case (Cons op ops)
  obtain n1 where n1: "session_commit_operation app tx op node = Some n1" "session_kept node n1"
      "\<forall>k. pending (node_sockets n1) k = pending (node_sockets node) k @ op_sent app tx node k op"
      "meta_output n1 = meta_output node @ op_forwarded app tx node op"
    using commit_operation_sends [OF Cons.prems(1,2) _ assms(4), of op] Cons.prems(3) by auto
  note k = session_keptD [OF n1(2)]
  have "op_sent app tx n1 = op_sent app tx node" "op_forwarded app tx n1 = op_forwarded app tx node"
    using n1(2) k by (auto simp: op_sent_def op_forwarded_def fun_eq_iff session_kept_def)
  moreover have "node_apps n1 app \<noteq> None" using n1(2) Cons.prems(2) by (simp add: session_kept_def)
  ultimately show ?case
    using Cons.IH [of n1] Cons.prems n1 k session_kept_trans [OF n1(2)] by auto
qed

definition tx_operations :: "client_session_tx \<Rightarrow> client_session_pending_operation list" where
  "tx_operations tx = (case login_operation tx of None \<Rightarrow> [] | Some op \<Rightarrow> [op]) @ session_operations tx"

lemma session_commit_eq: "session_commit app tx = session_commit_operations app tx (tx_operations tx)"
  by (auto simp: session_commit_def tx_operations_def fun_eq_iff split: option.splits)

section \<open>What the client makes of a message\<close>

fun serve_relayed_session :: "session_request \<Rightarrow> game_node \<Rightarrow> game_node option" where
  "serve_relayed_session (Relay_Disconnect app s) node = map_option fst (gzochid_sessionclient_relay_disconnect_to app s node)"
| "serve_relayed_session (Relay_Message app s msg) node = map_option fst (gzochid_sessionclient_relay_message_to app s msg node)"
| "serve_relayed_session req node = Some node"

fun decode_relayed_session :: "byte list \<Rightarrow> session_request option" where
  "decode_relayed_session [] = None"
| "decode_relayed_session (opcode # x) =
     Option.bind (named_oid_at x) (\<lambda>(app, session_id, x).
       if opcode = RELAY_DISCONNECT_TO then Some (Relay_Disconnect app session_id)
       else if opcode = RELAY_MESSAGE_TO then map_option (\<lambda>(msg, _). Relay_Message app session_id msg) (bytes_at x)
       else None)"

definition handle_relayed_session :: "byte list \<Rightarrow> game_node \<Rightarrow> game_node option" where
  "handle_relayed_session msg node =
     (case decode_relayed_session msg of None \<Rightarrow> Some node | Some req \<Rightarrow> serve_relayed_session req node)"

lemma session_to_implements:
  assumes "p + unat len \<le> length m"
  shows "dispatch_relay_disconnect_to m p len node = handle_relayed_session (RELAY_DISCONNECT_TO # take (unat len) (drop p m)) node"
    and "session_dispatch_relay_message_to m p len node =
      handle_relayed_session (RELAY_MESSAGE_TO # take (unat len) (drop p m)) node"
proof -
  show "dispatch_relay_disconnect_to m p len node = handle_relayed_session (RELAY_DISCONNECT_TO # take (unat len) (drop p m)) node"
    by (cases rule: named_oid_cases [OF assms])
      (auto simp: dispatch_relay_disconnect_to_def handle_relayed_session_def split: option.splits)
  show "session_dispatch_relay_message_to m p len node =
      handle_relayed_session (RELAY_MESSAGE_TO # take (unat len) (drop p m)) node"
  proof (cases rule: named_oid_cases [OF assms])
    case (1 r)
    then show ?thesis
      by (auto simp: session_dispatch_relay_message_to_def handle_relayed_session_def split: option.splits)
  next
    case (2 s k v)
    have "p + (k + 8) + (unat len - (k + 8)) \<le> length m" using assms 2(3) by simp
    from read_bytes_at [OF this] 2 show ?thesis
      by (auto simp: session_dispatch_relay_message_to_def handle_relayed_session_def RELAY_DISCONNECT_TO_def RELAY_MESSAGE_TO_def
        add.assoc split: option.splits)
  qed
qed

interpretation relayed_session_messages: message_handler sessionclient_dispatch_message handle_relayed_session
proof
  fix len :: "16 word" and p and m :: "byte list" and node
  assume len: "0 < unat len" "p + unat len \<le> length m"
  note impl = session_to_implements [OF message_head(2) [OF len]]
  have "handle_relayed_session (m ! p # x) node = Some node" if "m ! p \<notin> {RELAY_DISCONNECT_TO, RELAY_MESSAGE_TO}" for x
    using that by (auto simp: handle_relayed_session_def split: option.splits bind_splits)
  then show "sessionclient_dispatch_message m p len node = handle_relayed_session (take (unat len) (drop p m)) node"
    unfolding sessionclient_dispatch_message_def message_head(1,3) [OF len] Let_def bind.bind_lunit impl by auto
qed

section \<open>From one application server to another\<close>

text \<open>The operations that can be for a session of another server, as requests to the session server.\<close>

fun op_request :: "cstring \<Rightarrow> client_session_pending_operation \<Rightarrow> session_request" where
  "op_request app (Op_Message s msg) = Relay_Message app s msg"
| "op_request app op = Relay_Disconnect app (op_target op)"

fun op_relayed :: "cstring \<Rightarrow> client_session_pending_operation \<Rightarrow> byte list" where
  "op_relayed app (Op_Message s msg) = RELAY_MESSAGE_TO # app @ 0 # be_long s @ be_short (word_of_nat (length msg)) @ msg"
| "op_relayed app op = RELAY_DISCONNECT_TO # app @ 0 # be_long (op_target op)"

definition app_ok :: "cstring \<Rightarrow> bool" where
  "app_ok app \<longleftrightarrow> app \<noteq> [] \<and> 0 \<notin> set app \<and> length app < 2 ^ 14"

lemma operations_decoded:
  assumes "app_ok app" and "forwardable op"
  shows "decode_session_request (forwarded_message app op) = Some (op_request app op)"
    and "decode_relayed_session (op_relayed app op) = Some (op_request app op)"
    and "message_ok (forwarded_message app op)" and "message_ok (op_relayed app op)"
proof -
  note w = named_oid_at_written named_oid_at_written [where r = "[]", unfolded append_Nil2]
    bytes_at_written [where r = "[]", unfolded append_Nil2]
  show "decode_session_request (forwarded_message app op) = Some (op_request app op)"
    using assms by (cases op) (simp_all add: app_ok_def w session_opcodes)
  show "decode_relayed_session (op_relayed app op) = Some (op_request app op)"
    using assms by (cases op) (simp_all add: app_ok_def w RELAY_DISCONNECT_TO_def RELAY_MESSAGE_TO_def)
  show "message_ok (forwarded_message app op)" "message_ok (op_relayed app op)"
    using assms by (cases op; simp add: app_ok_def message_ok_def)+
qed

lemma spec_step_relays:
  assumes "forwardable op"
  shows "spec_step (Node_Requests n (op_request app op)) a = (a, to_owner a (app, op_target op) (frame_bytes (op_relayed app op)))"
  using assms by (cases op) (simp_all add: disconnect_frame_def message_frame_def)

text \<open>The operations for the sessions on the node with a certain socket.\<close>

abbreviation ops_at :: "cstring \<Rightarrow> session_spec \<Rightarrow> sock \<Rightarrow> client_session_pending_operation list \<Rightarrow> client_session_pending_operation list" where
  "ops_at app a k ops \<equiv> filter (\<lambda>op. Option.bind (spec_owner a (app, op_target op)) (spec_nodes a) = Some k) ops"

lemma spec_run_relays:
  assumes "\<forall>op \<in> set ops. forwardable op"
  shows "fst (spec_run (map (\<lambda>op. Node_Requests n (op_request app op)) ops) a) = a"
    and "sent_to k (snd (spec_run (map (\<lambda>op. Node_Requests n (op_request app op)) ops) a)) =
      concat (map frame_bytes (map (op_relayed app) (ops_at app a k ops)))"
  using assms by (induction ops)
    (simp_all add: spec_step_relays case_prod_unfold sent_to_append to_owner_def split: option.splits)

lemma session_server_relays:
  assumes "app_ok app" and "\<forall>op \<in> set ops. forwardable op" and "mem_map.session_inv (ss, socks)"
  shows "\<exists>st'. sessionserver_client_dispatch (mem_iface pick) n (concat (map frame_bytes (map (forwarded_message app) ops))) (ss, socks)
      = Some (st', length (concat (map frame_bytes (map (forwarded_message app) ops))))
    \<and> (\<forall>k. pending (snd st') k = pending socks k @
        concat (map frame_bytes (map (op_relayed app) (ops_at app (abs_session session_to_node ss) k ops))))"
proof -
  let ?xs = "map (\<lambda>op. Node_Requests n (op_request app op)) ops"
  have run: "run_frames (handle_session_request (mem_iface pick) n) (map (forwarded_message app) ops) st =
      session_run (mem_iface pick) ?xs st" for st
    using assms(1,2) by (induction ops arbitrary: st)
      (auto simp: handle_session_request_def operations_decoded intro!: Option.bind_cong)
  have "\<forall>x \<in> set ?xs. step_good small_id socks x"
  proof
    fix x assume "x \<in> set ?xs"
    then obtain op where "x = Node_Requests n (op_request app op)" "forwardable op" using assms(2) by auto
    then show "step_good small_id socks x" by (cases op) simp_all
  qed
  then obtain st' where "session_run (mem_iface pick) ?xs (ss, socks) = Some st'"
      "\<forall>s. pending (snd st') s = pending socks s @ sent_to s (snd (spec_run ?xs (abs_session session_to_node ss)))"
    using mem_map.session_run_refines [OF assms(3), of ?xs pick] by fastforce
  then show ?thesis
    using session_messages.dispatch_sent [of "map (forwarded_message app) ops" "mem_iface pick" n "(ss, socks)"] assms(1,2)
    by (simp add: sessionserver_client_dispatch_def operations_decoded run spec_run_relays)
qed

lemma serve_relayed_operation:
  assumes "clients_live node" and "forwardable op \<or> (\<exists>s msg. op = Op_Message s msg)"
  shows "\<exists>node'. serve_relayed_session (op_request app op) node = Some node' \<and> session_kept node node'
    \<and> (\<forall>k. pending (node_sockets node') k = pending (node_sockets node) k @
        (if session_socket node app (op_target op) = Some k then client_bytes op else []))"
proof (cases "session_client node app (op_target op)")
  case None
  then have "session_socket node app (op_target op) = None" by (simp add: session_socket_def)
  moreover have "serve_relayed_session (op_request app op) node = Some node"
    using None assms(2) by (cases op) (auto simp: gzochid_sessionclient_relay_disconnect_to_def
      gzochid_sessionclient_relay_message_to_def session_client_def split: option.splits)
  ultimately show ?thesis by (simp add: session_kept_def)
next
  case (Some client)
  obtain k socks where w: "game_client_write client (client_bytes op) node = Some (node\<lparr>node_sockets := socks\<rparr>)"
      "session_socket node app (op_target op) = Some k" "dom socks = dom (node_sockets node)"
      "\<forall>j. pending socks j = pending (node_sockets node) j @ (if j = k then client_bytes op else [])"
    by (rule game_client_write_live [OF assms(1) Some])
  have "serve_relayed_session (op_request app op) node = Some (node\<lparr>node_sockets := socks\<rparr>)"
    using Some assms(2) w(1) by (cases op) (auto simp: gzochid_sessionclient_relay_disconnect_to_def
      gzochid_sessionclient_relay_message_to_def session_client_def gzochid_game_client_disconnect_def game_client_send_eq
      bind_eq_Some_conv split: option.splits)
  then show ?thesis using w(2-4) by (auto simp: session_kept_def)
qed

lemma client_serves_operations:
  assumes "app_ok app" and "\<forall>op \<in> set ops. forwardable op" and "clients_live node"
  shows "\<exists>node'. sessionclient_client_dispatch (concat (map frame_bytes (map (op_relayed app) ops))) node =
      Some (node', length (concat (map frame_bytes (map (op_relayed app) ops))))
    \<and> (\<forall>k. pending (node_sockets node') k = pending (node_sockets node) k @
        concat (map (\<lambda>op. if session_socket node app (op_target op) = Some k then client_bytes op else []) ops))"
proof -
  have "\<exists>node'. run_frames handle_relayed_session (map (op_relayed app) ops) node = Some node'
    \<and> (\<forall>k. pending (node_sockets node') k = pending (node_sockets node) k @
        concat (map (\<lambda>op. if session_socket node app (op_target op) = Some k then client_bytes op else []) ops))"
    using assms(2,3)
  proof (induction ops arbitrary: node)
    case (Cons op ops)
    obtain n1 where n1: "serve_relayed_session (op_request app op) node = Some n1" "session_kept node n1"
        "\<forall>k. pending (node_sockets n1) k = pending (node_sockets node) k @
          (if session_socket node app (op_target op) = Some k then client_bytes op else [])"
      using serve_relayed_operation [OF Cons.prems(2), of op app] Cons.prems(1) by auto
    show ?case
      using Cons.IH [of n1] Cons.prems n1 session_keptD [OF n1(2)] assms(1)
      by (auto simp: handle_relayed_session_def operations_decoded)
  qed simp
  then show ?thesis
    using relayed_session_messages.dispatch_sent [of "map (op_relayed app) ops" node] assms(1,2)
    by (auto simp: sessionclient_client_dispatch_def operations_decoded)
qed

section \<open>Properties\<close>

lemma concat_map_owned:
  assumes "sockets_owned node" and "session_socket node app s = Some k"
  shows "concat (map (\<lambda>op. if session_socket node app (op_target op) = Some k then f op else []) ops) =
    concat (map f (filter (\<lambda>op. op_target op = s) ops))"
proof (induction ops)
  case (Cons op ops)
  have "session_socket node app (op_target op) = Some k \<longleftrightarrow> op_target op = s"
    using assms unfolding sockets_owned_def by blast
  with Cons show ?case by simp
qed simp

lemma session_commit_sends:
  assumes "clients_live node" and "sockets_owned node" and "node_apps node app \<noteq> None"
    and "\<forall>op \<in> set (tx_operations tx). operation_ok app node op"
    and "login_failed tx \<longrightarrow> login_operation tx \<noteq> None"
  shows "\<exists>node'. session_commit app tx node = Some node'
    \<and> (\<forall>s k. session_socket node app s = Some k \<longrightarrow> pending (node_sockets node') k = pending (node_sockets node) k @
        concat (map client_bytes (filter (\<lambda>op. op_target op = s \<and> \<not> suppressed tx op) (tx_operations tx))))
    \<and> (node_meta node \<noteq> None \<longrightarrow> meta_output node' = meta_output node @ concat (map (frame_bytes \<circ> forwarded_message app)
        (filter (\<lambda>op. session_client node app (op_target op) = None \<and> \<not> suppressed tx op) (tx_operations tx))))"
proof -
  let ?ops = "tx_operations tx"
  obtain node' where n: "session_commit app tx node = Some node'"
      "\<forall>k. pending (node_sockets node') k = pending (node_sockets node) k @ concat (map (op_sent app tx node k) ?ops)"
      "meta_output node' = meta_output node @ concat (map (op_forwarded app tx node) ?ops)"
    using commit_operations_send [OF assms(1,3-5)] unfolding session_commit_eq by blast
  have "concat (map (op_sent app tx node k) ops) =
      concat (map client_bytes (filter (\<lambda>op. op_target op = s \<and> \<not> suppressed tx op) ops))"
    if "session_socket node app s = Some k" for s k ops
  proof -
    have "concat (map (op_sent app tx node k) ops) = concat (map
        (\<lambda>op. if session_socket node app (op_target op) = Some k then if suppressed tx op then [] else client_bytes op else []) ops)"
      by (induction ops) (simp_all add: op_sent_def)
    also have "\<dots> = concat (map (\<lambda>op. if suppressed tx op then [] else client_bytes op) (filter (\<lambda>op. op_target op = s) ops))"
      by (rule concat_map_owned [OF assms(2) that])
    also have "\<dots> = concat (map client_bytes (filter (\<lambda>op. op_target op = s \<and> \<not> suppressed tx op) ops))"
      by (induction ops) simp_all
    finally show ?thesis .
  qed
  moreover have "concat (map (op_forwarded app tx node) ops) = concat (map (frame_bytes \<circ> forwarded_message app)
        (filter (\<lambda>op. session_client node app (op_target op) = None \<and> \<not> suppressed tx op) ops))"
    if "node_meta node \<noteq> None" for ops
    using that by (induction ops) (auto simp: op_forwarded_def)
  ultimately show ?thesis using n by auto
qed

text \<open>
  The commit of a transaction with session operations. On a server whose sessions have live
  clients with sockets of their own, the commit is carried out without a fault when results of
  logins are for local clients and forwarded messages are short enough. The client of every local
  session is sent, in the order of the operations and the login first, what the operations on it say, and
  everything for other sessions is written to the meta server; only messages to the session whose login
  failed are left out.
\<close>

theorem session_commit_delivers:
  assumes "clients_live node" and "sockets_owned node" and "node_apps node app \<noteq> None"
    and "\<forall>op \<in> set (tx_operations tx). operation_ok app node op"
    and "login_failed tx \<longrightarrow> login_operation tx \<noteq> None"
  shows "\<exists>node'. session_commit app tx node = Some node'
    \<and> (\<forall>s k. session_socket node app s = Some k \<longrightarrow> pending (node_sockets node') k = pending (node_sockets node) k @
        concat (map client_bytes (filter (\<lambda>op. op_target op = s \<and> \<not> suppressed tx op) (tx_operations tx))))
    \<and> (node_meta node \<noteq> None \<longrightarrow> meta_output node' = meta_output node @ concat (map (frame_bytes \<circ> forwarded_message app)
        (filter (\<lambda>op. session_client node app (op_target op) = None \<and> \<not> suppressed tx op) (tx_operations tx))))"
  by (rule session_commit_sends [OF assms])

theorem session_commit_delivers_witness:
  "\<exists>node'. session_commit [99] \<lparr>login_failed = True, login_operation = Some (Op_Login_Failure 1),
        session_operations = [Op_Message 1 [65], Op_Message 2 [66], Op_Disconnect 3]\<rparr>
      (chat_node\<lparr>node_meta := Some gzochid_reconnectable_socket_new\<rparr>) = Some node'
    \<and> pending (node_sockets node') 10 = [0, 0, 0x12] \<and> pending (node_sockets node') 11 = [0, 1, 0x31, 66]
    \<and> meta_output node' = [0, 10, 0x62, 99, 0, 0, 0, 0, 0, 0, 0, 0, 3]"
proof -
  let ?n = "chat_node\<lparr>node_meta := Some gzochid_reconnectable_socket_new\<rparr>"
  let ?tx = "\<lparr>login_failed = True, login_operation = Some (Op_Login_Failure 1),
    session_operations = [Op_Message 1 [65], Op_Message 2 [66], Op_Disconnect 3]\<rparr>"
  have same: "session_client ?n = session_client chat_node" "session_socket ?n = session_socket chat_node"
    by (simp_all add: fun_eq_iff session_client_def session_socket_def)
  have ok: "clients_live ?n" "sockets_owned ?n"
    using chat_node_ok unfolding node_ok_def clients_live_def sockets_owned_def same by simp_all
  have "node_apps ?n [99] \<noteq> None" by (simp add: chat_node_def)
  moreover have "\<forall>op \<in> set (tx_operations ?tx). operation_ok [99] ?n op"
    by (simp add: tx_operations_def operation_ok_def same chat_node_tables)
  moreover have "login_failed ?tx \<longrightarrow> login_operation ?tx \<noteq> None" by simp
  ultimately obtain n' where r: "session_commit [99] ?tx ?n = Some n'"
      "\<forall>s k. session_socket ?n [99] s = Some k \<longrightarrow> pending (node_sockets n') k = pending (node_sockets ?n) k @
        concat (map client_bytes (filter (\<lambda>op. op_target op = s \<and> \<not> suppressed ?tx op) (tx_operations ?tx)))"
      "node_meta ?n \<noteq> None \<longrightarrow> meta_output n' = meta_output ?n @ concat (map (frame_bytes \<circ> forwarded_message [99])
        (filter (\<lambda>op. session_client ?n [99] (op_target op) = None \<and> \<not> suppressed ?tx op) (tx_operations ?tx)))"
    using session_commit_delivers [OF ok] by blast
  have "pending (node_sockets n') 10 = [0, 0, 0x12]" "pending (node_sockets n') 11 = [0, 1, 0x31, 66]"
    using r(2) [rule_format, of 1 10] r(2) [rule_format, of 2 11]
    by (simp_all add: same chat_node_tables tx_operations_def client_frame_def GAME_SESSION_MESSAGE_def GAME_LOGIN_FAILURE_def
        be_short_def, simp_all add: chat_node_def pending_def)
  moreover have "meta_output n' = [0, 10, 0x62, 99, 0, 0, 0, 0, 0, 0, 0, 0, 3]"
  proof -
    have "meta_output ?n = []" by (simp add: meta_output_def gzochid_reconnectable_socket_new_def)
    then show ?thesis
      using r(3) by (simp add: same chat_node_tables tx_operations_def frame_bytes_def be_short_def be_long_def
          RELAY_DISCONNECT_FROM_def)
  qed
  ultimately show ?thesis using r(1) by blast
qed

text \<open>
  (C16) Session operations across the cluster. When a transaction of one application server disconnects
  and sends messages to sessions that are not on this server, what the commit writes to the meta
  server makes the session server write the operations on sessions of another server to the socket
  of that server, which handles them in their order: the client of each of its sessions is sent
  exactly what the operations on the session say.
\<close>

theorem session_operations_reach_clients:
  assumes "app_ok app" and "\<forall>op \<in> set ops. forwardable op"
    and "clients_live a" and "node_apps a app \<noteq> None" and "node_meta a \<noteq> None" and "meta_output a = []"
    and "\<forall>op \<in> set ops. session_client a app (op_target op) = None"
    and "mem_map.session_inv (ss, socks)" and "ss_connected_servers ss n' = Some k" and "pending socks k = []"
    and "clients_live b" and "sockets_owned b"
  shows "\<exists>a' st' b'. session_commit app (create_session_tx\<lparr>session_operations := ops\<rparr>) a = Some a'
    \<and> sessionserver_client_dispatch (mem_iface pick) n (meta_output a') (ss, socks) = Some (st', length (meta_output a'))
    \<and> sessionclient_client_dispatch (pending (snd st') k) b = Some (b', length (pending (snd st') k))
    \<and> (\<forall>s j. session_socket b app s = Some j \<longrightarrow> session_to_node (ss_nodemap ss) (app, s) = Some n' \<longrightarrow>
        pending (node_sockets b') j = pending (node_sockets b) j @ concat (map client_bytes (filter (\<lambda>op. op_target op = s) ops)))"
proof -
  let ?tx = "create_session_tx\<lparr>session_operations := ops\<rparr>" and ?spec = "abs_session session_to_node ss"
  have tx: "tx_operations ?tx = ops" "\<not> login_failed ?tx" "suppressed ?tx = (\<lambda>_. False)"
    by (simp_all add: tx_operations_def create_session_tx_def fun_eq_iff)
      (metis client_session_pending_operation.exhaust client_session_tx.select_convs(1) client_session_tx.simps suppressed.simps)
  obtain a' where a': "session_commit app ?tx a = Some a'" "meta_output a' = concat (map (op_forwarded app ?tx a) ops)"
    using commit_operations_send [OF assms(3,4), of ops ?tx] assms(2,6) tx(1,2)
    unfolding session_commit_eq by (auto simp: operation_ok_def)
  have "op_forwarded app ?tx a op = (frame_bytes \<circ> forwarded_message app) op" if "op \<in> set ops" for op
    using that assms(5,7) by (simp add: op_forwarded_def tx(3))
  then have "map (op_forwarded app ?tx a) ops = map (frame_bytes \<circ> forwarded_message app) ops" by simp
  with a' have a'': "meta_output a' = concat (map frame_bytes (map (forwarded_message app) ops))" by simp
  let ?at = "ops_at app ?spec k ops"
  obtain st' where st': "sessionserver_client_dispatch (mem_iface pick) n (meta_output a') (ss, socks) =
        Some (st', length (meta_output a'))" "pending (snd st') k = concat (map frame_bytes (map (op_relayed app) ?at))"
    using session_server_relays [OF assms(1,2,8), of pick n] assms(10) unfolding a'' by auto
  have "\<forall>op \<in> set ?at. forwardable op" using assms(2) by simp
  from client_serves_operations [OF assms(1) this assms(11)] obtain b' where
    b': "sessionclient_client_dispatch (pending (snd st') k) b = Some (b', length (pending (snd st') k))"
      "\<forall>j. pending (node_sockets b') j = pending (node_sockets b) j @
        concat (map (\<lambda>op. if session_socket b app (op_target op) = Some j then client_bytes op else []) ?at)"
    unfolding st'(2) by blast
  have at: "filter (\<lambda>op. op_target op = s) ?at = filter (\<lambda>op. op_target op = s) ops"
    if "session_to_node (ss_nodemap ss) (app, s) = Some n'" for s
    using that assms(9) by (induction ops) (auto simp: abs_session_def)
  have "pending (node_sockets b') j = pending (node_sockets b) j @ concat (map client_bytes (filter (\<lambda>op. op_target op = s) ops))"
    if "session_socket b app s = Some j" "session_to_node (ss_nodemap ss) (app, s) = Some n'" for s j
    using b'(2) concat_map_owned [OF assms(12) that(1), of client_bytes ?at] unfolding at [OF that(2)] by simp
  with a'(1) st'(1) b'(1) show ?thesis by blast
qed

text \<open>
  The session server after an application server with a session connected, and an application server
  that has another one.
\<close>

definition chat_meta :: "gzochi_metad_nodemap_mem session_state option" where
  "chat_meta = session_run (mem_iface (\<lambda>lo hi. 0)) [Node_Connects 1 10, Node_Connects 2 20, Node_Requests 2 (Connect_Session [99] 2)]
     (gzochi_metad_session_server_init, \<lambda>_. Some idle_socket)"

definition lobby_node :: game_node where
  "lobby_node =
     \<lparr>node_apps = [[99] \<mapsto> \<lparr>oids_to_clients = Map.empty, clients_to_oids = Map.empty, channel_sessions = Map.empty\<rparr>],
      node_clients = Map.empty, node_sequences = Map.empty, node_next = 0, node_sockets = Map.empty,
      node_meta = Some gzochid_reconnectable_socket_new\<rparr>"

lemma chat_meta_state:
  obtains ss socks where "chat_meta = Some (ss, socks)" and "mem_map.session_inv (ss, socks)"
    and "ss_connected_servers ss 2 = Some 20" and "session_to_node (ss_nodemap ss) ([99], 2) = Some 2" and "pending socks 20 = []"
proof -
  let ?xs = "[Node_Connects 1 10, Node_Connects 2 20, Node_Requests 2 (Connect_Session [99] 2)]"
  let ?st = "(gzochi_metad_session_server_init, \<lambda>_ :: sock. Some idle_socket)"
  have i: "mem_map.session_inv ?st"
    using nodemap_mem_inv_new
    by (simp add: mem_map.session_inv_def gzochi_metad_session_server_init_def gzochi_metad_nodemap_mem_new_def)
  have g: "\<forall>x \<in> set ?xs. step_good small_id (snd ?st) x" by (simp add: small_id_def)
  obtain ss socks where r: "session_run (mem_iface (\<lambda>lo hi. 0)) ?xs ?st = Some (ss, socks)" "mem_map.session_inv (ss, socks)"
      "abs_session session_to_node ss = fst (spec_run ?xs (abs_session session_to_node gzochi_metad_session_server_init))"
      "\<forall>s. pending socks s = pending (snd ?st) s @
        sent_to s (snd (spec_run ?xs (abs_session session_to_node gzochi_metad_session_server_init)))"
    using mem_map.session_run_refines [OF i g, of "\<lambda>lo hi. 0"] by auto
  have new: "abs_session session_to_node gzochi_metad_session_server_init = \<lparr>spec_nodes = Map.empty, spec_owner = Map.empty\<rparr>"
    by (simp add: abs_session_def gzochi_metad_session_server_init_def gzochi_metad_nodemap_mem_new_def)
  show ?thesis
  proof (rule that [OF _ r(2)])
    show "chat_meta = Some (ss, socks)" using r(1) by (simp add: chat_meta_def)
    show "ss_connected_servers ss 2 = Some 20" "session_to_node (ss_nodemap ss) ([99], 2) = Some 2"
      using r(3) unfolding new by (simp_all add: abs_session_def)
    show "pending socks 20 = []" using r(4) unfolding new by (simp add: pending_def idle_socket_def)
  qed
qed

theorem session_operations_reach_clients_witness:
  "\<exists>ss socks a' st' b'. chat_meta = Some (ss, socks)
    \<and> session_commit [99] (create_session_tx\<lparr>session_operations := [Op_Message 2 [65], Op_Disconnect 2]\<rparr>) lobby_node = Some a'
    \<and> sessionserver_client_dispatch (mem_iface (\<lambda>lo hi. 0)) 1 (meta_output a') (ss, socks) = Some (st', length (meta_output a'))
    \<and> sessionclient_client_dispatch (pending (snd st') 20) chat_node = Some (b', length (pending (snd st') 20))
    \<and> pending (node_sockets b') 11 = [0, 1, 0x31, 65, 0, 0, 0x30]"
proof -
  let ?ops = "[Op_Message 2 [65], Op_Disconnect 2]"
  obtain ss socks where m: "chat_meta = Some (ss, socks)" "mem_map.session_inv (ss, socks)"
      "ss_connected_servers ss 2 = Some 20" "session_to_node (ss_nodemap ss) ([99], 2) = Some 2" "pending socks 20 = []"
    by (rule chat_meta_state)
  have "app_ok [99]" "\<forall>op \<in> set ?ops. forwardable op" by (simp_all add: app_ok_def)
  moreover have "clients_live lobby_node" "node_apps lobby_node [99] \<noteq> None" "node_meta lobby_node \<noteq> None"
      "meta_output lobby_node = []" "\<forall>op \<in> set ?ops. session_client lobby_node [99] (op_target op) = None"
    by (simp_all add: lobby_node_def clients_live_def session_client_def meta_output_def gzochid_reconnectable_socket_new_def)
  moreover have "clients_live chat_node" "sockets_owned chat_node" using chat_node_ok by (simp_all add: node_ok_def)
  ultimately obtain a' st' b' where r:
      "session_commit [99] (create_session_tx\<lparr>session_operations := ?ops\<rparr>) lobby_node = Some a'"
      "sessionserver_client_dispatch (mem_iface (\<lambda>lo hi. 0)) 1 (meta_output a') (ss, socks) = Some (st', length (meta_output a'))"
      "sessionclient_client_dispatch (pending (snd st') 20) chat_node = Some (b', length (pending (snd st') 20))"
      "\<forall>s j. session_socket chat_node [99] s = Some j \<longrightarrow> session_to_node (ss_nodemap ss) ([99], s) = Some 2 \<longrightarrow>
        pending (node_sockets b') j = pending (node_sockets chat_node) j @ concat (map client_bytes (filter (\<lambda>op. op_target op = s) ?ops))"
    using session_operations_reach_clients [OF _ _ _ _ _ _ _ m(2) m(3) m(5), of "[99]" ?ops lobby_node chat_node "\<lambda>lo hi. 0" 1]
    by blast
  have "pending (node_sockets b') 11 = [0, 1, 0x31, 65, 0, 0, 0x30]"
    using r(4) [rule_format, of 2 11] m(4)
    by (simp add: chat_node_tables client_frame_def GAME_SESSION_MESSAGE_def GAME_SESSION_DISCONNECTED_def be_short_def)
      (simp add: chat_node_def pending_def)
  with m(1) r(1-3) show ?thesis by blast
qed

text \<open>
  A login whose client hung up. When the transaction of a login commits after the client of the
  session was unmapped, a server that is part of a cluster calls the client it does not have.
\<close>

theorem login_of_lost_client_faults:
  "\<exists>tx. gzochid_client_session_send_login_success (Some (5, Ref_Empty)) create_session_tx = Some tx
    \<and> session_commit [99] tx lobby_node = None
    \<and> session_commit [99] tx (lobby_node\<lparr>node_meta := None\<rparr>) = Some (lobby_node\<lparr>node_meta := None\<rparr>)"
  by (simp add: gzochid_client_session_send_login_success_def session_reference_def create_session_tx_def session_commit_def
    session_commit_operation_def lobby_node_def Let_def)

end
