(* ===== verification/Game_Protocol.thy ===== *)
theory Game_Protocol
  imports Sessionclient Channelclient
begin

text \<open>
  The game protocol of an application server, \<open>gzochi-server/src/game-protocol.c\<close>: accepting clients, their
  logins, messages and logouts, the tasks these submit, and lost connections. Together with the
  operations on sessions and channels that send to the clients it is a state machine whose steps
  are the callbacks of the socket server and the tasks of the worker threads.

  The scheduled tasks are a list from which any may run next. A task for a received message holds the address of the
  object id in the table of clients, which is valid as long as the client has an entry there. A task for a
  login waits for the transaction of the login between its two parts. What the applications and the data
  service do is not part of the state: whether a session was stored, and under which object id,
  and whether the transaction of a login succeeded are arguments.
\<close>

section \<open>State\<close>

datatype game_task =
    Logged_In cstring nat
  | Login_Running cstring nat guint64
  | Disconnect_Callback cstring guint64
  | Received_Message cstring nat "byte list"

record game_state =
  gs_node :: game_node
  gs_tasks :: "game_task list"
  gs_next_client :: nat

text \<open>
  The authenticator of an application gets the bytes after the name of the application, or only a
  negative length when the name has no terminator, and returns the name of the identity.
\<close>

type_synonym authenticator = "cstring \<Rightarrow> byte list option \<Rightarrow> cstring option"

definition update_client :: "nat \<Rightarrow> (gzochid_game_client \<Rightarrow> gzochid_game_client) \<Rightarrow> game_state \<Rightarrow> game_state" where
  "update_client client f st =
     st\<lparr>gs_node := (gs_node st)\<lparr>node_clients := (node_clients (gs_node st))(client := map_option f (node_clients (gs_node st) client))\<rparr>\<rparr>"

definition submit :: "game_task \<Rightarrow> game_state \<Rightarrow> game_state" where
  "submit task st = st\<lparr>gs_tasks := gs_tasks st @ [task]\<rparr>"

section \<open>Connections\<close>

definition game_server_accept :: "sock \<Rightarrow> game_state \<Rightarrow> game_state" where
  "game_server_accept sock st =
     (let client = gs_next_client st;
          node = gs_node st
      in st\<lparr>gs_node := node\<lparr>node_clients := (node_clients node)(client \<mapsto>
                \<lparr>gc_app = None, gc_identity = None, gc_disconnected = False, gc_sock = sock\<rparr>),
              node_sockets := (node_sockets node)(sock \<mapsto> \<lparr>send_buffer = [], write_source = False\<rparr>)\<rparr>,
            gs_next_client := Suc client\<rparr>)"

text \<open>Removing a client from the tables of its application, and telling the meta server.\<close>

definition unmap_client :: "cstring \<Rightarrow> guint64 \<Rightarrow> nat \<Rightarrow> game_node \<Rightarrow> game_node" where
  "unmap_client app oid client =
     update_app app (\<lambda>ctx. ctx\<lparr>oids_to_clients := (oids_to_clients ctx)(oid := None),
                               clients_to_oids := (clients_to_oids ctx)(client := None)\<rparr>)"

definition map_client :: "cstring \<Rightarrow> guint64 \<Rightarrow> nat \<Rightarrow> game_node \<Rightarrow> game_node" where
  "map_client app oid client =
     update_app app (\<lambda>ctx. ctx\<lparr>oids_to_clients := (oids_to_clients ctx)(oid \<mapsto> client),
                               clients_to_oids := (clients_to_oids ctx)(client \<mapsto> oid)\<rparr>)"

definition disconnected :: "cstring \<Rightarrow> nat \<Rightarrow> game_state \<Rightarrow> game_state option" where
  "disconnected app client st = do {
     ctx \<leftarrow> node_apps (gs_node st) app;
     case clients_to_oids ctx client of
       None \<Rightarrow> Some st
     | Some session_oid \<Rightarrow> do {
         c \<leftarrow> node_clients (gs_node st) client;
         node \<leftarrow> (if oids_to_clients ctx session_oid \<noteq> None
                 then do {
                   node \<leftarrow> (if node_meta (gs_node st) \<noteq> None
                           then gzochid_sessionclient_session_disconnected app session_oid (gs_node st)
                           else Some (gs_node st));
                   Some (unmap_client app session_oid client node)
                 }
                 else Some (gs_node st));
         Some (submit (Disconnect_Callback app session_oid) (st\<lparr>gs_node := node\<rparr>))
       }
   }"

definition game_client_error :: "nat \<Rightarrow> game_state \<Rightarrow> game_state option" where
  "game_client_error client st = do {
     c \<leftarrow> node_clients (gs_node st) client;
     if \<not> gc_disconnected c
     then do {
       st \<leftarrow> (if gc_identity c \<noteq> None then Option.bind (gc_app c) (\<lambda>app. disconnected app client st) else Some st);
       Some (update_client client (gc_disconnected_update (\<lambda>_. True)) st)
     }
     else Some st
   }"

definition game_client_free :: "nat \<Rightarrow> game_state \<Rightarrow> game_state" where
  "game_client_free client st =
     st\<lparr>gs_node := (gs_node st)\<lparr>node_clients := (node_clients (gs_node st))(client := None)\<rparr>\<rparr>"

text \<open>
  A lost connection: the error handler runs, and the socket is freed with the client it belongs to.
\<close>

definition game_hangup :: "nat \<Rightarrow> game_state \<Rightarrow> game_state option" where
  "game_hangup client st = do {
     c \<leftarrow> node_clients (gs_node st) client;
     st \<leftarrow> game_client_error client st;
     let st = game_client_free client st;
     Some (st\<lparr>gs_node := (gs_node st)\<lparr>node_sockets := (node_sockets (gs_node st))(gc_sock c := None)\<rparr>\<rparr>)
   }"

section \<open>Messages\<close>

definition GAME_LOGIN_REQUEST :: byte where "GAME_LOGIN_REQUEST = 0x10"
definition GAME_LOGOUT_REQUEST :: byte where "GAME_LOGOUT_REQUEST = 0x20"

definition credentials :: "byte list \<Rightarrow> int \<Rightarrow> int \<Rightarrow> byte list option option" where
  "credentials m cred cred_len =
     (if cred_len < 0 then Some None
      else if 0 \<le> cred \<and> cred + cred_len \<le> int (length m) then Some (Some (take (nat cred_len) (drop (nat cred) m)))
      else None)"

definition dispatch_login_request ::
    "authenticator \<Rightarrow> nat \<Rightarrow> cstring \<Rightarrow> byte list \<Rightarrow> int \<Rightarrow> int \<Rightarrow> game_state \<Rightarrow> game_state option" where
  "dispatch_login_request auth client endpoint m cred cred_len st = do {
     c \<leftarrow> node_clients (gs_node st) client;
     if gc_identity c \<noteq> None then Some st
     else if node_apps (gs_node st) endpoint = None
     then Some (update_client client (gc_app_update (\<lambda>_. None)) st)
     else do {
       let st = update_client client (gc_app_update (\<lambda>_. Some endpoint)) st;
       cred \<leftarrow> credentials m cred cred_len;
       let identity = auth endpoint cred;
       let st = update_client client (gc_identity_update (\<lambda>_. identity)) st;
       Some (if identity = None then st else submit (Logged_In endpoint client) st)
     }
   }"

definition dispatch_logout_request :: "nat \<Rightarrow> game_state \<Rightarrow> game_state option" where
  "dispatch_logout_request client st = do {
     c \<leftarrow> node_clients (gs_node st) client;
     st \<leftarrow> (if gc_identity c = None then Some st else Option.bind (gc_app c) (\<lambda>app. disconnected app client st));
     Some (update_client client (gc_disconnected_update (\<lambda>_. True)) st)
   }"

text \<open>A message is copied with its length as a \<open>short\<close>; a negative length is a size that cannot be allocated.\<close>

definition received_message :: "cstring \<Rightarrow> nat \<Rightarrow> byte list \<Rightarrow> int \<Rightarrow> game_state \<Rightarrow> game_state option" where
  "received_message app client msg len st = do {
     ctx \<leftarrow> node_apps (gs_node st) app;
     case clients_to_oids ctx client of
       None \<Rightarrow> Some st
     | Some session_oid \<Rightarrow>
         if len < 0 then None else Some (submit (Received_Message app client (take (nat len) msg)) st)
   }"

definition dispatch_session_message :: "nat \<Rightarrow> byte list \<Rightarrow> int \<Rightarrow> game_state \<Rightarrow> game_state option" where
  "dispatch_session_message client msg len st = do {
     c \<leftarrow> node_clients (gs_node st) client;
     if gc_identity c = None then Some st
     else Option.bind (gc_app c) (\<lambda>app. received_message app client msg len st)
   }"

definition to_short :: "int \<Rightarrow> int" where
  "to_short v = sint (word_of_int v :: 16 word)"

definition game_dispatch_message ::
    "authenticator \<Rightarrow> nat \<Rightarrow> byte list \<Rightarrow> nat \<Rightarrow> 16 word \<Rightarrow> game_state \<Rightarrow> game_state option" where
  "game_dispatch_message auth client m message len st = do {
     opcode \<leftarrow> rd m message;
     let payload = message + 1;
     let len = len - 1;
     if opcode = GAME_LOGIN_REQUEST
     then do {
       let pfx = takeWhile (\<lambda>b. b \<noteq> 0) (take (unat len) (drop payload m));
       let pfx_len = to_short (int (length pfx) + 1);
       let sfx = int payload + pfx_len;
       let sfx_len = to_short (uint len - pfx_len);
       dispatch_login_request auth client pfx m sfx sfx_len st
     }
     else if opcode = GAME_LOGOUT_REQUEST then dispatch_logout_request client st
     else if opcode = GAME_SESSION_MESSAGE then dispatch_session_message client (drop payload m) (to_short (uint len)) st
     else Some st
   }"

definition game_client_dispatch :: "authenticator \<Rightarrow> nat \<Rightarrow> byte list \<Rightarrow> game_state \<Rightarrow> (game_state \<times> nat) option" where
  "game_client_dispatch auth client = client_dispatch (game_dispatch_message auth client)"

section \<open>Tasks\<close>

text \<open>The first part of \<open>logged_in_task\<close>, with the object id of the stored session, or nothing after an error.\<close>

definition logged_in_task :: "cstring \<Rightarrow> nat \<Rightarrow> guint64 option \<Rightarrow> game_state \<Rightarrow> game_state option" where
  "logged_in_task app client persisted st =
     (case persisted of
        None \<Rightarrow> map_option (\<lambda>node. st\<lparr>gs_node := node\<rparr>) (gzochid_game_client_disconnect client (gs_node st))
      | Some session_oid \<Rightarrow> do {
          c \<leftarrow> node_clients (gs_node st) client;
          Some (submit (Login_Running app client session_oid) (st\<lparr>gs_node := map_client app session_oid client (gs_node st)\<rparr>))
        })"

text \<open>The worker that runs when the transaction of the login has failed for good.\<close>

definition login_catch_worker :: "cstring \<Rightarrow> guint64 \<Rightarrow> game_state \<Rightarrow> game_state option" where
  "login_catch_worker app session_oid st = do {
     ctx \<leftarrow> node_apps (gs_node st) app;
     client \<leftarrow> oids_to_clients ctx session_oid;
     node \<leftarrow> gzochid_game_client_disconnect client (unmap_client app session_oid client (gs_node st));
     Some (st\<lparr>gs_node := node\<rparr>)
   }"

text \<open>The second part of \<open>logged_in_task\<close>, after the transaction of the login.\<close>

definition logged_in_announce :: "cstring \<Rightarrow> guint64 \<Rightarrow> game_state \<Rightarrow> game_state option" where
  "logged_in_announce app session_oid st = do {
     ctx \<leftarrow> node_apps (gs_node st) app;
     if oids_to_clients ctx session_oid \<noteq> None \<and> node_meta (gs_node st) \<noteq> None
     then map_option (\<lambda>node. st\<lparr>gs_node := node\<rparr>) (gzochid_sessionclient_session_connected app session_oid (gs_node st))
     else Some st
   }"

text \<open>The task of a message reads the object id at the address it was given.\<close>

definition received_message_oid :: "cstring \<Rightarrow> nat \<Rightarrow> game_state \<Rightarrow> guint64 option" where
  "received_message_oid app client st = Option.bind (node_apps (gs_node st) app) (\<lambda>ctx. clients_to_oids ctx client)"

definition finish :: "game_task \<Rightarrow> game_state \<Rightarrow> game_state" where
  "finish task st = st\<lparr>gs_tasks := remove1 task (gs_tasks st)\<rparr>"

fun run_game_task :: "game_task \<Rightarrow> guint64 option \<Rightarrow> bool \<Rightarrow> game_state \<Rightarrow> game_state option" where
  "run_game_task (Logged_In app client) persisted success st =
     logged_in_task app client persisted (finish (Logged_In app client) st)"
| "run_game_task (Login_Running app client oid) persisted success st = do {
     st \<leftarrow> (if success then Some st else login_catch_worker app oid st);
     map_option (finish (Login_Running app client oid)) (logged_in_announce app oid st)
   }"
| "run_game_task (Disconnect_Callback app oid) persisted success st = Some (finish (Disconnect_Callback app oid) st)"
| "run_game_task (Received_Message app client msg) persisted success st =
     map_option (\<lambda>_. finish (Received_Message app client msg) st) (received_message_oid app client st)"

end
