(* ===== verification/Game_Sessions.thy ===== *)
theory Game_Sessions
  imports Game_Protocol
begin

text \<open>
  The sessions of an application server as a state machine: the events of its clients, its tasks, its
  transactions and its meta server, the invariant of its tables, and when the events keep it.
\<close>

section \<open>Events\<close>

datatype game_event =
    Accept sock
  | Client_Sends nat "byte list" nat "16 word"
  | Hang_Up nat
  | Run_Task game_task "guint64 option" bool
  | Commit cstring client_session_tx
  | Channel_Relayed channel_request
  | Session_Relayed session_request

fun serve_event :: "authenticator \<Rightarrow> game_event \<Rightarrow> game_state \<Rightarrow> game_state option" where
  "serve_event auth (Accept sock) st = Some (game_server_accept sock st)"
| "serve_event auth (Client_Sends client m p len) st = game_dispatch_message auth client m p len st"
| "serve_event auth (Hang_Up client) st = game_hangup client st"
| "serve_event auth (Run_Task task persisted success) st = run_game_task task persisted success st"
| "serve_event auth (Commit app tx) st = map_option (\<lambda>node. st\<lparr>gs_node := node\<rparr>) (session_commit app tx (gs_node st))"
| "serve_event auth (Channel_Relayed req) st = map_option (\<lambda>node. st\<lparr>gs_node := node\<rparr>) (serve_relayed req (gs_node st))"
| "serve_event auth (Session_Relayed req) st = map_option (\<lambda>node. st\<lparr>gs_node := node\<rparr>) (serve_relayed_session req (gs_node st))"

text \<open>
  What the server relies on. Only clients that have logged in log out; no task that is still to run
  belongs to a client that logs out or is lost; no message is to be handled when a login fails; messages of logged in clients are shorter
  than 32768 bytes; stored sessions have fresh object ids; and transactions commit operations as
  \<open>session_commit_delivers\<close> needs them.
\<close>

definition login_pending :: "nat \<Rightarrow> game_task list \<Rightarrow> bool" where
  "login_pending client tasks \<longleftrightarrow>
     (\<exists>task \<in> set tasks. case task of Logged_In app c \<Rightarrow> c = client | Login_Running app c oid \<Rightarrow> c = client | _ \<Rightarrow> False)"

definition message_pending :: "nat \<Rightarrow> game_task list \<Rightarrow> bool" where
  "message_pending client tasks \<longleftrightarrow>
     (\<exists>task \<in> set tasks. case task of Received_Message app c msg \<Rightarrow> c = client | _ \<Rightarrow> False)"

abbreviation client_quiet :: "nat \<Rightarrow> game_state \<Rightarrow> bool" where
  "client_quiet client st \<equiv> \<not> login_pending client (gs_tasks st) \<and> \<not> message_pending client (gs_tasks st)"

definition client_logged_in :: "nat \<Rightarrow> game_state \<Rightarrow> bool" where
  "client_logged_in client st \<longleftrightarrow> Option.bind (node_clients (gs_node st) client) gc_identity \<noteq> None"

fun event_ok :: "game_event \<Rightarrow> game_state \<Rightarrow> bool" where
  "event_ok (Accept sock) st \<longleftrightarrow> node_sockets (gs_node st) sock = None"
| "event_ok (Client_Sends client m p len) st \<longleftrightarrow> node_clients (gs_node st) client \<noteq> None
     \<and> 0 < unat len \<and> p + unat len \<le> length m
     \<and> (m ! p = GAME_LOGOUT_REQUEST \<longrightarrow> client_quiet client st \<and> client_logged_in client st)
     \<and> (m ! p = GAME_SESSION_MESSAGE \<longrightarrow> unat len \<le> 2 ^ 15)"
| "event_ok (Hang_Up client) st \<longleftrightarrow> node_clients (gs_node st) client \<noteq> None \<and> client_quiet client st"
| "event_ok (Run_Task task persisted success) st \<longleftrightarrow> task \<in> set (gs_tasks st)
     \<and> (case task of
          Logged_In app client \<Rightarrow> (case persisted of None \<Rightarrow> True | Some oid \<Rightarrow> session_client (gs_node st) app oid = None)
        | Login_Running app client oid \<Rightarrow> success \<or> \<not> message_pending client (gs_tasks st)
        | _ \<Rightarrow> True)"
| "event_ok (Commit app tx) st \<longleftrightarrow> node_apps (gs_node st) app \<noteq> None
     \<and> (\<forall>op \<in> set (tx_operations tx). operation_ok app (gs_node st) op)
     \<and> (login_failed tx \<longrightarrow> login_operation tx \<noteq> None)"
| "event_ok (Channel_Relayed req) st \<longleftrightarrow> True"
| "event_ok (Session_Relayed req) st \<longleftrightarrow> True"

section \<open>The invariant\<close>

text \<open>The two tables of an application are inverse to each other.\<close>

definition session_tables_ok :: "game_node \<Rightarrow> bool" where
  "session_tables_ok node \<longleftrightarrow> (\<forall>app s client. session_client node app s = Some client \<longleftrightarrow> client_session node app client = Some s)"

text \<open>Clients have open sockets of their own, an identity belongs to an application, and a mapped client to its own.\<close>

definition clients_ok :: "nat \<Rightarrow> game_node \<Rightarrow> bool" where
  "clients_ok next node \<longleftrightarrow>
     (\<forall>client c. node_clients node client = Some c \<longrightarrow> client < next \<and> node_sockets node (gc_sock c) \<noteq> None
        \<and> (gc_identity c \<noteq> None \<longrightarrow> (\<exists>app. gc_app c = Some app \<and> node_apps node app \<noteq> None))
        \<and> (gc_disconnected c \<longrightarrow> gc_identity c \<noteq> None))
     \<and> (\<forall>client c client' c'. node_clients node client = Some c \<longrightarrow> node_clients node client' = Some c' \<longrightarrow>
        gc_sock c = gc_sock c' \<longrightarrow> client = client')
     \<and> (\<forall>app s client. session_client node app s = Some client \<longrightarrow>
        (\<exists>c. node_clients node client = Some c \<and> gc_app c = Some app \<and> gc_identity c \<noteq> None \<and> \<not> gc_disconnected c))"

text \<open>
  A client whose login is to be run has no session yet; while the transaction of its login runs and
  while a message of it is to be handled it has one.
\<close>

fun task_ok :: "game_node \<Rightarrow> game_task \<Rightarrow> bool" where
  "task_ok node (Logged_In app client) \<longleftrightarrow> client_session node app client = None
     \<and> (\<exists>c. node_clients node client = Some c \<and> gc_app c = Some app \<and> gc_identity c \<noteq> None \<and> \<not> gc_disconnected c)"
| "task_ok node (Login_Running app client oid) \<longleftrightarrow> session_client node app oid = Some client"
| "task_ok node (Disconnect_Callback app oid) \<longleftrightarrow> True"
| "task_ok node (Received_Message app client msg) \<longleftrightarrow> client_session node app client \<noteq> None"

fun is_login :: "game_task \<Rightarrow> bool" where
  "is_login (Logged_In app client) \<longleftrightarrow> True"
| "is_login (Login_Running app client oid) \<longleftrightarrow> True"
| "is_login task \<longleftrightarrow> False"

definition tasks_ok :: "game_node \<Rightarrow> game_task list \<Rightarrow> bool" where
  "tasks_ok node tasks \<longleftrightarrow> (\<forall>task \<in> set tasks. task_ok node task) \<and> distinct (filter is_login tasks)"

text \<open>The names of applications are shorter than 32767 bytes.\<close>

definition app_names_ok :: "game_node \<Rightarrow> bool" where
  "app_names_ok node \<longleftrightarrow> (\<forall>app. node_apps node app \<noteq> None \<longrightarrow> length app + 1 < 2 ^ 15)"

definition game_inv :: "game_state \<Rightarrow> bool" where
  "game_inv st \<longleftrightarrow> session_tables_ok (gs_node st) \<and> clients_ok (gs_next_client st) (gs_node st) \<and> tasks_ok (gs_node st) (gs_tasks st)
     \<and> app_names_ok (gs_node st) \<and> channels_inv (gs_node st)"

lemma clients_ok_owner:
  "clients_ok next node \<Longrightarrow> session_client node app s = Some client \<Longrightarrow>
    \<exists>c. node_clients node client = Some c \<and> gc_app c = Some app \<and> gc_identity c \<noteq> None \<and> \<not> gc_disconnected c"
  unfolding clients_ok_def by blast

lemma clients_ok_identity:
  "clients_ok next node \<Longrightarrow> node_clients node client = Some c \<Longrightarrow> gc_identity c \<noteq> None \<Longrightarrow>
    \<exists>app. gc_app c = Some app \<and> node_apps node app \<noteq> None"
  unfolding clients_ok_def by blast

lemma game_inv_node_ok:
  assumes "game_inv st"
  shows "node_ok (gs_node st)"
proof -
  let ?n = "gs_node st"
  have t: "session_tables_ok ?n" and c: "clients_ok (gs_next_client st) ?n" and ch: "channels_inv ?n"
    using assms by (simp_all add: game_inv_def)
  have live: "\<exists>cl c. session_client ?n app s = Some cl \<and> node_clients ?n cl = Some c \<and> gc_app c = Some app
      \<and> session_socket ?n app s = Some (gc_sock c) \<and> node_sockets ?n (gc_sock c) \<noteq> None"
    if some: "session_client ?n app s \<noteq> None" for app s
  proof -
    obtain cl where cl: "session_client ?n app s = Some cl" using some by blast
    then obtain c' where "node_clients ?n cl = Some c'" "gc_app c' = Some app"
      using c unfolding clients_ok_def by blast
    then show ?thesis using c cl unfolding clients_ok_def session_socket_def by auto
  qed
  have "clients_live ?n" unfolding clients_live_def using live by blast
  moreover have "sockets_owned ?n"
    unfolding sockets_owned_def
  proof (intro allI impI)
    fix app s app' s' k
    assume k: "session_socket ?n app s = Some k" "session_socket ?n app' s' = Some k"
    then have "session_client ?n app s \<noteq> None" "session_client ?n app' s' \<noteq> None" by (auto simp: session_socket_def bind_eq_Some_conv)
    from live [OF this(1)] live [OF this(2)] k obtain cl d cl' d' where
      1: "session_client ?n app s = Some cl" "node_clients ?n cl = Some d" "gc_app d = Some app" "gc_sock d = k" and
      2: "session_client ?n app' s' = Some cl'" "node_clients ?n cl' = Some d'" "gc_app d' = Some app'" "gc_sock d' = k"
      by auto
    have "cl = cl'" using c 1(2,4) 2(2,4) unfolding clients_ok_def by blast
    then have "app = app'" using 1(2,3) 2(2,3) by simp
    moreover have "client_session ?n app cl = Some s" "client_session ?n app' cl' = Some s'"
      using t 1(1) 2(1) by (simp_all add: session_tables_ok_def)
    ultimately show "app = app' \<and> s = s'" using \<open>cl = cl'\<close> by simp
  qed
  ultimately show ?thesis using ch by (simp add: node_ok_def)
qed

section \<open>Events that change no table\<close>

definition tables_kept :: "game_node \<Rightarrow> game_node \<Rightarrow> bool" where
  "tables_kept node node' \<longleftrightarrow> session_client node' = session_client node \<and> client_session node' = client_session node
     \<and> node_clients node' = node_clients node \<and> dom (node_sockets node') = dom (node_sockets node)
     \<and> (\<forall>app. node_apps node' app = None \<longleftrightarrow> node_apps node app = None)"

lemma tables_kept_ok:
  assumes "tables_kept node node'"
  shows "session_tables_ok node' = session_tables_ok node" and "clients_ok n node' = clients_ok n node" and "task_ok node' = task_ok node"
    and "tasks_ok node' = tasks_ok node" and "app_names_ok node' = app_names_ok node"
proof -
  have s: "node_sockets node' k = None \<longleftrightarrow> node_sockets node k = None" for k
    using assms unfolding tables_kept_def by (metis domIff)
  have t: "session_client node' = session_client node" "client_session node' = client_session node"
      "node_clients node' = node_clients node" "\<And>app. node_apps node' app = None \<longleftrightarrow> node_apps node app = None"
    using assms by (simp_all add: tables_kept_def)
  show "session_tables_ok node' = session_tables_ok node" "clients_ok n node' = clients_ok n node" "app_names_ok node' = app_names_ok node"
    unfolding session_tables_ok_def clients_ok_def app_names_ok_def t s by blast+
  show k: "task_ok node' = task_ok node"
  proof
    show "task_ok node' task = task_ok node task" for task by (cases task) (simp_all add: t)
  qed
  show "tasks_ok node' = tasks_ok node" by (simp add: tasks_ok_def [abs_def] k)
qed

lemma game_inv_kept:
  "game_inv st \<Longrightarrow> tables_kept (gs_node st) node' \<Longrightarrow> channels_inv node' \<Longrightarrow> game_inv (st\<lparr>gs_node := node'\<rparr>)"
  by (simp add: game_inv_def tables_kept_ok)

lemma session_kept_tables:
  assumes "session_kept node node'"
  shows "tables_kept node node'" and "channels_inv node' = channels_inv node"
  using assms session_keptD [OF assms]
  by (simp_all add: tables_kept_def session_kept_def client_session_def [abs_def] channels_inv_def channel_list_def)

lemma same_sessions_tables: "same_sessions node node' \<Longrightarrow> tables_kept node node'"
  by (simp add: same_sessions_def tables_kept_def)

lemma commit_event:
  assumes "game_inv st" and "event_ok (Commit app tx) st"
  shows "\<exists>st'. serve_event auth (Commit app tx) st = Some st' \<and> game_inv st'"
proof -
  have live: "clients_live (gs_node st)" using game_inv_node_ok [OF assms(1)] by (simp add: node_ok_def)
  have app: "node_apps (gs_node st) app \<noteq> None" using assms(2) by simp
  have ops: "\<forall>op \<in> set (tx_operations tx). operation_ok app (gs_node st) op" "login_failed tx \<longrightarrow> login_operation tx \<noteq> None"
    using assms(2) by simp_all
  from commit_operations_send [OF live app ops] obtain node' where
    n: "session_commit app tx (gs_node st) = Some node'" "session_kept (gs_node st) node'"
    unfolding session_commit_eq by blast
  then show ?thesis
    using game_inv_kept [OF assms(1)] session_kept_tables [OF n(2)] assms(1) by (simp add: game_inv_def)
qed

lemma channel_event:
  assumes "game_inv st"
  shows "\<exists>st'. serve_event auth (Channel_Relayed req) st = Some st' \<and> game_inv st'"
proof -
  obtain node' where n: "serve_relayed req (gs_node st) = Some node'" "implements (gs_node st) req node'"
    using serve_relayed_implements [OF game_inv_node_ok [OF assms]] by blast
  then have "same_sessions (gs_node st) node'" "channels_inv node'" by (simp_all add: implements_def node_ok_def)
  from game_inv_kept [OF assms same_sessions_tables [OF this(1)] this(2)] n(1) show ?thesis by simp
qed

lemma session_event:
  assumes "game_inv st"
  shows "\<exists>st'. serve_event auth (Session_Relayed req) st = Some st' \<and> game_inv st'"
proof -
  have live: "clients_live (gs_node st)" using game_inv_node_ok [OF assms] by (simp add: node_ok_def)
  have "\<exists>node'. serve_relayed_session req (gs_node st) = Some node' \<and> session_kept (gs_node st) node'"
  proof (cases req)
    case (Relay_Disconnect app s)
    then show ?thesis using serve_relayed_operation [OF live, of "Op_Disconnect s" app] by auto
  next
    case (Relay_Message app s msg)
    then show ?thesis using serve_relayed_operation [OF live, of "Op_Message s msg" app] by auto
  qed (simp_all add: session_kept_def)
  then obtain node' where n: "serve_relayed_session req (gs_node st) = Some node'" "session_kept (gs_node st) node'" by blast
  then show ?thesis
    using game_inv_kept [OF assms] session_kept_tables [OF n(2)] assms by (simp add: game_inv_def)
qed

section \<open>Tasks\<close>

lemma submit_game_inv:
  "game_inv st \<Longrightarrow> task_ok (gs_node st) task \<Longrightarrow> (is_login task \<Longrightarrow> task \<notin> set (gs_tasks st)) \<Longrightarrow> game_inv (submit task st)"
  by (auto simp: game_inv_def submit_def tasks_ok_def)

lemma finish_inv: "game_inv st \<Longrightarrow> game_inv (finish task st)"
  by (auto simp: game_inv_def finish_def tasks_ok_def filter_remove1 dest: notin_set_remove1 set_remove1_subset [THEN subsetD])

lemma finish_sel [simp]: "gs_node (finish task st) = gs_node st" "gs_next_client (finish task st) = gs_next_client st"
  by (simp_all add: finish_def)

lemma submit_sel [simp]: "gs_node (submit task st) = gs_node st" "gs_next_client (submit task st) = gs_next_client st"
    "gs_tasks (submit task st) = gs_tasks st @ [task]"
  by (simp_all add: submit_def)

lemma login_pendingE:
  assumes "login_pending client tasks"
  obtains task where "task \<in> set tasks" and "(\<exists>a. task = Logged_In a client) \<or> (\<exists>a s. task = Login_Running a client s)"
proof -
  obtain task where t: "task \<in> set tasks"
      "case task of Logged_In app c \<Rightarrow> c = client | Login_Running app c oid \<Rightarrow> c = client | _ \<Rightarrow> False"
    using assms unfolding login_pending_def by blast
  then show ?thesis by (intro that [of task]) (cases task; simp)+
qed

lemma quiet_tasks:
  assumes "\<not> login_pending client tasks" and "task \<in> set tasks"
  shows "task \<noteq> Logged_In app client" and "task \<noteq> Login_Running app client oid"
  using assms by (auto simp: login_pending_def)

section \<open>The clients\<close>

lemma client_field_inv:
  assumes inv: "game_inv st" and c: "node_clients (gs_node st) client = Some c" and sock: "gc_sock (f c) = gc_sock c"
    and new: "gc_identity (f c) \<noteq> None \<Longrightarrow> \<exists>app. gc_app (f c) = Some app \<and> node_apps (gs_node st) app \<noteq> None"
    and dis: "gc_disconnected (f c) \<Longrightarrow> gc_identity (f c) \<noteq> None"
    and old: "gc_identity c \<noteq> None \<Longrightarrow> gc_identity (f c) \<noteq> None \<and> gc_app (f c) = gc_app c"
    and gone: "gc_identity c \<noteq> None \<Longrightarrow> gc_disconnected (f c) \<Longrightarrow> \<not> gc_disconnected c \<Longrightarrow>
      \<not> login_pending client (gs_tasks st) \<and> (\<forall>app s. session_client (gs_node st) app s \<noteq> Some client)"
  shows "game_inv (update_client client f st)"
proof -
  let ?n = "gs_node st" and ?n' = "gs_node (update_client client f st)"
  have n': "node_clients ?n' = (node_clients ?n)(client \<mapsto> f c)" "node_apps ?n' = node_apps ?n" "node_sockets ?n' = node_sockets ?n"
      "session_client ?n' = session_client ?n" "client_session ?n' = client_session ?n" "channels_inv ?n' = channels_inv ?n"
    using c by (simp_all add: update_client_def session_client_def [abs_def] client_session_def [abs_def] channels_inv_def
      channel_list_def)
  have i: "session_tables_ok ?n" "clients_ok (gs_next_client st) ?n" "tasks_ok ?n (gs_tasks st)" "app_names_ok ?n" "channels_inv ?n"
    using inv by (simp_all add: game_inv_def)
  have own: "\<exists>d. node_clients ?n' cl = Some d \<and> gc_app d = Some app \<and> gc_identity d \<noteq> None \<and> \<not> gc_disconnected d"
    if d: "node_clients ?n cl = Some d" "gc_app d = Some app" "gc_identity d \<noteq> None" "\<not> gc_disconnected d"
      and g: "gc_disconnected (f c) \<Longrightarrow> cl \<noteq> client" for cl d app
    using d g old c by (cases "cl = client") (auto simp: n'(1))
  have "clients_ok (gs_next_client st) ?n'"
    unfolding clients_ok_def n'(2-4)
  proof (intro conjI allI impI)
    show "\<exists>d. node_clients ?n' cl = Some d \<and> gc_app d = Some app \<and> gc_identity d \<noteq> None \<and> \<not> gc_disconnected d"
      if m: "session_client ?n app s = Some cl" for app s cl
    proof -
      obtain d where d: "node_clients ?n cl = Some d" "gc_app d = Some app" "gc_identity d \<noteq> None" "\<not> gc_disconnected d"
        using i(2) m unfolding clients_ok_def by blast
      then show ?thesis using m gone c by (intro own [OF d]) auto
    qed
  qed (use i(2) c sock new dis in \<open>auto simp: n'(1) clients_ok_def split: if_splits\<close>)
  moreover have "tasks_ok ?n' (gs_tasks st)"
    unfolding tasks_ok_def
  proof (intro conjI ballI)
    fix task assume t: "task \<in> set (gs_tasks st)"
    then have ok: "task_ok ?n task" using i(3) by (simp add: tasks_ok_def)
    show "task_ok ?n' task"
    proof (cases task)
      case (Logged_In app cl)
      then obtain d where d: "node_clients ?n cl = Some d" "gc_app d = Some app" "gc_identity d \<noteq> None" "\<not> gc_disconnected d"
        using ok by auto
      have "gc_disconnected (f c) \<Longrightarrow> cl \<noteq> client"
        using d c gone quiet_tasks(1) [OF _ t, of client app] Logged_In by auto
      then show ?thesis using own [OF d] ok Logged_In by (simp add: n'(5))
    qed (use ok in \<open>simp_all add: n'\<close>)
  qed (use i(3) in \<open>simp add: tasks_ok_def\<close>)
  ultimately show ?thesis
    using i n' by (simp add: game_inv_def session_tables_ok_def app_names_ok_def update_client_def)
qed

lemma accept_event:
  assumes "game_inv st" and "event_ok (Accept sock) st"
  shows "\<exists>st'. serve_event auth (Accept sock) st = Some st' \<and> game_inv st'"
proof -
  let ?n = "gs_node st" and ?st' = "game_server_accept sock st"
  let ?n' = "gs_node ?st'" and ?cl = "gs_next_client st"
  have n': "node_clients ?n' = (node_clients ?n)(?cl \<mapsto> \<lparr>gc_app = None, gc_identity = None, gc_disconnected = False, gc_sock = sock\<rparr>)"
      "node_apps ?n' = node_apps ?n" "\<And>k. node_sockets ?n' k = None \<longleftrightarrow> k \<noteq> sock \<and> node_sockets ?n k = None"
      "session_client ?n' = session_client ?n" "client_session ?n' = client_session ?n" "channels_inv ?n' = channels_inv ?n"
      "gs_tasks ?st' = gs_tasks st" "gs_next_client ?st' = Suc ?cl"
    by (simp_all add: game_server_accept_def Let_def session_client_def [abs_def] client_session_def [abs_def] channels_inv_def
      channel_list_def)
  have i: "session_tables_ok ?n" "clients_ok ?cl ?n" "tasks_ok ?n (gs_tasks st)" "app_names_ok ?n" "channels_inv ?n"
    using assms(1) by (simp_all add: game_inv_def)
  have new: "node_clients ?n ?cl = None"
    using i(2) unfolding clients_ok_def by (metis less_irrefl option.exhaust)
  have other: "node_clients ?n cl = Some d \<Longrightarrow> cl < ?cl \<and> gc_sock d \<noteq> sock" for cl d
    using i(2) assms(2) unfolding clients_ok_def by fastforce
  have "clients_ok (Suc ?cl) ?n'"
    unfolding clients_ok_def n'(2-4)
  proof (intro conjI allI impI)
    show "\<exists>d. node_clients ?n' cl = Some d \<and> gc_app d = Some app \<and> gc_identity d \<noteq> None \<and> \<not> gc_disconnected d"
      if m: "session_client ?n app s = Some cl" for app s cl
    proof -
      obtain d where "node_clients ?n cl = Some d" "gc_app d = Some app" "gc_identity d \<noteq> None" "\<not> gc_disconnected d"
        using i(2) m unfolding clients_ok_def by blast
      then show ?thesis using new by (auto simp: n'(1))
    qed
  qed (use i(2) in \<open>auto simp: n'(1) clients_ok_def less_Suc_eq dest: other split: if_splits\<close>)
  moreover have "task_ok ?n' task" if t: "task_ok ?n task" for task
    using t new by (cases task) (auto simp: n')
  ultimately show ?thesis
    using i by (simp add: game_inv_def session_tables_ok_def app_names_ok_def tasks_ok_def n')
qed

text \<open>Mapping and unmapping a client.\<close>

lemma map_client_tables:
  assumes "node_apps node app \<noteq> None"
  shows "session_client (map_client app oid cl node) = (session_client node)(app := (session_client node app)(oid \<mapsto> cl))"
    and "client_session (map_client app oid cl node) = (client_session node)(app := (client_session node app)(cl \<mapsto> oid))"
    and "session_client (unmap_client app oid cl node) = (session_client node)(app := (session_client node app)(oid := None))"
    and "client_session (unmap_client app oid cl node) = (client_session node)(app := (client_session node app)(cl := None))"
  using assms by (auto simp: map_client_def unmap_client_def session_client_def [abs_def] client_session_def [abs_def]
    apps_update_app fun_eq_iff)

lemma map_client_rest [simp]:
  "node_clients (map_client app oid cl node) = node_clients node" "node_clients (unmap_client app oid cl node) = node_clients node"
  "node_sockets (map_client app oid cl node) = node_sockets node" "node_sockets (unmap_client app oid cl node) = node_sockets node"
  "node_meta (map_client app oid cl node) = node_meta node" "node_meta (unmap_client app oid cl node) = node_meta node"
  "node_apps (map_client app oid cl node) a = None \<longleftrightarrow> node_apps node a = None"
  "node_apps (unmap_client app oid cl node) a = None \<longleftrightarrow> node_apps node a = None"
  by (simp_all add: map_client_def unmap_client_def apps_update_app)

lemma channels_inv_update_app:
  assumes "\<And>ctx. channel_sessions (f ctx) = channel_sessions ctx"
  shows "channels_inv (update_app app f node) = channels_inv node"
proof -
  have "channel_list (update_app app f node) = channel_list node"
    by (auto simp: channel_list_def apps_update_app fun_eq_iff assms split: option.splits bind_splits)
  then show ?thesis by (simp add: channels_inv_def)
qed

lemma channels_inv_map_client [simp]:
  "channels_inv (map_client app oid cl node) = channels_inv node" "channels_inv (unmap_client app oid cl node) = channels_inv node"
  by (simp_all add: map_client_def unmap_client_def channels_inv_update_app)

lemma names_ok_map_client [simp]:
  "app_names_ok (map_client app oid cl node) = app_names_ok node" "app_names_ok (unmap_client app oid cl node) = app_names_ok node"
  by (simp_all add: app_names_ok_def)

lemma map_inv:
  assumes inv: "game_inv st" and c: "node_clients (gs_node st) cl = Some c" "gc_app c = Some app" "gc_identity c \<noteq> None"
      "\<not> gc_disconnected c"
    and free: "client_session (gs_node st) app cl = None" "session_client (gs_node st) app oid = None"
    and idle: "\<And>app. Logged_In app cl \<notin> set (gs_tasks st)"
  shows "game_inv (st\<lparr>gs_node := map_client app oid cl (gs_node st)\<rparr>)"
proof -
  let ?n = "gs_node st"
  have i: "session_tables_ok ?n" "clients_ok (gs_next_client st) ?n" "tasks_ok ?n (gs_tasks st)" "app_names_ok ?n" "channels_inv ?n"
    using inv by (simp_all add: game_inv_def)
  have app: "node_apps ?n app \<noteq> None" using clients_ok_identity [OF i(2) c(1,3)] c(2) by auto
  note m = map_client_tables [OF app]
  have "session_tables_ok (map_client app oid cl ?n)"
    using i(1) free unfolding session_tables_ok_def m by (auto simp: fun_upd_def) (metis option.distinct(1))+
  moreover have "clients_ok (gs_next_client st) (map_client app oid cl ?n)"
    using i(2) c unfolding clients_ok_def m by (auto simp: fun_upd_def)
  moreover have "task_ok (map_client app oid cl ?n) task" if t: "task_ok ?n task" "task \<in> set (gs_tasks st)" for task
    using t idle free by (cases task) (auto simp: m)
  ultimately show ?thesis using i by (simp add: game_inv_def tasks_ok_def)
qed

lemma unmap_inv:
  assumes inv: "game_inv st" and m: "session_client (gs_node st) app oid = Some cl"
    and q: "\<not> login_pending cl (gs_tasks st)" "\<not> message_pending cl (gs_tasks st)"
  shows "game_inv (st\<lparr>gs_node := unmap_client app oid cl (gs_node st)\<rparr>)"
    and "session_client (unmap_client app oid cl (gs_node st)) app' s \<noteq> Some cl"
proof -
  let ?n = "gs_node st"
  have i: "session_tables_ok ?n" "clients_ok (gs_next_client st) ?n" "tasks_ok ?n (gs_tasks st)" "app_names_ok ?n" "channels_inv ?n"
    using inv by (simp_all add: game_inv_def)
  have app: "node_apps ?n app \<noteq> None" using m by (auto simp: session_client_def bind_eq_Some_conv)
  note u = map_client_tables [OF app]
  have rev: "client_session ?n app cl = Some oid" using i(1) m by (simp add: session_tables_ok_def)
  have "session_tables_ok (unmap_client app oid cl ?n)"
    using i(1) m rev unfolding session_tables_ok_def u by (auto simp: fun_upd_def) (metis option.inject)
  moreover have "clients_ok (gs_next_client st) (unmap_client app oid cl ?n)"
    using i(2) unfolding clients_ok_def u by (auto simp: fun_upd_def)
  moreover have "task_ok (unmap_client app oid cl ?n) task" if t: "task_ok ?n task" "task \<in> set (gs_tasks st)" for task
  proof (cases task)
    case (Login_Running a d s)
    then have "d \<noteq> cl" using q(1) t(2) by (auto simp: login_pending_def)
    then show ?thesis using t(1) m Login_Running by (auto simp: u)
  next
    case (Received_Message a d msg)
    then have "d \<noteq> cl" using q(2) t(2) by (auto simp: message_pending_def)
    then show ?thesis using t(1) Received_Message by (auto simp: u)
  qed (use t(1) in \<open>auto simp: u\<close>)
  ultimately show "game_inv (st\<lparr>gs_node := unmap_client app oid cl ?n\<rparr>)" using i by (simp add: game_inv_def tasks_ok_def)
  show "session_client (unmap_client app oid cl ?n) app' s \<noteq> Some cl"
  proof
    assume e: "session_client (unmap_client app oid cl ?n) app' s = Some cl"
    then have s: "session_client ?n app' s = Some cl" "\<not> (app' = app \<and> s = oid)" by (auto simp: u split: if_splits)
    have "app' = app" using clients_ok_owner [OF i(2) m] clients_ok_owner [OF i(2) s(1)] by auto
    moreover have "client_session ?n app' cl = Some s" using i(1) s(1) by (simp add: session_tables_ok_def)
    ultimately show False using rev s(2) by simp
  qed
qed

section \<open>Connections that end\<close>

lemma session_write_kept:
  "gzochid_sessionclient_session_disconnected app s node = Some node' \<Longrightarrow> session_kept node node'"
  "gzochid_sessionclient_session_connected app s node = Some node' \<Longrightarrow> session_kept node node'"
  by (auto simp: gzochid_sessionclient_session_disconnected_def gzochid_sessionclient_session_connected_def session_message_eq
    session_kept_def)

lemma disconnected_inv:
  assumes inv: "game_inv st" and c: "node_clients (gs_node st) cl = Some c" "gc_app c = Some app" "gc_identity c \<noteq> None"
    and q: "client_quiet cl st"
  shows "\<exists>st'. disconnected app cl st = Some st' \<and> game_inv st' \<and> node_clients (gs_node st') = node_clients (gs_node st)
    \<and> client_quiet cl st' \<and> (\<forall>app' s. session_client (gs_node st') app' s \<noteq> Some cl)"
proof -
  let ?n = "gs_node st"
  have i: "session_tables_ok ?n" "clients_ok (gs_next_client st) ?n" using inv by (simp_all add: game_inv_def)
  obtain ctx where ctx: "node_apps ?n app = Some ctx" using clients_ok_identity [OF i(2) c(1,3)] c(2) by auto
  have ctab: "clients_to_oids ctx cl = client_session ?n app cl" "oids_to_clients ctx s = session_client ?n app s" for s
    by (simp_all add: client_session_def session_client_def ctx)
  show ?thesis
  proof (cases "client_session ?n app cl")
    case None
    have "session_client ?n app' s \<noteq> Some cl" for app' s
    proof
      assume m: "session_client ?n app' s = Some cl"
      then have "app' = app" using clients_ok_owner [OF i(2) m] c by auto
      then show False using m i(1) None by (simp add: session_tables_ok_def)
    qed
    then show ?thesis using None inv q by (simp add: disconnected_def ctx ctab)
  next
    case (Some oid)
    then have m: "session_client ?n app oid = Some cl" using i(1) by (simp add: session_tables_ok_def)
    obtain node1 where n1: "(if node_meta ?n \<noteq> None then gzochid_sessionclient_session_disconnected app oid ?n else Some ?n) = Some node1"
        "session_kept ?n node1"
      using session_write_kept(1) [of app oid ?n]
      by (cases "node_meta ?n") (auto simp: gzochid_sessionclient_session_disconnected_def session_message_eq session_kept_def)
    note k = session_kept_tables [OF n1(2)]
    let ?st1 = "st\<lparr>gs_node := node1\<rparr>"
    have i1: "game_inv ?st1" by (rule game_inv_kept [OF inv k(1)]) (use inv k(2) in \<open>simp add: game_inv_def\<close>)
    have m1: "session_client (gs_node ?st1) app oid = Some cl" using m k(1) by (simp add: tables_kept_def)
    have q1: "\<not> login_pending cl (gs_tasks ?st1)" "\<not> message_pending cl (gs_tasks ?st1)" using q by simp_all
    note u = unmap_inv [OF i1 m1 q1]
    let ?st2 = "submit (Disconnect_Callback app oid) (st\<lparr>gs_node := unmap_client app oid cl node1\<rparr>)"
    have "disconnected app cl st = Some ?st2"
      unfolding disconnected_def using ctx c(1) Some m n1(1) by (simp add: ctab)
    moreover have "game_inv ?st2" by (rule submit_game_inv) (use u(1) in simp_all)
    moreover have "node_clients (gs_node ?st2) = node_clients ?n" using n1(2) by (simp add: session_kept_def)
    moreover have "client_quiet cl ?st2" using q by (auto simp: login_pending_def message_pending_def)
    ultimately show ?thesis using u(2) by auto
  qed
qed

lemma set_disconnected_inv:
  assumes "game_inv st" and "node_clients (gs_node st) cl = Some c" and "gc_identity c \<noteq> None"
    and "\<not> login_pending cl (gs_tasks st)" and "\<forall>app s. session_client (gs_node st) app s \<noteq> Some cl"
  shows "game_inv (update_client cl (gc_disconnected_update (\<lambda>_. True)) st)"
proof -
  have "clients_ok (gs_next_client st) (gs_node st)" using assms(1) by (simp add: game_inv_def)
  from clients_ok_identity [OF this assms(2,3)] show ?thesis
    using assms by (intro client_field_inv [OF assms(1,2)]) auto
qed

lemma free_inv:
  assumes inv: "game_inv st" and c: "node_clients (gs_node st) cl = Some c"
    and q: "client_quiet cl st" and un: "\<forall>app s. session_client (gs_node st) app s \<noteq> Some cl"
  defines "st' \<equiv> (game_client_free cl st)\<lparr>gs_node := (gs_node (game_client_free cl st))\<lparr>node_sockets :=
    (node_sockets (gs_node (game_client_free cl st)))(gc_sock c := None)\<rparr>\<rparr>"
  shows "game_inv st'"
proof -
  let ?n = "gs_node st" and ?n' = "gs_node st'"
  have n': "node_clients ?n' = (node_clients ?n)(cl := None)" "node_apps ?n' = node_apps ?n"
      "node_sockets ?n' = (node_sockets ?n)(gc_sock c := None)"
      "session_client ?n' = session_client ?n" "client_session ?n' = client_session ?n" "channels_inv ?n' = channels_inv ?n"
      "gs_tasks st' = gs_tasks st" "gs_next_client st' = gs_next_client st"
    by (simp_all add: st'_def game_client_free_def session_client_def [abs_def] client_session_def [abs_def] channels_inv_def channel_list_def)
  have i: "session_tables_ok ?n" "clients_ok (gs_next_client st) ?n" "tasks_ok ?n (gs_tasks st)" "app_names_ok ?n" "channels_inv ?n"
    using inv by (simp_all add: game_inv_def)
  have other: "gc_sock d \<noteq> gc_sock c" if d: "node_clients ?n cl' = Some d" "cl' \<noteq> cl" for cl' d
    using i(2) c d unfolding clients_ok_def by metis
  have "clients_ok (gs_next_client st) ?n'"
    unfolding clients_ok_def n'(2-4)
  proof (intro conjI allI impI)
    show "\<exists>d. node_clients ?n' cl' = Some d \<and> gc_app d = Some app \<and> gc_identity d \<noteq> None \<and> \<not> gc_disconnected d"
      if m: "session_client ?n app s = Some cl'" for app s cl'
      using clients_ok_owner [OF i(2) m] un m unfolding n'(1) by auto
  qed (use i(2) in \<open>auto simp: n'(1) clients_ok_def dest: other split: if_splits\<close>)
  moreover have "task_ok ?n' task" if t: "task_ok ?n task" "task \<in> set (gs_tasks st)" for task
    using t q by (cases task) (auto simp: n' login_pending_def)
  ultimately show ?thesis
    using i by (simp add: game_inv_def session_tables_ok_def app_names_ok_def tasks_ok_def n')
qed

lemma update_client_sel [simp]:
  "gs_tasks (update_client cl f st) = gs_tasks st"
  "session_client (gs_node (update_client cl f st)) = session_client (gs_node st)"
  "node_clients (gs_node (update_client cl f st)) = (node_clients (gs_node st))(cl := map_option f (node_clients (gs_node st) cl))"
  by (simp_all add: update_client_def session_client_def [abs_def])

text \<open>What the end of a session, by a logout or a lost connection, comes to.\<close>

lemma session_ends:
  assumes inv: "game_inv st" and c: "node_clients (gs_node st) cl = Some c" "gc_identity c \<noteq> None" and q: "client_quiet cl st"
  shows "\<exists>st'. Option.bind (gc_app c) (\<lambda>app. disconnected app cl st) = Some st'
    \<and> game_inv (update_client cl (gc_disconnected_update (\<lambda>_. True)) st') \<and> client_quiet cl st'
    \<and> node_clients (gs_node st') = node_clients (gs_node st) \<and> (\<forall>app s. session_client (gs_node st') app s \<noteq> Some cl)"
proof -
  have "clients_ok (gs_next_client st) (gs_node st)" using inv by (simp add: game_inv_def)
  then obtain app where app: "gc_app c = Some app" using clients_ok_identity c by blast
  obtain st' where st': "disconnected app cl st = Some st'" "game_inv st'" "node_clients (gs_node st') = node_clients (gs_node st)"
      "client_quiet cl st'" "\<forall>app s. session_client (gs_node st') app s \<noteq> Some cl"
    using disconnected_inv [OF inv c(1) app c(2) q] by blast
  have c': "node_clients (gs_node st') cl = Some c" using st'(3) c(1) by simp
  have "game_inv (update_client cl (gc_disconnected_update (\<lambda>_. True)) st')"
    by (rule set_disconnected_inv [OF st'(2) c' c(2) _ st'(5)]) (use st'(4) in simp)
  with st' app show ?thesis by auto
qed

lemma hangup_event:
  assumes inv: "game_inv st" and ok: "event_ok (Hang_Up cl) st"
  shows "\<exists>st'. serve_event auth (Hang_Up cl) st = Some st' \<and> game_inv st'"
proof -
  obtain c where c: "node_clients (gs_node st) cl = Some c" using ok by auto
  have q: "client_quiet cl st" using ok by simp
  have i: "clients_ok (gs_next_client st) (gs_node st)" using inv by (simp add: game_inv_def)
  note owner = clients_ok_owner [OF i]
  show ?thesis
  proof (cases "gc_identity c = None \<or> gc_disconnected c")
    case True
    have un: "\<forall>app s. session_client (gs_node st) app s \<noteq> Some cl"
      using owner [of _ _ cl] c True by auto
    have "game_client_error cl st = Some (if gc_disconnected c then st else update_client cl (gc_disconnected_update (\<lambda>_. True)) st)"
      using c True by (auto simp: game_client_error_def)
    moreover have "game_client_free cl (update_client cl f st) = game_client_free cl st" for f
      by (simp add: game_client_free_def update_client_def)
    ultimately show ?thesis using c free_inv [OF inv c q un] by (simp add: game_hangup_def Let_def)
  next
    case False
    then have id: "gc_identity c \<noteq> None" "\<not> gc_disconnected c" by auto
    obtain st1 where st1: "Option.bind (gc_app c) (\<lambda>app. disconnected app cl st) = Some st1"
        "game_inv (update_client cl (gc_disconnected_update (\<lambda>_. True)) st1)" "client_quiet cl st1"
        "node_clients (gs_node st1) = node_clients (gs_node st)" "\<forall>app s. session_client (gs_node st1) app s \<noteq> Some cl"
      using session_ends [OF inv c id(1) q] by blast
    let ?st2 = "update_client cl (gc_disconnected_update (\<lambda>_. True)) st1"
    have c2: "node_clients (gs_node ?st2) cl = Some (gc_disconnected_update (\<lambda>_. True) c)" using st1(4) c by simp
    have "client_quiet cl ?st2" "\<forall>app s. session_client (gs_node ?st2) app s \<noteq> Some cl" using st1(3,5) by simp_all
    note f = free_inv [OF st1(2) c2 this]
    have "game_client_error cl st = Some ?st2" using id c st1(1) by (simp add: game_client_error_def)
    then show ?thesis using c f by (simp add: game_hangup_def Let_def)
  qed
qed

section \<open>Messages of the clients\<close>

lemma logout_event:
  assumes inv: "game_inv st" and c: "node_clients (gs_node st) cl = Some c" "gc_identity c \<noteq> None" and q: "client_quiet cl st"
  shows "\<exists>st'. dispatch_logout_request cl st = Some st' \<and> game_inv st'"
  using session_ends [OF assms] c by (auto simp: dispatch_logout_request_def bind_eq_Some_conv)

lemma session_message_event:
  assumes inv: "game_inv st" and c: "node_clients (gs_node st) cl = Some c" and len: "0 \<le> len"
  shows "\<exists>st'. dispatch_session_message cl msg len st = Some st' \<and> game_inv st'"
proof (cases "gc_identity c = None")
  case True
  then show ?thesis using inv c by (simp add: dispatch_session_message_def)
next
  case False
  have i: "clients_ok (gs_next_client st) (gs_node st)" using inv by (simp add: game_inv_def)
  obtain app ctx where app: "gc_app c = Some app" "node_apps (gs_node st) app = Some ctx"
    using clients_ok_identity [OF i c False] by blast
  have e: "dispatch_session_message cl msg len st = received_message app cl msg len st"
    using False c app(1) by (auto simp: dispatch_session_message_def)
  show ?thesis
  proof (cases "clients_to_oids ctx cl")
    case None
    then show ?thesis using inv app(2) by (simp add: e received_message_def)
  next
    case (Some oid)
    have "game_inv (submit (Received_Message app cl (take (nat len) msg)) st)"
      by (rule submit_game_inv [OF inv]) (use Some app(2) in \<open>simp_all add: client_session_def\<close>)
    then show ?thesis using Some app(2) len by (simp add: e received_message_def)
  qed
qed

lemma to_short_small: "0 \<le> v \<Longrightarrow> v < 2 ^ 15 \<Longrightarrow> to_short v = v"
  by (simp add: to_short_def signed_of_int signed_take_bit_int_eq_self)

lemma login_credentials:
  fixes len :: "16 word"
  assumes "p + unat len \<le> length m" and "length (takeWhile (\<lambda>b. b \<noteq> 0) (take (unat len) (drop p m))) + 1 < 2 ^ 15"
  defines "pfx_len \<equiv> to_short (int (length (takeWhile (\<lambda>b. b \<noteq> 0) (take (unat len) (drop p m)))) + 1)"
  shows "credentials m (int p + pfx_len) (to_short (uint len - pfx_len)) \<noteq> None"
proof -
  let ?k = "length (takeWhile (\<lambda>b. b \<noteq> 0) (take (unat len) (drop p m)))"
  have k: "pfx_len = int ?k + 1" unfolding pfx_len_def by (rule to_short_small) (use assms(2) in simp_all)
  have le: "?k \<le> unat len" using length_takeWhile_le [of "\<lambda>b. b \<noteq> 0" "take (unat len) (drop p m)"] by (simp add: min_def split: if_splits)
  have u: "uint len = int (unat len)" by simp
  have ile: "int ?k \<le> uint len" unfolding u of_nat_le_iff by (rule le)
  have "to_short (uint len - pfx_len) \<le> uint len - pfx_len" if "0 \<le> to_short (uint len - pfx_len)"
  proof (cases "uint len - pfx_len < 2 ^ 15")
    case True
    show ?thesis
    proof (cases "0 \<le> uint len - pfx_len")
      case True
      then show ?thesis using \<open>uint len - pfx_len < 2 ^ 15\<close> by (simp add: to_short_small)
    next
      case False
      then have "uint len - pfx_len = - 1" using ile k by linarith
      then show ?thesis using that by (simp add: to_short_def)
    qed
  next
    case False
    have "to_short v < 2 ^ 15" for v using sint_lt [of "word_of_int v :: 16 word"] by (simp add: to_short_def)
    from this [of "uint len - pfx_len"] False show ?thesis by linarith
  qed
  then have "int p + pfx_len + to_short (uint len - pfx_len) \<le> int (length m)" if "0 \<le> to_short (uint len - pfx_len)"
    using that assms(1) u by linarith
  moreover have "0 \<le> int p + pfx_len" unfolding k by simp
  ultimately show ?thesis unfolding credentials_def by (simp add: not_less)
qed

lemma update_client_twice: "update_client cl g (update_client cl f st) = update_client cl (g \<circ> f) st"
  by (simp add: update_client_def option.map_comp)

lemma login_event:
  assumes inv: "game_inv st" and c: "node_clients (gs_node st) cl = Some c"
    and cred: "node_apps (gs_node st) endpoint \<noteq> None \<Longrightarrow> credentials m cred cred_len \<noteq> None"
  shows "\<exists>st'. dispatch_login_request auth cl endpoint m cred cred_len st = Some st' \<and> game_inv st'"
proof (cases "gc_identity c = None")
  case False
  then show ?thesis using inv c by (simp add: dispatch_login_request_def)
next
  case None: True
  have i: "clients_ok (gs_next_client st) (gs_node st)" "tasks_ok (gs_node st) (gs_tasks st)"
    using inv by (simp_all add: game_inv_def)
  have dis: "\<not> gc_disconnected c" using i(1) c None unfolding clients_ok_def by blast
  show ?thesis
  proof (cases "node_apps (gs_node st) endpoint = None")
    case True
    have "game_inv (update_client cl (gc_app_update (\<lambda>_. None)) st)"
      by (rule client_field_inv [OF inv c]) (use None dis in simp_all)
    then show ?thesis using True c None by (simp add: dispatch_login_request_def)
  next
    case False
    then obtain cr where cr: "credentials m cred cred_len = Some cr" using cred by blast
    let ?f = "gc_identity_update (\<lambda>_. auth endpoint cr) \<circ> gc_app_update (\<lambda>_. Some endpoint)"
    let ?st' = "update_client cl ?f st"
    have st': "game_inv ?st'" by (rule client_field_inv [OF inv c]) (use None dis False in simp_all)
    have "client_session (gs_node st) endpoint cl = None"
    proof (rule ccontr)
      assume "client_session (gs_node st) endpoint cl \<noteq> None"
      then obtain s where "session_client (gs_node st) endpoint s = Some cl"
        using inv by (auto simp: game_inv_def session_tables_ok_def)
      then show False using clients_ok_owner [OF i(1)] c None by fastforce
    qed
    then have s: "client_session (gs_node ?st') endpoint cl = None" by (simp add: update_client_def client_session_def)
    have "Logged_In endpoint cl \<notin> set (gs_tasks st)"
      using i(2) c None by (auto simp: tasks_ok_def)
    then have "game_inv (submit (Logged_In endpoint cl) ?st')" if "auth endpoint cr \<noteq> None"
      by (intro submit_game_inv [OF st']) (use that c s dis in simp_all)
    then show ?thesis
      using st' False c None cr by (cases "auth endpoint cr") (auto simp: dispatch_login_request_def Let_def update_client_twice)
  qed
qed

lemma opcodes_distinct:
  "GAME_LOGIN_REQUEST \<noteq> GAME_LOGOUT_REQUEST" "GAME_LOGIN_REQUEST \<noteq> GAME_SESSION_MESSAGE" "GAME_LOGOUT_REQUEST \<noteq> GAME_SESSION_MESSAGE"
  by (simp_all add: GAME_LOGIN_REQUEST_def GAME_LOGOUT_REQUEST_def GAME_SESSION_MESSAGE_def)

lemma message_event:
  assumes inv: "game_inv st" and ok: "event_ok (Client_Sends cl m p len) st"
  shows "\<exists>st'. serve_event auth (Client_Sends cl m p len) st = Some st' \<and> game_inv st'"
proof -
  obtain c where c: "node_clients (gs_node st) cl = Some c" using ok by auto
  have len: "0 < unat len" "p + unat len \<le> length m" using ok by simp_all
  have l1: "unat (len - 1) = unat len - 1" using unat_sub_nat [of 1 len] len(1) by simp
  note h = message_head [OF len]
  have names: "app_names_ok (gs_node st)" using inv by (simp add: game_inv_def)
  consider "m ! p = GAME_LOGIN_REQUEST" | "m ! p = GAME_LOGOUT_REQUEST" | "m ! p = GAME_SESSION_MESSAGE"
    | "m ! p \<notin> {GAME_LOGIN_REQUEST, GAME_LOGOUT_REQUEST, GAME_SESSION_MESSAGE}" by blast
  then show ?thesis
  proof cases
    case 1
    let ?pfx = "takeWhile (\<lambda>b. b \<noteq> 0) (take (unat (len - 1)) (drop (p + 1) m))"
    let ?pl = "to_short (int (length ?pfx) + 1)"
    have "credentials m (int (p + 1) + ?pl) (to_short (uint (len - 1) - ?pl)) \<noteq> None" if "node_apps (gs_node st) ?pfx \<noteq> None"
    proof (rule login_credentials)
      show "p + 1 + unat (len - 1) \<le> length m" by (rule h(2))
      show "length ?pfx + 1 < 2 ^ 15" using names that unfolding app_names_ok_def by blast
    qed
    from login_event [OF inv c this, where auth = auth] show ?thesis
      by (simp add: game_dispatch_message_def h(3) 1 Let_def)
  next
    case 2
    then have "client_quiet cl st" "gc_identity c \<noteq> None" using ok c by (simp_all add: client_logged_in_def)
    from logout_event [OF inv c this(2) this(1)] show ?thesis
      using 2 opcodes_distinct by (simp add: game_dispatch_message_def h(3) Let_def)
  next
    case 3
    then have "unat len \<le> 32768" using ok by simp
    then have "unat (len - 1) < 2 ^ 15" unfolding l1 using len(1) by simp
    then have "int (unat (len - 1)) < int (2 ^ 15)" by (simp only: of_nat_less_iff)
    then have "uint (len - 1) < 2 ^ 15" by simp
    with to_short_small [of "uint (len - 1)"] have "0 \<le> to_short (uint (len - 1))" by simp
    from session_message_event [OF inv c this, of "drop (p + 1) m"] show ?thesis
      using 3 opcodes_distinct by (simp add: game_dispatch_message_def h(3) Let_def)
  next
    case 4
    then show ?thesis using inv by (simp add: game_dispatch_message_def h(3))
  qed
qed

section \<open>Tasks that run\<close>

lemma disconnect_write_kept:
  assumes "game_inv st" and "node_clients (gs_node st) cl = Some c"
  shows "\<exists>node'. gzochid_game_client_disconnect cl (gs_node st) = Some node' \<and> session_kept (gs_node st) node'"
proof -
  have "clients_ok (gs_next_client st) (gs_node st)" using assms(1) by (simp add: game_inv_def)
  then have "node_sockets (gs_node st) (gc_sock c) \<noteq> None" using assms(2) unfolding clients_ok_def by blast
  then obtain socks where "socket_write (gc_sock c) [0, 0, GAME_SESSION_DISCONNECTED] (node_sockets (gs_node st)) = Some socks"
    by (auto simp: socket_write_def)
  with socket_write_dom [OF this] show ?thesis
    using assms(2) by (simp add: gzochid_game_client_disconnect_def game_client_write_def session_kept_def)
qed

lemma kept_inv: "game_inv st \<Longrightarrow> session_kept (gs_node st) node' \<Longrightarrow> game_inv (st\<lparr>gs_node := node'\<rparr>)"
  using game_inv_kept [of st node'] session_kept_tables [of "gs_node st" node'] by (simp add: game_inv_def)

lemma logged_in_event:
  assumes inv: "game_inv st" and ok: "event_ok (Run_Task (Logged_In app cl) persisted success) st"
  shows "\<exists>st'. serve_event auth (Run_Task (Logged_In app cl) persisted success) st = Some st' \<and> game_inv st'"
proof -
  let ?st = "finish (Logged_In app cl) st"
  have t: "Logged_In app cl \<in> set (gs_tasks st)" using ok by simp
  have tk: "tasks_ok (gs_node st) (gs_tasks st)" and tb: "session_tables_ok (gs_node st)"
    using inv by (simp_all add: game_inv_def)
  have "task_ok (gs_node st) (Logged_In app cl)" using tk t unfolding tasks_ok_def by blast
  then obtain c where c: "node_clients (gs_node st) cl = Some c" "gc_app c = Some app" "gc_identity c \<noteq> None"
      "\<not> gc_disconnected c" and un: "client_session (gs_node st) app cl = None"
    by auto
  have fin: "game_inv ?st" by (rule finish_inv [OF inv])
  show ?thesis
  proof (cases persisted)
    case None
    obtain node' where "gzochid_game_client_disconnect cl (gs_node ?st) = Some node'" "session_kept (gs_node ?st) node'"
      using disconnect_write_kept [OF fin] c(1) by auto
    then show ?thesis using None kept_inv [OF fin] by (simp add: logged_in_task_def)
  next
    case (Some oid)
    have fresh: "session_client (gs_node st) app oid = None" using ok Some by simp
    have one: "Logged_In a cl \<notin> set (gs_tasks ?st)" for a
    proof
      assume a: "Logged_In a cl \<in> set (gs_tasks ?st)"
      then have "Logged_In a cl \<in> set (gs_tasks st)" using set_remove1_subset by (fastforce simp: finish_def)
      then have "a = app" using tk c by (auto simp: tasks_ok_def)
      moreover have "distinct (filter is_login (gs_tasks st))" using tk by (simp add: tasks_ok_def)
      then have "Logged_In app cl \<notin> set (remove1 (Logged_In app cl) (filter is_login (gs_tasks st)))" by simp
      ultimately show False using a by (simp add: finish_def flip: filter_remove1)
    qed
    have m: "game_inv (?st\<lparr>gs_node := map_client app oid cl (gs_node ?st)\<rparr>)" (is "game_inv ?st2")
      by (rule map_inv [OF fin _ c(2-4)]) (use c(1) un fresh one in simp_all)
    have app: "node_apps (gs_node st) app \<noteq> None"
      using clients_ok_identity [of _ "gs_node st" cl c] inv c by (auto simp: game_inv_def)
    have "Login_Running app cl oid \<notin> set (gs_tasks st)" using tk fresh by (auto simp: tasks_ok_def)
    then have "game_inv (submit (Login_Running app cl oid) ?st2)"
      by (intro submit_game_inv [OF m]) (auto simp: map_client_tables [OF app] finish_def dest: notin_set_remove1)
    then show ?thesis using Some c(1) by (simp add: logged_in_task_def)
  qed
qed

lemma announce_kept:
  assumes "node_apps (gs_node st) app \<noteq> None"
  shows "\<exists>node'. logged_in_announce app oid st = Some (st\<lparr>gs_node := node'\<rparr>) \<and> session_kept (gs_node st) node'"
proof -
  obtain node' where "gzochid_sessionclient_session_connected app oid (gs_node st) = Some node'"
    by (simp add: gzochid_sessionclient_session_connected_def session_message_eq)
  moreover from session_write_kept(2) [OF this] have "session_kept (gs_node st) node'" .
  moreover have "session_kept (gs_node st) (gs_node st)" by (simp add: session_kept_def)
  ultimately show ?thesis
  proof (cases "(\<exists>ctx. node_apps (gs_node st) app = Some ctx \<and> oids_to_clients ctx oid \<noteq> None) \<and> node_meta (gs_node st) \<noteq> None")
    case True
    then have "logged_in_announce app oid st = Some (st\<lparr>gs_node := node'\<rparr>)"
      using \<open>gzochid_sessionclient_session_connected app oid (gs_node st) = Some node'\<close> by (auto simp: logged_in_announce_def)
    with \<open>session_kept (gs_node st) node'\<close> show ?thesis by blast
  next
    case False
    then have "logged_in_announce app oid st = Some (st\<lparr>gs_node := gs_node st\<rparr>)"
      using assms by (auto simp: logged_in_announce_def)
    with \<open>session_kept (gs_node st) (gs_node st)\<close> show ?thesis by blast
  qed
qed

lemma login_running_event:
  assumes inv: "game_inv st" and ok: "event_ok (Run_Task (Login_Running app cl oid) persisted success) st"
  shows "\<exists>st'. serve_event auth (Run_Task (Login_Running app cl oid) persisted success) st = Some st' \<and> game_inv st'"
proof -
  let ?t = "Login_Running app cl oid"
  have t: "?t \<in> set (gs_tasks st)" using ok by simp
  have i: "session_tables_ok (gs_node st)" "clients_ok (gs_next_client st) (gs_node st)" "tasks_ok (gs_node st) (gs_tasks st)"
    using inv by (simp_all add: game_inv_def)
  have m: "session_client (gs_node st) app oid = Some cl" using i(3) t by (auto simp: tasks_ok_def)
  obtain c where c: "node_clients (gs_node st) cl = Some c" "gc_app c = Some app" using clients_ok_owner [OF i(2) m] by blast
  have app: "node_apps (gs_node st) app \<noteq> None" using m by (auto simp: session_client_def bind_eq_Some_conv)
  have done1: "\<exists>st2. map_option (finish ?t) (logged_in_announce app oid (st\<lparr>gs_node := node\<rparr>)) = Some st2 \<and> game_inv st2"
    if n: "game_inv (finish ?t (st\<lparr>gs_node := node\<rparr>))" "node_apps node app \<noteq> None" for node
  proof -
    obtain node' where "logged_in_announce app oid (st\<lparr>gs_node := node\<rparr>) = Some (st\<lparr>gs_node := node'\<rparr>)" "session_kept node node'"
      using announce_kept [of "st\<lparr>gs_node := node\<rparr>" app oid] n(2) by auto
    moreover from this(2) have "game_inv ((finish ?t (st\<lparr>gs_node := node\<rparr>))\<lparr>gs_node := node'\<rparr>)"
      by (intro kept_inv [OF n(1)]) simp
    moreover have "(finish ?t (st\<lparr>gs_node := node\<rparr>))\<lparr>gs_node := node'\<rparr> = finish ?t (st\<lparr>gs_node := node'\<rparr>)"
      by (simp add: finish_def)
    ultimately show ?thesis by (simp del: finish_sel)
  qed
  show ?thesis
  proof (cases success)
    case True
    then show ?thesis using done1 [of "gs_node st"] finish_inv [OF inv] app by simp
  next
    case False
    let ?st1 = "finish ?t st"
    have fin: "game_inv ?st1" by (rule finish_inv [OF inv])
    have "\<not> login_pending cl (gs_tasks ?st1)"
    proof
      assume "login_pending cl (gs_tasks ?st1)"
      then obtain task where task: "task \<in> set (gs_tasks ?st1)" "(\<exists>a. task = Logged_In a cl) \<or> (\<exists>a s. task = Login_Running a cl s)"
        by (rule login_pendingE)
      have in_st: "task \<in> set (gs_tasks st)" using task(1) set_remove1_subset by (fastforce simp: finish_def)
      then have k: "task_ok (gs_node st) task" using i(3) by (simp add: tasks_ok_def)
      have rev: "client_session (gs_node st) app cl = Some oid" using i(1) m by (simp add: session_tables_ok_def)
      have "task = ?t"
        using task(2)
      proof (elim disjE exE)
        fix a assume "task = Logged_In a cl"
        then show ?thesis using k c rev by auto
      next
        fix a s assume e: "task = Login_Running a cl s"
        then have s: "session_client (gs_node st) a s = Some cl" using k by simp
        then have "a = app" using clients_ok_owner [OF i(2) s] c by auto
        then show ?thesis using e s i(1) rev by (simp add: session_tables_ok_def)
      qed
      moreover have "?t \<notin> set (remove1 ?t (filter is_login (gs_tasks st)))"
        using i(3) by (simp add: tasks_ok_def)
      ultimately show False using task(1) by (simp add: finish_def flip: filter_remove1)
    qed
    moreover have "\<not> message_pending cl (gs_tasks ?st1)"
      using ok False set_remove1_subset [of ?t "gs_tasks st"] by (auto simp: message_pending_def finish_def)
    ultimately have u: "game_inv (?st1\<lparr>gs_node := unmap_client app oid cl (gs_node st)\<rparr>)" (is "game_inv ?st2")
      using unmap_inv(1) [OF fin] m by simp
    obtain node' where n': "gzochid_game_client_disconnect cl (unmap_client app oid cl (gs_node st)) = Some node'"
        "session_kept (unmap_client app oid cl (gs_node st)) node'"
      using disconnect_write_kept [OF u] c(1) by auto
    have "finish ?t (st\<lparr>gs_node := node'\<rparr>) = ?st2\<lparr>gs_node := node'\<rparr>" by (simp add: finish_def)
    then have "game_inv (finish ?t (st\<lparr>gs_node := node'\<rparr>))"
      using kept_inv [OF u, of node'] n'(2) by simp
    moreover have "node_apps node' app \<noteq> None" using n'(2) app by (simp add: session_kept_def)
    moreover have "login_catch_worker app oid st = Some (st\<lparr>gs_node := node'\<rparr>)"
      using app m n'(1) by (auto simp: login_catch_worker_def session_client_def)
    ultimately show ?thesis using done1 [of node'] False by simp
  qed
qed

lemma event_inv:
  assumes inv: "game_inv st" and ok: "event_ok e st"
  shows "\<exists>st'. serve_event auth e st = Some st' \<and> game_inv st'"
proof (cases e)
  case (Run_Task task persisted success)
  show ?thesis
  proof (cases task)
    case (Received_Message app cl msg)
    have "tasks_ok (gs_node st) (gs_tasks st)" using inv by (simp add: game_inv_def)
    then have "client_session (gs_node st) app cl \<noteq> None" using ok Run_Task Received_Message by (auto simp: tasks_ok_def)
    then show ?thesis
      using Run_Task Received_Message finish_inv [OF inv] by (auto simp: received_message_oid_def client_session_def)
  next
    case (Logged_In app cl)
    then show ?thesis using logged_in_event [OF inv] ok Run_Task by blast
  next
    case (Login_Running app cl oid)
    then show ?thesis using login_running_event [OF inv] ok Run_Task by blast
  next
    case (Disconnect_Callback app oid)
    then show ?thesis using finish_inv [OF inv] Run_Task by simp
  qed
next
  case (Accept sock)
  then show ?thesis using accept_event [OF inv] ok by blast
next
  case (Client_Sends client m p len)
  then show ?thesis using message_event [OF inv] ok by blast
next
  case (Hang_Up client)
  then show ?thesis using hangup_event [OF inv] ok by blast
next
  case (Commit app tx)
  then show ?thesis using commit_event [OF inv] ok by blast
next
  case (Channel_Relayed req)
  then show ?thesis using channel_event [OF inv] by blast
next
  case (Session_Relayed req)
  then show ?thesis using session_event [OF inv] by blast
qed

section \<open>Reachable states\<close>

text \<open>An application server with its applications, before any client has connected.\<close>

definition node_start :: "cstring set \<Rightarrow> gzochid_reconnectable_socket option \<Rightarrow> game_state" where
  "node_start apps meta =
     \<lparr>gs_node = \<lparr>node_apps = (\<lambda>app. if app \<in> apps
          then Some \<lparr>oids_to_clients = Map.empty, clients_to_oids = Map.empty, channel_sessions = Map.empty\<rparr> else None),
        node_clients = Map.empty, node_sequences = Map.empty, node_next = 0, node_sockets = Map.empty, node_meta = meta\<rparr>,
      gs_tasks = [], gs_next_client = 0\<rparr>"

inductive game_reachable :: "authenticator \<Rightarrow> cstring set \<Rightarrow> gzochid_reconnectable_socket option \<Rightarrow> game_state \<Rightarrow> bool"
  for auth apps meta where
  start: "game_reachable auth apps meta (node_start apps meta)"
| event: "game_reachable auth apps meta st \<Longrightarrow> event_ok e st \<Longrightarrow> serve_event auth e st = Some st' \<Longrightarrow>
    game_reachable auth apps meta st'"

lemma node_start_inv: "\<forall>app \<in> apps. length app + 1 < 2 ^ 15 \<Longrightarrow> game_inv (node_start apps meta)"
  by (auto simp: game_inv_def node_start_def session_tables_ok_def clients_ok_def tasks_ok_def app_names_ok_def channels_inv_def
    session_client_def client_session_def channel_list_def bind_eq_Some_conv split: if_splits)

lemma game_reachable_inv:
  assumes "game_reachable auth apps meta st" and "\<forall>app \<in> apps. length app + 1 < 2 ^ 15"
  shows "game_inv st"
  using assms(1)
proof (induction rule: game_reachable.induct)
  case start
  show ?case by (rule node_start_inv [OF assms(2)])
next
  case (event st e st')
  then show ?case using event_inv [of st e auth] by auto
qed

fun serve_events :: "authenticator \<Rightarrow> game_event list \<Rightarrow> game_state \<Rightarrow> game_state option" where
  "serve_events auth [] st = Some st"
| "serve_events auth (e # es) st = Option.bind (serve_event auth e st) (serve_events auth es)"

fun events_ok :: "authenticator \<Rightarrow> game_event list \<Rightarrow> game_state \<Rightarrow> bool" where
  "events_ok auth [] st \<longleftrightarrow> True"
| "events_ok auth (e # es) st \<longleftrightarrow> event_ok e st
     \<and> (case serve_event auth e st of None \<Rightarrow> True | Some st' \<Rightarrow> events_ok auth es st')"

lemma serve_events_reachable:
  "game_reachable auth apps meta st \<Longrightarrow> events_ok auth es st \<Longrightarrow> serve_events auth es st = Some st' \<Longrightarrow>
    game_reachable auth apps meta st'"
proof (induction es arbitrary: st)
  case (Cons e es)
  then show ?case using game_reachable.event [OF Cons.prems(1), of e] by (auto simp: bind_eq_Some_conv)
qed simp

section \<open>Properties\<close>

text \<open>
  (C4) The sessions of an application server, for the events it relies on (\<open>event_ok\<close>): a client logs out only
  after it has logged in; no task of a client is still to run when it logs out or hangs up, and no message of it when its
  login fails; messages are at most 32767 bytes long; new sockets and stored sessions have fresh addresses and ids; and
  what transactions do to sessions of other servers fits a message to the meta server. In every state reached by such events, the next such
  event is served without a fault, the tables of sessions and clients of every application are inverse to each
  other, a session that is mapped has a client that is logged in to this application and whose socket is open, no two
  sessions share a socket, and the lists of channel members are intact. The theorems after this one show that the conditions on
  logouts, hang-ups and lengths cannot be dropped.
\<close>

theorem game_sessions_safe:
  assumes "\<forall>app \<in> apps. length app + 1 < 2 ^ 15" and "game_reachable auth apps meta st"
  shows "(\<forall>e. event_ok e st \<longrightarrow> serve_event auth e st \<noteq> None)
    \<and> (\<forall>app s client. session_client (gs_node st) app s = Some client \<longleftrightarrow> client_session (gs_node st) app client = Some s)
    \<and> (\<forall>app s client. session_client (gs_node st) app s = Some client \<longrightarrow>
        (\<exists>c. node_clients (gs_node st) client = Some c \<and> gc_app c = Some app \<and> gc_identity c \<noteq> None \<and> \<not> gc_disconnected c))
    \<and> node_ok (gs_node st)"
proof -
  have inv: "game_inv st" by (rule game_reachable_inv [OF assms(2,1)])
  then have i: "session_tables_ok (gs_node st)" "clients_ok (gs_next_client st) (gs_node st)" by (simp_all add: game_inv_def)
  show ?thesis
    using event_inv [OF inv] i(1) clients_ok_owner [OF i(2)] game_inv_node_ok [OF inv] unfolding session_tables_ok_def by blast
qed

text \<open>Events of a client that logs in to an application, as the tests of the next theorems use them.\<close>

definition any_identity :: authenticator where
  "any_identity app cred = cred"

definition login_events :: "game_event list" where
  "login_events = [Client_Sends 0 [0x10, 99, 0, 65] 0 4, Run_Task (Logged_In [99] 0) (Some 5) True,
     Run_Task (Login_Running [99] 0 5) None True]"

abbreviation client_logout :: game_event where
  "client_logout \<equiv> Client_Sends 0 [0x20] 0 1"

abbreviation client_message :: game_event where
  "client_message \<equiv> Client_Sends 0 [0x31, 66] 0 2"

lemmas game_eval = login_events_def any_identity_def node_start_def game_server_accept_def game_dispatch_message_def
  dispatch_login_request_def dispatch_logout_request_def dispatch_session_message_def received_message_def credentials_def
  update_client_def submit_def finish_def logged_in_task_def map_client_def unmap_client_def update_app_def
  logged_in_announce_def disconnected_def game_client_error_def game_client_free_def game_hangup_def received_message_oid_def
  GAME_LOGIN_REQUEST_def GAME_LOGOUT_REQUEST_def GAME_SESSION_MESSAGE_def rd_def Let_def to_short_def

theorem game_sessions_safe_witness:
  "\<exists>st. serve_events any_identity (Accept 10 # login_events) (node_start {[99]} None) = Some st
    \<and> session_client (gs_node st) [99] 5 = Some 0 \<and> client_session (gs_node st) [99] 0 = Some 5 \<and> node_ok (gs_node st)
    \<and> serve_event any_identity (Hang_Up 0) st \<noteq> None"
proof -
  obtain st where st: "serve_events any_identity (Accept 10 # login_events) (node_start {[99]} None) = Some st"
      "session_client (gs_node st) [99] 5 = Some 0" "event_ok (Hang_Up 0) st"
    by (simp add: game_eval session_client_def login_pending_def message_pending_def)
  have "events_ok any_identity (Accept 10 # login_events) (node_start {[99]} None)"
    by (simp add: game_eval session_client_def login_pending_def message_pending_def)
  from serve_events_reachable [OF game_reachable.start this st(1)] have r: "game_reachable any_identity {[99]} None st" .
  have "\<forall>app \<in> {[99]}. length app + 1 < 2 ^ 15" by simp
  from game_sessions_safe [OF this r] st show ?thesis by blast
qed

text \<open>
  (C40) A logout before the login. Every client that sends a logout before it logs in is marked as disconnected, and
  may still log in to any application whose authenticator knows it. When its connection is lost after its session was stored
  and mapped, the error handler does nothing because of the mark: the client is freed and stays in the table of
  sessions, and whatever is sent to the session then uses the freed client.
\<close>

theorem logout_before_login_dangles:
  assumes c: "node_clients (gs_node st) client = Some c" "gc_identity c = None" and app: "node_apps (gs_node st) app \<noteq> None"
    and auth: "credentials m cred cred_len = Some cr" "auth app cr = Some identity"
  shows "\<exists>st1 st2 st3 st4. dispatch_logout_request client st = Some st1
    \<and> dispatch_login_request auth client app m cred cred_len st1 = Some st2 \<and> Logged_In app client \<in> set (gs_tasks st2)
    \<and> run_game_task (Logged_In app client) (Some oid) success st2 = Some st3 \<and> game_hangup client st3 = Some st4
    \<and> session_client (gs_node st4) app oid = Some client \<and> node_clients (gs_node st4) client = None
    \<and> (\<forall>msg. gzochid_game_client_send client msg (gs_node st4) = None)"
proof -
  obtain ctx where ctx: "node_apps (gs_node st) app = Some ctx" using app by blast
  let ?st1 = "update_client client (gc_disconnected_update (\<lambda>_. True)) st"
  let ?st2 = "submit (Logged_In app client) (update_client client (gc_identity_update (\<lambda>_. Some identity))
    (update_client client (gc_app_update (\<lambda>_. Some app)) ?st1))"
  let ?st3 = "submit (Login_Running app client oid) ((finish (Logged_In app client) ?st2)\<lparr>gs_node := map_client app oid client (gs_node ?st2)\<rparr>)"
  let ?st4 = "(game_client_free client ?st3)\<lparr>gs_node := (gs_node (game_client_free client ?st3))\<lparr>node_sockets :=
    (node_sockets (gs_node ?st3))(gc_sock c := None)\<rparr>\<rparr>"
  have "dispatch_logout_request client st = Some ?st1" using c by (simp add: dispatch_logout_request_def)
  moreover have "dispatch_login_request auth client app m cred cred_len ?st1 = Some ?st2"
    using c ctx auth by (simp add: dispatch_login_request_def update_client_def Let_def)
  moreover have "Logged_In app client \<in> set (gs_tasks ?st2)" by (simp add: submit_def)
  moreover have "run_game_task (Logged_In app client) (Some oid) success ?st2 = Some ?st3"
    using c by (simp add: logged_in_task_def finish_def submit_def update_client_def)
  moreover have "game_hangup client ?st3 = Some ?st4"
    using c by (simp add: game_hangup_def game_client_error_def game_client_free_def submit_def finish_def update_client_def
      map_client_def update_app_def)
  moreover have "session_client (gs_node ?st4) app oid = Some client"
    using ctx by (simp add: session_client_def game_client_free_def submit_def finish_def update_client_def map_client_def update_app_def)
  moreover have gone: "node_clients (gs_node ?st4) client = None" by (simp add: game_client_free_def)
  moreover have "gzochid_game_client_send client msg (gs_node ?st4) = None" for msg
    using gone by (simp add: game_client_send_eq game_client_write_def)
  ultimately show ?thesis by blast
qed

theorem logout_before_login_dangles_witness:
  "\<exists>st1 st2 st3 st4. dispatch_logout_request 0 (game_server_accept 10 (node_start {[99]} None)) = Some st1
    \<and> dispatch_login_request any_identity 0 [99] [65] 0 1 st1 = Some st2
    \<and> run_game_task (Logged_In [99] 0) (Some 5) True st2 = Some st3 \<and> game_hangup 0 st3 = Some st4
    \<and> session_client (gs_node st4) [99] 5 = Some 0 \<and> gzochid_game_client_send 0 [66] (gs_node st4) = None"
proof -
  let ?st = "game_server_accept 10 (node_start {[99]} None)"
  have "node_clients (gs_node ?st) 0 = Some \<lparr>gc_app = None, gc_identity = None, gc_disconnected = False, gc_sock = 10\<rparr>"
    "node_apps (gs_node ?st) [99] \<noteq> None" by (simp_all add: game_eval)
  moreover have "credentials [65] 0 1 = Some (Some [65])" "any_identity [99] (Some [65]) = Some [65]"
    by (simp_all add: credentials_def any_identity_def)
  ultimately show ?thesis
    using logout_before_login_dangles [of ?st 0 _ "[99]" "[65]" 0 1 "Some [65]" any_identity "[65]" 5 True] by fastforce
qed

text \<open>
  A message of a client that is lost. The task of a message keeps the address of the object id in
  the table of clients; when the client logs out before the task runs, the entry is freed, and the task
  reads freed memory. A login that is still to run when the connection is lost uses the freed client.
\<close>

theorem tasks_outlive_client:
  "(\<exists>st. serve_events any_identity (Accept 10 # login_events @ [client_message, client_logout]) (node_start {[99]} None) = Some st
    \<and> Received_Message [99] 0 [66] \<in> set (gs_tasks st)
    \<and> serve_event any_identity (Run_Task (Received_Message [99] 0 [66]) None True) st = None)
  \<and> (\<exists>st. serve_events any_identity [Accept 10, hd login_events, Hang_Up 0] (node_start {[99]} None) = Some st
    \<and> Logged_In [99] 0 \<in> set (gs_tasks st)
    \<and> serve_event any_identity (Run_Task (Logged_In [99] 0) (Some 5) True) st = None)"
  by (simp add: game_eval)

text \<open>
  A message that is too long. The length of a message of a client is passed on as a \<open>short\<close>; when a
  client with a session sends 32768 bytes or more in a message, the length is negative and the copy of the
  message asks for more memory than there is.
\<close>

theorem oversized_message_faults:
  assumes "node_clients (gs_node st) client = Some c" and "gc_identity c \<noteq> None" and "gc_app c = Some app"
    and "client_session (gs_node st) app client = Some s"
    and "m ! p = GAME_SESSION_MESSAGE" and "2 ^ 15 < unat len" and "p + unat len \<le> length m"
  shows "game_dispatch_message auth client m p len st = None"
proof -
  have len: "0 < unat len" using assms(6) by simp
  note h = message_head [OF len assms(7)]
  have l1: "unat (len - 1) = unat len - 1" using unat_sub_nat [of 1 len] len by simp
  have "uint (len - 1) = int (unat (len - 1))" by simp
  moreover have "32768 \<le> unat (len - 1)" unfolding l1 using assms(6) by simp
  moreover have "unat (len - 1) < 65536" using unsigned_less [of "len - 1", where ?'a = nat] by simp
  ultimately have b: "32768 \<le> uint (len - 1)" "uint (len - 1) < 65536" by linarith+
  have "to_short (uint (len - 1)) = signed_take_bit 15 (uint (len - 1))"
    by (simp add: to_short_def sint_uint)
  also have "\<dots> = uint (len - 1) - 65536"
  proof -
    have "signed_take_bit 15 (uint (len - 1)) = take_bit 16 (uint (len - 1) + 2 ^ 15) - 2 ^ 15"
      by (simp add: signed_take_bit_eq_take_bit_shift)
    also have "take_bit 16 (uint (len - 1) + 2 ^ 15) = uint (len - 1) + 2 ^ 15 - 65536"
      using b minus_mod_self2 [of "uint (len - 1) + 32768" 65536] by (simp add: take_bit_eq_mod)
    finally show ?thesis by simp
  qed
  finally have neg: "to_short (uint (len - 1)) < 0" using b(2) by simp
  obtain ctx where ctx: "node_apps (gs_node st) app = Some ctx" "clients_to_oids ctx client = Some s"
    using assms(4) by (auto simp: client_session_def bind_eq_Some_conv)
  show ?thesis
    using assms(1-3,5) neg ctx opcodes_distinct
    by (simp add: game_dispatch_message_def h(3) Let_def dispatch_session_message_def received_message_def)
qed

theorem oversized_message_faults_witness:
  "\<exists>st. serve_events any_identity (Accept 10 # login_events) (node_start {[99]} None) = Some st
    \<and> game_dispatch_message any_identity 0 (0x31 # replicate 40000 0) 0 40001 st = None"
proof -
  obtain st c where "serve_events any_identity (Accept 10 # login_events) (node_start {[99]} None) = Some st"
      "node_clients (gs_node st) 0 = Some c" "gc_identity c \<noteq> None" "gc_app c = Some [99]"
      "client_session (gs_node st) [99] 0 = Some 5"
    by (simp add: game_eval client_session_def)
  with oversized_message_faults [of st 0 c "[99]" 5 "0x31 # replicate 40000 0" 0 40001 any_identity] show ?thesis
    by (simp add: GAME_SESSION_MESSAGE_def)
qed

end
