(* ===== verification/App_Task.thy ===== *)
theory App_Task
  imports Tx
begin

text \<open>
  Transactional tasks of an application, \<open>gzochi-server/src/app-task.c\<close>: a task runs in a transaction, is tried
  again when the transaction asks for it, a catch task runs when it has failed for good and a cleanup
  task at the end. One worker repeats the transaction on the spot, the other one submits itself to the
  task queue again.

  Tasks count their references and executions are shared by address; both live in stores, and what was freed is
  mapped to nothing. \<open>run_tx\<close> runs a function of an application in a transaction, with a time
  limit or without one, and returns how the transaction ended, \<open>run_plain\<close> runs it outside of
  transactions; both are arguments and act on the world \<open>'w\<close>. A result that is still pending is no result.
\<close>

section \<open>State\<close>

datatype 'f application_worker = App_Function 'f | Reexecuting nat | Resubmitting nat

record 'f application_task =
  at_worker :: "'f application_worker"
  at_ref_count :: int

record task_execution =
  ex_task :: nat
  ex_catch_task :: "nat option"
  ex_cleanup_task :: "nat option"
  ex_timeout :: "timeval option"
  ex_attempts :: int
  ex_max_attempts :: int
  ex_result :: "gzochid_transaction_result option"

record ('f, 'w) task_state =
  ts_tasks :: "nat \<rightharpoonup> 'f application_task"
  ts_executions :: "nat \<rightharpoonup> task_execution"
  ts_next :: nat
  ts_queue :: "nat list"
  ts_world :: 'w

record ('f, 'w) task_runner =
  run_tx :: "'f \<Rightarrow> timeval option \<Rightarrow> 'w \<Rightarrow> 'w \<times> gzochid_transaction_result"
  run_plain :: "'f \<Rightarrow> 'w \<Rightarrow> 'w"

definition MAX_ATTEMPTS_DEFAULT :: int where "MAX_ATTEMPTS_DEFAULT = 3"

section \<open>Tasks and executions\<close>

definition gzochid_application_task_new ::
    "'f application_worker \<Rightarrow> ('f, 'w) task_state \<Rightarrow> ('f, 'w) task_state \<times> nat" where
  "gzochid_application_task_new worker st =
     (st\<lparr>ts_tasks := (ts_tasks st)(ts_next st \<mapsto> \<lparr>at_worker = worker, at_ref_count = 1\<rparr>), ts_next := Suc (ts_next st)\<rparr>, ts_next st)"

definition gzochid_application_task_ref :: "nat \<Rightarrow> ('f, 'w) task_state \<Rightarrow> ('f, 'w) task_state option" where
  "gzochid_application_task_ref a st = do {
     task \<leftarrow> ts_tasks st a;
     Some (st\<lparr>ts_tasks := (ts_tasks st)(a \<mapsto> task\<lparr>at_ref_count := at_ref_count task + 1\<rparr>)\<rparr>)
   }"

definition gzochid_application_task_unref :: "nat \<Rightarrow> ('f, 'w) task_state \<Rightarrow> ('f, 'w) task_state option" where
  "gzochid_application_task_unref a st = do {
     task \<leftarrow> ts_tasks st a;
     let n = at_ref_count task - 1;
     Some (st\<lparr>ts_tasks := (ts_tasks st)(a := if n = 0 then None else Some (task\<lparr>at_ref_count := n\<rparr>))\<rparr>)
   }"

definition ref_optional :: "nat option \<Rightarrow> ('f, 'w) task_state \<Rightarrow> ('f, 'w) task_state option" where
  "ref_optional a st = (case a of None \<Rightarrow> Some st | Some a \<Rightarrow> gzochid_application_task_ref a st)"

definition unref_optional :: "nat option \<Rightarrow> ('f, 'w) task_state \<Rightarrow> ('f, 'w) task_state option" where
  "unref_optional a st = (case a of None \<Rightarrow> Some st | Some a \<Rightarrow> gzochid_application_task_unref a st)"

definition execution_new ::
    "nat \<Rightarrow> nat option \<Rightarrow> nat option \<Rightarrow> timeval option \<Rightarrow> ('f, 'w) task_state \<Rightarrow> (('f, 'w) task_state \<times> nat) option" where
  "execution_new task catch_task cleanup_task limit st = do {
     st \<leftarrow> gzochid_application_task_ref task st;
     st \<leftarrow> ref_optional catch_task st;
     st \<leftarrow> ref_optional cleanup_task st;
     let e = ts_next st;
     Some (st\<lparr>ts_executions := (ts_executions st)(e \<mapsto>
              \<lparr>ex_task = task, ex_catch_task = catch_task, ex_cleanup_task = cleanup_task, ex_timeout = limit,
               ex_attempts = 0, ex_max_attempts = MAX_ATTEMPTS_DEFAULT, ex_result = None\<rparr>),
            ts_next := Suc e\<rparr>, e)
   }"

definition execution_free :: "nat \<Rightarrow> ('f, 'w) task_state \<Rightarrow> ('f, 'w) task_state option" where
  "execution_free e st = do {
     ex \<leftarrow> ts_executions st e;
     st \<leftarrow> gzochid_application_task_unref (ex_task ex) st;
     st \<leftarrow> unref_optional (ex_catch_task ex) st;
     st \<leftarrow> unref_optional (ex_cleanup_task ex) st;
     Some (st\<lparr>ts_executions := (ts_executions st)(e := None)\<rparr>)
   }"

definition update_execution :: "nat \<Rightarrow> (task_execution \<Rightarrow> task_execution) \<Rightarrow> ('f, 'w) task_state \<Rightarrow> ('f, 'w) task_state option" where
  "update_execution e f st = do {
     ex \<leftarrow> ts_executions st e;
     Some (st\<lparr>ts_executions := (ts_executions st)(e \<mapsto> f ex)\<rparr>)
   }"

section \<open>Workers\<close>

text \<open>
  The function of a task that is run in a transaction. Tasks of executions hold functions of the
  application, never one of the two workers.
\<close>

definition task_function :: "nat \<Rightarrow> ('f, 'w) task_state \<Rightarrow> 'f option" where
  "task_function a st = do {
     task \<leftarrow> ts_tasks st a;
     case at_worker task of App_Function f \<Rightarrow> Some f | _ \<Rightarrow> None
   }"

definition gzochid_application_transactional_task_worker ::
    "('f, 'w) task_runner \<Rightarrow> nat \<Rightarrow> ('f, 'w) task_state \<Rightarrow> ('f, 'w) task_state option" where
  "gzochid_application_transactional_task_worker run e st = do {
     ex \<leftarrow> ts_executions st e;
     f \<leftarrow> task_function (ex_task ex) st;
     let (w, result) = run_tx run f (ex_timeout ex) (ts_world st);
     update_execution e (\<lambda>ex. ex\<lparr>ex_result := Some result, ex_attempts := ex_attempts ex + 1\<rparr>) (st\<lparr>ts_world := w\<rparr>)
   }"

definition gzochid_application_should_retry :: "task_execution \<Rightarrow> bool" where
  "gzochid_application_should_retry ex \<longleftrightarrow>
     ex_result ex = Some Tx_Should_Retry \<and> ex_attempts ex < ex_max_attempts ex"

partial_function (option) retry_loop ::
    "('f, 'w) task_runner \<Rightarrow> nat \<Rightarrow> ('f, 'w) task_state \<Rightarrow> ('f, 'w) task_state option" where
  "retry_loop run e st = do {
     st \<leftarrow> gzochid_application_transactional_task_worker run e st;
     ex \<leftarrow> ts_executions st e;
     if gzochid_application_should_retry ex then retry_loop run e st else Some st
   }"

definition run_cleanup_task :: "('f, 'w) task_runner \<Rightarrow> nat option \<Rightarrow> ('f, 'w) task_state \<Rightarrow> ('f, 'w) task_state option" where
  "run_cleanup_task run cleanup_task st =
     (case cleanup_task of
        None \<Rightarrow> Some st
      | Some a \<Rightarrow> do {
          f \<leftarrow> task_function a st;
          Some (st\<lparr>ts_world := run_plain run f (ts_world st)\<rparr>)
        })"

partial_function (option) gzochid_application_reexecuting_transactional_task_worker ::
    "('f, 'w) task_runner \<Rightarrow> nat \<Rightarrow> ('f, 'w) task_state \<Rightarrow> ('f, 'w) task_state option" where
  "gzochid_application_reexecuting_transactional_task_worker run e st = do {
     st \<leftarrow> retry_loop run e st;
     ex \<leftarrow> ts_executions st e;
     st \<leftarrow> (if ex_result ex \<noteq> Some Tx_Success \<and> ex_catch_task ex \<noteq> None
           then do {
             catch_task \<leftarrow> ex_catch_task ex;
             (st, ce) \<leftarrow> execution_new catch_task None None (ex_timeout ex) st;
             st \<leftarrow> update_execution ce (ex_max_attempts_update (\<lambda>_. 1)) st;
             gzochid_application_reexecuting_transactional_task_worker run ce st
           }
           else Some st);
     st \<leftarrow> run_cleanup_task run (ex_cleanup_task ex) st;
     execution_free e st
   }"

definition submit_application_task :: "nat \<Rightarrow> ('f, 'w) task_state \<Rightarrow> ('f, 'w) task_state" where
  "submit_application_task a st = st\<lparr>ts_queue := ts_queue st @ [a]\<rparr>"

definition gzochid_application_resubmitting_transactional_task_worker ::
    "('f, 'w) task_runner \<Rightarrow> nat \<Rightarrow> ('f, 'w) task_state \<Rightarrow> ('f, 'w) task_state option" where
  "gzochid_application_resubmitting_transactional_task_worker run e st = do {
     st \<leftarrow> gzochid_application_transactional_task_worker run e st;
     ex \<leftarrow> ts_executions st e;
     if gzochid_application_should_retry ex
     then do {
       st \<leftarrow> update_execution e (ex_result_update (\<lambda>_. None)) st;
       let (st, a) = gzochid_application_task_new (Resubmitting e) st;
       Some (submit_application_task a st)
     }
     else if ex_result ex \<noteq> Some Tx_Success \<and> ex_catch_task ex \<noteq> None
     then do {
       catch_task \<leftarrow> ex_catch_task ex;
       (st, ce) \<leftarrow> execution_new catch_task None (ex_cleanup_task ex) None st;
       st \<leftarrow> update_execution ce (ex_max_attempts_update (\<lambda>_. 1)) st;
       let (st, a) = gzochid_application_task_new (Resubmitting ce) st;
       st \<leftarrow> execution_free e st;
       Some (submit_application_task a st)
     }
     else (case ex_cleanup_task ex of
         None \<Rightarrow> execution_free e st
       | Some a \<Rightarrow> do {
           st \<leftarrow> gzochid_application_task_ref a st;
           st \<leftarrow> execution_free e st;
           Some (submit_application_task a st)
         })
   }"

definition gzochid_application_task_thread_worker ::
    "('f, 'w) task_runner \<Rightarrow> nat \<Rightarrow> ('f, 'w) task_state \<Rightarrow> ('f, 'w) task_state option" where
  "gzochid_application_task_thread_worker run a st = do {
     task \<leftarrow> ts_tasks st a;
     st \<leftarrow> (case at_worker task of
             App_Function f \<Rightarrow> Some (st\<lparr>ts_world := run_plain run f (ts_world st)\<rparr>)
           | Reexecuting e \<Rightarrow> gzochid_application_reexecuting_transactional_task_worker run e st
           | Resubmitting e \<Rightarrow> gzochid_application_resubmitting_transactional_task_worker run e st);
     gzochid_application_task_unref a st
   }"

text \<open>The submitted tasks, run one after the other.\<close>

partial_function (option) run_submitted ::
    "('f, 'w) task_runner \<Rightarrow> ('f, 'w) task_state \<Rightarrow> ('f, 'w) task_state option" where
  "run_submitted run st =
     (case ts_queue st of
        [] \<Rightarrow> Some st
      | a # as \<Rightarrow> Option.bind (gzochid_application_task_thread_worker run a (st\<lparr>ts_queue := as\<rparr>)) (run_submitted run))"

section \<open>What a transactional task comes to\<close>

text \<open>Up to \<open>n + 1\<close> transactions, as long as they ask to be tried again.\<close>

fun tries :: "('f, 'w) task_runner \<Rightarrow> 'f \<Rightarrow> timeval option \<Rightarrow> nat \<Rightarrow> 'w \<Rightarrow> 'w \<times> gzochid_transaction_result" where
  "tries run f limit 0 w = run_tx run f limit w"
| "tries run f limit (Suc n) w =
     (case run_tx run f limit w of (w', r) \<Rightarrow> if r = Tx_Should_Retry then tries run f limit n w' else (w', r))"

definition caught :: "('f, 'w) task_runner \<Rightarrow> 'f option \<Rightarrow> timeval option \<Rightarrow> 'w \<times> gzochid_transaction_result \<Rightarrow> 'w" where
  "caught run catch limit = (\<lambda>(w, r).
     case catch of None \<Rightarrow> w | Some g \<Rightarrow> if r = Tx_Success then w else fst (run_tx run g limit w))"

definition cleaned :: "('f, 'w) task_runner \<Rightarrow> 'f option \<Rightarrow> 'w \<Rightarrow> 'w" where
  "cleaned run cleanup w = (case cleanup of None \<Rightarrow> w | Some h \<Rightarrow> run_plain run h w)"

lemma task_state_swap:
  "ts_world_update g (ts_executions_update h st) = ts_executions_update h (ts_world_update g st)"
  "ts_executions_update h (ts_tasks_update k st) = ts_tasks_update k (ts_executions_update h st)"
  "ts_world_update g (ts_tasks_update k st) = ts_tasks_update k (ts_world_update g st)"
  "ts_executions_update h (ts_next_update j st) = ts_next_update j (ts_executions_update h st)"
  "ts_world_update g (ts_next_update j st) = ts_next_update j (ts_world_update g st)"
  "ts_tasks_update k (ts_next_update j st) = ts_next_update j (ts_tasks_update k st)"
  "ts_world_update g (ts_queue_update q st) = ts_queue_update q (ts_world_update g st)"
  "ts_executions_update h (ts_queue_update q st) = ts_queue_update q (ts_executions_update h st)"
  "ts_tasks_update k (ts_queue_update q st) = ts_queue_update q (ts_tasks_update k st)"
  "ts_next_update j (ts_queue_update q st) = ts_queue_update q (ts_next_update j st)"
  "ex_attempts_update b (ex_result_update c ex) = ex_result_update c (ex_attempts_update b ex)"
  by simp_all

lemma retry_loop_tries:
  assumes "ts_executions st e = Some ex" and "task_function (ex_task ex) st = Some f"
    and "ex_attempts ex + int n + 1 = ex_max_attempts ex" and "tries run f (ex_timeout ex) n (ts_world st) = (w, r)"
  shows "\<exists>k. retry_loop run e st = Some (st\<lparr>ts_world := w,
    ts_executions := (ts_executions st)(e \<mapsto> ex\<lparr>ex_result := Some r, ex_attempts := k\<rparr>)\<rparr>)"
  using assms
proof (induction n arbitrary: st ex)
  case 0
  then have "retry_loop run e st = Some (st\<lparr>ts_world := w,
      ts_executions := (ts_executions st)(e \<mapsto> ex\<lparr>ex_result := Some r, ex_attempts := ex_attempts ex + 1\<rparr>)\<rparr>)"
    by (subst retry_loop.simps) (simp add: gzochid_application_transactional_task_worker_def update_execution_def
      gzochid_application_should_retry_def)
  then show ?case by blast
next
  case (Suc n)
  obtain w1 r1 where 1: "run_tx run f (ex_timeout ex) (ts_world st) = (w1, r1)" by fastforce
  let ?ex = "ex\<lparr>ex_result := Some r1, ex_attempts := ex_attempts ex + 1\<rparr>"
  let ?st = "st\<lparr>ts_world := w1, ts_executions := (ts_executions st)(e \<mapsto> ?ex)\<rparr>"
  have step: "retry_loop run e st = (if r1 = Tx_Should_Retry then retry_loop run e ?st else Some ?st)"
    using Suc.prems(1-3) 1 by (subst retry_loop.simps) (simp add: gzochid_application_transactional_task_worker_def
      update_execution_def gzochid_application_should_retry_def)
  show ?case
  proof (cases "r1 = Tx_Should_Retry")
    case False
    then have "retry_loop run e st = Some (st\<lparr>ts_world := w,
        ts_executions := (ts_executions st)(e \<mapsto> ex\<lparr>ex_result := Some r, ex_attempts := ex_attempts ex + 1\<rparr>)\<rparr>)"
      using step Suc.prems(4) 1 by simp
    then show ?thesis by blast
  next
    case True
    have "\<exists>k. retry_loop run e ?st = Some (?st\<lparr>ts_world := w,
        ts_executions := (ts_executions ?st)(e \<mapsto> ?ex\<lparr>ex_result := Some r, ex_attempts := k\<rparr>)\<rparr>)"
      by (rule Suc.IH) (use Suc.prems 1 True in \<open>simp_all add: task_function_def\<close>)
    then obtain k where "retry_loop run e ?st = Some (?st\<lparr>ts_world := w,
        ts_executions := (ts_executions ?st)(e \<mapsto> ?ex\<lparr>ex_result := Some r, ex_attempts := k\<rparr>)\<rparr>)" ..
    then have "retry_loop run e st = Some (st\<lparr>ts_world := w,
        ts_executions := (ts_executions st)(e \<mapsto> ex\<lparr>ex_result := Some r, ex_attempts := k\<rparr>)\<rparr>)"
      using step True by simp
    then show ?thesis by blast
  qed
qed

text \<open>An execution that owns its tasks.\<close>

definition task_held :: "nat option \<Rightarrow> 'f option \<Rightarrow> ('f, 'w) task_state \<Rightarrow> bool" where
  "task_held a f st \<longleftrightarrow>
     (case (a, f) of
        (None, None) \<Rightarrow> True
      | (Some a, Some f) \<Rightarrow> ts_tasks st a = Some \<lparr>at_worker = App_Function f, at_ref_count = 1\<rparr> \<and> a < ts_next st
      | _ \<Rightarrow> False)"

definition execution_held :: "nat \<Rightarrow> task_execution \<Rightarrow> 'f \<Rightarrow> 'f option \<Rightarrow> 'f option \<Rightarrow> ('f, 'w) task_state \<Rightarrow> bool" where
  "execution_held e ex f catch cleanup st \<longleftrightarrow> ts_executions st e = Some ex \<and> e < ts_next st
     \<and> task_held (Some (ex_task ex)) (Some f) st \<and> task_held (ex_catch_task ex) catch st \<and> task_held (ex_cleanup_task ex) cleanup st
     \<and> ex_catch_task ex \<noteq> Some (ex_task ex) \<and> ex_cleanup_task ex \<noteq> Some (ex_task ex)
     \<and> (ex_catch_task ex \<noteq> None \<longrightarrow> ex_catch_task ex \<noteq> ex_cleanup_task ex)"

definition without :: "nat option \<Rightarrow> (nat \<rightharpoonup> 'a) \<Rightarrow> nat \<rightharpoonup> 'a" where
  "without a m = (case a of None \<Rightarrow> m | Some a \<Rightarrow> m(a := None))"

definition released :: "task_execution \<Rightarrow> (nat \<rightharpoonup> 'f application_task) \<Rightarrow> nat \<rightharpoonup> 'f application_task" where
  "released ex m = without (ex_cleanup_task ex) (without (ex_catch_task ex) (m(ex_task ex := None)))"

lemma execution_free_held:
  assumes "execution_held e ex f catch cleanup st"
  shows "execution_free e st = Some (st\<lparr>ts_tasks := released ex (ts_tasks st), ts_executions := (ts_executions st)(e := None)\<rparr>)"
  using assms
  by (auto simp: execution_held_def task_held_def execution_free_def gzochid_application_task_unref_def unref_optional_def released_def
    without_def split: option.splits)

text \<open>The worker after its loop, with the catch task run when \<open>caught\<close> says so.\<close>

lemma catch_run:
  assumes "ts_executions st ce = Some \<lparr>ex_task = c, ex_catch_task = None, ex_cleanup_task = None, ex_timeout = limit,
      ex_attempts = 0, ex_max_attempts = 1, ex_result = None\<rparr>"
    and "ts_tasks st c = Some \<lparr>at_worker = App_Function g, at_ref_count = 2\<rparr>"
  shows "gzochid_application_reexecuting_transactional_task_worker run ce st =
    Some (st\<lparr>ts_tasks := (ts_tasks st)(c \<mapsto> \<lparr>at_worker = App_Function g, at_ref_count = 1\<rparr>),
      ts_executions := (ts_executions st)(ce := None), ts_world := fst (run_tx run g limit (ts_world st))\<rparr>)"
proof -
  obtain w r where t: "run_tx run g limit (ts_world st) = (w, r)" by fastforce
  have f: "task_function c st = Some g" using assms(2) by (simp add: task_function_def)
  obtain k where loop: "retry_loop run ce st = Some (st\<lparr>ts_world := w, ts_executions := (ts_executions st)(ce \<mapsto>
      \<lparr>ex_task = c, ex_catch_task = None, ex_cleanup_task = None, ex_timeout = limit,
        ex_attempts = k, ex_max_attempts = 1, ex_result = Some r\<rparr>)\<rparr>)"
    using retry_loop_tries [OF assms(1), of g 0 run w r] f t by auto
  show ?thesis
    by (subst gzochid_application_reexecuting_transactional_task_worker.simps)
      (simp add: loop t assms execution_free_def gzochid_application_task_unref_def unref_optional_def task_state_swap
        run_cleanup_task_def)
qed

lemma catch_part:
  assumes h: "execution_held e ex f catch cleanup st" and c: "ex_catch_task ex = Some c" "catch = Some g"
    and new: "ts_executions st (ts_next st) = None"
  shows "do {
       (st, ce) \<leftarrow> execution_new c None None limit st;
       st \<leftarrow> update_execution ce (ex_max_attempts_update (\<lambda>_. 1)) st;
       gzochid_application_reexecuting_transactional_task_worker run ce st
     } = Some (st\<lparr>ts_world := fst (run_tx run g limit (ts_world st)), ts_next := Suc (ts_next st)\<rparr>)"
proof -
  have tc: "ts_tasks st c = Some \<lparr>at_worker = App_Function g, at_ref_count = 1\<rparr>"
    using h c by (simp add: execution_held_def task_held_def)
  let ?st = "st\<lparr>ts_tasks := (ts_tasks st)(c \<mapsto> \<lparr>at_worker = App_Function g, at_ref_count = 2\<rparr>),
    ts_executions := (ts_executions st)(ts_next st \<mapsto> \<lparr>ex_task = c, ex_catch_task = None, ex_cleanup_task = None,
      ex_timeout = limit, ex_attempts = 0, ex_max_attempts = 1, ex_result = None\<rparr>), ts_next := Suc (ts_next st)\<rparr>"
  have back_tasks: "(ts_tasks st)(c \<mapsto> \<lparr>at_worker = App_Function g, at_ref_count = 1\<rparr>) = ts_tasks st"
    using tc by auto
  have back_ex: "(ts_executions st)(ts_next st := None) = ts_executions st" using new by auto
  have "gzochid_application_reexecuting_transactional_task_worker run (ts_next st) ?st =
      Some (st\<lparr>ts_world := fst (run_tx run g limit (ts_world st)), ts_next := Suc (ts_next st)\<rparr>)"
    using catch_run [of ?st "ts_next st" c limit g run] by (simp add: back_tasks back_ex)
  then show ?thesis
    by (simp add: execution_new_def gzochid_application_task_ref_def ref_optional_def update_execution_def tc
      MAX_ATTEMPTS_DEFAULT_def task_state_swap Let_def)
qed

lemma reexecuting_runs:
  assumes h: "execution_held e ex f catch cleanup st" and n: "ex_attempts ex + int n + 1 = ex_max_attempts ex"
    and new: "ts_executions st (ts_next st) = None"
  shows "\<exists>m. gzochid_application_reexecuting_transactional_task_worker run e st =
    Some (st\<lparr>ts_tasks := released ex (ts_tasks st), ts_executions := (ts_executions st)(e := None), ts_next := m,
      ts_world := cleaned run cleanup (caught run catch (ex_timeout ex) (tries run f (ex_timeout ex) n (ts_world st)))\<rparr>)"
proof -
  obtain w r where t: "tries run f (ex_timeout ex) n (ts_world st) = (w, r)" by fastforce
  have f: "task_function (ex_task ex) st = Some f" using h by (simp add: execution_held_def task_held_def task_function_def)
  have e: "ts_executions st e = Some ex" and lt: "e < ts_next st" using h by (simp_all add: execution_held_def)
  obtain k where loop: "retry_loop run e st = Some (st\<lparr>ts_world := w,
      ts_executions := (ts_executions st)(e \<mapsto> ex\<lparr>ex_result := Some r, ex_attempts := k\<rparr>)\<rparr>)"
    using retry_loop_tries [OF e f n t] by blast
  let ?ex = "ex\<lparr>ex_result := Some r, ex_attempts := k\<rparr>"
  let ?st = "st\<lparr>ts_world := w, ts_executions := (ts_executions st)(e \<mapsto> ?ex)\<rparr>"
  have h1: "execution_held e ?ex f catch cleanup ?st" using h by (auto simp: execution_held_def task_held_def split: option.splits)
  let ?caught = "caught run catch (ex_timeout ex) (w, r)"
  obtain m where after: "gzochid_application_reexecuting_transactional_task_worker run e st =
      Option.bind (run_cleanup_task run (ex_cleanup_task ex) (?st\<lparr>ts_world := ?caught, ts_next := m\<rparr>)) (execution_free e)"
  proof (cases "r \<noteq> Tx_Success \<and> ex_catch_task ex \<noteq> None")
    case True
    then obtain c where c: "ex_catch_task ex = Some c" by blast
    then obtain g where g: "catch = Some g" using h by (auto simp: execution_held_def task_held_def split: option.splits)
    have fresh: "ts_executions ?st (ts_next ?st) = None" using new lt by simp
    have "?caught = fst (run_tx run g (ex_timeout ex) w)" using g True by (simp add: caught_def)
    then show ?thesis using catch_part [OF h1 _ g fresh, of c "ex_timeout ex" run] c True
      by (intro that [of "Suc (ts_next st)"], subst gzochid_application_reexecuting_transactional_task_worker.simps)
        (simp add: loop)
  next
    case False
    then have "?caught = w"
      using h by (auto simp: execution_held_def task_held_def caught_def split: option.splits)
    then show ?thesis using False
      by (intro that [of "ts_next st"], subst gzochid_application_reexecuting_transactional_task_worker.simps)
        (auto simp: loop task_state_swap)
  qed
  let ?st2 = "?st\<lparr>ts_next := m, ts_world := cleaned run cleanup (caught run catch (ex_timeout ex) (w, r))\<rparr>"
  have clean: "run_cleanup_task run (ex_cleanup_task ex) (?st\<lparr>ts_world := ?caught, ts_next := m\<rparr>) = Some ?st2"
    using h by (auto simp: execution_held_def task_held_def cleaned_def run_cleanup_task_def task_function_def task_state_swap
      split: option.splits)
  have h2: "execution_held e ?ex f catch cleanup (st\<lparr>ts_executions := (ts_executions st)(e \<mapsto> ?ex)\<rparr>)"
    using h by (auto simp: execution_held_def task_held_def split: option.splits)
  have free: "execution_free e ?st2 = Some (st\<lparr>ts_tasks := released ex (ts_tasks st),
      ts_executions := (ts_executions st)(e := None), ts_next := m,
      ts_world := cleaned run cleanup (caught run catch (ex_timeout ex) (w, r))\<rparr>)"
    using h by (auto simp: execution_held_def task_held_def execution_free_def gzochid_application_task_unref_def unref_optional_def
      released_def without_def task_state_swap split: option.splits)
  show ?thesis unfolding t after clean bind.bind_lunit free by blast
qed

section \<open>The worker that submits itself again\<close>

text \<open>A task of the queue that runs an execution, in a state whose addresses are all handed out in order.\<close>

definition submitted :: "nat \<Rightarrow> nat \<Rightarrow> ('f, 'w) task_state \<Rightarrow> bool" where
  "submitted a e st \<longleftrightarrow> ts_queue st = [a] \<and> a < ts_next st
     \<and> ts_tasks st a = Some \<lparr>at_worker = Resubmitting e, at_ref_count = 1\<rparr>
     \<and> (\<forall>x. ts_next st \<le> x \<longrightarrow> ts_tasks st x = None \<and> ts_executions st x = None)"

lemmas resubmitting_defs = submitted_def execution_held_def task_held_def gzochid_application_task_thread_worker_def
  gzochid_application_resubmitting_transactional_task_worker_def gzochid_application_transactional_task_worker_def
  update_execution_def gzochid_application_should_retry_def gzochid_application_task_new_def submit_application_task_def
  gzochid_application_task_unref_def gzochid_application_task_ref_def execution_free_def execution_new_def ref_optional_def
  unref_optional_def task_function_def Let_def task_state_swap released_def without_def cleaned_def MAX_ATTEMPTS_DEFAULT_def

lemma run_submitted_queue:
  "ts_queue st = [] \<Longrightarrow> run_submitted run st = Some st"
  "ts_queue st = a # as \<Longrightarrow> run_submitted run st =
     Option.bind (gzochid_application_task_thread_worker run a (st\<lparr>ts_queue := as\<rparr>)) (run_submitted run)"
  by (subst run_submitted.simps, simp)+

lemma resubmit_retry:
  assumes "execution_held e ex f catch cleanup st" and "submitted a e st"
    and "run_tx run f (ex_timeout ex) (ts_world st) = (w, Tx_Should_Retry)" and "ex_attempts ex + 1 < ex_max_attempts ex"
  shows "run_submitted run st = run_submitted run (st\<lparr>ts_world := w,
      ts_executions := (ts_executions st)(e \<mapsto> ex\<lparr>ex_result := None, ex_attempts := ex_attempts ex + 1\<rparr>),
      ts_tasks := (ts_tasks st)(ts_next st \<mapsto> \<lparr>at_worker = Resubmitting e, at_ref_count = 1\<rparr>, a := None),
      ts_next := Suc (ts_next st), ts_queue := [ts_next st]\<rparr>)"
  using assms
  by (subst run_submitted.simps) (simp add: resubmitting_defs fun_upd_twist)

text \<open>The run of a submitted execution, up to the end of its transaction.\<close>

lemma transaction_step:
  assumes "execution_held e ex f catch cleanup st" and "run_tx run f (ex_timeout ex) (ts_world st) = (w, r)"
  shows "gzochid_application_transactional_task_worker run e (st\<lparr>ts_queue := q\<rparr>) = Some (st\<lparr>ts_world := w,
     ts_executions := (ts_executions st)(e \<mapsto> ex\<lparr>ex_result := Some r, ex_attempts := ex_attempts ex + 1\<rparr>), ts_queue := q\<rparr>)"
  using assms by (simp add: execution_held_def task_held_def gzochid_application_transactional_task_worker_def task_function_def
    update_execution_def task_state_swap)

lemma free_step:
  assumes h: "execution_held e ex f catch cleanup st" and same: "ex_task ex' = ex_task ex" "ex_catch_task ex' = ex_catch_task ex"
      "ex_cleanup_task ex' = ex_cleanup_task ex"
    and "ts_tasks st' (ex_task ex) = ts_tasks st (ex_task ex)"
    and "\<And>c. ex_catch_task ex = Some c \<Longrightarrow> ts_tasks st' c = ts_tasks st c"
    and "\<And>c. ex_cleanup_task ex = Some c \<Longrightarrow> ts_tasks st' c = ts_tasks st c"
    and "ts_executions st' e = Some ex'"
  shows "execution_free e st' = Some (st'\<lparr>ts_executions := (ts_executions st')(e := None), ts_tasks := released ex (ts_tasks st')\<rparr>)"
  using assms by (auto simp: execution_held_def task_held_def execution_free_def gzochid_application_task_unref_def unref_optional_def
    released_def without_def task_state_swap split: option.splits)

lemma resubmit_done_plain:
  assumes h: "execution_held e ex f catch None st" and a: "submitted a e st"
    and t: "run_tx run f (ex_timeout ex) (ts_world st) = (w, r)" and n: "r = Tx_Should_Retry \<Longrightarrow> ex_max_attempts ex \<le> ex_attempts ex + 1"
    and r: "r = Tx_Success \<or> catch = None"
  shows "run_submitted run st = Some (st\<lparr>ts_world := w, ts_executions := (ts_executions st)(e := None),
      ts_tasks := (released ex (ts_tasks st))(a := None), ts_queue := []\<rparr>)"
proof -
  let ?ex = "ex\<lparr>ex_result := Some r, ex_attempts := ex_attempts ex + 1\<rparr>"
  let ?st = "st\<lparr>ts_world := w, ts_executions := (ts_executions st)(e \<mapsto> ?ex), ts_queue := []\<rparr>"
  have keep: "a \<noteq> ex_task ex" "ex_catch_task ex \<noteq> Some a"
    using h a by (auto simp: execution_held_def task_held_def submitted_def split: option.splits)
  have none: "ex_cleanup_task ex = None" and ct: "r = Tx_Success \<or> ex_catch_task ex = None"
    using h r by (auto simp: execution_held_def task_held_def split: option.splits)
  have "execution_free e ?st = Some (?st\<lparr>ts_executions := (ts_executions ?st)(e := None), ts_tasks := released ex (ts_tasks ?st)\<rparr>)"
    by (rule free_step [OF h, of ?ex]) simp_all
  moreover have "gzochid_application_resubmitting_transactional_task_worker run e (st\<lparr>ts_queue := []\<rparr>) = execution_free e ?st"
    using transaction_step [OF h t] n ct none
    by (auto simp: gzochid_application_resubmitting_transactional_task_worker_def gzochid_application_should_retry_def)
  moreover have "released ex (ts_tasks st) a = Some \<lparr>at_worker = Resubmitting e, at_ref_count = 1\<rparr>"
    using a keep none by (auto simp: released_def without_def submitted_def split: option.splits)
  ultimately show ?thesis using a
    by (simp add: run_submitted_queue submitted_def gzochid_application_task_thread_worker_def
      gzochid_application_task_unref_def task_state_swap)
qed

lemma free_keeps_cleanup:
  assumes h: "execution_held e ex f catch (Some g) st" and cl: "ex_cleanup_task ex = Some cl"
    and same: "ex_task ex' = ex_task ex" "ex_catch_task ex' = ex_catch_task ex" "ex_cleanup_task ex' = ex_cleanup_task ex"
    and "ts_tasks st' = (ts_tasks st)(cl \<mapsto> \<lparr>at_worker = App_Function g, at_ref_count = 2\<rparr>)" and "ts_executions st' e = Some ex'"
  shows "execution_free e st' = Some (st'\<lparr>ts_executions := (ts_executions st')(e := None),
    ts_tasks := without (ex_catch_task ex) ((ts_tasks st)(ex_task ex := None))\<rparr>)"
proof (cases "ex_catch_task ex")
  case None
  have "ts_tasks st cl = Some \<lparr>at_worker = App_Function g, at_ref_count = 1\<rparr>" "cl \<noteq> ex_task ex"
    using h cl by (auto simp: execution_held_def task_held_def)
  moreover from this have "(ts_tasks st)(ex_task ex := None, cl \<mapsto> \<lparr>at_worker = App_Function g, at_ref_count = 1\<rparr>) =
    (ts_tasks st)(ex_task ex := None)" by auto
  ultimately show ?thesis using assms None
    by (simp add: execution_held_def task_held_def execution_free_def gzochid_application_task_unref_def unref_optional_def
      without_def task_state_swap fun_upd_twist)
next
  case (Some c)
  then obtain k where k: "catch = Some k" using h by (auto simp: execution_held_def task_held_def split: option.splits)
  have "ts_tasks st cl = Some \<lparr>at_worker = App_Function g, at_ref_count = 1\<rparr>" "cl \<noteq> ex_task ex" "cl \<noteq> c"
    using h cl Some by (auto simp: execution_held_def task_held_def)
  moreover from this have "(ts_tasks st)(ex_task ex := None, c := None, cl \<mapsto> \<lparr>at_worker = App_Function g, at_ref_count = 1\<rparr>) =
    (ts_tasks st)(ex_task ex := None, c := None)" by auto
  ultimately show ?thesis using assms Some k
    by (simp add: execution_held_def task_held_def execution_free_def gzochid_application_task_unref_def unref_optional_def
      without_def task_state_swap fun_upd_twist)
qed

lemma resubmit_done:
  assumes h: "execution_held e ex f catch cleanup st" and a: "submitted a e st"
    and t: "run_tx run f (ex_timeout ex) (ts_world st) = (w, r)" and n: "r = Tx_Should_Retry \<Longrightarrow> ex_max_attempts ex \<le> ex_attempts ex + 1"
    and r: "r = Tx_Success \<or> catch = None"
  shows "run_submitted run st = Some (st\<lparr>ts_world := cleaned run cleanup w, ts_executions := (ts_executions st)(e := None),
      ts_tasks := (released ex (ts_tasks st))(a := None), ts_queue := []\<rparr>)"
proof (cases cleanup)
  case None
  then show ?thesis using resubmit_done_plain [of e ex f catch st, OF _ a t n r] h by (simp add: cleaned_def)
next
  case (Some g)
  then obtain cl where cl: "ex_cleanup_task ex = Some cl" and tcl: "ts_tasks st cl = Some \<lparr>at_worker = App_Function g, at_ref_count = 1\<rparr>"
    and distinct: "cl \<noteq> ex_task ex" "ex_catch_task ex \<noteq> Some cl"
    using h by (auto simp: execution_held_def task_held_def split: option.splits)
  have "a \<noteq> cl" using a tcl by (auto simp: submitted_def)
  note ncl = this distinct
  let ?ex = "ex\<lparr>ex_result := Some r, ex_attempts := ex_attempts ex + 1\<rparr>"
  let ?st = "st\<lparr>ts_world := w, ts_executions := (ts_executions st)(e \<mapsto> ?ex),
    ts_tasks := (ts_tasks st)(cl \<mapsto> \<lparr>at_worker = App_Function g, at_ref_count = 2\<rparr>), ts_queue := []\<rparr>"
  let ?left = "without (ex_catch_task ex) ((ts_tasks st)(ex_task ex := None))"
  have keep: "a \<noteq> ex_task ex" "ex_catch_task ex \<noteq> Some a"
    using h a by (auto simp: execution_held_def task_held_def submitted_def split: option.splits)
  have ct: "r = Tx_Success \<or> ex_catch_task ex = None"
    using h r by (auto simp: execution_held_def task_held_def split: option.splits)
  have "execution_free e ?st = Some (?st\<lparr>ts_executions := (ts_executions ?st)(e := None), ts_tasks := ?left\<rparr>)"
    by (rule free_keeps_cleanup [OF h [unfolded Some] cl, of ?ex]) simp_all
  moreover have "gzochid_application_resubmitting_transactional_task_worker run e (st\<lparr>ts_queue := []\<rparr>) =
      map_option (submit_application_task cl) (execution_free e ?st)"
    using transaction_step [OF h t] n ct cl tcl
    by (auto simp: gzochid_application_resubmitting_transactional_task_worker_def gzochid_application_should_retry_def
      gzochid_application_task_ref_def task_state_swap map_option_case split: option.splits)
  moreover have "?left a = Some \<lparr>at_worker = Resubmitting e, at_ref_count = 1\<rparr>"
    "?left cl = Some \<lparr>at_worker = App_Function g, at_ref_count = 1\<rparr>"
    using a keep tcl ncl by (auto simp: without_def submitted_def split: option.splits)
  moreover have "?left(a := None, cl := None) = (released ex (ts_tasks st))(a := None)"
    using cl ncl by (auto simp: released_def without_def)
  ultimately show ?thesis using a ncl Some
    by (simp add: run_submitted_queue submitted_def gzochid_application_task_thread_worker_def submit_application_task_def
      gzochid_application_task_unref_def task_state_swap cleaned_def)
qed

lemma free_keeps_both:
  assumes h: "execution_held e ex f (Some g) cleanup st" and c: "ex_catch_task ex = Some c"
    and x: "ts_tasks st x = None" "x \<noteq> ex_task ex"
    and ex: "ts_executions st e = Some ex'" and e': "e' \<noteq> e"
    and same: "ex_task ex' = ex_task ex" "ex_catch_task ex' = ex_catch_task ex" "ex_cleanup_task ex' = ex_cleanup_task ex"
  shows "do {
       st \<leftarrow> gzochid_application_task_ref c st;
       st \<leftarrow> ref_optional (ex_cleanup_task ex) st;
       execution_free e (st\<lparr>ts_executions := (ts_executions st)(e' \<mapsto> new), ts_tasks := (ts_tasks st)(x \<mapsto> task), ts_next := n\<rparr>)
     } = Some (st\<lparr>ts_executions := (ts_executions st)(e' \<mapsto> new, e := None),
       ts_tasks := (ts_tasks st)(x \<mapsto> task, ex_task ex := None), ts_next := n\<rparr>)"
proof -
  have tc: "ts_tasks st c = Some \<lparr>at_worker = App_Function g, at_ref_count = 1\<rparr>"
    and tf: "ts_tasks st (ex_task ex) = Some \<lparr>at_worker = App_Function f, at_ref_count = 1\<rparr>" and nc: "c \<noteq> ex_task ex" "x \<noteq> c"
    using h c x by (auto simp: execution_held_def task_held_def)
  show ?thesis
  proof (cases "ex_cleanup_task ex")
    case None
    have "(ts_tasks st)(x \<mapsto> task, ex_task ex := None, c \<mapsto> \<lparr>at_worker = App_Function g, at_ref_count = 1\<rparr>) =
      (ts_tasks st)(x \<mapsto> task, ex_task ex := None)" using tc nc by auto
    then show ?thesis using None tc tf nc c x ex same e'
      by (simp add: execution_free_def gzochid_application_task_ref_def gzochid_application_task_unref_def ref_optional_def
        unref_optional_def task_state_swap fun_upd_twist)
  next
    case (Some cl)
    then obtain k where tcl: "ts_tasks st cl = Some \<lparr>at_worker = App_Function k, at_ref_count = 1\<rparr>"
      and ncl: "cl \<noteq> ex_task ex" "cl \<noteq> c" using h c by (auto simp: execution_held_def task_held_def split: option.splits)
    have nx: "x \<noteq> cl" using x tcl by auto
    have "(ts_tasks st)(x \<mapsto> task, ex_task ex := None, c \<mapsto> \<lparr>at_worker = App_Function g, at_ref_count = 1\<rparr>,
        cl \<mapsto> \<lparr>at_worker = App_Function k, at_ref_count = 1\<rparr>) =
      (ts_tasks st)(x \<mapsto> task, ex_task ex := None)" using tc nc tcl ncl nx by auto
    then show ?thesis using Some tc tf nc c x ex same e' tcl ncl nx
      by (simp add: execution_free_def gzochid_application_task_ref_def gzochid_application_task_unref_def ref_optional_def
        unref_optional_def task_state_swap fun_upd_twist)
  qed
qed

lemma resubmit_catch:
  assumes h: "execution_held e ex f (Some g) cleanup st" and a: "submitted a e st" and c: "ex_catch_task ex = Some c"
    and t: "run_tx run f (ex_timeout ex) (ts_world st) = (w, r)" and n: "r = Tx_Should_Retry \<Longrightarrow> ex_max_attempts ex \<le> ex_attempts ex + 1"
    and r: "r \<noteq> Tx_Success"
  shows "run_submitted run st = run_submitted run (st\<lparr>ts_world := w,
      ts_executions := (ts_executions st)(ts_next st \<mapsto> \<lparr>ex_task = c, ex_catch_task = None,
        ex_cleanup_task = ex_cleanup_task ex, ex_timeout = None, ex_attempts = 0, ex_max_attempts = 1, ex_result = None\<rparr>, e := None),
      ts_tasks := (ts_tasks st)(Suc (ts_next st) \<mapsto> \<lparr>at_worker = Resubmitting (ts_next st), at_ref_count = 1\<rparr>, ex_task ex := None, a := None),
      ts_next := Suc (Suc (ts_next st)), ts_queue := [Suc (ts_next st)]\<rparr>)"
proof -
  let ?ex = "ex\<lparr>ex_result := Some r, ex_attempts := ex_attempts ex + 1\<rparr>"
  let ?st = "st\<lparr>ts_world := w, ts_executions := (ts_executions st)(e \<mapsto> ?ex), ts_queue := []\<rparr>"
  let ?new = "\<lparr>ex_task = c, ex_catch_task = None, ex_cleanup_task = ex_cleanup_task ex, ex_timeout = None,
    ex_attempts = 0, ex_max_attempts = 1, ex_result = None\<rparr>"
  let ?task = "\<lparr>at_worker = Resubmitting (ts_next st), at_ref_count = 1\<rparr>"
  have keep: "a \<noteq> ex_task ex" "e \<noteq> ts_next st" "e < ts_next st" "a \<noteq> Suc (ts_next st)"
    using h a by (auto simp: execution_held_def task_held_def submitted_def)
  have x: "ts_tasks ?st (Suc (ts_next st)) = None" "Suc (ts_next st) \<noteq> ex_task ex"
    using a h by (auto simp: submitted_def execution_held_def task_held_def)
  have h1: "execution_held e ?ex f (Some g) cleanup ?st" using h by (auto simp: execution_held_def task_held_def split: option.splits)
  obtain s where s: "gzochid_application_task_ref c ?st = Some s" and s': "ts_next s = ts_next st"
    using h c by (auto simp: execution_held_def task_held_def gzochid_application_task_ref_def)
  obtain s2 where s2: "ref_optional (ex_cleanup_task ex) s = Some s2" and s2': "ts_next s2 = ts_next st"
    using h c s s' by (auto simp: execution_held_def task_held_def gzochid_application_task_ref_def ref_optional_def split: option.splits)
  have "execution_free e (s2\<lparr>ts_executions := (ts_executions s2)(ts_next st \<mapsto> ?new),
      ts_tasks := (ts_tasks s2)(Suc (ts_next st) \<mapsto> ?task), ts_next := Suc (Suc (ts_next st))\<rparr>) =
    Some (?st\<lparr>ts_executions := (ts_executions ?st)(ts_next st \<mapsto> ?new, e := None),
      ts_tasks := (ts_tasks ?st)(Suc (ts_next st) \<mapsto> ?task, ex_task ex := None), ts_next := Suc (Suc (ts_next st))\<rparr>)"
    using free_keeps_both [OF h1 _ x(1), where c = c and e' = "ts_next st" and new = ?new and task = ?task
      and n = "Suc (Suc (ts_next st))" and ex' = ?ex] c x(2) keep s s2 by simp
  moreover have "gzochid_application_resubmitting_transactional_task_worker run e (st\<lparr>ts_queue := []\<rparr>) =
      map_option (submit_application_task (Suc (ts_next st)))
        (execution_free e (s2\<lparr>ts_executions := (ts_executions s2)(ts_next st \<mapsto> ?new),
           ts_tasks := (ts_tasks s2)(Suc (ts_next st) \<mapsto> ?task), ts_next := Suc (Suc (ts_next st))\<rparr>))"
    using transaction_step [OF h t] n r c s s2 s' s2'
    by (auto simp: gzochid_application_resubmitting_transactional_task_worker_def gzochid_application_should_retry_def
      execution_new_def update_execution_def gzochid_application_task_new_def ref_optional_def [of None]
      task_state_swap Let_def MAX_ATTEMPTS_DEFAULT_def map_option_case split: option.splits)
  ultimately show ?thesis using a keep
    by (simp add: run_submitted_queue(2) submitted_def gzochid_application_task_thread_worker_def submit_application_task_def
      gzochid_application_task_unref_def task_state_swap fun_upd_twist)
qed

lemma submitted_last:
  assumes h: "execution_held e ex f catch cleanup st" and a: "submitted a e st"
    and t: "run_tx run f (ex_timeout ex) (ts_world st) = (w, r)" and n: "r = Tx_Should_Retry \<Longrightarrow> ex_max_attempts ex \<le> ex_attempts ex + 1"
  shows "\<exists>m. run_submitted run st = Some (st\<lparr>ts_world := cleaned run cleanup (caught run catch None (w, r)),
      ts_executions := (ts_executions st)(e := None), ts_tasks := (released ex (ts_tasks st))(a := None), ts_next := m, ts_queue := []\<rparr>)"
proof (cases "r = Tx_Success \<or> catch = None")
  case True
  then have "caught run catch None (w, r) = w" by (auto simp: caught_def split: option.splits)
  then have "run_submitted run st = Some (st\<lparr>ts_world := cleaned run cleanup (caught run catch None (w, r)),
      ts_executions := (ts_executions st)(e := None), ts_tasks := (released ex (ts_tasks st))(a := None),
      ts_next := ts_next st, ts_queue := []\<rparr>)"
    using resubmit_done [OF h a t n True] by simp
  then show ?thesis by blast
next
  case False
  then obtain g where g: "catch = Some g" and r: "r \<noteq> Tx_Success" by blast
  then obtain c where c: "ex_catch_task ex = Some c" using h by (auto simp: execution_held_def task_held_def split: option.splits)
  let ?n = "ts_next st"
  let ?new = "\<lparr>ex_task = c, ex_catch_task = None, ex_cleanup_task = ex_cleanup_task ex, ex_timeout = None,
    ex_attempts = 0, ex_max_attempts = 1, ex_result = None\<rparr>"
  let ?st = "st\<lparr>ts_world := w, ts_executions := (ts_executions st)(?n \<mapsto> ?new, e := None),
    ts_tasks := (ts_tasks st)(Suc ?n \<mapsto> \<lparr>at_worker = Resubmitting ?n, at_ref_count = 1\<rparr>, ex_task ex := None, a := None),
    ts_next := Suc (Suc ?n), ts_queue := [Suc ?n]\<rparr>"
  have run: "run_submitted run st = run_submitted run ?st" by (rule resubmit_catch [OF h [unfolded g] a c t n r])
  have h': "execution_held ?n ?new g None cleanup ?st"
    using h a c g by (auto simp: execution_held_def task_held_def submitted_def split: option.splits)
  have a': "submitted (Suc ?n) ?n ?st" using h a by (auto simp: execution_held_def task_held_def submitted_def)
  obtain w2 r2 where t2: "run_tx run g None w = (w2, r2)" by fastforce
  have "caught run catch None (w, r) = w2" using g r t2 by (simp add: caught_def)
  moreover have "((ts_executions st)(?n \<mapsto> ?new, e := None))(?n := None) = (ts_executions st)(e := None)"
    using a by (auto simp: submitted_def)
  moreover have "(released ?new (ts_tasks ?st))(Suc ?n := None) = (released ex (ts_tasks st))(a := None)"
    using h a c by (auto simp: released_def without_def submitted_def execution_held_def task_held_def split: option.splits)
  ultimately have "run_submitted run st = Some (st\<lparr>ts_world := cleaned run cleanup (caught run catch None (w, r)),
      ts_executions := (ts_executions st)(e := None), ts_tasks := (released ex (ts_tasks st))(a := None),
      ts_next := Suc (Suc ?n), ts_queue := []\<rparr>)"
    using resubmit_done [OF h' a', of run w2 r2] t2 run by (simp add: task_state_swap)
  then show ?thesis by blast
qed

lemma submitted_runs:
  assumes "execution_held e ex f catch cleanup st" and "submitted a e st" and "ex_attempts ex + int n + 1 = ex_max_attempts ex"
  shows "\<exists>m. run_submitted run st = Some (st\<lparr>
      ts_world := cleaned run cleanup (caught run catch None (tries run f (ex_timeout ex) n (ts_world st))),
      ts_executions := (ts_executions st)(e := None), ts_tasks := (released ex (ts_tasks st))(a := None), ts_next := m, ts_queue := []\<rparr>)"
  using assms
proof (induction n arbitrary: st a ex)
  case 0
  obtain w r where t: "run_tx run f (ex_timeout ex) (ts_world st) = (w, r)" by fastforce
  have eq: "tries run f (ex_timeout ex) 0 (ts_world st) = (w, r)" using t by simp
  show ?case unfolding eq by (rule submitted_last [OF 0(1,2) t]) (use 0(3) in simp)
next
  case (Suc n)
  obtain w r where t: "run_tx run f (ex_timeout ex) (ts_world st) = (w, r)" by fastforce
  show ?case
  proof (cases "r = Tx_Should_Retry")
    case False
    have eq: "tries run f (ex_timeout ex) (Suc n) (ts_world st) = (w, r)" using t False by simp
    show ?thesis unfolding eq by (rule submitted_last [OF Suc.prems(1,2) t]) (use False in simp)
  next
    case True
    let ?ex = "ex\<lparr>ex_result := None, ex_attempts := ex_attempts ex + 1\<rparr>"
    let ?st = "st\<lparr>ts_world := w, ts_executions := (ts_executions st)(e \<mapsto> ?ex),
      ts_tasks := (ts_tasks st)(ts_next st \<mapsto> \<lparr>at_worker = Resubmitting e, at_ref_count = 1\<rparr>, a := None),
      ts_next := Suc (ts_next st), ts_queue := [ts_next st]\<rparr>"
    have run: "run_submitted run st = run_submitted run ?st"
      using resubmit_retry [OF Suc.prems(1,2), of run w] t True Suc.prems(3) by simp
    have keep: "a \<noteq> ex_task ex" "ex_cleanup_task ex \<noteq> Some a" "ex_catch_task ex \<noteq> Some a"
      using Suc.prems(1,2) by (auto simp: execution_held_def task_held_def submitted_def split: option.splits)
    have h': "execution_held e ?ex f catch cleanup ?st"
      using Suc.prems(1,2) keep by (auto simp: execution_held_def task_held_def submitted_def split: option.splits)
    have a': "submitted (ts_next st) e ?st" using Suc.prems(1,2) by (auto simp: execution_held_def task_held_def submitted_def)
    have n': "ex_attempts ?ex + int n + 1 = ex_max_attempts ?ex" using Suc.prems(3) by simp
    have tasks: "(released ex ((ts_tasks st)(ts_next st \<mapsto> \<lparr>at_worker = Resubmitting e, at_ref_count = 1\<rparr>, a := None)))(ts_next st := None) =
        (released ex (ts_tasks st))(a := None)"
      using Suc.prems(1,2) by (auto simp: released_def without_def submitted_def execution_held_def task_held_def split: option.splits)
    have rel: "released ?ex m = released ex m" for m :: "nat \<rightharpoonup> 'a application_task" by (simp add: released_def)
    obtain m where "run_submitted run ?st = Some (?st\<lparr>
        ts_world := cleaned run cleanup (caught run catch None (tries run f (ex_timeout ?ex) n (ts_world ?st))),
        ts_executions := (ts_executions ?st)(e := None), ts_tasks := (released ?ex (ts_tasks ?st))(ts_next st := None),
        ts_next := m, ts_queue := []\<rparr>)"
      using Suc.IH [OF h' a' n'] by blast
    then have "run_submitted run st = Some (st\<lparr>
        ts_world := cleaned run cleanup (caught run catch None (tries run f (ex_timeout ex) (Suc n) (ts_world st))),
        ts_executions := (ts_executions st)(e := None), ts_tasks := (released ex (ts_tasks st))(a := None),
        ts_next := m, ts_queue := []\<rparr>)"
      using run t True by (simp add: rel tasks)
    then show ?thesis by blast
  qed
qed

section \<open>Properties\<close>

text \<open>
  (C25) A transactional task always comes to an end: a new execution runs the task in up to three transactions, as long as they
  ask to be tried again, then, when the last one did not succeed, its catch task once and with the same time limit, and its
  cleanup task once; at the end the execution and the references to its tasks are gone.
\<close>

theorem task_runs_to_its_end:
  assumes "execution_held e ex f catch cleanup st" and "ex_attempts ex = 0" and "ex_max_attempts ex = MAX_ATTEMPTS_DEFAULT"
    and "ts_executions st (ts_next st) = None"
  shows "\<exists>st'. gzochid_application_reexecuting_transactional_task_worker run e st = Some st'
    \<and> ts_world st' = cleaned run cleanup (caught run catch (ex_timeout ex) (tries run f (ex_timeout ex) 2 (ts_world st)))
    \<and> ts_tasks st' = released ex (ts_tasks st) \<and> ts_executions st' = (ts_executions st)(e := None) \<and> ts_queue st' = ts_queue st"
proof -
  have "ex_attempts ex + int 2 + 1 = ex_max_attempts ex" using assms(2,3) by (simp add: MAX_ATTEMPTS_DEFAULT_def)
  from reexecuting_runs [OF assms(1) this assms(4), of run] show ?thesis by auto
qed

text \<open>
  (C20) The worker that submits itself to the queue again does what the worker does that repeats the transaction on the spot:
  for an execution without a time limit, running the queue until it is empty leaves the world, the executions and the tasks
  as the other worker does.
\<close>

theorem resubmitting_is_reexecuting:
  assumes "execution_held e ex f catch cleanup st" and "submitted a e st" and "ex_attempts ex = 0"
    and "ex_max_attempts ex = MAX_ATTEMPTS_DEFAULT" and "ex_timeout ex = None"
  shows "\<exists>st1 st2. gzochid_application_reexecuting_transactional_task_worker run e st = Some st1
    \<and> run_submitted run st = Some st2 \<and> ts_world st2 = ts_world st1 \<and> ts_executions st2 = ts_executions st1
    \<and> ts_tasks st2 = (ts_tasks st1)(a := None) \<and> ts_queue st2 = []"
proof -
  have n: "ex_attempts ex + int 2 + 1 = ex_max_attempts ex" using assms(3,4) by (simp add: MAX_ATTEMPTS_DEFAULT_def)
  have new: "ts_executions st (ts_next st) = None" using assms(2) by (simp add: submitted_def)
  show ?thesis using reexecuting_runs [OF assms(1) n new, of run] submitted_runs [OF assms(1,2) n, of run] assms(5) by auto
qed

text \<open>A run that records what was run with which limit; the first task fails and the catch task succeeds.\<close>

definition log_runner :: "(string, (string \<times> timeval option) list) task_runner" where
  "log_runner = \<lparr>run_tx = (\<lambda>f limit w. (w @ [(f, limit)], if f = ''catch'' then Tx_Success else Tx_Should_Retry)),
     run_plain = (\<lambda>f w. w @ [(f, None)])\<rparr>"

definition example_tasks :: "timeval option \<Rightarrow> (string, (string \<times> timeval option) list) task_state" where
  "example_tasks limit = \<lparr>ts_tasks = [0 \<mapsto> \<lparr>at_worker = App_Function ''main'', at_ref_count = 1\<rparr>,
       1 \<mapsto> \<lparr>at_worker = App_Function ''catch'', at_ref_count = 1\<rparr>,
       2 \<mapsto> \<lparr>at_worker = App_Function ''cleanup'', at_ref_count = 1\<rparr>, 4 \<mapsto> \<lparr>at_worker = Resubmitting 3, at_ref_count = 1\<rparr>],
     ts_executions = [3 \<mapsto> \<lparr>ex_task = 0, ex_catch_task = Some 1, ex_cleanup_task = Some 2, ex_timeout = limit,
       ex_attempts = 0, ex_max_attempts = 3, ex_result = None\<rparr>],
     ts_next = 5, ts_queue = [4], ts_world = []\<rparr>"

abbreviation example_execution :: "timeval option \<Rightarrow> task_execution" where
  "example_execution limit \<equiv> \<lparr>ex_task = 0, ex_catch_task = Some 1, ex_cleanup_task = Some 2, ex_timeout = limit,
       ex_attempts = 0, ex_max_attempts = 3, ex_result = None\<rparr>"

lemma example_held:
  "execution_held 3 (example_execution limit) ''main'' (Some ''catch'') (Some ''cleanup'') (example_tasks limit)"
  "submitted 4 3 (example_tasks limit)" "ts_executions (example_tasks limit) (ts_next (example_tasks limit)) = None"
  by (simp_all add: execution_held_def task_held_def submitted_def example_tasks_def)

theorem task_runs_to_its_end_witness:
  "\<exists>st'. gzochid_application_reexecuting_transactional_task_worker log_runner 3 (example_tasks (Some \<lparr>tv_sec = 1, tv_usec = 0\<rparr>)) = Some st'
    \<and> ts_world st' = [(''main'', Some \<lparr>tv_sec = 1, tv_usec = 0\<rparr>), (''main'', Some \<lparr>tv_sec = 1, tv_usec = 0\<rparr>), (''main'', Some \<lparr>tv_sec = 1, tv_usec = 0\<rparr>), (''catch'', Some \<lparr>tv_sec = 1, tv_usec = 0\<rparr>), (''cleanup'', None)]"
  using task_runs_to_its_end [OF example_held(1) _ _ example_held(3), of "Some \<lparr>tv_sec = 1, tv_usec = 0\<rparr>" log_runner]
  by (auto simp: MAX_ATTEMPTS_DEFAULT_def log_runner_def cleaned_def caught_def example_tasks_def numeral_2_eq_2)

theorem resubmitting_is_reexecuting_witness:
  "\<exists>st1 st2. gzochid_application_reexecuting_transactional_task_worker log_runner 3 (example_tasks None) = Some st1
    \<and> run_submitted log_runner (example_tasks None) = Some st2 \<and> ts_world st2 = ts_world st1"
  using resubmitting_is_reexecuting [OF example_held(1,2), of None log_runner]
  by (auto simp: MAX_ATTEMPTS_DEFAULT_def)

text \<open>
  With a time limit the two workers differ: the one that submits itself again runs the catch task without the limit.
\<close>

theorem resubmitted_catch_unlimited:
  "\<exists>st'. run_submitted log_runner (example_tasks (Some \<lparr>tv_sec = 1, tv_usec = 0\<rparr>)) = Some st'
    \<and> ts_world st' = [(''main'', Some \<lparr>tv_sec = 1, tv_usec = 0\<rparr>), (''main'', Some \<lparr>tv_sec = 1, tv_usec = 0\<rparr>), (''main'', Some \<lparr>tv_sec = 1, tv_usec = 0\<rparr>), (''catch'', None), (''cleanup'', None)]"
  using submitted_runs [OF example_held(1,2), of "Some \<lparr>tv_sec = 1, tv_usec = 0\<rparr>" 2 log_runner]
  by (auto simp: log_runner_def cleaned_def caught_def example_tasks_def numeral_2_eq_2)

end
