(* ===== verification/Game_Client.thy ===== *)
theory Game_Client
  imports Game_Sessions
begin

text \<open>
  The client library for games, \<open>gzochi-glib-client/src\<close>: \<open>session.c\<close> keeps the state of a connection,
  \<open>protocol.c\<close> sends requests and dispatches what the server sends, \<open>client.c\<close> connects and is the event source of
  a main loop. The callbacks of the game are recorded with what they are given.

  The kernel decides how much a call of \<open>send\<close> takes and a call of \<open>recv\<close> returns. The results of the coming calls of
  \<open>send\<close> are a list in the state of the socket, a negative number for a failure of the call or of the
  \<open>select\<close> before it; a call without a result blocks, and the function does not return. The offset into the
  buffer is a signed integer; reading outside of the buffer is a fault.
\<close>

section \<open>session.c\<close>

definition GZOCHI_CLIENT_MAX_BUFFER_SIZE :: nat where "GZOCHI_CLIENT_MAX_BUFFER_SIZE = 65538"

record game_session =
  gc_connected :: bool
  gc_disconnect_acknowledged :: bool
  gc_sent :: "byte list"
  gc_send_results :: "int list"
  gc_buffer :: "byte list"
  gc_buffer_length :: int
  gc_disconnected_callback :: bool
  gc_received_message_callback :: bool
  gc_received :: "byte list list"
  gc_disconnects :: nat

definition gzochi_client_common_session_new :: game_session where
  "gzochi_client_common_session_new =
     \<lparr>gc_connected = False, gc_disconnect_acknowledged = False, gc_sent = [], gc_send_results = [],
      gc_buffer = replicate GZOCHI_CLIENT_MAX_BUFFER_SIZE 0, gc_buffer_length = 0,
      gc_disconnected_callback = False, gc_received_message_callback = False, gc_received = [], gc_disconnects = 0\<rparr>"

definition gzochi_client_common_session_set_disconnected_callback :: "bool \<Rightarrow> game_session \<Rightarrow> game_session" where
  "gzochi_client_common_session_set_disconnected_callback cb session = session\<lparr>gc_disconnected_callback := cb\<rparr>"

definition gzochi_client_common_session_set_received_message_callback :: "bool \<Rightarrow> game_session \<Rightarrow> game_session" where
  "gzochi_client_common_session_set_received_message_callback cb session = session\<lparr>gc_received_message_callback := cb\<rparr>"

text \<open>The length of the message is unsigned here.\<close>

definition gzochi_client_common_session_is_dispatchable :: "game_session \<Rightarrow> bool option" where
  "gzochi_client_common_session_is_dispatchable session =
     (if \<not> gc_connected session \<and> \<not> gc_disconnect_acknowledged session then Some True
      else if gc_buffer_length session < 3 then Some False
      else do {
        message_len \<leftarrow> gzochi_common_io_read_short (gc_buffer session) 0;
        Some (uint message_len + 3 \<le> gc_buffer_length session)
      })"

definition call_disconnected_callback :: "game_session \<Rightarrow> game_session" where
  "call_disconnected_callback session =
     (if gc_disconnected_callback session then session\<lparr>gc_disconnects := Suc (gc_disconnects session)\<rparr> else session)"

definition gzochi_client_common_session_disconnect :: "game_session \<Rightarrow> game_session" where
  "gzochi_client_common_session_disconnect session = call_disconnected_callback (session\<lparr>gc_connected := False\<rparr>)"

section \<open>protocol.c: requests\<close>

fun send_fully_loop :: "byte list \<Rightarrow> nat \<Rightarrow> int list \<Rightarrow> game_session \<Rightarrow> (game_session \<times> int) option" where
  "send_fully_loop data total_sent [] session =
     (if total_sent < length data then None else Some (session\<lparr>gc_send_results := []\<rparr>, int total_sent))"
| "send_fully_loop data total_sent (r # rs) session =
     (if total_sent < length data
      then if r < 0 then Some (session\<lparr>gc_send_results := rs\<rparr>, - 1)
           else let bytes_sent = min (nat r) (length data - total_sent)
                in send_fully_loop data (total_sent + bytes_sent) rs
                     (session\<lparr>gc_sent := gc_sent session @ take bytes_sent (drop total_sent data)\<rparr>)
      else Some (session\<lparr>gc_send_results := r # rs\<rparr>, int total_sent))"

definition send_fully :: "byte list \<Rightarrow> game_session \<Rightarrow> (game_session \<times> int) option" where
  "send_fully data session = send_fully_loop data 0 (gc_send_results session) session"

definition send_protocol_message :: "byte \<Rightarrow> byte list \<Rightarrow> int \<Rightarrow> game_session \<Rightarrow> (game_session \<times> int) option" where
  "send_protocol_message opcode message len session = do {
     len_bytes \<leftarrow> gzochi_common_io_write_short (word_of_int len) [0, 0] 0;
     (session, ret) \<leftarrow> send_fully len_bytes session;
     if ret < 0 then Some (session, - 1)
     else do {
       (session, ret) \<leftarrow> send_fully [opcode] session;
       if ret < 0 then Some (session, - 1)
       else if 0 < len then send_fully (take (nat len) message) session
       else Some (session, 0)
     }
   }"

definition gzochi_client_protocol_send_login_request ::
    "cstring \<Rightarrow> byte list \<Rightarrow> game_session \<Rightarrow> (game_session \<times> int) option" where
  "gzochi_client_protocol_send_login_request endpoint cred session =
     (let buffer = endpoint @ 0 # cred
      in send_protocol_message GAME_LOGIN_REQUEST buffer (to_short (int (length buffer))) session)"

definition gzochi_client_protocol_send_disconnect :: "game_session \<Rightarrow> (game_session \<times> int) option" where
  "gzochi_client_protocol_send_disconnect session = send_protocol_message GAME_LOGOUT_REQUEST [] 0 session"

definition gzochi_client_protocol_send_session_message :: "byte list \<Rightarrow> int \<Rightarrow> game_session \<Rightarrow> (game_session \<times> int) option" where
  "gzochi_client_protocol_send_session_message msg len session = send_protocol_message GAME_SESSION_MESSAGE msg len session"

section \<open>protocol.c: what the server sends\<close>

text \<open>The callback is given the length as an \<open>unsigned short\<close>.\<close>

definition client_dispatch_session_message :: "nat \<Rightarrow> int \<Rightarrow> game_session \<Rightarrow> game_session" where
  "client_dispatch_session_message message len session =
     (if gc_received_message_callback session
      then session\<lparr>gc_received := gc_received session @ [take (unat (word_of_int len :: 16 word)) (drop message (gc_buffer session))]\<rparr>
      else session)"

definition client_session_disconnected :: "game_session \<Rightarrow> game_session" where
  "client_session_disconnected session =
     (let session = session\<lparr>gc_connected := False\<rparr>
      in if \<not> gc_disconnect_acknowledged session
         then call_disconnected_callback (session\<lparr>gc_disconnect_acknowledged := True\<rparr>)
         else session)"

definition client_dispatch_opcode :: "byte \<Rightarrow> nat \<Rightarrow> int \<Rightarrow> game_session \<Rightarrow> game_session" where
  "client_dispatch_opcode opcode payload len session =
     (if opcode = GAME_SESSION_MESSAGE then client_dispatch_session_message payload len session
      else if opcode = GAME_SESSION_DISCONNECTED then client_session_disconnected session
      else session)"

partial_function (option) attempt_dispatch_loop ::
    "int \<Rightarrow> int \<Rightarrow> int \<Rightarrow> int \<Rightarrow> game_session \<Rightarrow> (game_session \<times> int \<times> int) option" where
  "attempt_dispatch_loop limit remaining offset dispatched session =
     (if limit = 0 \<or> 0 < remaining
      then if \<not> gc_connected session then Some (client_session_disconnected session, offset, dispatched)
        else if gc_buffer_length session - offset < 3 then Some (session, offset, dispatched)
        else if offset < 0 then None
        else do {
          message_len \<leftarrow> map_option sint (gzochi_common_io_read_short (gc_buffer session) (nat offset));
          if gc_buffer_length session - offset < message_len + 3 then Some (session, offset, dispatched)
          else do {
            opcode \<leftarrow> rd (gc_buffer session) (nat offset + 2);
            attempt_dispatch_loop limit (if limit \<noteq> 0 then remaining - 1 else remaining) (offset + (3 + message_len))
              (dispatched + 1) (client_dispatch_opcode opcode (nat offset + 3) message_len session)
          }
        }
      else Some (session, offset, dispatched))"

definition attempt_dispatch :: "int \<Rightarrow> game_session \<Rightarrow> (game_session \<times> int) option" where
  "attempt_dispatch limit session = do {
     (session, offset, dispatched) \<leftarrow> attempt_dispatch_loop limit limit 0 0 session;
     let n = nat (gc_buffer_length session - offset);
     let session = (if 0 < offset
       then session\<lparr>gc_buffer := take n (drop (nat offset) (gc_buffer session)) @ drop n (gc_buffer session),
                    gc_buffer_length := gc_buffer_length session - offset\<rparr>
       else session);
     Some (session, dispatched)
   }"

definition gzochi_client_protocol_dispatch_all :: "game_session \<Rightarrow> (game_session \<times> int) option" where
  "gzochi_client_protocol_dispatch_all session = attempt_dispatch 0 session"

definition gzochi_client_protocol_dispatch :: "game_session \<Rightarrow> (game_session \<times> int) option" where
  "gzochi_client_protocol_dispatch session = attempt_dispatch 1 session"

text \<open>
  \<open>recv\<close> returns at most as many bytes as it is asked for of what is available, none at the end of the stream
  and when it is asked for none, and nothing when it fails.
\<close>

definition gzochi_client_protocol_read :: "byte list option \<Rightarrow> game_session \<Rightarrow> game_session \<times> int" where
  "gzochi_client_protocol_read available session =
     (let available_buffer = int GZOCHI_CLIENT_MAX_BUFFER_SIZE - gc_buffer_length session;
          bytes_requested = min 512 available_buffer
      in case available of
           None \<Rightarrow> (session, - 1)
         | Some bytes \<Rightarrow>
             let chunk = take (nat bytes_requested) bytes
             in if chunk = [] then (session, - 1)
                else (session\<lparr>gc_buffer := (let n = nat (gc_buffer_length session) in
                          take n (gc_buffer session) @ chunk @ drop (n + length chunk) (gc_buffer session)),
                        gc_buffer_length := gc_buffer_length session + int (length chunk)\<rparr>, 0))"

section \<open>client.c\<close>

text \<open>
  The event source of the main loop: \<open>check\<close> after a poll that reports the channel as readable, with what \<open>recv\<close>
  finds, or only as hung up.
\<close>

datatype poll_result = Poll_In "byte list option" | Poll_Hup | Poll_None

definition client_source_check :: "poll_result \<Rightarrow> game_session \<Rightarrow> (game_session \<times> bool) option" where
  "client_source_check revents session =
     (case revents of
        Poll_In available \<Rightarrow> do {
          let (session, ret) = gzochi_client_protocol_read available session;
          let session = (if ret < 0 then session\<lparr>gc_connected := False\<rparr> else session);
          ready \<leftarrow> gzochi_client_common_session_is_dispatchable session;
          Some (session, ready)
        }
      | Poll_Hup \<Rightarrow> Some (session, True)
      | Poll_None \<Rightarrow> Some (session, False))"

text \<open>The result is whether the source stays in the main loop.\<close>

definition client_source_dispatch :: "game_session \<Rightarrow> (game_session \<times> bool) option" where
  "client_source_dispatch session = do {
     (session, dispatched) \<leftarrow> gzochi_client_protocol_dispatch_all session;
     Some (session, 0 < dispatched)
   }"

text \<open>A turn of the main loop: a source that is ready without a poll is not checked.\<close>

definition client_turn :: "poll_result \<Rightarrow> game_session \<Rightarrow> (game_session \<times> bool) option" where
  "client_turn revents session = do {
     ready \<leftarrow> gzochi_client_common_session_is_dispatchable session;
     (session, ready) \<leftarrow> (if ready then Some (session, True) else client_source_check revents session);
     if ready then client_source_dispatch session else Some (session, True)
   }"

fun client_turns :: "poll_result list \<Rightarrow> game_session \<Rightarrow> game_session option" where
  "client_turns [] session = Some session"
| "client_turns (revents # polls) session = do {
     (session, stays) \<leftarrow> client_turn revents session;
     if stays then client_turns polls session else Some session
   }"

partial_function (option) read_and_dispatch ::
    "byte list option list \<Rightarrow> game_session \<Rightarrow> (game_session \<times> byte list option list \<times> int) option" where
  "read_and_dispatch arriving session = do {
     (session, dispatched) \<leftarrow> gzochi_client_protocol_dispatch session;
     if dispatched \<noteq> 0 then Some (session, arriving, 0)
     else (case arriving of
         [] \<Rightarrow> None
       | available # arriving \<Rightarrow>
           let (session, ret) = gzochi_client_protocol_read available session
           in if ret < 0
              then Some (call_disconnected_callback (session\<lparr>gc_connected := False\<rparr>), arriving, - 1)
              else read_and_dispatch arriving session)
   }"

text \<open>Connecting, with the results of the calls of \<open>send\<close> and what arrives, once the socket is connected.\<close>

definition gzochi_glib_client_connect ::
    "cstring \<Rightarrow> byte list \<Rightarrow> int list \<Rightarrow> byte list option list \<Rightarrow> (game_session option \<times> byte list option list) option" where
  "gzochi_glib_client_connect endpoint cred results arriving = do {
     let session = gzochi_client_common_session_new\<lparr>gc_connected := True, gc_send_results := results\<rparr>;
     (session, _) \<leftarrow> gzochi_client_protocol_send_login_request endpoint cred session;
     (session, arriving, _) \<leftarrow> read_and_dispatch arriving session;
     Some (if gc_connected session then Some session else None, arriving)
   }"

definition gzochi_glib_client_disconnect :: "game_session \<Rightarrow> game_session" where
  "gzochi_glib_client_disconnect session = gzochi_client_common_session_disconnect session"

definition gzochi_glib_client_send :: "byte list \<Rightarrow> int \<Rightarrow> game_session \<Rightarrow> game_session option" where
  "gzochi_glib_client_send msg len session = do {
     (session, ret) \<leftarrow> gzochi_client_protocol_send_session_message msg len session;
     Some (if ret < 0 then gzochi_client_common_session_disconnect session else session)
   }"

section \<open>What a client makes of the frames it is sent\<close>

definition client_handle :: "byte list \<Rightarrow> game_session \<Rightarrow> game_session" where
  "client_handle msg s =
     (if hd msg = GAME_SESSION_MESSAGE
      then (if gc_received_message_callback s then s\<lparr>gc_received := gc_received s @ [tl msg]\<rparr> else s)
      else if hd msg = GAME_SESSION_DISCONNECTED then client_session_disconnected s
      else s)"

fun client_run :: "byte list list \<Rightarrow> game_session \<Rightarrow> game_session" where
  "client_run [] s = s"
| "client_run (msg # msgs) s = (if gc_connected s then client_run msgs (client_handle msg s) else s)"

text \<open>No frame of the buffer announces a length that is negative as a \<open>short\<close>.\<close>

function small_frames :: "byte list \<Rightarrow> bool" where
  "small_frames buf =
     (if length buf < 3 then True
      else frame_len buf \<le> 2 ^ 15
        \<and> (if length buf < frame_len buf + 2 then True else small_frames (drop (frame_len buf + 2) buf)))"
  by pat_completeness auto
termination
  by (relation "measure length") auto

declare small_frames.simps [simp del]

definition session_wf :: "game_session \<Rightarrow> bool" where
  "session_wf s \<longleftrightarrow> length (gc_buffer s) = GZOCHI_CLIENT_MAX_BUFFER_SIZE \<and> 0 \<le> gc_buffer_length s
     \<and> gc_buffer_length s \<le> int GZOCHI_CLIENT_MAX_BUFFER_SIZE"

definition session_content :: "game_session \<Rightarrow> byte list" where
  "session_content s = take (nat (gc_buffer_length s)) (gc_buffer s)"

lemma client_session_disconnected_sel [simp]:
  "gc_buffer (client_session_disconnected s) = gc_buffer s"
  "gc_buffer_length (client_session_disconnected s) = gc_buffer_length s"
  "gc_received (client_session_disconnected s) = gc_received s"
  "gc_received_message_callback (client_session_disconnected s) = gc_received_message_callback s"
  "\<not> gc_connected (client_session_disconnected s)"
  "gc_disconnect_acknowledged (client_session_disconnected s)"
  by (simp_all add: client_session_disconnected_def call_disconnected_callback_def Let_def)

lemma client_session_disconnected_id:
  "\<not> gc_connected s \<Longrightarrow> gc_disconnect_acknowledged s \<Longrightarrow> client_session_disconnected s = s"
  by (cases s) (simp add: client_session_disconnected_def)

lemma client_handle_sel [simp]:
  "gc_buffer (client_handle msg s) = gc_buffer s" "gc_buffer_length (client_handle msg s) = gc_buffer_length s"
  "gc_received_message_callback (client_handle msg s) = gc_received_message_callback s"
  by (simp_all add: client_handle_def)

lemma client_handle_disconnects:
  "gc_connected s \<Longrightarrow> \<not> gc_connected (client_handle msg s) \<Longrightarrow> gc_disconnect_acknowledged (client_handle msg s)"
  by (auto simp: client_handle_def split: if_splits)

lemma client_run_dead [simp]: "\<not> gc_connected s \<Longrightarrow> client_run msgs s = s"
  by (cases msgs) simp_all

lemma client_run_append: "client_run (xs @ ys) s = client_run ys (client_run xs s)"
  by (induction xs arbitrary: s) simp_all

lemma client_run_sel [simp]:
  "gc_buffer (client_run msgs s) = gc_buffer s" "gc_buffer_length (client_run msgs s) = gc_buffer_length s"
  "gc_received_message_callback (client_run msgs s) = gc_received_message_callback s"
  by (induction msgs arbitrary: s) simp_all

lemma client_run_disconnects:
  "gc_connected s \<Longrightarrow> \<not> gc_connected (client_run msgs s) \<Longrightarrow> gc_disconnect_acknowledged (client_run msgs s)"
proof (induction msgs arbitrary: s)
  case (Cons msg msgs)
  then show ?case
    by (cases "gc_connected (client_handle msg s)") (auto simp: client_handle_disconnects)
qed simp

lemma length_session_content: "session_wf s \<Longrightarrow> length (session_content s) = nat (gc_buffer_length s)"
  by (auto simp: session_wf_def session_content_def min_def)

lemma content_prefix: obtains rest where "gc_buffer s = session_content s @ rest"
  by (metis append_take_drop_id session_content_def)

lemma read_short_content:
  assumes "off + 2 \<le> length (session_content s)"
  shows "gzochi_common_io_read_short (gc_buffer s) off = gzochi_common_io_read_short (session_content s) off"
proof -
  obtain rest where "gc_buffer s = session_content s @ rest" by (rule content_prefix)
  then have "rd (gc_buffer s) off = rd (session_content s) off" "rd (gc_buffer s) (off + 1) = rd (session_content s) (off + 1)"
    using assms by (simp_all add: rd_append1)
  then show ?thesis by (simp only: gzochi_common_io_read_short_def)
qed

lemma dispatch_frame:
  assumes wf: "session_wf s" and off: "off + 3 \<le> length (session_content s)"
    and v: "gzochi_common_io_read_short (drop off (session_content s)) 0 = Some v" and small: "unat v < 2 ^ 15"
  shows "gzochi_common_io_read_short (gc_buffer s) off = Some v" and "sint v = int (unat v)"
    and "unat v + 3 \<le> length (drop off (session_content s)) \<Longrightarrow> \<exists>opcode. rd (gc_buffer s) (off + 2) = Some opcode \<and>
      client_dispatch_opcode opcode (off + 3) (sint v) s = client_handle (take (unat v + 1) (drop 2 (drop off (session_content s)))) s"
proof -
  let ?b = "session_content s"
  obtain rest where buf: "gc_buffer s = ?b @ rest" by (rule content_prefix)
  have "gzochi_common_io_read_short (gc_buffer s) off = gzochi_common_io_read_short ?b off"
    by (rule read_short_content) (use off in simp)
  then show "gzochi_common_io_read_short (gc_buffer s) off = Some v" using v by (simp add: read_short_offset [of ?b off])
  have "uint v < 2 ^ 15" using small by (metis of_nat_less_iff of_nat_numeral of_nat_power uint_nat)
  moreover have "- (2 ^ 15) \<le> uint v" by (rule order_trans [OF _ unsigned_greater_eq]) simp
  ultimately show sint: "sint v = int (unat v)" by (simp add: sint_uint signed_take_bit_int_eq_self)
  have op: "rd (gc_buffer s) (off + 2) = Some (?b ! (off + 2))" using off by (subst buf) (simp add: rd_Some_iff nth_append)
  have msg: "take (unat v + 1) (drop 2 (drop off ?b)) = ?b ! (off + 2) # take (unat v) (drop (off + 3) ?b)"
    using off by (simp add: Cons_nth_drop_Suc [symmetric] add.commute numeral_3_eq_3 numeral_2_eq_2)
  have pay: "take (unat (word_of_int (sint v) :: 16 word)) (drop (off + 3) (gc_buffer s)) = take (unat v) (drop (off + 3) ?b)"
    if "unat v + 3 \<le> length (drop off ?b)" using that by (subst buf) simp
  show "\<exists>opcode. rd (gc_buffer s) (off + 2) = Some opcode \<and>
      client_dispatch_opcode opcode (off + 3) (sint v) s = client_handle (take (unat v + 1) (drop 2 (drop off ?b))) s"
    if fits: "unat v + 3 \<le> length (drop off ?b)"
    by (rule exI [of _ "?b ! (off + 2)"]) (simp only: op msg pay [OF fits] client_dispatch_opcode_def client_handle_def
      client_dispatch_session_message_def list.sel simp_thms)
qed

lemma loop_run:
  assumes "session_wf s" and "off \<le> length (session_content s)" and "small_frames (drop off (session_content s))" and "gc_connected s"
  shows "\<exists>d' n. attempt_dispatch_loop 0 0 (int off) d s =
      Some (client_run (frames (drop off (session_content s))) s, int (off + n), d + int d')
    \<and> off + n \<le> length (session_content s) \<and> (frames (drop off (session_content s)) \<noteq> [] \<longrightarrow> 0 < d')
    \<and> (gc_connected (client_run (frames (drop off (session_content s))) s) \<longrightarrow> n = consumed (drop off (session_content s)))"
  using assms
proof (induction "length (session_content s) - off" arbitrary: off d s rule: less_induct)
  case less
  let ?b = "drop off (session_content s)"
  have bl: "gc_buffer_length s = int (length (session_content s))"
    using length_session_content [OF less.prems(1)] less.prems(1) by (simp add: session_wf_def)
  show ?case
  proof (cases "3 \<le> length ?b")
    case False
    then have "frames ?b = []" by (subst frames.simps) simp
    moreover have "attempt_dispatch_loop 0 0 (int off) d s = Some (s, int off, d)"
      using False bl less.prems(2,4) by (subst attempt_dispatch_loop.simps) auto
    ultimately show ?thesis using less.prems(2) by (auto simp: consumed_def intro!: exI [of _ 0])
  next
    case True
    then obtain v where v: "gzochi_common_io_read_short ?b 0 = Some v" "frame_len ?b = unat v + 1" by (rule read_short_frame_len)
    have small: "unat v < 2 ^ 15" using less.prems(3) True v(2) by (subst (asm) small_frames.simps) auto
    have off3: "off + 3 \<le> length (session_content s)" using True by simp
    note header = dispatch_frame [OF less.prems(1) off3 v(1) small]
    have rest: "small_frames (drop (off + (unat v + 3)) (session_content s))" if "unat v + 3 \<le> length ?b"
      using less.prems(3) True v(2) that by (subst (asm) small_frames.simps) (simp add: add.commute add.left_commute numeral_3_eq_3)
    show ?thesis
    proof (cases "length ?b < frame_len ?b + 2")
      case short: True
      then have "frames ?b = []" by (subst frames.simps) simp
      moreover have "attempt_dispatch_loop 0 0 (int off) d s = Some (s, int off, d)"
      proof -
        have "gc_buffer_length s - int off < sint v + 3" using short v(2) off3 unfolding header(2) bl length_drop by linarith
        then show ?thesis using bl off3 less.prems(4) header(1) by (subst attempt_dispatch_loop.simps) simp
      qed
      ultimately show ?thesis using less.prems(2) by (auto simp: consumed_def intro!: exI [of _ 0])
    next
      case False
      let ?n = "unat v + 3" and ?msg = "take (unat v + 1) (drop 2 ?b)"
      have fits: "?n \<le> length ?b" using False v(2) by simp
      obtain opcode where op: "rd (gc_buffer s) (off + 2) = Some opcode"
          "client_dispatch_opcode opcode (off + 3) (sint v) s = client_handle ?msg s"
        using header(3) [OF fits] by blast
      have step: "attempt_dispatch_loop 0 0 (int off) d s = attempt_dispatch_loop 0 0 (int (off + ?n)) (d + 1) (client_handle ?msg s)"
      proof -
        have "\<not> gc_buffer_length s - int off < sint v + 3" using fits off3 unfolding header(2) bl length_drop by linarith
        moreover have "int off + (3 + sint v) = int (off + ?n)" unfolding header(2) by simp
        ultimately show ?thesis using bl off3 less.prems(4) header(1) op
          by (subst attempt_dispatch_loop.simps) (simp add: add.commute [of 3 "uint v"])
      qed
      have fr: "frames ?b = ?msg # frames (drop (off + ?n) (session_content s))"
        using True fits v(2) by (subst frames_step) (simp_all add: add.commute add.left_commute numeral_3_eq_3)
      have cons: "consumed ?b = ?n + consumed (drop (off + ?n) (session_content s))"
        using True fits v(2) by (subst consumed_step) (simp_all add: add.commute add.left_commute numeral_3_eq_3)
      have run: "client_run (frames ?b) s = client_run (frames (drop (off + ?n) (session_content s))) (client_handle ?msg s)"
        using fr less.prems(4) by simp
      show ?thesis
      proof (cases "gc_connected (client_handle ?msg s)")
        case dead: False
        then have "attempt_dispatch_loop 0 0 (int (off + ?n)) (d + 1) (client_handle ?msg s) =
            Some (client_handle ?msg s, int (off + ?n), d + 1)"
          using client_handle_disconnects [OF less.prems(4) dead]
          by (subst attempt_dispatch_loop.simps) (simp add: client_session_disconnected_id)
        then show ?thesis using step run dead fits less.prems(2)
          by (intro exI [of _ 1] exI [of _ ?n]) simp
      next
        case live: True
        have c': "session_content (client_handle ?msg s) = session_content s" by (simp add: session_content_def)
        have "\<exists>d' n. attempt_dispatch_loop 0 0 (int (off + ?n)) (d + 1) (client_handle ?msg s) =
            Some (client_run (frames (drop (off + ?n) (session_content s))) (client_handle ?msg s), int (off + ?n + n), d + 1 + int d')
          \<and> off + ?n + n \<le> length (session_content s) \<and> (frames (drop (off + ?n) (session_content s)) \<noteq> [] \<longrightarrow> 0 < d')
          \<and> (gc_connected (client_run (frames (drop (off + ?n) (session_content s))) (client_handle ?msg s)) \<longrightarrow>
              n = consumed (drop (off + ?n) (session_content s)))"
          using less.hyps [of "client_handle ?msg s" "off + ?n" "d + 1"] less.prems live c' fits True rest
          by (simp add: session_wf_def)
        then obtain d' n where IH: "attempt_dispatch_loop 0 0 (int (off + ?n)) (d + 1) (client_handle ?msg s) =
            Some (client_run (frames ?b) s, int (off + (?n + n)), d + int (Suc d'))"
          "off + (?n + n) \<le> length (session_content s)"
          "gc_connected (client_run (frames ?b) s) \<longrightarrow> ?n + n = consumed ?b"
          unfolding run cons by (auto simp: add.assoc)
        show ?thesis using step IH by (intro exI [of _ "Suc d'"] exI [of _ "?n + n"]) simp
      qed
    qed
  qed
qed

section \<open>Turns of the main loop\<close>

definition with_buffer :: "byte list \<Rightarrow> int \<Rightarrow> game_session \<Rightarrow> game_session" where
  "with_buffer b n s = s\<lparr>gc_buffer := b, gc_buffer_length := n\<rparr>"

lemma with_buffer_sel [simp]:
  "gc_connected (with_buffer b n s) = gc_connected s" "gc_disconnect_acknowledged (with_buffer b n s) = gc_disconnect_acknowledged s"
  "gc_received (with_buffer b n s) = gc_received s" "gc_disconnects (with_buffer b n s) = gc_disconnects s"
  "gc_buffer (with_buffer b n s) = b" "gc_buffer_length (with_buffer b n s) = n"
  "with_buffer b' n' (with_buffer b n s) = with_buffer b' n' s" "with_buffer (gc_buffer s) (gc_buffer_length s) s = s"
  by (simp_all add: with_buffer_def)

lemma client_run_with_buffer: "client_run msgs (with_buffer b n s) = with_buffer b n (client_run msgs s)"
proof (induction msgs arbitrary: s)
  case (Cons msg msgs)
  have "client_handle msg (with_buffer b n s) = with_buffer b n (client_handle msg s)"
    by (simp add: client_handle_def with_buffer_def client_session_disconnected_def call_disconnected_callback_def Let_def)
  then show ?case using Cons by simp
qed simp

lemma dispatch_all_run:
  assumes wf: "session_wf s" and small: "small_frames (session_content s)" and c: "gc_connected s"
  shows "\<exists>b n d. gzochi_client_protocol_dispatch_all s = Some (with_buffer b n (client_run (frames (session_content s)) s), int d)
    \<and> session_wf (with_buffer b n s) \<and> (frames (session_content s) \<noteq> [] \<longrightarrow> 0 < d)
    \<and> (gc_connected (client_run (frames (session_content s)) s) \<longrightarrow>
        session_content (with_buffer b n s) = drop (consumed (session_content s)) (session_content s))"
proof -
  let ?c = "session_content s"
  obtain d n where l: "attempt_dispatch_loop 0 0 0 0 s = Some (client_run (frames ?c) s, int n, int d)"
      "n \<le> length ?c" "frames ?c \<noteq> [] \<longrightarrow> 0 < d" "gc_connected (client_run (frames ?c) s) \<longrightarrow> n = consumed ?c"
    using loop_run [OF wf, of 0 0] small c by auto
  let ?k = "nat (gc_buffer_length s - int n)"
  let ?b = "if 0 < n then take ?k (drop n (gc_buffer s)) @ drop ?k (gc_buffer s) else gc_buffer s"
  have bl: "gc_buffer_length s = int (length ?c)" using length_session_content [OF wf] wf by (simp add: session_wf_def)
  have k: "?k = length ?c - n" using bl l(2) by simp
  have "session_wf (with_buffer ?b (gc_buffer_length s - int n) s)"
    using wf l(2) bl by (auto simp: session_wf_def)
  moreover have "session_content (with_buffer ?b (gc_buffer_length s - int n) s) = drop n ?c"
  proof -
    have "drop n ?c = take ?k (drop n (gc_buffer s))"
      using wf by (simp add: session_content_def drop_take session_wf_def nat_diff_distrib')
    moreover have "?k \<le> length (drop n (gc_buffer s))" using wf bl unfolding k by (simp add: session_wf_def diff_le_mono)
    ultimately show ?thesis by (auto simp: session_content_def)
  qed
  moreover have "gzochi_client_protocol_dispatch_all s =
      Some (with_buffer ?b (gc_buffer_length s - int n) (client_run (frames ?c) s), int d)"
    by (simp add: gzochi_client_protocol_dispatch_all_def attempt_dispatch_def l(1) Let_def with_buffer_def)
  ultimately show ?thesis using l(3,4) by (intro exI [of _ ?b] exI [of _ "gc_buffer_length s - int n"] exI [of _ d]) auto
qed

lemma is_dispatchable_frames:
  assumes wf: "session_wf s" and "gc_connected s \<or> gc_disconnect_acknowledged s"
  shows "gzochi_client_common_session_is_dispatchable s = Some (frames (session_content s) \<noteq> [])"
proof -
  let ?c = "session_content s"
  have bl: "gc_buffer_length s = int (length ?c)" using length_session_content [OF wf] wf by (simp add: session_wf_def)
  show ?thesis
  proof (cases "3 \<le> length ?c")
    case False
    then show ?thesis using bl assms(2) by (auto simp: gzochi_client_common_session_is_dispatchable_def frames_complete_iff)
  next
    case True
    then obtain v where v: "gzochi_common_io_read_short ?c 0 = Some v" "frame_len ?c = unat v + 1" by (rule read_short_frame_len)
    have "gzochi_common_io_read_short (gc_buffer s) 0 = Some v"
      using read_short_content [of 0 s] True v(1) by simp
    moreover have "uint v + 3 \<le> int (length ?c) \<longleftrightarrow> unat v + 3 \<le> length ?c"
      by (metis of_nat_add of_nat_le_iff of_nat_numeral uint_nat)
    ultimately show ?thesis using True bl assms(2) v(2)
      by (auto simp: gzochi_client_common_session_is_dispatchable_def frames_complete_iff)
  qed
qed

lemma read_chunk:
  assumes wf: "session_wf s" and room: "length (session_content s) + length c \<le> GZOCHI_CLIENT_MAX_BUFFER_SIZE"
    and c: "c \<noteq> []" "length c \<le> 512"
  shows "\<exists>b n. gzochi_client_protocol_read (Some c) s = (with_buffer b n s, 0)
    \<and> session_wf (with_buffer b n s) \<and> session_content (with_buffer b n s) = session_content s @ c"
proof -
  have bl: "gc_buffer_length s = int (length (session_content s))"
    using length_session_content [OF wf] wf by (simp add: session_wf_def)
  let ?n = "length (session_content s)"
  let ?b = "session_content s @ c @ drop (?n + length c) (gc_buffer s)"
  have t: "take (nat (min 512 (int GZOCHI_CLIENT_MAX_BUFFER_SIZE - gc_buffer_length s))) c = c"
    using room c bl by simp
  have "gzochi_client_protocol_read (Some c) s = (with_buffer ?b (gc_buffer_length s + int (length c)) s, 0)"
    unfolding gzochi_client_protocol_read_def Let_def option.case t using c(1) bl
    by (simp add: with_buffer_def session_content_def)
  moreover have "session_wf (with_buffer ?b (gc_buffer_length s + int (length c)) s)"
    using wf room bl by (simp add: session_wf_def)
  moreover have "session_content (with_buffer ?b (gc_buffer_length s + int (length c)) s) = session_content s @ c"
    using bl by (simp add: session_content_def [of "with_buffer _ _ _"] nat_add_distrib)
  ultimately show ?thesis by blast
qed

lemma read_any:
  assumes wf: "session_wf s"
  obtains b n ret where "gzochi_client_protocol_read (Some c) s = (with_buffer b n s, ret)" and "session_wf (with_buffer b n s)"
proof -
  let ?c = "take (nat (min 512 (int GZOCHI_CLIENT_MAX_BUFFER_SIZE - gc_buffer_length s))) c"
  have bl: "gc_buffer_length s = int (length (session_content s))"
    using length_session_content [OF wf] wf by (simp add: session_wf_def)
  have le: "length ?c \<le> 512" "length (session_content s) + length ?c \<le> GZOCHI_CLIENT_MAX_BUFFER_SIZE"
    using wf bl by (auto simp: session_wf_def min_def split: if_splits)
  show ?thesis
  proof (cases "?c = []")
    case True
    then have "gzochi_client_protocol_read (Some c) s = (with_buffer (gc_buffer s) (gc_buffer_length s) s, - 1)"
      unfolding gzochi_client_protocol_read_def Let_def option.case by simp
    then show ?thesis using wf by (intro that) (simp_all add: session_wf_def)
  next
    case False
    then obtain b n where "gzochi_client_protocol_read (Some ?c) s = (with_buffer b n s, 0)" "session_wf (with_buffer b n s)"
      using read_chunk [OF wf le(2) False le(1)] by blast
    moreover have "gzochi_client_protocol_read (Some ?c) s = gzochi_client_protocol_read (Some c) s"
      unfolding gzochi_client_protocol_read_def Let_def option.case by simp
    ultimately show ?thesis by (intro that) simp_all
  qed
qed

lemma dead_turns:
  assumes "session_wf s" and "\<not> gc_connected s" and "gc_disconnect_acknowledged s" and "\<forall>c \<in> set cs. c \<noteq> [] \<and> length c \<le> 512"
  shows "\<exists>b n. client_turns (map (\<lambda>c. Poll_In (Some c)) cs) s = Some (with_buffer b n s)"
  using assms
proof (induction cs arbitrary: s)
  case Nil
  show ?case by (rule exI [of _ "gc_buffer s"], rule exI [of _ "gc_buffer_length s"]) simp
next
  case (Cons c cs)
  have disp: "client_source_dispatch s' = Some (s', False)" if "\<not> gc_connected s'" "gc_disconnect_acknowledged s'" for s'
    using that by (simp add: client_source_dispatch_def gzochi_client_protocol_dispatch_all_def attempt_dispatch_def
      attempt_dispatch_loop.simps client_session_disconnected_id)
  have stop: "\<exists>b n. Some s = Some (with_buffer b n s)"
    by (rule exI [of _ "gc_buffer s"], rule exI [of _ "gc_buffer_length s"]) simp
  show ?case
  proof (cases "frames (session_content s) \<noteq> []")
    case True
    then have "client_turn (Poll_In (Some c)) s = Some (s, False)"
      using is_dispatchable_frames [OF Cons.prems(1)] disp Cons.prems by (simp add: client_turn_def)
    then show ?thesis using stop by simp
  next
    case False
    obtain b n ret where r: "gzochi_client_protocol_read (Some c) s = (with_buffer b n s, ret)" "session_wf (with_buffer b n s)"
      by (rule read_any [OF Cons.prems(1)])
    let ?s = "with_buffer b n s"
    have off: "?s\<lparr>gc_connected := False\<rparr> = ?s" using Cons.prems(2) by (cases s) (simp add: with_buffer_def)
    have "client_source_check (Poll_In (Some c)) s = Some (?s, frames (session_content ?s) \<noteq> [])"
      using is_dispatchable_frames [OF r(2)] Cons.prems r(1) by (simp add: client_source_check_def Let_def off)
    then have turn: "client_turn (Poll_In (Some c)) s = Some (?s, frames (session_content ?s) = [])"
      using False is_dispatchable_frames [OF Cons.prems(1)] disp [of ?s] Cons.prems by (simp add: client_turn_def)
    show ?thesis
    proof (cases "frames (session_content ?s) = []")
      case True
      obtain b' n' where "client_turns (map (\<lambda>c. Poll_In (Some c)) cs) ?s = Some (with_buffer b' n' s)"
        using Cons.IH [OF r(2)] Cons.prems by auto
      then show ?thesis using turn True by auto
    next
      case False
      then show ?thesis using turn by auto
    qed
  qed
qed

text \<open>An incomplete frame leaves room in the buffer for what a turn can read.\<close>

lemma small_frames_append:
  "small_frames (a @ b) \<Longrightarrow> small_frames a \<and> small_frames (drop (consumed a) a @ b)"
proof (induction a rule: frames.induct)
  case (1 a)
  show ?case
  proof (cases "length a < 3 \<or> length a < frame_len a + 2")
    case True
    then have "frames a = []" by (subst frames.simps) simp
    moreover have "small_frames a"
      using True 1(2) frame_len_append [of a b]
      by (subst small_frames.simps) (subst (asm) small_frames.simps, auto)
    ultimately show ?thesis using 1(2) by (simp add: consumed_def)
  next
    case False
    let ?n = "frame_len a + 2"
    have n: "3 \<le> length a" "?n \<le> length a" "frame_len (a @ b) = frame_len a"
      using False by (simp_all add: frame_len_append)
    have r: "frame_len a \<le> 2 ^ 15" "small_frames (drop ?n a @ b)"
      using 1(2) n by (subst (asm) small_frames.simps, simp)+
    have "drop (consumed a) a = drop (consumed (drop ?n a)) (drop ?n a)"
      using n by (simp add: consumed_step add.commute)
    moreover have "small_frames a = small_frames (drop ?n a)"
      using n r by (subst small_frames.simps) simp
    ultimately show ?thesis using 1(1) [OF False r(2)] by simp
  qed
qed

lemma incomplete_short:
  assumes "frames a = []" and "small_frames a"
  shows "length a < 2 ^ 15 + 2"
proof (cases "length a < 3")
  case False
  then have "frame_len a \<le> 2 ^ 15" using assms(2) by (subst (asm) small_frames.simps) simp
  moreover have "length a < frame_len a + 2" using frames_complete_iff [of a] assms(1) False by simp
  ultimately show ?thesis by simp
qed simp

lemma live_turns:
  assumes "session_wf s" and "gc_connected s" and "frames (session_content s) = []"
    and "small_frames (session_content s @ concat cs)" and "\<forall>c \<in> set cs. c \<noteq> [] \<and> length c \<le> 512"
  shows "\<exists>b n. client_turns (map (\<lambda>c. Poll_In (Some c)) cs) s =
    Some (with_buffer b n (client_run (frames (session_content s @ concat cs)) s))"
  using assms
proof (induction cs arbitrary: s)
  case Nil
  then show ?case by (intro exI [of _ "gc_buffer s"] exI [of _ "gc_buffer_length s"]) simp
next
  case (Cons c cs)
  let ?a = "session_content s @ c"
  have small: "small_frames (?a @ concat cs)" using Cons.prems(4) by simp
  note s1 = small_frames_append [OF small] and s2 = small_frames_append [OF Cons.prems(4)]
  have "length (session_content s) < 2 ^ 15 + 2" using incomplete_short Cons.prems(3) s2 by blast
  then have room: "length (session_content s) + length c \<le> GZOCHI_CLIENT_MAX_BUFFER_SIZE"
    using Cons.prems(5) by (simp add: GZOCHI_CLIENT_MAX_BUFFER_SIZE_def)
  obtain b n where r: "gzochi_client_protocol_read (Some c) s = (with_buffer b n s, 0)"
      "session_wf (with_buffer b n s)" "session_content (with_buffer b n s) = ?a"
    using read_chunk [OF Cons.prems(1) room] Cons.prems(5) by auto
  let ?s = "with_buffer b n s"
  have check: "client_source_check (Poll_In (Some c)) s = Some (?s, frames ?a \<noteq> [])"
    using is_dispatchable_frames [OF r(2)] Cons.prems(2) r(1,3) by (simp add: client_source_check_def)
  have idle: "gzochi_client_common_session_is_dispatchable s = Some False"
    using is_dispatchable_frames [OF Cons.prems(1)] Cons.prems(2,3) by simp
  show ?case
  proof (cases "frames ?a = []")
    case True
    then have "client_turn (Poll_In (Some c)) s = Some (?s, True)" using idle check by (simp add: client_turn_def)
    moreover obtain b' n' where "client_turns (map (\<lambda>c. Poll_In (Some c)) cs) ?s =
        Some (with_buffer b' n' (client_run (frames (?a @ concat cs)) s))"
      using Cons.IH [OF r(2)] Cons.prems True r(3) small by (auto simp: client_run_with_buffer)
    ultimately show ?thesis by auto
  next
    case False
    obtain b' n' d where d: "gzochi_client_protocol_dispatch_all ?s = Some (with_buffer b' n' (client_run (frames ?a) s), int d)"
      "session_wf (with_buffer b' n' s)" "0 < d"
      "gc_connected (client_run (frames ?a) s) \<Longrightarrow> session_content (with_buffer b' n' s) = drop (consumed ?a) ?a"
      using dispatch_all_run [OF r(2)] r(3) s1 Cons.prems(2) False by (auto simp: client_run_with_buffer)
    let ?s' = "with_buffer b' n' (client_run (frames ?a) s)"
    have turn: "client_turn (Poll_In (Some c)) s = Some (?s', True)"
      using idle check False d(1,3) by (simp add: client_turn_def client_source_dispatch_def)
    have wf: "session_wf ?s'" using d(2) by (simp add: session_wf_def)
    have fr: "frames (?a @ concat cs) = frames ?a @ frames (drop (consumed ?a) ?a @ concat cs)" by (rule frames_append)
    show ?thesis
    proof (cases "gc_connected (client_run (frames ?a) s)")
      case live: True
      have c': "session_content ?s' = drop (consumed ?a) ?a" using d(4) [OF live] by (simp add: session_content_def)
      have "frames (drop (consumed ?a) ?a) = []" using frames_append [of ?a "[]"] by simp
      then obtain b2 n2 where "client_turns (map (\<lambda>c. Poll_In (Some c)) cs) ?s' =
          Some (with_buffer b2 n2 (client_run (frames (drop (consumed ?a) ?a @ concat cs)) (client_run (frames ?a) s)))"
        using Cons.IH [OF wf] live c' s1 Cons.prems(5) by (auto simp: client_run_with_buffer)
      then show ?thesis using turn fr by (auto simp: client_run_append)
    next
      case dead: False
      then have "gc_disconnect_acknowledged ?s'" using client_run_disconnects [OF Cons.prems(2)] by simp
      then obtain b2 n2 where "client_turns (map (\<lambda>c. Poll_In (Some c)) cs) ?s' = Some (with_buffer b2 n2 (client_run (frames ?a) s))"
        using dead_turns [OF wf, of cs] dead Cons.prems(5) by auto
      then show ?thesis using turn fr dead by (auto simp: client_run_append)
    qed
  qed
qed

end
