(* ===== verification/Game_Exchange.thy ===== *)
theory Game_Exchange
  imports Game_Client
begin

text \<open>
  Game clients and application servers together: what a client sends is what the server handles, and what the
  transactions of an application say to a session reaches the callbacks of its client, however the network cuts the bytes.
\<close>

section \<open>From the client to the server\<close>

lemma send_fully_loop_sends:
  assumes "\<forall>r \<in> set rs. 0 < r" and "length data - off \<le> length rs" and "off \<le> length data"
  shows "\<exists>k \<le> length data - off. send_fully_loop data off rs s =
    Some (s\<lparr>gc_sent := gc_sent s @ drop off data, gc_send_results := drop k rs\<rparr>, int (length data))"
  using assms
proof (induction rs arbitrary: off s)
  case Nil
  then show ?case by simp
next
  case (Cons r rs)
  show ?case
  proof (cases "off < length data")
    case False
    then show ?thesis using Cons.prems by (intro exI [of _ 0]) simp
  next
    case True
    let ?n = "min (nat r) (length data - off)"
    have n: "0 < ?n" using Cons.prems(1) True by simp
    have le: "length data - (off + ?n) \<le> length rs" "off + ?n \<le> length data" using Cons.prems(2) n True by simp_all
    have pos: "\<forall>r \<in> set rs. 0 < r" using Cons.prems(1) by simp
    let ?s = "s\<lparr>gc_sent := gc_sent s @ take ?n (drop off data)\<rparr>"
    obtain k where k: "k \<le> length data - (off + ?n)" "send_fully_loop data (off + ?n) rs ?s =
        Some (?s\<lparr>gc_sent := gc_sent ?s @ drop (off + ?n) data, gc_send_results := drop k rs\<rparr>, int (length data))"
      using Cons.IH [OF pos le, of ?s] by blast
    have "take ?n (drop off data) @ drop (off + ?n) data = drop off data"
      by (metis append_take_drop_id drop_drop add.commute)
    then have "send_fully_loop data off (r # rs) s =
        Some (s\<lparr>gc_sent := gc_sent s @ drop off data, gc_send_results := drop k rs\<rparr>, int (length data))"
      using True Cons.prems(1) k(2) by (simp add: Let_def del: min_less_iff_conj)
    then show ?thesis using k(1) n True by (intro exI [of _ "Suc k"]) simp
  qed
qed

text \<open>The calls of \<open>send\<close> succeed, and there are results enough for \<open>n\<close> bytes.\<close>

definition sends_ok :: "nat \<Rightarrow> game_session \<Rightarrow> bool" where
  "sends_ok n s \<longleftrightarrow> (\<forall>r \<in> set (gc_send_results s). 0 < r) \<and> n \<le> length (gc_send_results s)"

definition sent_more :: "byte list \<Rightarrow> int list \<Rightarrow> game_session \<Rightarrow> game_session" where
  "sent_more data rs s = s\<lparr>gc_sent := gc_sent s @ data, gc_send_results := rs\<rparr>"

lemma sent_more_sel [simp]:
  "gc_sent (sent_more data rs s) = gc_sent s @ data" "gc_send_results (sent_more data rs s) = rs"
  "sent_more data' rs' (sent_more data rs s) = sent_more (data @ data') rs' s"
  by (simp_all add: sent_more_def)

lemma send_fully_sends:
  assumes "sends_ok (length data + n) s"
  shows "\<exists>rs. send_fully data s = Some (sent_more data rs s, int (length data)) \<and> sends_ok n (sent_more data rs s)"
proof -
  obtain k where k: "k \<le> length data" "send_fully data s =
      Some (s\<lparr>gc_sent := gc_sent s @ data, gc_send_results := drop k (gc_send_results s)\<rparr>, int (length data))"
    using send_fully_loop_sends [of "gc_send_results s" data 0 s] assms by (auto simp: sends_ok_def send_fully_def)
  then show ?thesis using assms by (auto simp: sent_more_def sends_ok_def dest: in_set_dropD intro!: exI [of _ "drop k (gc_send_results s)"])
qed

lemma send_protocol_message_sends:
  assumes "length message < 2 ^ 15" and "sends_ok (length message + 3 + n) s"
  shows "\<exists>rs ret. send_protocol_message opcode message (int (length message)) s =
      Some (sent_more (frame_bytes (opcode # message)) rs s, ret) \<and> 0 \<le> ret \<and> sends_ok n (sent_more (frame_bytes (opcode # message)) rs s)"
proof -
  let ?len = "word_of_nat (length message) :: 16 word"
  have w: "gzochi_common_io_write_short (word_of_int (int (length message))) [0, 0] 0 = Some (be_short ?len)"
    using write_short_front [of ?len 0 0 "[]"] by simp
  have two: "length (be_short ?len) = 2" by (simp add: be_short_def)
  have "length message + 3 + n = length (be_short ?len) + (1 + (length message + n))" using two by simp
  with assms(2) have ok: "sends_ok (length (be_short ?len) + (1 + (length message + n))) s" by (simp only:)
  obtain r1 where 1: "send_fully (be_short ?len) s = Some (sent_more (be_short ?len) r1 s, 2)"
      "sends_ok (1 + (length message + n)) (sent_more (be_short ?len) r1 s)"
    using send_fully_sends [OF ok] two by auto
  let ?s1 = "sent_more (be_short ?len) r1 s"
  obtain r2 where 2: "send_fully [opcode] ?s1 = Some (sent_more (be_short ?len @ [opcode]) r2 s, 1)"
      "sends_ok (length message + n) (sent_more (be_short ?len @ [opcode]) r2 s)"
    using send_fully_sends [of "[opcode]" "length message + n" ?s1] 1(2) by auto
  let ?s2 = "sent_more (be_short ?len @ [opcode]) r2 s"
  show ?thesis
  proof (cases "message = []")
    case True
    then have "send_protocol_message opcode message (int (length message)) s = Some (?s2, 0)"
      using w 1 2 by (simp add: send_protocol_message_def)
    then show ?thesis using 2(2) True by (intro exI [of _ r2] exI [of _ 0]) (simp add: frame_bytes_Cons)
  next
    case False
    obtain r3 where 3: "send_fully message ?s2 = Some (sent_more (be_short ?len @ opcode # message) r3 s, int (length message))"
        "sends_ok n (sent_more (be_short ?len @ opcode # message) r3 s)"
      using send_fully_sends [of message n ?s2] 2(2) by auto
    then have "send_protocol_message opcode message (int (length message)) s =
        Some (sent_more (be_short ?len @ opcode # message) r3 s, int (length message))"
      using w 1 2 False by (simp add: send_protocol_message_def)
    then show ?thesis using 3(2) by (intro exI [of _ r3] exI [of _ "int (length message)"]) (simp add: frame_bytes_Cons)
  qed
qed

datatype game_call = Call_Login cstring "byte list" | Call_Message "byte list" | Call_Logout

fun make_call :: "game_call \<Rightarrow> game_session \<Rightarrow> game_session option" where
  "make_call (Call_Login endpoint cred) s = map_option fst (gzochi_client_protocol_send_login_request endpoint cred s)"
| "make_call (Call_Message msg) s = gzochi_glib_client_send msg (int (length msg)) s"
| "make_call Call_Logout s = map_option fst (gzochi_client_protocol_send_disconnect s)"

fun client_calls :: "game_call list \<Rightarrow> game_session \<Rightarrow> game_session option" where
  "client_calls [] s = Some s"
| "client_calls (call # calls) s = Option.bind (make_call call s) (client_calls calls)"

fun call_opcode :: "game_call \<Rightarrow> byte" where
  "call_opcode (Call_Login endpoint cred) = GAME_LOGIN_REQUEST"
| "call_opcode (Call_Message msg) = GAME_SESSION_MESSAGE"
| "call_opcode Call_Logout = GAME_LOGOUT_REQUEST"

fun call_payload :: "game_call \<Rightarrow> byte list" where
  "call_payload (Call_Login endpoint cred) = endpoint @ 0 # cred"
| "call_payload (Call_Message msg) = msg"
| "call_payload Call_Logout = []"

fun game_call_ok :: "game_call \<Rightarrow> bool" where
  "game_call_ok (Call_Login endpoint cred) \<longleftrightarrow> cstring_ok endpoint \<and> length endpoint + 1 + length cred < 2 ^ 15"
| "game_call_ok (Call_Message msg) \<longleftrightarrow> length msg < 2 ^ 15"
| "game_call_ok Call_Logout \<longleftrightarrow> True"

text \<open>How a server serves the calls of a client.\<close>

fun serve_call :: "authenticator \<Rightarrow> nat \<Rightarrow> game_call \<Rightarrow> game_state \<Rightarrow> game_state option" where
  "serve_call auth client (Call_Login endpoint cred) st =
     dispatch_login_request auth client endpoint cred 0 (int (length cred)) st"
| "serve_call auth client (Call_Message msg) st = dispatch_session_message client msg (int (length msg)) st"
| "serve_call auth client Call_Logout st = dispatch_logout_request client st"

fun serve_calls :: "authenticator \<Rightarrow> nat \<Rightarrow> game_call list \<Rightarrow> game_state \<Rightarrow> game_state option" where
  "serve_calls auth client [] st = Some st"
| "serve_calls auth client (call # calls) st = Option.bind (serve_call auth client call st) (serve_calls auth client calls)"

abbreviation call_frame :: "game_call \<Rightarrow> byte list" where
  "call_frame call \<equiv> frame_bytes (call_opcode call # call_payload call)"

lemma call_payload_short: "game_call_ok call \<Longrightarrow> length (call_payload call) < 2 ^ 15"
  by (cases call) simp_all

lemma make_call_sends:
  assumes "game_call_ok call" and "sends_ok (length (call_payload call) + 3 + n) s"
  shows "\<exists>rs. make_call call s = Some (sent_more (call_frame call) rs s) \<and> sends_ok n (sent_more (call_frame call) rs s)"
proof -
  obtain rs ret where r: "send_protocol_message (call_opcode call) (call_payload call) (int (length (call_payload call))) s =
      Some (sent_more (call_frame call) rs s, ret)" "0 \<le> ret" "sends_ok n (sent_more (call_frame call) rs s)"
    using send_protocol_message_sends [OF call_payload_short [OF assms(1)] assms(2)] by blast
  have "make_call call s = Some (sent_more (call_frame call) rs s)"
  proof (cases call)
    case (Call_Login endpoint cred)
    have "to_short (int (length (call_payload call))) = int (length (call_payload call))"
      using call_payload_short [OF assms(1)] by (intro to_short_small) simp_all
    then show ?thesis using r(1) Call_Login by (simp add: gzochi_client_protocol_send_login_request_def Let_def)
  next
    case (Call_Message msg)
    then show ?thesis using r(1,2)
      by (simp add: gzochi_glib_client_send_def gzochi_client_protocol_send_session_message_def)
  next
    case Call_Logout
    then show ?thesis using r(1) by (simp add: gzochi_client_protocol_send_disconnect_def)
  qed
  then show ?thesis using r(3) by blast
qed

lemma client_calls_send:
  assumes "\<forall>call \<in> set calls. game_call_ok call" and "sends_ok (length (concat (map call_frame calls))) s"
  shows "\<exists>rs. client_calls calls s = Some (sent_more (concat (map call_frame calls)) rs s)"
  using assms
proof (induction calls arbitrary: s)
  case Nil
  show ?case by (rule exI [of _ "gc_send_results s"]) (simp add: sent_more_def)
next
  case (Cons call calls)
  have len: "length (concat (map call_frame (call # calls))) =
      length (call_payload call) + 3 + length (concat (map call_frame calls))"
    by (simp add: frame_bytes_Cons be_short_def)
  obtain rs where rs: "make_call call s = Some (sent_more (call_frame call) rs s)"
      "sends_ok (length (concat (map call_frame calls))) (sent_more (call_frame call) rs s)"
    using make_call_sends [of call "length (concat (map call_frame calls))" s] Cons.prems unfolding len by auto
  obtain rs' where "client_calls calls (sent_more (call_frame call) rs s) =
      Some (sent_more (concat (map call_frame calls)) rs' (sent_more (call_frame call) rs s))"
    using Cons.IH [OF _ rs(2)] Cons.prems(1) by auto
  then show ?case using rs(1) by auto
qed

lemma login_frame_head:
  assumes m: "take (length msg) (drop p m) = msg" and msg: "msg = opcode # payload" and len: "length msg < 2 ^ 16"
  shows "rd m p = Some opcode" and "take (length payload) (drop (p + 1) m) = payload" and "p + 1 + length payload \<le> length m"
    and "unat ((word_of_nat (length msg) :: 16 word) - 1) = length payload"
proof -
  have "length (take (length msg) (drop p m)) = length msg" using m by simp
  then have lm: "length msg \<le> length m - p" by simp
  then have p: "p < length m" using msg by simp
  show "p + 1 + length payload \<le> length m" using lm msg by simp
  have d: "drop p m = m ! p # drop (p + 1) m" using p by (simp add: Cons_nth_drop_Suc)
  then have "m ! p # take (length payload) (drop (p + 1) m) = opcode # payload" using m msg by simp
  then show "rd m p = Some opcode" "take (length payload) (drop (p + 1) m) = payload" using p by (auto simp: rd_Some_iff)
  have "unat (word_of_nat (length msg) :: 16 word) = length msg" using len by (simp add: unat_of_nat take_bit_nat_eq_self)
  then show "unat ((word_of_nat (length msg) :: 16 word) - 1) = length payload"
    using unat_sub_nat [of 1 "word_of_nat (length msg) :: 16 word"] msg by simp
qed

lemma dispatch_call:
  assumes ok: "game_call_ok call" and m: "take (length msg) (drop p m) = msg" and msg: "msg = call_opcode call # call_payload call"
  shows "game_dispatch_message auth client m p (word_of_nat (length msg)) st = serve_call auth client call st"
proof -
  let ?pay = "call_payload call" and ?len = "(word_of_nat (length msg) :: 16 word) - 1"
  have short: "length ?pay < 2 ^ 15" by (rule call_payload_short [OF ok])
  then have "length msg < 2 ^ 16" using msg by simp
  note h = login_frame_head [OF m msg this]
  have u: "uint ?len = int (length ?pay)" using h(4) by (metis uint_nat)
  show ?thesis
  proof (cases call)
    case (Call_Login endpoint cred)
    have "takeWhile (\<lambda>b. b \<noteq> 0) (endpoint @ 0 # cred) = endpoint"
      using ok Call_Login by (subst takeWhile_append2) (auto simp: cstring_ok_def)
    then have pfx: "takeWhile (\<lambda>b. b \<noteq> 0) (take (unat ?len) (drop (p + 1) m)) = endpoint"
      using h(2,4) Call_Login by simp
    have l: "to_short (int (length endpoint) + 1) = int (length endpoint) + 1"
      "to_short (uint ?len - (int (length endpoint) + 1)) = int (length cred)"
      using short Call_Login unfolding u by (subst to_short_small; simp)+
    have "drop (length endpoint + 1) (take (length ?pay) (drop (p + 1) m)) = cred" unfolding h(2) using Call_Login by simp
    then have "take (length cred) (drop (length endpoint + 1 + (p + 1)) m) = cred" using Call_Login by (simp add: drop_take)
    then have cr: "credentials m (int (p + 1) + (int (length endpoint) + 1)) (int (length cred)) = credentials cred 0 (int (length cred))"
      using h(3) Call_Login by (auto simp: credentials_def nat_add_distrib add.commute add.left_commute)
    have "dispatch_login_request auth client endpoint m (int (p + 1) + (int (length endpoint) + 1)) (int (length cred)) st =
        dispatch_login_request auth client endpoint cred 0 (int (length cred)) st"
      unfolding dispatch_login_request_def cr ..
    then show ?thesis unfolding game_dispatch_message_def Let_def h(1) bind.bind_lunit pfx l
      by (simp only: Call_Login call_opcode.simps serve_call.simps if_True simp_thms)
  next
    case (Call_Message msg')
    have "to_short (uint ?len) = int (length msg')" using short Call_Message unfolding u by (subst to_short_small) simp_all
    moreover have "take (nat (int (length msg'))) (drop (Suc p) m) = take (nat (int (length msg'))) msg'" using h(2) Call_Message by simp
    then have "received_message app client (drop (Suc p) m) (int (length msg')) st =
        received_message app client msg' (int (length msg')) st" for app
      unfolding received_message_def by (simp only:)
    ultimately show ?thesis using h(1) Call_Message opcodes_distinct unfolding game_dispatch_message_def Let_def
      by (simp add: dispatch_session_message_def cong: if_cong)
  next
    case Call_Logout
    then show ?thesis using h(1) opcodes_distinct by (simp add: game_dispatch_message_def Let_def)
  qed
qed

lemma dispatch_calls:
  assumes "\<forall>call \<in> set calls. game_call_ok call"
  shows "dispatch_loop (game_dispatch_message auth client) (pre @ concat (map call_frame calls)) (length pre)
      (int (length (concat (map call_frame calls)))) tot st =
    map_option (\<lambda>st. (st, tot + length (concat (map call_frame calls)))) (serve_calls auth client calls st)"
  using assms
proof (induction calls arbitrary: pre tot st)
  case Nil
  then show ?case by (subst dispatch_loop.simps) simp
next
  case (Cons call calls)
  let ?rest = "concat (map call_frame calls)" and ?msg = "call_opcode call # call_payload call"
  let ?buf = "pre @ frame_bytes ?msg @ ?rest"
  have lf: "length (frame_bytes ?msg) = length ?msg + 2" by (simp add: frame_bytes_def)
  have rd: "gzochi_common_io_read_short ?buf (length pre) = Some (word_of_nat (length ?msg - 1))"
    using read_short_be [of pre "word_of_nat (length ?msg - 1)" "?msg @ ?rest"] by (simp add: frame_bytes_def)
  have len: "(word_of_nat (length ?msg - 1) :: 16 word) + 1 = word_of_nat (length ?msg)" by (simp add: add.commute)
  have "length ?msg < 2 ^ 16" using Cons.prems call_payload_short [of call] by simp
  moreover have "unat (word_of_nat k :: 16 word) = k" if "k < 2 ^ 16" for k using that by (simp add: unat_of_nat)
  ultimately have un: "unat (word_of_nat (length ?msg) :: 16 word) = length ?msg" by blast
  have slice: "take (length ?msg) (drop (length pre + 2) ?buf) = ?msg" by (simp add: frame_bytes_def be_short_def)
  have h: "game_dispatch_message auth client ?buf (length pre + 2) (word_of_nat (length ?msg)) st = serve_call auth client call st" for st
    by (rule dispatch_call [OF _ slice refl]) (use Cons.prems in simp)
  have IH: "dispatch_loop (game_dispatch_message auth client) ?buf (length pre + 2 + length ?msg) (int (length ?rest)) (tot + (length ?msg + 2)) st' =
      map_option (\<lambda>st. (st, tot + (length ?msg + 2) + length ?rest)) (serve_calls auth client calls st')" for st'
    using Cons.IH [of "pre @ frame_bytes ?msg" "tot + (length ?msg + 2)" st'] Cons.prems lf by (simp add: add.assoc add.commute)
  have n: "int (length (frame_bytes ?msg @ ?rest)) = int (length ?msg) + 2 + int (length ?rest)" using lf by simp
  have c: "3 \<le> int (length ?msg) + 2 + int (length ?rest)" "\<not> int (length ?msg) + 2 + int (length ?rest) - 2 < int (length ?msg)"
    "int (length ?msg) + 2 + int (length ?rest) - (int (length ?msg) + 2) = int (length ?rest)" by simp_all
  have "dispatch_loop (game_dispatch_message auth client) ?buf (length pre) (int (length (frame_bytes ?msg @ ?rest))) tot st =
      Option.bind (serve_call auth client call st)
        (dispatch_loop (game_dispatch_message auth client) ?buf (length pre + 2 + length ?msg) (int (length ?rest)) (tot + (length ?msg + 2)))"
    unfolding n by (subst dispatch_loop.simps) (simp only: rd bind.bind_lunit Let_def len un h c if_True if_False)
  also have "\<dots> = Option.bind (serve_call auth client call st)
      (\<lambda>st'. map_option (\<lambda>st. (st, tot + length (frame_bytes ?msg @ ?rest))) (serve_calls auth client calls st'))"
    by (intro Option.bind_cong refl) (subst IH, simp add: lf add.assoc)
  finally show ?case unfolding list.map concat.simps serve_calls.simps by (simp add: map_option_bind comp_def)
qed

text \<open>
  (C17) What a game client asks for is what the server does. When a client logs in, sends messages and logs out in any order,
  with names and messages that fit the protocol, and the calls of \<open>send\<close> take at least one byte each, then all calls
  return; and the server that gets these bytes serves exactly these requests in their order and nothing else.
\<close>

theorem client_calls_served:
  assumes "\<forall>call \<in> set calls. game_call_ok call" and "gc_sent s = []" and "\<forall>r \<in> set (gc_send_results s). 0 < r"
    and "length (concat (map call_frame calls)) \<le> length (gc_send_results s)"
  shows "\<exists>s'. client_calls calls s = Some s'
    \<and> game_client_dispatch auth client (gc_sent s') st =
        map_option (\<lambda>st. (st, length (gc_sent s'))) (serve_calls auth client calls st)"
proof -
  let ?bytes = "concat (map call_frame calls)"
  obtain rs where s': "client_calls calls s = Some (sent_more ?bytes rs s)"
    using client_calls_send [OF assms(1), of s] assms(3,4) by (auto simp: sends_ok_def)
  have "gc_sent (sent_more ?bytes rs s) = ?bytes" using assms(2) by simp
  then show ?thesis
    using s' dispatch_calls [OF assms(1), of auth client "[]" 0 st] by (simp add: game_client_dispatch_def client_dispatch_def)
qed

section \<open>From the server to the client\<close>

text \<open>What the callbacks of a client are called with for a sequence of messages.\<close>

definition client_hears :: "byte list list \<Rightarrow> byte list list" where
  "client_hears msgs = map tl (filter (\<lambda>m. hd m = GAME_SESSION_MESSAGE) (takeWhile (\<lambda>m. hd m \<noteq> GAME_SESSION_DISCONNECTED) msgs))"

definition says_goodbye :: "byte list list \<Rightarrow> bool" where
  "says_goodbye msgs \<longleftrightarrow> (\<exists>m \<in> set msgs. hd m = GAME_SESSION_DISCONNECTED)"

definition listening :: "game_session \<Rightarrow> bool" where
  "listening s \<longleftrightarrow> gc_connected s \<and> \<not> gc_disconnect_acknowledged s \<and> gc_received_message_callback s \<and> gc_disconnected_callback s"

lemma server_opcodes_distinct: "GAME_SESSION_MESSAGE \<noteq> GAME_SESSION_DISCONNECTED"
  by (simp add: GAME_SESSION_MESSAGE_def GAME_SESSION_DISCONNECTED_def)

lemma client_run_heard:
  assumes "listening s"
  shows "gc_received (client_run msgs s) = gc_received s @ client_hears msgs"
    and "gc_disconnects (client_run msgs s) = gc_disconnects s + (if says_goodbye msgs then 1 else 0)"
    and "gc_connected (client_run msgs s) \<longleftrightarrow> \<not> says_goodbye msgs"
proof -
  have "gc_received (client_run msgs s) = gc_received s @ client_hears msgs
    \<and> gc_disconnects (client_run msgs s) = gc_disconnects s + (if says_goodbye msgs then 1 else 0)
    \<and> (gc_connected (client_run msgs s) \<longleftrightarrow> \<not> says_goodbye msgs)"
    using assms
  proof (induction msgs arbitrary: s)
    case Nil
    then show ?case by (simp add: client_hears_def says_goodbye_def listening_def)
  next
    case (Cons msg msgs)
    have c: "gc_connected s" using Cons.prems by (simp add: listening_def)
    consider "hd msg = GAME_SESSION_DISCONNECTED" | "hd msg = GAME_SESSION_MESSAGE"
      | "hd msg \<noteq> GAME_SESSION_DISCONNECTED" "hd msg \<noteq> GAME_SESSION_MESSAGE" by blast
    then show ?case
    proof cases
      case 1
      then have "\<not> gc_connected (client_handle msg s)" "gc_received (client_handle msg s) = gc_received s"
        "gc_disconnects (client_handle msg s) = gc_disconnects s + 1"
        using Cons.prems server_opcodes_distinct
        by (auto simp: client_handle_def client_session_disconnected_def call_disconnected_callback_def listening_def)
      then show ?thesis using 1 c by (simp add: client_hears_def says_goodbye_def)
    next
      case 2
      then have "client_handle msg s = s\<lparr>gc_received := gc_received s @ [tl msg]\<rparr>"
        using Cons.prems by (simp add: client_handle_def listening_def)
      then show ?thesis using Cons.IH [of "s\<lparr>gc_received := gc_received s @ [tl msg]\<rparr>"] Cons.prems 2 c server_opcodes_distinct
        by (simp add: client_hears_def says_goodbye_def listening_def)
    next
      case 3
      then have "client_handle msg s = s" by (simp add: client_handle_def)
      then show ?thesis using Cons 3 c by (simp add: client_hears_def says_goodbye_def)
    qed
  qed
  then show "gc_received (client_run msgs s) = gc_received s @ client_hears msgs"
    "gc_disconnects (client_run msgs s) = gc_disconnects s + (if says_goodbye msgs then 1 else 0)"
    "gc_connected (client_run msgs s) \<longleftrightarrow> \<not> says_goodbye msgs" by blast+
qed

lemma small_frames_sent:
  "\<forall>msg \<in> set msgs. msg \<noteq> [] \<and> length msg \<le> 2 ^ 15 \<Longrightarrow> small_frames (concat (map frame_bytes msgs))"
proof (induction msgs)
  case Nil
  then show ?case by (subst small_frames.simps) simp
next
  case (Cons msg msgs)
  let ?b = "frame_bytes msg @ concat (map frame_bytes msgs)"
  have ok: "message_ok msg" using Cons.prems by (simp add: message_ok_def)
  have l: "length (frame_bytes msg) = length msg + 2" by (simp add: frame_bytes_def)
  have f: "frame_len ?b = length msg" by (rule frame_len_frame_bytes [OF ok])
  show ?case using Cons l f by (subst small_frames.simps) simp
qed

lemma turns_sent:
  assumes "session_wf s" and "gc_buffer_length s = 0" and "gc_connected s"
    and "\<forall>msg \<in> set msgs. msg \<noteq> [] \<and> length msg \<le> 2 ^ 15" and "concat cs = concat (map frame_bytes msgs)"
    and "\<forall>c \<in> set cs. c \<noteq> [] \<and> length c \<le> 512"
  shows "\<exists>b n. client_turns (map (\<lambda>c. Poll_In (Some c)) cs) s = Some (with_buffer b n (client_run msgs s))"
proof -
  have e: "session_content s = []" using assms(2) by (simp add: session_content_def)
  have "\<forall>msg \<in> set msgs. message_ok msg" using assms(4) by (auto simp: message_ok_def)
  then have f: "frames (concat (map frame_bytes msgs)) = msgs" using frames_sent [of msgs "[]"] by simp
  show ?thesis
    using live_turns [OF assms(1,3), of cs] e f assms(5,6) small_frames_sent [OF assms(4)] by simp
qed

text \<open>The bytes that an operation of a transaction sends to a client are a frame.\<close>

fun op_message :: "client_session_pending_operation \<Rightarrow> byte list" where
  "op_message (Op_Disconnect s) = [GAME_SESSION_DISCONNECTED]"
| "op_message (Op_Login_Success s) = [GAME_LOGIN_SUCCESS]"
| "op_message (Op_Login_Failure s) = [GAME_LOGIN_FAILURE]"
| "op_message (Op_Message s msg) = GAME_SESSION_MESSAGE # msg"

lemma client_bytes_frame: "length (op_message op) \<le> 2 ^ 15 \<Longrightarrow> client_bytes op = frame_bytes (op_message op)"
  by (cases op) (simp_all add: frame_bytes_Cons client_frame_def Let_def be_short_def unat_of_nat)

text \<open>
  (C10) What a transaction says to a session reaches the game. A transaction of an application server commits its operations
  on sessions; its client library reads the bytes that the server has for the socket of a session, in
  whatever pieces of at most 512 bytes they arrive, one in each turn of the main loop. Then the callback for messages has
  been called with exactly the messages of the transaction to this session, in their order, up to
  the first disconnection, and the callback for disconnections once if there was one. Messages are shorter than 32768 bytes.
\<close>

theorem transaction_messages_reach_client:
  assumes "clients_live node" and "sockets_owned node" and "node_apps node app \<noteq> None"
    and "\<forall>op \<in> set (tx_operations tx). operation_ok app node op \<and> length (op_message op) \<le> 2 ^ 15"
    and "login_failed tx \<longrightarrow> login_operation tx \<noteq> None"
    and "session_socket node app s = Some k" and "pending (node_sockets node) k = []"
    and "listening c" and "session_wf c" and "gc_buffer_length c = 0"
  defines "ops \<equiv> filter (\<lambda>op. op_target op = s \<and> \<not> suppressed tx op) (tx_operations tx)"
  shows "\<exists>node'. session_commit app tx node = Some node'
    \<and> (\<forall>cs. concat cs = pending (node_sockets node') k \<longrightarrow> (\<forall>piece \<in> set cs. piece \<noteq> [] \<and> length piece \<le> 512) \<longrightarrow>
        (\<exists>c'. client_turns (map (\<lambda>piece. Poll_In (Some piece)) cs) c = Some c'
          \<and> gc_received c' = gc_received c @ client_hears (map op_message ops)
          \<and> gc_disconnects c' = gc_disconnects c + (if says_goodbye (map op_message ops) then 1 else 0)
          \<and> (gc_connected c' \<longleftrightarrow> \<not> says_goodbye (map op_message ops))))"
proof -
  have short: "\<forall>op \<in> set ops. length (op_message op) \<le> 2 ^ 15" using assms(4) by (simp add: ops_def)
  then have "concat (map client_bytes ops) = concat (map frame_bytes (map op_message ops))"
    by (induction ops) (simp_all add: client_bytes_frame)
  then obtain node' where n: "session_commit app tx node = Some node'"
      "pending (node_sockets node') k = concat (map frame_bytes (map op_message ops))"
    using session_commit_sends [OF assms(1-3) _ assms(5)] assms(4,6,7) unfolding ops_def by fastforce
  have msgs: "\<forall>msg \<in> set (map op_message ops). msg \<noteq> [] \<and> length msg \<le> 2 ^ 15"
  proof (intro ballI conjI)
    fix msg assume "msg \<in> set (map op_message ops)"
    then obtain op where op: "op \<in> set ops" "msg = op_message op" by auto
    show "length msg \<le> 2 ^ 15" using op short by blast
    show "msg \<noteq> []" unfolding op(2) by (cases op) simp_all
  qed
  show ?thesis
  proof (rule exI [of _ node'], intro conjI allI impI)
    show "session_commit app tx node = Some node'" by (rule n(1))
    fix cs assume cs: "concat cs = pending (node_sockets node') k" "\<forall>piece \<in> set cs. piece \<noteq> [] \<and> length piece \<le> 512"
    have "gc_connected c" using assms(8) by (simp add: listening_def)
    then obtain b m where "client_turns (map (\<lambda>piece. Poll_In (Some piece)) cs) c =
        Some (with_buffer b m (client_run (map op_message ops) c))"
      using turns_sent [OF assms(9,10) _ msgs _ cs(2)] cs(1) n(2) by auto
    then show "\<exists>c'. client_turns (map (\<lambda>piece. Poll_In (Some piece)) cs) c = Some c'
          \<and> gc_received c' = gc_received c @ client_hears (map op_message ops)
          \<and> gc_disconnects c' = gc_disconnects c + (if says_goodbye (map op_message ops) then 1 else 0)
          \<and> (gc_connected c' \<longleftrightarrow> \<not> says_goodbye (map op_message ops))"
      using client_run_heard [OF assms(8)] by simp
  qed
qed

definition example_client :: game_session where
  "example_client = gzochi_client_common_session_new\<lparr>gc_connected := True, gc_disconnected_callback := True,
     gc_received_message_callback := True, gc_send_results := replicate 20 1\<rparr>"

lemma example_client_ok: "listening example_client" "session_wf example_client" "gc_buffer_length example_client = 0"
  "gc_received example_client = []" "gc_disconnects example_client = 0"
  by (simp_all add: example_client_def gzochi_client_common_session_new_def listening_def session_wf_def)

theorem client_calls_served_witness:
  "\<exists>s' st'. client_calls [Call_Login [99] [65], Call_Message [66]] example_client = Some s'
    \<and> game_client_dispatch any_identity 0 (gc_sent s') (game_server_accept 10 (node_start {[99]} None)) = Some (st', length (gc_sent s'))
    \<and> gs_tasks st' = [Logged_In [99] 0]"
proof -
  have "\<exists>s'. client_calls [Call_Login [99] [65], Call_Message [66]] example_client = Some s'
    \<and> game_client_dispatch any_identity 0 (gc_sent s') (game_server_accept 10 (node_start {[99]} None)) =
        map_option (\<lambda>st. (st, length (gc_sent s'))) (serve_calls any_identity 0 [Call_Login [99] [65], Call_Message [66]]
          (game_server_accept 10 (node_start {[99]} None)))"
    by (rule client_calls_served) (simp_all add: example_client_def gzochi_client_common_session_new_def cstring_ok_def
      frame_bytes_Cons be_short_def)
  moreover have "\<exists>st'. serve_calls any_identity 0 [Call_Login [99] [65], Call_Message [66]]
      (game_server_accept 10 (node_start {[99]} None)) = Some st' \<and> gs_tasks st' = [Logged_In [99] 0]"
    by (simp add: game_server_accept_def node_start_def dispatch_login_request_def dispatch_session_message_def
      received_message_def credentials_def update_client_def submit_def any_identity_def Let_def)
  ultimately show ?thesis by fastforce
qed

theorem transaction_messages_reach_client_witness:
  "\<exists>node' c'. session_commit [99] (create_session_tx\<lparr>session_operations := [Op_Message 1 [65], Op_Message 2 [66], Op_Disconnect 1]\<rparr>)
      chat_node = Some node'
    \<and> client_turns [Poll_In (Some [0, 1, 0x31, 65, 0]), Poll_In (Some [0, 0x30])] example_client = Some c'
    \<and> gc_received c' = [[65]] \<and> gc_disconnects c' = 1"
proof -
  let ?tx = "create_session_tx\<lparr>session_operations := [Op_Message 1 [65], Op_Message 2 [66], Op_Disconnect 1]\<rparr>"
  let ?ops = "filter (\<lambda>op. op_target op = 1 \<and> \<not> suppressed ?tx op) (tx_operations ?tx)"
  let ?cs = "[[0, 1, 0x31, 65, 0], [0, 0x30]] :: byte list list"
  have ok: "clients_live chat_node" "sockets_owned chat_node" using chat_node_ok by (simp_all add: node_ok_def)
  have app: "node_apps chat_node [99] \<noteq> None" by (simp add: chat_node_def)
  have tx: "tx_operations ?tx = [Op_Message 1 [65], Op_Message 2 [66], Op_Disconnect 1]" "login_failed ?tx \<longrightarrow> login_operation ?tx \<noteq> None"
    by (simp_all add: tx_operations_def create_session_tx_def)
  have ops: "\<forall>op \<in> set (tx_operations ?tx). operation_ok [99] chat_node op \<and> length (op_message op) \<le> 2 ^ 15"
    by (simp add: tx operation_ok_def chat_node_tables)
  have ops1: "?ops = [Op_Message 1 [65], Op_Disconnect 1]" unfolding tx(1) by (simp add: create_session_tx_def)
  have sock: "session_socket chat_node [99] 1 = Some 10" "pending (node_sockets chat_node) 10 = []"
    by (simp_all add: chat_node_tables) (simp add: chat_node_def pending_def)
  obtain node' where n: "session_commit [99] ?tx chat_node = Some node'"
      "\<forall>cs. concat cs = pending (node_sockets node') 10 \<longrightarrow> (\<forall>piece \<in> set cs. piece \<noteq> [] \<and> length piece \<le> 512) \<longrightarrow>
        (\<exists>c'. client_turns (map (\<lambda>piece. Poll_In (Some piece)) cs) example_client = Some c'
          \<and> gc_received c' = gc_received example_client @ client_hears (map op_message ?ops)
          \<and> gc_disconnects c' = gc_disconnects example_client + (if says_goodbye (map op_message ?ops) then 1 else 0)
          \<and> (gc_connected c' \<longleftrightarrow> \<not> says_goodbye (map op_message ?ops)))"
    using transaction_messages_reach_client [OF ok app ops tx(2) sock example_client_ok(1-3)] by blast
  have "concat ?cs = pending (node_sockets node') 10"
    using session_commit_sends [OF ok app _ tx(2)] n(1) sock ops unfolding ops1
    by (auto simp: ops1 client_frame_def be_short_def GAME_SESSION_MESSAGE_def GAME_SESSION_DISCONNECTED_def)
  moreover have "\<forall>piece \<in> set ?cs. piece \<noteq> [] \<and> length piece \<le> 512" by simp
  ultimately obtain c' where c': "client_turns (map (\<lambda>piece. Poll_In (Some piece)) ?cs) example_client = Some c'"
      "gc_received c' = gc_received example_client @ client_hears (map op_message ?ops)"
      "gc_disconnects c' = gc_disconnects example_client + (if says_goodbye (map op_message ?ops) then 1 else 0)"
    using n(2) by blast
  have "gc_received c' = [[65]]" "gc_disconnects c' = 1"
    using c'(2,3) server_opcodes_distinct unfolding ops1 by (simp_all add: client_hears_def says_goodbye_def example_client_ok)
  then show ?thesis using n(1) c'(1) by auto
qed

section \<open>Connecting\<close>

lemma dispatch_limit:
  assumes "gc_connected s" and "gc_buffer_length s = 0"
  shows "gzochi_client_protocol_dispatch s = Some (s, 0)"
  using assms by (simp add: gzochi_client_protocol_dispatch_def attempt_dispatch_def attempt_dispatch_loop.simps)

lemma dispatch_response:
  assumes wf: "session_wf s" and c: "gc_connected s" and content: "session_content s = [0, 0, opcode] @ extra"
    and op: "opcode \<noteq> GAME_SESSION_DISCONNECTED" "opcode \<noteq> GAME_SESSION_MESSAGE"
  shows "\<exists>b n. gzochi_client_protocol_dispatch s = Some (with_buffer b n s, 1) \<and> session_content (with_buffer b n s) = extra"
proof -
  have bl: "gc_buffer_length s = int (length extra) + 3" using length_session_content [OF wf] wf content by (simp add: session_wf_def)
  obtain rest where buf: "gc_buffer s = ([0, 0, opcode] @ extra) @ rest" using content_prefix [of s] content by metis
  have loop: "attempt_dispatch_loop 1 1 0 0 s = Some (s, 3, 1)"
    using c bl op by (subst attempt_dispatch_loop.simps, subst attempt_dispatch_loop.simps)
      (simp add: buf gzochi_common_io_read_short_def io_simps client_dispatch_opcode_def numeral_2_eq_2)
  let ?b = "take (length extra) (drop 3 (gc_buffer s)) @ drop (length extra) (gc_buffer s)"
  have "gzochi_client_protocol_dispatch s = Some (with_buffer ?b (int (length extra)) s, 1)"
    by (simp add: gzochi_client_protocol_dispatch_def attempt_dispatch_def loop Let_def with_buffer_def bl)
  moreover have "session_content (with_buffer ?b (int (length extra)) s) = extra"
    by (simp add: session_content_def buf)
  ultimately show ?thesis by blast
qed

text \<open>
  A client that connects keeps what it is sent. When the first bytes that arrive after the login request are the response of the
  server and something more, the connection is returned with what came after the response still in its buffer and no callback
  called, so that no message is lost before the callbacks are set. This holds whatever the response is: a refused
  login also returns a connected session.
\<close>

theorem connect_keeps_messages:
  assumes "cstring_ok endpoint" and "length endpoint + 1 + length cred < 2 ^ 15"
    and "\<forall>r \<in> set results. 0 < r" and "length endpoint + length cred + 4 \<le> length results"
    and "opcode \<noteq> GAME_SESSION_DISCONNECTED" and "opcode \<noteq> GAME_SESSION_MESSAGE" and "length extra \<le> 509"
  shows "\<exists>s. gzochi_glib_client_connect endpoint cred results (Some ([0, 0, opcode] @ extra) # arriving) = Some (Some s, arriving)
    \<and> gc_connected s \<and> session_content s = extra \<and> gc_received s = [] \<and> gc_disconnects s = 0
    \<and> gc_sent s = frame_bytes (GAME_LOGIN_REQUEST # endpoint @ 0 # cred)"
proof -
  let ?new = "gzochi_client_common_session_new\<lparr>gc_connected := True, gc_send_results := results\<rparr>"
  let ?bytes = "frame_bytes (GAME_LOGIN_REQUEST # endpoint @ 0 # cred)"
  obtain rs where "make_call (Call_Login endpoint cred) ?new = Some (sent_more ?bytes rs ?new)"
    using make_call_sends [of "Call_Login endpoint cred" 0 ?new] assms(1-4) by (auto simp: sends_ok_def)
  then obtain ret where login: "gzochi_client_protocol_send_login_request endpoint cred ?new = Some (sent_more ?bytes rs ?new, ret)"
    by auto
  let ?s = "sent_more ?bytes rs ?new"
  have s: "session_wf ?s" "gc_connected ?s" "gc_buffer_length ?s = 0" "session_content ?s = []"
    by (simp_all add: session_wf_def gzochi_client_common_session_new_def session_content_def sent_more_def)
  let ?c = "[0, 0, opcode] @ extra"
  have "length (session_content ?s) + length ?c \<le> GZOCHI_CLIENT_MAX_BUFFER_SIZE"
    using assms(7) s(4) by (simp add: GZOCHI_CLIENT_MAX_BUFFER_SIZE_def)
  then obtain b n where r: "gzochi_client_protocol_read (Some ?c) ?s = (with_buffer b n ?s, 0)"
      "session_wf (with_buffer b n ?s)" "session_content (with_buffer b n ?s) = ?c"
    using read_chunk [OF s(1), of ?c] assms(7) s(4) by auto
  obtain b' n' where d: "gzochi_client_protocol_dispatch (with_buffer b n ?s) = Some (with_buffer b' n' ?s, 1)"
      "session_content (with_buffer b' n' ?s) = extra"
    using dispatch_response [OF r(2) _ r(3) assms(5,6)] s(2) by auto
  have "read_and_dispatch (Some ?c # arriving) ?s = Some (with_buffer b' n' ?s, arriving, 0)"
    using dispatch_limit [OF s(2,3)] r(1) d(1) by (subst read_and_dispatch.simps) (simp add: read_and_dispatch.simps [of arriving])
  then have "gzochi_glib_client_connect endpoint cred results (Some ?c # arriving) = Some (Some (with_buffer b' n' ?s), arriving)"
    using login s(2) by (simp add: gzochi_glib_client_connect_def)
  then show ?thesis using d(2) s(2)
    by (intro exI [of _ "with_buffer b' n' ?s"]) (simp add: sent_more_def gzochi_client_common_session_new_def with_buffer_def)
qed

theorem connect_keeps_messages_witness:
  "\<exists>s. gzochi_glib_client_connect [99] [65] (replicate 6 1) [Some [0, 0, 0x12, 0, 1, 0x31, 66]] = Some (Some s, [])
    \<and> gc_connected s \<and> session_content s = [0, 1, 0x31, 66]"
  using connect_keeps_messages [of "[99]" "[65]" "replicate 6 1" GAME_LOGIN_FAILURE "[0, 1, 0x31, 66]" "[]"]
  by (auto simp: cstring_ok_def GAME_LOGIN_FAILURE_def GAME_SESSION_DISCONNECTED_def GAME_SESSION_MESSAGE_def)

section \<open>Messages that are too long\<close>

definition negative_frame :: "int \<Rightarrow> int \<Rightarrow> game_session \<Rightarrow> bool" where
  "negative_frame limit offset s \<longleftrightarrow> limit = 0 \<and> offset = 0 \<and> gc_connected s \<and> gc_buffer_length s \<ge> 3
     \<and> (\<exists>rest. gc_buffer s = [255, 253, GAME_SESSION_MESSAGE] @ rest)"

lemma negative_length_loops: "attempt_dispatch_loop limit remaining offset dispatched s = Some y \<Longrightarrow> \<not> negative_frame limit offset s"
proof (rule attempt_dispatch_loop.raw_induct [where P = "\<lambda>limit remaining offset dispatched s y. \<not> negative_frame limit offset s"])
  fix loop :: "int \<Rightarrow> int \<Rightarrow> int \<Rightarrow> int \<Rightarrow> game_session \<Rightarrow> (game_session \<times> int \<times> int) option"
    and limit remaining offset dispatched s y
  assume IH: "\<And>limit remaining offset dispatched s y. loop limit remaining offset dispatched s = Some y \<Longrightarrow> \<not> negative_frame limit offset s"
    and body: "(if limit = 0 \<or> 0 < remaining
      then if \<not> gc_connected s then Some (client_session_disconnected s, offset, dispatched)
        else if gc_buffer_length s - offset < 3 then Some (s, offset, dispatched)
        else if offset < 0 then None
        else do {
          message_len \<leftarrow> map_option sint (gzochi_common_io_read_short (gc_buffer s) (nat offset));
          if gc_buffer_length s - offset < message_len + 3 then Some (s, offset, dispatched)
          else do {
            opcode \<leftarrow> rd (gc_buffer s) (nat offset + 2);
            loop limit (if limit \<noteq> 0 then remaining - 1 else remaining) (offset + (3 + message_len))
              (dispatched + 1) (client_dispatch_opcode opcode (nat offset + 3) message_len s)
          }
        }
      else Some (s, offset, dispatched)) = Some y"
  show "\<not> negative_frame limit offset s"
  proof
    assume h: "negative_frame limit offset s"
    then obtain rest where buf: "gc_buffer s = [255, 253, GAME_SESSION_MESSAGE] @ rest" by (auto simp: negative_frame_def)
    have "gzochi_common_io_read_short (gc_buffer s) 0 = Some 65533"
      unfolding buf by (simp add: gzochi_common_io_read_short_def io_simps)
    then have len: "map_option sint (gzochi_common_io_read_short (gc_buffer s) (nat 0)) = Some (- 3)" by simp
    have op: "rd (gc_buffer s) (nat 0 + 2) = Some GAME_SESSION_MESSAGE" unfolding buf by (simp add: io_simps)
    let ?s = "client_dispatch_opcode GAME_SESSION_MESSAGE (nat 0 + 3) (- 3) s"
    have "limit = 0" "offset = 0" "gc_connected s" "\<not> gc_buffer_length s - 0 < 3" "\<not> gc_buffer_length s - 0 < - 3 + 3"
      using h by (auto simp: negative_frame_def)
    then have "loop 0 remaining (0 + (3 + - 3)) (dispatched + 1) ?s = Some y"
      using body by (simp only: len op bind.bind_lunit simp_thms if_True if_False less_irrefl)
    then have "\<not> negative_frame 0 (0 + (3 + - 3)) ?s" by (rule IH)
    then show False using h by (auto simp: negative_frame_def client_dispatch_opcode_def client_dispatch_session_message_def
      split: if_splits)
  qed
qed

text \<open>
  A message that never ends. The client reads the length of a message as a signed number. A message of 65533 bytes, which the
  server sends and the client finds complete, has the length minus 3; the client calls back for it and starts again at the same
  place, and its dispatch does not return.
\<close>

theorem long_message_never_ends:
  assumes "gc_connected s" and "length msg = 65533" and "gc_buffer_length s = 65536" and "gc_buffer s = client_frame msg @ rest"
  shows "gzochi_client_common_session_is_dispatchable s = Some True \<and> client_source_dispatch s = None"
proof -
  have "client_frame msg = [255, 253, GAME_SESSION_MESSAGE] @ msg"
    using assms(2) by (simp add: client_frame_def be_short_def)
  then have buf: "gc_buffer s = [255, 253, GAME_SESSION_MESSAGE] @ msg @ rest" using assms(4) by simp
  then have "negative_frame 0 0 s" using assms(1,3) by (simp add: negative_frame_def)
  then have "attempt_dispatch_loop 0 0 0 0 s = None" using negative_length_loops [of 0 0 0 0 s] by (cases "attempt_dispatch_loop 0 0 0 0 s") auto
  moreover have "gzochi_common_io_read_short (gc_buffer s) 0 = Some 65533"
    unfolding buf by (simp add: gzochi_common_io_read_short_def io_simps)
  ultimately show ?thesis using assms(1,3)
    by (simp add: gzochi_client_common_session_is_dispatchable_def client_source_dispatch_def gzochi_client_protocol_dispatch_all_def
      attempt_dispatch_def)
qed

theorem long_message_never_ends_witness:
  "client_source_dispatch (with_buffer (client_frame (replicate 65533 0) @ [0, 0]) 65536 example_client) = None"
proof -
  let ?s = "with_buffer (client_frame (replicate 65533 0) @ [0, 0]) 65536 example_client"
  have "gc_connected ?s" using example_client_ok(1) by (simp add: listening_def)
  then show ?thesis using long_message_never_ends [of ?s "replicate 65533 0" "[0, 0]"] by (simp only: with_buffer_sel length_replicate simp_thms)
qed

end
