(* ===== verification/Storage_Locks.thy ===== *)
theory Storage_Locks
  imports Gz_Prelude "HOL-Library.Monad_Syntax"
begin

text \<open>
  The locks of the storage engine in memory, \<open>gzochi-server/src/storage-mem.c\<close>: transactions lock the nodes of the
  trees for reading or writing, wait for each other, look for deadlocks before they wait, and detach the locks of
  nodes they delete.

  Locks and transactions are shared by address and live in stores; a lock that was freed has no entry. The functions
  run under the mutex of the environment, which a waiting transaction gives up: \<open>tx_lock\<close> is split where it waits, and
  \<open>tx_lock_node\<close> and \<open>lock_detach\<close> where they hold no mutex or only that of the lock table; \<open>env_calls\<close> is where a
  transaction is in them. Every transaction belongs to one thread. \<open>env_asleep\<close> holds the transactions that wait and
  have not been woken by a broadcast. A failed assertion and the use of something freed are faults. The search of
  \<open>cleanup_transaction\<close> in the list of transactions, which the source makes before it takes the mutex, is part of its one
  step here, and the counts of references do not wrap.
\<close>

section \<open>State\<close>

record btree_lock =
  lk_writer :: "nat option"
  lk_readers :: "nat list"
  lk_ref_count :: nat

record btree_transaction =
  btx_end_time :: int
  waiting_to_read :: "nat option"
  waiting_to_write :: "nat option"
  btx_write_locks :: "nat list"
  btx_read_locks :: "nat list"

text \<open>
  Where a transaction is in \<open>tx_lock_node\<close>: it has a reference to the lock of the node and wants to read or write, or it
  has got the lock or not and has to drop the reference; and in \<open>lock_detach\<close>: it has to drop the reference of the lock table.
\<close>

datatype lock_call = Referenced nat nat bool | Returned nat nat bool | Detached nat

record btree_environment =
  env_locks :: "nat \<rightharpoonup> btree_lock"
  env_lock_table :: "nat \<rightharpoonup> nat"
  env_tree_locks :: "nat list"
  env_calls :: "nat \<rightharpoonup> lock_call"
  env_btxs :: "nat \<rightharpoonup> btree_transaction"
  env_transactions :: "nat list"
  env_next :: nat
  env_now :: int
  env_asleep :: "nat list"

datatype btree_tx_error = Txn_Lock_Timeout | Txn_Deadlock | Txn_Failed

datatype btree_lock_node_response = Node_Locked | Node_Failed | Node_Deleted

datatype lock_outcome = Lock_Acquired | Lock_Failed btree_tx_error | Lock_Waiting

definition create_btree_environment :: btree_environment where
  "create_btree_environment =
     \<lparr>env_locks = Map.empty, env_lock_table = Map.empty, env_tree_locks = [], env_calls = Map.empty, env_btxs = Map.empty, env_transactions = [], env_next = 0, env_now = 0, env_asleep = []\<rparr>"

definition btree_lock_new :: "btree_environment \<Rightarrow> btree_environment \<times> nat" where
  "btree_lock_new env =
     (env\<lparr>env_locks := (env_locks env)(env_next env \<mapsto> \<lparr>lk_writer = None, lk_readers = [], lk_ref_count = 0\<rparr>), env_next := Suc (env_next env)\<rparr>, env_next env)"

definition lock_free :: "nat \<Rightarrow> btree_environment \<Rightarrow> btree_environment option" where
  "lock_free l env = do {
     lock \<leftarrow> env_locks env l;
     if lk_writer lock \<noteq> None \<or> lk_readers lock \<noteq> [] then None
     else Some (env\<lparr>env_locks := (env_locks env)(l := None)\<rparr>)
   }"

definition create_transaction :: "int \<Rightarrow> btree_environment \<Rightarrow> btree_environment \<times> nat" where
  "create_transaction end_time env =
     (let btx = env_next env
      in (env\<lparr>env_btxs := (env_btxs env)(btx \<mapsto> \<lparr>btx_end_time = end_time, waiting_to_read = None, waiting_to_write = None,
                btx_write_locks = [], btx_read_locks = []\<rparr>),
              env_transactions := btx # env_transactions env, env_next := Suc btx\<rparr>, btx))"

definition cleanup_btree_transaction :: "nat \<Rightarrow> btree_environment \<Rightarrow> btree_environment option" where
  "cleanup_btree_transaction btx env =
     (if btx \<in> set (env_transactions env)
      then Some (env\<lparr>env_transactions := remove1 btx (env_transactions env), env_btxs := (env_btxs env)(btx := None)\<rparr>)
      else None)"

definition check_tx_timeout :: "btree_transaction \<Rightarrow> int \<Rightarrow> bool" where
  "check_tx_timeout btx now \<longleftrightarrow> btx_end_time btx > now"

section \<open>Deadlocks\<close>

text \<open>The comparison functions return whether the element is found.\<close>

fun find_custom :: "('a \<Rightarrow> bool option) \<Rightarrow> 'a list \<Rightarrow> bool option" where
  "find_custom f [] = Some False"
| "find_custom f (x # xs) = do { found \<leftarrow> f x; if found then Some True else find_custom f xs }"

fun competing_w_lock :: "btree_environment \<Rightarrow> nat \<Rightarrow> nat list \<Rightarrow> nat \<Rightarrow> bool option" where
  "competing_w_lock env self [] lock = Some False"
| "competing_w_lock env self (ancestor # ancestors) lock = do {
     btx \<leftarrow> env_btxs env ancestor;
     if ancestor \<noteq> self \<and> waiting_to_write btx = Some lock then Some True else competing_w_lock env self ancestors lock
   }"

fun competing_rw_lock :: "btree_environment \<Rightarrow> nat list \<Rightarrow> nat \<Rightarrow> bool option" where
  "competing_rw_lock env [] lock = Some False"
| "competing_rw_lock env (ancestor # ancestors) lock = do {
     btx \<leftarrow> env_btxs env ancestor;
     if waiting_to_write btx = Some lock \<or> waiting_to_read btx = Some lock then Some True else competing_rw_lock env ancestors lock
   }"

definition has_competitor :: "btree_environment \<Rightarrow> nat list \<Rightarrow> nat \<Rightarrow> bool option" where
  "has_competitor env l t = do {
     btx \<leftarrow> env_btxs env t;
     found \<leftarrow> find_custom (competing_w_lock env t l) (btx_read_locks btx);
     if found then Some True else find_custom (competing_rw_lock env l) (btx_write_locks btx)
   }"

partial_function (option) lock_detect_pass ::
    "btree_environment \<Rightarrow> nat list \<Rightarrow> nat list \<Rightarrow> nat list \<Rightarrow> bool \<Rightarrow> (nat list \<times> nat list \<times> bool) option" where
  "lock_detect_pass env l l_ptr q should_continue =
     (case l_ptr of
        [] \<Rightarrow> Some (l, q, should_continue)
      | btx # rest \<Rightarrow> do {
          competing \<leftarrow> has_competitor env l btx;
          if \<not> competing then lock_detect_pass env (remove1 btx l) (remove1 btx l) (btx # q) True
          else lock_detect_pass env l rest q should_continue
        })"

partial_function (option) lock_detect_loop ::
    "btree_environment \<Rightarrow> nat list \<Rightarrow> nat list \<Rightarrow> bool \<Rightarrow> nat list option" where
  "lock_detect_loop env l q should_continue =
     (if l \<noteq> [] \<and> should_continue
      then do {
        (l, q, should_continue) \<leftarrow> lock_detect_pass env l l q False;
        lock_detect_loop env l q should_continue
      }
      else Some q)"

declare lock_detect_pass.simps [code] lock_detect_loop.simps [code]

definition lock_detect :: "btree_environment \<Rightarrow> bool option" where
  "lock_detect env = do {
     q \<leftarrow> lock_detect_loop env (env_transactions env) [] True;
     Some (length q \<noteq> length (env_transactions env))
   }"

section \<open>Locking and unlocking\<close>

definition put_btx :: "nat \<Rightarrow> btree_transaction \<Rightarrow> btree_environment \<Rightarrow> btree_environment" where
  "put_btx t btx env = env\<lparr>env_btxs := (env_btxs env)(t \<mapsto> btx)\<rparr>"

definition put_lock :: "nat \<Rightarrow> btree_lock \<Rightarrow> btree_environment \<Rightarrow> btree_environment" where
  "put_lock l lock env = env\<lparr>env_locks := (env_locks env)(l \<mapsto> lock)\<rparr>"

text \<open>\<open>tx_lock\<close> up to its loop: whether the lock is needed.\<close>

definition tx_lock_enter :: "nat \<Rightarrow> nat \<Rightarrow> bool \<Rightarrow> btree_environment \<Rightarrow> (btree_environment \<times> bool) option" where
  "tx_lock_enter l t write env = do {
     lock \<leftarrow> env_locks env l;
     btx \<leftarrow> env_btxs env t;
     if waiting_to_write btx \<noteq> None \<or> waiting_to_read btx \<noteq> None then None
     else if write
     then if lk_writer lock = Some t then Some (env, False)
       else let btx = btx\<lparr>waiting_to_write := Some l\<rparr>
            in if l \<in> set (btx_read_locks btx)
               then if t \<notin> set (lk_readers lock) then None
                 else Some (put_lock l (lock\<lparr>lk_readers := remove1 t (lk_readers lock)\<rparr>)
                       (put_btx t (btx\<lparr>btx_read_locks := remove1 l (btx_read_locks btx)\<rparr>) env), True)
               else Some (put_btx t btx env, True)
     else if lk_writer lock = Some t \<or> l \<in> set (btx_read_locks btx) then Some (env, False)
     else Some (put_btx t (btx\<lparr>waiting_to_read := Some l\<rparr>) env, True)
   }"

text \<open>One run of the loop.\<close>

definition tx_lock_try :: "nat \<Rightarrow> nat \<Rightarrow> bool \<Rightarrow> btree_environment \<Rightarrow> (btree_environment \<times> lock_outcome) option" where
  "tx_lock_try l t write env = do {
     lock \<leftarrow> env_locks env l;
     btx \<leftarrow> env_btxs env t;
     if \<not> check_tx_timeout btx (env_now env) then Some (env, Lock_Failed Txn_Lock_Timeout)
     else if write \<and> lk_writer lock = None \<and> lk_readers lock = []
     then Some (put_lock l (lock\<lparr>lk_writer := Some t\<rparr>) (put_btx t (btx\<lparr>btx_write_locks := l # btx_write_locks btx\<rparr>) env), Lock_Acquired)
     else if \<not> write \<and> lk_writer lock = None
     then Some (put_lock l (lock\<lparr>lk_readers := t # lk_readers lock\<rparr>) (put_btx t (btx\<lparr>btx_read_locks := l # btx_read_locks btx\<rparr>) env), Lock_Acquired)
     else do {
       deadlock \<leftarrow> lock_detect env;
       Some (env, if deadlock then Lock_Failed Txn_Deadlock else Lock_Waiting)
     }
   }"

definition tx_lock_leave :: "nat \<Rightarrow> bool \<Rightarrow> btree_environment \<Rightarrow> btree_environment option" where
  "tx_lock_leave t write env = do {
     btx \<leftarrow> env_btxs env t;
     Some (put_btx t (if write then btx\<lparr>waiting_to_write := None\<rparr> else btx\<lparr>waiting_to_read := None\<rparr>) env)
   }"

definition tx_lock_round :: "nat \<Rightarrow> nat \<Rightarrow> bool \<Rightarrow> btree_environment \<Rightarrow> (btree_environment \<times> lock_outcome) option" where
  "tx_lock_round l t write env = do {
     (env, outcome) \<leftarrow> tx_lock_try l t write env;
     if outcome = Lock_Waiting then Some (env\<lparr>env_asleep := t # env_asleep env\<rparr>, outcome)
     else do { env \<leftarrow> tx_lock_leave t write env; Some (env, outcome) }
   }"

definition tx_lock :: "nat \<Rightarrow> nat \<Rightarrow> bool \<Rightarrow> btree_environment \<Rightarrow> (btree_environment \<times> lock_outcome) option" where
  "tx_lock l t write env = do {
     (env, needs_lock) \<leftarrow> tx_lock_enter l t write env;
     if needs_lock then tx_lock_round l t write env
     else do { env \<leftarrow> tx_lock_leave t write env; Some (env, Lock_Acquired) }
   }"

text \<open>A transaction that wakes up, after a broadcast, at the end of its time or for no reason.\<close>

definition tx_lock_resume :: "nat \<Rightarrow> btree_environment \<Rightarrow> (btree_environment \<times> lock_outcome) option" where
  "tx_lock_resume t env = do {
     btx \<leftarrow> env_btxs env t;
     let env = env\<lparr>env_asleep := removeAll t (env_asleep env)\<rparr>;
     case waiting_to_write btx of
       Some l \<Rightarrow> tx_lock_round l t True env
     | None \<Rightarrow> Option.bind (waiting_to_read btx) (\<lambda>l. tx_lock_round l t False env)
   }"

definition waits_on :: "btree_environment \<Rightarrow> nat \<Rightarrow> nat \<Rightarrow> bool" where
  "waits_on env l t \<longleftrightarrow>
     (case env_btxs env t of
        None \<Rightarrow> False
      | Some btx \<Rightarrow> waiting_to_write btx = Some l \<or> waiting_to_read btx = Some l)"

definition g_cond_broadcast :: "nat \<Rightarrow> btree_environment \<Rightarrow> btree_environment" where
  "g_cond_broadcast l env = env\<lparr>env_asleep := filter (\<lambda>t. \<not> waits_on env l t) (env_asleep env)\<rparr>"

definition tx_unlock :: "nat \<Rightarrow> nat \<Rightarrow> btree_environment \<Rightarrow> btree_environment option" where
  "tx_unlock l t env = do {
     lock \<leftarrow> env_locks env l;
     btx \<leftarrow> env_btxs env t;
     env \<leftarrow> (if lk_writer lock = Some t
       then if l \<notin> set (btx_write_locks btx) then None
         else Some (put_lock l (lock\<lparr>lk_writer := None\<rparr>) (put_btx t (btx\<lparr>btx_write_locks := remove1 l (btx_write_locks btx)\<rparr>) env))
       else if l \<in> set (btx_read_locks btx)
       then if t \<notin> set (lk_readers lock) then None
         else Some (put_lock l (lock\<lparr>lk_readers := remove1 t (lk_readers lock)\<rparr>)
               (put_btx t (btx\<lparr>btx_read_locks := remove1 l (btx_read_locks btx)\<rparr>) env))
       else None);
     Some (g_cond_broadcast l env)
   }"

section \<open>The locks of nodes\<close>

text \<open>The lock of a tree, which is not in the lock table.\<close>

definition create_tree_lock :: "btree_environment \<Rightarrow> btree_environment" where
  "create_tree_lock env = (let (env, l) = btree_lock_new env in env\<lparr>env_tree_locks := l # env_tree_locks env\<rparr>)"

definition lock_inc :: "nat \<Rightarrow> btree_environment \<Rightarrow> btree_environment" where
  "lock_inc l env = env\<lparr>env_locks := (env_locks env)(l := map_option (lk_ref_count_update Suc) (env_locks env l))\<rparr>"

definition lock_attach :: "nat \<Rightarrow> btree_environment \<Rightarrow> btree_environment" where
  "lock_attach node env =
     (let (env, l) = btree_lock_new env;
          env = lock_inc l env
      in env\<lparr>env_lock_table := (env_lock_table env)(node \<mapsto> l)\<rparr>)"

definition lock_ref :: "nat \<Rightarrow> btree_environment \<Rightarrow> btree_environment \<times> nat option" where
  "lock_ref node env =
     (case env_lock_table env node of None \<Rightarrow> (env, None) | Some l \<Rightarrow> (lock_inc l env, Some l))"

definition lock_unref :: "nat \<Rightarrow> btree_environment \<Rightarrow> btree_environment option" where
  "lock_unref l env = do {
     lock \<leftarrow> env_locks env l;
     case lk_ref_count lock of
       0 \<Rightarrow> None
     | Suc n \<Rightarrow> let env = put_lock l (lock\<lparr>lk_ref_count := n\<rparr>) env in if n = 0 then lock_free l env else Some env
   }"

definition set_call :: "nat \<Rightarrow> lock_call option \<Rightarrow> btree_environment \<Rightarrow> btree_environment" where
  "set_call t c env = env\<lparr>env_calls := (env_calls env)(t := c)\<rparr>"

text \<open>\<open>tx_lock_node\<close>: the reference, or the answer that the node is deleted.\<close>

definition tx_lock_node_ref ::
    "nat \<Rightarrow> nat \<Rightarrow> bool \<Rightarrow> btree_environment \<Rightarrow> btree_environment \<times> btree_lock_node_response option" where
  "tx_lock_node_ref node t write env =
     (case lock_ref node env of
        (env, None) \<Rightarrow> (env, Some Node_Deleted)
      | (env, Some l) \<Rightarrow> (set_call t (Some (Referenced node l write)) env, None))"

text \<open>The call of \<open>tx_lock\<close>, and what follows when it has returned.\<close>

fun tx_lock_node_return :: "nat \<Rightarrow> btree_environment \<times> lock_outcome \<Rightarrow> btree_environment" where
  "tx_lock_node_return t (env, outcome) =
     (case env_calls env t of
        Some (Referenced node l write) \<Rightarrow>
          if outcome = Lock_Waiting then env else set_call t (Some (Returned node l (outcome = Lock_Acquired))) env
      | _ \<Rightarrow> env)"

definition tx_lock_node_lock :: "nat \<Rightarrow> btree_environment \<Rightarrow> btree_environment option" where
  "tx_lock_node_lock t env =
     (case env_calls env t of
        Some (Referenced node l write) \<Rightarrow> map_option (tx_lock_node_return t) (tx_lock l t write env)
      | _ \<Rightarrow> None)"

definition tx_lock_node_resume :: "nat \<Rightarrow> btree_environment \<Rightarrow> btree_environment option" where
  "tx_lock_node_resume t env = map_option (tx_lock_node_return t) (tx_lock_resume t env)"

definition tx_lock_node_leave :: "nat \<Rightarrow> btree_environment \<Rightarrow> (btree_environment \<times> btree_lock_node_response) option" where
  "tx_lock_node_leave t env =
     (case env_calls env t of
        Some (Returned node l success) \<Rightarrow> do {
          env \<leftarrow> lock_unref l (set_call t None env);
          Some (env, if env_lock_table env node = None then Node_Deleted else if success then Node_Locked else Node_Failed)
        }
      | _ \<Rightarrow> None)"

definition tx_unlock_node :: "nat \<Rightarrow> nat \<Rightarrow> btree_environment \<Rightarrow> btree_environment option" where
  "tx_unlock_node node t env = Option.bind (env_lock_table env node) (\<lambda>l. tx_unlock l t env)"

definition lock_detach :: "nat \<Rightarrow> nat \<Rightarrow> btree_environment \<Rightarrow> btree_environment option" where
  "lock_detach node t env = do {
     l \<leftarrow> env_lock_table env node;
     lock \<leftarrow> env_locks env l;
     if lk_writer lock \<noteq> Some t then None
     else map_option (set_call t (Some (Detached l))) (tx_unlock l t (env\<lparr>env_lock_table := (env_lock_table env)(node := None)\<rparr>))
   }"

definition lock_detach_leave :: "nat \<Rightarrow> btree_environment \<Rightarrow> btree_environment option" where
  "lock_detach_leave t env =
     (case env_calls env t of Some (Detached l) \<Rightarrow> lock_unref l (set_call t None env) | _ \<Rightarrow> None)"

section \<open>What transactions hold and wait for\<close>

definition btx_has :: "(btree_transaction \<Rightarrow> bool) \<Rightarrow> btree_environment \<Rightarrow> nat \<Rightarrow> bool" where
  "btx_has P env t \<longleftrightarrow> (case env_btxs env t of None \<Rightarrow> False | Some btx \<Rightarrow> P btx)"

definition lock_has :: "(btree_lock \<Rightarrow> bool) \<Rightarrow> btree_environment \<Rightarrow> nat \<Rightarrow> bool" where
  "lock_has P env l \<longleftrightarrow> (case env_locks env l of None \<Rightarrow> False | Some lock \<Rightarrow> P lock)"

abbreviation "holds_read env t l \<equiv> btx_has (\<lambda>btx. l \<in> set (btx_read_locks btx)) env t"
abbreviation "holds_write env t l \<equiv> btx_has (\<lambda>btx. l \<in> set (btx_write_locks btx)) env t"
abbreviation "waits_write env t l \<equiv> btx_has (\<lambda>btx. waiting_to_write btx = Some l) env t"
abbreviation "waits_read env t l \<equiv> btx_has (\<lambda>btx. waiting_to_read btx = Some l) env t"
abbreviation "is_reader env l t \<equiv> lock_has (\<lambda>lock. t \<in> set (lk_readers lock)) env l"
abbreviation "is_writer env l t \<equiv> lock_has (\<lambda>lock. lk_writer lock = Some t) env l"

lemma btx_has_simps [simp]:
  "btx_has P (put_lock l lock env) t = btx_has P env t"
  "btx_has P (put_btx u btx env) t = (if t = u then P btx else btx_has P env t)"
  "btx_has P (env\<lparr>env_asleep := ts\<rparr>) t = btx_has P env t"
  "btx_has P (env\<lparr>env_now := now\<rparr>) t = btx_has P env t"
  by (simp_all add: btx_has_def put_lock_def put_btx_def)

lemma lock_has_simps [simp]:
  "lock_has P (put_lock k lock env) l = (if l = k then P lock else lock_has P env l)"
  "lock_has P (put_btx u btx env) l = lock_has P env l"
  "lock_has P (env\<lparr>env_asleep := ts\<rparr>) l = lock_has P env l"
  "lock_has P (env\<lparr>env_now := now\<rparr>) l = lock_has P env l"
  by (simp_all add: lock_has_def put_lock_def put_btx_def)

text \<open>Transactions and locks know of each other, and a lock that is held for writing is held by nobody else.\<close>

definition table_ok :: "btree_environment \<Rightarrow> bool" where
  "table_ok env \<longleftrightarrow>
     (\<forall>t l. holds_read env t l = is_reader env l t) \<and> (\<forall>t l. holds_write env t l = is_writer env l t)
     \<and> (\<forall>t btx. env_btxs env t = Some btx \<longrightarrow> distinct (btx_read_locks btx) \<and> distinct (btx_write_locks btx))
     \<and> (\<forall>l lock. env_locks env l = Some lock \<longrightarrow> distinct (lk_readers lock) \<and> (lk_writer lock \<noteq> None \<longrightarrow> lk_readers lock = []))"

definition waits_ok :: "btree_environment \<Rightarrow> bool" where
  "waits_ok env \<longleftrightarrow> (\<forall>t l. waits_write env t l \<or> waits_read env t l \<longrightarrow>
       env_locks env l \<noteq> None \<and> \<not> holds_read env t l \<and> \<not> holds_write env t l)
     \<and> (\<forall>t l k. \<not> (waits_write env t l \<and> waits_read env t k))"

definition lists_ok :: "btree_environment \<Rightarrow> bool" where
  "lists_ok env \<longleftrightarrow> distinct (env_transactions env) \<and> set (env_transactions env) = dom (env_btxs env)
     \<and> (\<forall>a \<in> dom (env_btxs env) \<union> dom (env_locks env). a < env_next env)
     \<and> (\<forall>t \<in> set (env_asleep env). \<exists>l. waits_on env l t)"

definition waits_for :: "btree_environment \<Rightarrow> (nat \<times> nat) set" where
  "waits_for env = {(t, u). \<exists>l. waits_write env t l \<and> (is_writer env l u \<or> is_reader env l u)
     \<or> waits_read env t l \<and> is_writer env l u}"

definition locks_inv :: "btree_environment \<Rightarrow> bool" where
  "locks_inv env \<longleftrightarrow> table_ok env \<and> waits_ok env \<and> lists_ok env \<and> acyclic (waits_for env)"

section \<open>The search for deadlocks\<close>

lemma find_custom_eq:
  "(\<And>x. x \<in> set xs \<Longrightarrow> f x = Some (P x)) \<Longrightarrow> find_custom f xs = Some (\<exists>x \<in> set xs. P x)"
  by (induction xs) auto

lemma competing_w_eq:
  "set l \<subseteq> dom (env_btxs env) \<Longrightarrow> competing_w_lock env self l lock = Some (\<exists>a \<in> set l. a \<noteq> self \<and> waits_write env a lock)"
  by (induction l) (auto simp: btx_has_def)

lemma competing_rw_eq:
  "set l \<subseteq> dom (env_btxs env) \<Longrightarrow> competing_rw_lock env l lock = Some (\<exists>a \<in> set l. waits_write env a lock \<or> waits_read env a lock)"
  by (induction l) (auto simp: btx_has_def)

lemma has_competitor_eq:
  assumes tab: "table_ok env" and w: "waits_ok env" and l: "set l \<subseteq> dom (env_btxs env)" and t: "t \<in> dom (env_btxs env)"
  shows "has_competitor env l t = Some (\<exists>a \<in> set l. (a, t) \<in> waits_for env)"
proof -
  obtain b where b: "env_btxs env t = Some b" using t by blast
  have "has_competitor env l t = Some ((\<exists>k \<in> set (btx_read_locks b). \<exists>a \<in> set l. a \<noteq> t \<and> waits_write env a k)
      \<or> (\<exists>k \<in> set (btx_write_locks b). \<exists>a \<in> set l. waits_write env a k \<or> waits_read env a k))"
    unfolding has_competitor_def b using l
    by (auto simp: find_custom_eq [OF competing_w_eq] find_custom_eq [OF competing_rw_eq])
  moreover have "k \<in> set (btx_read_locks b) \<longleftrightarrow> is_reader env k t" "k \<in> set (btx_write_locks b) \<longleftrightarrow> is_writer env k t" for k
    using tab b by (auto simp: table_ok_def btx_has_def split: option.splits)
  moreover have no_self: "\<not> (waits_write env t k \<and> is_reader env k t)" for k using tab w unfolding table_ok_def waits_ok_def by blast
  ultimately have "has_competitor env l t = Some (\<exists>a \<in> set l. \<exists>k. a \<noteq> t \<and> waits_write env a k \<and> is_reader env k t
      \<or> (waits_write env a k \<or> waits_read env a k) \<and> is_writer env k t)" by auto
  also have "(\<exists>a \<in> set l. \<exists>k. a \<noteq> t \<and> waits_write env a k \<and> is_reader env k t
      \<or> (waits_write env a k \<or> waits_read env a k) \<and> is_writer env k t) \<longleftrightarrow> (\<exists>a \<in> set l. (a, t) \<in> waits_for env)"
    unfolding waits_for_def mem_Collect_eq prod.case using no_self by metis
  finally show ?thesis .
qed

text \<open>Sets in which every transaction is waited for by another one of the set.\<close>

definition stuck :: "btree_environment \<Rightarrow> nat set \<Rightarrow> bool" where
  "stuck env S \<longleftrightarrow> (\<forall>t \<in> S. \<exists>a \<in> S. (a, t) \<in> waits_for env)"

definition waited_for :: "btree_environment \<Rightarrow> nat list \<Rightarrow> nat list \<Rightarrow> bool" where
  "waited_for env l ts \<longleftrightarrow> (\<forall>t \<in> set ts. \<exists>a \<in> set l. (a, t) \<in> waits_for env)"

lemma pass_result:
  assumes ok: "table_ok env" "waits_ok env"
    and "set l \<subseteq> dom (env_btxs env)" and "distinct l" and "l = pre @ p" and "waited_for env l pre"
  shows "\<exists>l' q' c'. lock_detect_pass env l p q c = Some (l', q', c') \<and> set l' \<subseteq> set l \<and> distinct l' \<and> waited_for env l' l'
    \<and> length q' + length l' = length q + length l \<and> (c \<longrightarrow> c') \<and> (c' \<longrightarrow> c \<or> length l' < length l)
    \<and> (\<forall>S. stuck env S \<longrightarrow> S \<subseteq> set l \<longrightarrow> S \<subseteq> set l')"
  using assms(3-)
proof (induction "length l * (length l + 1) + length p" arbitrary: l pre p q c rule: less_induct)
  case less
  show ?case
  proof (cases p)
    case Nil
    then show ?thesis using less.prems by (subst lock_detect_pass.simps) auto
  next
    case (Cons t rest)
    have t: "t \<in> dom (env_btxs env)" "t \<in> set l" using less.prems(1,3) Cons by auto
    note comp = has_competitor_eq [OF ok less.prems(1) t(1)]
    show ?thesis
    proof (cases "\<exists>a \<in> set l. (a, t) \<in> waits_for env")
      case True
      have step: "lock_detect_pass env l p q c = lock_detect_pass env l rest q c"
        using comp True Cons by (subst lock_detect_pass.simps) simp
      have "length l * (length l + 1) + length rest < length l * (length l + 1) + length p" using Cons by simp
      moreover have "l = (pre @ [t]) @ rest" using less.prems(3) Cons by simp
      moreover have "waited_for env l (pre @ [t])" using less.prems(4) True by (auto simp: waited_for_def)
      ultimately show ?thesis unfolding step using less.hyps [of l rest "pre @ [t]" q c] less.prems(1,2) by simp
    next
      case False
      let ?l = "remove1 t l"
      have step: "lock_detect_pass env l p q c = lock_detect_pass env ?l ?l (t # q) True"
        using comp False Cons by (subst lock_detect_pass.simps) auto
      have len: "length ?l = length l - 1" "0 < length l" using t(2) by (auto simp: length_remove1)
      then have "length ?l * (length ?l + 1) + length ?l < length l * (length l + 1) + length p"
        by (cases "length l") auto
      moreover have "set ?l \<subseteq> dom (env_btxs env)" "distinct ?l" using less.prems(1,2) by (auto dest: notin_set_remove1)
      moreover have "waited_for env ?l []" by (simp add: waited_for_def)
      ultimately obtain l' q' c' where r: "lock_detect_pass env ?l ?l (t # q) True = Some (l', q', c')" "set l' \<subseteq> set ?l" "distinct l'"
        "waited_for env l' l'" "length q' + length l' = length (t # q) + length ?l" "c'"
        "\<forall>S. stuck env S \<longrightarrow> S \<subseteq> set ?l \<longrightarrow> S \<subseteq> set l'"
        using less.hyps [of ?l ?l "[]" "t # q" True] by auto
      have set_l: "set ?l = set l - {t}" using less.prems(2) by simp
      have "S \<subseteq> set l'" if "stuck env S" "S \<subseteq> set l" for S
      proof -
        have "S \<subseteq> set ?l" using that False unfolding set_l stuck_def by blast
        then show ?thesis using r(7) that(1) by simp
      qed
      then have S: "\<forall>S. stuck env S \<longrightarrow> S \<subseteq> set l \<longrightarrow> S \<subseteq> set l'" by simp
      have sum: "length q' + length l' = length q + length l" using r(5) len by simp
      have "length l' < length l"
        using card_mono [OF _ r(2)] r(3) less.prems(2) len t(2) by (simp add: distinct_card [symmetric] set_l)
      then show ?thesis unfolding step using r(1-4,6) S sum set_l by auto
    qed
  qed
qed

lemma loop_result:
  assumes ok: "table_ok env" "waits_ok env" and "set l \<subseteq> dom (env_btxs env)" and "distinct l" and "\<not> c \<longrightarrow> waited_for env l l"
  shows "\<exists>l' q'. lock_detect_loop env l q c = Some q' \<and> set l' \<subseteq> set l \<and> waited_for env l' l'
    \<and> length q' + length l' = length q + length l \<and> (\<forall>S. stuck env S \<longrightarrow> S \<subseteq> set l \<longrightarrow> S \<subseteq> set l')"
  using assms(3-)
proof (induction "2 * length l + (if c then 1 else 0)" arbitrary: l q c rule: less_induct)
  case less
  show ?case
  proof (cases "l \<noteq> [] \<and> c")
    case False
    then have "lock_detect_loop env l q c = Some q" by (subst lock_detect_loop.simps) auto
    moreover have "waited_for env l l" using False less.prems(3) by (auto simp: waited_for_def)
    ultimately show ?thesis by blast
  next
    case True
    obtain l1 q1 c1 where p: "lock_detect_pass env l l q False = Some (l1, q1, c1)" "set l1 \<subseteq> set l" "distinct l1" "waited_for env l1 l1"
      "length q1 + length l1 = length q + length l" "c1 \<longrightarrow> length l1 < length l" "\<forall>S. stuck env S \<longrightarrow> S \<subseteq> set l \<longrightarrow> S \<subseteq> set l1"
      using pass_result [OF ok less.prems(1,2), of "[]" l q False] by (auto simp: waited_for_def)
    have "length l1 \<le> length l" using p(2,3) less.prems(2) by (metis card_mono distinct_card finite_set)
    then have "2 * length l1 + (if c1 then 1 else 0) < 2 * length l + (if c then 1 else 0)" using p(6) True by auto
    then obtain l' q' where r: "lock_detect_loop env l1 q1 c1 = Some q'" "set l' \<subseteq> set l1" "waited_for env l' l'"
      "length q' + length l' = length q1 + length l1" "\<forall>S. stuck env S \<longrightarrow> S \<subseteq> set l1 \<longrightarrow> S \<subseteq> set l'"
      using less.hyps [OF _ subset_trans [OF p(2) less.prems(1)] p(3)] p(4) by metis
    have "lock_detect_loop env l q c = Some q'" using True p(1) r(1) by (subst lock_detect_loop.simps) simp
    then show ?thesis using p r by (intro exI [of _ l'] exI [of _ q']) auto
  qed
qed

lemma btx_has_dom: "btx_has P env t \<Longrightarrow> t \<in> dom (env_btxs env)"
  by (auto simp: btx_has_def split: option.splits)

lemma waits_for_dom:
  assumes "table_ok env"
  shows "waits_for env \<subseteq> dom (env_btxs env) \<times> dom (env_btxs env)"
proof (intro subrelI SigmaI)
  fix t u
  assume "(t, u) \<in> waits_for env"
  then obtain l where l: "waits_write env t l \<or> waits_read env t l" "is_writer env l u \<or> is_reader env l u" by (auto simp: waits_for_def)
  have "holds_read env u l = is_reader env l u" "holds_write env u l = is_writer env l u" using assms unfolding table_ok_def by simp_all
  then show "t \<in> dom (env_btxs env)" "u \<in> dom (env_btxs env)" using l btx_has_dom by metis+
qed

text \<open>A set in which all wait for each other is a cycle, and the other way round.\<close>

lemma stuck_cyclic:
  assumes "finite (waits_for env)"
  shows "(\<exists>S. S \<noteq> {} \<and> stuck env S) \<longleftrightarrow> \<not> acyclic (waits_for env)"
proof
  assume "\<exists>S. S \<noteq> {} \<and> stuck env S"
  then obtain S where S: "S \<noteq> {}" "stuck env S" by blast
  show "\<not> acyclic (waits_for env)"
  proof
    assume "acyclic (waits_for env)"
    then have "wf (waits_for env)" by (rule finite_acyclic_wf [OF assms])
    then obtain m where "m \<in> S" "\<forall>y. (y, m) \<in> waits_for env \<longrightarrow> y \<notin> S" using S(1) by (metis wfE_min ex_in_conv)
    then show False using S(2) by (auto simp: stuck_def)
  qed
next
  assume "\<not> acyclic (waits_for env)"
  then obtain x where x: "(x, x) \<in> (waits_for env)\<^sup>+" by (auto simp: acyclic_def)
  let ?S = "{y. (x, y) \<in> (waits_for env)\<^sup>+ \<and> (y, x) \<in> (waits_for env)\<^sup>*}"
  have "\<exists>a \<in> ?S. (a, t) \<in> waits_for env" if "t \<in> ?S" for t
  proof -
    have xt: "(x, t) \<in> (waits_for env)\<^sup>+" and tx: "(t, x) \<in> (waits_for env)\<^sup>*" using that by auto
    then obtain a where a: "(x, a) \<in> (waits_for env)\<^sup>*" "(a, t) \<in> waits_for env" by (meson tranclD2)
    have "(x, a) \<in> (waits_for env)\<^sup>+" using x a(1) by (rule trancl_rtrancl_trancl)
    moreover have "(a, x) \<in> (waits_for env)\<^sup>*" using a(2) tx by (rule converse_rtrancl_into_rtrancl)
    ultimately show ?thesis using a(2) by blast
  qed
  then have "stuck env ?S" unfolding stuck_def by simp
  moreover have "?S \<noteq> {}" using x by auto
  ultimately show "\<exists>S. S \<noteq> {} \<and> stuck env S" by (intro exI conjI)
qed

lemma lock_detect_eq:
  assumes ok: "table_ok env" "waits_ok env" "lists_ok env"
  shows "lock_detect env = Some (\<not> acyclic (waits_for env))"
proof -
  let ?l = "env_transactions env"
  have l: "set ?l = dom (env_btxs env)" "distinct ?l" using ok(3) by (auto simp: lists_ok_def)
  obtain l' q' where r: "lock_detect_loop env ?l [] True = Some q'" "set l' \<subseteq> set ?l" "waited_for env l' l'"
    "length q' + length l' = length ?l" "\<forall>S. stuck env S \<longrightarrow> S \<subseteq> set ?l \<longrightarrow> S \<subseteq> set l'"
    using loop_result [OF ok(1,2), of ?l True "[]"] l by auto
  have sub: "waits_for env \<subseteq> set ?l \<times> set ?l" using waits_for_dom [OF ok(1)] l(1) by simp
  then have fin: "finite (waits_for env)" by (rule finite_subset) simp
  have "l' = [] \<longleftrightarrow> acyclic (waits_for env)"
  proof
    assume "l' = []"
    have "S = {}" if "stuck env S" for S
    proof -
      have "S \<subseteq> set ?l" using that sub unfolding stuck_def by blast
      then show ?thesis using r(5) that \<open>l' = []\<close> by simp
    qed
    then show "acyclic (waits_for env)" using stuck_cyclic [OF fin] by blast
  next
    assume "acyclic (waits_for env)"
    moreover have "stuck env (set l')" using r(3) by (simp add: stuck_def waited_for_def)
    ultimately show "l' = []" using stuck_cyclic [OF fin] by auto
  qed
  moreover have "length q' \<noteq> length ?l \<longleftrightarrow> l' \<noteq> []" using r(4) by (cases l') auto
  ultimately show ?thesis by (simp add: lock_detect_def r(1))
qed

section \<open>Changes of one transaction and one lock\<close>

abbreviation put :: "nat \<Rightarrow> btree_lock \<Rightarrow> nat \<Rightarrow> btree_transaction \<Rightarrow> btree_environment \<Rightarrow> btree_environment" where
  "put l lock t btx env \<equiv> put_lock l lock (put_btx t btx env)"

lemma put_same_lock: "env_locks env l = Some lock \<Longrightarrow> put l lock t btx env = put_btx t btx env"
  by (cases env) (simp add: put_lock_def put_btx_def fun_upd_idem)

lemma put_put [simp]: "put_btx t b' (put l lock t b env) = put l lock t b' env"
  by (simp add: put_lock_def put_btx_def)

lemma put_fields [simp]:
  "env_locks (put l lock t b env) = (env_locks env)(l \<mapsto> lock)" "env_btxs (put l lock t b env) = (env_btxs env)(t \<mapsto> b)"
  "env_transactions (put l lock t b env) = env_transactions env" "env_next (put l lock t b env) = env_next env"
  "env_now (put l lock t b env) = env_now env" "env_asleep (put l lock t b env) = env_asleep env"
  by (simp_all add: put_lock_def put_btx_def)

text \<open>How a transaction and a lock may change together.\<close>

definition agree :: "nat \<Rightarrow> btree_lock \<Rightarrow> btree_lock \<Rightarrow> nat \<Rightarrow> btree_transaction \<Rightarrow> btree_transaction \<Rightarrow> bool" where
  "agree l k0 k t b0 b \<longleftrightarrow>
     (\<forall>u. u \<noteq> t \<longrightarrow> (u \<in> set (lk_readers k)) = (u \<in> set (lk_readers k0)) \<and> (lk_writer k = Some u) = (lk_writer k0 = Some u))
     \<and> (\<forall>m. m \<noteq> l \<longrightarrow> (m \<in> set (btx_read_locks b)) = (m \<in> set (btx_read_locks b0))
            \<and> (m \<in> set (btx_write_locks b)) = (m \<in> set (btx_write_locks b0)))
     \<and> (l \<in> set (btx_read_locks b)) = (t \<in> set (lk_readers k)) \<and> (l \<in> set (btx_write_locks b)) = (lk_writer k = Some t)
     \<and> distinct (btx_read_locks b) \<and> distinct (btx_write_locks b) \<and> distinct (lk_readers k)
     \<and> (lk_writer k \<noteq> None \<longrightarrow> lk_readers k = [])"

lemma agree_has:
  assumes k0: "env_locks env l = Some k0" and b0: "env_btxs env t = Some b0" and ag: "agree l k0 k t b0 b"
  shows "u \<noteq> t \<Longrightarrow> is_reader (put l k t b env) m u = is_reader env m u"
    and "u \<noteq> t \<Longrightarrow> is_writer (put l k t b env) m u = is_writer env m u"
    and "m \<noteq> l \<Longrightarrow> holds_read (put l k t b env) u m = holds_read env u m"
    and "m \<noteq> l \<Longrightarrow> holds_write (put l k t b env) u m = holds_write env u m"
    and "holds_read (put l k t b env) t l = is_reader (put l k t b env) l t"
    and "holds_write (put l k t b env) t l = is_writer (put l k t b env) l t"
  using assms by (simp_all add: agree_def lock_has_def btx_has_def)

lemma table_ok_put:
  assumes tab: "table_ok env" and k0: "env_locks env l = Some k0" and b0: "env_btxs env t = Some b0" and ag: "agree l k0 k t b0 b"
  shows "table_ok (put l k t b env)"
proof -
  have old: "holds_read env u m = is_reader env m u" "holds_write env u m = is_writer env m u" for u m
    using tab unfolding table_ok_def by simp_all
  note has = agree_has [OF k0 b0 ag]
  have "holds_read (put l k t b env) u m = is_reader (put l k t b env) m u" for u m
  proof (cases "u = t")
    case True
    show ?thesis by (cases "m = l") (use has(3) [of m t] has(5) True old(1) [of m t] in simp_all)
  next
    case False
    have "holds_read (put l k t b env) u m = holds_read env u m" using False by simp
    then show ?thesis using has(1) [OF False] old(1) by simp
  qed
  moreover have "holds_write (put l k t b env) u m = is_writer (put l k t b env) m u" for u m
  proof (cases "u = t")
    case True
    show ?thesis by (cases "m = l") (use has(4) [of m t] has(6) True old(2) [of m t] in simp_all)
  next
    case False
    have "holds_write (put l k t b env) u m = holds_write env u m" using False by simp
    then show ?thesis using has(2) [OF False] old(2) by simp
  qed
  moreover have "distinct (btx_read_locks c) \<and> distinct (btx_write_locks c)" if "env_btxs (put l k t b env) u = Some c" for u c
    using that tab ag unfolding table_ok_def agree_def by (auto split: if_splits)
  moreover have "distinct (lk_readers c) \<and> (lk_writer c \<noteq> None \<longrightarrow> lk_readers c = [])" if "env_locks (put l k t b env) m = Some c" for m c
    using that tab ag unfolding table_ok_def agree_def by (auto split: if_splits)
  ultimately show ?thesis unfolding table_ok_def by blast
qed

lemma waits_ok_put:
  assumes "waits_ok env" and "env_locks env l \<noteq> None"
    and "\<And>m. waiting_to_write b = Some m \<or> waiting_to_read b = Some m
      \<Longrightarrow> env_locks env m \<noteq> None \<and> m \<notin> set (btx_read_locks b) \<and> m \<notin> set (btx_write_locks b)"
    and "waiting_to_write b = None \<or> waiting_to_read b = None"
  shows "waits_ok (put l k t b env)"
  using assms unfolding waits_ok_def by auto

lemma waits_on_has: "waits_on env l t \<longleftrightarrow> waits_write env t l \<or> waits_read env t l"
  by (auto simp: waits_on_def btx_has_def split: option.splits)

lemma lists_ok_put:
  assumes "lists_ok env" and "env_locks env l \<noteq> None" and "env_btxs env t \<noteq> None"
    and "t \<notin> set (env_asleep env) \<or> waiting_to_write b \<noteq> None \<or> waiting_to_read b \<noteq> None"
  shows "lists_ok (put l k t b env)"
proof -
  have "\<exists>m. waits_on (put l k t b env) m u" if "u \<in> set (env_asleep env)" for u
    using assms(1,4) that by (cases "u = t") (auto simp: lists_ok_def waits_on_has)
  then show ?thesis using assms by (auto simp: lists_ok_def)
qed

text \<open>What the other transactions wait for.\<close>

definition others :: "btree_environment \<Rightarrow> nat \<Rightarrow> (nat \<times> nat) set" where
  "others env t = {(u, v) \<in> waits_for env. u \<noteq> t}"

lemma others_put:
  assumes k0: "env_locks env l = Some k0" and b0: "env_btxs env t = Some b0" and ag: "agree l k0 k t b0 b"
    and e: "(u, v) \<in> others (put l k t b env) t"
  shows "(u, v) \<in> others env t \<or> v = t \<and> (t \<in> set (lk_readers k) \<or> lk_writer k = Some t)"
proof -
  have u: "u \<noteq> t" using e by (simp add: others_def)
  obtain m where m: "waits_write env u m \<and> (is_writer (put l k t b env) m v \<or> is_reader (put l k t b env) m v)
      \<or> waits_read env u m \<and> is_writer (put l k t b env) m v"
    using e u unfolding others_def waits_for_def by auto
  show ?thesis
  proof (cases "v = t \<and> m = l")
    case True
    then show ?thesis using m by auto
  next
    case False
    have "is_writer (put l k t b env) m v = is_writer env m v" "is_reader (put l k t b env) m v = is_reader env m v"
      using False agree_has(1,2) [OF k0 b0 ag, of v m] by (cases "v = t"; simp)+
    then show ?thesis using m u unfolding others_def waits_for_def by blast
  qed
qed

lemma acyclic_sink:
  assumes "acyclic r" and "\<And>u v. (u, v) \<in> s \<Longrightarrow> u \<noteq> t \<and> ((u, v) \<in> r \<or> v = t)"
  shows "acyclic s"
proof -
  have reach: "(u, v) \<in> s\<^sup>+ \<Longrightarrow> u \<noteq> t \<and> (v = t \<or> (u, v) \<in> r\<^sup>+)" for u v
    by (induction rule: trancl.induct) (use assms(2) in \<open>blast intro: trancl_into_trancl\<close>)+
  show ?thesis using reach assms(1) unfolding acyclic_def by blast
qed


section \<open>Every operation keeps the invariant\<close>

text \<open>A transaction that has stopped waiting, with the lock it has acquired or given up.\<close>

lemma idle_put_inv:
  assumes ok: "table_ok env" "waits_ok env" "lists_ok env" "acyclic (others env t)"
    and k0: "env_locks env l = Some k0" and b0: "env_btxs env t = Some b0" and ag: "agree l k0 k t b0 b"
    and idle: "waiting_to_write b = None" "waiting_to_read b = None" and asleep: "t \<notin> set (env_asleep env)"
  shows "locks_inv (put l k t b env)"
proof -
  have "table_ok (put l k t b env)" by (rule table_ok_put [OF ok(1) k0 b0 ag])
  moreover have "waits_ok (put l k t b env)" by (rule waits_ok_put [OF ok(2)]) (use k0 idle in simp_all)
  moreover have "lists_ok (put l k t b env)" by (rule lists_ok_put [OF ok(3)]) (use k0 b0 asleep in simp_all)
  moreover have "acyclic (waits_for (put l k t b env))"
  proof (rule acyclic_sink [OF ok(4)])
    fix u v
    assume e: "(u, v) \<in> waits_for (put l k t b env)"
    then have "u \<noteq> t" using idle unfolding waits_for_def by auto
    moreover have "(u, v) \<in> others env t \<or> v = t"
      using others_put [OF k0 b0 ag] e \<open>u \<noteq> t\<close> by (auto simp: others_def)
    ultimately show "u \<noteq> t \<and> ((u, v) \<in> others env t \<or> v = t)" by simp
  qed
  ultimately show ?thesis by (simp add: locks_inv_def)
qed

definition waits :: "bool \<Rightarrow> nat \<Rightarrow> btree_transaction \<Rightarrow> bool" where
  "waits write l btx \<longleftrightarrow> (if write then waiting_to_write btx = Some l \<and> waiting_to_read btx = None
     else waiting_to_read btx = Some l \<and> waiting_to_write btx = None)"

lemma waits_not_held:
  assumes "table_ok env" "waits_ok env" "env_btxs env t = Some b" "waits write l b"
  obtains k where "env_locks env l = Some k" "l \<notin> set (btx_read_locks b)" "l \<notin> set (btx_write_locks b)"
    "t \<notin> set (lk_readers k)" "lk_writer k \<noteq> Some t"
proof -
  have "waits_write env t l \<or> waits_read env t l" using assms(3,4) by (auto simp: btx_has_def waits_def split: if_splits)
  then have n: "env_locks env l \<noteq> None" "\<not> holds_read env t l" "\<not> holds_write env t l" using assms(2) unfolding waits_ok_def by blast+
  then obtain k where k: "env_locks env l = Some k" by blast
  have "\<not> is_reader env l t" "\<not> is_writer env l t" using n assms(1) unfolding table_ok_def by simp_all
  then show ?thesis using that [OF k] n k assms(3) by (simp add: btx_has_def lock_has_def)
qed

lemma agree_refl:
  assumes "table_ok env" "env_locks env l = Some k" "env_btxs env t = Some b0"
    "btx_read_locks b = btx_read_locks b0" "btx_write_locks b = btx_write_locks b0"
  shows "agree l k k t b0 b"
proof -
  have "holds_read env t l = is_reader env l t" "holds_write env t l = is_writer env l t" using assms(1) unfolding table_ok_def by simp_all
  moreover have "distinct (btx_read_locks b0)" "distinct (btx_write_locks b0)" "distinct (lk_readers k)"
    "lk_writer k \<noteq> None \<longrightarrow> lk_readers k = []" using assms(1-3) unfolding table_ok_def by blast+
  ultimately show ?thesis using assms(2-5) by (simp add: agree_def btx_has_def lock_has_def)
qed

definition idle_again :: "bool \<Rightarrow> btree_transaction \<Rightarrow> btree_transaction" where
  "idle_again write btx = (if write then btx\<lparr>waiting_to_write := None\<rparr> else btx\<lparr>waiting_to_read := None\<rparr>)"

lemma idle_again_fields [simp]:
  "btx_read_locks (idle_again write b) = btx_read_locks b" "btx_write_locks (idle_again write b) = btx_write_locks b"
  "waits write l b \<Longrightarrow> waiting_to_write (idle_again write b) = None" "waits write l b \<Longrightarrow> waiting_to_read (idle_again write b) = None"
  by (simp_all add: idle_again_def waits_def split: if_splits)

lemma tx_lock_leave_eq: "env_btxs env t = Some b \<Longrightarrow> tx_lock_leave t write env = Some (put_btx t (idle_again write b) env)"
  by (simp add: tx_lock_leave_def idle_again_def)

text \<open>The lock and the transaction after the lock was taken.\<close>

definition taken_lock :: "bool \<Rightarrow> nat \<Rightarrow> btree_lock \<Rightarrow> btree_lock" where
  "taken_lock write t k = (if write then k\<lparr>lk_writer := Some t\<rparr> else k\<lparr>lk_readers := t # lk_readers k\<rparr>)"

definition taken_btx :: "bool \<Rightarrow> nat \<Rightarrow> btree_transaction \<Rightarrow> btree_transaction" where
  "taken_btx write l b = (if write then b\<lparr>btx_write_locks := l # btx_write_locks b\<rparr> else b\<lparr>btx_read_locks := l # btx_read_locks b\<rparr>)"

definition lock_free_for :: "bool \<Rightarrow> btree_lock \<Rightarrow> bool" where
  "lock_free_for write k \<longleftrightarrow> lk_writer k = None \<and> (write \<longrightarrow> lk_readers k = [])"

lemma agree_taken:
  assumes "table_ok env" "env_locks env l = Some k" "env_btxs env t = Some b" "lock_free_for write k"
    "l \<notin> set (btx_read_locks b)" "l \<notin> set (btx_write_locks b)" "t \<notin> set (lk_readers k)"
  shows "agree l k (taken_lock write t k) t b (idle_again write (taken_btx write l b))"
proof -
  have "distinct (btx_read_locks b)" "distinct (btx_write_locks b)" "distinct (lk_readers k)" using assms(1-3) unfolding table_ok_def by blast+
  then show ?thesis
    using assms(4,5,6,7) by (cases "write = True") (simp_all add: agree_def taken_lock_def taken_btx_def lock_free_for_def)
qed

text \<open>What one run of the loop does.\<close>

lemma tx_lock_round_eq:
  assumes ok: "table_ok env" "waits_ok env" "lists_ok env"
    and k: "env_locks env l = Some k" and b: "env_btxs env t = Some b"
  shows "tx_lock_round l t write env = Some (
    if btx_end_time b \<le> env_now env then (put_btx t (idle_again write b) env, Lock_Failed Txn_Lock_Timeout)
    else if lock_free_for write k then (put l (taken_lock write t k) t (idle_again write (taken_btx write l b)) env, Lock_Acquired)
    else if acyclic (waits_for env) then (env\<lparr>env_asleep := t # env_asleep env\<rparr>, Lock_Waiting)
    else (put_btx t (idle_again write b) env, Lock_Failed Txn_Deadlock))"
proof -
  have attempt: "tx_lock_try l t write env = Some (
      if btx_end_time b \<le> env_now env then (env, Lock_Failed Txn_Lock_Timeout)
      else if lock_free_for write k then (put l (taken_lock write t k) t (taken_btx write l b) env, Lock_Acquired)
      else (env, if acyclic (waits_for env) then Lock_Waiting else Lock_Failed Txn_Deadlock))"
    using k b lock_detect_eq [OF ok] by (cases "write = True")
      (simp_all add: tx_lock_try_def check_tx_timeout_def lock_free_for_def taken_lock_def taken_btx_def not_less)
  have "tx_lock_leave t write (put l (taken_lock write t k) t (taken_btx write l b) env)
      = Some (put l (taken_lock write t k) t (idle_again write (taken_btx write l b)) env)"
    by (subst tx_lock_leave_eq) simp_all
  then show ?thesis using tx_lock_leave_eq [OF b] by (simp add: tx_lock_round_def attempt)
qed

lemma tx_lock_round_inv:
  assumes ok: "table_ok env" "waits_ok env" "lists_ok env" "acyclic (others env t)"
    and b: "env_btxs env t = Some b" and w: "waits write l b" and asleep: "t \<notin> set (env_asleep env)"
  shows "\<exists>env' outcome. tx_lock_round l t write env = Some (env', outcome) \<and> locks_inv env'"
proof -
  obtain k where k: "env_locks env l = Some k" and n: "l \<notin> set (btx_read_locks b)" "l \<notin> set (btx_write_locks b)" "t \<notin> set (lk_readers k)"
    by (rule waits_not_held [OF ok(1,2) b w])
  note idle = idle_put_inv [OF ok k b _ _ _ asleep]
  have w': "waits write l (taken_btx write l b)" using w by (simp add: waits_def taken_btx_def)
  have given_up: "locks_inv (put_btx t (idle_again write b) env)"
    using idle [OF agree_refl [OF ok(1) k b]] w by (simp add: put_same_lock [OF k])
  have taken: "locks_inv (put l (taken_lock write t k) t (idle_again write (taken_btx write l b)) env)" if "lock_free_for write k"
    using idle [OF agree_taken [OF ok(1) k b that n]] w' by simp
  have "waits_on env l t" using w b by (auto simp: waits_on_has btx_has_def waits_def split: if_splits)
  then have "lists_ok (env\<lparr>env_asleep := t # env_asleep env\<rparr>)" using ok(3) by (auto simp: lists_ok_def waits_on_has)
  moreover have "table_ok (env\<lparr>env_asleep := t # env_asleep env\<rparr>)" using ok(1) by (simp add: table_ok_def)
  moreover have "waits_ok (env\<lparr>env_asleep := t # env_asleep env\<rparr>)" using ok(2) by (simp add: waits_ok_def)
  ultimately have wait: "locks_inv (env\<lparr>env_asleep := t # env_asleep env\<rparr>)" if "acyclic (waits_for env)"
    using that by (simp add: locks_inv_def waits_for_def)
  show ?thesis using given_up taken wait by (simp add: tx_lock_round_eq [OF ok(1-3) k b])
qed

text \<open>A transaction that begins to wait.\<close>

lemma waiting_put_inv:
  assumes inv: "locks_inv env" and k0: "env_locks env l = Some k0" and b0: "env_btxs env t = Some b0" and ag: "agree l k0 k t b0 b"
    and w: "waits write l b" and n: "l \<notin> set (btx_read_locks b)" "l \<notin> set (btx_write_locks b)"
    and less: "t \<in> set (lk_readers k) \<or> lk_writer k = Some t \<Longrightarrow> False"
  shows "table_ok (put l k t b env)" "waits_ok (put l k t b env)" "lists_ok (put l k t b env)" "acyclic (others (put l k t b env) t)"
proof -
  note ok = inv [unfolded locks_inv_def]
  show "table_ok (put l k t b env)" using table_ok_put [OF _ k0 b0 ag] ok by simp
  show "waits_ok (put l k t b env)"
    by (rule waits_ok_put) (use ok k0 w n in \<open>auto simp: waits_def split: if_splits\<close>)
  show "lists_ok (put l k t b env)" by (rule lists_ok_put) (use ok k0 b0 w in \<open>auto simp: waits_def split: if_splits\<close>)
  have "others (put l k t b env) t \<subseteq> waits_for env"
    using others_put [OF k0 b0 ag] less by (fastforce simp: others_def)
  then show "acyclic (others (put l k t b env) t)" using ok by (meson acyclic_subset)
qed

text \<open>The read lock that a transaction gives up.\<close>

definition no_reader :: "nat \<Rightarrow> btree_lock \<Rightarrow> btree_lock" where
  "no_reader t k = k\<lparr>lk_readers := remove1 t (lk_readers k)\<rparr>"

definition no_read_lock :: "nat \<Rightarrow> btree_transaction \<Rightarrow> btree_transaction" where
  "no_read_lock l b = b\<lparr>btx_read_locks := remove1 l (btx_read_locks b)\<rparr>"

lemma table_here:
  assumes "table_ok env" "env_locks env l = Some k" "env_btxs env t = Some b"
  shows "t \<in> set (lk_readers k) \<longleftrightarrow> l \<in> set (btx_read_locks b)" "lk_writer k = Some t \<longleftrightarrow> l \<in> set (btx_write_locks b)"
    "distinct (btx_read_locks b)" "distinct (btx_write_locks b)" "distinct (lk_readers k)" "lk_writer k \<noteq> None \<Longrightarrow> lk_readers k = []"
proof -
  have "holds_read env t l = is_reader env l t" "holds_write env t l = is_writer env l t" using assms(1) unfolding table_ok_def by simp_all
  then show "t \<in> set (lk_readers k) \<longleftrightarrow> l \<in> set (btx_read_locks b)" "lk_writer k = Some t \<longleftrightarrow> l \<in> set (btx_write_locks b)"
    using assms(2,3) by (simp_all add: btx_has_def lock_has_def)
  show "distinct (btx_read_locks b)" "distinct (btx_write_locks b)" "distinct (lk_readers k)" "lk_writer k \<noteq> None \<Longrightarrow> lk_readers k = []"
    using assms unfolding table_ok_def by blast+
qed

lemma agree_no_reader:
  assumes tab: "table_ok env" "env_locks env l = Some k" "env_btxs env t = Some b" and "l \<in> set (btx_read_locks b)"
    and "btx_read_locks b' = remove1 l (btx_read_locks b)" "btx_write_locks b' = btx_write_locks b"
  shows "agree l k (no_reader t k) t b b'"
  using assms(4-6) table_here [OF tab] by (auto simp: agree_def no_reader_def dest: notin_set_remove1)

lemma tx_lock_inv:
  assumes inv: "locks_inv env" and k: "env_locks env l = Some k" and b: "env_btxs env t = Some b"
    and idle: "waiting_to_write b = None" "waiting_to_read b = None"
  shows "\<exists>env' outcome. tx_lock l t write env = Some (env', outcome) \<and> locks_inv env'"
proof -
  note ok = inv [unfolded locks_inv_def]
  note here = table_here [OF _ k b]
  have asleep: "t \<notin> set (env_asleep env)" using ok idle b by (auto simp: lists_ok_def waits_on_has btx_has_def)
  have go: "\<exists>env' outcome. tx_lock_round l t write (put l k' t b' env) = Some (env', outcome) \<and> locks_inv env'"
    if "agree l k k' t b b'" "waits write l b'" "l \<notin> set (btx_read_locks b')" "l \<notin> set (btx_write_locks b')"
      "t \<in> set (lk_readers k') \<or> lk_writer k' = Some t \<Longrightarrow> False" for k' b'
    using tx_lock_round_inv [OF waiting_put_inv [OF inv k b that]] that(2) asleep by simp
  show ?thesis
  proof (cases "lk_writer k = Some t \<or> \<not> write \<and> l \<in> set (btx_read_locks b)")
    case True
    have "idle_again write b = b" using idle by (cases b) (simp add: idle_again_def)
    moreover have "put_btx t b env = env" using b by (cases env) (simp add: put_btx_def fun_upd_idem)
    moreover have "tx_lock_enter l t write env = Some (env, False)"
      using True k b idle by (cases "write = True") (auto simp: tx_lock_enter_def)
    ultimately have "tx_lock l t write env = Some (env, Lock_Acquired)" by (simp add: tx_lock_def tx_lock_leave_eq [OF b])
    then show ?thesis using inv by blast
  next
    case False
    show ?thesis
    proof (cases "write \<and> l \<in> set (btx_read_locks b)")
      case True
      let ?b = "no_read_lock l (b\<lparr>waiting_to_write := Some l\<rparr>)"
      have "tx_lock l t write env = tx_lock_round l t write (put l (no_reader t k) t ?b env)"
        using True False k b idle here(1) ok by (simp add: tx_lock_def tx_lock_enter_def no_reader_def no_read_lock_def)
      moreover have "agree l k (no_reader t k) t b ?b" using agree_no_reader [OF _ k b] True ok by (simp add: no_read_lock_def)
      ultimately show ?thesis using go [of "no_reader t k" ?b] True False idle here ok
        by (simp add: waits_def no_read_lock_def no_reader_def)
    next
      case nu: False
      let ?b = "if write then b\<lparr>waiting_to_write := Some l\<rparr> else b\<lparr>waiting_to_read := Some l\<rparr>"
      have "tx_lock l t write env = tx_lock_round l t write (put l k t ?b env)"
        using nu False k b idle by (cases "write = True") (simp_all add: tx_lock_def tx_lock_enter_def put_same_lock [OF k])
      moreover have "agree l k k t b ?b" using agree_refl [OF _ k b] ok by simp
      moreover have "waits write l ?b" "btx_read_locks ?b = btx_read_locks b" "btx_write_locks ?b = btx_write_locks b"
        using idle by (simp_all add: waits_def)
      moreover have "l \<notin> set (btx_read_locks b)" "l \<notin> set (btx_write_locks b)" using nu False here(2) ok by auto
      ultimately show ?thesis using go [of k ?b] here(1,2) ok by simp
    qed
  qed
qed

lemma tx_lock_resume_inv:
  assumes inv: "locks_inv env" and b: "env_btxs env t = Some b" and w: "waits write l b"
  shows "\<exists>env' outcome. tx_lock_resume t env = Some (env', outcome) \<and> locks_inv env'"
proof -
  let ?env = "env\<lparr>env_asleep := removeAll t (env_asleep env)\<rparr>"
  note ok = inv [unfolded locks_inv_def]
  have "table_ok ?env" using ok by (simp add: table_ok_def)
  moreover have "waits_ok ?env" using ok by (simp add: waits_ok_def)
  moreover have "lists_ok ?env" using ok by (auto simp: lists_ok_def waits_on_has)
  moreover have "others ?env t \<subseteq> waits_for env" by (auto simp: others_def waits_for_def)
  then have "acyclic (others ?env t)" using ok by (meson acyclic_subset)
  ultimately have "\<exists>env' outcome. tx_lock_round l t write ?env = Some (env', outcome) \<and> locks_inv env'"
    by (rule tx_lock_round_inv [OF _ _ _ _ _ w]) (use b in simp_all)
  moreover have "tx_lock_resume t env = tx_lock_round l t write ?env"
    using b w by (cases "write = True") (simp_all add: tx_lock_resume_def waits_def)
  ultimately show ?thesis by simp
qed

lemma broadcast_inv: "locks_inv env \<Longrightarrow> locks_inv (g_cond_broadcast l env)"
  by (auto simp: locks_inv_def g_cond_broadcast_def table_ok_def waits_ok_def lists_ok_def waits_for_def waits_on_has)

lemma tx_unlock_inv:
  assumes inv: "locks_inv env" and k: "env_locks env l = Some k" and b: "env_btxs env t = Some b"
    and idle: "waiting_to_write b = None" "waiting_to_read b = None"
    and h: "l \<in> set (btx_read_locks b) \<or> l \<in> set (btx_write_locks b)"
  shows "\<exists>env'. tx_unlock l t env = Some env' \<and> locks_inv env'"
proof -
  note ok = inv [unfolded locks_inv_def]
  have tab: "table_ok env" using ok by simp
  note here = table_here [OF tab k b]
  have asleep: "t \<notin> set (env_asleep env)" using ok idle b by (auto simp: lists_ok_def waits_on_has btx_has_def)
  have "acyclic (others env t)" using ok by (auto simp: others_def intro: acyclic_subset)
  then have go: "locks_inv (put l k' t b' env)" if "agree l k k' t b b'" "waiting_to_write b' = None" "waiting_to_read b' = None" for k' b'
    using idle_put_inv [OF _ _ _ _ k b that asleep] ok by simp
  show ?thesis
  proof (cases "lk_writer k = Some t")
    case True
    let ?k = "k\<lparr>lk_writer := None\<rparr>" and ?b = "b\<lparr>btx_write_locks := remove1 l (btx_write_locks b)\<rparr>"
    have "agree l k ?k t b ?b" using True here by (auto simp: agree_def)
    then have "locks_inv (put l ?k t ?b env)" using go idle by simp
    moreover have "tx_unlock l t env = Some (g_cond_broadcast l (put l ?k t ?b env))" using True here k b by (simp add: tx_unlock_def)
    ultimately show ?thesis using broadcast_inv by blast
  next
    case False
    let ?b = "no_read_lock l b"
    have r: "l \<in> set (btx_read_locks b)" using False h here(2) by simp
    have "agree l k (no_reader t k) t b ?b" using agree_no_reader [OF tab k b r] by (simp add: no_read_lock_def)
    then have "locks_inv (put l (no_reader t k) t ?b env)" using go idle by (simp add: no_read_lock_def)
    moreover have "tx_unlock l t env = Some (g_cond_broadcast l (put l (no_reader t k) t ?b env))"
      using False r here(1) k b by (simp add: tx_unlock_def no_read_lock_def no_reader_def)
    ultimately show ?thesis using broadcast_inv by blast
  qed
qed

lemma btree_lock_new_inv:
  assumes inv: "locks_inv env"
  shows "locks_inv (fst (btree_lock_new env))"
proof -
  let ?l = "env_next env" and ?env = "fst (btree_lock_new env)"
  note ok = inv [unfolded locks_inv_def]
  have fresh: "env_locks env ?l = None" using ok by (auto simp: lists_ok_def)
  have b [simp]: "btx_has P ?env t = btx_has P env t" for P t by (simp add: btx_has_def btree_lock_new_def)
  have l [simp]: "is_reader ?env l t = is_reader env l t" "is_writer ?env l t = is_writer env l t" for l t
    using fresh by (simp_all add: lock_has_def btree_lock_new_def)
  have "table_ok ?env" using ok unfolding table_ok_def b l by (auto simp: btree_lock_new_def)
  moreover have "waits_ok ?env" using ok unfolding waits_ok_def b by (auto simp: btree_lock_new_def)
  moreover have "lists_ok ?env" using ok unfolding lists_ok_def waits_on_has b by (auto simp: btree_lock_new_def intro: less_SucI)
  moreover have "waits_for ?env = waits_for env" by (simp add: waits_for_def)
  ultimately show ?thesis using ok by (simp add: locks_inv_def)
qed

lemma create_transaction_inv:
  assumes inv: "locks_inv env"
  shows "locks_inv (fst (create_transaction end_time env))"
proof -
  let ?t = "env_next env" and ?env = "fst (create_transaction end_time env)"
  note ok = inv [unfolded locks_inv_def]
  have fresh: "env_btxs env ?t = None" using ok by (auto simp: lists_ok_def)
  have l [simp]: "lock_has P ?env l = lock_has P env l" for P l by (simp add: lock_has_def create_transaction_def Let_def)
  have b [simp]: "holds_read ?env t l = holds_read env t l" "holds_write ?env t l = holds_write env t l"
    "waits_write ?env t l = waits_write env t l" "waits_read ?env t l = waits_read env t l" for t l
    using fresh by (simp_all add: btx_has_def create_transaction_def Let_def)
  have "table_ok ?env" using ok unfolding table_ok_def b l by (auto simp: create_transaction_def Let_def)
  moreover have "waits_ok ?env" using ok unfolding waits_ok_def b by (auto simp: create_transaction_def Let_def)
  moreover have "lists_ok ?env" using ok fresh unfolding lists_ok_def waits_on_has b by (auto simp: create_transaction_def Let_def intro: less_SucI)
  moreover have "waits_for ?env = waits_for env" by (simp add: waits_for_def)
  ultimately show ?thesis using ok by (simp add: locks_inv_def)
qed

lemma cleanup_inv:
  assumes inv: "locks_inv env" and b: "env_btxs env t = Some b"
    and idle: "waiting_to_write b = None" "waiting_to_read b = None" and no: "btx_read_locks b = []" "btx_write_locks b = []"
  shows "\<exists>env'. cleanup_btree_transaction t env = Some env' \<and> locks_inv env'"
proof -
  let ?env = "env\<lparr>env_transactions := remove1 t (env_transactions env), env_btxs := (env_btxs env)(t := None)\<rparr>"
  note ok = inv [unfolded locks_inv_def]
  have mem: "t \<in> set (env_transactions env)" using ok b by (auto simp: lists_ok_def)
  have l [simp]: "lock_has P ?env l = lock_has P env l" for P l by (simp add: lock_has_def)
  have b [simp]: "holds_read ?env u l = holds_read env u l" "holds_write ?env u l = holds_write env u l"
    "waits_write ?env u l = waits_write env u l" "waits_read ?env u l = waits_read env u l" for u l
    using b idle no by (simp_all add: btx_has_def)
  have "table_ok ?env" using ok unfolding table_ok_def b l by auto
  moreover have "waits_ok ?env" using ok unfolding waits_ok_def b by auto
  moreover have "lists_ok ?env" using ok unfolding lists_ok_def waits_on_has b by auto
  moreover have "waits_for ?env = waits_for env" by (simp add: waits_for_def)
  ultimately show ?thesis using ok mem by (simp add: locks_inv_def cleanup_btree_transaction_def)
qed

section \<open>References to locks\<close>

fun call_lock :: "lock_call \<Rightarrow> nat" where
  "call_lock (Referenced node l write) = l"
| "call_lock (Returned node l success) = l"
| "call_lock (Detached l) = l"

definition refers :: "btree_environment \<Rightarrow> nat \<Rightarrow> nat \<Rightarrow> bool" where
  "refers env t l \<longleftrightarrow> map_option call_lock (env_calls env t) = Some l"

definition in_table :: "btree_environment \<Rightarrow> nat \<Rightarrow> bool" where
  "in_table env l \<longleftrightarrow> l \<in> ran (env_lock_table env)"

definition refs :: "btree_environment \<Rightarrow> nat \<Rightarrow> nat" where
  "refs env l = (if in_table env l then 1 else 0) + card {t. refers env t l}"

text \<open>A transaction waits for the lock it has referenced, or for the lock of a tree.\<close>

definition may_wait :: "btree_environment \<Rightarrow> nat \<Rightarrow> nat \<Rightarrow> bool" where
  "may_wait env t l \<longleftrightarrow>
     (case env_calls env t of None \<Rightarrow> l \<in> set (env_tree_locks env) | Some (Referenced node l' write) \<Rightarrow> l' = l | _ \<Rightarrow> False)"

text \<open>
  What is referenced and not freed agrees with the counts: nodes have locks of their own, which are not those of
  trees, and the count of the lock of a node is the number of references to it.
\<close>

definition calls_ok :: "btree_environment \<Rightarrow> bool" where
  "calls_ok env \<longleftrightarrow> (\<forall>t l. waits_on env l t \<longrightarrow> may_wait env t l) \<and> dom (env_calls env) \<subseteq> dom (env_btxs env)
     \<and> inj_on (env_lock_table env) (dom (env_lock_table env))
     \<and> (\<forall>l \<in> set (env_tree_locks env). env_locks env l \<noteq> None \<and> \<not> in_table env l \<and> (\<forall>t. \<not> refers env t l))
     \<and> (\<forall>l. in_table env l \<or> (\<exists>t. refers env t l) \<longrightarrow> env_locks env l \<noteq> None)
     \<and> (\<forall>l lock. env_locks env l = Some lock \<longrightarrow> l \<notin> set (env_tree_locks env) \<longrightarrow> lk_ref_count lock = refs env l)"

definition node_locks_inv :: "btree_environment \<Rightarrow> bool" where
  "node_locks_inv env \<longleftrightarrow> locks_inv env \<and> calls_ok env"

text \<open>What locking and unlocking by a transaction leave as it is.\<close>

definition keeps :: "nat \<Rightarrow> btree_environment \<Rightarrow> btree_environment \<Rightarrow> bool" where
  "keeps t env env' \<longleftrightarrow> env_lock_table env' = env_lock_table env \<and> env_tree_locks env' = env_tree_locks env \<and> env_calls env' = env_calls env
     \<and> (\<forall>l. map_option lk_ref_count (env_locks env' l) = map_option lk_ref_count (env_locks env l))
     \<and> dom (env_btxs env') = dom (env_btxs env) \<and> (\<forall>u. u \<noteq> t \<longrightarrow> env_btxs env' u = env_btxs env u)"

lemma keeps_refl [simp]: "keeps t env env"
  by (simp add: keeps_def)

lemma keeps_trans: "keeps t env env1 \<Longrightarrow> keeps t env1 env2 \<Longrightarrow> keeps t env env2"
  by (simp add: keeps_def)

lemma keeps_put_btx: "env_btxs env t = Some b \<Longrightarrow> keeps t env (put_btx t b' env)"
  by (auto simp: keeps_def put_btx_def)

lemma keeps_put_lock: "env_locks env l = Some k \<Longrightarrow> lk_ref_count k' = lk_ref_count k \<Longrightarrow> keeps t env (put_lock l k' env)"
  by (auto simp: keeps_def put_lock_def)

lemma keeps_put:
  assumes "env_locks env l = Some k" "lk_ref_count k' = lk_ref_count k" "env_btxs env t = Some b"
  shows "keeps t env (put l k' t b' env)"
  by (rule keeps_trans [OF keeps_put_btx keeps_put_lock]) (use assms in \<open>simp_all add: put_btx_def\<close>)

lemma keeps_asleep [simp]: "keeps t env (env\<lparr>env_asleep := ts\<rparr>)"
  by (simp add: keeps_def)

definition only_waits :: "nat \<Rightarrow> nat \<Rightarrow> btree_environment \<Rightarrow> bool" where
  "only_waits t l env \<longleftrightarrow> (\<forall>m. waits_on env m t \<longrightarrow> m = l)"

lemma only_waits_simps [simp]:
  "only_waits t l (put k lock t b env) \<longleftrightarrow> (\<forall>m. waiting_to_write b = Some m \<or> waiting_to_read b = Some m \<longrightarrow> m = l)"
  "only_waits t l (put_btx t b env) \<longleftrightarrow> (\<forall>m. waiting_to_write b = Some m \<or> waiting_to_read b = Some m \<longrightarrow> m = l)"
  "only_waits t l (env\<lparr>env_asleep := ts\<rparr>) \<longleftrightarrow> only_waits t l env"
  by (simp_all add: only_waits_def waits_on_has)

lemma only_waits_btx:
  "env_btxs env t = Some b \<Longrightarrow> only_waits t l env \<longleftrightarrow> (\<forall>m. waiting_to_write b = Some m \<or> waiting_to_read b = Some m \<longrightarrow> m = l)"
  by (simp add: only_waits_def waits_on_has btx_has_def)

lemma enter_keeps:
  assumes "tx_lock_enter l t write env = Some (env', needs)"
  shows "keeps t env env' \<and> only_waits t l env'"
proof -
  obtain k b where kb: "env_locks env l = Some k" "env_btxs env t = Some b" "waiting_to_write b = None" "waiting_to_read b = None"
    using assms by (auto simp: tx_lock_enter_def bind_eq_Some_conv split: if_splits)
  then show ?thesis using assms keeps_put [OF kb(1) _ kb(2)] keeps_put_btx [OF kb(2)]
    by (auto simp: tx_lock_enter_def Let_def only_waits_btx split: if_splits)
qed

lemma try_keeps:
  assumes "tx_lock_try l t write env = Some (env', outcome)" "only_waits t l env"
  shows "keeps t env env' \<and> only_waits t l env'"
proof -
  obtain k b where kb: "env_locks env l = Some k" "env_btxs env t = Some b"
    using assms by (auto simp: tx_lock_try_def bind_eq_Some_conv)
  then show ?thesis using assms keeps_put [OF kb(1) _ kb(2)]
    by (auto simp: tx_lock_try_def only_waits_btx bind_eq_Some_conv split: if_splits)
qed

lemma leave_keeps:
  assumes "tx_lock_leave t write env = Some env'" "only_waits t l env"
  shows "keeps t env env' \<and> only_waits t l env'"
proof -
  obtain b where b: "env_btxs env t = Some b" using assms by (auto simp: tx_lock_leave_def bind_eq_Some_conv)
  then show ?thesis using assms keeps_put_btx [OF b] by (auto simp: tx_lock_leave_def only_waits_btx split: if_splits)
qed

lemma round_keeps:
  assumes "tx_lock_round l t write env = Some (env', outcome)" "only_waits t l env"
  shows "keeps t env env' \<and> only_waits t l env'"
proof -
  obtain env1 where 1: "tx_lock_try l t write env = Some (env1, outcome)"
    "if outcome = Lock_Waiting then env' = env1\<lparr>env_asleep := t # env_asleep env1\<rparr> else tx_lock_leave t write env1 = Some env'"
    using assms(1) by (auto simp: tx_lock_round_def bind_eq_Some_conv split: if_splits prod.splits)
  note k1 = try_keeps [OF 1(1) assms(2)]
  show ?thesis
  proof (cases "outcome = Lock_Waiting")
    case True
    then show ?thesis using 1(2) k1 by (auto simp: keeps_def)
  next
    case False
    then show ?thesis using 1(2) k1 leave_keeps [of t _ env1 env' l] keeps_trans by auto
  qed
qed

lemma tx_lock_keeps:
  assumes "tx_lock l t write env = Some (env', outcome)"
  shows "keeps t env env' \<and> only_waits t l env'"
proof -
  obtain env1 needs where 1: "tx_lock_enter l t write env = Some (env1, needs)"
    "if needs then tx_lock_round l t write env1 = Some (env', outcome) else tx_lock_leave t write env1 = Some env'"
    using assms by (auto simp: tx_lock_def bind_eq_Some_conv split: if_splits)
  note k1 = enter_keeps [OF 1(1)]
  show ?thesis using 1(2) k1 round_keeps [of l t _ env1 env' outcome] leave_keeps [of t _ env1 env' l] keeps_trans
    by (auto split: if_splits)
qed

lemma tx_lock_resume_keeps:
  assumes "tx_lock_resume t env = Some (env', outcome)" "env_btxs env t = Some b" "waits write l b"
  shows "keeps t env env' \<and> only_waits t l env'"
proof -
  let ?env = "env\<lparr>env_asleep := removeAll t (env_asleep env)\<rparr>"
  have "tx_lock_round l t write ?env = Some (env', outcome)"
    using assms by (cases "write = True") (simp_all add: tx_lock_resume_def waits_def)
  moreover have "only_waits t l ?env" using assms(2,3) by (auto simp: only_waits_btx waits_def split: if_splits)
  ultimately show ?thesis using round_keeps keeps_trans [OF keeps_asleep] by blast
qed

lemma tx_unlock_keeps:
  assumes "tx_unlock l t env = Some env'"
  shows "keeps t env env' \<and> (\<forall>m. waits_on env' m t \<longleftrightarrow> waits_on env m t)"
proof -
  obtain k b where kb: "env_locks env l = Some k" "env_btxs env t = Some b" using assms by (auto simp: tx_unlock_def bind_eq_Some_conv)
  then obtain k' b' where p: "env' = g_cond_broadcast l (put l k' t b' env)" "lk_ref_count k' = lk_ref_count k"
    "waiting_to_write b' = waiting_to_write b" "waiting_to_read b' = waiting_to_read b"
    using assms by (auto simp: tx_unlock_def split: if_splits)
  have "keeps t (put l k' t b' env) env'" by (simp add: p(1) g_cond_broadcast_def)
  then show ?thesis using keeps_trans [OF keeps_put [OF kb(1) p(2) kb(2), of b']] p(3,4) kb(2)
    by (simp add: p(1) waits_on_has g_cond_broadcast_def btx_has_def)
qed

text \<open>Changes of the counts, the lock table and the calls.\<close>

definition same_locks :: "btree_environment \<Rightarrow> btree_environment \<Rightarrow> bool" where
  "same_locks env env' \<longleftrightarrow> env_btxs env' = env_btxs env \<and> env_transactions env' = env_transactions env \<and> env_next env' = env_next env
     \<and> env_asleep env' = env_asleep env
     \<and> (\<forall>l. map_option (\<lambda>k. (lk_writer k, lk_readers k)) (env_locks env' l) = map_option (\<lambda>k. (lk_writer k, lk_readers k)) (env_locks env l))"

lemma same_locks_has:
  assumes "same_locks env env'"
  shows "btx_has P env' t = btx_has P env t" and "is_reader env' l t = is_reader env l t" and "is_writer env' l t = is_writer env l t"
    and "env_locks env' l = None \<longleftrightarrow> env_locks env l = None"
proof -
  have l: "map_option (\<lambda>k. (lk_writer k, lk_readers k)) (env_locks env' l) = map_option (\<lambda>k. (lk_writer k, lk_readers k)) (env_locks env l)"
    using assms by (simp add: same_locks_def)
  show "btx_has P env' t = btx_has P env t" using assms by (simp add: same_locks_def btx_has_def)
  show "is_reader env' l t = is_reader env l t" "is_writer env' l t = is_writer env l t" "env_locks env' l = None \<longleftrightarrow> env_locks env l = None"
    using l by (cases "env_locks env l"; cases "env_locks env' l"; simp add: lock_has_def)+
qed

lemma locks_inv_same:
  assumes "same_locks env env'" "locks_inv env"
  shows "locks_inv env'"
proof -
  note has = same_locks_has [OF assms(1)]
  have f: "env_btxs env' = env_btxs env" "env_transactions env' = env_transactions env" "env_next env' = env_next env" "env_asleep env' = env_asleep env"
    using assms(1) by (simp_all add: same_locks_def)
  have lists: "distinct (lk_readers k) \<and> (lk_writer k \<noteq> None \<longrightarrow> lk_readers k = [])" if "env_locks env' l = Some k" for l k
  proof -
    have "map_option (\<lambda>k. (lk_writer k, lk_readers k)) (env_locks env l) = Some (lk_writer k, lk_readers k)"
      using assms(1) that unfolding same_locks_def by (metis option.simps(9))
    then obtain k0 where "env_locks env l = Some k0" "lk_writer k0 = lk_writer k" "lk_readers k0 = lk_readers k" by auto
    then show ?thesis using assms(2) unfolding locks_inv_def table_ok_def by metis
  qed
  have dom: "dom (env_locks env') = dom (env_locks env)" using has(4) by (auto simp: dom_def)
  have "table_ok env'" using assms(2) lists unfolding locks_inv_def table_ok_def has f by blast
  moreover have "waits_ok env'" using assms(2) unfolding locks_inv_def waits_ok_def has by blast
  moreover have "lists_ok env'" using assms(2) unfolding locks_inv_def lists_ok_def waits_on_has has f dom by blast
  moreover have "waits_for env' = waits_for env" by (simp add: waits_for_def has)
  ultimately show ?thesis using assms(2) by (simp add: locks_inv_def)
qed

lemma same_locks_simps [simp]:
  "same_locks env (set_call t c env)" "same_locks env (env\<lparr>env_lock_table := m\<rparr>)" "same_locks env (lock_inc l env)"
  by (auto simp: same_locks_def set_call_def lock_inc_def option.map_comp comp_def)

lemma set_call_fields [simp]:
  "env_locks (set_call t c env) = env_locks env" "env_btxs (set_call t c env) = env_btxs env"
  "env_lock_table (set_call t c env) = env_lock_table env" "env_tree_locks (set_call t c env) = env_tree_locks env"
  "env_calls (set_call t c env) = (env_calls env)(t := c)" "waits_on (set_call t c env) l u = waits_on env l u"
  by (simp_all add: set_call_def waits_on_def)

lemma lock_inc_fields [simp]:
  "env_btxs (lock_inc l env) = env_btxs env" "env_lock_table (lock_inc l env) = env_lock_table env"
  "env_tree_locks (lock_inc l env) = env_tree_locks env" "env_calls (lock_inc l env) = env_calls env"
  "waits_on (lock_inc l env) m u = waits_on env m u"
  "env_locks (lock_inc l env) = (env_locks env)(l := map_option (lk_ref_count_update Suc) (env_locks env l))"
  by (simp_all add: lock_inc_def waits_on_def)

lemma refers_set_call: "refers (set_call t c env) u l \<longleftrightarrow> (if u = t then map_option call_lock c = Some l else refers env u l)"
  by (simp add: refers_def)

lemma may_wait_cong:
  "env_calls env' t = env_calls env t \<Longrightarrow> env_tree_locks env' = env_tree_locks env \<Longrightarrow> may_wait env' t l = may_wait env t l"
  by (cases "env_calls env t") (simp_all add: may_wait_def)

lemma may_wait_others:
  assumes "calls_ok env" "\<And>m. \<not> waits_on env m t" "\<And>m u. waits_on env' m u = waits_on env m u"
    "\<And>u. u \<noteq> t \<Longrightarrow> env_calls env' u = env_calls env u" "env_tree_locks env' = env_tree_locks env"
  shows "\<forall>u m. waits_on env' m u \<longrightarrow> may_wait env' u m"
proof (intro allI impI)
  fix u m assume w: "waits_on env' m u"
  then have "may_wait env u m" "u \<noteq> t" using assms(1-3) unfolding calls_ok_def by blast+
  then show "may_wait env' u m" using may_wait_cong [of env' u env m] assms(4,5) by simp
qed

lemma calls_ok_keeps:
  assumes ok: "calls_ok env" and k: "keeps t env env'" and w: "\<forall>m. waits_on env' m t \<longrightarrow> may_wait env t m"
  shows "calls_ok env'"
proof -
  have f: "env_lock_table env' = env_lock_table env" "env_tree_locks env' = env_tree_locks env" "env_calls env' = env_calls env"
    "dom (env_btxs env') = dom (env_btxs env)" using k by (simp_all add: keeps_def)
  have refs: "refers env' = refers env" "in_table env' = in_table env" "refs env' = refs env"
    by (simp_all add: refers_def in_table_def refs_def f fun_eq_iff)
  have may: "may_wait env' u m = may_wait env u m" for u m by (rule may_wait_cong) (simp_all add: f)
  have c: "map_option lk_ref_count (env_locks env' l) = map_option lk_ref_count (env_locks env l)" for l using k by (simp add: keeps_def)
  have none: "env_locks env' l = None \<longleftrightarrow> env_locks env l = None" for l using c [of l] by (cases "env_locks env l"; cases "env_locks env' l") simp_all
  have count: "\<exists>k0. env_locks env l = Some k0 \<and> lk_ref_count k0 = lk_ref_count k" if "env_locks env' l = Some k" for l k
    using c [of l] that by (cases "env_locks env l") simp_all
  have waits: "may_wait env u m" if "waits_on env' m u" for u m
  proof (cases "u = t")
    case False
    then have "waits_on env m u" using that k by (simp add: keeps_def waits_on_def)
    then show ?thesis using ok by (simp add: calls_ok_def)
  qed (use that w in blast)
  have "lk_ref_count k = refs env l" if "env_locks env' l = Some k" "l \<notin> set (env_tree_locks env)" for l k
    using count [OF that(1)] that(2) ok unfolding calls_ok_def by metis
  then show ?thesis using ok waits unfolding calls_ok_def f refs none may by blast
qed

text \<open>A transaction that takes a reference to a lock of the table.\<close>

lemma finite_refers: "calls_ok env \<Longrightarrow> lists_ok env \<Longrightarrow> finite {t. refers env t l}"
proof -
  assume "calls_ok env" "lists_ok env"
  then have "{t. refers env t l} \<subseteq> set (env_transactions env)" by (auto simp: calls_ok_def lists_ok_def refers_def)
  then show ?thesis by (rule finite_subset) simp
qed

lemma refs_set_call:
  assumes fin: "finite {u. refers env u l}" and no: "\<And>l. \<not> refers env t l"
  shows "refs (set_call t (Some c) env) l = refs env l + (if call_lock c = l then 1 else 0)"
proof -
  have "{u. refers (set_call t (Some c) env) u l} = (if call_lock c = l then insert t {u. refers env u l} else {u. refers env u l})"
    using no by (auto simp: refers_set_call)
  then show ?thesis using fin no by (simp add: refs_def in_table_def)
qed

lemma refs_end_call:
  assumes fin: "finite {u. refers env u l}" and c: "env_calls env t = Some c"
  shows "refs env l = refs (set_call t None env) l + (if call_lock c = l then 1 else 0)"
proof -
  have s: "{u. refers (set_call t None env) u l} = {u. refers env u l} - {t}" by (auto simp: refers_set_call)
  have "card {u. refers env u l} = card ({u. refers env u l} - {t}) + (if call_lock c = l then 1 else 0)"
    using card_Suc_Diff1 [OF fin, of t] c by (auto simp: refers_def)
  then show ?thesis by (simp add: refs_def in_table_def s)
qed

lemma lock_ref_inv:
  assumes inv: "node_locks_inv env" and n: "env_lock_table env node = Some l" and t: "env_calls env t = None" "env_btxs env t \<noteq> None"
    and idle: "\<And>m. \<not> waits_on env m t"
  shows "node_locks_inv (set_call t (Some (Referenced node l write)) (lock_inc l env))"
proof -
  let ?e1 = "lock_inc l env" let ?e2 = "set_call t (Some (Referenced node l write)) ?e1"
  have ok: "calls_ok env" "locks_inv env" using inv by (simp_all add: node_locks_inv_def)
  have l: "in_table env l" using n by (auto simp: in_table_def ran_def)
  have tree: "l \<notin> set (env_tree_locks env)" "env_locks env l \<noteq> None" using ok(1) l unfolding calls_ok_def by blast+
  have e1: "refers ?e1 = refers env" "in_table ?e1 = in_table env" "refs ?e1 = refs env" by (simp_all add: refers_def in_table_def refs_def fun_eq_iff)
  have no: "\<not> refers env t m" for m using t(1) by (simp add: refers_def)
  have fin: "finite {u. refers env u m}" for m using finite_refers [OF ok(1)] ok(2) by (simp add: locks_inv_def)
  have refs: "refs ?e2 m = refs env m + (if l = m then 1 else 0)" for m
    using refs_set_call [of ?e1 m t "Referenced node l write"] fin no by (simp add: e1)
  have count: "lk_ref_count k = refs ?e2 m" if mk: "env_locks ?e2 m = Some k" "m \<notin> set (env_tree_locks env)" for m k
  proof -
    obtain k0 where "env_locks env m = Some k0" "lk_ref_count k = lk_ref_count k0 + (if l = m then 1 else 0)"
      using mk(1) by (cases "l = m") (auto simp: lock_inc_def)
    then show ?thesis using ok(1) mk(2) unfolding calls_ok_def refs by metis
  qed
  have "calls_ok ?e2"
    unfolding calls_ok_def
  proof (intro conjI)
    show "\<forall>u m. waits_on ?e2 m u \<longrightarrow> may_wait ?e2 u m" by (rule may_wait_others [OF ok(1) idle]) simp_all
    show "dom (env_calls ?e2) \<subseteq> dom (env_btxs ?e2)" using ok(1) t(2) by (auto simp: calls_ok_def)
    show "inj_on (env_lock_table ?e2) (dom (env_lock_table ?e2))" using ok(1) by (simp add: calls_ok_def)
    show "\<forall>m \<in> set (env_tree_locks ?e2). env_locks ?e2 m \<noteq> None \<and> \<not> in_table ?e2 m \<and> (\<forall>u. \<not> refers ?e2 u m)"
      using ok(1) tree(1) by (auto simp: calls_ok_def in_table_def refers_set_call e1)
    show "\<forall>m. in_table ?e2 m \<or> (\<exists>u. refers ?e2 u m) \<longrightarrow> env_locks ?e2 m \<noteq> None"
      using ok(1) tree(2) by (auto simp: calls_ok_def in_table_def refers_set_call e1 split: if_splits)
    show "\<forall>m k. env_locks ?e2 m = Some k \<longrightarrow> m \<notin> set (env_tree_locks ?e2) \<longrightarrow> lk_ref_count k = refs ?e2 m" using count by simp
  qed
  moreover have "locks_inv ?e2" using locks_inv_same [OF same_locks_simps(1) locks_inv_same [OF same_locks_simps(3) ok(2)]] .
  ultimately show ?thesis by (simp add: node_locks_inv_def)
qed

text \<open>A lock that nobody holds and nobody waits for can be freed.\<close>

lemma locks_inv_free:
  assumes inv: "locks_inv env" and k: "env_locks env l = Some k" "lk_writer k = None" "lk_readers k = []" and no: "\<And>t. \<not> waits_on env l t"
  shows "locks_inv (env\<lparr>env_locks := (env_locks env)(l := None)\<rparr>)"
proof -
  let ?env = "env\<lparr>env_locks := (env_locks env)(l := None)\<rparr>"
  note ok = inv [unfolded locks_inv_def]
  have b [simp]: "btx_has P ?env t = btx_has P env t" for P t by (simp add: btx_has_def)
  have l [simp]: "is_reader ?env m t = is_reader env m t" "is_writer ?env m t = is_writer env m t" for m t
    using k by (simp_all add: lock_has_def)
  have "table_ok ?env" using ok unfolding table_ok_def b l by (auto split: if_splits)
  moreover have "waits_ok ?env" using ok no unfolding waits_ok_def waits_on_has b by auto
  moreover have "lists_ok ?env" using ok unfolding lists_ok_def waits_on_has b by auto
  moreover have "waits_for ?env = waits_for env" by (simp add: waits_for_def)
  ultimately show ?thesis using ok by (simp add: locks_inv_def)
qed

definition in_use :: "btree_environment \<Rightarrow> nat \<Rightarrow> bool" where
  "in_use env l \<longleftrightarrow> lock_has (\<lambda>lock. lk_writer lock \<noteq> None \<or> lk_readers lock \<noteq> []) env l"

definition unref_result :: "nat \<Rightarrow> btree_environment \<Rightarrow> btree_environment" where
  "unref_result l env =
     env\<lparr>env_locks := (env_locks env)(l := if refs env l = 0 then None else map_option (lk_ref_count_update (\<lambda>_. refs env l)) (env_locks env l))\<rparr>"

lemma unref_result_fields [simp]:
  "env_btxs (unref_result l env) = env_btxs env" "env_lock_table (unref_result l env) = env_lock_table env"
  "env_tree_locks (unref_result l env) = env_tree_locks env" "env_calls (unref_result l env) = env_calls env"
  "waits_on (unref_result l env) m u = waits_on env m u"
  by (simp_all add: unref_result_def waits_on_def)

lemma refs_zero: "finite {t. refers env t l} \<Longrightarrow> refs env l = 0 \<longleftrightarrow> \<not> in_table env l \<and> (\<forall>t. \<not> refers env t l)"
  by (auto simp: refs_def)

lemma lock_unref_eq:
  assumes inv: "node_locks_inv env" and c: "env_calls env t = Some c" "call_lock c = l"
  defines "env1 \<equiv> set_call t None env"
  shows "lock_unref l env1 = (if refs env1 l = 0 \<and> in_use env l then None else Some (unref_result l env1))"
proof -
  have ok: "calls_ok env" "lists_ok env" using inv by (simp_all add: node_locks_inv_def locks_inv_def)
  have r: "refers env t l" using c by (simp add: refers_def)
  then obtain k where k: "env_locks env l = Some k" using ok(1) unfolding calls_ok_def by blast
  have "l \<notin> set (env_tree_locks env)" using ok(1) r unfolding calls_ok_def by blast
  then have "lk_ref_count k = refs env l" using ok(1) k unfolding calls_ok_def by blast
  then have "lk_ref_count k = Suc (refs env1 l)" using refs_end_call [OF finite_refers [OF ok] c(1), of l] c(2) by (simp add: env1_def)
  moreover have "env_locks env1 l = Some k" using k by (simp add: env1_def)
  ultimately show ?thesis using k
    by (simp add: lock_unref_def lock_free_def put_lock_def Let_def in_use_def lock_has_def unref_result_def)
qed

lemma lock_unref_inv:
  assumes inv: "node_locks_inv env" and c: "env_calls env t = Some c" "call_lock c = l" and idle: "\<And>m. \<not> waits_on env m t"
    and free: "\<not> (refs (set_call t None env) l = 0 \<and> in_use env l)"
  shows "node_locks_inv (unref_result l (set_call t None env))"
proof -
  let ?e1 = "set_call t None env" let ?e2 = "unref_result l ?e1"
  have ok: "calls_ok env" "locks_inv env" "lists_ok env" using inv by (simp_all add: node_locks_inv_def locks_inv_def)
  have fin: "finite {u. refers env u m}" for m using finite_refers [OF ok(1,3)] .
  have sub: "refers ?e1 u m \<Longrightarrow> refers env u m \<and> u \<noteq> t" for u m by (auto simp: refers_set_call split: if_splits)
  have fin1: "finite {u. refers ?e1 u m}" for m using sub by (auto intro: finite_subset [OF _ fin [of m]])
  have r: "refers env t l" using c by (simp add: refers_def)
  have tree: "l \<notin> set (env_tree_locks env)" using ok(1) r unfolding calls_ok_def by blast
  obtain k where k: "env_locks env l = Some k" using ok(1) r unfolding calls_ok_def by blast
  have e2: "refers ?e2 = refers ?e1" "in_table ?e2 = in_table env" "refs ?e2 = refs ?e1"
    by (simp_all add: refers_def in_table_def refs_def fun_eq_iff)
  have count: "lk_ref_count k' = refs ?e1 m" if "env_locks ?e2 m = Some k'" "m \<notin> set (env_tree_locks env)" for m k'
  proof (cases "m = l")
    case True
    then show ?thesis using that(1) k by (auto simp: unref_result_def split: if_splits)
  next
    case False
    then have "lk_ref_count k' = refs env m" using that ok(1) unfolding calls_ok_def by (simp add: unref_result_def)
    then show ?thesis using refs_end_call [OF fin c(1), of m] False c(2) by simp
  qed
  have none: "env_locks ?e2 m \<noteq> None" if "in_table env m \<or> refers ?e1 u m" for u m
  proof -
    have "env_locks env m \<noteq> None" using ok(1) that sub unfolding calls_ok_def by blast
    moreover have "m = l \<Longrightarrow> refs ?e1 l \<noteq> 0" using that refs_zero [OF fin1 [of l]] by (auto simp: in_table_def)
    ultimately show ?thesis by (auto simp: unref_result_def)
  qed
  have "calls_ok ?e2"
    unfolding calls_ok_def
  proof (intro conjI)
    show "\<forall>u m. waits_on ?e2 m u \<longrightarrow> may_wait ?e2 u m" by (rule may_wait_others [OF ok(1) idle]) simp_all
    show "dom (env_calls ?e2) \<subseteq> dom (env_btxs ?e2)" using ok(1) by (auto simp: calls_ok_def)
    show "inj_on (env_lock_table ?e2) (dom (env_lock_table ?e2))" using ok(1) by (simp add: calls_ok_def)
    show "\<forall>m \<in> set (env_tree_locks ?e2). env_locks ?e2 m \<noteq> None \<and> \<not> in_table ?e2 m \<and> (\<forall>u. \<not> refers ?e2 u m)"
    proof
      fix m assume m: "m \<in> set (env_tree_locks ?e2)"
      then have "env_locks env m \<noteq> None" "\<not> in_table env m" "\<not> refers env u m" for u using ok(1) by (auto simp: calls_ok_def)
      moreover have "m \<noteq> l" using m tree by auto
      ultimately show "env_locks ?e2 m \<noteq> None \<and> \<not> in_table ?e2 m \<and> (\<forall>u. \<not> refers ?e2 u m)"
        using sub unfolding e2 by (auto simp: unref_result_def)
    qed
    show "\<forall>m. in_table ?e2 m \<or> (\<exists>u. refers ?e2 u m) \<longrightarrow> env_locks ?e2 m \<noteq> None" using none unfolding e2 by blast
    show "\<forall>m k. env_locks ?e2 m = Some k \<longrightarrow> m \<notin> set (env_tree_locks ?e2) \<longrightarrow> lk_ref_count k = refs ?e2 m" using count unfolding e2 by simp
  qed
  moreover have "locks_inv ?e2"
  proof (cases "refs ?e1 l = 0")
    case True
    then have "lk_writer k = None" "lk_readers k = []" using free k by (auto simp: in_use_def lock_has_def)
    moreover have "\<not> waits_on env l u" for u
    proof
      assume w: "waits_on env l u"
      then have "may_wait env u l" "u \<noteq> t" using ok(1) idle unfolding calls_ok_def by blast+
      then have "refers ?e1 u l" using tree by (auto simp: may_wait_def refers_def split: option.splits lock_call.splits)
      then show False using True refs_zero [OF fin1] by blast
    qed
    ultimately have "locks_inv (?e1\<lparr>env_locks := (env_locks ?e1)(l := None)\<rparr>)"
      using locks_inv_free [OF locks_inv_same [OF same_locks_simps(1) ok(2)]] k by simp
    then show ?thesis using True by (simp add: unref_result_def)
  next
    case False
    then have "same_locks ?e1 ?e2" using k by (simp add: same_locks_def unref_result_def)
    then show ?thesis using locks_inv_same locks_inv_same [OF same_locks_simps(1) ok(2)] by blast
  qed
  ultimately show ?thesis by (simp add: node_locks_inv_def)
qed

text \<open>New locks, and the lock that leaves the table.\<close>

lemma fresh_lock:
  assumes "node_locks_inv env"
  shows "env_locks env (env_next env) = None" "\<not> in_table env (env_next env)" "\<not> refers env t (env_next env)" "env_next env \<notin> set (env_tree_locks env)"
proof -
  show none: "env_locks env (env_next env) = None" using assms by (auto simp: node_locks_inv_def locks_inv_def lists_ok_def)
  show "\<not> in_table env (env_next env)" "\<not> refers env t (env_next env)" "env_next env \<notin> set (env_tree_locks env)"
    using none assms unfolding node_locks_inv_def calls_ok_def by blast+
qed

lemma create_tree_lock_inv:
  assumes inv: "node_locks_inv env"
  shows "node_locks_inv (create_tree_lock env)"
proof -
  let ?env = "create_tree_lock env" let ?l = "env_next env"
  have ok: "calls_ok env" "locks_inv env" using inv by (simp_all add: node_locks_inv_def)
  note fresh = fresh_lock [OF inv]
  have f: "env_calls ?env = env_calls env" "env_lock_table ?env = env_lock_table env" "env_btxs ?env = env_btxs env"
    "env_tree_locks ?env = ?l # env_tree_locks env" "env_locks ?env = (env_locks env)(?l \<mapsto> \<lparr>lk_writer = None, lk_readers = [], lk_ref_count = 0\<rparr>)"
    by (simp_all add: create_tree_lock_def btree_lock_new_def)
  have r: "refers ?env = refers env" "in_table ?env = in_table env" "refs ?env = refs env"
    by (simp_all add: refers_def in_table_def refs_def fun_eq_iff f)
  have w: "waits_on ?env l t = waits_on env l t" for l t by (simp add: waits_on_def f)
  have may: "may_wait env t l \<Longrightarrow> may_wait ?env t l" for t l by (cases "env_calls env t") (auto simp: may_wait_def f)
  have "calls_ok ?env"
    unfolding calls_ok_def r w
  proof (intro conjI)
    show "\<forall>t l. waits_on env l t \<longrightarrow> may_wait ?env t l" using ok(1) may by (simp add: calls_ok_def)
    show "dom (env_calls ?env) \<subseteq> dom (env_btxs ?env)" using ok(1) by (simp add: f calls_ok_def)
    show "inj_on (env_lock_table ?env) (dom (env_lock_table ?env))" using ok(1) by (simp add: f calls_ok_def)
    show "\<forall>l \<in> set (env_tree_locks ?env). env_locks ?env l \<noteq> None \<and> \<not> in_table env l \<and> (\<forall>t. \<not> refers env t l)"
      using ok(1) fresh by (simp add: f calls_ok_def)
    show "\<forall>l. in_table env l \<or> (\<exists>t. refers env t l) \<longrightarrow> env_locks ?env l \<noteq> None" using ok(1) unfolding calls_ok_def f by simp
    show "\<forall>l k. env_locks ?env l = Some k \<longrightarrow> l \<notin> set (env_tree_locks ?env) \<longrightarrow> lk_ref_count k = refs env l"
      using ok(1) by (simp add: f calls_ok_def)
  qed
  moreover have "locks_inv (fst (btree_lock_new env))" by (rule btree_lock_new_inv [OF ok(2)])
  then have "locks_inv ?env" by (rule locks_inv_same [rotated]) (simp add: same_locks_def create_tree_lock_def btree_lock_new_def)
  ultimately show ?thesis by (simp add: node_locks_inv_def)
qed

lemma lock_attach_inv:
  assumes inv: "node_locks_inv env" and node: "env_lock_table env node = None"
  shows "node_locks_inv (lock_attach node env)"
proof -
  let ?env = "lock_attach node env" let ?l = "env_next env"
  have ok: "calls_ok env" "locks_inv env" using inv by (simp_all add: node_locks_inv_def)
  note fresh = fresh_lock [OF inv]
  have f: "env_calls ?env = env_calls env" "env_lock_table ?env = (env_lock_table env)(node \<mapsto> ?l)" "env_btxs ?env = env_btxs env"
    "env_tree_locks ?env = env_tree_locks env" "env_locks ?env = (env_locks env)(?l \<mapsto> \<lparr>lk_writer = None, lk_readers = [], lk_ref_count = 1\<rparr>)"
    by (simp_all add: lock_attach_def btree_lock_new_def lock_inc_def Let_def)
  have table: "in_table ?env l \<longleftrightarrow> l = ?l \<or> in_table env l" for l using node by (simp add: in_table_def f ran_map_upd)
  have r: "refers ?env = refers env" by (simp add: refers_def fun_eq_iff f)
  have none: "{t. refers env t ?l} = {}" using fresh(3) by blast
  have refs: "refs ?env l = (if l = ?l then 1 else refs env l)" for l using fresh(2) none by (simp add: refs_def table r)
  have w: "waits_on ?env l t = waits_on env l t" for l t by (simp add: waits_on_def f)
  have may: "may_wait ?env t l = may_wait env t l" for t l by (rule may_wait_cong) (simp_all add: f)
  have inj: "inj_on (env_lock_table ?env) (dom (env_lock_table ?env))"
  proof -
    have new: "env_lock_table env a \<noteq> Some ?l" for a using fresh(2) by (auto simp: in_table_def ran_def)
    have "inj_on (env_lock_table env) (dom (env_lock_table env))" using ok(1) by (simp add: calls_ok_def)
    then show ?thesis using new new [symmetric] unfolding f by (simp add: inj_on_def)
  qed
  have "calls_ok ?env"
    unfolding calls_ok_def
  proof (intro conjI)
    show "\<forall>t l. waits_on ?env l t \<longrightarrow> may_wait ?env t l" using ok(1) by (simp add: w may calls_ok_def)
    show "dom (env_calls ?env) \<subseteq> dom (env_btxs ?env)" using ok(1) by (simp add: f calls_ok_def)
    show "\<forall>l \<in> set (env_tree_locks ?env). env_locks ?env l \<noteq> None \<and> \<not> in_table ?env l \<and> (\<forall>t. \<not> refers ?env t l)"
      using ok(1) fresh(4) by (auto simp: f r table calls_ok_def)
    show "\<forall>l. in_table ?env l \<or> (\<exists>t. refers ?env t l) \<longrightarrow> env_locks ?env l \<noteq> None" using ok(1) by (auto simp: f r table calls_ok_def)
    show "\<forall>l k. env_locks ?env l = Some k \<longrightarrow> l \<notin> set (env_tree_locks ?env) \<longrightarrow> lk_ref_count k = refs ?env l"
      using ok(1) by (auto simp: f refs calls_ok_def)
  qed (rule inj)
  moreover have "locks_inv ?env"
    by (rule locks_inv_same [OF _ btree_lock_new_inv [OF ok(2)]]) (simp add: same_locks_def lock_attach_def btree_lock_new_def lock_inc_def Let_def)
  ultimately show ?thesis by (simp add: node_locks_inv_def)
qed

lemma lock_detach_call_ok:
  assumes ok: "calls_ok env" "lists_ok env" and n: "env_lock_table env node = Some l" and t: "env_calls env t = None" "env_btxs env t \<noteq> None"
    and idle: "\<And>m. \<not> waits_on env m t"
  shows "calls_ok (set_call t (Some (Detached l)) (env\<lparr>env_lock_table := (env_lock_table env)(node := None)\<rparr>))"
proof -
  let ?e1 = "env\<lparr>env_lock_table := (env_lock_table env)(node := None)\<rparr>" let ?e2 = "set_call t (Some (Detached l)) ?e1"
  have l: "in_table env l" using n by (auto simp: in_table_def ran_def)
  have "inj_on (env_lock_table env) (dom (env_lock_table env))" using ok(1) by (simp add: calls_ok_def)
  then have inj: "inj_on (env_lock_table ?e2) (dom (env_lock_table ?e2))" and one: "env_lock_table env a = Some l \<Longrightarrow> a = node" for a
    using n by (auto simp: inj_on_def dom_def)
  have "(\<exists>a. a \<noteq> node \<and> env_lock_table env a = Some m) \<longleftrightarrow> (\<exists>a. env_lock_table env a = Some m) \<and> m \<noteq> l" for m
    by (metis n one option.inject)
  then have table: "in_table ?e1 m \<longleftrightarrow> in_table env m \<and> m \<noteq> l" "in_table ?e2 m \<longleftrightarrow> in_table env m \<and> m \<noteq> l" for m
    by (simp_all add: in_table_def ran_def cong: conj_cong)
  have e1: "refers ?e1 = refers env" by (simp add: refers_def fun_eq_iff)
  have no: "\<not> refers ?e1 t m" for m using t(1) by (simp add: refers_def)
  have w: "waits_on ?e2 m u = waits_on env m u" for m u by (simp add: waits_on_def)
  have fin: "finite {u. refers ?e1 u m}" for m using finite_refers [OF ok] by (simp add: e1)
  have refs: "refs ?e2 m = refs env m" for m
    using refs_set_call [OF fin no, of "Detached l" m] l by (auto simp: refs_def table e1)
  have tree: "l \<notin> set (env_tree_locks env)" "env_locks env l \<noteq> None" using ok(1) l unfolding calls_ok_def by blast+
  show ?thesis
    unfolding calls_ok_def table refs
  proof (intro conjI)
    show "\<forall>u m. waits_on ?e2 m u \<longrightarrow> may_wait ?e2 u m" by (rule may_wait_others [OF ok(1) idle w]) simp_all
    show "dom (env_calls ?e2) \<subseteq> dom (env_btxs ?e2)" using ok(1) t(2) by (auto simp: calls_ok_def)
    show "\<forall>m \<in> set (env_tree_locks ?e2). env_locks ?e2 m \<noteq> None \<and> \<not> (in_table env m \<and> m \<noteq> l) \<and> (\<forall>u. \<not> refers ?e2 u m)"
      using ok(1) tree(1) by (auto simp: calls_ok_def refers_set_call e1)
    show "\<forall>m. in_table env m \<and> m \<noteq> l \<or> (\<exists>u. refers ?e2 u m) \<longrightarrow> env_locks ?e2 m \<noteq> None"
      using ok(1) tree(2) by (auto simp: calls_ok_def refers_set_call e1 split: if_splits)
    show "\<forall>m k. env_locks ?e2 m = Some k \<longrightarrow> m \<notin> set (env_tree_locks ?e2) \<longrightarrow> lk_ref_count k = refs env m"
      using ok(1) by (simp add: calls_ok_def)
  qed (rule inj)
qed

text \<open>A call that goes on with the same lock.\<close>

lemma calls_ok_next:
  assumes ok: "calls_ok env" and c: "env_calls env t = Some c" "call_lock c' = call_lock c" and idle: "\<And>m. \<not> waits_on env m t"
  shows "calls_ok (set_call t (Some c') env)"
proof -
  let ?env = "set_call t (Some c') env"
  have r: "refers ?env = refers env" "in_table ?env = in_table env"
    using c by (auto simp: refers_def in_table_def fun_eq_iff)
  have refs: "refs ?env = refs env" by (simp add: refs_def r fun_eq_iff)
  have "\<forall>u m. waits_on ?env m u \<longrightarrow> may_wait ?env u m" by (rule may_wait_others [OF ok idle]) simp_all
  moreover have "dom (env_calls ?env) \<subseteq> dom (env_btxs ?env)" using ok c(1) by (auto simp: calls_ok_def)
  ultimately show ?thesis using ok unfolding calls_ok_def r refs by simp
qed

text \<open>A transaction waits for at most one lock, in one way, and when it has got it or not it waits for none.\<close>

definition one_wait :: "bool \<Rightarrow> btree_transaction \<Rightarrow> bool" where
  "one_wait write b \<longleftrightarrow> (if write then waiting_to_read b = None else waiting_to_write b = None)"

lemma leave_idle: "tx_lock_leave t write env = Some env' \<Longrightarrow> btx_has (one_wait write) env t \<Longrightarrow> \<not> waits_on env' m t"
  by (cases "write = True") (auto simp: tx_lock_leave_def bind_eq_Some_conv waits_on_has one_wait_def btx_has_def [of _ env])

lemma enter_one_wait: "tx_lock_enter l t write env = Some (env', needs) \<Longrightarrow> btx_has (one_wait write) env' t"
  by (auto simp: tx_lock_enter_def bind_eq_Some_conv one_wait_def btx_has_def Let_def put_btx_def put_lock_def split: if_splits)

lemma try_one_wait:
  "tx_lock_try l t write env = Some (env', outcome) \<Longrightarrow> btx_has (one_wait write) env t \<Longrightarrow> btx_has (one_wait write) env' t"
  by (auto simp: tx_lock_try_def bind_eq_Some_conv one_wait_def btx_has_def put_btx_def put_lock_def split: if_splits)

lemma round_idle:
  "tx_lock_round l t write env = Some (env', outcome) \<Longrightarrow> btx_has (one_wait write) env t \<Longrightarrow> outcome \<noteq> Lock_Waiting \<Longrightarrow> \<not> waits_on env' m t"
  by (auto simp: tx_lock_round_def bind_eq_Some_conv split: if_splits prod.splits dest: try_one_wait leave_idle)

lemma tx_lock_idle: "tx_lock l t write env = Some (env', outcome) \<Longrightarrow> outcome \<noteq> Lock_Waiting \<Longrightarrow> \<not> waits_on env' m t"
  by (auto simp: tx_lock_def bind_eq_Some_conv split: if_splits dest: enter_one_wait round_idle leave_idle)

lemma tx_lock_resume_idle:
  assumes "tx_lock_resume t env = Some (env', outcome)" "env_btxs env t = Some b" "waits write l b" "outcome \<noteq> Lock_Waiting"
  shows "\<not> waits_on env' m t"
proof -
  let ?env = "env\<lparr>env_asleep := removeAll t (env_asleep env)\<rparr>"
  have "tx_lock_round l t write ?env = Some (env', outcome)"
    using assms(1-3) by (cases "write = True") (simp_all add: tx_lock_resume_def waits_def)
  moreover have "btx_has (one_wait write) ?env t" using assms(2,3) by (auto simp: btx_has_def one_wait_def waits_def)
  ultimately show ?thesis using round_idle assms(4) by blast
qed

lemma node_return_inv:
  assumes ok: "locks_inv env" "calls_ok env" and idle: "outcome \<noteq> Lock_Waiting \<Longrightarrow> \<forall>m. \<not> waits_on env m t"
  shows "node_locks_inv (tx_lock_node_return t (env, outcome))"
proof (cases "\<exists>node l write. env_calls env t = Some (Referenced node l write) \<and> outcome \<noteq> Lock_Waiting")
  case True
  then obtain node l m where c: "env_calls env t = Some (Referenced node l m)" "outcome \<noteq> Lock_Waiting" by blast
  then have "calls_ok (set_call t (Some (Returned node l (outcome = Lock_Acquired))) env)"
    using calls_ok_next [OF ok(2) c(1)] idle by simp
  then show ?thesis using c locks_inv_same [OF same_locks_simps(1) ok(1)] by (simp add: node_locks_inv_def)
next
  case False
  then have "tx_lock_node_return t (env, outcome) = env" by (auto split: option.split lock_call.split)
  then show ?thesis using ok by (simp add: node_locks_inv_def)
qed

lemma idle_no_waits: "env_btxs env t = Some b \<Longrightarrow> waiting_to_write b = None \<Longrightarrow> waiting_to_read b = None \<Longrightarrow> \<not> waits_on env m t"
  by (simp add: waits_on_def)

lemma tree_lock_inv:
  assumes inv: "node_locks_inv env" and l: "l \<in> set (env_tree_locks env)" and c: "env_calls env t = None"
    and b: "env_btxs env t = Some b" "waiting_to_write b = None" "waiting_to_read b = None"
  shows "\<exists>env' outcome. tx_lock l t write env = Some (env', outcome) \<and> node_locks_inv env'"
proof -
  have ok: "calls_ok env" "locks_inv env" using inv by (simp_all add: node_locks_inv_def)
  obtain k where k: "env_locks env l = Some k" using ok(1) l unfolding calls_ok_def by blast
  obtain env' outcome where e: "tx_lock l t write env = Some (env', outcome)" "locks_inv env'" using tx_lock_inv [OF ok(2) k b] by blast
  have "may_wait env t l" using c l by (simp add: may_wait_def)
  then have "calls_ok env'" using tx_lock_keeps [OF e(1)] by (intro calls_ok_keeps [OF ok(1)]) (auto simp: only_waits_def)
  then show ?thesis using e by (simp add: node_locks_inv_def)
qed

lemma tx_lock_node_lock_inv:
  assumes inv: "node_locks_inv env" and c: "env_calls env t = Some (Referenced node l write)"
    and b: "env_btxs env t = Some b" "waiting_to_write b = None" "waiting_to_read b = None"
  shows "\<exists>env'. tx_lock_node_lock t env = Some env' \<and> node_locks_inv env'"
proof -
  have ok: "calls_ok env" "locks_inv env" using inv by (simp_all add: node_locks_inv_def)
  have "refers env t l" using c by (simp add: refers_def)
  then obtain k where k: "env_locks env l = Some k" using ok(1) unfolding calls_ok_def by blast
  obtain env1 outcome where e: "tx_lock l t write env = Some (env1, outcome)" "locks_inv env1" using tx_lock_inv [OF ok(2) k b] by blast
  have "may_wait env t l" using c by (simp add: may_wait_def)
  then have "calls_ok env1" using tx_lock_keeps [OF e(1)] by (intro calls_ok_keeps [OF ok(1)]) (auto simp: only_waits_def)
  then have "node_locks_inv (tx_lock_node_return t (env1, outcome))" using node_return_inv [OF e(2)] tx_lock_idle [OF e(1)] by blast
  then show ?thesis using e(1) c by (simp add: tx_lock_node_lock_def)
qed

lemma tx_lock_node_resume_inv:
  assumes inv: "node_locks_inv env" and b: "env_btxs env t = Some b" "waits write l b"
  shows "\<exists>env'. tx_lock_node_resume t env = Some env' \<and> node_locks_inv env'"
proof -
  have ok: "calls_ok env" "locks_inv env" using inv by (simp_all add: node_locks_inv_def)
  obtain env1 outcome where e: "tx_lock_resume t env = Some (env1, outcome)" "locks_inv env1" using tx_lock_resume_inv [OF ok(2) b] by blast
  have "waits_on env l t" using b by (auto simp: waits_on_def waits_def split: if_splits)
  then have "may_wait env t l" using ok(1) unfolding calls_ok_def by blast
  then have "calls_ok env1" using tx_lock_resume_keeps [OF e(1) b] by (intro calls_ok_keeps [OF ok(1)]) (auto simp: only_waits_def)
  then have "node_locks_inv (tx_lock_node_return t (env1, outcome))"
    using node_return_inv [OF e(2)] tx_lock_resume_idle [OF e(1) b] by blast
  then show ?thesis using e(1) by (simp add: tx_lock_node_resume_def)
qed

lemma held_unlock_inv:
  assumes inv: "node_locks_inv env" and b: "env_btxs env t = Some b" "waiting_to_write b = None" "waiting_to_read b = None"
    and h: "l \<in> set (btx_read_locks b) \<or> l \<in> set (btx_write_locks b)"
  shows "\<exists>env'. tx_unlock l t env = Some env' \<and> node_locks_inv env'"
proof -
  have ok: "calls_ok env" "locks_inv env" "table_ok env" using inv by (simp_all add: node_locks_inv_def locks_inv_def)
  have "holds_read env t l \<or> holds_write env t l" using b(1) h by (simp add: btx_has_def)
  then have "is_reader env l t \<or> is_writer env l t" using ok(3) unfolding table_ok_def by blast
  then obtain k where k: "env_locks env l = Some k" by (auto simp: lock_has_def split: option.splits)
  obtain env' where e: "tx_unlock l t env = Some env'" "locks_inv env'" using tx_unlock_inv [OF ok(2) k b h] by blast
  have "calls_ok env'" using tx_unlock_keeps [OF e(1)] idle_no_waits [OF b] by (intro calls_ok_keeps [OF ok(1)]) auto
  then show ?thesis using e by (simp add: node_locks_inv_def)
qed

lemma lock_detach_inv:
  assumes inv: "node_locks_inv env" and b: "env_btxs env t = Some b" "waiting_to_write b = None" "waiting_to_read b = None"
    and c: "env_calls env t = None" and n: "env_lock_table env node = Some l" and h: "l \<in> set (btx_write_locks b)"
  shows "\<exists>env'. lock_detach node t env = Some env' \<and> node_locks_inv env'"
proof -
  let ?e1 = "env\<lparr>env_lock_table := (env_lock_table env)(node := None)\<rparr>" let ?c = "set_call t (Some (Detached l))"
  have ok: "calls_ok env" "locks_inv env" "table_ok env" "lists_ok env" using inv by (simp_all add: node_locks_inv_def locks_inv_def)
  have "holds_write env t l" using b(1) h by (simp add: btx_has_def)
  then have "is_writer env l t" using ok(3) unfolding table_ok_def by blast
  then obtain k where k: "env_locks env l = Some k" "lk_writer k = Some t" by (auto simp: lock_has_def split: option.splits)
  have "locks_inv ?e1" by (rule locks_inv_same [OF same_locks_simps(2) ok(2)])
  then obtain e2 where e: "tx_unlock l t ?e1 = Some e2" "locks_inv e2" using tx_unlock_inv [of ?e1 l k t b] k(1) b h by auto
  note no = idle_no_waits [OF b]
  have "calls_ok (?c ?e1)" by (rule lock_detach_call_ok [OF ok(1,4) n c _ no]) (simp add: b(1))
  moreover have "keeps t (?c ?e1) (?c e2)" using tx_unlock_keeps [OF e(1)] by (simp add: keeps_def)
  moreover have "\<not> waits_on (?c e2) m t" for m using tx_unlock_keeps [OF e(1)] no by (simp add: waits_on_def)
  ultimately have "calls_ok (?c e2)" using calls_ok_keeps by blast
  moreover have "locks_inv (?c e2)" by (rule locks_inv_same [OF same_locks_simps(1) e(2)])
  ultimately show ?thesis using n k e(1) by (simp add: lock_detach_def node_locks_inv_def)
qed

text \<open>The last reference to a lock must not be dropped while the lock is held.\<close>

definition last_and_held :: "btree_environment \<Rightarrow> nat \<Rightarrow> nat \<Rightarrow> bool" where
  "last_and_held env t l \<longleftrightarrow> \<not> in_table env l \<and> (\<forall>u. refers env u l \<longrightarrow> u = t) \<and> in_use env l"

lemma call_unref:
  assumes inv: "node_locks_inv env" and c: "env_calls env t = Some c" "call_lock c = l" and nw: "\<And>node m. c \<noteq> Referenced node l m"
  shows "lock_unref l (set_call t None env) = (if last_and_held env t l then None else Some (unref_result l (set_call t None env)))"
    and "\<not> last_and_held env t l \<Longrightarrow> node_locks_inv (unref_result l (set_call t None env))"
proof -
  have ok: "calls_ok env" "lists_ok env" using inv by (simp_all add: node_locks_inv_def locks_inv_def)
  have "finite {u. refers (set_call t None env) u l}"
    by (rule finite_subset [OF _ finite_refers [OF ok, of l]]) (auto simp: refers_set_call)
  then have last: "last_and_held env t l \<longleftrightarrow> refs (set_call t None env) l = 0 \<and> in_use env l"
    by (auto simp: refs_zero last_and_held_def refers_set_call in_table_def)
  show "lock_unref l (set_call t None env) = (if last_and_held env t l then None else Some (unref_result l (set_call t None env)))"
    using lock_unref_eq [OF inv c] by (simp add: last)
  have "\<not> may_wait env t m" for m using c nw by (cases c) (auto simp: may_wait_def)
  then have "\<not> waits_on env m t" for m using ok(1) unfolding calls_ok_def by blast
  then show "\<not> last_and_held env t l \<Longrightarrow> node_locks_inv (unref_result l (set_call t None env))"
    using lock_unref_inv [OF inv c] by (simp add: last)
qed

lemma tx_lock_node_leave_inv:
  assumes inv: "node_locks_inv env" and c: "env_calls env t = Some (Returned node l success)"
  shows "tx_lock_node_leave t env = None \<longleftrightarrow> last_and_held env t l"
    and "tx_lock_node_leave t env = Some (env', response) \<Longrightarrow> node_locks_inv env'"
  using call_unref [OF inv c] by (auto simp: tx_lock_node_leave_def c bind_eq_Some_conv split: if_splits)

lemma lock_detach_leave_inv:
  assumes inv: "node_locks_inv env" and c: "env_calls env t = Some (Detached l)"
  shows "lock_detach_leave t env = None \<longleftrightarrow> last_and_held env t l"
    and "lock_detach_leave t env = Some env' \<Longrightarrow> node_locks_inv env'"
  using call_unref [OF inv c] by (auto simp: lock_detach_leave_def c split: if_splits)

lemma calls_ok_same_locks:
  assumes ok: "calls_ok env" and f: "env_locks env' = env_locks env" "env_lock_table env' = env_lock_table env"
      "env_tree_locks env' = env_tree_locks env" "env_calls env' = env_calls env"
    and w: "\<And>l t. waits_on env' l t \<Longrightarrow> waits_on env l t" and d: "dom (env_calls env) \<subseteq> dom (env_btxs env')"
  shows "calls_ok env'"
proof -
  have r: "refers env' = refers env" "in_table env' = in_table env" "refs env' = refs env"
    by (simp_all add: refers_def in_table_def refs_def fun_eq_iff f)
  have may: "may_wait env' t l = may_wait env t l" for t l by (rule may_wait_cong) (simp_all add: f)
  show ?thesis using ok w d unfolding calls_ok_def r may f by blast
qed

lemma create_transaction_node_inv:
  assumes inv: "node_locks_inv env"
  shows "node_locks_inv (fst (create_transaction end_time env))"
proof -
  have ok: "calls_ok env" "locks_inv env" using inv by (simp_all add: node_locks_inv_def)
  have "calls_ok (fst (create_transaction end_time env))"
    by (rule calls_ok_same_locks [OF ok(1)]) (use ok(1) in \<open>auto simp: create_transaction_def Let_def waits_on_def calls_ok_def split: if_splits\<close>)
  then show ?thesis using create_transaction_inv [OF ok(2)] by (simp add: node_locks_inv_def)
qed

lemma cleanup_node_inv:
  assumes inv: "node_locks_inv env" and b: "env_btxs env t = Some b" "waiting_to_write b = None" "waiting_to_read b = None"
    and no: "btx_read_locks b = []" "btx_write_locks b = []" and c: "env_calls env t = None"
  shows "\<exists>env'. cleanup_btree_transaction t env = Some env' \<and> node_locks_inv env'"
proof -
  have ok: "calls_ok env" "locks_inv env" using inv by (simp_all add: node_locks_inv_def)
  obtain env' where e: "cleanup_btree_transaction t env = Some env'" "locks_inv env'" using cleanup_inv [OF ok(2) b no] by blast
  then have env': "env' = env\<lparr>env_transactions := remove1 t (env_transactions env), env_btxs := (env_btxs env)(t := None)\<rparr>"
    by (simp add: cleanup_btree_transaction_def split: if_splits)
  have "calls_ok env'"
    by (rule calls_ok_same_locks [OF ok(1)]) (use ok(1) c in \<open>auto simp: env' waits_on_def calls_ok_def split: if_splits\<close>)
  then show ?thesis using e by (simp add: node_locks_inv_def)
qed

section \<open>Runs\<close>

definition btx_idle :: "btree_transaction \<Rightarrow> bool" where
  "btx_idle btx \<longleftrightarrow> waiting_to_write btx = None \<and> waiting_to_read btx = None"

text \<open>A transaction that does not wait, and is in no call.\<close>

definition btx_ready :: "btree_environment \<Rightarrow> nat \<Rightarrow> btree_transaction \<Rightarrow> bool" where
  "btx_ready env t btx \<longleftrightarrow> env_btxs env t = Some btx \<and> btx_idle btx \<and> env_calls env t = None"

text \<open>
  The steps of the threads: nodes and trees get locks, a transaction locks, unlocks, deletes nodes and ends while it is
  in no other call, unlocks only what it holds, deletes only nodes whose lock it holds for writing, ends when it holds
  nothing, and tries again when it wakes up. The address of a new node is not in the lock table.
\<close>

inductive btree_lock_step :: "btree_environment \<Rightarrow> btree_environment \<Rightarrow> bool" where
  Step_Attach: "env_lock_table env node = None \<Longrightarrow> btree_lock_step env (lock_attach node env)"
| Step_Tree: "btree_lock_step env (create_tree_lock env)"
| Step_Begin: "btree_lock_step env (fst (create_transaction end_time env))"
| Step_Tree_Lock: "btx_ready env t btx \<Longrightarrow> l \<in> set (env_tree_locks env) \<Longrightarrow> tx_lock l t write env = Some (env', outcome) \<Longrightarrow> btree_lock_step env env'"
| Step_Ref: "btx_ready env t btx \<Longrightarrow> btree_lock_step env (fst (tx_lock_node_ref node t write env))"
| Step_Lock: "env_btxs env t = Some btx \<Longrightarrow> btx_idle btx \<Longrightarrow> tx_lock_node_lock t env = Some env' \<Longrightarrow> btree_lock_step env env'"
| Step_Resume: "env_btxs env t = Some btx \<Longrightarrow> \<not> btx_idle btx \<Longrightarrow> tx_lock_node_resume t env = Some env' \<Longrightarrow> btree_lock_step env env'"
| Step_Leave: "tx_lock_node_leave t env = Some (env', response) \<Longrightarrow> btree_lock_step env env'"
| Step_Unlock: "btx_ready env t btx \<Longrightarrow> l \<in> set (btx_read_locks btx) \<or> l \<in> set (btx_write_locks btx)
    \<Longrightarrow> tx_unlock l t env = Some env' \<Longrightarrow> btree_lock_step env env'"
| Step_Detach: "btx_ready env t btx \<Longrightarrow> env_lock_table env node = Some l \<Longrightarrow> l \<in> set (btx_write_locks btx)
    \<Longrightarrow> lock_detach node t env = Some env' \<Longrightarrow> btree_lock_step env env'"
| Step_Detached: "lock_detach_leave t env = Some env' \<Longrightarrow> btree_lock_step env env'"
| Step_End: "btx_ready env t btx \<Longrightarrow> btx_read_locks btx = [] \<Longrightarrow> btx_write_locks btx = []
    \<Longrightarrow> cleanup_btree_transaction t env = Some env' \<Longrightarrow> btree_lock_step env env'"
| Step_Time: "env_now env \<le> now \<Longrightarrow> btree_lock_step env (env\<lparr>env_now := now\<rparr>)"

definition env_reachable :: "btree_environment \<Rightarrow> bool" where
  "env_reachable env \<longleftrightarrow> btree_lock_step\<^sup>*\<^sup>* create_btree_environment env"

lemma waits_ok_not_both:
  assumes "waits_ok env" "env_btxs env t = Some b" "\<not> btx_idle b"
  obtains m l where "waits m l b"
proof -
  have "\<not> (waits_write env t l \<and> waits_read env t k)" for l k using assms(1) unfolding waits_ok_def by blast
  then have "\<not> (waiting_to_write b = Some l \<and> waiting_to_read b = Some k)" for l k using assms(2) by (simp add: btx_has_def)
  then show ?thesis using assms(3) that [of True] that [of False] unfolding btx_idle_def waits_def by fastforce
qed

lemma waiting_node_resume_inv:
  assumes "node_locks_inv env" "env_btxs env t = Some b" "\<not> btx_idle b"
  shows "\<exists>env'. tx_lock_node_resume t env = Some env' \<and> node_locks_inv env'"
proof -
  have "waits_ok env" using assms(1) by (simp add: node_locks_inv_def locks_inv_def)
  then obtain m l where "waits m l b" using assms(2,3) by (rule waits_ok_not_both)
  then show ?thesis using tx_lock_node_resume_inv [OF assms(1,2)] by blast
qed

lemma readyD:
  assumes "btx_ready env t btx"
  shows "env_btxs env t = Some btx" "waiting_to_write btx = None" "waiting_to_read btx = None" "env_calls env t = None"
  using assms by (simp_all add: btx_ready_def btx_idle_def)

lemma btree_lock_step_inv: "btree_lock_step env env' \<Longrightarrow> node_locks_inv env \<Longrightarrow> node_locks_inv env'"
proof (induction rule: btree_lock_step.induct)
  case (Step_Tree_Lock env t btx l m env' outcome)
  then show ?case using tree_lock_inv [OF Step_Tree_Lock.prems Step_Tree_Lock.hyps(2) readyD(4,1-3) [OF Step_Tree_Lock.hyps(1)], of m] by auto
next
  case (Step_Ref env t btx node m)
  note r = readyD [OF Step_Ref.hyps]
  show ?case
  proof (cases "env_lock_table env node")
    case (Some l)
    then show ?thesis using lock_ref_inv [OF Step_Ref.prems Some r(4)] r idle_no_waits [OF r(1-3)] by (simp add: tx_lock_node_ref_def lock_ref_def)
  qed (use Step_Ref.prems in \<open>simp add: tx_lock_node_ref_def lock_ref_def\<close>)
next
  case (Step_Lock env t btx env')
  then obtain node l m where "env_calls env t = Some (Referenced node l m)"
    by (auto simp: tx_lock_node_lock_def split: option.splits lock_call.splits)
  then show ?case using tx_lock_node_lock_inv [OF Step_Lock.prems _ Step_Lock.hyps(1)] Step_Lock.hyps(2,3) unfolding btx_idle_def by fastforce
next
  case (Step_Resume env t btx env')
  then show ?case using waiting_node_resume_inv by fastforce
next
  case (Step_Leave t env env' response)
  then obtain node l success where "env_calls env t = Some (Returned node l success)"
    by (auto simp: tx_lock_node_leave_def split: option.splits lock_call.splits)
  then show ?case using tx_lock_node_leave_inv(2) [OF Step_Leave.prems] Step_Leave.hyps by blast
next
  case (Step_Unlock env t btx l env')
  then show ?case using held_unlock_inv [OF Step_Unlock.prems readyD(1-3) [OF Step_Unlock.hyps(1)]] by fastforce
next
  case (Step_Detach env t btx node l env')
  then show ?case using lock_detach_inv [OF Step_Detach.prems readyD [OF Step_Detach.hyps(1)]] by fastforce
next
  case (Step_Detached t env env')
  then obtain l where "env_calls env t = Some (Detached l)"
    by (auto simp: lock_detach_leave_def split: option.splits lock_call.splits)
  then show ?case using lock_detach_leave_inv(2) [OF Step_Detached.prems] Step_Detached.hyps by blast
next
  case (Step_End env t btx env')
  then show ?case using cleanup_node_inv [OF Step_End.prems readyD(1-3) [OF Step_End.hyps(1)]] readyD(4) [OF Step_End.hyps(1)] by fastforce
next
  case (Step_Time env now)
  let ?env = "env\<lparr>env_now := now\<rparr>"
  have "table_ok ?env = table_ok env" by (simp add: table_ok_def)
  moreover have "waits_ok ?env = waits_ok env" by (simp add: waits_ok_def)
  moreover have "lists_ok ?env = lists_ok env" by (simp add: lists_ok_def waits_on_has)
  moreover have "waits_for ?env = waits_for env" by (simp add: waits_for_def)
  moreover have "calls_ok ?env"
    by (rule calls_ok_same_locks [of env]) (use Step_Time.prems in \<open>simp_all add: node_locks_inv_def waits_on_def calls_ok_def\<close>)
  ultimately show ?case using Step_Time by (simp add: node_locks_inv_def locks_inv_def)
qed (simp_all add: lock_attach_inv create_tree_lock_inv create_transaction_node_inv)

lemma initial_inv: "node_locks_inv create_btree_environment"
  by (simp add: node_locks_inv_def calls_ok_def in_table_def refers_def waits_on_def
      locks_inv_def table_ok_def waits_ok_def lists_ok_def waits_for_def btx_has_def lock_has_def
      create_btree_environment_def acyclic_def)

lemma reachable_node_inv: "env_reachable env \<Longrightarrow> node_locks_inv env"
  unfolding env_reachable_def by (induction rule: rtranclp_induct) (auto simp: initial_inv btree_lock_step_inv)

lemma reachable_locks_inv: "env_reachable env \<Longrightarrow> locks_inv env"
  using reachable_node_inv by (simp add: node_locks_inv_def)

lemma reachable_parts:
  assumes "env_reachable env"
  shows "table_ok env" "waits_ok env" "lists_ok env" "acyclic (waits_for env)"
  using reachable_locks_inv [OF assms] by (simp_all add: locks_inv_def)

lemma unblocked_transaction:
  assumes inv: "locks_inv env" and "env_transactions env \<noteq> []"
  obtains t btx where "env_btxs env t = Some btx" "\<And>u. (t, u) \<notin> waits_for env"
proof -
  note ok = inv [unfolded locks_inv_def]
  have dom: "set (env_transactions env) = dom (env_btxs env)" using ok by (simp add: lists_ok_def)
  have sub: "waits_for env \<subseteq> dom (env_btxs env) \<times> dom (env_btxs env)" using waits_for_dom ok by simp
  have "finite (dom (env_btxs env))" using dom by (metis finite_set)
  then have "finite (waits_for env)" by (intro finite_subset [OF sub]) simp
  then have "wf ((waits_for env)\<inverse>)" using ok by (simp add: finite_acyclic_wf_converse)
  moreover have "dom (env_btxs env) \<noteq> {}" using assms(2) dom by (cases "env_transactions env") auto
  ultimately obtain t where "t \<in> dom (env_btxs env)" "\<forall>u. (u, t) \<in> (waits_for env)\<inverse> \<longrightarrow> u \<notin> dom (env_btxs env)"
    by (metis wfE_min ex_in_conv)
  then show ?thesis using that sub by blast
qed

lemma unblocked_free:
  assumes "table_ok env" "env_btxs env t = Some b" "waits m l b" "env_locks env l = Some k" "\<And>u. (t, u) \<notin> waits_for env"
  shows "lock_free_for m k"
proof -
  have "\<not> (waits_write env t l \<and> (is_writer env l u \<or> is_reader env l u) \<or> waits_read env t l \<and> is_writer env l u)" for u
    using assms(5) [of u] unfolding waits_for_def by blast
  then have "\<not> (lk_writer k = Some u)" "m \<Longrightarrow> u \<notin> set (lk_readers k)" for u
    using assms(2-4) by (auto simp: waits_def btx_has_def lock_has_def split: if_splits)
  then show ?thesis by (auto simp: lock_free_for_def intro: ccontr) (metis list.set_intros(1) neq_Nil_conv)
qed

lemma tx_lock_resume_eq:
  assumes inv: "locks_inv env" and b: "env_btxs env t = Some b" and w: "waits m l b" and k: "env_locks env l = Some k"
  defines "env1 \<equiv> env\<lparr>env_asleep := removeAll t (env_asleep env)\<rparr>"
  shows "tx_lock_resume t env = Some (
    if btx_end_time b \<le> env_now env then (put_btx t (idle_again m b) env1, Lock_Failed Txn_Lock_Timeout)
    else if lock_free_for m k then (put l (taken_lock m t k) t (idle_again m (taken_btx m l b)) env1, Lock_Acquired)
    else (env1\<lparr>env_asleep := t # env_asleep env1\<rparr>, Lock_Waiting))"
proof -
  note ok = inv [unfolded locks_inv_def]
  have "table_ok env1" using ok by (simp add: table_ok_def env1_def)
  moreover have "waits_ok env1" using ok by (simp add: waits_ok_def env1_def)
  moreover have "lists_ok env1" using ok by (auto simp: lists_ok_def waits_on_has env1_def)
  moreover have "acyclic (waits_for env1)" using ok by (simp add: waits_for_def env1_def)
  moreover have "tx_lock_resume t env = tx_lock_round l t m env1"
    using b w by (cases "m = True") (simp_all add: tx_lock_resume_def waits_def env1_def)
  ultimately show ?thesis using tx_lock_round_eq [of env1 l k t b m] k b by (simp add: env1_def)
qed

section \<open>Properties\<close>

text \<open>
  (C5) The transactions of the storage engine in memory never all wait for each other: in every reachable state
  with transactions there is one that does not wait, or that gets its lock, if its time is not over, as
  soon as it tries again.
\<close>

theorem storage_deadlock_free:
  assumes reach: "env_reachable env" and "env_transactions env \<noteq> []"
  shows "\<exists>t btx. env_btxs env t = Some btx \<and> (btx_idle btx \<or> (\<exists>env' outcome. tx_lock_resume t env = Some (env', outcome)
    \<and> outcome = (if env_now env < btx_end_time btx then Lock_Acquired else Lock_Failed Txn_Lock_Timeout)))"
proof -
  note inv = reachable_locks_inv [OF reach]
  note ok = reachable_parts [OF reach]
  obtain t b where b: "env_btxs env t = Some b" and no: "\<And>u. (t, u) \<notin> waits_for env"
    using unblocked_transaction [OF inv assms(2)] by blast
  show ?thesis
  proof (cases "btx_idle b")
    case False
    then obtain m l where w: "waits m l b" using waits_ok_not_both [OF ok(2) b] by blast
    obtain k where k: "env_locks env l = Some k" by (rule waits_not_held [OF ok(1,2) b w])
    have "lock_free_for m k" by (rule unblocked_free [OF ok(1) b w k no])
    then have "\<exists>env'. tx_lock_resume t env
        = Some (env', if env_now env < btx_end_time b then Lock_Acquired else Lock_Failed Txn_Lock_Timeout)"
      using tx_lock_resume_eq [OF inv b w k] by (cases "env_now env < btx_end_time b") simp_all
    then show ?thesis using b by blast
  qed (use b in blast)
qed

text \<open>
  (C28) The search for deadlocks ends, and finds one exactly if transactions wait for each other in a cycle.
\<close>

theorem deadlock_search_correct:
  assumes "table_ok env" "waits_ok env" "lists_ok env"
  shows "lock_detect env = Some (\<exists>t. (t, t) \<in> (waits_for env)\<^sup>+)"
  using lock_detect_eq [OF assms] by (simp add: acyclic_def)


text \<open>
  (C13) In every reachable state a lock that a transaction holds for writing is held by no other one and not for
  reading, a lock that the lock table or a transaction refers to has not been freed, and no operation that a transaction
  may call fails an assertion or uses something freed, with one exception: a transaction that drops its reference to a
  lock aborts exactly if that is the last reference to the lock of a deleted node and the lock is held.
\<close>

theorem storage_locks_safe:
  assumes reach: "env_reachable env"
  shows "(\<forall>t u l. holds_write env t l \<longrightarrow> holds_write env u l \<or> holds_read env u l \<longrightarrow> u = t \<and> \<not> holds_read env u l)
    \<and> (\<forall>l. in_table env l \<or> (\<exists>t. refers env t l) \<longrightarrow> env_locks env l \<noteq> None)
    \<and> (\<forall>t btx. env_btxs env t = Some btx \<longrightarrow>
        (if \<not> btx_idle btx then tx_lock_node_resume t env \<noteq> None
         else case env_calls env t of
           None \<Rightarrow> (\<forall>l m. env_locks env l \<noteq> None \<longrightarrow> tx_lock l t m env \<noteq> None)
             \<and> (\<forall>l. holds_read env t l \<or> holds_write env t l \<longrightarrow> tx_unlock l t env \<noteq> None
               \<and> (\<forall>node. env_lock_table env node = Some l \<longrightarrow> tx_unlock_node node t env \<noteq> None))
             \<and> (\<forall>node l. env_lock_table env node = Some l \<longrightarrow> holds_write env t l \<longrightarrow> lock_detach node t env \<noteq> None)
         | Some (Referenced node l m) \<Rightarrow> tx_lock_node_lock t env \<noteq> None
         | Some (Returned node l success) \<Rightarrow> tx_lock_node_leave t env = None \<longleftrightarrow> last_and_held env t l
         | Some (Detached l) \<Rightarrow> lock_detach_leave t env = None \<longleftrightarrow> last_and_held env t l))"
proof -
  note inv = reachable_node_inv [OF reach]
  note ok = reachable_parts [OF reach]
  have tab: "holds_read env u l = is_reader env l u" "holds_write env u l = is_writer env l u" for u l
    using ok(1) unfolding table_ok_def by simp_all
  have w: "lk_writer k \<noteq> None \<Longrightarrow> lk_readers k = []" if "env_locks env l = Some k" for l k using ok(1) that unfolding table_ok_def by blast
  have excl: "u = t \<and> \<not> holds_read env u l" if "holds_write env t l" "holds_write env u l \<or> holds_read env u l" for t u l
    using that w [of l] unfolding tab by (auto simp: lock_has_def split: option.splits)
  have live: "in_table env l \<or> (\<exists>t. refers env t l) \<longrightarrow> env_locks env l \<noteq> None" for l
    using inv unfolding node_locks_inv_def calls_ok_def by blast
  have resume: "tx_lock_node_resume t env \<noteq> None" if "env_btxs env t = Some btx" "\<not> btx_idle btx" for t btx
    using waiting_node_resume_inv [OF inv that] by blast
  have idle: "case env_calls env t of
           None \<Rightarrow> (\<forall>l m. env_locks env l \<noteq> None \<longrightarrow> tx_lock l t m env \<noteq> None)
             \<and> (\<forall>l. holds_read env t l \<or> holds_write env t l \<longrightarrow> tx_unlock l t env \<noteq> None
               \<and> (\<forall>node. env_lock_table env node = Some l \<longrightarrow> tx_unlock_node node t env \<noteq> None))
             \<and> (\<forall>node l. env_lock_table env node = Some l \<longrightarrow> holds_write env t l \<longrightarrow> lock_detach node t env \<noteq> None)
         | Some (Referenced node l m) \<Rightarrow> tx_lock_node_lock t env \<noteq> None
         | Some (Returned node l success) \<Rightarrow> tx_lock_node_leave t env = None \<longleftrightarrow> last_and_held env t l
         | Some (Detached l) \<Rightarrow> lock_detach_leave t env = None \<longleftrightarrow> last_and_held env t l"
    if "env_btxs env t = Some btx" "btx_idle btx" for t btx
  proof -
    have b: "env_btxs env t = Some btx" "waiting_to_write btx = None" "waiting_to_read btx = None" using that by (simp_all add: btx_idle_def)
    have "tx_lock l t m env \<noteq> None" if "env_locks env l \<noteq> None" for l m
      using tx_lock_inv [OF reachable_locks_inv [OF reach] _ b, of l _ m] that by auto
    moreover have "tx_unlock l t env \<noteq> None" if "holds_read env t l \<or> holds_write env t l" for l
      using held_unlock_inv [OF inv b, of l] that b(1) by (auto simp: btx_has_def)
    moreover have "lock_detach node t env \<noteq> None" if "env_lock_table env node = Some l" "holds_write env t l" "env_calls env t = None" for node l
      using lock_detach_inv [OF inv b that(3,1)] that(2) b(1) by (auto simp: btx_has_def)
    moreover have "tx_lock_node_lock t env \<noteq> None" if "env_calls env t = Some (Referenced node l m)" for node l m
      using tx_lock_node_lock_inv [OF inv that b] by blast
    ultimately show ?thesis
      using tx_lock_node_leave_inv(1) [OF inv] lock_detach_leave_inv(1) [OF inv] by (auto simp: tx_unlock_node_def split: option.split lock_call.split)
  qed
  show ?thesis using excl live resume idle by (intro conjI allI impI) (blast | simp)+
qed

section \<open>Concrete runs\<close>

datatype btree_lock_op =
  Op_Attach nat | Op_Tree | Op_Begin int | Op_Tree_Lock nat nat bool | Op_Ref nat nat bool | Op_Lock nat | Op_Resume nat
  | Op_Leave nat | Op_Unlock nat nat | Op_Detach nat nat | Op_Detached nat | Op_End nat | Op_Time int

definition ready :: "(btree_transaction \<Rightarrow> bool) \<Rightarrow> btree_environment \<Rightarrow> nat \<Rightarrow> bool" where
  "ready P env t \<longleftrightarrow> env_calls env t = None \<and> btx_has (\<lambda>btx. btx_idle btx \<and> P btx) env t"

definition run_op :: "btree_lock_op \<Rightarrow> btree_environment \<Rightarrow> btree_environment option" where
  "run_op a env =
     (case a of
        Op_Attach node \<Rightarrow> if env_lock_table env node = None then Some (lock_attach node env) else None
      | Op_Tree \<Rightarrow> Some (create_tree_lock env)
      | Op_Begin end_time \<Rightarrow> Some (fst (create_transaction end_time env))
      | Op_Tree_Lock l t m \<Rightarrow> if l \<in> set (env_tree_locks env) \<and> ready (\<lambda>btx. True) env t then map_option fst (tx_lock l t m env) else None
      | Op_Ref node t m \<Rightarrow> if ready (\<lambda>btx. True) env t then Some (fst (tx_lock_node_ref node t m env)) else None
      | Op_Lock t \<Rightarrow> if btx_has btx_idle env t then tx_lock_node_lock t env else None
      | Op_Resume t \<Rightarrow> if btx_has (\<lambda>btx. \<not> btx_idle btx) env t then tx_lock_node_resume t env else None
      | Op_Leave t \<Rightarrow> map_option fst (tx_lock_node_leave t env)
      | Op_Unlock l t \<Rightarrow>
          if ready (\<lambda>btx. l \<in> set (btx_read_locks btx) \<or> l \<in> set (btx_write_locks btx)) env t then tx_unlock l t env else None
      | Op_Detach node t \<Rightarrow>
          if ready (\<lambda>btx. env_lock_table env node \<in> Some ` set (btx_write_locks btx)) env t then lock_detach node t env else None
      | Op_Detached t \<Rightarrow> lock_detach_leave t env
      | Op_End t \<Rightarrow> if ready (\<lambda>btx. btx_read_locks btx = [] \<and> btx_write_locks btx = []) env t then cleanup_btree_transaction t env else None
      | Op_Time now \<Rightarrow> if env_now env \<le> now then Some (env\<lparr>env_now := now\<rparr>) else None)"

fun run_ops :: "btree_lock_op list \<Rightarrow> btree_environment \<Rightarrow> btree_environment option" where
  "run_ops [] env = Some env"
| "run_ops (a # ops) env = Option.bind (run_op a env) (run_ops ops)"

lemma btx_hasE: "btx_has P env t \<Longrightarrow> (\<And>btx. env_btxs env t = Some btx \<Longrightarrow> P btx \<Longrightarrow> thesis) \<Longrightarrow> thesis"
  by (auto simp: btx_has_def split: option.splits)

lemma readyE: "ready P env t \<Longrightarrow> (\<And>btx. btx_ready env t btx \<Longrightarrow> P btx \<Longrightarrow> thesis) \<Longrightarrow> thesis"
  by (auto simp: ready_def btx_ready_def elim: btx_hasE)

lemma run_op_step: "run_op a env = Some env' \<Longrightarrow> btree_lock_step env env'"
proof (cases a)
  case (Op_Tree_Lock l t m)
  assume "run_op a env = Some env'"
  then show ?thesis unfolding run_op_def Op_Tree_Lock by (auto split: if_splits elim!: readyE intro: Step_Tree_Lock)
next
  case (Op_Ref node t m)
  assume "run_op a env = Some env'"
  then show ?thesis unfolding run_op_def Op_Ref by (auto split: if_splits elim!: readyE intro: Step_Ref)
next
  case (Op_Lock t)
  assume "run_op a env = Some env'"
  then show ?thesis unfolding run_op_def Op_Lock by (auto split: if_splits elim!: btx_hasE intro: Step_Lock)
next
  case (Op_Resume t)
  assume "run_op a env = Some env'"
  then show ?thesis unfolding run_op_def Op_Resume by (auto split: if_splits elim!: btx_hasE intro: Step_Resume)
next
  case (Op_Leave t)
  assume "run_op a env = Some env'"
  then show ?thesis unfolding run_op_def Op_Leave by (auto intro: Step_Leave)
next
  case (Op_Unlock l t)
  assume "run_op a env = Some env'"
  then show ?thesis unfolding run_op_def Op_Unlock by (auto split: if_splits elim!: readyE intro: Step_Unlock)
next
  case (Op_Detach node t)
  assume "run_op a env = Some env'"
  then show ?thesis unfolding run_op_def Op_Detach by (auto split: if_splits elim!: readyE intro: Step_Detach)
next
  case (Op_End t)
  assume "run_op a env = Some env'"
  then show ?thesis unfolding run_op_def Op_End by (auto split: if_splits elim!: readyE intro: Step_End)
qed (auto simp: run_op_def Step_Attach Step_Tree Step_Begin intro: Step_Time Step_Detached split: if_splits)

lemma run_ops_reachable: "run_ops ops env = Some env' \<Longrightarrow> env_reachable env \<Longrightarrow> env_reachable env'"
  unfolding env_reachable_def
proof (induction ops arbitrary: env)
  case (Cons a ops)
  then obtain env1 where "run_op a env = Some env1" "run_ops ops env1 = Some env'" by (cases "run_op a env") auto
  then show ?case using Cons.IH Cons.prems(2) run_op_step by (metis rtranclp.rtrancl_into_rtrancl)
qed simp

lemma run_reachable: "run_ops ops create_btree_environment = Some env \<Longrightarrow> env_reachable env"
  by (rule run_ops_reachable) (auto simp: env_reachable_def)

lemma run_defined: "run_ops ops create_btree_environment \<noteq> None \<Longrightarrow> env_reachable (the (run_ops ops create_btree_environment))"
  by (rule run_reachable [of ops]) simp

text \<open>A call of \<open>tx_lock_node\<close> that goes through, and one up to where it waits.\<close>

abbreviation lock_node :: "nat \<Rightarrow> nat \<Rightarrow> bool \<Rightarrow> btree_lock_op list" where
  "lock_node node t m \<equiv> [Op_Ref node t m, Op_Lock t, Op_Leave t]"

abbreviation wait_node :: "nat \<Rightarrow> nat \<Rightarrow> bool \<Rightarrow> btree_lock_op list" where
  "wait_node node t m \<equiv> [Op_Ref node t m, Op_Lock t]"

text \<open>A transaction holds the lock of node 7, another one waits for it.\<close>

definition waiting_env :: btree_environment where
  "waiting_env = the (run_ops ([Op_Attach 7, Op_Begin 100, Op_Begin 100] @ lock_node 7 1 True @ wait_node 7 2 False) create_btree_environment)"

lemma waiting_env_reachable: "env_reachable waiting_env"
  unfolding waiting_env_def by (rule run_defined) code_simp

theorem storage_deadlock_free_witness:
  "waits_read waiting_env 2 0 \<and> (\<exists>t btx. env_btxs waiting_env t = Some btx \<and> (btx_idle btx \<or> (\<exists>env' outcome. tx_lock_resume t waiting_env = Some (env', outcome)
    \<and> outcome = (if env_now waiting_env < btx_end_time btx then Lock_Acquired else Lock_Failed Txn_Lock_Timeout))))"
proof
  show "waits_read waiting_env 2 0" by code_simp
  have "env_transactions waiting_env \<noteq> []" by code_simp
  then show "\<exists>t btx. env_btxs waiting_env t = Some btx \<and> (btx_idle btx \<or> (\<exists>env' outcome. tx_lock_resume t waiting_env = Some (env', outcome)
    \<and> outcome = (if env_now waiting_env < btx_end_time btx then Lock_Acquired else Lock_Failed Txn_Lock_Timeout)))"
    by (rule storage_deadlock_free [OF waiting_env_reachable])
qed

theorem storage_locks_safe_witness:
  "holds_write waiting_env 1 0 \<and> \<not> holds_read waiting_env 2 0 \<and> lock_detach 7 1 waiting_env \<noteq> None \<and> tx_lock_node_resume 2 waiting_env \<noteq> None"
proof -
  have w: "holds_write waiting_env 1 0" by code_simp
  have "btx_has btx_idle waiting_env 1" by code_simp
  then obtain b1 where b1: "env_btxs waiting_env 1 = Some b1" "btx_idle b1" by (rule btx_hasE)
  have "btx_has (\<lambda>btx. \<not> btx_idle btx) waiting_env 2" by code_simp
  then obtain b2 where b2: "env_btxs waiting_env 2 = Some b2" "\<not> btx_idle b2" by (rule btx_hasE)
  have c: "env_calls waiting_env 1 = None" by code_simp
  have n: "env_lock_table waiting_env 7 = Some 0" by code_simp
  note safe = storage_locks_safe [OF waiting_env_reachable]
  note ops = conjunct2 [OF conjunct2 [OF safe], rule_format]
  have "\<not> holds_read waiting_env 2 0" using conjunct1 [OF safe, rule_format, OF w, of 2] by blast
  moreover have "lock_detach 7 1 waiting_env \<noteq> None" using ops [OF b1(1)] b1(2) c n w by simp
  moreover have "tx_lock_node_resume 2 waiting_env \<noteq> None" using ops [OF b2(1)] b2(2) by simp
  ultimately show ?thesis using w by blast
qed

text \<open>
  The waiting transaction gets the lock of a node that another transaction deletes, and aborts when it drops the last
  reference to it.
\<close>

lemma deleted_lock_aborts:
  "run_ops [Op_Detach 7 1, Op_Detached 1, Op_Resume 2] waiting_env = Some env
     \<Longrightarrow> env_reachable env \<and> holds_read env 2 0 \<and> env_lock_table env 7 = None \<and> tx_lock_node_leave 2 env = None"
proof -
  let ?env = "the (run_ops [Op_Detach 7 1, Op_Detached 1, Op_Resume 2] waiting_env)"
  assume e: "run_ops [Op_Detach 7 1, Op_Detached 1, Op_Resume 2] waiting_env = Some env"
  then have "env = ?env" by simp
  moreover have "holds_read ?env 2 0 \<and> env_lock_table ?env 7 = None \<and> tx_lock_node_leave 2 ?env = None" by code_simp
  ultimately show ?thesis using run_ops_reachable [OF e waiting_env_reachable] by metis
qed

lemma deleted_lock_run: "run_ops [Op_Detach 7 1, Op_Detached 1, Op_Resume 2] waiting_env \<noteq> None"
  by code_simp

text \<open>Two transactions that hold a lock each and wait for the lock of the other one.\<close>

definition deadlocked_env :: btree_environment where
  "deadlocked_env = create_btree_environment\<lparr>
     env_locks := [0 \<mapsto> \<lparr>lk_writer = Some 2, lk_readers = [], lk_ref_count = 2\<rparr>, 1 \<mapsto> \<lparr>lk_writer = None, lk_readers = [3], lk_ref_count = 2\<rparr>],
     env_btxs := [2 \<mapsto> \<lparr>btx_end_time = 9, waiting_to_read = None, waiting_to_write = Some 1, btx_write_locks = [0], btx_read_locks = []\<rparr>,
                  3 \<mapsto> \<lparr>btx_end_time = 9, waiting_to_read = Some 0, waiting_to_write = None, btx_write_locks = [], btx_read_locks = [1]\<rparr>],
     env_transactions := [3, 2], env_next := 4\<rparr>"

theorem deadlock_search_correct_witness: "lock_detect deadlocked_env = Some True \<and> (\<exists>t. (t, t) \<in> (waits_for deadlocked_env)\<^sup>+)"
proof -
  have "table_ok deadlocked_env"
    by (auto simp: table_ok_def deadlocked_env_def btx_has_def lock_has_def)
  moreover have "waits_ok deadlocked_env"
    by (auto simp: waits_ok_def deadlocked_env_def btx_has_def lock_has_def)
  moreover have "lists_ok deadlocked_env" by (auto simp: lists_ok_def deadlocked_env_def create_btree_environment_def split: if_splits)
  moreover have "lock_detect deadlocked_env = Some True" by code_simp
  ultimately show ?thesis using deadlock_search_correct [of deadlocked_env] by simp
qed

text \<open>
  A transaction that asks to write what it reads gives its read lock up; what \<open>tx_lock\<close> leaves when it fails then.
\<close>

lemma failed_upgrade_eq:
  assumes "env_locks env l = Some k" "env_btxs env t = Some b" "l \<in> set (btx_read_locks b)" "lk_writer k \<noteq> Some t"
    "tx_lock l t True env = Some (env', Lock_Failed e)"
  shows "env' = put l (no_reader t k) t (no_read_lock l b) env"
proof -
  have idle: "waiting_to_write b = None" "waiting_to_read b = None"
    using assms(1,2,5) by (auto simp: tx_lock_def tx_lock_enter_def split: if_splits)
  have t: "t \<in> set (lk_readers k)" using assms by (auto simp: tx_lock_def tx_lock_enter_def Let_def split: if_splits)
  let ?b = "no_read_lock l (b\<lparr>waiting_to_write := Some l\<rparr>)" let ?env = "put l (no_reader t k) t ?b env"
  have "tx_lock l t True env = tx_lock_round l t True ?env"
    using assms(1-4) idle t by (simp add: tx_lock_def tx_lock_enter_def no_reader_def no_read_lock_def)
  then have "tx_lock_round l t True ?env = Some (env', Lock_Failed e)" using assms(5) by simp
  then obtain env1 where e: "tx_lock_try l t True ?env = Some (env1, Lock_Failed e)" "tx_lock_leave t True env1 = Some env'"
    by (auto simp: tx_lock_round_def bind_eq_Some_conv split: if_splits)
  then have "env1 = ?env" by (auto simp: tx_lock_try_def bind_eq_Some_conv split: if_splits)
  moreover have "(no_read_lock l b)\<lparr>waiting_to_write := None\<rparr> = no_read_lock l b" using idle by (cases b) (simp add: no_read_lock_def)
  ultimately show ?thesis using e(2) by (auto simp: tx_lock_leave_def no_read_lock_def)
qed

text \<open>
  (C37) When a transaction that reads a lock asks to write it and fails, it has lost its read lock, and no transaction
  is woken up: whoever sleeps until it can have the lock goes on sleeping, even if nobody holds the lock any more.
\<close>

theorem failed_upgrade_loses_wakeup:
  assumes reach: "env_reachable env" and r: "holds_read env t l" and f: "tx_lock l t True env = Some (env', Lock_Failed e)"
  shows "\<not> holds_read env' t l \<and> \<not> holds_write env' t l \<and> env_asleep env' = env_asleep env
    \<and> (\<forall>u. u \<noteq> t \<longrightarrow> env_btxs env' u = env_btxs env u)
    \<and> ((\<forall>u. is_reader env l u \<longrightarrow> u = t) \<longrightarrow> \<not> in_use env' l)"
proof -
  have tab: "table_ok env" by (rule reachable_parts(1) [OF reach])
  obtain b where b: "env_btxs env t = Some b" "l \<in> set (btx_read_locks b)" using r by (rule btx_hasE)
  have "is_reader env l t" using tab r unfolding table_ok_def by blast
  then obtain k where k: "env_locks env l = Some k" "t \<in> set (lk_readers k)" by (auto simp: lock_has_def split: option.splits)
  have "distinct (lk_readers k) \<and> (lk_writer k \<noteq> None \<longrightarrow> lk_readers k = [])" "distinct (btx_read_locks b)"
    using tab k(1) b(1) unfolding table_ok_def by blast+
  then have d: "distinct (lk_readers k)" "lk_writer k = None" "distinct (btx_read_locks b)" using k(2) by auto
  note here = table_here [OF tab k(1) b(1)]
  have env': "env' = put l (no_reader t k) t (no_read_lock l b) env" by (rule failed_upgrade_eq [OF k(1) b _ f]) (simp add: d(2))
  have "l \<notin> set (btx_write_locks b)" using here d(2) by simp
  then have "\<not> holds_read env' t l \<and> \<not> holds_write env' t l" using d(3) by (simp add: env' no_read_lock_def)
  moreover have "env_asleep env' = env_asleep env \<and> (\<forall>u. u \<noteq> t \<longrightarrow> env_btxs env' u = env_btxs env u)" by (simp add: env' put_lock_def put_btx_def)
  moreover have "\<not> in_use env' l" if "\<forall>u. is_reader env l u \<longrightarrow> u = t"
  proof -
    have "set (lk_readers k) \<subseteq> {t}" using that k(1) by (auto simp: lock_has_def)
    then have "set (remove1 t (lk_readers k)) = {}" using d(1) by auto
    then show ?thesis using d(2) by (simp add: in_use_def env' no_reader_def)
  qed
  ultimately show ?thesis by blast
qed

definition upgrading_env :: btree_environment where
  "upgrading_env = the (run_ops ([Op_Attach 7, Op_Begin 100, Op_Begin 5] @ lock_node 7 1 False @ lock_node 7 2 False @ wait_node 7 1 True @ [Op_Time 10])
     create_btree_environment)"

lemma upgrading_env_reachable: "env_reachable upgrading_env"
  unfolding upgrading_env_def by (rule run_defined) code_simp

theorem failed_upgrade_loses_wakeup_witness:
  "\<exists>env'. waits_write upgrading_env 1 0 \<and> 1 \<in> set (env_asleep upgrading_env) \<and> holds_read upgrading_env 2 0
     \<and> tx_lock 0 2 True upgrading_env = Some (env', Lock_Failed Txn_Lock_Timeout)
     \<and> \<not> holds_read env' 2 0 \<and> \<not> in_use env' 0 \<and> waits_write env' 1 0 \<and> 1 \<in> set (env_asleep env')"
proof -
  let ?r = "the (tx_lock 0 2 True upgrading_env)"
  have env: "waits_write upgrading_env 1 0 \<and> 1 \<in> set (env_asleep upgrading_env)" by code_simp
  have h: "holds_read upgrading_env 2 0" by code_simp
  have "tx_lock 0 2 True upgrading_env \<noteq> None" by code_simp
  moreover have "snd ?r = Lock_Failed Txn_Lock_Timeout" by code_simp
  ultimately obtain env' where r: "tx_lock 0 2 True upgrading_env = Some (env', Lock_Failed Txn_Lock_Timeout)" by fastforce
  have "map_option lk_readers (env_locks upgrading_env 0) = Some [2]" by code_simp
  then have only: "\<forall>u. is_reader upgrading_env 0 u \<longrightarrow> u = 2" by (auto simp: lock_has_def split: option.splits)
  note lost = failed_upgrade_loses_wakeup [OF upgrading_env_reachable h r]
  then have "env_btxs env' 1 = env_btxs upgrading_env 1" by simp
  then have "waits_write env' 1 0" using env by (simp add: btx_has_def)
  then show ?thesis using lost only env h r by auto
qed

text \<open>
  Two transactions that have read a lock can both write it one after the other: a transaction that waits to write has
  given up its read lock, so the value it has read may be overwritten before it writes.
\<close>

definition upgraded_env :: btree_environment where
  "upgraded_env = the (run_ops ([Op_Attach 7, Op_Begin 100, Op_Begin 100] @ lock_node 7 1 False @ lock_node 7 2 False @ wait_node 7 1 True @ lock_node 7 2 True)
     create_btree_environment)"

lemma upgrades_interleave:
  "env_reachable upgraded_env \<and> waits_write upgraded_env 1 0 \<and> holds_write upgraded_env 2 0
     \<and> (case run_ops [Op_Unlock 0 2, Op_End 2, Op_Resume 1] upgraded_env of None \<Rightarrow> False | Some env' \<Rightarrow> holds_write env' 1 0)"
proof -
  have "env_reachable upgraded_env" unfolding upgraded_env_def by (rule run_defined) code_simp
  moreover have "waits_write upgraded_env 1 0 \<and> holds_write upgraded_env 2 0
      \<and> (case run_ops [Op_Unlock 0 2, Op_End 2, Op_Resume 1] upgraded_env of None \<Rightarrow> False | Some env' \<Rightarrow> holds_write env' 1 0)" by code_simp
  ultimately show ?thesis by blast
qed

end
