(* ===== verification/Storage_Pages.thy ===== *)
theory Storage_Pages
  imports Common_Io "HOL-Library.Sublist"
begin

text \<open>
  The pages of the storage engine in memory, \<open>gzochi-server/src/storage-mem.c\<close>: the records of a leaf of a tree, in
  the order of their keys, as bytes in a block of fixed size. The functions work on the block and call others on the
  tree: they lock nodes, update the keys of inner nodes, link new leaves and split nodes. The locks are in
  \<open>Storage_Locks\<close>, the links between the nodes are not modelled: what the calls on the tree answer, in their order, is a
  parameter here. An access outside of the block, a failed assertion and a call that does not return give \<open>None\<close>.
\<close>

section \<open>Pages\<close>

definition MAX_PAGE_SIZE :: nat where "MAX_PAGE_SIZE = 4096"

record btree_page =
  page_size :: nat
  page_data :: "byte list"

text \<open>A new page, all zeros.\<close>

definition new_page :: btree_page where
  "new_page = \<lparr>page_size = 0, page_data = replicate MAX_PAGE_SIZE 0\<rparr>"

text \<open>The order of the keys of inner nodes. The difference of what is left of the lengths is converted to a \<open>gint\<close>.\<close>

fun compare_datum_from :: "byte list \<Rightarrow> byte list \<Rightarrow> int" where
  "compare_datum_from (x # xs) (y # ys) = (if x < y then - 1 else if y < x then 1 else compare_datum_from xs ys)"
| "compare_datum_from xs ys = int (length xs) - int (length ys)"

definition compare_datum :: "byte list \<Rightarrow> byte list \<Rightarrow> int" where
  "compare_datum a b = sint (word_of_int (compare_datum_from a b) :: 32 word)"

definition read_len :: "btree_page \<Rightarrow> nat \<Rightarrow> nat option" where
  "read_len page offset = map_option unat (gzochi_common_io_read_short (page_data page) offset)"

definition compare_page_datum_to_key :: "btree_page \<Rightarrow> nat \<Rightarrow> byte list \<Rightarrow> int option" where
  "compare_page_datum_to_key page offset key =
     (if offset \<ge> page_size page then Some (- 1)
      else do {
        len \<leftarrow> read_len page offset;
        datum \<leftarrow> rd_range (page_data page) (offset + 2) (min len (length key));
        let c = g_bytes_compare datum (take (min len (length key)) key);
        Some (if c = 0 then if len = length key then 0 else if len < length key then - 1 else 1 else c)
      })"

partial_function (option) page_key_offset_loop :: "btree_page \<Rightarrow> byte list \<Rightarrow> nat \<Rightarrow> nat option" where
  "page_key_offset_loop page key offset =
     (if offset < page_size page
      then do {
        page_key_len \<leftarrow> read_len page offset;
        c \<leftarrow> compare_page_datum_to_key page offset key;
        if c \<ge> 0 then Some offset
        else do {
          page_value_len \<leftarrow> read_len page (offset + page_key_len + 2);
          page_key_offset_loop page key (offset + page_key_len + page_value_len + 4)
        }
      }
      else if offset = page_size page then Some offset else None)"

definition page_key_offset :: "btree_page \<Rightarrow> byte list \<Rightarrow> nat option" where
  "page_key_offset page key = page_key_offset_loop page key 0"

text \<open>The value is given by its bytes, in place of the pointer to the first one and the length.\<close>

partial_function (option) lookup_page_value_loop :: "btree_page \<Rightarrow> byte list \<Rightarrow> nat \<Rightarrow> byte list option option" where
  "lookup_page_value_loop page key offset =
     (if offset < page_size page
      then do {
        len \<leftarrow> read_len page offset;
        datum \<leftarrow> rd_range (page_data page) (offset + 2) (min len (length key));
        let c = g_bytes_compare (take (min len (length key)) key) datum;
        let offset = offset + len + 2;
        value_len \<leftarrow> (if c = 0 \<and> len = length key \<or> c > 0 then read_len page offset else Some 0);
        if c = 0 \<and> len = length key then map_option Some (rd_range (page_data page) (offset + 2) value_len)
        else if c > 0 then lookup_page_value_loop page key (offset + value_len + 2)
        else Some None
      }
      else Some None)"

definition lookup_page_value :: "btree_page \<Rightarrow> byte list \<Rightarrow> byte list option option" where
  "lookup_page_value page key = lookup_page_value_loop page key 0"

text \<open>The loop of \<open>find_key_gte\<close> over a page.\<close>

partial_function (option) find_key_gte_loop :: "btree_page \<Rightarrow> byte list \<Rightarrow> nat \<Rightarrow> byte list option option" where
  "find_key_gte_loop page key offset =
     (if offset < page_size page
      then do {
        len \<leftarrow> read_len page offset;
        datum \<leftarrow> rd_range (page_data page) (offset + 2) (min len (length key));
        let c = g_bytes_compare (take (min len (length key)) key) datum;
        if c < 0 \<or> c = 0 \<and> len \<ge> length key then map_option Some (rd_range (page_data page) (offset + 2) len)
        else do {
          value_len \<leftarrow> read_len page (offset + len + 2);
          find_key_gte_loop page key (offset + len + 2 + value_len + 2)
        }
      }
      else Some None)"

definition find_key_gte_page :: "btree_page \<Rightarrow> byte list \<Rightarrow> byte list option option" where
  "find_key_gte_page page key = find_key_gte_loop page key 0"

definition memmove :: "byte list \<Rightarrow> nat \<Rightarrow> nat \<Rightarrow> nat \<Rightarrow> byte list option" where
  "memmove m dest src n = do { bs \<leftarrow> rd_range m src n; memcpy m dest bs }"

text \<open>What \<open>insert_page_record\<close> and \<open>remove_page_record\<close> do to the page of the leaf when they have locked it.\<close>

definition insert_record :: "btree_page \<Rightarrow> nat \<Rightarrow> byte list \<Rightarrow> byte list \<Rightarrow> btree_page option" where
  "insert_record page offset key val =
     (let total_len = length key + length val + 4
      in if page_size page + total_len > MAX_PAGE_SIZE then None
         else do {
           m \<leftarrow> (if offset < page_size page then memmove (page_data page) (offset + total_len) offset (page_size page - offset)
                else Some (page_data page));
           m \<leftarrow> gzochi_common_io_write_short (of_nat (length key)) m offset;
           m \<leftarrow> memcpy m (offset + 2) key;
           m \<leftarrow> gzochi_common_io_write_short (of_nat (length val)) m (offset + length key + 2);
           m \<leftarrow> memcpy m (offset + length key + 4) val;
           Some \<lparr>page_size = page_size page + total_len, page_data = m\<rparr>
         })"

definition remove_record :: "btree_page \<Rightarrow> nat \<Rightarrow> btree_page option" where
  "remove_record page offset = do {
     key_len \<leftarrow> read_len page offset;
     value_len \<leftarrow> read_len page (offset + key_len + 2);
     let record_len = key_len + value_len + 4;
     let next_record_offset = offset + record_len;
     m \<leftarrow> (if next_record_offset < page_size page
          then memmove (page_data page) offset next_record_offset (page_size page - next_record_offset)
          else Some (page_data page));
     if page_size page < record_len then None
     else Some \<lparr>page_size = page_size page - record_len, page_data = m\<rparr>
   }"

text \<open>The record at an offset, which \<open>put_internal\<close> moves to another page.\<close>

definition page_record :: "btree_page \<Rightarrow> nat \<Rightarrow> (byte list \<times> byte list) option" where
  "page_record page offset = do {
     key_len \<leftarrow> read_len page offset;
     value_len \<leftarrow> read_len page (offset + key_len + 2);
     key \<leftarrow> rd_range (page_data page) (offset + 2) key_len;
     val \<leftarrow> rd_range (page_data page) (offset + key_len + 4) value_len;
     Some (key, val)
   }"

section \<open>Pages in a tree\<close>

text \<open>
  What a call on the tree answers: that it has succeeded, that it has failed with an error, or, a call of
  \<open>tx_lock_node\<close>, that the node is deleted; or it never returns. \<open>calls i\<close> is the answer of the \<open>i\<close>th call.
  The functions return \<open>Some None\<close> with an error, after which the transaction is rolled back, and else their result and the
  number of the next call.
\<close>

datatype call_result = Succeeds | Fails | Is_Deleted | Never

type_synonym 'a tree = "('a \<times> nat) option option"

abbreviation tree_bind :: "'a tree \<Rightarrow> ('a \<Rightarrow> nat \<Rightarrow> 'b tree) \<Rightarrow> 'b tree" where
  "tree_bind m f \<equiv> Option.bind m (\<lambda>r. case r of None \<Rightarrow> Some None | Some (x, i) \<Rightarrow> f x i)"

definition tree_call :: "(nat \<Rightarrow> call_result) \<Rightarrow> nat \<Rightarrow> call_result tree" where
  "tree_call calls i = (case calls i of Never \<Rightarrow> None | Fails \<Rightarrow> Some None | r \<Rightarrow> Some (Some (r, Suc i)))"

text \<open>A call on the tree whose answer is only success or failure.\<close>

definition tree_try :: "(nat \<Rightarrow> call_result) \<Rightarrow> nat \<Rightarrow> unit tree" where
  "tree_try calls i = tree_bind (tree_call calls i) (\<lambda>r i. if r = Is_Deleted then Some None else Some (Some ((), i)))"

text \<open>\<open>tx_parent\<close>: without an error and a lock it gives \<open>NULL\<close>, which is then used.\<close>

definition tree_parent :: "(nat \<Rightarrow> call_result) \<Rightarrow> nat \<Rightarrow> unit tree" where
  "tree_parent calls i = tree_bind (tree_call calls i) (\<lambda>r i. if r = Is_Deleted then None else Some (Some ((), i)))"

definition insert_page_record ::
    "(nat \<Rightarrow> call_result) \<Rightarrow> nat \<Rightarrow> btree_page \<Rightarrow> nat \<Rightarrow> byte list \<Rightarrow> byte list \<Rightarrow> btree_page tree" where
  "insert_page_record calls i page offset key val =
     tree_bind (tree_call calls i) (\<lambda>lock i.
       if lock = Is_Deleted then Some (Some (page, i))
       else do {
         page \<leftarrow> insert_record page offset key val;
         if offset + (length key + length val + 4) = page_size page
         then tree_bind (tree_call calls i) (\<lambda>update_key i. Some (Some (page, i)))
         else Some (Some (page, i))
       })"

definition remove_page_record :: "(nat \<Rightarrow> call_result) \<Rightarrow> nat \<Rightarrow> btree_page \<Rightarrow> nat \<Rightarrow> btree_page tree" where
  "remove_page_record calls i page offset =
     tree_bind (tree_call calls i) (\<lambda>lock i.
       if lock = Is_Deleted then Some (Some (page, i))
       else do {
         page \<leftarrow> remove_record page offset;
         if offset = page_size page \<and> page_size page > 0
         then tree_bind (tree_call calls i) (\<lambda>update_key i. Some (Some (page, i)))
         else Some (Some (page, i))
       })"

partial_function (option) move_records ::
    "(nat \<Rightarrow> call_result) \<Rightarrow> nat \<Rightarrow> btree_page \<Rightarrow> btree_page \<Rightarrow> nat \<Rightarrow> (btree_page \<times> btree_page) tree" where
  "move_records calls i page new offset =
     (if offset < page_size page
      then do {
        (key, val) \<leftarrow> page_record page offset;
        tree_bind (insert_page_record calls i new (page_size new) key val) (\<lambda>new i.
          tree_bind (remove_page_record calls i page offset) (\<lambda>page i. move_records calls i page new offset))
      }
      else Some (Some ((page, new), i)))"

declare move_records.simps [code]

text \<open>\<open>insert_leaf_with_record\<close>: the new leaf is locked and linked, its record is written, and its parent may be split.\<close>

definition leaf_with_record :: "(nat \<Rightarrow> call_result) \<Rightarrow> nat \<Rightarrow> byte list \<Rightarrow> byte list \<Rightarrow> btree_page tree" where
  "leaf_with_record calls i key val =
     tree_bind (tree_try calls i) (\<lambda>linked i.
       tree_bind (insert_page_record calls i new_page 0 key val) (\<lambda>page i.
         tree_bind (tree_try calls i) (\<lambda>split i. Some (Some (page, i)))))"

text \<open>
  \<open>put_internal\<close>: the pages of the leaf and of the leaves that are inserted after it. A record that does not fit
  gets room by moving what comes after it to a new leaf, and else a leaf of its own.
\<close>

definition put_internal :: "(nat \<Rightarrow> call_result) \<Rightarrow> nat \<Rightarrow> btree_page \<Rightarrow> byte list \<Rightarrow> byte list \<Rightarrow> btree_page list tree" where
  "put_internal calls i page key val = do {
     let required_size = length key + length val + 4;
     offset \<leftarrow> page_key_offset page key;
     found \<leftarrow> (if offset + 2 < page_size page then map_option (\<lambda>c. c = 0) (compare_page_datum_to_key page offset key) else Some False);
     tree_bind (if found then remove_page_record calls i page offset else Some (Some (page, i))) (\<lambda>page i.
       if page_size page + required_size \<le> MAX_PAGE_SIZE
       then tree_bind (insert_page_record calls i page offset key val) (\<lambda>page i. Some (Some ([page], i)))
       else tree_bind (tree_parent calls i) (\<lambda>_ i.
         if offset < page_size page
         then do {
           (next_key, next_value) \<leftarrow> page_record page offset;
           tree_bind (leaf_with_record calls i next_key next_value) (\<lambda>new i.
             tree_bind (remove_page_record calls i page offset) (\<lambda>page i.
               tree_bind (move_records calls i page new offset) (\<lambda>(page, new) i.
                 if page_size page + required_size \<le> MAX_PAGE_SIZE
                 then tree_bind (insert_page_record calls i page offset key val) (\<lambda>page i. Some (Some ([page, new], i)))
                 else tree_bind (tree_parent calls i) (\<lambda>_ i.
                   tree_bind (leaf_with_record calls i key val) (\<lambda>single i. Some (Some ([page, single, new], i)))))))
         }
         else tree_bind (tree_parent calls i) (\<lambda>_ i.
           tree_bind (leaf_with_record calls i key val) (\<lambda>single i. Some (Some ([page, single], i))))))
   }"

text \<open>
  What \<open>transaction_delete\<close> does when it has found and locked the leaf: the page, or \<open>None\<close> if the key is not found. An
  empty leaf is marked as deleted, and its parent may be merged with others.
\<close>

definition delete_page_key :: "(nat \<Rightarrow> call_result) \<Rightarrow> nat \<Rightarrow> btree_page \<Rightarrow> byte list \<Rightarrow> btree_page option tree" where
  "delete_page_key calls i page key = do {
     offset \<leftarrow> page_key_offset page key;
     c \<leftarrow> compare_page_datum_to_key page offset key;
     if c \<noteq> 0 then Some (Some (None, i))
     else tree_bind (remove_page_record calls i page offset) (\<lambda>page i.
       if page_size page = 0
       then tree_bind (tree_parent calls i) (\<lambda>_ i.
         tree_bind (tree_try calls i) (\<lambda>marked i. tree_bind (tree_try calls i) (\<lambda>merged i. Some (Some (Some page, i)))))
       else Some (Some (Some page, i)))
   }"

section \<open>Pages alone\<close>

text \<open>The same without the calls on the tree, when all of them succeed.\<close>

partial_function (option) move_rest :: "btree_page \<Rightarrow> btree_page \<Rightarrow> nat \<Rightarrow> (btree_page \<times> btree_page) option" where
  "move_rest page new offset =
     (if offset < page_size page
      then do {
        (key, val) \<leftarrow> page_record page offset;
        new \<leftarrow> insert_record new (page_size new) key val;
        page \<leftarrow> remove_record page offset;
        move_rest page new offset
      }
      else Some (page, new))"

definition single_page :: "byte list \<Rightarrow> byte list \<Rightarrow> btree_page option" where
  "single_page key val = insert_record new_page 0 key val"

text \<open>The pages that take the place of a page, of the leaf and of the leaves that are inserted after it.\<close>

definition put_pages :: "btree_page \<Rightarrow> byte list \<Rightarrow> byte list \<Rightarrow> btree_page list option" where
  "put_pages page key val = do {
     let required_size = length key + length val + 4;
     offset \<leftarrow> page_key_offset page key;
     found \<leftarrow> (if offset + 2 < page_size page then map_option (\<lambda>c. c = 0) (compare_page_datum_to_key page offset key) else Some False);
     page \<leftarrow> (if found then remove_record page offset else Some page);
     if page_size page + required_size \<le> MAX_PAGE_SIZE
     then do { page \<leftarrow> insert_record page offset key val; Some [page] }
     else if offset < page_size page
     then do {
       (next_key, next_value) \<leftarrow> page_record page offset;
       new \<leftarrow> single_page next_key next_value;
       page \<leftarrow> remove_record page offset;
       (page, new) \<leftarrow> move_rest page new offset;
       if page_size page + required_size \<le> MAX_PAGE_SIZE
       then do { page \<leftarrow> insert_record page offset key val; Some [page, new] }
       else do { single \<leftarrow> single_page key val; Some [page, single, new] }
     }
     else do { single \<leftarrow> single_page key val; Some [page, single] }
   }"

text \<open>The page without a key: \<open>None\<close> if the key is not found.\<close>

definition delete_record :: "btree_page \<Rightarrow> byte list \<Rightarrow> btree_page option option" where
  "delete_record page key = do {
     offset \<leftarrow> page_key_offset page key;
     c \<leftarrow> compare_page_datum_to_key page offset key;
     if c \<noteq> 0 then Some None else map_option Some (remove_record page offset)
   }"

section \<open>The records of a page\<close>

type_synonym rec = "byte list \<times> byte list"

definition encode_record :: "rec \<Rightarrow> byte list" where
  "encode_record r = be_short (of_nat (length (fst r))) @ fst r @ be_short (of_nat (length (snd r))) @ snd r"

definition encode :: "rec list \<Rightarrow> byte list" where
  "encode rs = concat (map encode_record rs)"

definition page_holds :: "btree_page \<Rightarrow> rec list \<Rightarrow> bool" where
  "page_holds page rs \<longleftrightarrow> page_size page = length (encode rs) \<and> length (page_data page) = MAX_PAGE_SIZE
     \<and> (\<exists>junk. page_data page = encode rs @ junk)"

definition record_size :: "rec \<Rightarrow> nat" where
  "record_size r = length (fst r) + length (snd r) + 4"

lemma encode_simps [simp]: "encode [] = []" "encode (r # rs) = encode_record r @ encode rs" "encode (rs @ ss) = encode rs @ encode ss"
  by (simp_all add: encode_def)

lemma length_encode_record [simp]: "length (encode_record r) = record_size r"
  by (simp add: encode_record_def record_size_def)

lemma record_in_encode: "r \<in> set rs \<Longrightarrow> record_size r \<le> length (encode rs)"
  by (induction rs) auto

lemma page_holds_size: "page_holds page rs \<Longrightarrow> length (encode rs) \<le> MAX_PAGE_SIZE"
  by (auto simp: page_holds_def)

lemma unat_len: "n \<le> MAX_PAGE_SIZE \<Longrightarrow> unat (of_nat n :: 16 word) = n"
  by (simp add: MAX_PAGE_SIZE_def unat_of_nat take_bit_nat_eq_self)

lemma record_fits: "page_holds page rs \<Longrightarrow> r \<in> set rs \<Longrightarrow> record_size r \<le> MAX_PAGE_SIZE"
  using record_in_encode page_holds_size le_trans by blast

section \<open>Reading a page\<close>

lemma read_len_at:
  assumes "page_data page = xs @ be_short (of_nat n) @ ys" "n \<le> MAX_PAGE_SIZE"
  shows "read_len page (length xs) = Some n"
  using assms by (simp add: read_len_def read_short_be unat_len)

lemma rd_range_at: "rd_range (xs @ bs @ ys) (length xs) (length bs) = Some bs"
  by (simp add: rd_range_def)

text \<open>What is read at the offset of a record.\<close>

lemma reads_at:
  assumes h: "page_holds page (pre @ (k, v) # post)"
  defines "off \<equiv> length (encode pre)"
  shows "off < page_size page" "read_len page off = Some (length k)" "read_len page (off + length k + 2) = Some (length v)"
    "n \<le> length k \<Longrightarrow> rd_range (page_data page) (off + 2) n = Some (take n k)"
    "rd_range (page_data page) (off + length k + 4) (length v) = Some v"
    "off + length k + length v + 4 = length (encode (pre @ [(k, v)]))"
proof -
  obtain junk where d: "page_data page = encode (pre @ (k, v) # post) @ junk" using h by (auto simp: page_holds_def)
  have fit: "length k \<le> MAX_PAGE_SIZE" "length v \<le> MAX_PAGE_SIZE" using record_fits [OF h, of "(k, v)"] by (auto simp: record_size_def)
  have d1: "page_data page = encode pre @ be_short (of_nat (length k)) @ k @ be_short (of_nat (length v)) @ v @ encode post @ junk"
    using d by (simp add: encode_record_def)
  show "off < page_size page" using h by (simp add: page_holds_def off_def record_size_def)
  show "read_len page off = Some (length k)" unfolding off_def by (rule read_len_at [OF d1 fit(1)])
  have "page_data page = (encode pre @ be_short (of_nat (length k)) @ k) @ be_short (of_nat (length v)) @ v @ encode post @ junk" using d1 by simp
  then show "read_len page (off + length k + 2) = Some (length v)"
    using read_len_at [OF _ fit(2)] by (fastforce simp: off_def add.commute add.left_commute)
  show "n \<le> length k \<Longrightarrow> rd_range (page_data page) (off + 2) n = Some (take n k)" by (simp add: d1 off_def rd_range_def)
  show "rd_range (page_data page) (off + length k + 4) (length v) = Some v" by (simp add: d1 off_def rd_range_def)
  show "off + length k + length v + 4 = length (encode (pre @ [(k, v)]))" by (simp add: off_def record_size_def)
qed

text \<open>Comparing the common part and then the lengths is comparing as lists.\<close>

lemma compare_parts:
  "(let n = min (length a) (length b); c = g_bytes_compare (take n a) (take n b)
    in if c = 0 then if length a = length b then 0 else if length a < length b then - 1 else 1 else c) = g_bytes_compare a b"
  by (induction a b rule: g_bytes_compare.induct) (auto simp: Let_def)

lemma compare_datum_from_sign: "sgn (compare_datum_from a b) = g_bytes_compare a b"
  by (induction a b rule: g_bytes_compare.induct) auto

lemma compare_datum_from_bounds: "\<bar>compare_datum_from a b\<bar> \<le> int (max 1 (max (length a) (length b)))"
  by (induction a b rule: compare_datum_from.induct) auto

lemma compare_datum_sign:
  assumes "length a < 2 ^ 31" "length b < 2 ^ 31"
  shows "sgn (compare_datum a b) = g_bytes_compare a b"
proof -
  have "int (max 1 (max (length a) (length b))) < 2 ^ 31" using assms by simp
  then have "\<bar>compare_datum_from a b\<bar> < 2 ^ 31" using compare_datum_from_bounds [of a b] by linarith
  then have "compare_datum a b = compare_datum_from a b"
    unfolding compare_datum_def by (simp add: signed_of_int signed_take_bit_int_eq_self)
  then show ?thesis by (simp add: compare_datum_from_sign)
qed

lemma compare_at:
  assumes h: "page_holds page (pre @ (k, v) # post)"
  shows "compare_page_datum_to_key page (length (encode pre)) key = Some (g_bytes_compare k key)"
  using reads_at [OF h] compare_parts [of k key]
  by (simp add: compare_page_datum_to_key_def Let_def min.commute)

lemma compare_at_end: "page_holds page rs \<Longrightarrow> compare_page_datum_to_key page (length (encode rs)) key = Some (- 1)"
  by (simp add: compare_page_datum_to_key_def page_holds_def)

lemma page_key_offset_from:
  "page_holds page (pre @ rs) \<Longrightarrow>
   page_key_offset_loop page key (length (encode pre)) = Some (length (encode (pre @ takeWhile (\<lambda>r. fst r < key) rs)))"
proof (induction rs arbitrary: pre)
  case Nil
  then show ?case by (subst page_key_offset_loop.simps) (simp add: page_holds_def)
next
  case (Cons r rs)
  obtain k v where r: "r = (k, v)" by (cases r)
  note h = Cons.prems [unfolded r]
  note at = reads_at [OF h] compare_at [OF h]
  have "page_key_offset_loop page key (length (encode (pre @ [r]))) = Some (length (encode ((pre @ [r]) @ takeWhile (\<lambda>r. fst r < key) rs)))"
    by (rule Cons.IH) (use Cons.prems in simp)
  then show ?case using at r g_bytes_compare_neg [of k key]
    by (subst page_key_offset_loop.simps) (auto simp: not_le simp del: encode_simps(3))
qed

lemma page_key_offset_eq:
  "page_holds page rs \<Longrightarrow> page_key_offset page key = Some (length (encode (takeWhile (\<lambda>r. fst r < key) rs)))"
  using page_key_offset_from [of page "[]" rs key] by (simp add: page_key_offset_def)

text \<open>Which records the search for a value passes.\<close>

fun lookup_records :: "byte list \<Rightarrow> rec list \<Rightarrow> byte list option" where
  "lookup_records key [] = None"
| "lookup_records key ((k, v) # rs) =
     (if k = key then Some v else if k < key \<and> \<not> prefix k key then lookup_records key rs else None)"

lemma common_part:
  "g_bytes_compare (take (min (length k) (length key)) key) (take (min (length k) (length key)) k)
    = (if prefix k key \<or> prefix key k then 0 else g_bytes_compare key k)"
  by (induction key k rule: g_bytes_compare.induct) auto

lemma append_gt: "(a :: byte list) < a @ x # xs"
  by (induction a) simp_all

lemma prefix_lt: "strict_prefix a b \<Longrightarrow> a < (b :: byte list)"
  using append_gt by (auto elim!: strict_prefixE')

lemma prefix_same_length: "prefix a b \<Longrightarrow> length a = length b \<Longrightarrow> a = b"
  by (auto simp: prefix_def)

lemma lookup_from:
  "page_holds page (pre @ rs) \<Longrightarrow> lookup_page_value_loop page key (length (encode pre)) = Some (lookup_records key rs)"
proof (induction rs arbitrary: pre)
  case Nil
  then show ?case by (subst lookup_page_value_loop.simps) (simp add: page_holds_def)
next
  case (Cons r rs)
  obtain k v where r: "r = (k, v)" by (cases r)
  note h = Cons.prems [unfolded r]
  note at = reads_at [OF h]
  have next_off: "length (encode pre) + length k + 2 + length v + 2 = length (encode (pre @ [r]))" using at(6) r by simp
  have IH: "lookup_page_value_loop page key (length (encode (pre @ [r]))) = Some (lookup_records key rs)"
    by (rule Cons.IH) (use Cons.prems in simp)
  let ?c = "g_bytes_compare (take (min (length k) (length key)) key) (take (min (length k) (length key)) k)"
  have same: "?c = 0 \<and> length k = length key \<longleftrightarrow> k = key"
    by (auto simp: common_part dest: prefix_same_length split: if_splits)
  have pass: "?c > 0 \<longleftrightarrow> k < key \<and> \<not> prefix k key"
    using prefix_lt [of key k] by (auto simp: common_part g_bytes_compare_pos strict_prefix_def dest: less_asym)
  have val: "rd_range (page_data page) (length (encode pre) + length k + 2 + 2) (length v) = Some v" using at(5) by (simp add: numeral_eq_Suc)
  have datum: "rd_range (page_data page) (length (encode pre) + 2) (min (length k) (length key)) = Some (take (min (length k) (length key)) k)"
    by (rule at(4)) simp
  obtain c where c: "?c = c" by blast
  have step: "lookup_page_value_loop page key (length (encode pre)) = Option.bind
      (if c = 0 \<and> length k = length key \<or> c > 0 then Some (length v) else Some 0)
      (\<lambda>n. if c = 0 \<and> length k = length key then map_option Some (rd_range (page_data page) (length (encode pre) + length k + 2 + 2) n)
        else if c > 0 then lookup_page_value_loop page key (length (encode pre) + length k + 2 + n + 2) else Some None)"
    by (subst lookup_page_value_loop.simps) (simp only: at(1-3) datum c if_True bind.bind_lunit Let_def)
  show ?case
  proof (cases "k = key \<or> k < key \<and> \<not> prefix k key")
    case True
    then have "lookup_page_value_loop page key (length (encode pre)) = (if k = key then Some (Some v)
        else lookup_page_value_loop page key (length (encode pre) + length k + 2 + length v + 2))"
      using step val same pass unfolding c by (simp split: if_splits)
    then show ?thesis using True unfolding next_off IH by (auto simp: r)
  next
    case False
    then have "lookup_page_value_loop page key (length (encode pre)) = Some None"
      using step same pass unfolding c by auto
    then show ?thesis using False by (auto simp: r)
  qed
qed

lemma find_gte_from:
  "page_holds page (pre @ rs) \<Longrightarrow>
   find_key_gte_loop page key (length (encode pre)) = Some (map_option fst (find (\<lambda>r. key \<le> fst r) rs))"
proof (induction rs arbitrary: pre)
  case Nil
  then show ?case by (subst find_key_gte_loop.simps) (simp add: page_holds_def)
next
  case (Cons r rs)
  obtain k v where r: "r = (k, v)" by (cases r)
  note h = Cons.prems [unfolded r]
  note at = reads_at [OF h]
  have next_off: "length (encode pre) + length k + 2 + length v + 2 = length (encode (pre @ [r]))" using at(6) r by simp
  have IH: "find_key_gte_loop page key (length (encode (pre @ [r]))) = Some (map_option fst (find (\<lambda>r. key \<le> fst r) rs))"
    by (rule Cons.IH) (use Cons.prems in simp)
  let ?c = "g_bytes_compare (take (min (length k) (length key)) key) (take (min (length k) (length key)) k)"
  have found: "?c < 0 \<or> ?c = 0 \<and> length key \<le> length k \<longleftrightarrow> key \<le> k"
  proof (cases "prefix k key \<or> prefix key k")
    case True
    then show ?thesis using prefix_lt [of key k] prefix_lt [of k key] prefix_length_le [of k key] prefix_length_le [of key k]
      by (auto simp: common_part strict_prefix_def dest: less_imp_le prefix_same_length) (metis leD prefix_same_length)+
  next
    case False
    then have "k \<noteq> key" by auto
    then show ?thesis using False by (auto simp: common_part g_bytes_compare_neg)
  qed
  have datum: "rd_range (page_data page) (length (encode pre) + 2) (min (length k) (length key)) = Some (take (min (length k) (length key)) k)"
    by (rule at(4)) simp
  have whole: "rd_range (page_data page) (length (encode pre) + 2) (length k) = Some k" using at(4) [of "length k"] by simp
  have "find_key_gte_loop page key (length (encode pre)) = (if ?c < 0 \<or> ?c = 0 \<and> length key \<le> length k then Some (Some k)
      else find_key_gte_loop page key (length (encode pre) + length k + 2 + length v + 2))"
    by (subst find_key_gte_loop.simps) (simp only: at(1-3) datum whole if_True bind.bind_lunit Let_def option.map)
  then show ?case unfolding found next_off IH by (simp add: r)
qed

section \<open>Changing a page\<close>





lemma remove_at:
  assumes h: "page_holds page (pre @ (k, v) # post)"
  obtains page' where "remove_record page (length (encode pre)) = Some page'" "page_holds page' (pre @ post)"
proof -
  let ?n = "record_size (k, v)" and ?off = "length (encode pre)"
  obtain junk where d: "page_data page = encode pre @ encode_record (k, v) @ encode post @ junk" using h by (auto simp: page_holds_def)
  have size: "page_size page = ?off + ?n + length (encode post)" and len: "length (page_data page) = MAX_PAGE_SIZE" using h by (simp_all add: page_holds_def)
  let ?rest = "drop (length (encode post)) (encode_record (k, v) @ encode post @ junk)"
  have move: "(if ?off + ?n < page_size page then memmove (page_data page) ?off (?off + ?n) (page_size page - (?off + ?n))
      else Some (page_data page)) = Some (encode pre @ encode post @ ?rest)"
  proof (cases "encode post = []")
    case True
    then show ?thesis using size d by simp
  next
    case False
    have "rd_range (page_data page) (?off + ?n) (length (encode post)) = Some (encode post)" using d by (simp add: rd_range_def)
    moreover have "memcpy (page_data page) ?off (encode post) = Some (encode pre @ encode post @ ?rest)" by (simp add: memcpy_def d)
    ultimately show ?thesis using False size by (simp add: memmove_def)
  qed
  have eq: "remove_record page ?off = Option.bind
      (if ?off + ?n < page_size page then memmove (page_data page) ?off (?off + ?n) (page_size page - (?off + ?n)) else Some (page_data page))
      (\<lambda>m. if page_size page < ?n then None else Some \<lparr>page_size = page_size page - ?n, page_data = m\<rparr>)"
    using reads_at(2,3) [OF h] by (simp add: remove_record_def Let_def record_size_def add.assoc)
  have "remove_record page ?off = Some \<lparr>page_size = ?off + length (encode post), page_data = encode pre @ encode post @ ?rest\<rparr>"
    unfolding eq move using size by simp
  moreover have "page_holds \<lparr>page_size = ?off + length (encode post), page_data = encode pre @ encode post @ ?rest\<rparr> (pre @ post)"
    using len d by (simp add: page_holds_def)
  ultimately show ?thesis by (rule that)
qed




section \<open>Properties\<close>

definition sorted_records :: "rec list \<Rightarrow> bool" where
  "sorted_records rs \<longleftrightarrow> sorted_wrt (<) (map fst rs)"


lemma dropWhile_cases:
  assumes "sorted_records rs"
  shows "dropWhile (\<lambda>r. fst r < key) rs = (case map_of rs key of None \<Rightarrow> [] | Some v \<Rightarrow> [(key, v)]) @ dropWhile (\<lambda>r. fst r \<le> key) rs"
  using assms
proof (induction rs)
  case (Cons r rs)
  obtain k v where r: "r = (k, v)" by (cases r)
  have sub: "sorted_records rs" "\<forall>k' \<in> fst ` set rs. k < k'" using Cons.prems by (auto simp: sorted_records_def r)
  have gt: "map_of rs key = None" "dropWhile (\<lambda>r. fst r \<le> key) rs = rs" if "key \<le> k"
  proof -
    have "\<forall>r' \<in> set rs. key < fst r'" using sub(2) that by (auto intro: le_less_trans)
    then show "map_of rs key = None" "dropWhile (\<lambda>r. fst r \<le> key) rs = rs"
      by (auto simp: map_of_eq_None_iff) (cases rs; fastforce)
  qed
  show ?case
  proof (cases k key rule: linorder_cases)
    case less
    then show ?thesis using Cons.IH [OF sub(1)] by (auto simp: r)
  next
    case equal
    then show ?thesis using gt by (simp add: r)
  next
    case greater
    then show ?thesis using gt by (auto simp: r dest: leD)
  qed
qed simp

lemma sorted_dropWhile: "sorted_records rs \<Longrightarrow> dropWhile (\<lambda>r. fst r < key) rs = filter (\<lambda>r. key \<le> fst r) rs"
proof (induction rs)
  case (Cons r rs)
  have sub: "sorted_records rs" "\<forall>r' \<in> set rs. fst r < fst r'" using Cons.prems by (auto simp: sorted_records_def)
  show ?case
  proof (cases "fst r < key")
    case False
    then have "filter (\<lambda>r. key \<le> fst r) rs = rs" using sub(2) by (auto simp: filter_id_conv not_less intro: order_trans less_imp_le)
    then show ?thesis using False by simp
  qed (use Cons.IH sub(1) in simp)
qed simp

text \<open>What the search for the value of a key finds.\<close>

lemma lookup_records_eq:
  "sorted_records rs \<Longrightarrow> lookup_records key rs = (if \<exists>k \<in> fst ` set rs. strict_prefix k key then None else map_of rs key)"
proof (induction key rs rule: lookup_records.induct)
  case (2 key k v rs)
  have sub: "sorted_records rs" "\<forall>k' \<in> fst ` set rs. k < k'" using "2.prems" by (auto simp: sorted_records_def)
  have gt: "map_of rs key = None" "\<not> (\<exists>k' \<in> fst ` set rs. strict_prefix k' key)" if "key \<le> k"
  proof -
    have "\<forall>k' \<in> fst ` set rs. key < k'" using sub(2) that by (auto intro: le_less_trans)
    then show "map_of rs key = None" "\<not> (\<exists>k' \<in> fst ` set rs. strict_prefix k' key)"
      using prefix_lt by (auto simp: map_of_eq_None_iff dest: less_asym)
  qed
  show ?case
  proof (cases k key rule: linorder_cases)
    case less
    then show ?thesis using "2.IH" sub(1) by (auto simp: strict_prefix_def)
  next
    case equal
    then show ?thesis using gt by auto
  next
    case greater
    then show ?thesis using gt prefix_lt [of k key] by (auto dest: less_asym)
  qed
qed simp

lemma page_holds_take_drop: "page_holds page rs \<Longrightarrow> page_holds page (takeWhile P rs @ dropWhile P rs)"
  by simp



lemma dropWhile_le: "sorted_records rs \<Longrightarrow> dropWhile (\<lambda>r. fst r \<le> key) rs = filter (\<lambda>r. key < fst r) rs"
proof (induction rs)
  case (Cons r rs)
  have sub: "sorted_records rs" "\<forall>r' \<in> set rs. fst r < fst r'" using Cons.prems by (auto simp: sorted_records_def)
  show ?case
  proof (cases "fst r \<le> key")
    case False
    then have "filter (\<lambda>r. key < fst r) rs = rs" using sub(2) by (auto simp: filter_id_conv not_le intro: less_trans)
    then show ?thesis using False by simp
  qed (use Cons.IH sub(1) in simp)
qed simp

lemma takeWhile_lt: "sorted_records rs \<Longrightarrow> takeWhile (\<lambda>r. fst r < key) rs = filter (\<lambda>r. fst r < key) rs"
proof (induction rs)
  case (Cons r rs)
  have sub: "sorted_records rs" "\<forall>r' \<in> set rs. fst r < fst r'" using Cons.prems by (auto simp: sorted_records_def)
  show ?case
  proof (cases "fst r < key")
    case False
    then have "filter (\<lambda>r. fst r < key) rs = []" using sub(2) by (auto simp: filter_empty_conv not_less intro: order_trans less_imp_le)
    then show ?thesis using False by simp
  qed (use Cons.IH sub(1) in simp)
qed simp






text \<open>
  A computation in the tree agrees with what it does to pages alone: it returns the same if no call on the tree fails,
  never returns or answers that the locked leaf is deleted, and stops or fails only with such a call.
\<close>

definition agrees :: "(nat \<Rightarrow> call_result) \<Rightarrow> 'a tree \<Rightarrow> 'a option \<Rightarrow> bool" where
  "agrees calls m p \<longleftrightarrow>
     (case m of None \<Rightarrow> p = None \<or> (\<exists>i. calls i = Never) | Some None \<Rightarrow> \<exists>i. calls i = Fails | Some (Some (x, i)) \<Rightarrow> p = Some x)"

lemma agrees_return: "agrees calls (Some (Some (x, i))) (Some x)"
  by (simp add: agrees_def)

lemma agrees_bind:
  assumes "agrees calls m p" "\<And>x i. p = Some x \<Longrightarrow> agrees calls (f x i) (g x)"
  shows "agrees calls (tree_bind m f) (Option.bind p g)"
proof (cases m)
  case (Some r)
  show ?thesis
  proof (cases r)
    case None
    then show ?thesis using assms(1) Some by (simp add: agrees_def)
  next
    case v: (Some v)
    obtain x i where x: "v = (x, i)" by fastforce
    then have "p = Some x" using assms(1) Some v by (simp add: agrees_def)
    then show ?thesis using assms(2) Some v x by simp
  qed
qed (use assms(1) in \<open>auto simp: agrees_def\<close>)

lemma agrees_call:
  "agrees calls m (Some x) \<Longrightarrow> (\<And>i. agrees calls (f x i) q) \<Longrightarrow> agrees calls (tree_bind m f) q"
  by (drule agrees_bind [where f = f and g = "\<lambda>_. q"]) auto

lemma agrees_pages: "(\<And>x. agrees calls (f x) (g x)) \<Longrightarrow> agrees calls (Option.bind p f) (Option.bind p g)"
  by (cases p) (simp_all add: agrees_def)

lemma agrees_if: "(c \<Longrightarrow> agrees calls m p) \<Longrightarrow> (\<not> c \<Longrightarrow> agrees calls n q) \<Longrightarrow> agrees calls (if c then m else n) (if c then p else q)"
  by simp

abbreviation leaf_stays :: "(nat \<Rightarrow> call_result) \<Rightarrow> bool" where
  "leaf_stays calls \<equiv> \<forall>i. calls i \<noteq> Is_Deleted"

lemma call_agrees: "leaf_stays calls \<Longrightarrow> agrees calls (tree_call calls i) (Some Succeeds)"
  by (cases "calls i") (auto simp: agrees_def tree_call_def)

lemma try_agrees: "leaf_stays calls \<Longrightarrow> agrees calls (tree_try calls i) (Some ())"
  unfolding tree_try_def by (rule agrees_call [OF call_agrees]) (simp_all add: agrees_return)

lemma parent_agrees: "leaf_stays calls \<Longrightarrow> agrees calls (tree_parent calls i) (Some ())"
  unfolding tree_parent_def by (rule agrees_call [OF call_agrees]) (simp_all add: agrees_return)

lemma last_call_agrees: "leaf_stays calls \<Longrightarrow> agrees calls (tree_bind (tree_call calls i) (\<lambda>r i. Some (Some (x, i)))) (Some x)"
  by (rule agrees_call [OF call_agrees]) (simp_all add: agrees_return)

lemma insert_agrees:
  assumes ok: "leaf_stays calls"
  shows "agrees calls (insert_page_record calls i page offset key val) (insert_record page offset key val)"
proof -
  have "agrees calls (do { page \<leftarrow> insert_record page offset key val;
      if offset + (length key + length val + 4) = page_size page
      then tree_bind (tree_call calls i) (\<lambda>update_key i. Some (Some (page, i))) else Some (Some (page, i)) })
    (Option.bind (insert_record page offset key val) Some)" for i
    by (rule agrees_pages) (simp add: last_call_agrees [OF ok] agrees_return)
  then show ?thesis unfolding insert_page_record_def by (intro agrees_call [OF call_agrees [OF ok]]) simp
qed

lemma remove_agrees:
  assumes ok: "leaf_stays calls"
  shows "agrees calls (remove_page_record calls i page offset) (remove_record page offset)"
proof -
  have "agrees calls (do { page \<leftarrow> remove_record page offset;
      if offset = page_size page \<and> page_size page > 0
      then tree_bind (tree_call calls i) (\<lambda>update_key i. Some (Some (page, i))) else Some (Some (page, i)) })
    (Option.bind (remove_record page offset) Some)" for i
    by (rule agrees_pages) (simp add: last_call_agrees [OF ok] agrees_return)
  then show ?thesis unfolding remove_page_record_def by (intro agrees_call [OF call_agrees [OF ok]]) simp
qed

lemma leaf_agrees:
  assumes ok: "leaf_stays calls"
  shows "agrees calls (leaf_with_record calls i key val) (single_page key val)"
proof -
  have "agrees calls (tree_bind (insert_page_record calls i new_page 0 key val) (\<lambda>page i.
      tree_bind (tree_try calls i) (\<lambda>split i. Some (Some (page, i))))) (Option.bind (single_page key val) Some)" for i
    unfolding single_page_def by (intro agrees_bind agrees_call [OF try_agrees] insert_agrees ok agrees_return)
  then show ?thesis unfolding leaf_with_record_def by (intro agrees_call [OF try_agrees [OF ok]]) simp
qed

text \<open>The loop that moves records ends in the tree if it ends on pages, and the other way round.\<close>

lemma move_returns:
  assumes ok: "leaf_stays calls" and "move_rest page new offset = Some r"
  shows "agrees calls (move_records calls i page new offset) (Some r)"
  using assms(2)
proof (induction arbitrary: i rule: move_rest.raw_induct [rotated, consumes 1, case_names loop])
  case (loop f page new offset r)
  show ?case
  proof (cases "offset < page_size page")
    case True
    obtain key val new' page' where s: "page_record page offset = Some (key, val)" "insert_record new (page_size new) key val = Some new'"
        "remove_record page offset = Some page'" "f page' new' offset = Some r"
      using loop(2) True by (auto simp: bind_eq_Some_conv)
    have "agrees calls (move_records calls i page' new' offset) (Some r)" for i by (rule loop(1) [OF s(4)])
    then have "agrees calls (tree_bind (remove_page_record calls i page offset) (\<lambda>page i. move_records calls i page new' offset)) (Some r)" for i
      by (intro agrees_call [OF remove_agrees [OF ok, of i page offset, unfolded s(3)]])
    then have "agrees calls (tree_bind (insert_page_record calls i new (page_size new) key val) (\<lambda>new i.
        tree_bind (remove_page_record calls i page offset) (\<lambda>page i. move_records calls i page new offset))) (Some r)"
      by (intro agrees_call [OF insert_agrees [OF ok, of i new "page_size new" key val, unfolded s(2)]])
    then show ?thesis by (subst move_records.simps) (simp add: True s(1))
  next
    case False
    then show ?thesis using loop(2) by (subst move_records.simps) (simp add: agrees_return)
  qed
qed

lemma agreesD:
  "agrees calls m p \<Longrightarrow> m = Some None \<Longrightarrow> \<exists>i. calls i = Fails"
  "agrees calls m p \<Longrightarrow> m = Some (Some (x, i)) \<Longrightarrow> p = Some x"
  by (simp_all add: agrees_def)

lemma move_result:
  assumes "move_records calls i page new offset = Some r" and ok: "leaf_stays calls"
  shows "case r of None \<Rightarrow> \<exists>i. calls i = Fails | Some (x, i) \<Rightarrow> move_rest page new offset = Some x"
  using assms
proof (induction rule: move_records.raw_induct [rotated, consumes 1, case_names loop])
  case (loop f calls i page new offset r)
  show ?case
  proof (cases "offset < page_size page")
    case True
    then obtain key val where k: "page_record page offset = Some (key, val)" using loop(2) by (auto simp: bind_eq_Some_conv)
    note ia = insert_agrees [OF loop(3), of i new "page_size new" key val]
    let ?m = "insert_page_record calls i new (page_size new) key val"
    obtain r1 where r1: "?m = Some r1" using loop(2) True k by (cases ?m) simp_all
    show ?thesis
    proof (cases r1)
      case None
      then show ?thesis using loop(2) True k r1 agreesD(1) [OF ia] by auto
    next
      case (Some v1)
      obtain new' i1 where v1: "v1 = (new', i1)" by fastforce
      let ?n = "remove_page_record calls i1 page offset"
      note ra = remove_agrees [OF loop(3), of i1 page offset]
      obtain r2 where r2: "?n = Some r2" using loop(2) True k r1 Some v1 by (cases ?n) simp_all
      show ?thesis
      proof (cases r2)
        case None
        then show ?thesis using loop(2) True k r1 Some v1 r2 agreesD(1) [OF ra] by auto
      next
        case s2: (Some v2)
        obtain page' i2 where v2: "v2 = (page', i2)" by fastforce
        have f: "f calls i2 page' new' offset = Some r" using loop(2) True k r1 Some v1 r2 s2 v2 by simp
        have "insert_record new (page_size new) key val = Some new'" using agreesD(2) [OF ia] r1 Some v1 by simp
        moreover have "remove_record page offset = Some page'" using agreesD(2) [OF ra] r2 s2 v2 by simp
        then have "move_rest page new offset = move_rest page' new' offset" using True k calculation by (subst move_rest.simps) simp
        then show ?thesis using loop(1) [OF f loop(3)] by (simp only:)
      qed
    qed
  next
    case False
    then show ?thesis using loop(2) by (subst move_rest.simps) auto
  qed
qed

lemma move_agrees:
  assumes ok: "leaf_stays calls"
  shows "agrees calls (move_records calls i page new offset) (move_rest page new offset)"
proof (cases "move_records calls i page new offset")
  case None
  then show ?thesis using move_returns [OF ok, of page new offset _ i] by (cases "move_rest page new offset") (auto simp: agrees_def)
next
  case (Some r)
  then show ?thesis using move_result [OF Some ok] by (cases r) (auto simp: agrees_def)
qed

text \<open>\<open>put_internal\<close> and \<open>transaction_delete\<close> in the tree do to the pages what they do without the calls.\<close>

lemma put_agrees:
  assumes ok: "leaf_stays calls"
  shows "agrees calls (put_internal calls i page key val) (put_pages page key val)"
proof -
  note rules = agrees_return agrees_if agrees_bind insert_agrees [OF ok] remove_agrees [OF ok] leaf_agrees [OF ok] move_agrees [OF ok]
    agrees_call [OF parent_agrees [OF ok]]
  have rest: "agrees calls
     (do { (next_key, next_value) \<leftarrow> page_record page off;
        tree_bind (leaf_with_record calls i next_key next_value) (\<lambda>new i.
          tree_bind (remove_page_record calls i page off) (\<lambda>page i.
            tree_bind (move_records calls i page new off) (\<lambda>(page, new) i.
              if page_size page + n \<le> MAX_PAGE_SIZE
              then tree_bind (insert_page_record calls i page off key val) (\<lambda>page i. Some (Some ([page, new], i)))
              else tree_bind (tree_parent calls i) (\<lambda>_ i.
                tree_bind (leaf_with_record calls i key val) (\<lambda>single i. Some (Some ([page, single, new], i))))))) })
     (do { (next_key, next_value) \<leftarrow> page_record page off;
        new \<leftarrow> single_page next_key next_value;
        page \<leftarrow> remove_record page off;
        (page, new) \<leftarrow> move_rest page new off;
        if page_size page + n \<le> MAX_PAGE_SIZE
        then do { page \<leftarrow> insert_record page off key val; Some [page, new] }
        else do { single \<leftarrow> single_page key val; Some [page, single, new] } })" for i page off n
    by (rule agrees_pages) (auto simp: split_beta intro!: rules)
  have first: "agrees calls (if found then remove_page_record calls i page off else Some (Some (page, i))) (if found then remove_record page off else Some page)"
    for found off by (intro rules)
  show ?thesis unfolding put_internal_def put_pages_def Let_def
    by (intro agrees_pages agrees_bind [OF first]) (intro rules rest)
qed

lemma delete_agrees:
  assumes ok: "leaf_stays calls"
  shows "agrees calls (delete_page_key calls i page key) (delete_record page key)"
proof -
  have "agrees calls (tree_bind (remove_page_record calls i page off) (\<lambda>page i.
       if page_size page = 0
       then tree_bind (tree_parent calls i) (\<lambda>_ i.
         tree_bind (tree_try calls i) (\<lambda>marked i. tree_bind (tree_try calls i) (\<lambda>merged i. Some (Some (Some page, i)))))
       else Some (Some (Some page, i)))) (Option.bind (remove_record page off) (\<lambda>page. Some (Some page)))" for off
    by (intro agrees_bind [OF remove_agrees [OF ok]])
      (simp add: agrees_return agrees_call [OF parent_agrees [OF ok]] agrees_call [OF try_agrees [OF ok]])
  moreover have "map_option Some p = Option.bind p (\<lambda>page. Some (Some page))" for p :: "btree_page option" by (cases p) simp_all
  ultimately show ?thesis unfolding delete_page_key_def delete_record_def
    by (intro agrees_pages agrees_if) (simp_all add: agrees_return)
qed

lemma agrees_result:
  assumes "agrees calls m (Some x)"
  shows "case m of None \<Rightarrow> \<exists>i. calls i = Never | Some None \<Rightarrow> \<exists>i. calls i = Fails | Some (Some (y, i)) \<Rightarrow> y = x"
  using assms by (auto simp: agrees_def split: option.splits)


text \<open>
  (C29) The search for the value of a key in a page of sorted records stops at a key that is a proper prefix of it: it
  finds the value of the key if no such key is in the page, and else nothing, even if the key is there.
\<close>

theorem page_lookup_correct:
  assumes "page_holds page rs" "sorted_records rs"
  shows "lookup_page_value page key = Some (if \<exists>k \<in> fst ` set rs. strict_prefix k key then None else map_of rs key)"
  using lookup_from [of page "[]" rs key] lookup_records_eq [OF assms(2)] assms(1) by (simp add: lookup_page_value_def)

text \<open>Looking for the next key in a page finds the smallest key that is not smaller.\<close>

theorem page_next_key_correct:
  assumes "page_holds page rs" "sorted_records rs"
  shows "find_key_gte_page page key = Some (case filter (\<lambda>r. key \<le> fst r) rs of [] \<Rightarrow> None | r # _ \<Rightarrow> Some (fst r))"
proof -
  have "(Not \<circ> (\<lambda>r :: rec. key \<le> fst r)) = (\<lambda>r. fst r < key)" by (auto simp: not_le)
  then have "find (\<lambda>r. key \<le> fst r) rs = (case filter (\<lambda>r. key \<le> fst r) rs of [] \<Rightarrow> None | r # _ \<Rightarrow> Some r)"
    by (simp only: find_dropWhile sorted_dropWhile [OF assms(2)])
  then show ?thesis using find_gte_from [of page "[]" rs key] assms(1) by (simp add: find_key_gte_page_def split: list.splits)
qed

lemma delete_record_holds:
  assumes h: "page_holds page rs" and sorted: "sorted_records rs"
  shows "if key \<in> fst ` set rs
     then \<exists>page'. delete_record page key = Some (Some page') \<and> page_holds page' (filter (\<lambda>r. fst r \<noteq> key) rs)
     else delete_record page key = Some None"
proof -
  let ?pre = "takeWhile (\<lambda>r. fst r < key) rs" and ?rest = "dropWhile (\<lambda>r. fst r \<le> key) rs"
  note post = dropWhile_cases [OF sorted, of key]
  have h1: "page_holds page (?pre @ dropWhile (\<lambda>r. fst r < key) rs)" using h by simp
  have keys: "key \<in> fst ` set rs \<longleftrightarrow> map_of rs key \<noteq> None" by (simp add: map_of_eq_None_iff)
  show ?thesis
  proof (cases "map_of rs key")
    case None
    have "compare_page_datum_to_key page (length (encode ?pre)) key \<noteq> Some 0 \<and> compare_page_datum_to_key page (length (encode ?pre)) key \<noteq> None"
    proof (cases ?rest)
      case Nil
      have "dropWhile (\<lambda>r. fst r < key) rs = []" using post unfolding None Nil by (simp only: option.case append_Nil)
      then have "page_holds page ?pre" using h1 by (simp only: append_Nil2)
      then show ?thesis using compare_at_end by simp
    next
      case (Cons r post')
      have "key < fst r" using dropWhile_le [OF sorted, of key] unfolding Cons by (auto simp: filter_eq_Cons_iff dest: sym)
      then show ?thesis using h1 post None Cons compare_at [of page ?pre "fst r" "snd r" post' key] by simp
    qed
    then show ?thesis using None unfolding keys by (auto simp: delete_record_def page_key_offset_eq [OF h])
  next
    case (Some v)
    have h2: "page_holds page (?pre @ (key, v) # ?rest)" using h1 post Some by simp
    obtain p where p: "remove_record page (length (encode ?pre)) = Some p" "page_holds p (?pre @ ?rest)" by (rule remove_at [OF h2])
    have "filter (\<lambda>r. fst r \<noteq> key) rs = ?pre @ ?rest"
    proof -
      have "rs = ?pre @ (key, v) # ?rest" using post Some by (metis append_Cons append_Nil option.simps(5) takeWhile_dropWhile_id)
      moreover have "filter (\<lambda>r. fst r \<noteq> key) (?pre @ (key, v) # ?rest) = ?pre @ ?rest"
        by (auto simp: takeWhile_lt [OF sorted] dropWhile_le [OF sorted] intro!: arg_cong2 [of _ _ _ _ "(@)"] filter_cong)
      ultimately show ?thesis by metis
    qed
    then show ?thesis using Some p compare_at [OF h2] unfolding keys by (simp add: delete_record_def page_key_offset_eq [OF h])
  qed
qed

text \<open>
  Deleting a key removes its record, or tells that it is not there, with an error only if a call on the tree has failed.
\<close>

theorem page_delete_correct:
  assumes h: "page_holds page rs" and sorted: "sorted_records rs" and stays: "\<forall>j. calls j \<noteq> Is_Deleted"
  shows "case delete_page_key calls i page key of
      None \<Rightarrow> \<exists>j. calls j = Never
    | Some None \<Rightarrow> \<exists>j. calls j = Fails
    | Some (Some (None, j)) \<Rightarrow> key \<notin> fst ` set rs
    | Some (Some (Some page', j)) \<Rightarrow> key \<in> fst ` set rs \<and> page_holds page' (filter (\<lambda>r. fst r \<noteq> key) rs)"
proof -
  obtain d where d: "delete_record page key = Some d" "case d of None \<Rightarrow> key \<notin> fst ` set rs
      | Some page' \<Rightarrow> key \<in> fst ` set rs \<and> page_holds page' (filter (\<lambda>r. fst r \<noteq> key) rs)"
  proof (cases "key \<in> fst ` set rs")
    case True
    then obtain page' where "delete_record page key = Some (Some page')" "page_holds page' (filter (\<lambda>r. fst r \<noteq> key) rs)"
      using delete_record_holds [OF h sorted, of key] by (simp only: if_True) blast
    then show ?thesis using that [of "Some page'"] True by simp
  next
    case False
    then show ?thesis using that [of None] delete_record_holds [OF h sorted, of key] by (simp only: if_False option.case) simp
  qed
  have "agrees calls (delete_page_key calls i page key) (Some d)" using delete_agrees [OF stays] unfolding d(1) [symmetric] .
  from agrees_result [OF this] d(2) show ?thesis by (auto split: option.splits)
qed

text \<open>A record that is larger than a page fails an assertion, unless a call on the tree fails before.\<close>

theorem oversized_record_faults:
  assumes "record_size (key, val) > MAX_PAGE_SIZE" "\<forall>j. calls j \<noteq> Is_Deleted" "\<forall>j. calls j \<noteq> Fails"
  shows "put_internal calls i page key val = None"
proof -
  have "insert_record p off key val = None" for p off using assms by (simp add: insert_record_def record_size_def)
  moreover have "single_page key val = None" using assms by (simp add: single_page_def insert_record_def record_size_def)
  moreover have "\<not> n + (length key + length val + 4) \<le> MAX_PAGE_SIZE" for n using assms by (simp add: record_size_def)
  ultimately have "put_pages page key val = None" unfolding put_pages_def by (auto simp: Let_def split: Option.bind_splits prod.splits if_splits)
  then show ?thesis using put_agrees [OF assms(2), of i page key val] assms(3) by (auto simp: agrees_def split: option.splits)
qed

section \<open>Concrete pages\<close>

definition page_of :: "rec list \<Rightarrow> btree_page" where
  "page_of rs = \<lparr>page_size = length (encode rs), page_data = encode rs @ replicate (MAX_PAGE_SIZE - length (encode rs)) 0\<rparr>"

lemma page_of_holds: "length (encode rs) \<le> MAX_PAGE_SIZE \<Longrightarrow> page_holds (page_of rs) rs"
  by (simp add: page_holds_def page_of_def)

text \<open>A page with the keys \<open>a\<close>, \<open>ab\<close> and \<open>b\<close>.\<close>

definition example_records :: "rec list" where
  "example_records = [([97], [1]), ([97, 98], [2]), ([98], [3])]"

lemma example_page: "page_holds (page_of example_records) example_records" "sorted_records example_records"
  by (rule page_of_holds, simp add: example_records_def record_size_def MAX_PAGE_SIZE_def)
    (simp add: sorted_records_def example_records_def)


theorem page_lookup_correct_witness:
  "lookup_page_value (page_of example_records) [98] = Some (Some [3])
    \<and> map_of example_records [97, 98] = Some [2] \<and> lookup_page_value (page_of example_records) [97, 98] = Some None"
  unfolding page_lookup_correct [OF example_page] by (simp add: example_records_def strict_prefix_def)

end
